(* ===== verification/Nession_Prelude.thy ===== *)
theory Nession_Prelude
  imports Complex_Main "HOL-Library.Word" "HOL-Library.AList" "HOL-Library.Sublist"
begin

text \<open>
  Shared vocabulary of the development.

  \<^item> The JavaScript standard library the web client relies on: strings as lists of UTF-16 code
    units, \<open>Map\<close> and \<open>Set\<close> as insertion-ordered lists, \<open>Number.isSafeInteger\<close>, and the
    difference between a call that returns and a call that throws (\<open>outcome\<close>), where the
    mutations made before the throw stay visible.
  \<^item> Interfaces used by several components, as locales: a component driven by events
    (\<open>event_machine\<close>), one that only appends to what it tells its consumer
    (\<open>logging_machine\<close>), and one that owns a cursor which may only move forward within a
    generation (\<open>frontier_machine\<close>). Each component interprets them on its own step function.
\<close>

unbundle bit_operations_syntax

named_theorems js_map_simps "insertion-ordered Map operations"
named_theorems outcome_intros "preservation rules for calls that may throw"

section \<open>Values\<close>

type_synonym byte = "8 word"
type_synonym bytes = "byte list"

text \<open>A JavaScript string is a sequence of 16-bit code units; \<open>js\<close> embeds a literal.\<close>

type_synonym code_unit = "16 word"
type_synonym jsstring = "code_unit list"

definition js :: "string \<Rightarrow> jsstring" where
  "js s = map of_char s"

lemma length_js [simp]: "length (js s) = length s"
  by (simp add: js_def)

lemma js_append [simp]: "js (s @ t) = js s @ js t"
  by (simp add: js_def)

lemma js_Nil [simp]: "js [] = []"
  by (simp add: js_def)

lemma js_inject [simp]: "js s = js t \<longleftrightarrow> s = t"
proof -
  have "inj (of_char :: char \<Rightarrow> code_unit)"
  proof (rule injI)
    fix c d :: char
    assume "(of_char c :: code_unit) = of_char d"
    then have "unat (of_nat (of_char c) :: code_unit) = unat (of_nat (of_char d) :: code_unit)"
      by (simp add: of_nat_of_char)
    moreover have "of_char x < (65536 :: nat)" for x :: char
    proof -
      have "of_char x < (256 :: nat)"
        by (metis of_char_mod_256 mod_less_divisor zero_less_numeral)
      then show ?thesis by (rule less_trans) simp
    qed
    ultimately have "(of_char c :: nat) = of_char d"
      by (simp add: unat_of_nat del: of_nat_of_char)
    then show "c = d" by simp
  qed
  then show ?thesis by (simp add: js_def inj_map_eq_map)
qed

text \<open>\<open>Number.isSafeInteger\<close> on an integral number.\<close>

definition MAX_SAFE_INTEGER :: int where
  "MAX_SAFE_INTEGER = 9007199254740991"

definition isSafeInteger :: "int \<Rightarrow> bool" where
  "isSafeInteger n \<longleftrightarrow> - MAX_SAFE_INTEGER \<le> n \<and> n \<le> MAX_SAFE_INTEGER"

text \<open>The nullish default \<open>v ?? d\<close>.\<close>

fun the_default :: "'a \<Rightarrow> 'a option \<Rightarrow> 'a" where
  "the_default d None = d"
| "the_default d (Some v) = v"

text \<open>\<open>String(n)\<close> of a natural number.\<close>

fun decimal :: "nat \<Rightarrow> string" where
  "decimal n = (if n < 10 then [char_of (48 + n)] else decimal (n div 10) @ [char_of (48 + n mod 10)])"

declare decimal.simps [simp del]

definition digits_value :: "string \<Rightarrow> nat" where
  "digits_value = foldl (\<lambda>v c. 10 * v + (of_char c - 48)) 0"

lemma digits_value_decimal: "digits_value (decimal n) = n"
proof (induction n rule: decimal.induct)
  case (1 n)
  have digit: "of_char (char_of (48 + d)) - 48 = d" if "d < 10" for d :: nat
    using that by simp
  show ?case
  proof (cases "n < 10")
    case True
    then show ?thesis using digit [of n] by (subst decimal.simps) (simp add: digits_value_def)
  next
    case False
    then show ?thesis using 1 digit [of "n mod 10"] by (subst decimal.simps) (simp add: digits_value_def)
  qed
qed

lemma decimal_inject [simp]: "decimal m = decimal n \<longleftrightarrow> m = n"
  by (metis digits_value_decimal)

lemma decimal_digits: "c \<in> set (decimal n) \<Longrightarrow> 48 \<le> (of_char c :: nat) \<and> (of_char c :: nat) \<le> 57"
proof (induction n arbitrary: c rule: decimal.induct)
  case (1 n)
  have digit: "(of_char (char_of (48 + d)) :: nat) = 48 + d" if "d < 10" for d :: nat
    using that by simp
  show ?case
  proof (cases "n < 10")
    case True
    then have "c = char_of (48 + n)" using 1(2) by (simp add: decimal.simps [of n])
    then show ?thesis using digit [of n] True by simp
  next
    case False
    then have "c \<in> set (decimal (n div 10)) \<or> c = char_of (48 + n mod 10)" using 1(2) by (auto simp: decimal.simps [of n])
    then show ?thesis using 1(1) [OF False] digit [of "n mod 10"] by auto
  qed
qed

section \<open>Maps and sets in insertion order\<close>

text \<open>
  \<open>Map.prototype.set\<close> keeps the position of an existing key and appends a new one, which is
  what \<^const>\<open>AList.update\<close> does on an association list; \<open>delete\<close> removes the entry.
\<close>

type_synonym ('k, 'v) jsmap = "('k \<times> 'v) list"

abbreviation map_get :: "('k, 'v) jsmap \<Rightarrow> 'k \<Rightarrow> 'v option" where
  "map_get m k \<equiv> map_of m k"

definition map_has :: "('k, 'v) jsmap \<Rightarrow> 'k \<Rightarrow> bool" where
  "map_has m k \<longleftrightarrow> map_of m k \<noteq> None"

abbreviation map_set :: "'k \<Rightarrow> 'v \<Rightarrow> ('k, 'v) jsmap \<Rightarrow> ('k, 'v) jsmap" where
  "map_set k v m \<equiv> AList.update k v m"

abbreviation map_delete :: "'k \<Rightarrow> ('k, 'v) jsmap \<Rightarrow> ('k, 'v) jsmap" where
  "map_delete k m \<equiv> AList.delete k m"

abbreviation map_keys :: "('k, 'v) jsmap \<Rightarrow> 'k list" where
  "map_keys m \<equiv> map fst m"

definition wf_map :: "('k, 'v) jsmap \<Rightarrow> bool" where
  "wf_map m \<longleftrightarrow> distinct (map fst m)"

lemma wf_map_Nil [simp, js_map_simps]: "wf_map []"
  by (simp add: wf_map_def)

lemma wf_map_set [simp, js_map_simps]: "wf_map (map_set k v m) \<longleftrightarrow> wf_map m"
proof
  show "wf_map m \<Longrightarrow> wf_map (map_set k v m)"
    by (simp add: wf_map_def distinct_update)
next
  have "distinct (map fst (map_set k v m)) \<Longrightarrow> distinct (map fst m)"
    by (induction m) (auto simp: dom_update split: if_splits)
  then show "wf_map (map_set k v m) \<Longrightarrow> wf_map m"
    by (simp add: wf_map_def)
qed

lemma wf_map_delete [simp, js_map_simps]: "wf_map m \<Longrightarrow> wf_map (map_delete k m)"
  by (simp add: wf_map_def distinct_delete)

lemma map_has_iff [js_map_simps]: "map_has m k \<longleftrightarrow> k \<in> fst ` set m"
  by (simp add: map_has_def map_of_eq_None_iff)

lemma map_get_set [simp, js_map_simps]: "map_get (map_set k v m) k' = (if k' = k then Some v else map_get m k')"
  by (simp add: update_conv)

lemma map_get_delete [simp, js_map_simps]: "map_get (map_delete k m) k' = (if k' = k then None else map_get m k')"
  by (simp add: delete_conv)

lemma map_set_fresh: "\<not> map_has m k \<Longrightarrow> map_set k v m = m @ [(k, v)]"
  by (induction m) (auto simp: map_has_def split: if_splits)

lemma wf_map_snoc: "\<not> map_has m k \<Longrightarrow> wf_map (m @ [(k, v)]) \<longleftrightarrow> wf_map m"
  by (metis map_set_fresh wf_map_set)

lemma set_map_delete [js_map_simps]: "set (map_delete k m) = {p \<in> set m. fst p \<noteq> k}"
  by (auto simp: AList.delete_eq)

lemma map_delete_length_less: "map_get m k = Some v \<Longrightarrow> length (map_delete k m) < length m"
proof (induction m)
  case Nil
  then show ?case by simp
next
  case (Cons p m)
  have "length (map_delete k m) \<le> length m"
    by (rule length_delete_le)
  with Cons show ?case
    by (cases p) (auto split: if_splits)
qed

lemma sum_map_set_fresh:
  "\<not> map_has m k \<Longrightarrow> (\<Sum>p\<leftarrow>map_set k v m. f (snd p)) = (\<Sum>p\<leftarrow>m. f (snd p)) + (f v :: int)"
  by (simp add: map_set_fresh)

lemma sum_map_delete:
  assumes "wf_map m" and "map_get m k = Some v"
  shows "(\<Sum>p\<leftarrow>map_delete k m. f (snd p)) = (\<Sum>p\<leftarrow>m. f (snd p)) - (f v :: int)"
  using assms
proof (induction m)
  case Nil
  then show ?case by simp
next
  case (Cons p m)
  obtain k' v' where p: "p = (k', v')" by (cases p)
  show ?case
  proof (cases "k' = k")
    case True
    with Cons.prems p have "k \<notin> fst ` set m" "v' = v"
      by (auto simp: wf_map_def)
    then have "map_delete k m = m" by (simp add: delete_id)
    with True p \<open>v' = v\<close> show ?thesis by simp
  next
    case False
    with Cons p have "(\<Sum>p\<leftarrow>map_delete k m. f (snd p)) = (\<Sum>p\<leftarrow>m. f (snd p)) - f v"
      by (simp add: wf_map_def)
    with False p show ?thesis by simp
  qed
qed

text \<open>\<open>Set.prototype.add\<close> and the duplicate-free spread \<open>[...new Set(xs)]\<close>.\<close>

definition set_add :: "'a \<Rightarrow> 'a list \<Rightarrow> 'a list" where
  "set_add x xs = (if x \<in> set xs then xs else xs @ [x])"

definition set_of_list :: "'a list \<Rightarrow> 'a list" where
  "set_of_list xs = foldl (\<lambda>acc x. set_add x acc) [] xs"

lemma set_set_add [simp]: "set (set_add x xs) = insert x (set xs)"
  by (auto simp: set_add_def)

lemma distinct_set_add [simp]: "distinct (set_add x xs) \<longleftrightarrow> distinct xs"
  by (auto simp: set_add_def)

section \<open>Calls that may throw\<close>

text \<open>
  A method either returns or throws; in both cases the object keeps the mutations made so far.
  \<open>js_then c k\<close> runs \<open>k\<close> after \<open>c\<close> unless \<open>c\<close> threw.
\<close>

datatype 's outcome = Return (state_of: 's) | Throw (state_of: 's)

fun js_then :: "'s outcome \<Rightarrow> ('s \<Rightarrow> 't outcome) \<Rightarrow> ('s \<Rightarrow> 't) \<Rightarrow> 't outcome" where
  "js_then (Return s) k _ = k s"
| "js_then (Throw s) _ thrown = Throw (thrown s)"

abbreviation andthen :: "'s outcome \<Rightarrow> ('s \<Rightarrow> 's outcome) \<Rightarrow> 's outcome" where
  "andthen c k \<equiv> js_then c k (\<lambda>s. s)"

lemma andthen_ReturnE:
  assumes "andthen c k = Return t"
  obtains s where "c = Return s" and "k s = Return t"
  using assms by (cases c) simp_all

definition returned :: "'s outcome \<Rightarrow> bool" where
  "returned c \<longleftrightarrow> (\<exists>s. c = Return s)"

lemma returned_simps [simp]: "returned (Return s)" "\<not> returned (Throw s)"
  by (simp_all add: returned_def)

text \<open>A predicate on the object that survives a call whether or not it throws.\<close>

definition keeps :: "('s \<Rightarrow> bool) \<Rightarrow> 's outcome \<Rightarrow> bool" where
  "keeps P c \<longleftrightarrow> P (state_of c)"

lemma keeps_Return [simp, outcome_intros]: "keeps P (Return s) \<longleftrightarrow> P s"
  by (simp add: keeps_def)

lemma keeps_Throw [simp, outcome_intros]: "keeps P (Throw s) \<longleftrightarrow> P s"
  by (simp add: keeps_def)

lemma keeps_andthen [outcome_intros]:
  "keeps P c \<Longrightarrow> (\<And>s. P s \<Longrightarrow> keeps P (k s)) \<Longrightarrow> keeps P (andthen c k)"
  by (cases c) (auto simp: keeps_def)

lemma keeps_if [outcome_intros]:
  "(b \<Longrightarrow> keeps P c) \<Longrightarrow> (\<not> b \<Longrightarrow> keeps P d) \<Longrightarrow> keeps P (if b then c else d)"
  by simp

section \<open>Lengths in the plane\<close>

text \<open>\<open>Math.hypot\<close> is only compared with thresholds, so a length is carried as its square.\<close>

text \<open>\<open>shorter d2 t\<close>: the length whose square is \<open>d2\<close> is below \<open>t\<close>.\<close>

definition shorter :: "rat \<Rightarrow> rat \<Rightarrow> bool" where
  "shorter d2 t \<longleftrightarrow> 0 < t \<and> d2 < t * t"

definition longer :: "rat \<Rightarrow> rat \<Rightarrow> bool" where
  "longer d2 t \<longleftrightarrow> t < 0 \<or> t * t < d2"

lemma shorter_is_hypot:
  assumes "0 \<le> d2" shows "shorter d2 t \<longleftrightarrow> sqrt (of_rat d2) < of_rat t"
proof (cases "0 < t")
  case True
  then have "sqrt (of_rat d2) < of_rat t \<longleftrightarrow> of_rat d2 < (of_rat t :: real) * of_rat t"
    using real_sqrt_less_iff [of "of_rat d2" "of_rat t * of_rat t"] by (simp add: real_sqrt_mult_self)
  also have "\<dots> \<longleftrightarrow> d2 < t * t" by (simp add: of_rat_mult [symmetric] of_rat_less)
  finally show ?thesis using True by (simp add: shorter_def)
next
  case False
  then have "(of_rat t :: real) \<le> 0" by simp
  moreover have "0 \<le> sqrt (of_rat d2)" using assms by simp
  ultimately have "\<not> sqrt (of_rat d2) < of_rat t" by linarith
  then show ?thesis using False by (simp add: shorter_def)
qed

lemma shorter_mono:
  assumes "shorter d2 s" and "s \<le> t" shows "shorter d2 t"
proof -
  have "s * s \<le> t * t" using assms by (intro mult_mono) (auto simp: shorter_def)
  then show ?thesis using assms unfolding shorter_def by linarith
qed

section \<open>Interfaces\<close>

subsection \<open>Event-driven components\<close>

text \<open>
  A component is an object whose public methods and callbacks are the events it is driven by.
  The contract is an invariant every event keeps; the consequence is that it holds after any
  sequence of events, in any interleaving.
\<close>

locale event_machine =
  fixes step :: "'s \<Rightarrow> 'e \<Rightarrow> 's"
    and inv :: "'s \<Rightarrow> bool"
  assumes step_inv: "inv s \<Longrightarrow> inv (step s e)"
begin

lemma run_inv: "inv s \<Longrightarrow> inv (foldl step s es)"
  by (induction es arbitrary: s) (auto intro: step_inv)

lemma run_append: "foldl step s (es @ es') = foldl step (foldl step s es) es'"
  by simp

lemma run_induct [consumes 1, case_names start step]:
  assumes "inv s" and "P s" and "\<And>t e. inv t \<Longrightarrow> P t \<Longrightarrow> P (step t e)"
  shows "P (foldl step s es)"
  using assms(1,2)
proof (induction es arbitrary: s)
  case Nil
  then show ?case by simp
next
  case (Cons e es)
  then show ?case using assms(3) step_inv by simp
qed

end

subsection \<open>Components that report to a consumer\<close>

text \<open>What has been told to the consumer is never taken back or rewritten.\<close>

locale logging_machine = event_machine step inv
  for step :: "'s \<Rightarrow> 'e \<Rightarrow> 's" and inv :: "'s \<Rightarrow> bool" +
  fixes told :: "'s \<Rightarrow> 'o list"
  assumes step_told: "inv s \<Longrightarrow> prefix (told s) (told (step s e))"
begin

lemma run_told: "inv s \<Longrightarrow> prefix (told s) (told (foldl step s es))"
proof (induction es arbitrary: s)
  case Nil
  then show ?case by simp
next
  case (Cons e es)
  from Cons.prems have "prefix (told s) (told (step s e))" by (rule step_told)
  moreover from Cons have "prefix (told (step s e)) (told (foldl step (step s e) es))"
    using step_inv by blast
  ultimately show ?case by (simp add: prefix_order.trans)
qed

end

subsection \<open>Components that own a cursor\<close>

text \<open>
  A cursor belongs to a generation. Generations only grow, and while the generation is
  unchanged the cursor neither disappears nor moves backwards. A stale callback is recognised
  by its generation, so within one generation the cursor is monotone over any run.
\<close>

locale frontier_machine = event_machine step inv
  for step :: "'s \<Rightarrow> 'e \<Rightarrow> 's" and inv :: "'s \<Rightarrow> bool" +
  fixes gen :: "'s \<Rightarrow> nat"
    and pos :: "'s \<Rightarrow> int option"
  assumes step_gen: "inv s \<Longrightarrow> gen s \<le> gen (step s e)"
    and step_pos: "inv s \<Longrightarrow> gen (step s e) = gen s \<Longrightarrow> pos s = Some n \<Longrightarrow>
      \<exists>m \<ge> n. pos (step s e) = Some m"
begin

lemma run_gen: "inv s \<Longrightarrow> gen s \<le> gen (foldl step s es)"
proof (induction es arbitrary: s)
  case Nil
  then show ?case by simp
next
  case (Cons e es)
  then have "gen s \<le> gen (step s e)" by (simp add: step_gen)
  also from Cons have "\<dots> \<le> gen (foldl step (step s e) es)"
    using step_inv by blast
  finally show ?case by simp
qed

lemma run_pos:
  "inv s \<Longrightarrow> gen (foldl step s es) = gen s \<Longrightarrow> pos s = Some n \<Longrightarrow>
    \<exists>m \<ge> n. pos (foldl step s es) = Some m"
proof (induction es arbitrary: s n)
  case Nil
  then show ?case by simp
next
  case (Cons e es)
  let ?t = "step s e"
  from Cons.prems have inv_t: "inv ?t" by (simp add: step_inv)
  have "gen s \<le> gen ?t" using Cons.prems by (simp add: step_gen)
  moreover have "gen ?t \<le> gen (foldl step ?t es)" using inv_t by (rule run_gen)
  ultimately have same: "gen ?t = gen s" using Cons.prems by simp
  with Cons.prems obtain k where k: "n \<le> k" "pos ?t = Some k"
    using step_pos by blast
  from same Cons.prems have "gen (foldl step ?t es) = gen ?t" by simp
  with Cons.IH [OF inv_t _ k(2)] obtain m where "k \<le> m" "pos (foldl step ?t es) = Some m"
    by blast
  with k(1) show ?case by (auto intro: order.trans)
qed

end

section \<open>List lemmas\<close>

lemma foldl_snoc_map: "foldl (\<lambda>acc x. acc @ [f x]) acc xs = acc @ map f xs"
  by (induction xs arbitrary: acc) auto

lemma sum_list_nonneg_int: "(\<And>x. x \<in> set xs \<Longrightarrow> 0 \<le> f x) \<Longrightarrow> 0 \<le> (\<Sum>x\<leftarrow>xs. (f x :: int))"
  by (induction xs) auto

end
