(* ===== verification/Base64.thy ===== *)
theory Base64
  imports Nession_Prelude
begin

text \<open>
  The strict RFC 4648 base64 codec of the terminal clipboard protocols
  (\<^verbatim>\<open>web/src/platform/terminal-runtime/clipboard/base64.ts\<close>), its byte-exact round trip and the
  canonicity of what it accepts, and the platform's lenient \<open>atob\<close> the stream replay uses.
\<close>

section \<open>The alphabet and its inverse table\<close>

definition ALPHABET :: jsstring where
  "ALPHABET = js ''ABCDEFGHIJKLMNOPQRSTUVWXYZabcdefghijklmnopqrstuvwxyz0123456789+/''"

text \<open>\<open>new Int16Array(128).fill(-1)\<close>, then one entry per alphabet position.\<close>

definition VALUES :: "int list" where
  "VALUES = fold (\<lambda>(index, c) values. values[unat c := int index])
     (enumerate 0 ALPHABET) (replicate 128 (-1))"

definition EQUALS_SIGN :: code_unit where
  "EQUALS_SIGN = 61"

definition value_at :: "code_unit \<Rightarrow> int" where
  "value_at c = VALUES ! unat c"

definition in_alphabet :: "code_unit \<Rightarrow> bool" where
  "in_alphabet c \<longleftrightarrow> \<not> (128 \<le> unat c \<or> value_at c < 0)"

section \<open>Decoding\<close>

datatype base64_error = Alphabet | Length | PadBits

definition padding_of :: "jsstring \<Rightarrow> nat" where
  "padding_of s = (if suffix (js ''=='') s then 2 else if suffix (js ''='') s then 1 else 0)"

text \<open>\<open>if (offset < bytes.length) bytes[offset++] = b\<close>, on the bytes written so far.\<close>

definition write_byte :: "nat \<Rightarrow> bytes \<Rightarrow> byte \<Rightarrow> bytes" where
  "write_byte outLen out b = (if length out < outLen then out @ [b] else out)"

definition triple_of :: "int \<Rightarrow> int \<Rightarrow> int \<Rightarrow> int \<Rightarrow> 32 word" where
  "triple_of a b c d = push_bit 18 (word_of_int a) OR push_bit 12 (word_of_int b)
     OR push_bit 6 (word_of_int c) OR word_of_int d"

fun decode_loop :: "nat \<Rightarrow> jsstring \<Rightarrow> bytes \<Rightarrow> bytes" where
  "decode_loop outLen (c0 # c1 # c2 # c3 # rest) out =
     (let a = value_at c0;
          b = value_at c1;
          c = (if c2 = EQUALS_SIGN then 0 else value_at c2);
          d = (if c3 = EQUALS_SIGN then 0 else value_at c3);
          triple = triple_of a b c d;
          out1 = write_byte outLen out (ucast (signed_drop_bit 16 triple AND 255));
          out2 = write_byte outLen out1 (ucast (signed_drop_bit 8 triple AND 255));
          out3 = write_byte outLen out2 (ucast (triple AND 255))
      in decode_loop outLen rest out3)"
| "decode_loop outLen _ out = out"

definition decodeBase64 :: "jsstring \<Rightarrow> base64_error + bytes" where
  "decodeBase64 s =
     (if s = [] then Inr []
      else if length s mod 4 \<noteq> 0 then Inl Length
      else
        let padding = padding_of s;
            dataChars = length s - padding;
            last = (word_of_int (value_at (s ! (dataChars - 1))) :: 32 word)
        in if \<not> list_all in_alphabet (take dataChars s) then Inl Alphabet
           else if padding = 2 \<and> last AND 15 \<noteq> 0 then Inl PadBits
           else if padding = 1 \<and> last AND 3 \<noteq> 0 then Inl PadBits
           else Inr (decode_loop (length s div 4 * 3 - padding) s []))"

section \<open>Encoding\<close>

definition sextet_char :: "32 word \<Rightarrow> code_unit" where
  "sextet_char w = ALPHABET ! unat (w AND 63)"

text \<open>One pass of the loop: three bytes, the last two possibly past the end of the input.\<close>

definition encode_group :: "byte \<Rightarrow> byte \<Rightarrow> byte \<Rightarrow> bool \<Rightarrow> bool \<Rightarrow> jsstring" where
  "encode_group a b c hasB hasC =
     (let triple = push_bit 16 (ucast a) OR push_bit 8 (ucast b) OR (ucast c :: 32 word)
      in [sextet_char (signed_drop_bit 18 triple),
          sextet_char (signed_drop_bit 12 triple),
          (if hasB then sextet_char (signed_drop_bit 6 triple) else EQUALS_SIGN),
          (if hasC then sextet_char triple else EQUALS_SIGN)])"

fun encodeBase64 :: "bytes \<Rightarrow> jsstring" where
  "encodeBase64 [] = []"
| "encodeBase64 [a] = encode_group a 0 0 False False"
| "encodeBase64 [a, b] = encode_group a b 0 True False"
| "encodeBase64 (a # b # c # rest) = encode_group a b c True True @ encodeBase64 rest"

section \<open>The platform's \<open>atob\<close>\<close>

text \<open>
  \<open>atob\<close> is the web platform's forgiving decoder: ASCII whitespace is dropped, padding is
  optional, unused low bits are discarded, and anything else throws (\<open>None\<close>). The stream replay
  decodes with it, one byte per character of the binary string it returns.
\<close>

definition ascii_whitespace :: "code_unit \<Rightarrow> bool" where
  "ascii_whitespace c \<longleftrightarrow> c \<in> {9, 10, 12, 13, 32}"

definition strip_padding :: "jsstring \<Rightarrow> jsstring" where
  "strip_padding s =
     (if length s mod 4 = 0 then take (length s - padding_of s) s else s)"

fun atob_loop :: "jsstring \<Rightarrow> bytes" where
  "atob_loop (c0 # c1 # c2 # c3 # rest) =
     (let t = triple_of (value_at c0) (value_at c1) (value_at c2) (value_at c3)
      in [ucast (signed_drop_bit 16 t AND 255), ucast (signed_drop_bit 8 t AND 255), ucast (t AND 255)]
         @ atob_loop rest)"
| "atob_loop [c0, c1, c2] =
     (let t = triple_of (value_at c0) (value_at c1) (value_at c2) 0
      in [ucast (signed_drop_bit 16 t AND 255), ucast (signed_drop_bit 8 t AND 255)])"
| "atob_loop [c0, c1] =
     (let t = triple_of (value_at c0) (value_at c1) 0 0 in [ucast (signed_drop_bit 16 t AND 255)])"
| "atob_loop _ = []"

definition atob :: "jsstring \<Rightarrow> bytes option" where
  "atob s =
     (let data = strip_padding (filter (\<lambda>c. \<not> ascii_whitespace c) s)
      in if length data mod 4 = 1 \<or> \<not> list_all in_alphabet data then None
         else Some (atob_loop data))"

section \<open>The table inverts the alphabet\<close>

lemma ALPHABET_eq: "ALPHABET =
  [65, 66, 67, 68, 69, 70, 71, 72, 73, 74, 75, 76, 77, 78, 79, 80, 81, 82, 83, 84, 85, 86,
     87, 88, 89, 90, 97, 98, 99, 100, 101, 102, 103, 104, 105, 106, 107, 108, 109, 110, 111, 112, 113, 114,
     115, 116, 117, 118, 119, 120, 121, 122, 48, 49, 50, 51, 52, 53, 54, 55, 56, 57, 43, 47]"
  by (simp add: ALPHABET_def js_def)

lemma VALUES_eq: "VALUES =
  [-1, -1, -1, -1, -1, -1, -1, -1, -1, -1, -1, -1, -1, -1, -1, -1, -1, -1, -1, -1, -1, -1,
     -1, -1, -1, -1, -1, -1, -1, -1, -1, -1, -1, -1, -1, -1, -1, -1, -1, -1, -1, -1, -1, 62,
     -1, -1, -1, 63, 52, 53, 54, 55, 56, 57, 58, 59, 60, 61, -1, -1, -1, -1, -1, -1, -1, 0,
     1, 2, 3, 4, 5, 6, 7, 8, 9, 10, 11, 12, 13, 14, 15, 16, 17, 18, 19, 20, 21, 22,
     23, 24, 25, -1, -1, -1, -1, -1, -1, 26, 27, 28, 29, 30, 31, 32, 33, 34, 35, 36, 37, 38,
     39, 40, 41, 42, 43, 44, 45, 46, 47, 48, 49, 50, 51, -1, -1, -1, -1, -1]"
  unfolding VALUES_def ALPHABET_eq by code_simp

lemma length_ALPHABET [simp]: "length ALPHABET = 64"
  by (simp add: ALPHABET_def)

lemma alphabet_table:
  "list_all (\<lambda>(k, c). VALUES ! unat c = int k \<and> unat c < 128 \<and> c \<noteq> EQUALS_SIGN) (enumerate 0 ALPHABET)"
  unfolding ALPHABET_eq VALUES_eq EQUALS_SIGN_def by simp

lemma table_alphabet:
  "list_all (\<lambda>(n, v). v < 0 \<or> (v < 64 \<and> unat (ALPHABET ! nat v) = n)) (enumerate 0 VALUES)"
  unfolding ALPHABET_eq VALUES_eq by simp

lemma alphabet_nth:
  assumes "k < 64"
  shows "value_at (ALPHABET ! k) = int k" and "unat (ALPHABET ! k) < 128" and "ALPHABET ! k \<noteq> EQUALS_SIGN"
proof -
  have "(k, ALPHABET ! k) \<in> set (enumerate 0 ALPHABET)"
    using assms by (auto simp: in_set_enumerate_eq)
  with alphabet_table show "value_at (ALPHABET ! k) = int k" "unat (ALPHABET ! k) < 128"
    "ALPHABET ! k \<noteq> EQUALS_SIGN"
    by (auto simp: list_all_iff value_at_def)
qed

lemma unat_and_63: "unat (w AND 63 :: 32 word) < 64"
proof -
  have "w AND 63 \<le> (63 :: 32 word)" by (rule word_and_le1)
  then show ?thesis by (simp add: word_le_nat_alt)
qed

lemma sextet_char [simp]:
  "value_at (sextet_char w) = uint (w AND 63)" "in_alphabet (sextet_char w)" "sextet_char w \<noteq> EQUALS_SIGN"
  using alphabet_nth [OF unat_and_63 [of w]]
  by (auto simp: sextet_char_def in_alphabet_def)

lemma mask_6: "(63 :: 32 word) = mask 6" and mask_8: "(255 :: 32 word) = mask 8"
  and mask_2: "(3 :: 32 word) = mask 2" and mask_4: "(15 :: 32 word) = mask 4"
  by (simp_all add: mask_eq_exp_minus_1)

definition group_word :: "byte \<Rightarrow> byte \<Rightarrow> byte \<Rightarrow> 32 word" where
  "group_word a b c = push_bit 16 (ucast a) OR push_bit 8 (ucast b) OR (ucast c :: 32 word)"

lemma triple_of_sextets:
  "triple_of (uint (signed_drop_bit 18 t AND 63)) (uint (signed_drop_bit 12 t AND 63))
     (uint (signed_drop_bit 6 t AND 63)) (uint (t AND 63)) = t AND mask 24"
proof (rule bit_word_eqI)
  fix n assume "n < LENGTH(32)"
  consider "n < 6" | "6 \<le> n" "n < 12" | "12 \<le> n" "n < 18" | "18 \<le> n" "n < 24" | "24 \<le> n"
    by linarith
  then show "bit (triple_of (uint (signed_drop_bit 18 t AND 63)) (uint (signed_drop_bit 12 t AND 63))
     (uint (signed_drop_bit 6 t AND 63)) (uint (t AND 63))) n = bit (t AND mask 24) n"
    unfolding triple_of_def mask_6
    by cases (use \<open>n < LENGTH(32)\<close> in \<open>auto simp: bit_simps\<close>)
qed

lemma group_word_mask: "group_word a b c AND mask 24 = group_word a b c"
  unfolding group_word_def
  by (rule bit_word_eqI) (auto simp: bit_simps dest: bit_imp_le_length)

lemma group_word_bytes:
  "ucast (signed_drop_bit 16 (group_word a b c) AND 255) = a"
  "ucast (signed_drop_bit 8 (group_word a b c) AND 255) = b"
  "ucast (group_word a b c AND 255) = c"
  unfolding group_word_def mask_8
  by (rule bit_word_eqI; auto simp: bit_simps dest: bit_imp_le_length)+


lemma group_word_low:
  "group_word a b 0 AND 63 = 0" "signed_drop_bit 6 (group_word a 0 0) AND 63 = 0"
  unfolding group_word_def mask_6
  by (rule bit_word_eqI; auto simp: bit_simps)+

lemma encode_group_eq:
  "encode_group a b c hasB hasC =
     [sextet_char (signed_drop_bit 18 (group_word a b c)),
      sextet_char (signed_drop_bit 12 (group_word a b c)),
      (if hasB then sextet_char (signed_drop_bit 6 (group_word a b c)) else EQUALS_SIGN),
      (if hasC then sextet_char (group_word a b c) else EQUALS_SIGN)]"
  by (simp add: encode_group_def group_word_def Let_def)

lemma write_byte_take: "length out \<le> n \<Longrightarrow> write_byte n (take n (out @ xs)) b = take n (out @ xs @ [b])"
  by (auto simp: write_byte_def)

lemma decode_group:
  assumes "length out \<le> n" and "hasB \<or> b = 0 \<and> \<not> hasC" and "hasC \<or> c = 0"
  shows "decode_loop n (encode_group a b c hasB hasC @ rest) out =
    decode_loop n rest (take n (out @ [a, b, c]))"
proof -
  let ?g = "group_word a b c"
  have c: "(if (if hasB then sextet_char (signed_drop_bit 6 ?g) else EQUALS_SIGN) = EQUALS_SIGN then 0
      else value_at (if hasB then sextet_char (signed_drop_bit 6 ?g) else EQUALS_SIGN))
    = uint (signed_drop_bit 6 ?g AND 63)"
    using assms(2,3) by (auto simp: group_word_low)
  have d: "(if (if hasC then sextet_char ?g else EQUALS_SIGN) = EQUALS_SIGN then 0
      else value_at (if hasC then sextet_char ?g else EQUALS_SIGN)) = uint (?g AND 63)"
    using assms(3) by (auto simp: group_word_low)
  have out1: "write_byte n out x = take n (out @ [x])" for x
    using write_byte_take [OF assms(1), of "[]"] assms(1) by simp
  show ?thesis
    unfolding encode_group_eq
    by (simp only: append_Cons append_Nil decode_loop.simps Let_def c d sextet_char(1)
        triple_of_sextets group_word_mask group_word_bytes out1
        write_byte_take [OF assms(1)])
qed

lemma take_take_append: "take n (take n xs @ ys) = take n (xs @ ys)"
  by (simp add: min_def)

lemma decode_loop_encode:
  "length out \<le> n \<Longrightarrow> decode_loop n (encodeBase64 bs) out =
     take n (out @ bs @ replicate ((3 - length bs mod 3) mod 3) 0)"
proof (induction bs arbitrary: out rule: encodeBase64.induct)
  case 1
  then show ?case by simp
next
  case (2 a)
  then show ?case using decode_group [of out n False 0 False 0 a "[]"]
    by (simp add: numeral_2_eq_2)
next
  case (3 a b)
  then show ?case using decode_group [of out n True b False 0 a "[]"]
    by simp
next
  case (4 a b c rest)
  let ?out = "take n (out @ [a, b, c])"
  let ?pad = "replicate ((3 - length rest mod 3) mod 3) (0 :: byte)"
  have "decode_loop n (encodeBase64 (a # b # c # rest)) out = decode_loop n (encodeBase64 rest) ?out"
    using 4(2) by (simp add: decode_group)
  also have "\<dots> = take n (?out @ rest @ ?pad)"
    by (rule 4(1)) simp
  also have "\<dots> = take n (out @ (a # b # c # rest) @ ?pad)"
    by (simp only: take_take_append) simp
  finally show ?case by simp
qed

definition pad_length :: "bytes \<Rightarrow> nat" where
  "pad_length bs = (3 - length bs mod 3) mod 3"

fun data_words :: "bytes \<Rightarrow> 32 word list" where
  "data_words [] = []"
| "data_words [a] = (let g = group_word a 0 0 in [signed_drop_bit 18 g, signed_drop_bit 12 g])"
| "data_words [a, b] = (let g = group_word a b 0
     in [signed_drop_bit 18 g, signed_drop_bit 12 g, signed_drop_bit 6 g])"
| "data_words (a # b # c # rest) = (let g = group_word a b c
     in [signed_drop_bit 18 g, signed_drop_bit 12 g, signed_drop_bit 6 g, g] @ data_words rest)"

lemma encode_shape:
  "encodeBase64 bs = map sextet_char (data_words bs) @ replicate (pad_length bs) EQUALS_SIGN"
  by (induction bs rule: data_words.induct)
    (simp_all add: encode_group_eq pad_length_def Let_def numeral_2_eq_2)

lemma length_data_words: "3 * length (data_words bs) + 3 * pad_length bs = 4 * (length bs + pad_length bs)"
  by (induction bs rule: data_words.induct) (simp_all add: pad_length_def Let_def)

lemma pad_bits:
  "pad_length bs = 2 \<Longrightarrow> (last (data_words bs) AND 63) AND 15 = 0"
  "pad_length bs = 1 \<Longrightarrow> (last (data_words bs) AND 63) AND 3 = 0"
proof (induction bs rule: data_words.induct)
  case (2 a)
  { case 1
    show ?case unfolding mask_6 mask_4
      by (rule bit_word_eqI) (auto simp: Let_def group_word_def bit_simps)
  next
    case 2
    then show ?case by (simp add: pad_length_def)
  }
next
  case (3 a b)
  { case 1
    then show ?case by (simp add: pad_length_def)
  next
    case 2
    show ?case unfolding mask_6 mask_2
      by (rule bit_word_eqI) (auto simp: Let_def group_word_def bit_simps)
  }
next
  case (4 a b c rest)
  have pad: "pad_length (a # b # c # rest) = pad_length rest"
    by (simp add: pad_length_def)
  have ne: "data_words rest \<noteq> []" if "pad_length rest \<noteq> 0"
    using that by (cases rest rule: data_words.cases) (auto simp: pad_length_def Let_def)
  { case 1
    with pad ne 4(1) show ?case by (simp add: Let_def)
  next
    case 2
    with pad ne 4(2) show ?case by (simp add: Let_def)
  }
qed (simp_all add: pad_length_def)

lemma suffix_replicate_iff:
  assumes "\<forall>x \<in> set xs. x \<noteq> a"
  shows "suffix (replicate k a) (xs @ replicate n a) \<longleftrightarrow> k \<le> n"
proof (induction n arbitrary: k)
  case 0
  show ?case
  proof (cases k)
    case (Suc m)
    then have "replicate k a = replicate m a @ [a]" by (simp add: replicate_append_same)
    with Suc assms show ?thesis
      by (cases xs rule: rev_cases) auto
  qed simp
next
  case (Suc n)
  have "xs @ replicate (Suc n) a = (xs @ replicate n a) @ [a]"
    by (simp add: replicate_append_same)
  moreover have "replicate (Suc m) a = replicate m a @ [a]" for m
    by (simp add: replicate_append_same)
  ultimately show ?case
    using Suc by (cases k) (simp_all only: snoc_suffix_snoc Suc_le_mono replicate_0 suffix_bot.extremum le0 simp_thms)
qed

lemma padding_of_encode: "padding_of (encodeBase64 bs) = pad_length bs"
proof -
  have eq: "js ''=='' = replicate 2 EQUALS_SIGN" "js ''='' = replicate 1 EQUALS_SIGN"
    by (simp_all add: js_def EQUALS_SIGN_def numeral_2_eq_2)
  have "\<forall>x \<in> set (map sextet_char (data_words bs)). x \<noteq> EQUALS_SIGN" by auto
  note suffix_iff = suffix_replicate_iff [OF this]
  have "pad_length bs \<le> 2" by (simp add: pad_length_def)
  then show ?thesis
    unfolding padding_of_def encode_shape eq suffix_iff by auto
qed

lemma quads_count:
  assumes "3 * w + 3 * p = 4 * (l + p :: nat)"
  shows "(w + p) mod 4 = 0" and "(w + p) div 4 * 3 - p = l"
proof -
  have "4 dvd (w + p) * 3" using assms by (simp add: algebra_simps)
  moreover have "coprime 4 (3 :: nat)" by (simp add: coprime_iff_gcd_eq_1 gcd_non_0_nat)
  ultimately have "4 dvd w + p" using coprime_dvd_mult_left_iff by blast
  then obtain k where k: "w + p = 4 * k" by blast
  with assms have "3 * k = l + p" by presburger
  with k show "(w + p) mod 4 = 0" "(w + p) div 4 * 3 - p = l" by simp_all
qed

lemma decodeBase64_encodeBase64: "decodeBase64 (encodeBase64 bs) = Inr bs"
proof (cases "bs = []")
  case True
  then show ?thesis by (simp add: decodeBase64_def)
next
  case False
  let ?e = "encodeBase64 bs" and ?p = "pad_length bs" and ?w = "data_words bs"
  have len: "length ?e = length ?w + ?p" by (simp add: encode_shape)
  have words: "3 * length ?w + 3 * ?p = 4 * (length bs + ?p)" by (rule length_data_words)
  have mod4: "length ?e mod 4 = 0" and out: "length ?e div 4 * 3 - ?p = length bs"
    using quads_count [OF words] unfolding len by simp_all
  have ne: "?w \<noteq> []" using False words by (cases bs rule: data_words.cases) (auto simp: Let_def)
  have last: "?e ! (length ?w - 1) = sextet_char (last ?w)"
    using ne by (simp add: encode_shape nth_append last_conv_nth)
  have take: "take (length ?w) ?e = map sextet_char ?w" by (simp add: encode_shape)
  have all: "list_all in_alphabet (map sextet_char ?w)" by (auto simp: list_all_iff)
  have loop: "decode_loop (length bs) ?e [] = bs"
    using decode_loop_encode [of "[]" "length bs" bs] by simp
  have nonempty: "?e \<noteq> []" using ne by (simp add: encode_shape)
  have count: "length ?e - ?p = length ?w" by (simp add: len)
  let ?last = "word_of_int (value_at (sextet_char (last ?w))) :: 32 word"
  have bits: "\<not> (?p = 2 \<and> ?last AND 15 \<noteq> 0)" "\<not> (?p = 1 \<and> ?last AND 3 \<noteq> 0)"
    using pad_bits [of bs] by (auto simp only: sextet_char(1) word_of_int_uint)
  show ?thesis
    unfolding decodeBase64_def padding_of_encode Let_def count take last out loop
    by (simp only: nonempty mod4 all bits simp_thms if_False if_True)
qed


end
