(* ===== verification/Stream_Events.thy ===== *)
theory Stream_Events
  imports Base64
begin

text \<open>
  The vocabulary of the terminal stream
  (\<^verbatim>\<open>web/src/platform/terminal-runtime/streamApply.ts\<close>, \<^verbatim>\<open>bootstrap.ts\<close>): positions, replayed
  events and how they are applied, the bootstrap marker and the stream baseline it can prove, and
  the decoders that read both off the wire.
\<close>

section \<open>Wire values\<close>

text \<open>
  A decoded JSON value. Numbers are integral here: every numeric field of the stream protocol is
  an integer, and the code guards with \<open>Number.isSafeInteger\<close> where it must.
\<close>

datatype json =
    JNull
  | JBool bool
  | JNum int
  | JStr jsstring
  | JArr "json list"
  | JObj "(string, json) jsmap"

fun json_field :: "json \<Rightarrow> string \<Rightarrow> json option" where
  "json_field (JObj fields) key = map_get fields key"
| "json_field _ _ = None"

fun json_int :: "json option \<Rightarrow> int option" where
  "json_int (Some (JNum n)) = Some n"
| "json_int _ = None"

fun json_str :: "json option \<Rightarrow> jsstring option" where
  "json_str (Some (JStr s)) = Some s"
| "json_str _ = None"

section \<open>Positions and events\<close>

record position =
  pos_epoch :: int
  pos_seq :: int

datatype stream_event =
    OutputEvent (ev_epoch: int) (ev_seq: int) (ev_data: jsstring)
  | ResizeEvent (ev_epoch: int) (ev_seq: int) (ev_cols: int) (ev_rows: int)
      (ev_controlGeneration: "int option")

definition event_position :: "stream_event \<Rightarrow> position" where
  "event_position ev = \<lparr>pos_epoch = ev_epoch ev, pos_seq = ev_seq ev\<rparr>"

text \<open>\<open>decodeBase64Bytes\<close>: the bytes of \<open>atob\<close>'s binary string; \<open>None\<close> when \<open>atob\<close> throws.\<close>

definition decodeBase64Bytes :: "jsstring \<Rightarrow> bytes option" where
  "decodeBase64Bytes b64 = atob b64"

text \<open>
  The consumer of applied events. \<open>h_onResize\<close> receives the fourth argument as the call passes it:
  \<open>None\<close> for the three-argument call.
\<close>

record 's stream_handlers =
  h_onOutput :: "bytes \<Rightarrow> position \<Rightarrow> 's \<Rightarrow> 's"
  h_onResize :: "int \<Rightarrow> int \<Rightarrow> position \<Rightarrow> int option \<Rightarrow> 's \<Rightarrow> 's"

fun applyTerminalStreamEvents :: "stream_event list \<Rightarrow> 's stream_handlers \<Rightarrow> 's \<Rightarrow> 's outcome" where
  "applyTerminalStreamEvents [] handlers s = Return s"
| "applyTerminalStreamEvents (event # events) handlers s =
     (let position = event_position event
      in case event of
           OutputEvent _ _ data \<Rightarrow>
             (case decodeBase64Bytes data of
                None \<Rightarrow> Throw s
              | Some bytes \<Rightarrow>
                  applyTerminalStreamEvents events handlers (h_onOutput handlers bytes position s))
         | ResizeEvent _ _ cols rows controlGeneration \<Rightarrow>
             applyTerminalStreamEvents events handlers
               (h_onResize handlers cols rows position controlGeneration s))"

text \<open>\<open>parseStreamEvents\<close>: items that are not well-formed events are skipped.\<close>

definition parse_item :: "json \<Rightarrow> stream_event option" where
  "parse_item item =
     (let kind = json_field item ''kind'' in
      case (json_int (json_field item ''stream_epoch''), json_int (json_field item ''stream_seq'')) of
        (Some streamEpoch, Some streamSeq) \<Rightarrow>
          (case (kind = Some (JStr (js ''output'')), json_str (json_field item ''data'')) of
             (True, Some data) \<Rightarrow> Some (OutputEvent streamEpoch streamSeq data)
           | _ \<Rightarrow>
             (case (kind = Some (JStr (js ''resize'')), json_int (json_field item ''cols''),
                 json_int (json_field item ''rows'')) of
                (True, Some cols, Some rows) \<Rightarrow>
                  Some (ResizeEvent streamEpoch streamSeq cols rows
                    (case json_int (json_field item ''control_generation'') of
                       Some g \<Rightarrow> (if isSafeInteger g \<and> 0 \<le> g then Some g else None)
                     | None \<Rightarrow> None))
              | _ \<Rightarrow> None))
      | _ \<Rightarrow> None)"

definition parseStreamEvents :: "json \<Rightarrow> stream_event list" where
  "parseStreamEvents raw =
     (case raw of JArr items \<Rightarrow> List.map_filter parse_item items | _ \<Rightarrow> [])"

section \<open>Bootstrap snapshots\<close>

datatype cut_consistency = Atomic | Unverified
datatype fidelity = FullVt | ScreenOnly | Partial

record terminal_bootstrap =
  requestedLines :: int
  truncated :: bool
  cutConsistency :: "cut_consistency option"
  fidelity :: "fidelity option"
  bs_streamEpoch :: "int option"
  bs_throughSeq :: "int option"
  paneCols :: "int option"
  paneRows :: "int option"

record verified_baseline =
  vb_streamEpoch :: int
  vb_appliedThrough :: int

definition safe_int_opt :: "int option \<Rightarrow> bool" where
  "safe_int_opt v = (case v of None \<Rightarrow> False | Some n \<Rightarrow> isSafeInteger n)"

definition streamBaselineFromBootstrap :: "terminal_bootstrap option \<Rightarrow> verified_baseline option" where
  "streamBaselineFromBootstrap bootstrap =
     (case bootstrap of
        None \<Rightarrow> None
      | Some b \<Rightarrow>
          if cutConsistency b \<noteq> Some Atomic then None
          else
            let epoch = bs_streamEpoch b; through = bs_throughSeq b
            in if \<not> safe_int_opt epoch \<or> the_default 0 epoch \<le> 0
                 \<or> \<not> safe_int_opt through \<or> the_default (-1) through < 0 then None
               else if 0 < the_default 0 through \<and> truncated b then None
               else Some \<lparr>vb_streamEpoch = the_default 0 epoch, vb_appliedThrough = the_default 0 through\<rparr>)"

definition provesVerifiedBootstrapRepair :: "terminal_bootstrap option \<Rightarrow> bool" where
  "provesVerifiedBootstrapRepair bootstrap =
     (case bootstrap of
        None \<Rightarrow> False
      | Some b \<Rightarrow> cutConsistency b = Some Atomic
          \<and> fidelity b = Some FullVt
          \<and> \<not> truncated b
          \<and> safe_int_opt (bs_streamEpoch b) \<and> 0 < the_default 0 (bs_streamEpoch b)
          \<and> safe_int_opt (bs_throughSeq b) \<and> 0 \<le> the_default (-1) (bs_throughSeq b))"

definition isPlausiblePaneSize :: "json option \<Rightarrow> bool" where
  "isPlausiblePaneSize v =
     (case v of Some (JNum n) \<Rightarrow> isSafeInteger n \<and> 2 \<le> n \<and> n \<le> 1000 | _ \<Rightarrow> False)"

definition decodeBootstrapMarker :: "json option \<Rightarrow> terminal_bootstrap option" where
  "decodeBootstrapMarker raw =
     (case raw of
        None \<Rightarrow> None
      | Some JNull \<Rightarrow> None
      | Some payload \<Rightarrow>
          let field = json_field payload;
              pane = isPlausiblePaneSize (field ''pane_cols'') \<and> isPlausiblePaneSize (field ''pane_rows'')
          in Some \<lparr>
            requestedLines = the_default 0 (json_int (field ''requested_lines'')),
            truncated = (field ''truncated'' \<noteq> Some (JBool False)),
            cutConsistency =
              (if field ''cut_consistency'' = Some (JStr (js ''atomic'')) then Some Atomic
               else if field ''cut_consistency'' = Some (JStr (js ''unverified'')) then Some Unverified
               else None),
            fidelity =
              (if field ''fidelity'' = Some (JStr (js ''full-vt'')) then Some FullVt
               else if field ''fidelity'' = Some (JStr (js ''screen-only'')) then Some ScreenOnly
               else if field ''fidelity'' = Some (JStr (js ''partial'')) then Some Partial
               else None),
            bs_streamEpoch =
              (case field ''stream_epoch'' of
                 Some (JNum n) \<Rightarrow> (if isSafeInteger n \<and> 0 < n then Some n else None) | _ \<Rightarrow> None),
            bs_throughSeq =
              (case field ''through_seq'' of
                 Some (JNum n) \<Rightarrow> (if isSafeInteger n \<and> 0 \<le> n then Some n else None) | _ \<Rightarrow> None),
            paneCols = (if pane then json_int (field ''pane_cols'') else None),
            paneRows = (if pane then json_int (field ''pane_rows'') else None)\<rparr>)"

end
