(* ===== verification/Stream_Reconciler.thy ===== *)
theory Stream_Reconciler
  imports Stream_Events
begin

text \<open>
  The ordered stream reconciler, the single owner of the terminal stream cursor
  (\<^verbatim>\<open>web/src/platform/terminal-runtime/streamReconciler.ts\<close>).

  The object is a record; every public method, every promise callback and the deadline timer is
  one function from the object to an \<open>outcome\<close>. The two collaborators are write-only:
  \<open>sr_sink\<close> collects the calls made to the \<open>StreamSink\<close> and \<open>sr_resumes\<close> the requests sent through
  \<open>resume\<close>, in order. A \<open>Flight\<close> object is compared by identity in the code, so it carries a
  number that is fresh for every request. A buffered frame's closure \<open>apply\<close> is the data it
  captures (\<open>frame_apply\<close>); the only one that can throw is a replayed output whose base64
  \<open>atob\<close> refuses.
\<close>

section \<open>Data\<close>

definition DEFAULT_PENDING_MAX_BYTES :: int where "DEFAULT_PENDING_MAX_BYTES = 2 * 1024 * 1024"
definition DEFAULT_PENDING_MAX_FRAMES :: int where "DEFAULT_PENDING_MAX_FRAMES = 1024"
definition PENDING_FRAME_OVERHEAD :: int where "PENDING_FRAME_OVERHEAD = 128"
definition HOLE_ATTEMPT_LIMIT :: nat where "HOLE_ATTEMPT_LIMIT = 3"

datatype sink_call =
    OnOutput bytes "terminal_bootstrap option" "position option"
  | OnResize int int "position option" "int option"
  | OnStreamTruncated

datatype pending_kind = Output | Resize

datatype frame_apply =
    ApplyOutput bytes "terminal_bootstrap option" position
  | ApplyResize int int position "int option"
  | ApplyReplay stream_event

record pending_frame =
  pf_seq :: int
  pf_kind :: pending_kind
  pf_superseded :: bool
  pf_bytes :: int
  pf_apply :: frame_apply

record flight =
  fl_id :: nat
  fl_generation :: nat
  fl_afterSeq :: int

record live_frame =
  lf_data :: bytes
  lf_streamEpoch :: "int option"
  lf_streamSeq :: "int option"
  lf_bootstrap :: "terminal_bootstrap option"

record live_resize_frame =
  lr_cols :: int
  lr_rows :: int
  lr_streamEpoch :: int
  lr_streamSeq :: int
  lr_controlGeneration :: "int option"

record resume_reply =
  rr_streamEpoch :: int
  rr_epochMatch :: bool
  rr_firstAvailableSeq :: "int option"
  rr_complete :: "bool option"
  rr_events :: "stream_event list"

record reconciler =
  sr_epoch :: "int option"
  sr_frontier :: "int option"
  sr_pending :: "(int, pending_frame) jsmap"
  sr_pendingBytes :: int
  sr_maxBytes :: int
  sr_maxFrames :: int
  sr_generation :: nat
  sr_inFlight :: "flight option"
  sr_attemptsFor :: int
  sr_attempts :: nat
  sr_wantHistory :: bool
  sr_disposed :: bool
  sr_sink :: "sink_call list"
  sr_resumes :: "(int \<times> int \<times> flight) list"

text \<open>The constructor: \<open>None\<close> is the \<open>RangeError\<close>.\<close>

definition new_reconciler :: "int option \<Rightarrow> int option \<Rightarrow> reconciler option" where
  "new_reconciler maxBytes maxFrames =
     (let mb = the_default DEFAULT_PENDING_MAX_BYTES maxBytes;
          mf = the_default DEFAULT_PENDING_MAX_FRAMES maxFrames
      in if \<not> isSafeInteger mb \<or> mb < 1 \<or> \<not> isSafeInteger mf \<or> mf < 1 then None
         else Some \<lparr>sr_epoch = None, sr_frontier = None, sr_pending = [], sr_pendingBytes = 0,
           sr_maxBytes = mb, sr_maxFrames = mf, sr_generation = 0, sr_inFlight = None,
           sr_attemptsFor = -1, sr_attempts = 0, sr_wantHistory = False, sr_disposed = False,
           sr_sink = [], sr_resumes = []\<rparr>)"

definition pendingUsage :: "reconciler \<Rightarrow> int \<times> int" where
  "pendingUsage s = (int (length (sr_pending s)), sr_pendingBytes s)"

section \<open>Private operations\<close>

definition sink :: "sink_call \<Rightarrow> reconciler \<Rightarrow> reconciler" where
  "sink call s = s\<lparr>sr_sink := sr_sink s @ [call]\<rparr>"

text \<open>
  The handlers a replayed event is applied with. The resize handler takes three parameters, so
  the fourth argument of the call, the event's control generation, is not forwarded.
\<close>

definition replay_handlers :: "reconciler stream_handlers" where
  "replay_handlers = \<lparr>
     h_onOutput = (\<lambda>data position. sink (OnOutput data None (Some position))),
     h_onResize = (\<lambda>cols rows position _. sink (OnResize cols rows (Some position) None))\<rparr>"

fun run_apply :: "frame_apply \<Rightarrow> reconciler \<Rightarrow> reconciler outcome" where
  "run_apply (ApplyOutput data bootstrap position) s =
     Return (sink (OnOutput data bootstrap (Some position)) s)"
| "run_apply (ApplyResize cols rows position controlGeneration) s =
     Return (sink (OnResize cols rows (Some position) controlGeneration) s)"
| "run_apply (ApplyReplay event) s = applyTerminalStreamEvents [event] replay_handlers s"

definition reset :: "int option \<Rightarrow> reconciler \<Rightarrow> reconciler" where
  "reset epoch s = s\<lparr>sr_epoch := epoch, sr_frontier := None, sr_pending := [], sr_pendingBytes := 0,
     sr_attemptsFor := -1, sr_attempts := 0, sr_wantHistory := False, sr_inFlight := None,
     sr_generation := Suc (sr_generation s)\<rparr>"

definition forgetFrame :: "int \<Rightarrow> reconciler \<Rightarrow> reconciler" where
  "forgetFrame seq s =
     (case map_get (sr_pending s) seq of
        None \<Rightarrow> s
      | Some frame \<Rightarrow> s\<lparr>sr_pendingBytes := sr_pendingBytes s - pf_bytes frame,
                         sr_pending := map_delete seq (sr_pending s)\<rparr>)"

text \<open>\<open>this.frontier !== null && seq <= this.frontier\<close>\<close>

definition behind :: "reconciler \<Rightarrow> int \<Rightarrow> bool" where
  "behind s seq = (case sr_frontier s of None \<Rightarrow> False | Some f \<Rightarrow> seq \<le> f)"

definition overflow_reset :: "int \<Rightarrow> reconciler \<Rightarrow> reconciler" where
  "overflow_reset seq s = (sink OnStreamTruncated s)\<lparr>sr_pending := [], sr_pendingBytes := 0,
     sr_generation := Suc (sr_generation s), sr_inFlight := None, sr_wantHistory := False,
     sr_attemptsFor := -1, sr_attempts := 0,
     sr_frontier := Some (max (the_default 0 (sr_frontier s)) (seq - 1))\<rparr>"

definition keepFrame :: "pending_frame \<Rightarrow> reconciler \<Rightarrow> reconciler outcome" where
  "keepFrame frame s =
     (if map_has (sr_pending s) (pf_seq frame) \<or> behind s (pf_seq frame) then Return s
      else
        let s1 = (if sr_maxFrames s \<le> int (length (sr_pending s))
                    \<or> sr_maxBytes s < sr_pendingBytes s + pf_bytes frame
                  then overflow_reset (pf_seq frame) s else s)
        in if sr_maxBytes s1 < pf_bytes frame
           then andthen (run_apply (pf_apply frame) s1)
             (\<lambda>s2. Return (s2\<lparr>sr_frontier := Some (max (the_default 0 (sr_frontier s2)) (pf_seq frame))\<rparr>))
           else Return (s1\<lparr>sr_pending := map_set (pf_seq frame) frame (sr_pending s1),
                           sr_pendingBytes := sr_pendingBytes s1 + pf_bytes frame\<rparr>))"

definition noteAttempt :: "int \<Rightarrow> reconciler \<Rightarrow> reconciler" where
  "noteAttempt position s =
     (if sr_attemptsFor s = position then s\<lparr>sr_attempts := Suc (sr_attempts s)\<rparr>
      else s\<lparr>sr_attemptsFor := position, sr_attempts := 1\<rparr>)"

definition attemptsAt :: "int \<Rightarrow> reconciler \<Rightarrow> nat" where
  "attemptsAt position s = (if sr_attemptsFor s = position then sr_attempts s else 0)"

text \<open>\<open>lowestPendingSeq\<close> folds the keys from \<open>+\<infinity>\<close>; it is only called on a non-empty map.\<close>

fun lowest_from :: "int option \<Rightarrow> int list \<Rightarrow> int option" where
  "lowest_from lowest [] = lowest"
| "lowest_from lowest (seq # seqs) =
     (case lowest of
        None \<Rightarrow> lowest_from (Some seq) seqs
      | Some l \<Rightarrow> lowest_from (Some (if seq < l then seq else l)) seqs)"

definition lowestPendingSeq :: "(int, pending_frame) jsmap \<Rightarrow> int option" where
  "lowestPendingSeq pending = lowest_from None (map_keys pending)"

definition anchor :: "reconciler \<Rightarrow> reconciler" where
  "anchor s =
     (if sr_frontier s \<noteq> None \<or> sr_pending s = [] then s
      else s\<lparr>sr_frontier := map_option (\<lambda>l. l - 1) (lowestPendingSeq (sr_pending s))\<rparr>)"

definition discard_behind :: "reconciler \<Rightarrow> reconciler" where
  "discard_behind s =
     foldl (\<lambda>t seq. if behind t seq then forgetFrame seq t else t) s (map_keys (sr_pending s))"

text \<open>
  The committing loop of \<open>drain\<close>. It stops because every pass removes an entry of \<open>pending\<close>, which
  no \<open>apply\<close> touches.
\<close>

lemma sink_simps [simp]:
  "sr_epoch (sink c s) = sr_epoch s" "sr_frontier (sink c s) = sr_frontier s"
  "sr_pending (sink c s) = sr_pending s" "sr_pendingBytes (sink c s) = sr_pendingBytes s"
  "sr_maxBytes (sink c s) = sr_maxBytes s" "sr_maxFrames (sink c s) = sr_maxFrames s"
  "sr_generation (sink c s) = sr_generation s" "sr_inFlight (sink c s) = sr_inFlight s"
  "sr_attemptsFor (sink c s) = sr_attemptsFor s" "sr_attempts (sink c s) = sr_attempts s"
  "sr_wantHistory (sink c s) = sr_wantHistory s" "sr_disposed (sink c s) = sr_disposed s"
  "sr_sink (sink c s) = sr_sink s @ [c]" "sr_resumes (sink c s) = sr_resumes s"
  by (simp_all add: sink_def)

lemma run_apply_cases:
  "run_apply a s = Throw s \<or> (\<exists>c. run_apply a s = Return (sink c s))"
  by (cases a) (auto simp: replay_handlers_def Let_def split: stream_event.splits option.splits)

lemma run_apply_pending [termination_simp]:
  "run_apply a s = Return t \<Longrightarrow> sr_pending t = sr_pending s"
  using run_apply_cases [of a s] by auto

lemma forgetFrame_length [termination_simp]:
  "map_get (sr_pending s) seq = Some frame \<Longrightarrow>
     length (sr_pending (forgetFrame seq s)) < length (sr_pending s)"
  by (simp add: forgetFrame_def map_delete_length_less)

function commit_loop :: "reconciler \<Rightarrow> reconciler outcome" where
  "commit_loop s =
     (case sr_frontier s of
        None \<Rightarrow> Return s
      | Some f \<Rightarrow>
          (case map_get (sr_pending s) (f + 1) of
             None \<Rightarrow> Return s
           | Some frame \<Rightarrow>
               let s1 = (forgetFrame (f + 1) s)\<lparr>sr_frontier := Some (f + 1)\<rparr>
               in if pf_superseded frame then commit_loop s1
                  else (case run_apply (pf_apply frame) s1 of
                          Return s2 \<Rightarrow> commit_loop s2
                        | Throw s2 \<Rightarrow> Throw s2)))"
  by pat_completeness auto
termination
  by (relation "measure (\<lambda>s. length (sr_pending s))")
    (auto dest!: run_apply_pending intro: forgetFrame_length)

declare commit_loop.simps [simp del]

definition drain :: "reconciler \<Rightarrow> reconciler outcome" where
  "drain s = commit_loop (if sr_frontier s \<noteq> None then discard_behind s else s)"

definition skipHole :: "int \<Rightarrow> reconciler \<Rightarrow> reconciler outcome" where
  "skipHole toExclusive s =
     (let held = (if sr_pending s \<noteq> [] then the_default toExclusive (lowestPendingSeq (sr_pending s))
                  else toExclusive);
          anchor = min toExclusive held - 1;
          s1 = (if (case sr_frontier s of None \<Rightarrow> True | Some f \<Rightarrow> f < anchor)
                then s\<lparr>sr_frontier := Some anchor\<rparr> else s)
      in drain s1)"

definition abandon :: "reconciler \<Rightarrow> reconciler outcome" where
  "abandon s =
     (let s1 = s\<lparr>sr_attemptsFor := -1, sr_attempts := 0, sr_wantHistory := False\<rparr>
      in if sr_pending s1 \<noteq> []
         then skipHole (the_default 0 (lowestPendingSeq (sr_pending s1))) (sink OnStreamTruncated s1)
         else Return s1)"

definition recover :: "reconciler \<Rightarrow> reconciler outcome" where
  "recover s =
     (case sr_epoch s of
        None \<Rightarrow> Return s
      | Some epoch \<Rightarrow>
          if sr_disposed s \<or> sr_inFlight s \<noteq> None then Return s
          else if sr_pending s = [] \<and> \<not> sr_wantHistory s then Return s
          else
            let afterSeq = the_default 0 (sr_frontier s)
            in if HOLE_ATTEMPT_LIMIT \<le> attemptsAt afterSeq s then abandon s
               else
                 let flight = \<lparr>fl_id = length (sr_resumes s), fl_generation = sr_generation s,
                               fl_afterSeq = afterSeq\<rparr>
                 in Return (s\<lparr>sr_inFlight := Some flight,
                              sr_resumes := sr_resumes s @ [(epoch, afterSeq, flight)]\<rparr>))"

definition accept :: "int \<Rightarrow> int \<Rightarrow> pending_kind \<Rightarrow> frame_apply \<Rightarrow> int \<Rightarrow> reconciler \<Rightarrow> reconciler outcome" where
  "accept epoch seq kind apply bytes s =
     (if sr_disposed s then Return s
      else
        let anchors = (sr_epoch s = None \<or> sr_frontier s = None);
            epochChanged = (sr_epoch s \<noteq> None \<and> sr_epoch s \<noteq> Some epoch);
            s1 = (if anchors \<or> epochChanged then reset (Some epoch) s else s)
        in if behind s1 seq then Return s1
           else if \<not> epochChanged \<and> sr_pending s1 = []
             \<and> (case sr_frontier s1 of None \<Rightarrow> True | Some f \<Rightarrow> seq = f + 1)
           then andthen (run_apply apply (s1\<lparr>sr_frontier := Some seq\<rparr>)) recover
           else
             andthen
               (if map_has (sr_pending s1) seq then Return s1
                else keepFrame \<lparr>pf_seq = seq, pf_kind = kind, pf_superseded = False,
                                 pf_bytes = bytes, pf_apply = apply\<rparr> s1)
               (\<lambda>s2. andthen (drain (if anchors then anchor s2 else s2)) recover))"

section \<open>Public operations, promise callbacks and the deadline\<close>

definition acceptLive :: "live_frame \<Rightarrow> reconciler \<Rightarrow> reconciler outcome" where
  "acceptLive frame s =
     (if sr_disposed s then Return s
      else case (lf_streamEpoch frame, lf_streamSeq frame) of
        (Some epoch, Some seq) \<Rightarrow>
          accept epoch seq Output
            (ApplyOutput (lf_data frame) (lf_bootstrap frame) \<lparr>pos_epoch = epoch, pos_seq = seq\<rparr>)
            (int (length (lf_data frame)) + PENDING_FRAME_OVERHEAD) s
      | _ \<Rightarrow> Return (sink (OnOutput (lf_data frame) (lf_bootstrap frame) None) s))"

definition acceptLiveResize :: "live_resize_frame \<Rightarrow> reconciler \<Rightarrow> reconciler outcome" where
  "acceptLiveResize frame s =
     (if sr_disposed s then Return s
      else accept (lr_streamEpoch frame) (lr_streamSeq frame) Resize
        (ApplyResize (lr_cols frame) (lr_rows frame)
          \<lparr>pos_epoch = lr_streamEpoch frame, pos_seq = lr_streamSeq frame\<rparr> (lr_controlGeneration frame))
        PENDING_FRAME_OVERHEAD s)"

definition supersedeBufferedResizes :: "reconciler \<Rightarrow> reconciler" where
  "supersedeBufferedResizes s = s\<lparr>sr_pending :=
     map (\<lambda>(seq, frame). (seq, if pf_kind frame = Resize then frame\<lparr>pf_superseded := True\<rparr> else frame))
       (sr_pending s)\<rparr>"

definition acceptLevelResize :: "int \<Rightarrow> int \<Rightarrow> reconciler \<Rightarrow> reconciler outcome" where
  "acceptLevelResize cols rows s =
     (if sr_disposed s then Return s
      else Return (sink (OnResize cols rows None None) (supersedeBufferedResizes s)))"

definition seed :: "int option \<Rightarrow> int option \<Rightarrow> bool \<Rightarrow> reconciler \<Rightarrow> reconciler outcome" where
  "seed epoch cursor preserveAppliedCursor s =
     (case epoch of
        None \<Rightarrow> Return s
      | Some e \<Rightarrow>
          if sr_disposed s then Return s
          else
            let continuing = (preserveAppliedCursor \<and> sr_epoch s = Some e \<and> sr_frontier s \<noteq> None);
                lostEpoch = (preserveAppliedCursor \<and> sr_epoch s \<noteq> None \<and> sr_epoch s \<noteq> Some e);
                s1 = (if sr_epoch s \<noteq> Some e
                      then (let t = reset (Some e) s in if lostEpoch then sink OnStreamTruncated t else t)
                      else s);
                s2 = (case cursor of
                        None \<Rightarrow> s1
                      | Some c \<Rightarrow>
                          if \<not> continuing \<and> (case sr_frontier s1 of None \<Rightarrow> True | Some f \<Rightarrow> f < c)
                          then s1\<lparr>sr_frontier := Some c\<rparr> else s1)
            in andthen (drain (s2\<lparr>sr_wantHistory := True\<rparr>)) recover)"

definition dispose :: "reconciler \<Rightarrow> reconciler" where
  "dispose s = reset None (s\<lparr>sr_disposed := True\<rparr>)"

definition invalidateContinuity :: "reconciler \<Rightarrow> reconciler" where
  "invalidateContinuity s = (if sr_disposed s then s else reset None s)"

definition replay_frame :: "stream_event \<Rightarrow> pending_frame" where
  "replay_frame event = \<lparr>pf_seq = ev_seq event,
     pf_kind = (case event of OutputEvent _ _ _ \<Rightarrow> Output | ResizeEvent _ _ _ _ _ \<Rightarrow> Resize),
     pf_superseded = False,
     pf_bytes = (case event of
         OutputEvent _ _ data \<Rightarrow> int (length data) * 2 + PENDING_FRAME_OVERHEAD
       | ResizeEvent _ _ _ _ _ \<Rightarrow> PENDING_FRAME_OVERHEAD),
     pf_apply = ApplyReplay event\<rparr>"

definition merge_event :: "stream_event \<Rightarrow> reconciler \<Rightarrow> reconciler outcome" where
  "merge_event event s =
     (if sr_epoch s \<noteq> Some (ev_epoch event) then Return s
      else if behind s (ev_seq event) then Return s
      else if sr_pending s = [] \<and> sr_frontier s = Some (ev_seq event - 1)
      then applyTerminalStreamEvents [event] replay_handlers (s\<lparr>sr_frontier := Some (ev_seq event)\<rparr>)
      else if \<not> map_has (sr_pending s) (ev_seq event)
      then andthen (keepFrame (replay_frame event) s) drain
      else Return s)"

fun merge_events :: "stream_event list \<Rightarrow> reconciler \<Rightarrow> reconciler outcome" where
  "merge_events [] s = Return s"
| "merge_events (event # events) s = andthen (merge_event event s) (merge_events events)"

definition clear_flight :: "flight \<Rightarrow> reconciler \<Rightarrow> reconciler" where
  "clear_flight flight s = (if sr_inFlight s = Some flight then s\<lparr>sr_inFlight := None\<rparr> else s)"

definition onReply :: "flight \<Rightarrow> resume_reply \<Rightarrow> reconciler \<Rightarrow> reconciler outcome" where
  "onReply flight reply s =
     (if sr_disposed s \<or> fl_generation flight \<noteq> sr_generation s then Return s
      else
        let s1 = (clear_flight flight s)\<lparr>sr_wantHistory := False\<rparr>;
            s2 = (if \<not> rr_epochMatch reply then reset (Some (rr_streamEpoch reply)) s1 else s1)
        in andthen (merge_events (rr_events reply) s2) (\<lambda>s3.
           andthen
             (if rr_complete reply = Some False
              then (case rr_firstAvailableSeq reply of
                      None \<Rightarrow> Return (sink OnStreamTruncated s3)
                    | Some available \<Rightarrow> skipHole available (sink OnStreamTruncated s3))
              else Return s3) (\<lambda>s4.
           andthen (drain (noteAttempt (fl_afterSeq flight) (anchor s4))) recover)))"

definition onReplyFailed :: "flight \<Rightarrow> reconciler \<Rightarrow> reconciler outcome" where
  "onReplyFailed flight s =
     (if sr_disposed s \<or> fl_generation flight \<noteq> sr_generation s then Return s
      else
        let s1 = noteAttempt (fl_afterSeq flight) (clear_flight flight s)
        in if sr_frontier s1 = None then drain (anchor s1) else recover s1)"

definition onDeadline :: "flight \<Rightarrow> reconciler \<Rightarrow> reconciler outcome" where
  "onDeadline flight s =
     (if sr_disposed s \<or> sr_inFlight s \<noteq> Some flight then Return s
      else abandon (s\<lparr>sr_inFlight := None\<rparr>))"

section \<open>The reconciler as an event machine\<close>

datatype reconciler_event =
    LiveFrame live_frame
  | LiveResize live_resize_frame
  | LevelResize int int
  | Seed "int option" "int option" bool
  | InvalidateContinuity
  | Dispose
  | Reply flight resume_reply
  | ReplyFailed flight
  | Deadline flight

fun handle :: "reconciler_event \<Rightarrow> reconciler \<Rightarrow> reconciler outcome" where
  "handle (LiveFrame frame) s = acceptLive frame s"
| "handle (LiveResize frame) s = acceptLiveResize frame s"
| "handle (LevelResize cols rows) s = acceptLevelResize cols rows s"
| "handle (Seed epoch cursor preserve) s = seed epoch cursor preserve s"
| "handle InvalidateContinuity s = Return (invalidateContinuity s)"
| "handle Dispose s = Return (dispose s)"
| "handle (Reply flight reply) s = onReply flight reply s"
| "handle (ReplyFailed flight) s = onReplyFailed flight s"
| "handle (Deadline flight) s = onDeadline flight s"

definition reconciler_step :: "reconciler \<Rightarrow> reconciler_event \<Rightarrow> reconciler" where
  "reconciler_step s e = state_of (handle e s)"

end
