(* ===== verification/Stream_Delivery.thy ===== *)
theory Stream_Delivery
  imports Stream_Reconciler
begin

text \<open>
  What the reconciler guarantees about delivery. \<open>accounted\<close> is the bookkeeping of the hold
  buffer, \<open>progress\<close> and \<open>lossless\<close> relate two states of one reconciler: the frontier never moves
  back within a generation and everything told to the sink in between is strictly ordered, and
  without a stated truncation nothing in between is missing. The \<open>good_\<close> lemmas show that every
  operation satisfies all three, the \<open>settles_\<close> lemmas that no frame stays buffered at or below
  the frontier, or directly above it.
\<close>

section \<open>Invariant and progress\<close>

fun apply_position :: "frame_apply \<Rightarrow> position" where
  "apply_position (ApplyOutput _ _ p) = p"
| "apply_position (ApplyResize _ _ p _) = p"
| "apply_position (ApplyReplay ev) = event_position ev"

definition frame_ok :: "int option \<Rightarrow> int \<Rightarrow> pending_frame \<Rightarrow> bool" where
  "frame_ok epoch seq frame \<longleftrightarrow> pf_seq frame = seq \<and> PENDING_FRAME_OVERHEAD \<le> pf_bytes frame
     \<and> Some (pos_epoch (apply_position (pf_apply frame))) = epoch
     \<and> pos_seq (apply_position (pf_apply frame)) = seq"

definition accounted :: "reconciler \<Rightarrow> bool" where
  "accounted s \<longleftrightarrow> wf_map (sr_pending s)
     \<and> (\<forall>(seq, frame) \<in> set (sr_pending s). frame_ok (sr_epoch s) seq frame)
     \<and> sr_pendingBytes s = (\<Sum>p\<leftarrow>sr_pending s. pf_bytes (snd p))
     \<and> sr_pendingBytes s \<le> sr_maxBytes s
     \<and> int (length (sr_pending s)) \<le> sr_maxFrames s
     \<and> 1 \<le> sr_maxBytes s \<and> 1 \<le> sr_maxFrames s
     \<and> (\<forall>fl. sr_inFlight s = Some fl \<longrightarrow> fl_generation fl = sr_generation s)"

definition above_frontier :: "reconciler \<Rightarrow> bool" where
  "above_frontier s \<longleftrightarrow> (\<forall>seq \<in> fst ` set (sr_pending s). \<not> behind s seq)"

definition reconciler_inv :: "reconciler \<Rightarrow> bool" where
  "reconciler_inv s \<longleftrightarrow> accounted s \<and> above_frontier s"

fun call_position :: "sink_call \<Rightarrow> position option" where
  "call_position (OnOutput _ _ p) = p"
| "call_position (OnResize _ _ p _) = p"
| "call_position OnStreamTruncated = None"

definition positions :: "sink_call list \<Rightarrow> position list" where
  "positions calls = List.map_filter call_position calls"

lemma positions_simps [simp]:
  "positions [] = []"
  "positions (xs @ ys) = positions xs @ positions ys"
  "positions (c # cs) = (case call_position c of None \<Rightarrow> [] | Some p \<Rightarrow> [p]) @ positions cs"
  by (simp_all add: positions_def map_filter_def split: option.splits)

definition in_order :: "int option \<Rightarrow> int \<Rightarrow> int \<Rightarrow> position list \<Rightarrow> bool" where
  "in_order epoch f g ps \<longleftrightarrow> f \<le> g \<and> sorted_wrt (<) (map pos_seq ps)
     \<and> (\<forall>p \<in> set ps. f < pos_seq p \<and> pos_seq p \<le> g \<and> Some (pos_epoch p) = epoch)"

lemma in_order_Nil [simp]: "in_order e f g [] \<longleftrightarrow> f \<le> g"
  by (simp add: in_order_def)

lemma in_order_append: "in_order e f g ps \<Longrightarrow> in_order e g h qs \<Longrightarrow> in_order e f h (ps @ qs)"
  by (fastforce simp: in_order_def sorted_wrt_append)

text \<open>What a call may do to the cursor and to the consumer.\<close>

definition progress :: "reconciler \<Rightarrow> reconciler \<Rightarrow> bool" where
  "progress s t \<longleftrightarrow> sr_generation s \<le> sr_generation t \<and> prefix (sr_sink s) (sr_sink t)
     \<and> (sr_generation t = sr_generation s \<longrightarrow> sr_epoch t = sr_epoch s
        \<and> (\<forall>f. sr_frontier s = Some f \<longrightarrow> (\<exists>g. sr_frontier t = Some g
             \<and> in_order (sr_epoch s) f g (positions (drop (length (sr_sink s)) (sr_sink t))))))"

definition no_superseded :: "reconciler \<Rightarrow> bool" where
  "no_superseded s \<longleftrightarrow> (\<forall>p \<in> set (sr_pending s). \<not> pf_superseded (snd p))"

definition lossless :: "reconciler \<Rightarrow> reconciler \<Rightarrow> bool" where
  "lossless s t \<longleftrightarrow> (no_superseded s \<longrightarrow> no_superseded t \<and> (sr_generation t = sr_generation s
     \<and> OnStreamTruncated \<notin> set (drop (length (sr_sink s)) (sr_sink t)) \<longrightarrow>
       (\<forall>f. sr_frontier s = Some f \<longrightarrow> (\<exists>g \<ge> f. sr_frontier t = Some g
          \<and> map pos_seq (positions (drop (length (sr_sink s)) (sr_sink t))) = [f + 1..g]))))"

lemma progress_refl [simp]: "progress s s"
  by (simp add: progress_def)

lemma lossless_refl [simp]: "lossless s s"
  by (simp add: lossless_def)

lemma progress_trans:
  assumes st: "progress s t" and tu: "progress t u"
  shows "progress s u"
proof -
  obtain new where new: "sr_sink t = sr_sink s @ new"
    using st by (auto simp: progress_def prefix_def)
  obtain new' where new': "sr_sink u = sr_sink t @ new'"
    using tu by (auto simp: progress_def prefix_def)
  show ?thesis
    unfolding progress_def
  proof (intro conjI impI allI)
    show "sr_generation s \<le> sr_generation u" using st tu by (simp add: progress_def)
    show "prefix (sr_sink s) (sr_sink u)" using new new' by simp
  next
    assume gen: "sr_generation u = sr_generation s"
    then have gens: "sr_generation t = sr_generation s" "sr_generation u = sr_generation t"
      using st tu by (simp_all add: progress_def)
    with st tu show "sr_epoch u = sr_epoch s" by (simp add: progress_def)
    fix f assume f: "sr_frontier s = Some f"
    with st gens obtain g where g: "sr_frontier t = Some g"
      and o1: "in_order (sr_epoch s) f g (positions new)"
      using new by (auto simp: progress_def)
    from g tu gens obtain h where h: "sr_frontier u = Some h"
      and o2: "in_order (sr_epoch t) g h (positions new')"
      using new' by (auto simp: progress_def)
    have "sr_epoch t = sr_epoch s" using st gens by (simp add: progress_def)
    with o1 o2 h show "\<exists>g. sr_frontier u = Some g \<and>
        in_order (sr_epoch s) f g (positions (drop (length (sr_sink s)) (sr_sink u)))"
      using new new' by (auto intro: in_order_append)
  qed
qed

lemma lossless_trans:
  assumes st: "progress s t" "lossless s t" and tu: "progress t u" "lossless t u"
  shows "lossless s u"
proof -
  obtain new where new: "sr_sink t = sr_sink s @ new"
    using st by (auto simp: progress_def prefix_def)
  obtain new' where new': "sr_sink u = sr_sink t @ new'"
    using tu by (auto simp: progress_def prefix_def)
  show ?thesis
    unfolding lossless_def
  proof (intro conjI impI allI)
    assume "no_superseded s"
    with st have sup: "no_superseded t" by (simp add: lossless_def)
    with tu show "no_superseded u" by (simp add: lossless_def)
    assume h: "sr_generation u = sr_generation s
      \<and> OnStreamTruncated \<notin> set (drop (length (sr_sink s)) (sr_sink u))"
    then have gens: "sr_generation t = sr_generation s" "sr_generation u = sr_generation t"
      using st tu by (simp_all add: progress_def)
    fix f assume "sr_frontier s = Some f"
    with st \<open>no_superseded s\<close> gens h obtain g where g: "f \<le> g" "sr_frontier t = Some g"
      "map pos_seq (positions new) = [f + 1..g]"
      using new new' by (auto simp: lossless_def)
    with tu sup gens h obtain k where k: "g \<le> k" "sr_frontier u = Some k"
      "map pos_seq (positions new') = [g + 1..k]"
      using new new' by (auto simp: lossless_def)
    have "[f + 1..g] @ [g + 1..k] = [f + 1..k]"
      using g(1) k(1) upto_split2 [of "f + 1" g k] by (cases "f = g") auto
    with g k show "\<exists>g \<ge> f. sr_frontier u = Some g
        \<and> map pos_seq (positions (drop (length (sr_sink s)) (sr_sink u))) = [f + 1..g]"
      using new new' by (intro exI [of _ k]) auto
  qed
qed

text \<open>
  \<open>good s c\<close>: from \<open>s\<close>, the call \<open>c\<close> keeps the accounting, makes progress, and loses nothing
  silently unless it throws.
\<close>

definition good :: "reconciler \<Rightarrow> reconciler outcome \<Rightarrow> bool" where
  "good s c \<longleftrightarrow> accounted (state_of c) \<and> progress s (state_of c)
     \<and> (returned c \<longrightarrow> lossless s (state_of c))"

lemma good_Return: "good s (Return t) \<longleftrightarrow> accounted t \<and> progress s t \<and> lossless s t"
  by (simp add: good_def)

lemma good_Throw: "good s (Throw t) \<longleftrightarrow> accounted t \<and> progress s t"
  by (simp add: good_def)

lemma good_trans: "accounted t \<Longrightarrow> progress s t \<Longrightarrow> lossless s t \<Longrightarrow> good t c \<Longrightarrow> good s c"
  by (auto simp: good_def intro: progress_trans lossless_trans)

lemma good_andthen:
  assumes "good s c" and "\<And>t. c = Return t \<Longrightarrow> accounted t \<Longrightarrow> good t (k t)"
  shows "good s (andthen c k)"
  using assms by (cases c) (auto simp: good_Return good_Throw intro: good_trans)


lemma good_pure:
  assumes "good s (Return t)" and "good t c"
  shows "good s c"
  using assms by (auto simp: good_Return intro: good_trans)

subsection \<open>Each operation\<close>

lemma drop_sink [simp]: "drop (length (sr_sink s)) (sr_sink s) = []"
  by simp

lemma progress_same_cursor:
  "sr_generation t = sr_generation s \<Longrightarrow> sr_epoch t = sr_epoch s \<Longrightarrow> sr_frontier t = sr_frontier s \<Longrightarrow>
     sr_sink t = sr_sink s \<Longrightarrow> progress s t"
  by (simp add: progress_def)

lemma lossless_same_cursor:
  "sr_frontier t = sr_frontier s \<Longrightarrow> sr_sink t = sr_sink s \<Longrightarrow>
     (no_superseded s \<Longrightarrow> no_superseded t) \<Longrightarrow> lossless s t"
  by (simp add: lossless_def)

lemma good_reset: "accounted s \<Longrightarrow> good s (Return (reset e s))"
  by (auto simp: good_Return accounted_def reset_def progress_def lossless_def no_superseded_def)

lemma accounted_forget:
  assumes "accounted s" shows "accounted (forgetFrame seq s)"
proof (cases "map_get (sr_pending s) seq")
  case (Some frame)
  have sub: "set (map_delete seq (sr_pending s)) \<subseteq> set (sr_pending s)"
    by (auto simp: set_map_delete)
  have "frame_ok (sr_epoch s) seq frame"
    using assms map_of_SomeD [OF Some] by (auto simp: accounted_def)
  then have pos: "0 \<le> pf_bytes frame" by (simp add: frame_ok_def PENDING_FRAME_OVERHEAD_def)
  have "int (length (map_delete seq (sr_pending s))) \<le> int (length (sr_pending s))"
    by (simp add: length_delete_le)
  with assms Some sub pos show ?thesis
    unfolding accounted_def forgetFrame_def
    by (auto simp: sum_map_delete)
qed (use assms in \<open>simp add: forgetFrame_def\<close>)

lemma forgetFrame_simps [simp]:
  "sr_epoch (forgetFrame q s) = sr_epoch s" "sr_frontier (forgetFrame q s) = sr_frontier s"
  "sr_generation (forgetFrame q s) = sr_generation s" "sr_sink (forgetFrame q s) = sr_sink s"
  "sr_inFlight (forgetFrame q s) = sr_inFlight s" "sr_disposed (forgetFrame q s) = sr_disposed s"
  "sr_wantHistory (forgetFrame q s) = sr_wantHistory s" "sr_resumes (forgetFrame q s) = sr_resumes s"
  "sr_maxBytes (forgetFrame q s) = sr_maxBytes s" "sr_maxFrames (forgetFrame q s) = sr_maxFrames s"
  by (auto simp: forgetFrame_def split: option.splits)


lemma forgetFrame_pending: "sr_pending (forgetFrame q s) = map_delete q (sr_pending s)"
proof (cases "map_get (sr_pending s) q")
  case None
  then have "q \<notin> fst ` set (sr_pending s)" by (simp add: map_of_eq_None_iff)
  with None show ?thesis by (simp add: forgetFrame_def delete_id)
qed (simp add: forgetFrame_def)

lemma no_superseded_forget: "no_superseded s \<Longrightarrow> no_superseded (forgetFrame q s)"
  by (auto simp: no_superseded_def forgetFrame_pending set_map_delete)

lemma good_forget: "accounted s \<Longrightarrow> good s (Return (forgetFrame q s))"
  by (auto simp: good_Return accounted_forget no_superseded_forget
      intro: progress_same_cursor lossless_same_cursor)

lemma good_truncated: "accounted s \<Longrightarrow> good s (Return (sink OnStreamTruncated s))"
  by (auto simp: good_Return accounted_def progress_def lossless_def no_superseded_def)

text \<open>Advancing the frontier by one and applying the frame that sits there.\<close>

lemma run_apply_position:
  "run_apply a s = Return t \<Longrightarrow> \<exists>c. t = sink c s \<and> call_position c = Some (apply_position a)"
  by (cases a)
    (auto simp: replay_handlers_def Let_def event_position_def split: stream_event.splits option.splits)

lemma run_apply_throw: "run_apply a s = Throw t \<Longrightarrow> t = s"
  using run_apply_cases [of a s] by auto

lemma accounted_frontier: "accounted (s\<lparr>sr_frontier := f\<rparr>) = accounted s"
  by (simp add: accounted_def)

lemma accounted_sink: "accounted (sink c s) = accounted s"
  by (simp add: accounted_def)

lemma good_commit:
  assumes "accounted s" and "sr_frontier s = Some f"
    and "Some (pos_epoch (apply_position a)) = sr_epoch s" and "pos_seq (apply_position a) = f + 1"
  shows "good s (run_apply a (s\<lparr>sr_frontier := Some (f + 1)\<rparr>))"
proof (cases "run_apply a (s\<lparr>sr_frontier := Some (f + 1)\<rparr>)")
  case (Return t)
  with run_apply_position obtain c where "t = sink c (s\<lparr>sr_frontier := Some (f + 1)\<rparr>)"
    "call_position c = Some (apply_position a)" by blast
  with Return assms show ?thesis
    by (auto simp: good_Return accounted_frontier accounted_sink progress_def lossless_def
        in_order_def no_superseded_def)
next
  case (Throw t)
  then have "t = s\<lparr>sr_frontier := Some (f + 1)\<rparr>" by (rule run_apply_throw)
  with Throw assms show ?thesis
    by (simp add: good_Throw accounted_frontier progress_def)
qed

lemma good_commit_loop: "accounted s \<Longrightarrow> good s (commit_loop s)"
proof (induction s rule: commit_loop.induct)
  case (1 s)
  show ?case
  proof (cases "sr_frontier s")
    case None
    then show ?thesis using 1 by (simp add: commit_loop.simps good_Return)
  next
    case (Some f)
    note frontier = Some
    show ?thesis
    proof (cases "map_get (sr_pending s) (f + 1)")
      case None
      then show ?thesis using 1 Some by (simp add: commit_loop.simps good_Return)
    next
      case (Some frame)
      let ?s0 = "forgetFrame (f + 1) s"
      let ?s1 = "?s0\<lparr>sr_frontier := Some (f + 1)\<rparr>"
      have acc0: "accounted ?s0" using 1 by (simp add: accounted_forget)
      have ok: "frame_ok (sr_epoch s) (f + 1) frame"
        using 1(3) map_of_SomeD [OF Some] by (auto simp: accounted_def)
      have forget: "good s (Return ?s0)" using 1(3) by (rule good_forget)
      show ?thesis
      proof (cases "pf_superseded frame")
        case True
        have sup: "\<not> no_superseded s"
          using True map_of_SomeD [OF Some] unfolding no_superseded_def by fastforce
        have "accounted ?s1" using acc0 by (simp add: accounted_frontier)
        with 1(1) frontier Some True have "good ?s1 (commit_loop ?s1)" by simp
        moreover have "progress s ?s1" using frontier by (simp add: progress_def)
        moreover have "lossless s ?s1" using sup by (simp add: lossless_def)
        ultimately have "good s (commit_loop ?s1)"
          using \<open>accounted ?s1\<close> good_trans by blast
        with frontier Some True show ?thesis by (simp add: commit_loop.simps [of s])
      next
        case False
        have commit: "good ?s0 (run_apply (pf_apply frame) ?s1)"
          using acc0 ok frontier by (intro good_commit) (auto simp: frame_ok_def)
        have step: "good ?s0 (andthen (run_apply (pf_apply frame) ?s1) commit_loop)"
          using commit
        proof (rule good_andthen)
          fix t assume "run_apply (pf_apply frame) ?s1 = Return t" "accounted t"
          with 1(2) frontier Some False show "good t (commit_loop t)" by simp
        qed
        have "good s (andthen (run_apply (pf_apply frame) ?s1) commit_loop)"
          using good_trans [OF _ _ _ step] forget by (simp add: good_Return)
        moreover have "commit_loop s = andthen (run_apply (pf_apply frame) ?s1) commit_loop"
          using frontier Some False
          by (simp add: commit_loop.simps [of s] Let_def split: outcome.splits)
        ultimately show ?thesis by simp
      qed
    qed
  qed
qed


lemma good_discard_behind: "accounted s \<Longrightarrow> good s (Return (discard_behind s))"
proof -
  have "accounted t \<Longrightarrow> good t (Return (foldl (\<lambda>t q. if behind t q then forgetFrame q t else t) t qs))" for t qs
  proof (induction qs arbitrary: t)
    case Nil
    then show ?case by (simp add: good_Return)
  next
    case (Cons q qs)
    let ?t = "if behind t q then forgetFrame q t else t"
    have "good t (Return ?t)" using good_forget [OF Cons.prems] Cons.prems by (simp add: good_Return)
    moreover from this have "accounted ?t" by (simp add: good_Return)
    ultimately have "good t (Return (foldl (\<lambda>t q. if behind t q then forgetFrame q t else t) ?t qs))"
      using Cons.IH by (blast intro: good_pure)
    then show ?case by (simp only: foldl_Cons)
  qed
  then show "accounted s \<Longrightarrow> ?thesis" by (simp add: discard_behind_def)
qed

lemma good_drain: "accounted s \<Longrightarrow> good s (drain s)"
  using good_discard_behind [of s] good_commit_loop
  by (auto simp: drain_def good_Return intro: good_trans)

text \<open>Changing only the bookkeeping of recovery.\<close>

lemma good_bookkeeping:
  assumes "accounted s" and "sr_pending t = sr_pending s" "sr_epoch t = sr_epoch s"
    "sr_frontier t = sr_frontier s" "sr_sink t = sr_sink s" "sr_generation t = sr_generation s"
    "sr_pendingBytes t = sr_pendingBytes s" "sr_maxBytes t = sr_maxBytes s"
    "sr_maxFrames t = sr_maxFrames s"
    and "sr_inFlight t = sr_inFlight s \<or> sr_inFlight t = None
      \<or> (\<exists>fl. sr_inFlight t = Some fl \<and> fl_generation fl = sr_generation s)"
  shows "good s (Return t)"
  using assms
  by (auto simp: good_Return accounted_def no_superseded_def
      intro!: progress_same_cursor lossless_same_cursor)

lemma good_noteAttempt: "accounted s \<Longrightarrow> good s (Return (noteAttempt q s))"
  by (rule good_bookkeeping) (auto simp: noteAttempt_def)

lemma good_anchor: "accounted s \<Longrightarrow> good s (Return (anchor s))"
  by (auto simp: good_Return anchor_def accounted_frontier progress_def lossless_def no_superseded_def)

text \<open>Moving the frontier forward is a loss, so the call has said so before.\<close>

lemma good_skip:
  assumes "accounted s" and "case sr_frontier s of None \<Rightarrow> True | Some f \<Rightarrow> f < k"
  shows "good s (Return ((sink OnStreamTruncated s)\<lparr>sr_frontier := Some k\<rparr>))"
  using assms
  by (auto simp: good_Return accounted_frontier accounted_sink progress_def lossless_def
      no_superseded_def split: option.splits)

lemma good_skipHole:
  assumes "accounted s" shows "good s (skipHole q (sink OnStreamTruncated s))"
proof -
  let ?s = "sink OnStreamTruncated s"
  have *: "good s (drain (if (case sr_frontier ?s of None \<Rightarrow> True | Some f \<Rightarrow> f < k)
    then ?s\<lparr>sr_frontier := Some k\<rparr> else ?s))" for k
    using assms good_skip [of s k] good_truncated [of s]
    by (cases "case sr_frontier s of None \<Rightarrow> True | Some f \<Rightarrow> f < k")
      (auto intro!: good_pure [OF _ good_drain] simp: accounted_frontier accounted_sink)
  show ?thesis unfolding skipHole_def Let_def by (rule *)
qed

lemma good_abandon:
  assumes "accounted s" shows "good s (abandon s)"
proof -
  let ?s1 = "s\<lparr>sr_attemptsFor := -1, sr_attempts := 0, sr_wantHistory := False\<rparr>"
  have "good s (Return ?s1)" using assms by (rule good_bookkeeping) auto
  with good_skipHole [of ?s1] show ?thesis
    by (auto simp: abandon_def Let_def good_Return intro: good_trans)
qed

lemma good_refl: "accounted s \<Longrightarrow> good s (Return s)"
  by (simp add: good_Return)

lemma good_recover:
  assumes "accounted s" shows "good s (recover s)"
proof -
  have "good s (Return (s\<lparr>sr_inFlight := Some fl, sr_resumes := r\<rparr>))"
    if "fl_generation fl = sr_generation s" for fl r
    using assms by (rule good_bookkeeping) (simp_all add: that)
  then show ?thesis
    using good_abandon [OF assms] good_refl [OF assms]
    by (simp add: recover_def Let_def split: option.split)
qed

lemma good_then_recover:
  "good s (andthen c recover)" if "good s c"
  using that by (rule good_andthen) (simp add: good_recover)


lemma overflow_when_oversized:
  assumes "accounted s" and "sr_maxBytes s < pf_bytes frame"
  shows "sr_maxBytes s < sr_pendingBytes s + pf_bytes frame"
proof -
  have "0 \<le> pf_bytes (snd p)" if "p \<in> set (sr_pending s)" for p
    using assms(1) that by (auto simp: accounted_def frame_ok_def PENDING_FRAME_OVERHEAD_def)
  then have "0 \<le> sr_pendingBytes s"
    using assms(1) by (simp add: accounted_def sum_list_nonneg_int)
  with assms(2) show ?thesis by simp
qed

lemma accounted_overflow: "accounted s \<Longrightarrow> accounted (overflow_reset q s)"
  by (auto simp: accounted_def overflow_reset_def)

lemma progress_new_generation:
  "sr_generation s < sr_generation t \<Longrightarrow> prefix (sr_sink s) (sr_sink t) \<Longrightarrow> progress s t"
  by (simp add: progress_def)

lemma lossless_new_generation:
  "sr_generation s < sr_generation t \<Longrightarrow> no_superseded t \<Longrightarrow> lossless s t"
  by (simp add: lossless_def)

lemma good_overflow:
  assumes "accounted s" shows "good s (Return (overflow_reset q s))"
proof -
  have "progress s (overflow_reset q s)"
    by (rule progress_new_generation) (simp_all add: overflow_reset_def)
  moreover have "lossless s (overflow_reset q s)"
    by (rule lossless_new_generation) (simp_all add: overflow_reset_def no_superseded_def)
  ultimately show ?thesis using assms by (simp add: good_Return accounted_overflow)
qed

lemma keep_oversized:
  assumes "accounted s" and "sr_pending s = []"
    and "c = andthen (run_apply a s) (\<lambda>t. Return (t\<lparr>sr_frontier := g t\<rparr>))"
  shows "accounted (state_of c) \<and> prefix (sr_sink s) (sr_sink (state_of c))
    \<and> sr_generation (state_of c) = sr_generation s \<and> sr_pending (state_of c) = []"
  using assms run_apply_cases [of a s]
  by (auto simp: accounted_frontier accounted_sink)

lemma good_keepFrame:
  assumes "accounted s" and "frame_ok (sr_epoch s) (pf_seq frame) frame" and "\<not> pf_superseded frame"
  shows "good s (keepFrame frame s)"
proof (cases "map_has (sr_pending s) (pf_seq frame) \<or> behind s (pf_seq frame)")
  case True
  then show ?thesis using assms(1) by (simp add: keepFrame_def good_refl)
next
  case fresh: False
  let ?over = "sr_maxFrames s \<le> int (length (sr_pending s)) \<or> sr_maxBytes s < sr_pendingBytes s + pf_bytes frame"
  let ?s1 = "if ?over then overflow_reset (pf_seq frame) s else s"
  have max: "sr_maxBytes ?s1 = sr_maxBytes s" "sr_epoch ?s1 = sr_epoch s"
    by (simp_all add: overflow_reset_def)
  have good1: "good s (Return ?s1)" using assms(1) good_overflow [of s] by (simp add: good_refl)
  then have acc1: "accounted ?s1" by (simp add: good_Return)
  show ?thesis
  proof (cases "sr_maxBytes ?s1 < pf_bytes frame")
    case True
    then have "sr_maxBytes s < pf_bytes frame" using max by simp
    then have over: "?over" using overflow_when_oversized [OF assms(1)] by blast
    then have empty: "sr_pending ?s1 = []" and gen: "sr_generation s < sr_generation ?s1"
      by (simp_all add: overflow_reset_def)
    let ?c = "andthen (run_apply (pf_apply frame) ?s1)
      (\<lambda>s2. Return (s2\<lparr>sr_frontier := Some (max (the_default 0 (sr_frontier s2)) (pf_seq frame))\<rparr>))"
    have kept: "accounted (state_of ?c) \<and> prefix (sr_sink ?s1) (sr_sink (state_of ?c))
      \<and> sr_generation (state_of ?c) = sr_generation ?s1 \<and> sr_pending (state_of ?c) = []"
      by (rule keep_oversized [OF acc1 empty refl])
    have "prefix (sr_sink s) (sr_sink ?s1)" using good1 by (simp add: good_Return progress_def)
    with kept have "prefix (sr_sink s) (sr_sink (state_of ?c))" by (blast intro: prefix_order.trans)
    with kept gen have "progress s (state_of ?c)" "lossless s (state_of ?c)"
      by (auto simp only: no_superseded_def list.set empty_iff
          intro!: progress_new_generation lossless_new_generation)
    with kept have "good s ?c" by (simp add: good_def)
    moreover have "keepFrame frame s = ?c"
      using fresh True by (simp only: keepFrame_def Let_def if_False if_True)
    ultimately show ?thesis by simp
  next
    case False
    let ?t = "?s1\<lparr>sr_pending := map_set (pf_seq frame) frame (sr_pending ?s1),
      sr_pendingBytes := sr_pendingBytes ?s1 + pf_bytes frame\<rparr>"
    have new: "\<not> map_has (sr_pending ?s1) (pf_seq frame)"
      using fresh by (simp add: overflow_reset_def map_has_def)
    have room: "sr_pendingBytes ?s1 + pf_bytes frame \<le> sr_maxBytes s"
      "int (length (sr_pending ?s1)) + 1 \<le> sr_maxFrames s"
      using False max assms(1) by (auto simp: overflow_reset_def accounted_def)
    have lims: "sr_maxFrames ?s1 = sr_maxFrames s" by (simp add: overflow_reset_def)
    have "accounted ?t"
      using acc1 new room assms(2) max lims
      by (auto simp: accounted_def map_set_fresh wf_map_snoc)
    moreover have "progress ?s1 ?t" by (rule progress_same_cursor) simp_all
    moreover have "lossless ?s1 ?t"
      using assms(3) new by (intro lossless_same_cursor) (auto simp: no_superseded_def map_set_fresh)
    ultimately have "good ?s1 (Return ?t)" by (simp add: good_Return)
    with good1 have "good s (Return ?t)" by (rule good_pure)
    moreover have "keepFrame frame s = Return ?t"
      using fresh False by (simp only: keepFrame_def Let_def if_False)
    ultimately show ?thesis by simp
  qed
qed


lemma apply_at:
  assumes "accounted t"
  shows "accounted (state_of (run_apply a (t\<lparr>sr_frontier := f\<rparr>)))
    \<and> prefix (sr_sink t) (sr_sink (state_of (run_apply a (t\<lparr>sr_frontier := f\<rparr>))))
    \<and> sr_generation (state_of (run_apply a (t\<lparr>sr_frontier := f\<rparr>))) = sr_generation t
    \<and> sr_pending (state_of (run_apply a (t\<lparr>sr_frontier := f\<rparr>))) = sr_pending t"
  using assms run_apply_cases [of a "t\<lparr>sr_frontier := f\<rparr>"]
  by (auto simp: accounted_frontier accounted_sink)

lemma good_accept:
  assumes "accounted s"
    and pos: "apply_position apply = \<lparr>pos_epoch = epoch, pos_seq = seq\<rparr>"
    and bytes: "PENDING_FRAME_OVERHEAD \<le> bytes"
  shows "good s (accept epoch seq kind apply bytes s)"
proof (cases "sr_disposed s")
  case True
  then show ?thesis using assms(1) by (simp add: accept_def good_refl)
next
  case False
  let ?anchors = "sr_epoch s = None \<or> sr_frontier s = None"
  let ?changed = "sr_epoch s \<noteq> None \<and> sr_epoch s \<noteq> Some epoch"
  let ?s1 = "if ?anchors \<or> ?changed then reset (Some epoch) s else s"
  let ?direct = "\<not> ?changed \<and> sr_pending ?s1 = []
    \<and> (case sr_frontier ?s1 of None \<Rightarrow> True | Some f \<Rightarrow> seq = f + 1)"
  let ?commit = "run_apply apply (?s1\<lparr>sr_frontier := Some seq\<rparr>)"
  let ?frame = "\<lparr>pf_seq = seq, pf_kind = kind, pf_superseded = False, pf_bytes = bytes, pf_apply = apply\<rparr>"
  let ?keep = "if map_has (sr_pending ?s1) seq then Return ?s1 else keepFrame ?frame ?s1"
  have good1: "good s (Return ?s1)" using assms(1) good_reset by (simp add: good_refl)
  then have acc1: "accounted ?s1" by (simp add: good_Return)
  have epoch1: "sr_epoch ?s1 = Some epoch" by (auto simp: reset_def)
  have direct: "good s (andthen ?commit recover)" if ?direct
  proof (rule good_then_recover, cases "sr_frontier ?s1")
    case (Some f)
    with that acc1 epoch1 pos have "good ?s1 ?commit"
      using good_commit [of ?s1 f "apply"] by auto
    with good1 show "good s ?commit" by (rule good_pure)
  next
    case None
    then have reset: "?anchors \<or> ?changed" by (auto split: if_splits)
    then have s1: "?s1 = reset (Some epoch) s" by simp
    have "accounted (state_of ?commit) \<and> prefix (sr_sink ?s1) (sr_sink (state_of ?commit))
      \<and> sr_generation (state_of ?commit) = sr_generation ?s1 \<and> sr_pending (state_of ?commit) = sr_pending ?s1"
      by (rule apply_at [OF acc1])
    moreover have "sr_generation s < sr_generation ?s1" "sr_pending ?s1 = []" "sr_sink ?s1 = sr_sink s"
      unfolding s1 by (simp_all add: reset_def)
    ultimately have "accounted (state_of ?commit) \<and> prefix (sr_sink s) (sr_sink (state_of ?commit))
      \<and> sr_generation s < sr_generation (state_of ?commit) \<and> sr_pending (state_of ?commit) = []"
      by simp
    then show "good s ?commit"
      by (auto simp: good_def no_superseded_def
          intro: progress_new_generation lossless_new_generation)
  qed
  have buffered: "good s (andthen ?keep (\<lambda>s2. andthen (drain (if ?anchors then anchor s2 else s2)) recover))"
  proof (rule good_andthen)
    have "frame_ok (sr_epoch ?s1) seq ?frame" using epoch1 pos bytes by (simp add: frame_ok_def)
    then have "good ?s1 ?keep"
      using acc1 good_keepFrame [of ?s1 ?frame] good_refl [of ?s1] by simp
    with good1 show "good s ?keep" by (rule good_pure)
  next
    fix t assume t: "accounted t"
    have "good t (Return (if ?anchors then anchor t else t))"
      using t good_anchor good_refl by simp
    then have "good t (drain (if ?anchors then anchor t else t))"
      by (rule good_pure) (use t good_anchor in \<open>auto simp: good_Return intro: good_drain\<close>)
    then show "good t (andthen (drain (if ?anchors then anchor t else t)) recover)"
      by (rule good_then_recover)
  qed
  have eq: "accept epoch seq kind apply bytes s =
      (if behind ?s1 seq then Return ?s1 else if ?direct then andthen ?commit recover
       else andthen ?keep (\<lambda>s2. andthen (drain (if ?anchors then anchor s2 else s2)) recover))"
    using False by (simp only: accept_def Let_def if_False)
  show ?thesis
  proof (cases "behind ?s1 seq")
    case True
    show ?thesis unfolding eq if_P [OF True] by (rule good1)
  next
    case behind: False
    show ?thesis
    proof (cases ?direct)
      case True
      show ?thesis unfolding eq if_not_P [OF behind] if_P [OF True] by (rule direct [OF True])
    next
      case False
      show ?thesis unfolding eq if_not_P [OF behind] if_not_P [OF False] by (rule buffered)
    qed
  qed
qed

lemma good_merge_event:
  assumes "accounted s" shows "good s (merge_event ev s)"
proof -
  have direct: "good s (run_apply (ApplyReplay ev) (s\<lparr>sr_frontier := Some (ev_seq ev)\<rparr>))"
    if "sr_frontier s = Some (ev_seq ev - 1)" "sr_epoch s = Some (ev_epoch ev)"
    using good_commit [of s "ev_seq ev - 1" "ApplyReplay ev"] assms that
    by (simp add: event_position_def)
  have ok: "frame_ok (sr_epoch s) (pf_seq (replay_frame ev)) (replay_frame ev)"
    if "sr_epoch s = Some (ev_epoch ev)"
    using that
    by (auto simp: frame_ok_def replay_frame_def event_position_def split: stream_event.splits)
  have "good s (andthen (keepFrame (replay_frame ev) s) drain)" if "sr_epoch s = Some (ev_epoch ev)"
    using assms ok [OF that]
    by (intro good_andthen good_keepFrame) (auto simp: replay_frame_def intro: good_drain)
  with direct good_refl [OF assms] show ?thesis
    by (simp add: merge_event_def)
qed

lemma good_merge_events: "accounted s \<Longrightarrow> good s (merge_events evs s)"
proof (induction evs arbitrary: s)
  case Nil
  then show ?case by (simp add: good_refl)
next
  case (Cons ev evs)
  then show ?case by (simp only: merge_events.simps) (rule good_andthen; simp add: good_merge_event)
qed

lemma good_clear_flight: "accounted s \<Longrightarrow> good s (Return (clear_flight fl s))"
  by (rule good_bookkeeping) (auto simp: clear_flight_def)

lemma good_onReply:
  assumes "accounted s" shows "good s (onReply fl reply s)"
proof (cases "sr_disposed s \<or> fl_generation fl \<noteq> sr_generation s")
  case True
  then show ?thesis using assms by (simp add: onReply_def good_refl)
next
  case False
  let ?s1 = "(clear_flight fl s)\<lparr>sr_wantHistory := False\<rparr>"
  let ?s2 = "if \<not> rr_epochMatch reply then reset (Some (rr_streamEpoch reply)) ?s1 else ?s1"
  have "good s (Return ?s1)"
    using assms by (rule good_bookkeeping) (auto simp: clear_flight_def)
  then have "good s (Return ?s2)"
    using good_reset [of ?s1] by (auto simp: good_Return intro: progress_trans lossless_trans)
  moreover from this have acc2: "accounted ?s2" by (simp add: good_Return)
  have tail: "good t (andthen (drain (noteAttempt q (anchor t))) recover)" if "accounted t" for t q
  proof (rule good_then_recover)
    have "good t (Return (anchor t))" using that by (rule good_anchor)
    moreover from this have "good (anchor t) (Return (noteAttempt q (anchor t)))"
      by (simp add: good_Return good_noteAttempt [unfolded good_Return])
    moreover from this have "good (noteAttempt q (anchor t)) (drain (noteAttempt q (anchor t)))"
      by (simp add: good_Return good_drain)
    ultimately show "good t (drain (noteAttempt q (anchor t)))" by (blast intro: good_pure)
  qed
  have stated: "good t (if rr_complete reply = Some False
      then (case rr_firstAvailableSeq reply of None \<Rightarrow> Return (sink OnStreamTruncated t)
        | Some available \<Rightarrow> skipHole available (sink OnStreamTruncated t)) else Return t)"
    if "accounted t" for t
    using that good_truncated good_skipHole good_refl by (auto split: option.split)
  have "good ?s2 (andthen (merge_events (rr_events reply) ?s2) (\<lambda>s3.
           andthen
             (if rr_complete reply = Some False
              then (case rr_firstAvailableSeq reply of
                      None \<Rightarrow> Return (sink OnStreamTruncated s3)
                    | Some available \<Rightarrow> skipHole available (sink OnStreamTruncated s3))
              else Return s3) (\<lambda>s4.
           andthen (drain (noteAttempt (fl_afterSeq fl) (anchor s4))) recover)))"
    by (intro good_andthen good_merge_events stated tail acc2)
  ultimately show ?thesis
    using False by (simp only: onReply_def Let_def if_False) (rule good_pure)
qed

lemma good_onReplyFailed:
  assumes "accounted s" shows "good s (onReplyFailed fl s)"
proof -
  let ?s1 = "noteAttempt (fl_afterSeq fl) (clear_flight fl s)"
  have "good s (Return ?s1)"
    using good_clear_flight [OF assms, of fl] good_noteAttempt good_pure good_Return by blast
  moreover from this have acc: "accounted ?s1" by (simp add: good_Return)
  moreover have "good ?s1 (drain (anchor ?s1))"
    using good_anchor [OF acc] good_drain [of "anchor ?s1"] by (auto simp: good_Return intro: good_trans)
  ultimately show ?thesis
    using good_recover [OF acc] good_refl [OF assms]
    by (auto simp: onReplyFailed_def Let_def intro: good_pure)
qed

lemma good_onDeadline:
  assumes "accounted s" shows "good s (onDeadline fl s)"
proof -
  have "good s (Return (s\<lparr>sr_inFlight := None\<rparr>))"
    using assms by (rule good_bookkeeping) auto
  moreover from this have "good (s\<lparr>sr_inFlight := None\<rparr>) (abandon (s\<lparr>sr_inFlight := None\<rparr>))"
    by (simp add: good_Return good_abandon)
  ultimately show ?thesis using good_refl [OF assms] by (auto simp: onDeadline_def intro: good_pure)
qed

subsection \<open>Where buffered frames sit\<close>

definition settled :: "reconciler \<Rightarrow> bool" where
  "settled s \<longleftrightarrow> above_frontier s
     \<and> (\<forall>f. sr_frontier s = Some f \<longrightarrow> \<not> map_has (sr_pending s) (f + 1))"

definition settles :: "reconciler \<Rightarrow> reconciler outcome \<Rightarrow> bool" where
  "settles s c \<longleftrightarrow> (above_frontier s \<longrightarrow> above_frontier (state_of c))
     \<and> (settled s \<and> returned c \<longrightarrow> settled (state_of c))"

lemma above_iff:
  "above_frontier s \<longleftrightarrow> (\<forall>f q. sr_frontier s = Some f \<longrightarrow> q \<in> fst ` set (sr_pending s) \<longrightarrow> f < q)"
  unfolding above_frontier_def behind_def by (fastforce split: option.splits)

lemma above_empty [simp]: "sr_pending s = [] \<Longrightarrow> above_frontier s"
  by (simp add: above_frontier_def)

lemma settled_empty: "sr_pending s = [] \<Longrightarrow> settled s"
  by (simp add: settled_def map_has_def)

lemma settled_no_frontier: "sr_frontier s = None \<Longrightarrow> settled s"
  by (simp add: settled_def above_iff)

lemma settled_cong:
  "sr_frontier t = sr_frontier s \<Longrightarrow> sr_pending t = sr_pending s \<Longrightarrow> settled t = settled s"
  "sr_frontier t = sr_frontier s \<Longrightarrow> sr_pending t = sr_pending s \<Longrightarrow> above_frontier t = above_frontier s"
  by (simp_all add: settled_def above_iff)

lemma settles_same:
  "sr_frontier t = sr_frontier s \<Longrightarrow> sr_pending t = sr_pending s \<Longrightarrow> settles s (Return t)"
  using settled_cong [of t s] by (simp add: settles_def)

lemma settles_Return: "settled t \<Longrightarrow> settles s (Return t)"
  by (simp add: settles_def settled_def)

lemma commit_loop_above: "above_frontier s \<Longrightarrow> above_frontier (state_of (commit_loop s))"
proof (induction s rule: commit_loop.induct)
  case (1 s)
  show ?case
  proof (cases "case sr_frontier s of None \<Rightarrow> None | Some f \<Rightarrow> map_get (sr_pending s) (f + 1)")
    case None
    then show ?thesis using 1(3) by (simp add: commit_loop.simps [of s] split: option.splits)
  next
    case (Some frame)
    then obtain f where f: "sr_frontier s = Some f" "map_get (sr_pending s) (f + 1) = Some frame"
      by (auto split: option.splits)
    let ?s1 = "(forgetFrame (f + 1) s)\<lparr>sr_frontier := Some (f + 1)\<rparr>"
    have above: "above_frontier ?s1"
      using 1(3) f(1) by (fastforce simp: above_iff forgetFrame_pending set_map_delete)
    show ?thesis
    proof (cases "pf_superseded frame")
      case True
      with 1(1) f above show ?thesis by (simp add: commit_loop.simps [of s] Let_def)
    next
      case False
      show ?thesis
      proof (cases "run_apply (pf_apply frame) ?s1")
        case (Return t)
        with run_apply_cases [of "pf_apply frame" ?s1] obtain c where "t = sink c ?s1" by auto
        with above have "above_frontier t" by (simp add: above_iff)
        with 1(2) f False Return show ?thesis by (simp add: commit_loop.simps [of s] Let_def)
      next
        case (Throw t)
        with run_apply_throw have "t = ?s1" by blast
        with f False Throw above show ?thesis by (simp add: commit_loop.simps [of s] Let_def)
      qed
    qed
  qed
qed

lemma commit_loop_settled:
  "above_frontier s \<Longrightarrow> commit_loop s = Return t \<Longrightarrow> settled t"
proof (induction s rule: commit_loop.induct)
  case (1 s)
  show ?case
  proof (cases "case sr_frontier s of None \<Rightarrow> None | Some f \<Rightarrow> map_get (sr_pending s) (f + 1)")
    case None
    with 1(3,4) show ?thesis
      by (auto simp: commit_loop.simps [of s] settled_def map_has_def split: option.splits)
  next
    case (Some frame)
    then obtain f where f: "sr_frontier s = Some f" "map_get (sr_pending s) (f + 1) = Some frame"
      by (auto split: option.splits)
    let ?s1 = "(forgetFrame (f + 1) s)\<lparr>sr_frontier := Some (f + 1)\<rparr>"
    have above: "above_frontier ?s1"
      using 1(3) f(1) by (fastforce simp: above_iff forgetFrame_pending set_map_delete)
    show ?thesis
    proof (cases "pf_superseded frame")
      case True
      with 1(1,4) f above show ?thesis by (simp add: commit_loop.simps [of s] Let_def)
    next
      case False
      with 1(4) f obtain u where u: "run_apply (pf_apply frame) ?s1 = Return u" "commit_loop u = Return t"
        by (cases "run_apply (pf_apply frame) ?s1") (auto simp: commit_loop.simps [of s] Let_def)
      with run_apply_cases [of "pf_apply frame" ?s1] obtain c where "u = sink c ?s1" by auto
      with above have "above_frontier u" by (simp add: above_iff)
      with 1(2) f False u show ?thesis by simp
    qed
  qed
qed

lemma behind_forget [simp]: "behind (forgetFrame q s) r = behind s r"
  by (simp add: behind_def)

lemma behind_cong: "sr_frontier t = sr_frontier s \<Longrightarrow> behind t r = behind s r"
  by (simp add: behind_def)

lemma foldl_discard:
  "sr_frontier (foldl (\<lambda>t q. if behind t q then forgetFrame q t else t) s qs) = sr_frontier s"
  "set (sr_pending (foldl (\<lambda>t q. if behind t q then forgetFrame q t else t) s qs))
     = {p \<in> set (sr_pending s). \<not> (behind s (fst p) \<and> fst p \<in> set qs)}"
proof (induction qs arbitrary: s)
  case (Cons q qs)
  {
    case 1
    show ?case by (simp add: Cons.IH(1))
  next
    case 2
    show ?case by (auto simp: Cons.IH(2) forgetFrame_pending set_map_delete)
  }
qed auto

lemma discard_behind_above: "above_frontier (discard_behind s)"
  unfolding discard_behind_def above_frontier_def
  by (force simp: foldl_discard(2) behind_cong [OF foldl_discard(1)])

lemma drain_above: "above_frontier (state_of (drain s))"
  by (auto simp: drain_def above_iff [of s] discard_behind_above intro!: commit_loop_above)

lemma drain_settled: "drain s = Return t \<Longrightarrow> settled t"
  by (auto simp: drain_def above_iff [of s] discard_behind_above dest: commit_loop_settled [rotated])

lemma settles_drain: "settles s (drain t)"
  using drain_above [of t] drain_settled [of t] by (cases "drain t") (auto simp: settles_def)

lemma settles_skipHole: "settles s (skipHole q t)"
  unfolding skipHole_def Let_def by (rule settles_drain)

lemma settles_abandon: "settles s (abandon s)"
  by (simp add: abandon_def Let_def settles_skipHole settles_same)

lemma settles_recover: "settles s (recover s)"
  by (auto simp: recover_def Let_def settles_abandon settles_same split: option.splits)

text \<open>A call that drained, or threw with an empty buffer, followed by the next one.\<close>

lemma settles_andthen:
  assumes "settles s c" and "\<And>t. c = Return t \<Longrightarrow> settles t (k t)"
  shows "settles s (andthen c k)"
  using assms by (cases c) (auto simp: settles_def)

lemma settles_then_drain:
  assumes "\<And>t. c = Throw t \<Longrightarrow> sr_pending t = []"
  shows "settles s (andthen c (\<lambda>t. drain (g t)))"
  using assms settles_drain by (cases c) (auto simp: settles_def)

lemma keepFrame_throw: "accounted s \<Longrightarrow> keepFrame fr s = Throw t \<Longrightarrow> sr_pending t = []"
proof -
  assume acc: "accounted s" and throw: "keepFrame fr s = Throw t"
  let ?over = "sr_maxFrames s \<le> int (length (sr_pending s)) \<or> sr_maxBytes s < sr_pendingBytes s + pf_bytes fr"
  let ?s1 = "if ?over then overflow_reset (pf_seq fr) s else s"
  have max: "sr_maxBytes ?s1 = sr_maxBytes s" by (simp add: overflow_reset_def)
  from throw have big: "sr_maxBytes ?s1 < pf_bytes fr"
    and thrown: "run_apply (pf_apply fr) ?s1 = Throw t"
    by (auto simp only: keepFrame_def Let_def split: if_splits)
      (cases "run_apply (pf_apply fr) ?s1"; simp)+
  from big max have "sr_maxBytes s < pf_bytes fr" by simp
  then have "?over" using overflow_when_oversized [OF acc] by blast
  then have "sr_pending ?s1 = []" by (simp add: overflow_reset_def)
  with run_apply_throw [OF thrown] show ?thesis by simp
qed


lemma settles_keep_then_drain:
  assumes "accounted s"
  shows "settles s (andthen (keepFrame fr s) (\<lambda>t. drain (g t)))"
  by (rule settles_then_drain) (rule keepFrame_throw [OF assms])

lemma settles_from_empty: "sr_pending s = [] \<Longrightarrow> sr_pending t = [] \<Longrightarrow> settles s (Return t)"
  by (simp add: settles_Return settled_empty)

lemma settles_apply_empty:
  assumes "sr_pending s = []" shows "settles r (run_apply a s)"
  using run_apply_cases [of a s] assms
  by (auto simp: settles_def settled_empty)

lemma settles_trans:
  "settles s (Return t) \<Longrightarrow> settles t c \<Longrightarrow> settles s c"
  by (auto simp: settles_def)

lemma settles_reset: "settles s (Return (reset e s))"
  by (simp add: settles_Return settled_no_frontier reset_def)

lemma settles_accept:
  assumes acc: "accounted s"
  shows "settles s (accept epoch seq kind apply bytes s)"
proof (cases "sr_disposed s")
  case True
  then show ?thesis by (simp add: accept_def settles_same)
next
  case False
  let ?anchors = "sr_epoch s = None \<or> sr_frontier s = None"
  let ?changed = "sr_epoch s \<noteq> None \<and> sr_epoch s \<noteq> Some epoch"
  let ?s1 = "if ?anchors \<or> ?changed then reset (Some epoch) s else s"
  let ?direct = "\<not> ?changed \<and> sr_pending ?s1 = []
    \<and> (case sr_frontier ?s1 of None \<Rightarrow> True | Some f \<Rightarrow> seq = f + 1)"
  let ?commit = "run_apply apply (?s1\<lparr>sr_frontier := Some seq\<rparr>)"
  let ?frame = "\<lparr>pf_seq = seq, pf_kind = kind, pf_superseded = False, pf_bytes = bytes, pf_apply = apply\<rparr>"
  let ?keep = "if map_has (sr_pending ?s1) seq then Return ?s1 else keepFrame ?frame ?s1"
  have start: "settles s (Return ?s1)" by (simp add: settles_reset settles_same)
  have acc1: "accounted ?s1" using acc good_reset by (simp add: good_Return)
  have eq: "accept epoch seq kind apply bytes s =
      (if behind ?s1 seq then Return ?s1 else if ?direct then andthen ?commit recover
       else andthen ?keep (\<lambda>s2. andthen (drain (if ?anchors then anchor s2 else s2)) recover))"
    using False by (simp only: accept_def Let_def if_False)
  have direct: "settles s (andthen ?commit recover)" if d: ?direct
  proof (rule settles_andthen [OF settles_apply_empty settles_recover])
    from d have "sr_pending ?s1 = []" by (elim conjE)
    then show "sr_pending (?s1\<lparr>sr_frontier := Some seq\<rparr>) = []" by simp
  qed
  have throw: "sr_pending t = []" if "?keep = Throw t" for t
    using that keepFrame_throw [OF acc1] by (simp split: if_splits)
  have assoc: "andthen ?keep (\<lambda>s2. andthen (drain (if ?anchors then anchor s2 else s2)) recover)
      = andthen (andthen ?keep (\<lambda>s2. drain (if ?anchors then anchor s2 else s2))) recover"
    by (cases ?keep) simp_all
  have buffered: "settles s (andthen ?keep (\<lambda>s2. andthen (drain (if ?anchors then anchor s2 else s2)) recover))"
    unfolding assoc by (rule settles_andthen [OF settles_then_drain settles_recover]) (rule throw)
  show ?thesis
  proof (cases "behind ?s1 seq")
    case True
    show ?thesis unfolding eq if_P [OF True] by (rule start)
  next
    case behind: False
    show ?thesis
    proof (cases ?direct)
      case True
      show ?thesis unfolding eq if_not_P [OF behind] if_P [OF True] by (rule direct [OF True])
    next
      case False
      show ?thesis unfolding eq if_not_P [OF behind] if_not_P [OF False]
        using settles_trans [OF start] buffered by blast
    qed
  qed
qed

lemma settles_merge_event:
  assumes "accounted s" shows "settles s (merge_event ev s)"
proof -
  have "settles s (andthen (keepFrame (replay_frame ev) s) (\<lambda>t. drain t))"
    using settles_keep_then_drain [OF assms, of _ "\<lambda>t. t"] .
  moreover have "settles s (applyTerminalStreamEvents [ev] replay_handlers (s\<lparr>sr_frontier := Some f\<rparr>))"
    if "sr_pending s = []" for f
    using settles_apply_empty [of "s\<lparr>sr_frontier := Some f\<rparr>" s "ApplyReplay ev"] that by simp
  ultimately show ?thesis
    by (simp add: merge_event_def settles_same del: applyTerminalStreamEvents.simps)
qed

lemma settles_merge_events: "accounted s \<Longrightarrow> settles s (merge_events evs s)"
proof (induction evs arbitrary: s)
  case Nil
  then show ?case by (simp add: settles_same)
next
  case (Cons ev evs)
  have "settles t (merge_events evs t)" if "merge_event ev s = Return t" for t
    using good_merge_event [OF Cons.prems, of ev] that Cons.IH by (simp add: good_Return)
  then show ?case
    unfolding merge_events.simps
    by (intro settles_andthen settles_merge_event Cons.prems)
qed

lemma settles_onReply:
  assumes "accounted s" shows "settles s (onReply fl reply s)"
proof (cases "sr_disposed s \<or> fl_generation fl \<noteq> sr_generation s")
  case True
  then show ?thesis by (simp add: onReply_def settles_same)
next
  case False
  let ?s1 = "(clear_flight fl s)\<lparr>sr_wantHistory := False\<rparr>"
  let ?s2 = "if \<not> rr_epochMatch reply then reset (Some (rr_streamEpoch reply)) ?s1 else ?s1"
  have acc1: "accounted ?s1"
    using good_bookkeeping [OF assms, of ?s1] by (simp add: good_Return clear_flight_def)
  then have acc2: "accounted ?s2" using good_reset [of ?s1] by (simp add: good_Return)
  have "settles s (Return ?s1)" by (rule settles_same) (simp_all add: clear_flight_def)
  moreover have "settles ?s1 (Return ?s2)" by (simp add: settles_reset settles_same)
  ultimately have start: "settles s (Return ?s2)" by (rule settles_trans)
  have stated: "settles t (if rr_complete reply = Some False
      then (case rr_firstAvailableSeq reply of None \<Rightarrow> Return (sink OnStreamTruncated t)
        | Some available \<Rightarrow> skipHole available (sink OnStreamTruncated t)) else Return t)" for t
    by (simp add: settles_same settles_skipHole split: option.split)
  have "settles ?s2 (andthen (merge_events (rr_events reply) ?s2) (\<lambda>s3.
           andthen
             (if rr_complete reply = Some False
              then (case rr_firstAvailableSeq reply of
                      None \<Rightarrow> Return (sink OnStreamTruncated s3)
                    | Some available \<Rightarrow> skipHole available (sink OnStreamTruncated s3))
              else Return s3) (\<lambda>s4.
           andthen (drain (noteAttempt (fl_afterSeq fl) (anchor s4))) recover)))"
    by (intro settles_andthen settles_merge_events stated settles_drain settles_recover acc2)
  with start have "settles s (andthen (merge_events (rr_events reply) ?s2) (\<lambda>s3.
           andthen
             (if rr_complete reply = Some False
              then (case rr_firstAvailableSeq reply of
                      None \<Rightarrow> Return (sink OnStreamTruncated s3)
                    | Some available \<Rightarrow> skipHole available (sink OnStreamTruncated s3))
              else Return s3) (\<lambda>s4.
           andthen (drain (noteAttempt (fl_afterSeq fl) (anchor s4))) recover)))"
    by (rule settles_trans)
  then show ?thesis using False by (simp only: onReply_def Let_def if_False)
qed

lemma settles_onReplyFailed: "settles s (onReplyFailed fl s)"
proof -
  let ?s1 = "noteAttempt (fl_afterSeq fl) (clear_flight fl s)"
  have "settles s (Return ?s1)"
    by (rule settles_same) (simp_all add: noteAttempt_def clear_flight_def)
  then have "settles s (recover ?s1)" using settles_recover by (rule settles_trans)
  then show ?thesis by (simp add: onReplyFailed_def Let_def settles_same settles_drain)
qed

lemma settles_onDeadline: "settles s (onDeadline fl s)"
proof -
  have "settles s (Return (s\<lparr>sr_inFlight := None\<rparr>))" by (rule settles_same) simp_all
  then have "settles s (abandon (s\<lparr>sr_inFlight := None\<rparr>))" using settles_abandon by (rule settles_trans)
  then show ?thesis by (simp add: onDeadline_def settles_same)
qed

lemma settles_seed: "settles s (seed e c p s)"
  by (auto simp: seed_def Let_def settles_same intro!: settles_andthen settles_drain settles_recover
      split: option.split)

lemma supersede_pending:
  "map_keys (sr_pending (supersedeBufferedResizes s)) = map_keys (sr_pending s)"
  by (simp add: supersedeBufferedResizes_def comp_def split_def)

lemma settles_level: "settles s (acceptLevelResize c r s)"
proof -
  have keys: "fst ` set (sr_pending (supersedeBufferedResizes s)) = fst ` set (sr_pending s)"
    using supersede_pending [of s] by (metis list.set_map)
  have "sr_frontier (supersedeBufferedResizes s) = sr_frontier s"
    by (simp add: supersedeBufferedResizes_def)
  then have "settles s (Return (sink (OnResize c r None None) (supersedeBufferedResizes s)))"
    by (simp add: settles_def settled_def above_iff map_has_iff keys)
  then show ?thesis by (simp add: acceptLevelResize_def settles_same)
qed

lemma settles_handle:
  assumes "accounted s" shows "settles s (handle e s)"
proof (cases e)
  case (LiveFrame fr)
  then show ?thesis
    using assms by (auto simp: acceptLive_def settles_accept settles_same split: option.split)
next
  case InvalidateContinuity
  then show ?thesis by (simp add: invalidateContinuity_def settles_same settles_reset)
next
  case Dispose
  then show ?thesis by (simp add: dispose_def settles_Return settled_no_frontier reset_def)
qed (use assms in \<open>simp_all add: acceptLiveResize_def settles_accept settles_same settles_level
       settles_seed settles_onReply settles_onReplyFailed settles_onDeadline\<close>)

subsection \<open>Every event\<close>

text \<open>
  Seeding a cursor may jump the frontier forward without delivering what lies between, and a
  level resize retires the resizes still held: both make progress, neither claims losslessness.
\<close>

definition advances :: "reconciler \<Rightarrow> reconciler outcome \<Rightarrow> bool" where
  "advances s c \<longleftrightarrow> accounted (state_of c) \<and> progress s (state_of c)"

lemma good_advances: "good s c \<Longrightarrow> advances s c"
  by (simp add: good_def advances_def)

lemma advances_pure: "advances s (Return t) \<Longrightarrow> advances t c \<Longrightarrow> advances s c"
  by (auto simp: advances_def intro: progress_trans)

lemma good_seed_tail: "accounted s \<Longrightarrow> good s (andthen (drain (s\<lparr>sr_wantHistory := True\<rparr>)) recover)"
proof (rule good_then_recover)
  assume acc: "accounted s"
  have "good s (Return (s\<lparr>sr_wantHistory := True\<rparr>))" using acc by (rule good_bookkeeping) auto
  moreover from this have "good (s\<lparr>sr_wantHistory := True\<rparr>) (drain (s\<lparr>sr_wantHistory := True\<rparr>))"
    by (simp add: good_Return good_drain)
  ultimately show "good s (drain (s\<lparr>sr_wantHistory := True\<rparr>))" by (rule good_pure)
qed

lemma advances_jump:
  assumes "accounted t"
  shows "advances t (Return (case c of None \<Rightarrow> t | Some k \<Rightarrow>
    if b \<and> (case sr_frontier t of None \<Rightarrow> True | Some f \<Rightarrow> f < k) then t\<lparr>sr_frontier := Some k\<rparr> else t))"
  using assms good_advances [OF good_refl [OF assms]]
  by (cases c; cases "sr_frontier t") (auto simp: advances_def accounted_frontier progress_def)

lemma advances_seed:
  assumes "accounted s" shows "advances s (seed e c p s)"
proof (cases "e = None \<or> sr_disposed s")
  case True
  then have "seed e c p s = Return s" by (cases e) (simp_all add: seed_def)
  then show ?thesis using good_refl [OF assms] by (simp add: good_advances)
next
  case False
  then obtain epoch where e: "e = Some epoch" "\<not> sr_disposed s" by auto
  let ?continuing = "p \<and> sr_epoch s = Some epoch \<and> sr_frontier s \<noteq> None"
  let ?s1 = "if sr_epoch s \<noteq> Some epoch
    then (let t = reset (Some epoch) s in
      if p \<and> sr_epoch s \<noteq> None \<and> sr_epoch s \<noteq> Some epoch then sink OnStreamTruncated t else t)
    else s"
  let ?s2 = "case c of None \<Rightarrow> ?s1 | Some k \<Rightarrow>
    if \<not> ?continuing \<and> (case sr_frontier ?s1 of None \<Rightarrow> True | Some f \<Rightarrow> f < k)
    then ?s1\<lparr>sr_frontier := Some k\<rparr> else ?s1"
  have start: "good s (Return ?s1)"
  proof -
    have "good s (Return (reset (Some epoch) s))" using assms by (rule good_reset)
    moreover from this have "good (reset (Some epoch) s) (Return (sink OnStreamTruncated (reset (Some epoch) s)))"
      by (simp add: good_Return good_truncated [unfolded good_Return])
    ultimately show ?thesis using good_refl [OF assms] by (auto simp: Let_def intro: good_pure)
  qed
  then have acc1: "accounted ?s1" by (simp add: good_Return)
  have "advances ?s1 (Return ?s2)" by (rule advances_jump [OF acc1])
  then have s2: "advances s (Return ?s2)" using advances_pure good_advances [OF start] by blast
  then have "accounted ?s2" by (simp add: advances_def)
  then have "advances s (andthen (drain (?s2\<lparr>sr_wantHistory := True\<rparr>)) recover)"
    using advances_pure [OF s2] good_advances [OF good_seed_tail] by blast
  moreover have "seed e c p s = andthen (drain (?s2\<lparr>sr_wantHistory := True\<rparr>)) recover"
    using e by (simp only: seed_def Let_def if_False option.case)
  ultimately show ?thesis by simp
qed

lemma advances_level:
  assumes "accounted s" shows "advances s (acceptLevelResize c r s)"
proof -
  let ?t = "supersedeBufferedResizes s"
  have pend: "sr_pending ?t = map (\<lambda>(q, f). (q, if pf_kind f = Resize then f\<lparr>pf_superseded := True\<rparr> else f)) (sr_pending s)"
    by (simp add: supersedeBufferedResizes_def)
  have same: "pf_bytes (if b then f\<lparr>pf_superseded := True\<rparr> else f) = pf_bytes f"
    "frame_ok e q (if b then f\<lparr>pf_superseded := True\<rparr> else f) = frame_ok e q f" for b e q f
    by (simp_all add: frame_ok_def)
  have bytes: "map (\<lambda>p. pf_bytes (snd p)) (sr_pending ?t) = map (\<lambda>p. pf_bytes (snd p)) (sr_pending s)"
    unfolding pend by (simp add: split_def same)
  have "map fst (sr_pending ?t) = map fst (sr_pending s)" by (rule supersede_pending)
  moreover have "\<forall>(q, f) \<in> set (sr_pending ?t). frame_ok (sr_epoch s) q f"
    using assms unfolding pend by (auto simp: accounted_def same)
  moreover have "length (sr_pending ?t) = length (sr_pending s)" by (simp add: pend)
  moreover have "sr_epoch ?t = sr_epoch s" "sr_pendingBytes ?t = sr_pendingBytes s" "sr_maxBytes ?t = sr_maxBytes s"
    "sr_maxFrames ?t = sr_maxFrames s" "sr_inFlight ?t = sr_inFlight s" "sr_generation ?t = sr_generation s"
    "sr_sink ?t = sr_sink s" "sr_frontier ?t = sr_frontier s"
    by (simp_all add: supersedeBufferedResizes_def)
  ultimately have "advances s (Return (sink (OnResize c r None None) ?t))"
    using assms bytes
    by (simp add: advances_def accounted_def wf_map_def progress_def)
  then show ?thesis
    using good_advances [OF good_refl [OF assms]] by (simp add: acceptLevelResize_def)
qed

lemma good_unordered:
  assumes "accounted s" and "call_position c = None" and "c \<noteq> OnStreamTruncated"
  shows "good s (Return (sink c s))"
  using assms by (auto simp: good_Return accounted_sink progress_def lossless_def no_superseded_def)

lemma good_dispose: "accounted s \<Longrightarrow> good s (Return (dispose s))"
  using good_reset [of "s\<lparr>sr_disposed := True\<rparr>" None] good_bookkeeping [of s "s\<lparr>sr_disposed := True\<rparr>"]
  by (auto simp: dispose_def good_Return intro: progress_trans lossless_trans)

fun lossless_event :: "reconciler_event \<Rightarrow> bool" where
  "lossless_event (LevelResize _ _) = False"
| "lossless_event (Seed _ _ _) = False"
| "lossless_event _ = True"

lemma good_acceptLive: "accounted s \<Longrightarrow> good s (acceptLive fr s)"
  by (auto simp: acceptLive_def good_refl good_unordered split: option.split intro!: good_accept)

lemma good_handle:
  assumes "accounted s" and "lossless_event e" shows "good s (handle e s)"
  using assms
proof (cases e)
  case (LiveResize fr)
  then show ?thesis
    using assms by (auto simp: acceptLiveResize_def good_refl PENDING_FRAME_OVERHEAD_def intro!: good_accept)
next
  case InvalidateContinuity
  then show ?thesis using assms by (simp add: invalidateContinuity_def good_refl good_reset)
qed (use assms in \<open>simp_all add: good_acceptLive good_dispose good_onReply good_onReplyFailed good_onDeadline\<close>)

lemma advances_handle:
  assumes "accounted s" shows "advances s (handle e s)"
proof (cases "lossless_event e")
  case True
  with assms show ?thesis by (intro good_advances good_handle)
next
  case False
  then show ?thesis using assms by (cases e) (simp_all add: advances_seed advances_level)
qed

lemma reconciler_inv_step: "reconciler_inv s \<Longrightarrow> reconciler_inv (reconciler_step s e)"
  using advances_handle [of s e] settles_handle [of s e]
  by (auto simp: reconciler_inv_def reconciler_step_def advances_def settles_def)

lemma step_progress: "reconciler_inv s \<Longrightarrow> progress s (reconciler_step s e)"
  using advances_handle [of s e] by (simp add: reconciler_inv_def reconciler_step_def advances_def)

lemma reconciler_inv_new:
  "new_reconciler b f = Some s \<Longrightarrow> reconciler_inv s"
  by (auto simp: reconciler_inv_def accounted_def above_frontier_def new_reconciler_def Let_def split: if_splits)

interpretation rec: frontier_machine reconciler_step reconciler_inv sr_generation sr_frontier
proof
  fix s e n
  assume inv: "reconciler_inv s"
  then show "reconciler_inv (reconciler_step s e)" by (rule reconciler_inv_step)
  from inv show "sr_generation s \<le> sr_generation (reconciler_step s e)"
    using step_progress by (simp add: progress_def)
  assume "sr_generation (reconciler_step s e) = sr_generation s" and "sr_frontier s = Some n"
  then show "\<exists>m \<ge> n. sr_frontier (reconciler_step s e) = Some m"
    using step_progress [OF inv, of e] by (auto simp: progress_def in_order_def)
qed

interpretation rec_log: logging_machine reconciler_step reconciler_inv sr_sink
  by unfold_locales (use step_progress in \<open>auto simp: progress_def\<close>)

lemma run_progress: "reconciler_inv s \<Longrightarrow> progress s (foldl reconciler_step s es)"
proof (induction es rule: rev_induct)
  case (snoc e es)
  then have "progress s (foldl reconciler_step s es)" "reconciler_inv (foldl reconciler_step s es)"
    by (simp_all add: rec.run_inv)
  then show ?case using step_progress progress_trans by simp
qed simp

fun all_return :: "reconciler \<Rightarrow> reconciler_event list \<Rightarrow> bool" where
  "all_return s [] = True"
| "all_return s (e # es) = (case handle e s of Throw t \<Rightarrow> False | Return t \<Rightarrow> all_return t es)"

lemma run_lossless:
  "reconciler_inv s \<Longrightarrow> all_return s es \<Longrightarrow> \<forall>e \<in> set es. lossless_event e \<Longrightarrow>
     lossless s (foldl reconciler_step s es)"
proof (induction es arbitrary: s)
  case (Cons e es)
  from Cons.prems(2) obtain t where t: "handle e s = Return t" "all_return t es"
    by (auto split: outcome.splits)
  then have step: "reconciler_step s e = t" by (simp add: reconciler_step_def)
  have inv: "reconciler_inv t" using Cons.prems(1) step reconciler_inv_step by blast
  have "good s (Return t)" using good_handle [of s e] Cons.prems t by (simp add: reconciler_inv_def)
  then have "progress s t" "lossless s t" by (simp_all add: good_Return)
  moreover have "progress t (foldl reconciler_step t es)" using inv by (rule run_progress)
  moreover have "lossless t (foldl reconciler_step t es)" using Cons.IH inv t Cons.prems by simp
  ultimately show ?case using lossless_trans step by simp
qed simp

end
