(* ===== verification/Stream_Recovery.thy ===== *)
theory Stream_Recovery
  imports Stream_Delivery
begin

text \<open>
  How the reconciler gets out of a hole in the stream: one resume request at a time, a bounded
  number of attempts from one cursor, a stated truncation instead of a silent stall, and no
  influence of a stale callback or of anything after \<open>dispose\<close>. The last section records what the
  model shows about the code's corner cases on concrete runs.
\<close>

section \<open>Requests\<close>

text \<open>Only \<open>recover\<close> sends requests; everything else leaves the log of requests alone.\<close>

lemma run_apply_requests:
  "sr_resumes (state_of (run_apply a s)) = sr_resumes s"
  "sr_disposed (state_of (run_apply a s)) = sr_disposed s"
  "sr_inFlight (state_of (run_apply a s)) = sr_inFlight s"
  "sr_frontier (state_of (run_apply a s)) = sr_frontier s"
  "sr_pending (state_of (run_apply a s)) = sr_pending s"
  using run_apply_cases [of a s] by auto

lemma commit_loop_requests:
  "sr_resumes (state_of (commit_loop s)) = sr_resumes s \<and> sr_disposed (state_of (commit_loop s)) = sr_disposed s
     \<and> sr_inFlight (state_of (commit_loop s)) = sr_inFlight s
     \<and> (sr_frontier s \<noteq> None \<longrightarrow> sr_frontier (state_of (commit_loop s)) \<noteq> None)"
proof (induction s rule: commit_loop.induct)
  case (1 s)
  show ?case
  proof (cases "case sr_frontier s of None \<Rightarrow> None | Some f \<Rightarrow> map_get (sr_pending s) (f + 1)")
    case None
    then show ?thesis by (simp add: commit_loop.simps [of s] split: option.splits)
  next
    case (Some frame)
    then obtain f where f: "sr_frontier s = Some f" "map_get (sr_pending s) (f + 1) = Some frame"
      by (auto split: option.splits)
    let ?s1 = "(forgetFrame (f + 1) s)\<lparr>sr_frontier := Some (f + 1)\<rparr>"
    show ?thesis
    proof (cases "pf_superseded frame")
      case True
      with 1(1) f show ?thesis by (simp add: commit_loop.simps [of s] Let_def)
    next
      case False
      with 1(2) f run_apply_requests [of "pf_apply frame" ?s1] show ?thesis
        by (cases "run_apply (pf_apply frame) ?s1") (simp_all add: commit_loop.simps [of s] Let_def)
    qed
  qed
qed

lemma foldl_discard_requests:
  "sr_resumes (foldl (\<lambda>t q. if behind t q then forgetFrame q t else t) s qs) = sr_resumes s"
  "sr_disposed (foldl (\<lambda>t q. if behind t q then forgetFrame q t else t) s qs) = sr_disposed s"
  "sr_inFlight (foldl (\<lambda>t q. if behind t q then forgetFrame q t else t) s qs) = sr_inFlight s"
  by (induction qs arbitrary: s) auto

lemma drain_requests:
  "sr_resumes (state_of (drain s)) = sr_resumes s"
  "sr_disposed (state_of (drain s)) = sr_disposed s"
  "sr_inFlight (state_of (drain s)) = sr_inFlight s"
  by (simp_all add: drain_def discard_behind_def commit_loop_requests foldl_discard_requests)

lemma drain_frontier: "sr_frontier s \<noteq> None \<Longrightarrow> sr_frontier (state_of (drain s)) \<noteq> None"
  by (simp add: drain_def discard_behind_def commit_loop_requests foldl_discard)

lemma drain_no_frontier: "sr_frontier s = None \<Longrightarrow> drain s = Return s"
  by (simp add: drain_def commit_loop.simps [of s])

section \<open>No silent stall\<close>

text \<open>
  Frames are held only while a request is under way, and before the frontier is known at most
  one is held.
\<close>

definition few :: "reconciler \<Rightarrow> bool" where
  "few s \<longleftrightarrow> (sr_frontier s = None \<longrightarrow> length (sr_pending s) \<le> 1)"

definition attended :: "reconciler \<Rightarrow> bool" where
  "attended s \<longleftrightarrow> few s \<and> (sr_pending s = [] \<or> sr_inFlight s \<noteq> None \<or> sr_disposed s)"

definition quiet :: "reconciler \<Rightarrow> reconciler \<Rightarrow> bool" where
  "quiet s t \<longleftrightarrow> OnStreamTruncated \<notin> set (drop (length (sr_sink s)) (sr_sink t))"

lemma quiet_later:
  assumes "quiet s u" and "prefix (sr_sink s) (sr_sink t)" and "prefix (sr_sink t) (sr_sink u)"
  shows "quiet t u"
  using assms by (auto simp: quiet_def prefix_def)

lemma few_drain: "few s \<Longrightarrow> drain s = Return t \<Longrightarrow> few t"
  using drain_frontier [of s] drain_no_frontier [of s] by (cases "sr_frontier s") (auto simp: few_def)

lemma few_simps [simp]:
  "few (sink c s) = few s" "few (reset e s)" "sr_pending s = [] \<Longrightarrow> few s"
  "sr_frontier s = Some f \<Longrightarrow> few s"
  by (simp_all add: few_def reset_def)

lemma few_cong: "sr_frontier t = sr_frontier s \<Longrightarrow> sr_pending t = sr_pending s \<Longrightarrow> few t = few s"
  by (simp add: few_def)

lemma lowest_from_some: "\<exists>m. lowest_from (Some l) qs = Some m"
  by (induction qs arbitrary: l) auto

lemma lowestPendingSeq_some: "pending \<noteq> [] \<Longrightarrow> \<exists>m. lowestPendingSeq pending = Some m"
  by (cases pending) (auto simp: lowestPendingSeq_def lowest_from_some)

lemma few_anchor [simp]: "few (anchor s)"
proof (cases "sr_frontier s \<noteq> None \<or> sr_pending s = []")
  case True
  then show ?thesis by (auto simp: anchor_def)
next
  case False
  with lowestPendingSeq_some [of "sr_pending s"] obtain m where "lowestPendingSeq (sr_pending s) = Some m"
    by auto
  with False have "sr_frontier (anchor s) = Some (m - 1)" by (simp add: anchor_def)
  then show ?thesis by (rule few_simps)
qed

lemma abandon_tells:
  assumes "accounted s" and "sr_pending s \<noteq> []"
  shows "\<not> quiet s (state_of (abandon s))"
proof -
  let ?s1 = "s\<lparr>sr_attemptsFor := -1, sr_attempts := 0, sr_wantHistory := False\<rparr>"
  let ?s2 = "sink OnStreamTruncated ?s1"
  let ?q = "the_default 0 (lowestPendingSeq (sr_pending s))"
  have acc2: "accounted ?s2" using assms(1) by (simp add: accounted_def)
  have told: "prefix (sr_sink s @ [OnStreamTruncated])
    (sr_sink (state_of (drain (if b then ?s2\<lparr>sr_frontier := k\<rparr> else ?s2))))"
    for b k
  proof -
    let ?t = "if b then ?s2\<lparr>sr_frontier := k\<rparr> else ?s2"
    have "accounted ?t" using acc2 accounted_frontier by (cases b) simp_all
    then have "prefix (sr_sink ?t) (sr_sink (state_of (drain ?t)))"
      using good_drain by (simp only: good_def progress_def)
    moreover have "sr_sink ?t = sr_sink s @ [OnStreamTruncated]" by simp
    ultimately show ?thesis by (simp only:)
  qed
  have "prefix (sr_sink s @ [OnStreamTruncated]) (sr_sink (state_of (skipHole ?q ?s2)))"
    unfolding skipHole_def Let_def by (rule told)
  moreover have "abandon s = skipHole ?q ?s2" using assms(2) by (simp add: abandon_def Let_def)
  ultimately show ?thesis by (auto simp: quiet_def prefix_def)
qed

lemma recover_attends:
  assumes "accounted s" and "few s" and "recover s = Return t" and "quiet s t"
  shows "attended t"
proof (cases "sr_epoch s")
  case None
  have "sr_pending s = []"
  proof (rule ccontr)
    assume "sr_pending s \<noteq> []"
    then obtain q fr where "(q, fr) \<in> set (sr_pending s)" by (cases "sr_pending s") auto
    with assms(1) None show False by (auto simp: accounted_def frame_ok_def)
  qed
  with None assms show ?thesis by (auto simp: recover_def attended_def)
next
  case (Some e)
  note facts = assms Some
  have "abandon s = Return t \<Longrightarrow> attended t"
  proof (cases "sr_pending s = []")
    case True
    assume "abandon s = Return t"
    with True have "sr_pending t = []" by (auto simp: abandon_def Let_def)
    then show ?thesis by (simp add: attended_def)
  next
    case False
    assume "abandon s = Return t"
    with abandon_tells [OF assms(1) False] assms(4) show ?thesis by simp
  qed
  with facts show ?thesis
    by (auto simp: recover_def Let_def attended_def few_def split: if_splits)
qed


text \<open>A call that ends in \<open>recover\<close>: the good part before it, then the requesting part.\<close>

lemma then_recover_attends:
  assumes "good s c" and "\<And>u. c = Return u \<Longrightarrow> few u"
    and "andthen c recover = Return t" and "quiet s t"
  shows "attended t"
proof -
  obtain u where u: "c = Return u" "recover u = Return t" using assms(3) by (cases c) auto
  with assms(1) have acc: "accounted u" and "prefix (sr_sink s) (sr_sink u)"
    by (auto simp: good_Return progress_def)
  moreover have "prefix (sr_sink u) (sr_sink t)"
    using good_recover [OF acc] u by (simp add: good_Return progress_def)
  ultimately have "quiet u t" using assms(4) quiet_later by blast
  with u assms(2) acc show ?thesis using recover_attends by blast
qed

lemma keepFrame_few:
  assumes "sr_frontier s \<noteq> None \<or> sr_pending s = []" and "keepFrame fr s = Return t"
  shows "few t \<and> sr_disposed t = sr_disposed s"
proof (cases "map_has (sr_pending s) (pf_seq fr) \<or> behind s (pf_seq fr)")
  case True
  with assms show ?thesis by (auto simp: keepFrame_def few_def)
next
  case False
  let ?over = "sr_maxFrames s \<le> int (length (sr_pending s)) \<or> sr_maxBytes s < sr_pendingBytes s + pf_bytes fr"
  let ?s1 = "if ?over then overflow_reset (pf_seq fr) s else s"
  have start: "sr_frontier ?s1 \<noteq> None \<or> sr_pending ?s1 = []" "sr_disposed ?s1 = sr_disposed s"
    using assms(1) by (auto simp: overflow_reset_def)
  let ?c = "andthen (run_apply (pf_apply fr) ?s1)
      (\<lambda>s2. Return (s2\<lparr>sr_frontier := Some (max (the_default 0 (sr_frontier s2)) (pf_seq fr))\<rparr>))"
  let ?k = "?s1\<lparr>sr_pending := map_set (pf_seq fr) fr (sr_pending ?s1), sr_pendingBytes := sr_pendingBytes ?s1 + pf_bytes fr\<rparr>"
  have eq: "keepFrame fr s = (if sr_maxBytes ?s1 < pf_bytes fr then ?c else Return ?k)"
    using False by (simp only: keepFrame_def Let_def if_False)
  have over: "few u \<and> sr_disposed u = sr_disposed ?s1" if "?c = Return u" for u
    using that run_apply_requests(2) [of "pf_apply fr" ?s1]
    by (cases "run_apply (pf_apply fr) ?s1") (auto simp: few_def)
  have kept: "few ?k \<and> sr_disposed ?k = sr_disposed ?s1" using start by (auto simp: few_def)
  show ?thesis
  proof (cases "sr_maxBytes ?s1 < pf_bytes fr")
    case True
    with assms(2) have "?c = Return t" unfolding eq by (simp only: if_True)
    with over start show ?thesis by simp
  next
    case False
    with assms(2) have "t = ?k" unfolding eq by (simp only: if_False outcome.inject)
    with kept start show ?thesis by simp
  qed
qed

lemma accept_attends:
  assumes acc: "accounted s" and att: "attended s"
    and pos: "apply_position apply = \<lparr>pos_epoch = epoch, pos_seq = seq\<rparr>"
    and bytes: "PENDING_FRAME_OVERHEAD \<le> bytes"
    and ret: "accept epoch seq kind apply bytes s = Return t" and quiet: "quiet s t"
  shows "attended t"
proof (cases "sr_disposed s")
  case True
  with ret att show ?thesis by (simp add: accept_def)
next
  case live: False
  let ?anchors = "sr_epoch s = None \<or> sr_frontier s = None"
  let ?changed = "sr_epoch s \<noteq> None \<and> sr_epoch s \<noteq> Some epoch"
  let ?s1 = "if ?anchors \<or> ?changed then reset (Some epoch) s else s"
  let ?direct = "\<not> ?changed \<and> sr_pending ?s1 = []
    \<and> (case sr_frontier ?s1 of None \<Rightarrow> True | Some f \<Rightarrow> seq = f + 1)"
  let ?commit = "run_apply apply (?s1\<lparr>sr_frontier := Some seq\<rparr>)"
  let ?frame = "\<lparr>pf_seq = seq, pf_kind = kind, pf_superseded = False, pf_bytes = bytes, pf_apply = apply\<rparr>"
  let ?keep = "if map_has (sr_pending ?s1) seq then Return ?s1 else keepFrame ?frame ?s1"
  let ?buffer = "andthen ?keep (\<lambda>s2. drain (if ?anchors then anchor s2 else s2))"
  have eq: "accept epoch seq kind apply bytes s =
      (if behind ?s1 seq then Return ?s1 else if ?direct then andthen ?commit recover
       else andthen ?keep (\<lambda>s2. andthen (drain (if ?anchors then anchor s2 else s2)) recover))"
    using live by (simp only: accept_def Let_def if_False)
  have assoc: "andthen ?keep (\<lambda>s2. andthen (drain (if ?anchors then anchor s2 else s2)) recover)
      = andthen ?buffer recover"
    by (cases ?keep) simp_all
  have good1: "good s (Return ?s1)" using acc good_reset good_refl by simp
  then have acc1: "accounted ?s1" by (simp add: good_Return)
  have start: "sr_frontier ?s1 \<noteq> None \<or> sr_pending ?s1 = []" "\<not> sr_disposed ?s1"
    using live by (auto simp: reset_def)
  have quiet1: "quiet ?s1 u" if "quiet s u" "prefix (sr_sink ?s1) (sr_sink u)" for u
    using that by (auto simp: quiet_def reset_def)
  show ?thesis
  proof (cases "behind ?s1 seq")
    case True
    with ret have "t = ?s1" unfolding eq by (simp only: if_True outcome.inject)
    then show ?thesis using att by (auto simp: attended_def reset_def few_def)
  next
    case behind: False
    show ?thesis
    proof (cases ?direct)
      case True
      have "andthen ?commit recover = Return t"
        using ret unfolding eq if_not_P [OF behind] if_P [OF True] .
      then obtain u where u: "?commit = Return u" "recover u = Return t" by (cases ?commit) auto
      have *: "accounted (state_of ?commit) \<and> prefix (sr_sink ?s1) (sr_sink (state_of ?commit))
        \<and> sr_generation (state_of ?commit) = sr_generation ?s1 \<and> sr_pending (state_of ?commit) = sr_pending ?s1"
        by (rule apply_at [OF acc1])
      have ok: "accounted u" "prefix (sr_sink ?s1) (sr_sink u)" using * unfolding u(1) by simp_all
      then have "prefix (sr_sink s) (sr_sink u)" by (auto simp: reset_def split: if_splits)
      moreover have "prefix (sr_sink u) (sr_sink t)"
        using good_recover [OF ok(1)] u by (simp add: good_Return progress_def)
      ultimately have "quiet u t" using quiet quiet_later by blast
      moreover have "sr_pending u = []" "\<not> sr_disposed u"
        using * True start run_apply_requests(2) [of "apply" "?s1\<lparr>sr_frontier := Some seq\<rparr>"] unfolding u(1)
        by auto
      ultimately show ?thesis using recover_attends ok u by simp
    next
      case False
      have run: "andthen ?buffer recover = Return t"
        using ret unfolding eq if_not_P [OF behind] if_not_P [OF False] assoc .
      have few: "few u \<and> \<not> sr_disposed u" if "?keep = Return u" for u
        using that start keepFrame_few [OF start(1), of ?frame u] by (auto simp: few_def split: if_splits)
      have after: "few u \<and> \<not> sr_disposed u" if "?buffer = Return u" for u
      proof -
        from that obtain v where v: "?keep = Return v" "drain (if ?anchors then anchor v else v) = Return u"
          by (cases ?keep) auto
        let ?w = "if ?anchors then anchor v else v"
        have "few v" "\<not> sr_disposed v" using few v(1) by simp_all
        moreover have "sr_disposed (anchor v) = sr_disposed v" by (simp add: anchor_def)
        ultimately have "few ?w" "\<not> sr_disposed ?w" by simp_all
        with few_drain [OF _ v(2)] drain_requests(2) [of ?w] show ?thesis unfolding v(2) by simp
      qed
      have "epoch_ok": "sr_epoch ?s1 = Some epoch" by (auto simp: reset_def)
      have "good ?s1 ?buffer"
      proof (rule good_andthen)
        show "good ?s1 ?keep"
          using acc1 good_keepFrame [of ?s1 ?frame] good_refl [of ?s1] "epoch_ok" pos bytes
          by (simp add: frame_ok_def)
        fix u assume u: "accounted u"
        show "good u (drain (if ?anchors then anchor u else u))"
          using good_anchor [OF u] good_drain [of "anchor u"] good_drain [OF u] good_pure [of u "anchor u"]
          by (simp add: good_Return)
      qed
      with good1 have "good s ?buffer" by (rule good_pure)
      then show ?thesis by (rule then_recover_attends [OF _ conjunct1 [OF after] run quiet])
    qed
  qed
qed


lemma tail_attends:
  assumes acc: "accounted u" and few: "few u" and quiet: "quiet s t" "prefix (sr_sink s) (sr_sink u)"
    and ret: "andthen (drain u) recover = Return t"
  shows "attended t"
proof -
  from ret obtain v where v: "drain u = Return v" "recover v = Return t" by (cases "drain u") auto
  have "good u (Return v)" using good_drain [OF acc] v by simp
  then have "accounted v" "prefix (sr_sink u) (sr_sink v)" by (simp_all add: good_Return progress_def)
  moreover from this have "prefix (sr_sink v) (sr_sink t)"
    using good_recover [of v] v by (simp add: good_Return progress_def)
  ultimately show ?thesis
    using recover_attends few_drain few v quiet quiet_later prefix_order.trans by blast
qed

lemma reply_attends:
  assumes acc: "accounted s" and att: "attended s" and ret: "onReply fl reply s = Return t" and quiet: "quiet s t"
  shows "attended t"
proof (cases "sr_disposed s \<or> fl_generation fl \<noteq> sr_generation s")
  case True
  with ret att show ?thesis by (simp add: onReply_def)
next
  case False
  let ?s1 = "(clear_flight fl s)\<lparr>sr_wantHistory := False\<rparr>"
  let ?s2 = "if \<not> rr_epochMatch reply then reset (Some (rr_streamEpoch reply)) ?s1 else ?s1"
  let ?stated = "\<lambda>s3. if rr_complete reply = Some False
      then (case rr_firstAvailableSeq reply of
              None \<Rightarrow> Return (sink OnStreamTruncated s3)
            | Some available \<Rightarrow> skipHole available (sink OnStreamTruncated s3))
      else Return s3"
  have full: "andthen (merge_events (rr_events reply) ?s2) (\<lambda>s3. andthen (?stated s3) (\<lambda>s4.
      andthen (drain (noteAttempt (fl_afterSeq fl) (anchor s4))) recover)) = Return t"
    using ret False by (simp only: onReply_def Let_def if_False)
  obtain s3 where s3: "merge_events (rr_events reply) ?s2 = Return s3"
    and rest: "andthen (?stated s3) (\<lambda>s4. andthen (drain (noteAttempt (fl_afterSeq fl) (anchor s4))) recover) = Return t"
    by (rule andthen_ReturnE [OF full])
  obtain s4 where s4: "?stated s3 = Return s4"
    and last: "andthen (drain (noteAttempt (fl_afterSeq fl) (anchor s4))) recover = Return t"
    by (rule andthen_ReturnE [OF rest])
  note runs = s3 s4 last
  have s1: "good s (Return ?s1)"
    using acc by (rule good_bookkeeping) (auto simp: clear_flight_def)
  then have "good ?s1 (Return ?s2)" using good_reset good_refl by (simp add: good_Return)
  with s1 have s2: "good s (Return ?s2)" by (rule good_pure)
  then have "good ?s2 (Return s3)" using good_merge_events runs(1) by (metis good_Return)
  with s2 have s3: "good s (Return s3)" by (rule good_pure)
  then have "good s3 (?stated s3)"
    using good_truncated good_skipHole good_refl by (auto simp: good_Return split: option.split)
  then have "good s3 (Return s4)" using runs(2) by (simp only:)
  with s3 have s4: "good s (Return s4)" by (rule good_pure)
  let ?u = "noteAttempt (fl_afterSeq fl) (anchor s4)"
  have "good s4 (Return ?u)"
    using good_anchor good_noteAttempt good_pure s4 by (metis good_Return)
  with s4 have u: "good s (Return ?u)" by (rule good_pure)
  have "few ?u" using few_anchor [of s4] by (simp add: few_def noteAttempt_def)
  with u show ?thesis
    by (intro tail_attends [OF _ _ quiet _ runs(3)]) (simp_all add: good_Return progress_def)
qed

lemma reply_failed_attends:
  assumes acc: "accounted s" and att: "attended s" and ret: "onReplyFailed fl s = Return t" and quiet: "quiet s t"
  shows "attended t"
proof (cases "sr_disposed s \<or> fl_generation fl \<noteq> sr_generation s")
  case True
  with ret att show ?thesis by (simp add: onReplyFailed_def)
next
  case False
  let ?u = "noteAttempt (fl_afterSeq fl) (clear_flight fl s)"
  have "good s (Return ?u)"
    using good_clear_flight [OF acc, of fl] good_noteAttempt good_pure good_Return by blast
  then have u: "accounted ?u" "prefix (sr_sink s) (sr_sink ?u)" by (simp_all add: good_Return progress_def)
  have same: "sr_frontier ?u = sr_frontier s" "sr_pending ?u = sr_pending s"
    by (simp_all add: noteAttempt_def clear_flight_def)
  show ?thesis
  proof (cases "sr_frontier s")
    case (Some f)
    then have "recover ?u = Return t" using ret False same by (simp add: onReplyFailed_def Let_def)
    moreover have "few ?u" using Some same by simp
    moreover from calculation have "prefix (sr_sink ?u) (sr_sink t)"
      using good_recover [OF u(1)] by (simp add: good_Return progress_def)
    ultimately show ?thesis using recover_attends u quiet quiet_later by blast
  next
    case None
    with ret False same have drained: "drain (anchor ?u) = Return t"
      by (simp add: onReplyFailed_def Let_def)
    show ?thesis
    proof (cases "sr_pending s")
      case Nil
      with same have "sr_pending (anchor ?u) = []" "sr_frontier (anchor ?u) = None" using None by (simp_all add: anchor_def)
      with drained drain_no_frontier show ?thesis by (auto simp: attended_def)
    next
      case (Cons p ps)
      obtain q fr where p: "p = (q, fr)" by (cases p)
      have single: "sr_pending s = [(q, fr)]" using att None Cons p by (simp add: attended_def few_def)
      have "sr_pending (anchor ?u) = [(q, fr)]" "sr_frontier (anchor ?u) = Some (q - 1)"
        using None same single by (simp_all add: anchor_def lowestPendingSeq_def)
      moreover from this have "discard_behind (anchor ?u) = anchor ?u"
        by (simp add: discard_behind_def behind_def)
      ultimately have "commit_loop (anchor ?u) = Return t" using drained by (simp add: drain_def)
      let ?v = "(forgetFrame q (anchor ?u))\<lparr>sr_frontier := Some q\<rparr>"
      have empty: "sr_pending ?v = []"
        using \<open>sr_pending (anchor ?u) = [(q, fr)]\<close> by (simp add: forgetFrame_pending)
      have stop: "commit_loop w = Return w" if "sr_pending w = []" for w
        using that by (simp add: commit_loop.simps [of w] split: option.split)
      have "t = ?v \<or> run_apply (pf_apply fr) ?v = Return t"
      proof -
        have step: "commit_loop (anchor ?u) = (if pf_superseded fr then commit_loop ?v
          else (case run_apply (pf_apply fr) ?v of Return w \<Rightarrow> commit_loop w | Throw w \<Rightarrow> Throw w))"
          using \<open>sr_pending (anchor ?u) = [(q, fr)]\<close> \<open>sr_frontier (anchor ?u) = Some (q - 1)\<close>
          by (simp add: commit_loop.simps [of "anchor ?u"] Let_def)
        show ?thesis
          using \<open>commit_loop (anchor ?u) = Return t\<close> stop [OF empty] stop run_apply_requests(5) [of "pf_apply fr" ?v] empty
          unfolding step by (auto split: if_splits outcome.splits)
      qed
      then have "sr_pending t = []"
        using empty run_apply_requests(5) [of "pf_apply fr" ?v] by auto
      then show ?thesis by (simp add: attended_def)
    qed
  qed
qed


lemma seed_attends:
  assumes acc: "accounted s" and att: "attended s" and ret: "seed e c p s = Return t" and quiet: "quiet s t"
  shows "attended t"
proof (cases "e = None \<or> sr_disposed s")
  case True
  then have "seed e c p s = Return s" by (cases e) (simp_all add: seed_def)
  with ret att show ?thesis by simp
next
  case False
  then obtain epoch where e: "e = Some epoch" "\<not> sr_disposed s" by auto
  let ?continuing = "p \<and> sr_epoch s = Some epoch \<and> sr_frontier s \<noteq> None"
  let ?s1 = "if sr_epoch s \<noteq> Some epoch
    then (let t = reset (Some epoch) s in
      if p \<and> sr_epoch s \<noteq> None \<and> sr_epoch s \<noteq> Some epoch then sink OnStreamTruncated t else t)
    else s"
  let ?s2 = "case c of None \<Rightarrow> ?s1 | Some k \<Rightarrow>
    if \<not> ?continuing \<and> (case sr_frontier ?s1 of None \<Rightarrow> True | Some f \<Rightarrow> f < k)
    then ?s1\<lparr>sr_frontier := Some k\<rparr> else ?s1"
  let ?u = "?s2\<lparr>sr_wantHistory := True\<rparr>"
  have "seed e c p s = andthen (drain ?u) recover"
    using e by (simp only: seed_def Let_def if_False option.case)
  with ret have run: "andthen (drain ?u) recover = Return t" by simp
  have acc1: "accounted ?s1" and few1: "few ?s1" and pre1: "prefix (sr_sink s) (sr_sink ?s1)"
    using acc good_reset [OF acc] att by (simp_all add: Let_def good_Return accounted_sink attended_def reset_def)
  have "accounted w \<and> few w \<and> prefix (sr_sink s) (sr_sink w)"
    if "w = (case c of None \<Rightarrow> v | Some k \<Rightarrow> if b k then v\<lparr>sr_frontier := Some k\<rparr> else v)"
      "accounted v" "few v" "prefix (sr_sink s) (sr_sink v)" for v w b
    using that by (auto simp: accounted_frontier split: option.splits)
  from this [OF refl acc1 few1 pre1] have "accounted ?s2 \<and> few ?s2 \<and> prefix (sr_sink s) (sr_sink ?s2)" .
  moreover have "accounted (v\<lparr>sr_wantHistory := True\<rparr>) = accounted v" "few (v\<lparr>sr_wantHistory := True\<rparr>) = few v"
    "sr_sink (v\<lparr>sr_wantHistory := True\<rparr>) = sr_sink v" for v
    by (simp_all add: accounted_def few_def)
  ultimately have "accounted ?u" "few ?u" "prefix (sr_sink s) (sr_sink ?u)" by (simp_all only:)
  then show ?thesis using tail_attends [OF _ _ quiet _ run] by blast
qed

lemma deadline_attends:
  assumes acc: "accounted s" and att: "attended s" and ret: "onDeadline fl s = Return t" and quiet: "quiet s t"
  shows "attended t"
proof (cases "sr_disposed s \<or> sr_inFlight s \<noteq> Some fl")
  case True
  with ret att show ?thesis by (simp add: onDeadline_def)
next
  case False
  let ?u = "s\<lparr>sr_inFlight := None\<rparr>"
  have run: "abandon ?u = Return t" using ret False by (simp add: onDeadline_def)
  have "accounted ?u" using acc by (simp add: accounted_def)
  moreover have "quiet ?u t" using quiet by (simp add: quiet_def)
  ultimately have "sr_pending ?u = []" using abandon_tells [of ?u] run by auto
  with run have "sr_pending t = []" by (auto simp: abandon_def Let_def)
  then show ?thesis by (simp add: attended_def)
qed

lemma level_attends: "attended s \<Longrightarrow> acceptLevelResize c r s = Return t \<Longrightarrow> attended t"
  by (auto simp: acceptLevelResize_def supersedeBufferedResizes_def attended_def few_def split: if_splits)

lemma live_attends:
  assumes "accounted s" "attended s" "acceptLive fr s = Return t" "quiet s t"
  shows "attended t"
proof (cases "sr_disposed s \<or> lf_streamEpoch fr = None \<or> lf_streamSeq fr = None")
  case True
  then have "acceptLive fr s = Return s \<or> acceptLive fr s = Return (sink (OnOutput (lf_data fr) (lf_bootstrap fr) None) s)"
    by (auto simp: acceptLive_def split: option.split)
  with assms show ?thesis by (auto simp: attended_def few_def)
next
  case False
  then obtain e q where eq: "lf_streamEpoch fr = Some e" "lf_streamSeq fr = Some q" by auto
  show ?thesis
    by (rule accept_attends [OF assms(1,2) _ _ _ assms(4)])
      (use assms(3) eq False in \<open>simp_all add: acceptLive_def\<close>)
qed

lemma live_resize_attends:
  assumes "accounted s" "attended s" "acceptLiveResize fr s = Return t" "quiet s t"
  shows "attended t"
proof (cases "sr_disposed s")
  case True
  with assms show ?thesis by (simp add: acceptLiveResize_def)
next
  case False
  show ?thesis
    by (rule accept_attends [OF assms(1,2) _ _ _ assms(4)])
      (use assms(3) False in \<open>simp_all add: acceptLiveResize_def\<close>)
qed

lemma handle_attends:
  assumes "accounted s" "attended s" "handle e s = Return t" "quiet s t"
  shows "attended t"
proof (cases e)
  case (LiveFrame fr)
  with assms show ?thesis by (simp add: live_attends)
next
  case (LiveResize fr)
  with assms show ?thesis by (simp add: live_resize_attends)
next
  case (LevelResize c r)
  with assms show ?thesis by (simp add: level_attends)
next
  case (Seed e c p)
  with assms show ?thesis by (simp add: seed_attends)
next
  case InvalidateContinuity
  with assms show ?thesis by (auto simp: invalidateContinuity_def reset_def attended_def few_def split: if_splits)
next
  case Dispose
  with assms show ?thesis by (auto simp: dispose_def reset_def attended_def few_def)
next
  case (Reply fl r)
  with assms show ?thesis by (simp add: reply_attends)
next
  case (ReplyFailed fl)
  with assms show ?thesis by (simp add: reply_failed_attends)
next
  case (Deadline fl)
  with assms show ?thesis by (simp add: deadline_attends)
qed

lemma run_attends:
  "reconciler_inv s \<Longrightarrow> attended s \<Longrightarrow> all_return s es \<Longrightarrow> quiet s (foldl reconciler_step s es) \<Longrightarrow>
     attended (foldl reconciler_step s es)"
proof (induction es arbitrary: s)
  case (Cons e es)
  from Cons.prems(3) obtain t where t: "handle e s = Return t" "all_return t es"
    by (auto split: outcome.splits)
  then have step: "reconciler_step s e = t" by (simp add: reconciler_step_def)
  have inv: "reconciler_inv t" using Cons.prems(1) step reconciler_inv_step by blast
  have pre: "prefix (sr_sink s) (sr_sink t)" "prefix (sr_sink t) (sr_sink (foldl reconciler_step t es))"
    using step_progress [OF Cons.prems(1), of e] run_progress [OF inv, of es] step by (simp_all add: progress_def)
  have q: "quiet s t" "quiet t (foldl reconciler_step t es)"
    using Cons.prems(4) pre step by (auto simp: quiet_def prefix_def)
  have "attended t"
    using handle_attends [OF _ Cons.prems(2) t(1) q(1)] Cons.prems(1) by (simp add: reconciler_inv_def)
  with Cons.IH [OF inv] t q step show ?case by simp
qed simp


section \<open>At most one request per event\<close>

definition asked :: "reconciler \<Rightarrow> reconciler \<Rightarrow> bool" where
  "asked s t \<longleftrightarrow> (\<exists>epoch fl. sr_resumes t = sr_resumes s @ [(epoch, fl_afterSeq fl, fl)]
     \<and> sr_inFlight t = Some fl \<and> fl_id fl = length (sr_resumes s) \<and> fl_generation fl = sr_generation t
     \<and> sr_epoch t = Some epoch \<and> fl_afterSeq fl = the_default 0 (sr_frontier t)
     \<and> attemptsAt (fl_afterSeq fl) t < HOLE_ATTEMPT_LIMIT \<and> \<not> sr_disposed t)"

definition asks :: "reconciler \<Rightarrow> reconciler outcome \<Rightarrow> bool" where
  "asks s c \<longleftrightarrow> sr_resumes (state_of c) = sr_resumes s \<or> asked s (state_of c)"

definition asks_not :: "reconciler \<Rightarrow> reconciler outcome \<Rightarrow> bool" where
  "asks_not s c \<longleftrightarrow> sr_resumes (state_of c) = sr_resumes s"

lemma asks_not_asks: "asks_not s c \<Longrightarrow> asks s c"
  by (simp add: asks_def asks_not_def)

lemma asks_not_Return: "asks_not s (Return t) \<longleftrightarrow> sr_resumes t = sr_resumes s"
  by (simp add: asks_not_def)

lemma asks_not_andthen:
  "asks_not s c \<Longrightarrow> (\<And>t. c = Return t \<Longrightarrow> asks_not t (k t)) \<Longrightarrow> asks_not s (andthen c k)"
  by (cases c) (auto simp: asks_not_def)

lemma asks_andthen:
  "asks_not s c \<Longrightarrow> (\<And>t. c = Return t \<Longrightarrow> asks t (k t)) \<Longrightarrow> asks s (andthen c k)"
  by (cases c) (auto simp: asks_not_def asks_def asked_def)

lemma asks_cong: "sr_resumes t = sr_resumes s \<Longrightarrow> asks s c = asks t c"
  "sr_resumes t = sr_resumes s \<Longrightarrow> asks_not s c = asks_not t c"
  by (simp_all add: asks_def asks_not_def asked_def)

lemma asks_not_ops:
  "asks_not s (drain s)" "asks_not s (run_apply a s)" "asks_not s (skipHole q s)" "asks_not s (abandon s)"
proof -
  show drain: "asks_not s (drain s)" for s by (simp add: asks_not_def drain_requests)
  show "asks_not s (run_apply a s)" by (simp add: asks_not_def run_apply_requests)
  show skip: "asks_not s (skipHole q s)" for s q by (simp add: asks_not_def skipHole_def Let_def drain_requests)
  show "asks_not s (abandon s)"
    using skip unfolding asks_not_def by (simp add: abandon_def Let_def)
qed

lemma send_asks:
  assumes "sr_epoch s = Some epoch" "\<not> sr_disposed s" "attemptsAt after s < HOLE_ATTEMPT_LIMIT"
    "after = the_default 0 (sr_frontier s)" "fl_afterSeq fl = after" "fl_id fl = length (sr_resumes s)"
    "fl_generation fl = sr_generation s"
  shows "asks s (Return (s\<lparr>sr_inFlight := Some fl, sr_resumes := sr_resumes s @ [(epoch, after, fl)]\<rparr>))"
  using assms by (simp add: asks_def asked_def attemptsAt_def split: if_splits)

lemma recover_asks: "asks s (recover s)"
proof (cases "sr_epoch s")
  case None
  then show ?thesis by (simp add: recover_def asks_not_asks asks_not_Return)
next
  case (Some epoch)
  let ?after = "the_default 0 (sr_frontier s)"
  let ?send = "Return (s\<lparr>sr_inFlight := Some \<lparr>fl_id = length (sr_resumes s), fl_generation = sr_generation s,
      fl_afterSeq = ?after\<rparr>, sr_resumes := sr_resumes s @ [(epoch, ?after,
      \<lparr>fl_id = length (sr_resumes s), fl_generation = sr_generation s, fl_afterSeq = ?after\<rparr>)]\<rparr>)"
  consider "recover s = Return s" | "recover s = abandon s"
    | "recover s = ?send" "\<not> sr_disposed s" "attemptsAt ?after s < HOLE_ATTEMPT_LIMIT"
    using Some unfolding recover_def Let_def by (simp only: option.case not_less [symmetric]) (metis)
  then show ?thesis
  proof cases
    case 1
    then show ?thesis by (simp add: asks_not_asks asks_not_Return)
  next
    case 2
    then show ?thesis by (simp add: asks_not_asks asks_not_ops)
  next
    case 3
    show ?thesis unfolding 3(1) by (rule send_asks) (simp_all add: Some 3)
  qed
qed

lemma keepFrame_asks_not: "asks_not s (keepFrame fr s)"
proof -
  have "asks_not s (if b then andthen (run_apply a u) (\<lambda>t. Return (t\<lparr>sr_frontier := g t\<rparr>)) else
      Return (u\<lparr>sr_pending := m, sr_pendingBytes := n\<rparr>))" if "sr_resumes u = sr_resumes s" for b a u g m n
    using that run_apply_requests(1) [of a u]
    by (cases "run_apply a u") (auto simp: asks_not_def)
  then show ?thesis by (auto simp: keepFrame_def Let_def overflow_reset_def asks_not_Return)
qed

lemma merge_events_asks_not: "asks_not s (merge_events evs s)"
proof (induction evs arbitrary: s)
  case (Cons ev evs)
  have "asks_not s (applyTerminalStreamEvents [ev] replay_handlers (s\<lparr>sr_frontier := f\<rparr>))" for f
    using asks_not_ops(2) [of "s\<lparr>sr_frontier := f\<rparr>" "ApplyReplay ev"] by (simp add: asks_not_def)
  moreover have "asks_not s (andthen (keepFrame (replay_frame ev) s) drain)"
    by (intro asks_not_andthen keepFrame_asks_not asks_not_ops)
  ultimately have "asks_not s (merge_event ev s)"
    by (simp add: merge_event_def asks_not_Return del: applyTerminalStreamEvents.simps)
  with Cons.IH show ?case by (auto intro: asks_not_andthen)
qed (simp add: asks_not_Return)

lemma asks_if: "(b \<Longrightarrow> asks s c) \<Longrightarrow> (\<not> b \<Longrightarrow> asks s d) \<Longrightarrow> asks s (if b then c else d)"
  by simp

lemma drain_recover_asks: "asks s (andthen (drain s) recover)"
  by (rule asks_andthen [OF asks_not_ops(1) recover_asks])

lemma accept_asks: "asks s (accept epoch seq kind apply bytes s)"
proof (cases "sr_disposed s")
  case True
  then show ?thesis by (simp add: accept_def asks_not_asks asks_not_Return)
next
  case False
  let ?anchors = "sr_epoch s = None \<or> sr_frontier s = None"
  let ?changed = "sr_epoch s \<noteq> None \<and> sr_epoch s \<noteq> Some epoch"
  let ?s1 = "if ?anchors \<or> ?changed then reset (Some epoch) s else s"
  let ?direct = "\<not> ?changed \<and> sr_pending ?s1 = []
    \<and> (case sr_frontier ?s1 of None \<Rightarrow> True | Some f \<Rightarrow> seq = f + 1)"
  let ?commit = "run_apply apply (?s1\<lparr>sr_frontier := Some seq\<rparr>)"
  let ?frame = "\<lparr>pf_seq = seq, pf_kind = kind, pf_superseded = False, pf_bytes = bytes, pf_apply = apply\<rparr>"
  let ?keep = "if map_has (sr_pending ?s1) seq then Return ?s1 else keepFrame ?frame ?s1"
  have eq: "accept epoch seq kind apply bytes s =
      (if behind ?s1 seq then Return ?s1 else if ?direct then andthen ?commit recover
       else andthen ?keep (\<lambda>s2. andthen (drain (if ?anchors then anchor s2 else s2)) recover))"
    using False by (simp only: accept_def Let_def if_False)
  have same: "sr_resumes ?s1 = sr_resumes s" by (simp add: reset_def)
  have "sr_resumes (?s1\<lparr>sr_frontier := Some seq\<rparr>) = sr_resumes ?s1" by simp
  then have commit: "asks ?s1 (andthen ?commit recover)"
    by (intro asks_andthen recover_asks) (simp only: asks_not_def run_apply_requests)
  have keep: "asks_not ?s1 ?keep"
    using keepFrame_asks_not [of ?s1 ?frame] asks_not_Return [of ?s1 ?s1] by (simp only: split: if_split) simp
  have "asks u (andthen (drain (if b then anchor u else u)) recover)" for u b
  proof -
    have "sr_resumes (if b then anchor u else u) = sr_resumes u" by (simp add: anchor_def)
    then show ?thesis using drain_recover_asks [of "if b then anchor u else u"] asks_cong(1) by metis
  qed
  with keep have kept: "asks ?s1 (andthen ?keep (\<lambda>s2. andthen (drain (if ?anchors then anchor s2 else s2)) recover))"
    by (rule asks_andthen)
  have stop: "asks ?s1 (Return ?s1)" by (rule asks_not_asks) (simp only: asks_not_Return)
  have "asks ?s1 (accept epoch seq kind apply bytes s)"
    unfolding eq by (rule asks_if, rule stop, rule asks_if, rule commit, rule kept)
  then show ?thesis using asks_cong(1) [OF same [symmetric]] same asks_cong(1) by metis
qed

lemma seed_asks: "asks s (seed e c p s)"
proof -
  have "asks s (andthen (drain (u\<lparr>sr_wantHistory := True\<rparr>)) recover)" if "sr_resumes u = sr_resumes s" for u
    using drain_recover_asks [of "u\<lparr>sr_wantHistory := True\<rparr>"] that
      asks_cong(1) [of "u\<lparr>sr_wantHistory := True\<rparr>" s] by simp
  moreover have "asks s (Return s)" by (simp add: asks_not_asks asks_not_Return)
  ultimately show ?thesis
    by (auto simp: seed_def Let_def reset_def split: option.split)
qed

lemma onReply_asks: "asks s (onReply fl reply s)"
proof -
  have tail: "asks u (andthen (drain (noteAttempt q (anchor u))) recover)" for u q
    using drain_recover_asks [of "noteAttempt q (anchor u)"] asks_cong(1) [of "noteAttempt q (anchor u)" u]
    by (simp add: noteAttempt_def anchor_def)
  have stated: "asks_not u (if b then (case a of None \<Rightarrow> Return (sink OnStreamTruncated u)
      | Some available \<Rightarrow> skipHole available (sink OnStreamTruncated u)) else Return u)" for u b a
    using asks_not_ops(3) [of "sink OnStreamTruncated u"]
    by (auto simp: asks_not_def split: option.split)
  have "asks s (andthen (merge_events evs v) (\<lambda>s3. andthen
      (if b then (case a of None \<Rightarrow> Return (sink OnStreamTruncated s3)
        | Some available \<Rightarrow> skipHole available (sink OnStreamTruncated s3)) else Return s3)
      (\<lambda>s4. andthen (drain (noteAttempt q (anchor s4))) recover)))"
    if "sr_resumes v = sr_resumes s" for evs v b a q
    using asks_andthen [OF merge_events_asks_not [of v evs] asks_andthen [OF stated tail], of "\<lambda>_. b" "\<lambda>_. a" "\<lambda>_ _. q"]
      asks_cong(1) [OF that] by simp
  moreover have "asks s (Return s)" by (simp add: asks_not_asks asks_not_Return)
  ultimately show ?thesis
    by (simp add: onReply_def Let_def clear_flight_def reset_def)
qed

lemma onReplyFailed_asks: "asks s (onReplyFailed fl s)"
proof -
  let ?u = "noteAttempt (fl_afterSeq fl) (clear_flight fl s)"
  have "sr_resumes ?u = sr_resumes s" "sr_resumes (anchor ?u) = sr_resumes s"
    by (simp_all add: noteAttempt_def clear_flight_def anchor_def)
  then have "asks s (recover ?u)" "asks s (drain (anchor ?u))"
    using recover_asks asks_not_asks [OF asks_not_ops(1)] asks_cong(1) by metis+
  moreover have "asks s (Return s)" by (simp add: asks_not_asks asks_not_Return)
  ultimately show ?thesis by (simp add: onReplyFailed_def Let_def)
qed

lemma handle_asks: "asks s (handle e s)"
proof -
  have same: "asks s (Return t)" if "sr_resumes t = sr_resumes s" for t
    using that by (simp add: asks_not_asks asks_not_Return)
  have "asks s (onDeadline fl s)" for fl
    using asks_not_ops(4) [of "s\<lparr>sr_inFlight := None\<rparr>"] same [of s]
    by (auto simp: onDeadline_def asks_not_asks asks_not_def)
  then show ?thesis
    by (cases e) (auto simp: same acceptLive_def acceptLiveResize_def accept_asks acceptLevelResize_def
        supersedeBufferedResizes_def invalidateContinuity_def dispose_def reset_def seed_asks onReply_asks
        onReplyFailed_asks split: option.split)
qed


section \<open>Callbacks of an abandoned generation\<close>

lemma resumes_step:
  assumes "reconciler_inv s" and "\<forall>(e, q, fl) \<in> set (sr_resumes s). fl_generation fl \<le> sr_generation s"
  shows "\<forall>(e, q, fl) \<in> set (sr_resumes (reconciler_step s ev)). fl_generation fl \<le> sr_generation (reconciler_step s ev)"
proof -
  have gen: "sr_generation s \<le> sr_generation (reconciler_step s ev)"
    using assms(1) by (rule rec.step_gen)
  from handle_asks [of s ev] show ?thesis
  proof (unfold asks_def reconciler_step_def [symmetric], elim disjE)
    assume "sr_resumes (reconciler_step s ev) = sr_resumes s"
    with assms(2) gen show ?thesis by fastforce
  next
    assume "asked s (reconciler_step s ev)"
    then obtain e fl where "sr_resumes (reconciler_step s ev) = sr_resumes s @ [(e, fl_afterSeq fl, fl)]"
      "fl_generation fl = sr_generation (reconciler_step s ev)"
      by (auto simp: asked_def)
    with assms(2) gen show ?thesis by fastforce
  qed
qed

lemma resumes_run:
  "reconciler_inv s \<Longrightarrow> \<forall>(e, q, fl) \<in> set (sr_resumes s). fl_generation fl \<le> sr_generation s \<Longrightarrow>
     \<forall>(e, q, fl) \<in> set (sr_resumes (foldl reconciler_step s es)). fl_generation fl \<le> sr_generation (foldl reconciler_step s es)"
proof (induction es rule: rev_induct)
  case (snoc e es)
  then show ?case using resumes_step [OF rec.run_inv [OF snoc.prems(1)]] by simp
qed simp

lemma obsolete_flight:
  assumes "reconciler_inv t" and "fl_generation fl < sr_generation t"
  shows "handle (Reply fl reply) t = Return t \<and> handle (ReplyFailed fl) t = Return t
    \<and> handle (Deadline fl) t = Return t"
  using assms by (auto simp: onReply_def onReplyFailed_def onDeadline_def reconciler_inv_def accounted_def)

lemma disposed_step:
  assumes "sr_disposed s"
  shows "sr_sink (reconciler_step s e) = sr_sink s \<and> sr_resumes (reconciler_step s e) = sr_resumes s
    \<and> sr_disposed (reconciler_step s e)"
  using assms
  by (cases e) (auto simp: reconciler_step_def acceptLive_def acceptLiveResize_def accept_def acceptLevelResize_def
      seed_def invalidateContinuity_def dispose_def reset_def onReply_def onReplyFailed_def onDeadline_def
      split: option.split)

lemma settled_run:
  "reconciler_inv s \<Longrightarrow> settled s \<Longrightarrow> all_return s es \<Longrightarrow> settled (foldl reconciler_step s es)"
proof (induction es arbitrary: s)
  case (Cons e es)
  from Cons.prems(3) obtain t where t: "handle e s = Return t" "all_return t es"
    by (auto split: outcome.splits)
  then have step: "reconciler_step s e = t" by (simp add: reconciler_step_def)
  with Cons.prems(1,2) t settles_handle [of s e] have "settled t"
    by (simp add: settles_def reconciler_inv_def)
  with Cons.IH t step reconciler_inv_step [OF Cons.prems(1), of e] show ?case by simp
qed simp

lemma new_reconciler_start:
  assumes "new_reconciler b n = Some r"
  shows "reconciler_inv r" "sr_resumes r = []" "sr_sink r = []" "sr_pending r = []" "sr_disposed r = False"
    "sr_frontier r = None" "sr_generation r = 0"
  using assms reconciler_inv_new [OF assms]
  by (auto simp: new_reconciler_def Let_def split: if_splits)

section \<open>Properties\<close>

text \<open>Frames and events used by the concrete runs.\<close>

definition live_at :: "int \<Rightarrow> int \<Rightarrow> reconciler_event" where
  "live_at epoch seq = LiveFrame \<lparr>lf_data = [], lf_streamEpoch = Some epoch, lf_streamSeq = Some seq, lf_bootstrap = None\<rparr>"

definition complete_reply :: "int \<Rightarrow> stream_event list \<Rightarrow> resume_reply" where
  "complete_reply epoch events = \<lparr>rr_streamEpoch = epoch, rr_epochMatch = True, rr_firstAvailableSeq = None,
     rr_complete = Some True, rr_events = events\<rparr>"

definition flight_after :: "nat \<Rightarrow> nat \<Rightarrow> int \<Rightarrow> flight" where
  "flight_after i g q = \<lparr>fl_id = i, fl_generation = g, fl_afterSeq = q\<rparr>"

definition started :: reconciler where
  "started = the (new_reconciler None None)"

lemma started: "new_reconciler None None = Some started"
  by (simp add: started_def new_reconciler_def Let_def isSafeInteger_def MAX_SAFE_INTEGER_def
      DEFAULT_PENDING_MAX_BYTES_def DEFAULT_PENDING_MAX_FRAMES_def)

text \<open>
  C1. Ordered, duplicate-free delivery. Between any two moments of any run of a reconciler in the
  same generation, the frontier does not move back, and the positions of everything told to the
  sink in between are strictly increasing, lie above the old frontier and up to the new one, and
  belong to the stream's epoch. In particular no position is delivered twice.
\<close>

theorem delivery_in_order:
  assumes "new_reconciler maxBytes maxFrames = Some r"
    and "s = foldl reconciler_step r es" and "t = foldl reconciler_step s es'"
    and "sr_generation t = sr_generation s" and "sr_frontier s = Some f"
  shows "\<exists>g told. sr_frontier t = Some g \<and> f \<le> g \<and> sr_sink t = sr_sink s @ told
    \<and> sorted_wrt (<) (map pos_seq (positions told))
    \<and> (\<forall>p \<in> set (positions told). f < pos_seq p \<and> pos_seq p \<le> g \<and> Some (pos_epoch p) = sr_epoch s)"
proof -
  have "reconciler_inv s" using assms(1,2) reconciler_inv_new rec.run_inv by blast
  then have "progress s t" using run_progress assms(3) by blast
  then show ?thesis using assms(4,5) by (auto simp: progress_def in_order_def prefix_def)
qed

theorem delivery_in_order_witness:
  "\<exists>g told. sr_frontier (foldl reconciler_step started [live_at 1 4, live_at 1 7, live_at 1 5]) = Some g \<and> 4 \<le> g
    \<and> sr_sink (foldl reconciler_step started [live_at 1 4, live_at 1 7, live_at 1 5])
      = sr_sink (foldl reconciler_step started [live_at 1 4]) @ told
    \<and> sorted_wrt (<) (map pos_seq (positions told))
    \<and> (\<forall>p \<in> set (positions told). 4 < pos_seq p \<and> pos_seq p \<le> g
        \<and> Some (pos_epoch p) = sr_epoch (foldl reconciler_step started [live_at 1 4]))"
proof (rule delivery_in_order [OF started refl])
  show "foldl reconciler_step started [live_at 1 4, live_at 1 7, live_at 1 5]
      = foldl reconciler_step (foldl reconciler_step started [live_at 1 4]) [live_at 1 7, live_at 1 5]"
    by simp
qed code_simp+

text \<open>
  C2. Lossless delivery. Within one generation and from a moment when the frontier is known: if no held
  resize has been superseded, nothing throws, the run neither seeds a new baseline nor applies a level
  resize, and the reconciler never states a truncation, then exactly the positions between the two frontiers have been delivered, each once
  and in order.
\<close>

theorem delivery_lossless:
  assumes "new_reconciler maxBytes maxFrames = Some r"
    and "s = foldl reconciler_step r es" and "t = foldl reconciler_step s es'"
    and "sr_generation t = sr_generation s" and "sr_frontier s = Some f"
    and "no_superseded s" and "all_return s es'" and "\<forall>e \<in> set es'. lossless_event e"
    and "sr_sink t = sr_sink s @ told" and "OnStreamTruncated \<notin> set told"
  shows "\<exists>g. sr_frontier t = Some g \<and> f \<le> g \<and> map pos_seq (positions told) = [f + 1..g]"
proof -
  have "reconciler_inv s" using assms(1,2) reconciler_inv_new rec.run_inv by blast
  then have "lossless s t" using run_lossless assms(3,7,8) by blast
  then show ?thesis using assms(4-6,9,10) by (auto simp: lossless_def)
qed

theorem delivery_lossless_witness:
  "\<exists>g. sr_frontier (foldl reconciler_step started
        [live_at 1 4, live_at 1 6, Reply (flight_after 0 1 4) (complete_reply 1 [ResizeEvent 1 5 80 24 None])]) = Some g
    \<and> 4 \<le> g \<and> map pos_seq (positions [OnResize 80 24 (Some \<lparr>pos_epoch = 1, pos_seq = 5\<rparr>) None,
        OnOutput [] None (Some \<lparr>pos_epoch = 1, pos_seq = 6\<rparr>)]) = [4 + 1..g]"
proof (rule delivery_lossless [OF started refl])
  show "foldl reconciler_step started
        [live_at 1 4, live_at 1 6, Reply (flight_after 0 1 4) (complete_reply 1 [ResizeEvent 1 5 80 24 None])]
      = foldl reconciler_step (foldl reconciler_step started [live_at 1 4])
        [live_at 1 6, Reply (flight_after 0 1 4) (complete_reply 1 [ResizeEvent 1 5 80 24 None])]"
    by simp
qed code_simp+


text \<open>
  C3. The hold buffer is bounded and exactly accounted. Whatever the events, including ones that
  throw, the bytes recorded are the sum over the frames held, never above the byte limit, the
  number of frames never above the frame limit, keys are unique, and every held frame is filed
  under its own sequence number, in the current epoch and above the frontier.
\<close>

theorem buffer_bounded:
  assumes "new_reconciler maxBytes maxFrames = Some r" and "t = foldl reconciler_step r es"
  shows "sr_pendingBytes t = (\<Sum>p\<leftarrow>sr_pending t. pf_bytes (snd p))
    \<and> 0 \<le> sr_pendingBytes t \<and> sr_pendingBytes t \<le> sr_maxBytes t
    \<and> int (length (sr_pending t)) \<le> sr_maxFrames t
    \<and> distinct (map_keys (sr_pending t))
    \<and> (\<forall>(seq, frame) \<in> set (sr_pending t). pf_seq frame = seq
         \<and> apply_position (pf_apply frame) = \<lparr>pos_epoch = the (sr_epoch t), pos_seq = seq\<rparr>
         \<and> (\<forall>f. sr_frontier t = Some f \<longrightarrow> f < seq))"
proof -
  have inv: "reconciler_inv t" using assms reconciler_inv_new rec.run_inv by blast
  then have acc: "accounted t" and above: "above_frontier t" by (simp_all add: reconciler_inv_def)
  have "0 \<le> pf_bytes (snd p)" if "p \<in> set (sr_pending t)" for p
    using acc that by (auto simp: accounted_def frame_ok_def PENDING_FRAME_OVERHEAD_def)
  then have "0 \<le> sr_pendingBytes t" using acc by (simp add: accounted_def sum_list_nonneg_int)
  moreover have "pf_seq frame = seq
      \<and> apply_position (pf_apply frame) = \<lparr>pos_epoch = the (sr_epoch t), pos_seq = seq\<rparr>
      \<and> (\<forall>f. sr_frontier t = Some f \<longrightarrow> f < seq)"
    if "(seq, frame) \<in> set (sr_pending t)" for seq frame
  proof -
    have "frame_ok (sr_epoch t) seq frame" using acc that by (auto simp: accounted_def)
    moreover from this have "pos_epoch (apply_position (pf_apply frame)) = the (sr_epoch t)"
      by (metis frame_ok_def option.sel)
    moreover have "seq \<in> fst ` set (sr_pending t)" using that by force
    ultimately show ?thesis using above by (simp add: frame_ok_def above_iff)
  qed
  ultimately show ?thesis using acc by (auto simp: accounted_def wf_map_def)
qed

theorem buffer_bounded_witness:
  "sr_pendingBytes (foldl reconciler_step started [live_at 1 4, live_at 1 6, live_at 1 9])
    \<le> sr_maxBytes (foldl reconciler_step started [live_at 1 4, live_at 1 6, live_at 1 9])
   \<and> sr_pendingBytes (foldl reconciler_step started [live_at 1 4, live_at 1 6, live_at 1 9]) = 256"
proof
  show "sr_pendingBytes (foldl reconciler_step started [live_at 1 4, live_at 1 6, live_at 1 9])
      \<le> sr_maxBytes (foldl reconciler_step started [live_at 1 4, live_at 1 6, live_at 1 9])"
    using buffer_bounded [OF started refl] by blast
qed code_simp

text \<open>
  C4. Nothing deliverable is withheld. After a run in which nothing threw, every held frame is
  more than one position above the frontier: the frame that could be delivered next never waits.
\<close>

theorem nothing_withheld:
  assumes "new_reconciler maxBytes maxFrames = Some r" and "all_return r es"
    and "t = foldl reconciler_step r es" and "sr_frontier t = Some f"
    and "seq \<in> set (map_keys (sr_pending t))"
  shows "f + 1 < seq"
proof -
  have "settled r" using new_reconciler_start [OF assms(1)] by (simp add: settled_empty)
  then have "settled t" using settled_run new_reconciler_start(1) [OF assms(1)] assms(2,3) by blast
  moreover have "seq \<in> fst ` set (sr_pending t)" using assms(5) by (metis list.set_map)
  ultimately have "f < seq" "seq \<noteq> f + 1"
    using assms(4) unfolding settled_def above_iff map_has_iff by blast+
  then show ?thesis by simp
qed

theorem nothing_withheld_witness: "(4::int) + 1 < 6"
  by (rule nothing_withheld [OF started _ refl, of "[live_at 1 3, live_at 1 6, live_at 1 4]"]) code_simp+

text \<open>
  C5. No silent stall. Starting from any moment of a run when nothing is held, after events that
  do not throw and in which no truncation is stated, frames are held only while a resume request
  is in flight (or the reconciler has been disposed): the terminal cannot freeze behind a hole that
  nobody is asking to fill.
\<close>

theorem no_silent_stall:
  assumes "new_reconciler maxBytes maxFrames = Some r"
    and "s = foldl reconciler_step r es" and "sr_pending s = []"
    and "all_return s es'" and "t = foldl reconciler_step s es'"
    and "sr_sink t = sr_sink s @ told" and "OnStreamTruncated \<notin> set told"
    and "sr_pending t \<noteq> []"
  shows "sr_disposed t \<or> (\<exists>fl. sr_inFlight t = Some fl)"
proof -
  have "reconciler_inv s" using assms(1,2) reconciler_inv_new rec.run_inv by blast
  moreover have "attended s" using assms(3) by (simp add: attended_def)
  moreover have "quiet s t" using assms(6,7) by (simp add: quiet_def)
  ultimately have "attended t" using run_attends assms(4,5) by blast
  with assms(8) show ?thesis by (auto simp: attended_def)
qed

theorem no_silent_stall_witness:
  "sr_disposed (foldl reconciler_step (foldl reconciler_step started [live_at 1 3]) [live_at 1 6])
    \<or> (\<exists>fl. sr_inFlight (foldl reconciler_step (foldl reconciler_step started [live_at 1 3]) [live_at 1 6]) = Some fl)"
  by (rule no_silent_stall [OF started refl _ _ refl, of _ _ "[]"]) code_simp+

text \<open>
  Requests are single and bounded. One event sends at most one resume request; the request
  asks for what follows the current frontier in the current epoch and generation, is the one now
  in flight, carries a fresh identity, and is sent only while fewer than three attempts have been
  recorded from that position.
\<close>

lemma one_request_per_event:
  "sr_resumes (reconciler_step s e) = sr_resumes s
    \<or> (\<exists>epoch fl. sr_resumes (reconciler_step s e) = sr_resumes s @ [(epoch, fl_afterSeq fl, fl)]
        \<and> sr_epoch (reconciler_step s e) = Some epoch
        \<and> fl_afterSeq fl = the_default 0 (sr_frontier (reconciler_step s e))
        \<and> fl_generation fl = sr_generation (reconciler_step s e)
        \<and> fl_id fl = length (sr_resumes s)
        \<and> sr_inFlight (reconciler_step s e) = Some fl
        \<and> attemptsAt (fl_afterSeq fl) (reconciler_step s e) < HOLE_ATTEMPT_LIMIT
        \<and> \<not> sr_disposed (reconciler_step s e))"
  using handle_asks [of s e] unfolding asks_def asked_def reconciler_step_def by metis

text \<open>
  Obsolete callbacks are inert. Once continuity has been invalidated (or the reconciler
  disposed), the reply, the failure and the deadline of every request sent before have no effect
  at all, however late they arrive and whatever happened in between.
\<close>

lemma obsolete_callbacks_inert:
  assumes "new_reconciler maxBytes maxFrames = Some r" and "s = foldl reconciler_step r es"
    and "\<not> sr_disposed s" and "e = InvalidateContinuity \<or> e = Dispose"
    and "t = foldl reconciler_step (reconciler_step s e) es'"
    and "(epoch, after, fl) \<in> set (sr_resumes s)"
  shows "handle (Reply fl reply) t = Return t \<and> handle (ReplyFailed fl) t = Return t
    \<and> handle (Deadline fl) t = Return t"
proof (rule obsolete_flight)
  have inv: "reconciler_inv s" using assms(1,2) reconciler_inv_new rec.run_inv by blast
  then show "reconciler_inv t" using assms(5) rec.run_inv rec.step_inv by blast
  have "\<forall>(e, q, fl) \<in> set (sr_resumes s). fl_generation fl \<le> sr_generation s"
    using resumes_run new_reconciler_start [OF assms(1)] assms(2) by simp
  with assms(6) have "fl_generation fl \<le> sr_generation s" by auto
  also have "sr_generation s < sr_generation (reconciler_step s e)"
    using assms(3,4) by (auto simp: reconciler_step_def invalidateContinuity_def dispose_def reset_def)
  also have "\<dots> \<le> sr_generation t"
    unfolding assms(5) using rec.run_gen rec.step_inv inv by blast
  finally show "fl_generation fl < sr_generation t" .
qed

text \<open>
  Dispose is final: afterwards no event reaches the sink or sends a request.
\<close>

lemma dispose_is_final:
  "sr_sink (foldl reconciler_step (reconciler_step s Dispose) es) = sr_sink s
    \<and> sr_resumes (foldl reconciler_step (reconciler_step s Dispose) es) = sr_resumes s"
proof (induction es rule: rev_induct)
  case Nil
  show ?case by (simp add: reconciler_step_def dispose_def reset_def)
next
  case (snoc e es)
  have "sr_disposed (foldl reconciler_step (reconciler_step s Dispose) es)"
    by (induction es rule: rev_induct) (auto simp: disposed_step, simp add: reconciler_step_def dispose_def reset_def)
  with snoc show ?case by (simp add: disposed_step)
qed

section \<open>Corner cases of the code, on concrete runs\<close>

text \<open>
  A resize replayed by a resume reply reaches the sink without its control generation, which a
  live resize keeps: the handler the reconciler passes to \<open>applyTerminalStreamEvents\<close> takes three
  arguments.
\<close>

lemma replayed_resize_loses_control_generation:
  "sr_sink (foldl reconciler_step started
      [live_at 1 4, live_at 1 6,
       Reply (flight_after 0 1 4) (complete_reply 1 [ResizeEvent 1 5 80 24 (Some 7)])])
   = [OnOutput [] None (Some \<lparr>pos_epoch = 1, pos_seq = 4\<rparr>),
      OnResize 80 24 (Some \<lparr>pos_epoch = 1, pos_seq = 5\<rparr>) None,
      OnOutput [] None (Some \<lparr>pos_epoch = 1, pos_seq = 6\<rparr>)]"
  by code_simp

text \<open>
  After an epoch change the first frame of the new epoch is held until the resume reply. A second
  frame that arrives before the reply resets the reconciler once more: the held frame is dropped,
  the reply is obsolete, and no truncation is stated.
\<close>

lemma epoch_change_drops_held_frame:
  "sr_sink (foldl reconciler_step started
      [live_at 1 4, live_at 2 1, live_at 2 2,
       Reply (flight_after 0 2 0) (complete_reply 2 [OutputEvent 2 1 (js ''AA==''), OutputEvent 2 2 (js ''AA=='')])])
   = [OnOutput [] None (Some \<lparr>pos_epoch = 1, pos_seq = 4\<rparr>),
      OnOutput [] None (Some \<lparr>pos_epoch = 2, pos_seq = 2\<rparr>)]"
  by code_simp

text \<open>
  Giving up on one hole while a second is open leaves frames held with no request in flight, until
  the next event.
\<close>

lemma abandoned_hole_leaves_second_unattended:
  "sr_inFlight (foldl reconciler_step started
      [live_at 1 2, live_at 1 5, live_at 1 9, Deadline (flight_after 0 1 2)]) = None
   \<and> map_keys (sr_pending (foldl reconciler_step started
      [live_at 1 2, live_at 1 5, live_at 1 9, Deadline (flight_after 0 1 2)])) = [9]"
  by code_simp

text \<open>
  A replayed output that \<open>atob\<close> refuses throws after the frontier has moved past it: the event is
  lost and no truncation is stated.
\<close>

lemma malformed_replay_skipped:
  "sr_frontier (foldl reconciler_step started
      [live_at 1 4, Seed (Some 1) None True, Reply (flight_after 0 1 4) (complete_reply 1 [OutputEvent 1 5 (js ''!'')])])
    = Some 5
   \<and> sr_sink (foldl reconciler_step started
      [live_at 1 4, Seed (Some 1) None True, Reply (flight_after 0 1 4) (complete_reply 1 [OutputEvent 1 5 (js ''!'')])])
    = [OnOutput [] None (Some \<lparr>pos_epoch = 1, pos_seq = 4\<rparr>)]"
  by code_simp

end
