(* ===== verification/Utf8.thy ===== *)
theory Utf8
  imports Base64
begin

text \<open>
  \<open>TextEncoder\<close> and the fatal \<open>TextDecoder\<close> of the platform, which the clipboard's base64 text
  variants and the byte bound of the input queue go through
  (\<^verbatim>\<open>clipboard/base64.ts\<close> \<open>decodeBase64Text\<close>, \<open>encodeBase64Text\<close>; \<^verbatim>\<open>inputQueue.ts\<close> \<open>utf8ByteLength\<close>).
  A string is first read as a sequence of code points, lone surrogates becoming U+FFFD, and the
  code points are written in UTF-8. The decoder refuses malformed input and swallows one leading
  byte order mark, as \<open>new TextDecoder('utf-8', {fatal: true})\<close> does.
\<close>

section \<open>Code points of a string\<close>

definition high_surrogate :: "int \<Rightarrow> bool" where
  "high_surrogate u \<longleftrightarrow> 55296 \<le> u \<and> u < 56320"

definition low_surrogate :: "int \<Rightarrow> bool" where
  "low_surrogate u \<longleftrightarrow> 56320 \<le> u \<and> u < 57344"

fun code_points :: "int list \<Rightarrow> int list" where
  "code_points [] = []"
| "code_points [u] = [if high_surrogate u \<or> low_surrogate u then 65533 else u]"
| "code_points (u # v # us) =
     (if high_surrogate u \<and> low_surrogate v
      then (65536 + (u - 55296) * 1024 + (v - 56320)) # code_points us
      else (if high_surrogate u \<or> low_surrogate u then 65533 else u) # code_points (v # us))"

definition utf16_of :: "int \<Rightarrow> int list" where
  "utf16_of cp = (if cp < 65536 then [cp]
     else [55296 + (cp - 65536) div 1024, 56320 + (cp - 65536) mod 1024])"

text \<open>Strings without lone surrogates.\<close>

fun well_formed :: "int list \<Rightarrow> bool" where
  "well_formed [] = True"
| "well_formed [u] \<longleftrightarrow> \<not> high_surrogate u \<and> \<not> low_surrogate u"
| "well_formed (u # v # us) =
     (if high_surrogate u then low_surrogate v \<and> well_formed us
      else \<not> low_surrogate u \<and> well_formed (v # us))"

definition scalar :: "int \<Rightarrow> bool" where
  "scalar cp \<longleftrightarrow> 0 \<le> cp \<and> cp < 1114112 \<and> \<not> high_surrogate cp \<and> \<not> low_surrogate cp"

lemma surrogate_pair:
  assumes "high_surrogate u" and "low_surrogate v"
  shows "scalar (65536 + (u - 55296) * 1024 + (v - 56320))"
    and "utf16_of (65536 + (u - 55296) * 1024 + (v - 56320)) = [u, v]"
proof -
  define x where "x = u - 55296"
  define y where "y = v - 56320"
  have "u = 55296 + x" "v = 56320 + y" "0 \<le> x" "x < 1024" "0 \<le> y" "y < 1024"
    using assms by (auto simp: high_surrogate_def low_surrogate_def x_def y_def)
  then show "scalar (65536 + (u - 55296) * 1024 + (v - 56320))"
    and "utf16_of (65536 + (u - 55296) * 1024 + (v - 56320)) = [u, v]"
    by (simp_all add: scalar_def high_surrogate_def low_surrogate_def utf16_of_def)
qed

lemma lone_scalar: "0 \<le> u \<Longrightarrow> u < 65536 \<Longrightarrow> scalar (if high_surrogate u \<or> low_surrogate u then 65533 else u)"
  by (simp add: scalar_def high_surrogate_def low_surrogate_def)

lemma code_points_scalar: "\<forall>u \<in> set us. 0 \<le> u \<and> u < 65536 \<Longrightarrow> \<forall>cp \<in> set (code_points us). scalar cp"
proof (induction us rule: code_points.induct)
  case (3 u v us)
  then show ?case
    by (cases "high_surrogate u \<and> low_surrogate v")
      (auto simp only: code_points.simps if_True if_False list.set surrogate_pair lone_scalar ball_simps simp_thms)
qed (simp_all only: code_points.simps list.set ball_simps lone_scalar simp_thms)

lemma utf16_code_points:
  "well_formed us \<Longrightarrow> \<forall>u \<in> set us. 0 \<le> u \<and> u < 65536 \<Longrightarrow> concat (map utf16_of (code_points us)) = us"
proof (induction us rule: code_points.induct)
  case (3 u v us)
  show ?case
  proof (cases "high_surrogate u")
    case True
    with 3 have "low_surrogate v" "concat (map utf16_of (code_points us)) = us" by simp_all
    then show ?thesis using True surrogate_pair(2) [of u v] by simp
  next
    case False
    with 3 show ?thesis by (simp add: utf16_of_def)
  qed
qed (auto simp: utf16_of_def)

section \<open>UTF-8\<close>

definition utf8_of :: "int \<Rightarrow> int list" where
  "utf8_of cp =
     (if cp < 128 then [cp]
      else if cp < 2048 then [192 + cp div 64, 128 + cp mod 64]
      else if cp < 65536 then [224 + cp div 4096, 128 + cp div 64 mod 64, 128 + cp mod 64]
      else [240 + cp div 262144, 128 + cp div 4096 mod 64, 128 + cp div 64 mod 64, 128 + cp mod 64])"

definition continuation :: "int \<Rightarrow> bool" where
  "continuation b \<longleftrightarrow> 128 \<le> b \<and> b < 192"

text \<open>
  One code point per call, with the tightened ranges of the second byte that exclude overlong forms,
  surrogates and anything above U+10FFFF.
\<close>

fun next_code_point :: "int list \<Rightarrow> (int \<times> int list) option" where
  "next_code_point [] = None"
| "next_code_point (a # bs) =
     (if 0 \<le> a \<and> a < 128 then Some (a, bs)
      else if 194 \<le> a \<and> a < 224 then
        (case bs of
           b # r \<Rightarrow> if continuation b then Some ((a - 192) * 64 + (b - 128), r) else None
         | _ \<Rightarrow> None)
      else if 224 \<le> a \<and> a < 240 then
        (case bs of
           b # c # r \<Rightarrow>
             if continuation b \<and> continuation c \<and> (a = 224 \<longrightarrow> 160 \<le> b) \<and> (a = 237 \<longrightarrow> b < 160)
             then Some ((a - 224) * 4096 + (b - 128) * 64 + (c - 128), r) else None
         | _ \<Rightarrow> None)
      else if 240 \<le> a \<and> a < 245 then
        (case bs of
           b # c # d # r \<Rightarrow>
             if continuation b \<and> continuation c \<and> continuation d
               \<and> (a = 240 \<longrightarrow> 144 \<le> b) \<and> (a = 244 \<longrightarrow> b < 144)
             then Some ((a - 240) * 262144 + (b - 128) * 4096 + (c - 128) * 64 + (d - 128), r) else None
         | _ \<Rightarrow> None)
      else None)"

lemma next_code_point_shorter: "next_code_point bs = Some (cp, r) \<Longrightarrow> length r < length bs"
  by (cases bs) (auto split: if_splits list.splits)

function decode_utf8 :: "int list \<Rightarrow> int list option" where
  "decode_utf8 bs =
     (if bs = [] then Some []
      else case next_code_point bs of
        None \<Rightarrow> None
      | Some (cp, r) \<Rightarrow> map_option ((#) cp) (decode_utf8 r))"
  by pat_completeness auto
termination
  by (relation "measure length") (auto dest: next_code_point_shorter)

declare decode_utf8.simps [simp del]

lemma div_64: "(x :: int) div 4096 = x div 64 div 64" "(x :: int) div 262144 = x div 64 div 64 div 64"
  by (simp_all add: zdiv_zmult2_eq [symmetric])

lemma digits_64:
  "x div 4096 * 4096 + x div 64 mod 64 * 64 + x mod 64 = (x :: int)"
  "x div 262144 * 262144 + x div 4096 mod 64 * 4096 + x div 64 mod 64 * 64 + x mod 64 = (x :: int)"
  unfolding div_64
  using div_mult_mod_eq [of x 64] div_mult_mod_eq [of "x div 64" 64] div_mult_mod_eq [of "x div 64 div 64" 64]
  by linarith+

lemma next_utf8_of: "scalar cp \<Longrightarrow> next_code_point (utf8_of cp @ bs) = Some (cp, bs)"
proof -
  assume cp: "scalar cp"
  consider "0 \<le> cp" "cp < 128" | "128 \<le> cp" "cp < 2048" | "2048 \<le> cp" "cp < 65536" | "65536 \<le> cp" "cp < 1114112"
    using cp by (fastforce simp: scalar_def)
  then show ?thesis
  proof cases
    case 1
    then show ?thesis by (simp add: utf8_of_def)
  next
    case 2
    then have "2 \<le> cp div 64" "cp div 64 < 32" by auto
    moreover have "cp div 64 * 64 + cp mod 64 = cp" by simp
    ultimately show ?thesis using 2 by (simp add: utf8_of_def continuation_def)
  next
    case 3
    define a where "a = cp div 4096"
    define b where "b = cp div 64 mod 64"
    define c where "c = cp mod 64"
    have sum: "a * 4096 + b * 64 + c = cp"
      unfolding a_def b_def c_def by (rule digits_64)
    have range: "0 \<le> a" "0 \<le> b" "0 \<le> c" "b < 64" "c < 64" "a < 16" using 3 by (auto simp: a_def b_def c_def)
    have low: "a = 0 \<Longrightarrow> 32 \<le> b" using sum range 3 by simp
    have sur: "a = 13 \<Longrightarrow> b < 32"
      using sum range cp by (auto simp: scalar_def high_surrogate_def low_surrogate_def)
    have "utf8_of cp = [224 + a, 128 + b, 128 + c]"
      using 3 by (simp add: utf8_of_def a_def b_def c_def)
    then show ?thesis using sum range low sur by (auto simp: continuation_def)
  next
    case 4
    define a where "a = cp div 262144"
    define b where "b = cp div 4096 mod 64"
    define c where "c = cp div 64 mod 64"
    define d where "d = cp mod 64"
    have sum: "a * 262144 + b * 4096 + c * 64 + d = cp"
      unfolding a_def b_def c_def d_def by (rule digits_64)
    have range: "0 \<le> a" "0 \<le> b" "0 \<le> c" "0 \<le> d" "b < 64" "c < 64" "d < 64" "a < 5" using 4 by (auto simp: a_def b_def c_def d_def)
    have low: "a = 0 \<Longrightarrow> 16 \<le> b" using sum range 4 by simp
    have high: "a = 4 \<Longrightarrow> b < 16" using sum range 4 by simp
    have "utf8_of cp = [240 + a, 128 + b, 128 + c, 128 + d]"
      using 4 by (simp add: utf8_of_def a_def b_def c_def d_def)
    then show ?thesis using sum range low high by (auto simp: continuation_def)
  qed
qed

lemma utf8_of_nonempty [simp]: "utf8_of cp \<noteq> []"
  by (simp add: utf8_of_def)

lemma decode_utf8_encode: "\<forall>cp \<in> set cps. scalar cp \<Longrightarrow> decode_utf8 (concat (map utf8_of cps)) = Some cps"
proof (induction cps)
  case Nil
  then show ?case by (simp add: decode_utf8.simps)
next
  case (Cons cp cps)
  then show ?case by (subst decode_utf8.simps) (simp add: next_utf8_of)
qed

lemma utf8_of_range: "scalar cp \<Longrightarrow> b \<in> set (utf8_of cp) \<Longrightarrow> 0 \<le> b \<and> b < 256"
  by (auto simp: utf8_of_def scalar_def split: if_splits)

section \<open>The platform's encoder and decoder\<close>

definition units :: "jsstring \<Rightarrow> int list" where
  "units s = map uint s"

definition text_encode :: "jsstring \<Rightarrow> bytes" where
  "text_encode s = map of_int (concat (map utf8_of (code_points (units s))))"

definition strip_bom :: "int list \<Rightarrow> int list" where
  "strip_bom bs = (if take 3 bs = [239, 187, 191] then drop 3 bs else bs)"

definition text_decode :: "bytes \<Rightarrow> jsstring option" where
  "text_decode bs = map_option (\<lambda>cps. map of_int (concat (map utf16_of cps)))
     (decode_utf8 (strip_bom (map uint bs)))"

definition utf8ByteLength :: "jsstring \<Rightarrow> int" where
  "utf8ByteLength s = int (length (text_encode s))"

definition encodeBase64Text :: "jsstring \<Rightarrow> jsstring" where
  "encodeBase64Text s = encodeBase64 (text_encode s)"

definition decodeBase64Text :: "jsstring \<Rightarrow> jsstring option" where
  "decodeBase64Text s = (case decodeBase64 s of Inl _ \<Rightarrow> None | Inr bs \<Rightarrow> text_decode bs)"

lemma units_range: "u \<in> set (units s) \<Longrightarrow> 0 \<le> u \<and> u < 65536"
  using unsigned_less [where ?'b = 16] by (auto simp: units_def)

lemma bytes_of_text: "map uint (text_encode s) = concat (map utf8_of (code_points (units s)))"
proof -
  have "0 \<le> b \<and> b < 256" if "b \<in> set (concat (map utf8_of (code_points (units s))))" for b
    using that code_points_scalar [of "units s"] units_range utf8_of_range by fastforce
  then have "map (\<lambda>b. uint (of_int b :: byte)) (concat (map utf8_of (code_points (units s))))
      = concat (map utf8_of (code_points (units s)))"
    by (intro map_idI) (simp add: uint_word_of_int)
  then show ?thesis by (simp add: text_encode_def comp_def)
qed

text \<open>A byte order mark at the front is the code point U+FEFF.\<close>

lemma bom_only_feff:
  assumes "scalar cp" and "take 3 (utf8_of cp @ bs) = [239, 187, 191]" shows "cp = 65279"
proof -
  have "next_code_point ([239, 187, 191] @ drop 3 (utf8_of cp @ bs)) = Some (65279, drop 3 (utf8_of cp @ bs))"
    by (simp add: continuation_def)
  moreover have "[239, 187, 191] @ drop 3 (utf8_of cp @ bs) = utf8_of cp @ bs"
    using assms(2) append_take_drop_id [of 3 "utf8_of cp @ bs"] by metis
  ultimately have "next_code_point (utf8_of cp @ bs) = Some (65279, drop 3 (utf8_of cp @ bs))" by metis
  with next_utf8_of [OF assms(1), of bs] show ?thesis by simp
qed

lemma code_points_head: "us \<noteq> [] \<Longrightarrow> hd (code_points us) = 65279 \<Longrightarrow> hd us = 65279"
  by (cases us rule: code_points.cases) (auto simp: high_surrogate_def low_surrogate_def split: if_splits)

lemma no_bom:
  assumes "us = [] \<or> hd us \<noteq> 65279" and "\<forall>u \<in> set us. 0 \<le> u \<and> u < 65536"
  shows "strip_bom (concat (map utf8_of (code_points us))) = concat (map utf8_of (code_points us))"
proof (cases "code_points us")
  case (Cons cp cps)
  then have "scalar cp" using code_points_scalar [OF assms(2)] by simp
  moreover have "cp \<noteq> 65279" using assms(1) code_points_head [of us] Cons by (cases us) auto
  ultimately show ?thesis using bom_only_feff Cons by (auto simp: strip_bom_def)
qed (simp add: strip_bom_def)

text \<open>
  C9. Clipboard text survives the wire. A string without lone surrogates that does not start with a
  byte order mark is returned unchanged by decoding its base64 text form.
\<close>

theorem base64_text_roundtrip:
  assumes "well_formed (units s)" and "s = [] \<or> hd (units s) \<noteq> 65279"
  shows "decodeBase64Text (encodeBase64Text s) = Some s"
proof -
  have us: "units s = [] \<or> hd (units s) \<noteq> 65279" using assms(2) by (auto simp: units_def)
  have "text_decode (text_encode s) = Some (map of_int (units s))"
    unfolding text_decode_def bytes_of_text
    using no_bom [OF us] units_range code_points_scalar [of "units s"]
    by (simp add: decode_utf8_encode utf16_code_points assms(1))
  moreover have "map of_int (units s) = s"
    by (simp add: units_def comp_def)
  ultimately show ?thesis
    by (simp add: decodeBase64Text_def encodeBase64Text_def decodeBase64_encodeBase64)
qed

theorem base64_text_roundtrip_witness:
  "decodeBase64Text (encodeBase64Text [104, 233, 0x4E2D, 0xD83D, 0xDE00]) = Some [104, 233, 0x4E2D, 0xD83D, 0xDE00]"
  by (rule base64_text_roundtrip) (simp_all add: units_def high_surrogate_def low_surrogate_def)

end
