(* ===== verification/Input_Queue.thy ===== *)
theory Input_Queue
  imports Utf8
begin

text \<open>
  Sequenced input delivery: what a user has typed that the terminal has not confirmed
  (\<^verbatim>\<open>web/src/platform/terminal-runtime/inputQueue.ts\<close>).

  The queue's clock is a constructor argument of the class; here it is a function from the number
  of the reading to its value, and the queue counts its readings, so that two readings in one call
  may differ. \<open>iq_told\<close> collects the calls of \<open>onDrop\<close>, which are made only when a listener is set.
\<close>

section \<open>Data\<close>

record input_identity =
  ii_sessionName :: string
  ii_inputEpoch :: int
  ii_controlGeneration :: "int option"

record input_bounds =
  ib_maxChunks :: int
  ib_maxBytes :: int
  ib_maxAgeMs :: int

datatype drop_reason = Bound | Age | EpochMoved | GenerationMoved

record input_drop =
  dr_reason :: drop_reason
  dr_chunks :: nat
  dr_at :: int

record chunk =
  ck_data :: jsstring
  ck_bytes :: int
  ck_at :: int

record input_queue =
  iq_bounds :: input_bounds
  iq_now :: "nat \<Rightarrow> int"
  iq_reads :: nat
  iq_chunks :: "chunk list"
  iq_bytes :: int
  iq_identity :: "input_identity option"
  iq_cursor :: int
  iq_drop :: "input_drop option"
  iq_dropped :: nat
  iq_onDrop :: bool
  iq_told :: "input_drop list"

definition new_queue :: "input_bounds \<Rightarrow> (nat \<Rightarrow> int) \<Rightarrow> input_queue" where
  "new_queue bounds now = \<lparr>iq_bounds = bounds, iq_now = now, iq_reads = 0, iq_chunks = [], iq_bytes = 0,
     iq_identity = None, iq_cursor = 0, iq_drop = None, iq_dropped = 0, iq_onDrop = False, iq_told = []\<rparr>"

section \<open>Operations\<close>

definition read_clock :: "input_queue \<Rightarrow> int \<times> input_queue" where
  "read_clock q = (iq_now q (iq_reads q), q\<lparr>iq_reads := Suc (iq_reads q)\<rparr>)"

definition record_drop :: "drop_reason \<Rightarrow> nat \<Rightarrow> input_queue \<Rightarrow> input_queue" where
  "record_drop reason chunks q =
     (let (stamp, q1) = read_clock q;
          lost = \<lparr>dr_reason = reason, dr_chunks = chunks, dr_at = stamp\<rparr>;
          q2 = q1\<lparr>iq_drop := Some lost, iq_dropped := iq_dropped q1 + chunks\<rparr>
      in if iq_onDrop q2 then q2\<lparr>iq_told := iq_told q2 @ [lost]\<rparr> else q2)"

definition clear_queue :: "drop_reason \<Rightarrow> input_queue \<Rightarrow> input_queue" where
  "clear_queue reason q =
     (let q1 = (if 0 < length (iq_chunks q) then record_drop reason (length (iq_chunks q)) q else q)
      in q1\<lparr>iq_chunks := [], iq_bytes := 0\<rparr>)"

definition dropPrefix :: "int \<Rightarrow> input_queue \<Rightarrow> input_queue" where
  "dropPrefix count q =
     (if count \<le> 0 then q
      else q\<lparr>iq_chunks := drop (nat count) (iq_chunks q),
             iq_bytes := foldl (\<lambda>bytes chunk. bytes - ck_bytes chunk) (iq_bytes q)
               (take (nat count) (iq_chunks q))\<rparr>)"

definition acknowledge :: "int \<Rightarrow> int \<Rightarrow> input_queue \<Rightarrow> input_queue" where
  "acknowledge epoch appliedThrough q =
     (if (case iq_identity q of None \<Rightarrow> False | Some identity \<Rightarrow> ii_inputEpoch identity \<noteq> epoch) then q
      else if appliedThrough \<le> iq_cursor q then q
      else
        let covered = min (appliedThrough - iq_cursor q) (int (length (iq_chunks q)))
        in (dropPrefix covered q)\<lparr>iq_cursor := appliedThrough\<rparr>)"

datatype reconcile_verdict = Rebound | EpochChanged | GenerationChanged

definition reconcile :: "input_identity \<Rightarrow> int option \<Rightarrow> input_queue \<Rightarrow> reconcile_verdict \<times> input_queue" where
  "reconcile identity appliedThrough q =
     (let (verdict, q1) =
        (case iq_identity q of
           None \<Rightarrow> (Rebound, q)
         | Some previous \<Rightarrow>
             if ii_inputEpoch previous \<noteq> ii_inputEpoch identity
             then (EpochChanged, (clear_queue EpochMoved q)\<lparr>iq_cursor := 0\<rparr>)
             else if ii_controlGeneration previous \<noteq> None \<and> ii_controlGeneration identity \<noteq> None
               \<and> ii_controlGeneration previous \<noteq> ii_controlGeneration identity
             then (GenerationChanged, clear_queue GenerationMoved q)
             else (Rebound, q));
        q2 = q1\<lparr>iq_identity := Some identity\<rparr>
      in (verdict,
          case appliedThrough of
            None \<Rightarrow> q2
          | Some through \<Rightarrow> acknowledge (ii_inputEpoch identity) through q2))"

definition expire :: "input_queue \<Rightarrow> bool \<times> input_queue" where
  "expire q =
     (case iq_chunks q of
        [] \<Rightarrow> (False, q)
      | oldest # _ \<Rightarrow>
          let (now, q1) = read_clock q
          in if now - ck_at oldest \<le> ib_maxAgeMs (iq_bounds q1) then (False, q1)
             else (True, clear_queue Age q1))"

definition accept_input :: "jsstring \<Rightarrow> input_queue \<Rightarrow> bool \<times> input_queue" where
  "accept_input data q =
     (if data = [] then (True, q)
      else
        let q1 = snd (expire q);
            bytes = utf8ByteLength data;
            full = (0 < length (iq_chunks q1)
              \<and> (ib_maxChunks (iq_bounds q1) < int (length (iq_chunks q1)) + 1
                 \<or> ib_maxBytes (iq_bounds q1) < iq_bytes q1 + bytes))
        in if full then (False, record_drop Bound 1 q1)
           else
             let (stamp, q2) = read_clock q1
             in (True, q2\<lparr>iq_chunks := iq_chunks q2 @ [\<lparr>ck_data = data, ck_bytes = bytes, ck_at = stamp\<rparr>],
                          iq_bytes := iq_bytes q2 + bytes\<rparr>))"

definition outbound :: "input_queue \<Rightarrow> (int \<times> jsstring) list option" where
  "outbound q =
     (if iq_identity q = None then None
      else Some (map (\<lambda>(index, chunk). (iq_cursor q + 1 + int index, ck_data chunk))
        (enumerate 0 (iq_chunks q))))"

definition drain_queue :: "input_queue \<Rightarrow> jsstring list \<times> input_queue" where
  "drain_queue q =
     (let q1 = (if iq_identity q \<noteq> None then snd (expire q) else q)
      in (map ck_data (iq_chunks q1), q1\<lparr>iq_chunks := [], iq_bytes := 0\<rparr>))"

datatype queue_event =
    QReconcile input_identity "int option"
  | QAcknowledge int int
  | QAccept jsstring
  | QExpire
  | QDrain
  | QClear drop_reason
  | QListen bool

fun queue_step :: "input_queue \<Rightarrow> queue_event \<Rightarrow> input_queue" where
  "queue_step q (QReconcile identity through) = snd (reconcile identity through q)"
| "queue_step q (QAcknowledge epoch through) = acknowledge epoch through q"
| "queue_step q (QAccept data) = snd (accept_input data q)"
| "queue_step q QExpire = snd (expire q)"
| "queue_step q QDrain = snd (drain_queue q)"
| "queue_step q (QClear reason) = clear_queue reason q"
| "queue_step q (QListen on) = q\<lparr>iq_onDrop := on\<rparr>"

section \<open>Invariant\<close>

text \<open>
  The byte count is the sum over the chunks, every chunk is non-empty and carries its own encoded
  length, and the queue exceeds its bounds only when it holds a single chunk.
\<close>

definition chunk_ok :: "chunk \<Rightarrow> bool" where
  "chunk_ok c \<longleftrightarrow> ck_data c \<noteq> [] \<and> ck_bytes c = utf8ByteLength (ck_data c)"

definition queue_inv :: "input_queue \<Rightarrow> bool" where
  "queue_inv q \<longleftrightarrow> iq_bytes q = (\<Sum>c\<leftarrow>iq_chunks q. ck_bytes c) \<and> (\<forall>c \<in> set (iq_chunks q). chunk_ok c)
     \<and> (1 < length (iq_chunks q) \<longrightarrow> int (length (iq_chunks q)) \<le> ib_maxChunks (iq_bounds q)
          \<and> iq_bytes q \<le> ib_maxBytes (iq_bounds q))"

lemma chunk_bytes_nonneg: "chunk_ok c \<Longrightarrow> 0 \<le> ck_bytes c"
  by (simp add: chunk_ok_def utf8ByteLength_def)

lemma queue_inv_new: "queue_inv (new_queue bounds now)"
  by (simp add: queue_inv_def new_queue_def)

lemma queue_inv_cong:
  "iq_chunks r = iq_chunks q \<Longrightarrow> iq_bytes r = iq_bytes q \<Longrightarrow> iq_bounds r = iq_bounds q \<Longrightarrow> queue_inv r = queue_inv q"
  by (simp add: queue_inv_def)

lemma record_drop_simps [simp]:
  "iq_chunks (record_drop r n q) = iq_chunks q" "iq_bytes (record_drop r n q) = iq_bytes q"
  "iq_bounds (record_drop r n q) = iq_bounds q" "iq_identity (record_drop r n q) = iq_identity q"
  "iq_cursor (record_drop r n q) = iq_cursor q" "iq_dropped (record_drop r n q) = iq_dropped q + n"
  "iq_onDrop (record_drop r n q) = iq_onDrop q"
  by (simp_all add: record_drop_def read_clock_def Let_def)

lemma clear_queue_simps [simp]:
  "iq_chunks (clear_queue r q) = []" "iq_bytes (clear_queue r q) = 0"
  "iq_bounds (clear_queue r q) = iq_bounds q" "iq_identity (clear_queue r q) = iq_identity q"
  "iq_cursor (clear_queue r q) = iq_cursor q"
  "iq_dropped (clear_queue r q) = iq_dropped q + length (iq_chunks q)"
  "iq_onDrop (clear_queue r q) = iq_onDrop q"
  by (simp_all add: clear_queue_def Let_def)

lemma read_clock_simps [simp]:
  "iq_chunks (snd (read_clock q)) = iq_chunks q" "iq_bytes (snd (read_clock q)) = iq_bytes q"
  "iq_bounds (snd (read_clock q)) = iq_bounds q" "iq_identity (snd (read_clock q)) = iq_identity q"
  "iq_cursor (snd (read_clock q)) = iq_cursor q" "iq_dropped (snd (read_clock q)) = iq_dropped q"
  "iq_onDrop (snd (read_clock q)) = iq_onDrop q" "iq_told (snd (read_clock q)) = iq_told q"
  by (simp_all add: read_clock_def)

lemma expire_cases:
  "(snd (expire q) = q \<or> snd (expire q) = snd (read_clock q)) \<and> \<not> fst (expire q)
   \<or> fst (expire q) \<and> iq_chunks q \<noteq> [] \<and> snd (expire q) = clear_queue Age (snd (read_clock q))"
  by (auto simp: expire_def Let_def split_def split: list.split)

lemma queue_inv_empty [simp]: "iq_chunks q = [] \<Longrightarrow> iq_bytes q = 0 \<Longrightarrow> queue_inv q"
  by (simp add: queue_inv_def)

lemma queue_inv_expire: "queue_inv q \<Longrightarrow> queue_inv (snd (expire q))"
  using expire_cases [of q] queue_inv_cong [of "snd (read_clock q)" q] by auto

lemma foldl_minus: "foldl (\<lambda>b c. b - f c) (b :: int) xs = b - (\<Sum>c\<leftarrow>xs. f c)"
  by (induction xs arbitrary: b) auto

lemma dropPrefix_simps:
  "iq_chunks (dropPrefix n q) = drop (nat n) (iq_chunks q)"
  "iq_bytes (dropPrefix n q) = iq_bytes q - (\<Sum>c\<leftarrow>take (nat n) (iq_chunks q). ck_bytes c)"
  by (simp_all add: dropPrefix_def foldl_minus)

lemma dropPrefix_same [simp]:
  "iq_bounds (dropPrefix n q) = iq_bounds q" "iq_identity (dropPrefix n q) = iq_identity q"
  "iq_cursor (dropPrefix n q) = iq_cursor q" "iq_dropped (dropPrefix n q) = iq_dropped q"
  "iq_onDrop (dropPrefix n q) = iq_onDrop q" "iq_told (dropPrefix n q) = iq_told q"
  by (simp_all add: dropPrefix_def)

lemma sum_take_drop: "(\<Sum>c\<leftarrow>xs. f c :: int) = (\<Sum>c\<leftarrow>take n xs. f c) + (\<Sum>c\<leftarrow>drop n xs. f c)"
  by (metis append_take_drop_id map_append sum_list_append)

lemma queue_inv_dropPrefix:
  assumes "queue_inv q" shows "queue_inv (dropPrefix n q)"
proof -
  have nonneg: "0 \<le> (\<Sum>c\<leftarrow>take (nat n) (iq_chunks q). ck_bytes c)"
    using assms by (intro sum_list_nonneg_int) (auto simp: queue_inv_def dest: in_set_takeD chunk_bytes_nonneg)
  have sum: "iq_bytes (dropPrefix n q) = (\<Sum>c\<leftarrow>iq_chunks (dropPrefix n q). ck_bytes c)"
    using assms sum_take_drop [of ck_bytes "iq_chunks q" "nat n"] by (simp add: queue_inv_def dropPrefix_simps)
  have "\<forall>c \<in> set (iq_chunks (dropPrefix n q)). chunk_ok c"
    using assms by (auto simp: queue_inv_def dropPrefix_simps dest: in_set_dropD)
  moreover have "length (iq_chunks (dropPrefix n q)) \<le> length (iq_chunks q)"
    "iq_bytes (dropPrefix n q) \<le> iq_bytes q"
    using nonneg by (simp_all add: dropPrefix_simps)
  ultimately show ?thesis using assms sum unfolding queue_inv_def by auto
qed

lemma queue_inv_acknowledge: "queue_inv q \<Longrightarrow> queue_inv (acknowledge e n q)"
  using queue_inv_dropPrefix [of q] queue_inv_cong [of "(dropPrefix k q)\<lparr>iq_cursor := n\<rparr>" "dropPrefix k q" for k]
  by (simp add: acknowledge_def Let_def)

lemma queue_inv_reconcile:
  assumes "queue_inv q" shows "queue_inv (snd (reconcile i a q))"
proof -
  have "queue_inv (r\<lparr>iq_identity := j\<rparr>) = queue_inv r" for r j by (rule queue_inv_cong) simp_all
  moreover have "queue_inv (r\<lparr>iq_cursor := c\<rparr>) = queue_inv r" for r c by (rule queue_inv_cong) simp_all
  ultimately show ?thesis
    using assms by (auto simp: reconcile_def Let_def split_def queue_inv_acknowledge split: option.split)
qed

lemma queue_inv_accept:
  assumes "queue_inv q" shows "queue_inv (snd (accept_input data q))"
proof -
  let ?q1 = "snd (expire q)"
  have inv: "queue_inv ?q1" using assms by (rule queue_inv_expire)
  then have "queue_inv (record_drop Bound 1 ?q1)" by (subst queue_inv_cong [of _ ?q1]) simp_all
  then show ?thesis
    using assms inv by (auto simp: accept_input_def Let_def split_def queue_inv_def chunk_ok_def)
qed

lemma queue_inv_listen: "queue_inv (q\<lparr>iq_onDrop := b\<rparr>) = queue_inv q"
  by (simp add: queue_inv_def)

lemma queue_inv_step: "queue_inv q \<Longrightarrow> queue_inv (queue_step q e)"
  by (cases e) (simp_all add: queue_inv_reconcile queue_inv_acknowledge queue_inv_accept queue_inv_expire
      drain_queue_def Let_def queue_inv_listen)

interpretation queue: event_machine queue_step queue_inv
  by unfold_locales (rule queue_inv_step)

lemma told_record: "prefix (iq_told q) (iq_told (record_drop r n q))"
  by (simp add: record_drop_def read_clock_def Let_def)

lemma told_clear: "prefix (iq_told q) (iq_told (clear_queue r q))"
  using told_record by (simp add: clear_queue_def Let_def)

lemma told_expire: "prefix (iq_told q) (iq_told (snd (expire q)))"
  using expire_cases [of q] told_clear [of "snd (read_clock q)" Age] by auto

lemma told_acknowledge [simp]: "iq_told (acknowledge e n q) = iq_told q"
  by (simp add: acknowledge_def Let_def)

lemma told_reconcile: "prefix (iq_told q) (iq_told (snd (reconcile i a q)))"
  using told_clear [of q] by (auto simp: reconcile_def Let_def split_def split: option.split)

lemma told_accept: "prefix (iq_told q) (iq_told (snd (accept_input data q)))"
  using told_expire [of q] told_record [of "snd (expire q)" Bound 1]
  by (auto simp: accept_input_def Let_def split_def intro: prefix_order.trans)

interpretation queue_log: logging_machine queue_step queue_inv iq_told
proof
  fix q e assume "queue_inv q"
  show "prefix (iq_told q) (iq_told (queue_step q e))"
    by (cases e) (simp_all add: told_reconcile told_accept told_expire told_clear drain_queue_def Let_def)
qed

end
