(* ===== verification/Input_Delivery.thy ===== *)
theory Input_Delivery
  imports Input_Queue
begin

text \<open>
  The input queue end to end. The client's flush (\<^verbatim>\<open>ConnectionManager.ts\<close> \<open>flushInputBuffer\<close>,
  \<open>sendSequencedInput\<close>) and the agent's cursor (\<^verbatim>\<open>crates/nession-agent/src/session/terminal/state.rs\<close>
  \<open>SessionInputState\<close>, \<^verbatim>\<open>registry.rs\<close>) are composed over a network that may lose, duplicate and
  reorder both the frames and the acknowledgements: everything ever sent stays available for delivery
  any number of times. The agent's \<open>u64\<close> numbers are integers with their saturating successor.
\<close>

section \<open>Client side: flushing\<close>

datatype input_frame =
    SequencedInput (if_epoch: int) (if_seq: int) (if_data: jsstring)
  | RawInput (if_data: jsstring)

definition flushInputBuffer :: "input_queue \<Rightarrow> input_frame list \<times> input_queue" where
  "flushInputBuffer q =
     (if iq_chunks q = [] then ([], q)
      else case outbound q of
        None \<Rightarrow> (let (datas, q1) = drain_queue q in (map RawInput datas, q1))
      | Some chunks \<Rightarrow>
          (case iq_identity q of
             None \<Rightarrow> ([], q)
           | Some identity \<Rightarrow>
               (map (\<lambda>(seq, data). SequencedInput (ii_inputEpoch identity) seq data) chunks, q)))"

section \<open>Agent side: the input cursor\<close>

definition U64_MAX :: int where "U64_MAX = 18446744073709551615"

definition saturating_succ :: "int \<Rightarrow> int" where
  "saturating_succ n = min (n + 1) U64_MAX"

record agent_input =
  ai_epoch :: int
  ai_applied_through :: int

datatype input_sequence = Sequenced int int int | Unsequenced

datatype input_verdict = ApplyThrough int | Duplicate | Gap | StaleEpoch

definition sequence_of :: "int option \<Rightarrow> int option \<Rightarrow> int option \<Rightarrow> input_sequence option" where
  "sequence_of epoch seq_start seq_end =
     (case (epoch, seq_start, seq_end) of
        (None, None, None) \<Rightarrow> Some Unsequenced
      | (Some e, Some s, Some t) \<Rightarrow> Some (Sequenced e s t)
      | _ \<Rightarrow> None)"

fun classify :: "agent_input \<Rightarrow> input_sequence \<Rightarrow> input_verdict" where
  "classify a Unsequenced = ApplyThrough (ai_applied_through a)"
| "classify a (Sequenced epoch seq_start seq_end) =
     (if epoch \<noteq> ai_epoch a then StaleEpoch
      else if seq_end \<le> ai_applied_through a then Duplicate
      else if seq_start \<noteq> saturating_succ (ai_applied_through a) then Gap
      else ApplyThrough seq_end)"

definition applied :: "int \<Rightarrow> agent_input \<Rightarrow> agent_input" where
  "applied through a = a\<lparr>ai_applied_through := max (ai_applied_through a) through\<rparr>"

text \<open>
  One frame at the agent, where \<open>writes\<close> says whether \<open>write_input\<close> succeeds: the new cursor, what is
  written to the terminal, and the acknowledgement sent back. A failed write sends none.
\<close>

definition agent_receive :: "bool \<Rightarrow> input_frame \<Rightarrow> agent_input \<Rightarrow> agent_input \<times> jsstring list \<times> int option" where
  "agent_receive writes frame a =
     (let sequence = (case frame of SequencedInput e s _ \<Rightarrow> Sequenced e s s | RawInput _ \<Rightarrow> Unsequenced)
      in case classify a sequence of
           ApplyThrough through \<Rightarrow>
             if writes then (applied through a, [if_data frame], Some through) else (a, [], None)
         | _ \<Rightarrow> (a, [], Some (ai_applied_through a)))"

section \<open>The composed system\<close>

record delivery =
  dv_queue :: input_queue
  dv_agent :: agent_input
  dv_frames :: "input_frame list"
  dv_acks :: "int list"
  dv_typed :: "jsstring list"
  dv_written :: "jsstring list"

datatype delivery_event =
    TypeInput jsstring
  | Flush
  | DeliverFrame nat bool
  | DeliverAck nat
  | Reattach nat "int option"
  | ExpireInput

definition start_delivery :: "string \<Rightarrow> int \<Rightarrow> input_bounds \<Rightarrow> (nat \<Rightarrow> int) \<Rightarrow> delivery" where
  "start_delivery name epoch bounds now =
     \<lparr>dv_queue = snd (reconcile \<lparr>ii_sessionName = name, ii_inputEpoch = epoch, ii_controlGeneration = None\<rparr>
        (Some 0) ((new_queue bounds now)\<lparr>iq_onDrop := True\<rparr>)),
      dv_agent = \<lparr>ai_epoch = epoch, ai_applied_through = 0\<rparr>, dv_frames = [], dv_acks = [0],
      dv_typed = [], dv_written = []\<rparr>"

text \<open>\<open>dv_typed\<close> is the history of the input the queue accepted, \<open>dv_written\<close> what reached the terminal.\<close>

fun delivery_step :: "delivery \<Rightarrow> delivery_event \<Rightarrow> delivery" where
  "delivery_step s (TypeInput data) =
     (let (accepted, q) = accept_input data (dv_queue s)
      in s\<lparr>dv_queue := q, dv_typed := (if accepted \<and> data \<noteq> [] then dv_typed s @ [data] else dv_typed s)\<rparr>)"
| "delivery_step s Flush =
     (let (frames, q) = flushInputBuffer (dv_queue s)
      in s\<lparr>dv_queue := q, dv_frames := dv_frames s @ frames\<rparr>)"
| "delivery_step s (DeliverFrame i writes) =
     (if i < length (dv_frames s)
      then let (a, datas, ack) = agent_receive writes (dv_frames s ! i) (dv_agent s)
           in s\<lparr>dv_agent := a, dv_written := dv_written s @ datas,
                dv_acks := dv_acks s @ (case ack of None \<Rightarrow> [] | Some n \<Rightarrow> [n])\<rparr>
      else s)"
| "delivery_step s (DeliverAck i) =
     (if i < length (dv_acks s)
      then s\<lparr>dv_queue := acknowledge (ai_epoch (dv_agent s)) (dv_acks s ! i) (dv_queue s)\<rparr>
      else s)"
| "delivery_step s (Reattach i generation) =
     (if i < length (dv_acks s)
      then s\<lparr>dv_queue := snd (reconcile
             \<lparr>ii_sessionName = (case iq_identity (dv_queue s) of None \<Rightarrow> '''' | Some j \<Rightarrow> ii_sessionName j),
              ii_inputEpoch = ai_epoch (dv_agent s), ii_controlGeneration = generation\<rparr>
             (Some (dv_acks s ! i)) (dv_queue s))\<rparr>
      else s)"
| "delivery_step s ExpireInput = s\<lparr>dv_queue := snd (expire (dv_queue s))\<rparr>"

text \<open>Nothing already accepted has been discarded: the only losses reported are refusals at a bound.\<close>

definition undamaged :: "input_queue \<Rightarrow> bool" where
  "undamaged q \<longleftrightarrow> (\<forall>d \<in> set (iq_told q). dr_reason d = Bound)"

lemma undamaged_prefix: "prefix (iq_told q) (iq_told r) \<Longrightarrow> undamaged r \<Longrightarrow> undamaged q"
  by (auto simp: undamaged_def prefix_def)

lemma clear_damages: "iq_onDrop q \<Longrightarrow> undamaged (clear_queue r q) \<Longrightarrow> r \<noteq> Bound \<Longrightarrow> iq_chunks q = []"
  by (auto simp: undamaged_def clear_queue_def record_drop_def read_clock_def Let_def split: if_splits)

lemma clear_nothing: "iq_chunks q = [] \<Longrightarrow> iq_chunks (clear_queue r q) = iq_chunks q"
  by simp

lemma expire_undamaged:
  assumes "iq_onDrop q" and "undamaged (snd (expire q))"
  shows "iq_chunks (snd (expire q)) = iq_chunks q" "iq_cursor (snd (expire q)) = iq_cursor q"
    "iq_identity (snd (expire q)) = iq_identity q" "iq_onDrop (snd (expire q)) = iq_onDrop q"
proof -
  have "snd (expire q) = q \<or> snd (expire q) = snd (read_clock q)"
    using expire_cases [of q] clear_damages [of "snd (read_clock q)" Age] assms by auto
  then show "iq_chunks (snd (expire q)) = iq_chunks q" "iq_cursor (snd (expire q)) = iq_cursor q"
    "iq_identity (snd (expire q)) = iq_identity q" "iq_onDrop (snd (expire q)) = iq_onDrop q"
    by auto
qed

lemma accept_undamaged:
  assumes "iq_onDrop q" and "undamaged (snd (accept_input data q))"
  shows "map ck_data (iq_chunks (snd (accept_input data q)))
      = map ck_data (iq_chunks q) @ (if fst (accept_input data q) \<and> data \<noteq> [] then [data] else [])
    \<and> iq_cursor (snd (accept_input data q)) = iq_cursor q
    \<and> iq_identity (snd (accept_input data q)) = iq_identity q \<and> iq_onDrop (snd (accept_input data q))"
proof (cases "data = []")
  case True
  with assms show ?thesis by (simp add: accept_input_def)
next
  case False
  let ?q1 = "snd (expire q)"
  have "prefix (iq_told ?q1) (iq_told (snd (accept_input data q)))"
    using False told_record [of ?q1 Bound 1] by (auto simp: accept_input_def Let_def split_def)
  then have "undamaged ?q1" using assms(2) by (rule undamaged_prefix)
  note same = expire_undamaged [OF assms(1) this]
  show ?thesis using False assms(1) by (auto simp: accept_input_def Let_def split_def same)
qed

lemma reconcile_undamaged:
  assumes "iq_onDrop q" and "undamaged (snd (reconcile i through q))"
    and "iq_identity q = Some j" and "ii_inputEpoch j = ii_inputEpoch i"
  shows "\<exists>r. iq_chunks r = iq_chunks q \<and> iq_cursor r = iq_cursor q \<and> iq_identity r = Some i \<and> iq_onDrop r
    \<and> snd (reconcile i through q) = (case through of None \<Rightarrow> r | Some n \<Rightarrow> acknowledge (ii_inputEpoch i) n r)"
proof -
  let ?moved = "ii_controlGeneration j \<noteq> None \<and> ii_controlGeneration i \<noteq> None
    \<and> ii_controlGeneration j \<noteq> ii_controlGeneration i"
  let ?q1 = "if ?moved then clear_queue GenerationMoved q else q"
  have eq: "snd (reconcile i through q) = (case through of None \<Rightarrow> ?q1\<lparr>iq_identity := Some i\<rparr>
      | Some n \<Rightarrow> acknowledge (ii_inputEpoch i) n (?q1\<lparr>iq_identity := Some i\<rparr>))"
    using assms(3,4) by (simp add: reconcile_def Let_def split: option.split)
  have "undamaged ?q1" using assms(2) unfolding eq
    by (auto simp: undamaged_def split: option.splits)
  then have "iq_chunks ?q1 = iq_chunks q"
    using clear_damages [OF assms(1), of GenerationMoved] by auto
  then show ?thesis using assms(1) eq by (intro exI [of _ "?q1\<lparr>iq_identity := Some i\<rparr>"]) auto
qed

section \<open>Invariant\<close>

definition delivery_inv :: "delivery \<Rightarrow> bool" where
  "delivery_inv s \<longleftrightarrow>
     (\<exists>i. iq_identity (dv_queue s) = Some i \<and> ii_inputEpoch i = ai_epoch (dv_agent s))
     \<and> iq_onDrop (dv_queue s)
     \<and> 0 \<le> iq_cursor (dv_queue s) \<and> iq_cursor (dv_queue s) \<le> ai_applied_through (dv_agent s)
     \<and> ai_applied_through (dv_agent s) \<le> int (length (dv_typed s))
     \<and> (\<forall>f \<in> set (dv_frames s). \<exists>k. f = SequencedInput (ai_epoch (dv_agent s)) (int k + 1) (dv_typed s ! k)
          \<and> k < length (dv_typed s))
     \<and> (\<forall>n \<in> set (dv_acks s). 0 \<le> n \<and> n \<le> ai_applied_through (dv_agent s))
     \<and> map ck_data (iq_chunks (dv_queue s)) = drop (nat (iq_cursor (dv_queue s))) (dv_typed s)
     \<and> dv_written s = take (nat (ai_applied_through (dv_agent s))) (dv_typed s)"

lemma delivery_inv_start: "delivery_inv (start_delivery name epoch bounds now)"
  by (simp add: delivery_inv_def start_delivery_def reconcile_def new_queue_def acknowledge_def)

lemma acknowledge_data:
  assumes "map ck_data (iq_chunks q) = drop (nat (iq_cursor q)) typed" and "0 \<le> iq_cursor q"
    and "n \<le> int (length typed)"
  shows "map ck_data (iq_chunks (acknowledge e n q)) = drop (nat (iq_cursor (acknowledge e n q))) typed
    \<and> (iq_cursor (acknowledge e n q) = iq_cursor q \<or> iq_cursor (acknowledge e n q) = n \<and> iq_cursor q < n)
    \<and> iq_identity (acknowledge e n q) = iq_identity q \<and> iq_onDrop (acknowledge e n q) = iq_onDrop q"
proof (cases "iq_cursor q < n \<and> \<not> (case iq_identity q of None \<Rightarrow> False | Some i \<Rightarrow> ii_inputEpoch i \<noteq> e)")
  case False
  then show ?thesis using assms by (auto simp: acknowledge_def)
next
  case True
  have len: "length (iq_chunks q) = length typed - nat (iq_cursor q)"
    using arg_cong [OF assms(1), of length] by simp
  have covered: "min (n - iq_cursor q) (int (length (iq_chunks q))) = n - iq_cursor q"
    using True assms(2,3) by (simp add: len)
  have "map ck_data (drop (nat (n - iq_cursor q)) (iq_chunks q)) = drop (nat (n - iq_cursor q)) (drop (nat (iq_cursor q)) typed)"
    by (simp only: drop_map [symmetric] assms(1))
  also have "\<dots> = drop (nat (n - iq_cursor q) + nat (iq_cursor q)) typed" by simp
  also have "nat (n - iq_cursor q) + nat (iq_cursor q) = nat n" using True assms(2) by linarith
  finally show ?thesis using True covered by (simp add: acknowledge_def Let_def dropPrefix_simps)
qed

lemma outbound_frames:
  assumes "iq_identity q = Some i" and "map ck_data (iq_chunks q) = drop (nat (iq_cursor q)) typed" and "0 \<le> iq_cursor q"
  shows "fst (flushInputBuffer q)
      = map (\<lambda>k. SequencedInput (ii_inputEpoch i) (int k + 1) (typed ! k)) [nat (iq_cursor q)..<length typed]
    \<and> snd (flushInputBuffer q) = q"
proof -
  have len: "length (iq_chunks q) = length typed - nat (iq_cursor q)"
    using arg_cong [OF assms(2), of length] by simp
  have data: "ck_data (iq_chunks q ! k) = typed ! (nat (iq_cursor q) + k)" if "k < length (iq_chunks q)" for k
    using that len arg_cong [OF assms(2), of "\<lambda>xs. xs ! k"] by simp
  have "map (\<lambda>(seq, data). SequencedInput (ii_inputEpoch i) seq data)
      (map (\<lambda>(k, c). (iq_cursor q + 1 + int k, ck_data c)) (enumerate 0 (iq_chunks q)))
    = map (\<lambda>k. SequencedInput (ii_inputEpoch i) (int k + 1) (typed ! k)) [nat (iq_cursor q)..<length typed]"
    using assms(3) data by (auto intro!: nth_equalityI simp: len nth_enumerate_eq)
  then show ?thesis
    using assms(1) len by (auto simp: flushInputBuffer_def outbound_def)
qed

lemma classify_apply:
  "classify a (Sequenced e k k) = ApplyThrough n \<Longrightarrow> n = k \<and> k = ai_applied_through a + 1 \<and> e = ai_epoch a"
  by (auto simp: saturating_succ_def U64_MAX_def split: if_splits)

lemma agent_receive_sequenced:
  assumes "agent_receive writes (SequencedInput e k d) a = (b, datas, ack)"
  shows "b = a \<and> datas = [] \<and> (ack = None \<or> ack = Some (ai_applied_through a))
    \<or> b = a\<lparr>ai_applied_through := k\<rparr> \<and> datas = [d] \<and> ack = Some k \<and> k = ai_applied_through a + 1"
proof (cases "classify a (Sequenced e k k)")
  case (ApplyThrough n)
  from classify_apply [OF this] ApplyThrough assms show ?thesis
    by (cases writes) (auto simp: agent_receive_def applied_def simp del: classify.simps)
qed (use assms in \<open>auto simp: agent_receive_def simp del: classify.simps\<close>)

lemma delivery_inv_step:
  assumes inv: "delivery_inv s" and und: "undamaged (dv_queue (delivery_step s e))"
  shows "delivery_inv (delivery_step s e)"
proof -
  from inv obtain i where i: "iq_identity (dv_queue s) = Some i" "ii_inputEpoch i = ai_epoch (dv_agent s)"
    by (auto simp: delivery_inv_def)
  have listen: "iq_onDrop (dv_queue s)" and cur: "0 \<le> iq_cursor (dv_queue s)"
    "iq_cursor (dv_queue s) \<le> ai_applied_through (dv_agent s)"
    and app: "ai_applied_through (dv_agent s) \<le> int (length (dv_typed s))"
    and data: "map ck_data (iq_chunks (dv_queue s)) = drop (nat (iq_cursor (dv_queue s))) (dv_typed s)"
    and written: "dv_written s = take (nat (ai_applied_through (dv_agent s))) (dv_typed s)"
    and acks: "\<And>n. n \<in> set (dv_acks s) \<Longrightarrow> 0 \<le> n \<and> n \<le> ai_applied_through (dv_agent s)"
    and frames: "\<And>f. f \<in> set (dv_frames s) \<Longrightarrow> \<exists>k. f = SequencedInput (ai_epoch (dv_agent s)) (int k + 1) (dv_typed s ! k)
          \<and> k < length (dv_typed s)"
    using inv by (auto simp: delivery_inv_def)
  show ?thesis
  proof (cases e)
    case (TypeInput d)
    let ?r = "accept_input d (dv_queue s)"
    have "undamaged (snd ?r)" using und TypeInput by (simp add: Let_def split_def)
    note acc = accept_undamaged [OF listen this]
    define new where "new = (if fst ?r \<and> d \<noteq> [] then [d] else [])"
    have step: "delivery_step s e = s\<lparr>dv_queue := snd ?r, dv_typed := dv_typed s @ new\<rparr>"
      using TypeInput by (simp add: Let_def split_def new_def)
    have old: "\<exists>k. f = SequencedInput (ai_epoch (dv_agent s)) (int k + 1) ((dv_typed s @ new) ! k)
        \<and> k < length (dv_typed s @ new)" if "f \<in> set (dv_frames s)" for f
    proof -
      from frames [OF that] obtain k where "f = SequencedInput (ai_epoch (dv_agent s)) (int k + 1) (dv_typed s ! k)"
        "k < length (dv_typed s)" by blast
      then show ?thesis by (intro exI [of _ k]) (simp add: nth_append)
    qed
    have "map ck_data (iq_chunks (snd ?r)) = drop (nat (iq_cursor (dv_queue s))) (dv_typed s @ new)"
      using acc data cur app by (simp add: new_def)
    moreover have "dv_written s = take (nat (ai_applied_through (dv_agent s))) (dv_typed s @ new)"
      using written app by simp
    ultimately show ?thesis
      unfolding step delivery_inv_def using acc i cur app acks old by simp
  next
    case Flush
    have "k < length (dv_typed s)" if "k \<in> set [nat (iq_cursor (dv_queue s))..<length (dv_typed s)]" for k
      using that by simp
    then show ?thesis
      using Flush inv outbound_frames [OF i(1) data cur(1)] i
      by (auto simp: delivery_inv_def Let_def split_def)
  next
    case (DeliverFrame n w)
    show ?thesis
    proof (cases "n < length (dv_frames s)")
      case False
      with DeliverFrame inv show ?thesis by simp
    next
      case True
      then obtain k where k: "dv_frames s ! n = SequencedInput (ai_epoch (dv_agent s)) (int k + 1) (dv_typed s ! k)"
        "k < length (dv_typed s)" using frames nth_mem by blast
      obtain b datas ack where r: "agent_receive w (dv_frames s ! n) (dv_agent s) = (b, datas, ack)"
        by (cases "agent_receive w (dv_frames s ! n) (dv_agent s)")
      then have step: "delivery_step s e = s\<lparr>dv_agent := b, dv_written := dv_written s @ datas,
          dv_acks := dv_acks s @ (case ack of None \<Rightarrow> [] | Some n \<Rightarrow> [n])\<rparr>"
        using DeliverFrame True by simp
      from agent_receive_sequenced [OF r [unfolded k(1)]]
      consider (no) "b = dv_agent s" "datas = []" "ack = None \<or> ack = Some (ai_applied_through (dv_agent s))"
        | (yes) "b = (dv_agent s)\<lparr>ai_applied_through := int k + 1\<rparr>" "datas = [dv_typed s ! k]"
          "ack = Some (int k + 1)" "int k = ai_applied_through (dv_agent s)"
        by force
      then show ?thesis
      proof cases
        case no
        then show ?thesis using step inv cur by (auto simp: delivery_inv_def)
      next
        case yes
        have "take (Suc k) (dv_typed s) = take k (dv_typed s) @ [dv_typed s ! k]"
          using k(2) by (rule take_Suc_conv_app_nth)
        moreover have "nat (int k + 1) = Suc k" "nat (ai_applied_through (dv_agent s)) = k"
          using yes(4) by linarith+
        moreover have "\<forall>n \<in> set (dv_acks s). 0 \<le> n \<and> n \<le> int k + 1" using acks yes(4) by fastforce
        ultimately show ?thesis
          unfolding step delivery_inv_def using yes i listen cur app k(2) data written frames by simp
      qed
    qed
  next
    case (DeliverAck n)
    show ?thesis
    proof (cases "n < length (dv_acks s)")
      case False
      with DeliverAck inv show ?thesis by simp
    next
      case True
      then have "0 \<le> dv_acks s ! n \<and> dv_acks s ! n \<le> ai_applied_through (dv_agent s)" using acks by simp
      then show ?thesis
        using DeliverAck True inv app i acknowledge_data [OF data cur(1), of "dv_acks s ! n" "ai_epoch (dv_agent s)"]
        by (auto simp: delivery_inv_def)
    qed
  next
    case (Reattach n g)
    show ?thesis
    proof (cases "n < length (dv_acks s)")
      case False
      with Reattach inv show ?thesis by simp
    next
      case True
      let ?i = "\<lparr>ii_sessionName = ii_sessionName i, ii_inputEpoch = ai_epoch (dv_agent s), ii_controlGeneration = g\<rparr>"
      have step: "delivery_step s e = s\<lparr>dv_queue := snd (reconcile ?i (Some (dv_acks s ! n)) (dv_queue s))\<rparr>"
        using Reattach True i by simp
      then have "undamaged (snd (reconcile ?i (Some (dv_acks s ! n)) (dv_queue s)))" using und by simp
      from reconcile_undamaged [OF listen this i(1)] i(2) obtain r where
        r: "iq_chunks r = iq_chunks (dv_queue s)" "iq_cursor r = iq_cursor (dv_queue s)" "iq_identity r = Some ?i"
          "iq_onDrop r" "snd (reconcile ?i (Some (dv_acks s ! n)) (dv_queue s)) = acknowledge (ai_epoch (dv_agent s)) (dv_acks s ! n) r"
        by auto
      have "0 \<le> dv_acks s ! n \<and> dv_acks s ! n \<le> ai_applied_through (dv_agent s)" using True acks by simp
      moreover have "map ck_data (iq_chunks r) = drop (nat (iq_cursor r)) (dv_typed s)" using r data by simp
      ultimately show ?thesis
        using step r inv app cur acknowledge_data [of r "dv_typed s" "dv_acks s ! n" "ai_epoch (dv_agent s)"]
        by (auto simp: delivery_inv_def)
    qed
  next
    case ExpireInput
    then have "undamaged (snd (expire (dv_queue s)))" using und by simp
    note same = expire_undamaged [OF listen this]
    show ?thesis using ExpireInput inv same by (auto simp: delivery_inv_def)
  qed
qed


lemma delivery_told: "prefix (iq_told (dv_queue s)) (iq_told (dv_queue (delivery_step s e)))"
  by (cases e) (auto simp: Let_def split_def told_accept told_reconcile told_expire flushInputBuffer_def
      drain_queue_def split: option.split)

interpretation delivered: logging_machine delivery_step "\<lambda>_. True" "\<lambda>s. iq_told (dv_queue s)"
  by unfold_locales (auto intro: delivery_told)

lemma delivery_inv_run:
  "delivery_inv s \<Longrightarrow> undamaged (dv_queue (foldl delivery_step s es)) \<Longrightarrow> delivery_inv (foldl delivery_step s es)"
proof (induction es rule: rev_induct)
  case (snoc e es)
  let ?t = "foldl delivery_step s es"
  have und: "undamaged (dv_queue (delivery_step ?t e))" using snoc.prems(2) by simp
  then have "undamaged (dv_queue ?t)" using undamaged_prefix [OF delivery_told] by blast
  with snoc have "delivery_inv ?t" by blast
  from delivery_inv_step [OF this und] show ?case by simp
qed simp

section \<open>Properties\<close>

text \<open>
  C6. Typed input reaches the terminal exactly once and in order. Over a network that loses,
  duplicates and reorders frames and acknowledgements, with reconnections and failed writes, and as
  long as the queue has reported no discard of accepted input (it may refuse input at a bound), what the terminal received is a
  prefix of what the user typed, and everything typed beyond that prefix is still in the queue.
\<close>

theorem input_exactly_once:
  assumes "s = foldl delivery_step (start_delivery name epoch bounds now) es"
    and "\<forall>d \<in> set (iq_told (dv_queue s)). dr_reason d = Bound"
  shows "\<exists>n c. c \<le> n \<and> n \<le> length (dv_typed s) \<and> dv_written s = take n (dv_typed s)
    \<and> map ck_data (iq_chunks (dv_queue s)) = drop c (dv_typed s)"
proof -
  have "delivery_inv s"
    unfolding assms(1)
    by (rule delivery_inv_run [OF delivery_inv_start]) (use assms in \<open>simp add: undamaged_def\<close>)
  then show ?thesis
    by (intro exI [of _ "nat (ai_applied_through (dv_agent s))"] exI [of _ "nat (iq_cursor (dv_queue s))"])
      (auto simp: delivery_inv_def)
qed

definition demo_start :: delivery where
  "demo_start = start_delivery ''s'' 7 \<lparr>ib_maxChunks = 4, ib_maxBytes = 64, ib_maxAgeMs = 5000\<rparr> (\<lambda>n. 2000 * int n)"

definition demo_events :: "delivery_event list" where
  "demo_events = [TypeInput (js ''a''), TypeInput (js ''b''), Flush, DeliverFrame 0 True, Reattach 0 None, Flush,
     DeliverFrame 2 True, DeliverFrame 3 True, DeliverAck 1]"

theorem input_exactly_once_witness:
  "(\<exists>n c. c \<le> n \<and> n \<le> length (dv_typed (foldl delivery_step demo_start demo_events))
      \<and> dv_written (foldl delivery_step demo_start demo_events) = take n (dv_typed (foldl delivery_step demo_start demo_events))
      \<and> map ck_data (iq_chunks (dv_queue (foldl delivery_step demo_start demo_events)))
        = drop c (dv_typed (foldl delivery_step demo_start demo_events)))
   \<and> dv_written (foldl delivery_step demo_start demo_events) = [js ''a'', js ''b'']"
proof
  show "\<exists>n c. c \<le> n \<and> n \<le> length (dv_typed (foldl delivery_step demo_start demo_events))
      \<and> dv_written (foldl delivery_step demo_start demo_events) = take n (dv_typed (foldl delivery_step demo_start demo_events))
      \<and> map ck_data (iq_chunks (dv_queue (foldl delivery_step demo_start demo_events)))
        = drop c (dv_typed (foldl delivery_step demo_start demo_events))"
    unfolding demo_start_def by (rule input_exactly_once [OF refl]) code_simp
qed code_simp

text \<open>
  The queue is bounded and accounted. After any sequence of operations the byte count is the sum
  of the encoded lengths of the chunks held, and a queue of more than one chunk is within both bounds.
\<close>

lemma input_queue_bounded:
  fixes bounds now es
  defines "q \<equiv> foldl queue_step (new_queue bounds now) es"
  shows "iq_bytes q = (\<Sum>c\<leftarrow>iq_chunks q. utf8ByteLength (ck_data c))
    \<and> (length (iq_chunks q) \<le> 1 \<or>
       int (length (iq_chunks q)) \<le> ib_maxChunks (iq_bounds q) \<and> iq_bytes q \<le> ib_maxBytes (iq_bounds q))"
proof -
  have inv: "queue_inv q" unfolding q_def by (rule queue.run_inv [OF queue_inv_new])
  then have "(\<Sum>c\<leftarrow>iq_chunks q. ck_bytes c) = (\<Sum>c\<leftarrow>iq_chunks q. utf8ByteLength (ck_data c))"
    by (intro arg_cong [of _ _ sum_list] map_cong) (auto simp: queue_inv_def chunk_ok_def)
  then show ?thesis using inv by (auto simp: queue_inv_def)
qed

text \<open>
  Every loss of pending input is counted. Accepting a chunk either leaves it pending or counts it as
  dropped, discarding the queue counts exactly the chunks it held, and an acknowledgement removes a
  prefix without counting a loss.
\<close>

lemma input_losses_counted:
  "length (iq_chunks (snd (accept_input data q))) + iq_dropped (snd (accept_input data q))
     = (if data = [] then 0 else 1) + length (iq_chunks q) + iq_dropped q
   \<and> length (iq_chunks (snd (expire q))) + iq_dropped (snd (expire q)) = length (iq_chunks q) + iq_dropped q
   \<and> iq_dropped (clear_queue reason q) = iq_dropped q + length (iq_chunks q)
   \<and> iq_dropped (acknowledge epoch through q) = iq_dropped q
   \<and> suffix (iq_chunks (acknowledge epoch through q)) (iq_chunks q)"
proof -
  have exp: "length (iq_chunks (snd (expire q))) + iq_dropped (snd (expire q)) = length (iq_chunks q) + iq_dropped q"
    using expire_cases [of q] by auto
  moreover have "length (iq_chunks (snd (accept_input data q))) + iq_dropped (snd (accept_input data q))
     = (if data = [] then 0 else 1) + length (iq_chunks q) + iq_dropped q"
    using exp by (auto simp: accept_input_def Let_def split_def)
  ultimately show ?thesis by (simp add: acknowledge_def Let_def dropPrefix_simps suffix_drop)
qed

section \<open>A corner case of the code, on a concrete run\<close>

text \<open>
  Discarding the queue on age does not move its cursor, so the next chunk is numbered like the one
  that was discarded. When the discarded chunk had been applied and only its acknowledgement was
  lost, the next cursor statement removes the new chunk as applied: \<open>b\<close> never reaches the terminal,
  and the only loss reported is that of \<open>a\<close>, which did.
\<close>

lemma expired_position_is_reused:
  "let s = foldl delivery_step
       (start_delivery ''s'' 7 \<lparr>ib_maxChunks = 4, ib_maxBytes = 64, ib_maxAgeMs = 5000\<rparr> (\<lambda>n. 6000 * int n))
       [TypeInput (js ''a''), Flush, DeliverFrame 0 True, TypeInput (js ''b''), Reattach 1 None]
   in dv_typed s = [js ''a'', js ''b''] \<and> dv_written s = [js ''a''] \<and> iq_chunks (dv_queue s) = []
     \<and> map dr_reason (iq_told (dv_queue s)) = [Age] \<and> map dr_chunks (iq_told (dv_queue s)) = [1]"
  by code_simp

end
