(* ===== verification/Applied_Cursor.thy ===== *)
theory Applied_Cursor
  imports Stream_Events
begin

text \<open>
  The cursor of output the terminal has actually parsed
  (\<^verbatim>\<open>web/src/platform/terminal-runtime/AppliedTerminalCursor.ts\<close>). Parser callbacks arrive in any
  order; the cursor advances only over a contiguous run above a verified baseline. A binding names
  the generation and epoch it was issued for, so callbacks of a retired binding are recognised.
  \<open>beginFromVerifiedBaseline\<close> throws a \<open>RangeError\<close> for an invalid baseline, after having revoked the
  previous binding: \<open>None\<close> with the reset state. The \<open>kind\<close> tag of a baseline has one value.
\<close>

section \<open>Model\<close>

record cursor_binding =
  cb_generation :: nat
  cb_streamEpoch :: int

datatype parse_outcome = Advanced | Buffered | DuplicateParse | StaleBinding | InvalidPosition

record cursor_snapshot =
  cs_streamEpoch :: int
  cs_generation :: nat
  cs_appliedSeq :: int
  cs_ackSentSeq :: int

record applied_cursor =
  ac_generation :: nat
  ac_epoch :: "int option"
  ac_applied :: "int option"
  ac_ackSent :: int
  ac_invalid :: bool
  ac_pending :: "int list"
  ac_maxPending :: int

definition validSeq :: "int \<Rightarrow> bool \<Rightarrow> bool" where
  "validSeq v allowZero \<longleftrightarrow> isSafeInteger v \<and> (if allowZero then 0 \<le> v else 0 < v)"

definition new_cursor :: "int \<Rightarrow> applied_cursor option" where
  "new_cursor maxPending =
     (if \<not> isSafeInteger maxPending \<or> maxPending < 1 then None
      else Some \<lparr>ac_generation = 0, ac_epoch = None, ac_applied = None, ac_ackSent = 0, ac_invalid = False,
        ac_pending = [], ac_maxPending = maxPending\<rparr>)"

definition reset_cursor :: "applied_cursor \<Rightarrow> applied_cursor" where
  "reset_cursor s = s\<lparr>ac_generation := Suc (ac_generation s), ac_epoch := None, ac_applied := None,
     ac_ackSent := 0, ac_invalid := False, ac_pending := []\<rparr>"

definition beginFromVerifiedBaseline :: "verified_baseline \<Rightarrow> applied_cursor \<Rightarrow> cursor_binding option \<times> applied_cursor" where
  "beginFromVerifiedBaseline baseline s =
     (let s1 = reset_cursor s
      in if \<not> validSeq (vb_streamEpoch baseline) False \<or> \<not> validSeq (vb_appliedThrough baseline) True
         then (None, s1)
         else (Some \<lparr>cb_generation = ac_generation s1, cb_streamEpoch = vb_streamEpoch baseline\<rparr>,
               s1\<lparr>ac_epoch := Some (vb_streamEpoch baseline), ac_applied := Some (vb_appliedThrough baseline)\<rparr>))"

definition active_binding :: "cursor_binding \<Rightarrow> applied_cursor \<Rightarrow> bool" where
  "active_binding b s \<longleftrightarrow> \<not> ac_invalid s \<and> ac_epoch s \<noteq> None \<and> ac_applied s \<noteq> None
     \<and> cb_generation b = ac_generation s \<and> Some (cb_streamEpoch b) = ac_epoch s"

definition invalidate_cursor :: "applied_cursor \<Rightarrow> applied_cursor" where
  "invalidate_cursor s = s\<lparr>ac_invalid := True, ac_pending := []\<rparr>"

definition snapshot :: "cursor_binding \<Rightarrow> applied_cursor \<Rightarrow> cursor_snapshot option" where
  "snapshot b s =
     (if \<not> active_binding b s then None
      else Some \<lparr>cs_streamEpoch = the (ac_epoch s), cs_generation = ac_generation s,
             cs_appliedSeq = the (ac_applied s), cs_ackSentSeq = ac_ackSent s\<rparr>)"

text \<open>The loop over buffered positions; every pass removes one from the set.\<close>

function absorb :: "int \<Rightarrow> int list \<Rightarrow> int \<times> int list" where
  "absorb applied pending =
     (if applied + 1 \<in> set pending then absorb (applied + 1) (removeAll (applied + 1) pending)
      else (applied, pending))"
  by pat_completeness auto
termination
  by (relation "measure (\<lambda>(a, p). length p)") (auto simp: length_removeAll_less)

declare absorb.simps [simp del]

definition recordParsed :: "cursor_binding \<Rightarrow> position \<Rightarrow> applied_cursor \<Rightarrow> parse_outcome \<times> applied_cursor" where
  "recordParsed b p s =
     (if \<not> active_binding b s then (StaleBinding, s)
      else if \<not> validSeq (pos_epoch p) False \<or> \<not> validSeq (pos_seq p) False \<or> Some (pos_epoch p) \<noteq> ac_epoch s
      then (InvalidPosition, invalidate_cursor s)
      else
        let seq = pos_seq p; applied = the (ac_applied s)
        in if seq \<le> applied \<or> seq \<in> set (ac_pending s) then (DuplicateParse, s)
           else if seq = applied + 1
           then let (applied', pending') = absorb seq (ac_pending s)
                in (Advanced, s\<lparr>ac_applied := Some applied', ac_pending := pending'\<rparr>)
           else if ac_maxPending s \<le> int (length (ac_pending s)) then (InvalidPosition, invalidate_cursor s)
           else (Buffered, s\<lparr>ac_pending := set_add seq (ac_pending s)\<rparr>))"

definition recordAckSubmitted :: "cursor_binding \<Rightarrow> int \<Rightarrow> applied_cursor \<Rightarrow> bool \<times> applied_cursor" where
  "recordAckSubmitted b seq s =
     (if \<not> active_binding b s \<or> \<not> validSeq seq True \<or> the (ac_applied s) < seq \<or> seq < ac_ackSent s
      then (False, s) else (True, s\<lparr>ac_ackSent := seq\<rparr>))"

datatype cursor_event =
    CReset
  | CBegin verified_baseline
  | CParsed cursor_binding position
  | CAck cursor_binding int

fun cursor_step :: "applied_cursor \<Rightarrow> cursor_event \<Rightarrow> applied_cursor" where
  "cursor_step s CReset = reset_cursor s"
| "cursor_step s (CBegin baseline) = snd (beginFromVerifiedBaseline baseline s)"
| "cursor_step s (CParsed b p) = snd (recordParsed b p s)"
| "cursor_step s (CAck b seq) = snd (recordAckSubmitted b seq s)"

section \<open>Invariant\<close>

lemma absorb_result:
  "absorb a p = (a', p') \<Longrightarrow> a \<le> a' \<and> {a + 1..a'} \<subseteq> set p \<and> a' + 1 \<notin> set p
     \<and> set p' = set p - {a + 1..a'} \<and> length p' \<le> length p \<and> (distinct p \<longrightarrow> distinct p')"
proof (induction a p rule: absorb.induct)
  case (1 a p)
  show ?case
  proof (cases "a + 1 \<in> set p")
    case True
    with 1(2) have "absorb (a + 1) (removeAll (a + 1) p) = (a', p')" by (simp add: absorb.simps [of a p])
    note IH = 1(1) [OF True this]
    have "{a + 1..a'} = insert (a + 1) {a + 1 + 1..a'}" using IH by auto
    moreover have "length (removeAll (a + 1) p) \<le> length p" by (simp add: removeAll_filter_not_eq)
    then have "length p' \<le> length p" using IH by linarith
    ultimately show ?thesis using IH True by (auto simp: distinct_removeAll)
  next
    case False
    with 1(2) show ?thesis by (auto simp: absorb.simps [of a p])
  qed
qed

definition cursor_inv :: "applied_cursor \<Rightarrow> bool" where
  "cursor_inv s \<longleftrightarrow> int (length (ac_pending s)) \<le> ac_maxPending s \<and> 1 \<le> ac_maxPending s \<and> distinct (ac_pending s)
     \<and> 0 \<le> ac_ackSent s
     \<and> (case ac_applied s of
          None \<Rightarrow> ac_pending s = [] \<and> ac_ackSent s = 0
        | Some a \<Rightarrow> ac_ackSent s \<le> a \<and> (\<forall>q \<in> set (ac_pending s). a + 1 < q))"

lemma cursor_inv_new: "new_cursor m = Some s \<Longrightarrow> cursor_inv s"
  by (auto simp: new_cursor_def cursor_inv_def split: if_splits)

lemma cursor_inv_parsed: "cursor_inv s \<Longrightarrow> cursor_inv (snd (recordParsed b p s))"
proof -
  assume inv: "cursor_inv s"
  show ?thesis
  proof (cases "active_binding b s")
    case False
    with inv show ?thesis by (simp add: recordParsed_def)
  next
    case True
    then obtain a where a: "ac_applied s = Some a" by (auto simp: active_binding_def)
    have "cursor_inv (invalidate_cursor s)" using inv a by (simp add: cursor_inv_def invalidate_cursor_def)
    moreover have "cursor_inv (s\<lparr>ac_applied := Some (fst (absorb (a + 1) (ac_pending s))),
        ac_pending := snd (absorb (a + 1) (ac_pending s))\<rparr>)"
    proof -
      obtain a' p' where ab: "absorb (a + 1) (ac_pending s) = (a', p')" by fastforce
      note r = absorb_result [OF ab]
      have "\<forall>q \<in> set p'. a' + 1 < q"
      proof
        fix q assume q: "q \<in> set p'"
        then have "q \<in> set (ac_pending s)" "q \<notin> {a + 1 + 1..a'}" using r by auto
        moreover from this have "a + 1 < q" "q \<noteq> a' + 1" using inv a r by (auto simp: cursor_inv_def)
        ultimately show "a' + 1 < q" by auto
      qed
      then show ?thesis using inv a r ab by (simp add: cursor_inv_def)
    qed
    moreover have "cursor_inv (s\<lparr>ac_pending := set_add q (ac_pending s)\<rparr>)"
      if "a < q" "q \<noteq> a + 1" "int (length (ac_pending s)) < ac_maxPending s" for q
      using inv a that by (auto simp: cursor_inv_def set_add_def)
    ultimately show ?thesis
      using inv True a by (auto simp: recordParsed_def Let_def split_def)
  qed
qed

lemma cursor_inv_step: "cursor_inv s \<Longrightarrow> cursor_inv (cursor_step s e)"
proof (cases e)
  case (CBegin b)
  assume "cursor_inv s"
  with CBegin show ?thesis
    by (auto simp: beginFromVerifiedBaseline_def Let_def reset_cursor_def cursor_inv_def validSeq_def)
next
  case (CAck b q)
  assume inv: "cursor_inv s"
  show ?thesis
  proof (cases "fst (recordAckSubmitted b q s)")
    case True
    then obtain a where "ac_applied s = Some a" "0 \<le> q" "q \<le> a"
      by (auto simp: recordAckSubmitted_def active_binding_def validSeq_def split: if_splits)
    with inv True CAck show ?thesis
      by (simp add: recordAckSubmitted_def cursor_inv_def split: if_splits)
  next
    case False
    then have "cursor_step s e = s" using CAck by (auto simp: recordAckSubmitted_def split: if_splits)
    with inv show ?thesis by simp
  qed
next
  case CReset
  assume "cursor_inv s"
  with CReset show ?thesis by (simp add: reset_cursor_def cursor_inv_def)
qed (simp add: cursor_inv_parsed)

lemma parsed_advance:
  "ac_generation (snd (recordParsed b p s)) = ac_generation s
   \<and> (\<forall>a. ac_applied s = Some a \<longrightarrow> (\<exists>a' \<ge> a. ac_applied (snd (recordParsed b p s)) = Some a'))"
proof -
  have "\<exists>a' \<ge> a. fst (absorb q ps) = a'" if "q = a + 1" for a q ps
    using that absorb_result [of q ps "fst (absorb q ps)" "snd (absorb q ps)"] by auto
  then show ?thesis
    by (auto simp: recordParsed_def Let_def split_def invalidate_cursor_def)
qed

lemma step_generation [simp]:
  "ac_generation (reset_cursor s) = Suc (ac_generation s)"
  "ac_generation (snd (beginFromVerifiedBaseline baseline s)) = Suc (ac_generation s)"
  "ac_generation (snd (recordAckSubmitted b q s)) = ac_generation s"
  "ac_applied (snd (recordAckSubmitted b q s)) = ac_applied s"
  by (simp_all add: reset_cursor_def beginFromVerifiedBaseline_def Let_def recordAckSubmitted_def)

interpretation applied: frontier_machine cursor_step cursor_inv ac_generation ac_applied
proof
  fix s e n
  assume "cursor_inv s"
  then show "cursor_inv (cursor_step s e)" by (rule cursor_inv_step)
  show "ac_generation s \<le> ac_generation (cursor_step s e)"
    using parsed_advance by (cases e) auto
  assume "ac_generation (cursor_step s e) = ac_generation s" and "ac_applied s = Some n"
  then show "\<exists>m \<ge> n. ac_applied (cursor_step s e) = Some m"
    using parsed_advance by (cases e) auto
qed

section \<open>Properties\<close>

text \<open>
  What a cursor stands for: with baseline \<open>n\<close> and the set \<open>P\<close> of positions parsed so far, it is the
  end of the contiguous run of parsed positions above the baseline, and the buffered positions are
  the parsed ones beyond it.
\<close>

definition stands_for :: "int \<Rightarrow> int set \<Rightarrow> applied_cursor \<Rightarrow> bool" where
  "stands_for n P s \<longleftrightarrow> (\<exists>a. ac_applied s = Some a \<and> n \<le> a \<and> {n + 1..a} \<subseteq> P \<and> a + 1 \<notin> P
     \<and> set (ac_pending s) = {q \<in> P. a < q})"

lemma stands_for_parsed:
  assumes "stands_for n P s" and "active_binding b s" and "active_binding b (snd (recordParsed b p s))"
  shows "stands_for n (insert (pos_seq p) P) (snd (recordParsed b p s))"
proof -
  obtain a where a: "ac_applied s = Some a" "n \<le> a" "{n + 1..a} \<subseteq> P" "a + 1 \<notin> P"
    "set (ac_pending s) = {q \<in> P. a < q}" using assms(1) by (auto simp: stands_for_def)
  let ?q = "pos_seq p"
  have notinv: "\<not> active_binding b (invalidate_cursor s)" by (simp add: active_binding_def invalidate_cursor_def)
  have valid: "\<not> (\<not> validSeq (pos_epoch p) False \<or> \<not> validSeq ?q False \<or> Some (pos_epoch p) \<noteq> ac_epoch s)"
  proof
    assume "\<not> validSeq (pos_epoch p) False \<or> \<not> validSeq ?q False \<or> Some (pos_epoch p) \<noteq> ac_epoch s"
    then have "snd (recordParsed b p s) = invalidate_cursor s" using assms(2) by (simp add: recordParsed_def)
    with assms(3) notinv show False by simp
  qed
  consider "?q \<le> a \<or> ?q \<in> set (ac_pending s)" | "?q = a + 1" | "a + 1 < ?q" "?q \<notin> set (ac_pending s)" by linarith
  then show ?thesis
  proof cases
    case 1
    then have "snd (recordParsed b p s) = s" using assms(2) valid a by (simp add: recordParsed_def)
    moreover have "stands_for n (insert ?q P) s"
      using 1 a unfolding stands_for_def by auto
    ultimately show ?thesis by simp
  next
    case 2
    obtain a' p' where ab: "absorb ?q (ac_pending s) = (a', p')" by fastforce
    note r = absorb_result [OF ab]
    have "?q \<notin> set (ac_pending s)" using 2 a by auto
    then have eq: "snd (recordParsed b p s) = s\<lparr>ac_applied := Some a', ac_pending := p'\<rparr>"
      using assms(2) valid a 2 ab by (simp add: recordParsed_def)
    have "{n + 1..a'} \<subseteq> insert ?q P"
    proof
      fix x assume "x \<in> {n + 1..a'}"
      then consider "x \<in> {n + 1..a}" | "x = ?q" | "x \<in> {?q + 1..a'}" using 2 by fastforce
      then show "x \<in> insert ?q P" using a r by cases auto
    qed
    moreover have "a' + 1 \<notin> insert ?q P" using r a 2 by auto
    moreover have "set p' = {q \<in> insert ?q P. a' < q}"
    proof
      show "set p' \<subseteq> {q \<in> insert ?q P. a' < q}"
      proof
        fix x assume "x \<in> set p'"
        then have "x \<in> P" "a < x" "x \<notin> {?q + 1..a'}" using r a by auto
        moreover have "x \<noteq> ?q" using \<open>x \<in> P\<close> 2 a by auto
        ultimately show "x \<in> {q \<in> insert ?q P. a' < q}" using 2 by auto
      qed
      show "{q \<in> insert ?q P. a' < q} \<subseteq> set p'" using r a 2 by auto
    qed
    ultimately show ?thesis unfolding stands_for_def eq using r a 2 by auto
  next
    case 3
    have "snd (recordParsed b p s) = s\<lparr>ac_pending := set_add ?q (ac_pending s)\<rparr>"
      using assms(2,3) valid a 3 notinv by (auto simp: recordParsed_def Let_def split: if_splits)
    then show ?thesis using a 3 by (auto simp: stands_for_def)
  qed
qed

lemma inactive_stays:
  "\<not> active_binding b s \<Longrightarrow> cb_generation b \<le> ac_generation s \<Longrightarrow>
     cb_generation b \<le> ac_generation (cursor_step s e) \<and> \<not> active_binding b (cursor_step s e)"
proof (cases e)
  case (CParsed b' p)
  assume na: "\<not> active_binding b s" and "cb_generation b \<le> ac_generation s"
  have "active_binding b (snd (recordParsed b' p s)) \<Longrightarrow> active_binding b s"
    by (auto simp: recordParsed_def Let_def split_def invalidate_cursor_def active_binding_def split: if_splits)
  then show ?thesis using na CParsed parsed_advance [of b' p s] \<open>cb_generation b \<le> _\<close> by auto
qed (auto simp: active_binding_def reset_cursor_def beginFromVerifiedBaseline_def recordAckSubmitted_def Let_def)

lemma run_inactive:
  "\<not> active_binding b s \<Longrightarrow> cb_generation b \<le> ac_generation s \<Longrightarrow> \<not> active_binding b (foldl cursor_step s es)"
proof (induction es arbitrary: s)
  case (Cons e es)
  then show ?case using inactive_stays [of b s e] by simp
qed simp

lemma stands_for_run:
  "stands_for n P s \<Longrightarrow> cb_generation b \<le> ac_generation s \<Longrightarrow>
   active_binding b (foldl cursor_step s (map (CParsed b) ps)) \<Longrightarrow>
   stands_for n (P \<union> pos_seq ` set ps) (foldl cursor_step s (map (CParsed b) ps))"
proof (induction ps arbitrary: P s)
  case (Cons p ps)
  let ?t = "snd (recordParsed b p s)"
  have "active_binding b s" "active_binding b ?t"
    using Cons.prems run_inactive [of b s "map (CParsed b) (p # ps)"]
      run_inactive [of b ?t "map (CParsed b) ps"] parsed_advance [of b p s] by auto
  then have "stands_for n (insert (pos_seq p) P) ?t" using Cons.prems(1) stands_for_parsed by blast
  from Cons.IH [OF this] Cons.prems parsed_advance [of b p s] show ?case by simp
qed simp

text \<open>
  C7. The applied cursor is a fact about the set of parsed events, whatever order their callbacks come
  in: starting from a verified baseline, as long as the binding has not been invalidated, the cursor is
  the last position such that everything between the baseline and it has been parsed.
\<close>

theorem applied_cursor_is_contiguous_prefix:
  assumes "beginFromVerifiedBaseline baseline s = (Some b, s')"
    and "snapshot b (foldl cursor_step s' (map (CParsed b) ps)) = Some snap"
  shows "vb_appliedThrough baseline \<le> cs_appliedSeq snap
    \<and> {vb_appliedThrough baseline + 1..cs_appliedSeq snap} \<subseteq> pos_seq ` set ps
    \<and> cs_appliedSeq snap + 1 \<notin> pos_seq ` set ps"
proof -
  have "stands_for (vb_appliedThrough baseline) {} s'" "cb_generation b \<le> ac_generation s'"
    using assms(1) by (auto simp: beginFromVerifiedBaseline_def Let_def stands_for_def reset_cursor_def split: if_splits)
  moreover have "active_binding b (foldl cursor_step s' (map (CParsed b) ps))"
    using assms(2) by (simp add: snapshot_def split: if_splits)
  ultimately have "stands_for (vb_appliedThrough baseline) ({} \<union> pos_seq ` set ps) (foldl cursor_step s' (map (CParsed b) ps))"
    by (rule stands_for_run)
  then show ?thesis using assms(2) by (auto simp: stands_for_def snapshot_def split: if_splits)
qed

theorem applied_cursor_is_contiguous_prefix_witness:
  "4 \<le> (7::int) \<and> {4 + 1..7} \<subseteq> pos_seq ` set (map (\<lambda>q. \<lparr>pos_epoch = 2, pos_seq = q\<rparr>) [6, 9, 5, 7])
    \<and> (7::int) + 1 \<notin> pos_seq ` set (map (\<lambda>q. \<lparr>pos_epoch = 2, pos_seq = q\<rparr>) [6, 9, 5, 7])"
proof -
  let ?s = "the (new_cursor 8)"
  let ?b = "\<lparr>cb_generation = 1, cb_streamEpoch = 2\<rparr>"
  let ?base = "\<lparr>vb_streamEpoch = 2, vb_appliedThrough = 4\<rparr>"
  let ?ps = "map (\<lambda>q. \<lparr>pos_epoch = 2, pos_seq = q\<rparr>) [6, 9, 5, 7]"
  have "beginFromVerifiedBaseline ?base ?s = (Some ?b, snd (beginFromVerifiedBaseline ?base ?s))" by code_simp
  moreover have "snapshot ?b (foldl cursor_step (snd (beginFromVerifiedBaseline ?base ?s)) (map (CParsed ?b) ?ps))
      = Some \<lparr>cs_streamEpoch = 2, cs_generation = 1, cs_appliedSeq = 7, cs_ackSentSeq = 0\<rparr>" by code_simp
  ultimately show ?thesis using applied_cursor_is_contiguous_prefix [of ?base ?s ?b _ ?ps] by fastforce
qed

text \<open>
  Acknowledgements never run ahead of what was parsed and never go back: over any events of any
  bindings, the acknowledged position stays at or below the applied one and the buffer within its limit;
  and while the generation is unchanged the applied position does not move back.
\<close>

lemma acknowledged_within_applied:
  assumes "new_cursor m = Some r" and "s = foldl cursor_step r es" and "t = foldl cursor_step s es'"
    and "ac_generation t = ac_generation s" and "ac_applied s = Some a"
  shows "\<exists>a'. ac_applied t = Some a' \<and> a \<le> a' \<and> 0 \<le> ac_ackSent t \<and> ac_ackSent t \<le> a'
    \<and> int (length (ac_pending t)) \<le> ac_maxPending t"
proof -
  have inv: "cursor_inv s" using assms(1,2) cursor_inv_new applied.run_inv by blast
  then have "cursor_inv t" using assms(3) applied.run_inv by blast
  moreover obtain a' where "a \<le> a'" "ac_applied t = Some a'"
    using applied.run_pos [OF inv] assms(3-5) by blast
  ultimately show ?thesis by (auto simp: cursor_inv_def)
qed

text \<open>
  A retired binding is inert: after a reset or a new baseline, valid or not, every callback that
  carries a binding of an earlier generation reports it as stale and changes nothing, and its snapshot
  is gone.
\<close>

lemma retired_binding_inert:
  assumes "cb_generation b \<le> ac_generation s" and "e = CReset \<or> e = CBegin baseline"
    and "t = foldl cursor_step (cursor_step s e) es"
  shows "recordParsed b p t = (StaleBinding, t) \<and> recordAckSubmitted b q t = (False, t) \<and> snapshot b t = None"
proof -
  have "cb_generation b < ac_generation (cursor_step s e)"
    using assms(1,2) by (auto simp: reset_cursor_def beginFromVerifiedBaseline_def Let_def)
  then have "\<not> active_binding b t"
    unfolding assms(3) by (intro run_inactive) (auto simp: active_binding_def)
  then show ?thesis by (simp add: recordParsed_def recordAckSubmitted_def snapshot_def)
qed

end
