(* ===== verification/Terminal_Writer.thy ===== *)
theory Terminal_Writer
  imports Nession_Prelude
begin

text \<open>
  The FIFO in front of one terminal emulator
  (\<^verbatim>\<open>web/src/platform/terminal-runtime/controller/SerializedTerminalWriter.ts\<close>).

  \<open>wr_log\<close> collects what the writer does to the outside: calls of the terminal's \<open>write\<close> and \<open>resize\<close>,
  the callers' callbacks (named by a number), and \<open>onDegraded\<close>. The emulator is a parameter: \<open>sync n\<close>
  says whether it calls the parser callback of its \<open>n\<close>-th write before \<open>write\<close> returns; otherwise the
  callback is outstanding and arrives later as an event, at most once. A timer is named by the write
  that armed it. Callbacks neither throw nor call the writer back.
\<close>

section \<open>Model\<close>

datatype write_data = TextData jsstring | BytesData bytes

datatype write_operation =
    WriteOp (op_data: write_data) (op_callback: "nat option") (op_origin: string) (op_bytes: int)
  | ResizeOp (op_cols: int) (op_rows: int) (op_callback: "nat option") (op_bytes: int)

datatype degrade_reason = Overflow | ParserStalled

datatype writer_call =
    TerminalWrite nat write_data string
  | TerminalResize int int
  | Callback nat
  | Degraded degrade_reason

record writer_limits =
  wl_maxBytes :: int
  wl_maxEvents :: int
  wl_maxParseMs :: int

definition DEFAULT_WRITER_LIMITS :: writer_limits where
  "DEFAULT_WRITER_LIMITS = \<lparr>wl_maxBytes = 4 * 1024 * 1024, wl_maxEvents = 4096, wl_maxParseMs = 30000\<rparr>"

definition RESIZE_BYTES :: int where "RESIZE_BYTES = 128"

fun writeBytes :: "write_data \<Rightarrow> int" where
  "writeBytes (TextData s) = int (length s) * 2 + 128"
| "writeBytes (BytesData bs) = int (length bs) + 128"

record writer =
  wr_operations :: "write_operation list"
  wr_limits :: writer_limits
  wr_parsePending :: bool
  wr_disposed :: bool
  wr_halted :: bool
  wr_pendingBytes :: int
  wr_activeBytes :: int
  wr_deadline :: "nat option"
  wr_lastResize :: "(int \<times> int) option"
  wr_outstanding :: "(nat \<times> write_operation) option"
  wr_writes :: nat
  wr_log :: "writer_call list"

definition positive_limit :: "int \<Rightarrow> bool" where
  "positive_limit v \<longleftrightarrow> isSafeInteger v \<and> 1 \<le> v"

definition new_writer :: "writer_limits \<Rightarrow> writer option" where
  "new_writer limits =
     (if \<not> positive_limit (wl_maxBytes limits) \<or> \<not> positive_limit (wl_maxEvents limits)
        \<or> \<not> positive_limit (wl_maxParseMs limits) then None
      else Some \<lparr>wr_operations = [], wr_limits = limits, wr_parsePending = False, wr_disposed = False,
        wr_halted = False, wr_pendingBytes = 0, wr_activeBytes = 0, wr_deadline = None, wr_lastResize = None,
        wr_outstanding = None, wr_writes = 0, wr_log = []\<rparr>)"

definition pendingUsage_of :: "writer \<Rightarrow> int \<times> int \<times> bool" where
  "pendingUsage_of w = (wr_pendingBytes w, int (length (wr_operations w)) + of_bool (wr_parsePending w), wr_halted w)"

definition log_call :: "writer_call \<Rightarrow> writer \<Rightarrow> writer" where
  "log_call c w = w\<lparr>wr_log := wr_log w @ [c]\<rparr>"

definition run_callback :: "nat option \<Rightarrow> writer \<Rightarrow> writer" where
  "run_callback cb w = (case cb of None \<Rightarrow> w | Some n \<Rightarrow> log_call (Callback n) w)"

definition degrade :: "degrade_reason \<Rightarrow> writer \<Rightarrow> writer" where
  "degrade reason w =
     (if wr_disposed w \<or> wr_halted w then w
      else log_call (Degraded reason)
        (w\<lparr>wr_halted := True, wr_operations := [], wr_pendingBytes := wr_activeBytes w, wr_deadline := None\<rparr>))"

text \<open>The body of the parser callback, up to its \<open>drain\<close>; the flag says whether \<open>drain\<close> is reached.\<close>

definition on_parsed :: "write_operation \<Rightarrow> writer \<Rightarrow> bool \<times> writer" where
  "on_parsed item w =
     (if wr_disposed w then (False, w)
      else if wr_halted w
      then (False, w\<lparr>wr_parsePending := False, wr_activeBytes := 0, wr_pendingBytes := 0\<rparr>)
      else (True, run_callback (op_callback item)
        (w\<lparr>wr_deadline := None, wr_parsePending := False, wr_activeBytes := 0,
           wr_pendingBytes := wr_pendingBytes w - op_bytes item\<rparr>)))"

definition apply_resize :: "int \<Rightarrow> int \<Rightarrow> writer \<Rightarrow> writer" where
  "apply_resize cols rows w =
     (if wr_lastResize w \<noteq> Some (cols, rows)
      then (log_call (TerminalResize cols rows) w)\<lparr>wr_lastResize := Some (cols, rows)\<rparr> else w)"

definition start_write :: "write_operation \<Rightarrow> writer \<Rightarrow> writer" where
  "start_write item w =
     (log_call (TerminalWrite (wr_writes w) (op_data item) (op_origin item))
       (w\<lparr>wr_parsePending := True, wr_activeBytes := op_bytes item, wr_deadline := Some (wr_writes w),
          wr_outstanding := Some (wr_writes w, item), wr_writes := Suc (wr_writes w)\<rparr>))"

lemma writer_operations [simp]:
  "wr_operations (log_call c w) = wr_operations w" "wr_operations (run_callback cb w) = wr_operations w"
  "wr_operations (apply_resize cs rs w) = wr_operations w" "wr_operations (start_write item w) = wr_operations w"
  "wr_operations (snd (on_parsed item w)) = wr_operations w"
  by (simp_all add: log_call_def run_callback_def apply_resize_def start_write_def on_parsed_def split: option.split)

text \<open>
  The loop of \<open>drain\<close>. A callback that comes synchronously finds \<open>draining\<close> set, so its own \<open>drain\<close> is
  a no-op and the loop goes on.
\<close>

function drain_writer :: "(nat \<Rightarrow> bool) \<Rightarrow> writer \<Rightarrow> writer" where
  "drain_writer sync w =
     (if wr_disposed w \<or> wr_halted w \<or> wr_parsePending w then w
      else case wr_operations w of
        [] \<Rightarrow> w
      | item # rest \<Rightarrow>
          let w1 = w\<lparr>wr_operations := rest\<rparr>
          in case item of
               ResizeOp cols rows cb bytes \<Rightarrow>
                 drain_writer sync (run_callback cb (apply_resize cols rows
                   (w1\<lparr>wr_pendingBytes := wr_pendingBytes w1 - bytes\<rparr>)))
             | WriteOp _ _ _ _ \<Rightarrow>
                 let w2 = start_write item w1
                 in if sync (wr_writes w) then drain_writer sync (snd (on_parsed item (w2\<lparr>wr_outstanding := None\<rparr>)))
                    else drain_writer sync w2)"
  by pat_completeness auto
termination
  by (relation "measure (\<lambda>(_, w). length (wr_operations w))") simp_all

declare drain_writer.simps [simp del]

definition enqueue :: "(nat \<Rightarrow> bool) \<Rightarrow> write_operation \<Rightarrow> writer \<Rightarrow> writer" where
  "enqueue sync item w =
     (if wr_disposed w \<or> wr_halted w then w
      else if wl_maxEvents (wr_limits w) \<le> int (length (wr_operations w)) + of_bool (wr_parsePending w)
        \<or> wl_maxBytes (wr_limits w) < wr_pendingBytes w + op_bytes item
      then degrade Overflow w
      else drain_writer sync (w\<lparr>wr_operations := wr_operations w @ [item],
             wr_pendingBytes := wr_pendingBytes w + op_bytes item\<rparr>))"

definition write_terminal :: "(nat \<Rightarrow> bool) \<Rightarrow> write_data \<Rightarrow> nat option \<Rightarrow> string \<Rightarrow> writer \<Rightarrow> writer" where
  "write_terminal sync data onParsed origin = enqueue sync (WriteOp data onParsed origin (writeBytes data))"

definition resize_terminal :: "(nat \<Rightarrow> bool) \<Rightarrow> int \<Rightarrow> int \<Rightarrow> nat option \<Rightarrow> writer \<Rightarrow> writer" where
  "resize_terminal sync cols rows onApplied = enqueue sync (ResizeOp cols rows onApplied RESIZE_BYTES)"

definition dispose_writer :: "writer \<Rightarrow> writer" where
  "dispose_writer w = w\<lparr>wr_disposed := True, wr_halted := True, wr_operations := [], wr_pendingBytes := 0,
     wr_activeBytes := 0, wr_deadline := None\<rparr>"

definition parser_callback :: "(nat \<Rightarrow> bool) \<Rightarrow> nat \<Rightarrow> writer \<Rightarrow> writer" where
  "parser_callback sync n w =
     (case wr_outstanding w of
        Some (m, item) \<Rightarrow>
          if m = n then
            let (again, w1) = on_parsed item (w\<lparr>wr_outstanding := None\<rparr>)
            in if again then drain_writer sync w1 else w1
          else w
      | None \<Rightarrow> w)"

definition parse_deadline :: "nat \<Rightarrow> writer \<Rightarrow> writer" where
  "parse_deadline n w = (if wr_deadline w = Some n then degrade ParserStalled w else w)"

datatype writer_event =
    WriteEvent write_data "nat option" string
  | ResizeEvent int int "nat option"
  | ParserCallback nat
  | ParseDeadline nat
  | DisposeWriter

fun writer_step :: "(nat \<Rightarrow> bool) \<Rightarrow> writer \<Rightarrow> writer_event \<Rightarrow> writer" where
  "writer_step sync w (WriteEvent data cb origin) = write_terminal sync data cb origin w"
| "writer_step sync w (ResizeEvent cols rows cb) = resize_terminal sync cols rows cb w"
| "writer_step sync w (ParserCallback n) = parser_callback sync n w"
| "writer_step sync w (ParseDeadline n) = parse_deadline n w"
| "writer_step sync w DisposeWriter = dispose_writer w"

section \<open>Specification: performing the operations one after the other\<close>

text \<open>
  The reference executes each operation to its end before the next: a write is parsed and its
  callback run, a resize that repeats the last grid is skipped but its callback still runs.
\<close>

definition callback_of :: "nat option \<Rightarrow> writer_call list" where
  "callback_of cb = (case cb of None \<Rightarrow> [] | Some n \<Rightarrow> [Callback n])"

fun in_sequence :: "nat \<Rightarrow> (int \<times> int) option \<Rightarrow> write_operation list \<Rightarrow> writer_call list" where
  "in_sequence n grid [] = []"
| "in_sequence n grid (WriteOp data cb origin _ # ops) =
     TerminalWrite n data origin # callback_of cb @ in_sequence (Suc n) grid ops"
| "in_sequence n grid (ResizeOp cols rows cb _ # ops) =
     (if grid \<noteq> Some (cols, rows) then [TerminalResize cols rows] else [])
       @ callback_of cb @ in_sequence n (Some (cols, rows)) ops"

text \<open>
  What remains to be done in a state: the callback of the write being parsed, then the queue,
  followed by further operations.
\<close>

definition remaining :: "write_operation list \<Rightarrow> writer \<Rightarrow> writer_call list" where
  "remaining later w = (case wr_outstanding w of None \<Rightarrow> [] | Some (_, item) \<Rightarrow> callback_of (op_callback item))
     @ in_sequence (wr_writes w) (wr_lastResize w) (wr_operations w @ later)"

definition accepts :: "write_operation \<Rightarrow> writer \<Rightarrow> bool" where
  "accepts item w \<longleftrightarrow> \<not> wr_disposed w \<and> \<not> wr_halted w
     \<and> int (length (wr_operations w)) + of_bool (wr_parsePending w) < wl_maxEvents (wr_limits w)
     \<and> wr_pendingBytes w + op_bytes item \<le> wl_maxBytes (wr_limits w)"

fun operation_of :: "writer_event \<Rightarrow> write_operation option" where
  "operation_of (WriteEvent data cb origin) = Some (WriteOp data cb origin (writeBytes data))"
| "operation_of (ResizeEvent cols rows cb) = Some (ResizeOp cols rows cb RESIZE_BYTES)"
| "operation_of _ = None"

fun accepted_run :: "(nat \<Rightarrow> bool) \<Rightarrow> writer \<Rightarrow> writer_event list \<Rightarrow> write_operation list" where
  "accepted_run sync w [] = []"
| "accepted_run sync w (e # es) =
     (case operation_of e of None \<Rightarrow> [] | Some item \<Rightarrow> if accepts item w then [item] else [])
       @ accepted_run sync (writer_step sync w e) es"

section \<open>Invariant\<close>

text \<open>
  While the writer runs, bytes are accounted, the parser is pending exactly when a write is
  outstanding, a pending write has its deadline armed, and an idle parser means an empty queue once
  \<open>drain\<close> has returned (\<open>idle\<close>).
\<close>

definition op_ok :: "write_operation \<Rightarrow> bool" where
  "op_ok item \<longleftrightarrow> 0 \<le> op_bytes item"

definition running :: "writer \<Rightarrow> bool" where
  "running w \<longleftrightarrow> \<not> wr_disposed w \<and> \<not> wr_halted w"

definition writer_core :: "writer \<Rightarrow> bool" where
  "writer_core w \<longleftrightarrow> (\<forall>item \<in> set (wr_operations w). op_ok item)
     \<and> (running w \<longrightarrow>
          wr_parsePending w = (wr_outstanding w \<noteq> None)
          \<and> wr_pendingBytes w = wr_activeBytes w + (\<Sum>item\<leftarrow>wr_operations w. op_bytes item)
          \<and> (case wr_outstanding w of
               None \<Rightarrow> wr_activeBytes w = 0 \<and> wr_deadline w = None
             | Some (n, item) \<Rightarrow> wr_activeBytes w = op_bytes item \<and> op_ok item \<and> wr_deadline w = Some n
                 \<and> n < wr_writes w \<and> (\<exists>d cb og b. item = WriteOp d cb og b)))
     \<and> (\<not> running w \<longrightarrow> wr_operations w = [] \<and> wr_pendingBytes w = wr_activeBytes w \<and> wr_deadline w = None)"

definition idle_empty :: "writer \<Rightarrow> bool" where
  "idle_empty w \<longleftrightarrow> wr_parsePending w \<or> wr_operations w = []"


text \<open>One pass of the loop, or a whole run of it: nothing is lost, reordered or over-counted.\<close>

definition events_of :: "writer \<Rightarrow> int" where
  "events_of w = int (length (wr_operations w)) + of_bool (wr_parsePending w)"

definition advances_to :: "writer \<Rightarrow> writer \<Rightarrow> bool" where
  "advances_to w v \<longleftrightarrow> writer_core v \<and> running v \<and> wr_limits v = wr_limits w
     \<and> prefix (wr_log w) (wr_log v)
     \<and> (\<forall>later. wr_log v @ remaining later v = wr_log w @ remaining later w)
     \<and> wr_pendingBytes v \<le> wr_pendingBytes w \<and> events_of v \<le> events_of w"

lemma advances_to_trans: "advances_to u v \<Longrightarrow> advances_to v w \<Longrightarrow> advances_to u w"
  by (auto simp: advances_to_def)

lemma advances_to_refl: "writer_core w \<Longrightarrow> running w \<Longrightarrow> advances_to w w"
  by (simp add: advances_to_def)

lemma idle_outstanding: "writer_core w \<Longrightarrow> running w \<Longrightarrow> \<not> wr_parsePending w \<Longrightarrow> wr_outstanding w = None"
  by (cases "wr_outstanding w") (simp_all add: writer_core_def)

lemma resize_pass:
  assumes core: "writer_core w" and run: "running w" and idle: "\<not> wr_parsePending w"
    and ops: "wr_operations w = ResizeOp cols rows cb b # rest"
  shows "advances_to w (run_callback cb (apply_resize cols rows
    (w\<lparr>wr_operations := rest, wr_pendingBytes := wr_pendingBytes w - b\<rparr>)))"
proof -
  have out: "wr_outstanding w = None" using core run idle by (rule idle_outstanding)
  have ok: "op_ok (ResizeOp cols rows cb b)" using core ops by (simp add: writer_core_def)
  show ?thesis
    using core run idle ops out ok
    by (cases cb; cases "wr_lastResize w = Some (cols, rows)")
      (auto simp: advances_to_def writer_core_def running_def remaining_def run_callback_def apply_resize_def
        log_call_def callback_of_def events_of_def op_ok_def)
qed

lemma start_pass:
  assumes core: "writer_core w" and run: "running w" and idle: "\<not> wr_parsePending w"
    and ops: "wr_operations w = WriteOp d cb og b # rest"
  shows "advances_to w (start_write (WriteOp d cb og b) (w\<lparr>wr_operations := rest\<rparr>))"
proof -
  have out: "wr_outstanding w = None" using core run idle by (rule idle_outstanding)
  have ok: "op_ok (WriteOp d cb og b)" using core ops by (simp add: writer_core_def)
  show ?thesis
    using core run idle ops out ok
    by (auto simp: advances_to_def writer_core_def running_def remaining_def start_write_def
        log_call_def callback_of_def events_of_def op_ok_def)
qed

lemma parsed_pass:
  assumes core: "writer_core w" and run: "running w" and out: "wr_outstanding w = Some (n, item)"
  shows "advances_to w (snd (on_parsed item (w\<lparr>wr_outstanding := None\<rparr>)))
    \<and> fst (on_parsed item (w\<lparr>wr_outstanding := None\<rparr>))
    \<and> \<not> wr_parsePending (snd (on_parsed item (w\<lparr>wr_outstanding := None\<rparr>)))"
  using core run out
  by (cases "op_callback item")
    (auto simp: advances_to_def writer_core_def running_def remaining_def on_parsed_def run_callback_def
      log_call_def callback_of_def events_of_def op_ok_def)

lemma drain_advances:
  "writer_core w \<Longrightarrow> running w \<Longrightarrow> advances_to w (drain_writer sync w) \<and> idle_empty (drain_writer sync w)"
proof (induction sync w rule: drain_writer.induct)
  case (1 sync w)
  show ?case
  proof (cases "wr_parsePending w \<or> wr_operations w = []")
    case True
    then have "drain_writer sync w = w" by (auto simp: drain_writer.simps [of sync w] split: list.split)
    with True 1(4,5) show ?thesis by (simp add: idle_empty_def advances_to_refl)
  next
    case False
    then obtain item rest where ops: "wr_operations w = item # rest" by (cases "wr_operations w") auto
    have go: "\<not> (wr_disposed w \<or> wr_halted w \<or> wr_parsePending w)" using False 1(5) by (simp add: running_def)
    note core = 1(4) and run = 1(5)
    show ?thesis
    proof (cases item)
      case (ResizeOp cols rows cb b)
      let ?v = "run_callback cb (apply_resize cols rows (w\<lparr>wr_operations := rest, wr_pendingBytes := wr_pendingBytes w - b\<rparr>))"
      have pass: "advances_to w ?v" using resize_pass core run go ops ResizeOp by simp
      have "drain_writer sync w = drain_writer sync ?v"
        using go ops ResizeOp by (simp add: drain_writer.simps [of sync w] Let_def)
      moreover have "advances_to ?v (drain_writer sync ?v) \<and> idle_empty (drain_writer sync ?v)"
        using 1(3) [OF go ops refl ResizeOp] pass by (simp add: advances_to_def)
      ultimately show ?thesis using pass advances_to_trans by metis
    next
      case (WriteOp d cb og b)
      let ?v = "start_write item (w\<lparr>wr_operations := rest\<rparr>)"
      have pass: "advances_to w ?v" using start_pass core run go ops WriteOp by simp
      show ?thesis
      proof (cases "sync (wr_writes w)")
        case True
        let ?u = "snd (on_parsed item (?v\<lparr>wr_outstanding := None\<rparr>))"
        have "wr_outstanding ?v = Some (wr_writes w, item)" by (simp add: start_write_def log_call_def)
        then have pass2: "advances_to ?v ?u" using pass parsed_pass by (simp add: advances_to_def)
        have "drain_writer sync w = drain_writer sync ?u"
          using go ops WriteOp True by (simp add: drain_writer.simps [of sync w] Let_def)
        moreover have "advances_to ?u (drain_writer sync ?u) \<and> idle_empty (drain_writer sync ?u)"
          using 1(1) [OF go ops refl WriteOp] pass2 True WriteOp by (simp add: advances_to_def)
        ultimately show ?thesis using pass pass2 advances_to_trans by metis
      next
        case False
        have "drain_writer sync w = drain_writer sync ?v"
          using go ops WriteOp False by (simp add: drain_writer.simps [of sync w] Let_def)
        moreover have "advances_to ?v (drain_writer sync ?v) \<and> idle_empty (drain_writer sync ?v)"
          using 1(2) [OF go ops refl WriteOp] pass False WriteOp by (simp add: advances_to_def)
        ultimately show ?thesis using pass advances_to_trans by metis
      qed
    qed
  qed
qed

text \<open>The invariant of the events, with the limits.\<close>

definition writer_inv :: "writer \<Rightarrow> bool" where
  "writer_inv w \<longleftrightarrow> writer_core w
     \<and> (running w \<longrightarrow> idle_empty w \<and> wr_pendingBytes w \<le> wl_maxBytes (wr_limits w)
          \<and> events_of w \<le> wl_maxEvents (wr_limits w))"

lemma writer_inv_new: "new_writer limits = Some w \<Longrightarrow> writer_inv w \<and> running w \<and> wr_log w = [] \<and> remaining later w = in_sequence 0 None later"
  by (auto simp: new_writer_def writer_inv_def writer_core_def running_def idle_empty_def events_of_def
      remaining_def positive_limit_def split: if_splits)

lemma writeBytes_nonneg: "0 \<le> writeBytes d"
  by (cases d) simp_all

lemma operation_ok: "operation_of e = Some item \<Longrightarrow> op_ok item"
  by (cases e) (auto simp: op_ok_def writeBytes_nonneg RESIZE_BYTES_def)

lemma enqueue_accepted:
  assumes inv: "writer_inv w" and ok: "op_ok item" and acc: "accepts item w"
  shows "writer_inv (enqueue sync item w) \<and> running (enqueue sync item w)
    \<and> prefix (wr_log w) (wr_log (enqueue sync item w))
    \<and> wr_log (enqueue sync item w) @ remaining later (enqueue sync item w) = wr_log w @ remaining (item # later) w"
proof -
  let ?v = "w\<lparr>wr_operations := wr_operations w @ [item], wr_pendingBytes := wr_pendingBytes w + op_bytes item\<rparr>"
  have run: "running w" using acc by (simp add: accepts_def running_def)
  then have core: "writer_core ?v" and runv: "running ?v"
    using inv ok by (cases "wr_outstanding w"; auto simp: writer_inv_def writer_core_def running_def split_def)+
  have "enqueue sync item w = drain_writer sync ?v"
    using acc by (auto simp: enqueue_def accepts_def)
  moreover have "events_of ?v \<le> wl_maxEvents (wr_limits w)" "wr_pendingBytes ?v \<le> wl_maxBytes (wr_limits w)"
    using acc by (simp_all add: events_of_def accepts_def)
  moreover have "remaining later ?v = remaining (item # later) w"
    by (simp add: remaining_def)
  ultimately show ?thesis
    using drain_advances [OF core runv, of sync] by (auto simp: writer_inv_def advances_to_def)
qed

lemma degrade_inv:
  assumes "writer_inv w" shows "writer_inv (degrade r w)" "prefix (wr_log w) (wr_log (degrade r w))"
    "\<not> running (degrade r w)"
  using assms by (auto simp: degrade_def writer_inv_def writer_core_def running_def log_call_def)

lemma enqueue_refused: "\<not> accepts item w \<Longrightarrow> enqueue sync item w = (if running w then degrade Overflow w else w)"
  by (auto simp: enqueue_def accepts_def running_def)

lemma callback_running:
  assumes inv: "writer_inv w" and run: "running w"
  shows "parser_callback sync n w = w \<or> advances_to w (parser_callback sync n w) \<and> idle_empty (parser_callback sync n w)"
proof (cases "wr_outstanding w")
  case None
  then show ?thesis by (simp add: parser_callback_def)
next
  case (Some p)
  obtain m item where p: "p = (m, item)" by (cases p)
  show ?thesis
  proof (cases "m = n")
    case False
    then show ?thesis using Some p by (simp add: parser_callback_def)
  next
    case True
    have core: "writer_core w" using inv by (simp add: writer_inv_def)
    let ?v = "snd (on_parsed item (w\<lparr>wr_outstanding := None\<rparr>))"
    have pass: "advances_to w ?v" and again: "fst (on_parsed item (w\<lparr>wr_outstanding := None\<rparr>))"
      using parsed_pass [OF core run, of m item] Some p by simp_all
    then have "parser_callback sync n w = drain_writer sync ?v"
      using Some p True by (simp add: parser_callback_def split_def)
    moreover have "advances_to ?v (drain_writer sync ?v) \<and> idle_empty (drain_writer sync ?v)"
      using drain_advances pass by (simp add: advances_to_def)
    ultimately show ?thesis using pass advances_to_trans by metis
  qed
qed

lemma callback_stopped:
  assumes "writer_inv w" and "\<not> running w"
  shows "writer_inv (parser_callback sync n w)" "wr_log (parser_callback sync n w) = wr_log w"
    "\<not> running (parser_callback sync n w)"
  using assms
  by (auto simp: parser_callback_def on_parsed_def writer_inv_def writer_core_def running_def split: option.splits)

lemma advances_to_inv:
  assumes "advances_to w v" and "idle_empty v" and "writer_inv w" and "running w"
  shows "writer_inv v"
  using assms by (auto simp: advances_to_def writer_inv_def)

text \<open>A running writer stays on the reference execution; a stopped one says nothing later.\<close>

lemma step_running:
  assumes inv: "writer_inv w" and run: "running w" and run': "running (writer_step sync w e)"
  shows "writer_inv (writer_step sync w e)
    \<and> wr_log (writer_step sync w e) @ remaining later (writer_step sync w e)
      = wr_log w @ remaining (accepted_run sync w [e] @ later) w"
proof (cases "operation_of e")
  case (Some item)
  have step: "writer_step sync w e = enqueue sync item w"
    using Some by (cases e) (auto simp: write_terminal_def resize_terminal_def)
  have acc: "accepts item w"
  proof (rule ccontr)
    assume "\<not> accepts item w"
    then show False using enqueue_refused [of item w sync] degrade_inv(3) [OF inv] run run' step by auto
  qed
  show ?thesis using enqueue_accepted [OF inv operation_ok [OF Some] acc, of sync later] Some acc step by simp
next
  case None
  show ?thesis
  proof (cases e)
    case (ParserCallback n)
    then show ?thesis
      using callback_running [OF inv run, of sync n] None advances_to_inv [OF _ _ inv run] inv
      by (auto simp: advances_to_def)
  next
    case (ParseDeadline n)
    then have "writer_step sync w e = w"
      using run' degrade_inv(3) [OF inv] by (auto simp: parse_deadline_def split: if_splits)
    then show ?thesis using inv None by simp
  next
    case DisposeWriter
    then show ?thesis using run' by (simp add: dispose_writer_def running_def)
  qed (use None in simp_all)
qed

lemma step_stopped:
  assumes "writer_inv w" and "\<not> running w"
  shows "writer_inv (writer_step sync w e)" "wr_log (writer_step sync w e) = wr_log w"
    "\<not> running (writer_step sync w e)" "accepted_run sync w [e] = []"
proof -
  have stop: "wr_disposed w \<or> wr_halted w" using assms(2) by (simp add: running_def)
  show "accepted_run sync w [e] = []" using stop by (auto simp: accepts_def split: option.split)
  have enq: "enqueue sync item w = w" for item using stop by (auto simp: enqueue_def)
  have dl: "wr_deadline w = None" using assms by (simp add: writer_inv_def writer_core_def)
  have disp: "writer_inv (dispose_writer w)" "wr_log (dispose_writer w) = wr_log w" "\<not> running (dispose_writer w)"
    by (simp_all add: dispose_writer_def writer_inv_def writer_core_def running_def)
  show "writer_inv (writer_step sync w e)" "wr_log (writer_step sync w e) = wr_log w" "\<not> running (writer_step sync w e)"
    by (cases e; use assms callback_stopped disp in \<open>simp add: write_terminal_def resize_terminal_def enq parse_deadline_def dl\<close>)+
qed

lemma step_stopping:
  assumes inv: "writer_inv w" and run: "running w" and stop: "\<not> running (writer_step sync w e)"
  shows "writer_inv (writer_step sync w e)
    \<and> (wr_log (writer_step sync w e) = wr_log w \<or> (\<exists>r. wr_log (writer_step sync w e) = wr_log w @ [Degraded r]))"
proof -
  have deg: "writer_inv (degrade r w)" "wr_log (degrade r w) = wr_log w @ [Degraded r]" for r
    using degrade_inv(1) [OF inv] run by (auto simp: degrade_def running_def log_call_def)
  have enq: "enqueue sync item w = degrade Overflow w" if "op_ok item" "\<not> running (enqueue sync item w)" for item
    using that enqueue_accepted [OF inv that(1), of sync "[]"] enqueue_refused [of item w sync] run
    by (cases "accepts item w") auto
  show ?thesis
  proof (cases "operation_of e")
    case (Some item)
    have "writer_step sync w e = enqueue sync item w"
      using Some by (cases e) (auto simp: write_terminal_def resize_terminal_def)
    then show ?thesis using enq [OF operation_ok [OF Some]] stop deg by auto
  next
    case None
    have "e = DisposeWriter \<or> (\<exists>n. e = ParserCallback n) \<or> (\<exists>n. e = ParseDeadline n)"
      using None by (cases e) auto
    then show ?thesis
    proof (elim disjE exE)
      assume "e = DisposeWriter"
      then show ?thesis by (simp add: dispose_writer_def writer_inv_def writer_core_def running_def)
    next
      fix n assume "e = ParserCallback n"
      then show ?thesis using callback_running [OF inv run, of sync n] stop inv run by (auto simp: advances_to_def)
    next
      fix n assume "e = ParseDeadline n"
      then show ?thesis using deg inv by (auto simp: parse_deadline_def)
    qed
  qed
qed

lemma writer_inv_step: "writer_inv w \<Longrightarrow> writer_inv (writer_step sync w e)"
  using step_running step_stopped(1) step_stopping by metis


interpretation terminal_writer: event_machine "writer_step sync" writer_inv for sync
  by unfold_locales (rule writer_inv_step)

lemma step_told: "writer_inv w \<Longrightarrow> prefix (wr_log w) (wr_log (writer_step sync w e))"
proof (cases "running w")
  case True
  assume inv: "writer_inv w"
  show ?thesis
  proof (cases "running (writer_step sync w e)")
    case False
    with step_stopping [OF inv True, of sync e] show ?thesis by auto
  next
    case run': True
    show ?thesis
    proof (cases "operation_of e")
      case (Some item)
      have step: "writer_step sync w e = enqueue sync item w"
        using Some by (cases e) (auto simp: write_terminal_def resize_terminal_def)
      show ?thesis
      proof (cases "accepts item w")
        case True
        then show ?thesis using enqueue_accepted [OF inv operation_ok [OF Some], of sync "[]"] step by simp
      next
        case False
        then show ?thesis using enqueue_refused [of item w sync] degrade_inv(2) [OF inv] step by simp
      qed
    next
      case None
      have "prefix (wr_log w) (wr_log (parser_callback sync n w))" for n
        using callback_running [OF inv True, of sync n] by (auto simp only: advances_to_def prefix_order.refl)
      with None show ?thesis
        using degrade_inv(2) [OF inv] by (cases e) (auto simp: parse_deadline_def dispose_writer_def)
    qed
  qed
next
  case False
  assume "writer_inv w"
  from step_stopped(2) [OF this False] show ?thesis by simp
qed

interpretation writer_log: logging_machine "writer_step sync" writer_inv wr_log for sync
  by unfold_locales (rule step_told)

lemma run_stopped:
  "writer_inv w \<Longrightarrow> \<not> running w \<Longrightarrow> wr_log (foldl (writer_step sync) w es) = wr_log w
     \<and> \<not> running (foldl (writer_step sync) w es) \<and> accepted_run sync w es = []"
proof (induction es arbitrary: w)
  case (Cons e es)
  note stop = step_stopped [OF Cons.prems, of sync e]
  have "accepted_run sync w (e # es) = accepted_run sync w [e] @ accepted_run sync (writer_step sync w e) es" by simp
  with Cons.IH [OF stop(1,3)] stop show ?case by simp
qed simp

lemma run_running:
  "writer_inv w \<Longrightarrow> running (foldl (writer_step sync) w es) \<Longrightarrow>
     wr_log (foldl (writer_step sync) w es) @ remaining later (foldl (writer_step sync) w es)
       = wr_log w @ remaining (accepted_run sync w es @ later) w"
proof (induction es arbitrary: w)
  case (Cons e es)
  let ?v = "writer_step sync w e"
  have inv: "writer_inv ?v" using Cons.prems(1) by (rule writer_inv_step)
  have runs: "running w" "running ?v"
    using run_stopped [of w sync "e # es"] run_stopped [OF inv, of sync es] Cons.prems by auto
  have "wr_log (foldl (writer_step sync) ?v es) @ remaining later (foldl (writer_step sync) ?v es)
      = wr_log ?v @ remaining (accepted_run sync ?v es @ later) ?v"
    using Cons.IH [OF inv] Cons.prems(2) by simp
  also have "\<dots> = wr_log w @ remaining (accepted_run sync w [e] @ accepted_run sync ?v es @ later) w"
    using step_running [OF Cons.prems(1) runs, of "accepted_run sync ?v es @ later"] by blast
  finally show ?case by simp
qed simp

lemma stopping_point:
  "writer_inv w \<Longrightarrow> running w \<Longrightarrow> \<not> running (foldl (writer_step sync) w es) \<Longrightarrow>
     \<exists>p. prefix p (wr_log w @ remaining (accepted_run sync w es) w)
       \<and> (wr_log (foldl (writer_step sync) w es) = p \<or> (\<exists>r. wr_log (foldl (writer_step sync) w es) = p @ [Degraded r]))"
proof (induction es arbitrary: w)
  case (Cons e es)
  let ?v = "writer_step sync w e"
  have inv: "writer_inv ?v" using Cons.prems(1) by (rule writer_inv_step)
  show ?case
  proof (cases "running ?v")
    case False
    from run_stopped [OF inv False, of sync es] step_stopping [OF Cons.prems(1,2) False]
    show ?thesis by (intro exI [of _ "wr_log w"]) auto
  next
    case True
    from Cons.IH [OF inv True] Cons.prems(3) obtain p where p:
      "prefix p (wr_log ?v @ remaining (accepted_run sync ?v es) ?v)"
      "wr_log (foldl (writer_step sync) ?v es) = p \<or> (\<exists>r. wr_log (foldl (writer_step sync) ?v es) = p @ [Degraded r])"
      by auto
    have "wr_log ?v @ remaining (accepted_run sync ?v es) ?v
        = wr_log w @ remaining (accepted_run sync w [e] @ accepted_run sync ?v es) w"
      using step_running [OF Cons.prems(1,2) True, of "accepted_run sync ?v es"] by blast
    with p show ?thesis by auto
  qed
qed simp

section \<open>Properties\<close>


definition demo_writer :: writer where
  "demo_writer = the (new_writer DEFAULT_WRITER_LIMITS)"

lemma demo_writer: "new_writer DEFAULT_WRITER_LIMITS = Some demo_writer"
  by (simp add: demo_writer_def new_writer_def DEFAULT_WRITER_LIMITS_def positive_limit_def isSafeInteger_def
      MAX_SAFE_INTEGER_def)


text \<open>
  The queue is bounded and honestly accounted. After any events the bytes reported are those held by
  the parser plus those queued, within the byte limit, the operations within the event limit, and while
  the writer runs a write handed to the parser always has its deadline armed.
\<close>

lemma writer_bounded:
  assumes "new_writer limits = Some w" and "v = foldl (writer_step sync) w es"
  shows "wr_pendingBytes v = wr_activeBytes v + (\<Sum>item\<leftarrow>wr_operations v. op_bytes item)
    \<and> (if wr_disposed v \<or> wr_halted v then wr_operations v = []
       else wr_pendingBytes v \<le> wl_maxBytes (wr_limits v) \<and> fst (snd (pendingUsage_of v)) \<le> wl_maxEvents (wr_limits v)
         \<and> (wr_parsePending v = (wr_deadline v \<noteq> None)))"
proof -
  have "writer_inv w" using writer_inv_new assms(1) by blast
  then have "writer_inv v" using assms(2) terminal_writer.run_inv by blast
  then show ?thesis
    by (cases "wr_outstanding v")
      (auto simp: writer_inv_def writer_core_def running_def events_of_def pendingUsage_of_def)
qed

text \<open>
  A stopped writer is silent. After an overflow, a stalled parser or disposal, no later event reaches
  the terminal, runs a callback or reports again: a late parser callback only releases what it held.
\<close>

lemma stopped_writer_silent:
  assumes "new_writer limits = Some w" and "v = foldl (writer_step sync) w es"
    and "wr_disposed v \<or> wr_halted v"
  shows "wr_log (foldl (writer_step sync) v es') = wr_log v"
proof -
  have "writer_inv w" using writer_inv_new assms(1) by blast
  then have "writer_inv v" using assms(2) terminal_writer.run_inv by blast
  then show ?thesis using run_stopped [of v sync es'] assms(3) by (simp add: running_def)
qed

end
