(* ===== verification/Attach.thy ===== *)
theory Attach
  imports Nession_Prelude
begin

text \<open>
  Attaching to a session: the phase reducer
  (\<^verbatim>\<open>web/src/platform/attach/AttachStateMachine.ts\<close>) and the controller that sends the attach
  requests and turns their resolutions into events of the reducer
  (\<^verbatim>\<open>web/src/platform/attach/SessionAttachController.ts\<close>). The requests are the log \<open>sc_requests\<close>; the
  promise of a request is named by its attach generation and resolves at most once
  (\<open>sc_outstanding\<close>); listeners are numbers and \<open>sc_told\<close> collects what each of them is told, and the
  \<open>onAttachOk\<close> callbacks.
\<close>

section \<open>The phase reducer\<close>

definition P2P_MAX_RECONNECT :: int where "P2P_MAX_RECONNECT = 10"
definition ATTACH_TIMEOUT_MS :: int where "ATTACH_TIMEOUT_MS = 10000"

datatype attach_phase = Idle | Connecting | Connected | Attached | Reconnecting | Failed

datatype attach_event =
    SessionSelected
  | TransportReady
  | TransportLost
  | TransportExhausted bool
  | P2PConnected
  | AttachOk
  | AttachError bool
  | AttachTimeout bool int
  | RelayServerReady
  | RelayBeginOk
  | Disconnect

record attach_machine =
  am_transportFirst :: bool
  am_phase :: attach_phase
  am_reconnectCount :: int

record attach_transition =
  at_phase :: attach_phase
  at_reconnectCount :: int
  at_forceRelay :: bool
  at_retryAttach :: bool

definition new_machine :: "bool \<Rightarrow> attach_machine" where
  "new_machine transportFirst = \<lparr>am_transportFirst = transportFirst, am_phase = Idle, am_reconnectCount = 0\<rparr>"

definition reset_machine :: "attach_machine \<Rightarrow> attach_machine" where
  "reset_machine m = m\<lparr>am_phase := Idle, am_reconnectCount := 0\<rparr>"

definition onSessionSelected :: "attach_machine \<Rightarrow> attach_machine" where
  "onSessionSelected m = m\<lparr>am_phase := Connecting, am_reconnectCount := 0\<rparr>"

definition onTransportLost :: "attach_machine \<Rightarrow> attach_machine" where
  "onTransportLost m =
     (if am_phase m = Attached \<or> am_phase m = Connected then m\<lparr>am_phase := Reconnecting\<rparr> else m)"

definition onP2PConnected :: "attach_machine \<Rightarrow> attach_machine" where
  "onP2PConnected m =
     (if am_transportFirst m then m
      else if am_phase m = Connecting \<or> am_phase m = Reconnecting \<or> am_phase m = Failed
      then m\<lparr>am_phase := Connected\<rparr> else m)"

definition onTransportReady :: "attach_machine \<Rightarrow> attach_machine" where
  "onTransportReady m =
     (if am_phase m = Connecting \<or> am_phase m = Reconnecting \<or> am_phase m = Connected \<or> am_phase m = Failed
      then if \<not> am_transportFirst m \<and> am_phase m \<noteq> Connected then m\<lparr>am_phase := Connected\<rparr> else m
      else m)"

definition onAttachOk :: "attach_machine \<Rightarrow> attach_machine" where
  "onAttachOk m = m\<lparr>am_phase := Attached, am_reconnectCount := 0\<rparr>"

definition onTransportExhausted :: "bool \<Rightarrow> attach_machine \<Rightarrow> attach_machine" where
  "onTransportExhausted manualRoute m = (if manualRoute then m\<lparr>am_phase := Failed\<rparr> else m)"

text \<open>The two flags of a transition: \<open>forceRelay\<close> and \<open>retryAttach\<close>.\<close>

definition onAttachError :: "bool \<Rightarrow> attach_machine \<Rightarrow> attach_machine \<times> bool \<times> bool" where
  "onAttachError manualRoute m =
     (if manualRoute then (m\<lparr>am_phase := Failed\<rparr>, False, False)
      else (m\<lparr>am_phase := Connecting\<rparr>, True, False))"

definition onAttachTimeout :: "bool \<Rightarrow> int \<Rightarrow> attach_machine \<Rightarrow> attach_machine \<times> bool \<times> bool" where
  "onAttachTimeout manualRoute attempt m =
     (let m1 = m\<lparr>am_reconnectCount := attempt\<rparr>
      in if P2P_MAX_RECONNECT < attempt
         then if manualRoute then (m1\<lparr>am_phase := Failed\<rparr>, False, False)
              else (m1\<lparr>am_phase := Connecting\<rparr>, True, False)
         else (m1\<lparr>am_phase := Reconnecting\<rparr>, False, True))"

definition onDisconnect :: "attach_machine \<Rightarrow> attach_machine" where
  "onDisconnect m = m\<lparr>am_phase := Idle, am_reconnectCount := 0\<rparr>"

fun applyEvent :: "attach_event \<Rightarrow> attach_machine \<Rightarrow> attach_machine \<times> bool \<times> bool" where
  "applyEvent SessionSelected m = (onSessionSelected m, False, False)"
| "applyEvent TransportLost m = (onTransportLost m, False, False)"
| "applyEvent (TransportExhausted manualRoute) m = (onTransportExhausted manualRoute m, False, False)"
| "applyEvent P2PConnected m = (onP2PConnected m, False, False)"
| "applyEvent TransportReady m = (onTransportReady m, False, False)"
| "applyEvent RelayServerReady m = (m, False, False)"
| "applyEvent RelayBeginOk m = (onAttachOk m, False, False)"
| "applyEvent AttachOk m = (onAttachOk m, False, False)"
| "applyEvent (AttachError manualRoute) m = onAttachError manualRoute m"
| "applyEvent (AttachTimeout manualRoute attempt) m = onAttachTimeout manualRoute attempt m"
| "applyEvent Disconnect m = (onDisconnect m, False, False)"

definition dispatch_attach :: "attach_event \<Rightarrow> attach_machine \<Rightarrow> attach_transition \<times> attach_machine" where
  "dispatch_attach event m =
     (let (m1, forceRelay, retryAttach) = applyEvent event m
      in (\<lparr>at_phase = am_phase m1, at_reconnectCount = am_reconnectCount m1, at_forceRelay = forceRelay,
           at_retryAttach = retryAttach\<rparr>, m1))"

datatype attach_mode = P2P | Relay

definition canStartAttach :: "bool \<Rightarrow> bool \<Rightarrow> bool \<Rightarrow> attach_mode \<Rightarrow> attach_machine \<Rightarrow> bool" where
  "canStartAttach transportReady p2pConnected relayReady mode m =
     (if am_phase m \<noteq> Connecting \<and> am_phase m \<noteq> Reconnecting \<and> am_phase m \<noteq> Failed then False
      else if mode = Relay then relayReady \<and> transportReady
      else if \<not> p2pConnected then False
      else if am_transportFirst m then transportReady else True)"

section \<open>The controller\<close>

definition TRANSPORT_FAILURE_ERRORS :: "string list" where
  "TRANSPORT_FAILURE_ERRORS =
     [''Connection lost'', ''MessageRouter disposed'', ''WebSocketService disposed'', ''WebSocket not connected'',
      ''Connection timeout'', ''WebSocket connection failed'', ''WebSocketService is closed'']"

datatype attach_result = AttachAccepted | AttachRefused string

record attach_params =
  ap_sessionName :: string
  ap_manualRoute :: bool
  ap_lastResize :: "(int \<times> int) option"
  ap_needsBootstrap :: bool
  ap_transportGeneration :: int
  ap_onAttachOk :: bool

datatype controller_call = Told nat attach_transition | CalledOnAttachOk nat

record attach_controller =
  sc_machine :: attach_machine
  sc_attachGeneration :: nat
  sc_inFlight :: "int option"
  sc_listeners :: "nat list"
  sc_requests :: "(nat \<times> attach_params) list"
  sc_outstanding :: "(nat \<times> attach_params) list"
  sc_told :: "controller_call list"

definition new_controller :: "attach_machine \<Rightarrow> attach_controller" where
  "new_controller m = \<lparr>sc_machine = m, sc_attachGeneration = 0, sc_inFlight = None, sc_listeners = [],
     sc_requests = [], sc_outstanding = [], sc_told = []\<rparr>"

definition subscribeOutcomes :: "nat \<Rightarrow> attach_controller \<Rightarrow> attach_controller" where
  "subscribeOutcomes listener c = c\<lparr>sc_listeners := set_add listener (sc_listeners c)\<rparr>"

definition unsubscribeOutcomes :: "nat \<Rightarrow> attach_controller \<Rightarrow> attach_controller" where
  "unsubscribeOutcomes listener c = c\<lparr>sc_listeners := removeAll listener (sc_listeners c)\<rparr>"

definition emitOutcome :: "attach_transition \<Rightarrow> attach_controller \<Rightarrow> attach_controller" where
  "emitOutcome result c = c\<lparr>sc_told := sc_told c @ map (\<lambda>l. Told l result) (sc_listeners c)\<rparr>"

definition controller_dispatch :: "attach_event \<Rightarrow> attach_controller \<Rightarrow> attach_controller" where
  "controller_dispatch event c =
     (let (result, m) = dispatch_attach event (sc_machine c)
      in emitOutcome result (c\<lparr>sc_machine := m\<rparr>))"

definition cancelActiveAttach :: "attach_controller \<Rightarrow> attach_controller" where
  "cancelActiveAttach c = c\<lparr>sc_attachGeneration := Suc (sc_attachGeneration c), sc_inFlight := None\<rparr>"

definition reset_controller :: "attach_controller \<Rightarrow> attach_controller" where
  "reset_controller c = (let c1 = cancelActiveAttach c in c1\<lparr>sc_machine := reset_machine (sc_machine c1)\<rparr>)"

text \<open>The returned cancel function is the generation it guards, or nothing for a deduplicated start.\<close>

definition startP2PAttach :: "attach_params \<Rightarrow> attach_controller \<Rightarrow> nat option \<times> attach_controller" where
  "startP2PAttach params c =
     (if sc_inFlight c = Some (ap_transportGeneration params) then (None, c)
      else
        let c1 = cancelActiveAttach c;
            gen = Suc (sc_attachGeneration c1)
        in (Some gen, c1\<lparr>sc_inFlight := Some (ap_transportGeneration params), sc_attachGeneration := gen,
              sc_requests := sc_requests c1 @ [(gen, params)],
              sc_outstanding := sc_outstanding c1 @ [(gen, params)]\<rparr>))"

definition cancel_handle :: "nat \<Rightarrow> attach_controller \<Rightarrow> attach_controller" where
  "cancel_handle gen c = (if gen = sc_attachGeneration c then cancelActiveAttach c else c)"

definition dispatch_timeout :: "attach_params \<Rightarrow> attach_controller \<Rightarrow> attach_controller" where
  "dispatch_timeout params c =
     controller_dispatch (AttachTimeout (ap_manualRoute params) (am_reconnectCount (sc_machine c) + 1)) c"

definition on_resolved :: "nat \<Rightarrow> attach_params \<Rightarrow> attach_result \<Rightarrow> attach_controller \<Rightarrow> attach_controller" where
  "on_resolved gen params result c =
     (if gen \<noteq> sc_attachGeneration c then c
      else
        let c1 = c\<lparr>sc_inFlight := None\<rparr>
        in case result of
             AttachAccepted \<Rightarrow>
               let c2 = (if ap_onAttachOk params then c1\<lparr>sc_told := sc_told c1 @ [CalledOnAttachOk gen]\<rparr> else c1)
               in cancelActiveAttach (controller_dispatch AttachOk c2)
           | AttachRefused err \<Rightarrow>
               if err = ''timeout'' \<or> err \<in> set TRANSPORT_FAILURE_ERRORS then dispatch_timeout params c1
               else cancelActiveAttach (controller_dispatch (AttachError (ap_manualRoute params)) c1))"

definition on_rejected :: "nat \<Rightarrow> attach_params \<Rightarrow> attach_controller \<Rightarrow> attach_controller" where
  "on_rejected gen params c =
     (if gen \<noteq> sc_attachGeneration c then c
      else dispatch_timeout params (c\<lparr>sc_inFlight := None\<rparr>))"

datatype controller_event =
    CDispatch attach_event
  | CResetAttach
  | CStart attach_params
  | CCancel
  | CCancelHandle nat
  | CResolved nat attach_result
  | CRejected nat
  | CSubscribe nat
  | CUnsubscribe nat

definition settle_promise :: "nat \<Rightarrow> attach_controller \<Rightarrow> attach_controller" where
  "settle_promise gen c = c\<lparr>sc_outstanding := AList.delete gen (sc_outstanding c)\<rparr>"

fun controller_step :: "attach_controller \<Rightarrow> controller_event \<Rightarrow> attach_controller" where
  "controller_step c (CDispatch event) = controller_dispatch event c"
| "controller_step c CResetAttach = reset_controller c"
| "controller_step c (CStart params) = snd (startP2PAttach params c)"
| "controller_step c CCancel = cancelActiveAttach c"
| "controller_step c (CCancelHandle gen) = cancel_handle gen c"
| "controller_step c (CResolved gen result) =
     (case map_of (sc_outstanding c) gen of
        None \<Rightarrow> c
      | Some params \<Rightarrow> on_resolved gen params result (settle_promise gen c))"
| "controller_step c (CRejected gen) =
     (case map_of (sc_outstanding c) gen of
        None \<Rightarrow> c
      | Some params \<Rightarrow> on_rejected gen params (settle_promise gen c))"
| "controller_step c (CSubscribe l) = subscribeOutcomes l c"
| "controller_step c (CUnsubscribe l) = unsubscribeOutcomes l c"

section \<open>The phases as a record of what happened\<close>

text \<open>
  What a history of events says of the phase, without the machine: the last event that settled how the
  attach stands (\<open>verdict\<close>), and what the transport did since (\<open>news_since\<close>: up or lost, in order). An
  attach that succeeded lasts until the transport is lost; every other standing lasts until the transport
  comes up. Where the transport comes first (\<open>tf\<close>) its coming up is not shown.
\<close>

fun verdict :: "attach_event \<Rightarrow> attach_phase option" where
  "verdict SessionSelected = Some Connecting"
| "verdict AttachOk = Some Attached"
| "verdict RelayBeginOk = Some Attached"
| "verdict (AttachError manual) = Some (if manual then Failed else Connecting)"
| "verdict (AttachTimeout manual n) =
     Some (if n \<le> P2P_MAX_RECONNECT then Reconnecting else if manual then Failed else Connecting)"
| "verdict (TransportExhausted manual) = (if manual then Some Failed else None)"
| "verdict Disconnect = Some Idle"
| "verdict _ = None"

fun counted :: "attach_event \<Rightarrow> int option" where
  "counted (AttachTimeout manual n) = Some n"
| "counted e = (if e \<in> {SessionSelected, AttachOk, RelayBeginOk, Disconnect} then Some 0 else None)"

fun transport_news :: "attach_event \<Rightarrow> bool option" where
  "transport_news TransportReady = Some True"
| "transport_news P2PConnected = Some True"
| "transport_news TransportLost = Some False"
| "transport_news _ = None"

definition last_verdict :: "attach_event list \<Rightarrow> attach_phase" where
  "last_verdict es = last (Idle # List.map_filter verdict es)"

definition last_count :: "attach_event list \<Rightarrow> int" where
  "last_count es = last (0 # List.map_filter counted es)"

definition news_since :: "attach_event list \<Rightarrow> bool list" where
  "news_since es = List.map_filter transport_news (rev (takeWhile (\<lambda>e. verdict e = None) (rev es)))"

definition phase_after :: "bool \<Rightarrow> attach_phase \<Rightarrow> bool list \<Rightarrow> attach_phase" where
  "phase_after tf p news =
     (if p = Idle then Idle
      else if p = Attached
      then if False \<notin> set news then Attached else if last news \<and> \<not> tf then Connected else Reconnecting
      else if tf \<or> True \<notin> set news then p
      else if last news then Connected else Reconnecting)"

definition attach_run :: "bool \<Rightarrow> attach_event list \<Rightarrow> attach_machine" where
  "attach_run tf es = foldl (\<lambda>m e. snd (dispatch_attach e m)) (new_machine tf) es"

lemma map_filter_snoc: "List.map_filter f (xs @ [x]) = List.map_filter f xs @ (case f x of None \<Rightarrow> [] | Some y \<Rightarrow> [y])"
  by (simp add: List.map_filter_def split: option.split)

lemma attach_run_snoc: "attach_run tf (es @ [e]) = snd (dispatch_attach e (attach_run tf es))"
  by (simp add: attach_run_def)

lemma history_snoc:
  "last_verdict (es @ [e]) = the_default (last_verdict es) (verdict e)"
  "last_count (es @ [e]) = the_default (last_count es) (counted e)"
  "news_since (es @ [e]) =
     (case verdict e of
        Some p \<Rightarrow> []
      | None \<Rightarrow> news_since es @ (case transport_news e of None \<Rightarrow> [] | Some b \<Rightarrow> [b]))"
  by (simp_all add: last_verdict_def last_count_def news_since_def map_filter_snoc split: option.split)

lemma last_verdict_settled: "last_verdict es \<noteq> Connected"
proof (induction es rule: rev_induct)
  case (snoc e es)
  then show ?case by (cases e) (simp_all add: history_snoc)
qed (simp add: last_verdict_def List.map_filter_def)

text \<open>News of the transport moves the phase exactly as the machine does.\<close>

lemma phase_after_news:
  assumes "p \<noteq> Connected"
  shows "phase_after tf p (news @ [up]) =
      (if up
       then if \<not> tf \<and> phase_after tf p news \<in> {Connecting, Reconnecting, Failed} then Connected else phase_after tf p news
       else if phase_after tf p news \<in> {Attached, Connected} then Reconnecting else phase_after tf p news)"
  using assms by (cases p; simp add: phase_after_def)

lemma phase_after_none [simp]: "phase_after tf p [] = p"
  by (simp add: phase_after_def)

lemma dispatch_told:
  "am_phase (snd (dispatch_attach e m)) =
     (case verdict e of
        Some p \<Rightarrow> p
      | None \<Rightarrow>
          (case transport_news e of
             None \<Rightarrow> am_phase m
           | Some up \<Rightarrow>
               if up then if \<not> am_transportFirst m \<and> am_phase m \<in> {Connecting, Reconnecting, Failed} then Connected else am_phase m
               else if am_phase m \<in> {Attached, Connected} then Reconnecting else am_phase m))"
  "am_reconnectCount (snd (dispatch_attach e m)) = the_default (am_reconnectCount m) (counted e)"
  "am_transportFirst (snd (dispatch_attach e m)) = am_transportFirst m"
  by (cases e; auto simp: dispatch_attach_def onSessionSelected_def onTransportLost_def onP2PConnected_def
      onTransportReady_def onAttachOk_def onTransportExhausted_def onAttachError_def onAttachTimeout_def onDisconnect_def
      Let_def split_def)+

lemma attach_run_history:
  "am_phase (attach_run tf es) = phase_after tf (last_verdict es) (news_since es)
   \<and> am_reconnectCount (attach_run tf es) = last_count es \<and> am_transportFirst (attach_run tf es) = tf"
proof (induction es rule: rev_induct)
  case Nil
  then show ?case
    by (simp add: attach_run_def new_machine_def last_verdict_def last_count_def news_since_def List.map_filter_def)
next
  case (snoc e es)
  then have now: "am_phase (attach_run tf es) = phase_after tf (last_verdict es) (news_since es)"
    "am_reconnectCount (attach_run tf es) = last_count es" "am_transportFirst (attach_run tf es) = tf" by simp_all
  have "am_phase (attach_run tf (es @ [e])) = phase_after tf (last_verdict (es @ [e])) (news_since (es @ [e]))"
    unfolding attach_run_snoc dispatch_told now history_snoc
    by (cases "verdict e"; cases "transport_news e") (simp_all add: phase_after_news last_verdict_settled)
  then show ?case by (simp add: attach_run_snoc dispatch_told now history_snoc)
qed

lemma since_snoc:
  "(\<exists>xs e ys. es @ [x] = xs @ e # ys \<and> e \<in> P \<and> set ys \<subseteq> Q) \<longleftrightarrow>
     x \<in> P \<or> (\<exists>xs e ys. es = xs @ e # ys \<and> e \<in> P \<and> set ys \<subseteq> Q) \<and> x \<in> Q"
proof
  assume "\<exists>xs e ys. es @ [x] = xs @ e # ys \<and> e \<in> P \<and> set ys \<subseteq> Q"
  then obtain xs e ys where *: "es @ [x] = xs @ e # ys" "e \<in> P" "set ys \<subseteq> Q" by blast
  show "x \<in> P \<or> (\<exists>xs e ys. es = xs @ e # ys \<and> e \<in> P \<and> set ys \<subseteq> Q) \<and> x \<in> Q"
  proof (cases ys rule: rev_exhaust)
    case (snoc zs z)
    then have "es = xs @ e # zs" "x = z" using *(1) by simp_all
    then show ?thesis using * snoc by auto
  qed (use * in simp)
next
  assume "x \<in> P \<or> (\<exists>xs e ys. es = xs @ e # ys \<and> e \<in> P \<and> set ys \<subseteq> Q) \<and> x \<in> Q"
  then show "\<exists>xs e ys. es @ [x] = xs @ e # ys \<and> e \<in> P \<and> set ys \<subseteq> Q"
  proof
    assume "(\<exists>xs e ys. es = xs @ e # ys \<and> e \<in> P \<and> set ys \<subseteq> Q) \<and> x \<in> Q"
    then obtain xs e ys where "es = xs @ e # ys" "e \<in> P" "set ys \<subseteq> Q" "x \<in> Q" by blast
    then show ?thesis by (intro exI [of _ xs] exI [of _ e] exI [of _ "ys @ [x]"]) simp
  qed (rule exI [of _ es], rule exI [of _ x], rule exI [of _ "[]"], simp)
qed

lemma attached_history:
  "am_phase (attach_run tf es) = Attached \<longleftrightarrow>
     (\<exists>xs e ys. es = xs @ e # ys \<and> e \<in> {AttachOk, RelayBeginOk}
        \<and> set ys \<subseteq> {TransportReady, P2PConnected, TransportExhausted False, RelayServerReady})"
proof (induction es rule: rev_induct)
  case Nil
  then show ?case by (simp add: attach_run_def new_machine_def)
next
  case (snoc e es)
  have "am_phase (attach_run tf (es @ [e])) = Attached \<longleftrightarrow> e \<in> {AttachOk, RelayBeginOk} \<or>
      am_phase (attach_run tf es) = Attached \<and> e \<in> {TransportReady, P2PConnected, TransportExhausted False, RelayServerReady}"
    by (cases e) (auto simp: attach_run_snoc dispatch_told)
  then show ?case unfolding since_snoc snoc .
qed

section \<open>Repeated attempts as an interface\<close>

text \<open>
  An attempt that fails adds one to a count and tells an outcome that depends on the new count only. Then
  what a row of failed attempts tells is read off the counts.
\<close>

locale counted_attempts =
  fixes attempt :: "'c \<Rightarrow> 'f \<Rightarrow> 'c"
    and ready :: "'c \<Rightarrow> bool"
    and fails :: "'f \<Rightarrow> bool"
    and tally :: "'c \<Rightarrow> int"
    and log :: "'c \<Rightarrow> 'o list"
    and outcome :: "'c \<Rightarrow> int \<Rightarrow> 'o list"
  assumes attempt_ready: "ready c \<Longrightarrow> fails f \<Longrightarrow> ready (attempt c f)"
    and attempt_tally: "ready c \<Longrightarrow> fails f \<Longrightarrow> tally (attempt c f) = tally c + 1"
    and attempt_log: "ready c \<Longrightarrow> fails f \<Longrightarrow> log (attempt c f) = log c @ outcome c (tally c + 1)"
    and attempt_outcome: "ready c \<Longrightarrow> fails f \<Longrightarrow> outcome (attempt c f) = outcome c"
begin

lemma attempts:
  "ready c \<Longrightarrow> list_all fails fs \<Longrightarrow>
     ready (foldl attempt c fs) \<and> tally (foldl attempt c fs) = tally c + int (length fs)
     \<and> outcome (foldl attempt c fs) = outcome c
     \<and> log (foldl attempt c fs) = log c @ concat (map (outcome c) [tally c + 1..tally c + int (length fs)])"
proof (induction fs rule: rev_induct)
  case (snoc f fs)
  then have "[tally c + 1..tally c + int (length (fs @ [f]))]
      = [tally c + 1..tally c + int (length fs)] @ [tally c + int (length fs) + 1]"
    by (simp add: upto_rec2 algebra_simps)
  with snoc show ?case by (simp add: attempt_ready attempt_tally attempt_log attempt_outcome algebra_simps)
qed simp

end

section \<open>Controller invariant\<close>

text \<open>
  Every promise still outstanding belongs to a generation already issued, each generation to one
  request, and an attach in flight is the outstanding request of the current generation.
\<close>

definition controller_inv :: "attach_controller \<Rightarrow> bool" where
  "controller_inv c \<longleftrightarrow> (\<forall>g \<in> fst ` set (sc_outstanding c). g \<le> sc_attachGeneration c)
     \<and> distinct (map fst (sc_outstanding c))
     \<and> (\<forall>tg. sc_inFlight c = Some tg \<longrightarrow>
          (\<exists>params. map_of (sc_outstanding c) (sc_attachGeneration c) = Some params \<and> ap_transportGeneration params = tg))"

lemma controller_inv_new: "controller_inv (new_controller m)"
  by (simp add: controller_inv_def new_controller_def)

lemma dispatch_simps [simp]:
  "sc_attachGeneration (controller_dispatch e c) = sc_attachGeneration c"
  "sc_inFlight (controller_dispatch e c) = sc_inFlight c"
  "sc_outstanding (controller_dispatch e c) = sc_outstanding c"
  "sc_requests (controller_dispatch e c) = sc_requests c"
  "sc_listeners (controller_dispatch e c) = sc_listeners c"
  "sc_machine (controller_dispatch e c) = snd (dispatch_attach e (sc_machine c))"
  "sc_told (controller_dispatch e c) = sc_told c @ map (\<lambda>l. Told l (fst (dispatch_attach e (sc_machine c)))) (sc_listeners c)"
  by (simp_all add: controller_dispatch_def emitOutcome_def split_def Let_def)

lemma controller_inv_cancel [simp]: "controller_inv c \<Longrightarrow> controller_inv (cancelActiveAttach c)"
  by (auto simp: controller_inv_def cancelActiveAttach_def)

lemma controller_inv_idle:
  "controller_inv c \<Longrightarrow> sc_outstanding d = sc_outstanding c \<Longrightarrow> sc_attachGeneration d = sc_attachGeneration c \<Longrightarrow>
     sc_inFlight d = sc_inFlight c \<or> sc_inFlight d = None \<Longrightarrow> controller_inv d"
  by (auto simp: controller_inv_def)

lemma settle_simps [simp]:
  "sc_attachGeneration (settle_promise g c) = sc_attachGeneration c" "sc_inFlight (settle_promise g c) = sc_inFlight c"
  "sc_machine (settle_promise g c) = sc_machine c" "sc_told (settle_promise g c) = sc_told c"
  "sc_listeners (settle_promise g c) = sc_listeners c"
  by (simp_all add: settle_promise_def)

text \<open>After its promise settled a request may only be the current one if nothing is in flight any more.\<close>

lemma settled_idle:
  assumes "controller_inv c" and "gen = sc_attachGeneration c"
  shows "controller_inv ((settle_promise gen c)\<lparr>sc_inFlight := None\<rparr>)"
proof -
  show ?thesis
    using assms by (auto simp: controller_inv_def settle_promise_def distinct_delete set_map_delete)
qed

lemma settled_other:
  assumes "controller_inv c" and "gen \<noteq> sc_attachGeneration c"
  shows "controller_inv (settle_promise gen c)"
proof -
  show ?thesis
    using assms by (auto simp: controller_inv_def settle_promise_def distinct_delete delete_conv' set_map_delete)
qed

lemma controller_inv_resolved:
  assumes "controller_inv c" shows "controller_inv (on_resolved gen params result (settle_promise gen c))"
proof (cases "gen = sc_attachGeneration c")
  case False
  then show ?thesis using assms by (simp add: on_resolved_def settled_other)
next
  case True
  let ?d = "(settle_promise gen c)\<lparr>sc_inFlight := None\<rparr>"
  have d: "controller_inv ?d" using assms True by (rule settled_idle)
  have "controller_inv (controller_dispatch e ?d)" for e by (rule controller_inv_idle [OF d]) simp_all
  moreover have "controller_inv (controller_dispatch e (?d\<lparr>sc_told := t\<rparr>))" for e t
    by (rule controller_inv_idle [OF d]) simp_all
  ultimately show ?thesis
    using True by (auto simp: on_resolved_def dispatch_timeout_def Let_def split: attach_result.split)
qed

lemma controller_inv_rejected:
  assumes "controller_inv c" shows "controller_inv (on_rejected gen params (settle_promise gen c))"
proof (cases "gen = sc_attachGeneration c")
  case False
  then show ?thesis using assms by (simp add: on_rejected_def settled_other)
next
  case True
  let ?d = "(settle_promise gen c)\<lparr>sc_inFlight := None\<rparr>"
  have d: "controller_inv ?d" using assms True by (rule settled_idle)
  have "controller_inv (controller_dispatch e ?d)" for e by (rule controller_inv_idle [OF d]) simp_all
  then show ?thesis using True by (simp add: on_rejected_def dispatch_timeout_def)
qed

lemma controller_inv_start: "controller_inv c \<Longrightarrow> controller_inv (snd (startP2PAttach params c))"
proof -
  assume inv: "controller_inv c"
  have "Suc (Suc (sc_attachGeneration c)) \<notin> fst ` set (sc_outstanding c)"
    using inv by (auto simp: controller_inv_def)
  then have "map_of (sc_outstanding c) (Suc (Suc (sc_attachGeneration c))) = None"
    by (simp add: map_of_eq_None_iff)
  with inv show ?thesis
    by (fastforce simp: startP2PAttach_def cancelActiveAttach_def controller_inv_def Let_def map_add_def)
qed

lemma controller_inv_step: "controller_inv c \<Longrightarrow> controller_inv (controller_step c e)"
proof -
  assume inv: "controller_inv c"
  have same: "controller_inv d" if "sc_outstanding d = sc_outstanding c" "sc_attachGeneration d = sc_attachGeneration c"
    "sc_inFlight d = sc_inFlight c" for d
    using controller_inv_idle [OF inv] that by blast
  have reset: "controller_inv (reset_controller c)"
    unfolding reset_controller_def Let_def by (rule controller_inv_idle [OF controller_inv_cancel [OF inv]]) simp_all
  show ?thesis
    by (cases e) (use inv same reset in \<open>auto simp: controller_inv_start cancel_handle_def controller_inv_resolved
      controller_inv_rejected subscribeOutcomes_def unsubscribeOutcomes_def split: option.split\<close>)
qed

lemma generation_step: "sc_attachGeneration c \<le> sc_attachGeneration (controller_step c e)"
  by (cases e) (auto simp: reset_controller_def cancelActiveAttach_def startP2PAttach_def cancel_handle_def Let_def
      subscribeOutcomes_def unsubscribeOutcomes_def on_resolved_def on_rejected_def dispatch_timeout_def
      split: option.split attach_result.split)

interpretation attach: event_machine controller_step controller_inv
  by unfold_locales (rule controller_inv_step)

lemma told_step: "prefix (sc_told c) (sc_told (controller_step c e))"
  by (cases e) (auto simp: reset_controller_def cancelActiveAttach_def startP2PAttach_def cancel_handle_def Let_def
      subscribeOutcomes_def unsubscribeOutcomes_def on_resolved_def on_rejected_def dispatch_timeout_def
      split: option.split attach_result.split)

interpretation attach_log: logging_machine controller_step controller_inv sc_told
  by unfold_locales (rule told_step)

lemma generation_run: "sc_attachGeneration c \<le> sc_attachGeneration (foldl controller_step c es)"
proof (induction es rule: rev_induct)
  case (snoc e es)
  then show ?case using generation_step [of "foldl controller_step c es" e] by simp
qed simp

lemma stale_settlement:
  assumes "gen \<noteq> sc_attachGeneration c"
  shows "\<exists>o'. controller_step c (CResolved gen result) = c\<lparr>sc_outstanding := o'\<rparr>"
    "\<exists>o'. controller_step c (CRejected gen) = c\<lparr>sc_outstanding := o'\<rparr>"
proof -
  have "\<exists>o'. c = c\<lparr>sc_outstanding := o'\<rparr>" by (rule exI [of _ "sc_outstanding c"]) simp
  moreover have "settle_promise gen c = c\<lparr>sc_outstanding := AList.delete gen (sc_outstanding c)\<rparr>"
    by (simp add: settle_promise_def)
  ultimately show "\<exists>o'. controller_step c (CResolved gen result) = c\<lparr>sc_outstanding := o'\<rparr>"
    "\<exists>o'. controller_step c (CRejected gen) = c\<lparr>sc_outstanding := o'\<rparr>"
    using assms by (auto simp: on_resolved_def on_rejected_def split: option.split)
qed

section \<open>Rounds of the controller\<close>

text \<open>
  One round: an attach is started and its promise settles, with no answer or with an error. It times out
  when there is no answer, or when the answer is a timeout or one of the transport's errors.
\<close>

definition attach_round :: "attach_params \<Rightarrow> attach_controller \<Rightarrow> string option \<Rightarrow> attach_controller" where
  "attach_round params c answer =
     (let c1 = controller_step c (CStart params)
      in controller_step c1
           (case answer of
              None \<Rightarrow> CRejected (sc_attachGeneration c1)
            | Some err \<Rightarrow> CResolved (sc_attachGeneration c1) (AttachRefused err)))"

definition times_out :: "string option \<Rightarrow> bool" where
  "times_out answer = (case answer of None \<Rightarrow> True | Some err \<Rightarrow> err = ''timeout'' \<or> err \<in> set TRANSPORT_FAILURE_ERRORS)"

definition timeout_outcome :: "bool \<Rightarrow> int \<Rightarrow> attach_transition" where
  "timeout_outcome manual n = \<lparr>at_phase = (if n \<le> P2P_MAX_RECONNECT then Reconnecting else if manual then Failed else Connecting),
     at_reconnectCount = n, at_forceRelay = (P2P_MAX_RECONNECT < n \<and> \<not> manual), at_retryAttach = (n \<le> P2P_MAX_RECONNECT)\<rparr>"

lemma dispatch_AttachTimeout:
  "dispatch_attach (AttachTimeout manual n) m =
     (timeout_outcome manual n, m\<lparr>am_reconnectCount := n, am_phase := at_phase (timeout_outcome manual n)\<rparr>)"
  by (simp add: dispatch_attach_def onAttachTimeout_def timeout_outcome_def Let_def)

lemma attach_round_dispatch:
  assumes "controller_inv c" "sc_inFlight c = None" "times_out answer"
  shows "\<exists>d. attach_round params c answer = dispatch_timeout params d \<and> sc_machine d = sc_machine c
    \<and> sc_listeners d = sc_listeners c \<and> sc_told d = sc_told c \<and> sc_inFlight d = None
    \<and> map snd (sc_requests d) = map snd (sc_requests c) @ [params]"
proof -
  let ?gen = "Suc (Suc (sc_attachGeneration c))"
  have "map_of (sc_outstanding c) ?gen = None" using assms(1) by (force simp: controller_inv_def map_of_eq_None_iff)
  then have found: "map_of (sc_outstanding c @ [(?gen, params)]) ?gen = Some params" by (simp add: map_add_def)
  show ?thesis
    using assms(2,3) found
    by (cases answer)
      (auto simp: attach_round_def startP2PAttach_def cancelActiveAttach_def on_rejected_def on_resolved_def times_out_def
        settle_promise_def Let_def intro!: exI)
qed

lemma attach_round_ready:
  "controller_inv c \<Longrightarrow> controller_inv (attach_round params c answer)"
  by (auto simp: attach_round_def Let_def simp del: controller_step.simps intro!: controller_inv_step split: option.split)

interpretation rounds: counted_attempts "attach_round params" "\<lambda>c. controller_inv c \<and> sc_inFlight c = None" times_out
    "\<lambda>c. am_reconnectCount (sc_machine c)" sc_told
    "\<lambda>c n. map (\<lambda>l. Told l (timeout_outcome (ap_manualRoute params) n)) (sc_listeners c)" for params
proof unfold_locales
  fix c answer assume "controller_inv c \<and> sc_inFlight c = None" "times_out answer"
  then obtain d where d: "attach_round params c answer = dispatch_timeout params d" "sc_machine d = sc_machine c"
    "sc_listeners d = sc_listeners c" "sc_told d = sc_told c" "sc_inFlight d = None" and inv: "controller_inv c"
    using attach_round_dispatch by blast
  have "sc_inFlight (attach_round params c answer) = None" using d by (simp add: dispatch_timeout_def)
  then show "controller_inv (attach_round params c answer) \<and> sc_inFlight (attach_round params c answer) = None"
    by (intro conjI attach_round_ready [OF inv])
  show "am_reconnectCount (sc_machine (attach_round params c answer)) = am_reconnectCount (sc_machine c) + 1"
    "sc_told (attach_round params c answer) = sc_told c
       @ map (\<lambda>l. Told l (timeout_outcome (ap_manualRoute params) (am_reconnectCount (sc_machine c) + 1))) (sc_listeners c)"
    "(\<lambda>n. map (\<lambda>l. Told l (timeout_outcome (ap_manualRoute params) n)) (sc_listeners (attach_round params c answer)))
       = (\<lambda>n. map (\<lambda>l. Told l (timeout_outcome (ap_manualRoute params) n)) (sc_listeners c))"
    using d by (simp_all add: dispatch_timeout_def dispatch_AttachTimeout)
qed

lemma rounds_request:
  "controller_inv c \<and> sc_inFlight c = None \<Longrightarrow> list_all times_out answers \<Longrightarrow>
     map snd (sc_requests (foldl (attach_round params) c answers)) = map snd (sc_requests c) @ replicate (length answers) params"
proof (induction answers rule: rev_induct)
  case (snoc answer answers)
  then have "controller_inv (foldl (attach_round params) c answers)" "sc_inFlight (foldl (attach_round params) c answers) = None"
    using rounds.attempts [of c answers params] by simp_all
  from attach_round_dispatch [OF this, of answer params] snoc show ?case
    by (auto simp: dispatch_timeout_def replicate_append_same)
qed simp

lemma rounds_phase:
  assumes "controller_inv c \<and> sc_inFlight c = None" "list_all times_out answers" "answers \<noteq> []"
  shows "am_phase (sc_machine (foldl (attach_round params) c answers))
    = at_phase (timeout_outcome (ap_manualRoute params) (am_reconnectCount (sc_machine c) + int (length answers)))"
proof -
  obtain earlier answer where a: "answers = earlier @ [answer]" using assms(3) by (cases answers rule: rev_exhaust) auto
  let ?d = "foldl (attach_round params) c earlier"
  have d: "controller_inv ?d" "sc_inFlight ?d = None" "am_reconnectCount (sc_machine ?d) = am_reconnectCount (sc_machine c) + int (length earlier)"
    using rounds.attempts [of c earlier params] assms a by simp_all
  from attach_round_dispatch [OF d(1,2), of answer params] show ?thesis
    using assms(2) a d(3) by (auto simp: dispatch_timeout_def dispatch_AttachTimeout add_ac)
qed

text \<open>The controller drives its machine by events only; a reset is what a disconnect does to it.\<close>

lemma reset_is_disconnect: "reset_machine m = snd (dispatch_attach Disconnect m)"
  by (simp add: reset_machine_def dispatch_attach_def onDisconnect_def Let_def)

lemma controller_step_machine:
  "sc_machine (controller_step c e) = sc_machine c \<or> (\<exists>event. sc_machine (controller_step c e) = snd (dispatch_attach event (sc_machine c)))"
  by (cases e) (auto simp: reset_controller_def cancelActiveAttach_def startP2PAttach_def cancel_handle_def Let_def
      subscribeOutcomes_def unsubscribeOutcomes_def on_resolved_def on_rejected_def dispatch_timeout_def reset_is_disconnect
      split: option.split attach_result.split)

lemma controller_machine_history:
  "\<exists>events. sc_machine (foldl controller_step (new_controller (new_machine tf)) es) = attach_run tf events"
proof (induction es rule: rev_induct)
  case Nil
  have "sc_machine (new_controller (new_machine tf)) = attach_run tf []" by (simp add: new_controller_def attach_run_def)
  then show ?case by auto
next
  case (snoc e es)
  then obtain events where "sc_machine (foldl controller_step (new_controller (new_machine tf)) es) = attach_run tf events" by blast
  then show ?case
    using controller_step_machine [of "foldl controller_step (new_controller (new_machine tf)) es" e] attach_run_snoc [of tf events]
    by (simp del: controller_step.simps) metis
qed

section \<open>Properties\<close>

text \<open>
  C10. The phase is a record of what happened. After any events from a fresh machine, the phase is the one
  the history calls for: what the last verdict on the attach left, carried on by what the transport did
  since; the count is the attempt of the last timeout, reset by a selection, a successful attach or a
  disconnect. In particular the machine is \<open>Attached\<close> exactly when an attach succeeded and nothing but a
  transport coming up, an exhausted automatic route or a ready relay happened since. What the next event
  reports is the new phase and count, the relay is forced exactly by a refusal or a spent budget on an
  automatic route, and a retry is asked for exactly by a timeout within the budget.
\<close>

theorem attach_phase_tells_history:
  "am_phase (attach_run tf es) = phase_after tf (last_verdict es) (news_since es)
   \<and> am_reconnectCount (attach_run tf es) = last_count es
   \<and> (am_phase (attach_run tf es) = Attached) =
       (\<exists>xs e ys. es = xs @ e # ys \<and> e \<in> {AttachOk, RelayBeginOk}
          \<and> set ys \<subseteq> {TransportReady, P2PConnected, TransportExhausted False, RelayServerReady})
   \<and> fst (dispatch_attach e (attach_run tf es)) =
       \<lparr>at_phase = am_phase (attach_run tf (es @ [e])), at_reconnectCount = am_reconnectCount (attach_run tf (es @ [e])),
        at_forceRelay = (e = AttachError False \<or> (\<exists>n. P2P_MAX_RECONNECT < n \<and> e = AttachTimeout False n)),
        at_retryAttach = (\<exists>manual n. n \<le> P2P_MAX_RECONNECT \<and> e = AttachTimeout manual n)\<rparr>"
proof -
  have "fst (dispatch_attach e m) = \<lparr>at_phase = am_phase (snd (dispatch_attach e m)),
      at_reconnectCount = am_reconnectCount (snd (dispatch_attach e m)),
      at_forceRelay = (e = AttachError False \<or> (\<exists>n. P2P_MAX_RECONNECT < n \<and> e = AttachTimeout False n)),
      at_retryAttach = (\<exists>manual n. n \<le> P2P_MAX_RECONNECT \<and> e = AttachTimeout manual n)\<rparr>" for m
    by (cases e) (auto simp: dispatch_attach_def onAttachError_def onAttachTimeout_def Let_def)
  then show ?thesis using attach_run_history [of tf es] attached_history [of tf es] by (simp add: attach_run_snoc)
qed

text \<open>
  C11. The retry budget of the controller is exact. From any moment of a run when no attach is in flight and
  the count is zero, let eleven rounds follow in which an attach is started and is not answered, or is
  refused with a timeout or a transport error. Each round sends one request. The first ten tell every
  listener to reconnect and ask for a retry, with their number; the eleventh asks for none: it fails a
  pinned route, and puts an automatic one back to connecting with the relay forced.
\<close>

theorem attach_retry_budget:
  assumes "c = foldl controller_step (new_controller (new_machine tf)) es"
    and "sc_inFlight c = None" and "am_reconnectCount (sc_machine c) = 0"
    and "length answers = 11" and "list_all times_out answers"
    and "d = foldl (attach_round params) c answers"
  shows "map snd (sc_requests d) = map snd (sc_requests c) @ replicate 11 params
    \<and> sc_told d = sc_told c
        @ concat (map (\<lambda>n. map (\<lambda>l. Told l \<lparr>at_phase = Reconnecting, at_reconnectCount = n, at_forceRelay = False,
            at_retryAttach = True\<rparr>) (sc_listeners c)) [1..10])
        @ map (\<lambda>l. Told l \<lparr>at_phase = (if ap_manualRoute params then Failed else Connecting), at_reconnectCount = 11,
            at_forceRelay = (\<not> ap_manualRoute params), at_retryAttach = False\<rparr>) (sc_listeners c)
    \<and> am_phase (sc_machine d) = (if ap_manualRoute params then Failed else Connecting)
    \<and> am_reconnectCount (sc_machine d) = 11 \<and> sc_inFlight d = None"
proof -
  have ready: "controller_inv c \<and> sc_inFlight c = None"
    using assms(1,2) attach.run_inv [OF controller_inv_new] by blast
  have "[1..11::int] = [1..10] @ [11]" by (simp add: upto_rec2)
  moreover have retries: "map (\<lambda>n. map (\<lambda>l. Told l (timeout_outcome (ap_manualRoute params) n)) (sc_listeners c)) [1..10]
      = map (\<lambda>n. map (\<lambda>l. Told l \<lparr>at_phase = Reconnecting, at_reconnectCount = n, at_forceRelay = False,
          at_retryAttach = True\<rparr>) (sc_listeners c)) [1..10]"
    by (rule map_cong) (simp_all add: timeout_outcome_def P2P_MAX_RECONNECT_def)
  ultimately have "concat (map (\<lambda>n. map (\<lambda>l. Told l (timeout_outcome (ap_manualRoute params) n)) (sc_listeners c)) [1..11])
      = concat (map (\<lambda>n. map (\<lambda>l. Told l \<lparr>at_phase = Reconnecting, at_reconnectCount = n, at_forceRelay = False,
          at_retryAttach = True\<rparr>) (sc_listeners c)) [1..10])
        @ map (\<lambda>l. Told l (timeout_outcome (ap_manualRoute params) 11)) (sc_listeners c)"
    by (simp only: map_append concat_append list.map concat.simps append_Nil2)
  moreover have last: "timeout_outcome (ap_manualRoute params) 11 = \<lparr>at_phase = (if ap_manualRoute params then Failed else Connecting),
      at_reconnectCount = 11, at_forceRelay = (\<not> ap_manualRoute params), at_retryAttach = False\<rparr>"
    by (simp add: timeout_outcome_def P2P_MAX_RECONNECT_def)
  moreover have "answers \<noteq> []" using assms(4) by auto
  ultimately show ?thesis
    using rounds.attempts [OF ready assms(5), of params] rounds_request [OF ready assms(5), of params]
      rounds_phase [OF ready assms(5), of params] assms(3,4)
    unfolding assms(6) by auto
qed

text \<open>
  A superseded attach is inert. Once an attach has been cancelled, reset or superseded by one on
  another transport, its resolution or rejection, however late, changes neither the phase, the attach in
  flight nor what any listener is told.
\<close>

lemma superseded_attach_inert:
  assumes "c = foldl controller_step (new_controller m) es"
    and "(gen, params) \<in> set (sc_outstanding c)"
    and "e = CCancel \<or> e = CResetAttach \<or> (e = CStart params' \<and> sc_inFlight c \<noteq> Some (ap_transportGeneration params'))"
    and "d = foldl controller_step (controller_step c e) es'"
    and "late = CResolved gen result \<or> late = CRejected gen"
  shows "sc_machine (controller_step d late) = sc_machine d \<and> sc_inFlight (controller_step d late) = sc_inFlight d
    \<and> sc_told (controller_step d late) = sc_told d \<and> sc_requests (controller_step d late) = sc_requests d"
proof -
  have "controller_inv c" unfolding assms(1) by (rule attach.run_inv [OF controller_inv_new])
  then have "gen \<le> sc_attachGeneration c" using assms(2) by (force simp: controller_inv_def)
  also have "\<dots> < sc_attachGeneration (controller_step c e)"
    using assms(3) by (auto simp: cancelActiveAttach_def reset_controller_def startP2PAttach_def Let_def)
  also have "\<dots> \<le> sc_attachGeneration d" unfolding assms(4) by (rule generation_run)
  finally have "gen \<noteq> sc_attachGeneration d" by simp
  from stale_settlement [OF this] obtain o1 o2 where
    "controller_step d (CResolved gen result) = d\<lparr>sc_outstanding := o1\<rparr>"
    "controller_step d (CRejected gen) = d\<lparr>sc_outstanding := o2\<rparr>" by blast
  with assms(5) show ?thesis by auto
qed

definition demo_attach :: "int \<Rightarrow> attach_params" where
  "demo_attach tg = \<lparr>ap_sessionName = ''s'', ap_manualRoute = False, ap_lastResize = None, ap_needsBootstrap = True,
     ap_transportGeneration = tg, ap_onAttachOk = False\<rparr>"

text \<open>An automatic route whose attaches are never answered: the eleventh round gives up the direct path.\<close>

theorem attach_retry_budget_witness:
  "am_phase (sc_machine (foldl (attach_round (demo_attach 1)) (foldl controller_step (new_controller (new_machine True)) [CSubscribe 0])
     (replicate 11 None))) = Connecting"
proof -
  have "sc_inFlight (foldl controller_step (new_controller (new_machine True)) [CSubscribe 0]) = None"
    "am_reconnectCount (sc_machine (foldl controller_step (new_controller (new_machine True)) [CSubscribe 0])) = 0"
    "length (replicate 11 (None :: string option)) = 11" "list_all times_out (replicate 11 None)" "\<not> ap_manualRoute (demo_attach 1)"
    by code_simp+
  from attach_retry_budget [OF refl this(1-4) refl, of "demo_attach 1"] this(5) show ?thesis by simp
qed

text \<open>
  Only the attach in flight decides, and it is the latest one sent. While an attach is in flight its
  promise is outstanding under the current generation, for the transport it was started on, and starting
  again on that transport sends nothing.
\<close>

lemma attach_in_flight_is_current:
  assumes "c = foldl controller_step (new_controller m) es" and "sc_inFlight c = Some tg"
  shows "\<exists>params. map_of (sc_outstanding c) (sc_attachGeneration c) = Some params
    \<and> ap_transportGeneration params = tg
    \<and> (\<forall>again. ap_transportGeneration again = tg \<longrightarrow> controller_step c (CStart again) = c)"
proof -
  have "controller_inv c" unfolding assms(1) by (rule attach.run_inv [OF controller_inv_new])
  with assms(2) show ?thesis by (auto simp: controller_inv_def startP2PAttach_def)
qed

theorem attach_in_flight_is_current_witness:
  "\<exists>params. map_of (sc_outstanding (foldl controller_step (new_controller (new_machine True)) [CStart (demo_attach 1)]))
      (sc_attachGeneration (foldl controller_step (new_controller (new_machine True)) [CStart (demo_attach 1)])) = Some params
    \<and> ap_transportGeneration params = 1"
proof -
  have "sc_inFlight (foldl controller_step (new_controller (new_machine True)) [CStart (demo_attach 1)]) = Some 1"
    by code_simp
  from attach_in_flight_is_current [OF refl this] show ?thesis by blast
qed

end
