(* ===== verification/Direction_Pad.thy ===== *)
theory Direction_Pad
  imports Nession_Prelude
begin

text \<open>
  The long-press direction pad (\<^verbatim>\<open>web/src/product/terminal/gesture/directionPadEngine.ts\<close>).

  Coordinates and times are rationals; a coordinate that is not finite is \<open>None\<close>. \<open>Math.hypot(dx, dy)\<close>
  is only compared with thresholds, so a distance is carried as its square and \<open>shorter\<close> is the
  comparison. The clock is read as often as the code reads it (\<open>dp_now\<close>, \<open>dp_reads\<close>). A timer is a
  number; \<open>dp_armed\<close> holds the timers that are set and not cleared, with the generation token their
  closure captured. \<open>dp_log\<close> collects the calls of \<open>onState\<close> and \<open>onArrow\<close>.
\<close>

section \<open>Data\<close>

datatype direction = DUp | DDown | DLeft | DRight

datatype pad_phase = PIdle | PPending | PArmed | PMoving

record pad_config =
  pc_holdMs :: rat
  pc_pendingTravelPx :: rat
  pc_enterPx :: rat
  pc_exitPx :: rat
  pc_speedEdges :: "rat list"
  pc_speedHysteresisPx :: rat
  pc_axisSwitchRatio :: rat
  pc_rates :: "rat list"

definition DIRECTION_PAD_CONFIG :: pad_config where
  "DIRECTION_PAD_CONFIG = \<lparr>pc_holdMs = 380, pc_pendingTravelPx = 12, pc_enterPx = 24, pc_exitPx = 17,
     pc_speedEdges = [48, 76, 108], pc_speedHysteresisPx = 5, pc_axisSwitchRatio = 128 / 100,
     pc_rates = [1, 2, 4, 8]\<rparr>"

datatype pad_reason =
    Ready | HoldPending | ArmedCaptured | CenterPaused | DirectionAt direction rat | PreArmMovement
  | Because string

record pad_state =
  ps_phase :: pad_phase
  ps_fingerId :: "int option"
  ps_originX :: rat
  ps_originY :: rat
  ps_x :: rat
  ps_y :: rat
  ps_direction :: "direction option"
  ps_gear :: int
  ps_rate :: rat
  ps_count :: nat
  ps_reason :: pad_reason

datatype pad_call = OnState pad_state | OnArrow direction pad_state

datatype pad_timer = HoldTimer nat | RepeatTimer nat

record pad =
  dp_config :: pad_config
  dp_now :: "nat \<Rightarrow> rat"
  dp_reads :: nat
  dp_state :: pad_state
  dp_holdTimer :: "nat option"
  dp_repeatTimer :: "nat option"
  dp_lastKeyAt :: rat
  dp_generation :: nat
  dp_timers :: nat
  dp_armed :: "(nat \<times> pad_timer) list"
  dp_log :: "pad_call list"

record move_result =
  mr_owned :: bool
  mr_active :: bool
  mr_direction :: "direction option"
  mr_rate :: rat

definition IDLE_MOVE :: move_result where
  "IDLE_MOVE = \<lparr>mr_owned = False, mr_active = False, mr_direction = None, mr_rate = 0\<rparr>"

definition initialState :: "nat \<Rightarrow> pad_state" where
  "initialState count = \<lparr>ps_phase = PIdle, ps_fingerId = None, ps_originX = 0, ps_originY = 0, ps_x = 0, ps_y = 0,
     ps_direction = None, ps_gear = -1, ps_rate = 0, ps_count = count, ps_reason = Ready\<rparr>"

definition new_pad :: "pad_config \<Rightarrow> (nat \<Rightarrow> rat) \<Rightarrow> pad" where
  "new_pad config now = \<lparr>dp_config = config, dp_now = now, dp_reads = 0, dp_state = initialState 0,
     dp_holdTimer = None, dp_repeatTimer = None, dp_lastKeyAt = 0, dp_generation = 0, dp_timers = 0,
     dp_armed = [], dp_log = []\<rparr>"

section \<open>Geometry\<close>

definition is_vertical :: "direction \<Rightarrow> bool" where
  "is_vertical d \<longleftrightarrow> d = DUp \<or> d = DDown"

definition pickDirection :: "rat \<Rightarrow> rat \<Rightarrow> direction option \<Rightarrow> rat \<Rightarrow> direction" where
  "pickDirection dx dy previous axisSwitchRatio =
     (let ax = \<bar>dx\<bar>; ay = \<bar>dy\<bar>;
          fresh = (if ay \<le> ax then (if dx < 0 then DLeft else DRight) else (if dy < 0 then DUp else DDown))
      in case previous of
           None \<Rightarrow> fresh
         | Some p \<Rightarrow>
             if is_vertical p \<and> ax \<le> ay * axisSwitchRatio \<and> dy \<noteq> 0 then (if dy < 0 then DUp else DDown)
             else if \<not> is_vertical p \<and> ay \<le> ax * axisSwitchRatio \<and> dx \<noteq> 0 then (if dx < 0 then DLeft else DRight)
             else fresh)"

text \<open>The two loops of \<open>gearFor\<close>: up over the edges, then down.\<close>

function gear_up :: "pad_config \<Rightarrow> rat \<Rightarrow> nat \<Rightarrow> nat" where
  "gear_up cfg d2 gear =
     (if gear < length (pc_speedEdges cfg) \<and> \<not> shorter d2 (pc_speedEdges cfg ! gear + pc_speedHysteresisPx cfg)
      then gear_up cfg d2 (gear + 1) else gear)"
  by pat_completeness auto
termination
  by (relation "measure (\<lambda>(cfg, d2, gear). length (pc_speedEdges cfg) - gear)") auto

declare gear_up.simps [simp del]

fun gear_down :: "pad_config \<Rightarrow> rat \<Rightarrow> nat \<Rightarrow> nat" where
  "gear_down cfg d2 0 = 0"
| "gear_down cfg d2 (Suc gear) =
     (if shorter d2 (pc_speedEdges cfg ! gear - pc_speedHysteresisPx cfg) then gear_down cfg d2 gear else Suc gear)"

definition gearFor :: "pad_config \<Rightarrow> rat \<Rightarrow> int \<Rightarrow> int" where
  "gearFor cfg d2 previousGear = int (gear_down cfg d2 (gear_up cfg d2 (nat (max 0 previousGear))))"

section \<open>Operations\<close>

definition pad_clock :: "pad \<Rightarrow> rat \<times> pad" where
  "pad_clock p = (dp_now p (dp_reads p), p\<lparr>dp_reads := Suc (dp_reads p)\<rparr>)"

definition publish :: "pad \<Rightarrow> pad" where
  "publish p = p\<lparr>dp_log := dp_log p @ [OnState (dp_state p)]\<rparr>"

definition clear_timer :: "nat option \<Rightarrow> pad \<Rightarrow> pad" where
  "clear_timer timer p = (case timer of None \<Rightarrow> p | Some t \<Rightarrow> p\<lparr>dp_armed := AList.delete t (dp_armed p)\<rparr>)"

definition clearHoldTimer :: "pad \<Rightarrow> pad" where
  "clearHoldTimer p = (clear_timer (dp_holdTimer p) p)\<lparr>dp_holdTimer := None\<rparr>"

definition clearRepeatTimer :: "pad \<Rightarrow> pad" where
  "clearRepeatTimer p = (clear_timer (dp_repeatTimer p) p)\<lparr>dp_repeatTimer := None\<rparr>"

definition emitCurrent :: "pad \<Rightarrow> pad" where
  "emitCurrent p =
     (case ps_direction (dp_state p) of
        None \<Rightarrow> p
      | Some d \<Rightarrow>
          if ps_phase (dp_state p) \<noteq> PMoving then p
          else
            let (now, p1) = pad_clock p;
                p2 = p1\<lparr>dp_lastKeyAt := now, dp_state := (dp_state p1)\<lparr>ps_count := Suc (ps_count (dp_state p1))\<rparr>\<rparr>
            in publish (p2\<lparr>dp_log := dp_log p2 @ [OnArrow d (dp_state p2)]\<rparr>))"

definition schedule :: "pad \<Rightarrow> pad" where
  "schedule p =
     (let p1 = clearRepeatTimer p
      in if ps_phase (dp_state p1) \<noteq> PMoving \<or> ps_direction (dp_state p1) = None then p1
         else
           let (now, p2) = pad_clock p1
           in p2\<lparr>dp_repeatTimer := Some (dp_timers p2), dp_timers := Suc (dp_timers p2),
                  dp_armed := dp_armed p2 @ [(dp_timers p2, RepeatTimer (dp_generation p2))]\<rparr>)"

definition pad_start :: "int option \<Rightarrow> rat option \<Rightarrow> rat option \<Rightarrow> pad \<Rightarrow> bool \<times> pad" where
  "pad_start fingerId x y p =
     (case (fingerId, x, y) of
        (Some finger, Some x, Some y) \<Rightarrow>
          if ps_phase (dp_state p) \<noteq> PIdle then (False, p)
          else
            let p1 = p\<lparr>dp_generation := Suc (dp_generation p),
                       dp_state := (initialState (ps_count (dp_state p)))\<lparr>ps_phase := PPending, ps_fingerId := Some finger,
                         ps_originX := x, ps_originY := y, ps_x := x, ps_y := y, ps_reason := HoldPending\<rparr>\<rparr>;
                p2 = publish p1
            in (True, p2\<lparr>dp_holdTimer := Some (dp_timers p2), dp_timers := Suc (dp_timers p2),
                          dp_armed := dp_armed p2 @ [(dp_timers p2, HoldTimer (dp_generation p2))]\<rparr>)
      | _ \<Rightarrow> (False, p))"

definition hold_fires :: "nat \<Rightarrow> pad \<Rightarrow> pad" where
  "hold_fires token p =
     (if token \<noteq> dp_generation p \<or> ps_phase (dp_state p) \<noteq> PPending then p
      else publish (p\<lparr>dp_holdTimer := None,
             dp_state := (dp_state p)\<lparr>ps_phase := PArmed, ps_reason := ArmedCaptured\<rparr>\<rparr>))"

definition pad_cancel :: "pad_reason \<Rightarrow> pad \<Rightarrow> bool \<times> pad" where
  "pad_cancel reason p =
     (let hadGesture = (ps_phase (dp_state p) \<noteq> PIdle);
          p1 = clearRepeatTimer (clearHoldTimer (p\<lparr>dp_generation := Suc (dp_generation p)\<rparr>));
          p2 = p1\<lparr>dp_state := (initialState (ps_count (dp_state p1)))\<lparr>ps_reason := reason\<rparr>\<rparr>
      in (hadGesture, if hadGesture then publish p2 else p2))"

definition pad_end :: "int \<Rightarrow> pad_reason \<Rightarrow> pad \<Rightarrow> bool \<times> pad" where
  "pad_end fingerId reason p =
     (if ps_phase (dp_state p) = PIdle \<or> ps_fingerId (dp_state p) \<noteq> Some fingerId then (False, p)
      else (True, snd (pad_cancel reason p)))"

definition movePending :: "rat \<Rightarrow> rat \<Rightarrow> rat \<Rightarrow> pad \<Rightarrow> move_result \<times> pad" where
  "movePending x y d2 p =
     (if longer d2 (pc_pendingTravelPx (dp_config p)) then (IDLE_MOVE, snd (pad_cancel PreArmMovement p))
      else (\<lparr>mr_owned = False, mr_active = True, mr_direction = None, mr_rate = 0\<rparr>,
            publish (p\<lparr>dp_state := (dp_state p)\<lparr>ps_x := x, ps_y := y\<rparr>\<rparr>)))"

definition pad_move :: "int \<Rightarrow> rat option \<Rightarrow> rat option \<Rightarrow> pad \<Rightarrow> move_result \<times> pad" where
  "pad_move fingerId x y p =
     (case (x, y) of
        (Some x, Some y) \<Rightarrow>
          if ps_phase (dp_state p) = PIdle \<or> ps_fingerId (dp_state p) \<noteq> Some fingerId then (IDLE_MOVE, p)
          else
            let dx = x - ps_originX (dp_state p);
                dy = y - ps_originY (dp_state p);
                d2 = dx * dx + dy * dy
            in if ps_phase (dp_state p) = PPending then movePending x y d2 p
               else
                 let previous = ps_direction (dp_state p);
                     threshold = (if previous = None then pc_enterPx (dp_config p) else pc_exitPx (dp_config p));
                     direction = (if shorter d2 threshold then None
                       else Some (pickDirection dx dy previous (pc_axisSwitchRatio (dp_config p))));
                     gear = (if direction = None then -1
                       else gearFor (dp_config p) d2 (if direction = previous then ps_gear (dp_state p) else 0));
                     rate = (if direction = None then 0 else pc_rates (dp_config p) ! nat gear);
                     rateChanged = (rate \<noteq> ps_rate (dp_state p));
                     p1 = p\<lparr>dp_state := (dp_state p)\<lparr>ps_x := x, ps_y := y,
                         ps_phase := (if direction = None then PArmed else PMoving), ps_direction := direction,
                         ps_gear := gear, ps_rate := rate,
                         ps_reason := (case direction of None \<Rightarrow> CenterPaused | Some d \<Rightarrow> DirectionAt d rate)\<rparr>\<rparr>;
                     p2 = (if direction \<noteq> previous
                           then let q = clearRepeatTimer p1
                                in if direction \<noteq> None then schedule (emitCurrent q) else q
                           else if rateChanged \<and> direction \<noteq> None then schedule p1
                           else if direction = None then clearRepeatTimer p1 else p1)
                 in (\<lparr>mr_owned = True, mr_active = True, mr_direction = direction, mr_rate = rate\<rparr>, publish p2)
      | _ \<Rightarrow> (IDLE_MOVE, p))"

definition repeat_fires :: "nat \<Rightarrow> pad \<Rightarrow> pad" where
  "repeat_fires token p =
     (let p0 = p\<lparr>dp_repeatTimer := None\<rparr>
      in if token \<noteq> dp_generation p0 \<or> ps_phase (dp_state p0) \<noteq> PMoving \<or> ps_direction (dp_state p0) = None then p0
         else
           let (now, p1) = pad_clock p0;
               remaining = dp_lastKeyAt p1 + 1000 / ps_rate (dp_state p1) - now
           in if 2 < remaining then schedule p1 else schedule (emitCurrent p1))"

text \<open>A timer fires at most once, and only while it is armed.\<close>

definition timer_fires :: "nat \<Rightarrow> pad \<Rightarrow> pad" where
  "timer_fires timer p =
     (case map_of (dp_armed p) timer of
        None \<Rightarrow> p
      | Some t \<Rightarrow>
          let p1 = p\<lparr>dp_armed := AList.delete timer (dp_armed p)\<rparr>
          in case t of HoldTimer token \<Rightarrow> hold_fires token p1 | RepeatTimer token \<Rightarrow> repeat_fires token p1)"

datatype pad_event =
    PadStart "int option" "rat option" "rat option"
  | PadMove int "rat option" "rat option"
  | PadEnd int pad_reason
  | PadCancel pad_reason
  | PadTimer nat

fun pad_step :: "pad \<Rightarrow> pad_event \<Rightarrow> pad" where
  "pad_step p (PadStart finger x y) = snd (pad_start finger x y p)"
| "pad_step p (PadMove finger x y) = snd (pad_move finger x y p)"
| "pad_step p (PadEnd finger reason) = snd (pad_end finger reason p)"
| "pad_step p (PadCancel reason) = snd (pad_cancel reason p)"
| "pad_step p (PadTimer timer) = timer_fires timer p"

section \<open>Gears\<close>

lemma gear_up_result:
  "g \<le> length (pc_speedEdges cfg) \<Longrightarrow> g \<le> gear_up cfg d2 g \<and> gear_up cfg d2 g \<le> length (pc_speedEdges cfg)
     \<and> (gear_up cfg d2 g < length (pc_speedEdges cfg) \<longrightarrow>
          shorter d2 (pc_speedEdges cfg ! gear_up cfg d2 g + pc_speedHysteresisPx cfg))
     \<and> (g < gear_up cfg d2 g \<longrightarrow>
          \<not> shorter d2 (pc_speedEdges cfg ! (gear_up cfg d2 g - 1) + pc_speedHysteresisPx cfg))"
proof (induction cfg d2 g rule: gear_up.induct)
  case (1 cfg d2 g)
  show ?case
  proof (cases "g < length (pc_speedEdges cfg) \<and> \<not> shorter d2 (pc_speedEdges cfg ! g + pc_speedHysteresisPx cfg)")
    case False
    then have "gear_up cfg d2 g = g" by (subst gear_up.simps) (simp only: if_False)
    with False 1(2) show ?thesis by auto
  next
    case True
    then have up: "gear_up cfg d2 g = gear_up cfg d2 (g + 1)" by (subst gear_up.simps) (simp only: if_True simp_thms)
    have IH: "g + 1 \<le> gear_up cfg d2 (g + 1) \<and> gear_up cfg d2 (g + 1) \<le> length (pc_speedEdges cfg)
       \<and> (gear_up cfg d2 (g + 1) < length (pc_speedEdges cfg) \<longrightarrow>
            shorter d2 (pc_speedEdges cfg ! gear_up cfg d2 (g + 1) + pc_speedHysteresisPx cfg))
       \<and> (g + 1 < gear_up cfg d2 (g + 1) \<longrightarrow>
            \<not> shorter d2 (pc_speedEdges cfg ! (gear_up cfg d2 (g + 1) - 1) + pc_speedHysteresisPx cfg))"
      by (rule 1(1)) (use True in auto)
    show ?thesis
    proof (cases "g + 1 < gear_up cfg d2 (g + 1)")
      case True
      then show ?thesis using IH unfolding up by auto
    next
      case False
      then have "gear_up cfg d2 (g + 1) = g + 1" using IH by simp
      then show ?thesis using IH True unfolding up by auto
    qed
  qed
qed

lemma gear_down_result:
  "gear_down cfg d2 g \<le> g
     \<and> (0 < gear_down cfg d2 g \<longrightarrow> \<not> shorter d2 (pc_speedEdges cfg ! (gear_down cfg d2 g - 1) - pc_speedHysteresisPx cfg))
     \<and> (gear_down cfg d2 g < g \<longrightarrow> shorter d2 (pc_speedEdges cfg ! gear_down cfg d2 g - pc_speedHysteresisPx cfg))"
proof (induction g)
  case (Suc g)
  show ?case
  proof (cases "shorter d2 (pc_speedEdges cfg ! g - pc_speedHysteresisPx cfg)")
    case True
    show ?thesis
    proof (cases "gear_down cfg d2 g = g")
      case True
      then show ?thesis using Suc \<open>shorter _ _\<close> by simp
    next
      case False
      then show ?thesis using Suc \<open>shorter _ _\<close> by auto
    qed
  qed simp
qed simp

lemma gearFor_range: "previous \<le> int (length (pc_speedEdges cfg)) \<Longrightarrow>
    0 \<le> gearFor cfg d2 previous \<and> gearFor cfg d2 previous \<le> int (length (pc_speedEdges cfg))"
proof -
  assume "previous \<le> int (length (pc_speedEdges cfg))"
  then have "gear_up cfg d2 (nat (max 0 previous)) \<le> length (pc_speedEdges cfg)"
    using gear_up_result [of "nat (max 0 previous)" cfg d2] by linarith
  then have "gear_down cfg d2 (gear_up cfg d2 (nat (max 0 previous))) \<le> length (pc_speedEdges cfg)"
    using gear_down_result [of cfg d2 "gear_up cfg d2 (nat (max 0 previous))"] by linarith
  then show ?thesis by (simp add: gearFor_def)
qed


section \<open>Invariant\<close>

text \<open>
  The phases are what they claim to be: idle owns no finger and no timer; pending has exactly its hold
  timer armed, armed none, and moving exactly its repeat timer, with a gear and a rate from the table.
\<close>

definition config_ok :: "pad_config \<Rightarrow> bool" where
  "config_ok cfg \<longleftrightarrow> length (pc_rates cfg) = Suc (length (pc_speedEdges cfg))"

fun timers_for :: "pad_phase \<Rightarrow> nat \<Rightarrow> (nat \<times> pad_timer) list \<Rightarrow> nat option \<Rightarrow> nat option \<Rightarrow> bool" where
  "timers_for PIdle g armed hold rep \<longleftrightarrow> armed = [] \<and> hold = None \<and> rep = None"
| "timers_for PArmed g armed hold rep \<longleftrightarrow> armed = [] \<and> hold = None \<and> rep = None"
| "timers_for PPending g armed hold rep \<longleftrightarrow> (\<exists>t. armed = [(t, HoldTimer g)] \<and> hold = Some t) \<and> rep = None"
| "timers_for PMoving g armed hold rep \<longleftrightarrow> (\<exists>t. armed = [(t, RepeatTimer g)] \<and> rep = Some t) \<and> hold = None"

definition timers_ok :: "pad \<Rightarrow> bool" where
  "timers_ok p \<longleftrightarrow> timers_for (ps_phase (dp_state p)) (dp_generation p) (dp_armed p) (dp_holdTimer p) (dp_repeatTimer p)"

fun fields_for :: "pad_config \<Rightarrow> pad_phase \<Rightarrow> int option \<Rightarrow> direction option \<Rightarrow> int \<Rightarrow> rat \<Rightarrow> bool" where
  "fields_for cfg PMoving finger dir gear rate \<longleftrightarrow> finger \<noteq> None \<and> dir \<noteq> None
     \<and> 0 \<le> gear \<and> gear \<le> int (length (pc_speedEdges cfg)) \<and> rate = pc_rates cfg ! nat gear"
| "fields_for cfg PIdle finger dir gear rate \<longleftrightarrow> finger = None \<and> dir = None \<and> gear = -1 \<and> rate = 0"
| "fields_for cfg _ finger dir gear rate \<longleftrightarrow> finger \<noteq> None \<and> dir = None \<and> gear = -1 \<and> rate = 0"

definition phase_ok :: "pad_config \<Rightarrow> pad_state \<Rightarrow> bool" where
  "phase_ok cfg st \<longleftrightarrow> fields_for cfg (ps_phase st) (ps_fingerId st) (ps_direction st) (ps_gear st) (ps_rate st)"

definition pad_inv :: "pad \<Rightarrow> bool" where
  "pad_inv p \<longleftrightarrow> config_ok (dp_config p) \<and> phase_ok (dp_config p) (dp_state p) \<and> timers_ok p"

lemma pad_inv_new: "config_ok cfg \<Longrightarrow> pad_inv (new_pad cfg now)"
  by (simp add: pad_inv_def new_pad_def phase_ok_def timers_ok_def initialState_def)

lemma publish_simps [simp]:
  "dp_config (publish p) = dp_config p" "dp_state (publish p) = dp_state p" "dp_armed (publish p) = dp_armed p"
  "dp_holdTimer (publish p) = dp_holdTimer p" "dp_repeatTimer (publish p) = dp_repeatTimer p"
  "dp_generation (publish p) = dp_generation p" "dp_lastKeyAt (publish p) = dp_lastKeyAt p"
  by (simp_all add: publish_def)

lemma pad_inv_cong:
  "dp_config q = dp_config p \<Longrightarrow> dp_state q = dp_state p \<Longrightarrow> dp_armed q = dp_armed p \<Longrightarrow> dp_holdTimer q = dp_holdTimer p \<Longrightarrow>
     dp_repeatTimer q = dp_repeatTimer p \<Longrightarrow> dp_generation q = dp_generation p \<Longrightarrow> pad_inv q = pad_inv p"
  by (simp add: pad_inv_def timers_ok_def)

lemma pad_inv_publish [simp]: "pad_inv (publish p) = pad_inv p"
  by (rule pad_inv_cong) simp_all

lemma clear_empties:
  assumes "timers_ok p"
  shows "dp_armed (clearRepeatTimer (clearHoldTimer p)) = []"
    "ps_phase (dp_state p) \<noteq> PPending \<Longrightarrow> dp_armed (clearRepeatTimer p) = []"
  using assms
  by (cases "ps_phase (dp_state p)"; force simp: timers_ok_def clearRepeatTimer_def clearHoldTimer_def clear_timer_def)+

lemma clear_simps [simp]:
  "dp_config (clearRepeatTimer p) = dp_config p" "dp_state (clearRepeatTimer p) = dp_state p"
  "dp_holdTimer (clearRepeatTimer p) = dp_holdTimer p" "dp_repeatTimer (clearRepeatTimer p) = None"
  "dp_generation (clearRepeatTimer p) = dp_generation p" "dp_log (clearRepeatTimer p) = dp_log p"
  "dp_lastKeyAt (clearRepeatTimer p) = dp_lastKeyAt p" "dp_now (clearRepeatTimer p) = dp_now p"
  "dp_config (clearHoldTimer p) = dp_config p" "dp_state (clearHoldTimer p) = dp_state p"
  "dp_repeatTimer (clearHoldTimer p) = dp_repeatTimer p" "dp_holdTimer (clearHoldTimer p) = None"
  "dp_generation (clearHoldTimer p) = dp_generation p" "dp_log (clearHoldTimer p) = dp_log p"
  by (simp_all add: clearRepeatTimer_def clearHoldTimer_def clear_timer_def split: option.split)

lemma emit_simps [simp]:
  "dp_config (emitCurrent p) = dp_config p" "dp_armed (emitCurrent p) = dp_armed p"
  "dp_holdTimer (emitCurrent p) = dp_holdTimer p" "dp_repeatTimer (emitCurrent p) = dp_repeatTimer p"
  "dp_generation (emitCurrent p) = dp_generation p" "ps_phase (dp_state (emitCurrent p)) = ps_phase (dp_state p)"
  "ps_direction (dp_state (emitCurrent p)) = ps_direction (dp_state p)"
  "phase_ok cfg (dp_state (emitCurrent p)) = phase_ok cfg (dp_state p)"
  by (simp_all add: emitCurrent_def pad_clock_def Let_def phase_ok_def split: option.split)

lemma schedule_moving:
  assumes "config_ok (dp_config p)" "phase_ok (dp_config p) (dp_state p)" "ps_phase (dp_state p) = PMoving"
    "dp_armed (clearRepeatTimer p) = []" "dp_holdTimer p = None"
  shows "pad_inv (schedule p)"
  using assms
  by (auto simp: pad_inv_def schedule_def Let_def pad_clock_def phase_ok_def timers_ok_def)

lemma moving_direction: "phase_ok cfg st \<Longrightarrow> ps_phase st = PMoving \<Longrightarrow> ps_direction st \<noteq> None"
  by (simp add: phase_ok_def)

lemma pad_inv_cancel:
  assumes "pad_inv p" shows "pad_inv (snd (pad_cancel reason p))"
proof -
  have "dp_armed (clearRepeatTimer (clearHoldTimer (p\<lparr>dp_generation := g\<rparr>))) = []" for g
    using clear_empties(1) [of p] assms
    by (cases "ps_phase (dp_state p)")
      (auto simp: pad_inv_def timers_ok_def clearRepeatTimer_def clearHoldTimer_def clear_timer_def)
  then show ?thesis
    using assms by (auto simp: pad_cancel_def Let_def pad_inv_def phase_ok_def timers_ok_def initialState_def)
qed

lemma pad_inv_start: "pad_inv p \<Longrightarrow> pad_inv (snd (pad_start finger x y p))"
  by (auto simp: pad_start_def Let_def pad_inv_def phase_ok_def timers_ok_def initialState_def
      split: option.splits)

lemma pad_inv_if: "(b \<Longrightarrow> pad_inv p) \<Longrightarrow> (\<not> b \<Longrightarrow> pad_inv q) \<Longrightarrow> pad_inv (if b then p else q)"
  by simp

lemma pad_inv_move:
  assumes inv: "pad_inv p" shows "pad_inv (snd (pad_move finger x y p))"
proof (cases "x = None \<or> y = None \<or> ps_phase (dp_state p) = PIdle \<or> ps_fingerId (dp_state p) \<noteq> Some finger")
  case True
  then show ?thesis using inv by (auto simp: pad_move_def split: option.split)
next
  case False
  then obtain x' y' where xy: "x = Some x'" "y = Some y'" by auto
  have live: "ps_phase (dp_state p) \<noteq> PIdle" "ps_fingerId (dp_state p) = Some finger" using False by auto
  show ?thesis
  proof (cases "ps_phase (dp_state p) = PPending")
    case True
    have "pad_inv (p\<lparr>dp_state := (dp_state p)\<lparr>ps_x := x', ps_y := y'\<rparr>\<rparr>)"
      using inv True by (simp add: pad_inv_def phase_ok_def timers_ok_def)
    then show ?thesis using inv True live xy by (simp add: pad_move_def Let_def movePending_def pad_inv_cancel)
  next
    case notpending: False
    let ?dx = "x' - ps_originX (dp_state p)" and ?dy = "y' - ps_originY (dp_state p)"
    let ?d2 = "?dx * ?dx + ?dy * ?dy"
    let ?prev = "ps_direction (dp_state p)"
    define dir where "dir = (if shorter ?d2 (if ?prev = None then pc_enterPx (dp_config p) else pc_exitPx (dp_config p)) then None
      else Some (pickDirection ?dx ?dy ?prev (pc_axisSwitchRatio (dp_config p))))"
    define gear where "gear = (if dir = None then -1
      else gearFor (dp_config p) ?d2 (if dir = ?prev then ps_gear (dp_state p) else 0))"
    define rate where "rate = (if dir = None then 0 else pc_rates (dp_config p) ! nat gear)"
    let ?st = "(dp_state p)\<lparr>ps_x := x', ps_y := y', ps_phase := (if dir = None then PArmed else PMoving),
      ps_direction := dir, ps_gear := gear, ps_rate := rate,
      ps_reason := (case dir of None \<Rightarrow> CenterPaused | Some d \<Rightarrow> DirectionAt d rate)\<rparr>"
    let ?p1 = "p\<lparr>dp_state := ?st\<rparr>"
    let ?p2 = "if dir \<noteq> ?prev
       then let q = clearRepeatTimer ?p1 in if dir \<noteq> None then schedule (emitCurrent q) else q
       else if rate \<noteq> ps_rate (dp_state p) \<and> dir \<noteq> None then schedule ?p1
       else if dir = None then clearRepeatTimer ?p1 else ?p1"
    have eq: "snd (pad_move finger x y p) = publish ?p2"
      using live xy notpending unfolding pad_move_def dir_def gear_def rate_def
      by (simp only: option.case prod.case Let_def if_False simp_thms snd_conv)
    have cfg: "config_ok (dp_config p)" using inv by (simp add: pad_inv_def)
    have prev_gear: "ps_gear (dp_state p) \<le> int (length (pc_speedEdges (dp_config p)))"
      using inv by (cases "ps_phase (dp_state p)") (auto simp: pad_inv_def phase_ok_def)
    then have "(if dir = ?prev then ps_gear (dp_state p) else 0) \<le> int (length (pc_speedEdges (dp_config p)))" by simp
    note range = gearFor_range [OF this, of ?d2]
    have phase: "phase_ok (dp_config p) ?st"
      using live range by (simp add: phase_ok_def gear_def rate_def)
    have hold: "dp_holdTimer p = None"
      using inv live notpending by (cases "ps_phase (dp_state p)") (auto simp: pad_inv_def timers_ok_def)
    have cleared: "dp_armed (clearRepeatTimer ?p1) = []"
      using clear_empties(2) [of p] inv notpending by (simp add: pad_inv_def clearRepeatTimer_def clear_timer_def split: option.splits)
    have twice: "dp_armed (clearRepeatTimer (emitCurrent (clearRepeatTimer ?p1))) = []"
      using cleared by (simp add: clearRepeatTimer_def clear_timer_def split: option.splits)
    have "pad_inv (clearRepeatTimer ?p1)" if "dir = None"
      using that cfg phase hold cleared by (simp add: pad_inv_def timers_ok_def)
    moreover have "pad_inv (schedule (emitCurrent (clearRepeatTimer ?p1)))" if "dir \<noteq> None"
      using that cfg phase hold twice by (intro schedule_moving) simp_all
    moreover have "pad_inv (schedule ?p1)" if "dir \<noteq> None"
      using that cfg phase hold cleared by (intro schedule_moving) simp_all
    moreover have "pad_inv ?p1" if "dir \<noteq> None" "dir = ?prev"
    proof -
      have "ps_phase (dp_state p) = PMoving"
        using inv live notpending that by (cases "ps_phase (dp_state p)") (auto simp: pad_inv_def phase_ok_def)
      then show ?thesis using that inv cfg phase by (auto simp: pad_inv_def timers_ok_def)
    qed
    ultimately have "pad_inv ?p2" unfolding Let_def by (intro pad_inv_if) blast+
    then show ?thesis unfolding eq by (simp only: pad_inv_publish)
  qed
qed

lemma pad_inv_timer: "pad_inv p \<Longrightarrow> pad_inv (timer_fires t p)"
proof -
  assume inv: "pad_inv p"
  show ?thesis
  proof (cases "map_of (dp_armed p) t")
    case None
    with inv show ?thesis by (simp add: timer_fires_def)
  next
    case (Some tm)
    let ?p1 = "p\<lparr>dp_armed := AList.delete t (dp_armed p)\<rparr>"
    consider (hold) "ps_phase (dp_state p) = PPending" "dp_armed p = [(t, HoldTimer (dp_generation p))]" "dp_repeatTimer p = None"
      | (rep) "ps_phase (dp_state p) = PMoving" "dp_armed p = [(t, RepeatTimer (dp_generation p))]" "dp_holdTimer p = None"
      using inv Some by (cases "ps_phase (dp_state p)") (auto simp: pad_inv_def timers_ok_def split: if_splits)
    then show ?thesis
    proof cases
      case hold
      then show ?thesis
        using inv by (simp add: timer_fires_def hold_fires_def pad_inv_def phase_ok_def timers_ok_def)
    next
      case rep
      let ?p0 = "?p1\<lparr>dp_repeatTimer := None\<rparr>"
      let ?q = "snd (pad_clock ?p0)"
      have ok: "config_ok (dp_config p)" "phase_ok (dp_config p) (dp_state p)" using inv by (simp_all add: pad_inv_def)
      have "pad_inv (schedule ?q)" "pad_inv (schedule (emitCurrent ?q))"
        using ok rep by (intro schedule_moving; simp add: pad_clock_def clearRepeatTimer_def clear_timer_def)+
      then show ?thesis
        using rep moving_direction [OF ok(2) rep(1)]
        by (auto simp: timer_fires_def repeat_fires_def Let_def split_def)
    qed
  qed
qed

lemma pad_inv_step: "pad_inv p \<Longrightarrow> pad_inv (pad_step p e)"
  by (cases e) (simp_all add: pad_inv_start pad_inv_move pad_inv_cancel pad_inv_timer pad_end_def)

interpretation gesture: event_machine pad_step pad_inv
  by unfold_locales (rule pad_inv_step)


section \<open>Arrows\<close>

fun arrows_of :: "pad_call list \<Rightarrow> direction list" where
  "arrows_of [] = []"
| "arrows_of (OnArrow d st # cs) = d # arrows_of cs"
| "arrows_of (OnState st # cs) = arrows_of cs"

lemma arrows_append [simp]: "arrows_of (cs @ ds) = arrows_of cs @ arrows_of ds"
  by (induction cs rule: arrows_of.induct) auto

text \<open>How the arrows of a call grow: not at all, or by the current direction, which is counted.\<close>

definition emits :: "pad \<Rightarrow> pad \<Rightarrow> direction list \<Rightarrow> bool" where
  "emits p q ds \<longleftrightarrow> arrows_of (dp_log q) = arrows_of (dp_log p) @ ds
     \<and> ps_count (dp_state q) = ps_count (dp_state p) + length ds"

lemma emits_trans: "emits p q ds \<Longrightarrow> emits q r es \<Longrightarrow> emits p r (ds @ es)"
  by (simp add: emits_def)

lemma emits_publish: "emits p (publish q) ds = emits p q ds"
  by (simp add: emits_def publish_def)

lemma schedule_emits: "emits p (schedule p) []"
  by (auto simp: emits_def schedule_def Let_def pad_clock_def)

lemma schedule_keeps [simp]:
  "dp_lastKeyAt (schedule p) = dp_lastKeyAt p" "dp_state (schedule p) = dp_state p"
  by (simp_all add: schedule_def Let_def pad_clock_def)

lemma emitCurrent_emits:
  "ps_phase (dp_state p) = PMoving \<Longrightarrow> ps_direction (dp_state p) = Some d \<Longrightarrow> emits p (emitCurrent p) [d]
     \<and> dp_lastKeyAt (emitCurrent p) = dp_now p (dp_reads p)"
  by (simp add: emits_def emitCurrent_def pad_clock_def Let_def publish_def)

lemma cancel_emits: "emits p (snd (pad_cancel reason p)) []"
  by (auto simp: emits_def pad_cancel_def Let_def publish_def initialState_def)

lemma timer_emits:
  assumes "pad_inv p"
  shows "emits p (timer_fires t p) []
    \<or> (\<exists>d. emits p (timer_fires t p) [d] \<and> ps_direction (dp_state p) = Some d \<and> ps_phase (dp_state p) = PMoving
         \<and> dp_lastKeyAt p + 1000 / ps_rate (dp_state p) - 2 \<le> dp_now p (dp_reads p)
         \<and> dp_lastKeyAt (timer_fires t p) = dp_now p (Suc (dp_reads p)))"
proof (cases "map_of (dp_armed p) t")
  case None
  then show ?thesis by (simp add: timer_fires_def emits_def)
next
  case (Some tm)
  show ?thesis
  proof (cases tm)
    case (HoldTimer g)
    then have "emits p (timer_fires t p) []"
      using Some by (auto simp: timer_fires_def hold_fires_def emits_def publish_def Let_def)
    then show ?thesis ..
  next
    case (RepeatTimer g)
    let ?p0 = "p\<lparr>dp_armed := AList.delete t (dp_armed p), dp_repeatTimer := None\<rparr>"
    have fire: "timer_fires t p = repeat_fires g (p\<lparr>dp_armed := AList.delete t (dp_armed p)\<rparr>)"
      using Some RepeatTimer by (simp add: timer_fires_def)
    show ?thesis
    proof (cases "g \<noteq> dp_generation p \<or> ps_phase (dp_state p) \<noteq> PMoving \<or> ps_direction (dp_state p) = None")
      case True
      then show ?thesis unfolding fire by (auto simp: repeat_fires_def emits_def)
    next
      case False
      then obtain d where d: "ps_direction (dp_state p) = Some d" "ps_phase (dp_state p) = PMoving" by auto
      let ?q = "snd (pad_clock ?p0)"
      have q: "emits p ?q []" "ps_direction (dp_state ?q) = Some d" "ps_phase (dp_state ?q) = PMoving"
        "dp_now ?q (dp_reads ?q) = dp_now p (Suc (dp_reads p))"
        using d by (simp_all add: pad_clock_def emits_def)
      have eq: "timer_fires t p = (if 2 < dp_lastKeyAt p + 1000 / ps_rate (dp_state p) - dp_now p (dp_reads p)
          then schedule ?q else schedule (emitCurrent ?q))"
        unfolding fire using False d by (simp add: repeat_fires_def pad_clock_def Let_def)
      show ?thesis
      proof (cases "2 < dp_lastKeyAt p + 1000 / ps_rate (dp_state p) - dp_now p (dp_reads p)")
        case True
        have "emits p (schedule ?q) []" using emits_trans [OF q(1) schedule_emits] by simp
        then show ?thesis using True eq by simp
      next
        case False
        have "emits p (schedule (emitCurrent ?q)) ([] @ [d] @ [])"
          using emits_trans [OF q(1) emits_trans [OF conjunct1 [OF emitCurrent_emits] schedule_emits]] q by blast
        moreover have "dp_lastKeyAt (emitCurrent ?q) = dp_now p (Suc (dp_reads p))"
          using emitCurrent_emits [OF q(3,2)] q(4) by simp
        ultimately show ?thesis using False eq d by (intro disjI2 exI [of _ d]) simp
      qed
    qed
  qed
qed

lemma idle_step:
  assumes "pad_inv p" and "ps_phase (dp_state p) = PIdle" and "\<forall>f x y. e \<noteq> PadStart f x y"
  shows "dp_log (pad_step p e) = dp_log p \<and> ps_phase (dp_state (pad_step p e)) = PIdle"
proof (cases e)
  case (PadTimer t)
  have "dp_armed p = []" using assms(1,2) by (simp add: pad_inv_def timers_ok_def)
  then show ?thesis using PadTimer assms(2) by (simp add: timer_fires_def)
qed (use assms in \<open>auto simp: pad_move_def pad_end_def pad_cancel_def Let_def initialState_def split: option.split\<close>)

section \<open>Properties\<close>

text \<open>
  Timers and phases agree. After any events, an idle or armed pad has no timer set, a pending one
  exactly its hold timer and a moving one exactly one repeat timer; a direction, gear and rate exist
  exactly while moving, the gear inside the table; and an idle pad is silent: nothing but a new start
  publishes a state or emits an arrow.
\<close>

lemma pad_timers_match_phase:
  assumes "length (pc_rates cfg) = Suc (length (pc_speedEdges cfg))"
    and "p = foldl pad_step (new_pad cfg now) es"
  shows "length (dp_armed p) = (if ps_phase (dp_state p) = PPending \<or> ps_phase (dp_state p) = PMoving then 1 else 0)
    \<and> (ps_direction (dp_state p) \<noteq> None) = (ps_phase (dp_state p) = PMoving)
    \<and> (ps_fingerId (dp_state p) = None) = (ps_phase (dp_state p) = PIdle)
    \<and> (if ps_phase (dp_state p) = PMoving
       then 0 \<le> ps_gear (dp_state p) \<and> nat (ps_gear (dp_state p)) < length (pc_rates (dp_config p))
         \<and> ps_rate (dp_state p) = pc_rates (dp_config p) ! nat (ps_gear (dp_state p))
       else ps_rate (dp_state p) = 0)
    \<and> (if ps_phase (dp_state p) = PIdle
       then \<forall>e. (\<exists>f x y. e = PadStart f x y) \<or> dp_log (pad_step p e) = dp_log p else True)"
proof -
  have inv: "pad_inv p"
    unfolding assms(2) by (rule gesture.run_inv [OF pad_inv_new]) (simp add: config_ok_def assms(1))
  have "(\<exists>f x y. e = PadStart f x y) \<or> dp_log (pad_step p e) = dp_log p" if "ps_phase (dp_state p) = PIdle" for e
    using idle_step [OF inv that] by blast
  then have silent: "if ps_phase (dp_state p) = PIdle
       then \<forall>e. (\<exists>f x y. e = PadStart f x y) \<or> dp_log (pad_step p e) = dp_log p else True" by simp
  show ?thesis
    using inv by (intro conjI silent; cases "ps_phase (dp_state p)") (auto simp: pad_inv_def phase_ok_def timers_ok_def config_ok_def)
qed

text \<open>The band of a gear, widened by the hysteresis on both sides.\<close>

definition in_gear_band :: "pad_config \<Rightarrow> rat \<Rightarrow> nat \<Rightarrow> bool" where
  "in_gear_band cfg d2 g \<longleftrightarrow>
     (g < length (pc_speedEdges cfg) \<longrightarrow> shorter d2 (pc_speedEdges cfg ! g + pc_speedHysteresisPx cfg))
     \<and> (0 < g \<longrightarrow> \<not> shorter d2 (pc_speedEdges cfg ! (g - 1) - pc_speedHysteresisPx cfg))"

text \<open>
  The speed bands are Schmitt triggers. With a non-negative hysteresis the chosen gear lies in its
  widened band, and a gear whose widened band still contains the distance is kept, so a finger that
  trembles at an edge does not change the rate.
\<close>

lemma gear_hysteresis:
  assumes "0 \<le> pc_speedHysteresisPx cfg" and "0 \<le> previous" and "previous \<le> int (length (pc_speedEdges cfg))"
  shows "in_gear_band cfg d2 (nat (gearFor cfg d2 previous))
    \<and> (if in_gear_band cfg d2 (nat previous) then gearFor cfg d2 previous = previous else True)"
proof -
  define u where "u = gear_up cfg d2 (nat (max 0 previous))"
  have up: "u \<le> length (pc_speedEdges cfg)"
    "u < length (pc_speedEdges cfg) \<longrightarrow> shorter d2 (pc_speedEdges cfg ! u + pc_speedHysteresisPx cfg)"
    using gear_up_result [of "nat (max 0 previous)" cfg d2] assms(2,3) unfolding u_def by auto
  have g: "gearFor cfg d2 previous = int (gear_down cfg d2 u)" by (simp add: gearFor_def u_def)
  note down = gear_down_result [of cfg d2 u]
  have "shorter d2 (pc_speedEdges cfg ! gear_down cfg d2 u + pc_speedHysteresisPx cfg)"
    if "gear_down cfg d2 u < length (pc_speedEdges cfg)"
  proof (cases "gear_down cfg d2 u = u")
    case True
    then show ?thesis using up that by simp
  next
    case False
    then have "shorter d2 (pc_speedEdges cfg ! gear_down cfg d2 u - pc_speedHysteresisPx cfg)" using down by simp
    then show ?thesis by (rule shorter_mono) (use assms(1) in simp)
  qed
  then have band: "in_gear_band cfg d2 (nat (gearFor cfg d2 previous))" using down unfolding in_gear_band_def g by simp
  have "gearFor cfg d2 previous = previous" if b: "in_gear_band cfg d2 (nat previous)"
  proof -
    have "u = nat previous"
      unfolding u_def using b assms(2) by (subst gear_up.simps) (auto simp: in_gear_band_def)
    moreover have "gear_down cfg d2 (nat previous) = nat previous"
      using b by (cases "nat previous") (simp_all add: in_gear_band_def)
    ultimately show ?thesis using assms(2) unfolding g by simp
  qed
  with band show ?thesis by simp
qed

text \<open>
  Repeats are rate-limited and never catch up. After any events, a timer emits at most one arrow, in
  the current direction, counted once, and only when the period of the current rate (less the 2 ms of
  tolerance) has passed since the last arrow; the arrow re-anchors the clock.
\<close>

lemma repeat_rate_limited:
  assumes "length (pc_rates cfg) = Suc (length (pc_speedEdges cfg))"
    and "p = foldl pad_step (new_pad cfg now) es"
  shows "arrows_of (dp_log (pad_step p (PadTimer t))) = arrows_of (dp_log p)
    \<or> (\<exists>d. arrows_of (dp_log (pad_step p (PadTimer t))) = arrows_of (dp_log p) @ [d]
         \<and> ps_direction (dp_state p) = Some d
         \<and> ps_count (dp_state (pad_step p (PadTimer t))) = Suc (ps_count (dp_state p))
         \<and> dp_lastKeyAt p + 1000 / ps_rate (dp_state p) - 2 \<le> dp_now p (dp_reads p)
         \<and> dp_lastKeyAt (pad_step p (PadTimer t)) = dp_now p (Suc (dp_reads p)))"
proof -
  have "pad_inv p"
    unfolding assms(2) by (rule gesture.run_inv [OF pad_inv_new]) (simp add: config_ok_def assms(1))
  from timer_emits [OF this, of t] show ?thesis by (auto simp: emits_def)
qed

end
