(* ===== verification/App_Swipe.thy ===== *)
theory App_Swipe
  imports Nession_Prelude
begin

text \<open>
  The App shell's swipe machine
  (\<^verbatim>\<open>swipeGesture.ts\<close>, \<^verbatim>\<open>edgeBand.ts\<close> and \<^verbatim>\<open>gesture.ts\<close> in
  \<^verbatim>\<open>web/src/app/experiences/app/\<close>).

  Coordinates and times are rationals. What the machine reads from its options and from the DOM while
  it handles an event (may the shell page, who owns the target, the shell bounds, the pager's index and
  page count) is the event's \<open>swipe_env\<close>; the clock is read as often as the code reads it.
\<close>

section \<open>Constants and edges\<close>

definition SWIPE_SLOP_PX :: rat where
  "SWIPE_SLOP_PX = 12"

definition SWIPE_VERTICAL_DOMINANCE :: rat where
  "SWIPE_VERTICAL_DOMINANCE = 85 / 100"

definition SWIPE_COMMIT_MIN_PX :: rat where
  "SWIPE_COMMIT_MIN_PX = 64"

definition SWIPE_COMMIT_FRACTION :: rat where
  "SWIPE_COMMIT_FRACTION = 18 / 100"

definition SWIPE_FLICK_MIN_PX :: rat where
  "SWIPE_FLICK_MIN_PX = 40"

definition SWIPE_FLICK_VELOCITY_PX_PER_MS :: rat where
  "SWIPE_FLICK_VELOCITY_PX_PER_MS = 45 / 100"

definition SWIPE_MAX_REVEAL_FRACTION :: rat where
  "SWIPE_MAX_REVEAL_FRACTION = 8 / 10"

definition SWIPE_RESIST_FACTOR :: rat where
  "SWIPE_RESIST_FACTOR = 18 / 100"

definition SWIPE_RESIST_MAX_PX :: rat where
  "SWIPE_RESIST_MAX_PX = 24"

definition EDGE_PLATFORM_GUARD_PX :: rat where
  "EDGE_PLATFORM_GUARD_PX = 24"

definition EDGE_BAND_PX :: rat where
  "EDGE_BAND_PX = 28"

definition swipeCommitThreshold :: "rat \<Rightarrow> rat" where
  "swipeCommitThreshold shellWidth = max SWIPE_COMMIT_MIN_PX (shellWidth * SWIPE_COMMIT_FRACTION)"

record shell_bounds =
  sb_left :: rat
  sb_right :: rat

datatype edge_side = LeftEdge | RightEdge

definition edgeBandSide :: "rat \<Rightarrow> shell_bounds \<Rightarrow> rat \<Rightarrow> edge_side option" where
  "edgeBandSide clientX bounds guardPx =
     (let leftStart = sb_left bounds + guardPx; rightEnd = sb_right bounds - guardPx
      in if leftStart \<le> clientX \<and> clientX \<le> min (leftStart + EDGE_BAND_PX) (sb_right bounds) then Some LeftEdge
         else if clientX \<le> rightEnd \<and> max (rightEnd - EDGE_BAND_PX) (sb_left bounds) \<le> clientX then Some RightEdge
         else None)"

definition platformGuardSide :: "rat \<Rightarrow> shell_bounds \<Rightarrow> rat \<Rightarrow> edge_side option" where
  "platformGuardSide clientX bounds guardPx =
     (if sb_left bounds \<le> clientX \<and> clientX < sb_left bounds + guardPx then Some LeftEdge
      else if clientX \<le> sb_right bounds \<and> sb_right bounds - guardPx < clientX then Some RightEdge
      else None)"

fun edgeOwnsDrag :: "edge_side \<Rightarrow> rat \<Rightarrow> bool" where
  "edgeOwnsDrag LeftEdge deltaX \<longleftrightarrow> 0 < deltaX"
| "edgeOwnsDrag RightEdge deltaX \<longleftrightarrow> deltaX < 0"

section \<open>State\<close>

datatype swipe_phase = SIdle | SCandidate | SNavigation | SResisting | SSettling | SContent

datatype swipe_reason =
    ShellStanddown | InteractiveOwner | ActiveSelection | PlatformGuard | UnmeasurableShell | SurfaceInterior
  | EdgeDirection | NoDestination | Vertical | ByDistance | ByVelocity | BelowThreshold | CandidateEnded
  | ContentEnded | IdleEnded | CancelledFor string

record swipe_touch =
  st_identifier :: int
  st_clientX :: rat
  st_clientY :: rat

record swipe_snapshot =
  ss_phase :: swipe_phase
  ss_offset :: rat
  ss_destinationIndex :: "int option"
  ss_direction :: int
  ss_reason :: "swipe_reason option"

record swipe_move_result =
  sm_snapshot :: swipe_snapshot
  sm_preventDefault :: bool

datatype swipe_outcome = ONone | OCommit | OSnapback

record swipe_end_result =
  se_outcome :: swipe_outcome
  se_destinationIndex :: "int option"
  se_reason :: swipe_reason
  se_travel :: rat
  se_velocity :: rat
  se_threshold :: rat

text \<open>What the options and the DOM predicates on the touch's target answer during one event.\<close>

record swipe_env =
  sv_shellMayPage :: bool
  sv_isInteractiveOwner :: bool
  sv_hasActiveSelection :: bool
  sv_isWorkSurface :: bool
  sv_shellBounds :: "shell_bounds option"
  sv_index :: int
  sv_pageCount :: int

record swipe =
  sw_now :: "nat \<Rightarrow> rat"
  sw_reads :: nat
  sw_phase :: swipe_phase
  sw_offset :: rat
  sw_destinationIndex :: "int option"
  sw_direction :: int
  sw_reason :: "swipe_reason option"
  sw_identifier :: "int option"
  sw_edge :: "edge_side option"
  sw_startX :: rat
  sw_startY :: rat
  sw_startTime :: rat
  sw_lastX :: rat
  sw_shellWidth :: rat

definition new_swipe :: "(nat \<Rightarrow> rat) \<Rightarrow> swipe" where
  "new_swipe now = \<lparr>sw_now = now, sw_reads = 0, sw_phase = SIdle, sw_offset = 0, sw_destinationIndex = None,
     sw_direction = 0, sw_reason = None, sw_identifier = None, sw_edge = None, sw_startX = 0, sw_startY = 0,
     sw_startTime = 0, sw_lastX = 0, sw_shellWidth = 0\<rparr>"

definition swipe_clock :: "swipe \<Rightarrow> rat \<times> swipe" where
  "swipe_clock s = (sw_now s (sw_reads s), s\<lparr>sw_reads := Suc (sw_reads s)\<rparr>)"

definition directionOf :: "rat \<Rightarrow> int" where
  "directionOf dx = (if 0 < dx then 1 else if dx < 0 then -1 else 0)"

definition resist :: "rat \<Rightarrow> rat" where
  "resist dx = of_int (directionOf dx) * min (\<bar>dx\<bar> * SWIPE_RESIST_FACTOR) SWIPE_RESIST_MAX_PX"

definition swipe_snapshot_of :: "swipe \<Rightarrow> swipe_snapshot" where
  "swipe_snapshot_of s = \<lparr>ss_phase = sw_phase s, ss_offset = sw_offset s,
     ss_destinationIndex = sw_destinationIndex s, ss_direction = sw_direction s, ss_reason = sw_reason s\<rparr>"

definition isTracking :: "int \<Rightarrow> swipe \<Rightarrow> bool" where
  "isTracking identifier s \<longleftrightarrow> sw_identifier s = Some identifier"

definition swipe_reset :: "swipe_reason \<Rightarrow> swipe \<Rightarrow> swipe" where
  "swipe_reset reason s = s\<lparr>sw_phase := SIdle, sw_offset := 0, sw_destinationIndex := None, sw_direction := 0,
     sw_identifier := None, sw_edge := None, sw_reason := Some reason\<rparr>"

section \<open>Start\<close>

definition start_refused :: "swipe_reason \<Rightarrow> swipe \<Rightarrow> bool \<times> swipe" where
  "start_refused reason s = (False, s\<lparr>sw_reason := Some reason\<rparr>)"

definition start_candidate :: "swipe_touch \<Rightarrow> edge_side option \<Rightarrow> shell_bounds option \<Rightarrow> swipe \<Rightarrow> bool \<times> swipe" where
  "start_candidate touch edge bounds s =
     (let (t, s) = swipe_clock (s\<lparr>sw_phase := SCandidate, sw_identifier := Some (st_identifier touch), sw_edge := edge,
            sw_startX := st_clientX touch, sw_startY := st_clientY touch, sw_lastX := st_clientX touch\<rparr>)
      in (True, s\<lparr>sw_startTime := t, sw_offset := 0, sw_destinationIndex := None, sw_direction := 0, sw_reason := None,
            sw_shellWidth := (case bounds of None \<Rightarrow> 0 | Some b \<Rightarrow> max 0 (sb_right b - sb_left b))\<rparr>))"

definition swipe_start :: "swipe_env \<Rightarrow> swipe_touch \<Rightarrow> swipe \<Rightarrow> bool \<times> swipe" where
  "swipe_start env touch s =
     (let bounds = sv_shellBounds env; x = st_clientX touch
      in if sw_phase s \<noteq> SIdle \<or> sw_identifier s \<noteq> None then (False, s)
         else if \<not> sv_shellMayPage env then start_refused ShellStanddown s
         else if sv_isInteractiveOwner env then start_refused InteractiveOwner s
         else if sv_hasActiveSelection env then start_refused ActiveSelection s
         else if (case bounds of None \<Rightarrow> False | Some b \<Rightarrow> platformGuardSide x b EDGE_PLATFORM_GUARD_PX \<noteq> None)
           then start_refused PlatformGuard s
         else if \<not> sv_isWorkSurface env then start_candidate touch None bounds s
         else case bounds of
             None \<Rightarrow> start_refused UnmeasurableShell s
           | Some b \<Rightarrow>
               (case edgeBandSide x b EDGE_PLATFORM_GUARD_PX of
                  None \<Rightarrow> start_refused SurfaceInterior s
                | Some side \<Rightarrow> start_candidate touch (Some side) bounds s))"

section \<open>Move\<close>

definition maxReveal :: "swipe \<Rightarrow> rat option" where
  "maxReveal s = (if sw_shellWidth s \<le> 0 then None else Some (sw_shellWidth s * SWIPE_MAX_REVEAL_FRACTION))"

text \<open>\<open>Math.min(v, limit)\<close>, where no limit is \<open>Number.POSITIVE_INFINITY\<close>.\<close>

definition min_reveal :: "rat \<Rightarrow> rat option \<Rightarrow> rat" where
  "min_reveal v limit = (case limit of None \<Rightarrow> v | Some l \<Rightarrow> min v l)"

definition vertical :: "rat \<Rightarrow> rat \<Rightarrow> bool" where
  "vertical dx dy \<longleftrightarrow> \<bar>dx\<bar> * SWIPE_VERTICAL_DOMINANCE < \<bar>dy\<bar>"

definition giveToContent :: "rat \<Rightarrow> rat \<Rightarrow> swipe \<Rightarrow> bool \<times> swipe" where
  "giveToContent dx dy s = (if vertical dx dy then (True, swipe_reset Vertical s) else (False, s))"

definition destinationFor :: "swipe_env \<Rightarrow> rat \<Rightarrow> int option" where
  "destinationFor env dx =
     (let direction = directionOf dx; dest = sv_index env - direction
      in if direction = 0 then None else if 0 \<le> dest \<and> dest < sv_pageCount env then Some dest else None)"

definition claim :: "int \<Rightarrow> rat \<Rightarrow> swipe \<Rightarrow> swipe" where
  "claim destination dx s = s\<lparr>sw_phase := SNavigation, sw_destinationIndex := Some destination,
     sw_direction := directionOf dx, sw_reason := None,
     sw_offset := of_int (directionOf dx) * min_reveal \<bar>dx\<bar> (maxReveal s)\<rparr>"

definition move_answer :: "bool \<Rightarrow> swipe \<Rightarrow> swipe_move_result \<times> swipe" where
  "move_answer prevent s = (\<lparr>sm_snapshot = swipe_snapshot_of s, sm_preventDefault = prevent\<rparr>, s)"

definition surrender :: "swipe_reason \<Rightarrow> swipe \<Rightarrow> swipe_move_result \<times> swipe" where
  "surrender reason s = move_answer False (swipe_reset reason s)"

definition wrong_edge :: "rat \<Rightarrow> swipe \<Rightarrow> bool" where
  "wrong_edge dx s \<longleftrightarrow> (case sw_edge s of None \<Rightarrow> False | Some side \<Rightarrow> \<not> edgeOwnsDrag side dx)"

definition move_candidate :: "swipe_env \<Rightarrow> rat \<Rightarrow> rat \<Rightarrow> swipe \<Rightarrow> swipe_move_result \<times> swipe" where
  "move_candidate env dx dy s =
     (if shorter (dx * dx + dy * dy) SWIPE_SLOP_PX then move_answer False s
      else let (given, s') = giveToContent dx dy s
           in if given then move_answer False s'
              else if wrong_edge dx s then surrender EdgeDirection s
              else case destinationFor env dx of
                  None \<Rightarrow> move_answer True (s\<lparr>sw_phase := SResisting, sw_direction := directionOf dx,
                            sw_offset := resist dx, sw_reason := Some NoDestination\<rparr>)
                | Some destination \<Rightarrow> move_answer True (claim destination dx s))"

definition move_resisting :: "swipe_env \<Rightarrow> rat \<Rightarrow> rat \<Rightarrow> swipe \<Rightarrow> swipe_move_result \<times> swipe" where
  "move_resisting env dx dy s =
     (let (given, s') = giveToContent dx dy s
      in if given then move_answer False s'
         else if wrong_edge dx s then surrender EdgeDirection s
         else case destinationFor env dx of
             Some destination \<Rightarrow> move_answer True (claim destination dx s)
           | None \<Rightarrow> move_answer True (s\<lparr>sw_direction := directionOf dx, sw_offset := resist dx\<rparr>))"

definition move_navigation :: "rat \<Rightarrow> swipe \<Rightarrow> swipe_move_result \<times> swipe" where
  "move_navigation dx s =
     (let forward = max 0 (dx * of_int (sw_direction s))
      in move_answer True (s\<lparr>sw_offset := of_int (sw_direction s) * min_reveal forward (maxReveal s)\<rparr>))"

definition swipe_move :: "swipe_env \<Rightarrow> swipe_touch \<Rightarrow> swipe \<Rightarrow> swipe_move_result \<times> swipe" where
  "swipe_move env touch s =
     (if sw_identifier s = None \<or> Some (st_identifier touch) \<noteq> sw_identifier s
         \<or> sw_phase s = SIdle \<or> sw_phase s = SContent \<or> sw_phase s = SSettling
      then move_answer False s
      else let s = s\<lparr>sw_lastX := st_clientX touch\<rparr>;
               dx = st_clientX touch - sw_startX s; dy = st_clientY touch - sw_startY s
           in if sw_phase s = SCandidate then move_candidate env dx dy s
              else if sw_phase s = SResisting then move_resisting env dx dy s
              else move_navigation dx s)"

section \<open>End and cancel\<close>

definition swipe_result :: "swipe_outcome \<Rightarrow> swipe_reason \<Rightarrow> rat \<Rightarrow> rat \<Rightarrow> swipe \<Rightarrow> swipe_end_result" where
  "swipe_result outcome reason travel velocity s = \<lparr>se_outcome = outcome, se_destinationIndex = None,
     se_reason = reason, se_travel = travel, se_velocity = velocity, se_threshold = swipeCommitThreshold (sw_shellWidth s)\<rparr>"

definition end_navigation :: "int \<Rightarrow> swipe \<Rightarrow> swipe_end_result \<times> swipe" where
  "end_navigation destination s =
     (let travel = max 0 ((sw_lastX s - sw_startX s) * of_int (sw_direction s));
          (t, s) = swipe_clock s;
          velocity = travel / max 1 (t - sw_startTime s);
          threshold = swipeCommitThreshold (sw_shellWidth s);
          byDistance = (threshold \<le> travel);
          byVelocity = (SWIPE_FLICK_MIN_PX \<le> travel \<and> SWIPE_FLICK_VELOCITY_PX_PER_MS \<le> velocity);
          reason = (if byDistance then ByDistance else if byVelocity then ByVelocity else BelowThreshold)
      in (\<lparr>se_outcome = (if byDistance \<or> byVelocity then OCommit else OSnapback),
           se_destinationIndex = Some destination, se_reason = reason, se_travel = travel,
           se_velocity = velocity, se_threshold = threshold\<rparr>, swipe_reset reason s))"

definition end_resisting :: "swipe \<Rightarrow> swipe_end_result \<times> swipe" where
  "end_resisting s =
     (let travel = max 0 ((sw_lastX s - sw_startX s) * of_int (sw_direction s));
          (t, s) = swipe_clock s
      in (swipe_result OSnapback NoDestination travel (travel / max 1 (t - sw_startTime s)) s,
          swipe_reset NoDestination s))"

definition swipe_end :: "swipe_touch option \<Rightarrow> swipe \<Rightarrow> swipe_end_result \<times> swipe" where
  "swipe_end touch s =
     (if sw_identifier s = None then (swipe_result ONone IdleEnded 0 0 s, s)
      else let s = (case touch of None \<Rightarrow> s | Some t \<Rightarrow> s\<lparr>sw_lastX := st_clientX t\<rparr>)
           in case (sw_phase s, sw_destinationIndex s) of
                (SNavigation, Some destination) \<Rightarrow> end_navigation destination s
              | (SResisting, _) \<Rightarrow> end_resisting s
              | (SCandidate, _) \<Rightarrow> (swipe_result ONone CandidateEnded 0 0 s, swipe_reset CandidateEnded s)
              | _ \<Rightarrow> (swipe_result ONone ContentEnded 0 0 s, swipe_reset ContentEnded s))"

definition swipe_cancel :: "string \<Rightarrow> swipe \<Rightarrow> swipe_snapshot \<times> swipe" where
  "swipe_cancel reason s =
     (if sw_identifier s = None \<and> sw_phase s = SIdle
      then let s = s\<lparr>sw_reason := Some (CancelledFor reason)\<rparr> in (swipe_snapshot_of s, s)
      else let s = swipe_reset (CancelledFor reason) s in (swipe_snapshot_of s, s))"

datatype swipe_event =
    SwipeStart swipe_env swipe_touch
  | SwipeMove swipe_env swipe_touch
  | SwipeEnd "swipe_touch option"
  | SwipeCancel string

fun swipe_step :: "swipe \<Rightarrow> swipe_event \<Rightarrow> swipe" where
  "swipe_step s (SwipeStart env touch) = snd (swipe_start env touch s)"
| "swipe_step s (SwipeMove env touch) = snd (swipe_move env touch s)"
| "swipe_step s (SwipeEnd touch) = snd (swipe_end touch s)"
| "swipe_step s (SwipeCancel reason) = snd (swipe_cancel reason s)"

section \<open>Invariant\<close>

text \<open>What each phase means for the other fields; \<open>SSettling\<close> and \<open>SContent\<close> are never entered.\<close>

fun phase_fields :: "swipe_phase \<Rightarrow> swipe \<Rightarrow> bool" where
  "phase_fields SIdle s \<longleftrightarrow> sw_identifier s = None \<and> sw_destinationIndex s = None \<and> sw_direction s = 0 \<and> sw_offset s = 0
     \<and> sw_edge s = None"
| "phase_fields SCandidate s \<longleftrightarrow> sw_identifier s \<noteq> None \<and> sw_destinationIndex s = None \<and> sw_direction s = 0 \<and> sw_offset s = 0"
| "phase_fields SResisting s \<longleftrightarrow> sw_identifier s \<noteq> None \<and> sw_destinationIndex s = None
     \<and> sw_direction s \<in> {-1, 0, 1} \<and> 0 \<le> sw_offset s * of_int (sw_direction s) \<and> \<bar>sw_offset s\<bar> \<le> SWIPE_RESIST_MAX_PX"
| "phase_fields SNavigation s \<longleftrightarrow> sw_identifier s \<noteq> None \<and> sw_destinationIndex s \<noteq> None
     \<and> sw_direction s \<in> {-1, 1} \<and> 0 \<le> sw_offset s * of_int (sw_direction s)
     \<and> (sw_shellWidth s > 0 \<longrightarrow> \<bar>sw_offset s\<bar> \<le> sw_shellWidth s * SWIPE_MAX_REVEAL_FRACTION)"
| "phase_fields SSettling s \<longleftrightarrow> False"
| "phase_fields SContent s \<longleftrightarrow> False"

definition swipe_inv :: "swipe \<Rightarrow> bool" where
  "swipe_inv s \<longleftrightarrow> phase_fields (sw_phase s) s"

lemma swipe_inv_new: "swipe_inv (new_swipe now)"
  by (simp add: swipe_inv_def new_swipe_def)

lemma swipe_inv_reset [simp]: "swipe_inv (swipe_reset reason s)"
  by (simp add: swipe_inv_def swipe_reset_def)

lemma move_answer_snd [simp]: "snd (move_answer b s) = s"
  by (simp add: move_answer_def)

lemma surrender_snd [simp]: "snd (surrender r s) = swipe_reset r s"
  by (simp add: surrender_def)

lemma directionOf_cases: "directionOf dx \<in> {-1, 0, 1}"
  by (simp add: directionOf_def)

lemma directionOf_abs: "directionOf dx \<noteq> 0 \<Longrightarrow> \<bar>of_int (directionOf dx) * r\<bar> = \<bar>r :: rat\<bar>"
  by (simp add: directionOf_def split: if_splits)

lemma resist_bounds: "0 \<le> resist dx * of_int (directionOf dx) \<and> \<bar>resist dx\<bar> \<le> SWIPE_RESIST_MAX_PX"
  by (simp add: resist_def directionOf_def SWIPE_RESIST_MAX_PX_def SWIPE_RESIST_FACTOR_def)

lemma min_reveal_bounds:
  assumes "0 \<le> v"
  shows "0 \<le> min_reveal v (maxReveal s)"
    and "0 < sw_shellWidth s \<Longrightarrow> \<bar>min_reveal v (maxReveal s)\<bar> \<le> sw_shellWidth s * SWIPE_MAX_REVEAL_FRACTION"
  using assms by (auto simp: min_reveal_def maxReveal_def SWIPE_MAX_REVEAL_FRACTION_def)

lemma destinationFor_Some:
  "destinationFor env dx = Some d \<longleftrightarrow>
     directionOf dx \<noteq> 0 \<and> d = sv_index env - directionOf dx \<and> 0 \<le> d \<and> d < sv_pageCount env"
  by (auto simp: destinationFor_def Let_def)

lemma swipe_inv_claim:
  assumes "sw_identifier s \<noteq> None" and "destinationFor env dx = Some d"
  shows "swipe_inv (claim d dx s)"
proof -
  have dir: "directionOf dx \<in> {-1, 1}" "directionOf dx \<noteq> 0"
    using assms(2) directionOf_cases [of dx] by (auto simp: destinationFor_Some)
  let ?r = "min_reveal \<bar>dx\<bar> (maxReveal s)"
  have "0 \<le> (of_int (directionOf dx) * ?r) * of_int (directionOf dx)"
    using dir(1) min_reveal_bounds(1) [of "\<bar>dx\<bar>" s] by auto
  moreover have "\<bar>of_int (directionOf dx) * ?r\<bar> = \<bar>?r\<bar>" using dir(2) by (rule directionOf_abs)
  ultimately show ?thesis
    using assms(1) dir(1) min_reveal_bounds(2) [of "\<bar>dx\<bar>" s] by (simp add: swipe_inv_def claim_def)
qed

lemma swipe_inv_resisting:
  "sw_identifier s \<noteq> None \<Longrightarrow> sw_destinationIndex s = None \<Longrightarrow>
     swipe_inv (s\<lparr>sw_phase := SResisting, sw_direction := directionOf dx, sw_offset := resist dx, sw_reason := r\<rparr>)"
  using resist_bounds [of dx] directionOf_cases [of dx] by (simp add: swipe_inv_def)

lemma swipe_inv_start: "swipe_inv s \<Longrightarrow> swipe_inv (snd (swipe_start env touch s))"
  by (cases "sw_phase s")
    (auto simp: swipe_start_def start_refused_def start_candidate_def swipe_clock_def swipe_inv_def Let_def split: option.split)

lemma move_candidate_result:
  "snd (move_candidate env dx dy s) \<in>
     {s, swipe_reset Vertical s, swipe_reset EdgeDirection s,
      s\<lparr>sw_phase := SResisting, sw_direction := directionOf dx, sw_offset := resist dx, sw_reason := Some NoDestination\<rparr>}
   \<or> (\<exists>d. destinationFor env dx = Some d \<and> \<not> vertical dx dy \<and> \<not> wrong_edge dx s \<and> snd (move_candidate env dx dy s) = claim d dx s)"
  by (auto simp: move_candidate_def giveToContent_def split: option.split)

lemma move_resisting_result:
  "snd (move_resisting env dx dy s) \<in>
     {s, swipe_reset Vertical s, swipe_reset EdgeDirection s,
      s\<lparr>sw_phase := sw_phase s, sw_direction := directionOf dx, sw_offset := resist dx, sw_reason := sw_reason s\<rparr>}
   \<or> (\<exists>d. destinationFor env dx = Some d \<and> \<not> vertical dx dy \<and> \<not> wrong_edge dx s \<and> snd (move_resisting env dx dy s) = claim d dx s)"
  by (auto simp: move_resisting_def giveToContent_def split: option.split)

lemma swipe_inv_navigation:
  assumes "swipe_inv s" and "sw_phase s = SNavigation"
  shows "swipe_inv (snd (move_navigation dx s))"
proof -
  define r where "r = min_reveal (max 0 (dx * of_int (sw_direction s))) (maxReveal s)"
  have r: "0 \<le> r" "sw_shellWidth s > 0 \<Longrightarrow> \<bar>r\<bar> \<le> sw_shellWidth s * SWIPE_MAX_REVEAL_FRACTION"
    unfolding r_def by (rule min_reveal_bounds; simp)+
  have "sw_direction s = 1 \<or> sw_direction s = -1" using assms by (auto simp: swipe_inv_def)
  then have "swipe_inv (s\<lparr>sw_offset := of_int (sw_direction s) * r\<rparr>)"
    using assms r by (auto simp: swipe_inv_def)
  then show ?thesis by (simp add: move_navigation_def Let_def r_def)
qed

lemma swipe_inv_move: "swipe_inv s \<Longrightarrow> swipe_inv (snd (swipe_move env touch s))"
proof -
  assume inv: "swipe_inv s"
  let ?s = "s\<lparr>sw_lastX := st_clientX touch\<rparr>"
  let ?dx = "st_clientX touch - sw_startX s" and ?dy = "st_clientY touch - sw_startY s"
  show ?thesis
  proof (cases "sw_phase s")
    case SCandidate
    have "swipe_inv ?s" "sw_identifier ?s \<noteq> None" "sw_destinationIndex ?s = None"
      using inv SCandidate by (simp_all add: swipe_inv_def)
    then show ?thesis
      using inv SCandidate move_candidate_result [of env ?dx ?dy ?s] swipe_inv_claim [of ?s env ?dx]
        swipe_inv_resisting [where s = ?s and dx = ?dx and r = "Some NoDestination"]
      by (auto simp: swipe_move_def Let_def)
  next
    case SResisting
    have "sw_identifier ?s \<noteq> None" "sw_destinationIndex ?s = None"
      using inv SResisting by (simp_all add: swipe_inv_def)
    moreover from this
    have "swipe_inv ?s" "swipe_inv (?s\<lparr>sw_phase := SResisting, sw_direction := directionOf ?dx, sw_offset := resist ?dx\<rparr>)"
      using inv SResisting resist_bounds [of ?dx] directionOf_cases [of ?dx] by (simp_all add: swipe_inv_def)
    ultimately show ?thesis
      using inv SResisting move_resisting_result [of env ?dx ?dy ?s] swipe_inv_claim [of ?s env ?dx]
      by (auto simp: swipe_move_def Let_def)
  next
    case SNavigation
    then have "swipe_inv ?s" using inv by (simp add: swipe_inv_def)
    then show ?thesis
      using inv SNavigation swipe_inv_navigation [of ?s ?dx] by (simp add: swipe_move_def Let_def)
  qed (use inv in \<open>simp_all add: swipe_move_def swipe_inv_def\<close>)
qed

lemma swipe_end_state:
  "snd (swipe_end touch s) = s \<and> sw_identifier s = None
   \<or> (\<exists>r t. snd (swipe_end touch s) = swipe_reset r t \<and> sw_phase (snd (swipe_end touch s)) = SIdle)"
proof (cases "sw_identifier s = None")
  case True
  then show ?thesis by (simp add: swipe_end_def)
next
  case False
  have "sw_phase (swipe_reset r t) = SIdle" for r t by (simp add: swipe_reset_def)
  then show ?thesis using False
    by (auto simp: swipe_end_def end_navigation_def end_resisting_def swipe_clock_def Let_def
        split: option.split swipe_phase.split)
qed

lemma swipe_inv_end: "swipe_inv s \<Longrightarrow> swipe_inv (snd (swipe_end touch s))"
  using swipe_end_state [of touch s] by auto

lemma swipe_inv_cancel: "swipe_inv s \<Longrightarrow> swipe_inv (snd (swipe_cancel reason s))"
  by (auto simp: swipe_cancel_def Let_def) (simp add: swipe_inv_def)

lemma swipe_inv_step: "swipe_inv s \<Longrightarrow> swipe_inv (swipe_step s e)"
  by (cases e) (simp_all add: swipe_inv_start swipe_inv_move swipe_inv_end swipe_inv_cancel)

interpretation swipe: event_machine swipe_step swipe_inv
  by unfold_locales (rule swipe_inv_step)

section \<open>What a claim rests on\<close>

text \<open>
  A frozen destination was chosen by one move of the tracked finger: the adjacent page in the direction
  of its travel, in range by what the pager answered then, not a vertical drag and not against the edge.
\<close>

definition claim_by :: "swipe \<Rightarrow> int \<Rightarrow> swipe_env \<Rightarrow> swipe_touch \<Rightarrow> bool" where
  "claim_by s d env touch \<longleftrightarrow>
     (let dx = st_clientX touch - sw_startX s; dy = st_clientY touch - sw_startY s
      in sw_identifier s = Some (st_identifier touch) \<and> destinationFor env dx = Some d
         \<and> sw_direction s = directionOf dx \<and> \<not> vertical dx dy \<and> \<not> wrong_edge dx s)"

definition claim_ok :: "swipe_event list \<Rightarrow> swipe \<Rightarrow> bool" where
  "claim_ok es s \<longleftrightarrow> (\<forall>d. sw_destinationIndex s = Some d \<longrightarrow>
     (\<exists>env touch. SwipeMove env touch \<in> set es \<and> claim_by s d env touch))"

lemma claim_ok_reset [simp]: "claim_ok es (swipe_reset r s)"
  by (simp add: claim_ok_def swipe_reset_def)

lemma claim_ok_None: "sw_destinationIndex s = None \<Longrightarrow> claim_ok es s"
  by (simp add: claim_ok_def)

lemma claim_ok_mono:
  assumes "claim_ok es s" and "set es \<subseteq> set fs" and "sw_destinationIndex t = sw_destinationIndex s"
    and "sw_startX t = sw_startX s" and "sw_startY t = sw_startY s" and "sw_identifier t = sw_identifier s"
    and "sw_direction t = sw_direction s" and "sw_edge t = sw_edge s"
  shows "claim_ok fs t"
proof -
  have "claim_by t = claim_by s"
    using assms(3-) by (intro ext) (simp add: claim_by_def wrong_edge_def)
  then show ?thesis using assms(1-3) unfolding claim_ok_def by (metis subsetD)
qed

lemma claim_ok_offset:
  "claim_ok es s \<Longrightarrow> claim_ok (es @ [e]) (s\<lparr>sw_lastX := x, sw_offset := v\<rparr>)"
  "claim_ok es s \<Longrightarrow> claim_ok (es @ [e]) s"
  "claim_ok es s \<Longrightarrow> claim_ok (es @ [e]) (s\<lparr>sw_reason := r\<rparr>)"
  by (erule claim_ok_mono; auto; fail)+

lemma claim_fields [simp]:
  "sw_destinationIndex (claim d dx s) = Some d" "sw_identifier (claim d dx s) = sw_identifier s"
  "sw_startX (claim d dx s) = sw_startX s" "sw_startY (claim d dx s) = sw_startY s"
  "sw_direction (claim d dx s) = directionOf dx" "sw_edge (claim d dx s) = sw_edge s"
  by (simp_all add: claim_def)

lemma claim_ok_claim:
  assumes "destinationFor env dx = Some d" and "\<not> vertical dx dy" and "\<not> wrong_edge dx s"
    and "dx = st_clientX touch - sw_startX s" and "dy = st_clientY touch - sw_startY s"
    and "sw_identifier s = Some (st_identifier touch)"
  shows "claim_ok (es @ [SwipeMove env touch]) (claim d dx s)"
proof -
  have "claim_by (claim d dx s) d env touch"
    using assms by (simp add: claim_by_def wrong_edge_def)
  moreover have "SwipeMove env touch \<in> set (es @ [SwipeMove env touch])" by simp
  ultimately show ?thesis unfolding claim_ok_def by (metis claim_fields(1) option.inject)
qed

lemma claim_ok_result:
  assumes "r \<in> {s, swipe_reset a s, swipe_reset b s, s\<lparr>sw_phase := p, sw_direction := c, sw_offset := v, sw_reason := w\<rparr>}
    \<or> (\<exists>d. destinationFor env dx = Some d \<and> \<not> vertical dx dy \<and> \<not> wrong_edge dx s \<and> r = claim d dx s)"
    and "sw_destinationIndex s = None"
    and "\<And>d. destinationFor env dx = Some d \<Longrightarrow> \<not> vertical dx dy \<Longrightarrow> \<not> wrong_edge dx s \<Longrightarrow> claim_ok es (claim d dx s)"
  shows "claim_ok es r"
  using assms by (auto intro: claim_ok_None)

lemma claim_ok_move:
  assumes inv: "swipe_inv s" and ok: "claim_ok es s"
  shows "claim_ok (es @ [SwipeMove env touch]) (snd (swipe_move env touch s))"
proof (cases "sw_identifier s = Some (st_identifier touch)")
  case False
  then have "snd (swipe_move env touch s) = s" by (auto simp: swipe_move_def)
  then show ?thesis using ok by (simp add: claim_ok_offset)
next
  case True
  let ?s = "s\<lparr>sw_lastX := st_clientX touch\<rparr>"
  let ?dx = "st_clientX touch - sw_startX s" and ?dy = "st_clientY touch - sw_startY s"
  note claim = claim_ok_claim [where s = ?s and touch = touch and dx = ?dx and dy = ?dy and env = env and es = es]
  show ?thesis
  proof (cases "sw_phase s")
    case SCandidate
    then have none: "sw_destinationIndex ?s = None" using inv by (simp add: swipe_inv_def)
    have "claim_ok (es @ [SwipeMove env touch]) (snd (move_candidate env ?dx ?dy ?s))"
      by (rule claim_ok_result [OF move_candidate_result none]) (rule claim; simp add: True)
    then show ?thesis using True SCandidate by (simp add: swipe_move_def Let_def)
  next
    case SResisting
    then have none: "sw_destinationIndex ?s = None" using inv by (simp add: swipe_inv_def)
    have "claim_ok (es @ [SwipeMove env touch]) (snd (move_resisting env ?dx ?dy ?s))"
      by (rule claim_ok_result [OF move_resisting_result none]) (rule claim; simp add: True)
    then show ?thesis using True SResisting by (simp add: swipe_move_def Let_def)
  next
    case SNavigation
    then show ?thesis
      using True ok by (simp add: swipe_move_def Let_def move_navigation_def claim_ok_offset)
  qed (use inv True in \<open>simp_all add: swipe_inv_def\<close>)
qed

lemma idle_claim: "swipe_inv s \<Longrightarrow> sw_phase s = SIdle \<Longrightarrow> sw_destinationIndex s = None \<and> sw_identifier s = None"
  by (simp add: swipe_inv_def)

lemma swipe_start_result:
  "snd (swipe_start env touch s) = s \<or> (\<exists>r. snd (swipe_start env touch s) = s\<lparr>sw_reason := r\<rparr>)
   \<or> (sw_phase s = SIdle \<and> sw_destinationIndex (snd (swipe_start env touch s)) = None)"
  by (auto simp: swipe_start_def start_refused_def start_candidate_def swipe_clock_def Let_def split: option.split)

lemma claim_ok_step:
  assumes "swipe_inv s" and ok: "claim_ok es s"
  shows "claim_ok (es @ [e]) (swipe_step s e)"
proof (cases e)
  case (SwipeStart env touch)
  then show ?thesis
    using swipe_start_result [of env touch s] ok by (auto intro: claim_ok_offset claim_ok_None)
next
  case (SwipeMove env touch)
  then show ?thesis using claim_ok_move [OF assms] by simp
next
  case (SwipeEnd touch)
  then show ?thesis using swipe_end_state [of touch s] ok by (auto intro: claim_ok_offset)
next
  case (SwipeCancel reason)
  then show ?thesis using ok by (auto simp: swipe_cancel_def Let_def intro: claim_ok_offset)
qed

lemma claim_ok_run: "claim_ok es (foldl swipe_step (new_swipe now) es)"
proof (induction es rule: rev_induct)
  case Nil
  then show ?case by (simp add: claim_ok_def new_swipe_def)
next
  case (snoc e es)
  then show ?case using claim_ok_step [OF swipe.run_inv [OF swipe_inv_new]] by simp
qed

text \<open>Starts and moves keep a claim: the phase, the destination, the direction and the origin are frozen.\<close>

fun keeps_contact :: "swipe_event \<Rightarrow> bool" where
  "keeps_contact (SwipeStart env touch) = True"
| "keeps_contact (SwipeMove env touch) = True"
| "keeps_contact (SwipeEnd touch) = False"
| "keeps_contact (SwipeCancel reason) = False"

definition frozen :: "swipe \<Rightarrow> swipe \<Rightarrow> bool" where
  "frozen s t \<longleftrightarrow> sw_phase t = SNavigation \<and> sw_destinationIndex t = sw_destinationIndex s \<and> sw_direction t = sw_direction s
     \<and> sw_identifier t = sw_identifier s \<and> sw_startX t = sw_startX s \<and> sw_startTime t = sw_startTime s
     \<and> sw_shellWidth t = sw_shellWidth s"

lemma frozen_step:
  assumes "frozen s t" and "keeps_contact e"
  shows "frozen s (swipe_step t e)"
  using assms
  by (cases e) (auto simp: frozen_def swipe_start_def swipe_move_def move_navigation_def Let_def)

lemma frozen_run:
  "frozen s t \<Longrightarrow> list_all keeps_contact fs \<Longrightarrow> frozen s (foldl swipe_step t fs)"
  by (induction fs arbitrary: t) (auto intro: frozen_step)

section \<open>Properties\<close>

text \<open>
  A touch is admitted as a candidate exactly when the shell is idle and may page, no control and no
  text selection owns the target, the touch lies outside the platform's guard, and on a work surface it
  lies in the edge band (which needs a measured shell); a refusal changes nothing but the reason.
\<close>

lemma swipe_admission:
  "fst (swipe_start env touch s) =
     (sw_phase s = SIdle \<and> sw_identifier s = None \<and> sv_shellMayPage env \<and> \<not> sv_isInteractiveOwner env
      \<and> \<not> sv_hasActiveSelection env
      \<and> (case sv_shellBounds env of
           None \<Rightarrow> \<not> sv_isWorkSurface env
         | Some b \<Rightarrow> platformGuardSide (st_clientX touch) b EDGE_PLATFORM_GUARD_PX = None
             \<and> (if sv_isWorkSurface env then edgeBandSide (st_clientX touch) b EDGE_PLATFORM_GUARD_PX \<noteq> None else True)))
   \<and> (if fst (swipe_start env touch s)
      then sw_phase (snd (swipe_start env touch s)) = SCandidate
        \<and> sw_identifier (snd (swipe_start env touch s)) = Some (st_identifier touch)
        \<and> sw_edge (snd (swipe_start env touch s)) = (if sv_isWorkSurface env
            then edgeBandSide (st_clientX touch) (the (sv_shellBounds env)) EDGE_PLATFORM_GUARD_PX else None)
      else (\<exists>r. snd (swipe_start env touch s) = s\<lparr>sw_reason := r\<rparr>))"
proof -
  have "\<exists>r. s = s\<lparr>sw_reason := r\<rparr>" by (rule exI [of _ "sw_reason s"]) simp
  then show ?thesis
    by (auto simp: swipe_start_def start_refused_def start_candidate_def swipe_clock_def Let_def split: option.split)
qed

text \<open>
  One owned contact. After any events the machine is idle exactly when it tracks no touch, it is never
  in the phases settling or content, a destination exists exactly in the navigation phase, with a
  direction; the preview moves only toward it and, in a measured shell, reveals at most four fifths of
  it; without a destination the offset never exceeds 24 pixels.
\<close>

lemma swipe_one_contact:
  fixes es :: "swipe_event list" and now :: "nat \<Rightarrow> rat"
  defines "s \<equiv> foldl swipe_step (new_swipe now) es"
  shows "(sw_phase s = SIdle) = (sw_identifier s = None) \<and> sw_phase s \<noteq> SSettling \<and> sw_phase s \<noteq> SContent
    \<and> (sw_destinationIndex s \<noteq> None) = (sw_phase s = SNavigation)
    \<and> 0 \<le> sw_offset s * of_int (sw_direction s)
    \<and> (if sw_phase s = SNavigation
       then sw_direction s \<in> {-1, 1} \<and> (if 0 < sw_shellWidth s then \<bar>sw_offset s\<bar> \<le> sw_shellWidth s * (8 / 10) else True)
       else \<bar>sw_offset s\<bar> \<le> 24)"
proof -
  have "swipe_inv s" unfolding s_def by (rule swipe.run_inv [OF swipe_inv_new])
  then show ?thesis
    by (cases "sw_phase s") (auto simp: swipe_inv_def SWIPE_MAX_REVEAL_FRACTION_def SWIPE_RESIST_MAX_PX_def)
qed

text \<open>
  C12. A destination is earned. Whatever events led to it, a destination was claimed by a move of the
  tracked touch whose travel is not vertical: it is the page next to the pager's index of that moment,
  opposite to the direction of the travel, inside the page count of that moment, and a touch that
  started in an edge band moved the way that edge owns.
\<close>

theorem swipe_destination_earned:
  assumes "s = foldl swipe_step (new_swipe now) es" and "sw_destinationIndex s = Some d"
  shows "\<exists>env touch. SwipeMove env touch \<in> set es
    \<and> sw_identifier s = Some (st_identifier touch)
    \<and> d = sv_index env - sw_direction s \<and> 0 \<le> d \<and> d < sv_pageCount env
    \<and> sw_direction s = directionOf (st_clientX touch - sw_startX s) \<and> sw_direction s \<noteq> 0
    \<and> \<bar>st_clientY touch - sw_startY s\<bar> \<le> \<bar>st_clientX touch - sw_startX s\<bar> * (85 / 100)
    \<and> (case sw_edge s of None \<Rightarrow> True | Some LeftEdge \<Rightarrow> sw_direction s = 1 | Some RightEdge \<Rightarrow> sw_direction s = -1)"
proof -
  have "claim_ok es s" unfolding assms(1) by (rule claim_ok_run)
  then obtain env touch where m: "SwipeMove env touch \<in> set es" and c: "claim_by s d env touch"
    using assms(2) unfolding claim_ok_def by blast
  have "case sw_edge s of None \<Rightarrow> True | Some LeftEdge \<Rightarrow> sw_direction s = 1 | Some RightEdge \<Rightarrow> sw_direction s = -1"
    using c by (auto simp: claim_by_def Let_def wrong_edge_def directionOf_def split: option.splits edge_side.splits)
  with m c show ?thesis
    by (intro exI [of _ env] exI [of _ touch])
      (simp add: claim_by_def Let_def destinationFor_Some vertical_def SWIPE_VERTICAL_DOMINANCE_def not_less)
qed

definition demo_env :: swipe_env where
  "demo_env = \<lparr>sv_shellMayPage = True, sv_isInteractiveOwner = False, sv_hasActiveSelection = False,
     sv_isWorkSurface = True, sv_shellBounds = Some \<lparr>sb_left = 0, sb_right = 400\<rparr>, sv_index = 1, sv_pageCount = 3\<rparr>"

definition demo_drag :: "swipe_event list" where
  "demo_drag = [SwipeStart demo_env \<lparr>st_identifier = 7, st_clientX = 30, st_clientY = 100\<rparr>,
     SwipeMove demo_env \<lparr>st_identifier = 7, st_clientX = 80, st_clientY = 110\<rparr>]"

theorem swipe_destination_earned_witness:
  "sw_direction (foldl swipe_step (new_swipe (\<lambda>n. rat_of_nat n)) demo_drag) \<noteq> 0"
proof -
  have "sw_destinationIndex (foldl swipe_step (new_swipe (\<lambda>n. rat_of_nat n)) demo_drag) = Some 0" by code_simp
  from swipe_destination_earned [OF refl this] show ?thesis by blast
qed

text \<open>
  Release decides, and only about the frozen page. Once a destination is claimed, no further starts
  and moves, of any touch and with any answers of the pager, change it or its direction; release then
  commits exactly when the travel toward it reaches the threshold (64 pixels or 18 percent of the
  shell), or 40 pixels at 0.45 pixels per millisecond, reports that destination and leaves the machine
  idle.
\<close>

lemma swipe_release_decides:
  assumes "s = foldl swipe_step (new_swipe now) es" and "sw_destinationIndex s = Some d"
    and "list_all keeps_contact fs" and "t = foldl swipe_step s fs"
    and "x = (case touch of None \<Rightarrow> sw_lastX t | Some u \<Rightarrow> st_clientX u)"
    and "travel = max 0 ((x - sw_startX s) * of_int (sw_direction s))"
  shows "se_destinationIndex (fst (swipe_end touch t)) = Some d
    \<and> (se_outcome (fst (swipe_end touch t)) = OCommit) =
        (max 64 (sw_shellWidth s * (18 / 100)) \<le> travel
         \<or> 40 \<le> travel \<and> 45 / 100 \<le> travel / max 1 (sw_now t (sw_reads t) - sw_startTime s))
    \<and> se_outcome (fst (swipe_end touch t)) \<noteq> ONone
    \<and> sw_phase (snd (swipe_end touch t)) = SIdle"
proof -
  have inv: "swipe_inv s" unfolding assms(1) by (rule swipe.run_inv [OF swipe_inv_new])
  have "sw_phase s = SNavigation" "sw_identifier s \<noteq> None"
    using inv assms(2) by (cases "sw_phase s"; simp add: swipe_inv_def)+
  then have "frozen s t"
    unfolding assms(4) using assms(3) by (intro frozen_run) (simp_all add: frozen_def)
  then have t: "sw_phase t = SNavigation" "sw_destinationIndex t = Some d" "sw_direction t = sw_direction s"
    "sw_identifier t \<noteq> None" "sw_startX t = sw_startX s" "sw_startTime t = sw_startTime s" "sw_shellWidth t = sw_shellWidth s"
    using assms(2) \<open>sw_identifier s \<noteq> None\<close> by (simp_all add: frozen_def)
  let ?t = "t\<lparr>sw_lastX := x\<rparr>"
  have e: "swipe_end touch t = end_navigation d ?t"
    using t assms(5) by (cases touch) (simp_all add: swipe_end_def Let_def del: not_None_eq)
  show ?thesis
    unfolding e assms(6)
    by (simp add: end_navigation_def swipe_clock_def Let_def t swipeCommitThreshold_def SWIPE_COMMIT_MIN_PX_def
        SWIPE_COMMIT_FRACTION_def SWIPE_FLICK_MIN_PX_def SWIPE_FLICK_VELOCITY_PX_PER_MS_def swipe_reset_def)
qed

end
