(* ===== verification/Osc.thy ===== *)
theory Osc
  imports Utf8
begin

text \<open>
  The OSC 52 and OSC 5522 wire grammar
  (\<^verbatim>\<open>web/src/platform/terminal-runtime/clipboard/osc.ts\<close>) on strings of UTF-16 code units. The regular
  expressions are predicates on the code units; a \<open>Map\<close> is an insertion-ordered association list.
\<close>

section \<open>Strings\<close>

text \<open>\<open>String.prototype.split\<close> by one code unit, \<open>join\<close>, and the two halves around the first occurrence.\<close>

fun split_on :: "code_unit \<Rightarrow> jsstring \<Rightarrow> jsstring list" where
  "split_on c [] = [[]]"
| "split_on c (x # xs) =
     (if x = c then [] # split_on c xs
      else case split_on c xs of [] \<Rightarrow> [[x]] | w # ws \<Rightarrow> (x # w) # ws)"

fun join_with :: "jsstring \<Rightarrow> jsstring list \<Rightarrow> jsstring" where
  "join_with sep [] = []"
| "join_with sep [w] = w"
| "join_with sep (w # v # ws) = w @ sep @ join_with sep (v # ws)"

definition before_first :: "code_unit \<Rightarrow> jsstring \<Rightarrow> jsstring" where
  "before_first c s = takeWhile (\<lambda>x. x \<noteq> c) s"

definition after_first :: "code_unit \<Rightarrow> jsstring \<Rightarrow> jsstring" where
  "after_first c s = tl (dropWhile (\<lambda>x. x \<noteq> c) s)"

definition colon :: code_unit where "colon = 58"
definition semicolon :: code_unit where "semicolon = 59"
definition equals_sign :: code_unit where "equals_sign = 61"
definition space :: code_unit where "space = 32"
definition esc :: code_unit where "esc = 27"

definition lower :: "code_unit \<Rightarrow> bool" where "lower c \<longleftrightarrow> 97 \<le> c \<and> c \<le> 122"
definition upper :: "code_unit \<Rightarrow> bool" where "upper c \<longleftrightarrow> 65 \<le> c \<and> c \<le> 90"
definition digit :: "code_unit \<Rightarrow> bool" where "digit c \<longleftrightarrow> 48 \<le> c \<and> c \<le> 57"

section \<open>Frames\<close>

record osc5522_frame =
  of_metadata :: "(jsstring, jsstring) jsmap"
  of_payload :: jsstring

definition METADATA_KEY :: "jsstring \<Rightarrow> bool" where
  "METADATA_KEY s = (case s of [] \<Rightarrow> False | c # cs \<Rightarrow> lower c \<and> list_all (\<lambda>x. lower x \<or> digit x \<or> x = 45) cs)"

text \<open>One pass of the loop over the segments; \<open>None\<close> is the early \<open>return null\<close>.\<close>

definition parse_segment :: "jsstring \<Rightarrow> (jsstring, jsstring) jsmap \<Rightarrow> (jsstring, jsstring) jsmap option" where
  "parse_segment segment metadata =
     (if equals_sign \<notin> set segment \<or> before_first equals_sign segment = [] then None
      else let key = before_first equals_sign segment; val = after_first equals_sign segment
           in if \<not> METADATA_KEY key \<or> map_has metadata key then None else Some (map_set key val metadata))"

fun parse_segments :: "jsstring list \<Rightarrow> (jsstring, jsstring) jsmap \<Rightarrow> (jsstring, jsstring) jsmap option" where
  "parse_segments [] metadata = Some metadata"
| "parse_segments (segment # rest) metadata =
     (case parse_segment segment metadata of None \<Rightarrow> None | Some m \<Rightarrow> parse_segments rest m)"

definition parseOsc5522Frame :: "jsstring \<Rightarrow> osc5522_frame option" where
  "parseOsc5522Frame raw =
     (let metadataText = before_first semicolon raw;
          payload = (if semicolon \<in> set raw then after_first semicolon raw else []);
          parsed = (if metadataText = [] then Some [] else parse_segments (split_on colon metadataText) [])
      in case parsed of
           None \<Rightarrow> None
         | Some metadata \<Rightarrow> if map_has metadata (js ''type'') then Some \<lparr>of_metadata = metadata, of_payload = payload\<rparr> else None)"

definition id_char :: "code_unit \<Rightarrow> bool" where
  "id_char c \<longleftrightarrow> lower c \<or> upper c \<or> digit c \<or> c \<in> set (js ''-_+.'')"

definition sanitizeClipboardId :: "jsstring option \<Rightarrow> jsstring" where
  "sanitizeClipboardId v = filter id_char (the_default [] v)"

definition mime_char :: "code_unit \<Rightarrow> bool" where
  "mime_char c \<longleftrightarrow> lower c \<or> upper c \<or> digit c \<or> c = 39 \<or> c \<in> set (js ''!#$%&*+.^_`|~-'')"

definition isValidClipboardMime :: "jsstring \<Rightarrow> bool" where
  "isValidClipboardMime s =
     (let slash = 47; kind = before_first slash s; subtype = after_first slash s
      in slash \<in> set s \<and> kind \<noteq> [] \<and> subtype \<noteq> [] \<and> list_all mime_char kind \<and> list_all mime_char subtype)"

definition osc_body :: "(jsstring \<times> jsstring) list \<Rightarrow> jsstring option \<Rightarrow> jsstring" where
  "osc_body metadata payload =
     join_with [colon] (map (\<lambda>(key, v). key @ [equals_sign] @ v) metadata)
       @ (case payload of None \<Rightarrow> [] | Some p \<Rightarrow> [semicolon] @ p)"

definition formatOsc5522 :: "(jsstring \<times> jsstring) list \<Rightarrow> jsstring option \<Rightarrow> jsstring" where
  "formatOsc5522 metadata payload = [esc] @ js '']5522;'' @ osc_body metadata payload @ [esc, 92]"

definition formatPrivateModeReport :: "jsstring \<Rightarrow> jsstring \<Rightarrow> jsstring" where
  "formatPrivateModeReport mode status = [esc] @ js ''[?'' @ mode @ [semicolon] @ status @ js ''$y''"

text \<open>What an OSC parser hands to the receiver of the sequence: everything between the identifier and ST.\<close>

definition osc_data :: "jsstring \<Rightarrow> jsstring option" where
  "osc_data s = (let p = [esc] @ js '']5522;''
     in if prefix p s \<and> suffix [esc, 92] s \<and> 9 \<le> length s then Some (drop 7 (take (length s - 2) s)) else None)"

section \<open>Splitting and joining\<close>

lemma split_on_nonempty [simp]: "split_on c s \<noteq> []"
  by (induction s) (auto split: list.split)

lemma split_on_fresh: "c \<notin> set s \<Longrightarrow> split_on c s = [s]"
  by (induction s) auto

lemma split_on_append: "c \<notin> set w \<Longrightarrow> split_on c (w @ c # s) = w # split_on c s"
  by (induction w) auto

lemma split_join: "ws \<noteq> [] \<Longrightarrow> \<forall>w \<in> set ws. c \<notin> set w \<Longrightarrow> split_on c (join_with [c] ws) = ws"
  by (induction "[c]" ws rule: join_with.induct) (auto simp: split_on_fresh split_on_append)

lemma join_split: "join_with [c] (split_on c s) = s"
proof (induction s)
  case (Cons x xs)
  then show ?case
    by (cases "split_on c xs"; cases "tl (split_on c xs)") auto
qed simp

lemma set_join: "set (join_with sep ws) \<subseteq> set sep \<union> \<Union> (set ` set ws)"
  by (induction sep ws rule: join_with.induct) auto

lemma around_first:
  assumes "c \<notin> set w"
  shows "before_first c (w @ c # s) = w" "after_first c (w @ c # s) = s"
proof -
  have "\<forall>x \<in> set w. x \<noteq> c" using assms by auto
  then show "before_first c (w @ c # s) = w" "after_first c (w @ c # s) = s"
    by (simp_all add: before_first_def after_first_def takeWhile_append2 dropWhile_append2)
qed

lemma before_first_fresh: "c \<notin> set w \<Longrightarrow> before_first c w = w"
  unfolding before_first_def by (rule takeWhile_eq_all_conv [THEN iffD2]) auto

section \<open>Round trip\<close>

definition clean :: "jsstring \<Rightarrow> bool" where
  "clean s \<longleftrightarrow> colon \<notin> set s \<and> semicolon \<notin> set s"

definition metadata_ok :: "(jsstring \<times> jsstring) list \<Rightarrow> bool" where
  "metadata_ok md \<longleftrightarrow> distinct (map fst md) \<and> list_all (\<lambda>(k, v). METADATA_KEY k \<and> clean v) md \<and> js ''type'' \<in> set (map fst md)"

lemma key_char: "METADATA_KEY k \<Longrightarrow> x \<in> set k \<Longrightarrow> lower x \<or> digit x \<or> x = 45"
  by (auto simp: METADATA_KEY_def list_all_iff split: list.splits)

lemma separators_not_key:
  "\<not> (lower colon \<or> digit colon \<or> colon = 45)" "\<not> (lower semicolon \<or> digit semicolon \<or> semicolon = 45)"
  "\<not> (lower equals_sign \<or> digit equals_sign \<or> equals_sign = 45)"
  by (simp_all add: lower_def digit_def colon_def semicolon_def equals_sign_def)

lemma key_clean:
  assumes "METADATA_KEY k"
  shows "colon \<notin> set k" "semicolon \<notin> set k" "equals_sign \<notin> set k" "k \<noteq> []"
  using key_char [OF assms] separators_not_key assms by (blast, blast, blast, auto simp: METADATA_KEY_def)

lemma separators_distinct [simp]:
  "colon \<noteq> semicolon" "semicolon \<noteq> colon" "colon \<noteq> equals_sign" "equals_sign \<noteq> colon" "semicolon \<noteq> equals_sign" "equals_sign \<noteq> semicolon"
  by (simp_all add: colon_def semicolon_def equals_sign_def)

lemma parse_segment_format:
  assumes "METADATA_KEY k" and "\<not> map_has m k"
  shows "parse_segment (k @ equals_sign # v) m = Some (m @ [(k, v)])"
  using assms key_clean [OF assms(1)] by (simp add: parse_segment_def around_first map_set_fresh)

lemma parse_segments_format:
  "distinct (map fst md) \<Longrightarrow> list_all (\<lambda>(k, v). METADATA_KEY k \<and> clean v) md \<Longrightarrow> fst ` set m \<inter> fst ` set md = {} \<Longrightarrow>
     parse_segments (map (\<lambda>(k, v). k @ equals_sign # v) md) m = Some (m @ md)"
proof (induction md arbitrary: m)
  case (Cons p md)
  obtain k v where p: "p = (k, v)" by (cases p)
  have "\<not> map_has m k" using Cons.prems(3) p by (auto simp: map_has_iff)
  moreover have "METADATA_KEY k" using Cons.prems p by simp
  ultimately show ?case using Cons.prems p by (simp add: parse_segment_format Cons.IH)
qed simp

text \<open>A formatted frame is read back exactly, whatever the payload.\<close>

lemma parse_body:
  assumes "metadata_ok md"
  shows "parseOsc5522Frame (osc_body md payload) = Some \<lparr>of_metadata = md, of_payload = the_default [] payload\<rparr>"
proof -
  let ?segs = "map (\<lambda>(k, v). k @ equals_sign # v) md"
  let ?text = "join_with [colon] ?segs"
  have ok: "distinct (map fst md)" "list_all (\<lambda>(k, v). METADATA_KEY k \<and> clean v) md" "js ''type'' \<in> fst ` set md"
    using assms by (auto simp: metadata_ok_def)
  have segs: "?segs \<noteq> []" "\<forall>w \<in> set ?segs. colon \<notin> set w \<and> semicolon \<notin> set w \<and> w \<noteq> []"
    using ok by (auto simp: list_all_iff clean_def dest: key_clean)
  have segs_text: "split_on colon ?text = ?segs" using segs by (intro split_join) auto
  have "?text \<noteq> []"
  proof
    assume "?text = []"
    then have "?segs = [[]]" using segs_text by simp
    then show False using segs(2) by (metis list.set_intros(1))
  qed
  moreover have "semicolon \<notin> set ?text" using set_join [of "[colon]" ?segs] segs by auto
  moreover have "parse_segments ?segs [] = Some md" using parse_segments_format [OF ok(1,2), of "[]"] by simp
  moreover have "map_has md (js ''type'')" using ok by (simp add: map_has_iff)
  ultimately show ?thesis
    using segs_text by (cases payload) (simp_all add: parseOsc5522Frame_def osc_body_def around_first before_first_fresh)
qed

lemma osc_data_format: "osc_data (formatOsc5522 md payload) = Some (osc_body md payload)"
  by (simp add: osc_data_def formatOsc5522_def suffix_def)

text \<open>What the protocol puts into a value: base64 text and sanitized identifiers.\<close>

lemma clean_filter_id: "clean (filter id_char s)"
  by (auto simp: clean_def id_char_def lower_def upper_def digit_def colon_def semicolon_def js_def)

section \<open>Property\<close>

text \<open>
  C16. The OSC 5522 grammar round-trips. A sequence built from distinct well-formed keys, one of them
  \<open>type\<close>, and values free of the two separators carries exactly those entries, in order, and exactly that
  payload: parsing what an OSC parser hands over returns them, so no value can inject another entry.
\<close>

theorem osc5522_roundtrip:
  assumes "distinct (map fst md)" and "list_all (\<lambda>(k, v). METADATA_KEY k \<and> colon \<notin> set v \<and> semicolon \<notin> set v) md"
    and "js ''type'' \<in> set (map fst md)"
  shows "map_option parseOsc5522Frame (osc_data (formatOsc5522 md payload))
    = Some (Some \<lparr>of_metadata = md, of_payload = the_default [] payload\<rparr>)"
  using assms by (simp add: osc_data_format parse_body metadata_ok_def clean_def)

theorem osc5522_roundtrip_witness:
  "map_option parseOsc5522Frame (osc_data (formatOsc5522 [(js ''type'', js ''read''), (js ''id'', js ''a=b'')] (Some (js ''x;y:z''))))
    = Some (Some \<lparr>of_metadata = [(js ''type'', js ''read''), (js ''id'', js ''a=b'')], of_payload = js ''x;y:z''\<rparr>)"
proof -
  have "list_all (\<lambda>(k, v). METADATA_KEY k \<and> colon \<notin> set v \<and> semicolon \<notin> set v)
      [(js ''type'', js ''read''), (js ''id'', js ''a=b'')]" by code_simp
  then show ?thesis
    using osc5522_roundtrip [of "[(js ''type'', js ''read''), (js ''id'', js ''a=b'')]" "Some (js ''x;y:z'')"] by simp
qed

end
