(* ===== verification/Clipboard.thy ===== *)
theory Clipboard
  imports Osc
begin

text \<open>
  The OSC 52 and OSC 5522 clipboard protocol of one terminal
  (\<^verbatim>\<open>web/src/platform/terminal-runtime/clipboard/ClipboardProtocol.ts\<close>).

  The object is a record. Calls of \<open>sendToPty\<close> and of the effect port are appended to \<open>cp_log\<close>; a promise
  the port returned is a number in \<open>cp_texts\<close> or \<open>cp_writes\<close> until an event settles it; a timer that is set
  and not cleared is in \<open>cp_armed\<close> with what its closure captured. What \<open>isAuthorized()\<close> answers during an
  event is a parameter of the event (no handler asks twice), and \<open>createPassword\<close> a sequence of strings.
\<close>

section \<open>Data\<close>

definition KITTY_MIN_CLIPBOARD_WRITE_BYTES :: int where
  "KITTY_MIN_CLIPBOARD_WRITE_BYTES = 64 * 1024 * 1024"

definition CLIPBOARD_PACKET_BYTES :: int where
  "CLIPBOARD_PACKET_BYTES = 4096"

definition MAX_WDATA_ENCODED_CHUNK :: int where
  "MAX_WDATA_ENCODED_CHUNK = (CLIPBOARD_PACKET_BYTES + 2) div 3 * 4"

definition maxEncodedWriteLength :: "int \<Rightarrow> int" where
  "maxEncodedWriteLength maxWriteBytes = (maxWriteBytes + 2) div 3 * 4"

datatype failure_code = EPERM | EIO

datatype clip_notice = CopyRequired jsstring | WriteDenied | UnsupportedImagePaste | ImageTooLarge

datatype clip_call =
    SendToPty jsstring
  | WriteText nat jsstring
  | WriteClipboard nat "(jsstring, bytes) jsmap"
  | Noticed clip_notice

record paste_items =
  pi_text :: "jsstring option"
  pi_images :: "(jsstring \<times> bytes) list option"

record clip_limits =
  cm_maxWriteBytes :: int
  cm_maxOsc52Bytes :: int
  cm_maxOsc52PromptBytes :: int
  cm_maxReadRequestBytes :: int
  cm_maxMimeTypes :: int
  cm_writeTimeoutMs :: int
  cm_offerTimeoutMs :: int

definition DEFAULT_LIMITS :: clip_limits where
  "DEFAULT_LIMITS = \<lparr>cm_maxWriteBytes = KITTY_MIN_CLIPBOARD_WRITE_BYTES, cm_maxOsc52Bytes = 1024 * 1024,
     cm_maxOsc52PromptBytes = 256 * 1024, cm_maxReadRequestBytes = 64 * 1024, cm_maxMimeTypes = 32,
     cm_writeTimeoutMs = 60000, cm_offerTimeoutMs = 120000\<rparr>"

datatype origin_source = Live | Replay

record write_origin =
  wo_source :: origin_source
  wo_streamEpoch :: "int option"

record write_stream =
  ws_parts :: "jsstring list"
  ws_encodedLength :: int

text \<open>\<open>wn_key\<close> is the identity of the session object.\<close>

record write_session =
  wn_key :: nat
  wn_id :: jsstring
  wn_failed :: bool
  wn_currentMime :: "jsstring option"
  wn_streams :: "(jsstring, write_stream) jsmap"
  wn_aliases :: "(jsstring, jsstring list) jsmap"
  wn_encodedTotal :: int
  wn_timer :: "nat option"

record paste_offer =
  po_password :: jsstring
  po_mimes :: "(jsstring, bytes) jsmap"
  po_timer :: "nat option"

text \<open>A timer with what its closure captured and its delay.\<close>

datatype clip_timer = WriteTimer nat int | OfferTimer jsstring int

record clip =
  cp_limits :: clip_limits
  cp_createPassword :: "nat \<Rightarrow> jsstring"
  cp_passwords :: nat
  cp_pasteEventMode :: bool
  cp_writeSession :: "write_session option"
  cp_applying :: bool
  cp_offer :: "paste_offer option"
  cp_latestEpoch :: "int option"
  cp_disposed :: bool
  cp_sessions :: nat
  cp_timers :: nat
  cp_armed :: "(nat \<times> clip_timer) list"
  cp_effects :: nat
  cp_texts :: "(nat \<times> jsstring) list"
  cp_writes :: "(nat \<times> jsstring) list"
  cp_log :: "clip_call list"

definition new_clip :: "clip_limits \<Rightarrow> (nat \<Rightarrow> jsstring) \<Rightarrow> clip" where
  "new_clip limits createPassword = \<lparr>cp_limits = limits, cp_createPassword = createPassword, cp_passwords = 0,
     cp_pasteEventMode = False, cp_writeSession = None, cp_applying = False, cp_offer = None,
     cp_latestEpoch = None, cp_disposed = False, cp_sessions = 0, cp_timers = 0, cp_armed = [],
     cp_effects = 0, cp_texts = [], cp_writes = [], cp_log = []\<rparr>"

section \<open>Calls and timers\<close>

definition clip_log :: "clip_call \<Rightarrow> clip \<Rightarrow> clip" where
  "clip_log call c = c\<lparr>cp_log := cp_log c @ [call]\<rparr>"

definition disarm :: "nat option \<Rightarrow> clip \<Rightarrow> clip" where
  "disarm timer c = (case timer of None \<Rightarrow> c | Some t \<Rightarrow> c\<lparr>cp_armed := map_delete t (cp_armed c)\<rparr>)"

definition idPair :: "jsstring \<Rightarrow> (jsstring \<times> jsstring) list" where
  "idPair ident = (if ident \<noteq> [] then [(js ''id'', ident)] else [])"

definition reply :: "string \<Rightarrow> jsstring \<Rightarrow> string \<Rightarrow> clip \<Rightarrow> clip" where
  "reply kind ident status =
     clip_log (SendToPty (formatOsc5522 ([(js ''type'', js kind), (js ''status'', js status)] @ idPair ident) None))"

definition replyRead :: "jsstring \<Rightarrow> string \<Rightarrow> clip \<Rightarrow> clip" where
  "replyRead = reply ''read''"

definition replyWrite :: "jsstring \<Rightarrow> string \<Rightarrow> clip \<Rightarrow> clip" where
  "replyWrite ident status c = (if cp_disposed c then c else reply ''write'' ident status c)"

definition dropOffer :: "clip \<Rightarrow> clip" where
  "dropOffer c = (disarm (Option.bind (cp_offer c) po_timer) c)\<lparr>cp_offer := None\<rparr>"

definition on_session :: "(write_session \<Rightarrow> write_session) \<Rightarrow> clip \<Rightarrow> clip" where
  "on_session f c = c\<lparr>cp_writeSession := map_option f (cp_writeSession c)\<rparr>"

definition clearWriteTimer :: "clip \<Rightarrow> clip" where
  "clearWriteTimer c = on_session (\<lambda>w. w\<lparr>wn_timer := None\<rparr>) (disarm (Option.bind (cp_writeSession c) wn_timer) c)"

definition touchWriteSession :: "clip \<Rightarrow> clip" where
  "touchWriteSession c = (case cp_writeSession c of
       None \<Rightarrow> c
     | Some session \<Rightarrow>
         let c = clearWriteTimer c; t = cp_timers c
         in on_session (\<lambda>w. w\<lparr>wn_timer := Some t\<rparr>)
              (c\<lparr>cp_timers := Suc t,
                 cp_armed := cp_armed c @ [(t, WriteTimer (wn_key session) (cm_writeTimeoutMs (cp_limits c)))]\<rparr>))"

definition setPasteEventMode :: "bool \<Rightarrow> clip \<Rightarrow> clip" where
  "setPasteEventMode enabled c = (if cp_disposed c then c else c\<lparr>cp_pasteEventMode := enabled\<rparr>)"

definition reportModeQuery :: "clip \<Rightarrow> clip" where
  "reportModeQuery c = (if cp_disposed c then c
     else clip_log (SendToPty (formatPrivateModeReport (js ''5522'') (js (if cp_pasteEventMode c then ''1'' else ''2'')))) c)"

definition isLive :: "write_origin \<Rightarrow> clip \<Rightarrow> bool \<times> clip" where
  "isLive origin c =
     (if wo_source origin \<noteq> Live then (False, c)
      else case wo_streamEpoch origin of
          None \<Rightarrow> (True, c)
        | Some e \<Rightarrow>
            if (case cp_latestEpoch c of None \<Rightarrow> False | Some l \<Rightarrow> e < l) then (False, c)
            else (True, c\<lparr>cp_latestEpoch := Some e\<rparr>))"

definition resetStreamEpoch :: "clip \<Rightarrow> clip" where
  "resetStreamEpoch c = c\<lparr>cp_latestEpoch := None\<rparr>"

section \<open>OSC 52\<close>

definition osc52_text :: "clip_limits \<Rightarrow> jsstring \<Rightarrow> jsstring option" where
  "osc52_text limits raw =
     (let all = split_on semicolon raw; payload = last all; parts = butlast all
      in if parts = [] \<or> payload = [] \<or> payload = js ''?'' then None
         else if \<not> (parts = [] \<or> js ''c'' \<in> set parts \<or> list_all (\<lambda>selection. selection = []) parts) then None
         else case decodeBase64 payload of
             Inl _ \<Rightarrow> None
           | Inr bytes \<Rightarrow> if cm_maxOsc52Bytes limits < int (length bytes) then None else text_decode bytes)"

definition handleOsc52 :: "jsstring \<Rightarrow> write_origin \<Rightarrow> bool \<Rightarrow> clip \<Rightarrow> clip" where
  "handleOsc52 raw origin isAuthorized c =
     (if cp_disposed c then c
      else let (live, c) = isLive origin c
           in if \<not> live then c
              else case osc52_text (cp_limits c) raw of
                  None \<Rightarrow> c
                | Some content \<Rightarrow>
                    if \<not> isAuthorized then c
                    else clip_log (WriteText (cp_effects c) content)
                           (c\<lparr>cp_texts := cp_texts c @ [(cp_effects c, content)], cp_effects := Suc (cp_effects c)\<rparr>))"

text \<open>The \<open>catch\<close> of the write.\<close>

definition write_text_rejected :: "nat \<Rightarrow> clip \<Rightarrow> clip" where
  "write_text_rejected n c = (case map_get (cp_texts c) n of
       None \<Rightarrow> c
     | Some content \<Rightarrow>
         let c = c\<lparr>cp_texts := map_delete n (cp_texts c)\<rparr>
         in if cp_disposed c then c
            else clip_log (Noticed (if int (length content) \<le> cm_maxOsc52PromptBytes (cp_limits c)
                                    then CopyRequired content else WriteDenied)) c)"

section \<open>Paste\<close>

definition add_image :: "jsstring \<times> bytes \<Rightarrow> (jsstring, bytes) jsmap \<times> int \<Rightarrow> (jsstring, bytes) jsmap \<times> int" where
  "add_image im acc = (case im of (mime, bs) \<Rightarrow> (case acc of (mimes, carried) \<Rightarrow>
     if \<not> isValidClipboardMime mime then (mimes, carried) else (map_set mime bs mimes, carried + int (length bs))))"

definition paste_mimes :: "paste_items \<Rightarrow> (jsstring, bytes) jsmap \<times> int" where
  "paste_mimes items =
     (let content = the_default [] (pi_text items);
          encoded = text_encode content;
          start = (if content \<noteq> [] then (map_set (js ''text/plain'') encoded [], int (length encoded)) else ([], 0))
      in foldl (\<lambda>acc im. add_image im acc) start (the_default [] (pi_images items)))"

definition userPasted :: "paste_items \<Rightarrow> bool \<Rightarrow> clip \<Rightarrow> clip" where
  "userPasted items isAuthorized c =
     (if cp_disposed c \<or> \<not> isAuthorized then c
      else if \<not> cp_pasteEventMode c \<and> the_default [] (pi_text items) = [] \<and> the_default [] (pi_images items) \<noteq> []
        then clip_log (Noticed UnsupportedImagePaste) c
      else let (mimes, carried) = paste_mimes items
           in if mimes = [] then c
              else if cm_maxWriteBytes (cp_limits c) < carried \<or> cm_maxMimeTypes (cp_limits c) < int (length mimes)
                then clip_log (Noticed ImageTooLarge) c
              else let c = dropOffer c
                   in if \<not> cp_pasteEventMode c then c
                      else let password = cp_createPassword c (cp_passwords c); t = cp_timers c
                           in clip_log (SendToPty (formatOsc5522
                                  [(js ''type'', js ''read''), (js ''pw'', encodeBase64Text password),
                                   (js ''name'', encodeBase64Text (js ''Paste event''))]
                                  (Some (encodeBase64Text (join_with [space] (map_keys mimes))))))
                                (c\<lparr>cp_passwords := Suc (cp_passwords c), cp_timers := Suc t,
                                   cp_armed := cp_armed c @ [(t, OfferTimer password (cm_offerTimeoutMs (cp_limits c)))],
                                   cp_offer := Some \<lparr>po_password = password, po_mimes = mimes, po_timer = Some t\<rparr>\<rparr>))"

section \<open>Reads\<close>

function packets :: "bytes \<Rightarrow> bytes list" where
  "packets data =
     (if data = [] then []
      else take (nat CLIPBOARD_PACKET_BYTES) data # packets (drop (nat CLIPBOARD_PACKET_BYTES) data))"
  by pat_completeness auto
termination
  by (relation "measure length") (auto simp: CLIPBOARD_PACKET_BYTES_def)

declare packets.simps [simp del]

definition data_packet :: "jsstring \<Rightarrow> jsstring \<Rightarrow> jsstring \<Rightarrow> clip_call" where
  "data_packet ident mime payload = SendToPty (formatOsc5522
     ([(js ''type'', js ''read''), (js ''status'', js ''DATA''), (js ''mime'', encodeBase64Text mime)] @ idPair ident) (Some payload))"

definition send_all :: "clip_call list \<Rightarrow> clip \<Rightarrow> clip" where
  "send_all calls c = c\<lparr>cp_log := cp_log c @ calls\<rparr>"

definition read_packets :: "jsstring \<Rightarrow> paste_offer \<Rightarrow> jsstring list \<Rightarrow> clip_call list" where
  "read_packets ident offer requested =
     concat (map (\<lambda>mime. map (\<lambda>chunk. data_packet ident mime (encodeBase64 chunk)) (packets (the (map_get (po_mimes offer) mime)))) requested)"

definition replyReadListing :: "jsstring \<Rightarrow> clip \<Rightarrow> clip" where
  "replyReadListing ident c =
     replyRead ident ''DONE'' (send_all
       (map (\<lambda>mime. data_packet ident mime []) (case cp_offer c of None \<Rightarrow> [] | Some offer \<Rightarrow> map_keys (po_mimes offer)))
       (replyRead ident ''OK'' c))"

definition requested_mimes :: "jsstring \<Rightarrow> jsstring list" where
  "requested_mimes requestedText = set_of_list (filter (\<lambda>w. w \<noteq> []) (split_on space requestedText))"

definition serve_read :: "jsstring \<Rightarrow> jsstring list \<Rightarrow> jsstring option \<Rightarrow> clip \<Rightarrow> clip" where
  "serve_read ident requested pw c = (case cp_offer c of
       None \<Rightarrow> replyRead ident ''EPERM'' c
     | Some offer \<Rightarrow>
         if decodeBase64Text (the_default [] pw) \<noteq> Some (po_password offer) then replyRead ident ''EPERM'' c
         else if list_ex (\<lambda>mime. \<not> map_has (po_mimes offer) mime) requested then replyRead ident ''ENOSYS'' c
         else dropOffer (replyRead ident ''DONE'' (send_all (read_packets ident offer requested) (replyRead ident ''OK'' c))))"

definition handleRead :: "osc5522_frame \<Rightarrow> bool \<Rightarrow> clip \<Rightarrow> clip" where
  "handleRead frame isAuthorized c =
     (let md = of_metadata frame; ident = sanitizeClipboardId (map_get md (js ''id''))
      in if cm_maxReadRequestBytes (cp_limits c) < int (length (of_payload frame)) then replyRead ident ''EINVAL'' c
         else case decodeBase64Text (of_payload frame) of
             None \<Rightarrow> c
           | Some requestedText \<Rightarrow>
               if requestedText = [] then c
               else let requested = requested_mimes requestedText
                    in if list_ex (\<lambda>mime. mime \<noteq> js ''.'' \<and> \<not> isValidClipboardMime mime) requested then replyRead ident ''EINVAL'' c
                       else if requested = [js ''.''] then replyReadListing ident c
                       else if map_get md (js ''loc'') = Some (js ''primary'') then replyRead ident ''ENOSYS'' c
                       else if \<not> isAuthorized then replyRead ident ''EPERM'' c
                       else serve_read ident requested (map_get md (js ''pw'')) c)"

section \<open>Writes\<close>

definition beginWrite :: "osc5522_frame \<Rightarrow> bool \<Rightarrow> clip \<Rightarrow> clip" where
  "beginWrite frame isAuthorized c =
     (let md = of_metadata frame; ident = sanitizeClipboardId (map_get md (js ''id''))
      in if \<not> isAuthorized then replyWrite ident ''EPERM'' c
         else if map_get md (js ''loc'') = Some (js ''primary'') then replyWrite ident ''ENOSYS'' c
         else if (case cp_writeSession c of None \<Rightarrow> False | Some session \<Rightarrow> \<not> wn_failed session) \<or> cp_applying c
           then replyWrite ident ''EBUSY'' c
         else touchWriteSession (c\<lparr>cp_sessions := Suc (cp_sessions c), cp_writeSession := Some
                \<lparr>wn_key = cp_sessions c, wn_id = ident, wn_failed = False, wn_currentMime = None, wn_streams = [],
                 wn_aliases = [], wn_encodedTotal = 0, wn_timer = None\<rparr>\<rparr>))"

definition failWrite :: "string \<Rightarrow> clip \<Rightarrow> clip" where
  "failWrite status c = (case cp_writeSession c of
       None \<Rightarrow> c
     | Some session \<Rightarrow> replyWrite (wn_id session) status
         (on_session (\<lambda>w. w\<lparr>wn_failed := True, wn_streams := [], wn_aliases := []\<rparr>) (clearWriteTimer c)))"

definition failFinishedWrite :: "string \<Rightarrow> clip \<Rightarrow> clip" where
  "failFinishedWrite status c = (case cp_writeSession c of
       None \<Rightarrow> c\<lparr>cp_applying := False\<rparr>
     | Some session \<Rightarrow> replyWrite (wn_id session) status
         (on_session (\<lambda>w. w\<lparr>wn_failed := True, wn_streams := [], wn_aliases := [], wn_currentMime := None\<rparr>)
           (clearWriteTimer (c\<lparr>cp_applying := False\<rparr>))))"

fun decode_streams :: "(jsstring, write_stream) jsmap \<Rightarrow> (jsstring, bytes) jsmap \<Rightarrow> (jsstring, bytes) jsmap option" where
  "decode_streams [] decoded = Some decoded"
| "decode_streams ((mime, stream) # rest) decoded =
     (case decodeBase64 (concat (ws_parts stream)) of
        Inl _ \<Rightarrow> None
      | Inr bs \<Rightarrow> decode_streams rest (map_set mime bs decoded))"

definition add_variant :: "(jsstring, jsstring list) jsmap \<Rightarrow> (jsstring, bytes) jsmap \<Rightarrow> jsstring \<times> bytes \<Rightarrow> (jsstring, bytes) jsmap" where
  "add_variant aliases variants entry = (case entry of (mime, bs) \<Rightarrow>
     foldl (\<lambda>vs alias. map_set alias bs vs) (map_set mime bs variants) (the_default [] (map_get aliases mime)))"

definition finishWrite :: "write_session \<Rightarrow> clip \<Rightarrow> clip" where
  "finishWrite session c =
     (let c = (clearWriteTimer c)\<lparr>cp_applying := True\<rparr>
      in case decode_streams (wn_streams session) [] of
          None \<Rightarrow> failFinishedWrite ''EINVAL'' c
        | Some decoded \<Rightarrow>
            if list_ex (\<lambda>target. \<not> map_has decoded target) (map_keys (wn_aliases session)) then failFinishedWrite ''EINVAL'' c
            else if cm_maxWriteBytes (cp_limits c) < (\<Sum>p\<leftarrow>decoded. int (length (snd p))) then failFinishedWrite ''EFBIG'' c
            else if decoded = [] then replyWrite (wn_id session) ''DONE'' (c\<lparr>cp_applying := False, cp_writeSession := None\<rparr>)
            else let n = cp_effects c
                 in clip_log (WriteClipboard n (foldl (add_variant (wn_aliases session)) [] decoded))
                      (c\<lparr>cp_effects := Suc n, cp_writes := cp_writes c @ [(n, wn_id session)]\<rparr>))"

text \<open>The part of \<open>finishWrite\<close> after the \<open>await\<close>.\<close>

definition write_settled :: "nat \<Rightarrow> failure_code option \<Rightarrow> clip \<Rightarrow> clip" where
  "write_settled n failure c = (case map_get (cp_writes c) n of
       None \<Rightarrow> c
     | Some ident \<Rightarrow>
         let c = c\<lparr>cp_writes := map_delete n (cp_writes c), cp_applying := False, cp_writeSession := None\<rparr>
         in if cp_disposed c then c
            else case failure of
                None \<Rightarrow> replyWrite ident ''DONE'' c
              | Some EPERM \<Rightarrow> clip_log (Noticed WriteDenied) (replyWrite ident ''EPERM'' c)
              | Some EIO \<Rightarrow> replyWrite ident ''EIO'' c)"

text \<open>The branch of \<open>handleWriteData\<close> that names a MIME type: \<open>Inl\<close> is the status of a failed write.\<close>

definition select_stream :: "clip_limits \<Rightarrow> jsstring \<Rightarrow> write_session \<Rightarrow> string + write_session" where
  "select_stream limits encodedMime w = (case decodeBase64Text encodedMime of
       None \<Rightarrow> Inl ''EINVAL''
     | Some mime \<Rightarrow>
         if \<not> isValidClipboardMime mime then Inl ''EINVAL''
         else if map_has (wn_streams w) mime then Inr (w\<lparr>wn_currentMime := Some mime\<rparr>)
         else if cm_maxMimeTypes limits \<le> int (length (wn_streams w)) then Inl ''EFBIG''
         else Inr (w\<lparr>wn_streams := map_set mime \<lparr>ws_parts = [], ws_encodedLength = 0\<rparr> (wn_streams w), wn_currentMime := Some mime\<rparr>))"

definition append_part :: "jsstring \<Rightarrow> jsstring \<Rightarrow> write_session \<Rightarrow> write_session" where
  "append_part mime payload w =
     (let stream = the (map_get (wn_streams w) mime); n = int (length payload)
      in w\<lparr>wn_streams := map_set mime (stream\<lparr>ws_parts := ws_parts stream @ [payload], ws_encodedLength := ws_encodedLength stream + n\<rparr>) (wn_streams w),
           wn_encodedTotal := wn_encodedTotal w + n\<rparr>)"

definition write_payload :: "bool \<Rightarrow> jsstring \<Rightarrow> clip \<Rightarrow> clip" where
  "write_payload named payload c = (case cp_writeSession c of
       None \<Rightarrow> c
     | Some w \<Rightarrow>
         if payload = [] then (if \<not> named then finishWrite w c else c)
         else case wn_currentMime w of
             None \<Rightarrow> failWrite ''EINVAL'' c
           | Some mime \<Rightarrow>
               if MAX_WDATA_ENCODED_CHUNK < int (length payload) then failWrite ''EINVAL'' c
               else let w' = append_part mime payload w; c = c\<lparr>cp_writeSession := Some w'\<rparr>
                    in if maxEncodedWriteLength (cm_maxWriteBytes (cp_limits c)) < wn_encodedTotal w'
                       then failWrite ''EFBIG'' c else c)"

definition handleWriteData :: "osc5522_frame \<Rightarrow> clip \<Rightarrow> clip" where
  "handleWriteData frame c = (case cp_writeSession c of
       None \<Rightarrow> replyWrite (sanitizeClipboardId (map_get (of_metadata frame) (js ''id''))) ''EINVAL'' c
     | Some session \<Rightarrow>
         if wn_failed session \<or> cp_applying c then c
         else let c = touchWriteSession c
              in case map_get (of_metadata frame) (js ''mime'') of
                  None \<Rightarrow> write_payload False (of_payload frame) c
                | Some encodedMime \<Rightarrow>
                    (case select_stream (cp_limits c) encodedMime (the (cp_writeSession c)) of
                       Inl status \<Rightarrow> failWrite status c
                     | Inr w \<Rightarrow> write_payload True (of_payload frame) (c\<lparr>cp_writeSession := Some w\<rparr>)))"

definition add_aliases :: "jsstring \<Rightarrow> jsstring list \<Rightarrow> write_session \<Rightarrow> write_session" where
  "add_aliases target aliases w =
     w\<lparr>wn_aliases := map_set target (the_default [] (map_get (wn_aliases w) target) @ aliases) (wn_aliases w)\<rparr>"

definition handleWriteAlias :: "osc5522_frame \<Rightarrow> clip \<Rightarrow> clip" where
  "handleWriteAlias frame c = (case cp_writeSession c of
       None \<Rightarrow> replyWrite (sanitizeClipboardId (map_get (of_metadata frame) (js ''id''))) ''EINVAL'' c
     | Some session \<Rightarrow>
         if wn_failed session \<or> cp_applying c then c
         else let c = touchWriteSession c
              in case (decodeBase64Text (the_default [] (map_get (of_metadata frame) (js ''mime''))), decodeBase64Text (of_payload frame)) of
                  (Some target, Some aliasList) \<Rightarrow>
                    (let aliases = filter (\<lambda>w. w \<noteq> []) (split_on space aliasList)
                     in if \<not> isValidClipboardMime target then failWrite ''EINVAL'' c
                        else if aliases = [] \<or> list_ex (\<lambda>alias. \<not> isValidClipboardMime alias) aliases then failWrite ''EINVAL'' c
                        else on_session (add_aliases target aliases) c)
                | _ \<Rightarrow> failWrite ''EINVAL'' c)"

section \<open>Events\<close>

definition handleOsc5522 :: "jsstring \<Rightarrow> write_origin \<Rightarrow> bool \<Rightarrow> clip \<Rightarrow> clip" where
  "handleOsc5522 raw origin isAuthorized c =
     (if cp_disposed c then c
      else let (live, c) = isLive origin c
           in if \<not> live then c
              else case parseOsc5522Frame raw of
                  None \<Rightarrow> c
                | Some frame \<Rightarrow>
                    let kind = map_get (of_metadata frame) (js ''type'')
                    in if kind = Some (js ''read'') then handleRead frame isAuthorized c
                       else if kind = Some (js ''write'') then beginWrite frame isAuthorized c
                       else if kind = Some (js ''wdata'') then handleWriteData frame c
                       else if kind = Some (js ''walias'') then handleWriteAlias frame c
                       else c)"

definition write_timeout :: "nat \<Rightarrow> clip \<Rightarrow> clip" where
  "write_timeout key c = (case cp_writeSession c of
       None \<Rightarrow> c
     | Some session \<Rightarrow> if wn_key session = key then replyWrite (wn_id session) ''EIO'' (c\<lparr>cp_writeSession := None\<rparr>) else c)"

definition offer_timeout :: "jsstring \<Rightarrow> clip \<Rightarrow> clip" where
  "offer_timeout password c = (if map_option po_password (cp_offer c) = Some password then dropOffer c else c)"

definition clip_timer_fires :: "nat \<Rightarrow> clip \<Rightarrow> clip" where
  "clip_timer_fires t c = (case map_get (cp_armed c) t of
       None \<Rightarrow> c
     | Some (WriteTimer key delay) \<Rightarrow> write_timeout key (c\<lparr>cp_armed := map_delete t (cp_armed c)\<rparr>)
     | Some (OfferTimer password delay) \<Rightarrow> offer_timeout password (c\<lparr>cp_armed := map_delete t (cp_armed c)\<rparr>))"

definition dispose_clip :: "clip \<Rightarrow> clip" where
  "dispose_clip c =
     (let c = dropOffer (c\<lparr>cp_disposed := True\<rparr>)
      in (disarm (Option.bind (cp_writeSession c) wn_timer) c)\<lparr>cp_writeSession := None\<rparr>)"

datatype clip_event =
    SetPasteEventMode bool
  | ReportModeQuery
  | Osc52 jsstring write_origin bool
  | Osc5522 jsstring write_origin bool
  | UserPasted paste_items bool
  | ClipTimer nat
  | TextRejected nat
  | WriteSettled nat "failure_code option"
  | ResetStreamEpoch
  | ClipDispose

fun clip_step :: "clip \<Rightarrow> clip_event \<Rightarrow> clip" where
  "clip_step c (SetPasteEventMode enabled) = setPasteEventMode enabled c"
| "clip_step c ReportModeQuery = reportModeQuery c"
| "clip_step c (Osc52 raw origin auth) = handleOsc52 raw origin auth c"
| "clip_step c (Osc5522 raw origin auth) = handleOsc5522 raw origin auth c"
| "clip_step c (UserPasted items auth) = userPasted items auth c"
| "clip_step c (ClipTimer t) = clip_timer_fires t c"
| "clip_step c (TextRejected n) = write_text_rejected n c"
| "clip_step c (WriteSettled n failure) = write_settled n failure c"
| "clip_step c ResetStreamEpoch = resetStreamEpoch c"
| "clip_step c ClipDispose = dispose_clip c"

end
