(* ===== verification/Clipboard_Safety.thy ===== *)
theory Clipboard_Safety
  imports Clipboard
begin

text \<open>
  What the clipboard protocol guarantees: its invariant (bounds, timers, one write at a time), which
  calls each event may make, and the properties of the component.
\<close>

section \<open>Fields\<close>

lemma js_eq_Nil [simp]: "js s = [] \<longleftrightarrow> s = []"
  by (simp add: js_def)

lemma clip_log_simps [simp]:
  "cp_limits (clip_log x c) = cp_limits c" "cp_writeSession (clip_log x c) = cp_writeSession c"
  "cp_applying (clip_log x c) = cp_applying c" "cp_offer (clip_log x c) = cp_offer c"
  "cp_disposed (clip_log x c) = cp_disposed c" "cp_timers (clip_log x c) = cp_timers c"
  "cp_armed (clip_log x c) = cp_armed c" "cp_effects (clip_log x c) = cp_effects c"
  "cp_writes (clip_log x c) = cp_writes c" "cp_log (clip_log x c) = cp_log c @ [x]"
  "cp_texts (clip_log x c) = cp_texts c" "cp_pasteEventMode (clip_log x c) = cp_pasteEventMode c"
  by (simp_all add: clip_log_def)

lemma send_all_simps [simp]:
  "cp_limits (send_all xs c) = cp_limits c" "cp_writeSession (send_all xs c) = cp_writeSession c"
  "cp_applying (send_all xs c) = cp_applying c" "cp_offer (send_all xs c) = cp_offer c"
  "cp_disposed (send_all xs c) = cp_disposed c" "cp_timers (send_all xs c) = cp_timers c"
  "cp_armed (send_all xs c) = cp_armed c" "cp_effects (send_all xs c) = cp_effects c"
  "cp_writes (send_all xs c) = cp_writes c" "cp_log (send_all xs c) = cp_log c @ xs"
  by (simp_all add: send_all_def)

lemma reply_simps [simp]:
  "cp_limits (reply k i s c) = cp_limits c" "cp_writeSession (reply k i s c) = cp_writeSession c"
  "cp_applying (reply k i s c) = cp_applying c" "cp_offer (reply k i s c) = cp_offer c"
  "cp_disposed (reply k i s c) = cp_disposed c" "cp_timers (reply k i s c) = cp_timers c"
  "cp_armed (reply k i s c) = cp_armed c" "cp_effects (reply k i s c) = cp_effects c"
  "cp_writes (reply k i s c) = cp_writes c"
  by (simp_all add: reply_def)

lemma replyWrite_simps [simp]:
  "cp_limits (replyWrite i s c) = cp_limits c" "cp_writeSession (replyWrite i s c) = cp_writeSession c"
  "cp_applying (replyWrite i s c) = cp_applying c" "cp_offer (replyWrite i s c) = cp_offer c"
  "cp_disposed (replyWrite i s c) = cp_disposed c" "cp_timers (replyWrite i s c) = cp_timers c"
  "cp_armed (replyWrite i s c) = cp_armed c" "cp_effects (replyWrite i s c) = cp_effects c"
  "cp_writes (replyWrite i s c) = cp_writes c"
  by (simp_all add: replyWrite_def)

lemma disarm_simps [simp]:
  "cp_limits (disarm t c) = cp_limits c" "cp_writeSession (disarm t c) = cp_writeSession c"
  "cp_applying (disarm t c) = cp_applying c" "cp_offer (disarm t c) = cp_offer c"
  "cp_disposed (disarm t c) = cp_disposed c" "cp_timers (disarm t c) = cp_timers c"
  "cp_effects (disarm t c) = cp_effects c" "cp_writes (disarm t c) = cp_writes c" "cp_log (disarm t c) = cp_log c"
  "cp_armed (disarm t c) = (case t of None \<Rightarrow> cp_armed c | Some n \<Rightarrow> map_delete n (cp_armed c))"
  by (simp_all add: disarm_def split: option.split)

lemma on_session_simps [simp]:
  "cp_limits (on_session f c) = cp_limits c" "cp_writeSession (on_session f c) = map_option f (cp_writeSession c)"
  "cp_applying (on_session f c) = cp_applying c" "cp_offer (on_session f c) = cp_offer c"
  "cp_disposed (on_session f c) = cp_disposed c" "cp_timers (on_session f c) = cp_timers c"
  "cp_armed (on_session f c) = cp_armed c" "cp_effects (on_session f c) = cp_effects c"
  "cp_writes (on_session f c) = cp_writes c" "cp_log (on_session f c) = cp_log c"
  by (simp_all add: on_session_def)

section \<open>Invariant\<close>

definition stream_ok :: "write_stream \<Rightarrow> bool" where
  "stream_ok st \<longleftrightarrow> ws_encodedLength st = (\<Sum>p\<leftarrow>ws_parts st. int (length p))"

text \<open>An active session's accounting: exact, bounded, and the current MIME type names a stream.\<close>

definition session_ok :: "clip_limits \<Rightarrow> write_session \<Rightarrow> bool" where
  "session_ok lm w \<longleftrightarrow> clean (wn_id w) \<and> (wn_failed w \<or>
     wf_map (wn_streams w) \<and> list_all (\<lambda>p. stream_ok (snd p)) (wn_streams w)
     \<and> wn_encodedTotal w = (\<Sum>p\<leftarrow>wn_streams w. ws_encodedLength (snd p))
     \<and> wn_encodedTotal w \<le> maxEncodedWriteLength (cm_maxWriteBytes lm)
     \<and> int (length (wn_streams w)) \<le> cm_maxMimeTypes lm
     \<and> (case wn_currentMime w of None \<Rightarrow> True | Some m \<Rightarrow> map_has (wn_streams w) m))"

lemma session_ok_timer [simp]: "session_ok lm (w\<lparr>wn_timer := t\<rparr>) = session_ok lm w"
  by (cases "wn_currentMime w") (simp_all add: session_ok_def)

lemma map_has_set [simp]: "map_has (map_set k v m) k' \<longleftrightarrow> k' = k \<or> map_has m k'"
  by (simp add: map_has_def)

text \<open>The armed timers are exactly those the session and the offer hold.\<close>

definition session_timer :: "clip_limits \<Rightarrow> write_session option \<Rightarrow> (nat \<times> clip_timer) set" where
  "session_timer lm s = {(t, WriteTimer (wn_key w) (cm_writeTimeoutMs lm)) | t w. s = Some w \<and> wn_timer w = Some t}"

definition offer_timer :: "clip_limits \<Rightarrow> paste_offer option \<Rightarrow> (nat \<times> clip_timer) set" where
  "offer_timer lm o' = {(t, OfferTimer (po_password f) (cm_offerTimeoutMs lm)) | t f. o' = Some f \<and> po_timer f = Some t}"

definition timers_for :: "clip_limits \<Rightarrow> nat \<Rightarrow> (nat \<times> clip_timer) list \<Rightarrow> write_session option \<Rightarrow> paste_offer option \<Rightarrow> bool" where
  "timers_for lm n armed s f \<longleftrightarrow> wf_map armed \<and> (\<forall>p \<in> set armed. fst p < n)
     \<and> set armed = session_timer lm s \<union> offer_timer lm f \<and> (\<forall>g. f = Some g \<longrightarrow> po_timer g \<noteq> None)"

abbreviation timers_ok :: "clip \<Rightarrow> bool" where
  "timers_ok c \<equiv> timers_for (cp_limits c) (cp_timers c) (cp_armed c) (cp_writeSession c) (cp_offer c)"

text \<open>At most one clipboard write is outstanding, and it is the session's.\<close>

fun writes_for :: "bool \<Rightarrow> bool \<Rightarrow> write_session option \<Rightarrow> (nat \<times> jsstring) list \<Rightarrow> bool" where
  "writes_for applying disposed s [] \<longleftrightarrow> \<not> applying"
| "writes_for applying disposed s [(n, i)] \<longleftrightarrow> applying \<and> (if disposed then s = None else \<exists>w. s = Some w \<and> \<not> wn_failed w \<and> wn_id w = i)"
| "writes_for applying disposed s (x # y # ys) \<longleftrightarrow> False"

definition clip_inv :: "clip \<Rightarrow> bool" where
  "clip_inv c \<longleftrightarrow> 0 \<le> cm_maxWriteBytes (cp_limits c) \<and> 0 \<le> cm_maxMimeTypes (cp_limits c)
     \<and> (\<forall>w. cp_writeSession c = Some w \<longrightarrow> session_ok (cp_limits c) w \<and> (wn_timer w = None \<longleftrightarrow> wn_failed w \<or> cp_applying c))
     \<and> timers_ok c
     \<and> writes_for (cp_applying c) (cp_disposed c) (cp_writeSession c) (cp_writes c)
     \<and> (cp_disposed c \<longrightarrow> cp_writeSession c = None \<and> cp_offer c = None)"

lemma clip_inv_new: "0 \<le> cm_maxWriteBytes lm \<Longrightarrow> 0 \<le> cm_maxMimeTypes lm \<Longrightarrow> clip_inv (new_clip lm pw)"
  by (simp add: clip_inv_def new_clip_def timers_for_def session_timer_def offer_timer_def)

lemma clip_inv_cong:
  assumes "cp_limits d = cp_limits c" "cp_writeSession d = cp_writeSession c" "cp_applying d = cp_applying c"
    "cp_offer d = cp_offer c" "cp_disposed d = cp_disposed c" "cp_timers d = cp_timers c" "cp_armed d = cp_armed c"
    "cp_writes d = cp_writes c"
  shows "clip_inv d = clip_inv c"
  using assms by (simp add: clip_inv_def timers_for_def)

lemma clip_inv_says [simp]:
  "clip_inv (clip_log x c) = clip_inv c" "clip_inv (send_all xs c) = clip_inv c" "clip_inv (reply k i s c) = clip_inv c"
  "clip_inv (replyWrite i s c) = clip_inv c" "clip_inv (replyRead i s c) = clip_inv c"
  by (rule clip_inv_cong; simp add: replyRead_def)+

lemma same_key: "wf_map m \<Longrightarrow> (k, a) \<in> set m \<Longrightarrow> (k, b) \<in> set m \<Longrightarrow> a = b"
  unfolding wf_map_def by (metis map_of_is_SomeI option.inject)

lemma timers_drop_session:
  assumes "timers_for lm n armed s f" and "session_timer lm s' = {}"
  shows "timers_for lm n (case Option.bind s wn_timer of None \<Rightarrow> armed | Some t \<Rightarrow> map_delete t armed) s' f"
proof (cases "Option.bind s wn_timer")
  case None
  then have "session_timer lm s = {}" by (auto simp: session_timer_def)
  with None assms show ?thesis by (simp add: timers_for_def)
next
  case (Some t)
  then obtain w where w: "s = Some w" "wn_timer w = Some t" by (cases s) auto
  have "set (map_delete t armed) = offer_timer lm f"
  proof -
    have e: "set armed = {(t, WriteTimer (wn_key w) (cm_writeTimeoutMs lm))} \<union> offer_timer lm f" "wf_map armed"
      using assms(1) w by (auto simp: timers_for_def session_timer_def)
    have "fst p \<noteq> t" if p: "p \<in> offer_timer lm f" for p
    proof
      assume "fst p = t"
      then obtain a b where "p = (t, OfferTimer a b)" using p by (auto simp: offer_timer_def)
      then have "(t, OfferTimer a b) \<in> set armed" using p e(1) by simp
      moreover have "\<exists>a' b'. (t, WriteTimer a' b') \<in> set armed" using e(1) by blast
      ultimately show False using same_key [OF e(2)] by blast
    qed
    with e(1) show ?thesis by (auto simp: set_map_delete)
  qed
  with Some assms show ?thesis by (auto simp: timers_for_def set_map_delete)
qed

lemma timers_drop_offer:
  assumes "timers_for lm n armed s f"
  shows "timers_for lm n (case Option.bind f po_timer of None \<Rightarrow> armed | Some t \<Rightarrow> map_delete t armed) s None"
proof (cases "Option.bind f po_timer")
  case None
  then have "offer_timer lm f = {}" by (auto simp: offer_timer_def)
  with None assms show ?thesis by (simp add: timers_for_def) (simp add: offer_timer_def)
next
  case (Some t)
  then obtain g where g: "f = Some g" "po_timer g = Some t" by (cases f) auto
  have "set (map_delete t armed) = session_timer lm s"
  proof -
    have e: "set armed = session_timer lm s \<union> {(t, OfferTimer (po_password g) (cm_offerTimeoutMs lm))}" "wf_map armed"
      using assms(1) g by (auto simp: timers_for_def offer_timer_def)
    have "fst p \<noteq> t" if p: "p \<in> session_timer lm s" for p
    proof
      assume "fst p = t"
      then obtain a b where "p = (t, WriteTimer a b)" using p by (auto simp: session_timer_def)
      then have "(t, WriteTimer a b) \<in> set armed" using p e(1) by simp
      moreover have "\<exists>a' b'. (t, OfferTimer a' b') \<in> set armed" using e(1) by blast
      ultimately show False using same_key [OF e(2)] by blast
    qed
    with e(1) show ?thesis by (auto simp: set_map_delete)
  qed
  with Some assms show ?thesis by (auto simp: timers_for_def set_map_delete offer_timer_def)
qed

lemma timers_fresh: "timers_for lm n armed s f \<Longrightarrow> n \<notin> fst ` set armed"
  by (auto simp: timers_for_def)

lemma timers_set_session:
  assumes "timers_for lm n armed s f" and "session_timer lm s = {}" and "wn_timer w = Some n"
  shows "timers_for lm (Suc n) (armed @ [(n, WriteTimer (wn_key w) (cm_writeTimeoutMs lm))]) (Some w) f"
  using assms timers_fresh [OF assms(1)]
  by (auto simp: timers_for_def wf_map_def session_timer_def less_Suc_eq)

lemma timers_set_offer:
  assumes "timers_for lm n armed s None"
  shows "timers_for lm (Suc n) (armed @ [(n, OfferTimer pw (cm_offerTimeoutMs lm))]) s
    (Some \<lparr>po_password = pw, po_mimes = m, po_timer = Some n\<rparr>)"
  using assms timers_fresh [OF assms(1)]
  by (auto simp: timers_for_def wf_map_def offer_timer_def less_Suc_eq)

lemma timers_same_session:
  "timers_for lm n armed s f \<Longrightarrow> session_timer lm s' = session_timer lm s \<Longrightarrow> timers_for lm n armed s' f"
  by (simp add: timers_for_def)

section \<open>The invariant is kept\<close>

text \<open>A state with no write in the hands of the browser.\<close>

definition quiet :: "clip \<Rightarrow> bool" where
  "quiet c \<longleftrightarrow> 0 \<le> cm_maxWriteBytes (cp_limits c) \<and> 0 \<le> cm_maxMimeTypes (cp_limits c) \<and> timers_ok c
     \<and> \<not> cp_applying c \<and> cp_writes c = [] \<and> \<not> cp_disposed c"

lemma quiet_inv:
  "quiet c \<Longrightarrow> (\<And>w. cp_writeSession c = Some w \<Longrightarrow> session_ok (cp_limits c) w \<and> (wn_timer w = None \<longleftrightarrow> wn_failed w)) \<Longrightarrow> clip_inv c"
  by (auto simp: quiet_def clip_inv_def)

lemma inv_quiet: "clip_inv c \<Longrightarrow> \<not> cp_applying c \<Longrightarrow> \<not> cp_disposed c \<Longrightarrow> quiet c"
  by (cases "cp_writes c" rule: list.exhaust) (auto simp: quiet_def clip_inv_def dest: writes_for.elims)

lemma clearWriteTimer_simps [simp]:
  "cp_limits (clearWriteTimer c) = cp_limits c" "cp_applying (clearWriteTimer c) = cp_applying c"
  "cp_writeSession (clearWriteTimer c) = map_option (\<lambda>w. w\<lparr>wn_timer := None\<rparr>) (cp_writeSession c)"
  "cp_offer (clearWriteTimer c) = cp_offer c" "cp_disposed (clearWriteTimer c) = cp_disposed c"
  "cp_timers (clearWriteTimer c) = cp_timers c" "cp_effects (clearWriteTimer c) = cp_effects c"
  "cp_writes (clearWriteTimer c) = cp_writes c" "cp_log (clearWriteTimer c) = cp_log c"
  "cp_armed (clearWriteTimer c) =
     (case Option.bind (cp_writeSession c) wn_timer of None \<Rightarrow> cp_armed c | Some t \<Rightarrow> map_delete t (cp_armed c))"
  by (simp_all add: clearWriteTimer_def)

lemma no_session_timer [simp]:
  "session_timer lm None = {}" "session_timer lm (Some (w\<lparr>wn_timer := None\<rparr>)) = {}"
  "wn_timer w = None \<Longrightarrow> session_timer lm (Some w) = {}"
  "session_timer lm (map_option (\<lambda>w. w\<lparr>wn_timer := None\<rparr>) s) = {}"
  by (auto simp: session_timer_def)

lemma timers_cleared:
  assumes "timers_ok c" and "session_timer (cp_limits c) s = {}"
  shows "timers_for (cp_limits c) (cp_timers c) (cp_armed (clearWriteTimer c)) s (cp_offer c)"
  using timers_drop_session [OF assms] by simp

lemma touch_session:
  assumes "quiet c" and "cp_writeSession c = Some w"
  shows "quiet (touchWriteSession c)" "cp_writeSession (touchWriteSession c) = Some (w\<lparr>wn_timer := Some (cp_timers c)\<rparr>)"
    "cp_limits (touchWriteSession c) = cp_limits c" "cp_log (touchWriteSession c) = cp_log c"
proof -
  let ?A = "cp_armed (clearWriteTimer c)"
  have "timers_for (cp_limits c) (cp_timers c) ?A (Some (w\<lparr>wn_timer := None\<rparr>)) (cp_offer c)"
    using assms by (intro timers_cleared) (simp_all add: quiet_def)
  from timers_set_session [OF this, of "w\<lparr>wn_timer := Some (cp_timers c)\<rparr>"]
  have "timers_for (cp_limits c) (Suc (cp_timers c)) (?A @ [(cp_timers c, WriteTimer (wn_key w) (cm_writeTimeoutMs (cp_limits c)))])
      (Some (w\<lparr>wn_timer := Some (cp_timers c)\<rparr>)) (cp_offer c)" by simp
  then show "quiet (touchWriteSession c)"
    using assms by (simp add: touchWriteSession_def quiet_def Let_def del: clearWriteTimer_simps(10))
  show "cp_writeSession (touchWriteSession c) = Some (w\<lparr>wn_timer := Some (cp_timers c)\<rparr>)"
    "cp_limits (touchWriteSession c) = cp_limits c" "cp_log (touchWriteSession c) = cp_log c"
    using assms by (simp_all add: touchWriteSession_def Let_def)
qed

lemma quiet_session:
  "quiet c \<Longrightarrow> cp_writeSession c = Some w \<Longrightarrow> wn_timer w' = wn_timer w \<Longrightarrow> wn_key w' = wn_key w \<Longrightarrow>
     quiet (c\<lparr>cp_writeSession := Some w'\<rparr>)"
  by (auto simp: quiet_def session_timer_def intro: timers_same_session [where s = "Some w"])

lemma failWrite_inv:
  assumes "quiet c" and "cp_writeSession c = Some w" and "clean (wn_id w)"
  shows "clip_inv (failWrite st c)"
proof -
  let ?d = "on_session (\<lambda>w. w\<lparr>wn_failed := True, wn_streams := [], wn_aliases := []\<rparr>) (clearWriteTimer c)"
  have "timers_ok ?d"
    using assms timers_cleared [of c "cp_writeSession ?d"] by (simp add: quiet_def del: clearWriteTimer_simps(10))
  then have "quiet ?d" using assms by (simp add: quiet_def)
  then have "clip_inv ?d" by (rule quiet_inv) (use assms in \<open>auto simp: session_ok_def\<close>)
  then show ?thesis using assms by (simp add: failWrite_def)
qed

lemma failFinished_inv:
  assumes "quiet (c\<lparr>cp_applying := False\<rparr>)" and "cp_writeSession c = Some w" and "clean (wn_id w)"
  shows "clip_inv (failFinishedWrite st c)"
proof -
  let ?c = "c\<lparr>cp_applying := False\<rparr>"
  let ?d = "on_session (\<lambda>w. w\<lparr>wn_failed := True, wn_streams := [], wn_aliases := [], wn_currentMime := None\<rparr>) (clearWriteTimer ?c)"
  have "timers_ok ?d"
    using assms timers_cleared [of ?c "cp_writeSession ?d"] by (simp add: quiet_def del: clearWriteTimer_simps(10))
  then have "quiet ?d" using assms by (simp add: quiet_def)
  then have "clip_inv ?d" by (rule quiet_inv) (use assms in \<open>auto simp: session_ok_def\<close>)
  then show ?thesis using assms by (simp add: failFinishedWrite_def)
qed

lemma clip_inv_if: "(b \<Longrightarrow> clip_inv c) \<Longrightarrow> (\<not> b \<Longrightarrow> clip_inv d) \<Longrightarrow> clip_inv (if b then c else d)"
  by simp

lemma finishWrite_inv:
  assumes "quiet c" and "cp_writeSession c = Some w" and "session_ok (cp_limits c) w" and "\<not> wn_failed w"
  shows "clip_inv (finishWrite w c)"
proof -
  let ?c = "(clearWriteTimer c)\<lparr>cp_applying := True\<rparr>"
  have timers: "timers_for (cp_limits c) (cp_timers c) (cp_armed (clearWriteTimer c)) s (cp_offer c)"
    if "session_timer (cp_limits c) s = {}" for s
    using that assms(1) by (intro timers_cleared) (simp_all add: quiet_def)
  have "quiet (?c\<lparr>cp_applying := False\<rparr>)"
    using assms(1,2) timers by (simp add: quiet_def del: clearWriteTimer_simps(10))
  then have failed: "clip_inv (failFinishedWrite st ?c)" for st
    using assms(2,3) by (intro failFinished_inv [where w = "w\<lparr>wn_timer := None\<rparr>"]) (auto simp: session_ok_def)
  have done_inv: "clip_inv (replyWrite (wn_id w) st (?c\<lparr>cp_applying := False, cp_writeSession := None\<rparr>))" for st
    using assms timers [of None]
    by (simp add: clip_inv_def quiet_def del: clearWriteTimer_simps(10))
  have sent: "clip_inv (clip_log x (?c\<lparr>cp_effects := Suc (cp_effects ?c), cp_writes := cp_writes ?c @ [(cp_effects ?c, wn_id w)]\<rparr>))" for x
    using assms timers [of "Some (w\<lparr>wn_timer := None\<rparr>)"]
    by (simp add: clip_inv_def quiet_def del: clearWriteTimer_simps(10))
  show ?thesis
    unfolding finishWrite_def Let_def
    using failed done_inv sent by (auto split: option.split)
qed

lemma sum_streams_update:
  assumes "wf_map m" and "map_get m k = Some v"
  shows "(\<Sum>p\<leftarrow>map_set k v' m. f (snd p)) = (\<Sum>p\<leftarrow>m. f (snd p)) - f v + (f v' :: int)"
  using assms
proof (induction m)
  case (Cons p m)
  obtain k' u where p: "p = (k', u)" by (cases p)
  show ?case
  proof (cases "k' = k")
    case True
    then show ?thesis using Cons.prems p by simp
  next
    case False
    then show ?thesis using Cons p by (simp add: wf_map_def)
  qed
qed simp

lemma length_map_set: "length (map_set k v m) = (if map_has m k then length m else Suc (length m))"
  by (induction m) (auto simp: map_has_def)

lemma list_all_map_set: "list_all P m \<Longrightarrow> P (k, v) \<Longrightarrow> list_all P (map_set k v m)"
  by (induction m) auto

lemma select_stream_ok:
  assumes "session_ok lm w" and "\<not> wn_failed w" and "select_stream lm e w = Inr w'"
  shows "session_ok lm w'" "wn_timer w' = wn_timer w" "wn_key w' = wn_key w" "\<not> wn_failed w'"
proof -
  from assms(3) obtain mime where m: "decodeBase64Text e = Some mime"
    by (auto simp: select_stream_def split: option.splits)
  then have cases: "map_has (wn_streams w) mime \<and> w' = w\<lparr>wn_currentMime := Some mime\<rparr>
    \<or> \<not> map_has (wn_streams w) mime \<and> int (length (wn_streams w)) < cm_maxMimeTypes lm
      \<and> w' = w\<lparr>wn_streams := map_set mime \<lparr>ws_parts = [], ws_encodedLength = 0\<rparr> (wn_streams w), wn_currentMime := Some mime\<rparr>"
    using assms(3) by (auto simp: select_stream_def split: if_splits)
  then show "session_ok lm w'" "wn_timer w' = wn_timer w" "wn_key w' = wn_key w" "\<not> wn_failed w'"
    using assms(1,2)
    by (auto simp: session_ok_def map_set_fresh wf_map_snoc stream_ok_def)
      (metis map_has_set map_set_fresh)
qed

lemma append_part_ok:
  assumes "session_ok lm w" and "\<not> wn_failed w" and "map_get (wn_streams w) mime = Some st"
    and "wn_currentMime w = Some mime"
    and "wn_encodedTotal (append_part mime payload w) \<le> maxEncodedWriteLength (cm_maxWriteBytes lm)"
  shows "session_ok lm (append_part mime payload w)"
proof -
  let ?st = "st\<lparr>ws_parts := ws_parts st @ [payload], ws_encodedLength := ws_encodedLength st + int (length payload)\<rparr>"
  have ok: "wf_map (wn_streams w)" "list_all (\<lambda>p. stream_ok (snd p)) (wn_streams w)"
    "wn_encodedTotal w = (\<Sum>p\<leftarrow>wn_streams w. ws_encodedLength (snd p))" "int (length (wn_streams w)) \<le> cm_maxMimeTypes lm" "clean (wn_id w)"
    using assms(1,2) by (simp_all add: session_ok_def)
  have "(mime, st) \<in> set (wn_streams w)" using assms(3) by (rule map_of_SomeD)
  then have "stream_ok st" using ok(2) by (auto simp: list_all_iff)
  then have "stream_ok ?st" by (simp add: stream_ok_def)
  moreover have "map_has (wn_streams w) mime" using assms(3) by (simp add: map_has_def)
  ultimately show ?thesis
    using ok assms(3,4,5) sum_streams_update [OF ok(1) assms(3), of ws_encodedLength ?st]
    by (simp add: session_ok_def append_part_def Let_def list_all_map_set length_map_set)
qed

lemma write_payload_inv:
  assumes "quiet c" and "cp_writeSession c = Some w" and "session_ok (cp_limits c) w" and "\<not> wn_failed w" and "wn_timer w \<noteq> None"
  shows "clip_inv (write_payload named payload c)"
proof -
  have ident: "clean (wn_id w)" using assms(3) by (simp add: session_ok_def)
  have same: "clip_inv c" using assms(1) by (rule quiet_inv) (use assms in simp)
  show ?thesis
  proof (cases "payload = [] \<or> wn_currentMime w = None")
    case True
    then show ?thesis
      using assms ident same finishWrite_inv failWrite_inv by (auto simp: write_payload_def split: option.splits)
  next
    case False
    then obtain mime where mime: "wn_currentMime w = Some mime" by auto
    let ?w = "append_part mime payload w"
    have timer: "wn_timer ?w = wn_timer w" "wn_key ?w = wn_key w" "wn_failed ?w = wn_failed w"
      by (simp_all add: append_part_def Let_def)
    have q: "quiet (c\<lparr>cp_writeSession := Some ?w\<rparr>)" using assms(1,2) timer(1,2) by (rule quiet_session)
    have fail: "clip_inv (failWrite st c)" "clip_inv (failWrite st (c\<lparr>cp_writeSession := Some ?w\<rparr>))" for st
      using failWrite_inv [OF assms(1,2)] failWrite_inv [OF q] assms(3)
      by (simp_all add: session_ok_def append_part_def Let_def)
    have "clip_inv (c\<lparr>cp_writeSession := Some ?w\<rparr>)"
      if "\<not> maxEncodedWriteLength (cm_maxWriteBytes (cp_limits c)) < wn_encodedTotal ?w"
    proof -
      obtain st where "map_get (wn_streams w) mime = Some st"
        using assms(3,4) mime by (auto simp: session_ok_def map_has_def)
      then have "session_ok (cp_limits c) ?w"
        using append_part_ok [OF assms(3,4) _ mime] that by simp
      then show ?thesis using q timer assms(4,5) by (intro quiet_inv) simp_all
    qed
    then show ?thesis
      using False mime assms(2) fail by (auto simp: write_payload_def Let_def)
  qed
qed

lemma active_quiet:
  assumes "clip_inv c" and "cp_writeSession c = Some w" and "\<not> (wn_failed w \<or> cp_applying c)"
  shows "quiet c" "session_ok (cp_limits c) w" "\<not> wn_failed w" "\<not> cp_disposed c"
proof -
  show "\<not> cp_disposed c" using assms(1,2) by (auto simp: clip_inv_def)
  then show "quiet c" using assms by (intro inv_quiet) auto
qed (use assms in \<open>auto simp: clip_inv_def\<close>)

lemma handleWriteData_inv:
  assumes "clip_inv c"
  shows "clip_inv (handleWriteData frame c)"
proof (cases "cp_writeSession c")
  case None
  then show ?thesis using assms by (simp add: handleWriteData_def)
next
  case (Some w)
  show ?thesis
  proof (cases "wn_failed w \<or> cp_applying c")
    case True
    then show ?thesis using assms Some by (auto simp: handleWriteData_def)
  next
    case False
    note q = active_quiet [OF assms Some False]
    let ?c = "touchWriteSession c" and ?w = "w\<lparr>wn_timer := Some (cp_timers c)\<rparr>"
    note t = touch_session [OF q(1) Some]
    have plain: "clip_inv (write_payload False (of_payload frame) ?c)"
      using q t by (intro write_payload_inv [where w = ?w]) simp_all
    have failed: "clip_inv (failWrite st ?c)" for st
      using t q by (intro failWrite_inv) (auto simp: session_ok_def)
    have named: "clip_inv (write_payload True (of_payload frame) (?c\<lparr>cp_writeSession := Some w'\<rparr>))"
      if "select_stream (cp_limits ?c) e ?w = Inr w'" for e w'
    proof -
      have "session_ok (cp_limits ?c) ?w" "\<not> wn_failed ?w" using q t by simp_all
      note s = select_stream_ok [OF this that]
      have "quiet (?c\<lparr>cp_writeSession := Some w'\<rparr>)" using t(1,2) s(2,3) by (rule quiet_session)
      then show ?thesis using s by (intro write_payload_inv [where w = w']) simp_all
    qed
    show ?thesis
      using Some False plain failed named t(2)
      by (auto simp: handleWriteData_def Let_def split: option.split sum.split)
  qed
qed

lemma add_aliases_ok [simp]:
  "session_ok lm (add_aliases t as w) = session_ok lm w" "wn_timer (add_aliases t as w) = wn_timer w"
  "wn_key (add_aliases t as w) = wn_key w" "wn_failed (add_aliases t as w) = wn_failed w"
  by (cases "wn_currentMime w"; simp add: add_aliases_def session_ok_def)+

lemma handleWriteAlias_inv:
  assumes "clip_inv c"
  shows "clip_inv (handleWriteAlias frame c)"
proof (cases "cp_writeSession c")
  case None
  then show ?thesis using assms by (simp add: handleWriteAlias_def)
next
  case (Some w)
  show ?thesis
  proof (cases "wn_failed w \<or> cp_applying c")
    case True
    then show ?thesis using assms Some by (auto simp: handleWriteAlias_def)
  next
    case False
    note q = active_quiet [OF assms Some False]
    let ?c = "touchWriteSession c" and ?w = "w\<lparr>wn_timer := Some (cp_timers c)\<rparr>"
    note t = touch_session [OF q(1) Some]
    have failed: "clip_inv (failWrite st ?c)" for st
      using t q by (intro failWrite_inv) (auto simp: session_ok_def)
    have added: "clip_inv (on_session (add_aliases x as) ?c)" for x as
    proof -
      have "quiet (?c\<lparr>cp_writeSession := Some (add_aliases x as ?w)\<rparr>)" using t(1,2) by (rule quiet_session) simp_all
      then have "quiet (on_session (add_aliases x as) ?c)" using t(2) by (simp add: on_session_def)
      then show ?thesis using q t by (intro quiet_inv) auto
    qed
    show ?thesis
      using Some False failed added by (auto simp: handleWriteAlias_def Let_def split: option.split)
  qed
qed

lemma beginWrite_inv:
  assumes "clip_inv c" and "\<not> cp_disposed c"
  shows "clip_inv (beginWrite frame auth c)"
proof -
  define ident where "ident = sanitizeClipboardId (map_get (of_metadata frame) (js ''id''))"
  define ses where "ses = \<lparr>wn_key = cp_sessions c, wn_id = ident, wn_failed = False, wn_currentMime = None, wn_streams = [],
                 wn_aliases = [], wn_encodedTotal = 0, wn_timer = None\<rparr>"
  have start: "clip_inv (touchWriteSession (c\<lparr>cp_sessions := Suc (cp_sessions c), cp_writeSession := Some (ses)\<rparr>))"
    if "\<not> ((case cp_writeSession c of None \<Rightarrow> False | Some session \<Rightarrow> \<not> wn_failed session) \<or> cp_applying c)"
  proof -
    let ?d = "c\<lparr>cp_sessions := Suc (cp_sessions c), cp_writeSession := Some (ses)\<rparr>"
    have "quiet c" using assms that by (intro inv_quiet) auto
    moreover have "session_timer (cp_limits c) (cp_writeSession c) = {}"
      using assms(1) that by (cases "cp_writeSession c") (auto simp: clip_inv_def)
    ultimately have d: "quiet ?d"
      by (auto simp: quiet_def ses_def intro: timers_same_session [where s = "cp_writeSession c"])
    have s: "cp_writeSession ?d = Some (ses)" by simp
    note t = touch_session [OF d s]
    have "session_ok (cp_limits c) (ses)"
      using d by (simp add: session_ok_def quiet_def maxEncodedWriteLength_def ses_def pos_imp_zdiv_nonneg_iff ident_def
          sanitizeClipboardId_def clean_filter_id)
    then have "session_ok (cp_limits c) ((ses)\<lparr>wn_timer := Some (cp_timers ?d)\<rparr>)" by (simp only: session_ok_timer)
    moreover have "\<not> wn_failed (ses)" by (simp add: ses_def)
    ultimately show ?thesis using t by (intro quiet_inv) auto
  qed
  show ?thesis unfolding beginWrite_def Let_def using assms start [unfolded ses_def ident_def] by simp
qed

lemma dropOffer_simps [simp]:
  "cp_limits (dropOffer c) = cp_limits c" "cp_writeSession (dropOffer c) = cp_writeSession c"
  "cp_applying (dropOffer c) = cp_applying c" "cp_offer (dropOffer c) = None"
  "cp_disposed (dropOffer c) = cp_disposed c" "cp_timers (dropOffer c) = cp_timers c"
  "cp_effects (dropOffer c) = cp_effects c" "cp_writes (dropOffer c) = cp_writes c" "cp_log (dropOffer c) = cp_log c"
  "cp_pasteEventMode (dropOffer c) = cp_pasteEventMode c"
  by (simp_all add: dropOffer_def disarm_def split: option.split)

lemma dropOffer_timers: "timers_ok c \<Longrightarrow> timers_ok (dropOffer c)"
  using timers_drop_offer [of "cp_limits c" "cp_timers c" "cp_armed c" "cp_writeSession c" "cp_offer c"]
  by (simp add: dropOffer_def)

lemma dropOffer_inv: "clip_inv c \<Longrightarrow> clip_inv (dropOffer c)"
  using dropOffer_timers by (simp add: clip_inv_def)

lemma handleRead_inv: "clip_inv c \<Longrightarrow> clip_inv (handleRead frame auth c)"
  by (simp add: handleRead_def serve_read_def replyReadListing_def Let_def dropOffer_inv split: option.split)

lemma userPasted_inv:
  assumes "clip_inv c"
  shows "clip_inv (userPasted items auth c)"
proof -
  have offer: "clip_inv (d\<lparr>cp_passwords := k, cp_timers := Suc (cp_timers d),
      cp_armed := cp_armed d @ [(cp_timers d, OfferTimer pw (cm_offerTimeoutMs (cp_limits d)))],
      cp_offer := Some \<lparr>po_password = pw, po_mimes = m, po_timer = Some (cp_timers d)\<rparr>\<rparr>)"
    if "clip_inv d" "cp_offer d = None" "\<not> cp_disposed d" for d k pw m
    using that timers_set_offer [of "cp_limits d" "cp_timers d" "cp_armed d" "cp_writeSession d" pw m]
    by (simp add: clip_inv_def)
  show ?thesis
    unfolding userPasted_def Let_def split_def
    using assms offer [of "dropOffer c"] by (simp add: dropOffer_inv)
qed

lemma clip_inv_epoch [simp]: "clip_inv (c\<lparr>cp_latestEpoch := e\<rparr>) = clip_inv c"
  by (rule clip_inv_cong) simp_all

lemma isLive_inv: "clip_inv (snd (isLive origin c)) = clip_inv c" "cp_disposed (snd (isLive origin c)) = cp_disposed c"
  "cp_log (snd (isLive origin c)) = cp_log c"
  by (simp_all add: isLive_def split: option.split)

lemma handleOsc5522_inv: "clip_inv c \<Longrightarrow> clip_inv (handleOsc5522 raw origin auth c)"
  using isLive_inv [of origin c]
  by (auto simp: handleOsc5522_def Let_def split_def handleRead_inv beginWrite_inv handleWriteData_inv handleWriteAlias_inv
      split: option.split)

lemma handleOsc52_inv: "clip_inv c \<Longrightarrow> clip_inv (handleOsc52 raw origin auth c)"
proof -
  assume "clip_inv c"
  moreover have "clip_inv (d\<lparr>cp_texts := x, cp_effects := y\<rparr>) = clip_inv d" for d x y by (rule clip_inv_cong) simp_all
  ultimately show ?thesis
    using isLive_inv [of origin c] by (simp add: handleOsc52_def Let_def split_def split: option.split)
qed

lemma timer_removed:
  assumes "clip_inv c" and "map_get (cp_armed c) t = Some tm"
  shows "(\<exists>w. tm = WriteTimer (wn_key w) (cm_writeTimeoutMs (cp_limits c)) \<and> cp_writeSession c = Some w \<and> wn_timer w = Some t)
    \<or> (\<exists>f. tm = OfferTimer (po_password f) (cm_offerTimeoutMs (cp_limits c)) \<and> cp_offer c = Some f \<and> po_timer f = Some t)"
proof -
  have "(t, tm) \<in> set (cp_armed c)" using assms(2) by (rule map_of_SomeD)
  then show ?thesis
    using assms(1) by (auto simp: clip_inv_def timers_for_def session_timer_def offer_timer_def)
qed

lemma clip_timer_inv:
  assumes "clip_inv c"
  shows "clip_inv (clip_timer_fires t c)"
proof (cases "map_get (cp_armed c) t")
  case None
  then show ?thesis using assms by (simp add: clip_timer_fires_def)
next
  case (Some tm)
  let ?c = "c\<lparr>cp_armed := map_delete t (cp_armed c)\<rparr>"
  from timer_removed [OF assms Some] show ?thesis
  proof
    assume "\<exists>w. tm = WriteTimer (wn_key w) (cm_writeTimeoutMs (cp_limits c)) \<and> cp_writeSession c = Some w \<and> wn_timer w = Some t"
    then obtain w where w: "tm = WriteTimer (wn_key w) (cm_writeTimeoutMs (cp_limits c))" "cp_writeSession c = Some w" "wn_timer w = Some t"
      by blast
    have q: "\<not> cp_applying c" "\<not> cp_disposed c" using assms w(2,3) by (auto simp: clip_inv_def)
    have "timers_for (cp_limits c) (cp_timers c) (cp_armed ?c) None (cp_offer c)"
      using timers_drop_session [of "cp_limits c" "cp_timers c" "cp_armed c" "cp_writeSession c" "cp_offer c" None] assms w
      by (simp add: clip_inv_def)
    then have "clip_inv (?c\<lparr>cp_writeSession := None\<rparr>)"
      using inv_quiet [OF assms q] by (intro quiet_inv) (simp_all add: quiet_def)
    then show ?thesis using Some w by (simp add: clip_timer_fires_def write_timeout_def)
  next
    assume "\<exists>f. tm = OfferTimer (po_password f) (cm_offerTimeoutMs (cp_limits c)) \<and> cp_offer c = Some f \<and> po_timer f = Some t"
    then obtain f where f: "tm = OfferTimer (po_password f) (cm_offerTimeoutMs (cp_limits c))" "cp_offer c = Some f" "po_timer f = Some t"
      by blast
    have "AList.delete t (AList.delete t (cp_armed c)) = AList.delete t (cp_armed c)" by (simp add: AList.delete_eq)
    then have "clip_timer_fires t c = dropOffer c"
      using Some f by (simp add: clip_timer_fires_def offer_timeout_def dropOffer_def disarm_def)
    then show ?thesis using dropOffer_inv [OF assms] by simp
  qed
qed

lemma write_settled_inv:
  assumes "clip_inv c"
  shows "clip_inv (write_settled n failure c)"
proof (cases "map_get (cp_writes c) n")
  case None
  then show ?thesis using assms by (simp add: write_settled_def)
next
  case (Some i)
  have "writes_for (cp_applying c) (cp_disposed c) (cp_writeSession c) (cp_writes c)" using assms by (simp add: clip_inv_def)
  then have one: "cp_writes c = [(n, i)]" "cp_applying c"
    using Some by (cases "(cp_applying c, cp_disposed c, cp_writeSession c, cp_writes c)" rule: writes_for.cases; auto split: if_splits)+
  have "session_timer (cp_limits c) (cp_writeSession c) = {}"
    using assms one(2) by (auto simp: clip_inv_def session_timer_def)
  then have "timers_for (cp_limits c) (cp_timers c) (cp_armed c) None (cp_offer c)"
    using assms by (auto simp: clip_inv_def intro: timers_same_session)
  then have "clip_inv (c\<lparr>cp_writes := map_delete n (cp_writes c), cp_applying := False, cp_writeSession := None\<rparr>)"
    using assms one by (simp add: clip_inv_def)
  then show ?thesis using Some by (simp add: write_settled_def Let_def split: option.split failure_code.split)
qed

lemma dispose_clip_inv:
  assumes "clip_inv c"
  shows "clip_inv (dispose_clip c)"
proof -
  let ?d = "dropOffer (c\<lparr>cp_disposed := True\<rparr>)"
  have "timers_ok ?d" using assms by (intro dropOffer_timers) (simp add: clip_inv_def)
  from timers_drop_session [OF this, of None]
  have "timers_for (cp_limits c) (cp_timers c) (cp_armed (dispose_clip c)) None None"
    by (simp add: dispose_clip_def Let_def)
  moreover have "writes_for (cp_applying c) True None (cp_writes c)"
    using assms by (cases "(cp_applying c, cp_disposed c, cp_writeSession c, cp_writes c)" rule: writes_for.cases)
      (auto simp: clip_inv_def)
  ultimately show ?thesis using assms by (simp add: clip_inv_def dispose_clip_def Let_def)
qed

lemma write_text_rejected_inv: "clip_inv c \<Longrightarrow> clip_inv (write_text_rejected n c)"
proof -
  have "clip_inv (c\<lparr>cp_texts := x\<rparr>) = clip_inv c" for x by (rule clip_inv_cong) simp_all
  then show "clip_inv c \<Longrightarrow> clip_inv (write_text_rejected n c)"
    by (simp add: write_text_rejected_def Let_def split: option.split)
qed

lemma clip_inv_step: "clip_inv c \<Longrightarrow> clip_inv (clip_step c e)"
proof -
  have "clip_inv (c\<lparr>cp_pasteEventMode := b\<rparr>) = clip_inv c" for b by (rule clip_inv_cong) simp_all
  then show "clip_inv c \<Longrightarrow> clip_inv (clip_step c e)"
    by (cases e) (simp_all add: setPasteEventMode_def reportModeQuery_def resetStreamEpoch_def handleOsc52_inv handleOsc5522_inv
        userPasted_inv clip_timer_inv write_settled_inv dispose_clip_inv write_text_rejected_inv)
qed

interpretation clipboard: event_machine clip_step clip_inv
  by unfold_locales (rule clip_inv_step)

section \<open>What is said to the terminal\<close>

text \<open>The frame an OSC parser at the other end reads, and whether it discloses clipboard content.\<close>

definition frame_of :: "clip_call \<Rightarrow> osc5522_frame option" where
  "frame_of call = (case call of SendToPty s \<Rightarrow> Option.bind (osc_data s) parseOsc5522Frame | _ \<Rightarrow> None)"

definition discloses :: "clip_call \<Rightarrow> bool" where
  "discloses call \<longleftrightarrow> (case frame_of call of
     None \<Rightarrow> False
   | Some f \<Rightarrow> map_get (of_metadata f) (js ''status'') = Some (js ''DATA'') \<and> of_payload f \<noteq> [])"

text \<open>The calls an event adds.\<close>

definition new_calls :: "clip \<Rightarrow> clip \<Rightarrow> clip_call list" where
  "new_calls c d = drop (length (cp_log c)) (cp_log d)"

definition silent :: "clip \<Rightarrow> clip \<Rightarrow> bool" where
  "silent c d \<longleftrightarrow> (\<exists>xs. cp_log d = cp_log c @ xs \<and> list_all (\<lambda>x. \<not> discloses x) xs)"

lemma silent_new: "silent c d \<Longrightarrow> x \<in> set (new_calls c d) \<Longrightarrow> \<not> discloses x"
  by (auto simp: silent_def new_calls_def list_all_iff)

lemma silent_same [simp]: "cp_log d = cp_log c \<Longrightarrow> silent c d"
  by (simp add: silent_def)

lemma silent_trans: "silent c d \<Longrightarrow> silent d e \<Longrightarrow> silent c e"
  by (auto simp: silent_def)

lemma silent_log: "cp_log d = cp_log c \<Longrightarrow> \<not> discloses x \<Longrightarrow> silent c (clip_log x d)"
  by (simp add: silent_def)

lemma silent_cong: "cp_log d = cp_log c \<Longrightarrow> cp_log d' = cp_log c' \<Longrightarrow> silent d d' = silent c c'"
  by (simp add: silent_def)

lemma alphabet_clean: "x \<in> set ALPHABET \<or> x = 61 \<Longrightarrow> x \<noteq> colon \<and> x \<noteq> semicolon"
  by (auto simp: ALPHABET_def js_def colon_def semicolon_def)

lemma base64_clean: "clean (encodeBase64 bs)"
proof -
  have "sextet_char w \<in> set ALPHABET" for w
    unfolding sextet_char_def
    by (rule nth_mem) (simp add: length_ALPHABET unat_and_63)
  then have "set (encode_group a b c h k) \<subseteq> insert 61 (set ALPHABET)" for a b c h k
    by (auto simp: encode_group_def Let_def EQUALS_SIGN_def)
  then have "set (encodeBase64 bs) \<subseteq> insert 61 (set ALPHABET)"
    by (induction bs rule: encodeBase64.induct) (auto simp del: ALPHABET_eq)
  then show ?thesis using alphabet_clean unfolding clean_def by blast
qed

lemma literals_clean [simp]:
  "clean (js ''read'')" "clean (js ''write'')" "clean (js ''OK'')" "clean (js ''DONE'')" "clean (js ''DATA'')"
  "clean (js ''EPERM'')" "clean (js ''EIO'')" "clean (js ''EINVAL'')" "clean (js ''EFBIG'')" "clean (js ''EBUSY'')"
  "clean (js ''ENOSYS'')"
  by code_simp+

lemma literal_keys [simp]:
  "METADATA_KEY (js ''type'')" "METADATA_KEY (js ''status'')" "METADATA_KEY (js ''mime'')" "METADATA_KEY (js ''id'')"
  "METADATA_KEY (js ''pw'')" "METADATA_KEY (js ''name'')"
  by code_simp+

lemma clean_sanitized [simp]: "clean (sanitizeClipboardId v)"
  by (simp add: sanitizeClipboardId_def clean_filter_id)

lemma frame_of_format: "metadata_ok md \<Longrightarrow> frame_of (SendToPty (formatOsc5522 md p)) = Some \<lparr>of_metadata = md, of_payload = the_default [] p\<rparr>"
  by (simp add: frame_of_def osc_data_format parse_body)

lemma reply_discloses_nothing:
  assumes "clean (js k)" and "clean (js st)" and "clean i"
  shows "\<not> discloses (SendToPty (formatOsc5522 ([(js ''type'', js k), (js ''status'', js st)] @ idPair i) None))"
proof -
  have "metadata_ok ([(js ''type'', js k), (js ''status'', js st)] @ idPair i)"
    using assms by (simp add: metadata_ok_def idPair_def)
  then show ?thesis by (simp add: discloses_def frame_of_format)
qed

lemma data_packet_frame:
  assumes "clean i"
  shows "frame_of (data_packet i mime p) = Some \<lparr>of_metadata =
    [(js ''type'', js ''read''), (js ''status'', js ''DATA''), (js ''mime'', encodeBase64Text mime)] @ idPair i, of_payload = p\<rparr>"
proof -
  have "metadata_ok ([(js ''type'', js ''read''), (js ''status'', js ''DATA''), (js ''mime'', encodeBase64Text mime)] @ idPair i)"
    using assms by (simp add: metadata_ok_def idPair_def encodeBase64Text_def base64_clean)
  then show ?thesis by (simp add: data_packet_def frame_of_format)
qed

lemma other_calls [simp]:
  "\<not> discloses (WriteText n t)" "\<not> discloses (WriteClipboard n v)" "\<not> discloses (Noticed x)"
  by (simp_all add: discloses_def frame_of_def)

lemma mode_report_discloses_nothing: "\<not> discloses (SendToPty (formatPrivateModeReport m st))"
  by (simp add: discloses_def frame_of_def formatPrivateModeReport_def osc_data_def js_def)

lemma announcement_discloses_nothing:
  "\<not> discloses (SendToPty (formatOsc5522 [(js ''type'', js ''read''), (js ''pw'', encodeBase64Text a), (js ''name'', encodeBase64Text b)] p))"
proof -
  have "metadata_ok [(js ''type'', js ''read''), (js ''pw'', encodeBase64Text a), (js ''name'', encodeBase64Text b)]"
    by (simp add: metadata_ok_def encodeBase64Text_def base64_clean)
  then show ?thesis by (simp add: discloses_def frame_of_format)
qed

lemma silent_reply:
  "silent c d \<Longrightarrow> clean i \<Longrightarrow> clean (js st) \<Longrightarrow> silent c (replyRead i st d)"
  "silent c d \<Longrightarrow> clean i \<Longrightarrow> clean (js st) \<Longrightarrow> silent c (replyWrite i st d)"
  by (auto simp: replyRead_def replyWrite_def reply_def silent_def reply_discloses_nothing [simplified])

lemma silent_if: "(b \<Longrightarrow> silent c d) \<Longrightarrow> (\<not> b \<Longrightarrow> silent c e) \<Longrightarrow> silent c (if b then d else e)"
  by simp

lemma failWrite_silent:
  "silent b c \<Longrightarrow> cp_writeSession c = Some w \<Longrightarrow> clean (wn_id w) \<Longrightarrow> clean (js st) \<Longrightarrow> silent b (failWrite st c)"
  "silent b c \<Longrightarrow> cp_writeSession c = Some w \<Longrightarrow> clean (wn_id w) \<Longrightarrow> clean (js st) \<Longrightarrow> silent b (failFinishedWrite st c)"
  by (simp add: failWrite_def failFinishedWrite_def; rule silent_reply; simp add: silent_def)+

lemma finishWrite_silent:
  assumes "cp_writeSession c = Some w" and "clean (wn_id w)"
  shows "silent c (finishWrite w c)"
proof -
  let ?c = "(clearWriteTimer c)\<lparr>cp_applying := True\<rparr>"
  have "silent c (failFinishedWrite st ?c)" if "clean (js st)" for st
    by (rule failWrite_silent(2) [where w = "w\<lparr>wn_timer := None\<rparr>"]) (use assms that in simp_all)
  moreover have "silent c (replyWrite (wn_id w) ''DONE'' (?c\<lparr>cp_applying := False, cp_writeSession := None\<rparr>))"
    using assms by (intro silent_reply) simp_all
  moreover have "silent c (clip_log (WriteClipboard n v) (?c\<lparr>cp_effects := k, cp_writes := l\<rparr>))" for n v k l
    by (rule silent_log) simp_all
  ultimately show ?thesis
    unfolding finishWrite_def Let_def by (auto split: option.split)
qed

lemma write_payload_silent:
  assumes "silent b c" and "cp_writeSession c = Some w" and "clean (wn_id w)"
  shows "silent b (write_payload named payload c)"
proof -
  have "silent b (finishWrite w c)" using silent_trans [OF assms(1) finishWrite_silent [OF assms(2,3)]] .
  moreover have "silent b (failWrite ''EINVAL'' c)" using assms by (intro failWrite_silent) simp_all
  moreover have "silent b (failWrite ''EFBIG'' (c\<lparr>cp_writeSession := Some (append_part m payload w)\<rparr>))" for m
    by (rule failWrite_silent [where w = "append_part m payload w"]) (use assms in \<open>simp_all add: silent_def append_part_def Let_def\<close>)
  moreover have "silent b (c\<lparr>cp_writeSession := s\<rparr>)" for s using assms(1) by (simp add: silent_def)
  ultimately show ?thesis using assms by (simp add: write_payload_def Let_def split: option.split)
qed

lemma select_stream_status: "select_stream lm e w = Inl st \<Longrightarrow> clean (js st)"
  "select_stream lm e w = Inr w' \<Longrightarrow> wn_id w' = wn_id w"
  by (auto simp: select_stream_def split: option.splits if_splits)

lemma session_clean: "clip_inv c \<Longrightarrow> cp_writeSession c = Some w \<Longrightarrow> clean (wn_id w)"
  by (auto simp: clip_inv_def session_ok_def)

lemma touched:
  assumes "clip_inv c" and "cp_writeSession c = Some w" and "\<not> (wn_failed w \<or> cp_applying c)"
  shows "silent c (touchWriteSession c)" "\<exists>w'. cp_writeSession (touchWriteSession c) = Some w' \<and> wn_id w' = wn_id w"
  using touch_session [OF active_quiet(1) [OF assms] assms(2)] by simp_all

lemma handleWriteData_silent:
  assumes "clip_inv c"
  shows "silent c (handleWriteData frame c)"
proof (cases "cp_writeSession c")
  case None
  then show ?thesis by (simp add: handleWriteData_def silent_reply)
next
  case (Some w)
  show ?thesis
  proof (cases "wn_failed w \<or> cp_applying c")
    case True
    then show ?thesis using Some by (auto simp: handleWriteData_def)
  next
    case False
    let ?c = "touchWriteSession c"
    obtain w' where w': "cp_writeSession ?c = Some w'" "wn_id w' = wn_id w" and quiet_touch: "silent c ?c"
      using touched [OF assms Some False] by blast
    have ident: "clean (wn_id w')" using session_clean [OF assms Some] w' by simp
    have "silent c (write_payload False (of_payload frame) ?c)"
      using quiet_touch w'(1) ident by (rule write_payload_silent)
    moreover have "silent c (failWrite st ?c)" if "clean (js st)" for st
      using quiet_touch w'(1) ident that by (rule failWrite_silent)
    moreover have "silent c (write_payload True (of_payload frame) (?c\<lparr>cp_writeSession := Some v\<rparr>))" if "wn_id v = wn_id w'" for v
      by (rule write_payload_silent [where w = v]) (use quiet_touch ident that in \<open>simp_all add: silent_def\<close>)
    ultimately show ?thesis
      using Some False w'(1) select_stream_status
      by (auto simp: handleWriteData_def Let_def split: option.split sum.split)
  qed
qed

lemma handleWriteAlias_silent:
  assumes "clip_inv c"
  shows "silent c (handleWriteAlias frame c)"
proof (cases "cp_writeSession c")
  case None
  then show ?thesis by (simp add: handleWriteAlias_def silent_reply)
next
  case (Some w)
  show ?thesis
  proof (cases "wn_failed w \<or> cp_applying c")
    case True
    then show ?thesis using Some by (auto simp: handleWriteAlias_def)
  next
    case False
    let ?c = "touchWriteSession c"
    obtain w' where w': "cp_writeSession ?c = Some w'" "wn_id w' = wn_id w" and quiet_touch: "silent c ?c"
      using touched [OF assms Some False] by blast
    have "silent c (failWrite ''EINVAL'' ?c)"
      using quiet_touch w' session_clean [OF assms Some] by (intro failWrite_silent [where w = w']) simp_all
    moreover have "silent c (on_session f ?c)" for f using quiet_touch by (simp add: silent_def)
    ultimately show ?thesis
      using Some False by (auto simp: handleWriteAlias_def Let_def split: option.split)
  qed
qed

lemma touch_log: "cp_log (touchWriteSession c) = cp_log c"
  by (simp add: touchWriteSession_def Let_def split: option.split)

lemma beginWrite_silent: "silent c (beginWrite frame auth c)"
  by (auto simp: beginWrite_def Let_def touch_log intro!: silent_reply)

lemma packets_sublist: "chunk \<in> set (packets data) \<Longrightarrow> sublist chunk data \<and> length chunk \<le> 4096"
proof (induction data rule: packets.induct)
  case (1 data)
  show ?case
  proof (cases "data = []")
    case False
    then have "chunk = take 4096 data \<or> chunk \<in> set (packets (drop 4096 data))"
      using 1(2) by (subst (asm) packets.simps) (simp add: CLIPBOARD_PACKET_BYTES_def)
    then show ?thesis
    proof
      assume "chunk \<in> set (packets (drop 4096 data))"
      then have "sublist chunk (drop 4096 data) \<and> length chunk \<le> 4096"
        using 1(1) False by (simp add: CLIPBOARD_PACKET_BYTES_def)
      then show ?thesis using sublist_drop sublist_order.order_trans by blast
    qed simp
  qed (use 1(2) in \<open>simp add: packets.simps\<close>)
qed

lemma concat_packets: "concat (packets data) = data"
  by (induction data rule: packets.induct) (subst packets.simps; simp add: CLIPBOARD_PACKET_BYTES_def)

text \<open>A granted read: the password matched, every type was offered, and the offer is used up.\<close>

definition granted :: "clip \<Rightarrow> osc5522_frame \<Rightarrow> clip_call \<Rightarrow> clip \<Rightarrow> bool" where
  "granted c frame call d \<longleftrightarrow> (\<exists>offer mime bs chunk f. cp_offer c = Some offer \<and> cp_offer d = None
     \<and> decodeBase64Text (the_default [] (map_get (of_metadata frame) (js ''pw''))) = Some (po_password offer)
     \<and> map_get (po_mimes offer) mime = Some bs \<and> sublist chunk bs \<and> length chunk \<le> 4096
     \<and> frame_of call = Some f \<and> map_get (of_metadata f) (js ''mime'') = Some (encodeBase64Text mime)
     \<and> decodeBase64 (of_payload f) = Inr chunk)"

lemma served:
  assumes "x \<in> set (new_calls c (serve_read (sanitizeClipboardId i) requested (map_get (of_metadata frame) (js ''pw'')) c))"
    and "discloses x"
  shows "granted c frame x (serve_read (sanitizeClipboardId i) requested (map_get (of_metadata frame) (js ''pw'')) c)"
proof -
  let ?i = "sanitizeClipboardId i" and ?pw = "map_get (of_metadata frame) (js ''pw'')"
  have refused: "silent c (replyRead ?i st c)" if "clean (js st)" for st using that by (intro silent_reply) simp_all
  have no: "x \<notin> set (new_calls c (replyRead ?i ''EPERM'' c))" "x \<notin> set (new_calls c (replyRead ?i ''ENOSYS'' c))"
    using silent_new [OF refused, OF literals_clean(6)] silent_new [OF refused, OF literals_clean(11)] assms(2) by blast+
  obtain offer where o: "cp_offer c = Some offer" "decodeBase64Text (the_default [] ?pw) = Some (po_password offer)"
    "\<not> list_ex (\<lambda>mime. \<not> map_has (po_mimes offer) mime) requested"
    using assms no by (cases "cp_offer c") (auto simp: serve_read_def split: if_splits)
  let ?d = "serve_read ?i requested ?pw c"
  have d: "?d = dropOffer (replyRead ?i ''DONE'' (send_all (read_packets ?i offer requested) (replyRead ?i ''OK'' c)))"
    using o by (simp add: serve_read_def)
  have "x \<in> set (read_packets ?i offer requested)"
    using assms unfolding d by (auto simp: new_calls_def replyRead_def reply_def reply_discloses_nothing [simplified])
  then obtain mime chunk where x: "mime \<in> set requested" "chunk \<in> set (packets (the (map_get (po_mimes offer) mime)))"
    "x = data_packet ?i mime (encodeBase64 chunk)" by (auto simp: read_packets_def)
  moreover obtain bs where "map_get (po_mimes offer) mime = Some bs"
    using o(3) x(1) by (auto simp: list_ex_iff map_has_def)
  ultimately show ?thesis
    using o packets_sublist [of chunk bs] unfolding granted_def
    by (intro exI [of _ offer] exI [of _ mime] exI [of _ bs] exI [of _ chunk])
      (simp add: data_packet_frame decodeBase64_encodeBase64 d)
qed

lemma handleRead_cases:
  fixes frame auth c
  defines "d \<equiv> handleRead frame auth c" and "i \<equiv> sanitizeClipboardId (map_get (of_metadata frame) (js ''id''))"
  shows "d = c \<or> d = replyReadListing i c \<or> d = replyRead i ''EINVAL'' c \<or> d = replyRead i ''ENOSYS'' c
    \<or> d = replyRead i ''EPERM'' c
    \<or> (auth \<and> (\<exists>requested. d = serve_read i requested (map_get (of_metadata frame) (js ''pw'')) c))"
  unfolding d_def i_def handleRead_def Let_def by (cases "decodeBase64Text (of_payload frame)") auto

lemma handleOsc5522_cases:
  fixes raw origin auth c
  defines "d \<equiv> handleOsc5522 raw origin auth c" and "b \<equiv> snd (isLive origin c)"
  shows "d = c \<or> d = b \<or> (\<not> cp_disposed c \<and> fst (isLive origin c) \<and> (\<exists>frame. parseOsc5522Frame raw = Some frame
    \<and> (map_get (of_metadata frame) (js ''type'') = Some (js ''read'') \<and> d = handleRead frame auth b
       \<or> d = beginWrite frame auth b \<or> d = handleWriteData frame b \<or> d = handleWriteAlias frame b)))"
  unfolding d_def b_def handleOsc5522_def Let_def split_def
  by (cases "parseOsc5522Frame raw") auto

lemma handleRead_discloses:
  assumes "x \<in> set (new_calls c (handleRead frame auth c))" and "discloses x"
  shows "auth \<and> granted c frame x (handleRead frame auth c)"
proof -
  let ?i = "sanitizeClipboardId (map_get (of_metadata frame) (js ''id''))"
  have refused: "silent c (replyRead ?i st c)" if "clean (js st)" for st using that by (intro silent_reply) simp_all
  have listing: "silent c (replyReadListing ?i c)"
  proof -
    have "\<not> discloses (data_packet ?i mime [])" for mime by (simp add: discloses_def data_packet_frame)
    then have "silent (replyRead ?i ''OK'' c) (send_all (map (\<lambda>mime. data_packet ?i mime []) ms) (replyRead ?i ''OK'' c))" for ms
      by (simp add: silent_def list_all_iff)
    from silent_trans [OF refused [OF literals_clean(3)] this] show ?thesis
      unfolding replyReadListing_def by (intro silent_reply) simp_all
  qed
  have no: "handleRead frame auth c \<noteq> d" if "silent c d" for d
    using assms silent_new [OF that, of x] by auto
  have "silent c (replyRead ?i ''EINVAL'' c)" "silent c (replyRead ?i ''EPERM'' c)" "silent c (replyRead ?i ''ENOSYS'' c)" "silent c c"
    by (simp_all add: silent_reply)
  then obtain requested where r: "auth"
    "handleRead frame auth c = serve_read ?i requested (map_get (of_metadata frame) (js ''pw'')) c"
    using handleRead_cases [of frame auth c] listing no by blast
  from served [of x c] assms r show ?thesis by metis
qed

lemma timer_silent:
  assumes "clip_inv c"
  shows "silent c (clip_timer_fires t c)"
  using session_clean [OF assms]
  by (auto simp: clip_timer_fires_def write_timeout_def offer_timeout_def split: option.split clip_timer.split
      intro!: silent_reply)

lemma settled_silent:
  assumes "clip_inv c"
  shows "silent c (write_settled n failure c)"
proof (cases "map_get (cp_writes c) n")
  case None
  then show ?thesis by (simp add: write_settled_def)
next
  case (Some i)
  let ?d = "c\<lparr>cp_writes := map_delete n (cp_writes c), cp_applying := False, cp_writeSession := None\<rparr>"
  have "writes_for (cp_applying c) (cp_disposed c) (cp_writeSession c) (cp_writes c)" using assms by (simp add: clip_inv_def)
  then have "cp_disposed c \<or> clean i"
    using Some session_clean [OF assms]
    by (cases "(cp_applying c, cp_disposed c, cp_writeSession c, cp_writes c)" rule: writes_for.cases) (auto split: if_splits)
  moreover have "silent c (replyWrite i st ?d)" if "clean i" "clean (js st)" for st
    using that by (intro silent_reply) simp_all
  moreover from this have "silent c (clip_log (Noticed WriteDenied) (replyWrite i ''EPERM'' ?d))" if "clean i"
    using that silent_trans [OF _ silent_log [OF refl]] by simp
  ultimately show ?thesis
    using Some by (auto simp: write_settled_def Let_def split: option.split failure_code.split)
qed

lemma userPasted_silent: "silent c (userPasted items auth c)"
  unfolding userPasted_def Let_def split_def
  by (intro silent_if silent_log silent_same; simp add: announcement_discloses_nothing)

definition is_read :: "clip \<Rightarrow> clip_event \<Rightarrow> osc5522_frame \<Rightarrow> bool" where
  "is_read c e frame \<longleftrightarrow> (\<exists>raw origin. e = Osc5522 raw origin True \<and> fst (isLive origin c) \<and> parseOsc5522Frame raw = Some frame
     \<and> map_get (of_metadata frame) (js ''type'') = Some (js ''read''))"

lemma granted_live: "granted (snd (isLive origin c)) frame x d = granted c frame x d"
  "new_calls (snd (isLive origin c)) d = new_calls c d"
proof -
  have "cp_offer (snd (isLive origin c)) = cp_offer c" by (simp add: isLive_def split: option.split)
  then show "granted (snd (isLive origin c)) frame x d = granted c frame x d"
    "new_calls (snd (isLive origin c)) d = new_calls c d"
    by (simp_all add: granted_def new_calls_def isLive_inv(3))
qed

lemma osc5522_discloses:
  assumes "clip_inv c" and "x \<in> set (new_calls c (handleOsc5522 raw origin auth c))" and "discloses x"
  shows "\<not> cp_disposed c \<and> (\<exists>frame. is_read c (Osc5522 raw origin auth) frame \<and> granted c frame x (handleOsc5522 raw origin auth c))"
proof -
  let ?c = "snd (isLive origin c)"
  have quiet_live: "silent c ?c" and inv: "clip_inv ?c" using assms(1) by (simp_all add: isLive_inv)
  have no: "handleOsc5522 raw origin auth c \<noteq> d" if "silent ?c d" for d
    using assms silent_new [OF silent_trans [OF quiet_live that], of x] by auto
  have "handleOsc5522 raw origin auth c \<noteq> c" using assms(2) by (auto simp: new_calls_def)
  then obtain frame where live: "\<not> cp_disposed c" "fst (isLive origin c)" and frame: "parseOsc5522Frame raw = Some frame"
    and kind: "map_get (of_metadata frame) (js ''type'') = Some (js ''read'')"
    and result: "handleOsc5522 raw origin auth c = handleRead frame auth ?c"
    using handleOsc5522_cases [of raw origin auth c] no [OF silent_same [OF refl]] no [OF beginWrite_silent]
      no [OF handleWriteData_silent [OF inv]] no [OF handleWriteAlias_silent [OF inv]] by blast
  have "auth \<and> granted ?c frame x (handleRead frame auth ?c)"
    using assms(2,3) result by (intro handleRead_discloses) (simp_all add: granted_live)
  then show ?thesis using live frame kind result by (auto simp: is_read_def granted_live)
qed

lemma step_discloses:
  assumes "clip_inv c" and "x \<in> set (new_calls c (clip_step c e))" and "discloses x"
  shows "\<not> cp_disposed c \<and> (\<exists>frame. is_read c e frame \<and> granted c frame x (clip_step c e))"
proof (cases e)
  case (Osc5522 raw origin auth)
  then show ?thesis using osc5522_discloses [OF assms(1)] assms(2,3) by simp
next
  case (Osc52 raw origin auth)
  have "silent c (clip_step c e)"
    using Osc52 isLive_inv(3) [of origin c]
    by (auto simp: handleOsc52_def split_def Let_def split: option.split intro!: silent_log)
  then show ?thesis using assms silent_new by blast
next
  case (TextRejected n)
  have "silent c (clip_step c e)"
    using TextRejected by (auto simp: write_text_rejected_def Let_def split: option.split intro!: silent_log)
  then show ?thesis using assms silent_new by blast
next
  case ReportModeQuery
  have "silent c (clip_step c e)"
    using ReportModeQuery by (auto simp: reportModeQuery_def intro!: silent_log mode_report_discloses_nothing)
  then show ?thesis using assms silent_new by blast
next
  case ClipDispose
  have "silent c (clip_step c e)" using ClipDispose by (simp add: dispose_clip_def Let_def)
  then show ?thesis using assms silent_new by blast
qed (use assms silent_new [OF timer_silent [OF assms(1)]] silent_new [OF settled_silent [OF assms(1)]] silent_new [OF userPasted_silent]
     in \<open>auto simp: setPasteEventMode_def resetStreamEpoch_def new_calls_def\<close>)

section \<open>What is written to the clipboard\<close>

fun written_of :: "clip_call list \<Rightarrow> (jsstring, bytes) jsmap list" where
  "written_of [] = []"
| "written_of (WriteClipboard n v # cs) = v # written_of cs"
| "written_of (SendToPty s # cs) = written_of cs"
| "written_of (WriteText n t # cs) = written_of cs"
| "written_of (Noticed x # cs) = written_of cs"

abbreviation written :: "clip \<Rightarrow> (jsstring, bytes) jsmap list" where
  "written c \<equiv> written_of (cp_log c)"

lemma written_append [simp]: "written_of (cs @ ds) = written_of cs @ written_of ds"
  by (induction cs rule: written_of.induct) auto

lemma written_packets [simp]:
  "written_of (map (\<lambda>m. data_packet i m (f m)) ms) = []" "written_of (read_packets i offer requested) = []"
proof -
  have chunks: "written_of (map (\<lambda>ch. data_packet i m (g ch)) chs) = []" for m and g :: "bytes \<Rightarrow> jsstring" and chs
    by (induction chs) (auto simp: data_packet_def)
  show "written_of (map (\<lambda>m. data_packet i m (f m)) ms) = []"
    by (induction ms) (auto simp: data_packet_def)
  show "written_of (read_packets i offer requested) = []"
    by (induction requested) (auto simp: read_packets_def chunks)
qed

lemma written_says [simp]:
  "written (reply k i st c) = written c" "written (replyWrite i st c) = written c" "written (replyRead i st c) = written c"
  "written (failWrite st c) = written c" "written (failFinishedWrite st c) = written c"
  "written (replyReadListing i c) = written c" "written (serve_read i requested pw c) = written c"
  by (simp_all add: reply_def replyWrite_def replyRead_def failWrite_def failFinishedWrite_def replyReadListing_def serve_read_def
      split: option.split)

lemma written_handlers [simp]:
  "written (handleRead frame auth c) = written c" "written (beginWrite frame auth c) = written c"
  "written (handleWriteAlias frame c) = written c" "written (userPasted items auth c) = written c"
  "written (write_text_rejected n c) = written c" "written (reportModeQuery c) = written c"
  "written (write_settled n failure c) = written c" "written (handleOsc52 raw origin auth c) = written c"
  "written (clip_timer_fires t c) = written c"
  by (simp_all add: handleRead_def beginWrite_def handleWriteAlias_def userPasted_def write_text_rejected_def reportModeQuery_def
      write_settled_def handleOsc52_def clip_timer_fires_def write_timeout_def offer_timeout_def Let_def split_def touch_log isLive_inv
      split: option.split failure_code.split clip_timer.split)

text \<open>The representations of one finished write.\<close>

text \<open>
  What a finished write hands over: under each name the decoding of the last stream that goes by it, and
  every stream goes by its own type and all its aliases.
\<close>

definition write_names :: "write_session \<Rightarrow> jsstring \<Rightarrow> jsstring list" where
  "write_names w target = target # the_default [] (map_get (wn_aliases w) target)"

definition write_content :: "write_session \<Rightarrow> jsstring \<Rightarrow> bytes option" where
  "write_content w m = (case find (\<lambda>(target, st). m \<in> set (write_names w target)) (rev (wn_streams w)) of
       None \<Rightarrow> None
     | Some (target, st) \<Rightarrow> (case decodeBase64 (concat (ws_parts st)) of Inl err \<Rightarrow> None | Inr bs \<Rightarrow> Some bs))"

definition variants_of :: "write_session \<Rightarrow> (jsstring, bytes) jsmap \<Rightarrow> bool" where
  "variants_of w variants \<longleftrightarrow> (\<forall>m bs. map_get variants m = Some bs \<longrightarrow>
     (\<exists>target st. map_get (wn_streams w) target = Some st \<and> decodeBase64 (concat (ws_parts st)) = Inr bs
        \<and> (m = target \<or> m \<in> set (the_default [] (map_get (wn_aliases w) target)))))
     \<and> wn_streams w \<noteq> [] \<and> map_get variants = write_content w
     \<and> fst ` set variants = \<Union> ((set \<circ> write_names w \<circ> fst) ` set (wn_streams w))"

lemma decode_streams_exact:
  "decode_streams streams acc = Some decoded \<Longrightarrow> distinct (map fst acc @ map fst streams) \<Longrightarrow>
     \<exists>new. decoded = acc @ new
       \<and> list_all2 (\<lambda>(target, st) (target', bs). target' = target \<and> decodeBase64 (concat (ws_parts st)) = Inr bs) streams new"
proof (induction streams arbitrary: acc)
  case (Cons p streams)
  obtain k st where p: "p = (k, st)" by (cases p)
  then obtain b where b: "decodeBase64 (concat (ws_parts st)) = Inr b" "decode_streams streams (map_set k b acc) = Some decoded"
    using Cons.prems by (auto split: sum.splits)
  have "map_set k b acc = acc @ [(k, b)]" using Cons.prems(2) p by (intro map_set_fresh) (auto simp: map_has_iff)
  with Cons.IH [of "map_set k b acc"] b(2) Cons.prems(2) p obtain new where
    "decoded = acc @ (k, b) # new"
    "list_all2 (\<lambda>(target, st) (target', bs). target' = target \<and> decodeBase64 (concat (ws_parts st)) = Inr bs) streams new"
    by auto
  then show ?case using b(1) p by (intro exI [of _ "(k, b) # new"]) simp
qed simp

lemma add_aliases_get:
  "map_get (foldl (\<lambda>vs alias. map_set alias b vs) vs as) m = (if m \<in> set as then Some b else map_get vs m)"
  "fst ` set (foldl (\<lambda>vs alias. map_set alias b vs) vs as) = fst ` set vs \<union> set as"
  by (induction as arbitrary: vs) (auto simp: dom_update)

lemma add_variant_names:
  "map_get (add_variant (wn_aliases w) vs (target, b)) m = (if m \<in> set (write_names w target) then Some b else map_get vs m)"
  "fst ` set (add_variant (wn_aliases w) vs (target, b)) = fst ` set vs \<union> set (write_names w target)"
  by (auto simp: add_variant_def add_aliases_get write_names_def dom_update)

lemma add_variants_exact:
  "map_get (foldl (add_variant (wn_aliases w)) [] decoded) m =
     map_option snd (find (\<lambda>(target, bs). m \<in> set (write_names w target)) (rev decoded))"
  "fst ` set (foldl (add_variant (wn_aliases w)) [] decoded) = \<Union> ((set \<circ> write_names w \<circ> fst) ` set decoded)"
proof (induction decoded rule: rev_induct)
  case (snoc p decoded)
  obtain target b where p: "p = (target, b)" by (cases p)
  case 1
  show ?case using snoc.IH(1) by (simp add: p add_variant_names)
  case 2
  show ?case using snoc.IH(2) by (simp add: p add_variant_names Un_commute)
qed simp_all

lemma found_decoded:
  "list_all2 (\<lambda>(target, st) (target', bs). target' = target \<and> decodeBase64 (concat (ws_parts st)) = Inr bs) streams decoded \<Longrightarrow>
     map_option snd (find (\<lambda>(target, bs). P target) decoded) =
       (case find (\<lambda>(target, st). P target) streams of
          None \<Rightarrow> None
        | Some (target, st) \<Rightarrow> (case decodeBase64 (concat (ws_parts st)) of Inl err \<Rightarrow> None | Inr bs \<Rightarrow> Some bs))
     \<and> fst ` set decoded = fst ` set streams"
  by (induction rule: list_all2_induct) auto

lemma finished_content:
  assumes "wf_map (wn_streams w)" "decode_streams (wn_streams w) [] = Some decoded"
  shows "map_get (foldl (add_variant (wn_aliases w)) [] decoded) = write_content w"
    "fst ` set (foldl (add_variant (wn_aliases w)) [] decoded) = \<Union> ((set \<circ> write_names w \<circ> fst) ` set (wn_streams w))"
    "wn_streams w = [] \<Longrightarrow> decoded = []"
proof -
  let ?R = "\<lambda>(target, st) (target', bs). target' = target \<and> decodeBase64 (concat (ws_parts st)) = Inr bs"
  have all: "list_all2 ?R (wn_streams w) decoded"
    using decode_streams_exact [OF assms(2)] assms(1) by (auto simp: wf_map_def)
  then have "list_all2 ?R (rev (wn_streams w)) (rev decoded)" by simp
  from found_decoded [OF this] show "map_get (foldl (add_variant (wn_aliases w)) [] decoded) = write_content w"
    by (intro ext) (simp add: add_variants_exact write_content_def)
  show "wn_streams w = [] \<Longrightarrow> decoded = []" using all by simp
  have same: "fst ` set decoded = fst ` set (wn_streams w)" using found_decoded [OF all] by blast
  then show "fst ` set (foldl (add_variant (wn_aliases w)) [] decoded) = \<Union> ((set \<circ> write_names w \<circ> fst) ` set (wn_streams w))"
    unfolding add_variants_exact image_comp [symmetric] same by simp
qed

lemma decode_streams_sound:
  "decode_streams streams acc = Some decoded \<Longrightarrow> wf_map streams \<Longrightarrow> map_get decoded m = Some bs \<Longrightarrow>
     map_get acc m = Some bs \<or> (\<exists>st. map_get streams m = Some st \<and> decodeBase64 (concat (ws_parts st)) = Inr bs)"
proof (induction streams arbitrary: acc)
  case (Cons p streams)
  obtain k st where p: "p = (k, st)" by (cases p)
  then obtain b where b: "decodeBase64 (concat (ws_parts st)) = Inr b" "decode_streams streams (map_set k b acc) = Some decoded"
    using Cons.prems by (auto split: sum.splits)
  have wf: "wf_map streams" "k \<notin> fst ` set streams" using Cons.prems p by (auto simp: wf_map_def)
  from Cons.IH [OF b(2) wf(1) Cons.prems(3)] show ?case
  proof
    assume "map_get (map_set k b acc) m = Some bs"
    then show ?thesis using p b(1) by (auto split: if_splits)
  next
    assume *: "\<exists>st. map_get streams m = Some st \<and> decodeBase64 (concat (ws_parts st)) = Inr bs"
    then have "m \<noteq> k" using wf(2) by (metis map_of_eq_None_iff option.distinct(1))
    then show ?thesis using * p by simp
  qed
qed simp

lemma add_variant_get:
  "map_get (add_variant aliases variants (t, b)) m = Some bs \<Longrightarrow>
     map_get variants m = Some bs \<or> (bs = b \<and> (m = t \<or> m \<in> set (the_default [] (map_get aliases t))))"
proof -
  have "map_get (foldl (\<lambda>vs alias. map_set alias b vs) vs as) m = Some bs \<Longrightarrow> map_get vs m = Some bs \<or> (bs = b \<and> m \<in> set as)" for vs as
  proof (induction as arbitrary: vs)
    case (Cons a as)
    from Cons.IH [of "map_set a b vs"] Cons.prems show ?case by (auto split: if_splits)
  qed simp
  then show "map_get (add_variant aliases variants (t, b)) m = Some bs \<Longrightarrow> ?thesis"
    unfolding add_variant_def by (fastforce split: if_splits)
qed

lemma add_variants_get:
  "map_get (foldl (add_variant aliases) variants decoded) m = Some bs \<Longrightarrow>
     map_get variants m = Some bs \<or> (\<exists>t. (t, bs) \<in> set decoded \<and> (m = t \<or> m \<in> set (the_default [] (map_get aliases t))))"
proof (induction decoded arbitrary: variants)
  case (Cons p decoded)
  then show ?case using add_variant_get by (cases p) fastforce
qed simp

lemma wf_decode_streams: "decode_streams streams acc = Some decoded \<Longrightarrow> wf_map acc \<Longrightarrow> wf_map decoded"
  by (induction streams arbitrary: acc) (auto split: sum.splits)

lemma finishWrite_written:
  assumes "wf_map (wn_streams w)"
  shows "written (finishWrite w c) = written c \<or>
    (\<exists>variants decoded. written (finishWrite w c) = written c @ [variants] \<and> variants_of w variants
       \<and> decode_streams (wn_streams w) [] = Some decoded
       \<and> (\<Sum>p\<leftarrow>decoded. int (length (snd p))) \<le> cm_maxWriteBytes (cp_limits c))"
proof (cases "decode_streams (wn_streams w) []")
  case None
  then show ?thesis by (simp add: finishWrite_def Let_def)
next
  case (Some decoded)
  let ?variants = "foldl (add_variant (wn_aliases w)) [] decoded"
  have "\<exists>target st. map_get (wn_streams w) target = Some st \<and> decodeBase64 (concat (ws_parts st)) = Inr bs
      \<and> (m = target \<or> m \<in> set (the_default [] (map_get (wn_aliases w) target)))" if "map_get ?variants m = Some bs" for m bs
  proof -
    from that obtain t where t: "(t, bs) \<in> set decoded" "m = t \<or> m \<in> set (the_default [] (map_get (wn_aliases w) t))"
      using add_variants_get [of "wn_aliases w" "[]" decoded m bs] by auto
    have "map_get decoded t = Some bs"
      using t(1) wf_decode_streams [OF Some] by (simp add: wf_map_def)
    then show ?thesis
      using decode_streams_sound [OF Some assms, of t bs] t(2) by auto
  qed
  then have "variants_of w ?variants" if "decoded \<noteq> []"
    using that finished_content [OF assms Some] unfolding variants_of_def by blast
  then show ?thesis using Some by (auto simp: finishWrite_def Let_def not_less)
qed

lemma write_payload_written:
  "written (write_payload named payload c) = written c \<or>
   (\<exists>w. cp_writeSession c = Some w \<and> \<not> named \<and> payload = [] \<and> write_payload named payload c = finishWrite w c)"
  by (simp add: write_payload_def Let_def split: option.split)

lemma handleWriteData_written:
  assumes "clip_inv c"
  shows "written (handleWriteData frame c) = written c \<or>
   (\<exists>w w'. cp_writeSession c = Some w \<and> \<not> wn_failed w \<and> cp_writes c = [] \<and> w' = w\<lparr>wn_timer := Some (cp_timers c)\<rparr>
      \<and> of_payload frame = [] \<and> map_get (of_metadata frame) (js ''mime'') = None
      \<and> handleWriteData frame c = finishWrite w' (touchWriteSession c))"
proof (cases "cp_writeSession c")
  case None
  then show ?thesis by (simp add: handleWriteData_def)
next
  case (Some w)
  show ?thesis
  proof (cases "wn_failed w \<or> cp_applying c")
    case True
    then show ?thesis using Some by (auto simp: handleWriteData_def)
  next
    case False
    note q = active_quiet [OF assms Some False]
    note t = touch_session [OF q(1) Some]
    have named: "written (write_payload True (of_payload frame) (touchWriteSession c\<lparr>cp_writeSession := Some v\<rparr>)) = written c" for v
      using write_payload_written [of True "of_payload frame" "touchWriteSession c\<lparr>cp_writeSession := Some v\<rparr>"] t(4) by simp
    show ?thesis
    proof (cases "map_get (of_metadata frame) (js ''mime'')")
      case None
      then show ?thesis
        using Some False q t write_payload_written [of False "of_payload frame" "touchWriteSession c"]
        by (auto simp: handleWriteData_def Let_def quiet_def)
    next
      case (Some e)
      then show ?thesis
        using \<open>cp_writeSession c = Some w\<close> False named t
        by (auto simp: handleWriteData_def Let_def split: sum.split)
    qed
  qed
qed

lemma variants_timer [simp]: "variants_of (w\<lparr>wn_timer := t\<rparr>) v = variants_of w v"
  by (simp add: variants_of_def write_content_def write_names_def [abs_def] fun_eq_iff)

lemma osc5522_written:
  assumes "clip_inv c" and "written (handleOsc5522 raw origin auth c) \<noteq> written c"
  shows "fst (isLive origin c) \<and> (\<exists>w variants decoded. cp_writeSession c = Some w \<and> \<not> wn_failed w \<and> cp_writes c = []
    \<and> written (handleOsc5522 raw origin auth c) = written c @ [variants] \<and> variants_of w variants
    \<and> decode_streams (wn_streams w) [] = Some decoded
    \<and> (\<Sum>p\<leftarrow>decoded. int (length (snd p))) \<le> cm_maxWriteBytes (cp_limits c))"
proof -
  let ?c = "snd (isLive origin c)"
  have same: "cp_writeSession ?c = cp_writeSession c" "cp_writes ?c = cp_writes c" "cp_limits ?c = cp_limits c"
    by (simp_all add: isLive_def split: option.split)
  have inv: "clip_inv ?c" using assms(1) by (simp add: isLive_inv)
  obtain frame where live: "fst (isLive origin c)" and d: "handleOsc5522 raw origin auth c = handleWriteData frame ?c"
    using handleOsc5522_cases [of raw origin auth c] assms(2) by (auto simp: isLive_inv(3))
  then obtain w w' where w: "cp_writeSession c = Some w" "\<not> wn_failed w" "cp_writes c = []"
    "w' = w\<lparr>wn_timer := Some (cp_timers ?c)\<rparr>" "handleWriteData frame ?c = finishWrite w' (touchWriteSession ?c)"
    using handleWriteData_written [OF inv, of frame] assms(2) same by (auto simp: isLive_inv(3))
  have "wf_map (wn_streams w')" using assms(1) w(1,2,4) by (auto simp: clip_inv_def session_ok_def)
  from finishWrite_written [OF this, of "touchWriteSession ?c"] obtain variants decoded where
    "written (finishWrite w' (touchWriteSession ?c)) = written c @ [variants]" "variants_of w variants"
    "decode_streams (wn_streams w) [] = Some decoded"
    "(\<Sum>p\<leftarrow>decoded. int (length (snd p))) \<le> cm_maxWriteBytes (cp_limits (touchWriteSession ?c))"
    using assms(2) d w(4,5) by (auto simp: touch_log isLive_inv(3))
  moreover have "cp_limits (touchWriteSession ?c) = cp_limits c"
    using same by (simp add: touchWriteSession_def Let_def split: option.split)
  ultimately show ?thesis using live d w by auto
qed

lemma step_written:
  assumes "clip_inv c" and "written (clip_step c e) \<noteq> written c"
  shows "\<exists>raw origin auth. e = Osc5522 raw origin auth"
  using assms(2) by (cases e) (auto simp: setPasteEventMode_def resetStreamEpoch_def dispose_clip_def Let_def split: if_splits)

lemma disposed_clip_step:
  assumes "clip_inv c" and "cp_disposed c"
  shows "cp_log (clip_step c e) = cp_log c \<and> cp_disposed (clip_step c e)"
proof -
  have none: "cp_writeSession c = None" "cp_offer c = None" using assms by (simp_all add: clip_inv_def)
  show ?thesis
    using assms(2) none
    by (cases e) (auto simp: setPasteEventMode_def resetStreamEpoch_def dispose_clip_def reportModeQuery_def handleOsc52_def
        handleOsc5522_def userPasted_def clip_timer_fires_def write_timeout_def offer_timeout_def write_text_rejected_def
        write_settled_def Let_def split: option.split clip_timer.split)
qed

lemma disposed_clip_run:
  "clip_inv c \<Longrightarrow> cp_disposed c \<Longrightarrow> cp_log (foldl clip_step c es) = cp_log c"
proof (induction es arbitrary: c)
  case (Cons e es)
  then show ?case using disposed_clip_step [OF Cons.prems, of e] clip_inv_step [OF Cons.prems(1)] by simp
qed simp

lemma not_live:
  "\<not> fst (isLive origin c) \<Longrightarrow> snd (isLive origin c) = c"
  by (auto simp: isLive_def split: option.splits if_splits)

section \<open>Properties\<close>

text \<open>
  C13. Clipboard content leaves only through a granted read. Whatever happened before, when an event makes
  the protocol send a frame that carries clipboard data, the event is a live OSC 5522 read of an
  authorized client, its password is the one of the offer the user's paste created, the data is a
  part, of at most 4096 bytes, of what was pasted under the type the frame names, and the offer is gone
  afterwards.
\<close>

theorem clipboard_read_gated:
  assumes "0 \<le> cm_maxWriteBytes lm" and "0 \<le> cm_maxMimeTypes lm"
    and "c = foldl clip_step (new_clip lm pw) es"
    and "call \<in> set (drop (length (cp_log c)) (cp_log (clip_step c e)))"
    and "frame_of call = Some f" and "map_get (of_metadata f) (js ''status'') = Some (js ''DATA'')" and "of_payload f \<noteq> []"
  shows "\<exists>raw origin frame offer mime bs chunk. e = Osc5522 raw origin True \<and> \<not> cp_disposed c
    \<and> wo_source origin = Live \<and> parseOsc5522Frame raw = Some frame
    \<and> cp_offer c = Some offer
    \<and> decodeBase64Text (the_default [] (map_get (of_metadata frame) (js ''pw''))) = Some (po_password offer)
    \<and> map_get (of_metadata f) (js ''mime'') = Some (encodeBase64Text mime) \<and> map_get (po_mimes offer) mime = Some bs
    \<and> decodeBase64 (of_payload f) = Inr chunk \<and> sublist chunk bs \<and> length chunk \<le> 4096
    \<and> cp_offer (clip_step c e) = None"
proof -
  have inv: "clip_inv c" unfolding assms(3) by (rule clipboard.run_inv [OF clip_inv_new]) (use assms in simp_all)
  have "discloses call" using assms(5-7) by (simp add: discloses_def)
  then obtain frame where "\<not> cp_disposed c" "is_read c e frame" "granted c frame call (clip_step c e)"
    using step_discloses [OF inv, of call e] assms(4) by (auto simp: new_calls_def)
  moreover have "fst (isLive origin c) \<Longrightarrow> wo_source origin = Live" for origin by (simp add: isLive_def split: if_splits)
  ultimately show ?thesis using assms(5) unfolding is_read_def granted_def by (metis option.inject)
qed

definition live_now :: write_origin where
  "live_now = \<lparr>wo_source = Live, wo_streamEpoch = Some 1\<rparr>"

definition demo_limits :: clip_limits where
  "demo_limits = \<lparr>cm_maxWriteBytes = 64, cm_maxOsc52Bytes = 64, cm_maxOsc52PromptBytes = 64, cm_maxReadRequestBytes = 64,
     cm_maxMimeTypes = 4, cm_writeTimeoutMs = 60000, cm_offerTimeoutMs = 120000\<rparr>"

text \<open>An image of type \<open>a/b\<close> (\<open>YS9i\<close>) with the password \<open>s\<close> (\<open>cw==\<close>).\<close>

definition demo_paste :: "clip_event list" where
  "demo_paste = [SetPasteEventMode True, UserPasted \<lparr>pi_text = None, pi_images = Some [(js ''a/b'', [1])]\<rparr> True]"

definition demo_read :: clip_event where
  "demo_read = Osc5522 (js ''type=read:pw=cw==;YS9i'') live_now True"

lemma demo_values:
  "parseOsc5522Frame (js ''type=read:pw=cw==;YS9i'') =
     Some \<lparr>of_metadata = [(js ''type'', js ''read''), (js ''pw'', js ''cw=='')], of_payload = js ''YS9i''\<rparr>"
  "decodeBase64Text (js ''YS9i'') = Some (js ''a/b'')" "decodeBase64Text (js ''cw=='') = Some (js ''s'')"
  "requested_mimes (js ''a/b'') = [js ''a/b'']" "isValidClipboardMime (js ''a/b'')"
  by code_simp+

abbreviation demo_clip :: clip where
  "demo_clip \<equiv> foldl clip_step (new_clip demo_limits (\<lambda>n. js ''s'')) demo_paste"

lemma demo_offered:
  "cp_offer demo_clip = Some \<lparr>po_password = js ''s'', po_mimes = [(js ''a/b'', [1])], po_timer = Some 0\<rparr>"
  "cp_disposed demo_clip = False" "cp_latestEpoch demo_clip = None" "cp_limits demo_clip = demo_limits"
  by (simp_all add: demo_paste_def new_clip_def setPasteEventMode_def userPasted_def paste_mimes_def add_image_def
      demo_values demo_limits_def dropOffer_def disarm_def Let_def clip_log_def)

lemma demo_data: "data_packet [] (js ''a/b'') (encodeBase64 [1]) \<in> set (drop (length (cp_log demo_clip)) (cp_log (clip_step demo_clip demo_read)))"
  using demo_offered
  by (simp add: demo_read_def handleOsc5522_def isLive_def live_now_def demo_values handleRead_def serve_read_def
      demo_limits_def map_has_def read_packets_def packets.simps sanitizeClipboardId_def Let_def replyRead_def reply_def CLIPBOARD_PACKET_BYTES_def)

theorem clipboard_read_gated_witness: "cp_offer (clip_step demo_clip demo_read) = None"
proof -
  have "encodeBase64 [1] \<noteq> []" by (simp add: encode_group_def)
  then show ?thesis
    using clipboard_read_gated [OF _ _ refl demo_data data_packet_frame]
    by (simp add: demo_limits_def clean_def) blast
qed

text \<open>
  One write at a time, bounded and accounted. After any events at most one clipboard write is in the
  browser's hands; a session in progress has as many bytes on its account as its streams hold, never
  more than can decode to the limit, no more streams than the limit of MIME types, each once; its
  timeout is armed exactly while packets may still come; and an offer always has its expiry armed.
\<close>

lemma clipboard_write_bounded:
  assumes "0 \<le> cm_maxWriteBytes lm" and "0 \<le> cm_maxMimeTypes lm"
    and "c = foldl clip_step (new_clip lm pw) es"
  shows "length (cp_writes c) \<le> 1 \<and> cp_applying c = (cp_writes c \<noteq> [])
    \<and> (case cp_writeSession c of None \<Rightarrow> True | Some w \<Rightarrow>
        (if wn_failed w then wn_timer w = None
         else wn_encodedTotal w = (\<Sum>p\<leftarrow>wn_streams w. \<Sum>s\<leftarrow>ws_parts (snd p). int (length s))
           \<and> wn_encodedTotal w \<le> (cm_maxWriteBytes (cp_limits c) + 2) div 3 * 4
           \<and> int (length (wn_streams w)) \<le> cm_maxMimeTypes (cp_limits c) \<and> distinct (map fst (wn_streams w))
           \<and> (if cp_applying c then wn_timer w = None
              else \<exists>t. wn_timer w = Some t
                \<and> (t, WriteTimer (wn_key w) (cm_writeTimeoutMs (cp_limits c))) \<in> set (cp_armed c))))
    \<and> (case cp_offer c of None \<Rightarrow> True | Some f \<Rightarrow>
        \<exists>t. po_timer f = Some t \<and> (t, OfferTimer (po_password f) (cm_offerTimeoutMs (cp_limits c))) \<in> set (cp_armed c))"
proof -
  have inv: "clip_inv c" unfolding assms(3) by (rule clipboard.run_inv [OF clip_inv_new]) (use assms in simp_all)
  then have "writes_for (cp_applying c) (cp_disposed c) (cp_writeSession c) (cp_writes c)" by (simp add: clip_inv_def)
  then have writes: "length (cp_writes c) \<le> 1 \<and> cp_applying c = (cp_writes c \<noteq> [])"
    by (cases "(cp_applying c, cp_disposed c, cp_writeSession c, cp_writes c)" rule: writes_for.cases) auto
  have streams: "list_all (\<lambda>p. stream_ok (snd p)) ss \<Longrightarrow>
      (\<Sum>p\<leftarrow>ss. ws_encodedLength (snd p)) = (\<Sum>p\<leftarrow>ss. \<Sum>s\<leftarrow>ws_parts (snd p). int (length s))" for ss :: "(jsstring \<times> write_stream) list"
    by (induction ss) (auto simp: stream_ok_def)
  have session: "set (cp_armed c) = session_timer (cp_limits c) (cp_writeSession c) \<union> offer_timer (cp_limits c) (cp_offer c)"
    "\<forall>w. cp_writeSession c = Some w \<longrightarrow> session_ok (cp_limits c) w \<and> (wn_timer w = None \<longleftrightarrow> wn_failed w \<or> cp_applying c)"
    "\<forall>g. cp_offer c = Some g \<longrightarrow> po_timer g \<noteq> None"
    using inv by (auto simp: clip_inv_def timers_for_def)
  have "case cp_offer c of None \<Rightarrow> True | Some f \<Rightarrow>
        \<exists>t. po_timer f = Some t \<and> (t, OfferTimer (po_password f) (cm_offerTimeoutMs (cp_limits c))) \<in> set (cp_armed c)"
    using session by (auto simp: offer_timer_def split: option.split)
  moreover have "case cp_writeSession c of None \<Rightarrow> True | Some w \<Rightarrow>
        (if wn_failed w then wn_timer w = None
         else wn_encodedTotal w = (\<Sum>p\<leftarrow>wn_streams w. \<Sum>s\<leftarrow>ws_parts (snd p). int (length s))
           \<and> wn_encodedTotal w \<le> (cm_maxWriteBytes (cp_limits c) + 2) div 3 * 4
           \<and> int (length (wn_streams w)) \<le> cm_maxMimeTypes (cp_limits c) \<and> distinct (map fst (wn_streams w))
           \<and> (if cp_applying c then wn_timer w = None
              else \<exists>t. wn_timer w = Some t
                \<and> (t, WriteTimer (wn_key w) (cm_writeTimeoutMs (cp_limits c))) \<in> set (cp_armed c)))"
    using session(1,2) streams by (auto simp: session_ok_def maxEncodedWriteLength_def wf_map_def session_timer_def split: option.split)
  ultimately show ?thesis using writes by blast
qed

text \<open>
  C14. What reaches the clipboard is what the session sent, all of it. When an event hands data to the
  browser's clipboard it is a live OSC 5522 packet of a session that has not failed, no other write is
  outstanding, and it is a single item. That item has a representation for the MIME type of every stream
  of the session and for every alias of it, and for no other name; under each name it holds the strict
  decoding of the last stream that goes by that name. The session has a stream, each one decodes, and the
  decoded streams together respect the limit.
\<close>

theorem clipboard_write_faithful:
  assumes "0 \<le> cm_maxWriteBytes lm" and "0 \<le> cm_maxMimeTypes lm"
    and "c = foldl clip_step (new_clip lm pw) es"
    and "written (clip_step c e) \<noteq> written c"
  shows "\<exists>raw origin auth w variants decoded. e = Osc5522 raw origin auth \<and> wo_source origin = Live
    \<and> cp_writeSession c = Some w \<and> \<not> wn_failed w \<and> cp_writes c = []
    \<and> written (clip_step c e) = written c @ [variants]
    \<and> (\<forall>m bs. map_get variants m = Some bs \<longrightarrow>
        (\<exists>target st. map_get (wn_streams w) target = Some st \<and> decodeBase64 (concat (ws_parts st)) = Inr bs
           \<and> (m = target \<or> m \<in> set (the_default [] (map_get (wn_aliases w) target)))))
    \<and> wn_streams w \<noteq> []
    \<and> fst ` set variants = (\<Union>target \<in> fst ` set (wn_streams w). insert target (set (the_default [] (map_get (wn_aliases w) target))))
    \<and> map_get variants = (\<lambda>m.
        case find (\<lambda>(target, st). m \<in> set (target # the_default [] (map_get (wn_aliases w) target))) (rev (wn_streams w)) of
          None \<Rightarrow> None
        | Some (target, st) \<Rightarrow> (case decodeBase64 (concat (ws_parts st)) of Inl err \<Rightarrow> None | Inr bs \<Rightarrow> Some bs))
    \<and> decode_streams (wn_streams w) [] = Some decoded
    \<and> (\<Sum>p\<leftarrow>decoded. int (length (snd p))) \<le> cm_maxWriteBytes (cp_limits c)"
proof -
  have inv: "clip_inv c" unfolding assms(3) by (rule clipboard.run_inv [OF clip_inv_new]) (use assms in simp_all)
  obtain raw origin auth where e: "e = Osc5522 raw origin auth" using step_written [OF inv assms(4)] by blast
  have live: "fst (isLive origin c) \<Longrightarrow> wo_source origin = Live" by (simp add: isLive_def split: if_splits)
  have content: "write_content w = (\<lambda>m.
      case find (\<lambda>(target, st). m \<in> set (target # the_default [] (map_get (wn_aliases w) target))) (rev (wn_streams w)) of
        None \<Rightarrow> None
      | Some (target, st) \<Rightarrow> (case decodeBase64 (concat (ws_parts st)) of Inl err \<Rightarrow> None | Inr bs \<Rightarrow> Some bs))"
    and names: "\<Union> ((set \<circ> write_names w \<circ> fst) ` set (wn_streams w))
      = (\<Union>target \<in> fst ` set (wn_streams w). insert target (set (the_default [] (map_get (wn_aliases w) target))))" for w
    by (simp_all add: write_content_def [abs_def] write_names_def)
  have "written (handleOsc5522 raw origin auth c) \<noteq> written c" using assms(4) e by simp
  from osc5522_written [OF inv this] obtain w variants decoded where w: "fst (isLive origin c)" "cp_writeSession c = Some w"
    "\<not> wn_failed w" "cp_writes c = []" "written (handleOsc5522 raw origin auth c) = written c @ [variants]"
    "variants_of w variants" "decode_streams (wn_streams w) [] = Some decoded"
    "(\<Sum>p\<leftarrow>decoded. int (length (snd p))) \<le> cm_maxWriteBytes (cp_limits c)" by blast
  note parts = w(6) [unfolded variants_of_def content names]
  show ?thesis
    by (rule exI [of _ raw], rule exI [of _ origin], rule exI [of _ auth], rule exI [of _ w], rule exI [of _ variants],
        rule exI [of _ decoded]) (use parts live [OF w(1)] w(2-5,7,8) in \<open>simp add: e\<close>)
qed

text \<open>\<open>YQ==\<close> is the byte of \<open>a\<close>.\<close>

definition demo_write :: "clip_event list" where
  "demo_write = [Osc5522 (js ''type=write'') live_now True, Osc5522 (js ''type=wdata:mime=YS9i;YQ=='') live_now True]"

lemma demo_packets:
  "parseOsc5522Frame (js ''type=write'') = Some \<lparr>of_metadata = [(js ''type'', js ''write'')], of_payload = []\<rparr>"
  "parseOsc5522Frame (js ''type=wdata'') = Some \<lparr>of_metadata = [(js ''type'', js ''wdata'')], of_payload = []\<rparr>"
  "parseOsc5522Frame (js ''type=wdata:mime=YS9i;YQ=='') =
     Some \<lparr>of_metadata = [(js ''type'', js ''wdata''), (js ''mime'', js ''YS9i'')], of_payload = js ''YQ==''\<rparr>"
  "decodeBase64 (js ''YQ=='') = Inr [97]"
  by code_simp+

text \<open>The last packet is not asked for authorization: the write goes through although the client is no longer authorized.\<close>

lemma unauthorized_write_finishes:
  "written (foldl clip_step (new_clip demo_limits pw) (demo_write @ [Osc5522 (js ''type=wdata'') live_now False])) = [[(js ''a/b'', [97])]]"
  by (simp add: demo_write_def new_clip_def handleOsc5522_def isLive_def live_now_def demo_packets demo_values beginWrite_def
      touchWriteSession_def clearWriteTimer_def disarm_def on_session_def handleWriteData_def select_stream_def write_payload_def
      append_part_def finishWrite_def add_variant_def clip_log_def demo_limits_def sanitizeClipboardId_def map_has_def
      maxEncodedWriteLength_def MAX_WDATA_ENCODED_CHUNK_def CLIPBOARD_PACKET_BYTES_def Let_def)

theorem clipboard_write_faithful_witness:
  "\<exists>w. cp_writeSession (foldl clip_step (new_clip demo_limits (\<lambda>n. js ''s'')) demo_write) = Some w \<and> \<not> wn_failed w"
proof -
  let ?c = "foldl clip_step (new_clip demo_limits (\<lambda>n. js ''s'')) demo_write"
  have "written ?c = []"
    by (simp add: demo_write_def new_clip_def handleOsc5522_def isLive_def live_now_def demo_packets demo_values beginWrite_def
        touchWriteSession_def clearWriteTimer_def disarm_def on_session_def handleWriteData_def select_stream_def write_payload_def
        append_part_def demo_limits_def sanitizeClipboardId_def map_has_def
        maxEncodedWriteLength_def MAX_WDATA_ENCODED_CHUNK_def CLIPBOARD_PACKET_BYTES_def Let_def)
  then have "written (clip_step ?c (Osc5522 (js ''type=wdata'') live_now False)) \<noteq> written ?c"
    using unauthorized_write_finishes [of "\<lambda>n. js ''s''"] by simp
  from clipboard_write_faithful [OF _ _ refl this] show ?thesis by (simp add: demo_limits_def) blast
qed

text \<open>The selection \<open>pc\<close> names the clipboard too, but only the selection \<open>c\<close> by itself is recognised.\<close>

lemma combined_selection_ignored:
  "osc52_text lm (js ''pc;YQ=='') = None \<and> osc52_text DEFAULT_LIMITS (js ''c;YQ=='') \<noteq> None"
proof -
  have "split_on semicolon (js ''pc;YQ=='') = [js ''pc'', js ''YQ=='']" by code_simp
  then have "osc52_text lm (js ''pc;YQ=='') = None" by (simp add: osc52_text_def Let_def)
  moreover have "osc52_text DEFAULT_LIMITS (js ''c;YQ=='') \<noteq> None" by code_simp
  ultimately show ?thesis ..
qed

lemma unauthorized_opens_nothing:
  "cp_writeSession c = None \<Longrightarrow> cp_writeSession (handleOsc5522 raw origin False c) = None"
proof -
  assume none: "cp_writeSession c = None"
  have same: "cp_writeSession (snd (isLive origin c)) = None" using none by (simp add: isLive_def split: option.split)
  have "cp_writeSession (handleRead frame False d) = cp_writeSession d" for frame d
    by (simp add: handleRead_def replyReadListing_def replyRead_def Let_def split: option.split)
  moreover have "cp_writeSession (beginWrite frame False d) = cp_writeSession d" for frame d
    by (simp add: beginWrite_def Let_def)
  moreover have "cp_writeSession d = None \<Longrightarrow> cp_writeSession (handleWriteData frame d) = None"
    "cp_writeSession d = None \<Longrightarrow> cp_writeSession (handleWriteAlias frame d) = None" for frame d
    by (simp_all add: handleWriteData_def handleWriteAlias_def)
  ultimately show ?thesis using handleOsc5522_cases [of raw origin False c] none same by metis
qed

text \<open>
  C15. Old output and retired terminals are inert, and the unauthorized start nothing. A packet of a replay,
  or of an older epoch than one already interpreted, changes nothing at all; an unauthorized OSC 52 write or
  paste makes no call; an unauthorized OSC 5522 packet opens no write session, and while none is open it
  hands nothing to the clipboard (it may be answered, and it may carry on a write that was authorized when
  it began: \<open>unauthorized_write_finishes\<close>); and after \<open>dispose\<close> no event makes a call.
\<close>

theorem clipboard_inert:
  assumes "0 \<le> cm_maxWriteBytes lm" and "0 \<le> cm_maxMimeTypes lm"
    and "c = foldl clip_step (new_clip lm pw) es"
  shows "(if wo_source origin = Replay \<or> (\<exists>e l. wo_streamEpoch origin = Some e \<and> cp_latestEpoch c = Some l \<and> e < l)
      then clip_step c (Osc52 raw origin auth) = c \<and> clip_step c (Osc5522 raw origin auth) = c else True)
    \<and> cp_log (clip_step c (Osc52 raw origin False)) = cp_log c
    \<and> cp_log (clip_step c (UserPasted items False)) = cp_log c
    \<and> (if cp_writeSession c = None
        then cp_writeSession (clip_step c (Osc5522 raw origin False)) = None
          \<and> written (clip_step c (Osc5522 raw origin False)) = written c
        else True)
    \<and> cp_log (foldl clip_step (clip_step c ClipDispose) fs) = cp_log c"
proof -
  have inv: "clip_inv c" unfolding assms(3) by (rule clipboard.run_inv [OF clip_inv_new]) (use assms in simp_all)
  have "\<not> fst (isLive origin c)"
    if "wo_source origin = Replay \<or> (\<exists>e l. wo_streamEpoch origin = Some e \<and> cp_latestEpoch c = Some l \<and> e < l)"
    using that by (auto simp: isLive_def)
  then have "clip_step c (Osc52 raw origin auth) = c \<and> clip_step c (Osc5522 raw origin auth) = c"
    if "wo_source origin = Replay \<or> (\<exists>e l. wo_streamEpoch origin = Some e \<and> cp_latestEpoch c = Some l \<and> e < l)"
    using that not_live by (simp add: handleOsc52_def handleOsc5522_def split_def)
  moreover have "cp_log (clip_step c (Osc52 raw origin False)) = cp_log c"
    by (simp add: handleOsc52_def Let_def split_def isLive_inv split: option.split)
  moreover have "cp_log (foldl clip_step (clip_step c ClipDispose) fs) = cp_log c"
    using disposed_clip_run [OF clip_inv_step [OF inv], of ClipDispose fs] by (simp add: dispose_clip_def Let_def)
  moreover have "written (clip_step c (Osc5522 raw origin False)) = written c" if "cp_writeSession c = None"
    using osc5522_written [OF inv, of raw origin False] that by auto
  ultimately show ?thesis by (simp add: userPasted_def unauthorized_opens_nothing)
qed

theorem clipboard_inert_witness:
  "cp_log (foldl clip_step (clip_step demo_clip ClipDispose) demo_write) = cp_log demo_clip"
  using clipboard_inert [OF _ _ refl, where lm = demo_limits and pw = "\<lambda>n. js ''s''" and es = demo_paste] by (simp add: demo_limits_def)

end
