(* ===== verification/Conversation.thy ===== *)
theory Conversation
  imports Nession_Prelude "HOL-Library.Multiset"
begin

text \<open>
  The shared model of AI conversations (\<^verbatim>\<open>web/src/shared/ai-conversation/\<close>): the items of a transcript
  (\<^verbatim>\<open>model/conversation.ts\<close>, \<^verbatim>\<open>content.ts\<close>, \<^verbatim>\<open>activity.ts\<close>), how a refresh is merged into
  what is held (\<^verbatim>\<open>runtime/reconcile.ts\<close>), the window of pages (\<^verbatim>\<open>runtime/pagination.ts\<close>), turns
  (\<^verbatim>\<open>model/turns.ts\<close>) and the rows of tool calls (\<^verbatim>\<open>model/grouping.ts\<close>).

  Items are values: \<open>sameItem\<close> is equality, so giving back the previous object is not visible here. The
  objects of one transcript are distinct objects, and \<open>item !== answer\<close> compares positions.
  \<open>Date.parse\<close> is a parameter.
\<close>

section \<open>Items\<close>

datatype message_role = UserRole | AssistantRole

datatype message_status = Streaming | Settled | Interrupted

datatype tool_status = Running | Succeeded | Failed | UnknownStatus

datatype tool_category = Command | Read | Edit | Write | Search | Fetch | Other

datatype item =
    MessageItem (item_id: string) (item_timestamp: "string option") message_role "message_status option" jsstring
  | ToolItem (item_id: string) (item_timestamp: "string option") "tool_category option" tool_status jsstring
  | ReasoningItem (item_id: string) (item_timestamp: "string option") tool_status jsstring
  | StatusItem (item_id: string) (item_timestamp: "string option") jsstring
  | UnknownItem (item_id: string) (item_timestamp: "string option")

definition ids :: "item list \<Rightarrow> string list" where
  "ids items = map item_id items"

section \<open>Merging a page\<close>

definition by_id :: "item list \<Rightarrow> (string, item) jsmap" where
  "by_id items = foldl (\<lambda>m it. map_set (item_id it) it m) [] items"

definition merging :: "item list \<Rightarrow> item list \<Rightarrow> item list" where
  "merging held arriving =
     (if arriving = [] then held
      else if held = [] then arriving
      else let arrivingById = by_id arriving; heldIds = set (ids held)
           in map (\<lambda>it. case map_get arrivingById (item_id it) of None \<Rightarrow> it | Some nxt \<Rightarrow> if it = nxt then it else nxt) held
              @ filter (\<lambda>it. item_id it \<notin> heldIds) arriving)"

section \<open>The window\<close>

record positions =
  pn_items :: "item list"
  pn_cursor :: "string option"
  pn_paged :: bool
  pn_skipped :: int

record page_slice =
  sl_items :: "item list option"
  sl_nextCursor :: "string option"
  sl_skipped :: "int option"

definition emptyPositions :: positions where
  "emptyPositions = \<lparr>pn_items = [], pn_cursor = None, pn_paged = False, pn_skipped = 0\<rparr>"

definition withNewest :: "positions \<Rightarrow> page_slice \<Rightarrow> positions" where
  "withNewest current page =
     \<lparr>pn_items = merging (pn_items current) (the_default [] (sl_items page)),
      pn_cursor = (if pn_paged current then pn_cursor current else sl_nextCursor page),
      pn_paged = pn_paged current,
      pn_skipped = max (pn_skipped current) (the_default 0 (sl_skipped page))\<rparr>"

definition withOlderPage :: "positions \<Rightarrow> page_slice \<Rightarrow> positions" where
  "withOlderPage current page =
     (let held = set (ids (pn_items current));
          pageItems = the_default [] (sl_items page);
          arriving = filter (\<lambda>it. item_id it \<notin> held) pageItems;
          overlapping = filter (\<lambda>it. item_id it \<in> held) pageItems;
          reconciledHeld = merging (pn_items current) overlapping
      in \<lparr>pn_items = arriving @ reconciledHeld, pn_cursor = sl_nextCursor page, pn_paged = True,
          pn_skipped = max (pn_skipped current) (the_default 0 (sl_skipped page))\<rparr>)"

definition itemsOf :: "positions \<Rightarrow> item list" where
  "itemsOf p = pn_items p"

definition skippedOf :: "positions \<Rightarrow> int" where
  "skippedOf p = pn_skipped p"

definition hasOlder :: "positions \<Rightarrow> bool" where
  "hasOlder p \<longleftrightarrow> pn_cursor p \<noteq> None"

section \<open>Turns\<close>

record turn =
  tn_key :: string
  tn_opening :: "item option"
  tn_process :: "item list"
  tn_answer :: "item option"
  tn_durationMs :: "int option"

fun messageOf :: "item \<Rightarrow> message_role option" where
  "messageOf (MessageItem i t r s b) = Some r"
| "messageOf _ = None"

definition isUser :: "item \<Rightarrow> bool" where
  "isUser it \<longleftrightarrow> messageOf it = Some UserRole"

definition isAssistant :: "item \<Rightarrow> bool" where
  "isAssistant it \<longleftrightarrow> messageOf it = Some AssistantRole"

fun isWork :: "item \<Rightarrow> bool" where
  "isWork (ToolItem i t c s b) = True"
| "isWork (ReasoningItem i t s b) = True"
| "isWork _ = False"

text \<open>\<open>kind !== 'status' && kind !== 'unknown'\<close>.\<close>

fun takes_part :: "item \<Rightarrow> bool" where
  "takes_part (StatusItem i t b) = False"
| "takes_part (UnknownItem i t) = False"
| "takes_part _ = True"

definition timeOf :: "(string \<Rightarrow> int option) \<Rightarrow> item \<Rightarrow> int option" where
  "timeOf date_parse it = Option.bind (item_timestamp it) date_parse"

definition durationOf :: "(string \<Rightarrow> int option) \<Rightarrow> item list \<Rightarrow> int option" where
  "durationOf date_parse items =
     (let times = map the (filter (\<lambda>t. t \<noteq> None) (map (timeOf date_parse) (filter takes_part items)))
      in if length times < 2 then None else Some (fold max (tl times) (hd times) - fold min (tl times) (hd times)))"

text \<open>The loop over the items: the position and the item of the answer so far.\<close>

fun answer_loop :: "nat \<Rightarrow> item list \<Rightarrow> (nat \<times> item) option \<Rightarrow> (nat \<times> item) option" where
  "answer_loop n [] answer = answer"
| "answer_loop n (it # rest) answer =
     answer_loop (Suc n) rest
       (if isAssistant it then Some (n, it) else if answer \<noteq> None \<and> isWork it then None else answer)"

text \<open>\<open>items.filter((item, index) => ...)\<close>, counting from \<open>n\<close>.\<close>

fun process_filter :: "nat option \<Rightarrow> bool \<Rightarrow> nat \<Rightarrow> item list \<Rightarrow> item list" where
  "process_filter answer opened n [] = []"
| "process_filter answer opened n (it # rest) =
     (if answer \<noteq> Some n \<and> takes_part it \<and> \<not> (opened \<and> n = 0)
      then it # process_filter answer opened (Suc n) rest else process_filter answer opened (Suc n) rest)"

text \<open>\<open>None\<close> is the \<open>throw\<close> on an empty run.\<close>

definition turnOf :: "(string \<Rightarrow> int option) \<Rightarrow> item list \<Rightarrow> turn option" where
  "turnOf date_parse items = (case items of
       [] \<Rightarrow> None
     | first # rest \<Rightarrow>
         let opening = (if isUser first then Some first else None);
             answer = answer_loop 0 items None
         in Some \<lparr>tn_key = item_id first, tn_opening = opening,
                  tn_process = process_filter (map_option fst answer) (opening \<noteq> None) 0 items,
                  tn_answer = map_option snd answer, tn_durationMs = durationOf date_parse items\<rparr>)"

definition flush_turn :: "(string \<Rightarrow> int option) \<Rightarrow> item list \<Rightarrow> turn list \<Rightarrow> turn list" where
  "flush_turn date_parse run turns =
     (if run \<noteq> [] then turns @ (case turnOf date_parse run of None \<Rightarrow> [] | Some t \<Rightarrow> [t]) else turns)"

fun turns_loop :: "(string \<Rightarrow> int option) \<Rightarrow> item list \<Rightarrow> item list \<Rightarrow> turn list \<Rightarrow> turn list" where
  "turns_loop date_parse [] run turns = flush_turn date_parse run turns"
| "turns_loop date_parse (it # rest) run turns =
     (if isUser it \<and> run \<noteq> [] then turns_loop date_parse rest [it] (flush_turn date_parse run turns)
      else turns_loop date_parse rest (run @ [it]) turns)"

definition turnsOf :: "(string \<Rightarrow> int option) \<Rightarrow> item list \<Rightarrow> turn list" where
  "turnsOf date_parse items = turns_loop date_parse items [] []"

fun running_item :: "item \<Rightarrow> bool" where
  "running_item (ToolItem i t c s b) \<longleftrightarrow> s = Running"
| "running_item (ReasoningItem i t s b) \<longleftrightarrow> s = Running"
| "running_item _ \<longleftrightarrow> False"

definition runningWork :: "turn \<Rightarrow> bool" where
  "runningWork t \<longleftrightarrow> list_ex (\<lambda>it. isWork it \<and> running_item it) (tn_process t)"

fun streaming_answer :: "item option \<Rightarrow> bool" where
  "streaming_answer (Some (MessageItem i t r s b)) \<longleftrightarrow> s = Some Streaming"
| "streaming_answer _ \<longleftrightarrow> False"

definition isWorking :: "turn \<Rightarrow> bool" where
  "isWorking t \<longleftrightarrow> tn_answer t = None \<or> streaming_answer (tn_answer t) \<or> runningWork t"

definition option_list :: "'a option \<Rightarrow> 'a list" where
  "option_list v = (case v of None \<Rightarrow> [] | Some x \<Rightarrow> [x])"

definition turnMembership :: "turn list \<Rightarrow> (string, turn \<times> bool) jsmap" where
  "turnMembership turns = foldl (\<lambda>m t.
     foldl (\<lambda>m it. map_set (item_id it) (t, False) m)
       (foldl (\<lambda>m it. map_set (item_id it) (t, True) m)
         (foldl (\<lambda>m it. map_set (item_id it) (t, False) m) m (option_list (tn_opening t)))
         (tn_process t))
       (option_list (tn_answer t))) [] turns"

definition itemsOfTurn :: "turn \<Rightarrow> item list" where
  "itemsOfTurn t = option_list (tn_opening t) @ tn_process t @ option_list (tn_answer t)"

text \<open>The search for the first remembered item.\<close>

fun held_key :: "(string, string) jsmap \<Rightarrow> item list \<Rightarrow> string option" where
  "held_key remembered [] = None"
| "held_key remembered (it # rest) =
     (case map_get remembered (item_id it) of None \<Rightarrow> held_key remembered rest | Some k \<Rightarrow> Some k)"

definition carryTurnKeys :: "turn list \<Rightarrow> (string, string) jsmap \<Rightarrow> turn list" where
  "carryTurnKeys turns remembered = map (\<lambda>t.
     case held_key remembered (itemsOfTurn t) of
       None \<Rightarrow> t
     | Some k \<Rightarrow> if k = tn_key t then t else t\<lparr>tn_key := k\<rparr>) turns"

definition rememberTurns :: "turn list \<Rightarrow> (string, string) jsmap \<Rightarrow> (string, string) jsmap" where
  "rememberTurns turns remembered =
     (let live = set (concat (map (\<lambda>t. ids (itemsOfTurn t)) turns));
          written = foldl (\<lambda>m t. foldl (\<lambda>m it. map_set (item_id it) (tn_key t) m) m (itemsOfTurn t)) remembered turns
      in foldl (\<lambda>m k. if k \<in> live then m else map_delete k m) written (map_keys written))"

section \<open>Rows of tool calls\<close>

record tool_summary =
  ts_text :: string
  ts_running :: nat
  ts_failed :: nat

datatype row =
    ItemRow (row_key: string) item
  | ToolsRow (row_key: string) "item list" tool_summary

definition CATEGORY_ORDER :: "tool_category list" where
  "CATEGORY_ORDER = [Command, Read, Edit, Write, Search, Fetch, Other]"

fun CATEGORY_LABEL :: "tool_category \<Rightarrow> string \<times> string" where
  "CATEGORY_LABEL Command = (''command'', ''commands'')"
| "CATEGORY_LABEL Read = (''file read'', ''file reads'')"
| "CATEGORY_LABEL Edit = (''edit'', ''edits'')"
| "CATEGORY_LABEL Write = (''write'', ''writes'')"
| "CATEGORY_LABEL Search = (''search'', ''searches'')"
| "CATEGORY_LABEL Fetch = (''fetch'', ''fetches'')"
| "CATEGORY_LABEL Other = (''action'', ''actions'')"

fun categoryOf :: "item \<Rightarrow> tool_category" where
  "categoryOf (ToolItem i t (Some c) s b) = c"
| "categoryOf _ = Other"

fun failed_item :: "item \<Rightarrow> bool" where
  "failed_item (ToolItem i t c s b) \<longleftrightarrow> s = Failed"
| "failed_item _ \<longleftrightarrow> False"

fun join_parts :: "string \<Rightarrow> string list \<Rightarrow> string" where
  "join_parts sep [] = []"
| "join_parts sep [w] = w"
| "join_parts sep (w # v # ws) = w @ sep @ join_parts sep (v # ws)"

definition category_count :: "tool_category \<Rightarrow> item list \<Rightarrow> nat" where
  "category_count c items = length (filter (\<lambda>it. categoryOf it = c) items)"

definition category_part :: "item list \<Rightarrow> tool_category \<Rightarrow> string" where
  "category_part items c =
     (let n = category_count c items; (one, many) = CATEGORY_LABEL c
      in if n = 1 then ''1 '' @ one else decimal n @ '' '' @ many)"

definition summarizeTools :: "item list \<Rightarrow> tool_summary" where
  "summarizeTools items =
     \<lparr>ts_text = join_parts [CHR '' '', CHR 0xB7, CHR '' ''] (map (category_part items) (filter (\<lambda>c. 0 < category_count c items) CATEGORY_ORDER)),
      ts_running = length (filter running_item items), ts_failed = length (filter failed_item items)\<rparr>"

definition flush_row :: "item list \<Rightarrow> row list \<Rightarrow> row list" where
  "flush_row run rows = (case run of
       [] \<Rightarrow> rows
     | [it] \<Rightarrow> rows @ [ItemRow (item_id it) it]
     | first # rest \<Rightarrow> rows @ [ToolsRow (''tools:'' @ item_id first) run (summarizeTools run)])"

definition is_tool :: "item \<Rightarrow> bool" where
  "is_tool it \<longleftrightarrow> (case it of ToolItem i t c s b \<Rightarrow> True | _ \<Rightarrow> False)"

fun rows_loop :: "item list \<Rightarrow> item list \<Rightarrow> row list \<Rightarrow> row list" where
  "rows_loop [] run rows = flush_row run rows"
| "rows_loop (it # rest) run rows =
     (if is_tool it then rows_loop rest (run @ [it]) rows
      else rows_loop rest [] (flush_row run rows @ [ItemRow (item_id it) it]))"

definition groupRows :: "item list \<Rightarrow> row list" where
  "groupRows items = rows_loop items [] []"

definition carryGroupKeys :: "row list \<Rightarrow> (string, string) jsmap \<Rightarrow> row list" where
  "carryGroupKeys rows remembered = map (\<lambda>r. case r of
       ItemRow k it \<Rightarrow> r
     | ToolsRow k items summary \<Rightarrow>
         let key = the_default k (held_key remembered items) in if key = k then r else ToolsRow key items summary) rows"

fun group_items :: "row \<Rightarrow> item list" where
  "group_items (ItemRow k it) = []"
| "group_items (ToolsRow k items summary) = items"

definition rememberGroups :: "row list \<Rightarrow> (string, string) jsmap \<Rightarrow> (string, string) jsmap" where
  "rememberGroups rows remembered =
     (let live = set (concat (map (\<lambda>r. ids (group_items r)) rows));
          written = foldl (\<lambda>m r. foldl (\<lambda>m it. map_set (item_id it) (row_key r) m) m (group_items r)) remembered rows
      in foldl (\<lambda>m k. if k \<in> live then m else map_delete k m) written (map_keys written))"

end
