(* ===== verification/Conversation_Laws.thy ===== *)
theory Conversation_Laws
  imports Conversation
begin

text \<open>
  What the conversation model guarantees: the window loses nothing, turns and rows are partitions of the
  transcript with the classification the renderer relies on, and a turn keeps its key while the
  transcript grows at either end.
\<close>

section \<open>The window\<close>

lemma by_id_fold:
  "map_get (foldl (\<lambda>m it. map_set (item_id it) it m) m items) k = Some v \<Longrightarrow>
     (v \<in> set items \<and> item_id v = k) \<or> (map_get m k = Some v \<and> k \<notin> set (ids items))"
proof (induction items arbitrary: m)
  case (Cons it items)
  from Cons.IH [of "map_set (item_id it) it m"] Cons.prems show ?case
    by (auto simp: ids_def split: if_splits)
qed (simp add: ids_def)

lemma by_id_None:
  "map_get (foldl (\<lambda>m it. map_set (item_id it) it m) m items) k = None \<longleftrightarrow> map_get m k = None \<and> k \<notin> set (ids items)"
proof (induction items arbitrary: m)
  case (Cons it items)
  have "map_get (foldl (\<lambda>m it. map_set (item_id it) it m) m (it # items)) k = None \<longleftrightarrow> map_get (map_set (item_id it) it m) k = None \<and> k \<notin> set (ids items)"
    unfolding foldl.simps by (rule Cons.IH)
  also have "\<dots> \<longleftrightarrow> map_get m k = None \<and> k \<noteq> item_id it \<and> k \<notin> set (ids items)"
    by (simp only: map_get_set split: if_split) blast
  also have "\<dots> \<longleftrightarrow> map_get m k = None \<and> k \<notin> set (ids (it # items))"
    by (simp add: ids_def)
  finally show ?case .
next
  case Nil
  show ?case by (simp add: ids_def)
qed

lemma by_id_get: "map_get (by_id items) k = Some v \<Longrightarrow> v \<in> set items \<and> item_id v = k"
  using by_id_fold [of "[]" items k v] by (auto simp: by_id_def)

lemma by_id_get_None: "map_get (by_id items) k = None \<longleftrightarrow> k \<notin> set (ids items)"
  by (simp add: by_id_def by_id_None)

lemma merging_eq:
  "merging held arriving =
     map (\<lambda>it. the_default it (map_get (by_id arriving) (item_id it))) held @ filter (\<lambda>it. item_id it \<notin> set (ids held)) arriving"
proof -
  have same: "(case map_get m (item_id it) of None \<Rightarrow> it | Some nxt \<Rightarrow> if it = nxt then it else nxt) = the_default it (map_get m (item_id it))"
    for m it by (simp split: option.split)
  have "merging held [] = map (\<lambda>it. the_default it (map_get (by_id []) (item_id it))) held" for held
    by (simp add: merging_def by_id_def)
  moreover have "filter (\<lambda>it. item_id it \<notin> set (ids [])) arriving = arriving" by (simp add: ids_def)
  ultimately show ?thesis
    by (cases "arriving = []"; cases "held = []") (simp_all add: merging_def Let_def same)
qed

lemma updated_id: "item_id (the_default it (map_get (by_id arriving) (item_id it))) = item_id it"
  by (cases "map_get (by_id arriving) (item_id it)") (auto dest: by_id_get)

lemma ids_merging: "ids (merging held arriving) = ids held @ filter (\<lambda>i. i \<notin> set (ids held)) (ids arriving)"
  by (simp add: merging_eq ids_def updated_id filter_map comp_def)

lemma distinct_ids_unique: "distinct (ids items) \<Longrightarrow> x \<in> set items \<Longrightarrow> y \<in> set items \<Longrightarrow> item_id x = item_id y \<Longrightarrow> x = y"
  by (auto simp: ids_def distinct_map dest: inj_onD)

lemma merging_restates:
  assumes "distinct (ids arriving)" and "it \<in> set arriving"
  shows "it \<in> set (merging held arriving)"
proof (cases "item_id it \<in> set (ids held)")
  case True
  then obtain h where h: "h \<in> set held" "item_id h = item_id it" by (auto simp: ids_def)
  have "item_id it \<in> set (ids arriving)" using assms(2) by (simp add: ids_def)
  then obtain v where "map_get (by_id arriving) (item_id it) = Some v" using by_id_get_None by fastforce
  then have "map_get (by_id arriving) (item_id h) = Some it"
    using by_id_get [of arriving] assms distinct_ids_unique h(2) by metis
  then have "the_default h (map_get (by_id arriving) (item_id h)) = it" by simp
  with h(1) show ?thesis unfolding merging_eq by (force intro!: image_eqI [where x = h])
next
  case False
  then show ?thesis using assms(2) by (simp add: merging_eq)
qed

datatype page_op = Newest page_slice | Older page_slice

fun page_of :: "page_op \<Rightarrow> page_slice" where
  "page_of (Newest page) = page"
| "page_of (Older page) = page"

fun page_step :: "positions \<Rightarrow> page_op \<Rightarrow> positions" where
  "page_step p (Newest page) = withNewest p page"
| "page_step p (Older page) = withOlderPage p page"

definition page_items :: "page_op \<Rightarrow> item list" where
  "page_items op = the_default [] (sl_items (page_of op))"

lemma ids_older:
  "ids (pn_items (withOlderPage p page)) =
     filter (\<lambda>i. i \<notin> set (ids (pn_items p))) (ids (the_default [] (sl_items page))) @ ids (pn_items p)"
proof -
  let ?page = "the_default [] (sl_items page)"
  have "filter (\<lambda>i. i \<notin> set (ids (pn_items p))) (ids (filter (\<lambda>it. item_id it \<in> set (ids (pn_items p))) ?page)) = []"
    by (auto simp: ids_def filter_empty_conv)
  then have "ids (merging (pn_items p) (filter (\<lambda>it. item_id it \<in> set (ids (pn_items p))) ?page)) = ids (pn_items p)"
    by (simp add: ids_merging)
  moreover have "ids (filter (\<lambda>it. item_id it \<notin> A) xs) = filter (\<lambda>i. i \<notin> A) (ids xs)" for A xs
    by (simp add: ids_def filter_map comp_def)
  ultimately show ?thesis by (simp add: withOlderPage_def Let_def) (simp add: ids_def)
qed

lemma page_step_ids:
  "\<exists>older newer. ids (pn_items (page_step p op)) = older @ ids (pn_items p) @ newer
     \<and> set older \<union> set newer \<subseteq> set (ids (page_items op)) - set (ids (pn_items p))
     \<and> (distinct (ids (page_items op)) \<longrightarrow> distinct (older @ newer))"
proof (cases op)
  case (Newest page)
  then show ?thesis
    by (intro exI [of _ "[]"] exI [of _ "filter (\<lambda>i. i \<notin> set (ids (pn_items p))) (ids (page_items op))"])
      (auto simp: withNewest_def ids_merging page_items_def)
next
  case (Older page)
  then show ?thesis
    by (intro exI [of _ "filter (\<lambda>i. i \<notin> set (ids (pn_items p))) (ids (page_items op))"] exI [of _ "[]"])
      (auto simp: ids_older page_items_def)
qed

lemma page_step_distinct:
  "distinct (ids (pn_items p)) \<Longrightarrow> distinct (ids (page_items op)) \<Longrightarrow> distinct (ids (pn_items (page_step p op)))"
  using page_step_ids [of p op] by fastforce

text \<open>The contract of the window, for pages that name each item once.\<close>

definition distinct_page :: "positions \<Rightarrow> page_op \<Rightarrow> positions" where
  "distinct_page p op = (if distinct (ids (page_items op)) then page_step p op else p)"

interpretation window: event_machine distinct_page "\<lambda>p. distinct (ids (pn_items p))"
  by unfold_locales (simp add: distinct_page_def page_step_distinct)

lemma distinct_pages: "list_all (\<lambda>op. distinct (ids (page_items op))) ops \<Longrightarrow> foldl page_step p ops = foldl distinct_page p ops"
  by (induction ops arbitrary: p) (simp_all add: distinct_page_def)

lemma window_extends: "\<exists>older newer. ids (pn_items (foldl page_step p ops)) = older @ ids (pn_items p) @ newer"
proof (induction ops arbitrary: p)
  case (Cons op ops)
  obtain a b where "ids (pn_items (page_step p op)) = a @ ids (pn_items p) @ b" using page_step_ids by blast
  moreover obtain c d where "ids (pn_items (foldl page_step (page_step p op) ops)) = c @ ids (pn_items (page_step p op)) @ d"
    using Cons.IH by blast
  ultimately have "ids (pn_items (foldl page_step p (op # ops))) = (c @ a) @ ids (pn_items p) @ (b @ d)" by simp
  then show ?case by blast
qed (metis append_Nil append_Nil2 foldl_Nil)

lemma page_step_restates:
  assumes "distinct (ids (page_items op))" and "it \<in> set (page_items op)"
  shows "it \<in> set (pn_items (page_step p op))"
proof (cases op)
  case (Newest page)
  then show ?thesis using assms merging_restates by (simp add: withNewest_def page_items_def)
next
  case (Older page)
  let ?over = "filter (\<lambda>it. item_id it \<in> set (ids (pn_items p))) (page_items op)"
  have "distinct (ids ?over)" using assms(1) by (auto simp: ids_def distinct_map inj_on_def)
  then have "it \<in> set (merging (pn_items p) ?over)" if "item_id it \<in> set (ids (pn_items p))"
    using merging_restates [of ?over it] assms(2) that by simp
  then show ?thesis using Older assms(2) by (auto simp: withOlderPage_def Let_def page_items_def)
qed

section \<open>Property of the window\<close>


definition demo_msg :: "string \<Rightarrow> item" where
  "demo_msg i = MessageItem i None UserRole None []"

definition demo_page :: "item list \<Rightarrow> page_slice" where
  "demo_page items = \<lparr>sl_items = Some items, sl_nextCursor = None, sl_skipped = None\<rparr>"


section \<open>Runs\<close>

text \<open>The reference: cut before every user message.\<close>

function runs :: "item list \<Rightarrow> item list list" where
  "runs [] = []"
| "runs (it # rest) = (it # takeWhile (\<lambda>x. \<not> isUser x) rest) # runs (dropWhile (\<lambda>x. \<not> isUser x) rest)"
  by pat_completeness auto
termination
  by (relation "measure length") (simp_all add: less_Suc_eq_le length_dropWhile_le)

lemma concat_runs: "concat (runs items) = items"
  by (induction items rule: runs.induct) auto

lemma runs_head: "run \<in> set (runs items) \<Longrightarrow> run \<noteq> [] \<and> (\<forall>x \<in> set (tl run). \<not> isUser x)"
proof (induction items rule: runs.induct)
  case (2 it rest)
  then show ?case using set_takeWhileD by fastforce
qed simp

lemma turns_loop_runs:
  "run \<noteq> [] \<Longrightarrow> turns_loop dp items run turns =
     turns @ map (\<lambda>r. the (turnOf dp r)) ((run @ takeWhile (\<lambda>x. \<not> isUser x) items) # runs (dropWhile (\<lambda>x. \<not> isUser x) items))"
proof (induction items arbitrary: run turns)
  case Nil
  then show ?case by (cases run) (simp_all add: flush_turn_def turnOf_def Let_def)
next
  case (Cons it items)
  have flush: "flush_turn dp run turns = turns @ [the (turnOf dp run)]"
    using Cons.prems by (cases run) (simp_all add: flush_turn_def turnOf_def Let_def)
  show ?case using Cons.prems Cons.IH [of "[it]"] Cons.IH [of "run @ [it]"] by (simp add: flush)
qed

lemma turnsOf_runs: "turnsOf dp items = map (\<lambda>r. the (turnOf dp r)) (runs items)"
  by (cases items) (simp_all add: turnsOf_def flush_turn_def turns_loop_runs)

lemma runs_append:
  "runs (xs @ ys) =
     (if xs = [] then runs ys
      else butlast (runs xs) @ (last (runs xs) @ takeWhile (\<lambda>x. \<not> isUser x) ys) # runs (dropWhile (\<lambda>x. \<not> isUser x) ys))"
proof (induction xs rule: runs.induct)
  case (2 it rest)
  show ?case
  proof (cases "\<forall>x \<in> set rest. \<not> isUser x")
    case True
    then have all: "takeWhile (\<lambda>x. \<not> isUser x) rest = rest" "dropWhile (\<lambda>x. \<not> isUser x) rest = []"
      by (simp_all add: takeWhile_eq_all_conv dropWhile_eq_Nil_conv)
    have "takeWhile (\<lambda>x. \<not> isUser x) (rest @ ys) = rest @ takeWhile (\<lambda>x. \<not> isUser x) ys"
      "dropWhile (\<lambda>x. \<not> isUser x) (rest @ ys) = dropWhile (\<lambda>x. \<not> isUser x) ys"
      using True by (simp_all add: takeWhile_append2 dropWhile_append2)
    then show ?thesis by (simp add: all)
  next
    case False
    then obtain u where u: "u \<in> set rest" "isUser u" by blast
    then have "takeWhile (\<lambda>x. \<not> isUser x) (rest @ ys) = takeWhile (\<lambda>x. \<not> isUser x) rest"
      "dropWhile (\<lambda>x. \<not> isUser x) (rest @ ys) = dropWhile (\<lambda>x. \<not> isUser x) rest @ ys"
      by (simp_all add: takeWhile_append1 dropWhile_append1)
    moreover have "dropWhile (\<lambda>x. \<not> isUser x) rest \<noteq> []" using u by (auto simp: dropWhile_eq_Nil_conv)
    moreover from this have "runs (dropWhile (\<lambda>x. \<not> isUser x) rest) \<noteq> []"
      by (metis concat.simps(1) concat_runs)
    ultimately show ?thesis using 2 u by auto
  qed
qed simp

section \<open>The parts of a turn\<close>

lemma answer_snoc:
  "answer_loop n (items @ [it]) a =
     (if isAssistant it then Some (n + length items, it)
      else if answer_loop n items a \<noteq> None \<and> isWork it then None else answer_loop n items a)"
  by (induction items arbitrary: n a) auto

text \<open>The answer is the last assistant message, if no work follows it.\<close>

lemma answer_char:
  "answer_loop n items None = Some (k, a) \<longleftrightarrow>
     (\<exists>pre post. items = pre @ a # post \<and> k = n + length pre \<and> isAssistant a \<and> (\<forall>y \<in> set post. \<not> isAssistant y \<and> \<not> isWork y))"
proof (induction items rule: rev_induct)
  case (snoc it items)
  show ?case (is "?l \<longleftrightarrow> ?r")
  proof (cases "isAssistant it")
    case True
    have "?r \<longleftrightarrow> a = it \<and> k = n + length items"
    proof
      assume ?r
      then obtain pre post where p: "items @ [it] = pre @ a # post" "k = n + length pre" "\<forall>y \<in> set post. \<not> isAssistant y" by blast
      then have "post = []" using True by (cases post rule: rev_cases) auto
      with p show "a = it \<and> k = n + length items" by simp
    next
      assume "a = it \<and> k = n + length items"
      then show ?r using True by (intro exI [of _ items] exI [of _ "[]"]) simp
    qed
    then show ?thesis using True by (auto simp: answer_snoc)
  next
    case False
    have "?r \<longleftrightarrow> \<not> isWork it \<and> answer_loop n items None = Some (k, a)"
    proof
      assume ?r
      then obtain pre post where p: "items @ [it] = pre @ a # post" "k = n + length pre" "isAssistant a"
        "\<forall>y \<in> set post. \<not> isAssistant y \<and> \<not> isWork y" by blast
      then have "post \<noteq> []" using False by auto
      then obtain post' where "post = post' @ [it]" "items = pre @ a # post'"
        using p(1) by (cases post rule: rev_cases) auto
      with p show "\<not> isWork it \<and> answer_loop n items None = Some (k, a)" using snoc.IH by auto
    next
      assume r: "\<not> isWork it \<and> answer_loop n items None = Some (k, a)"
      then obtain pre post where "items = pre @ a # post" "k = n + length pre" "isAssistant a"
        "\<forall>y \<in> set post. \<not> isAssistant y \<and> \<not> isWork y" using snoc.IH by blast
      then show ?r using r False by (intro exI [of _ pre] exI [of _ "post @ [it]"]) simp
    qed
    then show ?thesis using False by (auto simp: answer_snoc)
  qed
qed simp

lemma process_later:
  "0 < n \<or> \<not> o' \<Longrightarrow> (case a of None \<Rightarrow> True | Some k \<Rightarrow> k < n) \<Longrightarrow> process_filter a o' n items = filter takes_part items"
  by (induction items arbitrary: n) (auto split: option.splits)

lemma process_hit:
  "0 < n \<or> \<not> o' \<Longrightarrow> process_filter (Some (n + length pre)) o' n (pre @ x # post) = filter takes_part pre @ filter takes_part post"
proof (induction pre arbitrary: n)
  case Nil
  then show ?case by (simp add: process_later)
next
  case (Cons it pre)
  then show ?case using Cons.IH [of "Suc n"] by auto
qed

lemma message_takes_part: "isAssistant x \<Longrightarrow> takes_part x" "isUser x \<Longrightarrow> takes_part x"
  by (cases x; simp add: isAssistant_def isUser_def)+

lemma mset_split: "mset (filter takes_part xs) + mset (filter (\<lambda>x. \<not> takes_part x) xs) = mset xs"
  by (induction xs) auto

lemma turn_partition:
  assumes "run \<noteq> []" and "turnOf dp run = Some t"
  shows "mset run = mset (itemsOfTurn t) + mset (filter (\<lambda>x. \<not> takes_part x) run)"
proof -
  obtain u rest where run: "run = u # rest" using assms(1) by (cases run) auto
  define a where "a = answer_loop 0 run None"
  have t: "tn_opening t = (if isUser u then Some u else None)" "tn_answer t = map_option snd a"
    "tn_process t = process_filter (map_option fst a) (isUser u) 0 run"
    using assms(2) unfolding run a_def by (auto simp: turnOf_def Let_def split: if_splits)
  show ?thesis
  proof (cases a)
    case None
    have "mset (tn_process t) + mset (option_list (tn_opening t)) = mset (filter takes_part run)"
      using t None message_takes_part(2) by (simp add: run process_later option_list_def)
    then show ?thesis using mset_split [of run] t None by (simp add: itemsOfTurn_def option_list_def ac_simps)
  next
    case (Some p)
    obtain k x where p: "p = (k, x)" by (cases p)
    then have "answer_loop 0 run None = Some (k, x)" using Some a_def by simp
    then obtain pre post where split: "run = pre @ x # post" "k = length pre" "isAssistant x"
      unfolding answer_char by auto
    have answer: "tn_answer t = Some x" using t Some p by simp
    have "mset (tn_process t) + mset (option_list (tn_opening t)) = mset (filter takes_part pre) + mset (filter takes_part post)"
    proof (cases "isUser u")
      case True
      then have "x \<noteq> u" using split(3) by (auto simp: isUser_def isAssistant_def)
      then obtain pre' where pre: "pre = u # pre'" using split(1) run by (cases pre) auto
      then have "rest = pre' @ x # post" using split(1) run by simp
      then have "tn_process t = filter takes_part pre' @ filter takes_part post"
        using t(3) Some p split(2) pre process_hit [of 1 True pre' x post] True by (simp add: run)
      then show ?thesis using t(1) True pre message_takes_part(2) by (simp add: option_list_def)
    next
      case False
      then show ?thesis
        using t Some p split process_hit [of 0 False pre x post] by (simp add: option_list_def)
    qed
    then have "mset (itemsOfTurn t) = mset (filter takes_part run)"
      using answer split(1) message_takes_part(1) [OF split(3)] by (simp add: itemsOfTurn_def option_list_def ac_simps)
    then show ?thesis using mset_split [of run] by simp
  qed
qed

section \<open>Property of turns\<close>


section \<open>Keys\<close>

text \<open>Every run of the longer list meets the shorter one in nothing or in exactly one of its runs.\<close>

definition grows :: "item list \<Rightarrow> item list \<Rightarrow> bool" where
  "grows xs ys \<longleftrightarrow> set xs \<subseteq> set ys
     \<and> (\<forall>r \<in> set (runs ys). set r \<inter> set xs = {} \<or> (\<exists>q \<in> set (runs xs). set r \<inter> set xs = set q))"

lemma set_takeWhile_subset: "set (takeWhile P xs) \<subseteq> set xs"
  by (blast dest: set_takeWhileD)

lemma set_dropWhile_subset: "set (dropWhile P xs) \<subseteq> set xs"
  by (blast dest: set_dropWhileD)

lemma run_subset: "r \<in> set (runs xs) \<Longrightarrow> set r \<subseteq> set xs"
  using concat_runs [of xs] by (metis Union_upper image_eqI set_concat)

lemma grows_refl: "grows xs xs"
  using run_subset [of _ xs] by (auto simp: grows_def Int_absorb2)

lemma grows_prepend:
  assumes "distinct (zs @ xs)"
  shows "grows xs (zs @ xs)"
proof (cases "zs = []")
  case True
  then show ?thesis using grows_refl by simp
next
  case False
  have "set r \<inter> set xs = {} \<or> (\<exists>q \<in> set (runs xs). set r \<inter> set xs = set q)" if "r \<in> set (runs (zs @ xs))" for r
  proof -
    have ne: "runs zs \<noteq> []" using False concat_runs [of zs] by auto
    have apart: "set q \<inter> set xs = {}" if "q \<in> set (runs zs)" for q
      using run_subset [OF that] assms by auto
    have tail: "\<exists>q \<in> set (runs xs). set r \<inter> set xs = set q" if "r \<in> set (runs (dropWhile (\<lambda>x. \<not> isUser x) xs))"
    proof -
      have "r \<in> set (runs xs)"
        using that by (cases xs) (auto split: if_splits)
      moreover have "set r \<inter> set xs = set r" using run_subset [OF \<open>r \<in> set (runs xs)\<close>] by blast
      ultimately show ?thesis by blast
    qed
    have "set (takeWhile (\<lambda>x. \<not> isUser x) xs) \<subseteq> set xs" by (rule set_takeWhile_subset)
    then have seam: "set (last (runs zs) @ takeWhile (\<lambda>x. \<not> isUser x) xs) \<inter> set xs = set (takeWhile (\<lambda>x. \<not> isUser x) xs)"
      using apart [OF last_in_set [OF ne]] by (simp add: Int_Un_distrib2 Int_absorb2)
    have "takeWhile (\<lambda>x. \<not> isUser x) xs = [] \<or> takeWhile (\<lambda>x. \<not> isUser x) xs \<in> set (runs xs)"
      by (cases xs) auto
    moreover have "r \<in> set (runs zs) \<or> r = last (runs zs) @ takeWhile (\<lambda>x. \<not> isUser x) xs
      \<or> r \<in> set (runs (dropWhile (\<lambda>x. \<not> isUser x) xs))"
      using \<open>r \<in> set (runs (zs @ xs))\<close> False by (auto simp: runs_append dest: in_set_butlastD)
    ultimately show ?thesis
    proof (elim disjE)
      assume "takeWhile (\<lambda>x. \<not> isUser x) xs = []" "r = last (runs zs) @ takeWhile (\<lambda>x. \<not> isUser x) xs"
      then show ?thesis using seam by simp
    next
      assume "takeWhile (\<lambda>x. \<not> isUser x) xs \<in> set (runs xs)" "r = last (runs zs) @ takeWhile (\<lambda>x. \<not> isUser x) xs"
      then show ?thesis using seam by blast
    qed (blast dest: apart tail)+
  qed
  then show ?thesis by (auto simp: grows_def)
qed

lemma grows_append:
  assumes "distinct (xs @ zs)"
  shows "grows xs (xs @ zs)"
proof (cases "xs = []")
  case True
  then show ?thesis by (simp add: grows_def)
next
  case False
  have "set r \<inter> set xs = {} \<or> (\<exists>q \<in> set (runs xs). set r \<inter> set xs = set q)" if r: "r \<in> set (runs (xs @ zs))" for r
  proof -
    have ne: "runs xs \<noteq> []" using False concat_runs [of xs] by auto
    have whole: "set q \<inter> set xs = set q" if "q \<in> set (runs xs)" for q using run_subset [OF that] by blast
    have later: "set q \<inter> set xs = {}" if "set q \<subseteq> set zs" for q using that assms by auto
    have "set (last (runs xs) @ takeWhile (\<lambda>x. \<not> isUser x) zs) \<inter> set xs = set (last (runs xs))"
      using whole [OF last_in_set [OF ne]] later [OF set_takeWhile_subset] by (simp add: Int_Un_distrib2)
    moreover have "set q \<inter> set xs = {}" if "q \<in> set (runs (dropWhile (\<lambda>x. \<not> isUser x) zs))" for q
      using subset_trans [OF run_subset [OF that] set_dropWhile_subset] by (rule later)
    moreover have "r \<in> set (runs xs) \<or> r = last (runs xs) @ takeWhile (\<lambda>x. \<not> isUser x) zs
      \<or> r \<in> set (runs (dropWhile (\<lambda>x. \<not> isUser x) zs))"
      using r False by (auto simp: runs_append dest: in_set_butlastD)
    ultimately show ?thesis using whole last_in_set [OF ne] by (elim disjE) blast+
  qed
  then show ?thesis by (auto simp: grows_def)
qed

lemma grows_trans:
  assumes "grows xs ys" and "grows ys ws"
  shows "grows xs ws"
proof -
  have "set r \<inter> set xs = {} \<or> (\<exists>q \<in> set (runs xs). set r \<inter> set xs = set q)" if r: "r \<in> set (runs ws)" for r
  proof -
    have "set r \<inter> set xs = (set r \<inter> set ys) \<inter> set xs" using assms(1) by (auto simp: grows_def)
    with assms r show ?thesis unfolding grows_def by (metis Int_empty_left)
  qed
  then show ?thesis using assms by (auto simp: grows_def)
qed

lemma runs_disjoint:
  assumes "distinct xs" and "q \<in> set (runs xs)" and "r \<in> set (runs xs)" and "x \<in> set q" and "x \<in> set r"
  shows "q = r"
  using assms concat_runs [of xs] distinct_concat_iff [of "runs xs"] by (metis disjoint_iff)

text \<open>What \<open>rememberTurns\<close> leaves in the map.\<close>

lemma written_turn:
  "map_get (foldl (\<lambda>m it. map_set (item_id it) k m) m its) i = (if i \<in> set (ids its) then Some k else map_get m i)"
  by (induction its arbitrary: m) (auto simp: ids_def)

lemma written_turns:
  "(\<forall>t \<in> set turns. i \<in> set (ids (itemsOfTurn t)) \<longrightarrow> tn_key t = k) \<Longrightarrow>
   map_get (foldl (\<lambda>m t. foldl (\<lambda>m it. map_set (item_id it) (tn_key t) m) m (itemsOfTurn t)) m turns) i =
     (if \<exists>t \<in> set turns. i \<in> set (ids (itemsOfTurn t)) then Some k else map_get m i)"
proof (induction turns arbitrary: m)
  case (Cons t turns)
  then show ?case by (simp add: written_turn)
qed simp

lemma deleted_keys:
  "map_get (foldl (\<lambda>m k. if k \<in> live then m else map_delete k m) m ks) i = (if i \<in> set ks \<and> i \<notin> live then None else map_get m i)"
  by (induction ks arbitrary: m) auto

lemma remembered:
  assumes "\<And>t. t \<in> set turns \<Longrightarrow> i \<in> set (ids (itemsOfTurn t)) \<Longrightarrow> tn_key t = k"
  shows "map_get (rememberTurns turns m) i = (if \<exists>t \<in> set turns. i \<in> set (ids (itemsOfTurn t)) then Some k else None)"
proof -
  let ?w = "foldl (\<lambda>m t. foldl (\<lambda>m it. map_set (item_id it) (tn_key t) m) m (itemsOfTurn t)) m turns"
  have w: "map_get ?w i = (if \<exists>t \<in> set turns. i \<in> set (ids (itemsOfTurn t)) then Some k else map_get m i)"
    using assms by (intro written_turns) blast
  let ?live = "set (concat (map (\<lambda>t. ids (itemsOfTurn t)) turns))"
  have keys: "i \<in> set (map_keys ?w) \<longleftrightarrow> map_get ?w i \<noteq> None" by (simp add: map_of_eq_None_iff)
  have live: "i \<in> ?live \<longleftrightarrow> (\<exists>t \<in> set turns. i \<in> set (ids (itemsOfTurn t)))" by auto
  have "map_get (rememberTurns turns m) i = (if i \<in> set (map_keys ?w) \<and> i \<notin> ?live then None else map_get ?w i)"
    unfolding rememberTurns_def Let_def by (rule deleted_keys)
  then show ?thesis unfolding keys live w by (auto simp del: not_None_eq)
qed

lemma held_key_const:
  assumes "\<And>it v. it \<in> set its \<Longrightarrow> map_get m (item_id it) = Some v \<Longrightarrow> v = k"
    and "\<exists>it \<in> set its. map_get m (item_id it) \<noteq> None"
  shows "held_key m its = Some k"
  using assms
proof (induction its)
  case (Cons it its)
  show ?case
  proof (cases "map_get m (item_id it)")
    case None
    then show ?thesis using Cons by auto
  next
    case (Some v)
    then show ?thesis using Cons.prems(1) [of it v] by simp
  qed
qed simp

lemma carried_items: "itemsOfTurn (t\<lparr>tn_key := k\<rparr>) = itemsOfTurn t"
  by (simp add: itemsOfTurn_def)

definition carry_one :: "(string, string) jsmap \<Rightarrow> turn \<Rightarrow> turn" where
  "carry_one m t = t\<lparr>tn_key := the_default (tn_key t) (held_key m (itemsOfTurn t))\<rparr>"

lemma carry_map: "carryTurnKeys turns m = map (carry_one m) turns"
  by (auto simp: carryTurnKeys_def carry_one_def split: option.split)

lemma turn_items:
  assumes "r \<in> set (runs items)"
  shows "set (itemsOfTurn (the (turnOf dp r))) \<subseteq> set r"
proof -
  have "r \<noteq> []" using runs_head [OF assms] by simp
  then obtain t where t: "turnOf dp r = Some t" by (cases r) (simp_all add: turnOf_def Let_def)
  then have "mset r = mset (itemsOfTurn t) + mset (filter (\<lambda>x. \<not> takes_part x) r)"
    by (rule turn_partition [OF \<open>r \<noteq> []\<close>])
  then have "set (itemsOfTurn t) \<subseteq> set r" by (metis mset_subset_eq_add_left set_mset_mono set_mset_mset)
  then show ?thesis using t by simp
qed

lemma carried_turn:
  assumes "s \<in> set (carryTurnKeys (turnsOf dp items) m)"
  obtains r where "r \<in> set (runs items)" and "s = carry_one m (the (turnOf dp r))" and "set (itemsOfTurn s) \<subseteq> set r"
  using assms turn_items by (auto simp: carry_map turnsOf_runs carry_one_def carried_items)

text \<open>
  A turn keeps its key while the transcript grows. Turns are rendered under carried keys and
  remembered; when the transcript then grows at its front, at its end or at both, every new turn that
  shares an item with a rendered one is rendered under the same key, also when the page in front
  reveals the turn's opening.
\<close>

lemma turn_keys_survive_growth:
  assumes "distinct (ids (older @ items @ newer))"
    and "old = carryTurnKeys (turnsOf dp items) before" and "m = rememberTurns old before'"
    and "new = carryTurnKeys (turnsOf dp (older @ items @ newer)) m"
    and "t \<in> set old" and "n \<in> set new"
    and "x \<in> set (itemsOfTurn t)" and "x \<in> set (itemsOfTurn n)"
  shows "tn_key n = tn_key t"
proof -
  let ?all = "older @ items @ newer"
  have distinct_all: "distinct ?all" using assms(1) unfolding ids_def by (simp only: distinct_map)
  then have grow: "grows items ?all"
    by (intro grows_trans [OF grows_append [of items newer] grows_prepend]) auto
  obtain r' where r': "r' \<in> set (runs ?all)" "n = carry_one m (the (turnOf dp r'))" "set (itemsOfTurn n) \<subseteq> set r'"
    using carried_turn assms(4,6) by blast
  obtain r where r: "r \<in> set (runs items)" "t = carry_one before (the (turnOf dp r))" "set (itemsOfTurn t) \<subseteq> set r"
    using carried_turn assms(2,5) by blast
  have x: "x \<in> set r' \<inter> set items" "x \<in> set r" using r' r run_subset [OF r(1)] assms(7,8) by blast+
  then obtain q where q: "q \<in> set (runs items)" "set r' \<inter> set items = set q" using grow r'(1) unfolding grows_def by blast
  have "q = r" using runs_disjoint [of items q r x] distinct_all q r x by auto
  have same_turn: "s = t" if s: "s \<in> set old" "y \<in> set (itemsOfTurn n)" "item_id y \<in> set (ids (itemsOfTurn s))" for s y
  proof -
    obtain r1 where r1: "r1 \<in> set (runs items)" "s = carry_one before (the (turnOf dp r1))" "set (itemsOfTurn s) \<subseteq> set r1"
      using carried_turn assms(2) s(1) by blast
    obtain z where z: "z \<in> set (itemsOfTurn s)" "item_id z = item_id y" using s(3) by (auto simp: ids_def)
    have "z \<in> set ?all" "y \<in> set ?all" using z(1) r1 run_subset [OF r1(1)] s(2) r'(3) run_subset [OF r'(1)] by auto
    then have "z = y" using distinct_ids_unique [OF assms(1)] z(2) by blast
    then have "y \<in> set q" using q(2) r'(3) s(2) z(1) r1 run_subset [OF r1(1)] by blast
    then have "r1 = r" using runs_disjoint [of items r1 r y] distinct_all r1 r z(1) \<open>z = y\<close> \<open>q = r\<close> by auto
    then show ?thesis using r1 r by simp
  qed
  have lookup: "map_get m (item_id y) = (if \<exists>s \<in> set old. item_id y \<in> set (ids (itemsOfTurn s)) then Some (tn_key t) else None)"
    if "y \<in> set (itemsOfTurn n)" for y
    unfolding assms(3) using same_turn that by (intro remembered) blast
  have "item_id x \<in> set (ids (itemsOfTurn t))" using assms(7) by (simp add: ids_def)
  then have "held_key m (itemsOfTurn n) = Some (tn_key t)"
    using lookup assms(5,8) by (intro held_key_const) (auto split: if_splits)
  then show ?thesis using r'(2) by (simp add: carry_one_def carried_items)
qed

definition demo_tool :: "string \<Rightarrow> item" where
  "demo_tool i = ToolItem i None None Succeeded []"

text \<open>A transcript that begins with a tool call, whose opening arrives with the older page.\<close>

section \<open>Rows\<close>

fun row_items :: "row \<Rightarrow> item list" where
  "row_items (ItemRow k it) = [it]"
| "row_items (ToolsRow k items summary) = items"

definition work_row :: "row \<Rightarrow> bool" where
  "work_row r \<longleftrightarrow> list_all is_tool (row_items r)"

fun row_ok :: "row \<Rightarrow> bool" where
  "row_ok (ItemRow k it) \<longleftrightarrow> k = item_id it"
| "row_ok (ToolsRow k items summary) \<longleftrightarrow> 2 \<le> length items \<and> list_all is_tool items
     \<and> k = ''tools:'' @ item_id (hd items) \<and> summary = summarizeTools items"

text \<open>No two neighbours are both work.\<close>

fun alternating :: "row list \<Rightarrow> bool" where
  "alternating [] \<longleftrightarrow> True"
| "alternating [r] \<longleftrightarrow> True"
| "alternating (r # s # rs) \<longleftrightarrow> \<not> (work_row r \<and> work_row s) \<and> alternating (s # rs)"

lemma alternating_snoc: "alternating (rs @ [r]) \<longleftrightarrow> alternating rs \<and> (rs = [] \<or> \<not> (work_row (last rs) \<and> work_row r))"
  by (induction rs rule: alternating.induct) auto

lemma flush_row_ok:
  assumes "list_all row_ok rows" and "alternating rows" and "list_all is_tool run"
    and "run = [] \<or> rows = [] \<or> \<not> work_row (last rows)"
  shows "list_all row_ok (flush_row run rows) \<and> alternating (flush_row run rows)
    \<and> concat (map row_items (flush_row run rows)) = concat (map row_items rows) @ run"
  using assms by (cases run; cases "tl run") (auto simp: flush_row_def alternating_snoc work_row_def)

lemma rows_loop_ok:
  "list_all row_ok rows \<Longrightarrow> alternating rows \<Longrightarrow> list_all is_tool run \<Longrightarrow> rows = [] \<or> \<not> work_row (last rows) \<Longrightarrow>
     list_all row_ok (rows_loop items run rows) \<and> alternating (rows_loop items run rows)
     \<and> concat (map row_items (rows_loop items run rows)) = concat (map row_items rows) @ run @ items"
proof (induction items arbitrary: run rows)
  case Nil
  then show ?case using flush_row_ok [of rows run] by simp
next
  case (Cons it items)
  show ?case
  proof (cases "is_tool it")
    case True
    then show ?thesis using Cons.prems Cons.IH [of rows "run @ [it]"] by simp
  next
    case False
    let ?rows = "flush_row run rows @ [ItemRow (item_id it) it]"
    have f: "list_all row_ok (flush_row run rows)" "alternating (flush_row run rows)"
      "concat (map row_items (flush_row run rows)) = concat (map row_items rows) @ run"
      using flush_row_ok [of rows run] Cons.prems by simp_all
    have "\<not> work_row (ItemRow (item_id it) it)" using False by (simp add: work_row_def)
    then have "list_all row_ok ?rows" "alternating ?rows" "\<not> work_row (last ?rows)"
      using f by (auto simp: alternating_snoc)
    then show ?thesis using Cons.IH [of ?rows "[]"] False f(3) by simp
  qed
qed

text \<open>
  C19. Grouping keeps the transcript and collapses all the work it may. The rows, opened, are the items in
  order; a group holds at least two calls and nothing but tool calls, is keyed by its first call and
  summarised from exactly its calls; every other item is its own row; and groups are maximal: two
  neighbouring rows are never both work.
\<close>

theorem group_rows_partition:
  "concat (map row_items (groupRows items)) = items
   \<and> list_all (\<lambda>r. case r of
        ItemRow k it \<Rightarrow> k = item_id it
      | ToolsRow k calls summary \<Rightarrow> 2 \<le> length calls \<and> list_all is_tool calls
          \<and> k = ''tools:'' @ item_id (hd calls) \<and> summary = summarizeTools calls) (groupRows items)
   \<and> alternating (groupRows items)"
proof -
  have "(case r of ItemRow k it \<Rightarrow> k = item_id it
      | ToolsRow k calls summary \<Rightarrow> 2 \<le> length calls \<and> list_all is_tool calls
          \<and> k = ''tools:'' @ item_id (hd calls) \<and> summary = summarizeTools calls) = row_ok r" for r
    by (cases r) simp_all
  then show ?thesis using rows_loop_ok [of "[]" "[]" items] by (simp add: groupRows_def)
qed

end
