(* ===== verification/Processes.thy ===== *)
theory Processes
  imports Nession_Prelude
begin

text \<open>
  The processes of a session as the web client shows them
  (\<^verbatim>\<open>web/src/product/agent/model/processSnapshot.ts\<close>): the flat lists the agent sends per pane, made
  unique, arranged as a forest along parent edges, walked from a selected process, and its metrics summed
  and printed.

  PIDs and start times are naturals; a sampled number is a rational, which a double is. The recursion of
  \<open>buildProcessTree\<close> carries fuel, and \<open>Processes_Laws\<close> proves that it never runs out.
  \<open>formatSnapshotTime\<close> prints in the viewer's locale and is not modelled.
\<close>

section \<open>The snapshot\<close>

datatype metric_state = Sampled | Unsupported | Denied | UnknownState | Stale | Unavailable

record process_metric =
  pm_value :: "rat option"
  pm_state :: metric_state
  pm_reason :: "string option"

record discovered_process =
  pr_pid :: nat
  pr_parent_pid :: "nat option"
  pr_start_time_ms :: "nat option"
  pr_executable :: jsstring
  pr_command :: jsstring
  pr_cpu_percent :: process_metric
  pr_rss_mib :: process_metric
  pr_threads :: process_metric
  pr_elapsed_ms :: process_metric
  pr_io_read_kib_per_s :: process_metric
  pr_io_write_kib_per_s :: process_metric

datatype discovery_method = Cgroup | ProcessTree | NoMethod

datatype coverage = Complete | Partial | NoCoverage

record pane_snapshot =
  pp_coverage :: coverage
  pp_reason_codes :: "string list"
  pp_processes :: "discovered_process list"

section \<open>Identity\<close>

definition processKey :: "discovered_process \<Rightarrow> string" where
  "processKey process =
     decimal (pr_pid process) @ '':'' @ (case pr_start_time_ms process of None \<Rightarrow> ''unknown'' | Some t \<Rightarrow> decimal t)"

text \<open>The code units \<open>trim\<close> removes: the white space and line terminators of ECMAScript.\<close>

definition white_space :: "code_unit \<Rightarrow> bool" where
  "white_space c \<longleftrightarrow> (let n = unat c in 9 \<le> n \<and> n \<le> 13 \<or> 0x2000 \<le> n \<and> n \<le> 0x200A
     \<or> n \<in> {0x20, 0xA0, 0x1680, 0x2028, 0x2029, 0x202F, 0x205F, 0x3000, 0xFEFF})"

definition trim :: "jsstring \<Rightarrow> jsstring" where
  "trim s = rev (dropWhile white_space (rev (dropWhile white_space s)))"

definition displayCommand :: "discovered_process \<Rightarrow> jsstring" where
  "displayCommand process =
     (if 0 < length (trim (pr_command process)) then pr_command process
      else if 0 < length (trim (pr_executable process)) \<and> pr_executable process \<noteq> js ''[unknown]'' then pr_executable process
      else js (''PID '' @ decimal (pr_pid process)))"

text \<open>Entering a process under its key unless the key is taken.\<close>

definition note_process :: "(string, discovered_process) jsmap \<Rightarrow> discovered_process \<Rightarrow> (string, discovered_process) jsmap" where
  "note_process unique process =
     (let key = processKey process in if map_has unique key then unique else map_set key process unique)"

definition sessionProcesses :: "pane_snapshot list \<Rightarrow> discovered_process list" where
  "sessionProcesses panes =
     sort_key pr_pid (map snd (foldl (\<lambda>unique pane. foldl note_process unique (pp_processes pane)) [] panes))"

section \<open>The forest\<close>

datatype process_node =
  ProcessNode (nd_process: discovered_process) (nd_depth: nat) (nd_children: "process_node list")

definition by_pid :: "discovered_process list \<Rightarrow> (nat, discovered_process) jsmap" where
  "by_pid processes =
     foldl (\<lambda>m p. if map_has m (pr_pid p) then m else map_set (pr_pid p) p m) [] processes"

definition observed_parent :: "(nat, discovered_process) jsmap \<Rightarrow> discovered_process \<Rightarrow> discovered_process option" where
  "observed_parent byPid process = (case pr_parent_pid process of
       None \<Rightarrow> None
     | Some parent \<Rightarrow> if parent \<noteq> pr_pid process then map_get byPid parent else None)"

text \<open>\<open>const siblings = childrenOf.get(key) ?? []; siblings.push(process); childrenOf.set(key, siblings)\<close>.\<close>

definition push_child :: "nat \<Rightarrow> discovered_process \<Rightarrow> (nat, discovered_process list) jsmap \<Rightarrow> (nat, discovered_process list) jsmap" where
  "push_child parent process childrenOf =
     map_set parent (the_default [] (map_get childrenOf parent) @ [process]) childrenOf"

definition place_process ::
  "(nat, discovered_process) jsmap \<Rightarrow> (nat, discovered_process list) jsmap \<times> discovered_process list \<Rightarrow> discovered_process
     \<Rightarrow> (nat, discovered_process list) jsmap \<times> discovered_process list" where
  "place_process byPid = (\<lambda>(childrenOf, roots) process.
     case observed_parent byPid process of
       Some parent \<Rightarrow> (push_child (pr_pid parent) process childrenOf, roots)
     | None \<Rightarrow> (childrenOf, roots @ [process]))"

fun build_node ::
    "nat \<Rightarrow> (nat, discovered_process list) jsmap \<Rightarrow> discovered_process \<Rightarrow> nat \<Rightarrow> nat set \<Rightarrow> (process_node \<times> nat set) option"
  and build_nodes ::
    "nat \<Rightarrow> (nat, discovered_process list) jsmap \<Rightarrow> discovered_process list \<Rightarrow> nat \<Rightarrow> nat set \<Rightarrow> (process_node list \<times> nat set) option"
where
  "build_node 0 childrenOf process depth seen = None"
| "build_node (Suc fuel) childrenOf process depth seen =
     (let seen' = insert (pr_pid process) seen;
          children = filter (\<lambda>child. pr_pid child \<notin> seen')
            (sort_key pr_pid (the_default [] (map_get childrenOf (pr_pid process))))
      in case build_nodes fuel childrenOf children (Suc depth) seen' of
           None \<Rightarrow> None
         | Some (nodes, seen'') \<Rightarrow> Some (ProcessNode process depth nodes, seen''))"
| "build_nodes fuel childrenOf [] depth seen = Some ([], seen)"
| "build_nodes fuel childrenOf (process # rest) depth seen =
     (case build_node fuel childrenOf process depth seen of
        None \<Rightarrow> None
      | Some (node, seen') \<Rightarrow>
          (case build_nodes fuel childrenOf rest depth seen' of
             None \<Rightarrow> None
           | Some (nodes, seen'') \<Rightarrow> Some (node # nodes, seen'')))"

text \<open>\<open>None\<close> would be a recursion deeper than the number of processes.\<close>

definition buildProcessTree :: "discovered_process list \<Rightarrow> process_node list option" where
  "buildProcessTree processes =
     (let byPid = by_pid processes;
          (childrenOf, roots) = foldl (place_process byPid) ([], []) (map snd byPid)
      in map_option fst (build_nodes (length processes) childrenOf (sort_key pr_pid roots) 0 {}))"

definition buildProcessForest :: "pane_snapshot list \<Rightarrow> process_node list option" where
  "buildProcessForest panes = buildProcessTree (sessionProcesses panes)"

section \<open>Discovery\<close>

definition sessionDiscovery :: "discovery_method list \<Rightarrow> pane_snapshot list \<Rightarrow> discovery_method list \<times> coverage \<times> string list" where
  "sessionDiscovery methods panes =
     ((if methods \<noteq> [] then methods else [NoMethod]),
      (if panes = [] \<or> list_all (\<lambda>pane. pp_coverage pane = NoCoverage) panes then NoCoverage
       else if list_all (\<lambda>pane. pp_coverage pane = Complete) panes then Complete else Partial),
      rev (remdups (rev (concat (map pp_reason_codes panes)))))"

section \<open>Descendants\<close>

text \<open>The loop that indexes the processes by parent; the second index \<open>byKey\<close> is never read.\<close>

definition children_index :: "discovered_process list \<Rightarrow> (nat, discovered_process list) jsmap" where
  "children_index processes = foldl (\<lambda>m p. case pr_parent_pid p of None \<Rightarrow> m | Some parent \<Rightarrow> push_child parent p m) [] processes"

lemma child_of_index: "child \<in> set (the_default [] (map_get childrenOf k)) \<Longrightarrow> child \<in> (\<Union>(_, cs) \<in> set childrenOf. set cs)"
  by (cases "map_get childrenOf k") (auto dest: map_of_SomeD)

function collect_loop ::
  "(nat, discovered_process list) jsmap \<Rightarrow> discovered_process list \<Rightarrow> string set \<Rightarrow> discovered_process list \<Rightarrow> discovered_process list"
where
  "collect_loop childrenOf [] seen result = result"
| "collect_loop childrenOf (current # queue) seen result =
     (if processKey current \<in> seen then collect_loop childrenOf queue seen result
      else collect_loop childrenOf
             (queue @ filter (\<lambda>child. processKey child \<notin> insert (processKey current) seen)
                        (the_default [] (map_get childrenOf (pr_pid current))))
             (insert (processKey current) seen) (result @ [current]))"
  by pat_completeness auto
termination
proof (relation "measures [\<lambda>(childrenOf, queue, seen, result).
      card (processKey ` (set queue \<union> (\<Union>(_, cs) \<in> set childrenOf. set cs)) - seen),
    \<lambda>(childrenOf, queue, seen, result). length queue]", goal_cases)
  case (2 childrenOf current queue seen result)
  let ?all = "\<Union>(_, cs) \<in> set childrenOf. set cs"
  have "processKey ` (set (current # queue) \<union> ?all) - seen = processKey ` (set queue \<union> ?all) - seen"
    using 2 by auto
  then show ?case by simp
next
  case (3 childrenOf current queue seen result)
  let ?all = "\<Union>(_, cs) \<in> set childrenOf. set cs"
  let ?new = "filter (\<lambda>child. processKey child \<notin> insert (processKey current) seen)
    (the_default [] (map_get childrenOf (pr_pid current)))"
  have "set ?new \<subseteq> ?all" using child_of_index by auto
  then have "processKey ` (set (queue @ ?new) \<union> ?all) - insert (processKey current) seen
      \<subset> processKey ` (set (current # queue) \<union> ?all) - seen"
    using 3 by auto
  then have "card (processKey ` (set (queue @ ?new) \<union> ?all) - insert (processKey current) seen)
      < card (processKey ` (set (current # queue) \<union> ?all) - seen)"
    by (rule psubset_card_mono [rotated]) (rule finite_Diff, rule finite_imageI, simp add: case_prod_unfold)
  then show ?case by simp
qed simp

definition collectDescendants :: "discovered_process \<Rightarrow> discovered_process list \<Rightarrow> discovered_process list" where
  "collectDescendants selected processes = collect_loop (children_index processes) [selected] {} []"

section \<open>Metrics\<close>

record aggregate_metric =
  ag_state :: metric_state
  ag_value :: "rat option"
  ag_reason :: "string option"

fun aggregate_loop :: "(discovered_process \<Rightarrow> process_metric) \<Rightarrow> discovered_process list \<Rightarrow> rat \<Rightarrow> aggregate_metric" where
  "aggregate_loop metricOf [] acc = \<lparr>ag_state = Sampled, ag_value = Some acc, ag_reason = None\<rparr>"
| "aggregate_loop metricOf (process # rest) acc =
     (let metric = metricOf process in
      if pm_state metric \<noteq> Sampled \<or> pm_value metric = None
      then \<lparr>ag_state = (if pm_state metric = Sampled then Unavailable else pm_state metric), ag_value = None,
             ag_reason = Some (the_default ''subtree_incomplete'' (pm_reason metric))\<rparr>
      else aggregate_loop metricOf rest (acc + the (pm_value metric)))"

definition aggregateMetric :: "discovered_process list \<Rightarrow> (discovered_process \<Rightarrow> process_metric) \<Rightarrow> aggregate_metric" where
  "aggregateMetric processes metricOf =
     (if processes = [] then \<lparr>ag_state = Unavailable, ag_value = None, ag_reason = Some ''empty_scope''\<rparr>
      else aggregate_loop metricOf processes 0)"

text \<open>\<open>Math.round\<close> and \<open>toFixed\<close> below \<open>10 ^ 21\<close>.\<close>

definition math_round :: "rat \<Rightarrow> int" where
  "math_round x = \<lfloor>x + 1 / 2\<rfloor>"

definition int_string :: "int \<Rightarrow> string" where
  "int_string n = (if n < 0 then ''-'' else []) @ decimal (nat \<bar>n\<bar>)"

definition pad_zeros :: "nat \<Rightarrow> string \<Rightarrow> string" where
  "pad_zeros n s = replicate (n - length s) (CHR ''0'') @ s"

definition to_fixed :: "nat \<Rightarrow> rat \<Rightarrow> string" where
  "to_fixed digits x =
     (let n = nat \<lfloor>\<bar>x\<bar> * 10 ^ digits + 1 / 2\<rfloor>
      in (if x < 0 then ''-'' else []) @ decimal (n div 10 ^ digits)
         @ (if digits = 0 then [] else ''.'' @ pad_zeros digits (decimal (n mod 10 ^ digits))))"

record display_metric =
  di_text :: string
  di_unavailable :: bool
  di_detail :: "string option"

fun state_name :: "metric_state \<Rightarrow> string" where
  "state_name Sampled = ''sampled''"
| "state_name Unsupported = ''unsupported''"
| "state_name Denied = ''denied''"
| "state_name UnknownState = ''unknown''"
| "state_name Stale = ''stale''"
| "state_name Unavailable = ''unavailable''"

text \<open>The two printers, \<open>displayMetric\<close> and \<open>displayAggregate\<close>, have one body; an empty reason is no reason.\<close>

definition display_value :: "metric_state \<Rightarrow> rat option \<Rightarrow> string option \<Rightarrow> string \<Rightarrow> nat \<Rightarrow> display_metric" where
  "display_value state val reason unit_text digits =
     (if state = Sampled \<and> val \<noteq> None
      then \<lparr>di_text = (if digits = 0 then int_string (math_round (the val)) else to_fixed digits (the val)) @ unit_text,
             di_unavailable = False, di_detail = None\<rparr>
      else \<lparr>di_text = ''Unavailable'', di_unavailable = True,
             di_detail = Some (state_name state @ (if the_default [] reason \<noteq> [] then '': '' @ the reason else []))\<rparr>)"

definition displayMetric :: "process_metric \<Rightarrow> string \<Rightarrow> nat \<Rightarrow> display_metric" where
  "displayMetric metric unit_text digits = display_value (pm_state metric) (pm_value metric) (pm_reason metric) unit_text digits"

definition displayAggregate :: "aggregate_metric \<Rightarrow> string \<Rightarrow> nat \<Rightarrow> display_metric" where
  "displayAggregate metric unit_text digits = display_value (ag_state metric) (ag_value metric) (ag_reason metric) unit_text digits"

definition formatElapsed :: "rat \<Rightarrow> string" where
  "formatElapsed milliseconds =
     (let seconds = nat (max 0 \<lfloor>milliseconds / 1000\<rfloor>); minutes = seconds div 60; hours = minutes div 60; days = hours div 24
      in if seconds < 1 then ''<1s''
         else if seconds < 60 then decimal seconds @ ''s''
         else if minutes < 60 then
           (if seconds mod 60 = 0 then decimal minutes @ ''m'' else decimal minutes @ ''m '' @ decimal (seconds mod 60) @ ''s'')
         else if hours < 24 then
           (if minutes mod 60 = 0 then decimal hours @ ''h'' else decimal hours @ ''h '' @ decimal (minutes mod 60) @ ''m'')
         else
           (if hours mod 24 = 0 then decimal days @ ''d'' else decimal days @ ''d '' @ decimal (hours mod 24) @ ''h''))"

section \<open>Labels\<close>

text \<open>Indexing the record of labels; names every JavaScript object inherits, such as \<open>constructor\<close>, are no reason codes.\<close>

fun methodLabel :: "discovery_method \<Rightarrow> string" where
  "methodLabel Cgroup = ''Dedicated cgroup''"
| "methodLabel ProcessTree = ''Process tree''"
| "methodLabel NoMethod = ''Unavailable''"

fun coverageLabel :: "coverage \<Rightarrow> string" where
  "coverageLabel Complete = ''Complete''"
| "coverageLabel Partial = ''Partial''"
| "coverageLabel NoCoverage = ''Unavailable''"

definition REASON_LABELS :: "(string, string) jsmap" where
  "REASON_LABELS = [
    (''no_dedicated_cgroup'', ''No verified per-pane cgroup; using the process tree.''),
    (''platform_without_dedicated_cgroup'', ''This platform has no per-pane cgroup; using the process tree.''),
    (''cgroup_unavailable'', ''The cgroup filesystem is not available; using the process tree.''),
    (''cgroup_unreadable'', ''The cgroup could not be read; using the process tree.''),
    (''cgroup_v1_unsupported'', ''cgroup v1 is not supported for dedicated-scope discovery; using the process tree.''),
    (''shared_cgroup'', ''The cgroup is shared, not dedicated to this pane; using the process tree.''),
    (''cgroup_pane_pid_missing'', ''The cgroup does not contain the pane root; using the process tree.''),
    (''pane_process_missing'', ''The pane's root process is missing, so membership cannot be established.''),
    (''process_table_unavailable'', ''The process table could not be read on this Agent.''),
    (''process_limit_reached'', ''The snapshot hit a process or depth bound.''),
    (''process_outside_cgroup'', ''A descendant left the dedicated cgroup; membership is partial.''),
    (''sid_tty_association'', ''SID/TTY association is lower-confidence evidence, not proof of membership.'')]"

definition reasonLabel :: "string \<Rightarrow> string" where
  "reasonLabel reason = the_default reason (map_get REASON_LABELS reason)"

end
