(* ===== verification/Processes_Laws.thy ===== *)
theory Processes_Laws
  imports Processes
begin

text \<open>
  Correctness of the process views: the keys are identities, the walk from a selected process is
  exactly reachability along parent edges, the forest holds every process that hangs from a root once and
  in order, and an aggregate is either the sum of what every member sampled or the first gap.
\<close>

section \<open>Keys\<close>

lemma colon_not_decimal: "CHR '':'' \<notin> set (decimal n)"
  using decimal_digits [of "CHR '':''" n] by auto

lemma split_at_colon:
  assumes "a @ CHR '':'' # b = c @ CHR '':'' # d" and "CHR '':'' \<notin> set a" and "CHR '':'' \<notin> set c"
  shows "a = c \<and> b = d"
proof -
  have tw: "takeWhile (\<lambda>x. x \<noteq> CHR '':'') (u @ CHR '':'' # v) = u" if "CHR '':'' \<notin> set u" for u v
    using that by (subst takeWhile_append2) auto
  have "a = c" using tw [OF assms(2), of b] tw [OF assms(3), of d] assms(1) by simp
  then show ?thesis using assms(1) by simp
qed

lemma unknown_not_decimal: "decimal n \<noteq> ''unknown''"
proof
  assume "decimal n = ''unknown''"
  then have "CHR ''u'' \<in> set (decimal n)" by simp
  from decimal_digits [OF this] show False by simp
qed

text \<open>A key determines the PID and the start time.\<close>

lemma processKey_identity:
  "processKey p = processKey q \<longleftrightarrow> pr_pid p = pr_pid q \<and> pr_start_time_ms p = pr_start_time_ms q"
proof
  assume eq: "processKey p = processKey q"
  let ?start = "\<lambda>r. case pr_start_time_ms r of None \<Rightarrow> ''unknown'' | Some t \<Rightarrow> decimal t"
  have "decimal (pr_pid p) = decimal (pr_pid q) \<and> ?start p = ?start q"
    using eq colon_not_decimal by (intro split_at_colon) (simp_all add: processKey_def)
  then show "pr_pid p = pr_pid q \<and> pr_start_time_ms p = pr_start_time_ms q"
    by (auto simp: unknown_not_decimal unknown_not_decimal [symmetric] split: option.splits)
qed (simp add: processKey_def)

section \<open>Children by parent\<close>

lemma pushed_child:
  "the_default [] (map_get (push_child k p m) j) = (if j = k then the_default [] (map_get m k) @ [p] else the_default [] (map_get m j))"
  by (simp add: push_child_def)

lemma indexed_children:
  "the_default [] (map_get (foldl (\<lambda>m p. case pr_parent_pid p of None \<Rightarrow> m | Some parent \<Rightarrow> push_child parent p m) m ps) k)
    = the_default [] (map_get m k) @ filter (\<lambda>p. pr_parent_pid p = Some k) ps"
proof (induction ps arbitrary: m)
  case (Cons p ps)
  then show ?case by (cases "pr_parent_pid p") (simp_all add: pushed_child)
qed simp

lemma children_of: "the_default [] (map_get (children_index ps) k) = filter (\<lambda>p. pr_parent_pid p = Some k) ps"
  using indexed_children [of "[]" ps k] by (simp add: children_index_def)

section \<open>Descendants\<close>

inductive descends :: "discovered_process list \<Rightarrow> discovered_process \<Rightarrow> discovered_process \<Rightarrow> bool"
  for processes :: "discovered_process list" and selected :: discovered_process
where
  itself: "descends processes selected selected"
| child: "descends processes selected p \<Longrightarrow> c \<in> set processes \<Longrightarrow> pr_parent_pid c = Some (pr_pid p) \<Longrightarrow> descends processes selected c"

text \<open>What the loop has established when it holds \<open>queue\<close>, \<open>seen\<close> and \<open>result\<close>.\<close>

definition walking :: "discovered_process list \<Rightarrow> discovered_process \<Rightarrow> discovered_process list \<Rightarrow> string set \<Rightarrow> discovered_process list \<Rightarrow> bool" where
  "walking processes selected queue seen result \<longleftrightarrow>
     seen = processKey ` set result \<and> distinct (map processKey result) \<and> hd (result @ queue) = selected
     \<and> result @ queue \<noteq> [] \<and> (\<forall>p \<in> set (result @ queue). descends processes selected p)
     \<and> (\<forall>p \<in> set result. \<forall>c \<in> set processes. pr_parent_pid c = Some (pr_pid p)
          \<longrightarrow> processKey c \<in> processKey ` set (result @ queue))"

lemma walking_skip:
  assumes "walking processes selected (p # queue) seen result" and "processKey p \<in> seen"
  shows "walking processes selected queue seen result"
proof -
  obtain r where r: "r \<in> set result" "processKey r = processKey p" using assms by (auto simp: walking_def)
  then have "processKey ` set (result @ p # queue) = processKey ` set (result @ queue)" by (auto intro: rev_image_eqI)
  moreover have "hd (result @ queue) = hd (result @ p # queue)" "result @ queue \<noteq> []" using r(1) by (cases result; simp)+
  ultimately show ?thesis using assms(1) by (simp add: walking_def del: set_append append_is_Nil_conv) auto
qed

lemma walking_visit:
  assumes "walking processes selected (p # queue) seen result" and "processKey p \<notin> seen"
  shows "walking processes selected
    (queue @ filter (\<lambda>c. processKey c \<notin> insert (processKey p) seen) (filter (\<lambda>c. pr_parent_pid c = Some (pr_pid p)) processes))
    (insert (processKey p) seen) (result @ [p])"
proof -
  let ?new = "filter (\<lambda>c. processKey c \<notin> insert (processKey p) seen) (filter (\<lambda>c. pr_parent_pid c = Some (pr_pid p)) processes)"
  have covered: "processKey c \<in> processKey ` set ((result @ [p]) @ queue @ ?new)"
    if "q \<in> set (result @ [p])" "c \<in> set processes" "pr_parent_pid c = Some (pr_pid q)" for q c
  proof (cases "q \<in> set result")
    case True
    then have "processKey c \<in> processKey ` set (result @ p # queue)" using assms(1) that by (simp add: walking_def)
    then show ?thesis by auto
  next
    case False
    then have "q = p" using that(1) by simp
    then have "c \<in> set ?new \<or> processKey c \<in> insert (processKey p) (processKey ` set result)"
      using that assms(1) by (auto simp: walking_def)
    then show ?thesis by auto
  qed
  have p: "descends processes selected p" using assms(1) by (simp add: walking_def)
  have "descends processes selected c" if "c \<in> set ((result @ [p]) @ queue @ ?new)" for c
    using that assms(1) descends.child [OF p, of c] by (auto simp: walking_def)
  moreover have "hd ((result @ [p]) @ queue @ ?new) = selected" using assms(1) by (cases result) (simp_all add: walking_def)
  moreover have "insert (processKey p) seen = processKey ` set (result @ [p])" "distinct (map processKey (result @ [p]))"
    using assms by (auto simp: walking_def)
  moreover have "(result @ [p]) @ queue @ ?new \<noteq> []" by simp
  ultimately show ?thesis using covered unfolding walking_def by blast
qed

lemma walk_end:
  "walking processes selected queue seen result \<Longrightarrow>
   \<exists>seen'. walking processes selected [] seen' (collect_loop (children_index processes) queue seen result)"
proof (induction "children_index processes" queue seen result rule: collect_loop.induct)
  case (2 current queue seen result)
  then show ?case
    using walking_skip [of processes selected current queue seen result]
      walking_visit [of processes selected current queue seen result]
    by (auto simp: children_of)
qed auto

text \<open>
  C20. The scope of a selected process is its descendants and nothing else. The walk ends on every input,
  cyclic and duplicated parent edges included; it returns the selected process first, no identity
  (PID and start time) twice, only processes of the session, and exactly the identities that parent
  edges reach from the selected one.
\<close>

theorem descendants_are_reachable:
  "hd (collectDescendants selected processes) = selected
   \<and> distinct (map processKey (collectDescendants selected processes))
   \<and> set (collectDescendants selected processes) \<subseteq> Collect (descends processes selected)
   \<and> processKey ` set (collectDescendants selected processes) = processKey ` Collect (descends processes selected)"
proof -
  let ?R = "collectDescendants selected processes"
  have "walking processes selected [selected] {} []" by (auto simp: walking_def intro: descends.itself)
  then obtain seen where walked: "walking processes selected [] seen ?R"
    unfolding collectDescendants_def using walk_end by blast
  have reached: "processKey p \<in> processKey ` set ?R" if "descends processes selected p" for p
    using that
  proof induction
    case itself
    from walked have "?R \<noteq> []" "hd ?R = selected" by (simp_all add: walking_def)
    then show ?case using hd_in_set [of ?R] by simp
  next
    case (child p c)
    then obtain q where "q \<in> set ?R" "processKey p = processKey q" by auto
    then show ?case using child walked by (auto simp: walking_def processKey_identity)
  qed
  have "processKey ` Collect (descends processes selected) \<subseteq> processKey ` set ?R" using reached by blast
  then show ?thesis using walked by (auto simp: walking_def)
qed

section \<open>Building nodes\<close>

fun processes_of :: "process_node \<Rightarrow> discovered_process list" where
  "processes_of (ProcessNode p depth nodes) = p # concat (map processes_of nodes)"

text \<open>A node's children name it as their parent, are one level deeper and are in the order of their PIDs.\<close>

fun well_shaped :: "process_node \<Rightarrow> bool" where
  "well_shaped (ProcessNode p depth nodes) \<longleftrightarrow>
     list_all (\<lambda>n. pr_parent_pid (nd_process n) = Some (pr_pid p) \<and> nd_depth n = Suc depth \<and> well_shaped n) nodes
     \<and> sorted_wrt (<) (map (pr_pid \<circ> nd_process) nodes)"

abbreviation shown :: "process_node list \<Rightarrow> discovered_process list" where
  "shown nodes \<equiv> concat (map processes_of nodes)"

lemma head_shown: "nd_process n \<in> set (processes_of n)"
  by (cases n) simp

text \<open>
  An index of children: every member is indexed under the parent it has, if it has one. A member has
  one parent at most, which is what keeps subtrees apart.
\<close>

locale parent_index =
  fixes childrenOf :: "(nat, discovered_process list) jsmap"
    and members :: "discovered_process set"
    and parent :: "discovered_process \<Rightarrow> nat option"
  assumes finite_members: "finite members"
    and unique_pid: "p \<in> members \<Longrightarrow> q \<in> members \<Longrightarrow> pr_pid p = pr_pid q \<Longrightarrow> p = q"
    and indexed: "set (the_default [] (map_get childrenOf k)) = {c \<in> members. parent c = Some k}"
    and indexed_once: "distinct (the_default [] (map_get childrenOf k))"
    and stated: "parent c = Some k \<Longrightarrow> pr_parent_pid c = Some k"
begin

definition built :: "discovered_process list \<Rightarrow> nat \<Rightarrow> nat set \<Rightarrow> process_node list \<Rightarrow> nat set \<Rightarrow> bool" where
  "built cs depth seen nodes seen' \<longleftrightarrow>
     map nd_process nodes = cs \<and> list_all (\<lambda>n. nd_depth n = depth \<and> well_shaped n) nodes
     \<and> distinct (shown nodes) \<and> set (shown nodes) \<subseteq> members \<and> pr_pid ` set (shown nodes) \<inter> seen = {}
     \<and> seen' = seen \<union> pr_pid ` set (shown nodes)
     \<and> (\<forall>x \<in> set (shown nodes). x \<in> set cs \<or> (\<exists>y \<in> set (shown nodes). parent x = Some (pr_pid y)))
     \<and> (\<forall>x \<in> set (shown nodes). \<forall>c \<in> members. parent c = Some (pr_pid x) \<longrightarrow> c \<in> set (shown nodes) \<or> pr_pid c \<in> seen)"

text \<open>The processes handed to \<open>build_nodes\<close>: siblings of a visited parent, or roots, none visited yet.\<close>

definition ready :: "discovered_process list \<Rightarrow> nat set \<Rightarrow> bool" where
  "ready cs seen \<longleftrightarrow> set cs \<subseteq> members \<and> distinct cs \<and>
     (\<forall>c \<in> set cs. pr_pid c \<notin> seen \<and> (case parent c of None \<Rightarrow> True | Some k \<Rightarrow> k \<in> seen))"

lemma built_closed:
  "built cs depth seen nodes seen' \<Longrightarrow> x \<in> set (shown nodes) \<Longrightarrow> c \<in> members \<Longrightarrow> parent c = Some (pr_pid x) \<Longrightarrow>
     c \<in> set (shown nodes) \<or> pr_pid c \<in> seen"
  unfolding built_def by blast

lemma built_parents:
  "built cs depth seen nodes seen' \<Longrightarrow> x \<in> set (shown nodes) \<Longrightarrow>
     x \<in> set cs \<or> (\<exists>y \<in> set (shown nodes). parent x = Some (pr_pid y))"
  unfolding built_def by blast

lemma unvisited_siblings:
  assumes "ready (c # cs) seen" and "built [c] depth seen [n] seen'"
  shows "ready cs seen'"
proof -
  have "pr_pid d \<notin> seen'" if d: "d \<in> set cs" for d
  proof
    assume "pr_pid d \<in> seen'"
    then obtain x where x: "x \<in> set (processes_of n)" "pr_pid x = pr_pid d"
      using assms d by (auto simp: built_def ready_def)
    have "x = d" using x assms d by (intro unique_pid) (auto simp: built_def ready_def)
    then obtain y where "y \<in> set (processes_of n)" "parent d = Some (pr_pid y)"
      using x assms d by (auto simp: built_def ready_def)
    then show False using assms d by (fastforce simp: built_def ready_def)
  qed
  then show ?thesis using assms by (fastforce simp: ready_def built_def split: option.splits)
qed

lemma built_cons:
  assumes "built [c] depth seen [n] seen1" and "built cs depth seen1 ns seen2"
  shows "built (c # cs) depth seen (n # ns) seen2"
proof -
  have "pr_pid ` set (shown ns) \<inter> seen1 = {}" "pr_pid ` set (processes_of n) \<subseteq> seen1"
    using assms unfolding built_def by auto
  then have apart: "set (processes_of n) \<inter> set (shown ns) = {}" by blast
  have closed: "d \<in> set (shown (n # ns)) \<or> pr_pid d \<in> seen"
    if d: "d \<in> members" "parent d = Some (pr_pid x)" and x: "x \<in> set (shown (n # ns))" for d x
  proof (cases "x \<in> set (processes_of n)")
    case True
    then show ?thesis using built_closed [OF assms(1) _ d] by auto
  next
    case False
    then have "d \<in> set (shown ns) \<or> pr_pid d \<in> seen1" using built_closed [OF assms(2) _ d] x by simp
    moreover have "d \<in> set (processes_of n)" if "pr_pid d = pr_pid y" "y \<in> set (processes_of n)" for y
      using that assms(1) unique_pid [OF d(1), of y] by (auto simp: built_def)
    ultimately show ?thesis using assms(1) by (auto simp: built_def)
  qed
  have "x \<in> set (c # cs) \<or> (\<exists>y \<in> set (shown (n # ns)). parent x = Some (pr_pid y))" if "x \<in> set (shown (n # ns))" for x
    using that built_parents [OF assms(1), of x] built_parents [OF assms(2), of x] by auto
  moreover have "pr_pid ` set (shown (n # ns)) \<inter> seen = {}" "seen2 = seen \<union> pr_pid ` set (shown (n # ns))"
    using assms unfolding built_def by (simp_all add: Int_Un_distrib Int_Un_distrib2 image_Un Un_assoc)
  moreover have "map nd_process (n # ns) = c # cs" "list_all (\<lambda>m. nd_depth m = depth \<and> well_shaped m) (n # ns)"
    "distinct (shown (n # ns))" "set (shown (n # ns)) \<subseteq> members"
    using assms apart by (simp_all add: built_def)
  ultimately show ?thesis using closed unfolding built_def by blast
qed

lemma remaining_less:
  assumes "p \<in> members" and "pr_pid p \<notin> seen" and "card (pr_pid ` members - seen) \<le> Suc fuel"
  shows "card (pr_pid ` members - insert (pr_pid p) seen) \<le> fuel"
proof -
  have "card (pr_pid ` members - insert (pr_pid p) seen) < card (pr_pid ` members - seen)"
    using assms(1,2) finite_members by (intro psubset_card_mono) auto
  then show ?thesis using assms(3) by simp
qed

lemma ready_children:
  "ready (filter (\<lambda>c. pr_pid c \<notin> insert (pr_pid p) seen) (sort_key pr_pid (the_default [] (map_get childrenOf (pr_pid p)))))
     (insert (pr_pid p) seen)"
  by (auto simp: ready_def indexed indexed_once)

lemma sorted_siblings:
  assumes "set cs \<subseteq> members" and "distinct cs"
  shows "sorted_wrt (<) (map pr_pid (filter P (sort_key pr_pid cs)))"
proof -
  have "inj_on pr_pid (set cs)" using assms(1) unique_pid by (auto intro!: inj_onI)
  then show ?thesis using assms(2)
    by (auto simp: strict_sorted_iff distinct_map intro: sorted_filter [OF sorted_sort_key] inj_on_subset)
qed

lemma built_node:
  assumes p: "p \<in> members" "pr_pid p \<notin> seen"
    and cs: "cs = filter (\<lambda>c. pr_pid c \<notin> insert (pr_pid p) seen) (sort_key pr_pid (the_default [] (map_get childrenOf (pr_pid p))))"
    and built: "built cs (Suc depth) (insert (pr_pid p) seen) ns seen'"
  shows "built [p] depth seen [ProcessNode p depth ns] seen'"
proof -
  have shape: "map nd_process ns = cs" "list_all (\<lambda>n. nd_depth n = Suc depth \<and> well_shaped n) ns"
    using built by (auto simp: built_def)
  have child: "nd_process n \<in> set cs" if "n \<in> set ns" for n using shape(1) that by auto
  have "sorted_wrt (<) (map (pr_pid \<circ> nd_process) ns)"
    using sorted_siblings [of "the_default [] (map_get childrenOf (pr_pid p))"] shape(1) cs indexed indexed_once
    by (metis (no_types, lifting) list.map_comp mem_Collect_eq subsetI)
  moreover have "list_all (\<lambda>n. pr_parent_pid (nd_process n) = Some (pr_pid p)) ns"
    using child cs indexed stated by (fastforce simp: list_all_iff)
  ultimately have ok: "well_shaped (ProcessNode p depth ns)" using shape(2) by (auto simp: list_all_iff)
  have parents: "parent c = Some (pr_pid p)" if "c \<in> set cs" for c using that cs indexed by auto
  have closed: "c \<in> insert p (set (shown ns)) \<or> pr_pid c \<in> seen"
    if c: "c \<in> members" "parent c = Some (pr_pid x)" and x: "x \<in> insert p (set (shown ns))" for c x
  proof (cases "pr_pid c \<in> insert (pr_pid p) seen")
    case True
    then show ?thesis using unique_pid [OF c(1) p(1)] by auto
  next
    case False
    show ?thesis
    proof (cases "x = p")
      case True
      then have "c \<in> set cs" using c False cs indexed by auto
      then obtain n where "n \<in> set ns" "nd_process n = c" using shape(1) by auto
      then show ?thesis using head_shown by fastforce
    next
      case x': False
      then have "x \<in> set (shown ns)" using x by simp
      then show ?thesis using built_closed [OF built _ c] False by blast
    qed
  qed
  have "p \<notin> set (shown ns)" "pr_pid ` set (shown ns) \<inter> seen = {}" "seen' = seen \<union> pr_pid ` insert p (set (shown ns))"
    "distinct (shown ns)" "set (shown ns) \<subseteq> members"
    using built by (auto simp: built_def)
  moreover have "x = p \<or> (\<exists>y \<in> insert p (set (shown ns)). parent x = Some (pr_pid y))" if "x \<in> insert p (set (shown ns))" for x
    using that built_parents [OF built, of x] parents by auto
  ultimately show ?thesis using p ok closed by (auto simp: built_def)
qed

lemma build_ok:
  "m = childrenOf \<Longrightarrow> p \<in> members \<Longrightarrow> pr_pid p \<notin> seen \<Longrightarrow> card (pr_pid ` members - seen) \<le> fuel \<Longrightarrow>
     \<exists>n seen'. build_node fuel m p depth seen = Some (n, seen') \<and> built [p] depth seen [n] seen'"
  "m = childrenOf \<Longrightarrow> ready cs seen \<Longrightarrow> card (pr_pid ` members - seen) \<le> fuel \<Longrightarrow>
     \<exists>ns seen'. build_nodes fuel m cs depth seen = Some (ns, seen') \<and> built cs depth seen ns seen'"
proof (induction fuel m p depth seen and fuel m cs depth seen rule: build_node_build_nodes.induct)
  case (1 m process depth seen)
  then have "pr_pid process \<in> pr_pid ` members - seen" by blast
  then show ?case using 1 finite_members by (auto simp: card_eq_0_iff)
next
  case (2 fuel m process depth seen)
  let ?cs = "filter (\<lambda>c. pr_pid c \<notin> insert (pr_pid process) seen)
    (sort_key pr_pid (the_default [] (map_get childrenOf (pr_pid process))))"
  obtain ns seen' where "build_nodes fuel childrenOf ?cs (Suc depth) (insert (pr_pid process) seen) = Some (ns, seen')"
    "built ?cs (Suc depth) (insert (pr_pid process) seen) ns seen'"
    using 2(1) [OF refl refl 2(2)] 2(2) ready_children remaining_less [OF 2(3-5)] by blast
  then show ?case using built_node [OF 2(3,4) refl] 2(2) by (auto simp: Let_def)
next
  case (3 fuel m depth seen)
  then show ?case by (simp add: built_def)
next
  case (4 fuel m process rest depth seen)
  from 4(4) have "process \<in> members" "pr_pid process \<notin> seen" by (auto simp: ready_def)
  with 4(1) [OF 4(3)] 4(5) obtain n seen1 where n: "build_node fuel m process depth seen = Some (n, seen1)"
    "built [process] depth seen [n] seen1" by blast
  have "card (pr_pid ` members - seen1) \<le> card (pr_pid ` members - seen)"
    using n(2) finite_members by (intro card_mono) (auto simp: built_def)
  with 4(5) have "card (pr_pid ` members - seen1) \<le> fuel" by simp
  with 4(2) [OF n(1) refl 4(3)] unvisited_siblings [OF 4(4) n(2)] obtain ns seen2
    where "build_nodes fuel m rest depth seen1 = Some (ns, seen2)" "built rest depth seen1 ns seen2" by blast
  then show ?case using n built_cons by auto
qed

end

section \<open>The forest of a process set\<close>

text \<open>The processes a tree shows: the first of each PID. A parent is one of them, and not the process itself.\<close>

definition first_of_pid :: "discovered_process list \<Rightarrow> nat \<Rightarrow> discovered_process option" where
  "first_of_pid processes pid = find (\<lambda>p. pr_pid p = pid) processes"

definition listed :: "discovered_process list \<Rightarrow> discovered_process set" where
  "listed processes = {p \<in> set processes. first_of_pid processes (pr_pid p) = Some p}"

definition parent_of :: "discovered_process list \<Rightarrow> discovered_process \<Rightarrow> discovered_process option" where
  "parent_of processes p = (case pr_parent_pid p of
       None \<Rightarrow> None | Some pid \<Rightarrow> if pid = pr_pid p then None else first_of_pid processes pid)"

inductive anchored :: "discovered_process list \<Rightarrow> discovered_process \<Rightarrow> bool"
  for processes :: "discovered_process list"
where
  root: "p \<in> listed processes \<Longrightarrow> parent_of processes p = None \<Longrightarrow> anchored processes p"
| child: "anchored processes p \<Longrightarrow> c \<in> listed processes \<Longrightarrow> parent_of processes c = Some p \<Longrightarrow> anchored processes c"

lemma first_of_pid_SomeD: "first_of_pid processes k = Some p \<Longrightarrow> p \<in> listed processes \<and> pr_pid p = k"
  by (auto simp: listed_def first_of_pid_def find_Some_iff)

lemma parent_of_listed: "parent_of processes p = Some q \<Longrightarrow> q \<in> listed processes \<and> pr_parent_pid p = Some (pr_pid q)"
  by (auto simp: parent_of_def split: option.splits if_splits dest: first_of_pid_SomeD)

lemma listed_unique: "p \<in> listed processes \<Longrightarrow> q \<in> listed processes \<Longrightarrow> pr_pid p = pr_pid q \<Longrightarrow> p = q"
  by (simp add: listed_def)

lemma by_pid_ok: "wf_map (by_pid processes) \<and> map_get (by_pid processes) = first_of_pid processes"
proof -
  let ?step = "\<lambda>m p. if map_has m (pr_pid p) then m else map_set (pr_pid p) p m"
  have "wf_map m \<Longrightarrow> wf_map (foldl ?step m ps) \<and>
      map_get (foldl ?step m ps) k = (case map_get m k of None \<Rightarrow> first_of_pid ps k | Some p \<Rightarrow> Some p)" for m ps k
    by (induction ps arbitrary: m) (auto simp: first_of_pid_def map_has_def split: option.splits)
  from this [of "[]" processes] show ?thesis by (auto simp: by_pid_def)
qed

lemma by_pid_entry: "(k, p) \<in> set (by_pid processes) \<longleftrightarrow> p \<in> listed processes \<and> pr_pid p = k"
proof -
  have "(k, p) \<in> set (by_pid processes) \<longleftrightarrow> first_of_pid processes k = Some p"
    using by_pid_ok [of processes] by (metis map_of_eq_Some_iff wf_map_def)
  also have "\<dots> \<longleftrightarrow> p \<in> listed processes \<and> pr_pid p = k"
    using first_of_pid_SomeD [of processes k p] by (auto simp: listed_def)
  finally show ?thesis .
qed

lemma listed_values: "set (map snd (by_pid processes)) = listed processes" "distinct (map snd (by_pid processes))"
proof -
  show "set (map snd (by_pid processes)) = listed processes"
    by (auto simp: by_pid_entry image_iff Bex_def)
  have "map pr_pid (map snd (by_pid processes)) = map fst (by_pid processes)"
    by (auto simp: by_pid_entry)
  then have "distinct (map pr_pid (map snd (by_pid processes)))"
    using by_pid_ok [of processes] unfolding wf_map_def by (simp only:)
  then show "distinct (map snd (by_pid processes))" by (simp only: distinct_map)
qed

lemma observed_parent_of: "observed_parent (by_pid processes) p = parent_of processes p"
  using by_pid_ok [of processes] by (auto simp: observed_parent_def parent_of_def split: option.splits)

definition placed :: "discovered_process list \<Rightarrow> (nat, discovered_process list) jsmap \<times> discovered_process list" where
  "placed processes = foldl (place_process (by_pid processes)) ([], []) (map snd (by_pid processes))"

lemma placed_ok:
  "the_default [] (map_get (fst (placed processes)) k)
     = filter (\<lambda>c. map_option pr_pid (parent_of processes c) = Some k) (map snd (by_pid processes))"
  "snd (placed processes) = filter (\<lambda>c. parent_of processes c = None) (map snd (by_pid processes))"
proof -
  let ?b = "by_pid processes"
  have "the_default [] (map_get (fst (foldl (place_process ?b) (m, rs) ps)) k)
      = the_default [] (map_get m k) @ filter (\<lambda>c. map_option pr_pid (observed_parent ?b c) = Some k) ps
    \<and> snd (foldl (place_process ?b) (m, rs) ps) = rs @ filter (\<lambda>c. observed_parent ?b c = None) ps" for m rs ps
  proof (induction ps arbitrary: m rs)
    case (Cons p ps)
    then show ?case by (cases "observed_parent ?b p") (simp_all add: place_process_def pushed_child)
  qed simp
  from this [of "[]" "[]" "map snd ?b"]
  show "the_default [] (map_get (fst (placed processes)) k)
      = filter (\<lambda>c. map_option pr_pid (parent_of processes c) = Some k) (map snd ?b)"
    "snd (placed processes) = filter (\<lambda>c. parent_of processes c = None) (map snd ?b)"
    by (simp_all add: placed_def observed_parent_of)
qed

interpretation index: parent_index "fst (placed processes)" "listed processes" "\<lambda>c. map_option pr_pid (parent_of processes c)"
  for processes
proof
  show "finite (listed processes)" by (simp add: listed_def)
  show "p = q" if "p \<in> listed processes" "q \<in> listed processes" "pr_pid p = pr_pid q" for p q
    using listed_unique that by blast
  show "set (the_default [] (map_get (fst (placed processes)) k)) = {c \<in> listed processes. map_option pr_pid (parent_of processes c) = Some k}" for k
    using listed_values(1) [of processes] by (auto simp: placed_ok)
  show "distinct (the_default [] (map_get (fst (placed processes)) k))" for k
    unfolding placed_ok by (rule distinct_filter [OF listed_values(2)])
  show "pr_parent_pid c = Some k" if "map_option pr_pid (parent_of processes c) = Some k" for c k
    using that parent_of_listed by auto
qed

text \<open>Everything in a well-shaped node hangs from its process.\<close>

lemma stated_parent_of:
  "c \<in> listed processes \<Longrightarrow> p \<in> listed processes \<Longrightarrow> c \<noteq> p \<Longrightarrow> pr_parent_pid c = Some (pr_pid p) \<Longrightarrow> parent_of processes c = Some p"
  using listed_unique [of c processes p] by (auto simp: parent_of_def listed_def)

lemma well_shaped_anchored:
  "well_shaped n \<Longrightarrow> distinct (processes_of n) \<Longrightarrow> set (processes_of n) \<subseteq> listed processes \<Longrightarrow>
     anchored processes (nd_process n) \<Longrightarrow> x \<in> set (processes_of n) \<Longrightarrow> anchored processes x"
proof (induction n arbitrary: x)
  case (ProcessNode p depth nodes)
  show ?case
  proof (cases "x = p")
    case True
    then show ?thesis using ProcessNode.prems(4) by simp
  next
    case False
    then obtain n where n: "n \<in> set nodes" "x \<in> set (processes_of n)" using ProcessNode.prems(5) by auto
    have "nd_process n \<noteq> p" using n ProcessNode.prems(2) head_shown [of n] by auto
    moreover have listed: "set (processes_of n) \<subseteq> listed processes" "p \<in> listed processes"
      using ProcessNode.prems(3) n(1) by auto
    moreover have shape: "pr_parent_pid (nd_process n) = Some (pr_pid p)" "well_shaped n" "distinct (processes_of n)"
      using ProcessNode.prems(1,2) n(1) by (auto simp: list_all_iff distinct_concat_iff)
    ultimately have "parent_of processes (nd_process n) = Some p"
      using head_shown [of n] by (intro stated_parent_of) auto
    then have "anchored processes (nd_process n)"
      using ProcessNode.prems(4) listed head_shown [of n] by (auto intro: anchored.child)
    then show ?thesis using ProcessNode.IH [OF n(1) shape(2,3) listed(1) _ n(2)] by simp
  qed
qed

lemma forest_members:
  assumes built: "index.built processes roots 0 {} forest seen"
    and roots: "set roots = {p \<in> listed processes. parent_of processes p = None}"
  shows "set (shown forest) = Collect (anchored processes)"
proof -
  have heads: "map nd_process forest = roots" and shape: "list_all (\<lambda>n. nd_depth n = 0 \<and> well_shaped n) forest"
    and once: "distinct (shown forest)" and inside: "set (shown forest) \<subseteq> listed processes"
    using built by (auto simp: index.built_def)
  have "x \<in> set (shown forest)" if "anchored processes x" for x
    using that
  proof induction
    case (root p)
    then have "p \<in> set (map nd_process forest)" using heads roots by simp
    then obtain n where "n \<in> set forest" "nd_process n = p" by auto
    then show ?case using head_shown [of n] by auto
  next
    case (child p c)
    then show ?case using index.built_closed [OF built, of p c] by simp
  qed
  moreover have "anchored processes x" if x: "x \<in> set (shown forest)" for x
  proof -
    obtain n where n: "n \<in> set forest" "x \<in> set (processes_of n)" using x by auto
    then have "nd_process n \<in> set roots" using heads by (metis image_eqI list.set_map)
    then have "anchored processes (nd_process n)" using roots by (auto intro: anchored.root)
    moreover have "well_shaped n" "distinct (processes_of n)" "set (processes_of n) \<subseteq> listed processes"
      using n(1) shape once inside by (auto simp: list_all_iff distinct_concat_iff)
    ultimately show ?thesis using well_shaped_anchored n(2) by blast
  qed
  ultimately show ?thesis by blast
qed

text \<open>
  C21. The forest is built on every input, malformed parent edges included, and shows each process once
  and where it belongs. For any process set the recursion ends within its bound; the forest's processes
  are, without repetition, exactly the first of each PID that hang from a root by observed parents; its
  roots are those without one; every child is below its parent; roots and siblings are in PID order.
  Processes on a parent cycle hang from no root and are shown nowhere, nor is a later process with a PID
  that was seen before (\<open>reused_pid_not_shown\<close>).
\<close>

theorem process_forest_complete:
  "\<exists>forest. buildProcessTree processes = Some forest
     \<and> distinct (map pr_pid (shown forest))
     \<and> set (shown forest) = Collect (anchored processes)
     \<and> nd_process ` set forest = {p \<in> listed processes. parent_of processes p = None}
     \<and> list_all (\<lambda>n. nd_depth n = 0 \<and> well_shaped n) forest
     \<and> sorted_wrt (<) (map (pr_pid \<circ> nd_process) forest)"
proof -
  let ?roots = "sort_key pr_pid (snd (placed processes))"
  have roots: "set ?roots = {p \<in> listed processes. parent_of processes p = None}" "distinct ?roots"
    using listed_values [of processes] by (auto simp: placed_ok)
  have "card (pr_pid ` listed processes) \<le> card (set processes)"
    by (rule le_trans [OF card_image_le card_mono]) (auto simp: listed_def)
  then have fuel: "card (pr_pid ` listed processes - {}) \<le> length processes"
    using card_length [of processes] by simp
  have "index.ready processes ?roots {}" using roots by (auto simp: index.ready_def)
  then obtain forest seen where forest: "build_nodes (length processes) (fst (placed processes)) ?roots 0 {} = Some (forest, seen)"
    and built: "index.built processes ?roots 0 {} forest seen"
    using index.build_ok(2) [OF refl _ fuel] by blast
  have heads: "map nd_process forest = ?roots" and shape: "list_all (\<lambda>n. nd_depth n = 0 \<and> well_shaped n) forest"
    and once: "distinct (shown forest)" and inside: "set (shown forest) \<subseteq> listed processes"
    using built by (auto simp: index.built_def)
  have "inj_on pr_pid (set (shown forest))"
    using inside listed_unique by (intro inj_onI) blast
  then have "distinct (map pr_pid (shown forest))" using once by (simp add: distinct_map)
  moreover have "set (shown forest) = Collect (anchored processes)" by (rule forest_members [OF built roots(1)])
  moreover have "nd_process ` set forest = set ?roots" using heads by (metis list.set_map)
  moreover have "sorted_wrt (<) (map (pr_pid \<circ> nd_process) forest)"
    using index.sorted_siblings [of "snd (placed processes)" processes "\<lambda>_. True"] roots heads by (simp flip: map_map)
  moreover have "buildProcessTree processes = Some forest"
    using forest by (simp add: buildProcessTree_def Let_def placed_def split_beta)
  ultimately show ?thesis using shape roots(1) by auto
qed

section \<open>Runs on small sets\<close>

definition demo_process :: "nat \<Rightarrow> nat option \<Rightarrow> nat \<Rightarrow> discovered_process" where
  "demo_process pid parent start =
     (let m = \<lparr>pm_value = None, pm_state = Unsupported, pm_reason = None\<rparr>
      in \<lparr>pr_pid = pid, pr_parent_pid = parent, pr_start_time_ms = Some start, pr_executable = [], pr_command = [],
          pr_cpu_percent = m, pr_rss_mib = m, pr_threads = m, pr_elapsed_ms = m, pr_io_read_kib_per_s = m,
          pr_io_write_kib_per_s = m\<rparr>)"

text \<open>
  A PID observed under two start times is two processes of the session, but the forest shows one; two
  processes that name each other as parents are shown nowhere.
\<close>

lemma reused_pid_not_shown:
  "length (sessionProcesses [\<lparr>pp_coverage = Complete, pp_reason_codes = [], pp_processes = [demo_process 7 None 1, demo_process 7 None 2]\<rparr>]) = 2
   \<and> buildProcessForest [\<lparr>pp_coverage = Complete, pp_reason_codes = [], pp_processes = [demo_process 7 None 1, demo_process 7 None 2]\<rparr>]
     = Some [ProcessNode (demo_process 7 None 1) 0 []]"
  by code_simp

lemma parent_cycle_not_shown: "buildProcessTree [demo_process 7 (Some 8) 1, demo_process 8 (Some 7) 1] = Some []"
  by code_simp

section \<open>Aggregates\<close>

definition gap :: "process_metric \<Rightarrow> bool" where
  "gap m \<longleftrightarrow> pm_state m \<noteq> Sampled \<or> pm_value m = None"

lemma aggregate_loop_ok:
  "aggregate_loop metricOf ps acc = (case find gap (map metricOf ps) of
       None \<Rightarrow> \<lparr>ag_state = Sampled, ag_value = Some (acc + sum_list (map (the \<circ> pm_value \<circ> metricOf) ps)), ag_reason = None\<rparr>
     | Some m \<Rightarrow> \<lparr>ag_state = (if pm_state m = Sampled then Unavailable else pm_state m), ag_value = None,
         ag_reason = Some (the_default ''subtree_incomplete'' (pm_reason m))\<rparr>)"
proof (induction ps arbitrary: acc)
  case (Cons p ps)
  show ?case
  proof (cases "gap (metricOf p)")
    case True
    then show ?thesis by (auto simp: gap_def Let_def)
  next
    case False
    then have step: "aggregate_loop metricOf (p # ps) acc = aggregate_loop metricOf ps (acc + the (pm_value (metricOf p)))"
      by (auto simp: gap_def Let_def)
    show ?thesis unfolding step Cons.IH using False by (cases "find gap (map metricOf ps)") (simp_all add: add.assoc)
  qed
qed simp

text \<open>A printed aggregate is a number exactly when there is a scope and every member was sampled.\<close>

lemma aggregate_honest:
  "di_unavailable (displayAggregate (aggregateMetric processes metricOf) unit_text digits) \<longleftrightarrow>
     processes = [] \<or> (\<exists>p \<in> set processes. gap (metricOf p))"
  by (auto simp: aggregateMetric_def aggregate_loop_ok displayAggregate_def display_value_def gap_def
      find_None_iff find_Some_iff split: option.splits)

end
