(* ===== verification/Sizing.thy ===== *)
theory Sizing
  imports Nession_Prelude
begin

text \<open>
  Fitting a terminal of a fixed column count into a box
  (\<^verbatim>\<open>web/src/platform/terminal-runtime/sizing.ts\<close>) and a grid into a box (\<^verbatim>\<open>grid.ts\<close>).

  Numbers are finite rationals or not finite; arithmetic on them is exact, where the code's is that of
  doubles. Asking the renderer for a cell draws the terminal at that size, so the sizes asked for are
  kept in order, and \<open>measureCell n size\<close> is what the \<open>n\<close>-th question (from 0) is answered.
\<close>

section \<open>Measured cells\<close>

datatype number = Finite rat | NotFinite

record pixel_size =
  px_width :: rat
  px_height :: rat

record grid =
  gr_cols :: int
  gr_rows :: int

definition FALLBACK_CELL :: pixel_size where
  "FALLBACK_CELL = \<lparr>px_width = 8, px_height = 16\<rparr>"

definition gridFor :: "pixel_size \<Rightarrow> pixel_size \<Rightarrow> grid option" where
  "gridFor box cell =
     (if px_width cell \<le> 0 \<or> px_height cell \<le> 0 then None
      else let cols = max 1 \<lfloor>px_width box / px_width cell\<rfloor>; rows = max 1 \<lfloor>px_height box / px_height cell\<rfloor>
           in if cols < 2 \<or> rows < 2 then None else Some \<lparr>gr_cols = cols, gr_rows = rows\<rparr>)"

definition MIN_TERMINAL_ROWS :: int where
  "MIN_TERMINAL_ROWS = 2"

definition MIN_TERMINAL_COLS :: rat where
  "MIN_TERMINAL_COLS = 2"

definition FIT_SEARCH_FLOOR :: rat where
  "FIT_SEARCH_FLOOR = 1 / 10"

definition FIT_PRECISION :: rat where
  "FIT_PRECISION = 1 / 20"

definition MAX_PROBES :: nat where
  "MAX_PROBES = 16"

record font_fit =
  ff_fontSize :: rat
  ff_cell :: pixel_size
  ff_contentWidth :: rat
  ff_fits :: bool

definition usable :: "pixel_size option \<Rightarrow> bool" where
  "usable cell \<longleftrightarrow> (case cell of None \<Rightarrow> False | Some c \<Rightarrow> 0 < px_width c \<and> 0 < px_height c)"

definition contentWidth :: "rat \<Rightarrow> pixel_size \<Rightarrow> rat" where
  "contentWidth cols cell = cols * px_width cell"

definition roundedFont :: "rat \<Rightarrow> rat" where
  "roundedFont v = of_int \<lfloor>v / FIT_PRECISION + 1 / 2\<rfloor> * FIT_PRECISION"

type_synonym renderer = "nat \<Rightarrow> rat \<Rightarrow> pixel_size option"

definition measured :: "renderer \<Rightarrow> rat list \<Rightarrow> rat \<Rightarrow> pixel_size option \<times> rat list" where
  "measured measureCell asked fontSize =
     (let cell = measureCell (length asked) fontSize in (if usable cell then cell else None, asked @ [fontSize]))"

section \<open>The search\<close>

definition candidate :: "rat \<Rightarrow> rat \<Rightarrow> rat \<Rightarrow> pixel_size \<Rightarrow> font_fit" where
  "candidate cols availableWidth fontSize cell =
     \<lparr>ff_fontSize = fontSize, ff_cell = cell, ff_contentWidth = contentWidth cols cell,
      ff_fits = contentWidth cols cell \<le> availableWidth\<rparr>"

text \<open>The bisection; the first argument counts the probes left.\<close>

fun fit_loop ::
  "nat \<Rightarrow> renderer \<Rightarrow> rat \<Rightarrow> rat \<Rightarrow> rat \<Rightarrow> rat \<Rightarrow> font_fit option \<Rightarrow> font_fit option \<Rightarrow> rat list
     \<Rightarrow> font_fit option \<times> font_fit option \<times> rat list"
where
  "fit_loop 0 measureCell cols availableWidth low high best smallest asked = (best, smallest, asked)"
| "fit_loop (Suc n) measureCell cols availableWidth low high best smallest asked =
     (if FIT_PRECISION < high - low then
        let fontSize = roundedFont ((low + high) / 2) in
        if fontSize \<le> low \<or> high \<le> fontSize then (best, smallest, asked)
        else (case measured measureCell asked fontSize of
            (None, asked') \<Rightarrow> fit_loop n measureCell cols availableWidth low fontSize best smallest asked'
          | (Some cell, asked') \<Rightarrow>
              let c = candidate cols availableWidth fontSize cell;
                  smallest' = (case smallest of None \<Rightarrow> Some c | Some s \<Rightarrow> if fontSize < ff_fontSize s then Some c else smallest)
              in if ff_fits c then fit_loop n measureCell cols availableWidth fontSize high (Some c) smallest' asked'
                 else fit_loop n measureCell cols availableWidth low fontSize best smallest' asked')
      else (best, smallest, asked))"

text \<open>\<open>best ?? smallest\<close>, measured once more.\<close>

definition settle_font :: "renderer \<Rightarrow> rat \<Rightarrow> rat \<Rightarrow> font_fit option \<times> font_fit option \<times> rat list \<Rightarrow> font_fit option \<times> rat list" where
  "settle_font measureCell cols availableWidth = (\<lambda>(best, smallest, asked).
     case (case best of None \<Rightarrow> smallest | Some b \<Rightarrow> Some b) of
       None \<Rightarrow> (None, asked)
     | Some chosen \<Rightarrow>
         (case measured measureCell asked (ff_fontSize chosen) of
            (None, asked') \<Rightarrow> (None, asked')
          | (Some cell, asked') \<Rightarrow> (Some (candidate cols availableWidth (ff_fontSize chosen) cell), asked')))"

definition fit_finite :: "rat \<Rightarrow> rat \<Rightarrow> rat \<Rightarrow> renderer \<Rightarrow> font_fit option \<times> rat list" where
  "fit_finite cols availableWidth maxFontSize measureCell =
     (case measured measureCell [] maxFontSize of
        (None, asked) \<Rightarrow> (None, asked)
      | (Some atMax, asked) \<Rightarrow>
          if contentWidth cols atMax \<le> availableWidth then (Some (candidate cols availableWidth maxFontSize atMax), asked)
          else settle_font measureCell cols availableWidth
                 (fit_loop MAX_PROBES measureCell cols availableWidth FIT_SEARCH_FLOOR maxFontSize None None asked))"

text \<open>The fit, and every font size the renderer was asked to draw.\<close>

definition fitFontToColumns :: "number \<Rightarrow> number \<Rightarrow> number \<Rightarrow> renderer \<Rightarrow> font_fit option \<times> rat list" where
  "fitFontToColumns cols availableWidth maxFontSize measureCell =
     (case (cols, availableWidth, maxFontSize) of
        (Finite c, Finite w, Finite m) \<Rightarrow>
          if c < MIN_TERMINAL_COLS \<or> w \<le> 0 \<or> m \<le> 0 then (None, []) else fit_finite c w m measureCell
      | _ \<Rightarrow> (None, []))"

definition rowsForHeight :: "number \<Rightarrow> number \<Rightarrow> int \<Rightarrow> int option" where
  "rowsForHeight availableHeight cellHeight minRows =
     (case (availableHeight, cellHeight) of
        (Finite h, Finite c) \<Rightarrow>
          if h \<le> 0 \<or> c \<le> 0 then None
          else let rows = \<lfloor>h / c\<rfloor> in if minRows \<le> rows then Some rows else None
      | _ \<Rightarrow> None)"

section \<open>Rows and grids\<close>

lemma floor_fits:
  fixes box cell :: rat
  assumes "0 < cell"
  shows "of_int \<lfloor>box / cell\<rfloor> * cell \<le> box" and "box < of_int (\<lfloor>box / cell\<rfloor> + 1) * cell"
proof -
  have "of_int \<lfloor>box / cell\<rfloor> \<le> box / cell" by (rule of_int_floor_le)
  then show "of_int \<lfloor>box / cell\<rfloor> * cell \<le> box" using assms by (simp only: pos_le_divide_eq)
  have "box / cell < of_int (\<lfloor>box / cell\<rfloor> + 1)" by linarith
  then show "box < of_int (\<lfloor>box / cell\<rfloor> + 1) * cell" using assms by (simp only: pos_divide_less_eq)
qed

lemma grid_fits:
  assumes "gridFor box cell = Some g"
  shows "2 \<le> gr_cols g \<and> 2 \<le> gr_rows g
    \<and> of_int (gr_cols g) * px_width cell \<le> px_width box \<and> px_width box < of_int (gr_cols g + 1) * px_width cell
    \<and> of_int (gr_rows g) * px_height cell \<le> px_height box \<and> px_height box < of_int (gr_rows g + 1) * px_height cell"
  using assms floor_fits [of "px_width cell" "px_width box"] floor_fits [of "px_height cell" "px_height box"]
  by (auto simp: gridFor_def Let_def max_def split: if_splits)

section \<open>The bisection\<close>

text \<open>Rounding to the grid of 0.05 stays strictly inside an interval wider than that, and halves it.\<close>

lemma rounded_units:
  obtains u where "roundedFont ((low + high) / 2) = rat_of_int u / 20"
    and "rat_of_int u \<le> 10 * low + 10 * high + 1 / 2" and "10 * low + 10 * high + 1 / 2 < rat_of_int u + 1"
proof -
  let ?u = "\<lfloor>10 * low + 10 * high + 1 / 2\<rfloor>"
  have units: "(low + high) / 2 / FIT_PRECISION = 10 * low + 10 * high" by (simp add: FIT_PRECISION_def field_simps)
  have "roundedFont ((low + high) / 2) = rat_of_int ?u / 20" unfolding roundedFont_def units by (simp add: FIT_PRECISION_def)
  moreover have "rat_of_int ?u \<le> 10 * low + 10 * high + 1 / 2" "10 * low + 10 * high + 1 / 2 < rat_of_int ?u + 1" by linarith+
  ultimately show thesis by (rule that)
qed

lemma rounded_inside:
  assumes "FIT_PRECISION < high - low"
  shows "low < roundedFont ((low + high) / 2)" and "roundedFont ((low + high) / 2) < high"
proof -
  obtain u where u: "roundedFont ((low + high) / 2) = rat_of_int u / 20"
    "rat_of_int u \<le> 10 * low + 10 * high + 1 / 2" "10 * low + 10 * high + 1 / 2 < rat_of_int u + 1"
    by (rule rounded_units)
  have wide: "1 / 20 < high - low" using assms by (simp add: FIT_PRECISION_def)
  have "20 * low < rat_of_int u" using u(3) wide by linarith
  moreover have "rat_of_int u < 20 * high" using u(2) wide by linarith
  ultimately show "low < roundedFont ((low + high) / 2)" "roundedFont ((low + high) / 2) < high"
    unfolding u(1) by linarith+
qed

definition steps_between :: "rat \<Rightarrow> rat \<Rightarrow> int" where
  "steps_between low high = \<lceil>20 * high\<rceil> - \<lceil>20 * low\<rceil>"

definition on_grid :: "rat \<Rightarrow> bool" where
  "on_grid x \<longleftrightarrow> (\<exists>k. x = of_int k / 20)"

lemma rounded_on_grid: "on_grid (roundedFont x)"
  by (auto simp: on_grid_def roundedFont_def FIT_PRECISION_def)

lemma grid_steps: "low = rat_of_int k / 20 \<Longrightarrow> \<lceil>20 * low\<rceil> = k"
proof -
  assume "low = rat_of_int k / 20"
  then have "20 * low = rat_of_int k" by simp
  then show ?thesis by (simp only: ceiling_of_int)
qed

lemma rounded_halves:
  assumes "on_grid low" and "steps_between low high \<le> 2 ^ Suc n"
  shows "steps_between low (roundedFont ((low + high) / 2)) \<le> 2 ^ n"
    and "steps_between (roundedFont ((low + high) / 2)) high \<le> 2 ^ n"
proof -
  obtain k where k: "low = of_int k / 20" using assms(1) by (auto simp: on_grid_def)
  obtain u where u: "roundedFont ((low + high) / 2) = rat_of_int u / 20"
    "rat_of_int u \<le> 10 * low + 10 * high + 1 / 2" "10 * low + 10 * high + 1 / 2 < rat_of_int u + 1"
    by (rule rounded_units)
  define c where "c = \<lceil>20 * high\<rceil>"
  have c: "rat_of_int c - 1 < 20 * high" "20 * high \<le> rat_of_int c" unfolding c_def by linarith+
  have k': "20 * low = rat_of_int k" using k by simp
  have "2 * rat_of_int u \<le> rat_of_int k + rat_of_int c + 1" "rat_of_int k + rat_of_int c < 2 * rat_of_int u + 2"
    using u(2,3) c k' by linarith+
  then have "2 * u \<le> k + c + 1" "k + c < 2 * u + 2" by linarith+
  moreover have "c - k \<le> 2 * 2 ^ n" using assms(2) grid_steps [OF k] by (simp add: steps_between_def c_def)
  ultimately show "steps_between low (roundedFont ((low + high) / 2)) \<le> 2 ^ n"
    "steps_between (roundedFont ((low + high) / 2)) high \<le> 2 ^ n"
    unfolding steps_between_def grid_steps [OF u(1)] grid_steps [OF k] c_def [symmetric] by linarith+
qed

lemma steps_end:
  assumes "on_grid low" and "steps_between low high \<le> 1"
  shows "high - low \<le> FIT_PRECISION"
proof -
  obtain k where k: "low = rat_of_int k / 20" using assms(1) by (auto simp: on_grid_def)
  then have "\<lceil>20 * high\<rceil> - k \<le> 1" using assms(2) grid_steps [OF k] by (simp add: steps_between_def)
  then have "rat_of_int \<lceil>20 * high\<rceil> \<le> rat_of_int (k + 1)" by (simp only: of_int_le_iff)
  moreover have "20 * high \<le> rat_of_int \<lceil>20 * high\<rceil>" by linarith
  ultimately have "20 * high \<le> rat_of_int k + 1" unfolding of_int_add of_int_1 by linarith
  then show ?thesis unfolding k FIT_PRECISION_def by linarith
qed

lemma measured_eq:
  "measured measureCell asked s =
     (if usable (measureCell (length asked) s) then measureCell (length asked) s else None, asked @ [s])"
  by (simp add: measured_def Let_def)

text \<open>Whatever the renderer answers: every candidate lies inside the bounds, and one probe asks once.\<close>

definition font_within :: "rat \<Rightarrow> font_fit option \<Rightarrow> bool" where
  "font_within m fit \<longleftrightarrow> (case fit of None \<Rightarrow> True | Some f \<Rightarrow> 0 < ff_fontSize f \<and> ff_fontSize f < m)"

definition smaller_fit :: "font_fit option \<Rightarrow> font_fit \<Rightarrow> font_fit option" where
  "smaller_fit smallest c =
     (case smallest of None \<Rightarrow> Some c | Some f \<Rightarrow> if ff_fontSize c < ff_fontSize f then Some c else smallest)"

text \<open>In exact arithmetic the guard that leaves the loop early never fires.\<close>

lemma fit_loop_step:
  assumes "FIT_PRECISION < high - low" and "s = roundedFont ((low + high) / 2)"
    and "cell = measureCell (length asked) s" and "c = candidate cols w s (the cell)"
  shows "fit_loop (Suc n) measureCell cols w low high best smallest asked =
    (if \<not> usable cell then fit_loop n measureCell cols w low s best smallest (asked @ [s])
     else if ff_fits c then fit_loop n measureCell cols w s high (Some c) (smaller_fit smallest c) (asked @ [s])
     else fit_loop n measureCell cols w low s best (smaller_fit smallest c) (asked @ [s]))"
proof -
  have inside: "\<not> (s \<le> low \<or> high \<le> s)" using rounded_inside [OF assms(1)] assms(2) by simp
  have "usable cell \<Longrightarrow> \<exists>x. cell = Some x" by (cases cell) (simp_all add: usable_def)
  moreover have "ff_fontSize (candidate cols w s x) = s" for x by (simp add: candidate_def)
  ultimately show ?thesis
    using assms(1) inside unfolding assms(4) fit_loop.simps Let_def measured_eq assms(2) [symmetric] assms(3) [symmetric]
    by (cases smallest) (auto simp: smaller_fit_def)
qed

lemma fit_loop_within:
  "0 < low \<Longrightarrow> high \<le> m \<Longrightarrow> font_within m best \<Longrightarrow> font_within m smallest \<Longrightarrow>
     (case fit_loop n measureCell cols w low high best smallest asked of (best', smallest', asked') \<Rightarrow>
        font_within m best' \<and> font_within m smallest' \<and> length asked' \<le> length asked + n)"
proof (induction n arbitrary: low high best smallest asked)
  case (Suc n)
  define s where "s = roundedFont ((low + high) / 2)"
  define cell where "cell = measureCell (length asked) s"
  define c where "c = candidate cols w s (the cell)"
  show ?case
  proof (cases "FIT_PRECISION < high - low")
    case True
    have inside: "0 < s" "s \<le> m" "s < m" using rounded_inside [OF True] Suc.prems(1,2) by (simp_all add: s_def)
    have fonts: "font_within m (Some c)" "font_within m (smaller_fit smallest c)"
      using inside Suc.prems(4) by (auto simp: font_within_def c_def candidate_def smaller_fit_def split: option.split)
    note ih = Suc.IH [of low s best smallest "asked @ [s]"] Suc.IH [of s high "Some c" "smaller_fit smallest c" "asked @ [s]"]
      Suc.IH [of low s best "smaller_fit smallest c" "asked @ [s]"]
    show ?thesis unfolding fit_loop_step [where measureCell = measureCell and asked = asked and cols = cols and w = w, OF True s_def cell_def c_def]
      using ih inside fonts Suc.prems by (simp add: split_beta)
  next
    case False
    then show ?thesis using Suc.prems by (simp add: split_beta)
  qed
qed (simp add: split_beta)

section \<open>A renderer that measures consistently\<close>

text \<open>Every question about a positive size has the same usable answer.\<close>

definition consistent :: "renderer \<Rightarrow> (rat \<Rightarrow> pixel_size) \<Rightarrow> bool" where
  "consistent measureCell cell \<longleftrightarrow> (\<forall>n s. 0 < s \<longrightarrow> measureCell n s = Some (cell s) \<and> usable (Some (cell s)))"

definition wider_when_larger :: "(rat \<Rightarrow> pixel_size) \<Rightarrow> bool" where
  "wider_when_larger cell \<longleftrightarrow> (\<forall>a b. a \<le> b \<longrightarrow> px_width (cell a) \<le> px_width (cell b))"

definition fits_at :: "rat \<Rightarrow> rat \<Rightarrow> (rat \<Rightarrow> pixel_size) \<Rightarrow> rat \<Rightarrow> bool" where
  "fits_at cols w cell s \<longleftrightarrow> contentWidth cols (cell s) \<le> w"

definition searched :: "rat \<Rightarrow> rat \<Rightarrow> (rat \<Rightarrow> pixel_size) \<Rightarrow> rat \<Rightarrow> rat \<Rightarrow> font_fit option \<Rightarrow> font_fit option \<Rightarrow> bool" where
  "searched cols w cell low high best smallest \<longleftrightarrow>
     \<not> fits_at cols w cell high
     \<and> (case best of None \<Rightarrow> low = FIT_SEARCH_FLOOR | Some b \<Rightarrow> ff_fontSize b = low \<and> fits_at cols w cell low)
     \<and> (best = None \<longrightarrow> (case smallest of None \<Rightarrow> True | Some f \<Rightarrow> \<not> fits_at cols w cell (ff_fontSize f)))"

lemma fit_loop_search:
  "consistent measureCell cell \<Longrightarrow> 0 < low \<Longrightarrow> on_grid low \<Longrightarrow> steps_between low high \<le> 2 ^ n \<Longrightarrow> searched cols w cell low high best smallest \<Longrightarrow>
     (case fit_loop n measureCell cols w low high best smallest asked of (best', smallest', asked') \<Rightarrow>
        (\<exists>low' high'. searched cols w cell low' high' best' smallest' \<and> high' - low' \<le> FIT_PRECISION)
        \<and> (smallest \<noteq> None \<or> 0 < n \<and> FIT_PRECISION < high - low \<longrightarrow> smallest' \<noteq> None))"
proof (induction n arbitrary: low high best smallest asked)
  case 0
  then have "high - low \<le> FIT_PRECISION" using steps_end by simp
  then show ?case using 0 by auto
next
  case (Suc n)
  define s where "s = roundedFont ((low + high) / 2)"
  define c where "c = candidate cols w s (cell s)"
  show ?case
  proof (cases "FIT_PRECISION < high - low")
    case True
    have "0 < s" using Suc.prems(2) rounded_inside(1) [OF True] by (simp add: s_def)
    then have answer: "measureCell (length asked) s = Some (cell s)" "usable (Some (cell s))"
      using Suc.prems(1) by (simp_all add: consistent_def)
    have fits: "ff_fits c = fits_at cols w cell s" "ff_fontSize c = s" by (simp_all add: c_def candidate_def fits_at_def)
    have some: "smaller_fit smallest c \<noteq> None" by (auto simp: smaller_fit_def split: option.split)
    have step: "fit_loop (Suc n) measureCell cols w low high best smallest asked =
        (if fits_at cols w cell s then fit_loop n measureCell cols w s high (Some c) (smaller_fit smallest c) (asked @ [s])
         else fit_loop n measureCell cols w low s best (smaller_fit smallest c) (asked @ [s]))"
      using fit_loop_step [where measureCell = measureCell and asked = asked and cols = cols and w = w, OF True s_def refl refl,
        of n best smallest] answer fits
      by (simp add: c_def)
    note halves = rounded_halves [OF Suc.prems(3,4), folded s_def]
    show ?thesis
    proof (cases "fits_at cols w cell s")
      case f: True
      have "searched cols w cell s high (Some c) (smaller_fit smallest c)"
        using Suc.prems(5) f fits by (simp add: searched_def)
      then show ?thesis
        using Suc.IH [of s high "Some c" "smaller_fit smallest c" "asked @ [s]"] Suc.prems(1) halves(2) rounded_on_grid [of "(low + high) / 2", folded s_def] \<open>0 < s\<close> some step f
        by (auto simp: split_beta)
    next
      case f: False
      have "searched cols w cell low s best (smaller_fit smallest c)"
        using Suc.prems(5) f fits by (auto simp: searched_def smaller_fit_def split: option.splits)
      then show ?thesis
        using Suc.IH [of low s best "smaller_fit smallest c" "asked @ [s]"] Suc.prems(1-3) halves(1) some step f
        by (auto simp: split_beta)
    qed
  next
    case False
    then have "searched cols w cell low high best smallest \<and> high - low \<le> FIT_PRECISION" using Suc.prems by simp
    then have "\<exists>low' high'. searched cols w cell low' high' best smallest \<and> high' - low' \<le> FIT_PRECISION" by blast
    then show ?thesis using False by simp
  qed
qed

lemma settled_font:
  assumes "settle_font measureCell cols w (best, smallest, asked) = (Some f, asked')"
  shows "asked' = asked @ [ff_fontSize f] \<and> measureCell (length asked) (ff_fontSize f) = Some (ff_cell f) \<and> usable (Some (ff_cell f))
    \<and> f = candidate cols w (ff_fontSize f) (ff_cell f)
    \<and> ff_fontSize f = ff_fontSize (the (case best of None \<Rightarrow> smallest | Some b \<Rightarrow> Some b))
    \<and> (best \<noteq> None \<or> smallest \<noteq> None)"
  using assms by (auto simp: settle_font_def measured_eq candidate_def split: option.splits if_splits)

lemma settled_asks: "length (snd (settle_font measureCell cols w (best, smallest, asked))) \<le> Suc (length asked)"
  by (simp add: settle_font_def measured_eq split: option.split)

text \<open>What every fit states, whatever the renderer answered.\<close>

definition honest_fit :: "rat \<Rightarrow> rat \<Rightarrow> rat \<Rightarrow> renderer \<Rightarrow> font_fit \<Rightarrow> rat list \<Rightarrow> bool" where
  "honest_fit cols w m measureCell f asked \<longleftrightarrow>
     0 < ff_fontSize f \<and> ff_fontSize f \<le> m \<and> asked \<noteq> [] \<and> last asked = ff_fontSize f
     \<and> measureCell (length asked - 1) (ff_fontSize f) = Some (ff_cell f)
     \<and> 0 < px_width (ff_cell f) \<and> 0 < px_height (ff_cell f)
     \<and> ff_contentWidth f = cols * px_width (ff_cell f) \<and> (ff_fits f \<longleftrightarrow> ff_contentWidth f \<le> w)"

lemma fit_finite_honest:
  assumes "0 < m"
  shows "length (snd (fit_finite cols w m measureCell)) \<le> 18
    \<and> (case fst (fit_finite cols w m measureCell) of None \<Rightarrow> True
       | Some f \<Rightarrow> honest_fit cols w m measureCell f (snd (fit_finite cols w m measureCell)))"
proof (cases "usable (measureCell 0 m)")
  case False
  then show ?thesis by (simp add: fit_finite_def measured_eq)
next
  case True
  then obtain c where c: "measureCell 0 m = Some c" by (cases "measureCell 0 m") (auto simp: usable_def)
  show ?thesis
  proof (cases "contentWidth cols c \<le> w")
    case fits: True
    then show ?thesis using True c assms
      by (simp add: fit_finite_def measured_eq honest_fit_def candidate_def contentWidth_def usable_def)
  next
    case fits: False
    obtain best smallest asked where loop: "fit_loop MAX_PROBES measureCell cols w FIT_SEARCH_FLOOR m None None [m] = (best, smallest, asked)"
      by (cases "fit_loop MAX_PROBES measureCell cols w FIT_SEARCH_FLOOR m None None [m]") auto
    have eq: "fit_finite cols w m measureCell = settle_font measureCell cols w (best, smallest, asked)"
      using True c fits loop by (simp add: fit_finite_def measured_eq)
    have within: "font_within m best" "font_within m smallest" "length asked \<le> 17"
      using fit_loop_within [where low = FIT_SEARCH_FLOOR and high = m and m = m and best = None and smallest = None and n = MAX_PROBES
        and measureCell = measureCell and cols = cols and w = w and asked = "[m]"] loop
      by (simp_all add: FIT_SEARCH_FLOOR_def font_within_def MAX_PROBES_def)
    have "honest_fit cols w m measureCell f asked'" if "settle_font measureCell cols w (best, smallest, asked) = (Some f, asked')" for f asked'
    proof -
      note settled = settled_font [OF that]
      have "0 < ff_fontSize f \<and> ff_fontSize f < m"
        using settled within by (auto simp: font_within_def split: option.splits)
      moreover have "ff_contentWidth f = cols * px_width (ff_cell f)" "ff_fits f \<longleftrightarrow> cols * px_width (ff_cell f) \<le> w"
        using settled by (metis candidate_def contentWidth_def font_fit.select_convs(3,4))+
      moreover have "asked' = asked @ [ff_fontSize f]" "measureCell (length asked) (ff_fontSize f) = Some (ff_cell f)"
        "usable (Some (ff_cell f))"
        using settled by blast+
      ultimately show ?thesis by (simp add: honest_fit_def usable_def)
    qed
    then show ?thesis unfolding eq using within(3) settled_asks [of measureCell cols w best smallest asked]
      by (cases "settle_font measureCell cols w (best, smallest, asked)") (auto split: option.split)
  qed
qed

lemma fit_finite_largest:
  assumes "consistent measureCell cell" and "wider_when_larger cell" and "0 \<le> cols" and "3 / 20 < m" and "m \<le> 3276"
  shows "\<exists>f. fst (fit_finite cols w m measureCell) = Some f
    \<and> (\<forall>s \<le> m. (if ff_fits f then ff_fontSize f + 1 / 20 else 3 / 20) \<le> s \<longrightarrow> \<not> cols * px_width (cell s) \<le> w)"
proof -
  have answer: "measureCell n s = Some (cell s)" "usable (Some (cell s))" if "0 < s" for n s
    using assms(1) that by (simp_all add: consistent_def)
  have unfit: "\<not> fits_at cols w cell b" if "\<not> fits_at cols w cell a" "a \<le> b" for a b
  proof -
    have "cols * px_width (cell a) \<le> cols * px_width (cell b)"
      using assms(2,3) that(2) by (auto simp: wider_when_larger_def intro: mult_left_mono)
    then show ?thesis using that(1) by (simp add: fits_at_def contentWidth_def)
  qed
  show ?thesis
  proof (cases "fits_at cols w cell m")
    case True
    then show ?thesis using answer [of m] assms(4)
      by (simp add: fit_finite_def measured_eq fits_at_def candidate_def)
  next
    case False
    obtain best smallest asked where loop: "fit_loop MAX_PROBES measureCell cols w FIT_SEARCH_FLOOR m None None [m] = (best, smallest, asked)"
      by (cases "fit_loop MAX_PROBES measureCell cols w FIT_SEARCH_FLOOR m None None [m]") auto
    have eq: "fit_finite cols w m measureCell = settle_font measureCell cols w (best, smallest, asked)"
      using False answer [of m] assms(4) loop by (simp add: fit_finite_def measured_eq fits_at_def)
    have floor: "on_grid FIT_SEARCH_FLOOR" "steps_between FIT_SEARCH_FLOOR m \<le> 2 ^ MAX_PROBES"
    proof -
      show "on_grid FIT_SEARCH_FLOOR" unfolding on_grid_def FIT_SEARCH_FLOOR_def by (rule exI [of _ 2]) simp
      have "\<lceil>20 * m\<rceil> \<le> 65520" using assms(5) by (simp add: ceiling_le_iff)
      then show "steps_between FIT_SEARCH_FLOOR m \<le> 2 ^ MAX_PROBES"
        by (simp add: steps_between_def FIT_SEARCH_FLOOR_def MAX_PROBES_def)
    qed
    have start: "searched cols w cell FIT_SEARCH_FLOOR m None None" using False by (simp add: searched_def)
    have pos: "0 < FIT_SEARCH_FLOOR" by (simp add: FIT_SEARCH_FLOOR_def)
    note search = fit_loop_search [OF assms(1) pos floor start, of "[m]"]
    have "FIT_PRECISION < m - FIT_SEARCH_FLOOR" using assms(4) by (simp add: FIT_PRECISION_def FIT_SEARCH_FLOOR_def)
    then have "smallest \<noteq> None" using search loop by (auto simp: MAX_PROBES_def)
    have within: "font_within m best" "font_within m smallest"
      using fit_loop_within [where low = FIT_SEARCH_FLOOR and high = m and m = m and best = None and smallest = None and n = MAX_PROBES
          and measureCell = measureCell and cols = cols and w = w and asked = "[m]"] loop pos
      by (simp_all add: font_within_def)
    obtain low high where found: "searched cols w cell low high best smallest" "high - low \<le> FIT_PRECISION"
      using search loop by auto
    let ?chosen = "case best of None \<Rightarrow> smallest | Some b \<Rightarrow> Some b"
    obtain b where b: "?chosen = Some b" using \<open>smallest \<noteq> None\<close> by (cases best) auto
    have "0 < ff_fontSize b" using b within by (auto simp: font_within_def split: option.splits)
    then have settled: "fst (fit_finite cols w m measureCell) = Some (candidate cols w (ff_fontSize b) (cell (ff_fontSize b)))"
      using answer [of "ff_fontSize b"] b by (simp add: eq settle_font_def measured_eq)
    have "\<not> cols * px_width (cell s) \<le> w"
      if s: "(if fits_at cols w cell (ff_fontSize b) then ff_fontSize b + 1 / 20 else 3 / 20) \<le> s" for s
    proof -
      have "high \<le> s"
      proof (cases best)
        case None
        then have "low = 1 / 10" "\<not> fits_at cols w cell (ff_fontSize b)"
          using found(1) b by (auto simp: searched_def FIT_SEARCH_FLOOR_def)
        then show ?thesis using found(2) s by (simp add: FIT_PRECISION_def)
      next
        case (Some x)
        then have "low = ff_fontSize b" "fits_at cols w cell (ff_fontSize b)" using found(1) b by (auto simp: searched_def)
        then show ?thesis using found(2) s by (simp add: FIT_PRECISION_def)
      qed
      then show ?thesis using unfit [of high s] found(1) by (simp add: searched_def fits_at_def contentWidth_def)
    qed
    then show ?thesis using settled by (simp add: candidate_def fits_at_def)
  qed
qed

section \<open>Properties\<close>

text \<open>
  C22. A font fit is honest and the largest. For valid inputs the search ends within 18 measurements; what it
  returns was measured last, so the renderer is left drawing it, and its width and verdict are those of
  that measurement, at a positive size up to the maximum. When the renderer measures consistently and
  wider for larger fonts, there is a result, and no size a step of 0.05 above it (or above 0.15,
  when nothing tested fits) would have fitted.
\<close>

theorem font_fit_honest_and_largest:
  assumes "2 \<le> cols" and "0 < w" and "3 / 20 < m" and "m \<le> 3276"
  shows "length (snd (fitFontToColumns (Finite cols) (Finite w) (Finite m) measureCell)) \<le> 18
    \<and> (case fitFontToColumns (Finite cols) (Finite w) (Finite m) measureCell of (fit, asked) \<Rightarrow>
        (case fit of None \<Rightarrow> True | Some f \<Rightarrow> honest_fit cols w m measureCell f asked)
        \<and> (if consistent measureCell cell \<and> wider_when_larger cell
           then (case fit of None \<Rightarrow> False | Some f \<Rightarrow>
             (\<forall>s \<le> m. (if ff_fits f then ff_fontSize f + 1 / 20 else 3 / 20) \<le> s \<longrightarrow> \<not> cols * px_width (cell s) \<le> w))
           else True))"
proof -
  have eq: "fitFontToColumns (Finite cols) (Finite w) (Finite m) measureCell = fit_finite cols w m measureCell"
    using assms by (simp add: fitFontToColumns_def MIN_TERMINAL_COLS_def)
  have "\<exists>f. fst (fit_finite cols w m measureCell) = Some f
      \<and> (\<forall>s \<le> m. (if ff_fits f then ff_fontSize f + 1 / 20 else 3 / 20) \<le> s \<longrightarrow> \<not> cols * px_width (cell s) \<le> w)"
    if "consistent measureCell cell" "wider_when_larger cell"
    using fit_finite_largest [OF that _ assms(3,4)] assms(1) by simp
  then show ?thesis using fit_finite_honest [of m cols w measureCell] assms(3) unfolding eq
    by (auto simp: split_beta split: option.splits)
qed

definition demo_cell :: "rat \<Rightarrow> pixel_size" where
  "demo_cell s = \<lparr>px_width = s / 2, px_height = s\<rparr>"

theorem font_fit_honest_and_largest_witness:
  "length (snd (fitFontToColumns (Finite 10) (Finite 40) (Finite 10) (\<lambda>n s. Some (demo_cell s)))) \<le> 18
   \<and> fst (fitFontToColumns (Finite 10) (Finite 40) (Finite 10) (\<lambda>n s. Some (demo_cell s))) \<noteq> None"
proof -
  have "consistent (\<lambda>n s. Some (demo_cell s)) demo_cell" "wider_when_larger demo_cell"
    by (simp_all add: consistent_def wider_when_larger_def demo_cell_def usable_def)
  then show ?thesis
    using font_fit_honest_and_largest [of 10 40 10 "\<lambda>n s. Some (demo_cell s)" demo_cell]
    by (auto split: prod.splits option.splits)
qed

definition small_unmeasured :: renderer where
  "small_unmeasured n s = (if s < 6 then None else Some (demo_cell s))"

lemma small_unmeasured_below:
  "high \<le> 6 \<Longrightarrow> \<exists>asked'. fit_loop n small_unmeasured cols w low high None None asked = (None, None, asked')"
proof (induction n arbitrary: low high asked)
  case (Suc n)
  show ?case
  proof (cases "FIT_PRECISION < high - low")
    case True
    let ?s = "roundedFont ((low + high) / 2)"
    have "?s < 6" using rounded_inside [OF True] Suc.prems by simp
    then have none: "small_unmeasured (length asked) ?s = None" "?s \<le> 6" by (simp_all add: small_unmeasured_def)
    have "fit_loop (Suc n) small_unmeasured cols w low high None None asked = fit_loop n small_unmeasured cols w low ?s None None (asked @ [?s])"
      by (subst fit_loop_step [OF True refl refl refl]) (simp add: none usable_def)
    then show ?thesis using Suc.IH [OF none(2), of low "asked @ [?s]"] by simp
  qed simp
qed simp

text \<open>
  The search turns away from sizes the renderer can draw: with a renderer that measures nothing below 6,
  sizes from 6 to 8 would fit, but the first unmeasured size becomes the upper bound and the answer is
  that nothing was measured.
\<close>

lemma unmeasured_size_searches_below:
  "fst (fitFontToColumns (Finite 10) (Finite 40) (Finite 10) small_unmeasured) = None
   \<and> (\<exists>c. small_unmeasured 0 8 = Some c \<and> contentWidth 10 c \<le> 40)"
proof -
  have "\<lfloor>203 / 2 :: rat\<rfloor> = 101" by (rule floor_unique) simp_all
  then have first: "roundedFont ((FIT_SEARCH_FLOOR + 10) / 2) = 101 / 20"
    by (simp add: roundedFont_def FIT_SEARCH_FLOOR_def FIT_PRECISION_def)
  have wide: "FIT_PRECISION < 10 - FIT_SEARCH_FLOOR" by (simp add: FIT_PRECISION_def FIT_SEARCH_FLOOR_def)
  have "fit_loop (Suc 15) small_unmeasured 10 40 FIT_SEARCH_FLOOR 10 None None [10]
      = fit_loop 15 small_unmeasured 10 40 FIT_SEARCH_FLOOR (101 / 20) None None [10, 101 / 20]"
    by (subst fit_loop_step [OF wide first [symmetric] refl refl]) (simp add: usable_def small_unmeasured_def)
  moreover obtain asked' where
    "fit_loop 15 small_unmeasured 10 40 FIT_SEARCH_FLOOR (101 / 20) None None [10, 101 / 20] = (None, None, asked')"
    using small_unmeasured_below [of "101 / 20" 15 10 40 FIT_SEARCH_FLOOR "[10, 101 / 20]"] by auto
  moreover have "MAX_PROBES = Suc 15" by (simp add: MAX_PROBES_def)
  ultimately have "fit_loop MAX_PROBES small_unmeasured 10 40 FIT_SEARCH_FLOOR 10 None None [10] = (None, None, asked')"
    by (simp only:)
  then show ?thesis
    by (simp add: fitFontToColumns_def fit_finite_def measured_eq MIN_TERMINAL_COLS_def usable_def demo_cell_def
        contentWidth_def settle_font_def small_unmeasured_def)
qed

end
