(* ===== verification/Terminal_Controller.thy ===== *)
theory Terminal_Controller
  imports Terminal_Writer Stream_Events
begin

text \<open>
  The rendering core of the terminal controller
  (\<^verbatim>\<open>web/src/platform/terminal-runtime/controller/TerminalController.ts\<close>): the emulator it owns, the
  parser writer in front of it, the transport it is bound to, what it states about the buffer, and the
  repair of a halted writer. It drives the writer of \<open>Terminal_Writer\<close> and the markers of \<open>Stream_Events\<close>.

  Emulators, containers and transports are identities (numbers); a new one is a number not used before.
  \<open>sync i n\<close> says whether emulator \<open>i\<close> parses its \<open>n\<close>-th write before \<open>write\<close> returns. The callbacks handed
  to the writer are closures, kept in a list and named by their index. What a callback of the writer does
  is performed when the writer's call has returned: it touches nothing the writer reads. A disposed
  writer runs no callback, so late parser callbacks of a replaced emulator are no events here.
  \<open>tc_told\<close> collects the calls of the owner's event handlers, which do not call back; the position of a
  parsed event is kept with the transport it came from, and a write's origin is its source without the stream
  epoch that only the clipboard reads. Input routing, geometry, links, scrolling and the
  clipboard binding are not part of this state.
\<close>

section \<open>Model\<close>

datatype parsed_closure =
    OutputParsed (cl_bootstrapSeq: "nat option") "terminal_bootstrap option" (cl_position: "position option")
      (cl_terminal: nat) (cl_transport: nat)
  | ResizeApplied (cl_position: "position option") (cl_terminal: nat) (cl_transport: nat)
  | LocalParsed

datatype controller_call =
    TransportReady bool
  | BootstrapApplied
  | StreamBaseline verified_baseline
  | StreamTruncated
  | RendererReplaced
  | StreamEventParsed nat position
  | SentBytes nat jsstring

record controller =
  tc_limits :: writer_limits
  tc_writer :: writer
  tc_instance :: nat
  tc_instanceDisposed :: bool
  tc_opened :: bool
  tc_parent :: "nat option"
  tc_terminal :: "nat option"
  tc_transport :: "nat option"
  tc_transports :: nat
  tc_boundTerminal :: nat
  tc_mountElement :: "nat option"
  tc_attached :: bool
  tc_repairQueued :: bool
  tc_microtasks :: nat
  tc_disposed :: bool
  tc_sessionCols :: "int option"
  tc_observerReadOnly :: bool
  tc_hasSessionOutput :: bool
  tc_hasParsedCapture :: bool
  tc_bootstrapSequence :: nat
  tc_closures :: "parsed_closure list"
  tc_told :: "controller_call list"

definition BOOTSTRAP_BUFFER_RESET :: jsstring where
  "BOOTSTRAP_BUFFER_RESET = js (CHR 0x1B # ''[2J'' @ CHR 0x1B # ''[3J'' @ CHR 0x1B # ''[H'')"

definition BOOTSTRAP_SCREEN_RESET :: jsstring where
  "BOOTSTRAP_SCREEN_RESET = js (CHR 0x1B # ''[2J'' @ CHR 0x1B # ''[H'')"

text \<open>The constructor; \<open>None\<close> is the writer's \<open>RangeError\<close> on bad limits.\<close>

definition new_controller :: "writer_limits \<Rightarrow> int option \<Rightarrow> controller option" where
  "new_controller limits terminalCols = (case new_writer limits of
       None \<Rightarrow> None
     | Some w \<Rightarrow> Some \<lparr>tc_limits = limits, tc_writer = w, tc_instance = 0, tc_instanceDisposed = False, tc_opened = False,
         tc_parent = None, tc_terminal = Some 0, tc_transport = None, tc_transports = 0, tc_boundTerminal = 0,
         tc_mountElement = None, tc_attached = False, tc_repairQueued = False, tc_microtasks = 0, tc_disposed = False,
         tc_sessionCols = terminalCols, tc_observerReadOnly = False, tc_hasSessionOutput = False,
         tc_hasParsedCapture = False, tc_bootstrapSequence = 0, tc_closures = [], tc_told = []\<rparr>)"

definition tell :: "controller_call \<Rightarrow> controller \<Rightarrow> controller" where
  "tell call c = c\<lparr>tc_told := tc_told c @ [call]\<rparr>"

definition markSessionOutput :: "controller \<Rightarrow> controller" where
  "markSessionOutput c = c\<lparr>tc_hasSessionOutput := True\<rparr>"

definition adoptSessionCols :: "int \<Rightarrow> controller \<Rightarrow> controller" where
  "adoptSessionCols cols c = (if cols \<le> 0 then c else c\<lparr>tc_sessionCols := Some cols\<rparr>)"

section \<open>Callbacks of the writer\<close>

definition completeHistoryCut :: "terminal_bootstrap option \<Rightarrow> bool" where
  "completeHistoryCut bootstrap = (case bootstrap of
       None \<Rightarrow> False
     | Some b \<Rightarrow> cutConsistency b = Some Atomic \<and> 0 < requestedLines b \<and> \<not> truncated b)"

definition replayReplacesBuffer :: "terminal_bootstrap option \<Rightarrow> bool" where
  "replayReplacesBuffer bootstrap \<longleftrightarrow>
     provesVerifiedBootstrapRepair bootstrap
     \<or> (case streamBaselineFromBootstrap bootstrap of None \<Rightarrow> False | Some v \<Rightarrow> 0 < vb_appliedThrough v)
     \<or> completeHistoryCut bootstrap"

text \<open>The conditions \<open>this._terminal === terminal && this.transport === transport\<close>.\<close>

definition bound_to :: "nat \<Rightarrow> nat \<Rightarrow> controller \<Rightarrow> bool" where
  "bound_to term transport c \<longleftrightarrow> tc_terminal c = Some term \<and> tc_transport c = Some transport"

definition event_parsed :: "position option \<Rightarrow> nat \<Rightarrow> nat \<Rightarrow> controller \<Rightarrow> controller" where
  "event_parsed pos term transport c = (case pos of
       None \<Rightarrow> c
     | Some p \<Rightarrow> if bound_to term transport c then tell (StreamEventParsed transport p) c else c)"

definition capture_parsed :: "terminal_bootstrap option \<Rightarrow> controller \<Rightarrow> controller" where
  "capture_parsed bootstrap c =
     (let c1 = (markSessionOutput c)\<lparr>tc_hasParsedCapture := True\<rparr>;
          c2 = (case streamBaselineFromBootstrap bootstrap of None \<Rightarrow> c1 | Some v \<Rightarrow> tell (StreamBaseline v) c1)
      in if provesVerifiedBootstrapRepair bootstrap
           \<or> completeHistoryCut bootstrap \<and> (case bootstrap of None \<Rightarrow> False | Some b \<Rightarrow> bs_throughSeq b = Some 0)
         then tell BootstrapApplied c2 else c2)"

fun on_parsed_closure :: "parsed_closure \<Rightarrow> controller \<Rightarrow> controller" where
  "on_parsed_closure (OutputParsed bootstrapSeq bootstrap pos term transport) c =
     (case bootstrapSeq of
        Some k \<Rightarrow> if k = tc_bootstrapSequence c \<and> bound_to term transport c then capture_parsed bootstrap c else c
      | None \<Rightarrow> event_parsed pos term transport c)"
| "on_parsed_closure (ResizeApplied pos term transport) c = event_parsed pos term transport c"
| "on_parsed_closure LocalParsed c = c"

definition handleWriterDegraded :: "controller \<Rightarrow> controller" where
  "handleWriterDegraded c =
     (let c1 = tell StreamTruncated c
      in if tc_repairQueued c1 \<or> tc_disposed c1 then c1
         else c1\<lparr>tc_repairQueued := True, tc_microtasks := Suc (tc_microtasks c1)\<rparr>)"

fun react :: "controller \<Rightarrow> writer_call \<Rightarrow> controller" where
  "react c (Callback n) = on_parsed_closure (tc_closures c ! n) c"
| "react c (Degraded reason) = handleWriterDegraded c"
| "react c (TerminalWrite n data origin) = c"
| "react c (TerminalResize cols rows) = c"

text \<open>A call of the writer, and what its new calls of the outside make the controller do.\<close>

definition with_writer :: "(writer \<Rightarrow> writer) \<Rightarrow> controller \<Rightarrow> controller" where
  "with_writer f c =
     (let w = f (tc_writer c)
      in foldl react (c\<lparr>tc_writer := w\<rparr>) (drop (length (wr_log (tc_writer c))) (wr_log w)))"

section \<open>Transport\<close>

definition teardownTransport :: "controller \<Rightarrow> controller" where
  "teardownTransport c = (tell (TransportReady False) c)\<lparr>tc_transport := None\<rparr>"

definition rewireTransport :: "nat \<Rightarrow> controller \<Rightarrow> controller" where
  "rewireTransport term c =
     (let c1 = teardownTransport c
      in tell (TransportReady True)
           (c1\<lparr>tc_transport := Some (tc_transports c1), tc_transports := Suc (tc_transports c1), tc_boundTerminal := term\<rparr>))"

text \<open>\<open>transport.onOutput\<close> and \<open>transport.onResize\<close>; a torn-down transport has no handlers.\<close>

definition on_output ::
  "(nat \<Rightarrow> nat \<Rightarrow> bool) \<Rightarrow> bytes \<Rightarrow> terminal_bootstrap option \<Rightarrow> position option \<Rightarrow> controller \<Rightarrow> controller" where
  "on_output sync data bootstrap pos c = (case tc_transport c of
       None \<Rightarrow> c
     | Some transport \<Rightarrow>
         let origin = (if bootstrap \<noteq> None then ''replay'' else ''live'');
             write = (\<lambda>d cb c. with_writer (write_terminal (sync (tc_instance c)) d cb origin) c);
             c1 = (case bootstrap of
                 None \<Rightarrow> c
               | Some b \<Rightarrow>
                   let c0 = (case (paneCols b, paneRows b) of
                         (Some cols, Some rows) \<Rightarrow> with_writer (resize_terminal (sync (tc_instance c)) cols rows None) (adoptSessionCols cols c)
                       | _ \<Rightarrow> c);
                       c1 = write (TextData (if replayReplacesBuffer bootstrap then BOOTSTRAP_BUFFER_RESET else BOOTSTRAP_SCREEN_RESET)) None c0
                   in c1\<lparr>tc_bootstrapSequence := Suc (tc_bootstrapSequence c1)\<rparr>);
             bootstrapSeq = (if bootstrap \<noteq> None then Some (tc_bootstrapSequence c1) else None);
             c2 = c1\<lparr>tc_closures := tc_closures c1 @ [OutputParsed bootstrapSeq bootstrap pos (tc_boundTerminal c) transport]\<rparr>;
             c3 = write (BytesData data) (Some (length (tc_closures c1))) c2
         in if bootstrapSeq = None then markSessionOutput c3 else c3)"

definition on_remote_resize :: "(nat \<Rightarrow> nat \<Rightarrow> bool) \<Rightarrow> int \<Rightarrow> int \<Rightarrow> position option \<Rightarrow> controller \<Rightarrow> controller" where
  "on_remote_resize sync cols rows pos c = (case tc_transport c of
       None \<Rightarrow> c
     | Some transport \<Rightarrow>
         let c1 = adoptSessionCols cols c;
             c2 = c1\<lparr>tc_closures := tc_closures c1 @ [ResizeApplied pos (tc_boundTerminal c) transport]\<rparr>
         in with_writer (resize_terminal (sync (tc_instance c)) cols rows (Some (length (tc_closures c1)))) c2)"

section \<open>Lifecycle\<close>

text \<open>\<open>XtermEmulator.mount\<close>: the first mount opens the emulator (\<open>opens\<close> says whether it gets an element), later ones move it.\<close>

definition mount_instance :: "bool \<Rightarrow> nat \<Rightarrow> controller \<Rightarrow> controller" where
  "mount_instance opens element c =
     (if tc_instanceDisposed c then c
      else if tc_opened c \<or> opens then c\<lparr>tc_opened := True, tc_parent := Some element\<rparr> else c)"

definition unmount_instance :: "controller \<Rightarrow> controller" where
  "unmount_instance c = (if tc_instanceDisposed c then c else c\<lparr>tc_parent := None\<rparr>)"

definition rebuildRenderer :: "controller \<Rightarrow> controller" where
  "rebuildRenderer c =
     (if tc_disposed c \<or> tc_terminal c = None then c
      else
        let element = (if tc_attached c then tc_mountElement c else None)
        in if tc_attached c \<and> element = None then c
           else
             let c1 = c\<lparr>tc_bootstrapSequence := Suc (tc_bootstrapSequence c),
                        tc_instance := Suc (tc_instance c), tc_opened := False, tc_parent := None,
                        tc_writer := the (new_writer (tc_limits c)), tc_terminal := Some (Suc (tc_instance c)),
                        tc_hasSessionOutput := False\<rparr>;
                 c2 = (case element of None \<Rightarrow> c1
                       | Some e \<Rightarrow> rewireTransport (tc_instance c1) (mount_instance True e c1))
             in tell RendererReplaced c2)"

definition attach :: "nat \<Rightarrow> bool \<Rightarrow> controller \<Rightarrow> controller" where
  "attach element opens c =
     (if tc_instanceDisposed c \<or> tc_disposed c then c
      else
        let c1 = c\<lparr>tc_mountElement := Some element\<rparr>
        in if tc_attached c1 \<and> tc_parent c1 = Some element then rewireTransport (tc_instance c1) c1
           else
             let c2 = (if tc_attached c1 then (unmount_instance (teardownTransport c1))\<lparr>tc_attached := False\<rparr> else c1);
                 c3 = mount_instance opens element c2
             in if \<not> tc_opened c3 then teardownTransport c3
                else rewireTransport (tc_instance c3) (c3\<lparr>tc_attached := True, tc_terminal := Some (tc_instance c3)\<rparr>))"

definition detach :: "controller \<Rightarrow> controller" where
  "detach c =
     (if \<not> tc_attached c then c
      else (unmount_instance (teardownTransport (c\<lparr>tc_attached := False, tc_mountElement := None\<rparr>)))\<lparr>tc_terminal := None\<rparr>)"

definition dispose_controller :: "controller \<Rightarrow> controller" where
  "dispose_controller c =
     (let c1 = detach (c\<lparr>tc_disposed := True\<rparr>)
      in c1\<lparr>tc_writer := dispose_writer (tc_writer c1), tc_instanceDisposed := True\<rparr>)"

text \<open>The owner's transport identity was swapped; the subscription ends with \<open>dispose\<close>.\<close>

definition transport_swapped :: "controller \<Rightarrow> controller" where
  "transport_swapped c = (case tc_terminal c of
       None \<Rightarrow> c
     | Some term \<Rightarrow> if tc_attached c \<and> \<not> tc_disposed c then rewireTransport term c else c)"

section \<open>Local operations\<close>

definition write_local :: "(nat \<Rightarrow> nat \<Rightarrow> bool) \<Rightarrow> write_data \<Rightarrow> controller \<Rightarrow> controller" where
  "write_local sync data c =
     (if tc_terminal c = None then c
      else with_writer (write_terminal (sync (tc_instance c)) data (Some (length (tc_closures c))) ''replay'')
             (c\<lparr>tc_closures := tc_closures c @ [LocalParsed]\<rparr>))"

definition resizeLocal :: "(nat \<Rightarrow> nat \<Rightarrow> bool) \<Rightarrow> int \<Rightarrow> int \<Rightarrow> controller \<Rightarrow> controller" where
  "resizeLocal sync cols rows c = with_writer (resize_terminal (sync (tc_instance c)) cols rows None) c"

definition setObserverReadOnly :: "bool \<Rightarrow> controller \<Rightarrow> controller" where
  "setObserverReadOnly v c = c\<lparr>tc_observerReadOnly := v\<rparr>"

definition canEffectClipboard :: "bool \<Rightarrow> controller \<Rightarrow> bool" where
  "canEffectClipboard visible c \<longleftrightarrow>
     \<not> tc_disposed c \<and> tc_attached c \<and> \<not> tc_observerReadOnly c \<and> tc_transport c \<noteq> None \<and> visible"

definition sendProtocolBytes :: "jsstring \<Rightarrow> controller \<Rightarrow> controller" where
  "sendProtocolBytes data c =
     (if tc_disposed c \<or> tc_observerReadOnly c then c
      else case tc_transport c of None \<Rightarrow> c | Some t \<Rightarrow> tell (SentBytes t data) c)"

definition run_microtask :: "controller \<Rightarrow> controller" where
  "run_microtask c =
     (if tc_microtasks c = 0 then c
      else rebuildRenderer (c\<lparr>tc_microtasks := tc_microtasks c - 1, tc_repairQueued := False\<rparr>))"

datatype controller_event =
    AttachTo nat bool
  | Detach
  | DisposeController
  | TransportSwapped
  | Output bytes "terminal_bootstrap option" "position option"
  | RemoteResize int int "position option"
  | LocalWrite write_data
  | LocalResize int int
  | ParserDone nat
  | DeadlinePassed nat
  | Microtask
  | SetObserver bool
  | ProtocolBytes jsstring

fun controller_step :: "(nat \<Rightarrow> nat \<Rightarrow> bool) \<Rightarrow> controller \<Rightarrow> controller_event \<Rightarrow> controller" where
  "controller_step sync c (AttachTo element opens) = attach element opens c"
| "controller_step sync c Detach = detach c"
| "controller_step sync c DisposeController = dispose_controller c"
| "controller_step sync c TransportSwapped = transport_swapped c"
| "controller_step sync c (Output data bootstrap pos) = on_output sync data bootstrap pos c"
| "controller_step sync c (RemoteResize cols rows pos) = on_remote_resize sync cols rows pos c"
| "controller_step sync c (LocalWrite data) = write_local sync data c"
| "controller_step sync c (LocalResize cols rows) = resizeLocal sync cols rows c"
| "controller_step sync c (ParserDone n) = with_writer (parser_callback (sync (tc_instance c)) n) c"
| "controller_step sync c (DeadlinePassed n) = with_writer (parse_deadline n) c"
| "controller_step sync c Microtask = run_microtask c"
| "controller_step sync c (SetObserver v) = setObserverReadOnly v c"
| "controller_step sync c (ProtocolBytes data) = sendProtocolBytes data c"

end
