(* ===== verification/Controller_Laws.thy ===== *)
theory Controller_Laws
  imports Terminal_Controller
begin

text \<open>
  What the terminal controller guarantees: per transport, the events it reports as parsed are the events
  it was delivered, in order, as far as they have been parsed; and a halted writer is replaced while the
  viewport is attached. The proofs rest on the writer's refinement of its sequential specification.
\<close>

section \<open>Callbacks of the writer in order\<close>

fun callback_number :: "writer_call \<Rightarrow> nat list" where
  "callback_number (Callback n) = [n]"
| "callback_number _ = []"

definition cbs :: "writer_call list \<Rightarrow> nat list" where
  "cbs calls = concat (map callback_number calls)"

definition numbers :: "nat option \<Rightarrow> nat list" where
  "numbers cb = (case cb of None \<Rightarrow> [] | Some n \<Rightarrow> [n])"

definition pending_cbs :: "writer \<Rightarrow> nat list" where
  "pending_cbs w = (case wr_outstanding w of None \<Rightarrow> [] | Some (_, item) \<Rightarrow> numbers (op_callback item))
     @ concat (map (\<lambda>item. numbers (op_callback item)) (wr_operations w))"

definition asked_callback :: "writer_event \<Rightarrow> nat list" where
  "asked_callback e = (case operation_of e of None \<Rightarrow> [] | Some item \<Rightarrow> numbers (op_callback item))"

lemma cbs_append [simp]: "cbs (xs @ ys) = cbs xs @ cbs ys"
  by (simp add: cbs_def)

lemma cbs_callback_of [simp]: "cbs (callback_of cb) = numbers cb"
  by (simp add: cbs_def callback_of_def numbers_def split: option.split)

lemma cbs_in_sequence: "cbs (in_sequence n grid ops) = concat (map (\<lambda>item. numbers (op_callback item)) ops)"
  by (induction n grid ops rule: in_sequence.induct) (simp_all add: cbs_def numbers_def callback_of_def split: option.splits)

lemma cbs_remaining: "cbs (remaining later w) = pending_cbs w @ concat (map (\<lambda>item. numbers (op_callback item)) later)"
  by (auto simp: remaining_def pending_cbs_def cbs_in_sequence cbs_def [of "[]"] split: option.split)

text \<open>What one event of the writer does to the callbacks that wait: those it runs come off the front.\<close>

lemma writer_callbacks:
  fixes w :: writer and e :: writer_event and sync :: "nat \<Rightarrow> bool"
  assumes inv: "writer_inv w"
  defines "w' \<equiv> writer_step sync w e"
  defines "new \<equiv> drop (length (wr_log w)) (wr_log w')"
  shows "if running w \<and> running w' then cbs new @ pending_cbs w' = pending_cbs w @ asked_callback e
    else cbs new = [] \<and> \<not> running w'"
proof (cases "running w")
  case False
  then show ?thesis using step_stopped [OF inv False, of sync e] by (simp add: w'_def new_def cbs_def)
next
  case run: True
  show ?thesis
  proof (cases "running w'")
    case True
    have log: "wr_log w' = wr_log w @ new"
      using step_told [OF inv, of sync e] by (auto simp: w'_def new_def prefix_def)
    have "accepted_run sync w [e] = (case operation_of e of None \<Rightarrow> [] | Some item \<Rightarrow> [item])"
    proof (cases "operation_of e")
      case (Some item)
      have "w' = enqueue sync item w"
        using Some by (cases e) (auto simp: w'_def write_terminal_def resize_terminal_def)
      then have "accepts item w"
        using enqueue_refused [of item w sync] degrade_inv(3) [OF inv] True run by (cases "accepts item w") auto
      then show ?thesis using Some by simp
    qed simp
    then have "new @ remaining [] w' = remaining (case operation_of e of None \<Rightarrow> [] | Some item \<Rightarrow> [item]) w"
      using step_running [OF inv run True [unfolded w'_def], of "[]"] log by (simp add: w'_def)
    then have "cbs (new @ remaining [] w') = cbs (remaining (case operation_of e of None \<Rightarrow> [] | Some item \<Rightarrow> [item]) w)" by simp
    then show ?thesis using run True by (simp add: cbs_remaining asked_callback_def split: option.splits)
  next
    case False
    then show ?thesis
      using step_stopping [OF inv run False [unfolded w'_def]] by (auto simp: w'_def new_def cbs_def)
  qed
qed

lemma callbacks_known:
  assumes "writer_inv w" and "running (writer_step sync w e)"
    and "n \<in> set (pending_cbs (writer_step sync w e)) \<union> set (cbs (drop (length (wr_log w)) (wr_log (writer_step sync w e))))"
  shows "running w" and "n \<in> set (pending_cbs w) \<union> set (asked_callback e)"
proof -
  show run: "running w" using step_stopped(3) [OF assms(1)] assms(2) by blast
  have "cbs (drop (length (wr_log w)) (wr_log (writer_step sync w e))) @ pending_cbs (writer_step sync w e) = pending_cbs w @ asked_callback e"
    using writer_callbacks [OF assms(1), of sync e] run assms(2) by simp
  from arg_cong [OF this, of set] assms(3) show "n \<in> set (pending_cbs w) \<union> set (asked_callback e)" by auto
qed

section \<open>Reactions\<close>

text \<open>What a reaction leaves alone.\<close>

definition binding :: "controller \<Rightarrow> _" where
  "binding c = ((tc_limits c, tc_writer c, tc_instance c, tc_instanceDisposed c, tc_opened c, tc_parent c),
     (tc_terminal c, tc_transport c, tc_transports c, tc_boundTerminal c, tc_mountElement c, tc_attached c),
     (tc_disposed c, tc_sessionCols c, tc_observerReadOnly c, tc_bootstrapSequence c, tc_closures c))"

lemma binding_tell [simp]: "binding (tell call c) = binding c"
  by (simp add: binding_def tell_def)

lemma binding_flags [simp]:
  "binding (c\<lparr>tc_hasSessionOutput := v\<rparr>) = binding c" "binding (c\<lparr>tc_hasParsedCapture := v\<rparr>) = binding c"
  "binding (c\<lparr>tc_repairQueued := v, tc_microtasks := n\<rparr>) = binding c" "binding (markSessionOutput c) = binding c"
  by (simp_all add: binding_def markSessionOutput_def)

lemma binding_closure [simp]: "binding (on_parsed_closure cl c) = binding c"
  by (cases cl) (simp_all add: event_parsed_def capture_parsed_def Let_def split: option.split)

lemma binding_react [simp]: "binding (react c call) = binding c"
  by (cases call) (simp_all add: handleWriterDegraded_def Let_def)

lemma binding_reactions [simp]: "binding (foldl react c calls) = binding c"
  by (induction calls arbitrary: c) simp_all

lemma bindingD:
  assumes "binding d = binding c"
  shows "tc_limits d = tc_limits c" "tc_writer d = tc_writer c" "tc_instance d = tc_instance c"
    "tc_instanceDisposed d = tc_instanceDisposed c" "tc_opened d = tc_opened c" "tc_parent d = tc_parent c"
    "tc_terminal d = tc_terminal c" "tc_transport d = tc_transport c" "tc_transports d = tc_transports c"
    "tc_boundTerminal d = tc_boundTerminal c" "tc_mountElement d = tc_mountElement c" "tc_attached d = tc_attached c"
    "tc_disposed d = tc_disposed c" "tc_closures d = tc_closures c"
  using assms by (simp_all add: binding_def)

lemmas reacted = bindingD [OF binding_reactions]

text \<open>The events reported as parsed, with the transport that delivered them.\<close>

fun parsed_call :: "controller_call \<Rightarrow> (nat \<times> position) list" where
  "parsed_call (StreamEventParsed t p) = [(t, p)]"
| "parsed_call _ = []"

definition parsed_of :: "controller \<Rightarrow> (nat \<times> position) list" where
  "parsed_of c = concat (map parsed_call (tc_told c))"

lemma parsed_tell [simp]: "parsed_of (tell call c) = parsed_of c @ parsed_call call"
  by (simp add: parsed_of_def tell_def)

lemma parsed_cong: "tc_told d = tc_told c \<Longrightarrow> parsed_of d = parsed_of c"
  by (simp add: parsed_of_def)

fun event_of :: "parsed_closure \<Rightarrow> (nat \<times> nat \<times> position) option" where
  "event_of (OutputParsed None bootstrap (Some p) term transport) = Some (term, transport, p)"
| "event_of (ResizeApplied (Some p) term transport) = Some (term, transport, p)"
| "event_of _ = None"

definition emitted :: "controller \<Rightarrow> parsed_closure \<Rightarrow> (nat \<times> position) list" where
  "emitted c cl = (case event_of cl of
       None \<Rightarrow> [] | Some (term, transport, p) \<Rightarrow> if bound_to term transport c then [(transport, p)] else [])"

lemma emitted_cong: "binding d = binding c \<Longrightarrow> emitted d = emitted c"
  using bindingD(7,8) [of d c] by (auto simp: emitted_def bound_to_def fun_eq_iff split: option.split)

lemma parsed_closure_told: "parsed_of (on_parsed_closure cl c) = parsed_of c @ emitted c cl"
proof (cases cl)
  case (OutputParsed k bootstrap pos tm transport)
  have "parsed_of (markSessionOutput c) = parsed_of c" "parsed_of (c\<lparr>tc_hasParsedCapture := v\<rparr>) = parsed_of c" for v c
    by (simp_all add: parsed_of_def markSessionOutput_def)
  then have "parsed_of (capture_parsed bootstrap c) = parsed_of c"
    by (simp add: capture_parsed_def Let_def split: option.split)
  then show ?thesis
    using OutputParsed by (cases k; cases pos) (auto simp: event_parsed_def emitted_def)
next
  case (ResizeApplied pos tm transport)
  then show ?thesis by (cases pos) (auto simp: event_parsed_def emitted_def)
next
  case LocalParsed
  then show ?thesis by (simp add: emitted_def)
qed

lemma parsed_react: "parsed_of (react c call) = parsed_of c @ concat (map (\<lambda>n. emitted c (tc_closures c ! n)) (callback_number call))"
proof (cases call)
  case (Degraded r)
  have "parsed_of (c\<lparr>tc_repairQueued := True, tc_microtasks := n\<rparr>) = parsed_of c" for c n by (simp add: parsed_of_def)
  then show ?thesis using Degraded by (simp add: handleWriterDegraded_def Let_def)
qed (simp_all add: parsed_closure_told)

lemma parsed_reactions:
  "parsed_of (foldl react c calls) = parsed_of c @ concat (map (\<lambda>n. emitted c (tc_closures c ! n)) (cbs calls))"
proof (induction calls arbitrary: c)
  case (Cons call calls)
  have "emitted (react c call) = emitted c" "tc_closures (react c call) = tc_closures c"
    using emitted_cong [of "react c call" c] bindingD(14) [of "react c call" c] by simp_all
  then show ?case using Cons.IH [of "react c call"] parsed_react [of c call] by (simp add: cbs_def)
qed (simp add: cbs_def)

section \<open>Delivered and parsed\<close>

text \<open>The events a run delivers: those with a position that reach the handlers of a bound transport.\<close>

definition delivered_now :: "controller \<Rightarrow> controller_event \<Rightarrow> (nat \<times> position) list" where
  "delivered_now c e = (case (tc_transport c, e) of
       (Some t, Output data None (Some p)) \<Rightarrow> [(t, p)]
     | (Some t, RemoteResize cols rows (Some p)) \<Rightarrow> [(t, p)]
     | _ \<Rightarrow> [])"

fun delivered_run :: "(nat \<Rightarrow> nat \<Rightarrow> bool) \<Rightarrow> controller \<Rightarrow> controller_event list \<Rightarrow> (nat \<times> position) list" where
  "delivered_run sync c [] = []"
| "delivered_run sync c (e # es) = delivered_now c e @ delivered_run sync (controller_step sync c e) es"

definition via :: "nat \<Rightarrow> (nat \<times> position) list \<Rightarrow> position list" where
  "via t xs = map snd (filter (\<lambda>x. fst x = t) xs)"

lemma via_append [simp]: "via t (xs @ ys) = via t xs @ via t ys"
  by (simp add: via_def)

lemma via_Nil [simp]: "via t [] = []"
  by (simp add: via_def)

definition position_of :: "nat \<Rightarrow> parsed_closure \<Rightarrow> position list" where
  "position_of t cl = (case event_of cl of None \<Rightarrow> [] | Some (term, transport, p) \<Rightarrow> if transport = t then [p] else [])"

definition waiting :: "nat \<Rightarrow> controller \<Rightarrow> position list" where
  "waiting t c = concat (map (\<lambda>n. position_of t (tc_closures c ! n)) (pending_cbs (tc_writer c)))"

definition closure_ok :: "controller \<Rightarrow> parsed_closure \<Rightarrow> bool" where
  "closure_ok c cl \<longleftrightarrow> (\<forall>term t p. event_of cl = Some (term, t, p) \<longrightarrow>
     t < tc_transports c \<and> (tc_transport c = Some t \<longrightarrow> tc_terminal c = Some term))"

text \<open>
  The invariant, with the events delivered so far: attachment, binding and limits are coherent; a
  repair is queued exactly when its microtask waits; for every transport what was reported is a prefix of what was
  delivered, and while the writer runs the rest of the current transport's events wait in it.
\<close>

definition controller_core :: "controller \<Rightarrow> bool" where
  "controller_core c \<longleftrightarrow> writer_inv (tc_writer c) \<and> new_writer (tc_limits c) \<noteq> None
     \<and> (tc_transport c \<noteq> None \<longrightarrow> tc_attached c \<and> the (tc_transport c) < tc_transports c \<and> tc_terminal c = Some (tc_boundTerminal c))
     \<and> (tc_attached c \<longrightarrow> tc_terminal c \<noteq> None \<and> tc_mountElement c \<noteq> None)
     \<and> (tc_terminal c = None \<or> tc_terminal c = Some (tc_instance c))
     \<and> tc_microtasks c = of_bool (tc_repairQueued c)
     \<and> list_all (closure_ok c) (tc_closures c)
     \<and> (running (tc_writer c) \<longrightarrow> (\<forall>n \<in> set (pending_cbs (tc_writer c)). n < length (tc_closures c)))
     \<and> tc_instanceDisposed c = tc_disposed c \<and> (tc_disposed c \<longrightarrow> \<not> tc_attached c)"

definition parsing_ok :: "(nat \<times> position) list \<Rightarrow> controller \<Rightarrow> bool" where
  "parsing_ok D c \<longleftrightarrow> controller_core c \<and> (\<forall>x \<in> set D. fst x < tc_transports c)
     \<and> (\<forall>t. prefix (via t (parsed_of c)) (via t D))
     \<and> (\<forall>t. tc_transport c = Some t \<and> running (tc_writer c) \<longrightarrow> via t (parsed_of c) @ waiting t c = via t D)"

text \<open>Fields a lemma's step leaves alone carry the invariant over.\<close>

definition frame_fields :: "controller \<Rightarrow> _" where
  "frame_fields c = ((tc_limits c, tc_writer c, tc_instance c, tc_instanceDisposed c, tc_terminal c, tc_transport c),
     (tc_transports c, tc_boundTerminal c, tc_mountElement c, tc_attached c, tc_repairQueued c, tc_microtasks c),
     (tc_disposed c, tc_closures c, parsed_of c))"

lemma parsing_ok_cong: "frame_fields d = frame_fields c \<Longrightarrow> parsing_ok D d = parsing_ok D c"
  by (simp add: frame_fields_def parsing_ok_def controller_core_def waiting_def closure_ok_def [abs_def])

lemma parsing_ok_tell: "parsed_call call = [] \<Longrightarrow> parsing_ok D (tell call c) = parsing_ok D c"
  by (rule parsing_ok_cong) (simp add: frame_fields_def, simp add: tell_def)

lemma emitted_position:
  assumes "closure_ok c cl" and "tc_transport c = Some t"
  shows "emitted c cl = map (Pair t) (position_of t cl)"
  using assms by (auto simp: emitted_def position_of_def closure_ok_def bound_to_def split: option.split)

lemma emitted_unbound: "tc_transport c = None \<Longrightarrow> emitted c cl = []"
  by (auto simp: emitted_def bound_to_def split: option.split)

lemma via_pairs: "via t (map (Pair s) ps) = (if t = s then ps else [])"
  by (simp add: via_def filter_map comp_def)

lemma queued_closure:
  "tc_microtasks (on_parsed_closure cl c) = tc_microtasks c \<and> tc_repairQueued (on_parsed_closure cl c) = tc_repairQueued c"
  by (cases cl) (simp_all add: event_parsed_def capture_parsed_def markSessionOutput_def tell_def Let_def split: option.split)

lemma queued_reactions:
  "tc_microtasks c = of_bool (tc_repairQueued c) \<Longrightarrow>
     tc_microtasks (foldl react c calls) = of_bool (tc_repairQueued (foldl react c calls))"
proof (induction calls arbitrary: c)
  case (Cons call calls)
  have "tc_microtasks (react c call) = of_bool (tc_repairQueued (react c call))"
    using Cons.prems queued_closure by (cases call) (auto simp: handleWriterDegraded_def tell_def Let_def)
  then show ?case using Cons.IH by simp
qed simp

lemma with_writer_core:
  assumes "controller_core c" and f: "f = (\<lambda>w. writer_step sync w e)"
    and asked: "list_all (\<lambda>n. n < length (tc_closures c)) (asked_callback e)"
  shows "controller_core (with_writer f c)"
proof -
  let ?w = "tc_writer c" and ?w' = "writer_step sync (tc_writer c) e"
  have inv: "writer_inv ?w" using assms(1) by (simp add: controller_core_def)
  have "\<forall>n \<in> set (pending_cbs ?w'). n < length (tc_closures c)" if "running ?w'"
    using callbacks_known [OF inv that] assms(1) asked by (fastforce simp: controller_core_def list_all_iff)
  moreover have "closure_ok d = closure_ok c" if "binding d = binding (c\<lparr>tc_writer := ?w'\<rparr>)" for d
    using bindingD(7-9) [OF that] by (simp add: closure_ok_def fun_eq_iff)
  moreover have "writer_inv ?w'" using inv by (rule writer_inv_step)
  ultimately show ?thesis
    using assms(1) queued_reactions [of "c\<lparr>tc_writer := ?w'\<rparr>"]
    by (simp add: controller_core_def with_writer_def f Let_def reacted)
qed

lemma with_writer_parsed:
  assumes "controller_core c" and f: "f = (\<lambda>w. writer_step sync w e)"
    and asked: "list_all (\<lambda>n. n < length (tc_closures c)) (asked_callback e)"
  shows "(case tc_transport c of
      None \<Rightarrow> parsed_of (with_writer f c) = parsed_of c
    | Some t \<Rightarrow> \<exists>ps. parsed_of (with_writer f c) = parsed_of c @ map (Pair t) ps
        \<and> (if running (tc_writer c) \<and> running (f (tc_writer c))
           then ps @ waiting t (with_writer f c) = waiting t c @ concat (map (\<lambda>n. position_of t (tc_closures c ! n)) (asked_callback e))
           else ps = [] \<and> \<not> running (f (tc_writer c))))"
proof -
  let ?w = "tc_writer c" and ?w' = "writer_step sync (tc_writer c) e"
  define new where "new = cbs (drop (length (wr_log ?w)) (wr_log ?w'))"
  have inv: "writer_inv ?w" using assms(1) by (simp add: controller_core_def)
  have cbs: "if running ?w \<and> running ?w' then new @ pending_cbs ?w' = pending_cbs ?w @ asked_callback e else new = [] \<and> \<not> running ?w'"
    unfolding new_def by (rule writer_callbacks [OF inv])
  have emit: "emitted (c\<lparr>tc_writer := ?w'\<rparr>) = emitted c"
    by (auto simp: emitted_def bound_to_def fun_eq_iff split: option.split)
  have parsed: "parsed_of (with_writer f c) = parsed_of c @ concat (map (\<lambda>n. emitted c (tc_closures c ! n)) new)"
    by (simp add: with_writer_def f Let_def parsed_reactions new_def emit parsed_cong [of "c\<lparr>tc_writer := ?w'\<rparr>" c])
  show ?thesis
  proof (cases "tc_transport c")
    case None
    then show ?thesis using parsed by (simp add: emitted_unbound)
  next
    case (Some t)
    have known: "n < length (tc_closures c)" if "n \<in> set new" for n
    proof -
      have "running ?w'" using cbs that by (auto split: if_splits)
      then have "running ?w" "n \<in> set (pending_cbs ?w) \<union> set (asked_callback e)"
        using callbacks_known [OF inv, of sync e n] that by (auto simp: new_def)
      then show ?thesis using assms(1) asked by (auto simp: controller_core_def list_all_iff)
    qed
    let ?at = "\<lambda>n. position_of t (tc_closures c ! n)"
    have "emitted c (tc_closures c ! n) = map (Pair t) (?at n)" if "n \<in> set new" for n
      using emitted_position [OF _ Some] assms(1) known [OF that] by (simp add: controller_core_def list_all_length)
    then have "concat (map (\<lambda>n. emitted c (tc_closures c ! n)) new) = map (Pair t) (concat (map ?at new))"
      by (simp add: map_concat comp_def cong: map_cong)
    then have told: "parsed_of (with_writer f c) = parsed_of c @ map (Pair t) (concat (map ?at new))" using parsed by simp
    have wait: "waiting t (with_writer f c) = concat (map ?at (pending_cbs ?w'))"
      by (simp add: waiting_def with_writer_def f Let_def reacted)
    show ?thesis
    proof (cases "running ?w \<and> running ?w'")
      case True
      then have "concat (map ?at (new @ pending_cbs ?w')) = concat (map ?at (pending_cbs ?w @ asked_callback e))" using cbs by simp
      then show ?thesis using told wait True Some by (auto simp: f waiting_def)
    next
      case False
      then have "new = []" "\<not> running ?w'" using cbs by (auto split: if_splits)
      then show ?thesis using told Some False by (auto simp: f)
    qed
  qed
qed

lemma with_writer_ok:
  assumes ok: "parsing_ok D c" and f: "f = (\<lambda>w. writer_step sync w e)"
    and asked: "list_all (\<lambda>n. n < length (tc_closures c)) (asked_callback e)"
    and D': "D' = D @ (case tc_transport c of None \<Rightarrow> [] | Some t \<Rightarrow> map (Pair t) (concat (map (\<lambda>n. position_of t (tc_closures c ! n)) (asked_callback e))))"
  shows "parsing_ok D' (with_writer f c)"
proof -
  have core: "controller_core c" using ok by (simp add: parsing_ok_def)
  note parsed = with_writer_parsed [OF core f asked]
  have same: "tc_transport (with_writer f c) = tc_transport c" "tc_transports (with_writer f c) = tc_transports c"
    "tc_writer (with_writer f c) = f (tc_writer c)"
    by (simp_all add: with_writer_def Let_def reacted)
  have low: "\<forall>x \<in> set D'. fst x < tc_transports c"
    using ok core D' by (auto simp: parsing_ok_def controller_core_def split: option.splits)
  have "prefix (via s (parsed_of (with_writer f c))) (via s D')
      \<and> (tc_transport c = Some s \<and> running (f (tc_writer c)) \<longrightarrow> via s (parsed_of (with_writer f c)) @ waiting s (with_writer f c) = via s D')" for s
  proof (cases "tc_transport c")
    case None
    then show ?thesis using ok parsed D' by (simp add: parsing_ok_def)
  next
    case (Some t)
    from parsed Some obtain ps where ps: "parsed_of (with_writer f c) = parsed_of c @ map (Pair t) ps"
      "if running (tc_writer c) \<and> running (f (tc_writer c))
       then ps @ waiting t (with_writer f c) = waiting t c @ concat (map (\<lambda>n. position_of t (tc_closures c ! n)) (asked_callback e))
       else ps = [] \<and> \<not> running (f (tc_writer c))" by auto
    have here: "via s D' = via s D @ (if s = t then concat (map (\<lambda>n. position_of t (tc_closures c ! n)) (asked_callback e)) else [])"
      using D' Some by (simp add: via_pairs)
    have told: "via s (parsed_of (with_writer f c)) = via s (parsed_of c) @ (if s = t then ps else [])"
      using ps(1) by (simp add: via_pairs)
    have before: "prefix (via s (parsed_of c)) (via s D)" using ok by (simp add: parsing_ok_def)
    show ?thesis
    proof (cases "s = t \<and> running (tc_writer c) \<and> running (f (tc_writer c))")
      case True
      then have "via s (parsed_of c) @ waiting s c = via s D" using ok Some by (simp add: parsing_ok_def)
      then have "via s (parsed_of (with_writer f c)) @ waiting s (with_writer f c) = via s D'"
        using True ps(2) told here by (simp add: append_eq_append_conv2) (metis append.assoc)
      then show ?thesis by (metis prefixI)
    next
      case False
      then have "(if s = t then ps else []) = []" "s = t \<longrightarrow> \<not> running (f (tc_writer c))" using ps(2) by (auto split: if_splits)
      then show ?thesis using before told here Some by auto
    qed
  qed
  then show ?thesis
    using with_writer_core [OF core f asked] low by (simp add: parsing_ok_def same)
qed

section \<open>Operations keep the invariant\<close>

lemma add_closure:
  assumes "parsing_ok D c" and "closure_ok c cl"
  shows "parsing_ok D (c\<lparr>tc_closures := tc_closures c @ [cl]\<rparr>)"
proof -
  let ?d = "c\<lparr>tc_closures := tc_closures c @ [cl]\<rparr>"
  have "closure_ok ?d = closure_ok c" by (simp add: closure_ok_def fun_eq_iff)
  moreover have "waiting t ?d = waiting t c" if "running (tc_writer c)" for t
    using assms(1) that by (auto simp: waiting_def parsing_ok_def controller_core_def nth_append intro!: arg_cong [of _ _ concat])
  ultimately show ?thesis
    using assms by (auto simp: parsing_ok_def controller_core_def parsed_cong [of ?d c])
qed

lemma plain_writer_event:
  assumes "parsing_ok D c" and "f = (\<lambda>w. writer_step sync w e)" and "asked_callback e = []"
  shows "parsing_ok D (with_writer f c)"
  by (rule with_writer_ok [OF assms(1,2)]) (simp_all add: assms(3) split: option.split)

lemma closure_writer_event:
  assumes "parsing_ok D c" and cl: "closure_ok c cl" and f: "f = (\<lambda>w. writer_step sync w e)"
    and e: "asked_callback e = [length (tc_closures c)]"
    and D': "D' = D @ (case tc_transport c of None \<Rightarrow> [] | Some t \<Rightarrow> map (Pair t) (position_of t cl))"
  shows "parsing_ok D' (with_writer f (c\<lparr>tc_closures := tc_closures c @ [cl]\<rparr>))"
  by (rule with_writer_ok [OF add_closure [OF assms(1) cl] f]) (simp_all add: e D' split: option.split)

lemma writer_events:
  "write_terminal sync d cb origin = (\<lambda>w. writer_step sync w (WriteEvent d cb origin))"
  "resize_terminal sync cols rows cb = (\<lambda>w. writer_step sync w (writer_event.ResizeEvent cols rows cb))"
  "parser_callback sync n = (\<lambda>w. writer_step sync w (ParserCallback n))"
  "parse_deadline n = (\<lambda>w. writer_step sync w (ParseDeadline n))"
  by (simp_all add: fun_eq_iff)

lemma asked_simps [simp]:
  "asked_callback (WriteEvent d cb origin) = numbers cb" "asked_callback (writer_event.ResizeEvent cols rows cb) = numbers cb"
  "asked_callback (ParserCallback n) = []" "asked_callback (ParseDeadline n) = []"
  "numbers None = []" "numbers (Some n) = [n]"
  by (simp_all add: asked_callback_def numbers_def)

lemma parsing_ok_fields:
  "parsing_ok D (c\<lparr>tc_bootstrapSequence := n\<rparr>) = parsing_ok D c" "parsing_ok D (adoptSessionCols cols c) = parsing_ok D c"
  "parsing_ok D (markSessionOutput c) = parsing_ok D c" "parsing_ok D (setObserverReadOnly v c) = parsing_ok D c"
  "parsing_ok D (c\<lparr>tc_hasSessionOutput := v\<rparr>) = parsing_ok D c"
  by (rule parsing_ok_cong, simp add: frame_fields_def parsed_of_def adoptSessionCols_def markSessionOutput_def setObserverReadOnly_def)+

lemma teardown_ok:
  assumes "parsing_ok D c"
  shows "parsing_ok D (teardownTransport c)"
proof -
  have "parsing_ok D (tell (TransportReady False) c)" using assms by (simp add: parsing_ok_tell)
  then show ?thesis
    by (auto simp: teardownTransport_def parsing_ok_def controller_core_def closure_ok_def parsed_of_def list_all_iff)
qed

lemma rewire_ok:
  assumes "parsing_ok D c" and "tc_attached c" and "tc_terminal c = Some term"
  shows "parsing_ok D (rewireTransport term c)"
proof -
  let ?c = "teardownTransport c" and ?t = "tc_transports c"
  let ?d = "?c\<lparr>tc_transport := Some ?t, tc_transports := Suc ?t, tc_boundTerminal := term\<rparr>"
  have same: "tc_transports ?c = ?t" "tc_terminal ?c = Some term" "tc_attached ?c" "tc_transport ?c = None" "parsed_of ?c = parsed_of c"
    using assms(2,3) by (simp_all add: teardownTransport_def tell_def parsed_of_def)
  have ok: "parsing_ok D ?c" by (rule teardown_ok [OF assms(1)])
  have below: "event_of cl = Some (tm, t, p) \<Longrightarrow> t < ?t" if "cl \<in> set (tc_closures ?c)" for cl tm t p
    using ok that same(1) by (auto simp: parsing_ok_def controller_core_def list_all_iff closure_ok_def)
  have "via ?t D = []" using ok same(1) by (auto simp: parsing_ok_def via_def filter_empty_conv)
  moreover have "prefix (via ?t (parsed_of ?c)) (via ?t D)" using ok unfolding parsing_ok_def by blast
  ultimately have fresh: "via ?t D = []" "via ?t (parsed_of ?c) = []" by simp_all
  have "waiting ?t ?d = []" if "running (tc_writer ?c)"
  proof -
    have "position_of ?t (tc_closures ?c ! n) = []" if "n \<in> set (pending_cbs (tc_writer ?c))" for n
      using below [of "tc_closures ?c ! n"] ok that \<open>running (tc_writer ?c)\<close>
      by (fastforce simp: position_of_def parsing_ok_def controller_core_def split: option.split)
    then show ?thesis by (simp add: waiting_def)
  qed
  moreover have "list_all (closure_ok ?d) (tc_closures ?c)" using below by (force simp: list_all_iff closure_ok_def)
  moreover have "parsed_of ?d = parsed_of ?c" by (rule parsed_cong) simp
  ultimately have "parsing_ok D ?d"
    using ok fresh same by (auto simp: parsing_ok_def controller_core_def)
  then have "parsing_ok D (tell (TransportReady True) ?d)" by (simp add: parsing_ok_tell)
  then show ?thesis by (simp add: rewireTransport_def Let_def same(1))
qed

lemma mount_ok: "parsing_ok D (mount_instance opens element c) = parsing_ok D c"
  "parsing_ok D (unmount_instance c) = parsing_ok D c"
  by (rule parsing_ok_cong, simp add: frame_fields_def parsed_of_def mount_instance_def unmount_instance_def)+

lemma mount_fields [simp]:
  "tc_attached (mount_instance opens element c) = tc_attached c" "tc_terminal (mount_instance opens element c) = tc_terminal c"
  "tc_attached (unmount_instance c) = tc_attached c" "tc_terminal (unmount_instance c) = tc_terminal c"
  "tc_transport (unmount_instance c) = tc_transport c" "tc_transport (mount_instance opens element c) = tc_transport c"
  "tc_mountElement (unmount_instance c) = tc_mountElement c" "tc_mountElement (mount_instance opens element c) = tc_mountElement c"
  "tc_disposed (mount_instance opens element c) = tc_disposed c" "tc_disposed (unmount_instance c) = tc_disposed c"
  "tc_instance (mount_instance opens element c) = tc_instance c" "tc_instance (unmount_instance c) = tc_instance c"
  by (simp_all add: mount_instance_def unmount_instance_def)

lemma teardown_fields [simp]:
  "tc_attached (teardownTransport c) = tc_attached c" "tc_terminal (teardownTransport c) = tc_terminal c"
  "tc_transport (teardownTransport c) = None" "tc_mountElement (teardownTransport c) = tc_mountElement c"
  "tc_disposed (teardownTransport c) = tc_disposed c" "tc_instance (teardownTransport c) = tc_instance c"
  by (simp_all add: teardownTransport_def tell_def)

lemma unattached_ok:
  assumes "parsing_ok D c" and "tc_transport c = None"
  shows "parsing_ok D (c\<lparr>tc_attached := False\<rparr>)" "parsing_ok D (c\<lparr>tc_attached := False, tc_mountElement := None\<rparr>)"
    "\<not> tc_attached c \<Longrightarrow> parsing_ok D (c\<lparr>tc_terminal := None\<rparr>)"
    "\<not> tc_disposed c \<Longrightarrow> tc_mountElement c \<noteq> None \<Longrightarrow> parsing_ok D (c\<lparr>tc_attached := True, tc_terminal := Some (tc_instance c)\<rparr>)"
  using assms by (auto simp: parsing_ok_def controller_core_def closure_ok_def parsed_of_def list_all_iff)

lemma unattached_unbound: "parsing_ok D c \<Longrightarrow> \<not> tc_attached c \<Longrightarrow> tc_transport c = None"
  unfolding parsing_ok_def controller_core_def by blast

lemma mount_element_ok: "parsing_ok D c \<Longrightarrow> parsing_ok D (c\<lparr>tc_mountElement := Some element\<rparr>)"
  by (auto simp: parsing_ok_def controller_core_def closure_ok_def parsed_of_def waiting_def list_all_iff)

lemma attach_ok:
  assumes "parsing_ok D c"
  shows "parsing_ok D (attach element opens c)"
proof (cases "tc_instanceDisposed c \<or> tc_disposed c")
  case True
  then show ?thesis using assms by (simp add: attach_def)
next
  case False
  define c1 where "c1 = c\<lparr>tc_mountElement := Some element\<rparr>"
  have c1: "parsing_ok D c1" "\<not> tc_disposed c1" "tc_mountElement c1 \<noteq> None" using mount_element_ok [OF assms] False by (simp_all add: c1_def)
  show ?thesis
  proof (cases "tc_attached c1 \<and> tc_parent c1 = Some element")
    case True
    then have "tc_terminal c1 = Some (tc_instance c1)" using c1(1) by (auto simp: parsing_ok_def controller_core_def)
    then have "parsing_ok D (rewireTransport (tc_instance c1) c1)" using rewire_ok [OF c1(1)] True by blast
    then show ?thesis using True False by (simp add: attach_def c1_def)
  next
    case here: False
    define c2 where "c2 = (if tc_attached c1 then (unmount_instance (teardownTransport c1))\<lparr>tc_attached := False\<rparr> else c1)"
    have detached: "parsing_ok D ((unmount_instance (teardownTransport c1))\<lparr>tc_attached := False\<rparr>)"
      using teardown_ok [OF c1(1)] by (intro unattached_ok(1)) (simp_all add: mount_ok)
    have "tc_transport c1 = None" if "\<not> tc_attached c1" by (rule unattached_unbound [OF c1(1) that])
    then have c2: "parsing_ok D c2" "tc_transport c2 = None" "\<not> tc_attached c2" "\<not> tc_disposed c2" "tc_mountElement c2 \<noteq> None"
      using c1 detached by (auto simp: c2_def)
    let ?c3 = "mount_instance opens element c2"
    have "parsing_ok D (?c3\<lparr>tc_attached := True, tc_terminal := Some (tc_instance ?c3)\<rparr>)"
      using c2 by (intro unattached_ok(4)) (simp_all add: mount_ok)
    then have "parsing_ok D (rewireTransport (tc_instance ?c3) (?c3\<lparr>tc_attached := True, tc_terminal := Some (tc_instance ?c3)\<rparr>))"
      by (rule rewire_ok) simp_all
    moreover have "parsing_ok D (teardownTransport ?c3)" using c2(1) by (intro teardown_ok) (simp add: mount_ok)
    ultimately show ?thesis using here False
      unfolding attach_def Let_def c1_def [symmetric] c2_def [symmetric] by (auto simp del: mount_fields)
  qed
qed

lemma detach_ok: "parsing_ok D c \<Longrightarrow> parsing_ok D (detach c)"
proof (cases "tc_attached c")
  case True
  assume ok: "parsing_ok D c"
  let ?c1 = "c\<lparr>tc_attached := False, tc_mountElement := None\<rparr>"
  have swap: "teardownTransport ?c1 = (teardownTransport c)\<lparr>tc_attached := False, tc_mountElement := None\<rparr>"
    by (simp add: teardownTransport_def tell_def)
  have "parsing_ok D (teardownTransport ?c1)" unfolding swap using teardown_ok [OF ok] by (intro unattached_ok(2)) simp_all
  then have "parsing_ok D ((unmount_instance (teardownTransport ?c1))\<lparr>tc_terminal := None\<rparr>)"
    by (intro unattached_ok(3)) (simp_all add: mount_ok)
  then show ?thesis using True by (simp add: detach_def)
qed (simp add: detach_def)

lemma disposed_writer: "writer_inv (dispose_writer w)" "\<not> running (dispose_writer w)"
  by (simp_all add: dispose_writer_def writer_inv_def writer_core_def running_def)

lemma dispose_ok:
  assumes "parsing_ok D c"
  shows "parsing_ok D (dispose_controller c)"
proof -
  have eq: "detach (c\<lparr>tc_disposed := True\<rparr>) = (detach c)\<lparr>tc_disposed := True\<rparr>"
    by (simp add: detach_def teardownTransport_def unmount_instance_def tell_def)
  have "parsing_ok D (detach c)" by (rule detach_ok [OF assms])
  moreover have "\<not> tc_attached (detach c)" "tc_transport (detach c) = None"
    using unattached_unbound [OF assms] by (cases "tc_attached c"; simp add: detach_def)+
  moreover define d where "d = detach c"
  ultimately have d: "parsing_ok D d" "\<not> tc_attached d" "tc_transport d = None" by simp_all
  let ?e = "d\<lparr>tc_disposed := True, tc_writer := dispose_writer (tc_writer d), tc_instanceDisposed := True\<rparr>"
  have "closure_ok ?e = closure_ok d" "parsed_of ?e = parsed_of d" by (simp_all add: closure_ok_def fun_eq_iff parsed_of_def)
  then have "parsing_ok D ?e" using d disposed_writer [of "tc_writer d"] by (simp add: parsing_ok_def controller_core_def)
  then show ?thesis by (simp add: dispose_controller_def Let_def eq d_def)
qed

lemma new_writer_ok: "new_writer limits = Some w \<Longrightarrow> writer_inv w \<and> running w \<and> pending_cbs w = [] \<and> wr_limits w = limits"
  using writer_inv_new [of limits w "[]"] by (auto simp: new_writer_def pending_cbs_def split: if_splits)

lemma swap_ok: "parsing_ok D c \<Longrightarrow> parsing_ok D (transport_swapped c)"
  by (auto simp: transport_swapped_def intro: rewire_ok split: option.split)

lemma rebuild_ok:
  assumes ok: "parsing_ok D c"
  shows "parsing_ok D (rebuildRenderer c)"
proof (cases "tc_disposed c \<or> tc_terminal c = None \<or> tc_attached c \<and> tc_mountElement c = None")
  case True
  then show ?thesis using ok by (auto simp: rebuildRenderer_def)
next
  case False
  obtain w where w: "new_writer (tc_limits c) = Some w" using ok by (auto simp: parsing_ok_def controller_core_def)
  note fresh = new_writer_ok [OF w]
  let ?t = "teardownTransport c"
  let ?c1 = "c\<lparr>tc_bootstrapSequence := Suc (tc_bootstrapSequence c), tc_instance := Suc (tc_instance c), tc_opened := False,
    tc_parent := None, tc_writer := w, tc_terminal := Some (Suc (tc_instance c)), tc_hasSessionOutput := False\<rparr>"
  have down: "parsing_ok D ?t" by (rule teardown_ok [OF ok])
  have "closure_ok (teardownTransport ?c1) = closure_ok ?t" "parsed_of (teardownTransport ?c1) = parsed_of ?t"
    by (simp_all add: closure_ok_def fun_eq_iff teardownTransport_def tell_def parsed_of_def)
  moreover have "tc_closures ?t = tc_closures c" "tc_limits ?t = tc_limits c" "tc_writer ?t = tc_writer c" "tc_transports ?t = tc_transports c"
    "tc_microtasks ?t = tc_microtasks c" "tc_repairQueued ?t = tc_repairQueued c" "tc_instanceDisposed ?t = tc_instanceDisposed c"
    by (simp_all add: teardownTransport_def tell_def)
  moreover have "tc_closures (teardownTransport ?c1) = tc_closures c" "tc_limits (teardownTransport ?c1) = tc_limits c"
    "tc_writer (teardownTransport ?c1) = w" "tc_transports (teardownTransport ?c1) = tc_transports c"
    "tc_microtasks (teardownTransport ?c1) = tc_microtasks c" "tc_repairQueued (teardownTransport ?c1) = tc_repairQueued c"
    "tc_instanceDisposed (teardownTransport ?c1) = tc_instanceDisposed c"
    by (simp_all add: teardownTransport_def tell_def)
  ultimately have torn: "parsing_ok D (teardownTransport ?c1)"
    using down fresh by (simp add: parsing_ok_def controller_core_def)
  show ?thesis
  proof (cases "tc_attached c")
    case True
    then obtain e where e: "tc_mountElement c = Some e" using False by auto
    have same: "rewireTransport (Suc (tc_instance c)) (mount_instance True e ?c1)
        = rewireTransport (Suc (tc_instance c)) (mount_instance True e (teardownTransport ?c1)\<lparr>tc_told := tc_told c\<rparr>)"
      by (simp add: rewireTransport_def teardownTransport_def mount_instance_def tell_def)
    have "parsing_ok D (mount_instance True e (teardownTransport ?c1)\<lparr>tc_told := tc_told c\<rparr>)"
    proof -
      have "parsed_of (mount_instance True e (teardownTransport ?c1)\<lparr>tc_told := tc_told c\<rparr>) = parsed_of (mount_instance True e (teardownTransport ?c1))"
        by (simp add: parsed_of_def mount_instance_def teardownTransport_def tell_def)
      then have "parsing_ok D (mount_instance True e (teardownTransport ?c1)\<lparr>tc_told := tc_told c\<rparr>) = parsing_ok D (mount_instance True e (teardownTransport ?c1))"
        by (intro parsing_ok_cong) (simp add: frame_fields_def)
      then show ?thesis using torn by (simp add: mount_ok)
    qed
    then have "parsing_ok D (rewireTransport (Suc (tc_instance c)) (mount_instance True e ?c1))"
      unfolding same by (rule rewire_ok) (simp_all add: True)
    then show ?thesis using False True e w by (auto simp: rebuildRenderer_def Let_def parsing_ok_tell)
  next
    case False': False
    then have "tc_transport c = None" using unattached_unbound [OF ok] by simp
    then have "teardownTransport ?c1 = tell (TransportReady False) ?c1" by (simp add: teardownTransport_def tell_def)
    then have "parsing_ok D ?c1" using torn by (simp add: parsing_ok_tell)
    then show ?thesis using False False' w by (auto simp: rebuildRenderer_def Let_def parsing_ok_tell)
  qed
qed

lemma with_writer_binding [simp]:
  "tc_transport (with_writer f c) = tc_transport c" "tc_closures (with_writer f c) = tc_closures c"
  "tc_terminal (with_writer f c) = tc_terminal c" "tc_transports (with_writer f c) = tc_transports c"
  "tc_boundTerminal (with_writer f c) = tc_boundTerminal c" "tc_instance (with_writer f c) = tc_instance c"
  by (simp_all add: with_writer_def Let_def reacted)

lemma adopt_binding [simp]:
  "tc_transport (adoptSessionCols cols c) = tc_transport c" "tc_closures (adoptSessionCols cols c) = tc_closures c"
  "tc_terminal (adoptSessionCols cols c) = tc_terminal c" "tc_transports (adoptSessionCols cols c) = tc_transports c"
  "tc_boundTerminal (adoptSessionCols cols c) = tc_boundTerminal c" "tc_instance (adoptSessionCols cols c) = tc_instance c"
  by (simp_all add: adoptSessionCols_def)

lemma bound_closure_ok:
  assumes "parsing_ok D c" and "tc_transport c = Some t" and "event_of cl = None \<or> (\<exists>p. event_of cl = Some (tc_boundTerminal c, t, p))"
  shows "closure_ok c cl"
  using assms by (auto simp: closure_ok_def parsing_ok_def controller_core_def)

lemma output_ok:
  assumes ok: "parsing_ok D c"
  shows "parsing_ok (D @ delivered_now c (Output data bootstrap pos)) (on_output sync data bootstrap pos c)"
proof (cases "tc_transport c")
  case None
  then show ?thesis using ok by (simp add: on_output_def delivered_now_def)
next
  case (Some t)
  let ?sync = "sync (tc_instance c)"
  show ?thesis
  proof (cases bootstrap)
    case None
    let ?cl = "OutputParsed None None pos (tc_boundTerminal c) t"
    have cl: "closure_ok c ?cl" by (rule bound_closure_ok [OF ok Some]) (cases pos; simp)
    have "parsing_ok (D @ delivered_now c (Output data bootstrap pos))
      (with_writer (write_terminal ?sync (BytesData data) (Some (length (tc_closures c))) ''live'') (c\<lparr>tc_closures := tc_closures c @ [?cl]\<rparr>))"
      by (rule closure_writer_event [OF ok cl writer_events(1)])
        (cases pos; simp add: None Some delivered_now_def position_of_def)+
    then show ?thesis by (simp add: on_output_def None Some Let_def parsing_ok_fields)
  next
    case boot: (Some b)
    define c0 where "c0 = (case (paneCols b, paneRows b) of
        (Some cols, Some rows) \<Rightarrow> with_writer (resize_terminal ?sync cols rows None) (adoptSessionCols cols c) | _ \<Rightarrow> c)"
    have c0: "parsing_ok D c0" "tc_transport c0 = Some t" "tc_boundTerminal c0 = tc_boundTerminal c" "tc_instance c0 = tc_instance c"
      using ok Some plain_writer_event [OF _ writer_events(2)]
      by (auto simp: c0_def parsing_ok_fields split: option.split)
    define wipe where "wipe = TextData (if replayReplacesBuffer bootstrap then BOOTSTRAP_BUFFER_RESET else BOOTSTRAP_SCREEN_RESET)"
    define c1 where "c1 = with_writer (write_terminal ?sync wipe None ''replay'') c0"
    define c2 where "c2 = c1\<lparr>tc_bootstrapSequence := Suc (tc_bootstrapSequence c1)\<rparr>"
    have c1: "parsing_ok D c1" unfolding c1_def by (rule plain_writer_event [OF c0(1) writer_events(1)]) simp
    have c2: "parsing_ok D c2" "tc_transport c2 = Some t" "tc_boundTerminal c2 = tc_boundTerminal c" "tc_instance c2 = tc_instance c"
      using c1 c0 by (simp_all add: c2_def parsing_ok_fields c1_def)
    let ?cl = "OutputParsed (Some (tc_bootstrapSequence c2)) bootstrap pos (tc_boundTerminal c) t"
    have cl: "closure_ok c2 ?cl" by (rule bound_closure_ok [OF c2(1,2)]) simp
    have "parsing_ok (D @ delivered_now c (Output data bootstrap pos))
      (with_writer (write_terminal ?sync (BytesData data) (Some (length (tc_closures c2))) ''replay'') (c2\<lparr>tc_closures := tc_closures c2 @ [?cl]\<rparr>))"
      by (rule closure_writer_event [OF c2(1) cl writer_events(1)])
        (simp_all add: boot Some c2(2) delivered_now_def position_of_def)
    moreover have "on_output sync data bootstrap pos c
        = with_writer (write_terminal ?sync (BytesData data) (Some (length (tc_closures c2))) ''replay'') (c2\<lparr>tc_closures := tc_closures c2 @ [?cl]\<rparr>)"
      using c2(4) c0(4) by (simp add: on_output_def boot Some Let_def c2_def c1_def wipe_def c0_def)
    ultimately show ?thesis by simp
  qed
qed

lemma remote_resize_ok:
  assumes ok: "parsing_ok D c"
  shows "parsing_ok (D @ delivered_now c (RemoteResize cols rows pos)) (on_remote_resize sync cols rows pos c)"
proof (cases "tc_transport c")
  case None
  then show ?thesis using ok by (simp add: on_remote_resize_def delivered_now_def)
next
  case (Some t)
  let ?c1 = "adoptSessionCols cols c" and ?cl = "ResizeApplied pos (tc_boundTerminal c) t"
  have c1: "parsing_ok D ?c1" using ok by (simp add: parsing_ok_fields)
  have cl: "closure_ok ?c1 ?cl" by (rule bound_closure_ok [OF c1, where t = t]) (simp add: Some; cases pos; simp)+
  have "parsing_ok (D @ delivered_now c (RemoteResize cols rows pos))
    (with_writer (resize_terminal (sync (tc_instance c)) cols rows (Some (length (tc_closures ?c1)))) (?c1\<lparr>tc_closures := tc_closures ?c1 @ [?cl]\<rparr>))"
    by (rule closure_writer_event [OF c1 cl writer_events(2)]) (cases pos; simp add: Some delivered_now_def position_of_def)+
  then show ?thesis by (simp add: on_remote_resize_def Some Let_def)
qed

lemma local_ok:
  assumes ok: "parsing_ok D c"
  shows "parsing_ok D (write_local sync data c)"
proof -
  have "closure_ok c LocalParsed" by (simp add: closure_ok_def)
  then have "parsing_ok D (with_writer (write_terminal (sync (tc_instance c)) data (Some (length (tc_closures c))) ''replay'')
      (c\<lparr>tc_closures := tc_closures c @ [LocalParsed]\<rparr>))"
    by (rule closure_writer_event [OF ok _ writer_events(1)]) (simp_all add: position_of_def split: option.split)
  then show ?thesis using ok by (simp add: write_local_def)
qed

lemma take_microtask:
  assumes "parsing_ok D c" and "tc_microtasks c \<noteq> 0"
  shows "parsing_ok D (c\<lparr>tc_microtasks := tc_microtasks c - 1, tc_repairQueued := False\<rparr>)"
proof -
  let ?d = "c\<lparr>tc_microtasks := tc_microtasks c - 1, tc_repairQueued := False\<rparr>"
  have "closure_ok ?d = closure_ok c" "waiting t ?d = waiting t c" "parsed_of ?d = parsed_of c" for t
    by (simp_all add: closure_ok_def fun_eq_iff waiting_def parsed_of_def)
  moreover have "tc_microtasks c = 1" using assms by (simp add: parsing_ok_def controller_core_def split: if_splits)
  ultimately show ?thesis using assms(1) by (simp add: parsing_ok_def controller_core_def)
qed

lemma step_ok:
  assumes ok: "parsing_ok D c"
  shows "parsing_ok (D @ delivered_now c e) (controller_step sync c e)"
proof (cases e)
  case (Output data bootstrap pos)
  then show ?thesis using output_ok [OF ok] by simp
next
  case (RemoteResize cols rows pos)
  then show ?thesis using remote_resize_ok [OF ok] by simp
next
  case Microtask
  then show ?thesis
    using ok rebuild_ok [OF take_microtask [OF ok]] by (simp add: run_microtask_def delivered_now_def split: option.split)
next
  case (ParserDone n)
  have "parsing_ok D (with_writer (parser_callback (sync (tc_instance c)) n) c)"
    by (rule plain_writer_event [OF ok writer_events(3)]) simp
  then show ?thesis using ParserDone by (simp add: delivered_now_def split: option.split)
next
  case (DeadlinePassed n)
  have "parsing_ok D (with_writer (parse_deadline n) c)"
    by (rule plain_writer_event [OF ok writer_events(4)]) simp
  then show ?thesis using DeadlinePassed by (simp add: delivered_now_def split: option.split)
next
  case (LocalResize cols rows)
  have "parsing_ok D (with_writer (resize_terminal (sync (tc_instance c)) cols rows None) c)"
    by (rule plain_writer_event [OF ok writer_events(2)]) simp
  then show ?thesis using LocalResize by (simp add: resizeLocal_def delivered_now_def split: option.split)
next
  case (ProtocolBytes data)
  then show ?thesis using ok by (simp add: sendProtocolBytes_def delivered_now_def parsing_ok_tell split: option.split)
qed (use ok attach_ok detach_ok dispose_ok swap_ok local_ok in
  \<open>simp_all add: delivered_now_def parsing_ok_fields split: option.split\<close>)

lemma run_ok: "parsing_ok D c \<Longrightarrow> parsing_ok (D @ delivered_run sync c es) (foldl (controller_step sync) c es)"
proof (induction es arbitrary: D c)
  case (Cons e es)
  from Cons.IH [OF step_ok [OF Cons.prems, of e sync]] show ?case by simp
qed simp

lemma new_controller_ok: "new_controller limits cols = Some c \<Longrightarrow> parsing_ok [] c"
  using new_writer_ok [of limits] by (auto simp: new_controller_def parsing_ok_def controller_core_def parsed_of_def split: option.splits)

interpretation terminal_controller: event_machine "controller_step sync" "\<lambda>c. \<exists>D. parsing_ok D c" for sync
  by unfold_locales (use step_ok in blast)


definition sample_output :: "int \<Rightarrow> int \<Rightarrow> controller_event" where
  "sample_output b seq = Output [word_of_int b] None (Some \<lparr>pos_epoch = 1, pos_seq = seq\<rparr>)"

definition demo_controller :: controller where
  "demo_controller = the (new_controller DEFAULT_WRITER_LIMITS None)"

lemma demo_controller: "new_controller DEFAULT_WRITER_LIMITS None = Some demo_controller"
  by (simp add: demo_controller_def new_controller_def new_writer_def DEFAULT_WRITER_LIMITS_def positive_limit_def
      isSafeInteger_def MAX_SAFE_INTEGER_def)

definition swapped_run :: "controller_event list" where
  "swapped_run = [AttachTo 1 True, sample_output 65 1, TransportSwapped, sample_output 66 2,
     RemoteResize 80 24 (Some \<lparr>pos_epoch = 1, pos_seq = 3\<rparr>), ParserDone 0]"


section \<open>A halted writer is replaced\<close>

lemma writer_flags [simp]:
  "wr_disposed (log_call call w) = wr_disposed w" "wr_halted (log_call call w) = wr_halted w"
  "wr_disposed (run_callback cb w) = wr_disposed w" "wr_halted (run_callback cb w) = wr_halted w"
  "wr_disposed (apply_resize cols rows w) = wr_disposed w" "wr_halted (apply_resize cols rows w) = wr_halted w"
  "wr_disposed (start_write item w) = wr_disposed w" "wr_halted (start_write item w) = wr_halted w"
  "wr_disposed (snd (on_parsed item w)) = wr_disposed w" "wr_halted (snd (on_parsed item w)) = wr_halted w"
  by (simp_all add: on_parsed_def start_write_def log_call_def run_callback_def apply_resize_def split: option.split)

lemma drain_flags: "wr_disposed (drain_writer sync w) = wr_disposed w \<and> wr_halted (drain_writer sync w) = wr_halted w"
proof (induction sync w rule: drain_writer.induct)
  case (1 sync w)
  show ?case
  proof (cases "wr_disposed w \<or> wr_halted w \<or> wr_parsePending w \<or> wr_operations w = []")
    case True
    then have "drain_writer sync w = w" by (auto simp: drain_writer.simps [of sync w] split: list.split)
    then show ?thesis by simp
  next
    case False
    then obtain item rest where ops: "wr_operations w = item # rest" by (cases "wr_operations w") auto
    have go: "\<not> (wr_disposed w \<or> wr_halted w \<or> wr_parsePending w)" using False by simp
    show ?thesis
    proof (cases item)
      case (ResizeOp cols rows cb b)
      show ?thesis using 1(3) [OF go ops refl ResizeOp] go ops ResizeOp by (simp add: drain_writer.simps [of sync w] Let_def)
    next
      case (WriteOp d cb og b)
      show ?thesis
      proof (cases "sync (wr_writes w)")
        case True
        show ?thesis using 1(1) [OF go ops refl WriteOp refl True] go ops WriteOp True
          by (simp add: drain_writer.simps [of sync w] Let_def)
      next
        case False
        show ?thesis using 1(2) [OF go ops refl WriteOp refl False] go ops WriteOp False
          by (simp add: drain_writer.simps [of sync w] Let_def)
      qed
    qed
  qed
qed

lemma halts_loudly:
  assumes "wr_halted (writer_step sync w e)" and "\<not> wr_halted w" and "e \<noteq> DisposeWriter"
  shows "\<exists>r. wr_log (writer_step sync w e) = wr_log w @ [Degraded r]"
proof -
  have deg: "wr_halted (degrade r w) \<Longrightarrow> wr_log (degrade r w) = wr_log w @ [Degraded r]" for r
    using assms(2) by (auto simp: degrade_def log_call_def split: if_splits)
  have enq: "wr_halted (enqueue sync item w) \<Longrightarrow> wr_log (enqueue sync item w) = wr_log w @ [Degraded Overflow]" for item
    using assms(2) deg [of Overflow] by (auto simp: enqueue_def drain_flags split: if_splits)
  show ?thesis
    using assms deg enq
    by (cases e) (auto simp: write_terminal_def resize_terminal_def parser_callback_def parse_deadline_def on_parsed_def
        run_callback_def log_call_def drain_flags split: option.splits if_splits prod.splits)
qed

definition repair_ok :: "controller \<Rightarrow> bool" where
  "repair_ok c \<longleftrightarrow> tc_disposed c \<or> tc_terminal c \<noteq> None \<and> (wr_halted (tc_writer c) \<longrightarrow> tc_repairQueued c)"

lemma queued_stays: "tc_repairQueued c \<Longrightarrow> tc_repairQueued (foldl react c calls)"
proof (induction calls arbitrary: c)
  case (Cons call calls)
  have "tc_repairQueued (react c call)"
    using Cons.prems queued_closure by (cases call) (auto simp: handleWriterDegraded_def tell_def Let_def)
  then show ?case using Cons.IH by simp
qed simp

lemma with_writer_repair:
  assumes rep: "repair_ok c" and f: "f = (\<lambda>w. writer_step sync w e)" and e: "e \<noteq> DisposeWriter"
  shows "repair_ok (with_writer f c)"
proof (cases "tc_disposed c \<or> \<not> wr_halted (f (tc_writer c))")
  case True
  then show ?thesis using rep by (auto simp: repair_ok_def with_writer_def Let_def reacted)
next
  case False
  let ?c1 = "c\<lparr>tc_writer := f (tc_writer c)\<rparr>"
  have "tc_repairQueued (with_writer f c)"
  proof (cases "wr_halted (tc_writer c)")
    case True
    then show ?thesis using rep False by (auto simp: repair_ok_def with_writer_def Let_def intro: queued_stays)
  next
    case new: False
    obtain r where "wr_log (f (tc_writer c)) = wr_log (tc_writer c) @ [Degraded r]"
      using halts_loudly [OF _ new e, of sync] False f by auto
    then show ?thesis using False by (simp add: with_writer_def Let_def handleWriterDegraded_def tell_def)
  qed
  then show ?thesis using rep by (auto simp: repair_ok_def with_writer_def Let_def reacted)
qed

lemma repair_fields:
  "repair_ok (c\<lparr>tc_bootstrapSequence := n\<rparr>) = repair_ok c" "repair_ok (adoptSessionCols cols c) = repair_ok c"
  "repair_ok (markSessionOutput c) = repair_ok c" "repair_ok (setObserverReadOnly v c) = repair_ok c"
  "repair_ok (tell call c) = repair_ok c" "repair_ok (teardownTransport c) = repair_ok c"
  "repair_ok (rewireTransport t c) = repair_ok c" "repair_ok (mount_instance opens element c) = repair_ok c"
  "repair_ok (unmount_instance c) = repair_ok c" "repair_ok (c\<lparr>tc_attached := v\<rparr>) = repair_ok c"
  "repair_ok (c\<lparr>tc_mountElement := m\<rparr>) = repair_ok c" "repair_ok (c\<lparr>tc_closures := cls\<rparr>) = repair_ok c"
  by (simp_all add: repair_ok_def tell_def teardownTransport_def rewireTransport_def mount_instance_def unmount_instance_def
      adoptSessionCols_def markSessionOutput_def setObserverReadOnly_def Let_def)


lemma output_repair: "repair_ok c \<Longrightarrow> repair_ok (on_output sync data bootstrap pos c)"
  unfolding on_output_def write_terminal_def [symmetric]
  by (auto simp: Let_def repair_fields split: option.split
      intro!: with_writer_repair [OF _ writer_events(1)] with_writer_repair [OF _ writer_events(2)])

lemma rebuild_repair:
  assumes "parsing_ok D c" and "tc_disposed c \<or> tc_terminal c \<noteq> None"
  shows "repair_ok (rebuildRenderer c)"
proof (cases "tc_disposed c")
  case True
  then show ?thesis by (simp add: rebuildRenderer_def repair_ok_def)
next
  case False
  have core: "tc_attached c \<longrightarrow> tc_mountElement c \<noteq> None" "new_writer (tc_limits c) \<noteq> None"
    using assms(1) by (simp_all add: parsing_ok_def controller_core_def)
  then have "\<not> wr_halted (the (new_writer (tc_limits c)))" using new_writer_ok by (auto simp: running_def)
  then show ?thesis
    using False assms(2) core(1) by (auto simp: rebuildRenderer_def Let_def repair_fields split: option.split)
      (simp_all add: repair_ok_def)
qed

lemma repair_step:
  assumes ok: "parsing_ok D c" and rep: "repair_ok c" and e: "e \<noteq> Detach"
  shows "repair_ok (controller_step sync c e)"
proof (cases e)
  case (AttachTo element opens)
  have "repair_ok (c\<lparr>tc_attached := True, tc_terminal := Some i\<rparr>)" if "repair_ok c" for c i
    using that by (auto simp: repair_ok_def)
  then show ?thesis using AttachTo rep by (simp add: attach_def Let_def repair_fields)
next
  case DisposeController
  then show ?thesis by (simp add: dispose_controller_def Let_def repair_ok_def detach_def teardownTransport_def tell_def unmount_instance_def)
next
  case Microtask
  show ?thesis
  proof (cases "tc_microtasks c = 0")
    case False
    let ?d = "c\<lparr>tc_microtasks := tc_microtasks c - 1, tc_repairQueued := False\<rparr>"
    have "tc_disposed ?d \<or> tc_terminal ?d \<noteq> None" using rep by (auto simp: repair_ok_def)
    then have "repair_ok (rebuildRenderer ?d)" by (rule rebuild_repair [OF take_microtask [OF ok False]])
    then show ?thesis by (simp add: Microtask False run_microtask_def)
  qed (simp add: Microtask rep run_microtask_def)
qed (use rep e in \<open>auto simp: repair_fields transport_swapped_def output_repair on_remote_resize_def write_local_def
    resizeLocal_def sendProtocolBytes_def Let_def split: option.split
    intro!: with_writer_repair [OF _ writer_events(1)] with_writer_repair [OF _ writer_events(2)]
      with_writer_repair [OF _ writer_events(3)] with_writer_repair [OF _ writer_events(4)]\<close>)

lemma repair_run:
  "parsing_ok D c \<Longrightarrow> repair_ok c \<Longrightarrow> Detach \<notin> set es \<Longrightarrow> repair_ok (foldl (controller_step sync) c es)"
proof (induction es arbitrary: D c)
  case (Cons e es)
  then show ?case using Cons.IH [OF step_ok [OF Cons.prems(1), of e sync] repair_step [OF Cons.prems(1,2), of e sync]] by auto
qed simp

text \<open>What the repair's microtask does when it finds a renderer.\<close>

lemma microtask_rebuilds:
  assumes "parsing_ok D c" and "tc_repairQueued c" and "\<not> tc_disposed c" and "tc_terminal c \<noteq> None"
  shows "let d = controller_step sync c Microtask
    in new_writer (tc_limits c) = Some (tc_writer d) \<and> running (tc_writer d)
       \<and> tc_instance d = Suc (tc_instance c) \<and> tc_terminal d = Some (tc_instance d)
       \<and> \<not> tc_hasSessionOutput d \<and> last (tc_told d) = RendererReplaced
       \<and> tc_attached d = tc_attached c \<and> (tc_attached c \<longrightarrow> tc_transport d = Some (tc_transports c))"
proof -
  have core: "tc_attached c \<longrightarrow> tc_mountElement c \<noteq> None" "new_writer (tc_limits c) \<noteq> None" "tc_microtasks c = 1"
    "tc_instanceDisposed c = tc_disposed c"
    using assms(1,2) by (simp_all add: parsing_ok_def controller_core_def)
  obtain w where w: "new_writer (tc_limits c) = Some w" using core(2) by auto
  then have "running w" using new_writer_ok by blast
  then show ?thesis using core assms(3,4) w
    by (auto simp: run_microtask_def rebuildRenderer_def Let_def rewireTransport_def teardownTransport_def tell_def
        mount_instance_def split: option.split)
qed


definition stalled_run :: "controller_event list" where
  "stalled_run = [AttachTo 1 True, sample_output 65 1, DeadlinePassed 0]"


section \<open>Where the code falls short of its comments\<close>

text \<open>
  A halt whose repair is due while the viewport is detached is not repaired: \<open>detach\<close> clears \<open>_terminal\<close>,
  the microtask gives up, and the next \<open>attach\<close> binds a transport to the halted writer, which drops its output.
\<close>

definition detached_stall :: "controller_event list" where
  "detached_stall = stalled_run @ [Detach, Microtask, AttachTo 1 True, sample_output 66 2]"

lemma halted_detached_not_repaired:
  "let c = foldl (controller_step (\<lambda>i n. False)) demo_controller detached_stall
   in wr_halted (tc_writer c) \<and> \<not> tc_disposed c \<and> tc_attached c \<and> tc_transport c = Some 1
      \<and> tc_instance c = 0 \<and> \<not> tc_repairQueued c \<and> tc_microtasks c = 0 \<and> wr_writes (tc_writer c) = 1"
  by code_simp

text \<open>The statement that a capture was parsed outlives the renderer that parsed it.\<close>

definition sample_bootstrap :: terminal_bootstrap where
  "sample_bootstrap = \<lparr>requestedLines = 0, truncated = False, cutConsistency = None, fidelity = None,
     bs_streamEpoch = None, bs_throughSeq = None, paneCols = None, paneRows = None\<rparr>"

definition captured_stall :: "controller_event list" where
  "captured_stall = [AttachTo 1 True, Output [65] (Some sample_bootstrap) None, ParserDone 0, ParserDone 1,
     sample_output 66 2, DeadlinePassed 2, Microtask]"

lemma parsed_capture_survives_replacement:
  "let c = foldl (controller_step (\<lambda>i n. False)) demo_controller captured_stall
   in tc_instance c = 1 \<and> wr_writes (tc_writer c) = 0 \<and> \<not> tc_hasSessionOutput c \<and> tc_hasParsedCapture c"
  by code_simp

end
