(* ===== verification/Address_Policy.thy ===== *)
theory Address_Policy
  imports Nession_Prelude
begin

text \<open>
  Which address a session's direct connection dials, and what follows when it is lost
  (\<^verbatim>\<open>web/src/platform/attach/AddressAttachPolicy.ts\<close>), and the address with its credential
  (\<^verbatim>\<open>web/src/shared/lib/agentWsUrl.ts\<close>). URLs and tokens are strings of characters up to U+00FF.
  \<open>ai_expiresAtMs\<close> is the stated deadline of the credential as \<open>Date.parse\<close> reads it, when it can.
\<close>

datatype attach_kind = DirectAttach | RelayAttach

record attach_info =
  ai_mode :: attach_kind
  ai_session_id :: string
  ai_agent_address :: "string option"
  ai_connection_token :: "string option"
  ai_expiresAtMs :: "int option"

record address_policy =
  po_attachInfo :: "attach_info option"
  po_orderedUrls :: "string list option"
  po_manualOverride :: "string option"
  po_forcedRelay :: bool
  po_addressUrls :: "string list"
  po_addressIndex :: nat
  po_planUrlsKey :: string

datatype policy_action = NoAction | NextCandidate | ForceRelayAction | TransportExhaustedAction bool

fun join_strings :: "string \<Rightarrow> string list \<Rightarrow> string" where
  "join_strings sep [] = []"
| "join_strings sep [x] = x"
| "join_strings sep (x # y # ys) = x @ sep @ join_strings sep (y # ys)"

text \<open>A JavaScript string or null as a condition.\<close>

definition truthy :: "string option \<Rightarrow> bool" where
  "truthy s = (case s of None \<Rightarrow> False | Some t \<Rightarrow> t \<noteq> [])"

definition new_policy ::
  "attach_info option \<Rightarrow> string list option \<Rightarrow> string option \<Rightarrow> bool \<Rightarrow> string list \<Rightarrow> address_policy" where
  "new_policy info ordered manual forced urls =
     \<lparr>po_attachInfo = info, po_orderedUrls = ordered, po_manualOverride = manual, po_forcedRelay = forced,
      po_addressUrls = urls, po_addressIndex = 0, po_planUrlsKey = join_strings '','' urls\<rparr>"

definition isP2P :: "address_policy \<Rightarrow> bool" where
  "isP2P p \<longleftrightarrow> map_option ai_mode (po_attachInfo p) = Some DirectAttach \<and> \<not> po_forcedRelay p"

definition activeUrl_of :: "address_policy \<Rightarrow> string option" where
  "activeUrl_of p =
     (if \<not> isP2P p then None
      else if truthy (po_manualOverride p) then po_manualOverride p
      else if po_addressIndex p < length (po_addressUrls p) then Some (po_addressUrls p ! po_addressIndex p) else None)"

definition isManualRoute :: "address_policy \<Rightarrow> bool" where
  "isManualRoute p \<longleftrightarrow> po_manualOverride p \<noteq> None"

text \<open>\<open>update\<close> is given the changed configuration; the plan's key says whether the index still means anything.\<close>

definition update_policy :: "(address_policy \<Rightarrow> address_policy) \<Rightarrow> address_policy \<Rightarrow> address_policy" where
  "update_policy change p =
     (let prevKey = po_planUrlsKey p; p1 = change p; nextKey = join_strings '','' (po_addressUrls p1)
      in if nextKey \<noteq> prevKey then p1\<lparr>po_planUrlsKey := nextKey, po_addressIndex := 0\<rparr> else p1)"

definition resetIndex :: "address_policy \<Rightarrow> address_policy" where
  "resetIndex p = p\<lparr>po_addressIndex := 0\<rparr>"

definition onCandidateDisconnected :: "address_policy \<Rightarrow> policy_action \<times> address_policy" where
  "onCandidateDisconnected p =
     (if po_attachInfo p = None then (NoAction, p)
      else if truthy (po_manualOverride p) then (TransportExhaustedAction True, p)
      else if po_addressIndex p + 1 < length (po_addressUrls p)
      then (NextCandidate, p\<lparr>po_addressIndex := po_addressIndex p + 1\<rparr>)
      else (ForceRelayAction, p))"

definition maxReconnectAttempts :: "address_policy \<Rightarrow> int" where
  "maxReconnectAttempts p =
     (if truthy (po_manualOverride p) then 2
      else
        let hasMoreCandidates = po_addressIndex p + 1 < length (po_addressUrls p);
            singleLegacyFallback =
              (case po_addressUrls p of
                 [url] \<Rightarrow> Some url = Option.bind (po_attachInfo p) ai_agent_address
                   \<and> (case po_orderedUrls p of None \<Rightarrow> True | Some us \<Rightarrow> us = [])
               | _ \<Rightarrow> False)
        in if hasMoreCandidates \<or> singleLegacyFallback then 2 else 10)"

section \<open>The dialled URL\<close>

definition hex_digit :: "nat \<Rightarrow> char" where
  "hex_digit n = ''0123456789ABCDEF'' ! n"

definition percent :: "nat \<Rightarrow> string" where
  "percent n = ''%'' @ [hex_digit (n div 16), hex_digit (n mod 16)]"

definition is_alpha :: "char \<Rightarrow> bool" where
  "is_alpha c \<longleftrightarrow> (let n = of_char c :: nat in (65 \<le> n \<and> n \<le> 90) \<or> (97 \<le> n \<and> n \<le> 122))"

definition is_digit :: "char \<Rightarrow> bool" where
  "is_digit c \<longleftrightarrow> (let n = of_char c :: nat in 48 \<le> n \<and> n \<le> 57)"

text \<open>\<open>encodeURIComponent\<close>: unreserved characters stay, the others become the bytes of their UTF-8 form.\<close>

definition encode_char :: "char \<Rightarrow> string" where
  "encode_char c =
     (let n = of_char c :: nat
      in if is_alpha c \<or> is_digit c \<or> c \<in> set ''-_.!~*()'' \<or> n = 39 then [c]
         else if n < 128 then percent n
         else percent (192 + n div 64) @ percent (128 + n mod 64))"

definition encodeURIComponent :: "string \<Rightarrow> string" where
  "encodeURIComponent s = concat (map encode_char s)"

text \<open>The pattern of an absolute URL without a path: a scheme, \<open>://\<close>, and no further slash.\<close>

fun after_scheme :: "string \<Rightarrow> string option" where
  "after_scheme [] = None"
| "after_scheme (c # cs) =
     (if is_alpha c \<or> is_digit c \<or> c \<in> set ''+.-'' then after_scheme cs
      else if take 3 (c # cs) = ''://'' then Some (drop 2 cs) else None)"

definition authorityOnly :: "string \<Rightarrow> bool" where
  "authorityOnly url = (case url of
       [] \<Rightarrow> False
     | c # cs \<Rightarrow> is_alpha c \<and> (case after_scheme cs of None \<Rightarrow> False | Some rest \<Rightarrow> CHR ''/'' \<notin> set rest))"

definition buildAgentWsUrl :: "string \<Rightarrow> string option \<Rightarrow> string" where
  "buildAgentWsUrl agentUrl token =
     (if \<not> truthy token then agentUrl
      else
        let parameter = ''token='' @ encodeURIComponent (the token)
        in if CHR ''?'' \<in> set agentUrl then agentUrl @ ''&'' @ parameter
           else agentUrl @ (if authorityOnly agentUrl then ''/?'' else ''?'') @ parameter)"

lemma build_url_examples:
  "buildAgentWsUrl ''wss://host'' (Some ''a b'') = ''wss://host/?token=a%20b''"
  "buildAgentWsUrl ''wss://host/p?x=1'' (Some ''t'') = ''wss://host/p?x=1&token=t''"
  "buildAgentWsUrl ''wss://host/p'' (Some []) = ''wss://host/p''"
  by code_simp+

end
