(* ===== verification/Connection_State.thy ===== *)
theory Connection_State
  imports Nession_Prelude
begin

text \<open>
  The state a transport tells its owner (\<^verbatim>\<open>web/src/platform/socket/types.ts\<close>), shared by the transport of
  \<open>Socket_Service\<close> and the authority of \<open>Session_Runtime\<close> above it.
\<close>

datatype connection_state = WsDisconnected | WsConnecting | WsConnected | WsReconnecting

end
