(* ===== verification/Session_Runtime.thy ===== *)
theory Session_Runtime
  imports Attach Applied_Cursor Address_Policy Connection_State
begin

text \<open>
  The authority over one session's connection (\<^verbatim>\<open>web/src/platform/session-runtime/SessionRuntime.ts\<close>):
  it decides when to attach and over which route, builds the transport for the terminal, keeps what it may
  claim about the history on screen, and acknowledges output that was parsed. It drives the controller of
  \<open>Attach\<close>, the policy of \<open>Address_Policy\<close> and the cursor of \<open>Applied_Cursor\<close>.

  Every event comes with what the outside answers while it is handled (\<open>outside\<close>): the readers of the
  terminal, the readiness of the server connection, the state of a socket just dialled, whether a send was
  accepted, the clock. Sockets, transports and server connections are numbers; an agent socket stands for its terminal and file
  APIs, which are made and dropped with it. Promises are events named by their generation, microtasks a
  queue. The terminal controller's reaction to a transport swap is part of the model (\<open>rt_swapListening\<close>); other listeners
  do not call back. \<open>rt_told\<close> collects the calls of the outside.
\<close>

section \<open>State\<close>

record agent_socket =
  ws_id :: nat
  ws_url :: string
  ws_maxReconnectAttempts :: int
  ws_persistentReconnect :: bool
  ws_state :: connection_state

record server_connection =
  sv_id :: nat
  sv_tracked :: bool
  sv_outputApplied :: bool

record runtime_config =
  cf_sessionId :: string
  cf_sessionName :: string
  cf_attachInfo :: "attach_info option"
  cf_orderedUrls :: "string list option"
  cf_manualOverride :: "string option"
  cf_forcedRelay :: bool
  cf_addressUrls :: "string list"
  cf_routeIntentEpoch :: int
  cf_serverConnection :: "server_connection option"
  cf_requestFreshAttach :: bool

record outside =
  out_hasSessionOutput :: "bool option"
  out_hasSessionHistory :: "bool option"
  out_serverReady :: bool
  out_dial :: connection_state
  out_accepts :: bool
  out_sent :: "(string \<times> int) option"
  out_clientId :: string
  out_now :: int

record attach_ok =
  ok_streamEpoch :: "int option"
  ok_streamCursor :: "int option"
  ok_subscriberGeneration :: "int option"
  ok_inputEpoch :: "int option"
  ok_inputAppliedThrough :: "int option"
  ok_controlGeneration :: "int option"
  ok_terminalCols :: "int option"

record attach_seed =
  sd_reply :: attach_ok
  sd_preserveAppliedCursor :: bool

record relay_proof =
  rp_sessionName :: string
  rp_browserClientId :: string
  rp_relayRequestId :: string
  rp_subscriberGeneration :: int
  rp_streamEpoch :: int

record credential =
  cr_token :: string
  cr_expiresAtMs :: "int option"
  cr_sessionId :: string

datatype stream_state = Synchronized | DegradedLive | Unavailable

record runtime_snapshot =
  sn_phase :: attach_phase
  sn_transportGeneration :: int
  sn_connectionState :: connection_state
  sn_agentTerminalApi :: "nat option"
  sn_sessionId :: string
  sn_activeUrl :: "string option"
  sn_forcedRelay :: bool
  sn_transportReady :: bool
  sn_lastResize :: "(int \<times> int) option"
  sn_reconnectCount :: int
  sn_historyDegraded :: bool
  sn_streamState :: stream_state

datatype runtime_event =
    NextCandidateEvent "string option"
  | ForceRelayEvent
  | TransportExhaustedEvent bool
  | RouteIntentChanged attach_phase
  | SessionTerminalCols int
  | CredentialRenewed
  | CredentialFailed

datatype runtime_call =
    SnapshotTold runtime_snapshot
  | OutcomeTold attach_transition
  | ConnectionTold connection_state
  | RuntimeEvent runtime_event
  | SocketBuilt nat string int bool
  | SocketDisposed nat
  | SocketUnresponsive nat
  | SocketReconnectNow nat
  | AttachSent nat nat bool
  | Pinged nat
  | TransportBuilt nat int "nat option"
  | InputCursorSeeded nat attach_seed
  | AttachedSizeNoted nat int int
  | OutboundFlushed nat
  | StreamCursorSeeded nat attach_seed
  | OutputApplied attach_mode int int nat int
  | RelayBegun "(int \<times> int) option" bool
  | RelayEnded
  | FreshAttachRequested nat

datatype task = RelayAttachTask | SettledSocketTask nat

record runtime =
  rt_config :: runtime_config
  rt_attach :: attach_controller
  rt_policy :: address_policy
  rt_agentWs :: "agent_socket option"
  rt_sockets :: nat
  rt_p2pCredential :: "credential option"
  rt_credentialEpoch :: nat
  rt_credentialRefresh :: "nat option"
  rt_refreshGeneration :: nat
  rt_refreshes :: "(nat \<times> nat) list"
  rt_urlWaiters :: "(nat \<times> nat) list"
  rt_routeIntentEpoch :: int
  rt_transportGeneration :: int
  rt_lastResize :: "(int \<times> int) option"
  rt_attachedSize :: "(int \<times> int) option"
  rt_transportReady :: bool
  rt_cursor :: applied_cursor
  rt_binding :: "cursor_binding option"
  rt_forcedRelayFallback :: bool
  rt_attachedGeneration :: "int option"
  rt_historyMayHaveGap :: bool
  rt_gapDetected :: bool
  rt_everAttached :: bool
  rt_lastObservedStreamEpoch :: "int option"
  rt_bootstrapRepairPending :: bool
  rt_seed :: "attach_seed option"
  rt_preserves :: "(nat \<times> bool) list"
  rt_connectionWired :: bool
  rt_liveTransport :: "nat option"
  rt_liveGeneration :: int
  rt_transports :: nat
  rt_swapListening :: bool
  rt_livenessTimer :: "nat option"
  rt_livenessToken :: nat
  rt_livenessInFlight :: bool
  rt_pings :: "(nat \<times> bool \<times> nat) list"
  rt_relayWired :: "nat option"
  rt_relayBeginWire :: "(string \<times> int) option"
  rt_relayProof :: "relay_proof option"
  rt_disposed :: bool
  rt_snapshot :: runtime_snapshot
  rt_tasks :: "task list"
  rt_told :: "runtime_call list"

definition P2P_CREDENTIAL_RENEW_MARGIN_MS :: int where "P2P_CREDENTIAL_RENEW_MARGIN_MS = 60000"

definition tell_rt :: "runtime_call \<Rightarrow> runtime \<Rightarrow> runtime" where
  "tell_rt call r = r\<lparr>rt_told := rt_told r @ [call]\<rparr>"

definition enqueue_task :: "task \<Rightarrow> runtime \<Rightarrow> runtime" where
  "enqueue_task t r = r\<lparr>rt_tasks := rt_tasks r @ [t]\<rparr>"

abbreviation phase :: "runtime \<Rightarrow> attach_phase" where
  "phase r \<equiv> am_phase (sc_machine (rt_attach r))"

section \<open>What the runtime publishes\<close>

definition effectiveForcedRelay :: "runtime \<Rightarrow> bool" where
  "effectiveForcedRelay r \<longleftrightarrow> cf_forcedRelay (rt_config r) \<or> rt_forcedRelayFallback r"

definition activeUrl :: "runtime \<Rightarrow> string option" where
  "activeUrl r = activeUrl_of (rt_policy r)"

definition connectionState :: "runtime \<Rightarrow> connection_state" where
  "connectionState r = (case rt_agentWs r of None \<Rightarrow> WsDisconnected | Some ws \<Rightarrow> ws_state ws)"

definition terminalAppliedSnapshot :: "runtime \<Rightarrow> cursor_snapshot option" where
  "terminalAppliedSnapshot r = (case rt_binding r of None \<Rightarrow> None | Some b \<Rightarrow> snapshot b (rt_cursor r))"

definition computeStreamState :: "runtime \<Rightarrow> stream_state" where
  "computeStreamState r =
     (if phase r \<noteq> Attached then Unavailable
      else if rt_gapDetected r \<or> terminalAppliedSnapshot r = None then DegradedLive else Synchronized)"

definition buildSnapshot :: "runtime \<Rightarrow> runtime_snapshot" where
  "buildSnapshot r = \<lparr>sn_phase = phase r, sn_transportGeneration = rt_transportGeneration r,
     sn_connectionState = connectionState r,
     sn_agentTerminalApi = (if effectiveForcedRelay r then None else map_option ws_id (rt_agentWs r)),
     sn_sessionId = cf_sessionId (rt_config r), sn_activeUrl = activeUrl r, sn_forcedRelay = effectiveForcedRelay r,
     sn_transportReady = rt_transportReady r, sn_lastResize = rt_lastResize r,
     sn_reconnectCount = am_reconnectCount (sc_machine (rt_attach r)), sn_historyDegraded = rt_gapDetected r,
     sn_streamState = computeStreamState r\<rparr>"

definition emitSnapshot :: "runtime \<Rightarrow> runtime" where
  "emitSnapshot r =
     (if rt_disposed r then r
      else
        let next = buildSnapshot r
        in if next = rt_snapshot r then r else tell_rt (SnapshotTold next) (r\<lparr>rt_snapshot := next\<rparr>))"

definition emitRuntimeEvent :: "runtime_event \<Rightarrow> runtime \<Rightarrow> runtime" where
  "emitRuntimeEvent e r = (if rt_disposed r then r else tell_rt (RuntimeEvent e) r)"

definition emitConnectionState :: "connection_state \<Rightarrow> runtime \<Rightarrow> runtime" where
  "emitConnectionState s r = emitSnapshot (if rt_disposed r then r else tell_rt (ConnectionTold s) r)"

section \<open>What it may claim about the history\<close>

definition resetTerminalAppliedCursor :: "runtime \<Rightarrow> runtime" where
  "resetTerminalAppliedCursor r = r\<lparr>rt_binding := None, rt_cursor := reset_cursor (rt_cursor r)\<rparr>"

definition needsBootstrap :: "outside \<Rightarrow> runtime \<Rightarrow> bool" where
  "needsBootstrap out r \<longleftrightarrow> rt_historyMayHaveGap r \<or> out_hasSessionOutput out \<noteq> Some True
     \<or> out_hasSessionHistory out = Some False"

definition requestBootstrapForAttach :: "outside \<Rightarrow> runtime \<Rightarrow> bool \<times> runtime" where
  "requestBootstrapForAttach out r =
     (let needed = needsBootstrap out r
      in (needed,
          if \<not> needed then r
          else
            let r1 = r\<lparr>rt_historyMayHaveGap := True, rt_bootstrapRepairPending := True\<rparr>
            in if rt_everAttached r1 \<and> out_hasSessionHistory out = Some False
               then emitSnapshot (r1\<lparr>rt_gapDetected := True\<rparr>) else r1))"

definition record_ack :: "cursor_binding \<Rightarrow> cursor_snapshot \<Rightarrow> runtime \<Rightarrow> runtime" where
  "record_ack b snap r = r\<lparr>rt_cursor := snd (recordAckSubmitted b (cs_appliedSeq snap) (rt_cursor r))\<rparr>"

definition sendVerifiedRelayOutputAck :: "outside \<Rightarrow> cursor_binding \<Rightarrow> cursor_snapshot \<Rightarrow> runtime \<Rightarrow> runtime" where
  "sendVerifiedRelayOutputAck out b snap r =
     (case (cf_serverConnection (rt_config r), rt_relayProof r, rt_relayBeginWire r) of
        (Some conn, Some proof, Some sent) \<Rightarrow>
          if \<not> out_serverReady out \<or> \<not> sv_outputApplied conn \<or> rp_streamEpoch proof \<noteq> cs_streamEpoch snap
            \<or> rp_sessionName proof \<noteq> cf_sessionName (rt_config r) \<or> rp_browserClientId proof \<noteq> out_clientId out then r
          else
            let r1 = tell_rt (OutputApplied Relay (rp_subscriberGeneration proof) (cs_streamEpoch snap)
                       (cs_generation snap) (cs_appliedSeq snap)) r
            in if out_accepts out then record_ack b snap r1 else r1
      | _ \<Rightarrow> r)"

definition submitPendingAppliedAck :: "outside \<Rightarrow> runtime \<Rightarrow> runtime" where
  "submitPendingAppliedAck out r =
     (case rt_binding r of
        None \<Rightarrow> r
      | Some b \<Rightarrow>
          if rt_disposed r then r
          else case snapshot b (rt_cursor r) of
            None \<Rightarrow> r\<lparr>rt_binding := None\<rparr>
          | Some snap \<Rightarrow>
              if cs_appliedSeq snap \<le> cs_ackSentSeq snap \<or> phase r \<noteq> Attached
                \<or> rt_liveGeneration r \<noteq> rt_transportGeneration r then r
              else if effectiveForcedRelay r then sendVerifiedRelayOutputAck out b snap r
              else case (rt_agentWs r, Option.bind (rt_seed r) (\<lambda>s. ok_subscriberGeneration (sd_reply s))) of
                (Some ws, Some sub) \<Rightarrow>
                  if rt_attachedGeneration r \<noteq> Some (rt_transportGeneration r) \<or> \<not> isSafeInteger sub \<or> sub = 0
                    \<or> (case rt_seed r of None \<Rightarrow> True
                       | Some s \<Rightarrow> ok_streamEpoch (sd_reply s) = None \<or> ok_streamEpoch (sd_reply s) = Some 0
                           \<or> ok_streamEpoch (sd_reply s) \<noteq> Some (cs_streamEpoch snap)) then r
                  else
                    let r1 = tell_rt (OutputApplied P2P sub (cs_streamEpoch snap) (cs_generation snap) (cs_appliedSeq snap)) r
                    in if out_accepts out then record_ack b snap r1 else r1
              | _ \<Rightarrow> r)"

text \<open>A baseline the cursor refuses is thrown as a \<open>RangeError\<close>: the old proof is gone, nothing else happens.\<close>

definition setVerifiedTerminalBaseline :: "outside \<Rightarrow> verified_baseline \<Rightarrow> runtime \<Rightarrow> runtime" where
  "setVerifiedTerminalBaseline out baseline r =
     (let r1 = resetTerminalAppliedCursor r
      in if rt_disposed r1 then r1
         else case beginFromVerifiedBaseline baseline (rt_cursor r1) of
           (None, cursor) \<Rightarrow> r1\<lparr>rt_cursor := cursor\<rparr>
         | (Some b, cursor) \<Rightarrow>
             emitSnapshot (submitPendingAppliedAck out (r1\<lparr>rt_cursor := cursor, rt_binding := Some b,
               rt_lastObservedStreamEpoch := Some (vb_streamEpoch baseline)\<rparr>)))"

definition noteStreamEventParsed :: "outside \<Rightarrow> position \<Rightarrow> runtime \<Rightarrow> runtime" where
  "noteStreamEventParsed out p r =
     (case rt_binding r of
        None \<Rightarrow> r
      | Some b \<Rightarrow>
          if rt_disposed r then r
          else
            let (outcome, cursor) = recordParsed b p (rt_cursor r); r1 = r\<lparr>rt_cursor := cursor\<rparr>
            in if outcome \<noteq> Advanced then r1 else submitPendingAppliedAck out r1)"

definition noteBootstrapApplied :: "runtime \<Rightarrow> runtime" where
  "noteBootstrapApplied r =
     (if \<not> rt_bootstrapRepairPending r then r
      else emitSnapshot (r\<lparr>rt_bootstrapRepairPending := False, rt_historyMayHaveGap := False, rt_gapDetected := False\<rparr>))"

definition noteStreamTruncated :: "runtime \<Rightarrow> runtime" where
  "noteStreamTruncated r =
     emitSnapshot ((resetTerminalAppliedCursor r)\<lparr>rt_historyMayHaveGap := True, rt_gapDetected := True,
       rt_bootstrapRepairPending := False\<rparr>)"

definition noteStreamEpochChanged :: "runtime \<Rightarrow> runtime" where
  "noteStreamEpochChanged r =
     emitSnapshot ((resetTerminalAppliedCursor r)\<lparr>rt_historyMayHaveGap := True, rt_gapDetected := True\<rparr>)"

definition adoptStreamEpoch :: "int option \<Rightarrow> runtime \<Rightarrow> runtime" where
  "adoptStreamEpoch epoch r =
     (case epoch of
        None \<Rightarrow> r
      | Some n \<Rightarrow>
          if \<not> isSafeInteger n \<or> n \<le> 0 then r
          else
            let previous = rt_lastObservedStreamEpoch r; r1 = r\<lparr>rt_lastObservedStreamEpoch := Some n\<rparr>
            in if previous \<noteq> None \<and> previous \<noteq> Some n then noteStreamEpochChanged r1 else r1)"

section \<open>Attaching\<close>

definition cancel_attach :: "runtime \<Rightarrow> runtime" where
  "cancel_attach r = r\<lparr>rt_attach := cancelActiveAttach (rt_attach r)\<rparr>"

definition revokeRelayProof :: "runtime \<Rightarrow> runtime" where
  "revokeRelayProof r = r\<lparr>rt_relayBeginWire := None, rt_relayProof := None\<rparr>"

definition requestRelayAttach :: "runtime \<Rightarrow> runtime" where
  "requestRelayAttach r = enqueue_task RelayAttachTask r"

definition applyAttachSeedToLiveTransport :: "runtime \<Rightarrow> runtime" where
  "applyAttachSeedToLiveTransport r =
     (case rt_liveTransport r of
        None \<Rightarrow> r
      | Some t \<Rightarrow>
          if rt_attachedGeneration r \<noteq> Some (rt_liveGeneration r) then r
          else
            let r1 = (case rt_seed r of None \<Rightarrow> r | Some seed \<Rightarrow> tell_rt (InputCursorSeeded t seed) r);
                attached = rt_attachedSize r1;
                r2 = r1\<lparr>rt_attachedSize := None\<rparr>;
                r3 = (case attached of None \<Rightarrow> r2 | Some (cols, rows) \<Rightarrow> tell_rt (AttachedSizeNoted t cols rows) r2);
                r4 = tell_rt (OutboundFlushed t) r3
            in case rt_seed r of None \<Rightarrow> r4 | Some seed \<Rightarrow> tell_rt (StreamCursorSeeded t seed) r4)"

definition outcome_attached :: "outside \<Rightarrow> attach_transition \<Rightarrow> runtime \<Rightarrow> runtime" where
  "outcome_attached out result r =
     (if at_phase result = Attached
      then submitPendingAppliedAck out (applyAttachSeedToLiveTransport
             (r\<lparr>rt_everAttached := True, rt_attachedGeneration := Some (rt_transportGeneration r)\<rparr>))
      else r)"

definition outcome_told :: "attach_transition \<Rightarrow> runtime \<Rightarrow> runtime" where
  "outcome_told result r = emitSnapshot (tell_rt (OutcomeTold result) r)"

text \<open>
  The runtime's own listener for outcomes that neither force the relay nor ask for a retry. Only the
  settlement of an attach produces the other two (\<open>plain_dispatch_quiet\<close> below).
\<close>

definition on_plain_outcome :: "outside \<Rightarrow> attach_transition \<Rightarrow> runtime \<Rightarrow> runtime" where
  "on_plain_outcome out result r =
     (let r1 = outcome_attached out result r;
          r2 = (if at_phase result = Connecting \<or> at_phase result = Reconnecting then requestRelayAttach r1 else r1)
      in outcome_told result r2)"

definition dispatch_plain :: "outside \<Rightarrow> attach_event \<Rightarrow> runtime \<Rightarrow> attach_transition \<times> runtime" where
  "dispatch_plain out e r =
     (let result = fst (dispatch_attach e (sc_machine (rt_attach r)))
      in (result, on_plain_outcome out result (r\<lparr>rt_attach := controller_dispatch e (rt_attach r)\<rparr>)))"

definition route_dispatch :: "outside \<Rightarrow> attach_event \<Rightarrow> runtime \<Rightarrow> runtime" where
  "route_dispatch out e r =
     (let (result, r1) = dispatch_plain out e r in emitRuntimeEvent (RouteIntentChanged (at_phase result)) r1)"

definition maybeStartP2PAttach :: "outside \<Rightarrow> runtime \<Rightarrow> runtime" where
  "maybeStartP2PAttach out r =
     (if effectiveForcedRelay r \<or> connectionState r \<noteq> WsConnected then r
      else if phase r = Attached \<and> rt_attachedGeneration r = Some (rt_transportGeneration r) then r
      else if phase r = Idle \<or> phase r = Failed then r
      else if \<not> canStartAttach (rt_transportReady r) True False P2P (sc_machine (rt_attach r)) then r
      else
        let attachSize = rt_lastResize r;
            (needs, r1) = requestBootstrapForAttach out r;
            preserve = (\<not> needs \<and> Option.bind (rt_seed r1) (\<lambda>s. ok_streamEpoch (sd_reply s)) \<noteq> None);
            (gen, a) = startP2PAttach \<lparr>ap_sessionName = cf_sessionName (rt_config r1),
              ap_manualRoute = (cf_manualOverride (rt_config r1) \<noteq> None), ap_lastResize = attachSize,
              ap_needsBootstrap = needs, ap_transportGeneration = rt_transportGeneration r1, ap_onAttachOk = True\<rparr>
              (rt_attach r1)
        in case gen of
             None \<Rightarrow> r1\<lparr>rt_attach := a\<rparr>
           | Some g \<Rightarrow> tell_rt (AttachSent g (ws_id (the (rt_agentWs r1))) needs)
               (r1\<lparr>rt_attach := a, rt_preserves := (g, preserve) # rt_preserves r1\<rparr>))"

definition beginRelayOnce :: "outside \<Rightarrow> runtime \<Rightarrow> runtime" where
  "beginRelayOnce out r =
     (case cf_serverConnection (rt_config r) of
        None \<Rightarrow> r
      | Some conn \<Rightarrow>
          if phase r = Attached then r
          else
            let resize = rt_lastResize r;
                (needs, r1) = requestBootstrapForAttach out (revokeRelayProof r);
                r2 = tell_rt (RelayBegun resize needs) r1;
                r3 = (if sv_tracked conn then r2\<lparr>rt_relayBeginWire := out_sent out\<rparr> else r2)
            in route_dispatch out RelayBeginOk r3)"

definition driveRelayAttach :: "outside \<Rightarrow> runtime \<Rightarrow> runtime" where
  "driveRelayAttach out r =
     (if cf_serverConnection (rt_config r) = None \<or> cf_attachInfo (rt_config r) = None \<or> \<not> effectiveForcedRelay r
        \<or> \<not> rt_transportReady r \<or> phase r = Attached \<or> phase r = Idle then r
      else
        let r1 = (if phase r = Failed then snd (dispatch_plain out SessionSelected r) else r)
        in if out_serverReady out then beginRelayOnce out r1 else r1)"

definition setTransportReady :: "outside \<Rightarrow> bool \<Rightarrow> runtime \<Rightarrow> runtime" where
  "setTransportReady out ready r =
     (if rt_transportReady r = ready then r
      else
        let r1 = r\<lparr>rt_transportReady := ready\<rparr>;
            r2 = (if ready then r1 else resetTerminalAppliedCursor r1);
            r3 = (if ready
                  then driveRelayAttach out (maybeStartP2PAttach out
                    (if effectiveForcedRelay r2 \<and> phase r2 = Idle then snd (dispatch_plain out SessionSelected r2) else r2))
                  else r2)
        in emitSnapshot r3)"

definition updateViewportSize :: "int \<times> int \<Rightarrow> runtime \<Rightarrow> runtime" where
  "updateViewportSize sz r = (if rt_lastResize r = Some sz then r else emitSnapshot (r\<lparr>rt_lastResize := Some sz\<rparr>))"

section \<open>Transports and sockets\<close>

definition buildTransport :: "runtime \<Rightarrow> runtime" where
  "buildTransport r =
     (let t = rt_transports r
      in tell_rt (TransportBuilt t (rt_transportGeneration r)
             (if effectiveForcedRelay r then None else map_option ws_id (rt_agentWs r)))
           (r\<lparr>rt_transports := Suc t, rt_liveTransport := Some t, rt_liveGeneration := rt_transportGeneration r\<rparr>))"

text \<open>The terminal controller's \<open>rewireTransport\<close>, as this object sees it through its adapter.\<close>

definition rebind :: "outside \<Rightarrow> runtime \<Rightarrow> runtime" where
  "rebind out r = setTransportReady out True (buildTransport (setTransportReady out False r))"

definition emitTransportSwap :: "outside \<Rightarrow> runtime \<Rightarrow> runtime" where
  "emitTransportSwap out r =
     (let r1 = resetTerminalAppliedCursor r in if rt_swapListening r1 then rebind out r1 else r1)"

definition stopLivenessProbe :: "runtime \<Rightarrow> runtime" where
  "stopLivenessProbe r = r\<lparr>rt_livenessToken := Suc (rt_livenessToken r), rt_livenessTimer := None\<rparr>"

definition startLivenessProbe :: "runtime \<Rightarrow> runtime" where
  "startLivenessProbe r =
     (let r1 = stopLivenessProbe r
      in if rt_agentWs r1 = None then r1 else r1\<lparr>rt_livenessTimer := Some (rt_livenessToken r1)\<rparr>)"

definition teardownConnectionHandler :: "runtime \<Rightarrow> runtime" where
  "teardownConnectionHandler r = stopLivenessProbe (r\<lparr>rt_connectionWired := False\<rparr>)"

definition wireConnectionHandler :: "runtime \<Rightarrow> runtime" where
  "wireConnectionHandler r =
     (let r1 = teardownConnectionHandler r in if rt_agentWs r1 = None then r1 else r1\<lparr>rt_connectionWired := True\<rparr>)"

definition currentP2PCredential :: "runtime \<Rightarrow> string option \<times> int option" where
  "currentP2PCredential r =
     (case rt_p2pCredential r of
        Some c \<Rightarrow> if cr_sessionId c = cf_sessionId (rt_config r) then (Some (cr_token c), cr_expiresAtMs c)
                  else (Option.bind (cf_attachInfo (rt_config r)) ai_connection_token,
                        Option.bind (cf_attachInfo (rt_config r)) ai_expiresAtMs)
      | None \<Rightarrow> (Option.bind (cf_attachInfo (rt_config r)) ai_connection_token,
                 Option.bind (cf_attachInfo (rt_config r)) ai_expiresAtMs))"

definition dispose_socket :: "runtime \<Rightarrow> runtime" where
  "dispose_socket r = (case rt_agentWs r of
       None \<Rightarrow> r
     | Some ws \<Rightarrow> tell_rt (SocketDisposed (ws_id ws)) (r\<lparr>rt_agentWs := None\<rparr>))"

definition build_socket :: "outside \<Rightarrow> string \<Rightarrow> runtime \<Rightarrow> runtime" where
  "build_socket out url r =
     (let n = rt_sockets r;
          ws = \<lparr>ws_id = n, ws_url = url, ws_maxReconnectAttempts = maxReconnectAttempts (rt_policy r),
                ws_persistentReconnect = isManualRoute (rt_policy r), ws_state = out_dial out\<rparr>
      in tell_rt (SocketBuilt n url (maxReconnectAttempts (rt_policy r)) (isManualRoute (rt_policy r)))
           (r\<lparr>rt_sockets := Suc n, rt_agentWs := Some ws\<rparr>))"

definition syncAgentConnection :: "outside \<Rightarrow> bool \<Rightarrow> runtime \<Rightarrow> runtime" where
  "syncAgentConnection out forceReconnect r =
     (let url = activeUrl r; token = fst (currentP2PCredential r)
      in if \<not> truthy url \<or> cf_attachInfo (rt_config r) = None \<or> effectiveForcedRelay r then
           let hadBinding = (rt_agentWs r \<noteq> None);
               r1 = (dispose_socket (cancel_attach (teardownConnectionHandler r)))\<lparr>rt_seed := None\<rparr>
           in if hadBinding then emitTransportSwap out r1 else r1
         else
           let builtUrl = buildAgentWsUrl (the url) token
           in if \<not> forceReconnect \<and> map_option ws_url (rt_agentWs r) = Some builtUrl then
                (if connectionState r = WsConnected then maybeStartP2PAttach out r else r)
              else
                let r1 = dispose_socket (cancel_attach (teardownConnectionHandler r));
                    r2 = wireConnectionHandler (build_socket out builtUrl r1);
                    r3 = (if connectionState r2 = WsDisconnected
                          then enqueue_task (SettledSocketTask (rt_sockets r1)) r2 else r2);
                    r4 = emitTransportSwap out r3
                in if connectionState r4 = WsConnected then maybeStartP2PAttach out r4 else r4)"

definition wireRelayServerHandler :: "runtime \<Rightarrow> runtime" where
  "wireRelayServerHandler r =
     r\<lparr>rt_relayWired :=
         (if \<not> effectiveForcedRelay r \<or> cf_attachInfo (rt_config r) = None then None
          else map_option sv_id (cf_serverConnection (rt_config r)))\<rparr>"

section \<open>Changes of the route\<close>

definition applyForceRelay :: "outside \<Rightarrow> runtime \<Rightarrow> runtime" where
  "applyForceRelay out r =
     (if effectiveForcedRelay r then r
      else
        let r1 = (revokeRelayProof r)\<lparr>rt_forcedRelayFallback := True\<rparr>;
            r2 = (if out_hasSessionOutput out = Some True
                  then r1\<lparr>rt_historyMayHaveGap := True, rt_bootstrapRepairPending := True, rt_gapDetected := True\<rparr> else r1);
            r3 = r2\<lparr>rt_policy := update_policy (\<lambda>p. p\<lparr>po_forcedRelay := True\<rparr>) (rt_policy r2), rt_attachedGeneration := None\<rparr>;
            r4 = cancel_attach r3;
            r5 = r4\<lparr>rt_transportGeneration := rt_transportGeneration r4 + 1\<rparr>;
            r6 = wireRelayServerHandler (syncAgentConnection out False r5)
        in emitSnapshot (requestRelayAttach (emitRuntimeEvent ForceRelayEvent r6)))"

definition on_outcome :: "outside \<Rightarrow> attach_transition \<Rightarrow> runtime \<Rightarrow> runtime" where
  "on_outcome out result r =
     (let r1 = outcome_attached out result r;
          r2 = (if at_forceRelay result then applyForceRelay out r1
                else if at_retryAttach result then maybeStartP2PAttach out r1
                else if at_phase result = Connecting \<or> at_phase result = Reconnecting then requestRelayAttach r1 else r1)
      in outcome_told result r2)"

definition dispatch_outcome :: "outside \<Rightarrow> attach_event \<Rightarrow> runtime \<Rightarrow> runtime" where
  "dispatch_outcome out e r =
     on_outcome out (fst (dispatch_attach e (sc_machine (rt_attach r))))
       (r\<lparr>rt_attach := controller_dispatch e (rt_attach r)\<rparr>)"

text \<open>The attach is dropped, and a new one begins on a transport of the next generation.\<close>

definition restart_route :: "outside \<Rightarrow> runtime \<Rightarrow> attach_phase \<times> runtime" where
  "restart_route out r =
     (let r1 = (revokeRelayProof r)\<lparr>rt_attachedGeneration := None\<rparr>;
          r2 = snd (dispatch_plain out Disconnect (cancel_attach r1));
          (result, r3) = dispatch_plain out SessionSelected r2;
          r4 = r3\<lparr>rt_transportGeneration := rt_transportGeneration r3 + 1\<rparr>
      in (at_phase result, syncAgentConnection out True r4))"

definition handleRouteIntentChange :: "outside \<Rightarrow> runtime \<Rightarrow> runtime" where
  "handleRouteIntentChange out r =
     (let (p, r1) = restart_route out r in emitRuntimeEvent (RouteIntentChanged p) r1)"

definition forceBootstrapReattach :: "outside \<Rightarrow> runtime \<Rightarrow> runtime" where
  "forceBootstrapReattach out r =
     (let hadP2PBinding = (rt_agentWs r \<noteq> None);
          (p, r1) = restart_route out r;
          r2 = (if effectiveForcedRelay r1
                then requestRelayAttach (if hadP2PBinding then r1 else emitTransportSwap out r1) else r1)
      in emitSnapshot (emitRuntimeEvent (RouteIntentChanged p) r2))"

definition noteRendererReplaced :: "outside \<Rightarrow> runtime \<Rightarrow> runtime" where
  "noteRendererReplaced out r =
     (if rt_disposed r then r
      else forceBootstrapReattach out (emitSnapshot ((resetTerminalAppliedCursor r)\<lparr>rt_historyMayHaveGap := True,
        rt_gapDetected := True, rt_bootstrapRepairPending := True\<rparr>)))"

definition invalidateP2PCredential :: "runtime \<Rightarrow> runtime" where
  "invalidateP2PCredential r = r\<lparr>rt_credentialEpoch := Suc (rt_credentialEpoch r),
     rt_refreshGeneration := Suc (rt_refreshGeneration r), rt_credentialRefresh := None, rt_p2pCredential := None\<rparr>"

text \<open>A partial configuration; \<open>None\<close> leaves a field as it is.\<close>

record config_update =
  up_attachInfo :: "attach_info option option"
  up_orderedUrls :: "string list option option"
  up_manualOverride :: "string option option"
  up_forcedRelay :: "bool option"
  up_addressUrls :: "string list option"
  up_routeIntentEpoch :: "int option"
  up_serverConnection :: "server_connection option option"

definition apply_update :: "config_update \<Rightarrow> runtime_config \<Rightarrow> runtime_config" where
  "apply_update u c = c\<lparr>cf_attachInfo := the_default (cf_attachInfo c) (up_attachInfo u),
     cf_orderedUrls := the_default (cf_orderedUrls c) (up_orderedUrls u),
     cf_manualOverride := the_default (cf_manualOverride c) (up_manualOverride u),
     cf_forcedRelay := the_default (cf_forcedRelay c) (up_forcedRelay u),
     cf_addressUrls := the_default (cf_addressUrls c) (up_addressUrls u),
     cf_routeIntentEpoch := the_default (cf_routeIntentEpoch c) (up_routeIntentEpoch u),
     cf_serverConnection := the_default (cf_serverConnection c) (up_serverConnection u)\<rparr>"

definition fresh_authority :: "config_update \<Rightarrow> attach_info option \<Rightarrow> bool" where
  "fresh_authority u previous = (case up_attachInfo u of
       None \<Rightarrow> False
     | Some info \<Rightarrow> map_option ai_session_id info \<noteq> map_option ai_session_id previous
         \<or> Option.bind info ai_connection_token \<noteq> Option.bind previous ai_connection_token)"

text \<open>The first part of \<open>updateContext\<close>: what changed, and the new configuration with its verdicts.\<close>

definition route_changed :: "config_update \<Rightarrow> runtime \<Rightarrow> bool" where
  "route_changed u r = (case up_routeIntentEpoch u of None \<Rightarrow> False | Some n \<Rightarrow> n \<noteq> rt_routeIntentEpoch r)"

definition plan_urls_changed :: "config_update \<Rightarrow> runtime \<Rightarrow> bool" where
  "plan_urls_changed u r = (case up_addressUrls u of None \<Rightarrow> False
     | Some urls \<Rightarrow> join_strings ''|'' urls \<noteq> join_strings ''|'' (cf_addressUrls (rt_config r)))"

definition take_config :: "config_update \<Rightarrow> runtime \<Rightarrow> runtime" where
  "take_config u r =
     (let c = rt_config r;
          r1 = r\<lparr>rt_config := apply_update u c\<rparr>;
          r2 = (if fresh_authority u (cf_attachInfo c) then invalidateP2PCredential r1 else r1);
          r3 = (if map_option sv_id (cf_serverConnection c) \<noteq> map_option sv_id (cf_serverConnection (rt_config r2))
                  \<or> route_changed u r \<or> plan_urls_changed u r \<or> effectiveForcedRelay r \<noteq> effectiveForcedRelay r2
                then revokeRelayProof r2 else r2);
          r4 = r3\<lparr>rt_routeIntentEpoch := the_default (rt_routeIntentEpoch r3) (up_routeIntentEpoch u)\<rparr>
      in if route_changed u r \<or> plan_urls_changed u r then r4\<lparr>rt_forcedRelayFallback := False\<rparr> else r4)"

text \<open>A change between the routes retires the transport and the proof, unless the route intent does so anyway.\<close>

definition flip_mode :: "bool \<Rightarrow> bool \<Rightarrow> runtime \<Rightarrow> runtime" where
  "flip_mode routeChanged previousRelay r =
     (if \<not> routeChanged \<and> previousRelay \<noteq> effectiveForcedRelay r
      then resetTerminalAppliedCursor (r\<lparr>rt_transportGeneration := rt_transportGeneration r + 1, rt_attachedGeneration := None\<rparr>)
      else r)"

definition sync_policy :: "runtime \<Rightarrow> runtime" where
  "sync_policy r =
     (let d = rt_config r
      in r\<lparr>rt_policy := update_policy (\<lambda>p. p\<lparr>po_attachInfo := cf_attachInfo d, po_orderedUrls := cf_orderedUrls d,
             po_manualOverride := cf_manualOverride d, po_forcedRelay := effectiveForcedRelay r,
             po_addressUrls := cf_addressUrls d\<rparr>) (rt_policy r)\<rparr>)"

definition updateContext :: "outside \<Rightarrow> config_update \<Rightarrow> runtime \<Rightarrow> runtime" where
  "updateContext out u r =
     (let r1 = sync_policy (flip_mode (route_changed u r) (effectiveForcedRelay r) (take_config u r))
      in if route_changed u r
         then emitSnapshot (handleRouteIntentChange out (r1\<lparr>rt_policy := resetIndex (rt_policy r1)\<rparr>))
         else emitSnapshot (driveRelayAttach out (wireRelayServerHandler (syncAgentConnection out False r1))))"

section \<open>Callbacks\<close>

datatype attach_settled =
    SettledOk attach_ok
  | SettledRefused string
  | SettledRejected

text \<open>The \<open>onAttachOk\<close> closure; \<open>rt_preserves\<close> holds what it captured.\<close>

definition on_attach_ok :: "nat \<Rightarrow> attach_params \<Rightarrow> attach_ok \<Rightarrow> runtime \<Rightarrow> runtime" where
  "on_attach_ok gen params reply r =
     (let r1 = adoptStreamEpoch (ok_streamEpoch reply) r;
          r2 = (case ok_terminalCols reply of None \<Rightarrow> r1 | Some cols \<Rightarrow> emitRuntimeEvent (SessionTerminalCols cols) r1)
      in r2\<lparr>rt_attachedSize := ap_lastResize params,
            rt_seed := Some \<lparr>sd_reply = reply, sd_preserveAppliedCursor = the_default False (map_of (rt_preserves r2) gen)\<rparr>\<rparr>)"

definition settle_timeout :: "outside \<Rightarrow> attach_params \<Rightarrow> runtime \<Rightarrow> runtime" where
  "settle_timeout out params r =
     dispatch_outcome out (AttachTimeout (ap_manualRoute params) (am_reconnectCount (sc_machine (rt_attach r)) + 1)) r"

definition attachSettled :: "outside \<Rightarrow> nat \<Rightarrow> attach_settled \<Rightarrow> runtime \<Rightarrow> runtime" where
  "attachSettled out gen result r =
     (case map_of (sc_outstanding (rt_attach r)) gen of
        None \<Rightarrow> r
      | Some params \<Rightarrow>
          let r0 = r\<lparr>rt_attach := settle_promise gen (rt_attach r)\<rparr>
          in if gen \<noteq> sc_attachGeneration (rt_attach r0) then r0
             else
               let r1 = r0\<lparr>rt_attach := (rt_attach r0)\<lparr>sc_inFlight := None\<rparr>\<rparr>
               in case result of
                    SettledOk reply \<Rightarrow>
                      cancel_attach (dispatch_outcome out AttachOk (on_attach_ok gen params reply r1))
                  | SettledRefused err \<Rightarrow>
                      if err = ''timeout'' \<or> err \<in> set TRANSPORT_FAILURE_ERRORS then settle_timeout out params r1
                      else cancel_attach (dispatch_outcome out (AttachError (ap_manualRoute params)) r1)
                  | SettledRejected \<Rightarrow> settle_timeout out params r1)"

definition applyCandidateDisconnect :: "outside \<Rightarrow> runtime \<Rightarrow> runtime" where
  "applyCandidateDisconnect out r =
     (let (action, policy) = onCandidateDisconnected (rt_policy r); r1 = r\<lparr>rt_policy := policy\<rparr>
      in case action of
           NoAction \<Rightarrow> r1
         | NextCandidate \<Rightarrow>
             let r2 = syncAgentConnection out False
                        (r1\<lparr>rt_attachedGeneration := None, rt_transportGeneration := rt_transportGeneration r1 + 1\<rparr>)
             in emitSnapshot (emitRuntimeEvent (NextCandidateEvent (activeUrl r2)) r2)
         | ForceRelayAction \<Rightarrow> applyForceRelay out r1
         | TransportExhaustedAction manual \<Rightarrow>
             emitSnapshot (emitRuntimeEvent (TransportExhaustedEvent manual)
               (snd (dispatch_plain out (TransportExhausted manual) r1))))"

definition probe_ping :: "nat \<Rightarrow> bool \<Rightarrow> runtime \<Rightarrow> runtime" where
  "probe_ping token fromInput r =
     (case rt_agentWs r of
        Some ws \<Rightarrow>
          if phase r \<noteq> Attached then r\<lparr>rt_livenessInFlight := (if fromInput then False else rt_livenessInFlight r)\<rparr>
          else tell_rt (Pinged (ws_id ws)) (r\<lparr>rt_pings := rt_pings r @ [(token, fromInput, ws_id ws)]\<rparr>)
      | None \<Rightarrow> r\<lparr>rt_livenessInFlight := (if fromInput then False else rt_livenessInFlight r)\<rparr>)"

definition probeLivenessNow :: "runtime \<Rightarrow> runtime" where
  "probeLivenessNow r =
     (if phase r \<noteq> Attached \<or> rt_livenessInFlight r then r
      else probe_ping (rt_livenessToken r) True (r\<lparr>rt_livenessInFlight := True\<rparr>))"

definition probeTick :: "runtime \<Rightarrow> runtime" where
  "probeTick r = (case rt_livenessTimer r of None \<Rightarrow> r | Some token \<Rightarrow> probe_ping token False r)"

text \<open>A ping, named by its place among the open ones with the socket it went to, is answered or times out.\<close>

definition pingSettled :: "nat \<Rightarrow> bool \<Rightarrow> runtime \<Rightarrow> runtime" where
  "pingSettled i answered r =
     (if length (rt_pings r) \<le> i then r
      else
        let (token, fromInput, asked) = rt_pings r ! i;
            r1 = r\<lparr>rt_pings := take i (rt_pings r) @ drop (Suc i) (rt_pings r)\<rparr>;
            r2 = (if answered \<or> rt_livenessToken r1 \<noteq> token then r1
                  else case rt_agentWs r1 of None \<Rightarrow> r1 | Some ws \<Rightarrow> tell_rt (SocketUnresponsive (ws_id ws)) r1)
        in if fromInput then r2\<lparr>rt_livenessInFlight := False\<rparr> else r2)"

definition resumeOnForeground :: "runtime \<Rightarrow> runtime" where
  "resumeOnForeground r = (case rt_agentWs r of
       None \<Rightarrow> r
     | Some ws \<Rightarrow> if ws_state ws = WsConnected then probeLivenessNow r else tell_rt (SocketReconnectNow (ws_id ws)) r)"

text \<open>The agent socket's state changed; only the current socket has a handler.\<close>

definition socketState :: "outside \<Rightarrow> connection_state \<Rightarrow> runtime \<Rightarrow> runtime" where
  "socketState out next r =
     (case rt_agentWs r of
        None \<Rightarrow> r
      | Some ws \<Rightarrow>
          if \<not> rt_connectionWired r then r
          else
            let r1 = emitConnectionState next (r\<lparr>rt_agentWs := Some (ws\<lparr>ws_state := next\<rparr>)\<rparr>)
            in if next = WsConnected then maybeStartP2PAttach out (startLivenessProbe r1)
               else
                 let r2 = stopLivenessProbe r1
                 in if (next = WsReconnecting \<or> next = WsConnecting) \<and> phase r2 = Attached then
                      let r3 = r2\<lparr>rt_attachedGeneration := None\<rparr>;
                          r4 = (if Option.bind (rt_seed r3) (\<lambda>s. ok_streamEpoch (sd_reply s)) = None
                                then noteStreamTruncated r3 else r3)
                      in route_dispatch out TransportLost r4
                    else if next = WsDisconnected then applyCandidateDisconnect out r2 else r2)"

definition relayReady :: "outside \<Rightarrow> relay_proof \<Rightarrow> int \<Rightarrow> runtime \<Rightarrow> runtime" where
  "relayReady out proof physicalGeneration r =
     (case rt_relayBeginWire r of
        None \<Rightarrow> r
      | Some (ident, gen) \<Rightarrow>
          if rt_relayWired r = None \<or> rt_disposed r \<or> \<not> effectiveForcedRelay r \<or> \<not> out_serverReady out
            \<or> phase r \<noteq> Attached \<or> rt_relayProof r \<noteq> None \<or> ident \<noteq> rp_relayRequestId proof
            \<or> gen \<noteq> physicalGeneration \<or> cf_sessionName (rt_config r) \<noteq> rp_sessionName proof
            \<or> rp_browserClientId proof \<noteq> out_clientId out then r
          else submitPendingAppliedAck out
                 ((adoptStreamEpoch (Some (rp_streamEpoch proof)) r)\<lparr>rt_relayProof := Some proof\<rparr>))"

definition serverState :: "outside \<Rightarrow> connection_state \<Rightarrow> runtime \<Rightarrow> runtime" where
  "serverState out state r =
     (if rt_relayWired r = None then r
      else if state = WsConnected then driveRelayAttach out r
      else
        let r1 = revokeRelayProof r
        in if phase r1 = Attached then route_dispatch out TransportLost (noteStreamTruncated r1) else r1)"

definition run_task :: "outside \<Rightarrow> runtime \<Rightarrow> runtime" where
  "run_task out r =
     (case rt_tasks r of
        [] \<Rightarrow> r
      | t # ts \<Rightarrow>
          let r1 = r\<lparr>rt_tasks := ts\<rparr>
          in case t of
               RelayAttachTask \<Rightarrow> if rt_disposed r1 then r1 else driveRelayAttach out r1
             | SettledSocketTask n \<Rightarrow>
                 (case rt_agentWs r1 of
                    Some ws \<Rightarrow> if ws_id ws = n \<and> ws_state ws = WsDisconnected then applyCandidateDisconnect out r1 else r1
                  | None \<Rightarrow> r1))"

section \<open>Credentials\<close>

definition p2pCredentialNeedsRenewal :: "outside \<Rightarrow> nat \<Rightarrow> runtime \<Rightarrow> bool" where
  "p2pCredentialNeedsRenewal out attempt r =
     (if rt_disposed r \<or> map_option ai_mode (cf_attachInfo (rt_config r)) \<noteq> Some DirectAttach \<or> effectiveForcedRelay r
      then False
      else if \<not> truthy (fst (currentP2PCredential r)) then True
      else case snd (currentP2PCredential r) of
        None \<Rightarrow> 0 < attempt
      | Some deadline \<Rightarrow> deadline - P2P_CREDENTIAL_RENEW_MARGIN_MS \<le> out_now out)"

text \<open>The socket asks for the URL of its next attempt; a renewal is awaited under its generation.\<close>

definition resolveP2PUrl :: "outside \<Rightarrow> nat \<Rightarrow> runtime \<Rightarrow> runtime" where
  "resolveP2PUrl out attempt r =
     (case rt_agentWs r of
        None \<Rightarrow> r
      | Some ws \<Rightarrow>
          if \<not> p2pCredentialNeedsRenewal out attempt r \<or> \<not> cf_requestFreshAttach (rt_config r) then r
          else case rt_credentialRefresh r of
            Some gen \<Rightarrow> r\<lparr>rt_urlWaiters := (gen, ws_id ws) # rt_urlWaiters r\<rparr>
          | None \<Rightarrow>
              let gen = Suc (rt_refreshGeneration r)
              in tell_rt (FreshAttachRequested gen)
                   (r\<lparr>rt_refreshGeneration := gen, rt_refreshes := (gen, rt_credentialEpoch r) # rt_refreshes r,
                      rt_credentialRefresh := Some gen, rt_urlWaiters := (gen, ws_id ws) # rt_urlWaiters r\<rparr>))"

definition install_credential :: "attach_info \<Rightarrow> runtime \<Rightarrow> runtime" where
  "install_credential fresh r = r\<lparr>rt_p2pCredential := Some \<lparr>cr_token = the (ai_connection_token fresh),
     cr_expiresAtMs = ai_expiresAtMs fresh, cr_sessionId = ai_session_id fresh\<rparr>\<rparr>"

definition adopt_url :: "nat \<Rightarrow> string \<Rightarrow> runtime \<Rightarrow> runtime" where
  "adopt_url gen url r = (case rt_agentWs r of
       None \<Rightarrow> r
     | Some ws \<Rightarrow> if (gen, ws_id ws) \<in> set (rt_urlWaiters r) then r\<lparr>rt_agentWs := Some (ws\<lparr>ws_url := url\<rparr>)\<rparr> else r)"

definition renewalSettled :: "nat \<Rightarrow> attach_info option \<Rightarrow> runtime \<Rightarrow> runtime" where
  "renewalSettled gen result r =
     (case map_of (rt_refreshes r) gen of
        None \<Rightarrow> r
      | Some epoch \<Rightarrow>
          let r0 = r\<lparr>rt_refreshes := AList.delete gen (rt_refreshes r)\<rparr>;
              r1 = (case result of
                  None \<Rightarrow> emitRuntimeEvent CredentialFailed r0
                | Some fresh \<Rightarrow>
                    if rt_disposed r0 \<or> epoch \<noteq> rt_credentialEpoch r0 \<or> ai_mode fresh \<noteq> DirectAttach
                      \<or> ai_session_id fresh \<noteq> cf_sessionId (rt_config r0) \<or> \<not> truthy (ai_connection_token fresh)
                    then emitRuntimeEvent CredentialFailed r0
                    else
                      let r2 = emitRuntimeEvent CredentialRenewed (install_credential fresh r0)
                      in if \<not> truthy (activeUrl r2) then emitRuntimeEvent CredentialFailed r2
                         else adopt_url gen (buildAgentWsUrl (the (activeUrl r2)) (ai_connection_token fresh)) r2)
          in if rt_refreshGeneration r1 = gen then r1\<lparr>rt_credentialRefresh := None\<rparr> else r1)"

section \<open>Construction, disposal and the event loop\<close>

definition dispose_runtime :: "outside \<Rightarrow> runtime \<Rightarrow> runtime" where
  "dispose_runtime out r =
     (let r1 = resetTerminalAppliedCursor (revokeRelayProof (invalidateP2PCredential (r\<lparr>rt_disposed := True\<rparr>)));
          r2 = (if effectiveForcedRelay r1 \<and> cf_attachInfo (rt_config r1) \<noteq> None
                  \<and> cf_serverConnection (rt_config r1) \<noteq> None \<and> out_serverReady out
                then tell_rt RelayEnded r1 else r1);
          r3 = (teardownConnectionHandler r2)\<lparr>rt_relayWired := None\<rparr>
      in (dispose_socket (cancel_attach r3))\<lparr>rt_liveTransport := None, rt_swapListening := False\<rparr>)"

definition initial_snapshot :: runtime_snapshot where
  "initial_snapshot = \<lparr>sn_phase = Idle, sn_transportGeneration = 0, sn_connectionState = WsDisconnected,
     sn_agentTerminalApi = None, sn_sessionId = [], sn_activeUrl = None, sn_forcedRelay = False,
     sn_transportReady = False, sn_lastResize = None, sn_reconnectCount = 0, sn_historyDegraded = False,
     sn_streamState = Unavailable\<rparr>"

definition blank_runtime :: "runtime_config \<Rightarrow> runtime" where
  "blank_runtime c = \<lparr>rt_config = c, rt_attach = subscribeOutcomes 0 (new_controller (new_machine True)),
     rt_policy = new_policy (cf_attachInfo c) (cf_orderedUrls c) (cf_manualOverride c) (cf_forcedRelay c) (cf_addressUrls c),
     rt_agentWs = None, rt_sockets = 0, rt_p2pCredential = None, rt_credentialEpoch = 0, rt_credentialRefresh = None,
     rt_refreshGeneration = 0, rt_refreshes = [], rt_urlWaiters = [], rt_routeIntentEpoch = cf_routeIntentEpoch c,
     rt_transportGeneration = 0, rt_lastResize = None, rt_attachedSize = None, rt_transportReady = False,
     rt_cursor = the (new_cursor 1024), rt_binding = None, rt_forcedRelayFallback = False, rt_attachedGeneration = None,
     rt_historyMayHaveGap = False, rt_gapDetected = False, rt_everAttached = False, rt_lastObservedStreamEpoch = None,
     rt_bootstrapRepairPending = False, rt_seed = None, rt_preserves = [], rt_connectionWired = False,
     rt_liveTransport = None, rt_liveGeneration = -1, rt_transports = 0, rt_swapListening = False,
     rt_livenessTimer = None, rt_livenessToken = 0, rt_livenessInFlight = False, rt_pings = [], rt_relayWired = None,
     rt_relayBeginWire = None, rt_relayProof = None, rt_disposed = False, rt_snapshot = initial_snapshot, rt_tasks = [],
     rt_told = []\<rparr>"

definition publish :: "runtime \<Rightarrow> runtime" where
  "publish r = r\<lparr>rt_snapshot := buildSnapshot r\<rparr>"

definition new_runtime :: "outside \<Rightarrow> runtime_config \<Rightarrow> runtime" where
  "new_runtime out c =
     (let r1 = publish (blank_runtime c);
          r2 = snd (dispatch_plain out SessionSelected r1);
          r3 = wireRelayServerHandler (syncAgentConnection out False r2)
      in publish (driveRelayAttach out r3))"

datatype runtime_input =
    BindViewport
  | UnbindViewport
  | ViewportResized int int
  | BaselineProved verified_baseline
  | EventParsed position
  | BootstrapParsed
  | TruncationObserved
  | RendererWasReplaced
  | ContextUpdated config_update
  | SocketStateChanged connection_state
  | AttachSettled nat attach_settled
  | ServerStateChanged connection_state
  | RelayProofReceived relay_proof int
  | TaskDue
  | InputSent
  | ProbeTimer
  | PingSettled nat bool
  | ForegroundResumed
  | UrlRequested nat
  | RenewalSettled nat "attach_info option"
  | RuntimeDisposed

fun runtime_step :: "runtime \<Rightarrow> outside \<times> runtime_input \<Rightarrow> runtime" where
  "runtime_step r (out, BindViewport) = rebind out (r\<lparr>rt_swapListening := \<not> rt_disposed r\<rparr>)"
| "runtime_step r (out, UnbindViewport) = setTransportReady out False (r\<lparr>rt_swapListening := False\<rparr>)"
| "runtime_step r (out, ViewportResized cols rows) = updateViewportSize (cols, rows) r"
| "runtime_step r (out, BaselineProved b) = setVerifiedTerminalBaseline out b r"
| "runtime_step r (out, EventParsed p) = noteStreamEventParsed out p r"
| "runtime_step r (out, BootstrapParsed) = noteBootstrapApplied r"
| "runtime_step r (out, TruncationObserved) = noteStreamTruncated r"
| "runtime_step r (out, RendererWasReplaced) = noteRendererReplaced out r"
| "runtime_step r (out, ContextUpdated u) = updateContext out u r"
| "runtime_step r (out, SocketStateChanged s) = socketState out s r"
| "runtime_step r (out, AttachSettled gen result) = attachSettled out gen result r"
| "runtime_step r (out, ServerStateChanged s) = serverState out s r"
| "runtime_step r (out, RelayProofReceived proof gen) = relayReady out proof gen r"
| "runtime_step r (out, TaskDue) = run_task out r"
| "runtime_step r (out, InputSent) = probeLivenessNow r"
| "runtime_step r (out, ProbeTimer) = probeTick r"
| "runtime_step r (out, PingSettled i answered) = pingSettled i answered r"
| "runtime_step r (out, ForegroundResumed) = resumeOnForeground r"
| "runtime_step r (out, UrlRequested attempt) = resolveP2PUrl out attempt r"
| "runtime_step r (out, RenewalSettled gen result) = renewalSettled gen result r"
| "runtime_step r (out, RuntimeDisposed) = dispose_runtime out r"

end
