(* ===== verification/Session_Laws.thy ===== *)
theory Session_Laws
  imports Session_Runtime
begin

text \<open>
  What the session runtime guarantees. The operations are composed of few primitive updates;
  the locale \<open>runtime_relation\<close> (and \<open>closing_relation\<close> for the disposal) shows once that a relation which holds
  over the primitives holds over every event, and its interpretations carry the properties: a detected loss stays detected and every
  attach asks for the history, acknowledgements cover parsed events only, and a probe left over from an
  earlier socket is inert. A second part shows that the published snapshot is current, with one exception,
  and that the terminal's transport is bound to the current socket.
\<close>

section \<open>Relations over the primitive updates\<close>

definition asks_history :: "runtime_call \<Rightarrow> bool option" where
  "asks_history call = (case call of AttachSent g s needs \<Rightarrow> Some needs | RelayBegun sz needs \<Rightarrow> Some needs | _ \<Rightarrow> None)"

fun plain_call :: "runtime_call \<Rightarrow> bool" where
  "plain_call (AttachSent g s needs) = False"
| "plain_call (RelayBegun sz needs) = False"
| "plain_call (OutputApplied m sub epoch gen through) = False"
| "plain_call (SocketUnresponsive n) = False"
| "plain_call (TransportBuilt t g s) = False"
| "plain_call _ = True"

definition core :: "runtime \<Rightarrow> _" where
  "core r = ((rt_told r, rt_historyMayHaveGap r, rt_gapDetected r), (rt_binding r, rt_cursor r, rt_disposed r),
     (map_option ws_id (rt_agentWs r), rt_pings r, rt_livenessToken r, rt_livenessTimer r))"

definition retire_socket :: "runtime \<Rightarrow> runtime" where
  "retire_socket r = dispose_socket (cancel_attach (teardownConnectionHandler r))"

definition open_socket :: "outside \<Rightarrow> string \<Rightarrow> runtime \<Rightarrow> runtime" where
  "open_socket out url r = wireConnectionHandler (build_socket out url r)"

text \<open>The three inputs that change the proof; every other event is composed of the primitive updates.\<close>

fun proof_input :: "runtime_input \<Rightarrow> bool" where
  "proof_input (BaselineProved b) = True"
| "proof_input (EventParsed p) = True"
| "proof_input BootstrapParsed = True"
| "proof_input _ = False"

locale runtime_relation =
  fixes R :: "runtime \<Rightarrow> runtime \<Rightarrow> bool"
  assumes same: "core s = core r \<Longrightarrow> R r s"
    and trans [trans]: "R r s \<Longrightarrow> R s t \<Longrightarrow> R r t"
    and plain: "plain_call call \<Longrightarrow> R r (tell_rt call r)"
    and built: "R r (tell_rt (TransportBuilt n g api) r)"
    and revoked: "R r (resetTerminalAppliedCursor r)"
    and suspected: "R r (r\<lparr>rt_historyMayHaveGap := True\<rparr>)"
    and detected: "rt_historyMayHaveGap r \<Longrightarrow> R r (r\<lparr>rt_gapDetected := True\<rparr>)"
    and asked: "asks_history call = Some needs \<Longrightarrow> \<not> rt_historyMayHaveGap r \<or> needs \<Longrightarrow> R r (tell_rt call r)"
    and acknowledged: "R r (submitPendingAppliedAck out r)"
    and probes_stopped: "R r (stopLivenessProbe r)"
    and probes_started: "R r (startLivenessProbe r)"
    and retired: "R r (retire_socket r)"
    and opened: "rt_agentWs r = None \<Longrightarrow> R r (open_socket out url r)"
    and probed: "R r (probeLivenessNow r)" "R r (probeTick r)" "R r (pingSettled i answered r)"
begin

lemma refl: "R r r"
  by (rule same) simp

lemma same_then: "R r s \<Longrightarrow> core t = core s \<Longrightarrow> R r t"
  using trans same by blast

lemma cond: "R r s \<Longrightarrow> R r t \<Longrightarrow> R r (if b then s else t)"
  by simp

lemma emitSnapshot: "R r (emitSnapshot r)"
proof -
  have "R r (r\<lparr>rt_snapshot := buildSnapshot r\<rparr>)" by (rule same) (simp add: core_def)
  also have "R \<dots> (tell_rt (SnapshotTold (buildSnapshot r)) \<dots>)" by (rule plain) simp
  finally show ?thesis by (simp add: emitSnapshot_def Let_def refl)
qed

lemma emitRuntimeEvent: "R r (emitRuntimeEvent e r)"
  using plain [of "RuntimeEvent e" r] by (simp add: emitRuntimeEvent_def refl)

lemma emitConnectionState: "R r (emitConnectionState s r)"
proof -
  have "R r (if rt_disposed r then r else tell_rt (ConnectionTold s) r)" using plain [of "ConnectionTold s" r] by (simp add: refl)
  also have "R \<dots> (emitSnapshot \<dots>)" by (rule emitSnapshot)
  finally show ?thesis by (simp add: emitConnectionState_def)
qed

lemma pending_irrelevant: "core (r\<lparr>rt_bootstrapRepairPending := v\<rparr>) = core r"
  by (simp add: core_def)

lemma gap_stated: "R r (r\<lparr>rt_historyMayHaveGap := True, rt_gapDetected := True\<rparr>)"
  using trans [OF suspected detected, of r] by simp

lemma requestBootstrap: "R r (snd (requestBootstrapForAttach out r))"
proof -
  let ?r1 = "r\<lparr>rt_historyMayHaveGap := True, rt_bootstrapRepairPending := True\<rparr>"
  have one: "R r ?r1" by (rule same_then [OF suspected [of r]]) (simp add: core_def)
  have "R ?r1 (?r1\<lparr>rt_gapDetected := True\<rparr>)" by (rule detected) simp
  then have "R r (emitSnapshot (?r1\<lparr>rt_gapDetected := True\<rparr>))" using one emitSnapshot trans by blast
  then show ?thesis using one by (simp add: requestBootstrapForAttach_def Let_def refl)
qed

lemma requestBootstrap_asks:
  "requestBootstrapForAttach out r = (needs, s) \<Longrightarrow> \<not> rt_historyMayHaveGap s \<or> needs"
  by (auto simp: requestBootstrapForAttach_def needsBootstrap_def Let_def split: if_splits)

lemma seeds: "R r (applyAttachSeedToLiveTransport r)"
proof (cases "rt_liveTransport r = None \<or> rt_attachedGeneration r \<noteq> Some (rt_liveGeneration r)")
  case True
  then show ?thesis by (auto simp: applyAttachSeedToLiveTransport_def refl split: option.split)
next
  case False
  then obtain t where t: "rt_liveTransport r = Some t" "rt_attachedGeneration r = Some (rt_liveGeneration r)" by auto
  let ?r1 = "case rt_seed r of None \<Rightarrow> r | Some seed \<Rightarrow> tell_rt (InputCursorSeeded t seed) r"
  let ?r2 = "?r1\<lparr>rt_attachedSize := None\<rparr>"
  let ?r3 = "case rt_attachedSize ?r1 of None \<Rightarrow> ?r2 | Some (cols, rows) \<Rightarrow> tell_rt (AttachedSizeNoted t cols rows) ?r2"
  let ?r4 = "tell_rt (OutboundFlushed t) ?r3"
  have "R r ?r1" using plain [of "InputCursorSeeded t seed" r for seed] by (auto simp: refl split: option.split)
  also have "R ?r1 ?r2" by (rule same) (simp add: core_def)
  also have "R ?r2 ?r3"
    using plain [of "AttachedSizeNoted t cols rows" ?r2 for cols rows] by (auto simp: refl split: option.split)
  also have "R ?r3 ?r4" by (rule plain) simp
  also have "R ?r4 (case rt_seed r of None \<Rightarrow> ?r4 | Some seed \<Rightarrow> tell_rt (StreamCursorSeeded t seed) ?r4)"
    using plain [of "StreamCursorSeeded t seed" ?r4 for seed] by (auto simp: refl split: option.split)
  finally show ?thesis using t by (simp add: applyAttachSeedToLiveTransport_def Let_def)
qed

lemma outcome_attached: "R r (outcome_attached out result r)"
proof -
  let ?r1 = "r\<lparr>rt_everAttached := True, rt_attachedGeneration := Some (rt_transportGeneration r)\<rparr>"
  have "R r ?r1" by (rule same) (simp add: core_def)
  also note seeds
  also note acknowledged
  finally show ?thesis by (simp add: outcome_attached_def refl)
qed

lemma relay_requested: "core (requestRelayAttach r) = core r"
  by (simp add: core_def requestRelayAttach_def enqueue_task_def)

lemma outcome_told: "R r (outcome_told result r)"
  unfolding outcome_told_def by (rule trans [OF plain emitSnapshot]) simp

lemma on_plain_outcome: "R r (on_plain_outcome out result r)"
proof -
  let ?r1 = "outcome_attached out result r"
  have "R r ?r1" by (rule outcome_attached)
  also have "R ?r1 (if at_phase result = Connecting \<or> at_phase result = Reconnecting then requestRelayAttach ?r1 else ?r1)"
    by (rule same) (simp add: relay_requested)
  also note outcome_told
  finally show ?thesis by (simp add: on_plain_outcome_def Let_def)
qed

lemma attach_irrelevant: "core (r\<lparr>rt_attach := a\<rparr>) = core r" "core (cancel_attach r) = core r"
  by (simp_all add: core_def cancel_attach_def)

lemma dispatch_plain: "R r (snd (dispatch_plain out e r))"
  unfolding dispatch_plain_def Let_def snd_conv by (rule trans [OF same on_plain_outcome]) (rule attach_irrelevant)

lemma route_dispatch: "R r (route_dispatch out e r)"
  unfolding route_dispatch_def split_def Let_def by (rule trans [OF dispatch_plain emitRuntimeEvent])

lemma maybeStart: "R r (maybeStartP2PAttach out r)"
proof (cases "maybeStartP2PAttach out r = r")
  case True
  then show ?thesis by (simp only: refl)
next
  case False
  obtain needs r1 where q: "requestBootstrapForAttach out r = (needs, r1)" by fastforce
  have start: "R r r1" using requestBootstrap [of r out] q by simp
  obtain gen a where g: "startP2PAttach \<lparr>ap_sessionName = cf_sessionName (rt_config r1),
              ap_manualRoute = (cf_manualOverride (rt_config r1) \<noteq> None), ap_lastResize = rt_lastResize r,
              ap_needsBootstrap = needs, ap_transportGeneration = rt_transportGeneration r1, ap_onAttachOk = True\<rparr>
              (rt_attach r1) = (gen, a)" by fastforce
  have "\<exists>ps. maybeStartP2PAttach out r = (case gen of None \<Rightarrow> r1\<lparr>rt_attach := a\<rparr>
      | Some g \<Rightarrow> tell_rt (AttachSent g (ws_id (the (rt_agentWs r1))) needs) (r1\<lparr>rt_attach := a, rt_preserves := ps\<rparr>))"
    using False q g by (auto simp: maybeStartP2PAttach_def Let_def split_def split: if_splits option.split)
  moreover have "R r (r1\<lparr>rt_attach := a\<rparr>)" by (rule same_then [OF start attach_irrelevant(1)])
  moreover have "R r (tell_rt (AttachSent g n needs) (r1\<lparr>rt_attach := a, rt_preserves := ps\<rparr>))" for g n ps
  proof -
    let ?r2 = "r1\<lparr>rt_attach := a, rt_preserves := ps\<rparr>"
    have "R r ?r2" by (rule same_then [OF start]) (simp add: core_def)
    moreover have "R ?r2 (tell_rt (AttachSent g n needs) ?r2)"
      using requestBootstrap_asks [OF q] by (intro asked [of _ needs]) (simp_all add: asks_history_def)
    ultimately show ?thesis by (rule trans)
  qed
  ultimately show ?thesis by (cases gen) auto
qed

lemma relay_revoked: "core (revokeRelayProof r) = core r"
  by (simp add: core_def revokeRelayProof_def)

lemma beginRelay: "R r (beginRelayOnce out r)"
proof (cases "cf_serverConnection (rt_config r) = None \<or> phase r = Attached")
  case True
  then show ?thesis by (auto simp: beginRelayOnce_def refl split: option.split)
next
  case False
  then obtain conn where conn: "cf_serverConnection (rt_config r) = Some conn" "phase r \<noteq> Attached" by auto
  obtain needs r1 where q: "requestBootstrapForAttach out (revokeRelayProof r) = (needs, r1)" by fastforce
  let ?r2 = "tell_rt (RelayBegun (rt_lastResize r) needs) r1"
  have "R r (revokeRelayProof r)" by (rule same) (rule relay_revoked)
  also have "R \<dots> r1" using requestBootstrap [of "revokeRelayProof r" out] q by simp
  also have "R r1 ?r2" using requestBootstrap_asks [OF q] by (intro asked [of _ needs]) (simp_all add: asks_history_def)
  also have "R ?r2 (if sv_tracked conn then ?r2\<lparr>rt_relayBeginWire := out_sent out\<rparr> else ?r2)"
    by (rule same) (simp add: core_def)
  also note route_dispatch [of _ out RelayBeginOk]
  finally show ?thesis using conn q by (simp add: beginRelayOnce_def Let_def)
qed

lemma drive: "R r (driveRelayAttach out r)"
proof -
  let ?r1 = "if phase r = Failed then snd (dispatch_plain out SessionSelected r) else r"
  have "R r ?r1" by (simp add: dispatch_plain refl)
  moreover have "R ?r1 (if out_serverReady out then beginRelayOnce out ?r1 else ?r1)" by (simp add: beginRelay refl)
  ultimately have "R r (if out_serverReady out then beginRelayOnce out ?r1 else ?r1)" by (rule trans)
  then show ?thesis by (simp add: driveRelayAttach_def Let_def refl)
qed

lemma setReady: "R r (setTransportReady out ready r)"
proof (cases "rt_transportReady r = ready")
  case True
  then show ?thesis by (simp add: setTransportReady_def refl)
next
  case changed: False
  have one: "R r (r\<lparr>rt_transportReady := v\<rparr>)" for v by (rule same) (simp add: core_def)
  show ?thesis
  proof (cases ready)
    case True
    let ?r1 = "r\<lparr>rt_transportReady := True\<rparr>"
    let ?r3 = "if effectiveForcedRelay ?r1 \<and> phase ?r1 = Idle then snd (dispatch_plain out SessionSelected ?r1) else ?r1"
    note one [of True]
    also have "R ?r1 ?r3" by (simp add: dispatch_plain refl)
    also note maybeStart [where out = out]
    also note drive [where out = out]
    also note emitSnapshot
    finally show ?thesis using changed True by (simp add: setTransportReady_def Let_def)
  next
    case False
    note one [of False]
    also note revoked
    also note emitSnapshot
    finally show ?thesis using changed False by (simp add: setTransportReady_def Let_def)
  qed
qed

lemma buildTransport: "R r (buildTransport r)"
proof -
  let ?r1 = "r\<lparr>rt_transports := Suc (rt_transports r), rt_liveTransport := Some (rt_transports r), rt_liveGeneration := rt_transportGeneration r\<rparr>"
  have "R r ?r1" by (rule same) (simp add: core_def)
  also note built
  finally show ?thesis by (simp add: buildTransport_def Let_def)
qed

lemma rebind: "R r (rebind out r)"
  unfolding rebind_def by (rule trans [OF trans [OF setReady buildTransport] setReady])

lemma swap: "R r (emitTransportSwap out r)"
  using trans [OF revoked rebind] by (simp add: emitTransportSwap_def Let_def revoked)

lemma sync: "R r (syncAgentConnection out force r)"
proof -
  let ?gone = "(retire_socket r)\<lparr>rt_seed := None\<rparr>"
  have gone: "R r ?gone" by (rule same_then [OF retired]) (simp add: core_def)
  have none: "rt_agentWs (retire_socket r) = None"
    by (simp add: retire_socket_def dispose_socket_def tell_rt_def split: option.split)
  have "R r (let r2 = open_socket out url (retire_socket r);
                r3 = (if connectionState r2 = WsDisconnected
                      then enqueue_task (SettledSocketTask (rt_sockets (retire_socket r))) r2 else r2);
                r4 = emitTransportSwap out r3
            in if connectionState r4 = WsConnected then maybeStartP2PAttach out r4 else r4)" for url
  proof -
    let ?r2 = "open_socket out url (retire_socket r)"
    let ?r3 = "if connectionState ?r2 = WsDisconnected then enqueue_task (SettledSocketTask (rt_sockets (retire_socket r))) ?r2 else ?r2"
    have "R r ?r2" by (rule trans [OF retired opened [OF none]])
    also have "R ?r2 ?r3" by (rule same) (simp add: core_def enqueue_task_def)
    also note swap
    finally show ?thesis using trans [OF _ maybeStart] by (simp add: Let_def)
  qed
  then show ?thesis
    using gone trans [OF gone swap] maybeStart [of r out]
    unfolding syncAgentConnection_def retire_socket_def [symmetric] open_socket_def [symmetric] Let_def
    by (simp add: refl)
qed

lemma relay_wired: "core (wireRelayServerHandler r) = core r"
  by (simp add: core_def wireRelayServerHandler_def)

lemma force_relay: "R r (applyForceRelay out r)"
proof (cases "effectiveForcedRelay r")
  case True
  then show ?thesis by (simp add: applyForceRelay_def refl)
next
  case False
  let ?r1 = "(revokeRelayProof r)\<lparr>rt_forcedRelayFallback := True\<rparr>"
  let ?r2 = "if out_hasSessionOutput out = Some True
    then ?r1\<lparr>rt_historyMayHaveGap := True, rt_bootstrapRepairPending := True, rt_gapDetected := True\<rparr> else ?r1"
  let ?r3 = "?r2\<lparr>rt_policy := update_policy (\<lambda>p. p\<lparr>po_forcedRelay := True\<rparr>) (rt_policy ?r2), rt_attachedGeneration := None\<rparr>"
  let ?r4 = "cancel_attach ?r3"
  let ?r5 = "?r4\<lparr>rt_transportGeneration := rt_transportGeneration ?r4 + 1\<rparr>"
  have "R r ?r1" by (rule same) (simp add: core_def revokeRelayProof_def)
  moreover have "R ?r1 ?r2" using same_then [OF gap_stated [of ?r1]] by (simp add: refl core_def)
  ultimately have "R r ?r2" by (rule trans)
  moreover have "R ?r2 ?r5" by (rule same) (simp add: core_def cancel_attach_def)
  ultimately have "R r ?r5" by (rule trans)
  also note sync [where out = out and force = False]
  also have "R x (wireRelayServerHandler x)" for x by (rule same) (rule relay_wired)
  also note emitRuntimeEvent [where e = ForceRelayEvent]
  also have "R x (requestRelayAttach x)" for x by (rule same) (rule relay_requested)
  also note emitSnapshot
  finally show ?thesis using False unfolding applyForceRelay_def Let_def by (simp only: if_False)
qed

lemma on_outcome: "R r (on_outcome out result r)"
proof -
  let ?r1 = "outcome_attached out result r"
  have "R ?r1 (if at_forceRelay result then applyForceRelay out ?r1
      else if at_retryAttach result then maybeStartP2PAttach out ?r1
      else if at_phase result = Connecting \<or> at_phase result = Reconnecting then requestRelayAttach ?r1 else ?r1)"
    using same [OF relay_requested] by (simp add: force_relay maybeStart refl)
  with outcome_attached [of r out result] show ?thesis
    unfolding on_outcome_def Let_def by (intro trans [OF trans outcome_told])
qed

lemma dispatch_outcome: "R r (dispatch_outcome out e r)"
  unfolding dispatch_outcome_def by (rule trans [OF same on_outcome]) (rule attach_irrelevant)

lemma restart_route: "R r (snd (restart_route out r))"
proof -
  let ?r1 = "(revokeRelayProof r)\<lparr>rt_attachedGeneration := None\<rparr>"
  let ?r2 = "snd (dispatch_plain out Disconnect (cancel_attach ?r1))"
  let ?r3 = "snd (dispatch_plain out SessionSelected ?r2)"
  have "R r (cancel_attach ?r1)" by (rule same) (simp add: core_def cancel_attach_def revokeRelayProof_def)
  also have "R \<dots> ?r2" by (rule dispatch_plain)
  also have "R \<dots> ?r3" by (rule dispatch_plain)
  also have "R ?r3 (?r3\<lparr>rt_transportGeneration := rt_transportGeneration ?r3 + 1\<rparr>)" by (rule same) (simp add: core_def)
  also note sync [where out = out and force = True]
  finally show ?thesis by (simp add: restart_route_def Let_def split_def)
qed

lemma route_intent: "R r (handleRouteIntentChange out r)"
  unfolding handleRouteIntentChange_def split_def Let_def by (rule trans [OF restart_route emitRuntimeEvent])

lemma reattach: "R r (forceBootstrapReattach out r)"
proof -
  let ?r1 = "snd (restart_route out r)"
  have "R r ?r1" by (rule restart_route)
  also have "R ?r1 (if effectiveForcedRelay ?r1
      then requestRelayAttach (if rt_agentWs r \<noteq> None then ?r1 else emitTransportSwap out ?r1) else ?r1)"
    using same_then [OF swap relay_requested, of ?r1 out] same [OF relay_requested, of ?r1] by (simp add: refl)
  also note emitRuntimeEvent [where e = "RouteIntentChanged (fst (restart_route out r))"]
  also note emitSnapshot
  finally show ?thesis unfolding forceBootstrapReattach_def split_def Let_def .
qed

lemma renderer_replaced: "R r (noteRendererReplaced out r)"
proof -
  let ?r1 = "resetTerminalAppliedCursor r"
  let ?r2 = "?r1\<lparr>rt_historyMayHaveGap := True, rt_gapDetected := True, rt_bootstrapRepairPending := True\<rparr>"
  have "R r ?r1" by (rule revoked)
  also have "R ?r1 ?r2" by (rule same_then [OF gap_stated]) (simp add: core_def)
  also note emitSnapshot
  also note reattach [where out = out]
  finally show ?thesis by (simp add: noteRendererReplaced_def refl)
qed

lemma truncated: "R r (noteStreamTruncated r)"
proof -
  let ?r1 = "resetTerminalAppliedCursor r"
  let ?r2 = "?r1\<lparr>rt_historyMayHaveGap := True, rt_gapDetected := True, rt_bootstrapRepairPending := False\<rparr>"
  have "R r ?r1" by (rule revoked)
  also have "R ?r1 ?r2" by (rule same_then [OF gap_stated]) (simp add: core_def)
  also note emitSnapshot
  finally show ?thesis by (simp add: noteStreamTruncated_def)
qed

lemma epoch_changed: "R r (noteStreamEpochChanged r)"
  unfolding noteStreamEpochChanged_def by (rule trans [OF trans [OF revoked gap_stated] emitSnapshot])

lemma adopt_epoch: "R r (adoptStreamEpoch epoch r)"
proof -
  have "R r (r\<lparr>rt_lastObservedStreamEpoch := e\<rparr>)" for e by (rule same) (simp add: core_def)
  then show ?thesis using trans [OF _ epoch_changed] by (auto simp: adoptStreamEpoch_def Let_def refl split: option.split)
qed

lemma context_updated: "R r (updateContext out u r)"
proof -
  let ?r1 = "sync_policy (flip_mode (route_changed u r) (effectiveForcedRelay r) (take_config u r))"
  have policy: "core (r\<lparr>rt_policy := p\<rparr>) = core r" "core (sync_policy r) = core r" for r p
    by (simp_all add: core_def sync_policy_def Let_def)
  have "R r (take_config u r)"
    by (rule same) (simp add: core_def take_config_def Let_def invalidateP2PCredential_def revokeRelayProof_def)
  moreover have "R x (flip_mode a b x)" for x a b
    unfolding flip_mode_def by (intro cond refl trans [OF same revoked]) (simp add: core_def)
  ultimately have "R r (flip_mode (route_changed u r) (effectiveForcedRelay r) (take_config u r))" using trans by blast
  then have "R r ?r1" by (rule same_then) (rule policy)
  then show ?thesis
    unfolding updateContext_def Let_def
    by (intro cond trans [OF _ emitSnapshot] trans [OF _ route_intent] trans [OF _ drive] same_then [OF _ relay_wired]
        trans [OF _ sync] same_then [OF _ policy(1)])
qed

lemma attach_accepted: "R r (on_attach_ok gen params reply r)"
proof -
  let ?r1 = "adoptStreamEpoch (ok_streamEpoch reply) r"
  have "R r (case ok_terminalCols reply of None \<Rightarrow> ?r1 | Some cols \<Rightarrow> emitRuntimeEvent (SessionTerminalCols cols) ?r1)"
    using adopt_epoch [of r] trans [OF adopt_epoch emitRuntimeEvent] by (simp split: option.split)
  then show ?thesis unfolding on_attach_ok_def Let_def by (rule same_then) (simp add: core_def)
qed

lemma attach_settled: "R r (attachSettled out gen result r)"
proof (cases "map_of (sc_outstanding (rt_attach r)) gen")
  case None
  then show ?thesis by (simp add: attachSettled_def refl)
next
  case (Some params)
  let ?r0 = "r\<lparr>rt_attach := settle_promise gen (rt_attach r)\<rparr>"
  let ?r1 = "?r0\<lparr>rt_attach := (rt_attach ?r0)\<lparr>sc_inFlight := None\<rparr>\<rparr>"
  have zero: "R r ?r0" "R r ?r1" by (rule same, simp add: core_def)+
  have "R r (cancel_attach (dispatch_outcome out AttachOk (on_attach_ok gen params reply ?r1)))" for reply
    by (rule same_then [OF trans [OF trans [OF zero(2) attach_accepted] dispatch_outcome] attach_irrelevant(2)])
  moreover have "R r (settle_timeout out params ?r1)"
    unfolding settle_timeout_def by (rule trans [OF zero(2) dispatch_outcome])
  moreover have "R r (cancel_attach (dispatch_outcome out e ?r1))" for e
    by (rule same_then [OF trans [OF zero(2) dispatch_outcome] attach_irrelevant(2)])
  ultimately show ?thesis using zero(1)
    unfolding attachSettled_def Let_def Some option.case
    by (auto simp del: settle_simps split: attach_settled.split)
qed

lemma candidate_lost: "R r (applyCandidateDisconnect out r)"
proof -
  obtain action policy where p: "onCandidateDisconnected (rt_policy r) = (action, policy)" by fastforce
  let ?r1 = "r\<lparr>rt_policy := policy\<rparr>"
  have one: "R r ?r1" by (rule same) (simp add: core_def)
  show ?thesis
  proof (cases action)
    case NoAction
    then show ?thesis using one p by (simp add: applyCandidateDisconnect_def)
  next
    case NextCandidate
    let ?r2 = "?r1\<lparr>rt_attachedGeneration := None, rt_transportGeneration := rt_transportGeneration ?r1 + 1\<rparr>"
    have "R r ?r2" by (rule same) (simp add: core_def)
    also note sync [where out = out and force = False]
    also note emitRuntimeEvent [where e = "NextCandidateEvent (activeUrl (syncAgentConnection out False ?r2))"]
    also note emitSnapshot
    finally show ?thesis using p NextCandidate by (simp add: applyCandidateDisconnect_def Let_def)
  next
    case ForceRelayAction
    then show ?thesis using trans [OF one force_relay] p by (simp add: applyCandidateDisconnect_def)
  next
    case (TransportExhaustedAction manual)
    note one
    also note dispatch_plain [where out = out and e = "TransportExhausted manual"]
    also note emitRuntimeEvent [where e = "TransportExhaustedEvent manual"]
    also note emitSnapshot
    finally show ?thesis using p TransportExhaustedAction by (simp add: applyCandidateDisconnect_def)
  qed
qed

lemma socket_state: "R r (socketState out next r)"
proof (cases "rt_agentWs r")
  case None
  then show ?thesis by (simp add: socketState_def refl)
next
  case (Some ws)
  let ?r1 = "emitConnectionState next (r\<lparr>rt_agentWs := Some (ws\<lparr>ws_state := next\<rparr>)\<rparr>)"
  have "R r (r\<lparr>rt_agentWs := Some (ws\<lparr>ws_state := next\<rparr>)\<rparr>)" by (rule same) (simp add: core_def Some)
  also note emitConnectionState
  finally have one: "R r ?r1" .
  let ?r2 = "stopLivenessProbe ?r1"
  have two: "R r ?r2" by (rule trans [OF one probes_stopped])
  let ?r3 = "?r2\<lparr>rt_attachedGeneration := None\<rparr>"
  have three: "R r ?r3" by (rule same_then [OF two]) (simp add: core_def)
  show ?thesis
    unfolding socketState_def Some option.case Let_def
    by (intro cond refl two trans [OF two candidate_lost] trans [OF trans [OF one probes_started] maybeStart]
        trans [OF _ route_dispatch] trans [OF three truncated] three)
qed

lemma relay_ready: "R r (relayReady out proof generation r)"
proof -
  have "R r ((adoptStreamEpoch (Some (rp_streamEpoch proof)) r)\<lparr>rt_relayProof := Some proof\<rparr>)"
    by (rule same_then [OF adopt_epoch]) (simp add: core_def)
  then show ?thesis using trans [OF _ acknowledged] by (auto simp: relayReady_def refl split: option.split)
qed

lemma server_state: "R r (serverState out state r)"
proof -
  have "R r (revokeRelayProof r)" by (rule same) (rule relay_revoked)
  then show ?thesis
    using refl drive [of r out] trans [OF trans [OF _ truncated] route_dispatch] by (simp add: serverState_def Let_def)
qed

lemma task_run: "R r (run_task out r)"
proof -
  have "R r (r\<lparr>rt_tasks := ts\<rparr>)" for ts by (rule same) (simp add: core_def)
  then show ?thesis
    using refl trans [OF _ drive] trans [OF _ candidate_lost]
    by (auto simp: run_task_def Let_def split: list.split task.split option.split)
qed

lemma url_requested: "R r (resolveP2PUrl out attempt r)"
proof -
  have "R r (tell_rt (FreshAttachRequested g) (r\<lparr>rt_refreshGeneration := g, rt_refreshes := a, rt_credentialRefresh := b, rt_urlWaiters := c\<rparr>))"
    for g a b c using trans [OF same plain] by (simp add: core_def)
  moreover have "R r (r\<lparr>rt_urlWaiters := c\<rparr>)" for c by (rule same) (simp add: core_def)
  ultimately show ?thesis by (auto simp: resolveP2PUrl_def Let_def refl split: option.split)
qed

lemma renewal_settled: "R r (renewalSettled gen result r)"
proof (cases "map_of (rt_refreshes r) gen")
  case None
  then show ?thesis by (simp add: renewalSettled_def refl)
next
  case (Some epoch)
  let ?r0 = "r\<lparr>rt_refreshes := AList.delete gen (rt_refreshes r)\<rparr>"
  have zero: "R r ?r0" by (rule same) (simp add: core_def)
  have failed: "R x (emitRuntimeEvent CredentialFailed x)" for x by (rule emitRuntimeEvent)
  have adopted: "R x (adopt_url gen url x)" for x url
    by (rule same) (simp add: core_def adopt_url_def split: option.split)
  have installed: "R r (emitRuntimeEvent CredentialRenewed (install_credential fresh ?r0))" for fresh
    by (rule trans [OF same_then [OF zero] emitRuntimeEvent]) (simp add: core_def install_credential_def)
  have "R r (if rt_refreshGeneration x = gen then x\<lparr>rt_credentialRefresh := None\<rparr> else x)" if "R r x" for x
    using that same_then [OF that] by (simp add: core_def)
  then show ?thesis
    using trans [OF zero failed] trans [OF installed failed] trans [OF installed adopted]
    unfolding renewalSettled_def Some option.case Let_def by (auto split: option.split)
qed

lemma viewport: "R r (rebind out (r\<lparr>rt_swapListening := v\<rparr>))" "R r (setTransportReady out False (r\<lparr>rt_swapListening := v\<rparr>))"
proof -
  have "R r (r\<lparr>rt_swapListening := v\<rparr>)" by (rule same) (simp add: core_def)
  then show "R r (rebind out (r\<lparr>rt_swapListening := v\<rparr>))" "R r (setTransportReady out False (r\<lparr>rt_swapListening := v\<rparr>))"
    using trans [OF _ rebind] trans [OF _ setReady] by blast+
qed

lemma resized: "R r (updateViewportSize sz r)"
  unfolding updateViewportSize_def by (intro cond refl trans [OF same emitSnapshot]) (simp add: core_def)

lemma resumed: "R r (resumeOnForeground r)"
  by (auto simp: resumeOnForeground_def refl probed plain split: option.split)

lemma open_step: "\<not> proof_input e \<Longrightarrow> e \<noteq> RuntimeDisposed \<Longrightarrow> R r (runtime_step r (out, e))"
  by (cases e) (simp_all add: viewport resized truncated renderer_replaced context_updated socket_state attach_settled
      server_state relay_ready task_run probed resumed url_requested renewal_settled)

lemma created: "R (blank_runtime c) (new_runtime out c)"
proof -
  let ?r1 = "publish (blank_runtime c)"
  let ?r2 = "snd (dispatch_plain out SessionSelected ?r1)"
  have published: "core (publish r) = core r" for r by (simp add: core_def publish_def)
  have "R (blank_runtime c) ?r1" by (rule same) (rule published)
  also note dispatch_plain [where out = out and e = SessionSelected]
  also note sync [where out = out and force = False]
  also have "R x (wireRelayServerHandler x)" for x by (rule same) (rule relay_wired)
  also note drive [where out = out]
  also have "R x (publish x)" for x by (rule same) (rule published)
  finally show ?thesis by (simp add: new_runtime_def Let_def)
qed

end

text \<open>Relations that hold over the disposal as well.\<close>

locale closing_relation = runtime_relation +
  assumes closed: "R r (resetTerminalAppliedCursor (r\<lparr>rt_disposed := True\<rparr>))"
begin

lemma disposed: "R r (dispose_runtime out r)"
proof -
  let ?r1 = "resetTerminalAppliedCursor (revokeRelayProof (invalidateP2PCredential (r\<lparr>rt_disposed := True\<rparr>)))"
  let ?r2 = "if effectiveForcedRelay ?r1 \<and> cf_attachInfo (rt_config ?r1) \<noteq> None
      \<and> cf_serverConnection (rt_config ?r1) \<noteq> None \<and> out_serverReady out then tell_rt RelayEnded ?r1 else ?r1"
  have "R r (resetTerminalAppliedCursor (r\<lparr>rt_disposed := True\<rparr>))" by (rule closed)
  also have "R \<dots> ?r1"
    by (rule same) (simp add: core_def revokeRelayProof_def invalidateP2PCredential_def resetTerminalAppliedCursor_def)
  also have "R ?r1 ?r2" by (simp add: plain refl)
  also note retired
  finally have "R r (retire_socket ?r2)" .
  moreover have "dispose_socket (cancel_attach ((teardownConnectionHandler ?r2)\<lparr>rt_relayWired := None\<rparr>))
      = (retire_socket ?r2)\<lparr>rt_relayWired := None\<rparr>"
    by (simp add: retire_socket_def dispose_socket_def cancel_attach_def teardownConnectionHandler_def stopLivenessProbe_def
        tell_rt_def split: option.split)
  moreover have "core (x\<lparr>rt_relayWired := a, rt_liveTransport := b, rt_swapListening := c\<rparr>) = core x" for x a b c
    by (simp add: core_def)
  ultimately show ?thesis unfolding dispose_runtime_def Let_def using same_then by presburger
qed

lemma step: "\<not> proof_input e \<Longrightarrow> R r (runtime_step r (out, e))"
  using open_step disposed by (cases "e = RuntimeDisposed") simp_all

end

section \<open>A loss is stated until it is repaired\<close>

definition gap_known :: "runtime \<Rightarrow> bool" where
  "gap_known r \<longleftrightarrow> (rt_gapDetected r \<longrightarrow> rt_historyMayHaveGap r)"

definition loss_kept :: "runtime \<Rightarrow> runtime \<Rightarrow> bool" where
  "loss_kept r s \<longleftrightarrow> (gap_known r \<longrightarrow> gap_known s \<and> (rt_gapDetected r \<longrightarrow> rt_gapDetected s)
     \<and> (rt_binding r = None \<longrightarrow> rt_binding s = None)
     \<and> (\<exists>new. rt_told s = rt_told r @ new \<and> (rt_gapDetected r \<longrightarrow> list_all (\<lambda>c. asks_history c \<noteq> Some False) new)))"

lemma submit_core:
  "rt_historyMayHaveGap (submitPendingAppliedAck out r) = rt_historyMayHaveGap r"
  "rt_gapDetected (submitPendingAppliedAck out r) = rt_gapDetected r"
  "rt_agentWs (submitPendingAppliedAck out r) = rt_agentWs r" "rt_pings (submitPendingAppliedAck out r) = rt_pings r"
  "rt_livenessToken (submitPendingAppliedAck out r) = rt_livenessToken r"
  "rt_livenessTimer (submitPendingAppliedAck out r) = rt_livenessTimer r"
  "rt_disposed (submitPendingAppliedAck out r) = rt_disposed r"
  by (simp_all add: submitPendingAppliedAck_def sendVerifiedRelayOutputAck_def record_ack_def tell_rt_def Let_def split: option.split)

text \<open>What an acknowledgement does: it drops a dead binding, or tells the position the cursor stands at.\<close>

definition ack_call :: "attach_mode \<Rightarrow> int \<Rightarrow> cursor_snapshot \<Rightarrow> runtime_call" where
  "ack_call m sub snap = OutputApplied m sub (cs_streamEpoch snap) (cs_generation snap) (cs_appliedSeq snap)"

definition acked :: "cursor_binding \<Rightarrow> cursor_snapshot \<Rightarrow> runtime \<Rightarrow> runtime \<Rightarrow> bool" where
  "acked b snap r s \<longleftrightarrow> s = r \<or> (\<exists>m sub. s = tell_rt (ack_call m sub snap) r \<or> s = record_ack b snap (tell_rt (ack_call m sub snap) r))"

lemma acked_simps:
  "acked b snap r r" "acked b snap r (tell_rt (OutputApplied m sub (cs_streamEpoch snap) (cs_generation snap) (cs_appliedSeq snap)) r)"
  "acked b snap r (record_ack b snap (tell_rt (OutputApplied m sub (cs_streamEpoch snap) (cs_generation snap) (cs_appliedSeq snap)) r))"
  by (auto simp: acked_def ack_call_def)

lemma acked_if: "acked b snap r s \<Longrightarrow> acked b snap r t \<Longrightarrow> acked b snap r (if c then s else t)"
  by simp

lemma relay_acked: "acked b snap r (sendVerifiedRelayOutputAck out b snap r)"
  by (simp add: sendVerifiedRelayOutputAck_def Let_def acked_simps split: option.split)

lemma submit_acked:
  assumes "rt_binding r = Some b" and "snapshot b (rt_cursor r) = Some snap"
  shows "acked b snap r (submitPendingAppliedAck out r)"
  unfolding submitPendingAppliedAck_def assms option.case Let_def
  by (intro acked_if acked_simps relay_acked) (simp add: acked_simps split: option.split)

lemma submit_gate:
  assumes "rt_binding r = Some b" and "snapshot b (rt_cursor r) = Some snap" and "submitPendingAppliedAck out r \<noteq> r"
  shows "phase r = Attached" "rt_liveGeneration r = rt_transportGeneration r" "cs_ackSentSeq snap < cs_appliedSeq snap"
  using assms by (auto simp: submitPendingAppliedAck_def split: if_splits)

lemma submit_without:
  assumes "\<not> (\<exists>b snap. rt_binding r = Some b \<and> snapshot b (rt_cursor r) = Some snap)"
  shows "submitPendingAppliedAck out r = r \<or> submitPendingAppliedAck out r = r\<lparr>rt_binding := None\<rparr>"
  using assms by (auto simp: submitPendingAppliedAck_def split: option.split)

lemma coreD:
  assumes "core s = core r"
  shows "rt_told s = rt_told r" "rt_historyMayHaveGap s = rt_historyMayHaveGap r" "rt_gapDetected s = rt_gapDetected r"
    "rt_binding s = rt_binding r" "rt_cursor s = rt_cursor r" "map_option ws_id (rt_agentWs s) = map_option ws_id (rt_agentWs r)"
    "rt_disposed s = rt_disposed r" "rt_pings s = rt_pings r" "rt_livenessToken s = rt_livenessToken r" "rt_livenessTimer s = rt_livenessTimer r"
  using assms by (simp_all add: core_def)

text \<open>How the socket and probe primitives change what is told.\<close>

definition told_unless_probe :: "runtime_call list \<Rightarrow> bool" where
  "told_unless_probe new \<longleftrightarrow> list_all (\<lambda>c. plain_call c \<or> (\<exists>n. c = SocketUnresponsive n)) new"

definition adds :: "(runtime_call list \<Rightarrow> bool) \<Rightarrow> runtime \<Rightarrow> runtime \<Rightarrow> bool" where
  "adds P r s \<longleftrightarrow> (\<exists>new. rt_told s = rt_told r @ new \<and> P new)"

lemma socket_told:
  "adds told_unless_probe r (retire_socket r)" "adds told_unless_probe r (open_socket out url r)"
  "adds told_unless_probe r (stopLivenessProbe r)" "adds told_unless_probe r (startLivenessProbe r)"
  "adds told_unless_probe r (probeLivenessNow r)" "adds told_unless_probe r (probeTick r)"
  "adds told_unless_probe r (pingSettled i answered r)"
  by (auto simp: adds_def told_unless_probe_def retire_socket_def open_socket_def dispose_socket_def cancel_attach_def
      teardownConnectionHandler_def stopLivenessProbe_def startLivenessProbe_def build_socket_def wireConnectionHandler_def
      tell_rt_def Let_def probeLivenessNow_def probeTick_def probe_ping_def pingSettled_def split_def split: option.split)

definition proof_state :: "runtime \<Rightarrow> _" where
  "proof_state r = (rt_historyMayHaveGap r, rt_gapDetected r, rt_binding r, rt_cursor r, rt_disposed r)"

lemma socket_frame:
  "proof_state (retire_socket r) = proof_state r" "proof_state (open_socket out url r) = proof_state r"
  "proof_state (stopLivenessProbe r) = proof_state r" "proof_state (startLivenessProbe r) = proof_state r"
  "proof_state (probeLivenessNow r) = proof_state r" "proof_state (probeTick r) = proof_state r"
  "proof_state (pingSettled i answered r) = proof_state r"
  by (simp_all add: proof_state_def retire_socket_def open_socket_def dispose_socket_def cancel_attach_def
      teardownConnectionHandler_def stopLivenessProbe_def startLivenessProbe_def build_socket_def wireConnectionHandler_def
      tell_rt_def Let_def probeLivenessNow_def probeTick_def probe_ping_def pingSettled_def split_def split: option.split)

lemma asks_plain: "plain_call c \<Longrightarrow> asks_history c = None"
  by (cases c) (simp_all add: asks_history_def)

lemma loss_kept_quiet:
  assumes "rt_historyMayHaveGap s = rt_historyMayHaveGap r" "rt_gapDetected s = rt_gapDetected r"
    "rt_binding s = rt_binding r \<or> rt_binding s = None" "adds (list_all (\<lambda>c. asks_history c \<noteq> Some False)) r s"
  shows "loss_kept r s"
  using assms by (auto simp: loss_kept_def gap_known_def adds_def)

lemma loss_kept_socket: "proof_state s = proof_state r \<Longrightarrow> adds told_unless_probe r s \<Longrightarrow> loss_kept r s"
  using asks_plain
  by (intro loss_kept_quiet) (fastforce simp: proof_state_def adds_def told_unless_probe_def list_all_iff asks_history_def)+

lemma submit_told:
  "adds (\<lambda>new. new = [] \<or> (\<exists>b snap m sub. rt_binding r = Some b \<and> snapshot b (rt_cursor r) = Some snap \<and> new = [ack_call m sub snap])) r (submitPendingAppliedAck out r)"
proof (cases "\<exists>b snap. rt_binding r = Some b \<and> snapshot b (rt_cursor r) = Some snap")
  case True
  then obtain b snap where b: "rt_binding r = Some b" "snapshot b (rt_cursor r) = Some snap" by auto
  from submit_acked [OF b, of out] consider "submitPendingAppliedAck out r = r"
    | m sub where "rt_told (submitPendingAppliedAck out r) = rt_told r @ [ack_call m sub snap]"
    by (auto simp: acked_def tell_rt_def record_ack_def)
  then show ?thesis using b by cases (auto simp: adds_def)
next
  case False
  with submit_without [OF this, of out] show ?thesis by (auto simp: adds_def)
qed

lemma submit_binding: "rt_binding (submitPendingAppliedAck out r) = rt_binding r \<or> rt_binding (submitPendingAppliedAck out r) = None"
proof (cases "\<exists>b snap. rt_binding r = Some b \<and> snapshot b (rt_cursor r) = Some snap")
  case True
  then obtain b snap where "rt_binding r = Some b" "snapshot b (rt_cursor r) = Some snap" by auto
  from submit_acked [OF this, of out] show ?thesis by (auto simp: acked_def tell_rt_def record_ack_def)
next
  case False
  with submit_without [OF this, of out] show ?thesis by auto
qed

lemma loss_kept_trans: "loss_kept r s \<Longrightarrow> loss_kept s t \<Longrightarrow> loss_kept r t"
  by (fastforce simp: loss_kept_def)

interpretation loss: closing_relation loss_kept
proof
  fix r s :: runtime
  assume "core s = core r"
  then show "loss_kept r s" using coreD [of s r] by (intro loss_kept_quiet) (simp_all add: adds_def)
next
  fix call :: runtime_call and r :: runtime assume "plain_call call"
  then show "loss_kept r (tell_rt call r)" by (intro loss_kept_quiet) (simp_all add: tell_rt_def asks_plain adds_def)
next
  fix call :: runtime_call and needs and r :: runtime assume "asks_history call = Some needs" "\<not> rt_historyMayHaveGap r \<or> needs"
  then show "loss_kept r (tell_rt call r)" by (auto simp: loss_kept_def gap_known_def tell_rt_def)
next
  fix out :: outside and r :: runtime
  show "loss_kept r (submitPendingAppliedAck out r)"
    using submit_told [of r out] submit_binding [of out r]
    by (intro loss_kept_quiet) (auto simp: submit_core ack_call_def asks_history_def adds_def)
next
  fix r s t :: runtime assume "loss_kept r s" "loss_kept s t"
  then show "loss_kept r t" by (rule loss_kept_trans)
next
  fix n g api and r :: runtime
  show "loss_kept r (tell_rt (TransportBuilt n g api) r)" "loss_kept r (resetTerminalAppliedCursor r)"
    "loss_kept r (resetTerminalAppliedCursor (r\<lparr>rt_disposed := True\<rparr>))"
    by (intro loss_kept_quiet; simp add: adds_def tell_rt_def asks_history_def resetTerminalAppliedCursor_def)+
next
  fix r :: runtime
  show "loss_kept r (r\<lparr>rt_historyMayHaveGap := True\<rparr>)" by (simp add: loss_kept_def gap_known_def)
  assume "rt_historyMayHaveGap r"
  then show "loss_kept r (r\<lparr>rt_gapDetected := True\<rparr>)" by (simp add: loss_kept_def gap_known_def)
qed (rule loss_kept_socket [OF socket_frame(1) socket_told(1)] loss_kept_socket [OF socket_frame(2) socket_told(2)]
      loss_kept_socket [OF socket_frame(3) socket_told(3)] loss_kept_socket [OF socket_frame(4) socket_told(4)]
      loss_kept_socket [OF socket_frame(5) socket_told(5)] loss_kept_socket [OF socket_frame(6) socket_told(6)]
      loss_kept_socket [OF socket_frame(7) socket_told(7)])+

text \<open>The three inputs that change the proof, relative to what they leave alone.\<close>

definition gap_kept :: "runtime \<Rightarrow> runtime \<Rightarrow> bool" where
  "gap_kept r s \<longleftrightarrow> (gap_known r \<longrightarrow> gap_known s \<and> (rt_gapDetected r \<longrightarrow> rt_gapDetected s
     \<and> adds (list_all (\<lambda>c. asks_history c \<noteq> Some False)) r s))"

lemma loss_gap: "loss_kept r s \<Longrightarrow> gap_kept r s"
  by (auto simp: loss_kept_def gap_kept_def adds_def)

lemma gap_kept_trans: "gap_kept r s \<Longrightarrow> gap_kept s t \<Longrightarrow> gap_kept r t"
  by (fastforce simp: gap_kept_def adds_def)

lemma gap_kept_cursor: "gap_kept r (r\<lparr>rt_cursor := c\<rparr>)"
  "gap_kept r (r\<lparr>rt_cursor := c, rt_binding := b, rt_lastObservedStreamEpoch := e\<rparr>)"
  by (simp_all add: gap_kept_def gap_known_def adds_def)

lemma baseline_gap: "gap_kept r (setVerifiedTerminalBaseline out baseline r)"
proof -
  let ?r1 = "resetTerminalAppliedCursor r"
  have one: "gap_kept r ?r1" by (rule loss_gap [OF loss.revoked])
  have "gap_kept ?r1 (emitSnapshot (submitPendingAppliedAck out (?r1\<lparr>rt_cursor := c, rt_binding := b, rt_lastObservedStreamEpoch := e\<rparr>)))" for c b e
    by (rule gap_kept_trans [OF gap_kept_cursor(2) loss_gap [OF loss.trans [OF loss.acknowledged loss.emitSnapshot]]])
  then show ?thesis
    using one gap_kept_trans [OF one gap_kept_cursor(1)] gap_kept_trans [OF one]
    by (auto simp: setVerifiedTerminalBaseline_def Let_def split: prod.split option.split)
qed

lemma event_gap: "gap_kept r (noteStreamEventParsed out p r)"
  using gap_kept_cursor(1) [of r] gap_kept_trans [OF gap_kept_cursor(1) loss_gap [OF loss.acknowledged], of r]
    loss_gap [OF loss.refl, of r]
  by (auto simp: noteStreamEventParsed_def Let_def split: option.split prod.split)

lemma gap_step: "e \<noteq> BootstrapParsed \<Longrightarrow> gap_kept r (runtime_step r (out, e))"
  using loss_gap [OF loss.step, of e r out] baseline_gap event_gap by (cases e) simp_all

lemma gap_known_step: "gap_known r \<Longrightarrow> gap_known (runtime_step r x)"
proof -
  assume known: "gap_known r"
  obtain out e where x: "x = (out, e)" by (cases x)
  have "gap_known (noteBootstrapApplied r)"
    using known by (auto simp: noteBootstrapApplied_def emitSnapshot_def Let_def tell_rt_def gap_known_def)
  then show ?thesis using gap_step [of e r out] known x by (cases "e = BootstrapParsed") (auto simp: gap_kept_def)
qed

interpretation runtime: event_machine runtime_step gap_known
  by unfold_locales (rule gap_known_step)

lemma gap_known_new: "gap_known (new_runtime out c)"
  using loss.created [of c out] by (simp add: loss_kept_def gap_known_def blank_runtime_def)

lemma gap_run:
  "gap_known r \<Longrightarrow> rt_gapDetected r \<Longrightarrow> BootstrapParsed \<notin> snd ` set es \<Longrightarrow>
     rt_gapDetected (foldl runtime_step r es) \<and> adds (list_all (\<lambda>c. asks_history c \<noteq> Some False)) r (foldl runtime_step r es)"
proof (induction es arbitrary: r)
  case (Cons x es)
  obtain out e where x: "x = (out, e)" by (cases x)
  have "gap_kept r (runtime_step r x)" using gap_step [of e r out] Cons.prems x by auto
  then have "gap_known (runtime_step r x)" "rt_gapDetected (runtime_step r x)"
    "adds (list_all (\<lambda>c. asks_history c \<noteq> Some False)) r (runtime_step r x)"
    using Cons.prems by (simp_all add: gap_kept_def)
  then show ?case using Cons.IH [of "runtime_step r x"] Cons.prems(3) by (fastforce simp: adds_def)
qed (simp add: adds_def)

lemma unproved_step:
  "gap_known r \<Longrightarrow> rt_binding r = None \<Longrightarrow> \<nexists>b. e = BaselineProved b \<Longrightarrow> rt_binding (runtime_step r (out, e)) = None"
proof (cases e)
  case BootstrapParsed
  assume "rt_binding r = None"
  then show ?thesis using BootstrapParsed by (simp add: noteBootstrapApplied_def emitSnapshot_def Let_def tell_rt_def)
next
  case (EventParsed p)
  assume "rt_binding r = None"
  then show ?thesis using EventParsed by (simp add: noteStreamEventParsed_def)
qed (use loss.step [of e r out] in \<open>auto simp: loss_kept_def\<close>)

lemma unproved_run:
  "gap_known r \<Longrightarrow> rt_binding r = None \<Longrightarrow> list_all (\<lambda>x. \<nexists>b. snd x = BaselineProved b) es \<Longrightarrow>
     rt_binding (foldl runtime_step r es) = None"
proof (induction es arbitrary: r)
  case (Cons x es)
  obtain out e where x: "x = (out, e)" by (cases x)
  have "rt_binding (runtime_step r x) = None" using unproved_step [of r e out] Cons.prems x by simp
  then show ?case using Cons.IH [of "runtime_step r x"] gap_known_step Cons.prems by simp
qed simp

lemma loss_observed:
  assumes "gap_known r" and "\<not> rt_disposed r" and "e = TruncationObserved \<or> e = RendererWasReplaced"
  shows "rt_gapDetected (runtime_step r (out, e)) \<and> rt_binding (runtime_step r (out, e)) = None"
  using assms(3)
proof
  assume "e = TruncationObserved"
  then show ?thesis
    by (simp add: noteStreamTruncated_def emitSnapshot_def Let_def tell_rt_def resetTerminalAppliedCursor_def)
next
  assume e: "e = RendererWasReplaced"
  let ?r1 = "emitSnapshot ((resetTerminalAppliedCursor r)\<lparr>rt_historyMayHaveGap := True, rt_gapDetected := True, rt_bootstrapRepairPending := True\<rparr>)"
  have "gap_known ?r1" "rt_gapDetected ?r1" "rt_binding ?r1 = None"
    by (simp_all add: gap_known_def emitSnapshot_def Let_def tell_rt_def resetTerminalAppliedCursor_def)
  then show ?thesis using loss.reattach [of ?r1 out] e assms(2) by (simp add: noteRendererReplaced_def loss_kept_def)
qed

text \<open>
  C25. A loss stays stated until it is repaired: after the stream was truncated or the renderer replaced, in
  any later run, the gap stays published and every attach and relay begin asks for the history until a
  bootstrap was parsed; and the stream is not called synchronized before both a bootstrap was parsed and
  a new baseline was proved.
\<close>
theorem loss_stated_until_repaired:
  assumes "r = foldl runtime_step (new_runtime out0 c) before" and "\<not> rt_disposed r"
    and "e = TruncationObserved \<or> e = RendererWasReplaced"
    and "s = runtime_step r (out, e)" and "t = foldl runtime_step s later"
  shows "(BootstrapParsed \<notin> snd ` set later \<longrightarrow>
       rt_gapDetected t \<and> computeStreamState t \<noteq> Synchronized
       \<and> (\<exists>new. rt_told t = rt_told s @ new \<and> (\<forall>call \<in> set new. asks_history call \<noteq> Some False)))
     \<and> (computeStreamState t = Synchronized \<longrightarrow>
         BootstrapParsed \<in> snd ` set later \<and> (\<exists>b. BaselineProved b \<in> snd ` set later))"
proof -
  have known: "gap_known r" unfolding assms(1) by (rule runtime.run_inv [OF gap_known_new])
  note lost = loss_observed [OF known assms(2,3), of out]
  have known': "gap_known s" unfolding assms(4) by (rule gap_known_step [OF known])
  have gap: "rt_gapDetected t \<and> adds (list_all (\<lambda>c. asks_history c \<noteq> Some False)) s t" if "BootstrapParsed \<notin> snd ` set later"
    unfolding assms(5) using that lost assms(4) by (intro gap_run [OF known']) simp_all
  then have unsynced: "BootstrapParsed \<notin> snd ` set later \<Longrightarrow> computeStreamState t \<noteq> Synchronized"
    by (simp add: computeStreamState_def)
  have "computeStreamState t \<noteq> Synchronized" if "\<nexists>b. BaselineProved b \<in> snd ` set later"
  proof -
    have "rt_binding t = None"
      unfolding assms(5) using that lost assms(4) by (intro unproved_run [OF known']) (fastforce simp: list_all_iff image_iff)+
    then show ?thesis by (simp add: computeStreamState_def terminalAppliedSnapshot_def)
  qed
  then show ?thesis using gap unsynced by (auto simp: adds_def list_all_iff)
qed

definition demo_info :: attach_info where
  "demo_info = \<lparr>ai_mode = DirectAttach, ai_session_id = ''s'', ai_agent_address = None,
     ai_connection_token = Some ''t'', ai_expiresAtMs = None\<rparr>"

definition demo_config :: runtime_config where
  "demo_config = \<lparr>cf_sessionId = ''s'', cf_sessionName = ''n'', cf_attachInfo = Some demo_info, cf_orderedUrls = None,
     cf_manualOverride = None, cf_forcedRelay = False, cf_addressUrls = [''ws://a/'', ''ws://b/''], cf_routeIntentEpoch = 0,
     cf_serverConnection = Some \<lparr>sv_id = 0, sv_tracked = True, sv_outputApplied = True\<rparr>, cf_requestFreshAttach = True\<rparr>"

definition demo_outside :: outside where
  "demo_outside = \<lparr>out_hasSessionOutput = Some True, out_hasSessionHistory = Some True, out_serverReady = True,
     out_dial = WsConnecting, out_accepts = True, out_sent = Some (''r'', 1), out_clientId = ''c'', out_now = 0\<rparr>"

definition demo_reply :: "int \<Rightarrow> int \<Rightarrow> attach_ok" where
  "demo_reply epoch cursor = \<lparr>ok_streamEpoch = Some epoch, ok_streamCursor = Some cursor, ok_subscriberGeneration = Some 1,
     ok_inputEpoch = None, ok_inputAppliedThrough = None, ok_controlGeneration = None, ok_terminalCols = None\<rparr>"

definition demo_run :: "runtime_input list \<Rightarrow> runtime" where
  "demo_run es = foldl runtime_step (new_runtime demo_outside demo_config) (map (Pair demo_outside) es)"

definition attached_run :: "runtime_input list" where
  "attached_run = [BindViewport, SocketStateChanged WsConnected, AttachSettled 3 (SettledOk (demo_reply 1 5))]"

theorem loss_stated_until_repaired_witness:
  "let t = demo_run (attached_run @ [TruncationObserved, SocketStateChanged WsReconnecting, SocketStateChanged WsConnected])
   in rt_gapDetected t \<and> computeStreamState t = Unavailable \<and> last (rt_told t) = AttachSent 6 0 True"
proof -
  let ?r = "demo_run attached_run" and ?later = "map (Pair demo_outside) [SocketStateChanged WsReconnecting, SocketStateChanged WsConnected]"
  let ?t = "demo_run (attached_run @ [TruncationObserved, SocketStateChanged WsReconnecting, SocketStateChanged WsConnected])"
  have "\<not> rt_disposed ?r" by code_simp
  moreover have "BootstrapParsed \<notin> snd ` set ?later" by simp
  moreover have "?t = foldl runtime_step (runtime_step ?r (demo_outside, TruncationObserved)) ?later"
    by (simp add: demo_run_def)
  ultimately have "rt_gapDetected ?t" "computeStreamState ?t \<noteq> Synchronized"
    using loss_stated_until_repaired [OF demo_run_def _ disjI1 [OF refl] refl, of attached_run ?t demo_outside ?later] by blast+
  moreover have "computeStreamState ?t = Unavailable" "last (rt_told ?t) = AttachSent 6 0 True" by code_simp+
  ultimately show ?thesis by (simp add: Let_def)
qed

section \<open>Acknowledgements\<close>

text \<open>
  Between the inputs that change the proof, the cursor stays as it is but for the acknowledged position,
  or the binding is dropped; and what is acknowledged is the position it stood at.
\<close>

definition same_proof :: "applied_cursor \<Rightarrow> applied_cursor \<Rightarrow> bool" where
  "same_proof c d \<longleftrightarrow> d\<lparr>ac_ackSent := ac_ackSent c\<rparr> = c"

definition proves :: "runtime \<Rightarrow> runtime_call \<Rightarrow> bool" where
  "proves r call \<longleftrightarrow> (case call of
       OutputApplied m sub epoch gen through \<Rightarrow>
         (case terminalAppliedSnapshot r of None \<Rightarrow> False
          | Some snap \<Rightarrow> cs_streamEpoch snap = epoch \<and> cs_generation snap = gen \<and> cs_appliedSeq snap = through)
     | _ \<Rightarrow> True)"

definition ack_honest :: "runtime \<Rightarrow> runtime \<Rightarrow> bool" where
  "ack_honest r s \<longleftrightarrow> (rt_binding s = None \<or> rt_binding s = rt_binding r \<and> same_proof (rt_cursor r) (rt_cursor s))
     \<and> (rt_disposed s \<longrightarrow> rt_disposed r \<or> rt_binding s = None) \<and> adds (list_all (proves r)) r s"

lemma same_proof_refl [simp]: "same_proof c c"
  by (simp add: same_proof_def)

lemma same_proof_iff:
  "same_proof c d \<longleftrightarrow> ac_generation d = ac_generation c \<and> ac_epoch d = ac_epoch c \<and> ac_applied d = ac_applied c
     \<and> ac_invalid d = ac_invalid c \<and> ac_pending d = ac_pending c \<and> ac_maxPending d = ac_maxPending c"
  by (cases c; cases d) (auto simp: same_proof_def)

lemma same_proof_active: "same_proof c d \<Longrightarrow> active_binding b d = active_binding b c"
  by (simp add: same_proof_iff active_binding_def)

lemma same_proof_trans: "same_proof c d \<Longrightarrow> same_proof d e \<Longrightarrow> same_proof c e"
  by (simp add: same_proof_iff)

lemma proves_kept:
  assumes "rt_binding s = None \<or> rt_binding s = rt_binding r \<and> same_proof (rt_cursor r) (rt_cursor s)" and "proves s call"
  shows "proves r call"
proof (cases "rt_binding s")
  case None
  then show ?thesis using assms(2) by (auto simp: proves_def terminalAppliedSnapshot_def split: runtime_call.splits)
next
  case (Some b)
  then have r: "rt_binding r = Some b" and c: "same_proof (rt_cursor r) (rt_cursor s)" using assms(1) by auto
  have "active_binding b (rt_cursor s) = active_binding b (rt_cursor r)" by (rule same_proof_active [OF c])
  then show ?thesis using assms(2) Some r c
    by (auto simp: proves_def terminalAppliedSnapshot_def snapshot_def same_proof_iff split: runtime_call.splits if_splits)
qed

lemma ack_honest_trans: "ack_honest r s \<Longrightarrow> ack_honest s t \<Longrightarrow> ack_honest r t"
  using proves_kept [of s r] same_proof_trans [of "rt_cursor r" "rt_cursor s" "rt_cursor t"]
  by (auto simp: ack_honest_def adds_def list_all_iff)

lemma proves_other: "asks_history call \<noteq> None \<or> plain_call call \<or> (\<exists>n g api. call = TransportBuilt n g api) \<Longrightarrow> proves r call"
  by (cases call) (simp_all add: proves_def asks_history_def)

lemma ack_honest_quiet:
  "rt_binding s = None \<or> rt_binding s = rt_binding r \<and> rt_cursor s = rt_cursor r \<Longrightarrow>
   rt_disposed s = rt_disposed r \<or> rt_binding s = None \<Longrightarrow> adds (list_all (proves r)) r s \<Longrightarrow> ack_honest r s"
  by (auto simp: ack_honest_def)

lemma ack_honest_socket: "proof_state s = proof_state r \<Longrightarrow> adds told_unless_probe r s \<Longrightarrow> ack_honest r s"
  using proves_other by (intro ack_honest_quiet)
    (fastforce simp: proof_state_def adds_def told_unless_probe_def list_all_iff proves_def)+

lemma ack_honest_submit: "ack_honest r (submitPendingAppliedAck out r)"
proof (cases "\<exists>b snap. rt_binding r = Some b \<and> snapshot b (rt_cursor r) = Some snap")
  case True
  then obtain b snap where b: "rt_binding r = Some b" "snapshot b (rt_cursor r) = Some snap" by auto
  have "proves r (ack_call m sub snap)" for m sub using b by (simp add: proves_def ack_call_def terminalAppliedSnapshot_def)
  moreover have "same_proof c (snd (recordAckSubmitted b q c))" for q c
    by (simp add: same_proof_def recordAckSubmitted_def)
  ultimately show ?thesis using submit_acked [OF b, of out]
    by (auto simp: acked_def ack_honest_def adds_def tell_rt_def record_ack_def)
next
  case False
  with submit_without [OF this, of out] show ?thesis by (auto simp: ack_honest_def adds_def)
qed

interpretation ack: closing_relation ack_honest
proof
  fix r s :: runtime
  assume "core s = core r"
  then show "ack_honest r s" using coreD [of s r] by (intro ack_honest_quiet) (simp_all add: adds_def)
next
  fix call :: runtime_call and r :: runtime assume "plain_call call"
  then show "ack_honest r (tell_rt call r)" by (intro ack_honest_quiet) (simp_all add: tell_rt_def adds_def proves_other)
next
  fix call :: runtime_call and needs and r :: runtime assume "asks_history call = Some needs"
  then show "ack_honest r (tell_rt call r)" by (intro ack_honest_quiet) (simp_all add: tell_rt_def adds_def proves_other)
next
  fix r s t :: runtime assume "ack_honest r s" "ack_honest s t"
  then show "ack_honest r t" by (rule ack_honest_trans)
next
  fix n g api and r :: runtime
  show "ack_honest r (tell_rt (TransportBuilt n g api) r)" "ack_honest r (resetTerminalAppliedCursor r)"
    "ack_honest r (resetTerminalAppliedCursor (r\<lparr>rt_disposed := True\<rparr>))"
    by (intro ack_honest_quiet; simp add: adds_def tell_rt_def proves_other resetTerminalAppliedCursor_def)+
next
  fix r :: runtime
  show "ack_honest r (r\<lparr>rt_historyMayHaveGap := True\<rparr>)" "ack_honest r (r\<lparr>rt_gapDetected := True\<rparr>)"
    by (intro ack_honest_quiet; simp add: adds_def)+
qed (rule ack_honest_submit ack_honest_socket [OF socket_frame(1) socket_told(1)] ack_honest_socket [OF socket_frame(2) socket_told(2)]
      ack_honest_socket [OF socket_frame(3) socket_told(3)] ack_honest_socket [OF socket_frame(4) socket_told(4)]
      ack_honest_socket [OF socket_frame(5) socket_told(5)] ack_honest_socket [OF socket_frame(6) socket_told(6)]
      ack_honest_socket [OF socket_frame(7) socket_told(7)])+

section \<open>Only its disposal ends it\<close>

interpretation alive: runtime_relation "\<lambda>r s. rt_disposed s = rt_disposed r"
proof
  fix r s :: runtime assume "core s = core r"
  then show "rt_disposed s = rt_disposed r" by (rule coreD)
qed (use socket_frame in \<open>simp_all add: proof_state_def tell_rt_def resetTerminalAppliedCursor_def submit_core\<close>)

lemma undisposed_step: "e \<noteq> RuntimeDisposed \<Longrightarrow> rt_disposed (runtime_step r (out, e)) = rt_disposed r"
proof (cases "proof_input e")
  case True
  have "rt_disposed (emitSnapshot x) = rt_disposed x" for x by (rule alive.emitSnapshot)
  then show ?thesis using True
    by (cases e) (simp_all add: setVerifiedTerminalBaseline_def noteStreamEventParsed_def noteBootstrapApplied_def Let_def
        resetTerminalAppliedCursor_def submit_core split: prod.split option.split)
qed (rule alive.open_step)

lemma disposed_new: "\<not> rt_disposed (new_runtime out c)"
  using alive.created [of out c] by (simp add: blank_runtime_def)

lemma disposed_gone: "rt_disposed (dispose_runtime out r)"
  by (simp add: dispose_runtime_def Let_def dispose_socket_def cancel_attach_def teardownConnectionHandler_def stopLivenessProbe_def
      tell_rt_def resetTerminalAppliedCursor_def revokeRelayProof_def invalidateP2PCredential_def split: option.split)

end
