(* ===== verification/Session_Acks.thy ===== *)
theory Session_Acks
  imports Session_Laws
begin

text \<open>
  What the session runtime tells the agent and the server it has parsed, which socket a failed probe
  blames, and that the published snapshot is the current one, with one exception.
\<close>

section \<open>Acknowledgements are covered by parsed events\<close>

text \<open>
  The history an acknowledgement is judged by, read off the inputs alone: the epoch and position of the
  last baseline and the positions of that epoch parsed since.
\<close>

type_synonym parsed_history = "(int \<times> int \<times> int set) option"

fun note_input :: "parsed_history \<Rightarrow> outside \<times> runtime_input \<Rightarrow> parsed_history" where
  "note_input h (out, BaselineProved b) = Some (vb_streamEpoch b, vb_appliedThrough b, {})"
| "note_input (Some (epoch, n, S)) (out, EventParsed p) =
     Some (epoch, n, if pos_epoch p = epoch then insert (pos_seq p) S else S)"
| "note_input h x = h"

definition covered :: "parsed_history \<Rightarrow> runtime_call \<Rightarrow> bool" where
  "covered h call \<longleftrightarrow> (case call of
       OutputApplied m sub epoch gen through \<Rightarrow>
         (\<exists>n S. h = Some (epoch, n, S) \<and> n \<le> through \<and> {n + 1..through} \<subseteq> S \<and> through + 1 \<notin> S)
     | _ \<Rightarrow> True)"

definition history_inv :: "parsed_history \<Rightarrow> runtime \<Rightarrow> bool" where
  "history_inv h r \<longleftrightarrow> (\<forall>b. rt_binding r = Some b \<longrightarrow> active_binding b (rt_cursor r) \<longrightarrow>
     (\<exists>n S. h = Some (cb_streamEpoch b, n, S) \<and> stands_for n S (rt_cursor r)))
     \<and> (rt_disposed r \<longrightarrow> rt_binding r = None)"

lemma stands_for_same: "same_proof c d \<Longrightarrow> stands_for n S d \<longleftrightarrow> stands_for n S c"
  by (simp add: same_proof_iff stands_for_def)

lemma covered_proved:
  assumes "history_inv h r" and "proves r call"
  shows "covered h call"
proof (cases call)
  case (OutputApplied m sub epoch gen through)
  then obtain b where b: "rt_binding r = Some b" "active_binding b (rt_cursor r)"
    and at: "ac_applied (rt_cursor r) = Some through" "cb_streamEpoch b = epoch"
    using assms(2) by (auto simp: proves_def terminalAppliedSnapshot_def snapshot_def active_binding_def split: option.splits if_splits)
  then obtain n S where "h = Some (epoch, n, S)" "stands_for n S (rt_cursor r)"
    using assms(1) by (auto simp: history_inv_def)
  then show ?thesis using OutputApplied at by (auto simp: covered_def stands_for_def)
qed (simp_all add: covered_def)

lemma honest_covered:
  assumes "history_inv h r" and "ack_honest r s"
  shows "history_inv h s \<and> adds (list_all (covered h)) r s"
proof
  have "adds (list_all (proves r)) r s" using assms(2) by (simp add: ack_honest_def)
  then show "adds (list_all (covered h)) r s"
    using covered_proved [OF assms(1)] by (auto simp: adds_def list_all_iff)
  show "history_inv h s"
    using assms same_proof_active stands_for_same unfolding ack_honest_def history_inv_def by fastforce
qed

lemma adds_from: "rt_told q = rt_told r \<Longrightarrow> adds P q s \<Longrightarrow> adds P r s"
  by (simp add: adds_def)

lemma baseline_covered:
  "history_inv (note_input h (out, BaselineProved baseline)) (setVerifiedTerminalBaseline out baseline r)
   \<and> adds (list_all (covered (note_input h (out, BaselineProved baseline)))) r (setVerifiedTerminalBaseline out baseline r)"
proof -
  let ?h = "note_input h (out, BaselineProved baseline)" and ?r1 = "resetTerminalAppliedCursor r"
  have told: "rt_told ?r1 = rt_told r" "rt_binding ?r1 = None" by (simp_all add: resetTerminalAppliedCursor_def)
  have none: "history_inv ?h x \<and> adds (list_all (covered ?h)) r x" if "rt_binding x = None" "rt_told x = rt_told r" for x
    using that by (simp add: history_inv_def adds_def)
  show ?thesis
  proof (cases "rt_disposed ?r1 \<or> fst (beginFromVerifiedBaseline baseline (rt_cursor ?r1)) = None")
    case True
    then show ?thesis using none told by (auto simp: setVerifiedTerminalBaseline_def Let_def split: prod.split)
  next
    case False
    then obtain b c where b: "beginFromVerifiedBaseline baseline (rt_cursor ?r1) = (Some b, c)"
      by (cases "beginFromVerifiedBaseline baseline (rt_cursor ?r1)") auto
    let ?r2 = "?r1\<lparr>rt_cursor := c, rt_binding := Some b, rt_lastObservedStreamEpoch := Some (vb_streamEpoch baseline)\<rparr>"
    have "history_inv ?h ?r2"
      using b False by (auto simp: history_inv_def beginFromVerifiedBaseline_def Let_def stands_for_def reset_cursor_def split: if_splits)
    moreover have "ack_honest ?r2 (emitSnapshot (submitPendingAppliedAck out ?r2))"
      by (rule ack.trans [OF ack.acknowledged ack.emitSnapshot])
    ultimately show ?thesis using honest_covered [of ?h ?r2] False b told adds_from [of ?r2 r]
      by (simp add: setVerifiedTerminalBaseline_def Let_def)
  qed
qed

lemma inactive_parsed: "\<not> active_binding b s \<Longrightarrow> \<not> active_binding b (snd (recordParsed b p s))"
  by (simp add: recordParsed_def)

lemma parsed_epoch:
  "active_binding b (snd (recordParsed b p s)) \<Longrightarrow> pos_epoch p = cb_streamEpoch b"
  by (auto simp: recordParsed_def active_binding_def invalidate_cursor_def Let_def split_def split: if_splits)

lemma event_covered:
  assumes "history_inv h r"
  shows "history_inv (note_input h (out, EventParsed p)) (noteStreamEventParsed out p r)
   \<and> adds (list_all (covered (note_input h (out, EventParsed p)))) r (noteStreamEventParsed out p r)"
proof (cases "rt_binding r")
  case None
  then show ?thesis by (simp add: noteStreamEventParsed_def history_inv_def adds_def)
next
  case b: (Some b)
  let ?h = "note_input h (out, EventParsed p)"
  let ?r1 = "r\<lparr>rt_cursor := snd (recordParsed b p (rt_cursor r))\<rparr>"
  show ?thesis
  proof (cases "rt_disposed r")
    case True
    then show ?thesis using assms b by (simp add: history_inv_def)
  next
    case False
    have "history_inv ?h ?r1"
    proof -
      have "\<exists>n S. ?h = Some (cb_streamEpoch b, n, S) \<and> stands_for n S (snd (recordParsed b p (rt_cursor r)))"
        if "active_binding b (snd (recordParsed b p (rt_cursor r)))"
      proof -
        have act: "active_binding b (rt_cursor r)" using that inactive_parsed by blast
        then obtain n S where "h = Some (cb_streamEpoch b, n, S)" "stands_for n S (rt_cursor r)"
          using assms b by (auto simp: history_inv_def)
        then show ?thesis using stands_for_parsed [OF _ act that] parsed_epoch [OF that] by auto
      qed
      then show ?thesis using b False by (simp add: history_inv_def)
    qed
    moreover have "ack_honest ?r1 ?r1" "ack_honest ?r1 (submitPendingAppliedAck out ?r1)" by (rule ack.refl ack.acknowledged)+
    ultimately show ?thesis using honest_covered [of ?h ?r1] b False adds_from [of ?r1 r]
      by (auto simp: noteStreamEventParsed_def Let_def split_def)
  qed
qed

lemma bootstrap_honest: "ack_honest r (noteBootstrapApplied r)"
proof -
  have "ack_honest r (r\<lparr>rt_bootstrapRepairPending := False, rt_historyMayHaveGap := False, rt_gapDetected := False\<rparr>)"
    by (rule ack_honest_quiet) (simp_all add: adds_def)
  then show ?thesis using ack.trans [OF _ ack.emitSnapshot] by (simp add: noteBootstrapApplied_def ack.refl)
qed

lemma note_input_quiet: "\<not> proof_input e \<or> e = BootstrapParsed \<Longrightarrow> note_input h (out, e) = h"
  by (cases h; cases e) auto

lemma covered_step:
  assumes "history_inv h r"
  shows "history_inv (note_input h (out, e)) (runtime_step r (out, e))
    \<and> adds (list_all (covered (note_input h (out, e)))) r (runtime_step r (out, e))"
proof (cases "\<not> proof_input e \<or> e = BootstrapParsed")
  case True
  then have "ack_honest r (runtime_step r (out, e))" using ack.step [of e r out] bootstrap_honest by auto
  then show ?thesis using honest_covered [OF assms] note_input_quiet [OF True] by simp
next
  case False
  then consider b where "e = BaselineProved b" | p where "e = EventParsed p" by (cases e) simp_all
  then show ?thesis using baseline_covered event_covered [OF assms] by cases (simp_all del: note_input.simps)
qed

lemma history_new: "history_inv None (new_runtime out c)"
  using ack.created [of c out] by (auto simp: ack_honest_def history_inv_def blank_runtime_def)

lemma history_run: "history_inv h r \<Longrightarrow> history_inv (foldl note_input h es) (foldl runtime_step r es)"
proof (induction es arbitrary: h r)
  case (Cons x es)
  then show ?case using covered_step [of h r "fst x" "snd x"] by simp
qed simp

text \<open>
  C26. An acknowledgement speaks of parsed output only: whatever the runtime tells the agent or the server to
  have applied while it handles an input, the epoch is that of the last baseline proved to it, the position
  lies at or above the baseline, every position between the two was reported parsed since, and the next one
  was not.
\<close>
theorem acknowledged_output_was_parsed:
  assumes "r = foldl runtime_step (new_runtime out0 c) before" and "rt_told (runtime_step r x) = rt_told r @ new"
    and "OutputApplied m sub epoch gen through \<in> set new"
  shows "\<exists>n S. foldl note_input None (before @ [x]) = Some (epoch, n, S)
    \<and> n \<le> through \<and> {n + 1..through} \<subseteq> S \<and> through + 1 \<notin> S"
proof -
  have "history_inv (foldl note_input None before) r" unfolding assms(1) by (rule history_run [OF history_new])
  from covered_step [OF this, of "fst x" "snd x"]
  have "adds (list_all (covered (foldl note_input None (before @ [x])))) r (runtime_step r x)" by simp
  then have "covered (foldl note_input None (before @ [x])) (OutputApplied m sub epoch gen through)"
    using assms(2,3) by (auto simp: adds_def list_all_iff)
  then show ?thesis by (simp add: covered_def)
qed

definition proved_run :: "runtime_input list" where
  "proved_run = attached_run @ [BaselineProved \<lparr>vb_streamEpoch = 1, vb_appliedThrough = 5\<rparr>,
     EventParsed \<lparr>pos_epoch = 1, pos_seq = 7\<rparr>]"

lemma proved_run_tells:
  "rt_told (runtime_step (demo_run proved_run) (demo_outside, EventParsed \<lparr>pos_epoch = 1, pos_seq = 6\<rparr>))
     = rt_told (demo_run proved_run) @ [OutputApplied P2P 1 1 3 7]"
  by code_simp

theorem acknowledged_output_was_parsed_witness:
  "\<exists>n S. foldl note_input None (map (Pair demo_outside) proved_run @ [(demo_outside, EventParsed \<lparr>pos_epoch = 1, pos_seq = 6\<rparr>)])
     = Some (1, n, S) \<and> n \<le> 7 \<and> {n + 1..7} \<subseteq> S \<and> 7 + 1 \<notin> S"
  by (rule acknowledged_output_was_parsed [OF demo_run_def proved_run_tells]) simp

section \<open>A failed probe blames the socket it went to\<close>

text \<open>
  Open pings of the current token went to the current socket: every change of the socket or of its state
  retires the token.
\<close>

definition probe_state :: "runtime \<Rightarrow> _" where
  "probe_state r = (map_option ws_id (rt_agentWs r), rt_pings r, rt_livenessToken r, rt_livenessTimer r)"

definition probe_inv :: "runtime \<Rightarrow> bool" where
  "probe_inv r \<longleftrightarrow> list_all (\<lambda>ping. fst ping \<le> rt_livenessToken r
       \<and> (fst ping = rt_livenessToken r \<longrightarrow> map_option ws_id (rt_agentWs r) = Some (snd (snd ping)))) (rt_pings r)
     \<and> (rt_livenessTimer r = None \<or> rt_livenessTimer r = Some (rt_livenessToken r))"

lemma probe_inv_quiet: "probe_state s = probe_state r \<Longrightarrow> probe_inv s \<longleftrightarrow> probe_inv r"
  by (simp add: probe_inv_def probe_state_def)

lemma probe_inv_retired:
  assumes "rt_pings s = rt_pings r" and "rt_livenessToken r < rt_livenessToken s"
    and "rt_livenessTimer s = None \<or> rt_livenessTimer s = Some (rt_livenessToken s)"
  shows "probe_inv r \<longrightarrow> probe_inv s"
  using assms by (force simp: probe_inv_def list_all_iff)

lemmas socket_defs = retire_socket_def open_socket_def dispose_socket_def cancel_attach_def teardownConnectionHandler_def
  stopLivenessProbe_def startLivenessProbe_def build_socket_def wireConnectionHandler_def tell_rt_def Let_def

lemma probe_inv_ping: "probe_inv r \<Longrightarrow> token = rt_livenessToken r \<Longrightarrow> probe_inv (probe_ping token fromInput r)"
  by (cases "rt_agentWs r") (auto simp: probe_inv_def probe_ping_def tell_rt_def)

lemma probe_inv_now: "probe_inv r \<Longrightarrow> probe_inv (probeLivenessNow r)"
  using probe_inv_ping [of "r\<lparr>rt_livenessInFlight := True\<rparr>"] probe_inv_quiet [of "r\<lparr>rt_livenessInFlight := True\<rparr>" r]
  by (simp add: probeLivenessNow_def probe_state_def)

lemma probe_inv_tick: "probe_inv r \<Longrightarrow> probe_inv (probeTick r)"
proof (cases "rt_livenessTimer r")
  case (Some token)
  assume inv: "probe_inv r"
  then have "token = rt_livenessToken r" using Some by (simp add: probe_inv_def)
  then show ?thesis using probe_inv_ping [OF inv] Some by (simp add: probeTick_def)
qed (simp add: probeTick_def)

lemma probe_inv_settled: "probe_inv r \<Longrightarrow> probe_inv (pingSettled i answered r)"
proof (cases "length (rt_pings r) \<le> i")
  case False
  assume inv: "probe_inv r"
  let ?r1 = "r\<lparr>rt_pings := take i (rt_pings r) @ drop (Suc i) (rt_pings r)\<rparr>"
  have "probe_state (pingSettled i answered r) = probe_state ?r1"
    using False by (simp add: pingSettled_def Let_def split_def tell_rt_def probe_state_def split: option.split)
  moreover have "probe_inv ?r1" using inv by (auto simp: probe_inv_def list_all_iff dest: in_set_takeD in_set_dropD)
  ultimately show ?thesis using probe_inv_quiet by blast
qed (simp add: pingSettled_def)

interpretation probe: closing_relation "\<lambda>r s. probe_inv r \<longrightarrow> probe_inv s"
proof
  fix r s :: runtime
  assume "core s = core r"
  then show "probe_inv r \<longrightarrow> probe_inv s" using coreD [of s r] probe_inv_quiet [of s r] by (simp add: probe_state_def)
next
  fix out url i answered and r :: runtime
  show "probe_inv r \<longrightarrow> probe_inv (submitPendingAppliedAck out r)"
    using probe_inv_quiet [of "submitPendingAppliedAck out r" r] by (simp add: probe_state_def submit_core)
  show "probe_inv r \<longrightarrow> probe_inv (stopLivenessProbe r)"
    by (rule probe_inv_retired) (simp_all add: socket_defs)
  show "probe_inv r \<longrightarrow> probe_inv (startLivenessProbe r)"
    by (rule probe_inv_retired) (simp_all add: socket_defs)
  show "probe_inv r \<longrightarrow> probe_inv (retire_socket r)"
    by (rule probe_inv_retired) (simp_all add: socket_defs split: option.split)
  show "probe_inv r \<longrightarrow> probe_inv (open_socket out url r)"
    by (rule probe_inv_retired) (simp_all add: socket_defs)
  show "probe_inv r \<longrightarrow> probe_inv (probeLivenessNow r)" "probe_inv r \<longrightarrow> probe_inv (probeTick r)"
    "probe_inv r \<longrightarrow> probe_inv (pingSettled i answered r)"
    using probe_inv_now probe_inv_tick probe_inv_settled by blast+
qed (simp_all add: probe_inv_def tell_rt_def resetTerminalAppliedCursor_def)

lemma probe_inv_step: "probe_inv r \<Longrightarrow> probe_inv (runtime_step r (out, e))"
proof (cases "proof_input e")
  case True
  assume inv: "probe_inv r"
  have kept: "probe_inv (submitPendingAppliedAck out x)" "probe_inv (emitSnapshot x)"
    "probe_inv (emitSnapshot (submitPendingAppliedAck out x))" if "probe_state x = probe_state r" for x
    using inv that probe_inv_quiet probe.acknowledged probe.emitSnapshot by blast+
  have frames: "probe_inv (r\<lparr>rt_cursor := c\<rparr>)" "probe_inv (r\<lparr>rt_binding := b, rt_cursor := c\<rparr>)" for b c
    by (rule probe_inv_quiet [THEN iffD2, OF _ inv], simp add: probe_state_def)+
  have "probe_inv (setVerifiedTerminalBaseline out b r)" for b
    unfolding setVerifiedTerminalBaseline_def Let_def
    by (auto intro!: kept frames split: prod.split option.split simp: probe_state_def resetTerminalAppliedCursor_def)
  moreover have "probe_inv (noteStreamEventParsed out p r)" for p
    unfolding noteStreamEventParsed_def Let_def
    using inv by (auto intro!: kept frames split: prod.split option.split simp: probe_state_def)
  moreover have "probe_inv (noteBootstrapApplied r)"
    unfolding noteBootstrapApplied_def using inv by (auto intro!: kept simp: probe_state_def)
  ultimately show ?thesis using True by (cases e) simp_all
qed (use probe.step in blast)

interpretation probing: event_machine runtime_step probe_inv
  using probe_inv_step by unfold_locales (metis surj_pair)

text \<open>
  C27. A failed liveness probe never hits a healthy socket: when a ping of any earlier time is settled, at any
  point of any run, a socket is declared unresponsive only if that ping failed and had been sent to this very
  socket, which is still the current one; a probe that outlived its socket changes nothing outside.
\<close>
theorem failed_probe_blames_its_socket:
  assumes "r = foldl runtime_step (new_runtime out0 c) before" and "i < length (rt_pings r)"
    and "rt_told (runtime_step r (out, PingSettled i answered)) = rt_told r @ new" and "SocketUnresponsive n \<in> set new"
  shows "\<not> answered \<and> snd (snd (rt_pings r ! i)) = n \<and> map_option ws_id (rt_agentWs r) = Some n"
proof -
  have "probe_inv (new_runtime out0 c)"
    using probe.created [of c out0] by (simp add: probe_inv_def blank_runtime_def)
  then have inv: "probe_inv r" unfolding assms(1) by (rule probing.run_inv)
  obtain token fromInput asked where ping: "rt_pings r ! i = (token, fromInput, asked)" by (cases "rt_pings r ! i")
  then have "token = rt_livenessToken r \<longrightarrow> map_option ws_id (rt_agentWs r) = Some asked"
    using inv nth_mem [OF assms(2)] by (auto simp: probe_inv_def list_all_iff)
  then show ?thesis using assms(2-4) ping
    by (auto simp: pingSettled_def Let_def tell_rt_def split: if_splits option.splits)
qed

definition probed_run :: "runtime_input list" where
  "probed_run = attached_run @ [ProbeTimer, InputSent]"

theorem failed_probe_blames_its_socket_witness:
  "\<not> False \<and> snd (snd (rt_pings (demo_run probed_run) ! 0)) = 0 \<and> map_option ws_id (rt_agentWs (demo_run probed_run)) = Some 0"
proof (rule failed_probe_blames_its_socket [OF demo_run_def])
  show "0 < length (rt_pings (demo_run probed_run))" by code_simp
  show "rt_told (runtime_step (demo_run probed_run) (demo_outside, PingSettled 0 False))
      = rt_told (demo_run probed_run) @ [SocketUnresponsive 0]" by code_simp
qed simp

end
