(* ===== verification/Session_View.thy ===== *)
theory Session_View
  imports Session_Laws
begin

text \<open>
  The published snapshot of the session runtime, and runs of it that show where the code leaves the
  history or the relay unattended.
\<close>

section \<open>The published snapshot is the current one\<close>

definition view :: "runtime \<Rightarrow> _" where
  "view r = (buildSnapshot r, rt_snapshot r, rt_disposed r)"

definition stale_stream :: "runtime \<Rightarrow> bool" where
  "stale_stream r \<longleftrightarrow> computeStreamState r = DegradedLive \<and> rt_snapshot r = (buildSnapshot r)\<lparr>sn_streamState := Synchronized\<rparr>"

definition current :: "runtime \<Rightarrow> bool" where
  "current r \<longleftrightarrow> rt_disposed r \<or> rt_snapshot r = buildSnapshot r \<or> stale_stream r"

lemma stale_view: "stale_stream r \<longleftrightarrow> sn_streamState (buildSnapshot r) = DegradedLive
    \<and> rt_snapshot r = (buildSnapshot r)\<lparr>sn_streamState := Synchronized\<rparr>"
  by (simp add: stale_stream_def buildSnapshot_def)

lemma current_same: "view s = view r \<Longrightarrow> current r \<Longrightarrow> current s"
  by (simp add: current_def stale_view view_def)

lemmas snapshot_parts = buildSnapshot_def computeStreamState_def terminalAppliedSnapshot_def effectiveForcedRelay_def
  connectionState_def activeUrl_def

definition shown :: "runtime \<Rightarrow> _" where
  "shown r = ((sc_machine (rt_attach r), rt_transportGeneration r, map_option ws_id (rt_agentWs r), connectionState r),
     (rt_config r, rt_policy r), (rt_forcedRelayFallback r, rt_transportReady r, rt_lastResize r, rt_gapDetected r), (rt_binding r, rt_cursor r))"

lemma build_shown: "shown s = shown r \<Longrightarrow> buildSnapshot s = buildSnapshot r"
  by (simp add: shown_def buildSnapshot_def computeStreamState_def terminalAppliedSnapshot_def effectiveForcedRelay_def
      activeUrl_def cong: option.case_cong)

lemma view_shown: "(shown s, rt_snapshot s, rt_disposed s) = (shown r, rt_snapshot r, rt_disposed r) \<Longrightarrow> view s = view r"
  using build_shown [of s r] by (simp add: view_def)

lemma view_kept [simp]:
  "view (tell_rt call r) = view r" "view (enqueue_task t r) = view r" "view (cancel_attach r) = view r"
  "view (emitRuntimeEvent e r) = view r" "view (stopLivenessProbe r) = view r" "view (startLivenessProbe r) = view r"
  "view (requestRelayAttach r) = view r" "view (revokeRelayProof r) = view r" "view (wireRelayServerHandler r) = view r"
  "view (r\<lparr>rt_seed := seed\<rparr>) = view r" "view (r\<lparr>rt_attachedSize := sz\<rparr>) = view r" "view (r\<lparr>rt_tasks := ts\<rparr>) = view r"
  "view (r\<lparr>rt_swapListening := v\<rparr>) = view r" "view (r\<lparr>rt_attachedGeneration := g\<rparr>) = view r"
  "view (r\<lparr>rt_relayProof := proof\<rparr>) = view r" "view (r\<lparr>rt_lastObservedStreamEpoch := e'\<rparr>) = view r"
  by (rule view_shown, simp add: shown_def connectionState_def tell_rt_def enqueue_task_def cancel_attach_def emitRuntimeEvent_def
      cancelActiveAttach_def stopLivenessProbe_def startLivenessProbe_def requestRelayAttach_def revokeRelayProof_def
      wireRelayServerHandler_def Let_def)+

lemma current_emit: "current (emitSnapshot r)"
proof -
  have "buildSnapshot (tell_rt call (r\<lparr>rt_snapshot := v\<rparr>)) = buildSnapshot r" for call v
    by (rule build_shown) (simp add: shown_def connectionState_def tell_rt_def)
  then show ?thesis by (simp add: current_def emitSnapshot_def Let_def) (simp add: tell_rt_def)
qed

lemma current_told: "current (tell_rt call r) \<longleftrightarrow> current r"
  using current_same [of "tell_rt call r" r] current_same [of r "tell_rt call r"] by auto

lemma current_outcome: "current (outcome_told result r)"
  by (simp add: outcome_told_def current_emit)

lemma current_dispatch: "current (snd (dispatch_plain out e r))"
  by (simp add: dispatch_plain_def on_plain_outcome_def Let_def current_outcome)

lemma current_route: "current (route_dispatch out e r)"
  unfolding route_dispatch_def split_def Let_def by (rule current_same [OF view_kept(4) current_dispatch])

lemma current_full: "current (dispatch_outcome out e r)"
  by (simp add: dispatch_outcome_def on_outcome_def Let_def current_outcome)

lemma view_submit: "view (submitPendingAppliedAck out r) = view r"
proof (cases "\<exists>b snap. rt_binding r = Some b \<and> snapshot b (rt_cursor r) = Some snap")
  case True
  then obtain b snap where b: "rt_binding r = Some b" "snapshot b (rt_cursor r) = Some snap" by auto
  have "terminalAppliedSnapshot (record_ack b snap x) = None \<longleftrightarrow> terminalAppliedSnapshot x = None" for x
    by (auto simp: record_ack_def terminalAppliedSnapshot_def snapshot_def recordAckSubmitted_def active_binding_def split: option.split)
  then have "view (record_ack b snap x) = view x" for x
    by (simp add: view_def buildSnapshot_def computeStreamState_def record_ack_def effectiveForcedRelay_def
      connectionState_def activeUrl_def)
  then show ?thesis using submit_acked [OF b, of out] by (auto simp: acked_def)
next
  case False
  then have "terminalAppliedSnapshot r = None" by (auto simp: terminalAppliedSnapshot_def split: option.split)
  then have "view (r\<lparr>rt_binding := None\<rparr>) = view r"
    by (auto simp: view_def snapshot_parts split: option.splits)
  with submit_without [OF False, of out] show ?thesis by auto
qed

lemma current_bootstrap: "current r \<Longrightarrow> current (snd (requestBootstrapForAttach out r))"
proof -
  have "view (r\<lparr>rt_historyMayHaveGap := a, rt_bootstrapRepairPending := b\<rparr>) = view r" for a b
    by (rule view_shown) (simp add: shown_def connectionState_def)
  then show "current r \<Longrightarrow> current (snd (requestBootstrapForAttach out r))"
    using current_same by (auto simp: requestBootstrapForAttach_def Let_def current_emit)
qed

lemma current_start: "current r \<Longrightarrow> current (maybeStartP2PAttach out r)"
proof (cases "maybeStartP2PAttach out r = r")
  case False
  assume cur: "current r"
  obtain needs r1 where q: "requestBootstrapForAttach out r = (needs, r1)" by fastforce
  have r1: "current r1" using current_bootstrap [OF cur, of out] q by simp
  define params where "params = \<lparr>ap_sessionName = cf_sessionName (rt_config r1),
              ap_manualRoute = (cf_manualOverride (rt_config r1) \<noteq> None), ap_lastResize = rt_lastResize r,
              ap_needsBootstrap = needs, ap_transportGeneration = rt_transportGeneration r1, ap_onAttachOk = True\<rparr>"
  obtain gen a where g: "startP2PAttach params (rt_attach r1) = (gen, a)" by fastforce
  have "sc_machine a = sc_machine (rt_attach r1)" using g by (auto simp: startP2PAttach_def cancelActiveAttach_def Let_def split: if_splits)
  then have "current (r1\<lparr>rt_attach := a, rt_preserves := ps\<rparr>)" "current (r1\<lparr>rt_attach := a\<rparr>)" for ps
    by (auto intro!: current_same [OF view_shown r1] simp: shown_def connectionState_def)
  moreover have "\<exists>ps. maybeStartP2PAttach out r = (case gen of None \<Rightarrow> r1\<lparr>rt_attach := a\<rparr>
      | Some g \<Rightarrow> tell_rt (AttachSent g (ws_id (the (rt_agentWs r1))) needs) (r1\<lparr>rt_attach := a, rt_preserves := ps\<rparr>))"
    using False q g by (auto simp: maybeStartP2PAttach_def params_def Let_def split_def split: if_splits option.split)
  ultimately show ?thesis by (cases gen) (auto simp: current_told)
qed simp

lemma current_drive: "current r \<Longrightarrow> current (driveRelayAttach out r)"
proof -
  have begun: "current (beginRelayOnce out x)" if "current x" for x
    using that current_route by (auto simp: beginRelayOnce_def Let_def split_def split: option.split)
  then show "current r \<Longrightarrow> current (driveRelayAttach out r)"
    using current_dispatch by (auto simp: driveRelayAttach_def Let_def)
qed

lemma current_ready: "current r \<Longrightarrow> current (setTransportReady out ready r)"
  by (simp add: setTransportReady_def Let_def current_emit)

lemma current_rebind: "current r \<Longrightarrow> current (rebind out r)"
proof -
  assume "current r"
  then have "current (setTransportReady out False r)" by (rule current_ready)
  then have "current (buildTransport (setTransportReady out False r))"
    by (rule current_same [OF view_shown, rotated]) (simp add: buildTransport_def Let_def tell_rt_def shown_def connectionState_def)
  then show ?thesis unfolding rebind_def by (rule current_ready)
qed

lemma current_notes:
  "current (noteStreamTruncated r)" "current (noteStreamEpochChanged r)" "current (emitConnectionState s r)"
  "current (forceBootstrapReattach out r)" "current (updateContext out u r)"
  by (simp_all add: noteStreamTruncated_def noteStreamEpochChanged_def emitConnectionState_def forceBootstrapReattach_def
      updateContext_def split_def Let_def current_emit)

lemma current_adopt: "current r \<Longrightarrow> current (adoptStreamEpoch epoch r)"
  by (auto simp: adoptStreamEpoch_def Let_def current_notes intro: current_same [OF view_kept(16)] split: option.split)

lemma current_force: "current r \<Longrightarrow> current (applyForceRelay out r)"
  by (simp add: applyForceRelay_def Let_def current_emit)

lemma current_candidate: "current r \<Longrightarrow> current (applyCandidateDisconnect out r)"
proof (cases "onCandidateDisconnected (rt_policy r)")
  case (Pair action policy)
  assume cur: "current r"
  have "r\<lparr>rt_policy := policy\<rparr> = r" if "action = NoAction"
    using Pair that by (auto simp: onCandidateDisconnected_def split: if_splits)
  moreover have "current (applyForceRelay out (r\<lparr>rt_policy := policy\<rparr>))" if "action = ForceRelayAction"
  proof -
    have "policy = rt_policy r" using Pair that by (auto simp: onCandidateDisconnected_def split: if_splits)
    then show ?thesis using current_force [OF cur] by simp
  qed
  ultimately show ?thesis using cur Pair
    by (cases action) (simp_all add: applyCandidateDisconnect_def Let_def current_emit)
qed

text \<open>Where the proof is lost without a new snapshot, the published one may still say synchronized.\<close>

lemma stream_cases: "known = (terminalAppliedSnapshot r \<noteq> None) \<Longrightarrow> computeStreamState r =
    (if phase r \<noteq> Attached then Unavailable else if rt_gapDetected r \<or> \<not> known then DegradedLive else Synchronized)"
  by (simp add: computeStreamState_def)

lemma proof_lost:
  assumes "s = r\<lparr>rt_cursor := c, rt_binding := b\<rparr>"
    and "terminalAppliedSnapshot s \<noteq> None \<longrightarrow> terminalAppliedSnapshot r \<noteq> None" and "current r"
  shows "current s"
proof -
  have build: "buildSnapshot s = (buildSnapshot r)\<lparr>sn_streamState := computeStreamState s\<rparr>"
    using assms(1) by (simp add: buildSnapshot_def effectiveForcedRelay_def connectionState_def activeUrl_def)
  have now: "(buildSnapshot r)\<lparr>sn_streamState := computeStreamState r\<rparr> = buildSnapshot r" by (simp add: buildSnapshot_def)
  have "phase s = phase r" "rt_gapDetected s = rt_gapDetected r" using assms(1) by simp_all
  then have "computeStreamState s = computeStreamState r \<or> computeStreamState r = Synchronized \<and> computeStreamState s = DegradedLive"
    using assms(2) stream_cases [OF refl, of r] stream_cases [OF refl, of s] by (auto split: if_splits)
  then show ?thesis
  proof
    assume "computeStreamState s = computeStreamState r"
    then have "buildSnapshot s = buildSnapshot r" using build now by simp
    then have "view s = view r" using assms(1) by (simp add: view_def)
    then show ?thesis using assms(3) by (rule current_same)
  next
    assume degraded: "computeStreamState r = Synchronized \<and> computeStreamState s = DegradedLive"
    then have "rt_disposed r \<or> rt_snapshot r = buildSnapshot r" using assms(3) by (auto simp: current_def stale_stream_def)
    moreover have "buildSnapshot r = (buildSnapshot s)\<lparr>sn_streamState := Synchronized\<rparr>" using build now degraded by simp
    ultimately show ?thesis using degraded assms(1) by (auto simp: current_def stale_stream_def)
  qed
qed

lemma current_revoked: "current r \<Longrightarrow> current (resetTerminalAppliedCursor r)"
  by (rule proof_lost [where r = r and c = "reset_cursor (rt_cursor r)" and b = None]) (simp_all add: resetTerminalAppliedCursor_def terminalAppliedSnapshot_def)

lemma current_event: "current r \<Longrightarrow> current (noteStreamEventParsed out p r)"
proof (cases "rt_binding r")
  case (Some b)
  assume cur: "current r"
  let ?r1 = "r\<lparr>rt_cursor := snd (recordParsed b p (rt_cursor r))\<rparr>"
  have "active_binding b (snd (recordParsed b p (rt_cursor r))) \<Longrightarrow> active_binding b (rt_cursor r)"
    by (simp add: recordParsed_def split: if_splits)
  then have "current ?r1"
    using Some by (intro proof_lost [OF _ _ cur, where c = "snd (recordParsed b p (rt_cursor r))" and b = "Some b"])
      (auto simp: terminalAppliedSnapshot_def snapshot_def)
  then show ?thesis using Some cur current_same [OF view_submit]
    by (auto simp: noteStreamEventParsed_def Let_def split_def)
qed (simp add: noteStreamEventParsed_def)

lemma current_baseline: "current r \<Longrightarrow> current (setVerifiedTerminalBaseline out b r)"
proof -
  assume cur: "current r"
  have "current ((resetTerminalAppliedCursor r)\<lparr>rt_cursor := c\<rparr>)" for c
    by (rule proof_lost [OF _ _ cur, where c = c and b = None]) (simp_all add: resetTerminalAppliedCursor_def terminalAppliedSnapshot_def)
  then show ?thesis using current_revoked [OF cur] current_emit
    by (simp add: setVerifiedTerminalBaseline_def Let_def split: prod.split option.split)
qed

lemma current_settled: "current r \<Longrightarrow> current (attachSettled out gen result r)"
proof -
  assume cur: "current r"
  have "shown (r\<lparr>rt_attach := settle_promise gen (rt_attach r)\<rparr>) = shown r"
    by (simp add: shown_def connectionState_def settle_promise_def)
  then have "current (r\<lparr>rt_attach := settle_promise gen (rt_attach r)\<rparr>)"
    by (intro current_same [OF view_shown cur]) simp
  then show ?thesis
    using cur current_full current_same [OF view_kept(3) current_full]
    by (auto simp: attachSettled_def settle_timeout_def Let_def split: option.split attach_settled.split)
qed

lemma current_socket: "current r \<Longrightarrow> current (socketState out next r)"
proof (cases "rt_agentWs r")
  case (Some ws)
  assume cur: "current r"
  let ?r1 = "emitConnectionState next (r\<lparr>rt_agentWs := Some (ws\<lparr>ws_state := next\<rparr>)\<rparr>)"
  have "current (startLivenessProbe ?r1)" "current (stopLivenessProbe ?r1)"
    using current_same [OF view_kept(6) current_notes(3)] current_same [OF view_kept(5) current_notes(3)] by blast+
  then show ?thesis using cur current_start current_candidate current_route Some
    by (cases "next = WsConnected") (auto simp: socketState_def Let_def)
qed (simp add: socketState_def)

lemma current_server: "current r \<Longrightarrow> current (serverState out state r)"
  using current_drive [of r out] current_route current_same [OF view_kept(8), of r] by (auto simp: serverState_def Let_def)

lemma current_relay: "current r \<Longrightarrow> current (relayReady out proof generation r)"
  using current_same [OF view_submit current_same [OF view_kept(15) current_adopt]]
  by (auto simp: relayReady_def split: option.split)

lemma current_probe: "current r \<Longrightarrow> current (probeLivenessNow r)" "current r \<Longrightarrow> current (probeTick r)"
  "current r \<Longrightarrow> current (pingSettled i answered r)" "current r \<Longrightarrow> current (resumeOnForeground r)"
proof -
  assume cur: "current r"
  have flag: "current (r\<lparr>rt_livenessInFlight := v\<rparr>)" "current (r\<lparr>rt_pings := ps\<rparr>)"
    "current (r\<lparr>rt_pings := ps, rt_livenessInFlight := v\<rparr>)" "current (r\<lparr>rt_livenessInFlight := v, rt_pings := ps\<rparr>)" for v ps
    by (rule current_same [OF view_shown cur], simp add: shown_def connectionState_def)+
  show a: "current (probeLivenessNow r)" "current (probeTick r)"
    using cur flag by (auto simp: probeLivenessNow_def probeTick_def probe_ping_def current_told split: option.split)
  show "current (resumeOnForeground r)" using a(1) cur by (simp add: resumeOnForeground_def current_told split: option.split)
  have "(tell_rt call x)\<lparr>rt_livenessInFlight := v\<rparr> = tell_rt call (x\<lparr>rt_livenessInFlight := v\<rparr>)" for call v and x :: runtime
    by (simp add: tell_rt_def)
  then show "current (pingSettled i answered r)"
    using cur flag by (auto simp: pingSettled_def split_def Let_def current_told split: option.split)
qed

lemma current_renewal: "current r \<Longrightarrow> current (renewalSettled gen result r)"
proof -
  assume cur: "current r"
  have quiet: "view (r\<lparr>rt_refreshes := a\<rparr>) = view r" "view (install_credential fresh r) = view r"
    "view (r\<lparr>rt_credentialRefresh := b\<rparr>) = view r" for a b fresh r
    by (rule view_shown, simp add: shown_def connectionState_def install_credential_def)+
  have "view (adopt_url g url x) = view x" for g url x
    by (rule view_shown) (simp add: adopt_url_def shown_def connectionState_def split: option.split)
  then have "view (renewalSettled gen result r) = view r"
    unfolding renewalSettled_def Let_def by (simp add: quiet split: option.split)
  then show ?thesis using cur by (rule current_same)
qed

lemma current_url: "current r \<Longrightarrow> current (resolveP2PUrl out attempt r)"
proof -
  assume cur: "current r"
  have "view (r\<lparr>rt_urlWaiters := a\<rparr>) = view r"
    "view (r\<lparr>rt_refreshGeneration := g, rt_refreshes := b, rt_credentialRefresh := d, rt_urlWaiters := a\<rparr>) = view r" for a b d g
    by (rule view_shown, simp add: shown_def connectionState_def)+
  then have "view (resolveP2PUrl out attempt r) = view r" by (simp add: resolveP2PUrl_def Let_def split: option.split)
  then show ?thesis using cur by (rule current_same)
qed

lemma current_task: "current r \<Longrightarrow> current (run_task out r)"
  using current_drive current_candidate current_same [OF view_kept(12), of r]
  by (auto simp: run_task_def Let_def split: list.split task.split option.split)

lemma current_step: "current r \<Longrightarrow> current (runtime_step r (out, e))"
proof -
  assume cur: "current r"
  have listening: "current (r\<lparr>rt_swapListening := v\<rparr>)" for v by (rule current_same [OF view_kept(13) cur])
  have "current (noteRendererReplaced out r)" using cur current_notes(4) by (simp add: noteRendererReplaced_def)
  moreover have "current (noteBootstrapApplied r)" using cur current_emit by (simp add: noteBootstrapApplied_def)
  moreover have "current (updateViewportSize sz r)" for sz using cur current_emit by (simp add: updateViewportSize_def)
  moreover have "current (dispose_runtime out r)" using disposed_gone by (simp add: current_def)
  moreover note current_rebind [OF listening] current_ready [OF listening] current_baseline [OF cur] current_event [OF cur]
    current_notes current_socket [OF cur] current_settled [OF cur] current_server [OF cur] current_relay [OF cur]
    current_task [OF cur] current_probe [OF cur] current_url [OF cur] current_renewal [OF cur]
  ultimately show ?thesis by (cases e) simp_all
qed

interpretation viewing: event_machine runtime_step current
  by unfold_locales (metis current_step surj_pair)

text \<open>
  C28. What the runtime publishes is what it is: after any inputs, until it is disposed, the snapshot every
  view of the session reads is the one its state computes, in every field; the one exception is that the
  stream may still be published as synchronized when the proof of what was parsed has been lost since.
\<close>
theorem published_snapshot_current:
  assumes "r = foldl runtime_step (new_runtime out0 c) es" and "\<not> rt_disposed r"
  shows "(rt_snapshot r)\<lparr>sn_streamState := computeStreamState r\<rparr> = buildSnapshot r
    \<and> (sn_streamState (rt_snapshot r) = computeStreamState r
       \<or> sn_streamState (rt_snapshot r) = Synchronized \<and> computeStreamState r = DegradedLive)"
proof -
  have "buildSnapshot (publish x) = buildSnapshot x" for x by (rule build_shown) (simp add: shown_def connectionState_def publish_def)
  then have "current (new_runtime out0 c)" by (simp add: new_runtime_def Let_def current_def) (simp add: publish_def)
  then have "current r" unfolding assms(1) by (rule viewing.run_inv)
  then have "rt_snapshot r = buildSnapshot r \<or> stale_stream r" using assms(2) by (simp add: current_def)
  then show ?thesis by (auto simp: stale_stream_def buildSnapshot_def)
qed

theorem published_snapshot_current_witness:
  "let r = demo_run (attached_run @ [BaselineProved \<lparr>vb_streamEpoch = 1, vb_appliedThrough = 5\<rparr>])
   in (rt_snapshot r)\<lparr>sn_streamState := computeStreamState r\<rparr> = buildSnapshot r \<and> computeStreamState r = Synchronized"
proof -
  let ?r = "demo_run (attached_run @ [BaselineProved \<lparr>vb_streamEpoch = 1, vb_appliedThrough = 5\<rparr>])"
  have live: "\<not> rt_disposed ?r" and sync: "computeStreamState ?r = Synchronized" by code_simp+
  show ?thesis unfolding Let_def
    using conjunct1 [OF published_snapshot_current [OF demo_run_def live]] sync by (rule conjI)
qed

section \<open>Runs in which the code leaves something unattended\<close>

definition route_update :: "attach_info \<Rightarrow> int \<Rightarrow> config_update" where
  "route_update info epoch = \<lparr>up_attachInfo = Some (Some info), up_orderedUrls = None, up_manualOverride = None,
     up_forcedRelay = Some (ai_mode info \<noteq> DirectAttach),
     up_addressUrls = Some (if ai_mode info = DirectAttach then [''ws://a/'', ''ws://b/''] else []),
     up_routeIntentEpoch = Some epoch, up_serverConnection = None\<rparr>"

definition relay_info :: attach_info where
  "relay_info = demo_info\<lparr>ai_mode := RelayAttach\<rparr>"

text \<open>
  A change of the route intent to the relay returns before the relay handler is wired: the session is
  attached over the relay, and neither its proof nor a loss of the server connection is heard.
\<close>

lemma relay_intent_unwired:
  "let r = demo_run (attached_run @ [ContextUpdated (route_update relay_info 1), TaskDue])
   in phase r = Attached \<and> effectiveForcedRelay r \<and> rt_relayWired r = None
      \<and> runtime_step r (demo_outside, ServerStateChanged WsReconnecting) = r"
  by code_simp

text \<open>
  The relay handler of an abandoned relay stays wired over a change of the route intent to the agent's own
  address: a drop of the server connection then ends a healthy direct attach and declares its history lost.
\<close>

definition back_to_direct :: "runtime_input list" where
  "back_to_direct = [BindViewport, ContextUpdated (route_update relay_info 0), TaskDue, ContextUpdated (route_update demo_info 1),
     SocketStateChanged WsConnected, AttachSettled 6 (SettledOk (demo_reply 1 5))]"

lemma relay_handler_left_wired:
  "let r = demo_run back_to_direct; s = runtime_step r (demo_outside, ServerStateChanged WsReconnecting)
   in phase r = Attached \<and> \<not> effectiveForcedRelay r \<and> \<not> rt_gapDetected r \<and> rt_relayWired r = Some 0
      \<and> phase s = Reconnecting \<and> rt_gapDetected s"
  by code_simp

text \<open>A parsed position that does not fit revokes the proof, and the published stream stays synchronized.\<close>

lemma revoked_proof_unpublished:
  "let r = demo_run (attached_run @ [BaselineProved \<lparr>vb_streamEpoch = 1, vb_appliedThrough = 5\<rparr>,
         EventParsed \<lparr>pos_epoch = 2, pos_seq = 6\<rparr>])
   in computeStreamState r = DegradedLive \<and> sn_streamState (rt_snapshot r) = Synchronized"
  by code_simp

text \<open>
  The next candidate gets a new transport, and the reply to its attach seeds that transport as a
  continuation: a reconciler that holds no position of its own takes the agent's, and what the terminal
  missed in between is not asked for.
\<close>

definition rotated_run :: "runtime_input list" where
  "rotated_run = attached_run @ [SocketStateChanged WsReconnecting, SocketStateChanged WsDisconnected,
     SocketStateChanged WsConnected, AttachSettled 7 (SettledOk (demo_reply 1 99))]"

lemma rotation_seeds_new_transport:
  "let r = demo_run rotated_run; told = rt_told r
   in phase r = Attached \<and> \<not> rt_gapDetected r \<and> TransportBuilt 1 1 (Some 1) \<in> set told
      \<and> AttachSent 7 1 False \<in> set told
      \<and> StreamCursorSeeded 1 \<lparr>sd_reply = demo_reply 1 99, sd_preserveAppliedCursor = True\<rparr> \<in> set told"
  by code_simp

section \<open>Outcomes without consequences for the route\<close>

lemma plain_dispatch_quiet:
  "\<not> (\<exists>manual. e = AttachError manual) \<Longrightarrow> \<not> (\<exists>manual n. e = AttachTimeout manual n) \<Longrightarrow>
     \<not> at_forceRelay (fst (dispatch_attach e m)) \<and> \<not> at_retryAttach (fst (dispatch_attach e m))"
  by (cases e) (simp_all add: dispatch_attach_def Let_def split_def)

end
