(* ===== verification/Runtime_Registry.thy ===== *)
theory Runtime_Registry
  imports Session_Laws
begin

text \<open>
  The registry of session runtimes (\<^verbatim>\<open>web/src/platform/session-runtime/SessionRuntimeRegistry.ts\<close>): views
  lease the runtime of a session, and the last release disposes it after a macrotask, unless it was leased
  again. The runtimes are those of \<open>Session_Runtime\<close>, named by the order of their construction; what happens
  to a runtime between the registry's calls is an event of its own. Armed timers are a list, so a cleared
  timer cannot fire.
\<close>

section \<open>Model\<close>

record registry_entry =
  re_runtime :: nat
  re_leases :: "nat list"

record lease =
  ls_session :: string
  ls_id :: nat
  ls_runtime :: nat

record registry =
  rg_entries :: "(string, registry_entry) jsmap"
  rg_pendingDispose :: "(string, nat) jsmap"
  rg_nextLeaseId :: nat
  rg_armed :: "(nat \<times> string) list"
  rg_timers :: nat
  rg_runtimes :: "runtime list"

definition new_registry :: registry where
  "new_registry = \<lparr>rg_entries = [], rg_pendingDispose = [], rg_nextLeaseId = 1, rg_armed = [], rg_timers = 0, rg_runtimes = []\<rparr>"

definition clear_pending :: "string \<Rightarrow> registry \<Rightarrow> registry" where
  "clear_pending sid g = (case map_get (rg_pendingDispose g) sid of
       None \<Rightarrow> g
     | Some timer \<Rightarrow> g\<lparr>rg_armed := map_delete timer (rg_armed g), rg_pendingDispose := map_delete sid (rg_pendingDispose g)\<rparr>)"

definition ensure_entry :: "outside \<Rightarrow> string \<Rightarrow> runtime_config \<Rightarrow> registry \<Rightarrow> registry_entry \<times> registry" where
  "ensure_entry out sid config g = (case map_get (rg_entries g) sid of
       Some entry \<Rightarrow> (entry, g)
     | None \<Rightarrow>
         let entry = \<lparr>re_runtime = length (rg_runtimes g), re_leases = []\<rparr>
         in (entry, g\<lparr>rg_runtimes := rg_runtimes g @ [new_runtime out config], rg_entries := map_set sid entry (rg_entries g)\<rparr>))"

definition acquire :: "outside \<Rightarrow> string \<Rightarrow> runtime_config \<Rightarrow> registry \<Rightarrow> lease \<times> registry" where
  "acquire out sid config g =
     (let (entry, g1) = ensure_entry out sid config (clear_pending sid g);
          leaseId = rg_nextLeaseId g1
      in (\<lparr>ls_session = sid, ls_id = leaseId, ls_runtime = re_runtime entry\<rparr>,
          g1\<lparr>rg_nextLeaseId := leaseId + 1,
             rg_entries := map_set sid (entry\<lparr>re_leases := re_leases entry @ [leaseId]\<rparr>) (rg_entries g1)\<rparr>))"

definition update_registered :: "outside \<Rightarrow> string \<Rightarrow> config_update \<Rightarrow> registry \<Rightarrow> registry" where
  "update_registered out sid u g = (case map_get (rg_entries g) sid of
       None \<Rightarrow> g
     | Some entry \<Rightarrow>
         let n = re_runtime entry
         in g\<lparr>rg_runtimes := (rg_runtimes g)[n := updateContext out u (rg_runtimes g ! n)]\<rparr>)"

definition release :: "string \<Rightarrow> nat \<Rightarrow> registry \<Rightarrow> registry" where
  "release sid leaseId g = (case map_get (rg_entries g) sid of
       None \<Rightarrow> g
     | Some entry \<Rightarrow>
         if leaseId \<notin> set (re_leases entry) then g
         else
           let left = removeAll leaseId (re_leases entry);
               g1 = g\<lparr>rg_entries := map_set sid (entry\<lparr>re_leases := left\<rparr>) (rg_entries g)\<rparr>
           in if left \<noteq> [] then g1
              else g1\<lparr>rg_timers := Suc (rg_timers g1), rg_armed := (rg_timers g1, sid) # rg_armed g1,
                      rg_pendingDispose := map_set sid (rg_timers g1) (rg_pendingDispose g1)\<rparr>)"

definition timer_fires :: "outside \<Rightarrow> nat \<Rightarrow> registry \<Rightarrow> registry" where
  "timer_fires out timer g = (case map_get (rg_armed g) timer of
       None \<Rightarrow> g
     | Some sid \<Rightarrow>
         let g1 = g\<lparr>rg_armed := map_delete timer (rg_armed g), rg_pendingDispose := map_delete sid (rg_pendingDispose g)\<rparr>
         in case map_get (rg_entries g1) sid of
              None \<Rightarrow> g1
            | Some current \<Rightarrow>
                if re_leases current \<noteq> [] then g1
                else
                  let n = re_runtime current
                  in g1\<lparr>rg_runtimes := (rg_runtimes g1)[n := dispose_runtime out (rg_runtimes g1 ! n)],
                        rg_entries := map_delete sid (rg_entries g1)\<rparr>)"

definition resumeForeground :: "registry \<Rightarrow> registry" where
  "resumeForeground g =
     g\<lparr>rg_runtimes := fold (\<lambda>(sid, entry) rs.
          if re_leases entry \<noteq> [] then rs[re_runtime entry := resumeOnForeground (rs ! re_runtime entry)] else rs)
        (rg_entries g) (rg_runtimes g)\<rparr>"

definition get_runtime :: "string \<Rightarrow> registry \<Rightarrow> nat option" where
  "get_runtime sid g = map_option re_runtime (map_get (rg_entries g) sid)"

datatype registry_event =
    Acquired outside string runtime_config
  | Released string nat
  | Updated outside string config_update
  | TimerFired outside nat
  | Foreground
  | RuntimeInput nat outside runtime_input

fun registry_step :: "registry \<Rightarrow> registry_event \<Rightarrow> registry" where
  "registry_step g (Acquired out sid config) = snd (acquire out sid config g)"
| "registry_step g (Released sid n) = release sid n g"
| "registry_step g (Updated out sid u) = update_registered out sid u g"
| "registry_step g (TimerFired out timer) = timer_fires out timer g"
| "registry_step g Foreground = resumeForeground g"
| "registry_step g (RuntimeInput n out e) =
     (if n < length (rg_runtimes g) \<and> e \<noteq> RuntimeDisposed
      then g\<lparr>rg_runtimes := (rg_runtimes g)[n := runtime_step (rg_runtimes g ! n) (out, e)]\<rparr> else g)"

section \<open>Invariant\<close>

text \<open>A runtime is alive exactly while an entry holds it, and an entry without leases has its timer armed.\<close>

definition live_runtimes :: "registry \<Rightarrow> nat set" where
  "live_runtimes g = {n. n < length (rg_runtimes g) \<and> \<not> rt_disposed (rg_runtimes g ! n)}"

lemma map_get_upd: "map_of (map_set k v m) = (map_of m)(k \<mapsto> v)" "map_of (map_delete k m) = (map_of m)(k := None)"
  by (rule ext; simp)+

definition inverse_maps :: "('a \<Rightarrow> 'b option) \<Rightarrow> ('b \<Rightarrow> 'a option) \<Rightarrow> bool" where
  "inverse_maps f g \<longleftrightarrow> (\<forall>a b. f a = Some b \<longleftrightarrow> g b = Some a)"

lemma inverse_maps_unique: "inverse_maps f g \<Longrightarrow> f a = Some b \<Longrightarrow> (f x = Some b \<longleftrightarrow> x = a) \<and> (g y = Some a \<longleftrightarrow> y = b)"
  unfolding inverse_maps_def by (metis option.inject)

lemma inverse_maps_delete:
  assumes "inverse_maps f g" and "f a = Some b"
  shows "inverse_maps (f(a := None)) (g(b := None))"
  unfolding inverse_maps_def
proof (intro allI)
  fix x y
  have "f x = Some y \<longleftrightarrow> g y = Some x" "g b = Some a" using assms by (auto simp: inverse_maps_def)
  then show "(f(a := None)) x = Some y \<longleftrightarrow> (g(b := None)) y = Some x"
    using inverse_maps_unique [OF assms, of x y] by (cases "x = a"; cases "y = b") auto
qed

lemma inverse_maps_add:
  assumes "inverse_maps f g" and "f a = None" and "g b = None"
  shows "inverse_maps (f(a \<mapsto> b)) (g(b \<mapsto> a))"
  unfolding inverse_maps_def
proof (intro allI)
  fix x y
  have "f x = Some y \<longleftrightarrow> g y = Some x" using assms by (simp add: inverse_maps_def)
  then show "(f(a \<mapsto> b)) x = Some y \<longleftrightarrow> (g(b \<mapsto> a)) y = Some x"
    using assms(2,3) by (cases "x = a"; cases "y = b") auto
qed

lemma ran_forget:
  assumes "inj_on f (dom f)" and "f a = Some b"
  shows "ran (f(a := None)) = ran f - {b}"
proof (rule set_eqI)
  fix y
  have only: "f x = Some b \<Longrightarrow> x = a" for x using assms unfolding inj_on_def dom_def by force
  show "y \<in> ran (f(a := None)) \<longleftrightarrow> y \<in> ran f - {b}"
  proof
    assume "y \<in> ran (f(a := None))"
    then obtain x where "x \<noteq> a" "f x = Some y" by (auto simp: ran_def split: if_splits)
    then show "y \<in> ran f - {b}" using only by (auto intro: ranI)
  next
    assume "y \<in> ran f - {b}"
    then obtain x where "f x = Some y" "y \<noteq> b" by (auto simp: ran_def)
    then have "(f(a := None)) x = Some y" using assms(2) by auto
    then show "y \<in> ran (f(a := None))" by (rule ranI)
  qed
qed

definition timers_ok :: "registry \<Rightarrow> bool" where
  "timers_ok g \<longleftrightarrow> inverse_maps (map_of (rg_pendingDispose g)) (map_of (rg_armed g))
     \<and> (\<forall>t \<in> dom (map_of (rg_armed g)). t < rg_timers g)"

definition owner :: "registry \<Rightarrow> string \<Rightarrow> nat option" where
  "owner g = map_option re_runtime \<circ> map_of (rg_entries g)"

definition entries_ok :: "registry \<Rightarrow> bool" where
  "entries_ok g \<longleftrightarrow> inj_on (owner g) (dom (owner g)) \<and> ran (owner g) = live_runtimes g
     \<and> (\<forall>entry \<in> ran (map_of (rg_entries g)). \<forall>i \<in> set (re_leases entry). i < rg_nextLeaseId g)"

definition idle_sessions :: "registry \<Rightarrow> string set" where
  "idle_sessions g = {sid. \<exists>entry. map_get (rg_entries g) sid = Some entry \<and> re_leases entry = []}"

definition pending_sessions :: "registry \<Rightarrow> string set" where
  "pending_sessions g = dom (map_of (rg_pendingDispose g))"

definition reg_inv :: "registry \<Rightarrow> bool" where
  "reg_inv g \<longleftrightarrow> timers_ok g \<and> entries_ok g \<and> idle_sessions g = pending_sessions g"

lemmas reg_defs = timers_ok_def entries_ok_def idle_sessions_def pending_sessions_def owner_def

lemma reg_inv_new: "reg_inv new_registry"
  by (simp add: reg_inv_def reg_defs new_registry_def live_runtimes_def inverse_maps_def)

lemma live_update:
  assumes "rt_disposed x = rt_disposed (rs ! n)"
  shows "live_runtimes (g\<lparr>rg_runtimes := rs[n := x]\<rparr>) = live_runtimes (g\<lparr>rg_runtimes := rs\<rparr>)"
proof -
  have "rt_disposed (rs[n := x] ! i) = rt_disposed (rs ! i)" for i
    using assms by (cases "i = n"; cases "n < length rs") (simp_all add: list_update_beyond)
  then show ?thesis by (simp add: live_runtimes_def)
qed

lemma reg_inv_runtimes: "live_runtimes (g\<lparr>rg_runtimes := rs\<rparr>) = live_runtimes g \<Longrightarrow> reg_inv g \<Longrightarrow> reg_inv (g\<lparr>rg_runtimes := rs\<rparr>)"
  by (simp add: reg_inv_def reg_defs)

lemma timer_forgotten:
  assumes "timers_ok g" and "map_get (rg_pendingDispose g) sid = Some t"
  shows "timers_ok (g\<lparr>rg_armed := map_delete t (rg_armed g), rg_pendingDispose := map_delete sid (rg_pendingDispose g)\<rparr>)"
  using assms inverse_maps_delete [of "map_of (rg_pendingDispose g)" "map_of (rg_armed g)" sid t]
  by (auto simp: timers_ok_def map_get_upd)

lemma clear_pending_facts:
  assumes "timers_ok g"
  shows "timers_ok (clear_pending sid g)" "pending_sessions (clear_pending sid g) = pending_sessions g - {sid}"
    "rg_entries (clear_pending sid g) = rg_entries g" "rg_runtimes (clear_pending sid g) = rg_runtimes g"
    "rg_nextLeaseId (clear_pending sid g) = rg_nextLeaseId g"
proof -
  have "dom (map_of (map_delete sid m)) = dom (map_of m) - {sid}" for m :: "(string, nat) jsmap" by (simp only: map_get_upd) simp
  then show "pending_sessions (clear_pending sid g) = pending_sessions g - {sid}"
    by (auto simp: clear_pending_def pending_sessions_def simp del: map_get_delete split: option.split)
qed (use assms timer_forgotten [OF assms] in \<open>simp_all add: clear_pending_def split: option.split\<close>)

text \<open>An entry changes: its session's owner and leases do, the rest stays.\<close>

lemma owner_set: "owner (g\<lparr>rg_entries := map_set sid e (rg_entries g)\<rparr>) = (owner g)(sid \<mapsto> re_runtime e)"
  by (auto simp: owner_def)

lemma entries_replaced:
  assumes "entries_ok g" and "map_get (rg_entries g) sid = Some e" and "re_runtime e' = re_runtime e"
    and "rg_entries h = map_set sid e' (rg_entries g)" and "rg_runtimes h = rg_runtimes g"
    and "rg_nextLeaseId g \<le> rg_nextLeaseId h" and "\<forall>i \<in> set (re_leases e'). i < rg_nextLeaseId h"
  shows "entries_ok h"
proof -
  have "owner h = owner g" using assms(2-4) by (auto simp: owner_def fun_eq_iff)
  moreover have "live_runtimes h = live_runtimes g" using assms(5) by (simp add: live_runtimes_def)
  moreover have "ran (map_of (rg_entries h)) \<subseteq> insert e' (ran (map_of (rg_entries g)))"
    unfolding assms(4) map_get_upd by (auto simp: ran_def)
  ultimately show ?thesis using assms(1,6,7) unfolding entries_ok_def by fastforce
qed

lemma ensure_entry_facts:
  assumes "entries_ok g" and "ensure_entry out sid config g = (entry, h)"
  shows "entries_ok h" "map_get (rg_entries h) sid = Some entry" "timers_ok h = timers_ok g" "pending_sessions h = pending_sessions g"
    "idle_sessions h - {sid} = idle_sessions g - {sid}"
proof -
  show "map_get (rg_entries h) sid = Some entry" "timers_ok h = timers_ok g" "pending_sessions h = pending_sessions g"
    "idle_sessions h - {sid} = idle_sessions g - {sid}"
    using assms(2) by (auto simp: ensure_entry_def reg_defs Let_def split: option.splits)
  show "entries_ok h"
  proof (cases "map_get (rg_entries g) sid")
    case None
    let ?n = "length (rg_runtimes g)" and ?e = "\<lparr>re_runtime = length (rg_runtimes g), re_leases = []\<rparr>"
    have h: "h = g\<lparr>rg_runtimes := rg_runtimes g @ [new_runtime out config], rg_entries := map_set sid ?e (rg_entries g)\<rparr>"
      using assms(2) None by (auto simp: ensure_entry_def Let_def)
    have live: "live_runtimes h = insert ?n (live_runtimes g)"
      using disposed_new by (auto simp: h live_runtimes_def nth_append less_Suc_eq)
    have own: "owner h = (owner g)(sid \<mapsto> ?n)" by (auto simp: h owner_def fun_eq_iff)
    have new: "?n \<notin> ran (owner g)" "owner g sid = None"
      using assms(1) None by (auto simp: entries_ok_def live_runtimes_def owner_def)
    have "inj_on (owner h) (dom (owner h))" "ran (owner h) = live_runtimes h"
      using assms(1) new ran_map_upd [of "owner g" sid ?n]
      unfolding own live entries_ok_def by (auto simp: inj_on_def domIff ranI)
    moreover have "ran (map_of (rg_entries h)) \<subseteq> insert ?e (ran (map_of (rg_entries g)))"
      unfolding h by (auto simp: ran_def)
    ultimately show ?thesis using assms(1) unfolding entries_ok_def by (auto simp: h)
  next
    case (Some entry)
    then show ?thesis using assms by (simp add: ensure_entry_def)
  qed
qed

lemma reg_inv_acquire: "reg_inv g \<Longrightarrow> reg_inv (snd (acquire out sid config g))"
proof -
  assume inv: "reg_inv g"
  let ?g = "clear_pending sid g"
  obtain entry h where h: "ensure_entry out sid config ?g = (entry, h)" by fastforce
  have t: "timers_ok g" using inv by (simp add: reg_inv_def)
  have idle: "idle_sessions ?g = idle_sessions g" by (simp add: idle_sessions_def clear_pending_facts [OF t])
  have "entries_ok ?g" using inv by (simp add: reg_inv_def entries_ok_def owner_def live_runtimes_def clear_pending_facts [OF t])
  note e = ensure_entry_facts [OF this h]
  let ?e = "entry\<lparr>re_leases := re_leases entry @ [rg_nextLeaseId h]\<rparr>"
  let ?k = "h\<lparr>rg_nextLeaseId := rg_nextLeaseId h + 1, rg_entries := map_set sid ?e (rg_entries h)\<rparr>"
  have "\<forall>i \<in> set (re_leases entry). i < rg_nextLeaseId h" using e(1,2) by (auto simp: entries_ok_def ran_def)
  then have "entries_ok ?k" by (intro entries_replaced [OF e(1,2)]) (auto simp: less_Suc_eq)
  moreover have "timers_ok ?k" using e(3) clear_pending_facts(1) [OF t] by (simp add: timers_ok_def)
  moreover have "idle_sessions ?k = idle_sessions h - {sid}" by (auto simp: idle_sessions_def)
  moreover have "pending_sessions ?k = idle_sessions h - {sid}"
    using inv e(4,5) idle by (simp add: clear_pending_facts [OF t] reg_inv_def) (simp add: pending_sessions_def)
  ultimately have "reg_inv ?k" by (simp add: reg_inv_def)
  then show ?thesis using h by (simp add: acquire_def Let_def)
qed

lemma reg_inv_release: "reg_inv g \<Longrightarrow> reg_inv (release sid leaseId g)"
proof (cases "\<exists>entry. map_get (rg_entries g) sid = Some entry \<and> leaseId \<in> set (re_leases entry)")
  case True
  assume inv: "reg_inv g"
  obtain entry where entry: "map_get (rg_entries g) sid = Some entry" "leaseId \<in> set (re_leases entry)" using True by auto
  let ?left = "removeAll leaseId (re_leases entry)"
  let ?g1 = "g\<lparr>rg_entries := map_set sid (entry\<lparr>re_leases := ?left\<rparr>) (rg_entries g)\<rparr>"
  let ?g2 = "?g1\<lparr>rg_timers := Suc (rg_timers ?g1), rg_armed := (rg_timers ?g1, sid) # rg_armed ?g1,
      rg_pendingDispose := map_set sid (rg_timers ?g1) (rg_pendingDispose ?g1)\<rparr>"
  have "sid \<notin> idle_sessions g" using entry by (auto simp: idle_sessions_def)
  then have busy: "map_get (rg_pendingDispose g) sid = None" using inv by (auto simp: reg_inv_def pending_sessions_def)
  have t: "timers_ok g" "entries_ok g" using inv by (simp_all add: reg_inv_def)
  have "\<forall>i \<in> set ?left. i < rg_nextLeaseId g" using t(2) entry(1) by (auto simp: entries_ok_def ran_def)
  then have es: "entries_ok ?g1" "entries_ok ?g2"
    by (intro entries_replaced [OF t(2) entry(1), of "entry\<lparr>re_leases := ?left\<rparr>"]; simp)+
  have "map_get (rg_armed g) (rg_timers g) = None" using t(1) by (auto simp: timers_ok_def dom_def)
  then have "timers_ok ?g1" "timers_ok ?g2"
    using t(1) inverse_maps_add [of "map_of (rg_pendingDispose g)" "map_of (rg_armed g)" sid "rg_timers g"] busy
    by (auto simp: timers_ok_def map_get_upd less_Suc_eq)
  moreover have "idle_sessions ?g1 = (if ?left = [] then insert sid (idle_sessions g) else idle_sessions g)"
    "idle_sessions ?g2 = idle_sessions ?g1"
    using entry by (auto simp: idle_sessions_def)
  moreover have "pending_sessions ?g2 = insert sid (pending_sessions g)" "pending_sessions ?g1 = pending_sessions g"
    by (simp_all add: pending_sessions_def map_get_upd)
  ultimately have "?left \<noteq> [] \<Longrightarrow> reg_inv ?g1" "?left = [] \<Longrightarrow> reg_inv ?g2"
    using inv es by (simp_all add: reg_inv_def)
  then show ?thesis using entry by (simp add: release_def Let_def)
qed (auto simp: release_def split: option.split)

lemma reg_inv_timer: "reg_inv g \<Longrightarrow> reg_inv (timer_fires out timer g)"
proof (cases "map_get (rg_armed g) timer")
  case (Some sid)
  assume inv: "reg_inv g"
  let ?g1 = "g\<lparr>rg_armed := map_delete timer (rg_armed g), rg_pendingDispose := map_delete sid (rg_pendingDispose g)\<rparr>"
  have pend: "map_get (rg_pendingDispose g) sid = Some timer" using inv Some by (simp add: reg_inv_def timers_ok_def inverse_maps_def)
  then have "sid \<in> idle_sessions g" using inv by (auto simp: reg_inv_def pending_sessions_def)
  then obtain entry where entry: "map_get (rg_entries g) sid = Some entry" "re_leases entry = []"
    by (auto simp: idle_sessions_def)
  let ?n = "re_runtime entry"
  let ?g2 = "?g1\<lparr>rg_runtimes := (rg_runtimes ?g1)[?n := dispose_runtime out (rg_runtimes ?g1 ! ?n)], rg_entries := map_delete sid (rg_entries ?g1)\<rparr>"
  have t: "timers_ok g" "entries_ok g" using inv by (simp_all add: reg_inv_def)
  have "timers_ok ?g2" using timer_forgotten [OF t(1) pend] by (simp add: timers_ok_def)
  moreover have "idle_sessions ?g2 = idle_sessions g - {sid}" "pending_sessions ?g2 = pending_sessions g - {sid}"
    by (auto simp: idle_sessions_def pending_sessions_def map_get_upd)
  moreover have "entries_ok ?g2"
  proof -
    have own: "owner ?g2 = (owner g)(sid := None)" by (auto simp: owner_def fun_eq_iff)
    have sid: "owner g sid = Some ?n" using entry by (simp add: owner_def)
    then have "?n \<in> live_runtimes g" using t(2) by (auto simp: entries_ok_def ranI)
    then have live: "live_runtimes ?g2 = live_runtimes g - {?n}"
      by (auto simp: live_runtimes_def nth_list_update disposed_gone)
    have "ran ((owner g)(sid := None)) = ran (owner g) - {?n}"
      using t(2) sid by (intro ran_forget) (simp_all add: entries_ok_def)
    then have "ran (owner ?g2) = live_runtimes ?g2" using t(2) unfolding own live by (simp add: entries_ok_def)
    moreover have "inj_on (owner ?g2) (dom (owner ?g2))"
      using t(2) unfolding own entries_ok_def by (auto simp: inj_on_def)
    moreover have "ran (map_of (rg_entries ?g2)) \<subseteq> ran (map_of (rg_entries g))"
      by (auto simp: map_get_upd ran_def)
    ultimately show ?thesis using t(2) unfolding entries_ok_def by auto
  qed
  ultimately show ?thesis using inv Some entry by (simp add: timer_fires_def Let_def reg_inv_def)
qed (simp add: timer_fires_def)

lemma live_resumed:
  "live_runtimes (g\<lparr>rg_runtimes := fold (\<lambda>(sid, entry) rs.
      if re_leases entry \<noteq> [] then rs[re_runtime entry := resumeOnForeground (rs ! re_runtime entry)] else rs) es rs\<rparr>)
   = live_runtimes (g\<lparr>rg_runtimes := rs\<rparr>)"
proof (induction es arbitrary: rs)
  case (Cons p es)
  have "live_runtimes (g\<lparr>rg_runtimes := rs[n := resumeOnForeground (rs ! n)]\<rparr>) = live_runtimes (g\<lparr>rg_runtimes := rs\<rparr>)" for n
    by (rule live_update) (rule alive.resumed)
  then show ?case using Cons.IH by (cases p) simp
qed simp

lemma reg_inv_step: "reg_inv g \<Longrightarrow> reg_inv (registry_step g e)"
proof (cases e)
  case Foreground
  assume "reg_inv g"
  moreover have "g\<lparr>rg_runtimes := rg_runtimes g\<rparr> = g" by simp
  ultimately show ?thesis using Foreground live_resumed [where g = g and es = "rg_entries g" and rs = "rg_runtimes g"]
    by (simp add: resumeForeground_def reg_inv_runtimes)
next
  case (Updated out sid u)
  assume "reg_inv g"
  moreover have "live_runtimes (g\<lparr>rg_runtimes := (rg_runtimes g)[n := updateContext out u (rg_runtimes g ! n)]\<rparr>) = live_runtimes g" for n
    using live_update [of "updateContext out u (rg_runtimes g ! n)" "rg_runtimes g" n g] alive.context_updated by simp
  ultimately show ?thesis using Updated by (simp add: update_registered_def Let_def reg_inv_runtimes split: option.split)
next
  case (RuntimeInput n out i)
  assume inv: "reg_inv g"
  have "live_runtimes (g\<lparr>rg_runtimes := (rg_runtimes g)[n := runtime_step (rg_runtimes g ! n) (out, i)]\<rparr>) = live_runtimes g"
    if "i \<noteq> RuntimeDisposed"
    using live_update [of "runtime_step (rg_runtimes g ! n) (out, i)" "rg_runtimes g" n g] undisposed_step [OF that] by simp
  then show ?thesis using inv RuntimeInput by (simp add: reg_inv_runtimes)
qed (simp_all add: reg_inv_acquire reg_inv_release reg_inv_timer)

interpretation registry: event_machine registry_step reg_inv
  by unfold_locales (rule reg_inv_step)

section \<open>Leases\<close>

definition leased :: "lease \<Rightarrow> registry \<Rightarrow> bool" where
  "leased l g \<longleftrightarrow> (\<exists>entry. map_get (rg_entries g) (ls_session l) = Some entry \<and> ls_id l \<in> set (re_leases entry)
     \<and> re_runtime entry = ls_runtime l)"

lemma lease_kept:
  assumes "reg_inv g" and "leased l g" and "e \<noteq> Released (ls_session l) (ls_id l)"
  shows "leased l (registry_step g e)"
proof -
  obtain entry where entry: "map_get (rg_entries g) (ls_session l) = Some entry" "ls_id l \<in> set (re_leases entry)"
    "re_runtime entry = ls_runtime l" using assms(2) by (auto simp: leased_def)
  have t: "timers_ok g" using assms(1) by (simp add: reg_inv_def)
  show ?thesis
  proof (cases e)
    case (Acquired out sid config)
    then show ?thesis using entry clear_pending_facts(3) [OF t]
      by (auto simp: leased_def acquire_def ensure_entry_def Let_def split: option.split)
  next
    case (Released sid n)
    have "ls_id l \<in> set (removeAll n (re_leases entry))" if "sid = ls_session l" using entry(2) assms(3) Released that by simp
    moreover from this have "removeAll n (re_leases entry) \<noteq> []" if "sid = ls_session l" using that by force
    ultimately show ?thesis using entry Released by (auto simp: leased_def release_def Let_def simp del: set_removeAll split: option.split)
  next
    case (TimerFired out timer)
    have "map_get (rg_armed g) timer \<noteq> Some (ls_session l)"
    proof
      assume "map_get (rg_armed g) timer = Some (ls_session l)"
      then have "ls_session l \<in> pending_sessions g" using t by (auto simp: timers_ok_def inverse_maps_def pending_sessions_def)
      then have "ls_session l \<in> idle_sessions g" using assms(1) by (simp add: reg_inv_def)
      then show False using entry by (auto simp: idle_sessions_def)
    qed
    then show ?thesis using TimerFired entry by (auto simp: leased_def timer_fires_def Let_def split: option.split)
  qed (use entry in \<open>auto simp: leased_def update_registered_def resumeForeground_def Let_def split: option.split\<close>)
qed

text \<open>
  C29. Leases keep a session's runtime alive, and nothing else does. Once a view has leased a session, then
  for as long as it does not release that lease, through any acquisitions and releases by others, timers and
  inputs, the session's entry is the runtime the lease names and that runtime is not disposed; and at every
  moment each runtime that is not disposed belongs to exactly one session, which holds a lease or whose
  disposal timer is armed.
\<close>
theorem leased_runtime_lives:
  assumes "g = foldl registry_step new_registry before" and "acquire out sid config g = (l, h)"
    and "t = foldl registry_step h later" and "Released (ls_session l) (ls_id l) \<notin> set later"
  shows "get_runtime sid t = Some (ls_runtime l) \<and> \<not> rt_disposed (rg_runtimes t ! ls_runtime l)
    \<and> (\<forall>n < length (rg_runtimes t). \<not> rt_disposed (rg_runtimes t ! n) \<longrightarrow>
        (\<exists>!s. get_runtime s t = Some n)
        \<and> (\<exists>s entry. map_get (rg_entries t) s = Some entry \<and> re_runtime entry = n
             \<and> (re_leases entry \<noteq> [] \<or> map_get (rg_pendingDispose t) s \<noteq> None)))"
proof -
  have inv: "reg_inv g" unfolding assms(1) by (rule registry.run_inv [OF reg_inv_new])
  have inv': "reg_inv h" using reg_inv_acquire [OF inv, of out sid config] assms(2) by simp
  have invt: "reg_inv t" unfolding assms(3) by (rule registry.run_inv [OF inv'])
  have "leased l h \<and> ls_session l = sid"
    using assms(2) by (auto simp: leased_def acquire_def ensure_entry_def Let_def split_def split: option.splits)
  moreover have "leased l (foldl registry_step x es)" if "reg_inv x" "leased l x" "Released (ls_session l) (ls_id l) \<notin> set es" for x es
    using that
  proof (induction es arbitrary: x)
    case (Cons e es)
    then have "e \<noteq> Released (ls_session l) (ls_id l)" by auto
    then show ?case using Cons.IH [OF reg_inv_step lease_kept] Cons.prems by simp
  qed simp
  ultimately have lt: "leased l t" "ls_session l = sid" unfolding assms(3) using inv' assms(4) by auto
  then have own: "get_runtime sid t = Some (ls_runtime l)" by (auto simp: leased_def get_runtime_def)
  have owner: "owner t s = get_runtime s t" for s by (simp add: owner_def get_runtime_def)
  have live: "live_runtimes t = ran (owner t)" "inj_on (owner t) (dom (owner t))"
    using invt by (simp_all add: reg_inv_def entries_ok_def)
  have "ls_runtime l \<in> live_runtimes t" unfolding live(1) using own owner by (metis ranI)
  moreover have "(\<exists>!s. get_runtime s t = Some n)
        \<and> (\<exists>s entry. map_get (rg_entries t) s = Some entry \<and> re_runtime entry = n
             \<and> (re_leases entry \<noteq> [] \<or> map_get (rg_pendingDispose t) s \<noteq> None))" if "n \<in> live_runtimes t" for n
  proof -
    obtain s where s: "owner t s = Some n" using \<open>n \<in> live_runtimes t\<close> unfolding live(1) by (auto simp: ran_def)
    then obtain entry where "map_get (rg_entries t) s = Some entry" "re_runtime entry = n" by (auto simp: owner_def)
    moreover have "re_leases entry \<noteq> [] \<or> map_get (rg_pendingDispose t) s \<noteq> None"
      using invt calculation(1) by (auto simp: reg_inv_def idle_sessions_def pending_sessions_def)
    moreover have "x = s" if "get_runtime x t = Some n" for x
      using live(2) s that owner by (metis domI inj_on_def)
    ultimately show ?thesis using s owner by metis
  qed
  ultimately show ?thesis using own by (simp add: live_runtimes_def)
qed

theorem leased_runtime_lives_witness:
  "let g = foldl registry_step new_registry [Acquired demo_outside ''s'' demo_config, Released ''s'' 1];
       (l, h) = acquire demo_outside ''s'' demo_config g; t = registry_step h (TimerFired demo_outside 0)
   in ls_runtime l = 0 \<and> map_get (rg_pendingDispose g) ''s'' = Some 0
      \<and> get_runtime ''s'' t = Some (ls_runtime l) \<and> \<not> rt_disposed (rg_runtimes t ! ls_runtime l)"
proof -
  let ?g = "foldl registry_step new_registry [Acquired demo_outside ''s'' demo_config, Released ''s'' 1]"
  let ?a = "acquire demo_outside ''s'' demo_config ?g"
  have "ls_runtime (fst ?a) = 0" "map_get (rg_pendingDispose ?g) ''s'' = Some 0" by code_simp+
  then show ?thesis
    using leased_runtime_lives [OF refl prod.collapse [symmetric] refl, where later = "[TimerFired demo_outside 0]" and sid = "''s''"
        and out = demo_outside and config = demo_config and before = "[Acquired demo_outside ''s'' demo_config, Released ''s'' 1]"]
    by (simp add: Let_def split_def)
qed

end
