(* ===== verification/Socket_Service.thy ===== *)
theory Socket_Service
  imports Connection_State
begin

text \<open>
  The one WebSocket transport of the web client (\<^verbatim>\<open>web/src/platform/socket/WebSocketService.ts\<close>) and the
  correlation of its requests (\<^verbatim>\<open>web/src/platform/socket/MessageRouter.ts\<close>). Promises, physical sockets and timers
  are numbers; \<open>wk_open\<close> holds the promises nobody has settled yet, and settling one of the others does
  nothing, as in JavaScript. A physical socket is named by its generation. What the browser does is an event:
  a socket opens, closes, fails, delivers a message, a handshake or a URL settles, a timer fires. A dial comes
  with what \<open>needsUrl\<close> answers and whether the \<open>WebSocket\<close> constructor refuses the URL; an id with the random part the browser
  drew for it. Listeners and plugins do not call back while they are told; their calls are later events. \<open>resolveUrl\<close> never settles
  synchronously. Payloads are opaque strings; \<open>wk_told\<close> logs what leaves the object.
\<close>

section \<open>State\<close>

datatype ready_state = SockConnecting | SockOpen | SockClosing | SockClosed

record physical_socket =
  ps_ready :: ready_state
  ps_wired :: bool
  ps_promise :: nat
  ps_handshaking :: bool

record waiting_request =
  wq_type :: string
  wq_payload :: string
  wq_startedAt :: int
  wq_timeoutMs :: int

record connection_waiter =
  wt_promise :: nat
  wt_request :: "waiting_request option"

record service_options =
  wo_handshake :: bool
  wo_maxReconnectAttempts :: "nat option"
  wo_reconnectBaseDelay :: "int option"
  wo_persistentReconnect :: bool
  wo_resolveUrl :: bool

record socket_message =
  sm_type :: string
  sm_id :: string
  sm_payload :: string
  sm_errorMessage :: "string option"

datatype promise_result = Fulfilled | Answered string | Failed string

datatype service_call =
    StateTold nat connection_state
  | Sent nat string string string
  | Settled nat promise_result
  | Delivered nat string
  | BinaryDelivered nat string
  | SocketOpened nat string
  | ReconnectArmed nat int
  | UrlAsked nat nat
  | HandshakeStarted nat
  | HandshakeRefused string
  | ErrorTold string
  | PluginInstalled string
  | PluginTornDown string

record socket_service =
  wk_options :: service_options
  wk_url :: string
  wk_ws :: "nat option"
  wk_sockets :: "(nat, physical_socket) jsmap"
  wk_generation :: nat
  wk_reconnectAttempt :: nat
  wk_reportedRouteExhaustion :: bool
  wk_state :: connection_state
  wk_reconnectTimer :: "nat option"
  wk_armed :: "nat list"
  wk_timers :: nat
  wk_connectPromise :: "nat option"
  wk_rejectConnect :: "nat option"
  wk_userClosed :: bool
  wk_disposed :: bool
  wk_stateListeners :: "nat list"
  wk_waiters :: "connection_waiter list"
  wk_continuations :: "(nat \<times> waiting_request) list"
  wk_resolving :: "(nat, nat) jsmap"
  wk_idCounter :: nat
  wk_plugins :: "string list"
  wk_handlers :: "(string, nat) jsmap"
  wk_handlerSets :: "nat list list"
  wk_binaryHandlers :: "nat list"
  wk_pending :: "(string, nat \<times> string) jsmap"
  wk_routerDisposed :: bool
  wk_promises :: nat
  wk_open :: "nat list"
  wk_told :: "service_call list"

definition MAX_RECONNECT_DELAY :: int where "MAX_RECONNECT_DELAY = 30000"
definition DEFAULT_MAX_RECONNECT_ATTEMPTS :: nat where "DEFAULT_MAX_RECONNECT_ATTEMPTS = 10"
definition DEFAULT_RECONNECT_BASE_DELAY :: int where "DEFAULT_RECONNECT_BASE_DELAY = 1000"
definition PERSISTENT_RECONNECT_DELAY_MS :: int where "PERSISTENT_RECONNECT_DELAY_MS = 15000"

definition reconnectDelayMs :: "nat \<Rightarrow> int \<Rightarrow> int" where
  "reconnectDelayMs attempt baseDelay = min (baseDelay * 2 ^ attempt) MAX_RECONNECT_DELAY"

definition new_service :: "string \<Rightarrow> service_options \<Rightarrow> socket_service" where
  "new_service url options = \<lparr>wk_options = options, wk_url = url, wk_ws = None, wk_sockets = [], wk_generation = 0,
     wk_reconnectAttempt = 0, wk_reportedRouteExhaustion = False, wk_state = WsDisconnected, wk_reconnectTimer = None,
     wk_armed = [], wk_timers = 0, wk_connectPromise = None, wk_rejectConnect = None, wk_userClosed = False,
     wk_disposed = False, wk_stateListeners = [], wk_waiters = [], wk_continuations = [], wk_resolving = [],
     wk_idCounter = 0, wk_plugins = [], wk_handlers = [], wk_handlerSets = [], wk_binaryHandlers = [], wk_pending = [],
     wk_routerDisposed = False, wk_promises = 0, wk_open = [], wk_told = []\<rparr>"

section \<open>Promises\<close>

definition tell_wk :: "service_call \<Rightarrow> socket_service \<Rightarrow> socket_service" where
  "tell_wk call w = w\<lparr>wk_told := wk_told w @ [call]\<rparr>"

definition new_promise :: "socket_service \<Rightarrow> nat \<times> socket_service" where
  "new_promise w = (wk_promises w, w\<lparr>wk_promises := Suc (wk_promises w), wk_open := wk_promises w # wk_open w\<rparr>)"

definition settle :: "nat \<Rightarrow> promise_result \<Rightarrow> socket_service \<Rightarrow> socket_service" where
  "settle p result w =
     (if p \<in> set (wk_open w) then tell_wk (Settled p result) (w\<lparr>wk_open := removeAll p (wk_open w)\<rparr>) else w)"

definition settled_promise :: "promise_result \<Rightarrow> socket_service \<Rightarrow> socket_service" where
  "settled_promise result w = (let (p, w1) = new_promise w in settle p result w1)"

section \<open>The message router\<close>

definition sendRaw :: "string \<Rightarrow> string \<Rightarrow> string \<Rightarrow> socket_service \<Rightarrow> string option \<times> socket_service" where
  "sendRaw mid type payload w = (case wk_ws w of
       Some g \<Rightarrow>
         if map_option ps_ready (map_get (wk_sockets w) g) = Some SockOpen then (None, tell_wk (Sent g mid type payload) w)
         else (Some ''WebSocket not connected'', w)
     | None \<Rightarrow> (Some ''WebSocket not connected'', w))"

definition generateMessageId :: "string \<Rightarrow> socket_service \<Rightarrow> string \<times> socket_service" where
  "generateMessageId random w =
     (let n = Suc (wk_idCounter w) in (''msg_'' @ decimal n @ ''_'' @ random, w\<lparr>wk_idCounter := n\<rparr>))"

text \<open>The promise is made by the caller; the timer of a request is armed exactly while it is pending.\<close>

definition router_request :: "nat \<Rightarrow> string \<Rightarrow> string \<Rightarrow> string \<Rightarrow> socket_service \<Rightarrow> socket_service" where
  "router_request p random type payload w =
     (if wk_routerDisposed w then settle p (Failed ''MessageRouter disposed'') w
      else
        let (mid, w1) = generateMessageId random w;
            w2 = w1\<lparr>wk_pending := map_set mid (p, type) (wk_pending w1)\<rparr>
        in case sendRaw mid type payload w2 of
             (None, w3) \<Rightarrow> w3
           | (Some err, w3) \<Rightarrow> settle p (Failed err) (w3\<lparr>wk_pending := map_delete mid (wk_pending w3)\<rparr>))"

definition requestTimeout :: "string \<Rightarrow> socket_service \<Rightarrow> socket_service" where
  "requestTimeout mid w = (case map_get (wk_pending w) mid of
       None \<Rightarrow> w
     | Some (p, type) \<Rightarrow> settle p (Failed (''Request timeout: '' @ type)) (w\<lparr>wk_pending := map_delete mid (wk_pending w)\<rparr>))"

definition handleIncoming :: "socket_message \<Rightarrow> socket_service \<Rightarrow> socket_service" where
  "handleIncoming m w = (case map_get (wk_pending w) (sm_id m) of
       Some (p, type) \<Rightarrow>
         settle p
           (if sm_type m = ''error''
            then Failed (case sm_errorMessage m of None \<Rightarrow> ''Remote error'' | Some t \<Rightarrow> if t = [] then ''Remote error'' else t)
            else Answered (sm_payload m))
           (w\<lparr>wk_pending := map_delete (sm_id m) (wk_pending w)\<rparr>)
     | None \<Rightarrow>
         (case map_get (wk_handlers w) (sm_type m) of
            None \<Rightarrow> w
          | Some n \<Rightarrow> fold (\<lambda>h. tell_wk (Delivered h (sm_payload m))) (wk_handlerSets w ! n) w))"

definition handleBinary :: "string \<Rightarrow> socket_service \<Rightarrow> socket_service" where
  "handleBinary data w = fold (\<lambda>h. tell_wk (BinaryDelivered h data)) (wk_binaryHandlers w) w"

text \<open>A subscription returns the set it went into: its cancellation is bound to that set, not to the type.\<close>

definition subscribe :: "string \<Rightarrow> nat \<Rightarrow> socket_service \<Rightarrow> nat \<times> socket_service" where
  "subscribe type h w =
     (let (n, w1) = (case map_get (wk_handlers w) type of
            Some n \<Rightarrow> (n, w)
          | None \<Rightarrow> (length (wk_handlerSets w), w\<lparr>wk_handlerSets := wk_handlerSets w @ [[]],
              wk_handlers := map_set type (length (wk_handlerSets w)) (wk_handlers w)\<rparr>))
      in (n, w1\<lparr>wk_handlerSets := (wk_handlerSets w1)[n := set_add h (wk_handlerSets w1 ! n)]\<rparr>))"

definition unsubscribe :: "nat \<Rightarrow> string \<Rightarrow> nat \<Rightarrow> socket_service \<Rightarrow> socket_service" where
  "unsubscribe n type h w =
     (if length (wk_handlerSets w) \<le> n then w
      else
        let left = removeAll h (wk_handlerSets w ! n); w1 = w\<lparr>wk_handlerSets := (wk_handlerSets w)[n := left]\<rparr>
        in if left = [] then w1\<lparr>wk_handlers := map_delete type (wk_handlers w1)\<rparr> else w1)"

definition failPending :: "string \<Rightarrow> socket_service \<Rightarrow> socket_service" where
  "failPending err w = (fold (\<lambda>(mid, p, type). settle p (Failed err)) (wk_pending w) w)\<lparr>wk_pending := []\<rparr>"

definition router_dispose :: "socket_service \<Rightarrow> socket_service" where
  "router_dispose w =
     (failPending ''MessageRouter disposed'' (w\<lparr>wk_routerDisposed := True\<rparr>))\<lparr>wk_handlers := [], wk_binaryHandlers := []\<rparr>"

section \<open>State changes and waiters\<close>

definition resolve_waiter :: "connection_waiter \<Rightarrow> socket_service \<Rightarrow> socket_service" where
  "resolve_waiter wt w = (case wt_request wt of
       None \<Rightarrow> settle (wt_promise wt) Fulfilled w
     | Some q \<Rightarrow> w\<lparr>wk_continuations := wk_continuations w @ [(wt_promise wt, q)]\<rparr>)"

definition setState :: "connection_state \<Rightarrow> socket_service \<Rightarrow> socket_service" where
  "setState next w =
     (if wk_state w = next then w
      else
        let w1 = fold (\<lambda>l. tell_wk (StateTold l next)) (wk_stateListeners w) (w\<lparr>wk_state := next\<rparr>)
        in if next = WsConnected then fold resolve_waiter (wk_waiters w1) (w1\<lparr>wk_waiters := []\<rparr>) else w1)"

definition rejectWaiters :: "string \<Rightarrow> socket_service \<Rightarrow> socket_service" where
  "rejectWaiters err w = fold (\<lambda>wt. settle (wt_promise wt) (Failed err)) (wk_waiters w) (w\<lparr>wk_waiters := []\<rparr>)"

definition waitFor :: "waiting_request option \<Rightarrow> socket_service \<Rightarrow> socket_service" where
  "waitFor request w =
     (if wk_disposed w then settled_promise (Failed ''WebSocketService disposed'') w
      else if wk_state w = WsConnected then settled_promise Fulfilled w
      else if wk_state w = WsDisconnected then settled_promise (Failed ''Connection lost'') w
      else
        let (p, w1) = new_promise w
        in w1\<lparr>wk_waiters := wk_waiters w1 @ [\<lparr>wt_promise = p, wt_request = request\<rparr>]\<rparr>)"

definition waitForConnection :: "socket_service \<Rightarrow> socket_service" where
  "waitForConnection w = waitFor None w"

definition waiterTimeout :: "nat \<Rightarrow> socket_service \<Rightarrow> socket_service" where
  "waiterTimeout p w =
     (if p \<in> wt_promise ` set (wk_waiters w)
      then settle p (Failed ''Connection timeout'') (w\<lparr>wk_waiters := filter (\<lambda>wt. wt_promise wt \<noteq> p) (wk_waiters w)\<rparr>)
      else w)"

section \<open>Requests and sends\<close>

definition sendTracked :: "string \<Rightarrow> string \<Rightarrow> string \<Rightarrow> socket_service \<Rightarrow> (string + string \<times> nat) \<times> socket_service" where
  "sendTracked random type payload w =
     (if wk_disposed w then (Inl ''WebSocketService disposed'', w)
      else
        let (mid, w1) = generateMessageId random w
        in case sendRaw mid type payload w1 of
             (Some err, w2) \<Rightarrow> (Inl err, w2)
           | (None, w2) \<Rightarrow> (Inr (mid, wk_generation w), w2))"

definition request :: "string \<Rightarrow> int \<Rightarrow> int \<Rightarrow> string \<Rightarrow> string \<Rightarrow> socket_service \<Rightarrow> socket_service" where
  "request random now timeoutMs type payload w =
     (if wk_disposed w then settled_promise (Failed ''WebSocketService disposed'') w
      else if wk_state w = WsConnected then let (p, w1) = new_promise w in router_request p random type payload w1
      else if wk_state w = WsDisconnected then settled_promise (Failed ''Connection lost'') w
      else waitFor (Some \<lparr>wq_type = type, wq_payload = payload, wq_startedAt = now, wq_timeoutMs = timeoutMs\<rparr>) w)"

text \<open>What follows the gate runs a microtask later, in order.\<close>

definition request_continues :: "string \<Rightarrow> int \<Rightarrow> socket_service \<Rightarrow> socket_service" where
  "request_continues random now w = (case wk_continuations w of
       [] \<Rightarrow> w
     | (p, q) # rest \<Rightarrow>
         let w1 = w\<lparr>wk_continuations := rest\<rparr>
         in if wq_timeoutMs q - (now - wq_startedAt q) \<le> 0 then settle p (Failed (''Request timeout: '' @ wq_type q)) w1
            else router_request p random (wq_type q) (wq_payload q) w1)"

section \<open>Sockets\<close>

definition set_socket :: "nat \<Rightarrow> (physical_socket \<Rightarrow> physical_socket) \<Rightarrow> socket_service \<Rightarrow> socket_service" where
  "set_socket g f w = (case map_get (wk_sockets w) g of
       None \<Rightarrow> w | Some s \<Rightarrow> w\<lparr>wk_sockets := map_set g (f s) (wk_sockets w)\<rparr>)"

definition close_socket :: "physical_socket \<Rightarrow> physical_socket" where
  "close_socket s = (if ps_ready s = SockClosed then s else s\<lparr>ps_ready := SockClosing\<rparr>)"

definition teardownSocket :: "socket_service \<Rightarrow> socket_service" where
  "teardownSocket w = (case wk_ws w of
       None \<Rightarrow> w
     | Some g \<Rightarrow> (set_socket g (\<lambda>s. close_socket (s\<lparr>ps_wired := False\<rparr>)) w)\<lparr>wk_ws := None\<rparr>)"

definition clearReconnectTimer :: "socket_service \<Rightarrow> socket_service" where
  "clearReconnectTimer w = (case wk_reconnectTimer w of
       None \<Rightarrow> w
     | Some t \<Rightarrow> w\<lparr>wk_armed := removeAll t (wk_armed w), wk_reconnectTimer := None\<rparr>)"

definition rejectPendingConnect :: "string \<Rightarrow> socket_service \<Rightarrow> socket_service" where
  "rejectPendingConnect err w =
     (if wk_connectPromise w = None then w
      else
        let w1 = w\<lparr>wk_connectPromise := None, wk_rejectConnect := None\<rparr>
        in case wk_rejectConnect w of None \<Rightarrow> w1 | Some p \<Rightarrow> settle p (Failed err) w1)"

definition drop_connect :: "socket_service \<Rightarrow> socket_service" where
  "drop_connect w = w\<lparr>wk_connectPromise := None, wk_rejectConnect := None\<rparr>"

text \<open>\<open>openSocketPromise\<close>; the promise its caller stores is returned to it even when the constructor throws.\<close>

definition openSocketPromise :: "string option \<Rightarrow> nat \<Rightarrow> socket_service \<Rightarrow> socket_service" where
  "openSocketPromise refused p w =
     (let g = Suc (wk_generation w);
          w1 = w\<lparr>wk_rejectConnect := Some p, wk_generation := g\<rparr>
      in case refused of
           None \<Rightarrow> tell_wk (SocketOpened g (wk_url w1)) (w1\<lparr>wk_ws := Some g,
               wk_sockets := map_set g \<lparr>ps_ready = SockConnecting, ps_wired = True, ps_promise = p, ps_handshaking = False\<rparr>
                 (wk_sockets w1)\<rparr>)
         | Some err \<Rightarrow> settle p (Failed err) (setState WsDisconnected (drop_connect w1)))"

record dial =
  dl_needsUrl :: bool
  dl_refused :: "string option"

definition connect :: "dial \<Rightarrow> socket_service \<Rightarrow> socket_service" where
  "connect d w =
     (if wk_disposed w then settled_promise (Failed ''WebSocketService disposed'') w
      else if wk_userClosed w then settled_promise (Failed ''WebSocketService is closed'') w
      else if wk_connectPromise w \<noteq> None then w
      else if wk_state w = WsConnected
        \<and> (case wk_ws w of None \<Rightarrow> False | Some g \<Rightarrow> map_option ps_ready (map_get (wk_sockets w) g) = Some SockOpen)
      then settled_promise Fulfilled w
      else
        let w1 = setState WsConnecting w; attempt = wk_reconnectAttempt w1; (p, w2) = new_promise w1
        in if wo_resolveUrl (wk_options w2) \<and> dl_needsUrl d
           then tell_wk (UrlAsked p attempt) (w2\<lparr>wk_resolving := map_set p attempt (wk_resolving w2), wk_connectPromise := Some p\<rparr>)
           else (openSocketPromise (dl_refused d) p w2)\<lparr>wk_connectPromise := Some p\<rparr>)"

definition reconnectNow :: "dial \<Rightarrow> socket_service \<Rightarrow> socket_service" where
  "reconnectNow d w = connect d (if wk_state w \<noteq> WsConnected then clearReconnectTimer w else w)"

text \<open>Losses.\<close>

definition maxAttempts :: "socket_service \<Rightarrow> nat" where
  "maxAttempts w = the_default DEFAULT_MAX_RECONNECT_ATTEMPTS (wo_maxReconnectAttempts (wk_options w))"

definition arm_reconnect :: "int \<Rightarrow> socket_service \<Rightarrow> socket_service" where
  "arm_reconnect delay w =
     (let t = wk_timers w
      in tell_wk (ReconnectArmed t delay) (w\<lparr>wk_timers := Suc t, wk_armed := t # wk_armed w, wk_reconnectTimer := Some t\<rparr>))"

definition handleSocketLoss :: "socket_service \<Rightarrow> socket_service" where
  "handleSocketLoss w =
     (if wk_disposed w \<or> wk_userClosed w then w
      else
        let w1 = failPending ''Connection lost'' w;
            spent = (maxAttempts w1 \<le> wk_reconnectAttempt w1);
            persistent = wo_persistentReconnect (wk_options w1)
        in if spent \<and> \<not> persistent then rejectWaiters ''Connection lost'' (setState WsDisconnected w1)
           else
             let w2 = (if spent \<and> \<not> wk_reportedRouteExhaustion w1
                       then setState WsDisconnected (w1\<lparr>wk_reportedRouteExhaustion := True\<rparr>) else w1);
                 w3 = (if \<not> spent then setState WsReconnecting (w2\<lparr>wk_reconnectAttempt := wk_reconnectAttempt w2 + 1\<rparr>) else w2);
                 base = the_default DEFAULT_RECONNECT_BASE_DELAY (wo_reconnectBaseDelay (wk_options w3))
             in arm_reconnect (if spent then PERSISTENT_RECONNECT_DELAY_MS else reconnectDelayMs (wk_reconnectAttempt w3 - 1) base) w3)"

definition failConnection :: "socket_service \<Rightarrow> socket_service" where
  "failConnection w = rejectWaiters ''Connection lost'' (setState WsDisconnected (failPending ''Connection lost'' w))"

definition reconnectTimerFires :: "nat \<Rightarrow> dial \<Rightarrow> socket_service \<Rightarrow> socket_service" where
  "reconnectTimerFires t d w =
     (if t \<notin> set (wk_armed w) then w
      else
        let w1 = w\<lparr>wk_armed := removeAll t (wk_armed w), wk_reconnectTimer := None\<rparr>
        in if \<not> wk_disposed w1 \<and> \<not> wk_userClosed w1 then connect d w1 else w1)"

text \<open>The renewed URL settles (\<open>connectWithResolvedUrl\<close> after its \<open>await\<close>); an error is its message.\<close>

definition urlSettled :: "nat \<Rightarrow> string + string option \<Rightarrow> string option \<Rightarrow> socket_service \<Rightarrow> socket_service" where
  "urlSettled q result refused w = (case map_get (wk_resolving w) q of
       None \<Rightarrow> w
     | Some attempt \<Rightarrow>
         let w0 = w\<lparr>wk_resolving := map_delete q (wk_resolving w)\<rparr>;
             result' = (if wk_disposed w0 then Inl ''WebSocketService disposed''
                        else if wk_userClosed w0 then Inl ''WebSocketService is closed'' else result)
         in case (case result of Inl err \<Rightarrow> Inl err | Inr next \<Rightarrow> result') of
              Inl err \<Rightarrow>
                let w1 = drop_connect w0;
                    w2 = (if wk_disposed w1 \<or> wk_userClosed w1 then w1
                          else if attempt = 0 then setState WsDisconnected (rejectWaiters err (failPending err w1))
                          else handleSocketLoss w1)
                in settle q (Failed err) w2
            | Inr next \<Rightarrow>
                let w1 = (case next of None \<Rightarrow> w0 | Some url \<Rightarrow> if url = [] then w0 else w0\<lparr>wk_url := url\<rparr>)
                in (openSocketPromise refused q w1)\<lparr>wk_connectPromise := Some q\<rparr>)"

section \<open>What a socket does\<close>

definition established :: "nat \<Rightarrow> socket_service \<Rightarrow> socket_service" where
  "established p w =
     settle p Fulfilled (setState WsConnected (drop_connect (w\<lparr>wk_reconnectAttempt := 0, wk_reportedRouteExhaustion := False\<rparr>)))"

text \<open>The handlers of a socket that was torn down are gone, and a closed one has no more events.\<close>

definition wired :: "nat \<Rightarrow> socket_service \<Rightarrow> physical_socket option" where
  "wired g w = (case map_get (wk_sockets w) g of None \<Rightarrow> None | Some s \<Rightarrow> if ps_wired s \<and> ps_ready s \<noteq> SockClosed then Some s else None)"

definition onopen :: "nat \<Rightarrow> socket_service \<Rightarrow> socket_service" where
  "onopen g w = (case wired g w of
       None \<Rightarrow> w
     | Some s \<Rightarrow>
         if ps_ready s \<noteq> SockConnecting then w
         else if wk_generation w \<noteq> g then set_socket g close_socket w
         else
           let w1 = set_socket g (\<lambda>s. s\<lparr>ps_ready := SockOpen\<rparr>) w
           in if \<not> wo_handshake (wk_options w1) then established (ps_promise s) w1
              else tell_wk (HandshakeStarted g) (set_socket g (\<lambda>s. s\<lparr>ps_handshaking := True\<rparr>) w1))"

definition live_socket :: "nat \<Rightarrow> socket_service \<Rightarrow> bool" where
  "live_socket g w \<longleftrightarrow> wk_ws w = Some g \<and> map_option ps_ready (map_get (wk_sockets w) g) = Some SockOpen"

definition handshakeDone :: "nat \<Rightarrow> socket_service \<Rightarrow> socket_service" where
  "handshakeDone g w = (case map_get (wk_sockets w) g of
       None \<Rightarrow> w
     | Some s \<Rightarrow>
         if \<not> ps_handshaking s then w
         else
           let w1 = set_socket g (\<lambda>s. s\<lparr>ps_handshaking := False\<rparr>) w
           in if wk_generation w1 \<noteq> g \<or> \<not> live_socket g w1 then w1 else established (ps_promise s) w1)"

definition dispose_service :: "socket_service \<Rightarrow> socket_service" where
  "dispose_service w =
     (if wk_disposed w then w
      else
        let w1 = teardownSocket (clearReconnectTimer (w\<lparr>wk_disposed := True, wk_userClosed := True\<rparr>));
            w2 = rejectWaiters ''WebSocketService disposed'' (router_dispose (rejectPendingConnect ''WebSocketService disposed'' w1));
            w3 = setState WsDisconnected w2
        in (fold (\<lambda>name. tell_wk (PluginTornDown name)) (wk_plugins w3) w3)\<lparr>wk_plugins := [], wk_stateListeners := []\<rparr>)"

text \<open>A refusal is told to the owner, who may dispose of the service at once (\<open>disposes\<close>).\<close>

definition handshakeFailed :: "nat \<Rightarrow> string \<Rightarrow> bool \<Rightarrow> socket_service \<Rightarrow> socket_service" where
  "handshakeFailed g err disposes w = (case map_get (wk_sockets w) g of
       None \<Rightarrow> w
     | Some s \<Rightarrow>
         if \<not> ps_handshaking s then w
         else
           let w1 = set_socket g (\<lambda>s. s\<lparr>ps_handshaking := False\<rparr>) w
           in if wk_generation w1 \<noteq> g then w1
              else
                let w2 = settle (ps_promise s) (Failed err) (drop_connect w1)
                in if \<not> live_socket g w2 then w2
                   else
                     let w3 = (if disposes then dispose_service else (\<lambda>v. v)) (tell_wk (HandshakeRefused err) w2)
                     in if live_socket g w3 then failConnection (teardownSocket w3) else w3)"

definition handshakeSends :: "string \<Rightarrow> string \<Rightarrow> string \<Rightarrow> socket_service \<Rightarrow> socket_service" where
  "handshakeSends random type payload w =
     (let (mid, w1) = generateMessageId random w
      in if wk_routerDisposed w1 then w1 else snd (sendRaw mid type payload w1))"

definition handshakeRequests :: "string \<Rightarrow> string \<Rightarrow> string \<Rightarrow> socket_service \<Rightarrow> socket_service" where
  "handshakeRequests random type payload w = (let (p, w1) = new_promise w in router_request p random type payload w1)"

text \<open>A frame; \<open>Malformed\<close> is text the JSON parser refuses.\<close>

datatype frame = Malformed string | TextFrame socket_message | BinaryFrame string

definition onmessage :: "nat \<Rightarrow> frame \<Rightarrow> socket_service \<Rightarrow> socket_service" where
  "onmessage g f w =
     (if wired g w = None \<or> wk_generation w \<noteq> g then w
      else case f of
        Malformed err \<Rightarrow> tell_wk (ErrorTold err) w
      | TextFrame m \<Rightarrow> handleIncoming m w
      | BinaryFrame data \<Rightarrow> handleBinary data w)"

definition onerror :: "nat \<Rightarrow> socket_service \<Rightarrow> socket_service" where
  "onerror g w = (case wired g w of
       None \<Rightarrow> w
     | Some s \<Rightarrow>
         if wk_generation w \<noteq> g then w
         else if wk_connectPromise w = None then tell_wk (ErrorTold ''WebSocket connection failed'') w
         else
           let w1 = settle (ps_promise s) (Failed ''WebSocket connection failed'') (drop_connect w);
               retrying = (0 < wk_reconnectAttempt w1);
               w2 = teardownSocket w1
           in if retrying then handleSocketLoss w2
              else setState WsDisconnected (rejectWaiters ''WebSocket connection failed''
                     (failPending ''WebSocket connection failed'' w2)))"

definition onclose :: "nat \<Rightarrow> socket_service \<Rightarrow> socket_service" where
  "onclose g w =
     (let w0 = set_socket g (\<lambda>s. s\<lparr>ps_ready := SockClosed\<rparr>) w
      in case wired g w of
           None \<Rightarrow> w0
         | Some s \<Rightarrow>
             if wk_generation w0 \<noteq> g \<or> wk_userClosed w0 then w0
             else handleSocketLoss
                    (if wk_connectPromise w0 = None then w0 else settle (ps_promise s) (Failed ''Connection lost'') (drop_connect w0)))"

section \<open>Calls of the owner\<close>

definition disconnect :: "socket_service \<Rightarrow> socket_service" where
  "disconnect w =
     (let w1 = teardownSocket (clearReconnectTimer (w\<lparr>wk_userClosed := True\<rparr>));
          w2 = rejectPendingConnect ''WebSocketService is closed'' w1
      in setState WsDisconnected (rejectWaiters ''Connection lost'' (failPending ''Connection lost'' w2)))"

definition reportUnresponsive :: "nat option \<Rightarrow> socket_service \<Rightarrow> socket_service" where
  "reportUnresponsive expected w =
     (if wk_disposed w \<or> wk_userClosed w \<or> wk_state w \<noteq> WsConnected
        \<or> (expected \<noteq> None \<and> expected \<noteq> Some (wk_generation w)) then w
      else handleSocketLoss (teardownSocket w))"

definition unregister :: "string \<Rightarrow> socket_service \<Rightarrow> socket_service" where
  "unregister name w =
     (if name \<in> set (wk_plugins w)
      then tell_wk (PluginTornDown name) (w\<lparr>wk_plugins := removeAll name (wk_plugins w)\<rparr>) else w)"

definition use :: "string \<Rightarrow> socket_service \<Rightarrow> socket_service" where
  "use name w = (let w1 = tell_wk (PluginInstalled name) (unregister name w) in w1\<lparr>wk_plugins := wk_plugins w1 @ [name]\<rparr>)"

datatype service_event =
    Connect dial
  | ReconnectNow dial
  | Disconnect
  | DisposeService
  | ReportUnresponsive "nat option"
  | UsePlugin string
  | UnregisterPlugin string
  | Send string string string
  | Request string int int string string
  | Wait
  | Subscribe string nat
  | Unsubscribe nat string nat
  | OnBinary nat
  | OffBinary nat
  | OnState nat
  | OffState nat
  | SocketOpen nat
  | SocketClosing nat
  | SocketClosed nat
  | SocketError nat
  | FrameReceived nat frame
  | HandshakeDone nat
  | HandshakeFailed nat string bool
  | HandshakeSends string string string
  | HandshakeRequests string string string
  | UrlSettled nat "string + string option" "string option"
  | ReconnectTimer nat dial
  | RequestTimer string
  | WaiterTimer nat
  | RequestContinues string int

fun service_step :: "socket_service \<Rightarrow> service_event \<Rightarrow> socket_service" where
  "service_step w (Connect d) = connect d w"
| "service_step w (ReconnectNow d) = reconnectNow d w"
| "service_step w Disconnect = disconnect w"
| "service_step w DisposeService = dispose_service w"
| "service_step w (ReportUnresponsive expected) = reportUnresponsive expected w"
| "service_step w (UsePlugin name) = use name w"
| "service_step w (UnregisterPlugin name) = unregister name w"
| "service_step w (Send random type payload) = snd (sendTracked random type payload w)"
| "service_step w (Request random now timeoutMs type payload) = request random now timeoutMs type payload w"
| "service_step w Wait = waitForConnection w"
| "service_step w (Subscribe type h) = snd (subscribe type h w)"
| "service_step w (Unsubscribe n type h) = unsubscribe n type h w"
| "service_step w (OnBinary h) = w\<lparr>wk_binaryHandlers := set_add h (wk_binaryHandlers w)\<rparr>"
| "service_step w (OffBinary h) = w\<lparr>wk_binaryHandlers := removeAll h (wk_binaryHandlers w)\<rparr>"
| "service_step w (OnState l) = w\<lparr>wk_stateListeners := set_add l (wk_stateListeners w)\<rparr>"
| "service_step w (OffState l) = w\<lparr>wk_stateListeners := removeAll l (wk_stateListeners w)\<rparr>"
| "service_step w (SocketOpen g) = onopen g w"
| "service_step w (SocketClosing g) = set_socket g close_socket w"
| "service_step w (SocketClosed g) = onclose g w"
| "service_step w (SocketError g) = onerror g w"
| "service_step w (FrameReceived g f) = onmessage g f w"
| "service_step w (HandshakeDone g) = handshakeDone g w"
| "service_step w (HandshakeFailed g err disposes) = handshakeFailed g err disposes w"
| "service_step w (HandshakeSends random type payload) = handshakeSends random type payload w"
| "service_step w (HandshakeRequests random type payload) = handshakeRequests random type payload w"
| "service_step w (UrlSettled q result refused) = urlSettled q result refused w"
| "service_step w (ReconnectTimer t d) = reconnectTimerFires t d w"
| "service_step w (RequestTimer mid) = requestTimeout mid w"
| "service_step w (WaiterTimer p) = waiterTimeout p w"
| "service_step w (RequestContinues random now) = request_continues random now w"

end
