(* ===== verification/Socket_Frames.thy ===== *)
theory Socket_Frames
  imports Socket_Service
begin

text \<open>
  Which fields of the WebSocket transport each of its parts leaves alone, what the loops over requests and
  waiters do to the open promises, and that no promise is settled twice.
\<close>

section \<open>Frames\<close>

text \<open>What settling, telling and the loops over them leave alone.\<close>

definition rest :: "socket_service \<Rightarrow> socket_service" where
  "rest w = w\<lparr>wk_open := [], wk_told := []\<rparr>"

lemma rest_tell [simp]: "rest (tell_wk c w) = rest w" by (simp add: rest_def tell_wk_def)
lemma rest_settle [simp]: "rest (settle p r w) = rest w" by (simp add: rest_def settle_def tell_wk_def)

lemma rest_fold: "(\<And>x w. rest (f x w) = rest w) \<Longrightarrow> rest (fold f xs w) = rest w"
  by (induction xs arbitrary: w) simp_all

lemma rest_eq: "rest v = rest w \<Longrightarrow> \<exists>opn told. v = w\<lparr>wk_open := opn, wk_told := told\<rparr>"
  by (rule exI [of _ "wk_open v"], rule exI [of _ "wk_told v"], cases v; cases w) (simp add: rest_def)

lemma rest_fields:
  assumes "rest v = rest w"
  shows "wk_options v = wk_options w" "wk_url v = wk_url w" "wk_ws v = wk_ws w" "wk_sockets v = wk_sockets w"
    "wk_generation v = wk_generation w" "wk_reconnectAttempt v = wk_reconnectAttempt w"
    "wk_reportedRouteExhaustion v = wk_reportedRouteExhaustion w" "wk_state v = wk_state w"
    "wk_reconnectTimer v = wk_reconnectTimer w" "wk_armed v = wk_armed w" "wk_timers v = wk_timers w"
    "wk_connectPromise v = wk_connectPromise w" "wk_rejectConnect v = wk_rejectConnect w" "wk_userClosed v = wk_userClosed w"
    "wk_disposed v = wk_disposed w" "wk_stateListeners v = wk_stateListeners w" "wk_waiters v = wk_waiters w"
    "wk_continuations v = wk_continuations w" "wk_resolving v = wk_resolving w" "wk_idCounter v = wk_idCounter w"
    "wk_plugins v = wk_plugins w" "wk_handlers v = wk_handlers w" "wk_handlerSets v = wk_handlerSets w"
    "wk_binaryHandlers v = wk_binaryHandlers w" "wk_pending v = wk_pending w" "wk_routerDisposed v = wk_routerDisposed w"
    "wk_promises v = wk_promises w"
  using rest_eq [OF assms] by auto

lemmas settle_fields [simp] = rest_fields [OF rest_settle]
lemmas tell_fields [simp] = rest_fields [OF rest_tell]

lemma rest_pending: "rest (failPending err w) = (rest w)\<lparr>wk_pending := []\<rparr>"
proof -
  have "rest (fold (\<lambda>(mid, p, type). settle p (Failed err)) ps v) = rest v" for ps v by (rule rest_fold) (simp add: split_def)
  from rest_eq [OF this, of "wk_pending w" w] show ?thesis by (auto simp: failPending_def rest_def)
qed

lemma rest_waiters: "rest (rejectWaiters err w) = (rest w)\<lparr>wk_waiters := []\<rparr>"
proof -
  have "rest (fold (\<lambda>wt. settle (wt_promise wt) (Failed err)) ws v) = rest v" for ws v by (rule rest_fold) simp
  then have "rest (rejectWaiters err w) = rest (w\<lparr>wk_waiters := []\<rparr>)" unfolding rejectWaiters_def .
  then show ?thesis by (simp add: rest_def)
qed

lemma rest_incoming: "rest (handleIncoming m w) = (rest w)\<lparr>wk_pending := map_delete (sm_id m) (wk_pending w)\<rparr>"
proof (cases "map_get (wk_pending w) (sm_id m)")
  case None
  have told: "rest (fold (\<lambda>h. tell_wk (Delivered h d)) hs v) = rest v" for hs v d by (rule rest_fold) simp
  have "map_delete (sm_id m) (wk_pending w) = wk_pending w" using None by (simp add: delete_id map_of_eq_None_iff)
  then show ?thesis using None by (simp add: handleIncoming_def told split: option.split) (simp add: rest_def)
qed (auto simp: handleIncoming_def rest_def)

text \<open>The fields behind each composed update; the rest follows by \<open>simp\<close>.\<close>

lemma rest_waiter: "rest (resolve_waiter wt w) = (rest w)\<lparr>wk_continuations := wk_continuations (resolve_waiter wt w)\<rparr>"
  by (simp add: resolve_waiter_def split: option.split) (simp add: rest_def)

definition calm :: "socket_service \<Rightarrow> socket_service" where
  "calm w = w\<lparr>wk_open := [], wk_told := [], wk_waiters := [], wk_continuations := [], wk_state := WsDisconnected, wk_pending := []\<rparr>"

lemma calm_rest: "rest v = rest w \<Longrightarrow> calm v = calm w"
  using rest_eq [of v w] by (auto simp: calm_def)

lemma calm_fold: "(\<And>x w. calm (f x w) = calm w) \<Longrightarrow> calm (fold f xs w) = calm w"
  by (induction xs arbitrary: w) simp_all

lemma calm_eq: "calm v = calm w \<Longrightarrow>
  v = w\<lparr>wk_open := wk_open v, wk_told := wk_told v, wk_waiters := wk_waiters v, wk_continuations := wk_continuations v,
    wk_state := wk_state v, wk_pending := wk_pending v\<rparr>"
  by (cases v; cases w) (simp add: calm_def)

lemma calm_updates [simp]:
  "calm (w\<lparr>wk_open := a\<rparr>) = calm w" "calm (w\<lparr>wk_told := b\<rparr>) = calm w" "calm (w\<lparr>wk_waiters := c\<rparr>) = calm w"
  "calm (w\<lparr>wk_continuations := d\<rparr>) = calm w" "calm (w\<lparr>wk_state := e\<rparr>) = calm w" "calm (w\<lparr>wk_pending := f\<rparr>) = calm w"
  by (simp_all add: calm_def)

lemma calm_settle [simp]: "calm (settle p r w) = calm w" "calm (tell_wk c w) = calm w"
  by (simp_all add: settle_def tell_wk_def)

lemma calm_tells: "calm (fold (\<lambda>l. tell_wk (c l)) ls v) = calm v"
  by (rule calm_fold) simp

lemma calm_ops [simp]:
  "calm (failPending err w) = calm w" "calm (rejectWaiters err w) = calm w" "calm (resolve_waiter wt w) = calm w"
  "calm (setState next w) = calm w" "calm (handleIncoming m w) = calm w" "calm (handleBinary data w) = calm w"
proof -
  have folds: "calm (fold (\<lambda>(mid, p, type). settle p (Failed err)) ps v) = calm v"
    "calm (fold (\<lambda>wt. settle (wt_promise wt) (Failed err)) ws v) = calm v" for ps v and ws :: "connection_waiter list"
    by (rule calm_fold; simp add: split_def)+
  show waiter: "calm (resolve_waiter wt w) = calm w" for wt w by (simp add: resolve_waiter_def split: option.split)
  have "calm (fold resolve_waiter ws v) = calm v" for ws v by (rule calm_fold) (rule waiter)
  then show "calm (failPending err w) = calm w" "calm (rejectWaiters err w) = calm w" "calm (setState next w) = calm w"
    "calm (handleIncoming m w) = calm w" "calm (handleBinary data w) = calm w"
    using folds
    by (simp_all add: calm_tells failPending_def rejectWaiters_def setState_def handleIncoming_def handleBinary_def Let_def split: option.split)
qed

lemma calm_fields:
  assumes "calm v = calm w"
  shows "wk_options v = wk_options w" "wk_url v = wk_url w" "wk_ws v = wk_ws w" "wk_sockets v = wk_sockets w"
    "wk_generation v = wk_generation w" "wk_reconnectAttempt v = wk_reconnectAttempt w"
    "wk_reportedRouteExhaustion v = wk_reportedRouteExhaustion w"
    "wk_reconnectTimer v = wk_reconnectTimer w" "wk_armed v = wk_armed w" "wk_timers v = wk_timers w"
    "wk_connectPromise v = wk_connectPromise w" "wk_rejectConnect v = wk_rejectConnect w" "wk_userClosed v = wk_userClosed w"
    "wk_disposed v = wk_disposed w" "wk_stateListeners v = wk_stateListeners w" "wk_resolving v = wk_resolving w"
    "wk_idCounter v = wk_idCounter w" "wk_plugins v = wk_plugins w" "wk_routerDisposed v = wk_routerDisposed w"
    "wk_promises v = wk_promises w"
  by (subst calm_eq [OF assms], simp)+

lemmas pending_fields [simp] = calm_fields [OF calm_ops(1)]
lemmas waiters_fields [simp] = calm_fields [OF calm_ops(2)]
lemmas state_fields [simp] = calm_fields [OF calm_ops(4)]
lemmas incoming_fields [simp] = calm_fields [OF calm_ops(5)]
lemmas binary_fields [simp] = calm_fields [OF calm_ops(6)]

lemma setState_state [simp]: "wk_state (setState next w) = next"
proof -
  have told: "wk_state (fold (\<lambda>l. tell_wk (c l)) ls v) = wk_state v" for c ls v by (induction ls arbitrary: v) simp_all
  have "wk_state (resolve_waiter wt v) = wk_state v" for wt v by (simp add: resolve_waiter_def split: option.split)
  then have "wk_state (fold resolve_waiter ws v) = wk_state v" for ws v by (induction ws arbitrary: v) simp_all
  then show ?thesis by (simp add: setState_def Let_def told)
qed

lemma state_kept [simp]: "wk_state (failPending err w) = wk_state w" "wk_state (rejectWaiters err w) = wk_state w"
  "wk_state (handleIncoming m w) = wk_state w" "wk_state (handleBinary data w) = wk_state w"
proof -
  have "rest (handleBinary data w) = rest w" unfolding handleBinary_def by (rule rest_fold) simp
  then show "wk_state (handleBinary data w) = wk_state w" by (rule rest_fields)
  have "wk_state (rest v) = wk_state v" for v by (simp add: rest_def)
  from this [of "failPending err w"] this [of "rejectWaiters err w"] this [of "handleIncoming m w"] this [of w]
  show "wk_state (failPending err w) = wk_state w" "wk_state (rejectWaiters err w) = wk_state w" "wk_state (handleIncoming m w) = wk_state w"
    by (simp_all add: rest_pending rest_waiters rest_incoming)
qed

section \<open>Promises are settled once\<close>

fun settled_by :: "service_call \<Rightarrow> nat list" where
  "settled_by (Settled p r) = [p]"
| "settled_by _ = []"

definition settled_list :: "service_call list \<Rightarrow> nat list" where
  "settled_list told = concat (map settled_by told)"

lemma settled_list_append [simp]: "settled_list (told @ new) = settled_list told @ settled_list new"
  by (simp add: settled_list_def)

lemma settled_list_one [simp]: "settled_list [c] = settled_by c" "settled_list [] = []"
  by (simp_all add: settled_list_def)

lemma settled_by_other [simp]: "(\<And>p r. c \<noteq> Settled p r) \<Longrightarrow> settled_by c = []"
  by (cases c) auto

definition promise_inv :: "socket_service \<Rightarrow> bool" where
  "promise_inv w \<longleftrightarrow> distinct (wk_open w @ settled_list (wk_told w))
     \<and> set (wk_open w @ settled_list (wk_told w)) = {..<wk_promises w}"

lemma promise_inv_cong:
  "wk_open v = wk_open w \<Longrightarrow> wk_told v = wk_told w \<Longrightarrow> wk_promises v = wk_promises w \<Longrightarrow> promise_inv v = promise_inv w"
  by (simp add: promise_inv_def)

lemma promise_inv_updates [simp]:
  "promise_inv (w\<lparr>wk_url := a1\<rparr>) = promise_inv w" "promise_inv (w\<lparr>wk_ws := a2\<rparr>) = promise_inv w"
  "promise_inv (w\<lparr>wk_sockets := a3\<rparr>) = promise_inv w" "promise_inv (w\<lparr>wk_generation := a4\<rparr>) = promise_inv w"
  "promise_inv (w\<lparr>wk_reconnectAttempt := a5\<rparr>) = promise_inv w" "promise_inv (w\<lparr>wk_reportedRouteExhaustion := a6\<rparr>) = promise_inv w"
  "promise_inv (w\<lparr>wk_state := a7\<rparr>) = promise_inv w" "promise_inv (w\<lparr>wk_reconnectTimer := a8\<rparr>) = promise_inv w"
  "promise_inv (w\<lparr>wk_armed := a9\<rparr>) = promise_inv w" "promise_inv (w\<lparr>wk_timers := a10\<rparr>) = promise_inv w"
  "promise_inv (w\<lparr>wk_connectPromise := a11\<rparr>) = promise_inv w" "promise_inv (w\<lparr>wk_rejectConnect := a12\<rparr>) = promise_inv w"
  "promise_inv (w\<lparr>wk_userClosed := a13\<rparr>) = promise_inv w" "promise_inv (w\<lparr>wk_disposed := a14\<rparr>) = promise_inv w"
  "promise_inv (w\<lparr>wk_stateListeners := a15\<rparr>) = promise_inv w" "promise_inv (w\<lparr>wk_waiters := a16\<rparr>) = promise_inv w"
  "promise_inv (w\<lparr>wk_continuations := a17\<rparr>) = promise_inv w" "promise_inv (w\<lparr>wk_resolving := a18\<rparr>) = promise_inv w"
  "promise_inv (w\<lparr>wk_idCounter := a19\<rparr>) = promise_inv w" "promise_inv (w\<lparr>wk_plugins := a20\<rparr>) = promise_inv w"
  "promise_inv (w\<lparr>wk_handlers := a21\<rparr>) = promise_inv w" "promise_inv (w\<lparr>wk_handlerSets := a22\<rparr>) = promise_inv w"
  "promise_inv (w\<lparr>wk_binaryHandlers := a23\<rparr>) = promise_inv w" "promise_inv (w\<lparr>wk_pending := a24\<rparr>) = promise_inv w"
  "promise_inv (w\<lparr>wk_routerDisposed := a25\<rparr>) = promise_inv w"
  by (rule promise_inv_cong; simp)+

lemma promise_inv_tell [simp]: "(\<And>p r. c \<noteq> Settled p r) \<Longrightarrow> promise_inv (tell_wk c w) = promise_inv w"
  by (simp add: promise_inv_def tell_wk_def)

lemma promise_inv_settle [simp]: "promise_inv w \<Longrightarrow> promise_inv (settle p r w)"
  by (auto simp: promise_inv_def settle_def tell_wk_def distinct_removeAll)

lemma promise_inv_new [simp]: "promise_inv w \<Longrightarrow> promise_inv (snd (new_promise w))"
  by (auto simp: promise_inv_def new_promise_def)

lemma promise_inv_fold: "(\<And>x w. promise_inv w \<Longrightarrow> promise_inv (f x w)) \<Longrightarrow> promise_inv w \<Longrightarrow> promise_inv (fold f xs w)"
  by (induction xs arbitrary: w) simp_all

lemma promise_inv_tells: "(\<And>x p r. c x \<noteq> Settled p r) \<Longrightarrow> promise_inv w \<Longrightarrow> promise_inv (fold (\<lambda>x. tell_wk (c x)) xs w)"
  by (rule promise_inv_fold) simp_all

lemma promise_inv_parts [simp]:
  assumes "promise_inv w"
  shows "promise_inv (failPending err w)" "promise_inv (rejectWaiters err w)" "promise_inv (resolve_waiter wt w)"
    "promise_inv (setState next w)" "promise_inv (handleIncoming m w)" "promise_inv (handleBinary data w)"
    "promise_inv (set_socket g f w)" "promise_inv (teardownSocket w)" "promise_inv (clearReconnectTimer w)"
    "promise_inv (rejectPendingConnect err w)" "promise_inv (drop_connect w)" "promise_inv (snd (sendRaw mid type payload w))"
    "promise_inv (settled_promise r w)" "promise_inv (waitFor req w)"
proof -
  have settles: "promise_inv (fold (\<lambda>(mid, p, type). settle p (Failed err)) ps v)"
    "promise_inv (fold (\<lambda>wt. settle (wt_promise wt) (Failed err)) ws v)" if "promise_inv v" for ps v and ws :: "connection_waiter list"
    using that by (auto intro!: promise_inv_fold simp: split_def)
  have waiter: "promise_inv v \<Longrightarrow> promise_inv (resolve_waiter wt v)" for wt v by (simp add: resolve_waiter_def split: option.split)
  show "promise_inv (resolve_waiter wt w)" using assms by (rule waiter)
  show "promise_inv (failPending err w)" "promise_inv (rejectWaiters err w)"
    using assms settles by (simp_all add: failPending_def rejectWaiters_def)
  have "promise_inv v \<Longrightarrow> promise_inv (fold resolve_waiter ws v)" for ws v by (rule promise_inv_fold) (rule waiter)
  then show "promise_inv (setState next w)" using assms by (simp add: setState_def Let_def promise_inv_tells)
  show "promise_inv (handleIncoming m w)" "promise_inv (handleBinary data w)"
    using assms by (simp_all add: handleIncoming_def handleBinary_def promise_inv_tells split: option.split)
  have set: "promise_inv (set_socket g f w)" for g f using assms by (simp add: set_socket_def split: option.split)
  then show "promise_inv (set_socket g f w)" .
  show "promise_inv (teardownSocket w)" using set assms by (simp add: teardownSocket_def split: option.split)
  show "promise_inv (clearReconnectTimer w)" "promise_inv (rejectPendingConnect err w)" "promise_inv (drop_connect w)"
    "promise_inv (snd (sendRaw mid type payload w))" "promise_inv (settled_promise r w)" "promise_inv (waitFor req w)"
    using assms promise_inv_new [OF assms]
    by (simp_all add: clearReconnectTimer_def rejectPendingConnect_def drop_connect_def sendRaw_def settled_promise_def waitFor_def
        Let_def split_def split: option.split)
qed


lemma promise_inv_request [simp]: "promise_inv w \<Longrightarrow> promise_inv (router_request p random type payload w)"
  by (simp add: router_request_def generateMessageId_def sendRaw_def Let_def split: option.split)

lemma promise_inv_open [simp]: "promise_inv w \<Longrightarrow> promise_inv (openSocketPromise refused p w)"
  by (simp add: openSocketPromise_def Let_def split: option.split)

lemma promise_inv_connect [simp]: "promise_inv w \<Longrightarrow> promise_inv (connect d w)"
  using promise_inv_new [of "setState WsConnecting w"] by (simp add: connect_def Let_def split_def)

lemma promise_inv_loss [simp]: "promise_inv w \<Longrightarrow> promise_inv (handleSocketLoss w)"
  by (simp add: handleSocketLoss_def arm_reconnect_def Let_def)

lemma promise_inv_established [simp]: "promise_inv w \<Longrightarrow> promise_inv (established p w)"
  by (simp add: established_def)

lemma promise_inv_dispose [simp]: "promise_inv w \<Longrightarrow> promise_inv (dispose_service w)"
  by (simp add: dispose_service_def router_dispose_def promise_inv_tells Let_def)

lemma promise_inv_step: "promise_inv w \<Longrightarrow> promise_inv (service_step w e)"
proof (cases e)
  case (Request random now timeoutMs type payload)
  assume "promise_inv w"
  then show ?thesis using Request promise_inv_new [of w] by (simp add: request_def Let_def split_def)
next
  case (HandshakeRequests random type payload)
  assume "promise_inv w"
  then show ?thesis using HandshakeRequests promise_inv_new [of w] by (simp add: handshakeRequests_def Let_def split_def)
qed (simp_all add: reconnectNow_def disconnect_def reportUnresponsive_def use_def unregister_def sendTracked_def generateMessageId_def
    waitForConnection_def subscribe_def unsubscribe_def onopen_def onclose_def onerror_def onmessage_def handshakeDone_def
    handshakeFailed_def handshakeSends_def urlSettled_def failConnection_def reconnectTimerFires_def requestTimeout_def
    waiterTimeout_def request_continues_def Let_def split_def split: option.split sum.split frame.split list.split)


section \<open>What the loops over requests and waiters do\<close>

lemma pending_state [simp]: "wk_pending (setState next w) = wk_pending w"
proof -
  have "rest (fold (\<lambda>l. tell_wk (c l)) ls v) = rest v" for c ls v by (rule rest_fold) simp
  note told = rest_fields(25) [OF this]
  have "wk_pending (resolve_waiter wt v) = wk_pending v" for wt v by (simp add: resolve_waiter_def split: option.split)
  then have "wk_pending (fold resolve_waiter ws v) = wk_pending v" for ws v by (induction ws arbitrary: v) simp_all
  then show ?thesis by (simp add: setState_def Let_def told)
qed

lemma requests_kept [simp]:
  "wk_pending (rejectWaiters err w) = wk_pending w"
  "wk_pending (failPending err w) = []" "wk_waiters (failPending err w) = wk_waiters w"
  "wk_continuations (failPending err w) = wk_continuations w" "wk_waiters (rejectWaiters err w) = []"
  "wk_continuations (rejectWaiters err w) = wk_continuations w" "wk_waiters (handleIncoming m w) = wk_waiters w"
  "wk_continuations (handleIncoming m w) = wk_continuations w"
  "wk_pending (handleIncoming m w) = map_delete (sm_id m) (wk_pending w)"
proof -
  have "wk_pending (rest v) = wk_pending v" "wk_waiters (rest v) = wk_waiters v" "wk_continuations (rest v) = wk_continuations v" for v
    by (simp_all add: rest_def)
  note this [of "rejectWaiters err w", unfolded rest_waiters]
    this [of "failPending err w", unfolded rest_pending] this [of "handleIncoming m w", unfolded rest_incoming] this [of w]
  then show "wk_pending (rejectWaiters err w) = wk_pending w"
    "wk_pending (failPending err w) = []" "wk_waiters (failPending err w) = wk_waiters w"
    "wk_continuations (failPending err w) = wk_continuations w" "wk_waiters (rejectWaiters err w) = []"
    "wk_continuations (rejectWaiters err w) = wk_continuations w" "wk_waiters (handleIncoming m w) = wk_waiters w"
    "wk_continuations (handleIncoming m w) = wk_continuations w"
    "wk_pending (handleIncoming m w) = map_delete (sm_id m) (wk_pending w)" by simp_all
qed

lemma binary_kept [simp]: "rest (handleBinary data w) = rest w" "wk_open (handleBinary data w) = wk_open w"
proof -
  show "rest (handleBinary data w) = rest w" unfolding handleBinary_def by (rule rest_fold) simp
  have "wk_open (fold (\<lambda>h. tell_wk (BinaryDelivered h d)) hs v) = wk_open v" for hs v d by (induction hs arbitrary: v) (simp_all add: tell_wk_def)
  then show "wk_open (handleBinary data w) = wk_open w" by (simp add: handleBinary_def)
qed

lemmas binary_rest [simp] = rest_fields(17,18,25) [OF binary_kept(1)]

text \<open>The promises of the waiters that a connection fulfils at once, and of those that go on to send.\<close>

definition plain_waiters :: "connection_waiter list \<Rightarrow> nat set" where
  "plain_waiters ws = {p. \<lparr>wt_promise = p, wt_request = None\<rparr> \<in> set ws}"

definition sending_waiters :: "connection_waiter list \<Rightarrow> (nat \<times> waiting_request) list" where
  "sending_waiters ws = concat (map (\<lambda>wt. case wt_request wt of None \<Rightarrow> [] | Some q \<Rightarrow> [(wt_promise wt, q)]) ws)"

lemma waiter_sets [simp]:
  "plain_waiters [] = {}" "sending_waiters [] = []"
  "plain_waiters (wt # ws) = (if wt_request wt = None then {wt_promise wt} else {}) \<union> plain_waiters ws"
  "sending_waiters (wt # ws) = (case wt_request wt of None \<Rightarrow> [] | Some q \<Rightarrow> [(wt_promise wt, q)]) @ sending_waiters ws"
  by (cases wt; auto simp: plain_waiters_def sending_waiters_def)+

lemma waiter_promises: "wt_promise ` set ws = plain_waiters ws \<union> fst ` set (sending_waiters ws)"
  by (induction ws) (auto split: option.splits)

lemma open_settle [simp]: "set (wk_open (settle p r w)) = set (wk_open w) - {p}"
  by (simp add: settle_def tell_wk_def)

lemma open_tell [simp]: "wk_open (tell_wk c w) = wk_open w"
  by (simp add: tell_wk_def)

lemma open_parts [simp]:
  "set (wk_open (failPending err w)) = set (wk_open w) - (fst \<circ> snd) ` set (wk_pending w)"
  "set (wk_open (rejectWaiters err w)) = set (wk_open w) - wt_promise ` set (wk_waiters w)"
proof -
  have "set (wk_open (fold (\<lambda>(mid, p, type). settle p (Failed err)) ps v)) = set (wk_open v) - (fst \<circ> snd) ` set ps" for ps v
    by (induction ps arbitrary: v) (auto simp: split_def)
  then show "set (wk_open (failPending err w)) = set (wk_open w) - (fst \<circ> snd) ` set (wk_pending w)" by (simp add: failPending_def)
  have "set (wk_open (fold (\<lambda>wt. settle (wt_promise wt) (Failed err)) ws v)) = set (wk_open v) - wt_promise ` set ws"
    for v and ws :: "connection_waiter list"
    by (induction ws arbitrary: v) auto
  then show "set (wk_open (rejectWaiters err w)) = set (wk_open w) - wt_promise ` set (wk_waiters w)" by (simp add: rejectWaiters_def)
qed

definition connects :: "connection_state \<Rightarrow> socket_service \<Rightarrow> bool" where
  "connects next w \<longleftrightarrow> next = WsConnected \<and> wk_state w \<noteq> WsConnected"

lemma open_state [simp]:
  "set (wk_open (setState next w)) = set (wk_open w) - (if connects next w then plain_waiters (wk_waiters w) else {})"
  "wk_waiters (setState next w) = (if connects next w then [] else wk_waiters w)"
  "wk_continuations (setState next w) = wk_continuations w @ (if connects next w then sending_waiters (wk_waiters w) else [])"
proof -
  have told: "rest (fold (\<lambda>l. tell_wk (c l)) ls v) = rest v" for c ls v by (rule rest_fold) simp
  have told_open: "wk_open (fold (\<lambda>l. tell_wk (c l)) ls v) = wk_open v" for c ls v by (induction ls arbitrary: v) simp_all
  have waits: "set (wk_open (fold resolve_waiter ws v)) = set (wk_open v) - plain_waiters ws
      \<and> wk_continuations (fold resolve_waiter ws v) = wk_continuations v @ sending_waiters ws
      \<and> wk_waiters (fold resolve_waiter ws v) = wk_waiters v" for ws v
  proof (induction ws arbitrary: v)
    case (Cons wt ws)
    then show ?case by (auto simp: resolve_waiter_def split: option.splits)
  qed simp
  note fields = rest_fields(17,18) [OF told]
  show "set (wk_open (setState next w)) = set (wk_open w) - (if connects next w then plain_waiters (wk_waiters w) else {})"
    "wk_waiters (setState next w) = (if connects next w then [] else wk_waiters w)"
    "wk_continuations (setState next w) = wk_continuations w @ (if connects next w then sending_waiters (wk_waiters w) else [])"
    by (simp_all add: setState_def connects_def Let_def waits told_open fields)
qed

lemma open_incoming [simp]: "set (wk_open (handleIncoming m w)) =
  set (wk_open w) - (case map_get (wk_pending w) (sm_id m) of None \<Rightarrow> {} | Some (p, type) \<Rightarrow> {p})"
proof -
  have "wk_open (fold (\<lambda>h. tell_wk (Delivered h d)) hs v) = wk_open v" for hs v d by (induction hs arbitrary: v) simp_all
  then show ?thesis by (simp add: handleIncoming_def split: option.split)
qed

lemma sockets_set [simp]: "map_get (wk_sockets (set_socket g f w)) h =
    (if h = g then map_option f (map_get (wk_sockets w) g) else map_get (wk_sockets w) h)"
  by (simp add: set_socket_def update_conv' split: option.split)

lemma set_socket_shape: "\<exists>ss. set_socket g f w = w\<lparr>wk_sockets := ss\<rparr>"
  by (cases w) (auto simp: set_socket_def split: option.split)

definition unsocketed :: "socket_service \<Rightarrow> socket_service" where
  "unsocketed w = w\<lparr>wk_sockets := []\<rparr>"

lemma unsocketed_fields:
  assumes "unsocketed v = unsocketed w"
  shows "wk_options v = wk_options w" "wk_url v = wk_url w" "wk_ws v = wk_ws w"
    "wk_generation v = wk_generation w" "wk_reconnectAttempt v = wk_reconnectAttempt w"
    "wk_reportedRouteExhaustion v = wk_reportedRouteExhaustion w" "wk_state v = wk_state w"
    "wk_reconnectTimer v = wk_reconnectTimer w" "wk_armed v = wk_armed w" "wk_timers v = wk_timers w"
    "wk_connectPromise v = wk_connectPromise w" "wk_rejectConnect v = wk_rejectConnect w" "wk_userClosed v = wk_userClosed w"
    "wk_disposed v = wk_disposed w" "wk_stateListeners v = wk_stateListeners w" "wk_waiters v = wk_waiters w"
    "wk_continuations v = wk_continuations w" "wk_resolving v = wk_resolving w" "wk_idCounter v = wk_idCounter w"
    "wk_plugins v = wk_plugins w" "wk_handlers v = wk_handlers w" "wk_handlerSets v = wk_handlerSets w"
    "wk_binaryHandlers v = wk_binaryHandlers w" "wk_pending v = wk_pending w" "wk_routerDisposed v = wk_routerDisposed w"
    "wk_promises v = wk_promises w" "wk_open v = wk_open w" "wk_told v = wk_told w"
  using assms by (cases v; cases w; simp add: unsocketed_def)+

lemma unsocketed_set: "unsocketed (set_socket g f w) = unsocketed w"
  using set_socket_shape [of g f w] by (auto simp: unsocketed_def)

lemmas set_socket_fields [simp] = unsocketed_fields [OF unsocketed_set]

end
