(* ===== verification/Socket_Links.thy ===== *)
theory Socket_Links
  imports Socket_Frames
begin

text \<open>
  The connection attempt of the WebSocket transport and the socket it belongs to, in every state it can
  reach; stopping it; and which of its parts tell what.
\<close>

section \<open>The connection attempt and its socket\<close>

definition link_inv :: "socket_service \<Rightarrow> bool" where
  "link_inv w \<longleftrightarrow>
     (\<forall>p. wk_rejectConnect w = Some p \<longrightarrow> wk_connectPromise w = Some p
        \<and> map_option ps_promise (map_get (wk_sockets w) (wk_generation w)) = Some p)
     \<and> (\<forall>s. map_get (wk_sockets w) (wk_generation w) = Some s \<longrightarrow> ps_wired s \<longrightarrow> wk_ws w = Some (wk_generation w))
     \<and> (\<forall>g. map_get (wk_sockets w) g \<noteq> None \<longrightarrow> g \<le> wk_generation w)
     \<and> (wk_userClosed w \<longrightarrow> wk_connectPromise w = None \<and> wk_ws w = None)
     \<and> (wk_disposed w \<longrightarrow> wk_userClosed w)"

lemma link_inv_cong:
  assumes "wk_rejectConnect v = wk_rejectConnect w" "wk_connectPromise v = wk_connectPromise w" "wk_sockets v = wk_sockets w"
    "wk_generation v = wk_generation w" "wk_ws v = wk_ws w" "wk_userClosed v = wk_userClosed w" "wk_disposed v = wk_disposed w"
  shows "link_inv v = link_inv w"
  using assms by (simp add: link_inv_def)

lemma link_inv_parts [simp]:
  "link_inv (tell_wk c w) = link_inv w" "link_inv (settle p r w) = link_inv w" "link_inv (setState next w) = link_inv w"
  "link_inv (failPending err w) = link_inv w" "link_inv (rejectWaiters err w) = link_inv w"
  "link_inv (handleIncoming m w) = link_inv w" "link_inv (handleBinary data w) = link_inv w"
  "link_inv (w\<lparr>wk_waiters := a1\<rparr>) = link_inv w" "link_inv (w\<lparr>wk_continuations := a2\<rparr>) = link_inv w"
  "link_inv (w\<lparr>wk_pending := a3\<rparr>) = link_inv w" "link_inv (w\<lparr>wk_idCounter := a4\<rparr>) = link_inv w"
  "link_inv (w\<lparr>wk_plugins := a5\<rparr>) = link_inv w" "link_inv (w\<lparr>wk_handlers := a6\<rparr>) = link_inv w"
  "link_inv (w\<lparr>wk_handlerSets := a7\<rparr>) = link_inv w" "link_inv (w\<lparr>wk_binaryHandlers := a8\<rparr>) = link_inv w"
  "link_inv (w\<lparr>wk_stateListeners := a9\<rparr>) = link_inv w" "link_inv (w\<lparr>wk_resolving := a10\<rparr>) = link_inv w"
  "link_inv (w\<lparr>wk_url := a11\<rparr>) = link_inv w" "link_inv (w\<lparr>wk_reconnectAttempt := a12\<rparr>) = link_inv w"
  "link_inv (w\<lparr>wk_reportedRouteExhaustion := a13\<rparr>) = link_inv w" "link_inv (w\<lparr>wk_reconnectTimer := a14\<rparr>) = link_inv w"
  "link_inv (w\<lparr>wk_armed := a15\<rparr>) = link_inv w" "link_inv (w\<lparr>wk_timers := a16\<rparr>) = link_inv w"
  "link_inv (w\<lparr>wk_routerDisposed := a17\<rparr>) = link_inv w" "link_inv (snd (new_promise w)) = link_inv w"
  by (rule link_inv_cong; simp add: new_promise_def)+

lemma link_inv_set [simp]: "link_inv w \<Longrightarrow> \<forall>s. ps_promise (f s) = ps_promise s \<and> (ps_wired (f s) \<longrightarrow> ps_wired s) \<Longrightarrow>
    link_inv (set_socket g f w)"
  by (auto simp: link_inv_def)

lemma close_socket_simps [simp]: "ps_promise (close_socket s) = ps_promise s" "ps_wired (close_socket s) = ps_wired s"
  "ps_handshaking (close_socket s) = ps_handshaking s"
  by (simp_all add: close_socket_def)

lemma link_inv_ops [simp]:
  assumes "link_inv w"
  shows "link_inv (teardownSocket w)" "link_inv (drop_connect w)" "link_inv (rejectPendingConnect err w)"
    "link_inv (clearReconnectTimer w)" "link_inv (handleSocketLoss w)" "link_inv (established p w)" "link_inv (settled_promise r w)"
    "link_inv (waitFor req w)" "link_inv (snd (sendRaw mid type payload w))" "link_inv (router_request q random type payload w)"
    "link_inv (snd (generateMessageId random w))"
proof -
  show "link_inv (teardownSocket w)" using assms unfolding link_inv_def teardownSocket_def by (auto split: option.splits)
  show drop: "link_inv (drop_connect w)" using assms by (auto simp: link_inv_def drop_connect_def)
  show "link_inv (rejectPendingConnect err w)" using drop
    by (simp add: rejectPendingConnect_def drop_connect_def assms Let_def split: option.split)
  show "link_inv (clearReconnectTimer w)" "link_inv (handleSocketLoss w)" "link_inv (settled_promise r w)"
    "link_inv (waitFor req w)" "link_inv (snd (sendRaw mid type payload w))" "link_inv (router_request q random type payload w)"
    "link_inv (snd (generateMessageId random w))"
    using assms by (simp_all add: clearReconnectTimer_def handleSocketLoss_def arm_reconnect_def settled_promise_def waitFor_def
        sendRaw_def router_request_def generateMessageId_def Let_def split_def split: option.split)
  have "link_inv (drop_connect (w\<lparr>wk_reconnectAttempt := 0, wk_reportedRouteExhaustion := False\<rparr>))"
    using assms by (auto simp: link_inv_def drop_connect_def)
  then show "link_inv (established p w)" by (simp add: established_def)
qed

lemma link_inv_open: 
  assumes "link_inv w" "\<not> wk_userClosed w"
  shows "link_inv ((openSocketPromise refused p w)\<lparr>wk_connectPromise := Some p\<rparr>)"
proof (cases refused)
  case None
  then show ?thesis using assms by (auto simp: link_inv_def openSocketPromise_def Let_def update_conv')
next
  case (Some err)
  have "map_get (wk_sockets w) (Suc (wk_generation w)) = None" using assms(1) by (force simp: link_inv_def)
  then show ?thesis using assms Some unfolding link_inv_def by (auto simp: openSocketPromise_def drop_connect_def Let_def le_Suc_eq)
qed

lemma link_inv_connect [simp]: "link_inv w \<Longrightarrow> link_inv (connect d w)"
proof -
  assume inv: "link_inv w"
  define w1 where "w1 = snd (new_promise (setState WsConnecting w))"
  have fields: "wk_userClosed w1 = wk_userClosed w" "link_inv w1"
    using inv by (simp_all add: w1_def new_promise_def) (simp add: link_inv_def)
  then have "link_inv ((openSocketPromise (dl_refused d) p w1)\<lparr>wk_connectPromise := Some p\<rparr>)" if "\<not> wk_userClosed w" for p
    using that by (intro link_inv_open) simp_all
  moreover have "link_inv (tell_wk c (w1\<lparr>wk_resolving := r, wk_connectPromise := Some p\<rparr>))"
    if "\<not> wk_userClosed w" "wk_connectPromise w = None" for c r p
    using that inv by (auto simp: link_inv_def w1_def new_promise_def)
  ultimately show ?thesis using inv by (auto simp: connect_def Let_def split_def w1_def [symmetric])
qed

text \<open>Stopping: the timer, the socket and the pending attempt go.\<close>

definition stop_service :: "string \<Rightarrow> socket_service \<Rightarrow> socket_service" where
  "stop_service err w = rejectPendingConnect err (teardownSocket (clearReconnectTimer w))"

lemma stopped_fields [simp]:
  "wk_ws (stop_service err w) = None" "wk_connectPromise (stop_service err w) = None"
  "wk_userClosed (stop_service err w) = wk_userClosed w" "wk_disposed (stop_service err w) = wk_disposed w"
  "wk_pending (stop_service err w) = wk_pending w" "wk_waiters (stop_service err w) = wk_waiters w"
  "wk_continuations (stop_service err w) = wk_continuations w" "wk_resolving (stop_service err w) = wk_resolving w"
  "wk_generation (stop_service err w) = wk_generation w" "wk_routerDisposed (stop_service err w) = wk_routerDisposed w"
  "wk_state (stop_service err w) = wk_state w"
  by (simp_all add: stop_service_def rejectPendingConnect_def teardownSocket_def clearReconnectTimer_def Let_def split: option.split)

lemma link_inv_stopped: "link_inv w \<Longrightarrow> link_inv ((stop_service err w)\<lparr>wk_disposed := d, wk_userClosed := True\<rparr>)"
proof -
  assume "link_inv w"
  then have "link_inv (stop_service err w)" by (simp add: stop_service_def)
  then show ?thesis by (simp add: link_inv_def)
qed

lemma marked:
  "clearReconnectTimer (w\<lparr>wk_disposed := d, wk_userClosed := c\<rparr>) = (clearReconnectTimer w)\<lparr>wk_disposed := d, wk_userClosed := c\<rparr>"
  "set_socket g f (w\<lparr>wk_disposed := d, wk_userClosed := c\<rparr>) = (set_socket g f w)\<lparr>wk_disposed := d, wk_userClosed := c\<rparr>"
  "settle p r (w\<lparr>wk_disposed := d, wk_userClosed := c\<rparr>) = (settle p r w)\<lparr>wk_disposed := d, wk_userClosed := c\<rparr>"
  by (simp_all add: clearReconnectTimer_def set_socket_def settle_def tell_wk_def split: option.split)

lemma teardown_marked:
  "teardownSocket (w\<lparr>wk_disposed := d, wk_userClosed := c\<rparr>) = (teardownSocket w)\<lparr>wk_disposed := d, wk_userClosed := c\<rparr>"
  by (simp add: teardownSocket_def marked split: option.split)

lemma reject_marked: "rejectPendingConnect err (w\<lparr>wk_disposed := d, wk_userClosed := c\<rparr>) =
    (rejectPendingConnect err w)\<lparr>wk_disposed := d, wk_userClosed := c\<rparr>"
  by (cases "wk_rejectConnect w") (simp_all add: rejectPendingConnect_def settle_def tell_wk_def Let_def)

lemma stop_marked: "stop_service err (w\<lparr>wk_disposed := d, wk_userClosed := c\<rparr>) = (stop_service err w)\<lparr>wk_disposed := d, wk_userClosed := c\<rparr>"
  by (simp add: stop_service_def marked teardown_marked reject_marked)

lemma dispose_stops: "dispose_service w = (if wk_disposed w then w else
    let w3 = setState WsDisconnected (rejectWaiters ''WebSocketService disposed'' (router_dispose
      ((stop_service ''WebSocketService disposed'' w)\<lparr>wk_disposed := True, wk_userClosed := True\<rparr>)))
    in (fold (\<lambda>name. tell_wk (PluginTornDown name)) (wk_plugins w3) w3)\<lparr>wk_plugins := [], wk_stateListeners := []\<rparr>)"
  by (simp add: dispose_service_def stop_marked [symmetric] Let_def) (simp add: stop_service_def)

lemma disconnect_stops: "disconnect w = setState WsDisconnected (rejectWaiters ''Connection lost'' (failPending ''Connection lost''
    ((stop_service ''WebSocketService is closed'' w)\<lparr>wk_disposed := wk_disposed w, wk_userClosed := True\<rparr>)))"
  by (simp add: disconnect_def stop_marked [symmetric] Let_def) (simp add: stop_service_def)

lemma link_inv_dispose [simp]: "link_inv w \<Longrightarrow> link_inv (dispose_service w)"
proof -
  have plugins: "link_inv (fold (\<lambda>name. tell_wk (PluginTornDown name)) ps v) = link_inv v" for ps v
    by (induction ps arbitrary: v) simp_all
  assume "link_inv w"
  then show ?thesis by (simp add: dispose_stops router_dispose_def plugins link_inv_stopped Let_def)
qed

lemma link_inv_disconnect [simp]: "link_inv w \<Longrightarrow> link_inv (disconnect w)"
  by (simp add: disconnect_stops link_inv_stopped)

lemma link_inv_url: "link_inv w \<Longrightarrow> link_inv (urlSettled q result refused w)"
proof -
  assume inv: "link_inv w"
  define w0 where "w0 = w\<lparr>wk_resolving := map_delete q (wk_resolving w)\<rparr>"
  have w0: "link_inv w0" "wk_disposed w0 \<Longrightarrow> wk_userClosed w0" using inv by (simp_all add: w0_def) (simp add: link_inv_def)
  have opened: "link_inv ((openSocketPromise refused q (case url of None \<Rightarrow> w0 | Some u \<Rightarrow>
      if u = [] then w0 else w0\<lparr>wk_url := u\<rparr>))\<lparr>wk_connectPromise := Some q\<rparr>)" if "\<not> wk_userClosed w0" for url
    using that w0(1) by (intro link_inv_open) (simp_all split: option.split)
  show ?thesis
  proof (cases "wk_userClosed w0")
    case True
    then show ?thesis using w0 inv by (simp add: urlSettled_def Let_def w0_def [symmetric] split: option.split sum.split)
  next
    case False
    then show ?thesis using w0 inv opened by (simp add: urlSettled_def Let_def w0_def [symmetric] split: option.split sum.split)
  qed
qed

lemma link_inv_step: "link_inv w \<Longrightarrow> link_inv (service_step w e)"
proof (cases e)
  case (Request random now timeoutMs type payload)
  assume "link_inv w"
  then show ?thesis using Request by (simp add: request_def Let_def split_def)
next
  case (SocketClosed g)
  assume "link_inv w"
  then have "link_inv (set_socket g (\<lambda>s. s\<lparr>ps_ready := SockClosed\<rparr>) w)" by simp
  then show ?thesis using SocketClosed by (simp add: onclose_def Let_def split: option.split)
next
  case (HandshakeFailed g err disposes)
  assume "link_inv w"
  then have "link_inv (drop_connect (set_socket g (\<lambda>s. s\<lparr>ps_handshaking := False\<rparr>) w))" by simp
  then show ?thesis using HandshakeFailed \<open>link_inv w\<close> by (simp add: handshakeFailed_def failConnection_def Let_def split: option.split)
next
  case (UrlSettled q result refused)
  assume "link_inv w"
  then show ?thesis using UrlSettled by (simp add: link_inv_url)
qed (simp_all add: reconnectNow_def reportUnresponsive_def use_def unregister_def sendTracked_def
    waitForConnection_def subscribe_def unsubscribe_def onopen_def onerror_def onmessage_def handshakeDone_def
    handshakeSends_def handshakeRequests_def reconnectTimerFires_def requestTimeout_def
    waiterTimeout_def request_continues_def Let_def split_def split: option.split frame.split list.split)

lemma link_inv_new [simp]: "link_inv (new_service url options)"
  by (simp add: link_inv_def new_service_def)

interpretation wired_socket: event_machine service_step link_inv
  by unfold_locales (rule link_inv_step)

section \<open>What is told\<close>

definition heard :: "(service_call \<Rightarrow> bool) \<Rightarrow> socket_service \<Rightarrow> service_call list" where
  "heard P w = filter P (wk_told w)"

text \<open>A predicate on what is told that ignores state changes, rejections and handlers.\<close>

definition mute :: "(service_call \<Rightarrow> bool) \<Rightarrow> bool" where
  "mute P \<longleftrightarrow> (\<forall>l next. \<not> P (StateTold l next)) \<and> (\<forall>h d. \<not> P (Delivered h d) \<and> \<not> P (BinaryDelivered h d))
     \<and> (\<forall>p. \<not> P (Settled p Fulfilled)) \<and> (\<forall>p err. \<not> P (Settled p (Failed err)))
     \<and> (\<forall>n. \<not> P (PluginInstalled n) \<and> \<not> P (PluginTornDown n)) \<and> (\<forall>err. \<not> P (ErrorTold err) \<and> \<not> P (HandshakeRefused err))
     \<and> (\<forall>g url. \<not> P (SocketOpened g url) \<and> \<not> P (HandshakeStarted g)) \<and> (\<forall>p attempt. \<not> P (UrlAsked p attempt))"

lemma heard_tell [simp]: "heard P (tell_wk c w) = heard P w @ (if P c then [c] else [])"
  by (simp add: heard_def tell_wk_def)

lemma heard_updates [simp]:
  "heard P (w\<lparr>wk_url := a1\<rparr>) = heard P w" "heard P (w\<lparr>wk_ws := a2\<rparr>) = heard P w"
  "heard P (w\<lparr>wk_sockets := a3\<rparr>) = heard P w" "heard P (w\<lparr>wk_generation := a4\<rparr>) = heard P w"
  "heard P (w\<lparr>wk_reconnectAttempt := a5\<rparr>) = heard P w" "heard P (w\<lparr>wk_reportedRouteExhaustion := a6\<rparr>) = heard P w"
  "heard P (w\<lparr>wk_state := a7\<rparr>) = heard P w" "heard P (w\<lparr>wk_reconnectTimer := a8\<rparr>) = heard P w"
  "heard P (w\<lparr>wk_armed := a9\<rparr>) = heard P w" "heard P (w\<lparr>wk_timers := a10\<rparr>) = heard P w"
  "heard P (w\<lparr>wk_connectPromise := a11\<rparr>) = heard P w" "heard P (w\<lparr>wk_rejectConnect := a12\<rparr>) = heard P w"
  "heard P (w\<lparr>wk_userClosed := a13\<rparr>) = heard P w" "heard P (w\<lparr>wk_disposed := a14\<rparr>) = heard P w"
  "heard P (w\<lparr>wk_stateListeners := a15\<rparr>) = heard P w" "heard P (w\<lparr>wk_waiters := a16\<rparr>) = heard P w"
  "heard P (w\<lparr>wk_continuations := a17\<rparr>) = heard P w" "heard P (w\<lparr>wk_resolving := a18\<rparr>) = heard P w"
  "heard P (w\<lparr>wk_idCounter := a19\<rparr>) = heard P w" "heard P (w\<lparr>wk_plugins := a20\<rparr>) = heard P w"
  "heard P (w\<lparr>wk_handlers := a21\<rparr>) = heard P w" "heard P (w\<lparr>wk_handlerSets := a22\<rparr>) = heard P w"
  "heard P (w\<lparr>wk_binaryHandlers := a23\<rparr>) = heard P w" "heard P (w\<lparr>wk_pending := a24\<rparr>) = heard P w"
  "heard P (w\<lparr>wk_routerDisposed := a25\<rparr>) = heard P w" "heard P (w\<lparr>wk_open := a26\<rparr>) = heard P w"
  "heard P (snd (new_promise w)) = heard P w" "heard P (set_socket g f w) = heard P w"
  by (simp_all add: heard_def new_promise_def)

lemma heard_settle: "heard P (settle p r w) = heard P w @ (if p \<in> set (wk_open w) \<and> P (Settled p r) then [Settled p r] else [])"
  by (simp add: settle_def)

lemma heard_fold: "(\<And>x w. heard P (f x w) = heard P w) \<Longrightarrow> heard P (fold f xs w) = heard P w"
  by (induction xs arbitrary: w) simp_all

lemma heard_tells: "(\<And>x. \<not> P (c x)) \<Longrightarrow> heard P (fold (\<lambda>x. tell_wk (c x)) xs w) = heard P w"
  by (rule heard_fold) simp

lemma heard_quiet [simp]:
  assumes "mute P"
  shows "heard P (settle p Fulfilled w) = heard P w" "heard P (settle p (Failed err) w) = heard P w"
    "heard P (failPending err w) = heard P w" "heard P (rejectWaiters err w) = heard P w"
    "heard P (resolve_waiter wt w) = heard P w" "heard P (setState next w) = heard P w"
    "heard P (teardownSocket w) = heard P w" "heard P (clearReconnectTimer w) = heard P w"
    "heard P (rejectPendingConnect err w) = heard P w" "heard P (drop_connect w) = heard P w"
    "heard P (established p w) = heard P w" "heard P (waitFor req w) = heard P w"
    "heard P (settled_promise (Failed err) w) = heard P w" "heard P (settled_promise Fulfilled w) = heard P w"
    "heard P (handleBinary data w) = heard P w" "heard P (openSocketPromise refused p w) = heard P w"
    "heard P (connect d w) = heard P w" "heard P (dispose_service w) = heard P w" "heard P (disconnect w) = heard P w"
proof -
  have settle: "heard P (settle p Fulfilled v) = heard P v" "heard P (settle p (Failed err) v) = heard P v" for p err v
    using assms by (simp_all add: heard_settle mute_def)
  show "heard P (settle p Fulfilled w) = heard P w" "heard P (settle p (Failed err) w) = heard P w" by (rule settle)+
  have "heard P (fold (\<lambda>(mid, p, type). settle p (Failed err)) ps v) = heard P v" for ps v err
    by (rule heard_fold) (simp add: settle split_def)
  then show fail: "heard P (failPending err w) = heard P w" for err w by (simp add: failPending_def)
  have "heard P (fold (\<lambda>wt. settle (wt_promise wt) (Failed err)) ws v) = heard P v" for v err and ws :: "connection_waiter list"
    by (rule heard_fold) (simp add: settle)
  then show reject: "heard P (rejectWaiters err w) = heard P w" for err w by (simp add: rejectWaiters_def)
  show waiter: "heard P (resolve_waiter wt w) = heard P w" for wt w by (simp add: resolve_waiter_def settle split: option.split)
  have "heard P (fold resolve_waiter ws v) = heard P v" for ws v by (rule heard_fold) (rule waiter)
  then show state: "heard P (setState st w) = heard P w" for st w
    using assms by (simp add: setState_def Let_def heard_tells mute_def)
  show teardown: "heard P (teardownSocket w) = heard P w" for w by (simp add: teardownSocket_def split: option.split)
  show clear: "heard P (clearReconnectTimer w) = heard P w" for w by (simp add: clearReconnectTimer_def split: option.split)
  show pending: "heard P (rejectPendingConnect err w) = heard P w" for err w
    by (simp add: rejectPendingConnect_def settle Let_def split: option.split)
  show drop: "heard P (drop_connect w) = heard P w" for w by (simp add: drop_connect_def)
  show "heard P (established p w) = heard P w" by (simp add: established_def settle state drop)
  show settled: "heard P (settled_promise (Failed err) w) = heard P w" "heard P (settled_promise Fulfilled w) = heard P w" for err w
    by (simp_all add: settled_promise_def settle split_def Let_def)
  show "heard P (waitFor req w) = heard P w" by (simp add: waitFor_def settled split_def Let_def)
  show "heard P (handleBinary data w) = heard P w" using assms by (simp add: handleBinary_def heard_tells mute_def)
  show opened: "heard P (openSocketPromise refused p w) = heard P w" for refused p w
    using assms by (simp add: openSocketPromise_def settle state drop Let_def mute_def split: option.split)
  show "heard P (connect d w) = heard P w"
    using assms by (simp add: connect_def settled state opened split_def Let_def mute_def)
  show "heard P (dispose_service w) = heard P w" "heard P (disconnect w) = heard P w"
    using assms by (simp_all add: dispose_service_def disconnect_def router_dispose_def fail reject state teardown clear pending heard_tells mute_def Let_def)
qed

definition is_sent :: "service_call \<Rightarrow> bool" where
  "is_sent c = (case c of Sent g mid type payload \<Rightarrow> True | _ \<Rightarrow> False)"

definition is_armed :: "service_call \<Rightarrow> bool" where
  "is_armed c = (case c of ReconnectArmed t delay \<Rightarrow> True | _ \<Rightarrow> False)"

definition is_answer :: "service_call \<Rightarrow> bool" where
  "is_answer c = (case c of Settled p (Answered v) \<Rightarrow> True | _ \<Rightarrow> False)"

lemma kinds [simp]:
  "is_sent (Sent g mid type payload)" "\<not> is_sent (ReconnectArmed t delay)" "\<not> is_sent (Settled p r)"
  "is_armed (ReconnectArmed t delay)" "\<not> is_armed (Sent g mid type payload)" "\<not> is_armed (Settled p r)"
  "is_answer (Settled p (Answered v))" "\<not> is_answer (Sent g mid type payload)" "\<not> is_answer (ReconnectArmed t delay)"
  by (simp_all add: is_sent_def is_armed_def is_answer_def)

lemma mute_kinds [simp]: "mute is_sent" "mute is_armed" "mute is_answer"
  by (simp_all add: mute_def is_sent_def is_armed_def is_answer_def)

lemma heard_loss: "mute P \<Longrightarrow> \<forall>t d. \<not> P (ReconnectArmed t d) \<Longrightarrow> heard P (handleSocketLoss w) = heard P w"
  by (simp add: handleSocketLoss_def arm_reconnect_def Let_def)

lemma heard_incoming: "mute P \<Longrightarrow> heard P (handleIncoming m w) = heard P w @ (case map_get (wk_pending w) (sm_id m) of
    Some (p, type) \<Rightarrow> if p \<in> set (wk_open w) \<and> sm_type m \<noteq> ''error'' \<and> P (Settled p (Answered (sm_payload m)))
      then [Settled p (Answered (sm_payload m))] else []
  | None \<Rightarrow> [])"
proof -
  assume mute: "mute P"
  then have "heard P (fold (\<lambda>h. tell_wk (Delivered h d)) hs v) = heard P v" for hs v d by (intro heard_fold) (simp add: mute_def)
  then show ?thesis using mute by (simp add: handleIncoming_def heard_settle mute_def split: option.split)
qed


end
