(* ===== verification/Socket_Laws.thy ===== *)
theory Socket_Laws
  imports Socket_Links
begin

text \<open>
  Message ids, what is sent under them, and who answers a request of the WebSocket transport.
\<close>

section \<open>Message identifiers\<close>

text \<open>The number the service put into a message id.\<close>

definition id_number :: "string \<Rightarrow> nat" where
  "id_number mid = digits_value (takeWhile (\<lambda>c. c \<noteq> CHR ''_'') (drop 4 mid))"

definition message_id :: "nat \<Rightarrow> string \<Rightarrow> string" where
  "message_id n random = ''msg_'' @ decimal n @ ''_'' @ random"

lemma generate_eq: "generateMessageId random w =
    (message_id (Suc (wk_idCounter w)) random, w\<lparr>wk_idCounter := Suc (wk_idCounter w)\<rparr>)"
  by (simp add: generateMessageId_def message_id_def)

lemma id_number_generated [simp]: "id_number (message_id n random) = n"
proof -
  have "c \<noteq> CHR ''_''" if "c \<in> set (decimal n)" for c
    using decimal_digits [OF that] by (auto simp: of_char_def)
  then have "takeWhile (\<lambda>c. c \<noteq> CHR ''_'') (decimal n @ ''_'' @ random) = decimal n"
    by (subst takeWhile_append2) simp_all
  then show ?thesis by (simp add: message_id_def id_number_def digits_value_decimal)
qed

fun sent_id :: "service_call \<Rightarrow> string" where
  "sent_id (Sent g mid type payload) = mid"
| "sent_id _ = []"

definition sent_numbers :: "socket_service \<Rightarrow> nat list" where
  "sent_numbers w = map (id_number \<circ> sent_id) (heard is_sent w)"

text \<open>Every id is used once, and a pending request has been sent.\<close>

definition wire_inv :: "socket_service \<Rightarrow> bool" where
  "wire_inv w \<longleftrightarrow> distinct (sent_numbers w) \<and> (\<forall>n \<in> set (sent_numbers w). n \<le> wk_idCounter w)
     \<and> wf_map (wk_pending w)
     \<and> (\<forall>mid p type. (mid, p, type) \<in> set (wk_pending w) \<longrightarrow> (\<exists>g payload. Sent g mid type payload \<in> set (heard is_sent w)))"

lemma wire_inv_kept:
  assumes "wire_inv w" "heard is_sent v = heard is_sent w" "wk_idCounter w \<le> wk_idCounter v" "wf_map (wk_pending v)"
    "set (wk_pending v) \<subseteq> set (wk_pending w)"
  shows "wire_inv v"
  using assms by (fastforce simp: wire_inv_def sent_numbers_def)

lemma wire_same:
  "wire_inv w \<Longrightarrow> heard is_sent v = heard is_sent w \<Longrightarrow> wk_idCounter w \<le> wk_idCounter v \<Longrightarrow>
    wk_pending v = [] \<or> wk_pending v = wk_pending w \<or> (\<exists>k. wk_pending v = map_delete k (wk_pending w)) \<Longrightarrow> wire_inv v"
  by (rule wire_inv_kept [of w v]) (auto simp: wire_inv_def set_map_delete)

lemma wire_fresh:
  assumes "wire_inv w"
  shows "\<not> map_has (wk_pending w) (message_id (Suc (wk_idCounter w)) random)"
    "Suc (wk_idCounter w) \<notin> set (sent_numbers w)"
proof -
  show fresh: "Suc (wk_idCounter w) \<notin> set (sent_numbers w)" using assms by (force simp: wire_inv_def)
  have "id_number mid \<in> set (sent_numbers w)" if "(mid, q) \<in> set (wk_pending w)" for mid q
    using that assms by (cases q) (force simp: wire_inv_def sent_numbers_def)
  then show "\<not> map_has (wk_pending w) (message_id (Suc (wk_idCounter w)) random)"
    using fresh id_number_generated by (force simp: map_has_iff)
qed

lemma wire_inv_sent:
  assumes "wire_inv w" "mid = message_id (Suc (wk_idCounter w)) random"
    "heard is_sent v = heard is_sent w @ [Sent g mid type payload]" "wk_idCounter v = Suc (wk_idCounter w)"
    "wk_pending v = wk_pending w \<or> wk_pending v = map_set mid (p, type) (wk_pending w)"
  shows "wire_inv v"
  using assms wire_fresh(1) [OF assms(1), of random] wire_fresh(2) [OF assms(1)]
  by (fastforce simp: wire_inv_def sent_numbers_def map_set_fresh wf_map_snoc comp_def intro: le_SucI)

lemma wire_inv_request:
  assumes inv: "wire_inv w"
  shows "wire_inv (router_request p random type payload w)"
proof (cases "wk_routerDisposed w")
  case True
  then show ?thesis using wire_same [OF inv] by (simp add: router_request_def)
next
  case False
  let ?mid = "message_id (Suc (wk_idCounter w)) random"
  show ?thesis
  proof (cases "\<exists>g. wk_ws w = Some g \<and> map_option ps_ready (map_get (wk_sockets w) g) = Some SockOpen")
    case True
    then obtain g where "wk_ws w = Some g" "map_option ps_ready (map_get (wk_sockets w) g) = Some SockOpen" by blast
    then have eq: "router_request p random type payload w = tell_wk (Sent g ?mid type payload)
        (w\<lparr>wk_idCounter := Suc (wk_idCounter w), wk_pending := map_set ?mid (p, type) (wk_pending w)\<rparr>)"
      using False by (simp add: router_request_def generate_eq sendRaw_def Let_def)
    show ?thesis unfolding eq by (rule wire_inv_sent [where p = p, OF inv refl]) (simp, simp, rule disjI2, simp)
  next
    case no_socket: False
    then have "router_request p random type payload w = settle p (Failed ''WebSocket not connected'')
       (w\<lparr>wk_idCounter := Suc (wk_idCounter w), wk_pending := map_delete ?mid (map_set ?mid (p, type) (wk_pending w))\<rparr>)"
      using False by (auto simp: router_request_def generate_eq sendRaw_def Let_def split: option.split)
    moreover have "map_delete ?mid (map_set ?mid (p, type) (wk_pending w)) = wk_pending w"
      using wire_fresh(1) [OF inv] by (simp add: map_set_fresh AList.delete_eq map_has_iff) (force intro: filter_True)
    ultimately show ?thesis by (intro wire_same [OF inv]) simp_all
  qed
qed

lemma wire_inv_send:
  assumes inv: "wire_inv w"
  shows "wire_inv (snd (sendRaw (fst (generateMessageId random w)) type payload (snd (generateMessageId random w))))"
proof -
  let ?mid = "message_id (Suc (wk_idCounter w)) random"
  have "wire_inv (w\<lparr>wk_idCounter := Suc (wk_idCounter w)\<rparr>)" by (rule wire_same [OF inv]) simp_all
  moreover have "wire_inv (tell_wk (Sent g ?mid type payload) (w\<lparr>wk_idCounter := Suc (wk_idCounter w)\<rparr>))" for g
    by (rule wire_inv_sent [OF inv refl]) simp_all
  ultimately show ?thesis by (simp add: generate_eq sendRaw_def Let_def split: option.split)
qed

lemma pending_kept [simp]:
  "wk_pending (teardownSocket w) = wk_pending w" "wk_pending (clearReconnectTimer w) = wk_pending w"
  "wk_pending (rejectPendingConnect err w) = wk_pending w" "wk_pending (drop_connect w) = wk_pending w"
  "wk_pending (established p w) = wk_pending w" "wk_pending (waitFor req w) = wk_pending w"
  "wk_pending (settled_promise r w) = wk_pending w" "wk_pending (openSocketPromise refused p w) = wk_pending w"
  "wk_pending (connect d w) = wk_pending w" "wk_pending (snd (new_promise w)) = wk_pending w"
  by (simp_all add: teardownSocket_def clearReconnectTimer_def rejectPendingConnect_def drop_connect_def established_def waitFor_def
      settled_promise_def openSocketPromise_def connect_def new_promise_def Let_def split: option.split)

lemma counter_kept [simp]:
  "wk_idCounter (teardownSocket w) = wk_idCounter w" "wk_idCounter (clearReconnectTimer w) = wk_idCounter w"
  "wk_idCounter (rejectPendingConnect err w) = wk_idCounter w" "wk_idCounter (drop_connect w) = wk_idCounter w"
  "wk_idCounter (established p w) = wk_idCounter w" "wk_idCounter (waitFor req w) = wk_idCounter w"
  "wk_idCounter (settled_promise r w) = wk_idCounter w" "wk_idCounter (openSocketPromise refused p w) = wk_idCounter w"
  "wk_idCounter (connect d w) = wk_idCounter w" "wk_idCounter (snd (new_promise w)) = wk_idCounter w"
  by (simp_all add: teardownSocket_def clearReconnectTimer_def rejectPendingConnect_def drop_connect_def established_def waitFor_def
      settled_promise_def openSocketPromise_def connect_def new_promise_def Let_def split: option.split)


lemma pending_stops [simp]:
  "wk_pending (disconnect w) = []" "wk_pending (handleSocketLoss w) = (if wk_disposed w \<or> wk_userClosed w then wk_pending w else [])"
  "wk_idCounter (disconnect w) = wk_idCounter w" "wk_idCounter (handleSocketLoss w) = wk_idCounter w"
  by (simp_all add: disconnect_def handleSocketLoss_def arm_reconnect_def Let_def)

lemma dispose_kept:
  "wk_pending (dispose_service w) = (if wk_disposed w then wk_pending w else [])" "wk_idCounter (dispose_service w) = wk_idCounter w"
  "heard is_sent (handleSocketLoss w) = heard is_sent w"
proof -
  have "rest (fold (\<lambda>name. tell_wk (PluginTornDown name)) ps v) = rest v" for ps v by (rule rest_fold) simp
  note plugins = rest_fields(20,25) [OF this]
  show "wk_pending (dispose_service w) = (if wk_disposed w then wk_pending w else [])" "wk_idCounter (dispose_service w) = wk_idCounter w"
    by (simp_all add: dispose_service_def router_dispose_def plugins Let_def)
  show "heard is_sent (handleSocketLoss w) = heard is_sent w" by (rule heard_loss) simp_all
qed

lemma wire_inv_incoming: "wire_inv w \<Longrightarrow> wire_inv (handleIncoming m w)"
  by (rule wire_same) (auto simp: heard_incoming split: option.split)

text \<open>Only a request, a send of the owner and what a handshake sends take a new identifier.\<close>

lemma wire_inv_step: "wire_inv w \<Longrightarrow> wire_inv (service_step w e)"
proof (cases e)
  case (Request random now timeoutMs type payload)
  assume inv: "wire_inv w"
  then have "wire_inv (snd (new_promise w))" "wire_inv (settled_promise (Failed r) w)" "wire_inv (waitFor req w)" for r req
    by (rule wire_same [of w]; simp)+
  then show ?thesis using Request by (simp add: request_def Let_def split_def wire_inv_request)
next
  case (HandshakeRequests random type payload)
  assume inv: "wire_inv w"
  then have "wire_inv (snd (new_promise w))" by (rule wire_same) simp_all
  then show ?thesis using HandshakeRequests by (simp add: handshakeRequests_def split_def Let_def wire_inv_request)
next
  case (HandshakeSends random type payload)
  assume inv: "wire_inv w"
  then have "wire_inv (w\<lparr>wk_idCounter := Suc (wk_idCounter w)\<rparr>)" by (rule wire_same) simp_all
  then show ?thesis using HandshakeSends wire_inv_send [OF inv] by (simp add: handshakeSends_def split_def Let_def generate_eq)
next
  case (Send random type payload)
  assume inv: "wire_inv w"
  then show ?thesis using Send wire_inv_send [OF inv]
    by (simp add: sendTracked_def split_def Let_def) (auto split: option.split)
next
  case (RequestContinues random now)
  assume inv: "wire_inv w"
  then have "wire_inv (w\<lparr>wk_continuations := cs\<rparr>)" "wire_inv (settle p (Failed r) (w\<lparr>wk_continuations := cs\<rparr>))" for cs p r
    by (rule wire_same [of w]; simp)+
  then show ?thesis using RequestContinues inv by (simp add: request_continues_def wire_inv_request Let_def split: list.split)
next
  case (FrameReceived g f)
  assume inv: "wire_inv w"
  then have "wire_inv (handleBinary d w)" "wire_inv (tell_wk (ErrorTold err) w)" for d err
    by (rule wire_same [of w]; simp add: is_sent_def)+
  then show ?thesis using FrameReceived inv by (simp add: onmessage_def wire_inv_incoming split: frame.split)
qed (rule wire_same [of w]; simp add: reconnectNow_def reportUnresponsive_def use_def unregister_def
    waitForConnection_def subscribe_def unsubscribe_def onopen_def onerror_def onclose_def handshakeDone_def handshakeFailed_def
    failConnection_def urlSettled_def reconnectTimerFires_def requestTimeout_def
    waiterTimeout_def dispose_kept is_sent_def Let_def split_def split: option.split sum.split; blast?)+

lemma wire_inv_new [simp]: "wire_inv (new_service url options)"
  by (simp add: wire_inv_def new_service_def sent_numbers_def heard_def)

interpretation wire: event_machine service_step wire_inv
  by unfold_locales (rule wire_inv_step)

lemma answers_step: "heard is_answer (service_step w e) = heard is_answer w @ (case e of
    FrameReceived g (TextFrame m) \<Rightarrow> if wired g w = None \<or> wk_generation w \<noteq> g then [] else
      (case map_get (wk_pending w) (sm_id m) of
         Some (p, type) \<Rightarrow> if p \<in> set (wk_open w) \<and> sm_type m \<noteq> ''error'' then [Settled p (Answered (sm_payload m))] else []
       | None \<Rightarrow> [])
  | _ \<Rightarrow> [])"
proof -
  have plain: "heard is_answer (router_request p random type payload v) = heard is_answer v"
    "heard is_answer (handleSocketLoss v) = heard is_answer v" for p random type payload v
    by (simp_all add: router_request_def generate_eq sendRaw_def heard_loss Let_def split: option.split)
  show ?thesis
    by (cases e) (simp_all add: plain reconnectNow_def reportUnresponsive_def use_def unregister_def sendTracked_def
      request_def waitForConnection_def subscribe_def unsubscribe_def onopen_def onerror_def onclose_def onmessage_def handshakeDone_def
      handshakeFailed_def handshakeSends_def handshakeRequests_def generate_eq sendRaw_def request_continues_def
      failConnection_def urlSettled_def reconnectTimerFires_def requestTimeout_def heard_incoming
      waiterTimeout_def is_answer_def Let_def split_def split: option.split sum.split frame.split list.split)
qed

lemma promise_inv_new_service [simp]: "promise_inv (new_service url options)"
  by (simp add: promise_inv_def new_service_def)

interpretation promises: event_machine service_step promise_inv
  by unfold_locales (rule promise_inv_step)

lemma heard_set: "c \<in> set (heard P w) \<longleftrightarrow> c \<in> set (wk_told w) \<and> P c"
  by (auto simp: heard_def)

lemma count_distinct: "distinct xs \<Longrightarrow> x \<in> set xs \<Longrightarrow> count_list xs x = 1"
  by (induction xs) auto

lemma sent_once:
  assumes "wire_inv w" "Sent g mid type payload \<in> set (wk_told w)" "Sent g' mid type' payload' \<in> set (wk_told w)"
  shows "(g', type', payload') = (g, type, payload)"
proof -
  have "inj_on (id_number \<circ> sent_id) (set (heard is_sent w))"
    using assms(1) by (simp add: wire_inv_def sent_numbers_def distinct_map)
  from inj_onD [OF this, of "Sent g' mid type' payload'" "Sent g mid type payload"] show ?thesis
    using assms by (simp add: heard_set)
qed

text \<open>
  C30. A request is answered by its own response only. In every state the transport reaches, a promise is fulfilled with a
  value \<open>v\<close> only by a text frame of the current physical socket that is not an error, whose payload is \<open>v\<close> and whose id is
  the id under which this promise is pending; exactly one message was ever sent with that id, with the type of the request;
  and this is the one time the promise is settled.
\<close>

theorem answered_by_its_response:
  assumes "w = foldl service_step (new_service url options) es"
    and "Settled p (Answered v) \<in> set (wk_told (service_step w e))" "Settled p (Answered v) \<notin> set (wk_told w)"
  shows "\<exists>m type g payload. e = FrameReceived (wk_generation w) (TextFrame m) \<and> sm_payload m = v \<and> sm_type m \<noteq> ''error''
    \<and> map_get (wk_pending w) (sm_id m) = Some (p, type)
    \<and> {(g', t', d'). Sent g' (sm_id m) t' d' \<in> set (wk_told w)} = {(g, type, payload)}
    \<and> count_list (settled_list (wk_told (service_step w e))) p = 1"
proof -
  have wire: "wire_inv w" and settles: "promise_inv (service_step w e)"
    unfolding assms(1) by (rule wire.run_inv, simp) (rule promises.step_inv, rule promises.run_inv, simp)
  have "Settled p (Answered v) \<in> set (heard is_answer (service_step w e)) - set (heard is_answer w)"
    using assms(2,3) by (simp add: heard_set)
  then obtain m type where e: "e = FrameReceived (wk_generation w) (TextFrame m)" "sm_payload m = v" "sm_type m \<noteq> ''error''"
      and pending: "map_get (wk_pending w) (sm_id m) = Some (p, type)"
    by (auto simp: answers_step split: service_event.splits frame.splits if_splits option.splits) metis
  then obtain g payload where "Sent g (sm_id m) type payload \<in> set (wk_told w)"
    using wire map_of_SomeD [OF pending] unfolding wire_inv_def heard_set by blast
  then have "{(g', t', d'). Sent g' (sm_id m) t' d' \<in> set (wk_told w)} = {(g, type, payload)}"
    using sent_once [OF wire] by fastforce
  moreover have "p \<in> set (settled_list (wk_told (service_step w e)))" using assms(2) by (force simp: settled_list_def)
  then have "count_list (settled_list (wk_told (service_step w e))) p = 1"
    using settles by (simp add: count_distinct promise_inv_def)
  ultimately show ?thesis using e pending by blast
qed

text \<open>A small run for the examples: a plain socket is opened and a request sent on it.\<close>

definition plain_options :: service_options where
  "plain_options = \<lparr>wo_handshake = False, wo_maxReconnectAttempts = Some 2, wo_reconnectBaseDelay = None,
     wo_persistentReconnect = False, wo_resolveUrl = False\<rparr>"

definition plain_dial :: dial where
  "plain_dial = \<lparr>dl_needsUrl = False, dl_refused = None\<rparr>"

definition asked :: "service_event list" where
  "asked = [Connect plain_dial, SocketOpen 1, Request ''r'' 0 15000 ''session.list'' ''{}'']"

definition answer :: socket_message where
  "answer = \<lparr>sm_type = ''session.list'', sm_id = ''msg_1_r'', sm_payload = ''[]'', sm_errorMessage = None\<rparr>"

theorem answered_by_its_response_witness:
  "count_list (settled_list (wk_told (service_step (foldl service_step (new_service ''wss://n'' plain_options) asked)
    (FrameReceived 1 (TextFrame answer))))) 1 = 1"
proof -
  have "Settled 1 (Answered ''[]'') \<in> set (wk_told (service_step (foldl service_step (new_service ''wss://n'' plain_options) asked)
      (FrameReceived 1 (TextFrame answer))))"
    "Settled 1 (Answered ''[]'') \<notin> set (wk_told (foldl service_step (new_service ''wss://n'' plain_options) asked))"
    by code_simp+
  from answered_by_its_response [OF refl this] show ?thesis by blast
qed

end
