(* ===== verification/Socket_Waiting.thy ===== *)
theory Socket_Waiting
  imports Socket_Laws
begin

text \<open>
  Who keeps the promises of the WebSocket transport that are still open, in every state an orderly run reaches, and what is
  left when it stops: after a disposal only what is already on its way, and nothing but rejections leaves it.
\<close>

section \<open>Owners\<close>

text \<open>What keeps an open promise, the attempt to connect apart.\<close>

definition keepers :: "socket_service \<Rightarrow> nat set" where
  "keepers w = (fst \<circ> snd) ` set (wk_pending w) \<union> wt_promise ` set (wk_waiters w) \<union> fst ` set (wk_continuations w)
     \<union> fst ` set (wk_resolving w)"

definition owned :: "nat set \<Rightarrow> socket_service \<Rightarrow> bool" where
  "owned X w \<longleftrightarrow> set (wk_open w) \<subseteq> X \<union> keepers w"

lemma keepers_updates [simp]:
  "keepers (w\<lparr>wk_url := a1\<rparr>) = keepers w" "keepers (w\<lparr>wk_ws := a2\<rparr>) = keepers w"
  "keepers (w\<lparr>wk_sockets := a3\<rparr>) = keepers w" "keepers (w\<lparr>wk_generation := a4\<rparr>) = keepers w"
  "keepers (w\<lparr>wk_reconnectAttempt := a5\<rparr>) = keepers w" "keepers (w\<lparr>wk_reportedRouteExhaustion := a6\<rparr>) = keepers w"
  "keepers (w\<lparr>wk_state := a7\<rparr>) = keepers w" "keepers (w\<lparr>wk_reconnectTimer := a8\<rparr>) = keepers w"
  "keepers (w\<lparr>wk_armed := a9\<rparr>) = keepers w" "keepers (w\<lparr>wk_timers := a10\<rparr>) = keepers w"
  "keepers (w\<lparr>wk_connectPromise := a11\<rparr>) = keepers w" "keepers (w\<lparr>wk_rejectConnect := a12\<rparr>) = keepers w"
  "keepers (w\<lparr>wk_userClosed := a13\<rparr>) = keepers w" "keepers (w\<lparr>wk_disposed := a14\<rparr>) = keepers w"
  "keepers (w\<lparr>wk_stateListeners := a15\<rparr>) = keepers w" "keepers (w\<lparr>wk_promises := a16\<rparr>) = keepers w"
  "keepers (w\<lparr>wk_told := a17\<rparr>) = keepers w" "keepers (w\<lparr>wk_open := a18\<rparr>) = keepers w"
  "keepers (w\<lparr>wk_idCounter := a19\<rparr>) = keepers w" "keepers (w\<lparr>wk_plugins := a20\<rparr>) = keepers w"
  "keepers (w\<lparr>wk_handlers := a21\<rparr>) = keepers w" "keepers (w\<lparr>wk_handlerSets := a22\<rparr>) = keepers w"
  "keepers (w\<lparr>wk_binaryHandlers := a23\<rparr>) = keepers w" "keepers (w\<lparr>wk_routerDisposed := a25\<rparr>) = keepers w"
  "keepers (set_socket g f w) = keepers w" "keepers (settle p r w) = keepers w" "keepers (tell_wk c w) = keepers w"
  "keepers (handleBinary data w) = keepers w"
  by (simp_all add: keepers_def)

lemma owned_updates [simp]:
  "owned X (w\<lparr>wk_url := a1\<rparr>) = owned X w" "owned X (w\<lparr>wk_ws := a2\<rparr>) = owned X w"
  "owned X (w\<lparr>wk_sockets := a3\<rparr>) = owned X w" "owned X (w\<lparr>wk_generation := a4\<rparr>) = owned X w"
  "owned X (w\<lparr>wk_reconnectAttempt := a5\<rparr>) = owned X w" "owned X (w\<lparr>wk_reportedRouteExhaustion := a6\<rparr>) = owned X w"
  "owned X (w\<lparr>wk_state := a7\<rparr>) = owned X w" "owned X (w\<lparr>wk_reconnectTimer := a8\<rparr>) = owned X w"
  "owned X (w\<lparr>wk_armed := a9\<rparr>) = owned X w" "owned X (w\<lparr>wk_timers := a10\<rparr>) = owned X w"
  "owned X (w\<lparr>wk_connectPromise := a11\<rparr>) = owned X w" "owned X (w\<lparr>wk_rejectConnect := a12\<rparr>) = owned X w"
  "owned X (w\<lparr>wk_userClosed := a13\<rparr>) = owned X w" "owned X (w\<lparr>wk_disposed := a14\<rparr>) = owned X w"
  "owned X (w\<lparr>wk_stateListeners := a15\<rparr>) = owned X w" "owned X (w\<lparr>wk_idCounter := a19\<rparr>) = owned X w"
  "owned X (w\<lparr>wk_plugins := a20\<rparr>) = owned X w" "owned X (w\<lparr>wk_handlers := a21\<rparr>) = owned X w"
  "owned X (w\<lparr>wk_handlerSets := a22\<rparr>) = owned X w" "owned X (w\<lparr>wk_binaryHandlers := a23\<rparr>) = owned X w"
  "owned X (w\<lparr>wk_routerDisposed := a25\<rparr>) = owned X w" "owned X (set_socket g f w) = owned X w" "owned X (tell_wk c w) = owned X w"
  "owned X (handleBinary data w) = owned X w"
  by (simp_all add: owned_def)

lemma owned_settle: "owned (insert p X) w \<Longrightarrow> owned X (settle p r w)"
  by (auto simp: owned_def)

lemma owned_settled [simp]: "owned X w \<Longrightarrow> owned X (settle p r w)"
  by (auto simp: owned_def)

lemma keepers_parts [simp]:
  "keepers (failPending err w) = wt_promise ` set (wk_waiters w) \<union> fst ` set (wk_continuations w) \<union> fst ` set (wk_resolving w)"
  "keepers (rejectWaiters err w) = (fst \<circ> snd) ` set (wk_pending w) \<union> fst ` set (wk_continuations w) \<union> fst ` set (wk_resolving w)"
  by (simp_all add: keepers_def)

lemma owned_parts [simp]:
  assumes "owned X w"
  shows "owned X (failPending err w)" "owned X (rejectWaiters err w)" "owned X (setState next w)"
    "owned X (teardownSocket w)" "owned X (clearReconnectTimer w)" "owned X (drop_connect w)" "owned X (settled_promise r w)"
    "owned X (waitFor req w)" "owned X (snd (sendRaw mid type payload w))" "owned X (handleSocketLoss w)"
proof -
  have fail: "owned X (failPending err w)" if "owned X w" for err w using that unfolding owned_def keepers_parts by (auto simp: keepers_def)
  have rejects: "owned X (rejectWaiters err w)" if "owned X w" for err w using that unfolding owned_def keepers_parts by (auto simp: keepers_def)
  have state: "owned X (setState st w)" if "owned X w" for st w
  proof (cases "connects st w")
    case True
    then have "keepers (setState st w) = (fst \<circ> snd) ` set (wk_pending w) \<union> fst ` set (wk_continuations w)
        \<union> fst ` set (sending_waiters (wk_waiters w)) \<union> fst ` set (wk_resolving w)" by (auto simp: keepers_def)
    then show ?thesis using that True by (auto simp: owned_def keepers_def waiter_promises)
  next
    case False
    then show ?thesis using that by (simp add: owned_def keepers_def)
  qed
  show "owned X (teardownSocket w)" "owned X (clearReconnectTimer w)" "owned X (drop_connect w)"
    "owned X (snd (sendRaw mid type payload w))" "owned X (handleSocketLoss w)"
    using assms by (simp_all add: teardownSocket_def clearReconnectTimer_def drop_connect_def sendRaw_def handleSocketLoss_def
        arm_reconnect_def Let_def fail rejects state split: option.split)
  have settled: "owned X (settled_promise r w)" for r using assms by (auto simp: settled_promise_def new_promise_def owned_def keepers_def Let_def)
  show "owned X (failPending err w)" "owned X (rejectWaiters err w)" "owned X (setState next w)" "owned X (settled_promise r w)"
    by (rule fail rejects state settled assms)+
  show "owned X (waitFor req w)" using assms settled by (auto simp: waitFor_def new_promise_def owned_def keepers_def Let_def)
qed

lemma owned_new: "owned X w \<Longrightarrow> owned (insert (fst (new_promise w)) X) (snd (new_promise w))"
  by (auto simp: owned_def new_promise_def keepers_def)

lemma owned_request:
  assumes "wire_inv w" "owned (insert p X) w"
  shows "owned X (router_request p random type payload w)"
proof -
  let ?mid = "message_id (Suc (wk_idCounter w)) random"
  have fresh: "map_set ?mid (p, type) (wk_pending w) = wk_pending w @ [(?mid, p, type)]"
    "map_delete ?mid (wk_pending w @ [(?mid, p, type)]) = wk_pending w"
    using wire_fresh(1) [OF assms(1), of random]
    by (simp_all add: map_set_fresh AList.delete_eq map_has_iff) (force intro: filter_True)
  have sent: "owned X (w\<lparr>wk_idCounter := n, wk_pending := wk_pending w @ [(?mid, p, type)]\<rparr>)"
    and kept: "owned (insert p X) (w\<lparr>wk_idCounter := n, wk_pending := wk_pending w\<rparr>)" for n
    using assms(2) by (auto simp: owned_def keepers_def)
  show ?thesis
    using owned_settle [OF assms(2)] owned_settle [OF kept] sent
    by (simp add: router_request_def generate_eq sendRaw_def fresh Let_def split: option.split)
qed

lemma owned_incoming: "wire_inv w \<Longrightarrow> owned X w \<Longrightarrow> owned X (handleIncoming m w)"
proof -
  assume inv: "wire_inv w" "owned X w"
  show ?thesis
  proof (cases "map_get (wk_pending w) (sm_id m)")
    case None
    then have "map_delete (sm_id m) (wk_pending w) = wk_pending w" by (simp add: delete_id map_of_eq_None_iff)
    then show ?thesis using inv None by (simp add: owned_def keepers_def)
  next
    case (Some q)
    obtain p type where q: "q = (p, type)" by (cases q)
    have same: "x = (p, type)" if "(sm_id m, x) \<in> set (wk_pending w)" for x
      using that Some q inv(1) by (simp add: wire_inv_def wf_map_def map_of_is_SomeI)
    have "(fst \<circ> snd) ` set (wk_pending w) \<subseteq> insert p ((fst \<circ> snd) ` set (map_delete (sm_id m) (wk_pending w)))"
    proof (rule image_subsetI)
      fix x assume x: "x \<in> set (wk_pending w)"
      show "(fst \<circ> snd) x \<in> insert p ((fst \<circ> snd) ` set (map_delete (sm_id m) (wk_pending w)))"
      proof (cases "fst x = sm_id m")
        case True
        then show ?thesis using same [of "snd x"] x by (cases x) simp
      qed (use x in \<open>auto simp: set_map_delete intro!: imageI\<close>)
    qed
    then have "keepers w \<subseteq> insert p (keepers (handleIncoming m w))" unfolding keepers_def by simp blast
    then show ?thesis using inv(2) Some q unfolding owned_def by simp blast
  qed
qed

section \<open>One attempt at a time\<close>

definition attempt_state :: "socket_service \<Rightarrow> nat option \<times> nat option \<times> (nat, nat) jsmap \<times> bool" where
  "attempt_state w = (wk_connectPromise w, wk_rejectConnect w, wk_resolving w, wk_userClosed w)"

lemma attempt_parts [simp]:
  "attempt_state (tell_wk c w) = attempt_state w" "attempt_state (settle p r w) = attempt_state w"
  "attempt_state (setState next w) = attempt_state w" "attempt_state (failPending err w) = attempt_state w"
  "attempt_state (rejectWaiters err w) = attempt_state w" "attempt_state (handleIncoming m w) = attempt_state w"
  "attempt_state (handleBinary data w) = attempt_state w" "attempt_state (set_socket g f w) = attempt_state w"
  "attempt_state (teardownSocket w) = attempt_state w" "attempt_state (clearReconnectTimer w) = attempt_state w"
  "attempt_state (handleSocketLoss w) = attempt_state w" "attempt_state (waitFor req w) = attempt_state w"
  "attempt_state (settled_promise r w) = attempt_state w" "attempt_state (snd (sendRaw mid type payload w)) = attempt_state w"
  "attempt_state (router_request p random type payload w) = attempt_state w" "attempt_state (snd (new_promise w)) = attempt_state w"
  "attempt_state (w\<lparr>wk_waiters := a1\<rparr>) = attempt_state w" "attempt_state (w\<lparr>wk_continuations := a2\<rparr>) = attempt_state w"
  "attempt_state (w\<lparr>wk_pending := a3\<rparr>) = attempt_state w" "attempt_state (w\<lparr>wk_idCounter := a4\<rparr>) = attempt_state w"
  "attempt_state (w\<lparr>wk_plugins := a5\<rparr>) = attempt_state w" "attempt_state (w\<lparr>wk_handlers := a6\<rparr>) = attempt_state w"
  "attempt_state (w\<lparr>wk_handlerSets := a7\<rparr>) = attempt_state w" "attempt_state (w\<lparr>wk_binaryHandlers := a8\<rparr>) = attempt_state w"
  "attempt_state (w\<lparr>wk_stateListeners := a9\<rparr>) = attempt_state w" "attempt_state (w\<lparr>wk_url := a11\<rparr>) = attempt_state w"
  "attempt_state (w\<lparr>wk_reconnectAttempt := a12\<rparr>) = attempt_state w" "attempt_state (w\<lparr>wk_reportedRouteExhaustion := a13\<rparr>) = attempt_state w"
  "attempt_state (w\<lparr>wk_reconnectTimer := a14\<rparr>) = attempt_state w" "attempt_state (w\<lparr>wk_armed := a15\<rparr>) = attempt_state w"
  "attempt_state (w\<lparr>wk_routerDisposed := a17\<rparr>) = attempt_state w" "attempt_state (w\<lparr>wk_disposed := a18\<rparr>) = attempt_state w"
  by (simp_all add: attempt_state_def teardownSocket_def clearReconnectTimer_def handleSocketLoss_def arm_reconnect_def waitFor_def
      settled_promise_def new_promise_def sendRaw_def router_request_def generate_eq Let_def split: option.split)

text \<open>
  While a URL is being resolved it is the attempt, and no socket belongs to it yet. Every open promise has a keeper or
  belongs to the attempt.
\<close>

definition attempt_inv :: "socket_service \<Rightarrow> bool" where
  "attempt_inv w \<longleftrightarrow> owned (set_option (wk_rejectConnect w)) w
     \<and> (wk_resolving w \<noteq> [] \<longrightarrow> wk_userClosed w \<or> (fst ` set (wk_resolving w) \<subseteq> set_option (wk_connectPromise w) \<and> wk_rejectConnect w = None))"

lemma attempt_same: "attempt_inv w \<Longrightarrow> attempt_state v = attempt_state w \<Longrightarrow> owned (set_option (wk_rejectConnect w)) v \<Longrightarrow> attempt_inv v"
  by (simp add: attempt_inv_def attempt_state_def)

lemma attempt_over: "owned {} w \<Longrightarrow> wk_resolving w = [] \<or> wk_userClosed w \<Longrightarrow> attempt_inv w"
  by (auto simp: attempt_inv_def owned_def)

lemma attempt_inv_parts [simp]:
  assumes "attempt_inv w"
  shows "attempt_inv (failPending err w)" "attempt_inv (rejectWaiters err w)" "attempt_inv (setState next w)"
    "attempt_inv (teardownSocket w)" "attempt_inv (clearReconnectTimer w)" "attempt_inv (settled_promise r w)"
    "attempt_inv (waitFor req w)" "attempt_inv (snd (sendRaw mid type payload w))" "attempt_inv (handleSocketLoss w)"
    "attempt_inv (tell_wk c w)" "attempt_inv (settle p r w)" "attempt_inv (set_socket g f w)" "attempt_inv (handleBinary data w)"
proof -
  have owned: "owned (set_option (wk_rejectConnect w)) w" using assms by (simp add: attempt_inv_def)
  show "attempt_inv (failPending err w)" "attempt_inv (rejectWaiters err w)" "attempt_inv (setState next w)"
    "attempt_inv (teardownSocket w)" "attempt_inv (clearReconnectTimer w)" "attempt_inv (settled_promise r w)"
    "attempt_inv (waitFor req w)" "attempt_inv (snd (sendRaw mid type payload w))" "attempt_inv (handleSocketLoss w)"
    "attempt_inv (tell_wk c w)" "attempt_inv (settle p r w)" "attempt_inv (set_socket g f w)" "attempt_inv (handleBinary data w)"
    by (rule attempt_same [OF assms]; simp add: owned)+
qed

lemma attempt_inv_request: "wire_inv w \<Longrightarrow> attempt_inv w \<Longrightarrow>
    attempt_inv (router_request (fst (new_promise w)) random type payload (snd (new_promise w)))"
  by (rule attempt_same, assumption, simp, rule owned_request, rule wire_same, assumption)
    (simp_all add: owned_new attempt_inv_def)

lemma owned_opened: 
  assumes "owned {p} w"
  shows "owned (set_option (wk_rejectConnect (openSocketPromise refused p w))) (openSocketPromise refused p w)"
proof (cases refused)
  case None
  then show ?thesis using assms by (simp add: openSocketPromise_def Let_def)
next
  case (Some err)
  then show ?thesis using assms by (simp add: openSocketPromise_def drop_connect_def owned_settle Let_def)
qed

lemma opened_resolving [simp]: "wk_resolving (openSocketPromise refused p w) = wk_resolving w"
  "wk_userClosed (openSocketPromise refused p w) = wk_userClosed w"
  by (simp_all add: openSocketPromise_def drop_connect_def Let_def split: option.split)

lemma attempt_inv_connect: "link_inv w \<Longrightarrow> attempt_inv w \<Longrightarrow> attempt_inv (connect d w)"
proof -
  assume link: "link_inv w" and inv: "attempt_inv w"
  show ?thesis
  proof (cases "\<not> wk_userClosed w \<and> wk_connectPromise w = None")
    case True
    then have idle: "wk_rejectConnect w = None" "wk_resolving w = []" using link inv
      by (auto simp: link_inv_def attempt_inv_def)
    define w1 where "w1 = setState WsConnecting w"
    define p where "p = fst (new_promise w1)"
    define w2 where "w2 = snd (new_promise w1)"
    have w2: "owned {p} w2" "wk_resolving w2 = []" "wk_rejectConnect w2 = None"
      using inv idle owned_new [of "{}" w1] by (simp_all add: attempt_inv_def w1_def w2_def p_def) (simp_all add: new_promise_def)
    have "attempt_inv (tell_wk c (w2\<lparr>wk_resolving := map_set p n (wk_resolving w2), wk_connectPromise := Some p\<rparr>))" for c n
      using w2 by (auto simp: attempt_inv_def owned_def keepers_def)
    moreover have "attempt_inv ((openSocketPromise (dl_refused d) p w2)\<lparr>wk_connectPromise := Some p\<rparr>)"
      using owned_opened [OF w2(1)] w2 by (simp add: attempt_inv_def)
    ultimately show ?thesis using inv
      by (simp add: connect_def Let_def split_def w1_def [symmetric] p_def [symmetric] w2_def [symmetric])
  next
    case False
    then show ?thesis using inv by (auto simp: connect_def)
  qed
qed

lemma attempt_stop: "link_inv w \<Longrightarrow> attempt_inv w \<Longrightarrow> owned {} (stop_service err w) \<and> wk_rejectConnect (stop_service err w) = None"
proof -
  assume link: "link_inv w" and inv: "attempt_inv w"
  define v where "v = teardownSocket (clearReconnectTimer w)"
  have "attempt_inv v" using inv by (simp add: v_def)
  then have v: "link_inv v" "owned (set_option (wk_rejectConnect v)) v" using link by (simp_all add: v_def attempt_inv_def)
  have "owned {} (rejectPendingConnect err v) \<and> wk_rejectConnect (rejectPendingConnect err v) = None"
  proof (cases "wk_rejectConnect v")
    case None
    then show ?thesis using v by (simp add: rejectPendingConnect_def Let_def)
  next
    case (Some p)
    then show ?thesis using v by (auto simp: rejectPendingConnect_def link_inv_def Let_def intro: owned_settle)
  qed
  then show ?thesis by (simp add: stop_service_def v_def)
qed

text \<open>A run is orderly when the current socket is quiet while a URL is being resolved for the next one.\<close>

fun socket_of :: "service_event \<Rightarrow> nat option" where
  "socket_of (SocketOpen g) = Some g"
| "socket_of (SocketClosed g) = Some g"
| "socket_of (SocketError g) = Some g"
| "socket_of (HandshakeDone g) = Some g"
| "socket_of (HandshakeFailed g err disposes) = Some g"
| "socket_of _ = None"

definition orderly :: "socket_service \<Rightarrow> service_event \<Rightarrow> bool" where
  "orderly w e \<longleftrightarrow> wk_userClosed w \<or> wk_resolving w = [] \<or> socket_of e \<noteq> Some (wk_generation w)"

fun orderly_run :: "socket_service \<Rightarrow> service_event list \<Rightarrow> bool" where
  "orderly_run w [] = True"
| "orderly_run w (e # es) = (orderly w e \<and> orderly_run (service_step w e) es)"

lemma socket_promise:
  assumes "link_inv w" "attempt_inv w" "map_get (wk_sockets w) (wk_generation w) = Some s"
  shows "owned {ps_promise s} w"
proof (cases "wk_rejectConnect w")
  case (Some p)
  then have "p = ps_promise s" using assms by (simp add: link_inv_def)
  then show ?thesis using assms(2) Some by (simp add: attempt_inv_def)
qed (use assms(2) in \<open>auto simp: attempt_inv_def owned_def\<close>)

lemma dropped_fields [simp]: "wk_rejectConnect (drop_connect w) = None" "wk_resolving (drop_connect w) = wk_resolving w"
  "wk_userClosed (drop_connect w) = wk_userClosed w"
  by (simp_all add: drop_connect_def)

lemma attempt_settled: "owned {p} w \<Longrightarrow> wk_resolving w = [] \<or> wk_userClosed w \<Longrightarrow> wk_rejectConnect w = None \<Longrightarrow> attempt_inv (settle p r w)"
  by (rule attempt_over) (simp_all add: owned_settle)

lemma attempt_established: "owned {p} w \<Longrightarrow> wk_resolving w = [] \<or> wk_userClosed w \<Longrightarrow> attempt_inv (established p w)"
  unfolding established_def by (rule attempt_settled) simp_all

lemma wired_SomeD: "wired g w = Some s \<Longrightarrow> map_get (wk_sockets w) g = Some s \<and> ps_wired s \<and> ps_ready s \<noteq> SockClosed"
  by (simp add: wired_def split: option.splits if_splits)

lemma attempt_inv_dispose: "link_inv w \<Longrightarrow> attempt_inv w \<Longrightarrow> attempt_inv (dispose_service w)"
proof -
  assume inv: "link_inv w" "attempt_inv w"
  define v where "v = setState WsDisconnected (rejectWaiters ''WebSocketService disposed'' (router_dispose
      ((stop_service ''WebSocketService disposed'' w)\<lparr>wk_disposed := True, wk_userClosed := True\<rparr>)))"
  have "owned {} v" "wk_userClosed v" using attempt_stop [OF inv] by (simp_all add: v_def router_dispose_def)
  moreover have "owned {} (fold (\<lambda>name. tell_wk (PluginTornDown name)) ps u) = owned {} u"
    "wk_userClosed (fold (\<lambda>name. tell_wk (PluginTornDown name)) ps u) = wk_userClosed u" for ps u
    by (induction ps arbitrary: u) simp_all
  ultimately have "attempt_inv ((fold (\<lambda>name. tell_wk (PluginTornDown name)) (wk_plugins v) v)\<lparr>wk_plugins := [], wk_stateListeners := []\<rparr>)"
    by (intro attempt_over) simp_all
  then show ?thesis using inv by (simp add: dispose_stops v_def [symmetric])
qed

lemma attempt_inv_disconnect: "link_inv w \<Longrightarrow> attempt_inv w \<Longrightarrow> attempt_inv (disconnect w)"
  using attempt_stop by (intro attempt_over) (simp_all add: disconnect_stops)

lemma attempt_inv_open:
  assumes "link_inv w" "attempt_inv w" "orderly w (SocketOpen g)"
  shows "attempt_inv (onopen g w)"
proof (cases "wired g w")
  case (Some s)
  show ?thesis
  proof (cases "wk_generation w = g")
    case True
    then have "owned {ps_promise s} w" using Some wired_SomeD socket_promise [OF assms(1,2)] by blast
    then show ?thesis using True Some assms(2,3)
      by (auto simp: onopen_def orderly_def Let_def intro!: attempt_established)
  qed (use Some assms(2) in \<open>simp add: onopen_def\<close>)
qed (use assms(2) in \<open>simp add: onopen_def\<close>)

lemma attempt_inv_handshake:
  assumes "link_inv w" "attempt_inv w" "orderly w (HandshakeDone g)"
  shows "attempt_inv (handshakeDone g w)"
proof (cases "map_get (wk_sockets w) g")
  case (Some s)
  show ?thesis
  proof (cases "wk_generation w = g")
    case True
    then have "owned {ps_promise s} w" using Some socket_promise [OF assms(1,2)] by blast
    then show ?thesis using True Some assms(2,3)
      by (auto simp: handshakeDone_def orderly_def Let_def intro!: attempt_established)
  qed (use Some assms(2) in \<open>simp add: handshakeDone_def Let_def\<close>)
qed (use assms(2) in \<open>simp add: handshakeDone_def\<close>)

lemma attempt_inv_refused:
  assumes "link_inv w" "attempt_inv w" "orderly w (HandshakeFailed g err disposes)"
  shows "attempt_inv (handshakeFailed g err disposes w)"
proof (cases "map_get (wk_sockets w) g")
  case (Some s)
  show ?thesis
  proof (cases "wk_generation w = g")
    case True
    define w2 where "w2 = settle (ps_promise s) (Failed err) (drop_connect (set_socket g (\<lambda>s. s\<lparr>ps_handshaking := False\<rparr>) w))"
    have "owned {ps_promise s} w" using True Some socket_promise [OF assms(1,2)] by blast
    then have inv: "attempt_inv w2" "link_inv w2" using assms True
      by (auto simp: w2_def orderly_def intro!: attempt_settled)
    then have "attempt_inv (dispose_service (tell_wk c w2))" for c by (intro attempt_inv_dispose) simp_all
    then show ?thesis using inv assms(2) Some True
      by (simp add: handshakeFailed_def failConnection_def w2_def [symmetric] Let_def)
  qed (use Some assms(2) in \<open>simp add: handshakeFailed_def Let_def\<close>)
qed (use assms(2) in \<open>simp add: handshakeFailed_def\<close>)

lemma attempt_inv_error:
  assumes "link_inv w" "attempt_inv w" "orderly w (SocketError g)"
  shows "attempt_inv (onerror g w)"
proof (cases "wired g w")
  case (Some s)
  show ?thesis
  proof (cases "wk_generation w = g")
    case True
    then have "owned {ps_promise s} w" using Some wired_SomeD socket_promise [OF assms(1,2)] by blast
    then have "attempt_inv (settle (ps_promise s) r (drop_connect w))" for r
      using True assms(3) by (auto simp: orderly_def intro!: attempt_settled)
    then show ?thesis using True Some assms(2) by (simp add: onerror_def Let_def)
  qed (use Some assms(2) in \<open>simp add: onerror_def\<close>)
qed (use assms(2) in \<open>simp add: onerror_def\<close>)

lemma attempt_inv_closed:
  assumes "link_inv w" "attempt_inv w" "orderly w (SocketClosed g)"
  shows "attempt_inv (onclose g w)"
proof (cases "wired g w")
  case (Some s)
  show ?thesis
  proof (cases "wk_generation w = g")
    case True
    then have "owned {ps_promise s} w" using Some wired_SomeD socket_promise [OF assms(1,2)] by blast
    then have "attempt_inv (settle (ps_promise s) r (drop_connect (set_socket g f w)))" for r f
      using True assms(3) by (auto simp: orderly_def intro!: attempt_settled)
    then show ?thesis using True Some assms(2) by (simp add: onclose_def Let_def)
  qed (use Some assms(2) in \<open>simp add: onclose_def Let_def\<close>)
qed (use assms(2) in \<open>simp add: onclose_def Let_def\<close>)

lemma attempt_fields:
  assumes "attempt_state v = attempt_state w"
  shows "wk_connectPromise v = wk_connectPromise w" "wk_rejectConnect v = wk_rejectConnect w" "wk_resolving v = wk_resolving w"
    "wk_userClosed v = wk_userClosed w"
  using assms by (simp_all add: attempt_state_def)

lemmas loss_fields [simp] = attempt_fields [OF attempt_parts(11)]

lemma attempt_inv_url:
  assumes "link_inv w" "attempt_inv w"
  shows "attempt_inv (urlSettled q result refused w)"
proof (cases "map_get (wk_resolving w) q")
  case (Some attempt)
  define w0 where "w0 = w\<lparr>wk_resolving := map_delete q (wk_resolving w)\<rparr>"
  have q: "q \<in> fst ` set (wk_resolving w)" using map_of_SomeD [OF Some] by force
  then have idle: "wk_rejectConnect w = None" using assms by (auto simp: link_inv_def attempt_inv_def)
  have "fst ` set (wk_resolving w) \<subseteq> {q}" if "\<not> wk_userClosed w"
  proof -
    have "fst ` set (wk_resolving w) \<subseteq> set_option (wk_connectPromise w)" using that q assms(2) by (auto simp: attempt_inv_def)
    then show ?thesis using q by (cases "wk_connectPromise w") auto
  qed
  then have none: "wk_resolving w0 = [] \<or> wk_userClosed w0" by (force simp: w0_def AList.delete_eq filter_empty_conv)
  have "owned {} w" using assms(2) idle by (simp add: attempt_inv_def)
  then have w0: "owned {q} w0" by (force simp: owned_def keepers_def w0_def set_map_delete)
  have failed: "attempt_inv (settle q r v)" if "owned {q} w0 \<Longrightarrow> owned {q} v" "attempt_state v = attempt_state (drop_connect w0)" for r v
    using that(1) [OF w0] attempt_fields [OF that(2)] none by (intro attempt_settled) simp_all
  show ?thesis
  proof (cases "wk_userClosed w0")
    case True
    then have "attempt_inv (settle q r (drop_connect w0))" for r by (intro failed) simp_all
    moreover have "wk_disposed w0 \<Longrightarrow> wk_userClosed w0" by (simp add: True)
    ultimately show ?thesis using Some True
      by (simp add: urlSettled_def Let_def w0_def [symmetric] split: sum.split)
  next
    case False
    have ok: "owned {q} (case url of None \<Rightarrow> w0 | Some u \<Rightarrow> if u = [] then w0 else w0\<lparr>wk_url := u\<rparr>)"
      "wk_resolving (case url of None \<Rightarrow> w0 | Some u \<Rightarrow> if u = [] then w0 else w0\<lparr>wk_url := u\<rparr>) = []" for url
      using w0 none False by (simp_all split: option.split)
    have opened: "attempt_inv ((openSocketPromise refused q (case url of None \<Rightarrow> w0 | Some u \<Rightarrow> if u = [] then w0 else w0\<lparr>wk_url := u\<rparr>))
      \<lparr>wk_connectPromise := Some q\<rparr>)" for url
      using owned_opened [OF ok(1)] ok(2) by (simp add: attempt_inv_def)
    have drops: "owned {q} w0 \<Longrightarrow> owned {q} (drop_connect w0)" by simp
    have "attempt_inv (settle q r (setState st (rejectWaiters e1 (failPending e2 (drop_connect w0)))))"
      "attempt_inv (settle q r (handleSocketLoss (drop_connect w0)))" "attempt_inv (settle q r (drop_connect w0))" for r st e1 e2
      by (intro failed; simp add: drops)+
    then show ?thesis using Some False opened
      by (simp add: urlSettled_def Let_def w0_def [symmetric] split: sum.split)
  qed
qed (simp add: urlSettled_def assms)

lemma attempt_inv_timeouts:
  assumes "wire_inv w" "attempt_inv w"
  shows "attempt_inv (requestTimeout mid w)" "attempt_inv (waiterTimeout p w)" "attempt_inv (handleIncoming m w)"
proof -
  have own: "owned (set_option (wk_rejectConnect w)) w" using assms(2) by (simp add: attempt_inv_def)
  then show "attempt_inv (handleIncoming m w)" using assms by (intro attempt_same [OF assms(2)]) (simp_all add: owned_incoming)
  have expires: "requestTimeout mid w = w \<or> (\<exists>p type. map_get (wk_pending w) mid = Some (p, type)
      \<and> requestTimeout mid w = settle p (Failed (''Request timeout: '' @ type)) (w\<lparr>wk_pending := map_delete mid (wk_pending w)\<rparr>))"
    by (simp add: requestTimeout_def split: option.split)
  have "wt_promise ` set (wk_waiters w) \<subseteq> insert p (wt_promise ` set (filter (\<lambda>wt. wt_promise wt \<noteq> p) (wk_waiters w)))" by auto
  then have "owned (insert p (set_option (wk_rejectConnect w))) (w\<lparr>wk_waiters := filter (\<lambda>wt. wt_promise wt \<noteq> p) (wk_waiters w)\<rparr>)"
    using own unfolding owned_def keepers_def by simp blast
  then show "attempt_inv (waiterTimeout p w)"
    using assms(2) by (auto simp: waiterTimeout_def intro!: attempt_same [OF assms(2)] owned_settle)
  show "attempt_inv (requestTimeout mid w)"
  proof (rule disjE [OF expires])
    assume "\<exists>p type. map_get (wk_pending w) mid = Some (p, type)
      \<and> requestTimeout mid w = settle p (Failed (''Request timeout: '' @ type)) (w\<lparr>wk_pending := map_delete mid (wk_pending w)\<rparr>)"
    then obtain p type where some: "map_get (wk_pending w) mid = Some (p, type)"
      and eq: "requestTimeout mid w = settle p (Failed (''Request timeout: '' @ type)) (w\<lparr>wk_pending := map_delete mid (wk_pending w)\<rparr>)" by blast
    define m where "m = \<lparr>sm_type = [], sm_id = mid, sm_payload = [], sm_errorMessage = None\<rparr>"
    have "owned (set_option (wk_rejectConnect w)) (handleIncoming m w)" using owned_incoming [OF assms(1) own] .
    then show ?thesis unfolding eq using some by (intro attempt_same [OF assms(2)]) (simp_all add: m_def owned_def keepers_def)
  qed (simp add: assms)
qed

definition waits_inv :: "socket_service \<Rightarrow> bool" where
  "waits_inv w \<longleftrightarrow> link_inv w \<and> wire_inv w \<and> attempt_inv w"

lemma attempt_simple [simp]:
  "attempt_inv (w\<lparr>wk_plugins := a1\<rparr>) = attempt_inv w" "attempt_inv (w\<lparr>wk_handlers := a2\<rparr>) = attempt_inv w"
  "attempt_inv (w\<lparr>wk_handlerSets := a3\<rparr>) = attempt_inv w" "attempt_inv (w\<lparr>wk_binaryHandlers := a4\<rparr>) = attempt_inv w"
  "attempt_inv (w\<lparr>wk_stateListeners := a5\<rparr>) = attempt_inv w" "attempt_inv (w\<lparr>wk_idCounter := a6\<rparr>) = attempt_inv w"
  "attempt_inv (w\<lparr>wk_armed := a7\<rparr>) = attempt_inv w" "attempt_inv (w\<lparr>wk_reconnectTimer := a8\<rparr>) = attempt_inv w"
  by (simp_all add: attempt_inv_def)

lemma attempt_inv_continues: "wire_inv w \<Longrightarrow> attempt_inv w \<Longrightarrow> attempt_inv (request_continues random now w)"
proof (cases "wk_continuations w")
  case (Cons c cs)
  assume inv: "wire_inv w" "attempt_inv w"
  obtain p q where c: "c = (p, q)" by (cases c)
  have own: "owned (insert p (set_option (wk_rejectConnect w))) (w\<lparr>wk_continuations := cs\<rparr>)"
    using inv(2) Cons c by (auto simp: attempt_inv_def owned_def keepers_def)
  have "wire_inv (w\<lparr>wk_continuations := cs\<rparr>)" by (rule wire_same [OF inv(1)]) simp_all
  then have "attempt_inv (router_request p random type payload (w\<lparr>wk_continuations := cs\<rparr>))" for type payload
    by (intro attempt_same [OF inv(2)]) (simp_all add: owned_request own)
  moreover have "attempt_inv (settle p r (w\<lparr>wk_continuations := cs\<rparr>))" for r
    by (intro attempt_same [OF inv(2)]) (simp_all add: owned_settle own)
  ultimately show ?thesis using Cons c by (simp add: request_continues_def Let_def)
qed (simp add: request_continues_def)

lemma waits_inv_step: "waits_inv w \<Longrightarrow> orderly w e \<Longrightarrow> waits_inv (service_step w e)"
proof -
  assume inv: "waits_inv w" and order: "orderly w e"
  then have parts: "link_inv w" "wire_inv w" "attempt_inv w" by (simp_all add: waits_inv_def)
  have cleared: "link_inv (w\<lparr>wk_armed := a, wk_reconnectTimer := t\<rparr>)" "attempt_inv (w\<lparr>wk_armed := a, wk_reconnectTimer := t\<rparr>)" for a t
    using parts by simp_all
  have "attempt_inv (service_step w e)"
    using parts order attempt_inv_connect [OF cleared] attempt_inv_continues [OF parts(2,3)]
    by (cases e)
      (simp_all add: attempt_inv_connect attempt_inv_disconnect attempt_inv_dispose attempt_inv_open attempt_inv_handshake
        attempt_inv_refused attempt_inv_error attempt_inv_closed attempt_inv_url attempt_inv_timeouts attempt_inv_request
        reconnectNow_def reportUnresponsive_def use_def unregister_def sendTracked_def request_def waitForConnection_def
        subscribe_def unsubscribe_def onmessage_def handshakeSends_def handshakeRequests_def generate_eq reconnectTimerFires_def
        Let_def split_def split: option.split frame.split)
  then show ?thesis using link_inv_step wire_inv_step parts by (simp add: waits_inv_def)
qed

lemma waits_inv_run: "waits_inv w \<Longrightarrow> orderly_run w es \<Longrightarrow> waits_inv (foldl service_step w es)"
  by (induction es arbitrary: w) (simp_all add: waits_inv_step)

lemma waits_inv_new [simp]: "waits_inv (new_service url options)"
  by (simp add: waits_inv_def attempt_inv_def owned_def) (simp add: new_service_def)

section \<open>After the disposal\<close>

definition loud :: "service_call \<Rightarrow> bool" where
  "loud c \<longleftrightarrow> (\<forall>p err. c \<noteq> Settled p (Failed err))"

definition still :: "socket_service \<Rightarrow> bool" where
  "still w \<longleftrightarrow> wk_routerDisposed w \<and> wk_pending w = [] \<and> wk_waiters w = [] \<and> wk_state w = WsDisconnected"

definition done_inv :: "socket_service \<Rightarrow> bool" where
  "done_inv w \<longleftrightarrow> link_inv w \<and> (wk_disposed w \<longrightarrow> still w)"

lemma disposed_kept [simp]:
  "wk_disposed (teardownSocket w) = wk_disposed w" "wk_disposed (clearReconnectTimer w) = wk_disposed w"
  "wk_disposed (drop_connect w) = wk_disposed w" "wk_disposed (settled_promise r w) = wk_disposed w"
  "wk_disposed (waitFor req w) = wk_disposed w" "wk_disposed (snd (sendRaw mid type payload w)) = wk_disposed w"
  "wk_disposed (handleSocketLoss w) = wk_disposed w" "wk_disposed (established p w) = wk_disposed w"
  "wk_disposed (snd (new_promise w)) = wk_disposed w" "wk_disposed (router_request p random type payload w) = wk_disposed w"
  "wk_disposed (openSocketPromise refused p w) = wk_disposed w" "wk_disposed (connect d w) = wk_disposed w"
  "wk_disposed (urlSettled q result refused w) = wk_disposed w" "wk_disposed (disconnect w) = wk_disposed w"
  by (simp_all add: teardownSocket_def clearReconnectTimer_def drop_connect_def settled_promise_def waitFor_def sendRaw_def
      handleSocketLoss_def arm_reconnect_def established_def new_promise_def router_request_def generate_eq openSocketPromise_def
      connect_def urlSettled_def disconnect_stops Let_def split_def split: option.split sum.split)

lemma fold_ws: "wk_ws (fold (\<lambda>name. tell_wk (PluginTornDown name)) ps v) = wk_ws v"
  by (induction ps arbitrary: v) simp_all

lemma dispose_still:
  assumes "\<not> wk_disposed w"
  shows "wk_disposed (dispose_service w)" "still (dispose_service w)"
proof -
  have plugins: "rest (fold (\<lambda>name. tell_wk (PluginTornDown name)) ps v) = rest v" for ps v by (rule rest_fold) simp
  note fields = rest_fields(8,15,17,25,26) [OF plugins]
  have "\<not> connects WsDisconnected v" for v by (simp add: connects_def)
  then show "still (dispose_service w)" using assms by (simp add: dispose_stops still_def router_dispose_def fields Let_def)
  show "wk_disposed (dispose_service w)" using assms by (simp add: dispose_stops router_dispose_def fields Let_def)
qed

fun about_plugins :: "service_event \<Rightarrow> bool" where
  "about_plugins (UsePlugin name) = True"
| "about_plugins (UnregisterPlugin name) = True"
| "about_plugins _ = False"

lemma still_kept: "still w \<Longrightarrow> wk_routerDisposed v = wk_routerDisposed w \<and> wk_pending v = wk_pending w \<and> wk_waiters v = wk_waiters w
    \<and> wk_state v = wk_state w \<Longrightarrow> still v"
  by (simp add: still_def)

lemma heard_promises [simp]: "heard P (w\<lparr>wk_promises := n\<rparr>) = heard P w"
  by (simp add: heard_def)

lemma loud_losses [simp]: "heard loud (failPending err w) = heard loud w" "heard loud (rejectWaiters err w) = heard loud w"
  "heard loud (stop_service err w) = heard loud w"
proof -
  have settle: "heard loud (settle p (Failed r) v) = heard loud v" for p r v by (simp add: heard_settle loud_def)
  have "heard loud (fold (\<lambda>(mid, p, type). settle p (Failed err)) ps v) = heard loud v" for ps v
    by (rule heard_fold) (simp add: settle split_def)
  then show "heard loud (failPending err w) = heard loud w" by (simp add: failPending_def)
  have "heard loud (fold (\<lambda>wt. settle (wt_promise wt) (Failed err)) ws v) = heard loud v" for v and ws :: "connection_waiter list"
    by (rule heard_fold) (simp add: settle)
  then show "heard loud (rejectWaiters err w) = heard loud w" by (simp add: rejectWaiters_def)
  show "heard loud (stop_service err w) = heard loud w"
    by (simp add: stop_service_def rejectPendingConnect_def teardownSocket_def clearReconnectTimer_def settle Let_def split: option.split)
qed

lemma still_settled [simp]: "still (settle p r w) = still w" "heard loud (settle p (Failed err) w) = heard loud w"
  "still (drop_connect w) = still w" "heard loud (drop_connect w) = heard loud w"
  "still (settled_promise r w) = still w" "heard loud (settled_promise (Failed err) w) = heard loud w"
  "still (set_socket g f w) = still w"
  by (simp_all add: still_def heard_settle loud_def drop_connect_def settled_promise_def new_promise_def Let_def)

lemma still_updates [simp]:
  "still (w\<lparr>wk_plugins := a1\<rparr>) = still w" "still (w\<lparr>wk_handlers := a2\<rparr>) = still w" "still (w\<lparr>wk_handlerSets := a3\<rparr>) = still w"
  "still (w\<lparr>wk_binaryHandlers := a4\<rparr>) = still w" "still (w\<lparr>wk_stateListeners := a5\<rparr>) = still w"
  "still (w\<lparr>wk_idCounter := a6\<rparr>) = still w" "still (w\<lparr>wk_armed := a7\<rparr>) = still w" "still (w\<lparr>wk_reconnectTimer := a8\<rparr>) = still w"
  "still (w\<lparr>wk_resolving := a9\<rparr>) = still w" "still (w\<lparr>wk_continuations := a10\<rparr>) = still w" "still (tell_wk c w) = still w"
  "still (w\<lparr>wk_promises := a11\<rparr>) = still w" "still (w\<lparr>wk_open := a12\<rparr>) = still w"
  by (simp_all add: still_def)

lemma clear_still [simp]: "still (clearReconnectTimer w) = still w" "heard loud (clearReconnectTimer w) = heard loud w"
  by (simp_all add: clearReconnectTimer_def split: option.split)

lemma disconnect_still: "still w \<Longrightarrow> still (disconnect w) \<and> heard loud (disconnect w) = heard loud w"
proof -
  assume "still w"
  then have "setState WsDisconnected (rejectWaiters e (failPending e (v\<lparr>wk_disposed := d, wk_userClosed := True\<rparr>)))
      = rejectWaiters e (failPending e (v\<lparr>wk_disposed := d, wk_userClosed := True\<rparr>))" if "wk_state v = wk_state w" for e v d
    using that by (simp add: setState_def still_def)
  then show ?thesis using \<open>still w\<close> by (simp add: disconnect_stops) (simp add: still_def)
qed

lemma disposed_service_step:
  assumes inv: "link_inv w" "wk_disposed w" "still w"
  shows "still (service_step w e) \<and> wk_disposed (service_step w e)
    \<and> (\<not> about_plugins e \<longrightarrow> heard loud (service_step w e) = heard loud w)"
proof -
  have closed: "wk_userClosed w" "wk_ws w = None" "wk_connectPromise w = None" using inv by (simp_all add: link_inv_def)
  have unwired: "wired (wk_generation w) w = None"
    using inv(1) closed by (auto simp: link_inv_def wired_def split: option.splits)
  have dead: "\<not> live_socket g w" for g using closed by (simp add: live_socket_def)
  have off: "wk_routerDisposed w" "wk_pending w = []" "wk_waiters w = []" "wk_state w = WsDisconnected"
    using inv(3) by (simp_all add: still_def)
  have dead': "\<not> live_socket g (settle p r (drop_connect (set_socket h f w)))" "\<not> live_socket g (set_socket h f w)" for g p r h f
    using closed by (simp_all add: live_socket_def drop_connect_def)
  show ?thesis
    using inv closed unwired dead dead' off disconnect_still [OF inv(3)]
    by (cases e) (auto simp: connect_def reconnectNow_def dispose_service_def reportUnresponsive_def use_def
        unregister_def sendTracked_def request_def waitForConnection_def waitFor_def subscribe_def unsubscribe_def onopen_def
        onclose_def onerror_def onmessage_def handshakeDone_def handshakeFailed_def handshakeSends_def handshakeRequests_def
        generate_eq router_request_def urlSettled_def reconnectTimerFires_def requestTimeout_def waiterTimeout_def
        request_continues_def new_promise_def Let_def split_def split: option.split sum.split list.split)
qed

lemma done_inv_step: "done_inv w \<Longrightarrow> done_inv (service_step w e)"
proof -
  assume inv: "done_inv w"
  then have link: "link_inv (service_step w e)" by (simp add: done_inv_def link_inv_step)
  show ?thesis
  proof (cases "wk_disposed w")
    case True
    then show ?thesis using inv link disposed_service_step [of w e] by (simp add: done_inv_def)
  next
    case False
    have refused: "wk_disposed (handshakeFailed g err disposes w) \<Longrightarrow> still (handshakeFailed g err disposes w)" for g err disposes
    proof -
      assume after: "wk_disposed (handshakeFailed g err disposes w)"
      define w3 where "w3 p = tell_wk (HandshakeRefused err) (settle p (Failed err) (drop_connect (set_socket g (\<lambda>s. s\<lparr>ps_handshaking := False\<rparr>) w)))" for p
      have alive: "\<not> wk_disposed (w3 p)" for p using False by (simp add: w3_def)
      then have gone: "wk_disposed (dispose_service (w3 p))" "still (dispose_service (w3 p))" "wk_ws (dispose_service (w3 p)) = None" for p
        using dispose_still [of "w3 p"] by simp_all (simp add: dispose_stops fold_ws Let_def router_dispose_def)
      then have dead: "\<not> live_socket h (dispose_service (w3 p))" for h p by (simp add: live_socket_def)
      show ?thesis using after False alive gone dead
        by (auto simp: handshakeFailed_def failConnection_def w3_def [symmetric] Let_def split: option.splits if_splits)
    qed
    have "still (service_step w e)" if "wk_disposed (service_step w e)"
      using that False refused dispose_still(2) [of w]
      by (cases e) (auto simp: reconnectNow_def reportUnresponsive_def use_def unregister_def sendTracked_def request_def
        waitForConnection_def subscribe_def unsubscribe_def onopen_def onclose_def onerror_def onmessage_def handshakeDone_def
        handshakeSends_def handshakeRequests_def generate_eq reconnectTimerFires_def requestTimeout_def waiterTimeout_def
        request_continues_def Let_def split_def split: option.splits list.splits frame.splits if_splits)
    then show ?thesis using link by (simp add: done_inv_def)
  qed
qed

lemma done_inv_new [simp]: "done_inv (new_service url options)"
  by (simp add: done_inv_def) (simp add: new_service_def)

interpretation disposal: event_machine service_step done_inv
  by unfold_locales (rule done_inv_step)

lemma disposed_by: "DisposeService \<in> set es \<Longrightarrow> done_inv w \<Longrightarrow> wk_disposed (foldl service_step w es)"
proof (induction es arbitrary: w)
  case (Cons e es)
  have kept: "wk_disposed v \<Longrightarrow> done_inv v \<Longrightarrow> wk_disposed (foldl service_step v es)" for v
  proof (induction es arbitrary: v)
    case (Cons e es)
    then have "wk_disposed (service_step v e)" using disposed_service_step [of v e] by (simp add: done_inv_def)
    then show ?case using Cons.IH [OF _ done_inv_step [OF Cons.prems(2)]] by simp
  qed simp
  show ?case
  proof (cases "e = DisposeService")
    case True
    have "wk_disposed (dispose_service w)" using dispose_still(1) [of w] by (cases "wk_disposed w") (simp_all add: dispose_service_def)
    then show ?thesis using True Cons kept [of "dispose_service w"] done_inv_step [of w DisposeService] by simp
  qed (use Cons in \<open>simp add: done_inv_step\<close>)
qed simp

lemma disposed_settles:
  assumes "wk_disposed w" "wk_routerDisposed w"
  shows "q \<in> fst ` set (wk_resolving w) \<Longrightarrow> q \<notin> set (wk_open (urlSettled q result refused w))"
    "wk_continuations w = (p, r) # cs \<Longrightarrow> p \<notin> set (wk_open (request_continues random now w))"
proof -
  assume "q \<in> fst ` set (wk_resolving w)"
  then obtain attempt where "map_get (wk_resolving w) q = Some attempt" by (metis map_of_eq_None_iff option.exhaust)
  then show "q \<notin> set (wk_open (urlSettled q result refused w))"
    using assms by (simp add: urlSettled_def drop_connect_def Let_def split: sum.split)
next
  assume "wk_continuations w = (p, r) # cs"
  then show "p \<notin> set (wk_open (request_continues random now w))"
    using assms by (simp add: request_continues_def router_request_def Let_def)
qed



end
