(* ===== verification/Socket_Recovery.thy ===== *)
theory Socket_Recovery
  imports Socket_Waiting
begin

text \<open>
  Losing and regaining the connection: the schedule of the reconnects, and what being connected means.
\<close>

section \<open>The schedule of the reconnects\<close>

fun armed_delay :: "service_call \<Rightarrow> int" where
  "armed_delay (ReconnectArmed t delay) = delay"
| "armed_delay _ = 0"

definition armed_delays :: "socket_service \<Rightarrow> int list" where
  "armed_delays w = map armed_delay (heard is_armed w)"

definition reconnectBase :: "socket_service \<Rightarrow> int" where
  "reconnectBase w = the_default DEFAULT_RECONNECT_BASE_DELAY (wo_reconnectBaseDelay (wk_options w))"

definition tries :: "socket_service \<Rightarrow> service_options \<times> nat \<times> int list" where
  "tries w = (wk_options w, wk_reconnectAttempt w, armed_delays w)"

lemma tries_parts [simp]:
  "tries (failPending err w) = tries w" "tries (rejectWaiters err w) = tries w" "tries (setState next w) = tries w"
  "tries (settle p (Failed err) w) = tries w" "tries (settle p Fulfilled w) = tries w" "tries (teardownSocket w) = tries w"
  "tries (clearReconnectTimer w) = tries w" "tries (rejectPendingConnect err w) = tries w" "tries (drop_connect w) = tries w"
  "tries (waitFor req w) = tries w" "tries (settled_promise (Failed err) w) = tries w" "tries (settled_promise Fulfilled w) = tries w"
  "tries (handleBinary data w) = tries w" "tries (openSocketPromise refused p w) = tries w" "tries (connect d w) = tries w"
  "tries (set_socket g f w) = tries w" "tries (handleIncoming m w) = tries w" "tries (router_request p random type payload w) = tries w"
  "tries (snd (new_promise w)) = tries w" "tries (disconnect w) = tries w" "tries (dispose_service w) = tries w"
proof -
  have fields: "wk_options (fold (\<lambda>name. tell_wk (PluginTornDown name)) ps v) = wk_options v"
    "wk_reconnectAttempt (fold (\<lambda>name. tell_wk (PluginTornDown name)) ps v) = wk_reconnectAttempt v" for ps v
    by (induction ps arbitrary: v) simp_all
  have incoming: "heard is_armed (handleIncoming m w) = heard is_armed w" by (simp add: heard_incoming split: option.split)
  have request: "heard is_armed (router_request p random type payload w) = heard is_armed w"
    by (simp add: router_request_def generate_eq sendRaw_def Let_def split: option.split)
  show "tries (failPending err w) = tries w" "tries (rejectWaiters err w) = tries w" "tries (setState next w) = tries w"
    "tries (settle p (Failed err) w) = tries w" "tries (settle p Fulfilled w) = tries w" "tries (teardownSocket w) = tries w"
    "tries (clearReconnectTimer w) = tries w" "tries (rejectPendingConnect err w) = tries w" "tries (drop_connect w) = tries w"
    "tries (waitFor req w) = tries w" "tries (settled_promise (Failed err) w) = tries w" "tries (settled_promise Fulfilled w) = tries w"
    "tries (handleBinary data w) = tries w" "tries (openSocketPromise refused p w) = tries w" "tries (connect d w) = tries w"
    "tries (set_socket g f w) = tries w" "tries (handleIncoming m w) = tries w" "tries (router_request p random type payload w) = tries w"
    "tries (snd (new_promise w)) = tries w" "tries (disconnect w) = tries w" "tries (dispose_service w) = tries w"
    by (simp_all add: tries_def armed_delays_def incoming request)
      (simp_all add: teardownSocket_def clearReconnectTimer_def rejectPendingConnect_def drop_connect_def waitFor_def settled_promise_def
        openSocketPromise_def connect_def new_promise_def router_request_def generate_eq sendRaw_def disconnect_def dispose_service_def
        router_dispose_def fields Let_def split: option.split)
qed

lemma tries_updates [simp]:
  "tries (w\<lparr>wk_waiters := a1\<rparr>) = tries w" "tries (w\<lparr>wk_continuations := a2\<rparr>) = tries w"
  "tries (w\<lparr>wk_pending := a3\<rparr>) = tries w" "tries (w\<lparr>wk_idCounter := a4\<rparr>) = tries w"
  "tries (w\<lparr>wk_plugins := a5\<rparr>) = tries w" "tries (w\<lparr>wk_handlers := a6\<rparr>) = tries w"
  "tries (w\<lparr>wk_handlerSets := a7\<rparr>) = tries w" "tries (w\<lparr>wk_binaryHandlers := a8\<rparr>) = tries w"
  "tries (w\<lparr>wk_stateListeners := a9\<rparr>) = tries w" "tries (w\<lparr>wk_url := a10\<rparr>) = tries w"
  "tries (w\<lparr>wk_armed := a11\<rparr>) = tries w" "tries (w\<lparr>wk_reconnectTimer := a12\<rparr>) = tries w"
  "tries (w\<lparr>wk_resolving := a13\<rparr>) = tries w" "tries (w\<lparr>wk_connectPromise := a14\<rparr>) = tries w"
  "tries (tell_wk (ErrorTold err) w) = tries w" "tries (tell_wk (HandshakeStarted g) w) = tries w"
  "tries (tell_wk (HandshakeRefused err) w) = tries w" "tries (tell_wk (PluginInstalled n) w) = tries w"
  "tries (tell_wk (PluginTornDown n) w) = tries w" "tries (tell_wk (Sent h mid type payload) w) = tries w"
  by (simp_all add: tries_def armed_delays_def is_armed_def)

text \<open>What one step does to the schedule: nothing, a fast retry, or a slow probe of a pinned route.\<close>

definition next_try :: "socket_service \<Rightarrow> socket_service \<Rightarrow> bool" where
  "next_try w v \<longleftrightarrow> tries v = tries w
     \<or> (wk_reconnectAttempt w < maxAttempts w
        \<and> tries v = (wk_options w, Suc (wk_reconnectAttempt w), armed_delays w @ [reconnectDelayMs (wk_reconnectAttempt w) (reconnectBase w)]))
     \<or> (maxAttempts w \<le> wk_reconnectAttempt w \<and> wo_persistentReconnect (wk_options w)
        \<and> tries v = (wk_options w, wk_reconnectAttempt w, armed_delays w @ [PERSISTENT_RECONNECT_DELAY_MS]))"

lemma next_try_refl [simp]: "next_try w w"
  by (simp add: next_try_def)

lemma next_try_cong: "tries v = tries v' \<Longrightarrow> next_try w v = next_try w v'"
  by (simp add: next_try_def)

lemma next_try_from: "tries u = tries w \<Longrightarrow> next_try u v = next_try w v"
  by (simp add: next_try_def tries_def maxAttempts_def reconnectBase_def)

lemma next_try_loss [simp]: "next_try w (handleSocketLoss w)"
proof (cases "wk_disposed w \<or> wk_userClosed w")
  case True
  then show ?thesis by (simp add: handleSocketLoss_def)
next
  case active: False
  define w1 where "w1 = failPending ''Connection lost'' w"
  have "tries w1 = tries w" by (simp add: w1_def)
  then have w1: "wk_options w1 = wk_options w" "wk_reconnectAttempt w1 = wk_reconnectAttempt w" "armed_delays w1 = armed_delays w"
      "maxAttempts w1 = maxAttempts w" by (simp_all add: tries_def maxAttempts_def)
  have armed: "tries (arm_reconnect d v) = (wk_options v, wk_reconnectAttempt v, armed_delays v @ [d])" for d v
    by (simp add: tries_def arm_reconnect_def armed_delays_def Let_def)
  have heard: "armed_delays (setState st v) = armed_delays v" "armed_delays (v\<lparr>wk_reconnectAttempt := n\<rparr>) = armed_delays v"
    "armed_delays (v\<lparr>wk_reportedRouteExhaustion := b\<rparr>) = armed_delays v" for st v n b
    by (simp_all add: armed_delays_def)
  show ?thesis
  proof (cases "maxAttempts w \<le> wk_reconnectAttempt w")
    case True
    then show ?thesis using active \<open>tries w1 = tries w\<close> w1
      by (simp add: handleSocketLoss_def w1_def [symmetric] next_try_def armed heard Let_def)
  next
    case False
    then show ?thesis using active w1
      by (simp add: handleSocketLoss_def w1_def [symmetric] next_try_def armed heard reconnectBase_def Let_def)
  qed
qed

lemma next_try_after [simp]: "tries u = tries w \<Longrightarrow> next_try w (handleSocketLoss u)"
  using next_try_loss [of u] next_try_from [of u w] by blast

lemma next_try_settle [simp]: "next_try w (settle p (Failed err) v) = next_try w v"
  by (rule next_try_cong) simp

lemma established_connects: "wk_state (established p w) = WsConnected"
  by (simp add: established_def)

lemma next_try_step: "wk_state (service_step w e) \<noteq> WsConnected \<Longrightarrow> next_try w (service_step w e)"
proof -
  assume away: "wk_state (service_step w e) \<noteq> WsConnected"
  have drops: "tries (drop_connect (w\<lparr>wk_resolving := r\<rparr>)) = tries w" for r by simp
  have "tries (request_continues random now w) = tries w" for random now
    by (simp add: request_continues_def Let_def split: list.split)
  moreover have "next_try w (urlSettled q result refused w)" for q result refused
    by (simp add: urlSettled_def Let_def split: option.split sum.split)
      (auto simp: next_try_def)
  ultimately show ?thesis using away
    by (cases e) (auto simp: next_try_def [of w w] established_connects reconnectNow_def reportUnresponsive_def use_def unregister_def
      sendTracked_def request_def waitForConnection_def subscribe_def unsubscribe_def onopen_def onclose_def onerror_def onmessage_def
      handshakeDone_def handshakeFailed_def failConnection_def handshakeSends_def handshakeRequests_def generate_eq sendRaw_def
      reconnectTimerFires_def requestTimeout_def waiterTimeout_def Let_def split_def
      intro: next_try_cong [THEN iffD2, OF _ next_try_refl] split: option.splits frame.splits)
qed

text \<open>A run during which the transport is never connected.\<close>

fun away :: "socket_service \<Rightarrow> service_event list \<Rightarrow> bool" where
  "away w [] = True"
| "away w (e # es) = (wk_state (service_step w e) \<noteq> WsConnected \<and> away (service_step w e) es)"

text \<open>
  C33. The schedule of the reconnects. From any state and for as long as the transport is not connected again, whatever the
  sockets, the timers and the owner do, the reconnects are armed with exactly the delays of the backoff: the delay of each
  attempt once and in order, up to the budget of attempts, then, for a pinned route only, a flat slow delay for every further
  probe; without \<open>persistentReconnect\<close> there is none once the budget is spent.
\<close>

theorem backoff_schedule:
  assumes "away w es" "w' = foldl service_step w es"
  shows "\<exists>k. armed_delays w' = armed_delays w @ map (\<lambda>a. reconnectDelayMs a (reconnectBase w)) [wk_reconnectAttempt w ..< wk_reconnectAttempt w']
        @ replicate k PERSISTENT_RECONNECT_DELAY_MS
    \<and> wk_reconnectAttempt w \<le> wk_reconnectAttempt w' \<and> wk_reconnectAttempt w' \<le> max (wk_reconnectAttempt w) (maxAttempts w)
    \<and> (0 < k \<longrightarrow> maxAttempts w \<le> wk_reconnectAttempt w' \<and> wo_persistentReconnect (wk_options w))"
  using assms
proof (induction es arbitrary: w)
  case Nil
  then show ?case by (intro exI [of _ 0]) simp
next
  case (Cons e es)
  define v where "v = service_step w e"
  from Cons.IH [of v] Cons.prems obtain k where k:
    "armed_delays w' = armed_delays v @ map (\<lambda>a. reconnectDelayMs a (reconnectBase v)) [wk_reconnectAttempt v ..< wk_reconnectAttempt w']
        @ replicate k PERSISTENT_RECONNECT_DELAY_MS"
    "wk_reconnectAttempt v \<le> wk_reconnectAttempt w'" "wk_reconnectAttempt w' \<le> max (wk_reconnectAttempt v) (maxAttempts v)"
    "0 < k \<longrightarrow> maxAttempts v \<le> wk_reconnectAttempt w' \<and> wo_persistentReconnect (wk_options v)"
    by (auto simp: v_def)
  have "next_try w v" using next_try_step Cons.prems(1) by (simp add: v_def)
  then consider (same) "tries v = tries w"
    | (fast) "wk_reconnectAttempt w < maxAttempts w" "wk_options v = wk_options w" "wk_reconnectAttempt v = Suc (wk_reconnectAttempt w)"
        "armed_delays v = armed_delays w @ [reconnectDelayMs (wk_reconnectAttempt w) (reconnectBase w)]"
    | (slow) "maxAttempts w \<le> wk_reconnectAttempt w" "wo_persistentReconnect (wk_options w)" "wk_options v = wk_options w"
        "wk_reconnectAttempt v = wk_reconnectAttempt w" "armed_delays v = armed_delays w @ [PERSISTENT_RECONNECT_DELAY_MS]"
    by (auto simp: next_try_def tries_def)
  then show ?case
  proof cases
    case same
    then show ?thesis using k by (intro exI [of _ k]) (auto simp: tries_def maxAttempts_def reconnectBase_def)
  next
    case fast
    then have "[wk_reconnectAttempt w ..< wk_reconnectAttempt w'] = wk_reconnectAttempt w # [wk_reconnectAttempt v ..< wk_reconnectAttempt w']"
      using k(2) by (simp add: upt_conv_Cons)
    then show ?thesis using k fast by (intro exI [of _ k]) (auto simp: maxAttempts_def reconnectBase_def)
  next
    case slow
    then have "wk_reconnectAttempt w' = wk_reconnectAttempt w" using k by (simp add: maxAttempts_def)
    then show ?thesis using k slow by (intro exI [of _ "Suc k"]) (auto simp: maxAttempts_def)
  qed
qed

text \<open>Two attempts of one second and two, and then the budget is spent.\<close>

theorem backoff_schedule_witness:
  "armed_delays (foldl service_step (foldl service_step (new_service ''wss://n'' plain_options) (take 2 asked))
    [SocketClosed 1, ReconnectTimer 0 plain_dial, SocketError 2, ReconnectTimer 1 plain_dial, SocketError 3]) = [1000, 2000]"
proof -
  let ?w = "foldl service_step (new_service ''wss://n'' plain_options) (take 2 asked)"
  let ?es = "[SocketClosed 1, ReconnectTimer 0 plain_dial, SocketError 2, ReconnectTimer 1 plain_dial, SocketError 3]"
  have away: "away ?w ?es" by code_simp
  have "wk_reconnectAttempt (foldl service_step ?w ?es) = 2" "wk_reconnectAttempt ?w = 0" "armed_delays ?w = []"
    "\<not> wo_persistentReconnect (wk_options ?w)" "map (\<lambda>a. reconnectDelayMs a (reconnectBase ?w)) [0 ..< 2] = [1000, 2000]"
    by code_simp+
  with backoff_schedule [OF away refl] show ?thesis by auto
qed

section \<open>Being connected\<close>

definition conn_view :: "socket_service \<Rightarrow> connection_state \<times> nat option \<times> nat option \<times> nat \<times> nat \<times> bool" where
  "conn_view w = (wk_state w, wk_connectPromise w, wk_ws w, wk_generation w, wk_reconnectAttempt w, wk_reportedRouteExhaustion w)"

definition live_inv :: "socket_service \<Rightarrow> bool" where
  "live_inv w \<longleftrightarrow> (\<forall>g. wk_ws w = Some g \<longrightarrow> map_option ps_wired (map_get (wk_sockets w) g) = Some True)
     \<and> (wk_state w = WsConnected \<longrightarrow> wk_connectPromise w = None \<and> wk_ws w = Some (wk_generation w) \<and> wk_reconnectAttempt w = 0
        \<and> \<not> wk_reportedRouteExhaustion w
        \<and> (\<forall>s. map_get (wk_sockets w) (wk_generation w) = Some s \<longrightarrow> ps_ready s \<in> {SockOpen, SockClosing} \<and> \<not> ps_handshaking s)
        \<and> wk_waiters w = [])"

lemma live_same:
  assumes "live_inv w" "conn_view v = conn_view w" "wk_sockets v = wk_sockets w" "wk_waiters v = wk_waiters w \<or> wk_waiters v = []"
  shows "live_inv v"
  using assms by (auto simp: live_inv_def conn_view_def)

lemma live_down: "(\<And>g. wk_ws w = Some g \<Longrightarrow> map_option ps_wired (map_get (wk_sockets w) g) = Some True) \<Longrightarrow> wk_state w \<noteq> WsConnected \<Longrightarrow> live_inv w"
  by (simp add: live_inv_def)

lemma conn_parts [simp]:
  "conn_view (failPending err w) = conn_view w" "conn_view (rejectWaiters err w) = conn_view w" "conn_view (settle p r w) = conn_view w"
  "conn_view (tell_wk c w) = conn_view w" "conn_view (handleIncoming m w) = conn_view w" "conn_view (handleBinary data w) = conn_view w"
  "conn_view (clearReconnectTimer w) = conn_view w" "conn_view (settled_promise r w) = conn_view w"
  "conn_view (waitFor req w) = conn_view w" "conn_view (snd (sendRaw mid type payload w)) = conn_view w"
  "conn_view (router_request p random type payload w) = conn_view w" "conn_view (snd (new_promise w)) = conn_view w"
  "conn_view (set_socket g f w) = conn_view w"
  by (simp_all add: conn_view_def clearReconnectTimer_def settled_promise_def waitFor_def sendRaw_def router_request_def generate_eq
      new_promise_def Let_def split: option.split)

lemma sockets_parts [simp]:
  "wk_sockets (clearReconnectTimer w) = wk_sockets w" "wk_sockets (settled_promise r w) = wk_sockets w"
  "wk_sockets (waitFor req w) = wk_sockets w" "wk_sockets (snd (sendRaw mid type payload w)) = wk_sockets w"
  "wk_sockets (router_request p random type payload w) = wk_sockets w" "wk_sockets (snd (new_promise w)) = wk_sockets w"
  "wk_sockets (handleSocketLoss w) = wk_sockets w" "wk_ws (handleSocketLoss w) = wk_ws w"
  "wk_waiters (clearReconnectTimer w) = wk_waiters w" "wk_waiters (settled_promise r w) = wk_waiters w"
  "wk_waiters (snd (sendRaw mid type payload w)) = wk_waiters w" "wk_waiters (router_request p random type payload w) = wk_waiters w"
  "wk_waiters (snd (new_promise w)) = wk_waiters w"
  by (simp_all add: clearReconnectTimer_def settled_promise_def waitFor_def sendRaw_def router_request_def generate_eq new_promise_def
      handleSocketLoss_def arm_reconnect_def Let_def split: option.split)

definition wires :: "socket_service \<Rightarrow> bool" where
  "wires w \<longleftrightarrow> (\<forall>g. wk_ws w = Some g \<longrightarrow> map_option ps_wired (map_get (wk_sockets w) g) = Some True)"

lemma wires_cong: "wk_ws v = wk_ws w \<Longrightarrow> wk_sockets v = wk_sockets w \<Longrightarrow> wires v = wires w"
  by (simp add: wires_def)

lemma wires_parts [simp]:
  "wires (failPending err w) = wires w" "wires (rejectWaiters err w) = wires w" "wires (settle p r w) = wires w"
  "wires (setState next w) = wires w" "wires (tell_wk c w) = wires w" "wires (handleSocketLoss w) = wires w"
  "wires (drop_connect w) = wires w" "wires (clearReconnectTimer w) = wires w" "wires (established p w) = wires w"
  "wires (waitFor req w) = wires w" "wires (settled_promise r w) = wires w" "wires (snd (new_promise w)) = wires w"
  "wires (w\<lparr>wk_resolving := a1\<rparr>) = wires w" "wires (w\<lparr>wk_connectPromise := a2\<rparr>) = wires w" "wires (w\<lparr>wk_url := a3\<rparr>) = wires w"
  "wires (w\<lparr>wk_rejectConnect := a6\<rparr>) = wires w"
  "wires (w\<lparr>wk_armed := a4\<rparr>) = wires w" "wires (w\<lparr>wk_reconnectTimer := a5\<rparr>) = wires w"
  by (rule wires_cong; simp add: drop_connect_def clearReconnectTimer_def established_def waitFor_def settled_promise_def new_promise_def
      Let_def split: option.split)+

lemma wires_set [simp]: "wires w \<Longrightarrow> \<forall>s. ps_wired (f s) = ps_wired s \<Longrightarrow> wires (set_socket g f w)"
  by (auto simp: wires_def)

lemma wires_torn [simp]: "wires (teardownSocket w)"
  by (simp add: wires_def teardownSocket_def split: option.split)

lemma wires_opened [simp]: "wires w \<Longrightarrow> wires (openSocketPromise refused p w)"
  by (auto simp: wires_def openSocketPromise_def drop_connect_def Let_def update_conv' split: option.split)

lemma live_wires: "live_inv w \<Longrightarrow> wires w"
  by (simp add: live_inv_def wires_def)

lemma live_down': "wires w \<Longrightarrow> wk_state w \<noteq> WsConnected \<Longrightarrow> live_inv w"
  by (simp add: live_inv_def wires_def)

lemma state_loss: "(wk_state w = WsConnected \<Longrightarrow> \<not> wk_reportedRouteExhaustion w \<and> \<not> wk_disposed w \<and> \<not> wk_userClosed w) \<Longrightarrow>
    wk_state (handleSocketLoss w) \<noteq> WsConnected"
  by (auto simp: handleSocketLoss_def arm_reconnect_def Let_def)

lemma live_open:
  assumes "link_inv w" "live_inv w" "wk_state w = WsConnected"
  shows "\<not> wk_userClosed w \<and> \<not> wk_disposed w \<and> \<not> wk_reportedRouteExhaustion w"
  using assms by (auto simp: link_inv_def live_inv_def)

lemma live_loss: "link_inv w \<Longrightarrow> live_inv w \<Longrightarrow> live_inv (handleSocketLoss w)"
  using live_open by (intro live_down') (auto simp: live_wires intro!: state_loss)

text \<open>The socket that is established is the current one.\<close>

lemma live_established:
  assumes "wires w" "link_inv w" "wk_ws w = Some (wk_generation w)"
    "\<forall>s. map_get (wk_sockets w) (wk_generation w) = Some s \<longrightarrow> ps_ready s = SockOpen \<and> \<not> ps_handshaking s"
    "wk_state w = WsConnected \<Longrightarrow> wk_waiters w = []"
  shows "live_inv (established p w)"
  using assms by (auto simp: live_inv_def wires_def established_def drop_connect_def connects_def)

lemma dispose_state: "\<not> wk_disposed w \<Longrightarrow> wk_state (dispose_service w) = WsDisconnected \<and> wires (dispose_service w)"
proof -
  have fields: "wk_state (fold (\<lambda>name. tell_wk (PluginTornDown name)) ps v) = wk_state v"
    "wk_ws (fold (\<lambda>name. tell_wk (PluginTornDown name)) ps v) = wk_ws v" for ps v
    by (induction ps arbitrary: v) simp_all
  assume "\<not> wk_disposed w"
  then show ?thesis by (simp add: dispose_stops router_dispose_def wires_def fields Let_def)
qed

lemma live_connect: "link_inv w \<Longrightarrow> live_inv w \<Longrightarrow> live_inv (connect d w)"
proof -
  assume inv: "link_inv w" "live_inv w"
  define w1 where "w1 = snd (new_promise (setState WsConnecting w))"
  have w1: "wires w1" "wk_state w1 = WsConnecting" using live_wires [OF inv(2)] by (simp_all add: w1_def) (simp add: new_promise_def)
  have opened: "wk_state (openSocketPromise refused p w1) \<noteq> WsConnected" for refused p
    using w1(2) by (simp add: openSocketPromise_def Let_def split: option.split)
  have settled: "live_inv (settled_promise r w)" for r by (rule live_same [OF inv(2)]) simp_all
  have "live_inv (tell_wk c (w1\<lparr>wk_resolving := r, wk_connectPromise := q\<rparr>))"
    "live_inv ((openSocketPromise refused p w1)\<lparr>wk_connectPromise := q\<rparr>)" for c r q refused p
    using w1 opened by (auto intro!: live_down')
  then show ?thesis using inv(2) settled by (simp add: connect_def Let_def split_def w1_def [symmetric])
qed

lemma live_url: "waits_inv w \<Longrightarrow> live_inv w \<Longrightarrow> live_inv (urlSettled q result refused w)"
proof (cases "map_get (wk_resolving w) q")
  case (Some attempt)
  assume waits: "waits_inv w" and inv: "live_inv w"
  have "wk_resolving w \<noteq> []" "q \<in> fst ` set (wk_resolving w)" using map_of_SomeD [OF Some] by force+
  then have "wk_userClosed w \<or> wk_connectPromise w \<noteq> None" using waits by (auto simp: waits_inv_def attempt_inv_def)
  then have down: "wk_state w \<noteq> WsConnected" using waits inv by (auto simp: waits_inv_def live_inv_def link_inv_def)
  define w0 where "w0 = w\<lparr>wk_resolving := map_delete q (wk_resolving w)\<rparr>"
  have w0: "wires w0" "wk_state w0 \<noteq> WsConnected" using down live_wires [OF inv] by (simp_all add: w0_def)
  have dropped: "wk_state (drop_connect w0) \<noteq> WsConnected" using w0 by (simp add: drop_connect_def)
  then have lost: "wk_state (handleSocketLoss (drop_connect w0)) \<noteq> WsConnected" by (intro state_loss) simp
  have "live_inv ((openSocketPromise refused q v)\<lparr>wk_connectPromise := Some q\<rparr>)" if "wires v" "wk_state v \<noteq> WsConnected" for v
    using that by (intro live_down') (simp_all, simp add: openSocketPromise_def Let_def split: option.split)
  then show ?thesis using Some w0 lost dropped
    by (auto simp: urlSettled_def Let_def w0_def [symmetric] intro!: live_down' split: option.split sum.split)
qed (simp add: urlSettled_def)

lemma live_kept [simp]:
  assumes "live_inv w"
  shows "live_inv (settled_promise r w)" "live_inv (settle p r w)" "live_inv (tell_wk c w)" "live_inv (clearReconnectTimer w)"
    "live_inv (handleIncoming m w)" "live_inv (handleBinary data w)" "live_inv (snd (sendRaw mid type payload w))"
    "live_inv (router_request p random type payload w)" "live_inv (snd (new_promise w))" "live_inv (waitFor req w)"
    "live_inv (w\<lparr>wk_pending := a1\<rparr>)" "live_inv (w\<lparr>wk_continuations := a2\<rparr>)" "live_inv (w\<lparr>wk_plugins := a3\<rparr>)"
    "live_inv (w\<lparr>wk_handlers := a4\<rparr>)" "live_inv (w\<lparr>wk_handlerSets := a5\<rparr>)" "live_inv (w\<lparr>wk_binaryHandlers := a6\<rparr>)"
    "live_inv (w\<lparr>wk_stateListeners := a7\<rparr>)" "live_inv (w\<lparr>wk_idCounter := a8\<rparr>)" "live_inv (w\<lparr>wk_armed := a9\<rparr>)"
    "live_inv (w\<lparr>wk_reconnectTimer := a10\<rparr>)"
proof -
  show "live_inv (waitFor req w)"
  proof (cases "wk_state w = WsConnected")
    case True
    then show ?thesis by (intro live_same [OF assms]) (simp_all, simp add: waitFor_def)
  next
    case False
    have "conn_view (waitFor req w) = conn_view w" by simp
    then show ?thesis using False live_wires [OF assms] by (intro live_down') (simp_all add: conn_view_def)
  qed
qed (rule live_same [OF assms]; ((simp; fail) | simp add: conn_view_def))+

lemma live_waiters: "live_inv w \<Longrightarrow> live_inv (w\<lparr>wk_waiters := filter f (wk_waiters w)\<rparr>)"
  by (auto simp: live_inv_def)

lemma live_socket_update:
  assumes "live_inv w" "\<forall>s. ps_wired (f s) = ps_wired s"
    "g = wk_generation w \<Longrightarrow> (\<forall>s. map_get (wk_sockets w) g = Some s \<longrightarrow> ps_ready s \<in> {SockOpen, SockClosing} \<longrightarrow> \<not> ps_handshaking s \<longrightarrow>
        ps_ready (f s) \<in> {SockOpen, SockClosing} \<and> \<not> ps_handshaking (f s))"
  shows "live_inv (set_socket g f w)"
proof (cases "wk_state w = WsConnected")
  case True
  then have "wires (set_socket g f w)" using assms(1,2) live_wires by (intro wires_set) auto
  then show ?thesis using assms True by (auto simp: live_inv_def wires_def)
next
  case False
  then show ?thesis using assms(1,2) live_wires by (intro live_down' wires_set) auto
qed

text \<open>A handshake runs on an open socket only.\<close>

definition young_inv :: "socket_service \<Rightarrow> bool" where
  "young_inv w \<longleftrightarrow> (\<forall>g s. map_get (wk_sockets w) g = Some s \<longrightarrow> ps_ready s = SockConnecting \<longrightarrow> \<not> ps_handshaking s)"

lemma young_set: "young_inv w \<Longrightarrow> \<forall>s. (ps_ready s = SockConnecting \<longrightarrow> \<not> ps_handshaking s) \<longrightarrow>
    (ps_ready (f s) = SockConnecting \<longrightarrow> \<not> ps_handshaking (f s)) \<Longrightarrow> young_inv (set_socket g f w)"
  by (auto simp: young_inv_def)

lemma young_cong: "wk_sockets v = wk_sockets w \<Longrightarrow> young_inv v = young_inv w"
  by (simp add: young_inv_def)

lemma close_ready: "ps_ready (close_socket s) \<noteq> SockConnecting"
  by (simp add: close_socket_def)

lemma young_parts [simp]:
  "young_inv (failPending err w) = young_inv w" "young_inv (rejectWaiters err w) = young_inv w" "young_inv (settle p r w) = young_inv w"
  "young_inv (setState next w) = young_inv w" "young_inv (tell_wk c w) = young_inv w" "young_inv (handleSocketLoss w) = young_inv w"
  "young_inv (drop_connect w) = young_inv w" "young_inv (clearReconnectTimer w) = young_inv w" "young_inv (established p w) = young_inv w"
  "young_inv (waitFor req w) = young_inv w" "young_inv (settled_promise r w) = young_inv w" "young_inv (snd (new_promise w)) = young_inv w"
  "young_inv (rejectPendingConnect err w) = young_inv w" "young_inv (handleIncoming m w) = young_inv w" "young_inv (handleBinary d w) = young_inv w"
  "young_inv (snd (sendRaw mid type payload w)) = young_inv w" "young_inv (router_request q random type payload w) = young_inv w"
  "young_inv (w\<lparr>wk_resolving := a1\<rparr>) = young_inv w" "young_inv (w\<lparr>wk_connectPromise := a2\<rparr>) = young_inv w" "young_inv (w\<lparr>wk_url := a3\<rparr>) = young_inv w"
  "young_inv (w\<lparr>wk_armed := a4\<rparr>) = young_inv w" "young_inv (w\<lparr>wk_reconnectTimer := a5\<rparr>) = young_inv w"
  "young_inv (w\<lparr>wk_pending := b1\<rparr>) = young_inv w" "young_inv (w\<lparr>wk_continuations := b2\<rparr>) = young_inv w" "young_inv (w\<lparr>wk_plugins := b3\<rparr>) = young_inv w"
  "young_inv (w\<lparr>wk_handlers := b4\<rparr>) = young_inv w" "young_inv (w\<lparr>wk_handlerSets := b5\<rparr>) = young_inv w" "young_inv (w\<lparr>wk_binaryHandlers := b6\<rparr>) = young_inv w"
  "young_inv (w\<lparr>wk_stateListeners := b7\<rparr>) = young_inv w" "young_inv (w\<lparr>wk_idCounter := b8\<rparr>) = young_inv w" "young_inv (w\<lparr>wk_disposed := b9\<rparr>) = young_inv w"
  "young_inv (w\<lparr>wk_userClosed := b10\<rparr>) = young_inv w" "young_inv (w\<lparr>wk_waiters := b11\<rparr>) = young_inv w" "young_inv (w\<lparr>wk_routerDisposed := b12\<rparr>) = young_inv w"
  by (rule young_cong; simp add: drop_connect_def established_def rejectPendingConnect_def Let_def split: option.split)+

lemma young_ops [simp]:
  assumes "young_inv w"
  shows "young_inv (teardownSocket w)" "young_inv (openSocketPromise refused p w)" "young_inv (set_socket g close_socket w)"
    "young_inv (stop_service err w)" "young_inv (disconnect w)" "young_inv (dispose_service w)" "young_inv (connect d w)"
proof -
  have opened: "young_inv (openSocketPromise refused p v)" if "young_inv v" for refused p v
    using that by (cases refused) (simp_all add: openSocketPromise_def Let_def, auto simp: young_inv_def drop_connect_def update_conv')
  show torn: "young_inv (teardownSocket w)" using assms
    by (auto simp: teardownSocket_def young_inv_def close_ready split: option.split)
  show "young_inv (set_socket g close_socket w)" using assms by (intro young_set) (simp_all add: close_ready)
  have "young_inv (teardownSocket (clearReconnectTimer w))" using assms
    by (auto simp: teardownSocket_def young_inv_def close_ready split: option.split)
  then show stop: "young_inv (stop_service err w)" for err by (simp add: stop_service_def)
  show "young_inv (openSocketPromise refused p w)" using assms by (rule opened)
  show "young_inv (disconnect w)" using stop by (simp add: disconnect_stops)
  have plugins: "young_inv (fold (\<lambda>name. tell_wk (PluginTornDown name)) ps v) = young_inv v" for ps v
    by (induction ps arbitrary: v) simp_all
  have router: "young_inv (router_dispose v) = young_inv v" for v by (simp add: router_dispose_def)
  show "young_inv (dispose_service w)" using stop assms by (simp add: dispose_stops router plugins Let_def)
  show "young_inv (connect d w)" using assms opened by (simp add: connect_def Let_def split_def)
qed

lemma young_step: "young_inv w \<Longrightarrow> young_inv (service_step w e)"
proof (cases e)
  case (UrlSettled q result refused)
  assume "young_inv w"
  then show ?thesis using UrlSettled by (simp add: urlSettled_def Let_def split: option.split sum.split)
next
  case (HandshakeFailed g err disposes)
  assume inv: "young_inv w"
  then have "young_inv (set_socket g (\<lambda>s. s\<lparr>ps_handshaking := False\<rparr>) w)" by (intro young_set) simp_all
  then show ?thesis using HandshakeFailed inv by (simp add: handshakeFailed_def failConnection_def Let_def split: option.split)
next
  case (HandshakeDone g)
  assume inv: "young_inv w"
  then have "young_inv (set_socket g (\<lambda>s. s\<lparr>ps_handshaking := False\<rparr>) w)" by (intro young_set) simp_all
  then show ?thesis using HandshakeDone inv by (simp add: handshakeDone_def Let_def split: option.split)
next
  case (SocketOpen g)
  assume inv: "young_inv w"
  then have "young_inv (set_socket g (\<lambda>s. s\<lparr>ps_ready := SockOpen\<rparr>) w)" by (intro young_set) simp_all
  moreover have "young_inv (set_socket g (\<lambda>s. s\<lparr>ps_handshaking := True\<rparr>) (set_socket g (\<lambda>s. s\<lparr>ps_ready := SockOpen\<rparr>) w))"
    using inv by (auto simp: young_inv_def)
  ultimately show ?thesis using SocketOpen inv by (simp add: onopen_def Let_def split: option.split)
next
  case (SocketClosed g)
  assume inv: "young_inv w"
  then have "young_inv (set_socket g (\<lambda>s. s\<lparr>ps_ready := SockClosed\<rparr>) w)" by (intro young_set) simp_all
  then show ?thesis using SocketClosed by (simp add: onclose_def Let_def split: option.split)
qed (simp_all add: reconnectNow_def reportUnresponsive_def use_def unregister_def sendTracked_def request_def
    waitForConnection_def subscribe_def unsubscribe_def onerror_def onmessage_def handshakeSends_def handshakeRequests_def
    generate_eq reconnectTimerFires_def requestTimeout_def waiterTimeout_def request_continues_def Let_def split_def
    split: option.split frame.split list.split)

lemma live_onopen: "young_inv w \<Longrightarrow> link_inv w \<Longrightarrow> live_inv w \<Longrightarrow> live_inv (onopen g w)"
proof (cases "wired g w")
  case (Some s)
  assume young: "young_inv w" and link: "link_inv w" and inv: "live_inv w"
  note s = wired_SomeD [OF Some]
  show ?thesis
  proof (cases "ps_ready s = SockConnecting \<and> wk_generation w = g")
    case True
    then have ws: "wk_ws w = Some (wk_generation w)" using link s by (auto simp: link_inv_def)
    have down: "wk_state w \<noteq> WsConnected" using inv True s by (auto simp: live_inv_def)
    define w1 where "w1 = set_socket g (\<lambda>s. s\<lparr>ps_ready := SockOpen\<rparr>) w"
    have w1: "wires w1" "link_inv w1" using live_wires [OF inv] link by (simp_all add: w1_def)
    have "live_inv (tell_wk c (set_socket g (\<lambda>s. s\<lparr>ps_handshaking := True\<rparr>) w1))" for c
      using w1 down by (intro live_down' ) (simp_all add: w1_def)
    moreover have "\<not> ps_handshaking s" using young True s by (auto simp: young_inv_def)
    then have "live_inv (established p w1)" for p
      using w1 ws True s down by (intro live_established) (simp_all add: w1_def)
    ultimately show ?thesis using Some True by (simp add: onopen_def w1_def [symmetric] Let_def)
  next
    case False
    then show ?thesis using Some inv by (auto simp: onopen_def intro!: live_socket_update)
  qed
qed (simp add: onopen_def)

lemma live_done: "link_inv w \<Longrightarrow> live_inv w \<Longrightarrow> live_inv (handshakeDone g w)"
proof -
  assume link: "link_inv w" and inv: "live_inv w"
  define w1 where "w1 = set_socket g (\<lambda>s. s\<lparr>ps_handshaking := False\<rparr>) w"
  have w1: "live_inv w1" "link_inv w1" "wires w1" using inv link live_wires [OF inv] by (simp_all add: w1_def live_socket_update)
  have "live_inv (established p w1)" if "wk_generation w1 = g" "live_socket g w1" for p
    using w1 that by (intro live_established) (auto simp: live_socket_def w1_def live_inv_def)
  then show ?thesis using inv w1 by (simp add: handshakeDone_def w1_def [symmetric] Let_def split: option.split)
qed

lemma live_refused: "link_inv w \<Longrightarrow> live_inv w \<Longrightarrow> live_inv (handshakeFailed g err disposes w)"
proof (cases "map_get (wk_sockets w) g")
  case (Some s)
  assume link: "link_inv w" and inv: "live_inv w"
  define w1 where "w1 = set_socket g (\<lambda>s. s\<lparr>ps_handshaking := False\<rparr>) w"
  have w1: "live_inv w1" "wires w1" using inv live_wires [OF inv] by (simp_all add: w1_def live_socket_update)
  have gen: "wk_generation w1 = wk_generation w" by (simp add: w1_def)
  show ?thesis
  proof (cases "ps_handshaking s \<and> wk_generation w = g")
    case True
    then have down: "wk_state w1 \<noteq> WsConnected" using inv Some by (auto simp: live_inv_def w1_def)
    define w2 where "w2 = settle (ps_promise s) (Failed err) (drop_connect w1)"
    have w2: "live_inv w2" using down w1(2) by (intro live_down') (simp_all add: w2_def drop_connect_def)
    have "live_inv (dispose_service (tell_wk c w2))" for c
      using w2 dispose_state [of "tell_wk c w2"] by (cases "wk_disposed w2") (auto intro!: live_down' simp: dispose_service_def)
    moreover have "live_inv (failConnection (teardownSocket v))" for v by (intro live_down') (simp_all add: failConnection_def)
    ultimately show ?thesis using True Some w2
      by (simp add: handshakeFailed_def w1_def [symmetric] w2_def [symmetric] gen Let_def)
  next
    case False
    then show ?thesis using Some inv w1 gen by (simp add: handshakeFailed_def w1_def [symmetric] Let_def)
  qed
qed (simp add: handshakeFailed_def)

lemma live_error: "link_inv w \<Longrightarrow> live_inv w \<Longrightarrow> live_inv (onerror g w)"
proof -
  assume link: "link_inv w" and inv: "live_inv w"
  have "live_inv (handleSocketLoss (teardownSocket (settle p r (drop_connect w))))"
    "live_inv (setState WsDisconnected (rejectWaiters e1 (failPending e2 (teardownSocket (settle p r (drop_connect w))))))"
    if "wk_connectPromise w \<noteq> None" for p r e1 e2
  proof -
    have "wk_state w \<noteq> WsConnected" using inv that by (auto simp: live_inv_def)
    then have "wk_state (teardownSocket (settle p r (drop_connect w))) \<noteq> WsConnected"
      by (simp add: teardownSocket_def drop_connect_def split: option.split)
    then show "live_inv (handleSocketLoss (teardownSocket (settle p r (drop_connect w))))" by (intro live_down' state_loss) simp_all
    show "live_inv (setState WsDisconnected (rejectWaiters e1 (failPending e2 (teardownSocket (settle p r (drop_connect w))))))"
      by (intro live_down') simp_all
  qed
  then show ?thesis using inv by (simp add: onerror_def Let_def split: option.split)
qed

lemma live_closed: "link_inv w \<Longrightarrow> live_inv w \<Longrightarrow> live_inv (onclose g w)"
proof -
  assume link: "link_inv w" and inv: "live_inv w"
  define w0 where "w0 = set_socket g (\<lambda>s. s\<lparr>ps_ready := SockClosed\<rparr>) w"
  have w0: "wires w0" "wk_state w0 = wk_state w" using live_wires [OF inv] by (simp_all add: w0_def)
  have kept: "live_inv w0" if "wired g w = None \<or> wk_generation w \<noteq> g \<or> wk_userClosed w"
  proof (cases "wk_state w = WsConnected")
    case True
    then obtain s where s: "wk_ws w = Some (wk_generation w)" "map_get (wk_sockets w) (wk_generation w) = Some s" "ps_wired s"
        "ps_ready s \<noteq> SockClosed" using inv by (auto simp: live_inv_def)
    then have "wired (wk_generation w) w = Some s" by (simp add: wired_def)
    then have "wk_generation w \<noteq> g" using that live_open [OF link inv True] by auto
    then show ?thesis using inv by (simp add: w0_def live_socket_update)
  next
    case False
    then show ?thesis using w0 by (intro live_down') simp_all
  qed
  have loss: "live_inv (handleSocketLoss v)" if "wires v" "wk_state v = wk_state w" "wk_reportedRouteExhaustion v = wk_reportedRouteExhaustion w"
    "wk_disposed v = wk_disposed w" "wk_userClosed v = wk_userClosed w" for v
    using that live_open [OF link inv] by (intro live_down') (auto intro!: state_loss)
  have "live_inv (handleSocketLoss w0)" "live_inv (handleSocketLoss (settle p r (drop_connect w0)))" for p r
    using w0 by (auto intro!: loss simp: drop_connect_def w0_def wires_def)
  then show ?thesis using kept by (simp add: onclose_def w0_def [symmetric] Let_def split: option.split) (simp add: w0_def)
qed

definition connected_inv :: "socket_service \<Rightarrow> bool" where
  "connected_inv w \<longleftrightarrow> waits_inv w \<and> young_inv w \<and> live_inv w"

lemma connected_inv_step: "connected_inv w \<Longrightarrow> orderly w e \<Longrightarrow> connected_inv (service_step w e)"
proof -
  assume inv: "connected_inv w" and order: "orderly w e"
  then have parts: "waits_inv w" "young_inv w" "live_inv w" "link_inv w" by (simp_all add: connected_inv_def waits_inv_def)
  have waits: "waits_inv (service_step w e)" using waits_inv_step parts(1) order .
  have down: "live_inv (disconnect w)"
    by (intro live_down') (simp_all add: disconnect_stops wires_def)
  have gone: "live_inv (dispose_service w)"
    using dispose_state parts(3) by (cases "wk_disposed w") (auto intro!: live_down' simp: dispose_service_def)
  have lost: "live_inv (handleSocketLoss (teardownSocket w))"
  proof (intro live_down' state_loss)
    assume "wk_state (teardownSocket w) = WsConnected"
    then have "wk_state w = WsConnected" by (simp add: teardownSocket_def split: option.splits)
    from live_open [OF parts(4,3) this] show "\<not> wk_reportedRouteExhaustion (teardownSocket w) \<and> \<not> wk_disposed (teardownSocket w)
        \<and> \<not> wk_userClosed (teardownSocket w)" by (simp add: teardownSocket_def split: option.splits)
  qed simp
  have closing: "live_inv (set_socket g close_socket w)" for g
    using parts(3) by (intro live_socket_update) (auto simp: close_socket_def)
  have "live_inv (connect d (w\<lparr>wk_armed := a, wk_reconnectTimer := t\<rparr>))" "live_inv (connect d (clearReconnectTimer w))" for d a t
    using parts by (auto intro!: live_connect)
  then have "live_inv (service_step w e)"
    using parts down gone lost closing
    by (cases e) (simp_all add: live_connect live_url live_onopen live_done live_refused live_error live_closed
      live_waiters reconnectNow_def reportUnresponsive_def use_def unregister_def sendTracked_def request_def waitForConnection_def
      subscribe_def unsubscribe_def onmessage_def handshakeSends_def handshakeRequests_def generate_eq reconnectTimerFires_def
      requestTimeout_def waiterTimeout_def request_continues_def Let_def split_def split: option.split frame.split list.split)
  then show ?thesis using waits young_step [OF parts(2)] by (simp add: connected_inv_def)
qed

lemma connected_inv_run: "connected_inv w \<Longrightarrow> orderly_run w es \<Longrightarrow> connected_inv (foldl service_step w es)"
  by (induction es arbitrary: w) (simp_all add: connected_inv_step)

lemma connected_inv_new [simp]: "connected_inv (new_service url options)"
  by (simp add: connected_inv_def) (simp add: new_service_def live_inv_def young_inv_def)



section \<open>What modelling found\<close>

text \<open>
  A constructor that throws: the attempt is over, but its rejected promise is stored after the failure cleared it, and every
  later call to connect returns it without dialling.
\<close>

lemma constructor_throw_sticks:
  "let w = foldl service_step (new_service ''wss://n'' plain_options) [Connect \<lparr>dl_needsUrl = False, dl_refused = Some ''insecure''\<rparr>]
   in wk_state w = WsDisconnected \<and> wk_open w = [] \<and> wk_connectPromise w = Some 0 \<and> (\<forall>d. connect d w = w)"
proof -
  have facts: "wk_state (foldl service_step (new_service ''wss://n'' plain_options) [Connect \<lparr>dl_needsUrl = False, dl_refused = Some ''insecure''\<rparr>]) = WsDisconnected"
    "wk_open (foldl service_step (new_service ''wss://n'' plain_options) [Connect \<lparr>dl_needsUrl = False, dl_refused = Some ''insecure''\<rparr>]) = []"
    "wk_connectPromise (foldl service_step (new_service ''wss://n'' plain_options) [Connect \<lparr>dl_needsUrl = False, dl_refused = Some ''insecure''\<rparr>]) = Some 0"
    "\<not> wk_disposed (foldl service_step (new_service ''wss://n'' plain_options) [Connect \<lparr>dl_needsUrl = False, dl_refused = Some ''insecure''\<rparr>])"
    "\<not> wk_userClosed (foldl service_step (new_service ''wss://n'' plain_options) [Connect \<lparr>dl_needsUrl = False, dl_refused = Some ''insecure''\<rparr>])"
    by code_simp+
  then show ?thesis by (simp only: Let_def connect_def) simp
qed

text \<open>A subscription cancelled twice takes a later subscriber of the same type with it.\<close>

lemma second_cancel_deafens:
  "wk_told (foldl service_step (new_service ''wss://n'' plain_options)
     [Connect plain_dial, SocketOpen 1, Subscribe ''files'' 1, Unsubscribe 0 ''files'' 1, Subscribe ''files'' 2, Unsubscribe 0 ''files'' 1,
      FrameReceived 1 (TextFrame \<lparr>sm_type = ''files'', sm_id = [], sm_payload = ''x'', sm_errorMessage = None\<rparr>)])
   = [SocketOpened 1 ''wss://n'', Settled 0 Fulfilled]"
  by code_simp

text \<open>
  A handshake that rejects after its socket was lost clears the attempt that replaced it, while its URL is being resolved: the
  owner's next call dials a second time, and the socket of that dial is orphaned when the URL arrives, with its promise.
\<close>

definition renewing_options :: service_options where
  "renewing_options = \<lparr>wo_handshake = True, wo_maxReconnectAttempts = None, wo_reconnectBaseDelay = None,
     wo_persistentReconnect = False, wo_resolveUrl = True\<rparr>"

definition late_rejection :: "service_event list" where
  "late_rejection = [Connect plain_dial, SocketOpen 1, SocketClosed 1, ReconnectTimer 0 \<lparr>dl_needsUrl = True, dl_refused = None\<rparr>,
     HandshakeFailed 1 ''lost'' False, Connect plain_dial, UrlSettled 1 (Inr None) None, SocketOpen 3, HandshakeDone 3, SocketOpen 2]"

lemma late_rejection_orphans:
  "let w = foldl service_step (new_service ''wss://n'' renewing_options) late_rejection
   in wk_state w = WsConnected \<and> wk_open w = [2] \<and> wk_pending w = [] \<and> wk_waiters w = [] \<and> wk_continuations w = []
      \<and> wk_resolving w = [] \<and> wk_rejectConnect w = None"
  by code_simp

end
