(* ===== verification/Socket_Settlement.thy ===== *)
theory Socket_Settlement
  imports Socket_Recovery
begin

text \<open>
  What ends each wait of the WebSocket transport: the timers, the socket's own events, the settlement of a URL and the
  microtask after a gate each settle the promise they are armed for, or hand it on to the next of them.
\<close>

section \<open>The attempt to connect and its socket\<close>

text \<open>While a socket is being connected it is the current one, and its end is still to come.\<close>

definition dial_inv :: "socket_service \<Rightarrow> bool" where
  "dial_inv w \<longleftrightarrow> wk_rejectConnect w = None \<or> (wk_ws w = Some (wk_generation w)
     \<and> map_option ps_ready (map_get (wk_sockets w) (wk_generation w)) \<noteq> Some SockClosed)"

definition dial_view :: "socket_service \<Rightarrow> nat option \<times> nat option \<times> nat \<times> (nat, physical_socket) jsmap" where
  "dial_view w = (wk_rejectConnect w, wk_ws w, wk_generation w, wk_sockets w)"

lemma dial_cong: "dial_view v = dial_view w \<Longrightarrow> dial_inv v = dial_inv w"
  by (simp add: dial_inv_def dial_view_def)

lemma dial_none [simp]: "wk_rejectConnect w = None \<Longrightarrow> dial_inv w"
  by (simp add: dial_inv_def)

lemma dial_parts [simp]:
  "dial_inv (failPending err w) = dial_inv w" "dial_inv (rejectWaiters err w) = dial_inv w" "dial_inv (settle p r w) = dial_inv w"
  "dial_inv (setState next w) = dial_inv w" "dial_inv (tell_wk c w) = dial_inv w" "dial_inv (handleSocketLoss w) = dial_inv w"
  "dial_inv (clearReconnectTimer w) = dial_inv w" "dial_inv (waitFor req w) = dial_inv w" "dial_inv (settled_promise r w) = dial_inv w"
  "dial_inv (snd (new_promise w)) = dial_inv w" "dial_inv (handleIncoming m w) = dial_inv w" "dial_inv (handleBinary d w) = dial_inv w"
  "dial_inv (snd (sendRaw mid type payload w)) = dial_inv w" "dial_inv (router_request q random type payload w) = dial_inv w"
  "dial_inv (w\<lparr>wk_resolving := a1\<rparr>) = dial_inv w" "dial_inv (w\<lparr>wk_connectPromise := a2\<rparr>) = dial_inv w"
  "dial_inv (w\<lparr>wk_url := a3\<rparr>) = dial_inv w" "dial_inv (w\<lparr>wk_armed := a4\<rparr>) = dial_inv w"
  "dial_inv (w\<lparr>wk_reconnectTimer := a5\<rparr>) = dial_inv w" "dial_inv (w\<lparr>wk_pending := b1\<rparr>) = dial_inv w"
  "dial_inv (w\<lparr>wk_continuations := b2\<rparr>) = dial_inv w" "dial_inv (w\<lparr>wk_plugins := b3\<rparr>) = dial_inv w"
  "dial_inv (w\<lparr>wk_handlers := b4\<rparr>) = dial_inv w" "dial_inv (w\<lparr>wk_handlerSets := b5\<rparr>) = dial_inv w"
  "dial_inv (w\<lparr>wk_binaryHandlers := b6\<rparr>) = dial_inv w" "dial_inv (w\<lparr>wk_stateListeners := b7\<rparr>) = dial_inv w"
  "dial_inv (w\<lparr>wk_idCounter := b8\<rparr>) = dial_inv w" "dial_inv (w\<lparr>wk_waiters := b9\<rparr>) = dial_inv w"
  "dial_inv (w\<lparr>wk_reconnectAttempt := c1\<rparr>) = dial_inv w" "dial_inv (w\<lparr>wk_reportedRouteExhaustion := c2\<rparr>) = dial_inv w"
  by (rule dial_cong; simp add: dial_view_def handleSocketLoss_def arm_reconnect_def clearReconnectTimer_def waitFor_def
      settled_promise_def new_promise_def sendRaw_def router_request_def generate_eq Let_def split: option.split)+

lemma dial_drop [simp]: "dial_inv (drop_connect w)" "dial_inv (established p w)"
  by (simp_all add: established_def)

lemma dial_opened [simp]: "dial_inv (openSocketPromise refused p w)"
  by (cases refused) (simp_all add: openSocketPromise_def Let_def, simp add: dial_inv_def update_conv')

lemma dial_set: "dial_inv w \<Longrightarrow> \<forall>s. ps_ready s \<noteq> SockClosed \<longrightarrow> ps_ready (f s) \<noteq> SockClosed \<Longrightarrow> dial_inv (set_socket g f w)"
  by (auto simp: dial_inv_def)

lemma dial_connect: "link_inv w \<Longrightarrow> dial_inv w \<Longrightarrow> dial_inv (connect d w)"
  by (simp add: connect_def Let_def split_def)

lemma dial_stop:
  assumes "link_inv w" "attempt_inv w" "dial_inv w"
  shows "dial_inv (disconnect w)" "dial_inv (dispose_service w)"
proof -
  have plugins: "dial_inv (fold (\<lambda>name. tell_wk (PluginTornDown name)) ps v) = dial_inv v" for ps v
    by (induction ps arbitrary: v) simp_all
  show "dial_inv (disconnect w)" "dial_inv (dispose_service w)"
    using attempt_stop [OF assms(1,2)] assms(3)
    by (simp_all add: disconnect_stops dispose_stops router_dispose_def plugins Let_def)
qed

lemma dial_url: "dial_inv w \<Longrightarrow> dial_inv (urlSettled q result refused w)"
  by (simp add: urlSettled_def Let_def split: option.split sum.split)

lemma dial_open: "dial_inv w \<Longrightarrow> dial_inv (onopen g w)"
proof -
  assume inv: "dial_inv w"
  have "dial_inv (set_socket g close_socket w)" "dial_inv (set_socket g (\<lambda>s. s\<lparr>ps_ready := SockOpen\<rparr>) w)"
    using inv by (auto intro!: dial_set simp: close_socket_def)
  then show ?thesis using inv by (simp add: onopen_def Let_def dial_set split: option.split)
qed

lemma dial_refused: "dial_inv w \<Longrightarrow> dial_inv (handshakeFailed g err disposes w)"
proof -
  assume inv: "dial_inv w"
  then have w1: "dial_inv (set_socket g (\<lambda>s. s\<lparr>ps_handshaking := False\<rparr>) w)" by (intro dial_set) simp_all
  have none: "wk_rejectConnect (dispose_service v) = None" if "wk_rejectConnect v = None" for v
  proof -
    have plugins: "wk_rejectConnect (fold (\<lambda>name. tell_wk (PluginTornDown name)) ps u) = wk_rejectConnect u" for ps u
      by (induction ps arbitrary: u) simp_all
    show ?thesis using that
      by (simp add: dispose_stops router_dispose_def stop_service_def rejectPendingConnect_def teardownSocket_def
          clearReconnectTimer_def plugins Let_def split: option.split)
  qed
  have "wk_rejectConnect (failConnection (teardownSocket v)) = wk_rejectConnect v" for v
    by (simp add: failConnection_def teardownSocket_def split: option.split)
  then show ?thesis using inv w1 none by (simp add: handshakeFailed_def Let_def split: option.split)
qed

lemma dial_error: "dial_inv w \<Longrightarrow> dial_inv (onerror g w)"
proof -
  assume inv: "dial_inv w"
  have "wk_rejectConnect (teardownSocket v) = wk_rejectConnect v" for v by (simp add: teardownSocket_def split: option.split)
  then show ?thesis using inv by (simp add: onerror_def Let_def split: option.split)
qed

text \<open>The close of the current socket finds its handlers in place while it is being connected.\<close>

lemma dial_wired:
  assumes "link_inv w" "live_inv w" "dial_inv w" "wk_rejectConnect w = Some p"
  shows "\<exists>s. wired (wk_generation w) w = Some s \<and> ps_promise s = p" "\<not> wk_userClosed w" "wk_connectPromise w = Some p"
  using assms by (auto simp: link_inv_def live_inv_def dial_inv_def wired_def)

lemma dial_closed:
  assumes "link_inv w" "live_inv w" "dial_inv w"
  shows "dial_inv (onclose g w)"
proof (cases "wk_rejectConnect w")
  case None
  then show ?thesis by (simp add: onclose_def Let_def split: option.split)
next
  case (Some p)
  note at = dial_wired [OF assms Some]
  show ?thesis
  proof (cases "g = wk_generation w")
    case True
    then show ?thesis using at by (auto simp: onclose_def Let_def)
  next
    case False
    then show ?thesis using assms(3) by (simp add: onclose_def dial_inv_def Let_def split: option.split)
  qed
qed

definition settling_inv :: "socket_service \<Rightarrow> bool" where
  "settling_inv w \<longleftrightarrow> connected_inv w \<and> dial_inv w"

lemma settling_inv_step: "settling_inv w \<Longrightarrow> orderly w e \<Longrightarrow> settling_inv (service_step w e)"
proof -
  assume inv: "settling_inv w" and order: "orderly w e"
  then have parts: "connected_inv w" "link_inv w" "attempt_inv w" "live_inv w" "dial_inv w"
    by (simp_all add: settling_inv_def connected_inv_def waits_inv_def)
  have cleared: "dial_inv (connect d (w\<lparr>wk_armed := a, wk_reconnectTimer := t\<rparr>))" "dial_inv (connect d (clearReconnectTimer w))" for d a t
    using parts by (auto intro!: dial_connect)
  have lost: "dial_inv (handleSocketLoss (teardownSocket w))" if "wk_state w = WsConnected"
  proof -
    have "wk_rejectConnect w = None" using that parts by (cases "wk_rejectConnect w") (auto simp: live_inv_def link_inv_def)
    then show ?thesis by (simp add: teardownSocket_def split: option.split)
  qed
  have "dial_inv (set_socket g close_socket w)" "dial_inv (set_socket g (\<lambda>s. s\<lparr>ps_handshaking := False\<rparr>) w)" for g
    using parts(5) by (auto intro!: dial_set simp: close_socket_def)
  then have "dial_inv (service_step w e)"
    using parts dial_stop [OF parts(2,3,5)] cleared lost
    by (cases e) (simp_all add: dial_connect dial_url dial_open dial_refused dial_error dial_closed handshakeDone_def
      reconnectNow_def reportUnresponsive_def use_def unregister_def sendTracked_def request_def waitForConnection_def
      subscribe_def unsubscribe_def onmessage_def handshakeSends_def handshakeRequests_def generate_eq reconnectTimerFires_def
      requestTimeout_def waiterTimeout_def request_continues_def Let_def split_def split: option.split frame.split list.split)
  then show ?thesis using connected_inv_step parts(1) order by (simp add: settling_inv_def)
qed

lemma settling_inv_run: "settling_inv w \<Longrightarrow> orderly_run w es \<Longrightarrow> settling_inv (foldl service_step w es)"
  by (induction es arbitrary: w) (simp_all add: settling_inv_step)

lemma settling_inv_new [simp]: "settling_inv (new_service url options)"
  by (simp add: settling_inv_def) (simp add: new_service_def)

section \<open>What each event settles\<close>

lemma open_kept [simp]: "wk_open (teardownSocket w) = wk_open w" "wk_open (drop_connect w) = wk_open w"
    "wk_open (arm_reconnect d w) = wk_open w" "wk_open (set_socket g f w) = wk_open w"
  by (simp_all add: teardownSocket_def drop_connect_def arm_reconnect_def Let_def split: option.split)

lemma open_loss:
  "set (wk_open (handleSocketLoss w)) \<subseteq> set (wk_open w)"
  "\<not> wk_disposed w \<Longrightarrow> \<not> wk_userClosed w \<Longrightarrow>
     set (wk_open (handleSocketLoss w)) \<inter> (fst \<circ> snd) ` set (wk_pending w) = {}"
  "\<not> wk_disposed w \<Longrightarrow> \<not> wk_userClosed w \<Longrightarrow> maxAttempts w \<le> wk_reconnectAttempt w \<Longrightarrow> \<not> wo_persistentReconnect (wk_options w) \<Longrightarrow>
     set (wk_open (handleSocketLoss w)) \<inter> wt_promise ` set (wk_waiters w) = {}"
  by (auto simp: handleSocketLoss_def maxAttempts_def connects_def Let_def)

text \<open>A timer that fires.\<close>

lemma timers_settle:
  "wire_inv w \<Longrightarrow> (mid, p, type) \<in> set (wk_pending w) \<Longrightarrow> p \<notin> set (wk_open (requestTimeout mid w))"
  "p \<in> wt_promise ` set (wk_waiters w) \<Longrightarrow> p \<notin> set (wk_open (waiterTimeout p w))"
proof -
  assume "wire_inv w" "(mid, p, type) \<in> set (wk_pending w)"
  then have "map_get (wk_pending w) mid = Some (p, type)" by (simp add: wire_inv_def wf_map_def map_of_is_SomeI)
  then show "p \<notin> set (wk_open (requestTimeout mid w))" by (simp add: requestTimeout_def)
qed (simp add: waiterTimeout_def)

text \<open>The close of the current socket.\<close>

lemma close_settles:
  assumes "link_inv w" "wired (wk_generation w) w = Some s" "\<not> wk_userClosed w"
  shows "set (wk_open (onclose (wk_generation w) w)) \<inter> (fst \<circ> snd) ` set (wk_pending w) = {}"
    "maxAttempts w \<le> wk_reconnectAttempt w \<Longrightarrow> \<not> wo_persistentReconnect (wk_options w) \<Longrightarrow>
       set (wk_open (onclose (wk_generation w) w)) \<inter> wt_promise ` set (wk_waiters w) = {}"
    "wk_connectPromise w \<noteq> None \<Longrightarrow> ps_promise s \<notin> set (wk_open (onclose (wk_generation w) w))"
proof -
  define w0 where "w0 = set_socket (wk_generation w) (\<lambda>s. s\<lparr>ps_ready := SockClosed\<rparr>) w"
  define w1 where "w1 = (if wk_connectPromise w0 = None then w0
     else settle (ps_promise s) (Failed ''Connection lost'') (drop_connect w0))"
  have eq: "onclose (wk_generation w) w = handleSocketLoss w1"
    using assms(2,3) by (simp add: onclose_def w0_def w1_def Let_def)
  have same: "wk_disposed w1 = wk_disposed w" "wk_userClosed w1 = wk_userClosed w" "wk_pending w1 = wk_pending w"
    "wk_waiters w1 = wk_waiters w" "wk_options w1 = wk_options w" "wk_reconnectAttempt w1 = wk_reconnectAttempt w"
    by (simp_all add: w1_def w0_def drop_connect_def)
  have alive: "\<not> wk_disposed w" using assms(1,3) by (auto simp: link_inv_def)
  show "set (wk_open (onclose (wk_generation w) w)) \<inter> (fst \<circ> snd) ` set (wk_pending w) = {}"
    using open_loss(2) [of w1] alive assms(3) same eq by simp
  show "maxAttempts w \<le> wk_reconnectAttempt w \<Longrightarrow> \<not> wo_persistentReconnect (wk_options w) \<Longrightarrow>
      set (wk_open (onclose (wk_generation w) w)) \<inter> wt_promise ` set (wk_waiters w) = {}"
    using open_loss(3) [of w1] alive assms(3) same eq by (simp add: maxAttempts_def)
  show "ps_promise s \<notin> set (wk_open (onclose (wk_generation w) w))" if "wk_connectPromise w \<noteq> None"
    using open_loss(1) [of w1] that eq by (auto simp: w1_def w0_def)
qed

text \<open>The failure of the current socket while it is being connected.\<close>

lemma error_settles:
  assumes "wired (wk_generation w) w = Some s" "wk_connectPromise w \<noteq> None"
  shows "ps_promise s \<notin> set (wk_open (onerror (wk_generation w) w))"
proof -
  let ?w2 = "teardownSocket (settle (ps_promise s) (Failed ''WebSocket connection failed'') (drop_connect w))"
  have "ps_promise s \<notin> set (wk_open ?w2)" by simp
  then show ?thesis using assms open_loss(1) [of ?w2] by (auto simp: onerror_def Let_def)
qed

text \<open>The settlement of a renewed URL: the promise is settled, or a socket is being connected for it.\<close>

lemma url_settles:
  assumes "q \<in> fst ` set (wk_resolving w)"
  shows "q \<notin> fst ` set (wk_resolving (urlSettled q result refused w))"
    "q \<in> set (wk_open (urlSettled q result refused w)) \<Longrightarrow> wk_rejectConnect (urlSettled q result refused w) = Some q"
proof -
  obtain attempt where "map_get (wk_resolving w) q = Some attempt" using assms by (metis map_of_eq_None_iff option.exhaust)
  then show "q \<notin> fst ` set (wk_resolving (urlSettled q result refused w))"
    "q \<in> set (wk_open (urlSettled q result refused w)) \<Longrightarrow> wk_rejectConnect (urlSettled q result refused w) = Some q"
    by (auto simp: urlSettled_def openSocketPromise_def set_map_delete Let_def split: sum.splits option.splits if_splits)
qed

text \<open>The microtask after a gate: the request fails, or it is sent and its timer armed.\<close>

lemma request_pending:
  "p \<in> set (wk_open (router_request p random type payload v)) \<Longrightarrow>
     p \<in> (fst \<circ> snd) ` set (wk_pending (router_request p random type payload v))"
proof -
  have stored: "p \<in> (fst \<circ> snd) ` set (map_set mid (p, type) ps)" for mid type and ps :: "(string, nat \<times> string) jsmap"
    using map_of_SomeD [of "map_set mid (p, type) ps" mid "(p, type)"] by (force simp: image_iff)
  show "p \<in> set (wk_open (router_request p random type payload v)) \<Longrightarrow> ?thesis"
    using stored by (auto simp: router_request_def generate_eq sendRaw_def Let_def split: option.splits if_splits)
qed

lemma continue_settles:
  assumes "wk_continuations w = (p, r) # cs"
  shows "wk_continuations (request_continues random now w) = cs"
    "p \<in> set (wk_open (request_continues random now w)) \<Longrightarrow> p \<in> (fst \<circ> snd) ` set (wk_pending (request_continues random now w))"
proof -
  have "wk_continuations (router_request p random type payload v) = wk_continuations v" for random type payload v
    by (simp add: router_request_def generate_eq sendRaw_def Let_def split: option.split)
  then show "wk_continuations (request_continues random now w) = cs" using assms by (simp add: request_continues_def Let_def)
  show "p \<in> set (wk_open (request_continues random now w)) \<Longrightarrow>
      p \<in> (fst \<circ> snd) ` set (wk_pending (request_continues random now w))"
    using assms request_pending by (auto simp: request_continues_def Let_def split: if_splits)
qed

text \<open>The owner who closes the transport: what is left is on its way.\<close>

lemma disconnect_settles:
  assumes "link_inv w" "attempt_inv w"
  shows "set (wk_open (disconnect w)) \<subseteq> fst ` set (wk_continuations w) \<union> fst ` set (wk_resolving w)"
proof -
  have "owned {} (disconnect w)" "wk_rejectConnect (disconnect w) = None" using attempt_stop [OF assms] by (simp_all add: disconnect_stops)
  moreover have "wk_waiters (disconnect w) = []" by (simp add: disconnect_stops connects_def)
  ultimately show ?thesis by (auto simp: owned_def keepers_def disconnect_stops connects_def)
qed

end
