(* ===== verification/Socket_Onward.thy ===== *)
theory Socket_Onward
  imports Socket_Settlement
begin

text \<open>
  Where a wait of the WebSocket transport goes on: no event loses sight of an open promise or takes it back. A pending
  request stays under its id, a waiter becomes a request about to be sent, that one a pending request, and a URL being
  resolved the attempt to connect.
\<close>

section \<open>Waits only move on\<close>

definition handed :: "socket_service \<Rightarrow> socket_service \<Rightarrow> nat \<Rightarrow> bool" where
  "handed w v p \<longleftrightarrow>
     (\<forall>mid type. (mid, p, type) \<in> set (wk_pending w) \<longrightarrow> (mid, p, type) \<in> set (wk_pending v))
     \<and> (p \<in> wt_promise ` set (wk_waiters w) \<longrightarrow> p \<in> wt_promise ` set (wk_waiters v) \<union> fst ` set (wk_continuations v))
     \<and> (p \<in> fst ` set (wk_continuations w) \<longrightarrow> p \<in> fst ` set (wk_continuations v) \<union> (fst \<circ> snd) ` set (wk_pending v))
     \<and> (p \<in> fst ` set (wk_resolving w) \<longrightarrow> p \<in> fst ` set (wk_resolving v) \<or> wk_rejectConnect v = Some p)
     \<and> (wk_rejectConnect w = Some p \<longrightarrow> wk_rejectConnect v = Some p)"

definition onward :: "nat set \<Rightarrow> socket_service \<Rightarrow> socket_service \<Rightarrow> bool" where
  "onward X w v \<longleftrightarrow> (\<forall>p \<in> set (wk_open w) \<inter> set (wk_open v) - X. handed w v p)"

definition keeping :: "socket_service \<Rightarrow> (string, nat \<times> string) jsmap \<times> connection_waiter list \<times> (nat \<times> waiting_request) list
    \<times> (nat, nat) jsmap \<times> nat option" where
  "keeping w = (wk_pending w, wk_waiters w, wk_continuations w, wk_resolving w, wk_rejectConnect w)"

lemma onward_refl [simp]: "onward X w w"
  by (simp add: onward_def handed_def)

lemma onward_weaken: "onward {} w v \<Longrightarrow> onward X w v"
  by (simp add: onward_def)

text \<open>Nothing that is kept changes, and no old promise is opened.\<close>

lemma onward_same:
  assumes "onward X w v" "keeping u = keeping v" "set (wk_open u) \<subseteq> set (wk_open v)"
  shows "onward X w u"
  using assms by (auto simp: onward_def handed_def keeping_def)

lemma onward_settle: "onward (insert p X) w v \<Longrightarrow> onward X w (settle p r v)"
  by (auto simp: onward_def handed_def)

lemma keeping_parts [simp]:
  "keeping (tell_wk c w) = keeping w" "keeping (settle p r w) = keeping w" "keeping (set_socket g f w) = keeping w"
  "keeping (teardownSocket w) = keeping w" "keeping (clearReconnectTimer w) = keeping w" "keeping (handleBinary d w) = keeping w"
  "keeping (snd (sendRaw mid type payload w)) = keeping w" "keeping (snd (new_promise w)) = keeping w"
  "keeping (settled_promise r w) = keeping w" "keeping (arm_reconnect delay w) = keeping w"
  "keeping (w\<lparr>wk_plugins := a1\<rparr>) = keeping w" "keeping (w\<lparr>wk_handlers := a2\<rparr>) = keeping w"
  "keeping (w\<lparr>wk_handlerSets := a3\<rparr>) = keeping w" "keeping (w\<lparr>wk_binaryHandlers := a4\<rparr>) = keeping w"
  "keeping (w\<lparr>wk_stateListeners := a5\<rparr>) = keeping w" "keeping (w\<lparr>wk_idCounter := a6\<rparr>) = keeping w"
  "keeping (w\<lparr>wk_armed := a7\<rparr>) = keeping w" "keeping (w\<lparr>wk_reconnectTimer := a8\<rparr>) = keeping w"
  "keeping (w\<lparr>wk_url := a9\<rparr>) = keeping w" "keeping (w\<lparr>wk_connectPromise := a10\<rparr>) = keeping w"
  "keeping (w\<lparr>wk_reconnectAttempt := a11\<rparr>) = keeping w" "keeping (w\<lparr>wk_reportedRouteExhaustion := a12\<rparr>) = keeping w"
  "keeping (w\<lparr>wk_disposed := a13\<rparr>) = keeping w" "keeping (w\<lparr>wk_userClosed := a14\<rparr>) = keeping w"
  "keeping (w\<lparr>wk_routerDisposed := a15\<rparr>) = keeping w"
  by (simp_all add: keeping_def teardownSocket_def clearReconnectTimer_def sendRaw_def new_promise_def settled_promise_def
      arm_reconnect_def Let_def split: option.split)

lemma opened_parts [simp]: "wk_open (clearReconnectTimer w) = wk_open w" "wk_open (snd (sendRaw mid type payload w)) = wk_open w"
  by (simp_all add: clearReconnectTimer_def sendRaw_def split: option.split)

lemma onward_updates [simp]:
  "onward X w (tell_wk c v) = onward X w v" "onward X w (set_socket g f v) = onward X w v"
  "onward X w (teardownSocket v) = onward X w v" "onward X w (clearReconnectTimer v) = onward X w v"
  "onward X w (handleBinary d v) = onward X w v" "onward X w (snd (sendRaw mid type payload v)) = onward X w v"
  "onward X w (arm_reconnect delay v) = onward X w v"
  "onward X w (v\<lparr>wk_plugins := a1\<rparr>) = onward X w v" "onward X w (v\<lparr>wk_handlers := a2\<rparr>) = onward X w v"
  "onward X w (v\<lparr>wk_handlerSets := a3\<rparr>) = onward X w v" "onward X w (v\<lparr>wk_binaryHandlers := a4\<rparr>) = onward X w v"
  "onward X w (v\<lparr>wk_stateListeners := a5\<rparr>) = onward X w v" "onward X w (v\<lparr>wk_idCounter := a6\<rparr>) = onward X w v"
  "onward X w (v\<lparr>wk_armed := a7\<rparr>) = onward X w v" "onward X w (v\<lparr>wk_reconnectTimer := a8\<rparr>) = onward X w v"
  "onward X w (v\<lparr>wk_url := a9\<rparr>) = onward X w v" "onward X w (v\<lparr>wk_connectPromise := a10\<rparr>) = onward X w v"
  "onward X w (v\<lparr>wk_reconnectAttempt := a11\<rparr>) = onward X w v" "onward X w (v\<lparr>wk_reportedRouteExhaustion := a12\<rparr>) = onward X w v"
  "onward X w (v\<lparr>wk_disposed := a13\<rparr>) = onward X w v" "onward X w (v\<lparr>wk_userClosed := a14\<rparr>) = onward X w v"
  "onward X w (v\<lparr>wk_routerDisposed := a15\<rparr>) = onward X w v"
proof -
  have same: "onward X w u = onward X w v" if "keeping u = keeping v" "wk_open u = wk_open v" for u
    using that onward_same [of X w u v] onward_same [of X w v u] by auto
  show "onward X w (tell_wk c v) = onward X w v" "onward X w (set_socket g f v) = onward X w v"
    "onward X w (teardownSocket v) = onward X w v" "onward X w (clearReconnectTimer v) = onward X w v"
    "onward X w (handleBinary d v) = onward X w v" "onward X w (snd (sendRaw mid type payload v)) = onward X w v"
    "onward X w (arm_reconnect delay v) = onward X w v"
    "onward X w (v\<lparr>wk_plugins := a1\<rparr>) = onward X w v" "onward X w (v\<lparr>wk_handlers := a2\<rparr>) = onward X w v"
    "onward X w (v\<lparr>wk_handlerSets := a3\<rparr>) = onward X w v" "onward X w (v\<lparr>wk_binaryHandlers := a4\<rparr>) = onward X w v"
    "onward X w (v\<lparr>wk_stateListeners := a5\<rparr>) = onward X w v" "onward X w (v\<lparr>wk_idCounter := a6\<rparr>) = onward X w v"
    "onward X w (v\<lparr>wk_armed := a7\<rparr>) = onward X w v" "onward X w (v\<lparr>wk_reconnectTimer := a8\<rparr>) = onward X w v"
    "onward X w (v\<lparr>wk_url := a9\<rparr>) = onward X w v" "onward X w (v\<lparr>wk_connectPromise := a10\<rparr>) = onward X w v"
    "onward X w (v\<lparr>wk_reconnectAttempt := a11\<rparr>) = onward X w v" "onward X w (v\<lparr>wk_reportedRouteExhaustion := a12\<rparr>) = onward X w v"
    "onward X w (v\<lparr>wk_disposed := a13\<rparr>) = onward X w v" "onward X w (v\<lparr>wk_userClosed := a14\<rparr>) = onward X w v"
    "onward X w (v\<lparr>wk_routerDisposed := a15\<rparr>) = onward X w v"
    by (rule same; simp)+
qed

text \<open>The parts that settle.\<close>

lemma onward_parts [simp]:
  assumes "onward X w v"
  shows "onward X w (settle p r v)" "onward X w (failPending err v)" "onward X w (rejectWaiters err v)"
    "onward X w (setState next v)" "onward X w (handleSocketLoss v)"
proof -
  have fail: "onward X w (failPending err u)" if "onward X w u" for err u
    unfolding onward_def
  proof (intro ballI)
    fix p assume "p \<in> set (wk_open w) \<inter> set (wk_open (failPending err u)) - X"
    then have "handed w u p" "p \<notin> (fst \<circ> snd) ` set (wk_pending u)" using that by (auto simp: onward_def)
    moreover from this(2) have "(mid, p, type) \<notin> set (wk_pending u)" for mid type by force
    ultimately show "handed w (failPending err u) p" by (simp add: handed_def)
  qed
  have rejects: "onward X w (rejectWaiters err u)" if "onward X w u" for err u
    unfolding onward_def
  proof (intro ballI)
    fix p assume "p \<in> set (wk_open w) \<inter> set (wk_open (rejectWaiters err u)) - X"
    then have "handed w u p" "p \<notin> wt_promise ` set (wk_waiters u)" using that by (auto simp: onward_def)
    then show "handed w (rejectWaiters err u) p" by (simp add: handed_def)
  qed
  have state: "onward X w (setState st u)" if "onward X w u" for st u
    unfolding onward_def
  proof (intro ballI)
    fix p assume "p \<in> set (wk_open w) \<inter> set (wk_open (setState st u)) - X"
    then have "handed w u p" "connects st u \<Longrightarrow> p \<notin> plain_waiters (wk_waiters u)" using that by (auto simp: onward_def)
    then show "handed w (setState st u) p" using waiter_promises [of "wk_waiters u"] by (auto simp: handed_def)
  qed
  show "onward X w (settle p r v)" using assms by (auto simp: onward_def handed_def)
  show "onward X w (failPending err v)" "onward X w (rejectWaiters err v)" "onward X w (setState next v)"
    by (rule fail rejects state assms)+
  show "onward X w (handleSocketLoss v)"
    using assms by (simp add: handleSocketLoss_def Let_def fail rejects state)
qed

lemma onward_new: "onward X w v \<Longrightarrow> fst (new_promise v) \<notin> set (wk_open w) \<Longrightarrow> onward X w (snd (new_promise v))"
  by (auto simp: onward_def handed_def new_promise_def)

lemma fresh_promise: "promise_inv w \<Longrightarrow> wk_promises w \<notin> set (wk_open w)"
  by (auto simp: promise_inv_def)

lemma onward_promised:
  "onward X w v \<Longrightarrow> promise_inv w \<Longrightarrow> wk_promises v = wk_promises w \<Longrightarrow> onward X w (snd (new_promise v))"
  by (rule onward_new) (simp_all add: fresh_promise new_promise_def)

lemma onward_settled_promise: "onward X w v \<Longrightarrow> onward X w (settled_promise r v)"
  by (rule onward_same [of X w v]) (auto simp: settled_promise_def new_promise_def keeping_def Let_def)

lemma onward_waitFor:
  assumes "onward X w v" "promise_inv w" "wk_promises v = wk_promises w"
  shows "onward X w (waitFor req v)"
proof -
  have "onward X w (u\<lparr>wk_waiters := wk_waiters v @ [wt]\<rparr>)" if "onward X w u" "wk_waiters u = wk_waiters v" for u wt
    using that by (auto simp: onward_def handed_def)
  then show ?thesis using onward_promised [OF assms] assms(1)
    by (simp add: waitFor_def Let_def split_def onward_settled_promise)
qed

lemma onward_request:
  assumes "wire_inv v" "onward X w v"
  shows "onward X w (router_request p random type payload v)"
proof -
  let ?mid = "message_id (Suc (wk_idCounter v)) random"
  have fresh: "map_set ?mid (p, type) (wk_pending v) = wk_pending v @ [(?mid, p, type)]"
    "map_delete ?mid (wk_pending v @ [(?mid, p, type)]) = wk_pending v"
    using wire_fresh(1) [OF assms(1), of random]
    by (simp_all add: map_set_fresh AList.delete_eq map_has_iff) (force intro: filter_True)
  have "onward X w (v\<lparr>wk_idCounter := n, wk_pending := wk_pending v @ [q]\<rparr>)"
    "onward X w (v\<lparr>wk_idCounter := n, wk_pending := wk_pending v\<rparr>)" for n q
    using assms(2) by (auto simp: onward_def handed_def)
  then show ?thesis using assms(2)
    by (simp add: router_request_def generate_eq sendRaw_def fresh Let_def split: option.split)
qed

text \<open>A request that leaves the table has been settled.\<close>

lemma onward_answered:
  assumes "wire_inv w" "set (wk_pending v) = set (map_delete mid (wk_pending w))"
    "\<And>p type. map_get (wk_pending w) mid = Some (p, type) \<Longrightarrow> p \<notin> set (wk_open v)"
    "wk_waiters v = wk_waiters w" "wk_continuations v = wk_continuations w" "wk_resolving v = wk_resolving w"
    "wk_rejectConnect v = wk_rejectConnect w"
  shows "onward {} w v"
  unfolding onward_def
proof (intro ballI)
  fix p assume p: "p \<in> set (wk_open w) \<inter> set (wk_open v) - {}"
  have "(m, p, type) \<in> set (wk_pending v)" if "(m, p, type) \<in> set (wk_pending w)" for m type
  proof -
    have "map_get (wk_pending w) m = Some (p, type)" using that assms(1) by (simp add: wire_inv_def wf_map_def map_of_is_SomeI)
    then show ?thesis using that p assms(2,3) by (auto simp: set_map_delete)
  qed
  moreover from this have "p \<in> (fst \<circ> snd) ` set (wk_pending w) \<Longrightarrow> p \<in> (fst \<circ> snd) ` set (wk_pending v)" by force
  ultimately show "handed w v p" using assms(4-7) by (auto simp: handed_def)
qed

lemma onward_timeouts:
  assumes "wire_inv w"
  shows "onward {} w (requestTimeout mid w)" "onward {} w (waiterTimeout p w)" "onward {} w (handleIncoming m w)"
proof -
  have some: "onward {} w (requestTimeout mid w)" if "map_get (wk_pending w) mid = Some (q, type)" for q type
    by (rule onward_answered [OF assms, where mid = mid]) (use that in \<open>simp_all add: requestTimeout_def\<close>)
  show "onward {} w (requestTimeout mid w)"
    using some by (cases "map_get (wk_pending w) mid") (auto simp: requestTimeout_def)
  have kept: "wk_resolving (handleIncoming m w) = wk_resolving w" "wk_rejectConnect (handleIncoming m w) = wk_rejectConnect w"
    by simp_all
  show "onward {} w (handleIncoming m w)"
    by (rule onward_answered [OF assms, where mid = "sm_id m"]) simp_all
  show "onward {} w (waiterTimeout p w)"
    by (auto simp: waiterTimeout_def onward_def handed_def)
qed

text \<open>Dropping the attempt is sound for its own promise only.\<close>

lemma onward_drop:
  "onward X w v \<Longrightarrow> set_option (wk_rejectConnect v) \<subseteq> {p} \<Longrightarrow> onward (insert p X) w (drop_connect v)"
  by (auto simp: onward_def handed_def drop_connect_def)

lemma onward_settled_attempt:
  "onward X w v \<Longrightarrow> set_option (wk_rejectConnect v) \<subseteq> {p} \<Longrightarrow> onward X w (settle p r (drop_connect v))"
  by (rule onward_settle, rule onward_drop)

lemma onward_established:
  assumes "onward X w v" "set_option (wk_rejectConnect v) \<subseteq> {p}"
  shows "onward X w (established p v)"
proof -
  have "onward (insert p X) w (drop_connect (v\<lparr>wk_reconnectAttempt := 0, wk_reportedRouteExhaustion := False\<rparr>))"
    using assms by (intro onward_drop) simp_all
  then show ?thesis unfolding established_def by (intro onward_settle) simp
qed

lemma current_attempt:
  "link_inv w \<Longrightarrow> map_get (wk_sockets w) (wk_generation w) = Some s \<Longrightarrow> set_option (wk_rejectConnect w) \<subseteq> {ps_promise s}"
  by (cases "wk_rejectConnect w") (auto simp: link_inv_def)

lemma onward_stop:
  assumes "link_inv w"
  shows "onward {} w (stop_service err w)"
proof -
  define v where "v = teardownSocket (clearReconnectTimer w)"
  have v: "onward {} w v" "wk_rejectConnect v = wk_rejectConnect w" "wk_connectPromise v = wk_connectPromise w"
    by (simp_all add: v_def) (simp_all add: teardownSocket_def clearReconnectTimer_def split: option.split)
  have dropped: "rejectPendingConnect err v = (case wk_rejectConnect v of None \<Rightarrow> if wk_connectPromise v = None then v else drop_connect v
      | Some p \<Rightarrow> settle p (Failed err) (drop_connect v))"
    using assms v(2,3) by (auto simp: rejectPendingConnect_def drop_connect_def link_inv_def Let_def split: option.split)
  have "onward {} w (drop_connect v)" if "wk_rejectConnect v = None"
    using v(1) that by (auto simp: onward_def handed_def drop_connect_def)
  then show ?thesis
    using v(1) unfolding stop_service_def v_def [symmetric] dropped
    by (auto intro!: onward_settled_attempt split: option.split)
qed

lemma onward_leaves:
  assumes "link_inv w"
  shows "onward {} w (disconnect w)" "onward {} w (dispose_service w)"
proof -
  have plugins: "onward X w (fold (\<lambda>name. tell_wk (PluginTornDown name)) ps v) = onward X w v" for X ps v
    by (induction ps arbitrary: v) simp_all
  show "onward {} w (disconnect w)" "onward {} w (dispose_service w)"
    using onward_stop [OF assms] by (simp_all add: disconnect_stops dispose_stops router_dispose_def plugins Let_def)
qed

text \<open>A new attempt begins when there is none.\<close>

lemma onward_opened:
  assumes "onward X w v" "wk_rejectConnect w = None" "wk_resolving w = wk_resolving v \<or> wk_resolving w = []"
  shows "onward X w (openSocketPromise refused p v)"
proof (cases refused)
  case None
  have "onward X w (v\<lparr>wk_rejectConnect := Some p, wk_generation := g, wk_ws := s, wk_sockets := ss\<rparr>)" for g s ss
    using assms by (auto simp: onward_def handed_def)
  then show ?thesis using None by (simp add: openSocketPromise_def Let_def)
next
  case (Some err)
  have "onward (insert p X) w (drop_connect (v\<lparr>wk_rejectConnect := Some p, wk_generation := g\<rparr>))" for g
    using assms(1,3) by (auto simp: onward_def handed_def drop_connect_def assms(2))
  then show ?thesis using Some by (auto simp: openSocketPromise_def Let_def intro!: onward_settle)
qed

lemma onward_connect:
  assumes "link_inv w" "attempt_inv w" "promise_inv w" "wk_promises v = wk_promises w" "onward {} w v"
    "wk_resolving v = wk_resolving w" "wk_rejectConnect v = wk_rejectConnect w" "wk_connectPromise v = wk_connectPromise w"
    "wk_userClosed v = wk_userClosed w"
  shows "onward {} w (connect d v)"
proof (cases "\<not> wk_userClosed w \<and> wk_connectPromise w = None")
  case True
  then have idle: "wk_rejectConnect w = None" "wk_resolving w = []" using assms(1,2)
    by (auto simp: link_inv_def attempt_inv_def)
  define u where "u = snd (new_promise (setState WsConnecting v))"
  have u: "onward {} w u" "wk_resolving u = []" "wk_rejectConnect u = None"
    using assms(3-7) idle by (simp_all add: u_def onward_promised) (simp_all add: new_promise_def)
  have "onward {} w (tell_wk c (u\<lparr>wk_resolving := r, wk_connectPromise := q\<rparr>))" for c r q
    using u idle by (auto simp: onward_def handed_def)
  moreover have "onward {} w ((openSocketPromise refused p u)\<lparr>wk_connectPromise := q\<rparr>)" for refused p q
    using onward_opened [OF u(1) idle(1)] idle(2) by simp
  ultimately show ?thesis using assms(5)
    by (simp add: connect_def Let_def split_def u_def [symmetric] onward_settled_promise)
next
  case False
  then show ?thesis using assms(5,8,9) by (auto simp: connect_def onward_settled_promise)
qed

lemma onward_url:
  assumes "link_inv w" "attempt_inv w"
  shows "onward {} w (urlSettled q result refused w)"
proof (cases "map_get (wk_resolving w) q")
  case (Some attempt)
  define w0 where "w0 = w\<lparr>wk_resolving := map_delete q (wk_resolving w)\<rparr>"
  have "wk_resolving w \<noteq> []" using map_of_SomeD [OF Some] by auto
  then have idle: "wk_rejectConnect w = None" using assms by (auto simp: link_inv_def attempt_inv_def)
  have w0: "onward {q} w w0" by (auto simp: onward_def handed_def w0_def set_map_delete)
  have dropped: "onward {q} w (drop_connect w0)" using w0 idle by (auto simp: onward_def handed_def drop_connect_def w0_def)
  have opened: "onward {} w ((openSocketPromise refused q (case url of None \<Rightarrow> w0 | Some u \<Rightarrow> if u = [] then w0 else w0\<lparr>wk_url := u\<rparr>))
      \<lparr>wk_connectPromise := Some q\<rparr>)" for url
  proof (cases refused)
    case None
    define v where "v = (case url of None \<Rightarrow> w0 | Some u \<Rightarrow> if u = [] then w0 else w0\<lparr>wk_url := u\<rparr>)"
    have v: "wk_pending v = wk_pending w" "wk_waiters v = wk_waiters w" "wk_continuations v = wk_continuations w"
      "wk_resolving v = map_delete q (wk_resolving w)"
      by (simp_all add: v_def w0_def split: option.split)
    show ?thesis unfolding v_def [symmetric] using None v idle
      by (auto simp: onward_def handed_def openSocketPromise_def set_map_delete Let_def)
  next
    case (Some err)
    have "onward {q} w (drop_connect ((case url of None \<Rightarrow> w0 | Some u \<Rightarrow> if u = [] then w0 else w0\<lparr>wk_url := u\<rparr>)
        \<lparr>wk_rejectConnect := Some q, wk_generation := g\<rparr>))" for g
      using idle by (auto simp: onward_def handed_def drop_connect_def w0_def set_map_delete split: option.split)
    then show ?thesis using Some by (auto simp: openSocketPromise_def Let_def intro!: onward_settle)
  qed
  show ?thesis using Some w0 dropped opened
    by (auto simp: urlSettled_def Let_def w0_def [symmetric] intro!: onward_settle split: sum.split)
qed (simp add: urlSettled_def)

lemma onward_socket:
  assumes "link_inv w"
  shows "onward {} w (onopen g w)" "onward {} w (handshakeDone g w)" "onward {} w (handshakeFailed g err disposes w)"
    "onward {} w (onerror g w)" "onward {} w (onclose g w)"
proof -
  have at: "set_option (wk_rejectConnect w) \<subseteq> {ps_promise s}" if "map_get (wk_sockets w) g = Some s" "wk_generation w = g" for s
    using current_attempt [OF assms] that by blast
  have at': "set_option (wk_rejectConnect w) \<subseteq> {ps_promise s}" if "wired g w = Some s" "wk_generation w = g" for s
    using at wired_SomeD [OF that(1)] that(2) by blast
  have dropped: "onward {} w (settle (ps_promise s) r (drop_connect (set_socket g f w)))" "onward {} w (settle (ps_promise s) r (drop_connect w))"
    "onward {} w (established (ps_promise s) (set_socket g f w))"
    if "set_option (wk_rejectConnect w) \<subseteq> {ps_promise s}" for s r f
    using that by (auto intro!: onward_settled_attempt onward_established)
  show "onward {} w (onopen g w)"
    using at' dropped(3) by (auto simp: onopen_def Let_def split: option.split)
  show "onward {} w (handshakeDone g w)"
    using at dropped(3) by (auto simp: handshakeDone_def Let_def split: option.split)
  show "onward {} w (onerror g w)" "onward {} w (onclose g w)"
  proof -
    have "onward {} w (onerror g w) \<and> onward {} w (onclose g w)" if s: "wired g w = Some s" "wk_generation w = g" for s
      using dropped(1,2) [OF at' [OF s]] s by (simp add: onerror_def onclose_def Let_def)
    then show "onward {} w (onerror g w)" "onward {} w (onclose g w)"
      by (cases "wired g w"; cases "wk_generation w = g"; simp add: onerror_def onclose_def Let_def)+
  qed
  have plugins: "onward X w (fold (\<lambda>name. tell_wk (PluginTornDown name)) ps v) = onward X w v" for X ps v
    by (induction ps arbitrary: v) simp_all
  have disposed: "onward {} w (dispose_service v)" if "onward {} w v" "wk_rejectConnect v = None" for v
  proof -
    have "onward {} w (stop_service e v)" for e
      using that by (auto simp: stop_service_def rejectPendingConnect_def teardownSocket_def clearReconnectTimer_def onward_def handed_def
          Let_def split: option.splits)
    then show ?thesis using that(1) by (simp add: dispose_stops router_dispose_def plugins Let_def)
  qed
  show "onward {} w (handshakeFailed g err disposes w)"
  proof (cases "map_get (wk_sockets w) g")
    case (Some s)
    define w2 where "w2 = settle (ps_promise s) (Failed err) (drop_connect (set_socket g (\<lambda>s. s\<lparr>ps_handshaking := False\<rparr>) w))"
    have w2: "onward {} w w2" "wk_rejectConnect w2 = None" if "wk_generation w = g"
      unfolding w2_def using dropped(1) [OF at [OF Some that]] by simp_all
    have "onward {} w (dispose_service (tell_wk c w2))" if "wk_generation w = g" for c
      using w2 [OF that] by (intro disposed) simp_all
    then show ?thesis using w2 Some
      by (cases "wk_generation w = g") (simp_all add: handshakeFailed_def failConnection_def w2_def [symmetric] Let_def)
  qed (simp add: handshakeFailed_def)
qed

lemma onward_continues:
  assumes "wire_inv w"
  shows "onward {} w (request_continues random now w)"
proof (cases "wk_continuations w")
  case (Cons c cs)
  obtain p q where c: "c = (p, q)" by (cases c)
  define v where "v = w\<lparr>wk_continuations := cs\<rparr>"
  have v: "onward {p} w v" "wire_inv v" using Cons c by (auto simp: v_def onward_def handed_def intro: wire_same [OF assms])
  have "onward {} w (router_request p random type payload v)" for type payload
    unfolding onward_def
  proof (intro ballI)
    let ?u = "router_request p random type payload v"
    fix x assume x: "x \<in> set (wk_open w) \<inter> set (wk_open ?u) - {}"
    have others: "onward {p} w ?u" using onward_request [OF v(2,1)] .
    show "handed w ?u x"
    proof (cases "x = p")
      case True
      have "onward {} v ?u" using onward_request [OF v(2)] by simp
      moreover have "x \<in> set (wk_open v)" using x by (simp add: v_def)
      ultimately have "handed v ?u x" using x by (simp add: onward_def)
      moreover have "x \<in> (fst \<circ> snd) ` set (wk_pending ?u)"
        using request_pending x True by simp
      ultimately show ?thesis using Cons c by (auto simp: handed_def v_def)
    qed (use others x in \<open>simp add: onward_def\<close>)
  qed
  moreover have "onward {} w (settle p r v)" for r using onward_settle [OF v(1)] .
  ultimately show ?thesis using Cons c by (simp add: request_continues_def v_def [symmetric] Let_def)
qed (simp add: request_continues_def)

lemma onward_step:
  assumes "link_inv w" "wire_inv w" "attempt_inv w" "promise_inv w"
  shows "onward {} w (service_step w e)"
proof -
  have cleared: "onward {} w (connect d (w\<lparr>wk_armed := a, wk_reconnectTimer := t\<rparr>))" "onward {} w (connect d (clearReconnectTimer w))"
    "onward {} w (connect d w)" for d a t
    using assms by (auto intro!: onward_connect simp: clearReconnectTimer_def split: option.split)
  have new: "onward {} w (router_request p random type payload (snd (new_promise w)))" for p random type payload
    using assms(2,4) by (intro onward_request onward_promised) (auto intro: wire_same)
  show ?thesis
    using assms onward_leaves [OF assms(1)] cleared new
    by (cases e) (simp_all add: onward_url onward_socket onward_timeouts onward_continues onward_settled_promise onward_waitFor
      reconnectNow_def reportUnresponsive_def use_def unregister_def sendTracked_def request_def waitForConnection_def
      subscribe_def unsubscribe_def onmessage_def handshakeSends_def handshakeRequests_def generate_eq reconnectTimerFires_def
      Let_def split_def split: option.split frame.split)
qed

section \<open>Promises stay settled\<close>

text \<open>An event opens the next promise at most.\<close>

definition opens :: "socket_service \<Rightarrow> socket_service \<Rightarrow> bool" where
  "opens w v \<longleftrightarrow> set (wk_open v) \<subseteq> insert (wk_promises w) (set (wk_open w))"

lemma opens_refl [simp]: "opens w w"
  by (auto simp: opens_def)

lemma opens_fewer: "opens w v \<Longrightarrow> set (wk_open u) \<subseteq> set (wk_open v) \<Longrightarrow> opens w u"
  by (auto simp: opens_def)

lemma opens_new: "opens w v \<Longrightarrow> wk_promises v = wk_promises w \<Longrightarrow> opens w (snd (new_promise v))"
  by (auto simp: opens_def new_promise_def)

lemma opens_updates [simp]:
  "opens w (v\<lparr>wk_plugins := a1\<rparr>) = opens w v" "opens w (v\<lparr>wk_handlers := a2\<rparr>) = opens w v"
  "opens w (v\<lparr>wk_handlerSets := a3\<rparr>) = opens w v" "opens w (v\<lparr>wk_binaryHandlers := a4\<rparr>) = opens w v"
  "opens w (v\<lparr>wk_stateListeners := a5\<rparr>) = opens w v" "opens w (v\<lparr>wk_idCounter := a6\<rparr>) = opens w v"
  "opens w (v\<lparr>wk_armed := a7\<rparr>) = opens w v" "opens w (v\<lparr>wk_reconnectTimer := a8\<rparr>) = opens w v"
  "opens w (v\<lparr>wk_url := a9\<rparr>) = opens w v" "opens w (v\<lparr>wk_connectPromise := a10\<rparr>) = opens w v"
  "opens w (v\<lparr>wk_reconnectAttempt := a11\<rparr>) = opens w v" "opens w (v\<lparr>wk_reportedRouteExhaustion := a12\<rparr>) = opens w v"
  "opens w (v\<lparr>wk_disposed := a13\<rparr>) = opens w v" "opens w (v\<lparr>wk_userClosed := a14\<rparr>) = opens w v"
  "opens w (v\<lparr>wk_routerDisposed := a15\<rparr>) = opens w v" "opens w (v\<lparr>wk_resolving := a16\<rparr>) = opens w v"
  "opens w (v\<lparr>wk_continuations := a17\<rparr>) = opens w v" "opens w (v\<lparr>wk_waiters := a18\<rparr>) = opens w v"
  "opens w (v\<lparr>wk_pending := a19\<rparr>) = opens w v" "opens w (v\<lparr>wk_rejectConnect := b1\<rparr>) = opens w v"
  "opens w (v\<lparr>wk_generation := b2\<rparr>) = opens w v" "opens w (v\<lparr>wk_ws := b3\<rparr>) = opens w v" "opens w (v\<lparr>wk_sockets := b4\<rparr>) = opens w v"
  "opens w (tell_wk c v) = opens w v" "opens w (set_socket g f v) = opens w v"
  "opens w (teardownSocket v) = opens w v" "opens w (clearReconnectTimer v) = opens w v" "opens w (drop_connect v) = opens w v"
  "opens w (handleBinary d v) = opens w v" "opens w (snd (sendRaw mid type payload v)) = opens w v"
  by (simp_all add: opens_def)

lemma opens_parts [simp]:
  assumes "opens w v"
  shows "opens w (settle p r v)" "opens w (failPending err v)" "opens w (rejectWaiters err v)" "opens w (setState next v)"
    "opens w (handleSocketLoss v)" "opens w (handleIncoming m v)" "opens w (settled_promise r v)"
    "opens w (router_request p random type payload v)" "opens w (openSocketPromise refused p v)" "opens w (established p v)"
    "opens w (rejectPendingConnect err v)"
proof -
  have settle: "opens w (settle p r u)" if "opens w u" for p r u using that by (auto intro: opens_fewer)
  have state: "opens w (setState st u)" if "opens w u" for st u using that by (auto intro: opens_fewer)
  show "opens w (settle p r v)" "opens w (setState next v)" by (rule settle state assms)+
  show "opens w (failPending err v)" "opens w (rejectWaiters err v)" "opens w (handleIncoming m v)"
    using assms by (auto intro: opens_fewer)
  show "opens w (handleSocketLoss v)" by (rule opens_fewer [OF assms open_loss(1)])
  show "opens w (settled_promise r v)" by (rule opens_fewer [OF assms]) (auto simp: settled_promise_def new_promise_def Let_def)
  show "opens w (router_request p random type payload v)" "opens w (openSocketPromise refused p v)" "opens w (established p v)"
    "opens w (rejectPendingConnect err v)"
    using assms by (simp_all add: router_request_def generate_eq sendRaw_def openSocketPromise_def established_def
        rejectPendingConnect_def settle state Let_def split: option.split)
qed

lemma opens_stops [simp]:
  assumes "opens w v"
  shows "opens w (disconnect v)" "opens w (dispose_service v)"
proof -
  have plugins: "opens w (fold (\<lambda>name. tell_wk (PluginTornDown name)) ps u) = opens w u" for ps u
    by (induction ps arbitrary: u) simp_all
  show "opens w (disconnect v)" "opens w (dispose_service v)"
    using assms by (simp_all add: disconnect_def dispose_service_def router_dispose_def plugins Let_def)
qed

lemma opens_connect: "opens w v \<Longrightarrow> wk_promises v = wk_promises w \<Longrightarrow> opens w (connect d v)"
  using opens_new [of w "setState WsConnecting v"] by (simp add: connect_def Let_def split_def)

lemma opens_step: "opens w (service_step w e)"
proof -
  have new: "opens w (snd (new_promise w))" by (rule opens_new) simp_all
  have cleared: "opens w (connect d (w\<lparr>wk_armed := a, wk_reconnectTimer := t\<rparr>))" "opens w (connect d (clearReconnectTimer w))"
    "opens w (connect d w)" for d a t
    by (rule opens_connect; simp add: clearReconnectTimer_def split: option.split)+
  show ?thesis
    using new cleared
    by (cases e) (simp_all add: urlSettled_def waitFor_def requestTimeout_def waiterTimeout_def request_continues_def
      onopen_def onerror_def onclose_def handshakeDone_def handshakeFailed_def failConnection_def
      reconnectNow_def reportUnresponsive_def use_def unregister_def sendTracked_def request_def waitForConnection_def
      subscribe_def unsubscribe_def onmessage_def handshakeSends_def handshakeRequests_def generate_eq reconnectTimerFires_def
      Let_def split_def split: option.split sum.split frame.split list.split)
qed

lemma promises_kept [simp]:
  "wk_promises (teardownSocket w) = wk_promises w" "wk_promises (clearReconnectTimer w) = wk_promises w"
  "wk_promises (drop_connect w) = wk_promises w" "wk_promises (handleSocketLoss w) = wk_promises w"
  "wk_promises (rejectPendingConnect err w) = wk_promises w" "wk_promises (openSocketPromise refused p w) = wk_promises w"
  "wk_promises (established p w) = wk_promises w" "wk_promises (router_request p random type payload w) = wk_promises w"
  "wk_promises (snd (sendRaw mid type payload w)) = wk_promises w" "wk_promises (disconnect w) = wk_promises w"
  "wk_promises (dispose_service w) = wk_promises w"
proof -
  have plugins: "wk_promises (fold (\<lambda>name. tell_wk (PluginTornDown name)) ps v) = wk_promises v" for ps v
    by (induction ps arbitrary: v) simp_all
  show torn: "wk_promises (teardownSocket w) = wk_promises w" "wk_promises (clearReconnectTimer w) = wk_promises w"
    "wk_promises (drop_connect w) = wk_promises w" for w
    by (simp_all add: teardownSocket_def clearReconnectTimer_def drop_connect_def split: option.split)
  show loss: "wk_promises (handleSocketLoss w) = wk_promises w" "wk_promises (openSocketPromise refused p w) = wk_promises w"
    "wk_promises (established p w) = wk_promises w" "wk_promises (router_request p random type payload w) = wk_promises w"
    "wk_promises (snd (sendRaw mid type payload w)) = wk_promises w"
    by (simp_all add: handleSocketLoss_def arm_reconnect_def openSocketPromise_def established_def router_request_def generate_eq
        sendRaw_def torn Let_def split: option.split)
  show stop: "wk_promises (rejectPendingConnect err w) = wk_promises w" for err w
    by (simp add: rejectPendingConnect_def Let_def split: option.split)
  show "wk_promises (disconnect w) = wk_promises w" "wk_promises (dispose_service w) = wk_promises w"
    by (simp_all add: disconnect_def dispose_service_def router_dispose_def torn stop plugins Let_def)
qed

lemma promises_step: "wk_promises w \<le> wk_promises (service_step w e)"
proof -
  have new: "wk_promises (snd (new_promise v)) = Suc (wk_promises v)" "wk_promises (settled_promise r v) = Suc (wk_promises v)" for v r
    by (simp_all add: new_promise_def settled_promise_def Let_def)
  have "wk_promises v \<le> wk_promises (connect d v)" for d v
    by (simp add: connect_def new Let_def split_def)
  from this [of "clearReconnectTimer w"] this [of w] this [of "w\<lparr>wk_armed := a, wk_reconnectTimer := t\<rparr>" for a t] show ?thesis
    by (cases e) (simp_all add: new urlSettled_def waitFor_def requestTimeout_def waiterTimeout_def request_continues_def
      onopen_def onerror_def onclose_def handshakeDone_def handshakeFailed_def failConnection_def
      reconnectNow_def reportUnresponsive_def use_def unregister_def sendTracked_def request_def waitForConnection_def
      subscribe_def unsubscribe_def onmessage_def handshakeSends_def handshakeRequests_def generate_eq reconnectTimerFires_def
      Let_def split_def split: option.split sum.split frame.split list.split)
qed

lemma settled_stays:
  "p < wk_promises w \<Longrightarrow> p \<notin> set (wk_open w) \<Longrightarrow> p \<notin> set (wk_open (foldl service_step w es))"
proof (induction es arbitrary: w)
  case (Cons e es)
  have "p \<notin> set (wk_open (service_step w e))" using Cons.prems opens_step [of w e] by (auto simp: opens_def)
  moreover have "p < wk_promises (service_step w e)" using Cons.prems(1) promises_step [of w e] by simp
  ultimately show ?case using Cons.IH by simp
qed simp

section \<open>How a wait ends\<close>

definition waiting_inv :: "socket_service \<Rightarrow> bool" where
  "waiting_inv w \<longleftrightarrow> settling_inv w \<and> promise_inv w"

lemma waiting_inv_step: "waiting_inv w \<Longrightarrow> orderly w e \<Longrightarrow> waiting_inv (service_step w e)"
  by (simp add: waiting_inv_def settling_inv_step promise_inv_step)

lemma waiting_inv_run: "waiting_inv w \<Longrightarrow> orderly_run w es \<Longrightarrow> waiting_inv (foldl service_step w es)"
  by (induction es arbitrary: w) (simp_all add: waiting_inv_step)

lemma waiting_inv_new [simp]: "waiting_inv (new_service url options)"
  by (simp add: waiting_inv_def)

lemma waiting_parts:
  "waiting_inv w \<Longrightarrow> link_inv w \<and> wire_inv w \<and> attempt_inv w \<and> live_inv w \<and> dial_inv w \<and> promise_inv w"
  by (simp add: waiting_inv_def settling_inv_def connected_inv_def waits_inv_def)

lemma waits_handed: "waiting_inv w \<Longrightarrow> p \<in> set (wk_open w) \<Longrightarrow> p \<in> set (wk_open (service_step w e)) \<Longrightarrow> handed w (service_step w e) p"
  using onward_step [of w e] waiting_parts [of w] by (simp add: onward_def)

lemma still_open:
  assumes "waiting_inv w" "p \<in> set (wk_open w)" "p \<in> set (wk_open (foldl service_step (service_step w e) es))"
  shows "p \<in> set (wk_open (service_step w e))"
proof (rule ccontr)
  assume "p \<notin> set (wk_open (service_step w e))"
  moreover have "p < wk_promises w" using assms(1,2) by (auto simp: waiting_inv_def promise_inv_def)
  then have "p < wk_promises (service_step w e)" using promises_step [of w e] by (rule less_le_trans)
  ultimately show False using settled_stays assms(3) by blast
qed

text \<open>
  A stage of a wait: while it is open it stays in the stage or goes on to the next, and the event that ends the stage settles it
  or takes it to the next. Then no wait that is still open is left in a stage whose end has come.
\<close>

locale wait_stage =
  fixes step :: "'s \<Rightarrow> 'e \<Rightarrow> 's"
    and inv :: "'s \<Rightarrow> bool"
    and runs :: "'s \<Rightarrow> 'e list \<Rightarrow> bool"
    and open_wait :: "'s \<Rightarrow> bool"
    and stage :: "'s \<Rightarrow> bool"
    and after :: "'s \<Rightarrow> bool"
    and ending :: "'e \<Rightarrow> bool"
  assumes inv_runs: "inv s \<Longrightarrow> runs s (e # es) \<Longrightarrow> inv (step s e) \<and> runs (step s e) es"
    and open_stays: "inv s \<Longrightarrow> open_wait s \<Longrightarrow> open_wait (foldl step (step s e) es) \<Longrightarrow> open_wait (step s e)"
    and stage_stays: "inv s \<Longrightarrow> open_wait s \<Longrightarrow> stage s \<Longrightarrow> open_wait (step s e) \<Longrightarrow> stage (step s e) \<or> after (step s e)"
    and stage_ends: "inv s \<Longrightarrow> open_wait s \<Longrightarrow> stage s \<Longrightarrow> ending e \<Longrightarrow> open_wait (step s e) \<Longrightarrow> after (step s e)"
    and after_stays: "inv s \<Longrightarrow> open_wait s \<Longrightarrow> after s \<Longrightarrow> open_wait (step s e) \<Longrightarrow> after (step s e)"
begin

lemma after_run: "inv s \<Longrightarrow> runs s es \<Longrightarrow> open_wait s \<Longrightarrow> after s \<Longrightarrow> open_wait (foldl step s es) \<Longrightarrow> after (foldl step s es)"
proof (induction es arbitrary: s)
  case (Cons e es)
  have "open_wait (step s e)" using open_stays Cons.prems by simp
  then show ?case using Cons after_stays inv_runs by simp
qed simp

lemma stage_over:
  "inv s \<Longrightarrow> runs s es \<Longrightarrow> open_wait s \<Longrightarrow> stage s \<Longrightarrow> list_ex ending es \<Longrightarrow> open_wait (foldl step s es) \<Longrightarrow> after (foldl step s es)"
proof (induction es arbitrary: s)
  case (Cons e es)
  have kept: "open_wait (step s e)" using open_stays Cons.prems by simp
  have inv: "inv (step s e)" "runs (step s e) es" using inv_runs Cons.prems by blast+
  show ?case
  proof (cases "after (step s e)")
    case True
    then show ?thesis using after_run [OF inv kept] Cons.prems by simp
  next
    case False
    then have "stage (step s e)" "\<not> ending e" using stage_stays stage_ends kept Cons.prems by blast+
    then show ?thesis using Cons inv kept by simp
  qed
qed simp

end

lemma orderly_runs: "waiting_inv w \<Longrightarrow> orderly_run w (e # es) \<Longrightarrow> waiting_inv (service_step w e) \<and> orderly_run (service_step w e) es"
  using waiting_inv_step by simp

text \<open>A pending request ends with its timer.\<close>

interpretation request_wait: wait_stage service_step waiting_inv orderly_run "\<lambda>w. p \<in> set (wk_open w)"
    "\<lambda>w. (mid, p, type) \<in> set (wk_pending w)" "\<lambda>w. False" "\<lambda>e. e = RequestTimer mid" for mid p type
proof unfold_locales
  fix w e assume w: "waiting_inv w" "p \<in> set (wk_open w)" "p \<in> set (wk_open (service_step w e))" "(mid, p, type) \<in> set (wk_pending w)"
  show "(mid, p, type) \<in> set (wk_pending (service_step w e)) \<or> False"
    using waits_handed [OF w(1-3)] w(4) unfolding handed_def by blast
  show False if "e = RequestTimer mid"
    using timers_settle(1) [OF _ w(4)] waiting_parts [OF w(1)] w(3) that by simp
qed (use orderly_runs still_open in \<open>(blast | assumption)+\<close>)

text \<open>A waiter ends with its timer; if the connection came first, its request is about to be sent or has been.\<close>

definition gone_through :: "nat \<Rightarrow> socket_service \<Rightarrow> bool" where
  "gone_through p w \<longleftrightarrow> p \<in> fst ` set (wk_continuations w) \<union> (fst \<circ> snd) ` set (wk_pending w)"

lemma gone_through_stays: "handed w v p \<Longrightarrow> gone_through p w \<Longrightarrow> gone_through p v"
proof -
  assume h: "handed w v p" and g: "gone_through p w"
  show ?thesis
  proof (cases "p \<in> fst ` set (wk_continuations w)")
    case True
    then show ?thesis using h by (simp add: handed_def gone_through_def)
  next
    case False
    then obtain mid type where "(mid, p, type) \<in> set (wk_pending w)" using g by (auto simp: gone_through_def)
    then have "(mid, p, type) \<in> set (wk_pending v)" using h by (simp add: handed_def)
    then show ?thesis by (force simp: gone_through_def)
  qed
qed

interpretation waiter_wait: wait_stage service_step waiting_inv orderly_run "\<lambda>w. p \<in> set (wk_open w)"
    "\<lambda>w. p \<in> wt_promise ` set (wk_waiters w)" "gone_through p" "\<lambda>e. e = WaiterTimer p" for p
proof unfold_locales
  fix w e assume w: "waiting_inv w" "p \<in> set (wk_open w)" "p \<in> set (wk_open (service_step w e))"
  note h = waits_handed [OF w]
  show "p \<in> wt_promise ` set (wk_waiters (service_step w e)) \<or> gone_through p (service_step w e)" if "p \<in> wt_promise ` set (wk_waiters w)"
    using h that unfolding handed_def gone_through_def by blast
  show "gone_through p (service_step w e)" if "p \<in> wt_promise ` set (wk_waiters w)" "e = WaiterTimer p"
    using timers_settle(2) [OF that(1)] w(3) that(2) by simp
  show "gone_through p (service_step w e)" if "gone_through p w" using gone_through_stays [OF h that] .
qed (use orderly_runs still_open in \<open>(blast | assumption)+\<close>)

text \<open>The resolution of a URL ends when it settles, or it is the attempt of a socket.\<close>

interpretation url_wait: wait_stage service_step waiting_inv orderly_run "\<lambda>w. q \<in> set (wk_open w)"
    "\<lambda>w. q \<in> fst ` set (wk_resolving w)" "\<lambda>w. wk_rejectConnect w = Some q" "\<lambda>e. \<exists>result refused. e = UrlSettled q result refused" for q
proof unfold_locales
  fix w e assume w: "waiting_inv w" "q \<in> set (wk_open w)" "q \<in> set (wk_open (service_step w e))"
  note h = waits_handed [OF w]
  show "q \<in> fst ` set (wk_resolving (service_step w e)) \<or> wk_rejectConnect (service_step w e) = Some q" if "q \<in> fst ` set (wk_resolving w)"
    using h that unfolding handed_def by blast
  show "wk_rejectConnect (service_step w e) = Some q" if "q \<in> fst ` set (wk_resolving w)" "\<exists>result refused. e = UrlSettled q result refused"
    using url_settles(2) [OF that(1)] w(3) that(2) by auto
  show "wk_rejectConnect (service_step w e) = Some q" if "wk_rejectConnect w = Some q"
    using h that unfolding handed_def by blast
qed (use orderly_runs still_open in \<open>(blast | assumption)+\<close>)

section \<open>Properties\<close>

lemma open_keepers:
  "attempt_inv w \<Longrightarrow> set (wk_open w) \<subseteq> (fst \<circ> snd) ` set (wk_pending w) \<union> wt_promise ` set (wk_waiters w)
     \<union> fst ` set (wk_continuations w) \<union> fst ` set (wk_resolving w) \<union> set_option (wk_rejectConnect w)"
  by (auto simp: attempt_inv_def owned_def keepers_def)

lemma disposed_waits:
  assumes "orderly_run (new_service url options) es" "w = foldl service_step (new_service url options) es"
  shows "DisposeService \<in> set es \<longrightarrow> set (wk_open w) \<subseteq> fst ` set (wk_continuations w) \<union> fst ` set (wk_resolving w)
        \<and> (\<forall>q result refused. q \<in> fst ` set (wk_resolving w) \<longrightarrow>
            q \<notin> set (wk_open (service_step w (UrlSettled q result refused))))
        \<and> (\<forall>p r cs random now. wk_continuations w = (p, r) # cs \<longrightarrow>
            p \<notin> set (wk_open (service_step w (RequestContinues random now))))"
proof -
  have inv: "waits_inv w" "done_inv w"
    unfolding assms(2) using waits_inv_run [OF waits_inv_new assms(1)] disposal.run_inv [OF done_inv_new] by blast+
  have "wk_disposed w \<and> still w \<and> wk_rejectConnect w = None" if "DisposeService \<in> set es"
    using disposed_by [OF that done_inv_new, of url options] inv(2) unfolding assms(2) [symmetric]
    by (cases "wk_rejectConnect w") (auto simp: done_inv_def link_inv_def)
  then show ?thesis
    using open_keepers [of w] inv(1) disposed_settles [of w] by (auto simp: waits_inv_def still_def)
qed

text \<open>What the properties of the transport rest on: each way a wait ends, for every promise of a state.\<close>

lemma waits_over:
  assumes "waiting_inv w"
  shows "\<forall>p later. p \<in> set (wk_open w) \<and> orderly_run w later \<and> p \<in> set (wk_open (foldl service_step w later)) \<longrightarrow>
        (\<forall>mid type. (mid, p, type) \<in> set (wk_pending w) \<longrightarrow> RequestTimer mid \<notin> set later)
        \<and> (p \<in> wt_promise ` set (wk_waiters w) \<and> WaiterTimer p \<in> set later \<longrightarrow>
            p \<in> fst ` set (wk_continuations (foldl service_step w later))
              \<union> (fst \<circ> snd) ` set (wk_pending (foldl service_step w later)))
        \<and> (\<forall>result refused. p \<in> fst ` set (wk_resolving w) \<and> UrlSettled p result refused \<in> set later \<longrightarrow>
            wk_rejectConnect (foldl service_step w later) = Some p)"
    (is "\<forall>p later. ?open p later \<longrightarrow> _")
proof (intro allI impI conjI)
  fix p later mid type assume "?open p later" "(mid, p, type) \<in> set (wk_pending w)"
  then show "RequestTimer mid \<notin> set later"
    using request_wait.stage_over [OF assms, of later p mid type] by (auto simp: list_ex_iff)
next
  fix p later assume "?open p later" "p \<in> wt_promise ` set (wk_waiters w) \<and> WaiterTimer p \<in> set later"
  then show "p \<in> fst ` set (wk_continuations (foldl service_step w later))
      \<union> (fst \<circ> snd) ` set (wk_pending (foldl service_step w later))"
    using waiter_wait.stage_over [OF assms, of later p] unfolding list_ex_iff gone_through_def by blast
next
  fix p later result refused
  assume "?open p later" "p \<in> fst ` set (wk_resolving w) \<and> UrlSettled p result refused \<in> set later"
  then show "wk_rejectConnect (foldl service_step w later) = Some p"
    using url_wait.stage_over [OF assms, of later p] unfolding list_ex_iff by blast
qed

lemma waits_in_queue:
  "waiting_inv w \<Longrightarrow> \<forall>p e. p \<in> set (wk_open w) \<inter> set (wk_open (service_step w e)) \<longrightarrow>
        (p \<in> fst ` set (wk_continuations w) \<longrightarrow>
            p \<in> fst ` set (wk_continuations (service_step w e)) \<union> (fst \<circ> snd) ` set (wk_pending (service_step w e)))
        \<and> (wk_rejectConnect w = Some p \<longrightarrow> wk_rejectConnect (service_step w e) = Some p)"
  using waits_handed [of w] unfolding handed_def by blast

lemma queue_moves:
  "\<forall>p r cs random now. wk_continuations w = (p, r) # cs \<longrightarrow>
        wk_continuations (service_step w (RequestContinues random now)) = cs
        \<and> (p \<in> set (wk_open (service_step w (RequestContinues random now))) \<longrightarrow>
            p \<in> (fst \<circ> snd) ` set (wk_pending (service_step w (RequestContinues random now))))"
  unfolding service_step.simps by (intro allI impI conjI continue_settles)

lemma attempt_ends:
  "waiting_inv w \<Longrightarrow> \<forall>p. wk_rejectConnect w = Some p \<longrightarrow> wired (wk_generation w) w \<noteq> None
        \<and> p \<notin> set (wk_open (service_step w (SocketClosed (wk_generation w))))
        \<and> p \<notin> set (wk_open (service_step w (SocketError (wk_generation w))))"
proof (intro allI impI)
  fix p assume "waiting_inv w" and p: "wk_rejectConnect w = Some p"
  then have inv: "link_inv w" "live_inv w" "dial_inv w" using waiting_parts by blast+
  from dial_wired [OF inv p] close_settles(3) [OF inv(1)] error_settles [of w]
  show "wired (wk_generation w) w \<noteq> None \<and> p \<notin> set (wk_open (service_step w (SocketClosed (wk_generation w))))
      \<and> p \<notin> set (wk_open (service_step w (SocketError (wk_generation w))))" by fastforce
qed

lemma close_ends:
  assumes "waiting_inv w"
  shows "wired (wk_generation w) w \<noteq> None \<and> \<not> wk_userClosed w \<longrightarrow>
        set (wk_open (service_step w (SocketClosed (wk_generation w)))) \<inter> (fst \<circ> snd) ` set (wk_pending w) = {}
        \<and> (maxAttempts w \<le> wk_reconnectAttempt w \<and> \<not> wo_persistentReconnect (wk_options w) \<longrightarrow>
            set (wk_open (service_step w (SocketClosed (wk_generation w)))) \<inter> wt_promise ` set (wk_waiters w) = {})"
  unfolding service_step.simps
proof (rule impI)
  assume up: "wired (wk_generation w) w \<noteq> None \<and> \<not> wk_userClosed w"
  then obtain s where "wired (wk_generation w) w = Some s" by blast
  moreover have "link_inv w" using waiting_parts [OF assms] by blast
  ultimately show "set (wk_open (onclose (wk_generation w) w)) \<inter> (fst \<circ> snd) ` set (wk_pending w) = {}
      \<and> (maxAttempts w \<le> wk_reconnectAttempt w \<and> \<not> wo_persistentReconnect (wk_options w) \<longrightarrow>
          set (wk_open (onclose (wk_generation w) w)) \<inter> wt_promise ` set (wk_waiters w) = {})"
    using close_settles(1,2) up by blast
qed

lemma disconnect_ends:
  "waiting_inv w \<Longrightarrow> set (wk_open (service_step w Disconnect)) \<subseteq> fst ` set (wk_continuations w) \<union> fst ` set (wk_resolving w)"
  unfolding service_step.simps using disconnect_settles waiting_parts by blast

text \<open>
  C31. Nobody waits for nothing. In every state of an orderly run each promise that is still open is kept by a pending
  request, a waiter, a request about to be sent, a URL being resolved or the attempt to connect, and what that keeper is
  waiting for ends it. Whatever follows in order: once the timer of a pending request has fired its promise is settled; once
  the timer of a waiter has fired it is settled, unless the connection came first and its request is about to be sent or
  pending; once a URL being resolved has settled its promise is settled, unless it is the attempt of a socket now. The
  first request about to be sent leaves the queue in its microtask, settled or pending, and the others stay in it; the
  attempt to connect stays the attempt until it is settled, its socket is the current one with its handlers in place, and
  that socket's close and its failure each settle it. The close of the current socket settles every pending request, and
  every waiter too once the budget of reconnects is spent on a route that is not pinned. A disconnect settles all but the
  URLs being resolved and the requests about to be sent. Once the service has been disposed of only those two are left, and
  the next event of each settles its promise.
\<close>

theorem nobody_waits:
  assumes "orderly_run (new_service url options) es" "w = foldl service_step (new_service url options) es"
  shows "set (wk_open w) \<subseteq> (fst \<circ> snd) ` set (wk_pending w) \<union> wt_promise ` set (wk_waiters w)
      \<union> fst ` set (wk_continuations w) \<union> fst ` set (wk_resolving w) \<union> set_option (wk_rejectConnect w)
    \<and> (\<forall>p later. p \<in> set (wk_open w) \<and> orderly_run w later \<and> p \<in> set (wk_open (foldl service_step w later)) \<longrightarrow>
        (\<forall>mid type. (mid, p, type) \<in> set (wk_pending w) \<longrightarrow> RequestTimer mid \<notin> set later)
        \<and> (p \<in> wt_promise ` set (wk_waiters w) \<and> WaiterTimer p \<in> set later \<longrightarrow>
            p \<in> fst ` set (wk_continuations (foldl service_step w later))
              \<union> (fst \<circ> snd) ` set (wk_pending (foldl service_step w later)))
        \<and> (\<forall>result refused. p \<in> fst ` set (wk_resolving w) \<and> UrlSettled p result refused \<in> set later \<longrightarrow>
            wk_rejectConnect (foldl service_step w later) = Some p))
    \<and> (\<forall>p r cs random now. wk_continuations w = (p, r) # cs \<longrightarrow>
        wk_continuations (service_step w (RequestContinues random now)) = cs
        \<and> (p \<in> set (wk_open (service_step w (RequestContinues random now))) \<longrightarrow>
            p \<in> (fst \<circ> snd) ` set (wk_pending (service_step w (RequestContinues random now)))))
    \<and> (\<forall>p e. p \<in> set (wk_open w) \<inter> set (wk_open (service_step w e)) \<longrightarrow>
        (p \<in> fst ` set (wk_continuations w) \<longrightarrow>
            p \<in> fst ` set (wk_continuations (service_step w e)) \<union> (fst \<circ> snd) ` set (wk_pending (service_step w e)))
        \<and> (wk_rejectConnect w = Some p \<longrightarrow> wk_rejectConnect (service_step w e) = Some p))
    \<and> (\<forall>p. wk_rejectConnect w = Some p \<longrightarrow> wired (wk_generation w) w \<noteq> None
        \<and> p \<notin> set (wk_open (service_step w (SocketClosed (wk_generation w))))
        \<and> p \<notin> set (wk_open (service_step w (SocketError (wk_generation w)))))
    \<and> (wired (wk_generation w) w \<noteq> None \<and> \<not> wk_userClosed w \<longrightarrow>
        set (wk_open (service_step w (SocketClosed (wk_generation w)))) \<inter> (fst \<circ> snd) ` set (wk_pending w) = {}
        \<and> (maxAttempts w \<le> wk_reconnectAttempt w \<and> \<not> wo_persistentReconnect (wk_options w) \<longrightarrow>
            set (wk_open (service_step w (SocketClosed (wk_generation w)))) \<inter> wt_promise ` set (wk_waiters w) = {}))
    \<and> set (wk_open (service_step w Disconnect)) \<subseteq> fst ` set (wk_continuations w) \<union> fst ` set (wk_resolving w)
    \<and> (DisposeService \<in> set es \<longrightarrow> set (wk_open w) \<subseteq> fst ` set (wk_continuations w) \<union> fst ` set (wk_resolving w)
        \<and> (\<forall>q result refused. q \<in> fst ` set (wk_resolving w) \<longrightarrow>
            q \<notin> set (wk_open (service_step w (UrlSettled q result refused))))
        \<and> (\<forall>p r cs random now. wk_continuations w = (p, r) # cs \<longrightarrow>
            p \<notin> set (wk_open (service_step w (RequestContinues random now)))))"
proof -
  have waiting: "waiting_inv w" unfolding assms(2) using waiting_inv_run [OF waiting_inv_new assms(1)] .
  then have "attempt_inv w" using waiting_parts by blast
  then show ?thesis
    by (intro conjI open_keepers waits_over [OF waiting] queue_moves waits_in_queue [OF waiting] attempt_ends [OF waiting]
        close_ends [OF waiting] disconnect_ends [OF waiting] disposed_waits [OF assms])
qed

text \<open>A request that is asked and never answered: its timer ends it, and so does a disconnect.\<close>

theorem nobody_waits_witness:
  "(1 :: nat) \<notin> set (wk_open (foldl service_step (foldl service_step (new_service ''wss://n'' plain_options) asked)
      [SocketClosed 1, RequestTimer ''msg_1_r'']))
    \<and> set (wk_open (service_step (foldl service_step (new_service ''wss://n'' plain_options) asked) Disconnect)) = {}"
proof -
  define w where "w = foldl service_step (new_service ''wss://n'' plain_options) asked"
  have run: "orderly_run (new_service ''wss://n'' plain_options) asked" by code_simp
  have state: "(''msg_1_r'', 1, ''session.list'') \<in> set (wk_pending w)" "wk_continuations w = []" "wk_resolving w = []"
      "1 \<in> set (wk_open w)" "orderly_run w [SocketClosed 1, RequestTimer ''msg_1_r'']"
    unfolding w_def by code_simp+
  note waits = nobody_waits [OF run w_def]
  have "(1 :: nat) \<notin> set (wk_open (foldl service_step w [SocketClosed 1, RequestTimer ''msg_1_r'']))"
  proof
    assume "1 \<in> set (wk_open (foldl service_step w [SocketClosed 1, RequestTimer ''msg_1_r'']))"
    with waits [THEN conjunct2, THEN conjunct1] state(1,4,5)
    have "RequestTimer ''msg_1_r'' \<notin> set [SocketClosed 1, RequestTimer ''msg_1_r'']" by blast
    then show False by simp
  qed
  moreover have "set (wk_open (service_step w Disconnect)) \<subseteq> fst ` set (wk_continuations w) \<union> fst ` set (wk_resolving w)"
    by (rule waits [THEN conjunct2, THEN conjunct2, THEN conjunct2, THEN conjunct2, THEN conjunct2, THEN conjunct2, THEN conjunct1])
  ultimately show ?thesis unfolding w_def [symmetric] using state(2,3) by simp
qed

end
