(* ===== verification/Conversation_Runtime.thy ===== *)
theory Conversation_Runtime
  imports Conversation
begin

text \<open>
  The state machine of an open AI conversation
  (\<^verbatim>\<open>web/src/shared/ai-conversation/runtime/ConversationRuntime.ts\<close>) over the window of pages of \<open>Conversation\<close>:
  which conversation is open, what is loaded, loading and failed, what a late answer may touch, and when to ask again.

  The adapter of a provider is a parameter: the keys it derives from a context and its refresh policy are fields of
  \<open>cr_adapter\<close>; the identity of a push source, which may change with a lease, and what its subscription does come with the event
  that asks for them (\<open>push_source\<close>). What the adapter answers is an event that names the generation of the request; the
  adapter does not throw synchronously. \<open>await\<close> ends an event: what follows the newest page's \<open>then\<close> is a microtask of its
  own. Contexts are texts; listeners do not call back. \<open>cr_told\<close> logs what leaves the object.
\<close>

section \<open>What a provider answers\<close>

datatype activity = ActivityActive | ActivityInactive | ActivityUnknown

record summary =
  su_id :: string
  su_title :: "string option"
  su_preview :: "string option"
  su_activity :: activity
  su_updatedAt :: "string option"

datatype directory_state = DirectoryReady | DirectoryUnavailable | DirectoryError

datatype read_state = ReadReady | ReadNotFound | ReadUnavailable | ReadError

record list_result =
  lr_state :: directory_state
  lr_conversations :: "summary list"
  lr_bindingId :: "string option"
  lr_nextCursor :: "string option"
  lr_listingId :: "string option"
  lr_restart :: bool
  lr_error :: "string option"

record read_page =
  pg_state :: read_state
  pg_conversation :: "summary option"
  pg_activity :: "activity option"
  pg_slice :: page_slice
  pg_partialTail :: bool
  pg_error :: "string option"

datatype refresh_policy = PollPolicy nat | PushPolicy | ManualPolicy

record adapter =
  ad_contextKey :: "string \<Rightarrow> string"
  ad_requestKey :: "(string \<Rightarrow> string) option"
  ad_refresh :: refresh_policy

text \<open>A push source: its identity, how often it calls back while it is subscribed to, and whether it throws then.\<close>

record push_source =
  ps_sourceKey :: "string \<Rightarrow> string \<Rightarrow> string"
  ps_signals :: nat
  ps_throws :: bool

section \<open>The directory, page by page\<close>

definition LIST_PAGE_BUDGET :: nat where "LIST_PAGE_BUDGET = 32"
definition LIST_RESTART_BUDGET :: nat where "LIST_RESTART_BUDGET = 2"

record aggregation =
  ag_conversations :: "summary list"
  ag_seenConversations :: "string list"
  ag_seenCursors :: "string list"
  ag_listingId :: "string option"
  ag_bindingSeen :: bool
  ag_pages :: nat
  ag_restarts :: nat
  ag_bindingId :: "string option"

definition new_aggregation :: aggregation where
  "new_aggregation = \<lparr>ag_conversations = [], ag_seenConversations = [], ag_seenCursors = [], ag_listingId = None,
     ag_bindingSeen = False, ag_pages = 0, ag_restarts = 0, ag_bindingId = None\<rparr>"

definition beginPage :: "aggregation \<Rightarrow> string + aggregation" where
  "beginPage a =
     (let a1 = a\<lparr>ag_pages := Suc (ag_pages a)\<rparr>
      in if LIST_PAGE_BUDGET < ag_pages a1 then Inl ''Conversation list exceeded the bounded 32-page budget'' else Inr a1)"

definition restart_listing :: "string option \<Rightarrow> aggregation \<Rightarrow> string + aggregation" where
  "restart_listing cursor a =
     (if cursor = None then Inl ''Conversation list asked to restart its first page''
      else
        let a1 = a\<lparr>ag_restarts := Suc (ag_restarts a)\<rparr>
        in if LIST_RESTART_BUDGET < ag_restarts a1 then Inl ''Conversation list changed more than 2 times while loading''
           else Inr (a1\<lparr>ag_conversations := [], ag_seenConversations := [], ag_seenCursors := [], ag_listingId := None,
                        ag_bindingSeen := False, ag_bindingId := None\<rparr>))"

definition acceptListingIdentity :: "list_result \<Rightarrow> string option \<Rightarrow> aggregation \<Rightarrow> string + aggregation" where
  "acceptListingIdentity res cursor a =
     (let paged = (cursor \<noteq> None \<or> lr_nextCursor res \<noteq> None)
      in if paged \<and> lr_listingId res = None then Inl ''Paged conversation list omitted its stable listing id''
         else if lr_listingId res = None then Inr a
         else if ag_listingId a = None then Inr (a\<lparr>ag_listingId := lr_listingId res\<rparr>)
         else if ag_listingId a \<noteq> lr_listingId res then Inl ''Conversation list crossed listing generations''
         else Inr a)"

definition acceptBinding :: "string option \<Rightarrow> aggregation \<Rightarrow> string + aggregation" where
  "acceptBinding binding a =
     (if \<not> ag_bindingSeen a then Inr (a\<lparr>ag_bindingId := binding, ag_bindingSeen := True\<rparr>)
      else if ag_bindingId a \<noteq> binding then Inl ''Conversation binding changed inside one listing snapshot''
      else Inr a)"

definition acceptConversations :: "summary list \<Rightarrow> aggregation \<Rightarrow> aggregation" where
  "acceptConversations conversations a =
     fold (\<lambda>c a. if su_id c \<in> set (ag_seenConversations a) then a
                 else a\<lparr>ag_seenConversations := ag_seenConversations a @ [su_id c], ag_conversations := ag_conversations a @ [c]\<rparr>)
       conversations a"

definition acceptReadyPage :: "list_result \<Rightarrow> string option \<Rightarrow> aggregation \<Rightarrow> string + string option \<times> aggregation" where
  "acceptReadyPage res cursor a = (case acceptListingIdentity res cursor a of
       Inl err \<Rightarrow> Inl err
     | Inr a1 \<Rightarrow> (case acceptBinding (lr_bindingId res) a1 of
         Inl err \<Rightarrow> Inl err
       | Inr a2 \<Rightarrow>
           let a3 = acceptConversations (lr_conversations res) a2
           in case lr_nextCursor res of
                None \<Rightarrow> Inr (None, a3)
              | Some nxt \<Rightarrow>
                  if nxt \<in> set (ag_seenCursors a3) then Inl ''Conversation list returned a repeated cursor''
                  else Inr (Some nxt, a3\<lparr>ag_seenCursors := ag_seenCursors a3 @ [nxt]\<rparr>)))"

section \<open>State\<close>

record list_state =
  ls_state :: "directory_state option"
  ls_conversations :: "summary list"
  ls_bindingId :: "string option"
  ls_loading :: bool
  ls_error :: "string option"

record thread_state =
  ts_state :: "read_state option"
  ts_conversation :: "summary option"
  ts_activity :: "activity option"
  ts_partialTail :: bool
  ts_loading :: bool
  ts_loadingOlder :: bool
  ts_olderError :: "string option"
  ts_error :: "string option"

definition EMPTY_LIST :: list_state where
  "EMPTY_LIST = \<lparr>ls_state = None, ls_conversations = [], ls_bindingId = None, ls_loading = True, ls_error = None\<rparr>"

definition EMPTY_THREAD :: thread_state where
  "EMPTY_THREAD = \<lparr>ts_state = None, ts_conversation = None, ts_activity = None, ts_partialTail = False, ts_loading = True,
     ts_loadingOlder = False, ts_olderError = None, ts_error = None\<rparr>"

record conversation_snapshot =
  sh_listState :: "directory_state option"
  sh_conversations :: "summary list"
  sh_bindingId :: "string option"
  sh_openId :: "string option"
  sh_conversationKey :: "string option"
  sh_state :: "read_state option"
  sh_conversation :: "summary option"
  sh_activity :: "activity option"
  sh_items :: "item list"
  sh_hasMore :: bool
  sh_partialTail :: bool
  sh_skipped :: int
  sh_listLoading :: bool
  sh_threadLoading :: bool
  sh_loadingOlder :: bool
  sh_olderError :: "string option"
  sh_listError :: "string option"
  sh_threadError :: "string option"

definition EMPTY_SNAPSHOT :: conversation_snapshot where
  "EMPTY_SNAPSHOT = \<lparr>sh_listState = None, sh_conversations = [], sh_bindingId = None, sh_openId = None,
     sh_conversationKey = None, sh_state = None, sh_conversation = None, sh_activity = None, sh_items = [], sh_hasMore = False,
     sh_partialTail = False, sh_skipped = 0, sh_listLoading = True, sh_threadLoading = False, sh_loadingOlder = False,
     sh_olderError = None, sh_listError = None, sh_threadError = None\<rparr>"

record refresh_target =
  ra_key :: string
  ra_conversationId :: string
  ra_sourceKey :: "string option"

record list_request =
  lq_key :: string
  lq_context :: string
  lq_aggregation :: aggregation
  lq_cursor :: "string option"

datatype runtime_call =
    ListAsked nat string "string option"
  | NewestAsked nat string string
  | OlderAsked nat string string string
  | IntervalSet nat nat
  | IntervalCleared nat
  | PushSubscribed nat string string
  | PushUnsubscribed nat
  | ListenerTold nat

record conversation_runtime =
  cr_adapter :: adapter
  cr_identity :: nat
  cr_listeners :: "nat list"
  cr_snapshot :: conversation_snapshot
  cr_context :: "string option"
  cr_contextKey :: "string option"
  cr_requestKey :: "string option"
  cr_chosen :: "(string \<times> string) option"
  cr_loadedId :: "string option"
  cr_list :: list_state
  cr_thread :: thread_state
  cr_positions :: positions
  cr_listGeneration :: nat
  cr_newestGeneration :: nat
  cr_olderGeneration :: nat
  cr_newestInFlight :: "nat option"
  cr_newestPending :: bool
  cr_timer :: "nat option"
  cr_unsubscribePush :: "nat option"
  cr_refreshArmedFor :: "refresh_target option"
  cr_disposed :: bool
  cr_timers :: nat
  cr_armed :: "nat list"
  cr_subscriptions :: "refresh_target list"
  cr_listRequests :: "(nat, list_request) jsmap"
  cr_newestRequests :: "(nat, string \<times> bool) jsmap"
  cr_olderRequests :: "(nat, string) jsmap"
  cr_settling :: "nat list"
  cr_told :: "runtime_call list"

definition new_conversation_runtime :: "adapter \<Rightarrow> nat \<Rightarrow> conversation_runtime" where
  "new_conversation_runtime ad identity = \<lparr>cr_adapter = ad, cr_identity = identity, cr_listeners = [], cr_snapshot = EMPTY_SNAPSHOT,
     cr_context = None, cr_contextKey = None, cr_requestKey = None, cr_chosen = None, cr_loadedId = None, cr_list = EMPTY_LIST,
     cr_thread = EMPTY_THREAD, cr_positions = emptyPositions, cr_listGeneration = 0, cr_newestGeneration = 0,
     cr_olderGeneration = 0, cr_newestInFlight = None, cr_newestPending = False, cr_timer = None, cr_unsubscribePush = None,
     cr_refreshArmedFor = None, cr_disposed = False, cr_timers = 0, cr_armed = [], cr_subscriptions = [], cr_listRequests = [],
     cr_newestRequests = [], cr_olderRequests = [], cr_settling = [], cr_told = []\<rparr>"

definition tell_cr :: "runtime_call \<Rightarrow> conversation_runtime \<Rightarrow> conversation_runtime" where
  "tell_cr call r = r\<lparr>cr_told := cr_told r @ [call]\<rparr>"

section \<open>What is open, and what is shown\<close>

text \<open>The selection if it belongs to this context, else the provider's binding.\<close>

definition open_id :: "conversation_runtime \<Rightarrow> string option" where
  "open_id r =
     (let selected = (case cr_chosen r of None \<Rightarrow> None | Some (key, i) \<Rightarrow> if cr_contextKey r = Some key then Some i else None)
      in case selected of Some i \<Rightarrow> Some i | None \<Rightarrow> ls_bindingId (cr_list r))"

definition conversationKey :: "string option \<Rightarrow> conversation_runtime \<Rightarrow> string option" where
  "conversationKey opened r = (case (opened, cr_contextKey r) of
       (Some i, Some key) \<Rightarrow> Some (decimal (cr_identity r) @ [CHR 0x00] @ key @ [CHR 0x00] @ i)
     | _ \<Rightarrow> None)"

definition shown_snapshot :: "conversation_runtime \<Rightarrow> conversation_snapshot" where
  "shown_snapshot r =
     (let opened = open_id r; l = cr_list r; t = cr_thread r
      in \<lparr>sh_listState = ls_state l, sh_conversations = ls_conversations l, sh_bindingId = ls_bindingId l, sh_openId = opened,
          sh_conversationKey = conversationKey opened r, sh_state = ts_state t, sh_conversation = ts_conversation t,
          sh_activity = ts_activity t, sh_items = itemsOf (cr_positions r), sh_hasMore = hasOlder (cr_positions r),
          sh_partialTail = (if ts_state t = Some ReadReady then ts_partialTail t else False),
          sh_skipped = (if ts_state t = Some ReadReady then skippedOf (cr_positions r) else 0),
          sh_listLoading = ls_loading l, sh_threadLoading = (opened \<noteq> None \<and> ts_loading t), sh_loadingOlder = ts_loadingOlder t,
          sh_olderError = ts_olderError t, sh_listError = ls_error l, sh_threadError = ts_error t\<rparr>)"

definition emit :: "conversation_runtime \<Rightarrow> conversation_runtime" where
  "emit r = fold (\<lambda>l. tell_cr (ListenerTold l)) (cr_listeners r) (r\<lparr>cr_snapshot := shown_snapshot r\<rparr>)"

definition wanted :: "string \<Rightarrow> nat \<Rightarrow> nat \<Rightarrow> conversation_runtime \<Rightarrow> bool" where
  "wanted key generation current r \<longleftrightarrow> \<not> cr_disposed r \<and> cr_contextKey r = Some key \<and> current = generation"

definition refreshWanted :: "conversation_runtime \<Rightarrow> bool" where
  "refreshWanted r \<longleftrightarrow> ts_state (cr_thread r) = Some ReadReady \<and> ts_activity (cr_thread r) \<noteq> Some ActivityInactive"

section \<open>The refresh\<close>

definition stopRefresh :: "conversation_runtime \<Rightarrow> conversation_runtime" where
  "stopRefresh r =
     (let r1 = (case cr_timer r of
            None \<Rightarrow> r | Some t \<Rightarrow> tell_cr (IntervalCleared t) (r\<lparr>cr_armed := removeAll t (cr_armed r), cr_timer := None\<rparr>));
          r2 = (case cr_unsubscribePush r1 of
            None \<Rightarrow> r1 | Some n \<Rightarrow> tell_cr (PushUnsubscribed n) (r1\<lparr>cr_unsubscribePush := None\<rparr>))
      in r2\<lparr>cr_refreshArmedFor := None\<rparr>)"

text \<open>\<open>fetchNewest\<close> asks at once; its answer is an event.\<close>

definition startNewest :: "bool \<Rightarrow> conversation_runtime \<Rightarrow> conversation_runtime" where
  "startNewest report r = (case (cr_contextKey r, cr_loadedId r, cr_context r) of
       (Some key, Some i, Some context) \<Rightarrow>
         let generation = Suc (cr_newestGeneration r)
         in tell_cr (NewestAsked generation context i)
              (r\<lparr>cr_newestGeneration := generation, cr_newestInFlight := Some generation, cr_newestPending := False,
                cr_newestRequests := map_set generation (key, report) (cr_newestRequests r)\<rparr>)
     | _ \<Rightarrow> r\<lparr>cr_newestPending := False\<rparr>)"

definition requestNewest :: "bool \<Rightarrow> conversation_runtime \<Rightarrow> conversation_runtime" where
  "requestNewest report r = (if cr_newestInFlight r \<noteq> None then r\<lparr>cr_newestPending := True\<rparr> else startNewest report r)"

definition reloadNewest :: "conversation_runtime \<Rightarrow> conversation_runtime" where
  "reloadNewest r = requestNewest True (r\<lparr>cr_newestInFlight := None, cr_newestPending := False\<rparr>)"

definition poll :: "conversation_runtime \<Rightarrow> conversation_runtime" where
  "poll r = requestNewest False r"

definition settleNewest :: "nat \<Rightarrow> conversation_runtime \<Rightarrow> conversation_runtime" where
  "settleNewest generation r =
     (if cr_newestInFlight r \<noteq> Some generation then r
      else
        let r1 = r\<lparr>cr_newestInFlight := None\<rparr>
        in if cr_newestPending r1 \<and> refreshWanted r1 then startNewest False r1 else r1\<lparr>cr_newestPending := False\<rparr>)"

definition failNewest :: "string \<Rightarrow> nat \<Rightarrow> conversation_runtime \<Rightarrow> conversation_runtime" where
  "failNewest key generation r =
     (if wanted key generation (cr_newestGeneration r) r
      then emit (r\<lparr>cr_thread := (cr_thread r)\<lparr>ts_loading := False, ts_error := Some ''Unable to load the conversation''\<rparr>\<rparr>)
      else r)"

text \<open>The callback of a subscription; its target is what the closure captured.\<close>

definition push_current :: "nat \<Rightarrow> conversation_runtime \<Rightarrow> bool" where
  "push_current n r \<longleftrightarrow> n < length (cr_subscriptions r) \<and>
     (let target = cr_subscriptions r ! n
      in cr_contextKey r = Some (ra_key target) \<and> cr_loadedId r = Some (ra_conversationId target)
         \<and> (case cr_refreshArmedFor r of None \<Rightarrow> False | Some armed \<Rightarrow> ra_sourceKey armed = ra_sourceKey target))"

definition pushSignal :: "nat \<Rightarrow> conversation_runtime \<Rightarrow> conversation_runtime" where
  "pushSignal n r = (if push_current n r then poll r else r)"

definition subscribe_push :: "push_source \<Rightarrow> bool \<Rightarrow> refresh_target \<Rightarrow> string \<Rightarrow> conversation_runtime \<Rightarrow> conversation_runtime" where
  "subscribe_push source replacing target context r =
     (let n = length (cr_subscriptions r);
          r1 = tell_cr (PushSubscribed n context (ra_conversationId target)) (r\<lparr>cr_subscriptions := cr_subscriptions r @ [target]\<rparr>);
          synchronousSignal = (0 < ps_signals source \<and> push_current n r1);
          r2 = (pushSignal n ^^ ps_signals source) r1
      in if ps_throws source
         then (if cr_refreshArmedFor r2 = Some target then r2\<lparr>cr_refreshArmedFor := None\<rparr> else r2)\<lparr>cr_unsubscribePush := None\<rparr>
         else if cr_refreshArmedFor r2 \<noteq> Some target then tell_cr (PushUnsubscribed n) r2
         else
           let r3 = r2\<lparr>cr_unsubscribePush := Some n\<rparr>
           in if replacing \<and> \<not> synchronousSignal then poll r3 else r3)"

definition startRefresh :: "push_source \<Rightarrow> conversation_runtime \<Rightarrow> conversation_runtime" where
  "startRefresh source r =
     (let policy = ad_refresh (cr_adapter r)
      in case (cr_contextKey r, cr_loadedId r, cr_context r) of
           (Some key, Some i, Some context) \<Rightarrow>
             if policy = ManualPolicy then stopRefresh r
             else
               let target = \<lparr>ra_key = key, ra_conversationId = i,
                     ra_sourceKey = (if policy = PushPolicy then Some (ps_sourceKey source context i) else None)\<rparr>
               in if cr_refreshArmedFor r = Some target then r
                  else
                    let replacing = (cr_refreshArmedFor r \<noteq> None); r1 = (stopRefresh r)\<lparr>cr_refreshArmedFor := Some target\<rparr>
                    in case policy of
                         PollPolicy ms \<Rightarrow>
                           let t = cr_timers r1
                           in tell_cr (IntervalSet t ms) (r1\<lparr>cr_timers := Suc t, cr_armed := t # cr_armed r1, cr_timer := Some t\<rparr>)
                       | _ \<Rightarrow> subscribe_push source replacing target context r1
         | _ \<Rightarrow> stopRefresh r)"

definition syncRefresh :: "push_source \<Rightarrow> conversation_runtime \<Rightarrow> conversation_runtime" where
  "syncRefresh source r = (if refreshWanted r then startRefresh source r else stopRefresh r)"

section \<open>The open thread\<close>

definition syncThread :: "conversation_runtime \<Rightarrow> conversation_runtime" where
  "syncThread r =
     (let opened = open_id r
      in if opened = cr_loadedId r then r
         else
           let r1 = stopRefresh (r\<lparr>cr_loadedId := opened, cr_newestGeneration := Suc (cr_newestGeneration r),
                 cr_olderGeneration := Suc (cr_olderGeneration r), cr_newestInFlight := None, cr_newestPending := False,
                 cr_positions := emptyPositions, cr_thread := EMPTY_THREAD\<rparr>)
           in if opened = None \<or> cr_context r1 = None then r1 else requestNewest True r1)"

definition applyNewest :: "push_source \<Rightarrow> read_page \<Rightarrow> string \<Rightarrow> nat \<Rightarrow> conversation_runtime \<Rightarrow> conversation_runtime" where
  "applyNewest source page key generation r =
     (if \<not> wanted key generation (cr_newestGeneration r) r then r
      else if pg_state page \<noteq> ReadReady then
        emit (syncRefresh source (r\<lparr>cr_thread := (cr_thread r)\<lparr>ts_state := Some (pg_state page), ts_conversation := pg_conversation page,
          ts_activity := pg_activity page, ts_partialTail := False, ts_loading := False,
          ts_error := (if pg_state page = ReadError
            then Some (the_default ''The conversation could not be read'' (pg_error page)) else None)\<rparr>\<rparr>))
      else
        emit (syncRefresh source (r\<lparr>cr_positions := withNewest (cr_positions r) (pg_slice page),
          cr_thread := (cr_thread r)\<lparr>ts_state := Some (pg_state page), ts_conversation := pg_conversation page,
            ts_activity := pg_activity page, ts_partialTail := pg_partialTail page, ts_loading := False, ts_error := None\<rparr>\<rparr>)))"

definition newestAnswered :: "push_source \<Rightarrow> nat \<Rightarrow> string option + read_page \<Rightarrow> conversation_runtime \<Rightarrow> conversation_runtime" where
  "newestAnswered source generation answer r = (case map_get (cr_newestRequests r) generation of
       None \<Rightarrow> r
     | Some (key, report) \<Rightarrow>
         let r0 = r\<lparr>cr_newestRequests := map_delete generation (cr_newestRequests r)\<rparr>
         in case answer of
              Inr page \<Rightarrow>
                let r1 = applyNewest source page key generation r0 in r1\<lparr>cr_settling := cr_settling r1 @ [generation]\<rparr>
            | Inl err \<Rightarrow> settleNewest generation (if report then failNewest key generation r0 else r0))"

definition newestSettles :: "conversation_runtime \<Rightarrow> conversation_runtime" where
  "newestSettles r = (case cr_settling r of [] \<Rightarrow> r | g # rest \<Rightarrow> settleNewest g (r\<lparr>cr_settling := rest\<rparr>))"

definition olderPageMessage :: "read_page \<Rightarrow> string" where
  "olderPageMessage page = (case pg_error page of
       Some (c # cs) \<Rightarrow> c # cs
     | _ \<Rightarrow> (case pg_state page of
         ReadNotFound \<Rightarrow> ''This conversation is no longer there''
       | ReadUnavailable \<Rightarrow> ''Older messages cannot be read right now''
       | _ \<Rightarrow> ''Unable to load older messages''))"

definition fetchOlder :: "string \<Rightarrow> string \<Rightarrow> nat \<Rightarrow> conversation_runtime \<Rightarrow> conversation_runtime" where
  "fetchOlder key cursor generation r = (case (cr_context r, cr_loadedId r) of
       (Some context, Some i) \<Rightarrow>
         let r1 = emit (r\<lparr>cr_thread := (cr_thread r)\<lparr>ts_loadingOlder := True, ts_olderError := None\<rparr>\<rparr>)
         in tell_cr (OlderAsked generation context i cursor)
              (r1\<lparr>cr_olderRequests := map_set generation key (cr_olderRequests r1)\<rparr>)
     | _ \<Rightarrow> r)"

definition olderAnswered :: "nat \<Rightarrow> string option + read_page \<Rightarrow> conversation_runtime \<Rightarrow> conversation_runtime" where
  "olderAnswered generation answer r = (case map_get (cr_olderRequests r) generation of
       None \<Rightarrow> r
     | Some key \<Rightarrow>
         let r0 = r\<lparr>cr_olderRequests := map_delete generation (cr_olderRequests r)\<rparr>
         in if \<not> wanted key generation (cr_olderGeneration r0) r0 then r0
            else case answer of
              Inr page \<Rightarrow>
                if pg_state page \<noteq> ReadReady
                then emit (r0\<lparr>cr_thread := (cr_thread r0)\<lparr>ts_loadingOlder := False, ts_olderError := Some (olderPageMessage page)\<rparr>\<rparr>)
                else emit (r0\<lparr>cr_positions := withOlderPage (cr_positions r0) (pg_slice page),
                  cr_thread := (cr_thread r0)\<lparr>ts_loadingOlder := False, ts_olderError := None\<rparr>\<rparr>)
            | Inl err \<Rightarrow>
                emit (r0\<lparr>cr_thread := (cr_thread r0)\<lparr>ts_loadingOlder := False,
                  ts_olderError := Some (the_default ''Unable to load the conversation'' err)\<rparr>\<rparr>))"

text \<open>Whether history is on its way.\<close>

definition loadOlder :: "conversation_runtime \<Rightarrow> bool \<times> conversation_runtime" where
  "loadOlder r =
     (if cr_disposed r \<or> cr_context r = None then (False, r)
      else case (cr_contextKey r, pn_cursor (cr_positions r)) of
        (Some key, Some cursor) \<Rightarrow>
          if ts_loadingOlder (cr_thread r) then (True, r)
          else
            let generation = Suc (cr_olderGeneration r)
            in (True, fetchOlder key cursor generation (r\<lparr>cr_olderGeneration := generation\<rparr>))
      | _ \<Rightarrow> (False, r))"

section \<open>The directory\<close>

definition list_failed :: "string \<Rightarrow> nat \<Rightarrow> string option \<Rightarrow> conversation_runtime \<Rightarrow> conversation_runtime" where
  "list_failed key generation err r =
     (if \<not> wanted key generation (cr_listGeneration r) r then r
      else emit (r\<lparr>cr_list := (cr_list r)\<lparr>ls_loading := False,
             ls_error := Some (the_default ''Unable to list the conversations'' err)\<rparr>\<rparr>))"

definition ask_page :: "nat \<Rightarrow> list_request \<Rightarrow> conversation_runtime \<Rightarrow> conversation_runtime" where
  "ask_page generation q r = (case beginPage (lq_aggregation q) of
       Inl err \<Rightarrow> list_failed (lq_key q) generation (Some err) r
     | Inr a \<Rightarrow> tell_cr (ListAsked generation (lq_context q) (lq_cursor q))
         (r\<lparr>cr_listRequests := map_set generation (q\<lparr>lq_aggregation := a\<rparr>) (cr_listRequests r)\<rparr>))"

definition fetchList :: "string \<Rightarrow> nat \<Rightarrow> conversation_runtime \<Rightarrow> conversation_runtime" where
  "fetchList key generation r = (case cr_context r of
       None \<Rightarrow> r
     | Some context \<Rightarrow>
         ask_page generation \<lparr>lq_key = key, lq_context = context, lq_aggregation = new_aggregation, lq_cursor = None\<rparr> r)"

definition applyListUnavailable :: "list_result \<Rightarrow> conversation_runtime \<Rightarrow> conversation_runtime" where
  "applyListUnavailable res r =
     emit (syncThread (r\<lparr>cr_list := (cr_list r)\<lparr>ls_state := Some (lr_state res), ls_loading := False,
       ls_error := (if lr_state res = DirectoryError
         then Some (the_default ''The conversations could not be listed'' (lr_error res)) else None)\<rparr>\<rparr>))"

text \<open>What follows the \<open>await\<close> in the loop of \<open>fetchList\<close>.\<close>

definition listAnswered :: "nat \<Rightarrow> string option + list_result \<Rightarrow> conversation_runtime \<Rightarrow> conversation_runtime" where
  "listAnswered generation answer r = (case map_get (cr_listRequests r) generation of
       None \<Rightarrow> r
     | Some q \<Rightarrow>
         let r0 = r\<lparr>cr_listRequests := map_delete generation (cr_listRequests r)\<rparr>; key = lq_key q
         in case answer of
              Inl err \<Rightarrow> list_failed key generation err r0
            | Inr res \<Rightarrow>
                if \<not> wanted key generation (cr_listGeneration r0) r0 then r0
                else if lr_restart res then
                  (case restart_listing (lq_cursor q) (lq_aggregation q) of
                     Inl err \<Rightarrow> list_failed key generation (Some err) r0
                   | Inr a \<Rightarrow> ask_page generation (q\<lparr>lq_aggregation := a, lq_cursor := None\<rparr>) r0)
                else if lr_state res \<noteq> DirectoryReady then applyListUnavailable res r0
                else (case acceptReadyPage res (lq_cursor q) (lq_aggregation q) of
                     Inl err \<Rightarrow> list_failed key generation (Some err) r0
                   | Inr (Some nxt, a) \<Rightarrow> ask_page generation (q\<lparr>lq_aggregation := a, lq_cursor := Some nxt\<rparr>) r0
                   | Inr (None, a) \<Rightarrow>
                       emit (syncThread (r0\<lparr>cr_list := \<lparr>ls_state = Some DirectoryReady, ls_conversations = ag_conversations a,
                         ls_bindingId = ag_bindingId a, ls_loading = False, ls_error = None\<rparr>\<rparr>))))"

section \<open>What the owner does\<close>

definition setContext :: "push_source \<Rightarrow> string option \<Rightarrow> conversation_runtime \<Rightarrow> conversation_runtime" where
  "setContext source context r =
     (let wasDisposed = cr_disposed r;
          r0 = r\<lparr>cr_disposed := False\<rparr>;
          key = map_option (ad_contextKey (cr_adapter r)) context;
          requestKey = (case context of None \<Rightarrow> None
            | Some c \<Rightarrow> (case ad_requestKey (cr_adapter r) of None \<Rightarrow> key | Some f \<Rightarrow> Some (f c)))
      in if key \<noteq> None \<and> key = cr_contextKey r0 then
           let requestChanged = (requestKey \<noteq> cr_requestKey r0);
               r1 = r0\<lparr>cr_context := context, cr_requestKey := requestKey\<rparr>
           in if wasDisposed \<or> requestChanged then
                let r2 = r1\<lparr>cr_listGeneration := Suc (Suc (cr_listGeneration r1)), cr_newestGeneration := Suc (cr_newestGeneration r1),
                      cr_olderGeneration := Suc (cr_olderGeneration r1), cr_newestInFlight := None, cr_newestPending := False\<rparr>;
                    r3 = fetchList (the key) (cr_listGeneration r2) r2;
                    r4 = (if cr_loadedId r3 \<noteq> None then reloadNewest r3 else r3)
                in syncRefresh source r4
              else syncRefresh source r1
         else
           let r1 = emit (stopRefresh (r0\<lparr>cr_context := context, cr_contextKey := key, cr_requestKey := requestKey,
                 cr_newestGeneration := Suc (cr_newestGeneration r0), cr_olderGeneration := Suc (cr_olderGeneration r0),
                 cr_positions := emptyPositions, cr_list := EMPTY_LIST, cr_thread := EMPTY_THREAD, cr_loadedId := None\<rparr>))
           in case key of
                None \<Rightarrow> r1
              | Some k \<Rightarrow> fetchList k (Suc (cr_listGeneration r1)) (r1\<lparr>cr_listGeneration := Suc (cr_listGeneration r1)\<rparr>))"

definition select :: "string option \<Rightarrow> conversation_runtime \<Rightarrow> conversation_runtime" where
  "select conversation r = (case cr_contextKey r of
       None \<Rightarrow> r
     | Some key \<Rightarrow>
         if cr_disposed r then r
         else emit (syncThread (r\<lparr>cr_chosen := map_option (Pair key) conversation\<rparr>)))"

definition reload :: "conversation_runtime \<Rightarrow> conversation_runtime" where
  "reload r = (case cr_contextKey r of
       None \<Rightarrow> r
     | Some key \<Rightarrow>
         if cr_disposed r then r
         else reloadNewest (fetchList key (Suc (cr_listGeneration r)) (r\<lparr>cr_listGeneration := Suc (cr_listGeneration r)\<rparr>)))"

definition dispose_conversation :: "conversation_runtime \<Rightarrow> conversation_runtime" where
  "dispose_conversation r =
     (stopRefresh (r\<lparr>cr_disposed := True, cr_listGeneration := Suc (cr_listGeneration r),
        cr_newestGeneration := Suc (cr_newestGeneration r), cr_olderGeneration := Suc (cr_olderGeneration r),
        cr_newestInFlight := None, cr_newestPending := False\<rparr>))\<lparr>cr_listeners := []\<rparr>"

definition intervalFires :: "nat \<Rightarrow> conversation_runtime \<Rightarrow> conversation_runtime" where
  "intervalFires t r = (if t \<in> set (cr_armed r) then poll r else r)"

datatype conversation_event =
    SetContext push_source "string option"
  | Select "string option"
  | Reload
  | LoadOlder
  | DisposeConversation
  | AddListener nat
  | RemoveListener nat
  | ListAnswered nat "string option + list_result"
  | NewestAnswered push_source nat "string option + read_page"
  | NewestSettles
  | OlderAnswered nat "string option + read_page"
  | IntervalFires nat
  | PushSignalled nat

fun conversation_step :: "conversation_runtime \<Rightarrow> conversation_event \<Rightarrow> conversation_runtime" where
  "conversation_step r (SetContext source context) = setContext source context r"
| "conversation_step r (Select conversation) = select conversation r"
| "conversation_step r Reload = reload r"
| "conversation_step r LoadOlder = snd (loadOlder r)"
| "conversation_step r DisposeConversation = dispose_conversation r"
| "conversation_step r (AddListener l) = r\<lparr>cr_listeners := set_add l (cr_listeners r)\<rparr>"
| "conversation_step r (RemoveListener l) = r\<lparr>cr_listeners := removeAll l (cr_listeners r)\<rparr>"
| "conversation_step r (ListAnswered generation answer) = listAnswered generation answer r"
| "conversation_step r (NewestAnswered source generation answer) = newestAnswered source generation answer r"
| "conversation_step r NewestSettles = newestSettles r"
| "conversation_step r (OlderAnswered generation answer) = olderAnswered generation answer r"
| "conversation_step r (IntervalFires t) = intervalFires t r"
| "conversation_step r (PushSignalled n) = pushSignal n r"

end
