(* ===== verification/Reader_Frames.thy ===== *)
theory Reader_Frames
  imports Conversation_Runtime
begin

text \<open>
  What the parts of the conversation runtime leave alone, and that its state is well formed after every event.
\<close>

section \<open>Frames\<close>

text \<open>Everything but the snapshot, the newest read, the refresh and the log.\<close>

definition core :: "conversation_runtime \<Rightarrow> conversation_runtime" where
  "core r = r\<lparr>cr_snapshot := EMPTY_SNAPSHOT, cr_newestGeneration := 0, cr_newestInFlight := None, cr_newestPending := False,
     cr_timer := None, cr_unsubscribePush := None, cr_refreshArmedFor := None, cr_timers := 0, cr_armed := [],
     cr_subscriptions := [], cr_newestRequests := [], cr_told := []\<rparr>"

lemma core_fields:
  assumes "core v = core r"
  shows "cr_adapter v = cr_adapter r" "cr_identity v = cr_identity r" "cr_listeners v = cr_listeners r"
    "cr_context v = cr_context r" "cr_contextKey v = cr_contextKey r" "cr_requestKey v = cr_requestKey r"
    "cr_chosen v = cr_chosen r" "cr_loadedId v = cr_loadedId r" "cr_list v = cr_list r" "cr_thread v = cr_thread r"
    "cr_positions v = cr_positions r" "cr_listGeneration v = cr_listGeneration r" "cr_olderGeneration v = cr_olderGeneration r"
    "cr_disposed v = cr_disposed r" "cr_listRequests v = cr_listRequests r" "cr_olderRequests v = cr_olderRequests r"
    "cr_settling v = cr_settling r"
  using assms by (cases v; cases r; simp add: core_def)+

lemma core_tell [simp]: "core (tell_cr c r) = core r"
  by (simp add: core_def tell_cr_def)

lemma core_updates [simp]:
  "core (r\<lparr>cr_newestInFlight := a1\<rparr>) = core r" "core (r\<lparr>cr_newestPending := a2\<rparr>) = core r"
  "core (r\<lparr>cr_newestGeneration := a3\<rparr>) = core r" "core (r\<lparr>cr_newestRequests := a4\<rparr>) = core r"
  "core (r\<lparr>cr_timer := a5\<rparr>) = core r" "core (r\<lparr>cr_unsubscribePush := a6\<rparr>) = core r"
  "core (r\<lparr>cr_refreshArmedFor := a7\<rparr>) = core r" "core (r\<lparr>cr_timers := a8\<rparr>) = core r" "core (r\<lparr>cr_armed := a9\<rparr>) = core r"
  "core (r\<lparr>cr_subscriptions := a10\<rparr>) = core r" "core (r\<lparr>cr_snapshot := a11\<rparr>) = core r"
  by (simp_all add: core_def)

lemma core_fold: "(\<And>x r. core (f x r) = core r) \<Longrightarrow> core (fold f xs r) = core r"
  by (induction xs arbitrary: r) simp_all

lemma core_power: "(\<And>r. core (f r) = core r) \<Longrightarrow> core ((f ^^ n) r) = core r"
  by (induction n arbitrary: r) simp_all

lemma core_emit [simp]: "core (emit r) = core r"
  unfolding emit_def by (subst core_fold) simp_all

lemma core_stop [simp]: "core (stopRefresh r) = core r"
  by (simp add: stopRefresh_def Let_def split: option.split)

lemma core_start [simp]: "core (startNewest report r) = core r" "core (requestNewest report r) = core r" "core (poll r) = core r"
  "core (reloadNewest r) = core r" "core (settleNewest g r) = core r" "core (pushSignal n r) = core r"
  by (simp_all add: startNewest_def requestNewest_def poll_def reloadNewest_def settleNewest_def pushSignal_def Let_def
      split: option.split)

lemma core_refresh [simp]: "core (subscribe_push source replacing target context r) = core r" "core (startRefresh source r) = core r"
  "core (syncRefresh source r) = core r"
proof -
  have signals: "core ((pushSignal n ^^ k) r) = core r" for n k r by (rule core_power) simp
  show subscribe: "core (subscribe_push source replacing target ctx r) = core r" for source replacing target ctx r
    by (simp add: subscribe_push_def signals Let_def)
  show start: "core (startRefresh source r) = core r" for source r
    by (simp add: startRefresh_def subscribe Let_def split: option.split refresh_policy.split)
  show "core (syncRefresh source r) = core r" by (simp add: syncRefresh_def start)
qed

lemmas emit_fields [simp] = core_fields [OF core_emit]
lemmas tell_cr_fields [simp] = core_fields [OF core_tell]
lemmas stop_fields [simp] = core_fields [OF core_stop]
lemmas start_fields [simp] = core_fields [OF core_start(1)]
lemmas request_fields [simp] = core_fields [OF core_start(2)]
lemmas poll_fields [simp] = core_fields [OF core_start(3)]
lemmas reload_fields [simp] = core_fields [OF core_start(4)]
lemmas settle_newest_fields [simp] = core_fields [OF core_start(5)]
lemmas signal_fields [simp] = core_fields [OF core_start(6)]
lemmas refresh_fields [simp] = core_fields [OF core_refresh(2)]
lemmas sync_fields [simp] = core_fields [OF core_refresh(3)]

text \<open>The newest read: its generation, its slot and the reads on their way.\<close>

definition reads :: "conversation_runtime \<Rightarrow> nat \<times> nat option \<times> bool \<times> (nat, string \<times> bool) jsmap" where
  "reads r = (cr_newestGeneration r, cr_newestInFlight r, cr_newestPending r, cr_newestRequests r)"

lemma reads_fields:
  assumes "reads v = reads r"
  shows "cr_newestGeneration v = cr_newestGeneration r" "cr_newestInFlight v = cr_newestInFlight r"
    "cr_newestPending v = cr_newestPending r" "cr_newestRequests v = cr_newestRequests r"
  using assms by (simp_all add: reads_def)

lemma reads_same [simp]: "reads (emit r) = reads r" "reads (stopRefresh r) = reads r" "reads (tell_cr c r) = reads r"
proof -
  show tell: "reads (tell_cr c r) = reads r" for c r by (simp add: reads_def tell_cr_def)
  have "reads (fold (\<lambda>l. tell_cr (ListenerTold l)) ls v) = reads v" for ls v by (induction ls arbitrary: v) (simp_all add: tell)
  then show "reads (emit r) = reads r" by (simp add: emit_def) (simp add: reads_def)
  show "reads (stopRefresh r) = reads r" by (simp add: stopRefresh_def reads_def tell_cr_def Let_def split: option.split)
qed

lemmas emit_reads [simp] = reads_fields [OF reads_same(1)]
lemmas stop_reads [simp] = reads_fields [OF reads_same(2)]
lemmas tell_reads [simp] = reads_fields [OF reads_same(3)]

text \<open>The refresh: its timer, its subscription and its target.\<close>

definition refreshing ::
  "conversation_runtime \<Rightarrow> nat option \<times> nat option \<times> refresh_target option \<times> nat list \<times> nat \<times> refresh_target list" where
  "refreshing r = (cr_timer r, cr_unsubscribePush r, cr_refreshArmedFor r, cr_armed r, cr_timers r, cr_subscriptions r)"

lemma refreshing_fields:
  assumes "refreshing v = refreshing r"
  shows "cr_timer v = cr_timer r" "cr_unsubscribePush v = cr_unsubscribePush r" "cr_refreshArmedFor v = cr_refreshArmedFor r"
    "cr_armed v = cr_armed r" "cr_timers v = cr_timers r" "cr_subscriptions v = cr_subscriptions r"
  using assms by (simp_all add: refreshing_def)

lemma refreshing_same [simp]: "refreshing (emit r) = refreshing r" "refreshing (startNewest report r) = refreshing r"
  "refreshing (requestNewest report r) = refreshing r" "refreshing (poll r) = refreshing r" "refreshing (reloadNewest r) = refreshing r"
  "refreshing (settleNewest g r) = refreshing r" "refreshing (pushSignal n r) = refreshing r" "refreshing (tell_cr c r) = refreshing r"
proof -
  show tell: "refreshing (tell_cr c r) = refreshing r" for c r by (simp add: refreshing_def tell_cr_def)
  have "refreshing (fold (\<lambda>l. tell_cr (ListenerTold l)) ls v) = refreshing v" for ls v by (induction ls arbitrary: v) (simp_all add: tell)
  then show "refreshing (emit r) = refreshing r" by (simp add: emit_def) (simp add: refreshing_def)
  show start: "refreshing (startNewest report r) = refreshing r" for report r
    by (simp add: startNewest_def refreshing_def tell_cr_def Let_def split: option.split)
  show request: "refreshing (requestNewest report r) = refreshing r" for report r
    by (simp add: requestNewest_def start) (simp add: refreshing_def)
  show poll: "refreshing (poll r) = refreshing r" by (simp add: poll_def request)
  show "refreshing (reloadNewest r) = refreshing r" by (simp add: reloadNewest_def request) (simp add: refreshing_def)
  show "refreshing (settleNewest g r) = refreshing r" by (simp add: settleNewest_def start Let_def) (simp add: refreshing_def)
  show "refreshing (pushSignal n r) = refreshing r" by (simp add: pushSignal_def poll_def request)
qed

lemmas emit_refreshing [simp] = refreshing_fields [OF refreshing_same(1)]
lemmas start_refreshing [simp] = refreshing_fields [OF refreshing_same(2)]
lemmas request_refreshing [simp] = refreshing_fields [OF refreshing_same(3)]
lemmas poll_refreshing [simp] = refreshing_fields [OF refreshing_same(4)]
lemmas reload_refreshing [simp] = refreshing_fields [OF refreshing_same(5)]
lemmas settle_refreshing [simp] = refreshing_fields [OF refreshing_same(6)]
lemmas signal_refreshing [simp] = refreshing_fields [OF refreshing_same(7)]
lemmas tell_refreshing [simp] = refreshing_fields [OF refreshing_same(8)]

lemma wanted_same: "core v = core r \<Longrightarrow> wanted key generation current v = wanted key generation current r"
  "core v = core r \<Longrightarrow> refreshWanted v = refreshWanted r" "core v = core r \<Longrightarrow> open_id v = open_id r"
  using core_fields [of v r] by (simp_all add: wanted_def refreshWanted_def) (simp add: open_id_def cong: option.case_cong)

lemmas emit_wanted [simp] = wanted_same [OF core_emit]
lemmas stop_wanted [simp] = wanted_same [OF core_stop]
lemmas tell_wanted [simp] = wanted_same [OF core_tell]
lemmas request_wanted [simp] = wanted_same [OF core_start(2)]
lemmas sync_wanted [simp] = wanted_same [OF core_refresh(3)]

lemma shown_same: "core v = core r \<Longrightarrow> shown_snapshot v = shown_snapshot r"
proof -
  assume same: "core v = core r"
  show ?thesis unfolding shown_snapshot_def conversationKey_def Let_def wanted_same(3) [OF same] core_fields [OF same] ..
qed

lemma snapshot_emit [simp]: "cr_snapshot (emit r) = shown_snapshot r"
proof -
  have "cr_snapshot (fold (\<lambda>l. tell_cr (ListenerTold l)) ls v) = cr_snapshot v" for ls v
    by (induction ls arbitrary: v) (simp_all add: tell_cr_def)
  then show ?thesis by (simp add: emit_def)
qed

section \<open>The directory\<close>

definition listing_ok :: "aggregation \<Rightarrow> bool" where
  "listing_ok a \<longleftrightarrow> distinct (ag_seenConversations a) \<and> ag_seenConversations a = map su_id (ag_conversations a)"

lemma accept_conversations: "ag_pages (acceptConversations cs a) = ag_pages a \<and> (listing_ok a \<longrightarrow> listing_ok (acceptConversations cs a))"
proof (induction cs arbitrary: a)
  case (Cons c cs)
  show ?case
  proof (cases "su_id c \<in> set (ag_seenConversations a)")
    case False
    define a' where "a' = a\<lparr>ag_seenConversations := ag_seenConversations a @ [su_id c], ag_conversations := ag_conversations a @ [c]\<rparr>"
    have "ag_pages a' = ag_pages a" "listing_ok a \<longrightarrow> listing_ok a'" using False by (auto simp: a'_def listing_ok_def)
    then show ?thesis using Cons [of a'] False by (simp add: acceptConversations_def a'_def [symmetric])
  qed (use Cons [of a] in \<open>simp add: acceptConversations_def\<close>)
qed (simp add: acceptConversations_def)

lemma accept_identity: "acceptListingIdentity res cursor a = Inr b \<Longrightarrow> ag_pages b = ag_pages a \<and> (listing_ok a \<longrightarrow> listing_ok b)"
  by (auto simp: acceptListingIdentity_def listing_ok_def Let_def split: if_splits)

lemma accept_binding: "acceptBinding i a = Inr b \<Longrightarrow> ag_pages b = ag_pages a \<and> (listing_ok a \<longrightarrow> listing_ok b)"
  by (auto simp: acceptBinding_def listing_ok_def split: if_splits)

lemma accept_page: "acceptReadyPage res cursor a = Inr (nxt, b) \<Longrightarrow> ag_pages b = ag_pages a \<and> (listing_ok a \<longrightarrow> listing_ok b)"
proof -
  assume accepted: "acceptReadyPage res cursor a = Inr (nxt, b)"
  then obtain a1 a2 where steps: "acceptListingIdentity res cursor a = Inr a1" "acceptBinding (lr_bindingId res) a1 = Inr a2"
    by (auto simp: acceptReadyPage_def split: sum.splits)
  then have "\<exists>cs. b = acceptConversations (lr_conversations res) a2\<lparr>ag_seenCursors := cs\<rparr>"
    using accepted by (auto simp: acceptReadyPage_def Let_def split: option.splits if_splits intro: exI [of _ "ag_seenCursors (acceptConversations (lr_conversations res) a2)"])
  then have b: "ag_pages b = ag_pages a2 \<and> (listing_ok a2 \<longrightarrow> listing_ok b)"
    using accept_conversations [of "lr_conversations res" a2] by (auto simp: listing_ok_def)
  show ?thesis using accept_identity [OF steps(1)] accept_binding [OF steps(2)] b by simp
qed

lemma restart_keeps_pages: "restart_listing cursor a = Inr b \<Longrightarrow> ag_pages b = ag_pages a \<and> listing_ok b"
  by (auto simp: restart_listing_def listing_ok_def Let_def split: if_splits)

section \<open>The cases of the larger operations\<close>

definition revoked :: "string option \<Rightarrow> string option \<Rightarrow> conversation_runtime \<Rightarrow> conversation_runtime" where
  "revoked ctx requestKey r =
     (let r1 = r\<lparr>cr_disposed := False, cr_context := ctx, cr_requestKey := requestKey\<rparr>
      in r1\<lparr>cr_listGeneration := Suc (Suc (cr_listGeneration r1)), cr_newestGeneration := Suc (cr_newestGeneration r1),
           cr_olderGeneration := Suc (cr_olderGeneration r1), cr_newestInFlight := None, cr_newestPending := False\<rparr>)"

definition rearm :: "string \<Rightarrow> conversation_runtime \<Rightarrow> conversation_runtime" where
  "rearm k r = (let r3 = fetchList k (cr_listGeneration r) r in if cr_loadedId r3 \<noteq> None then reloadNewest r3 else r3)"

definition moved :: "string option \<Rightarrow> string option \<Rightarrow> string option \<Rightarrow> conversation_runtime \<Rightarrow> conversation_runtime" where
  "moved ctx key requestKey r =
     (let r0 = r\<lparr>cr_disposed := False\<rparr>
      in emit (stopRefresh (r0\<lparr>cr_context := ctx, cr_contextKey := key, cr_requestKey := requestKey,
                 cr_newestGeneration := Suc (cr_newestGeneration r0), cr_olderGeneration := Suc (cr_olderGeneration r0),
                 cr_positions := emptyPositions, cr_list := EMPTY_LIST, cr_thread := EMPTY_THREAD, cr_loadedId := None\<rparr>)))"

lemma setContext_rule [case_names rotated kept cleared entered]:
  assumes "\<And>c k q. ctx = Some c \<Longrightarrow> k = ad_contextKey (cr_adapter r) c \<Longrightarrow> cr_contextKey r = Some k \<Longrightarrow>
      P (syncRefresh source (rearm k (revoked ctx q r)))"
    and "\<And>c k. ctx = Some c \<Longrightarrow> k = ad_contextKey (cr_adapter r) c \<Longrightarrow> cr_contextKey r = Some k \<Longrightarrow> \<not> cr_disposed r \<Longrightarrow>
      P (syncRefresh source (r\<lparr>cr_disposed := False, cr_context := ctx, cr_requestKey := cr_requestKey r\<rparr>))"
    and "ctx = None \<Longrightarrow> P (moved None None None r)"
    and "\<And>c k q. ctx = Some c \<Longrightarrow> k = ad_contextKey (cr_adapter r) c \<Longrightarrow> cr_contextKey r \<noteq> Some k \<Longrightarrow>
      P (fetchList k (Suc (cr_listGeneration (moved ctx (Some k) q r)))
           ((moved ctx (Some k) q r)\<lparr>cr_listGeneration := Suc (cr_listGeneration (moved ctx (Some k) q r))\<rparr>))"
  shows "P (setContext source ctx r)"
proof (cases ctx)
  case None
  then show ?thesis using assms(3) by (simp add: setContext_def moved_def Let_def)
next
  case (Some c)
  define k where "k = ad_contextKey (cr_adapter r) c"
  define q where "q = (case ad_requestKey (cr_adapter r) of None \<Rightarrow> Some k | Some f \<Rightarrow> Some (f c))"
  show ?thesis
  proof (cases "cr_contextKey r = Some k")
    case True
    show ?thesis
    proof (cases "cr_disposed r \<or> q \<noteq> cr_requestKey r")
      case True
      then show ?thesis using assms(1) [OF Some k_def \<open>cr_contextKey r = Some k\<close>, of q] Some \<open>cr_contextKey r = Some k\<close>
        by (simp add: setContext_def revoked_def rearm_def Let_def q_def [symmetric] k_def [symmetric] cong: if_cong)
    next
      case False
      then show ?thesis using assms(2) [OF Some k_def \<open>cr_contextKey r = Some k\<close>] Some \<open>cr_contextKey r = Some k\<close>
        by (simp add: setContext_def Let_def q_def [symmetric] k_def [symmetric])
    qed
  next
    case False
    then show ?thesis using assms(4) [OF Some k_def False, of q] Some
      by (simp add: setContext_def moved_def Let_def q_def [symmetric] k_def [symmetric] not_sym)
  qed
qed

definition thread_reset :: "string option \<Rightarrow> conversation_runtime \<Rightarrow> conversation_runtime" where
  "thread_reset opened r = stopRefresh (r\<lparr>cr_loadedId := opened, cr_newestGeneration := Suc (cr_newestGeneration r),
     cr_olderGeneration := Suc (cr_olderGeneration r), cr_newestInFlight := None, cr_newestPending := False,
     cr_positions := emptyPositions, cr_thread := EMPTY_THREAD\<rparr>)"

lemma fetchList_asks:
  assumes "cr_context r = Some c"
  shows "fetchList key g r = tell_cr (ListAsked g c None) (r\<lparr>cr_listRequests := map_set g
    \<lparr>lq_key = key, lq_context = c, lq_aggregation = new_aggregation\<lparr>ag_pages := 1\<rparr>, lq_cursor = None\<rparr> (cr_listRequests r)\<rparr>)"
  using assms by (simp add: fetchList_def ask_page_def beginPage_def new_aggregation_def LIST_PAGE_BUDGET_def Let_def)

definition list_taken :: "nat \<Rightarrow> conversation_runtime \<Rightarrow> conversation_runtime" where
  "list_taken g r = r\<lparr>cr_listRequests := map_delete g (cr_listRequests r)\<rparr>"

lemma listAnswered_rule [case_names unknown failed stale again unavailable ready]:
  assumes "map_get (cr_listRequests r) g = None \<Longrightarrow> P r"
    and "\<And>q err. map_get (cr_listRequests r) g = Some q \<Longrightarrow> P (list_failed (lq_key q) g err (list_taken g r))"
    and "\<And>q. map_get (cr_listRequests r) g = Some q \<Longrightarrow> \<not> wanted (lq_key q) g (cr_listGeneration r) r \<Longrightarrow> P (list_taken g r)"
    and "\<And>q a cursor. map_get (cr_listRequests r) g = Some q \<Longrightarrow> wanted (lq_key q) g (cr_listGeneration r) r \<Longrightarrow>
      ag_pages a = ag_pages (lq_aggregation q) \<Longrightarrow>
      (listing_ok (lq_aggregation q) \<Longrightarrow> listing_ok a) \<Longrightarrow>
      P (ask_page g (q\<lparr>lq_aggregation := a, lq_cursor := cursor\<rparr>) (list_taken g r))"
    and "\<And>q res. map_get (cr_listRequests r) g = Some q \<Longrightarrow> wanted (lq_key q) g (cr_listGeneration r) r \<Longrightarrow> P (applyListUnavailable res (list_taken g r))"
    and "\<And>q a. map_get (cr_listRequests r) g = Some q \<Longrightarrow> wanted (lq_key q) g (cr_listGeneration r) r \<Longrightarrow>
      (listing_ok (lq_aggregation q) \<Longrightarrow> listing_ok a) \<Longrightarrow>
      P (emit (syncThread ((list_taken g r)\<lparr>cr_list := \<lparr>ls_state = Some DirectoryReady, ls_conversations = ag_conversations a,
                         ls_bindingId = ag_bindingId a, ls_loading = False, ls_error = None\<rparr>\<rparr>)))"
  shows "P (listAnswered g answer r)"
proof (cases "map_get (cr_listRequests r) g")
  case None
  then show ?thesis using assms(1) by (simp add: listAnswered_def)
next
  case (Some q)
  have current: "wanted (lq_key q) g (cr_listGeneration v) v = wanted (lq_key q) g (cr_listGeneration r) r" if "v = list_taken g r" for v
    using that by (simp add: wanted_def list_taken_def)
  show ?thesis
  proof (cases answer)
    case (Inl err)
    then show ?thesis using assms(2) [OF Some, of err] Some by (simp add: listAnswered_def list_taken_def)
  next
    case (Inr res)
    have ready: "P (case acceptReadyPage res (lq_cursor q) (lq_aggregation q) of
         Inl err \<Rightarrow> list_failed (lq_key q) g (Some err) (list_taken g r)
       | Inr (Some nxt, a) \<Rightarrow> ask_page g (q\<lparr>lq_aggregation := a, lq_cursor := Some nxt\<rparr>) (list_taken g r)
       | Inr (None, a) \<Rightarrow>
           emit (syncThread ((list_taken g r)\<lparr>cr_list := \<lparr>ls_state = Some DirectoryReady, ls_conversations = ag_conversations a,
             ls_bindingId = ag_bindingId a, ls_loading = False, ls_error = None\<rparr>\<rparr>)))" if w: "wanted (lq_key q) g (cr_listGeneration r) r"
    proof (cases "acceptReadyPage res (lq_cursor q) (lq_aggregation q)")
      case (Inl err)
      then show ?thesis using assms(2) [OF Some, of "Some err"] by simp
    next
      case (Inr b)
      obtain nxt a where b: "b = (nxt, a)" by (cases b)
      have "ag_pages a = ag_pages (lq_aggregation q)" "listing_ok (lq_aggregation q) \<Longrightarrow> listing_ok a"
        using accept_page [of res "lq_cursor q" "lq_aggregation q" nxt a] Inr b by simp_all
      then show ?thesis using assms(4) [OF Some w, of a nxt] assms(6) [OF Some w, of a] Inr b by (cases nxt) simp_all
    qed
    have restart: "P (case restart_listing (lq_cursor q) (lq_aggregation q) of
         Inl err \<Rightarrow> list_failed (lq_key q) g (Some err) (list_taken g r)
       | Inr a \<Rightarrow> ask_page g (q\<lparr>lq_aggregation := a, lq_cursor := None\<rparr>) (list_taken g r))"
      if w: "wanted (lq_key q) g (cr_listGeneration r) r"
      using assms(2) [OF Some] assms(4) [OF Some w, of _ None] restart_keeps_pages by (simp split: sum.split)
    have shape: "listAnswered g answer r =
        (if \<not> wanted (lq_key q) g (cr_listGeneration r) r then list_taken g r
         else if lr_restart res then
           (case restart_listing (lq_cursor q) (lq_aggregation q) of
              Inl err \<Rightarrow> list_failed (lq_key q) g (Some err) (list_taken g r)
            | Inr a \<Rightarrow> ask_page g (q\<lparr>lq_aggregation := a, lq_cursor := None\<rparr>) (list_taken g r))
         else if lr_state res \<noteq> DirectoryReady then applyListUnavailable res (list_taken g r)
         else (case acceptReadyPage res (lq_cursor q) (lq_aggregation q) of
             Inl err \<Rightarrow> list_failed (lq_key q) g (Some err) (list_taken g r)
           | Inr (Some nxt, a) \<Rightarrow> ask_page g (q\<lparr>lq_aggregation := a, lq_cursor := Some nxt\<rparr>) (list_taken g r)
           | Inr (None, a) \<Rightarrow>
               emit (syncThread ((list_taken g r)\<lparr>cr_list := \<lparr>ls_state = Some DirectoryReady, ls_conversations = ag_conversations a,
                 ls_bindingId = ag_bindingId a, ls_loading = False, ls_error = None\<rparr>\<rparr>))))"
      using Some Inr current [OF refl] unfolding list_taken_def by (simp add: listAnswered_def Let_def)
    show ?thesis unfolding shape
      by (cases "wanted (lq_key q) g (cr_listGeneration r) r"; cases "lr_restart res"; cases "lr_state res = DirectoryReady";
          simp only: simp_thms if_True if_False not_True_eq_False not_False_eq_True assms(3) [OF Some] assms(5) [OF Some] ready restart)
  qed
qed

lemma syncThread_rule [case_names same closed opened]:
  assumes "open_id r = cr_loadedId r \<Longrightarrow> P r"
    and "\<And>opened. opened = open_id r \<Longrightarrow> opened \<noteq> cr_loadedId r \<Longrightarrow> opened = None \<or> cr_context r = None \<Longrightarrow> P (thread_reset opened r)"
    and "\<And>i. open_id r = Some i \<Longrightarrow> cr_loadedId r \<noteq> Some i \<Longrightarrow> cr_context r \<noteq> None \<Longrightarrow> P (requestNewest True (thread_reset (Some i) r))"
  shows "P (syncThread r)"
proof (cases "open_id r = cr_loadedId r")
  case False
  then show ?thesis using assms(2) [OF refl] assms(3) by (cases "open_id r") (auto simp: syncThread_def thread_reset_def Let_def)
qed (use assms(1) in \<open>simp add: syncThread_def\<close>)

section \<open>Operations that only tell\<close>

fun asked :: "runtime_call \<Rightarrow> bool" where
  "asked (ListAsked g c cursor) = True"
| "asked (NewestAsked g c i) = True"
| "asked (OlderAsked g c i cursor) = True"
| "asked _ = False"

definition asks :: "conversation_runtime \<Rightarrow> runtime_call list" where
  "asks r = filter asked (cr_told r)"

definition quiet :: "conversation_runtime \<Rightarrow> conversation_runtime \<Rightarrow> bool" where
  "quiet w v \<longleftrightarrow> core w = core v \<and> reads w = reads v \<and> asks w = asks v"

lemma quiet_refl [simp]: "quiet v v"
  by (simp add: quiet_def)

lemma quiet_trans: "quiet w v \<Longrightarrow> quiet v u \<Longrightarrow> quiet w u"
  by (simp add: quiet_def)

lemma asks_tell: "asks (tell_cr c r) = asks r @ (if asked c then [c] else [])"
  by (simp add: asks_def tell_cr_def)

lemma quiet_tell [simp]: "\<not> asked c \<Longrightarrow> quiet (tell_cr c r) r"
  by (simp add: quiet_def asks_tell)

lemma quiet_updates [simp]:
  "quiet (r\<lparr>cr_timer := a1\<rparr>) r" "quiet (r\<lparr>cr_unsubscribePush := a2\<rparr>) r" "quiet (r\<lparr>cr_refreshArmedFor := a3\<rparr>) r"
  "quiet (r\<lparr>cr_timers := a4\<rparr>) r" "quiet (r\<lparr>cr_armed := a5\<rparr>) r" "quiet (r\<lparr>cr_subscriptions := a6\<rparr>) r" "quiet (r\<lparr>cr_snapshot := a7\<rparr>) r"
  by (simp_all add: quiet_def reads_def asks_def)

lemma quiet_emit [simp]: "quiet (emit r) r"
proof -
  have "asks (fold (\<lambda>l. tell_cr (ListenerTold l)) ls v) = asks v" for ls v by (induction ls arbitrary: v) (simp_all add: asks_tell)
  then have "asks (emit r) = asks r" by (simp add: emit_def) (simp add: asks_def)
  then show ?thesis by (simp add: quiet_def)
qed

lemma quiet_stop [simp]: "quiet (stopRefresh r) r"
proof -
  have "asks (stopRefresh r) = asks r" by (simp add: stopRefresh_def asks_def tell_cr_def Let_def split: option.split)
  then show ?thesis by (simp add: quiet_def)
qed

text \<open>Whatever the newest reads and such operations keep, the refresh keeps.\<close>

lemma refresh_keeps:
  assumes poll: "\<And>v. P v \<Longrightarrow> P (poll v)" and quiet: "\<And>v w. quiet w v \<Longrightarrow> P v \<Longrightarrow> P w" and "P r"
  shows "P (syncRefresh source r)"
proof -
  have signal: "P (pushSignal n v)" if "P v" for n v using that poll by (simp add: pushSignal_def)
  have signals: "P ((pushSignal n ^^ k) v)" if "P v" for n k v using that by (induction k arbitrary: v) (simp_all add: signal)
  have subscribe: "P (subscribe_push source replacing target ctx v)" if "P v" for source replacing target ctx v
  proof -
    define r1 where "r1 = tell_cr (PushSubscribed (length (cr_subscriptions v)) ctx (ra_conversationId target))
      (v\<lparr>cr_subscriptions := cr_subscriptions v @ [target]\<rparr>)"
    have "P r1" unfolding r1_def by (rule quiet [OF quiet_tell quiet [OF quiet_updates(6) that]]) simp
    then have r2: "P ((pushSignal (length (cr_subscriptions v)) ^^ ps_signals source) r1)" by (rule signals)
    have updates: "P (w\<lparr>cr_refreshArmedFor := a\<rparr>)" "P (w\<lparr>cr_unsubscribePush := b\<rparr>)" "P (tell_cr (PushUnsubscribed n) w)" if "P w" for w a b n
      using quiet [OF quiet_updates(3) that] quiet [OF quiet_updates(2) that] quiet [OF quiet_tell that] by simp_all
    show ?thesis using r2 by (simp add: subscribe_push_def r1_def [symmetric] Let_def updates poll)
  qed
  have stop: "P (stopRefresh v)" if "P v" for v by (rule quiet [OF quiet_stop that])
  have target: "P ((stopRefresh v)\<lparr>cr_refreshArmedFor := a\<rparr>)" if "P v" for v a by (rule quiet [OF quiet_updates(3) stop [OF that]])
  have timer: "P (tell_cr (IntervalSet t ms) (v\<lparr>cr_timers := a, cr_armed := b, cr_timer := c\<rparr>))" if "P v" for v t ms a b c
    by (rule quiet [OF quiet_tell quiet [OF quiet_updates(1) quiet [OF quiet_updates(5) quiet [OF quiet_updates(4) that]]]]) simp
  have "P (startRefresh source v)" if "P v" for v
    using subscribe [OF target [OF that]] stop [OF that] timer [OF target [OF that]] that
    by (simp add: startRefresh_def Let_def split: option.split refresh_policy.split)
  then show ?thesis using stop \<open>P r\<close> by (simp add: syncRefresh_def)
qed

end
