(* ===== verification/Reader_State.thy ===== *)
theory Reader_State
  imports Reader_Frames
begin

text \<open>
  The state of the conversation runtime is well formed after every event: the slot of the newest read, the refresh and
  its target, the published snapshot.
\<close>

section \<open>The slot of the newest read\<close>

text \<open>\<open>S\<close>: reads whose answer is being handled.\<close>

definition slot_inv :: "nat set \<Rightarrow> conversation_runtime \<Rightarrow> bool" where
  "slot_inv S r \<longleftrightarrow>
     (\<forall>g. map_get (cr_newestRequests r) g \<noteq> None \<longrightarrow> g \<le> cr_newestGeneration r)
     \<and> (\<forall>g \<in> set (cr_settling r) \<union> S. g \<le> cr_newestGeneration r \<and> map_get (cr_newestRequests r) g = None)
     \<and> (\<forall>g. cr_newestInFlight r = Some g \<longrightarrow> g \<le> cr_newestGeneration r
           \<and> (map_get (cr_newestRequests r) g \<noteq> None \<or> g \<in> set (cr_settling r) \<union> S))
     \<and> (cr_newestPending r \<longrightarrow> cr_newestInFlight r \<noteq> None)"

lemma slot_same: "slot_inv S r \<Longrightarrow> reads v = reads r \<Longrightarrow> cr_settling v = cr_settling r \<Longrightarrow> slot_inv S v"
  using reads_fields [of v r] by (simp add: slot_inv_def)

lemma slot_free: "slot_inv S r \<Longrightarrow> slot_inv S (r\<lparr>cr_newestInFlight := None, cr_newestPending := False\<rparr>)"
  by (simp add: slot_inv_def)

lemma slot_superseded:
  assumes "slot_inv S r" "cr_newestInFlight v = None" "\<not> cr_newestPending v" "cr_newestGeneration r \<le> cr_newestGeneration v"
    "cr_newestRequests v = cr_newestRequests r" "cr_settling v = cr_settling r"
  shows "slot_inv S v"
  using assms by (auto simp: slot_inv_def intro: le_trans)

lemma slot_start: "slot_inv S (r\<lparr>cr_newestPending := False\<rparr>) \<Longrightarrow> slot_inv S (startNewest report r)"
proof -
  assume inv: "slot_inv S (r\<lparr>cr_newestPending := False\<rparr>)"
  then have "Suc (cr_newestGeneration r) \<notin> set (cr_settling r) \<union> S" unfolding slot_inv_def by (auto dest: bspec)
  then show ?thesis using inv
    by (auto simp: slot_inv_def startNewest_def tell_cr_def Let_def update_conv' le_SucI not_less_eq_eq split: option.split if_splits)
qed

lemma slot_request [simp]: "slot_inv S r \<Longrightarrow> slot_inv S (requestNewest report r)"
proof -
  assume "slot_inv S r"
  then have "slot_inv S (r\<lparr>cr_newestPending := False\<rparr>)" "cr_newestInFlight r \<noteq> None \<Longrightarrow> slot_inv S (r\<lparr>cr_newestPending := True\<rparr>)"
    by (simp_all add: slot_inv_def)
  then show ?thesis using slot_start [of S r report] by (auto simp: requestNewest_def)
qed

lemma slot_parts [simp]:
  assumes "slot_inv S r"
  shows "slot_inv S (emit r)" "slot_inv S (stopRefresh r)" "slot_inv S (tell_cr c r)" "slot_inv S (poll r)" "slot_inv S (reloadNewest r)"
    "slot_inv S (pushSignal n r)" "slot_inv S (r\<lparr>cr_thread := a1\<rparr>)" "slot_inv S (r\<lparr>cr_list := a2\<rparr>)" "slot_inv S (r\<lparr>cr_positions := a3\<rparr>)"
    "slot_inv S (r\<lparr>cr_listRequests := a4\<rparr>)" "slot_inv S (r\<lparr>cr_olderRequests := a5\<rparr>)" "slot_inv S (r\<lparr>cr_listGeneration := a6\<rparr>)"
    "slot_inv S (r\<lparr>cr_olderGeneration := a7\<rparr>)" "slot_inv S (r\<lparr>cr_chosen := a8\<rparr>)" "slot_inv S (r\<lparr>cr_refreshArmedFor := a9\<rparr>)"
    "slot_inv S (r\<lparr>cr_unsubscribePush := a10\<rparr>)" "slot_inv S (r\<lparr>cr_listeners := a11\<rparr>)" "slot_inv S (r\<lparr>cr_timer := a12\<rparr>)"
    "slot_inv S (r\<lparr>cr_armed := a13\<rparr>)" "slot_inv S (r\<lparr>cr_timers := a14\<rparr>)" "slot_inv S (r\<lparr>cr_subscriptions := a15\<rparr>)"
    "slot_inv S (r\<lparr>cr_context := a16\<rparr>)" "slot_inv S (r\<lparr>cr_requestKey := a17\<rparr>)" "slot_inv S (r\<lparr>cr_disposed := a18\<rparr>)"
proof -
  show "slot_inv S (poll r)" "slot_inv S (pushSignal n r)" "slot_inv S (reloadNewest r)"
    using assms slot_free [OF assms] by (simp_all add: poll_def pushSignal_def reloadNewest_def)
qed (rule slot_same [OF assms]; simp add: reads_def)+

lemma slot_refresh [simp]: "slot_inv S r \<Longrightarrow> slot_inv S (syncRefresh source r)"
proof (rule refresh_keeps [of "slot_inv S"])
  show "slot_inv S w" if "quiet w v" "slot_inv S v" for v w
    using that core_fields(17) [of w v] by (intro slot_same [OF that(2)]) (simp_all add: quiet_def)
qed simp_all

lemma slot_thread [simp]: "slot_inv S r \<Longrightarrow> slot_inv S (syncThread r)"
proof -
  assume inv: "slot_inv S r"
  have "slot_inv S (r\<lparr>cr_loadedId := i, cr_newestGeneration := Suc (cr_newestGeneration r), cr_olderGeneration := g, cr_newestInFlight := None,
      cr_newestPending := False, cr_positions := p, cr_thread := t\<rparr>)" for i g p t
    by (rule slot_superseded [OF inv]) simp_all
  then show ?thesis using inv by (simp add: syncThread_def Let_def)
qed

lemma slot_settle:
  assumes "slot_inv {g} r"
  shows "slot_inv {} (settleNewest g r)"
proof -
  have "slot_inv {} r" if "cr_newestInFlight r \<noteq> Some g"
    using assms that by (auto simp: slot_inv_def)
  moreover have "slot_inv {} (r\<lparr>cr_newestInFlight := None, cr_newestPending := False\<rparr>)"
    using assms by (auto simp: slot_inv_def)
  ultimately show ?thesis by (simp add: settleNewest_def slot_start Let_def)
qed

lemma slot_settles: "slot_inv {} r \<Longrightarrow> slot_inv {} (newestSettles r)"
proof (cases "cr_settling r")
  case (Cons g rest)
  assume "slot_inv {} r"
  then have "slot_inv {g} (r\<lparr>cr_settling := rest\<rparr>)" using Cons by (auto simp: slot_inv_def)
  then show ?thesis using Cons by (simp add: newestSettles_def slot_settle)
qed (simp add: newestSettles_def)

lemma slot_apply [simp]: "slot_inv S r \<Longrightarrow> slot_inv S (applyNewest source page key g r)"
  by (simp add: applyNewest_def)

lemma slot_fail [simp]: "slot_inv S r \<Longrightarrow> slot_inv S (failNewest key g r)"
  by (simp add: failNewest_def)

lemma apply_settling: "cr_settling (applyNewest source page key g r) = cr_settling r"
  by (simp add: applyNewest_def)

text \<open>A read that was answered gives up the slot later, one that was rejected at once.\<close>

lemma slot_answered: "slot_inv {} r \<Longrightarrow> slot_inv {} (newestAnswered source g answer r)"
proof (cases "map_get (cr_newestRequests r) g")
  case (Some q)
  assume inv: "slot_inv {} r"
  obtain key report where q: "q = (key, report)" by (cases q)
  define r0 where "r0 = r\<lparr>cr_newestRequests := map_delete g (cr_newestRequests r)\<rparr>"
  have r0: "slot_inv {g} r0" using inv Some by (auto simp: slot_inv_def r0_def)
  then have "slot_inv {} (settleNewest g (failNewest key g r0))" "slot_inv {} (settleNewest g r0)" by (simp_all add: slot_settle)
  moreover have "slot_inv {} (v\<lparr>cr_settling := cr_settling v @ [g]\<rparr>)" if "slot_inv {g} v" for v
    using that by (auto simp: slot_inv_def)
  ultimately show ?thesis using Some q r0 by (simp add: newestAnswered_def r0_def [symmetric] Let_def split: sum.split)
qed (simp add: newestAnswered_def)

lemma slot_directory [simp]:
  assumes "slot_inv S r"
  shows "slot_inv S (list_failed key g err r)" "slot_inv S (ask_page g q r)" "slot_inv S (fetchList key g r)" "slot_inv S (listAnswered g answer r)"
    "slot_inv S (olderAnswered g older r)" "slot_inv S (snd (loadOlder r))"
proof -
  have failed: "slot_inv S (list_failed key g err v)" if "slot_inv S v" for key g err v using that by (simp add: list_failed_def)
  have asked: "slot_inv S (ask_page g q v)" if "slot_inv S v" for g q v using that failed by (simp add: ask_page_def split: sum.split)
  show "slot_inv S (list_failed key g err r)" "slot_inv S (ask_page g q r)" "slot_inv S (fetchList key g r)" "slot_inv S (listAnswered g answer r)"
    "slot_inv S (olderAnswered g older r)" "slot_inv S (snd (loadOlder r))"
    using assms failed asked
    by (simp_all add: fetchList_def listAnswered_def applyListUnavailable_def olderAnswered_def loadOlder_def fetchOlder_def Let_def
        split: option.split sum.split prod.split)
qed

lemma slot_advanced:
  assumes "slot_inv S r" "cr_newestInFlight v = cr_newestInFlight r" "cr_newestPending v = cr_newestPending r"
    "cr_newestGeneration r \<le> cr_newestGeneration v" "cr_newestRequests v = cr_newestRequests r" "cr_settling v = cr_settling r"
  shows "slot_inv S v"
  using assms by (auto simp: slot_inv_def intro: le_trans)

lemma slot_moved [simp]: "slot_inv S r \<Longrightarrow> slot_inv S (moved ctx key q r)"
  unfolding moved_def Let_def by (rule slot_parts(1) [OF slot_parts(2)], erule slot_advanced) simp_all

lemma slot_revoked [simp]: "slot_inv S r \<Longrightarrow> slot_inv S (revoked ctx q r)"
  unfolding revoked_def Let_def by (erule slot_superseded) simp_all

lemma slot_rearm [simp]: "slot_inv S r \<Longrightarrow> slot_inv S (rearm k r)"
  by (simp add: rearm_def Let_def)

lemma slot_context [simp]: "slot_inv S r \<Longrightarrow> slot_inv S (setContext source ctx r)"
  by (rule setContext_rule) simp_all

lemma slot_dispose [simp]: "slot_inv S r \<Longrightarrow> slot_inv S (dispose_conversation r)"
  unfolding dispose_conversation_def by (rule slot_parts(17) [OF slot_parts(2)], erule slot_superseded) simp_all

lemma slot_step: "slot_inv {} r \<Longrightarrow> slot_inv {} (conversation_step r e)"
  by (cases e) (simp_all add: select_def reload_def slot_answered slot_settles intervalFires_def split: option.split)

interpretation slot: event_machine conversation_step "slot_inv {}"
  by unfold_locales (rule slot_step)

section \<open>The published snapshot\<close>

definition published :: "conversation_runtime \<Rightarrow> bool" where
  "published r \<longleftrightarrow> cr_snapshot r = shown_snapshot r"

lemma published_emit [simp]: "published (emit r)"
  by (simp only: published_def snapshot_emit shown_same [OF core_emit])

lemma snapshot_kept [simp]:
  "cr_snapshot (tell_cr c r) = cr_snapshot r" "cr_snapshot (stopRefresh r) = cr_snapshot r" "cr_snapshot (requestNewest report r) = cr_snapshot r"
  "cr_snapshot (poll r) = cr_snapshot r" "cr_snapshot (reloadNewest r) = cr_snapshot r" "cr_snapshot (settleNewest g r) = cr_snapshot r"
  "cr_snapshot (pushSignal n r) = cr_snapshot r" "cr_snapshot (syncRefresh source r) = cr_snapshot r"
proof -
  show tell: "cr_snapshot (tell_cr c r) = cr_snapshot r" for c r by (simp add: tell_cr_def)
  show stop: "cr_snapshot (stopRefresh r) = cr_snapshot r" for r by (simp add: stopRefresh_def tell Let_def split: option.split)
  have start: "cr_snapshot (startNewest report r) = cr_snapshot r" for report r by (simp add: startNewest_def tell Let_def split: option.split)
  show request: "cr_snapshot (requestNewest report r) = cr_snapshot r" for report r by (simp add: requestNewest_def start)
  show poll: "cr_snapshot (poll r) = cr_snapshot r" for r by (simp add: poll_def request)
  show "cr_snapshot (reloadNewest r) = cr_snapshot r" by (simp add: reloadNewest_def request)
  show "cr_snapshot (settleNewest g r) = cr_snapshot r" by (simp add: settleNewest_def start Let_def)
  show signal: "cr_snapshot (pushSignal n r) = cr_snapshot r" for n r by (simp add: pushSignal_def poll)
  have signals: "cr_snapshot ((pushSignal n ^^ k) r) = cr_snapshot r" for n k r by (induction k arbitrary: r) (simp_all add: signal)
  have subscribe: "cr_snapshot (subscribe_push source replacing target ctx r) = cr_snapshot r" for source replacing target ctx r
    by (simp add: subscribe_push_def signals poll tell Let_def)
  show "cr_snapshot (syncRefresh source r) = cr_snapshot r"
    by (simp add: syncRefresh_def startRefresh_def subscribe stop tell Let_def split: option.split refresh_policy.split)
qed

lemma published_core: "core v = core r \<Longrightarrow> cr_snapshot v = cr_snapshot r \<Longrightarrow> published v = published r"
  unfolding published_def by (simp only: shown_same [of v r])

lemma published_parts [simp]:
  "published (tell_cr c r) = published r" "published (stopRefresh r) = published r" "published (requestNewest report r) = published r"
  "published (poll r) = published r" "published (reloadNewest r) = published r" "published (settleNewest g r) = published r"
  "published (pushSignal n r) = published r" "published (syncRefresh source r) = published r"
  by (rule published_core; simp only: core_tell core_stop core_start core_refresh snapshot_kept)+

lemma published_cong:
  assumes "cr_snapshot v = cr_snapshot r" "cr_chosen v = cr_chosen r" "cr_contextKey v = cr_contextKey r" "cr_list v = cr_list r"
    "cr_thread v = cr_thread r" "cr_positions v = cr_positions r" "cr_identity v = cr_identity r"
  shows "published v = published r"
  unfolding published_def shown_snapshot_def open_id_def conversationKey_def Let_def assms ..

lemma published_updates [simp]:
  "published (r\<lparr>cr_newestInFlight := a1\<rparr>) = published r" "published (r\<lparr>cr_newestPending := a2\<rparr>) = published r"
  "published (r\<lparr>cr_newestRequests := a3\<rparr>) = published r" "published (r\<lparr>cr_listRequests := a4\<rparr>) = published r"
  "published (r\<lparr>cr_olderRequests := a5\<rparr>) = published r" "published (r\<lparr>cr_listGeneration := a6\<rparr>) = published r"
  "published (r\<lparr>cr_newestGeneration := a7\<rparr>) = published r" "published (r\<lparr>cr_olderGeneration := a8\<rparr>) = published r"
  "published (r\<lparr>cr_listeners := a9\<rparr>) = published r" "published (r\<lparr>cr_context := a10\<rparr>) = published r"
  "published (r\<lparr>cr_requestKey := a11\<rparr>) = published r" "published (r\<lparr>cr_disposed := a12\<rparr>) = published r"
  "published (r\<lparr>cr_settling := a13\<rparr>) = published r"
  by (rule published_cong; simp)+

lemma published_directory [simp]:
  assumes "published r"
  shows "published (list_failed key g err r)" "published (ask_page g q r)" "published (fetchList key g r)" "published (list_taken g r)"
proof -
  have failed: "published (list_failed key g err r)" for key g err using assms by (simp add: list_failed_def)
  then have asked: "published (ask_page g q r)" for g q using assms by (simp add: ask_page_def split: sum.split)
  then show "published (fetchList key g r)" using assms by (simp add: fetchList_def split: option.split)
  show "published (list_failed key g err r)" "published (ask_page g q r)" by (rule failed, rule asked)
  show "published (list_taken g r)" using assms by (simp add: list_taken_def)
qed

lemma published_context [simp]: "published r \<Longrightarrow> published (setContext source ctx r)"
  by (rule setContext_rule) (simp_all add: rearm_def revoked_def moved_def Let_def)

lemma published_step: "published r \<Longrightarrow> published (conversation_step r e)"
proof (cases e)
  case (ListAnswered g answer)
  assume "published r"
  have "published (listAnswered g answer r)"
    by (rule listAnswered_rule) (simp_all add: applyListUnavailable_def \<open>published r\<close>)
  then show ?thesis using ListAnswered by simp
next
  case (NewestAnswered source g answer)
  assume "published r"
  then show ?thesis using NewestAnswered
    by (simp add: newestAnswered_def applyNewest_def failNewest_def Let_def split: option.split sum.split)
next
  case NewestSettles
  assume "published r"
  then show ?thesis using NewestSettles by (simp add: newestSettles_def split: list.split)
qed (simp_all add: select_def reload_def loadOlder_def fetchOlder_def olderAnswered_def dispose_conversation_def intervalFires_def Let_def
    split: option.split sum.split)

lemma published_new [simp]: "published (new_conversation_runtime ad i)"
  by (simp add: published_def new_conversation_runtime_def shown_snapshot_def EMPTY_SNAPSHOT_def EMPTY_LIST_def EMPTY_THREAD_def
      emptyPositions_def open_id_def conversationKey_def itemsOf_def hasOlder_def skippedOf_def)

interpretation snapshot: event_machine conversation_step published
  by unfold_locales (rule published_step)

end
