(* ===== verification/Reader_Claims.thy ===== *)
theory Reader_Claims
  imports Reader_State
begin

text \<open>
  What the requests on their way are for: a request of the current generation belongs to the open context and conversation.
\<close>

section \<open>What is open\<close>

text \<open>The conversation that is loaded is the open one, or nothing is loaded and nothing is held.\<close>

definition opened :: "conversation_runtime \<Rightarrow> bool" where
  "opened r \<longleftrightarrow> cr_contextKey r = map_option (ad_contextKey (cr_adapter r)) (cr_context r)
     \<and> (cr_contextKey r = None \<longrightarrow> cr_list r = EMPTY_LIST)
     \<and> (cr_loadedId r \<noteq> None \<longrightarrow> cr_loadedId r = open_id r)
     \<and> (cr_loadedId r = None \<longrightarrow> cr_positions r = emptyPositions \<and> cr_thread r = EMPTY_THREAD)"

text \<open>A request of the current generation belongs to the open context, a read to the loaded conversation.\<close>

definition current_only :: "(nat, 'q) jsmap \<Rightarrow> nat \<Rightarrow> ('q \<Rightarrow> bool) \<Rightarrow> bool" where
  "current_only m n ok \<longleftrightarrow> (\<forall>g q. map_get m g = Some q \<longrightarrow> g \<le> n \<and> (g = n \<longrightarrow> ok q))"

lemma current_later [intro]: "current_only m n ok \<Longrightarrow> n < n' \<Longrightarrow> current_only m n' ok'"
  by (fastforce simp: current_only_def)

lemma current_set [intro]: "current_only m n ok \<Longrightarrow> n \<le> n' \<Longrightarrow> ok' q \<Longrightarrow> current_only (map_set n' q m) n' ok'"
  by (fastforce simp: current_only_def)

lemma current_delete [intro]: "current_only m n ok \<Longrightarrow> current_only (map_delete g m) n ok"
  by (simp add: current_only_def)

lemma currentD: "current_only m n ok \<Longrightarrow> map_get m g = Some q \<Longrightarrow> g \<le> n \<and> (g = n \<longrightarrow> ok q)"
  by (simp add: current_only_def)

definition list_claim :: "string option \<Rightarrow> list_request \<Rightarrow> bool" where
  "list_claim key q \<longleftrightarrow> key = None \<or> key = Some (lq_key q)"

definition newest_claim :: "string option \<Rightarrow> string option \<Rightarrow> string \<times> bool \<Rightarrow> bool" where
  "newest_claim key loaded q \<longleftrightarrow> key = Some (fst q) \<and> loaded \<noteq> None"

definition older_claim :: "string option \<Rightarrow> string option \<Rightarrow> string \<Rightarrow> bool" where
  "older_claim key loaded q \<longleftrightarrow> key = Some q \<and> loaded \<noteq> None"

definition claims :: "conversation_runtime \<Rightarrow> bool" where
  "claims r \<longleftrightarrow>
     current_only (cr_listRequests r) (cr_listGeneration r) (list_claim (cr_contextKey r))
     \<and> current_only (cr_newestRequests r) (cr_newestGeneration r) (newest_claim (cr_contextKey r) (cr_loadedId r))
     \<and> current_only (cr_olderRequests r) (cr_olderGeneration r) (older_claim (cr_contextKey r) (cr_loadedId r))"

definition well_placed :: "conversation_runtime \<Rightarrow> bool" where
  "well_placed r \<longleftrightarrow> opened r \<and> claims r"

lemma open_id_updates [simp]:
  "open_id (r\<lparr>cr_thread := a1\<rparr>) = open_id r" "open_id (r\<lparr>cr_positions := a2\<rparr>) = open_id r" "open_id (r\<lparr>cr_loadedId := a3\<rparr>) = open_id r"
  "open_id (r\<lparr>cr_newestGeneration := a4\<rparr>) = open_id r" "open_id (r\<lparr>cr_olderGeneration := a5\<rparr>) = open_id r"
  "open_id (r\<lparr>cr_listGeneration := a6\<rparr>) = open_id r" "open_id (r\<lparr>cr_newestInFlight := a7\<rparr>) = open_id r"
  "open_id (r\<lparr>cr_newestPending := a8\<rparr>) = open_id r" "open_id (r\<lparr>cr_newestRequests := a9\<rparr>) = open_id r"
  "open_id (r\<lparr>cr_olderRequests := a10\<rparr>) = open_id r" "open_id (r\<lparr>cr_listRequests := a11\<rparr>) = open_id r"
  "open_id (r\<lparr>cr_settling := a12\<rparr>) = open_id r" "open_id (r\<lparr>cr_listeners := a13\<rparr>) = open_id r"
  "open_id (r\<lparr>cr_disposed := a14\<rparr>) = open_id r" "open_id (r\<lparr>cr_context := a15\<rparr>) = open_id r"
  "open_id (r\<lparr>cr_requestKey := a16\<rparr>) = open_id r"
  by (simp_all add: open_id_def cong: option.case_cong)

lemma opened_core: "core w = core v \<Longrightarrow> opened w = opened v"
proof -
  assume same: "core w = core v"
  show ?thesis unfolding opened_def core_fields [OF same] wanted_same(3) [OF same] ..
qed

lemma opened_updates [simp]:
  "opened (r\<lparr>cr_listRequests := a1\<rparr>) = opened r" "opened (r\<lparr>cr_listGeneration := a2\<rparr>) = opened r" "opened (r\<lparr>cr_newestRequests := a3\<rparr>) = opened r"
  "opened (r\<lparr>cr_olderRequests := a4\<rparr>) = opened r" "opened (r\<lparr>cr_settling := a5\<rparr>) = opened r" "opened (r\<lparr>cr_listeners := a6\<rparr>) = opened r"
  "opened (r\<lparr>cr_newestGeneration := a7\<rparr>) = opened r" "opened (r\<lparr>cr_olderGeneration := a8\<rparr>) = opened r"
  "opened (r\<lparr>cr_newestInFlight := a9\<rparr>) = opened r" "opened (r\<lparr>cr_newestPending := a10\<rparr>) = opened r"
  "opened (r\<lparr>cr_disposed := a11\<rparr>) = opened r" "opened (r\<lparr>cr_requestKey := a12\<rparr>) = opened r" "opened (tell_cr c r) = opened r"
  by (simp_all add: opened_def)

lemma placed_quiet: "quiet w v \<Longrightarrow> well_placed v \<Longrightarrow> well_placed w"
proof -
  assume "quiet w v" "well_placed v"
  then have same: "core w = core v" "reads w = reads v" by (simp_all add: quiet_def)
  show ?thesis using \<open>well_placed v\<close> unfolding well_placed_def opened_core [OF same(1)] claims_def
    unfolding core_fields [OF same(1)] reads_fields [OF same(2)] .
qed

lemma placed_emit [simp]: "well_placed v \<Longrightarrow> well_placed (emit v)"
  by (rule placed_quiet [OF quiet_emit])

lemma placed_stop [simp]: "well_placed v \<Longrightarrow> well_placed (stopRefresh v)"
  by (rule placed_quiet [OF quiet_stop])

lemma placed_start [simp]: "well_placed v \<Longrightarrow> well_placed (startNewest report v)"
proof -
  assume placed: "well_placed v"
  have "claims (startNewest report v)"
    using placed by (auto simp: well_placed_def claims_def startNewest_def tell_cr_def newest_claim_def Let_def split: option.split)
  then show ?thesis using placed opened_core [OF core_start(1) [of report v]] by (simp add: well_placed_def)
qed

lemma placed_slot [simp]: "well_placed v \<Longrightarrow> well_placed (v\<lparr>cr_newestInFlight := a\<rparr>)" "well_placed v \<Longrightarrow> well_placed (v\<lparr>cr_newestPending := b\<rparr>)"
  by (simp_all add: well_placed_def claims_def opened_core [OF core_updates(1)] opened_core [OF core_updates(2)])

lemma placed_request [simp]: "well_placed v \<Longrightarrow> well_placed (requestNewest report v)" "well_placed v \<Longrightarrow> well_placed (poll v)"
  "well_placed v \<Longrightarrow> well_placed (reloadNewest v)" "well_placed v \<Longrightarrow> well_placed (settleNewest g v)"
  "well_placed v \<Longrightarrow> well_placed (pushSignal n v)"
  by (simp_all add: requestNewest_def poll_def reloadNewest_def settleNewest_def pushSignal_def Let_def)

lemma placed_sync [simp]: "well_placed v \<Longrightarrow> well_placed (syncRefresh source v)"
  by (rule refresh_keeps [of well_placed]) (simp, erule placed_quiet)

lemma placed_reset:
  assumes "claims v" "cr_contextKey v = map_option (ad_contextKey (cr_adapter v)) (cr_context v)" "cr_contextKey v = None \<longrightarrow> cr_list v = EMPTY_LIST"
  shows "well_placed (thread_reset (open_id v) v)"
proof -
  define w where "w = v\<lparr>cr_loadedId := open_id v, cr_newestGeneration := Suc (cr_newestGeneration v),
     cr_olderGeneration := Suc (cr_olderGeneration v), cr_newestInFlight := None, cr_newestPending := False,
     cr_positions := emptyPositions, cr_thread := EMPTY_THREAD\<rparr>"
  have "open_id w = open_id v" by (simp add: w_def)
  then have "opened w" using assms(2,3) by (simp add: opened_def w_def)
  moreover have "claims w" using assms(1) by (auto simp: claims_def w_def)
  ultimately have "well_placed w" by (simp add: well_placed_def)
  then show ?thesis by (simp add: thread_reset_def w_def [symmetric])
qed

lemma placed_thread [simp]:
  assumes "claims v" "cr_contextKey v = map_option (ad_contextKey (cr_adapter v)) (cr_context v)" "cr_contextKey v = None \<longrightarrow> cr_list v = EMPTY_LIST"
    "cr_loadedId v = None \<longrightarrow> cr_positions v = emptyPositions \<and> cr_thread v = EMPTY_THREAD"
  shows "well_placed (syncThread v)"
proof (rule syncThread_rule)
  assume "open_id v = cr_loadedId v"
  then show "well_placed v" using assms by (simp add: well_placed_def opened_def)
qed (use placed_reset [OF assms(1-3)] in \<open>auto simp del: placed_request intro: placed_request\<close>)

lemma placed_updates [simp]:
  assumes "well_placed v"
  shows "well_placed (v\<lparr>cr_newestRequests := map_delete g (cr_newestRequests v)\<rparr>)" "well_placed (list_taken g v)"
    "well_placed (v\<lparr>cr_olderRequests := map_delete g (cr_olderRequests v)\<rparr>)" "well_placed (v\<lparr>cr_settling := a1\<rparr>)"
    "well_placed (v\<lparr>cr_listeners := a2\<rparr>)"
  using assms by (auto simp: well_placed_def opened_def claims_def list_taken_def)

lemma placed_content:
  assumes "well_placed v" "cr_loadedId v \<noteq> None"
  shows "well_placed (v\<lparr>cr_thread := t\<rparr>)" "well_placed (v\<lparr>cr_positions := p, cr_thread := t\<rparr>)"
  using assms by (auto simp: well_placed_def opened_def claims_def)

lemma newest_loaded:
  assumes "well_placed r" "map_get (cr_newestRequests r) g = Some (key, report)" "wanted key g (cr_newestGeneration r) r"
  shows "cr_loadedId r \<noteq> None" "cr_contextKey r = Some key" "g = cr_newestGeneration r"
proof -
  have claim: "current_only (cr_newestRequests r) (cr_newestGeneration r) (newest_claim (cr_contextKey r) (cr_loadedId r))"
    using assms(1) by (simp add: well_placed_def claims_def)
  show "cr_loadedId r \<noteq> None" "cr_contextKey r = Some key" "g = cr_newestGeneration r"
    using currentD [OF claim assms(2)] assms(3) by (simp_all add: wanted_def newest_claim_def)
qed

lemma older_loaded:
  assumes "well_placed r" "map_get (cr_olderRequests r) g = Some key" "wanted key g (cr_olderGeneration r) r"
  shows "cr_loadedId r \<noteq> None" "cr_contextKey r = Some key" "g = cr_olderGeneration r"
proof -
  have claim: "current_only (cr_olderRequests r) (cr_olderGeneration r) (older_claim (cr_contextKey r) (cr_loadedId r))"
    using assms(1) by (simp add: well_placed_def claims_def)
  show "cr_loadedId r \<noteq> None" "cr_contextKey r = Some key" "g = cr_olderGeneration r"
    using currentD [OF claim assms(2)] assms(3) by (simp_all add: wanted_def older_claim_def)
qed

lemma placed_apply:
  assumes "well_placed r" "wanted key g (cr_newestGeneration r) r \<Longrightarrow> cr_loadedId r \<noteq> None"
  shows "well_placed (applyNewest source page key g r)" "well_placed (failNewest key g r)"
  using assms by (simp_all add: applyNewest_def failNewest_def placed_content)

lemma placed_newest [simp]: "well_placed r \<Longrightarrow> well_placed (newestAnswered source g answer r)"
proof (cases "map_get (cr_newestRequests r) g")
  case (Some q)
  assume placed: "well_placed r"
  obtain key report where q: "q = (key, report)" by (cases q)
  define r0 where "r0 = r\<lparr>cr_newestRequests := map_delete g (cr_newestRequests r)\<rparr>"
  have "wanted key g (cr_newestGeneration r0) r0 = wanted key g (cr_newestGeneration r) r" by (simp add: wanted_def r0_def)
  then have loaded: "wanted key g (cr_newestGeneration r0) r0 \<Longrightarrow> cr_loadedId r0 \<noteq> None"
    using newest_loaded(1) [OF placed] Some q by (simp add: r0_def)
  have "well_placed r0" using placed by (simp add: r0_def)
  then show ?thesis using Some q placed_apply [OF _ loaded] by (simp add: newestAnswered_def r0_def [symmetric] Let_def split: sum.split)
qed (simp add: newestAnswered_def)

lemma placed_older [simp]: "well_placed r \<Longrightarrow> well_placed (olderAnswered g answer r)"
proof (cases "map_get (cr_olderRequests r) g")
  case (Some key)
  assume placed: "well_placed r"
  define r0 where "r0 = r\<lparr>cr_olderRequests := map_delete g (cr_olderRequests r)\<rparr>"
  have "wanted key g (cr_olderGeneration r0) r0 = wanted key g (cr_olderGeneration r) r" by (simp add: wanted_def r0_def)
  then have loaded: "wanted key g (cr_olderGeneration r0) r0 \<Longrightarrow> cr_loadedId r0 \<noteq> None"
    using older_loaded(1) [OF placed] Some by (simp add: r0_def)
  have "well_placed r0" using placed by (simp add: r0_def)
  then show ?thesis using Some loaded
    by (simp add: olderAnswered_def r0_def [symmetric] Let_def placed_content split: sum.split)
qed (simp add: olderAnswered_def)

lemma placed_load [simp]:
  assumes placed: "well_placed r"
  shows "well_placed (snd (loadOlder r))"
proof (cases "cr_contextKey r = None \<or> pn_cursor (cr_positions r) = None \<or> ts_loadingOlder (cr_thread r) \<or> cr_disposed r \<or> cr_context r = None")
  case False
  then have loaded: "cr_loadedId r \<noteq> None" using placed by (auto simp: well_placed_def opened_def emptyPositions_def)
  obtain key c i where at: "cr_contextKey r = Some key" "cr_context r = Some c" "cr_loadedId r = Some i" using False loaded by auto
  define v where "v = emit (r\<lparr>cr_olderGeneration := Suc (cr_olderGeneration r), cr_thread := (cr_thread r)\<lparr>ts_loadingOlder := True, ts_olderError := None\<rparr>\<rparr>)"
  have "well_placed (r\<lparr>cr_olderGeneration := Suc (cr_olderGeneration r), cr_thread := t\<rparr>)" for t
    using placed loaded by (auto simp: well_placed_def opened_def claims_def)
  then have v: "well_placed v" by (simp add: v_def)
  have fields: "cr_olderGeneration v = Suc (cr_olderGeneration r)" "cr_contextKey v = Some key" "cr_loadedId v = Some i" using at by (simp_all add: v_def)
  obtain cursor where cursor: "pn_cursor (cr_positions r) = Some cursor" using False by auto
  have "snd (loadOlder r) = tell_cr (OlderAsked (Suc (cr_olderGeneration r)) c i cursor)
      (v\<lparr>cr_olderRequests := map_set (Suc (cr_olderGeneration r)) key (cr_olderRequests v)\<rparr>)"
    using False at cursor by (simp add: loadOlder_def fetchOlder_def v_def Let_def)
  moreover have "well_placed (tell_cr a (v\<lparr>cr_olderRequests := map_set (Suc (cr_olderGeneration r)) key (cr_olderRequests v)\<rparr>))" for a
  proof -
    have "current_only (cr_olderRequests v) (Suc (cr_olderGeneration r)) (older_claim (Some key) (Some i))"
      using v unfolding well_placed_def claims_def fields by blast
    then have "current_only (map_set (Suc (cr_olderGeneration r)) key (cr_olderRequests v)) (Suc (cr_olderGeneration r)) (older_claim (Some key) (Some i))"
      by (rule current_set) (simp_all add: older_claim_def)
    then show ?thesis using v by (simp add: well_placed_def claims_def fields)
  qed
  ultimately show ?thesis by simp
qed (use placed in \<open>auto simp: loadOlder_def split: option.split\<close>)

lemma placed_failed [simp]: "well_placed r \<Longrightarrow> well_placed (list_failed key g err r)"
proof -
  assume placed: "well_placed r"
  define l where "l = (cr_list r)\<lparr>ls_loading := False, ls_error := Some (the_default ''Unable to list the conversations'' err)\<rparr>"
  have "open_id (r\<lparr>cr_list := l\<rparr>) = open_id r" by (simp add: open_id_def l_def cong: option.case_cong)
  then have "cr_contextKey r = Some key \<Longrightarrow> well_placed (r\<lparr>cr_list := l\<rparr>)"
    using placed by (auto simp: well_placed_def opened_def claims_def)
  then show ?thesis using placed by (simp add: list_failed_def l_def wanted_def)
qed

lemma placed_ask [simp]:
  assumes placed: "well_placed r" and claim: "cr_contextKey r = Some (lq_key q)" and now: "g = cr_listGeneration r"
  shows "well_placed (ask_page g q r)"
proof -
  have "well_placed (tell_cr c (r\<lparr>cr_listRequests := map_set g q' (cr_listRequests r)\<rparr>))" if "lq_key q' = lq_key q" for c q'
  proof -
    have "current_only (map_set g q' (cr_listRequests r)) (cr_listGeneration r) (list_claim (cr_contextKey r))"
      unfolding now by (rule current_set) (use placed claim that in \<open>auto simp: well_placed_def claims_def list_claim_def\<close>)
    then show ?thesis using placed by (simp add: well_placed_def claims_def)
  qed
  then show ?thesis using placed by (simp add: ask_page_def split: sum.split)
qed

lemma placed_fetch [simp]: "well_placed r \<Longrightarrow> cr_contextKey r = Some key \<Longrightarrow> g = cr_listGeneration r \<Longrightarrow> well_placed (fetchList key g r)"
  by (simp add: fetchList_def split: option.split)

lemma placed_list_generation [simp]:
  assumes "well_placed r" "cr_listGeneration r < g"
  shows "well_placed (r\<lparr>cr_listGeneration := g\<rparr>)"
proof -
  have "current_only (cr_listRequests r) g (list_claim (cr_contextKey r))"
    by (rule current_later [of _ "cr_listGeneration r" "list_claim (cr_contextKey r)"]) (use assms in \<open>simp_all add: well_placed_def claims_def\<close>)
  then show ?thesis using assms(1) by (simp add: well_placed_def claims_def)
qed

lemma placed_taken:
  assumes "well_placed r" "map_get (cr_listRequests r) g = Some q" "wanted (lq_key q) g (cr_listGeneration r) r"
  shows "cr_contextKey r = Some (lq_key q)" "g = cr_listGeneration r"
  using assms by (simp_all add: wanted_def)

lemma taken_fields [simp]: "cr_contextKey (list_taken g r) = cr_contextKey r" "cr_listGeneration (list_taken g r) = cr_listGeneration r"
  by (simp_all add: list_taken_def)

lemma placed_directory:
  assumes "well_placed r" "cr_contextKey r \<noteq> None"
  shows "well_placed (syncThread (r\<lparr>cr_list := l\<rparr>))"
  by (rule placed_thread) (use assms in \<open>auto simp: well_placed_def opened_def claims_def\<close>)

lemma placed_listed [simp]: "well_placed r \<Longrightarrow> well_placed (listAnswered g answer r)"
proof (rule listAnswered_rule)
  fix q a cursor assume placed: "well_placed r" and q: "map_get (cr_listRequests r) g = Some q" "wanted (lq_key q) g (cr_listGeneration r) r"
  show "well_placed (ask_page g (q\<lparr>lq_aggregation := a, lq_cursor := cursor\<rparr>) (list_taken g r))"
    using placed_taken [OF placed q] placed by (intro placed_ask) simp_all
next
  fix q res assume placed: "well_placed r" and q: "map_get (cr_listRequests r) g = Some q" "wanted (lq_key q) g (cr_listGeneration r) r"
  show "well_placed (applyListUnavailable res (list_taken g r))"
    unfolding applyListUnavailable_def
    by (intro placed_emit placed_directory placed_updates placed) (use placed_taken [OF placed q] in simp)
next
  fix q a assume placed: "well_placed r" and q: "map_get (cr_listRequests r) g = Some q" "wanted (lq_key q) g (cr_listGeneration r) r"
  show "well_placed (emit (syncThread ((list_taken g r)\<lparr>cr_list := \<lparr>ls_state = Some DirectoryReady, ls_conversations = ag_conversations a,
      ls_bindingId = ag_bindingId a, ls_loading = False, ls_error = None\<rparr>\<rparr>)))"
    by (intro placed_emit placed_directory placed_updates placed) (use placed_taken [OF placed q] in simp)
qed simp_all

lemma placed_revoked:
  assumes "well_placed r" "cr_contextKey r = map_option (ad_contextKey (cr_adapter r)) ctx"
  shows "well_placed (revoked ctx q r)"
proof -
  have "opened (revoked ctx q r)" using assms by (auto simp: revoked_def opened_def well_placed_def)
  moreover have "claims (revoked ctx q r)" using assms(1) by (auto simp: revoked_def claims_def well_placed_def)
  ultimately show ?thesis by (simp add: well_placed_def)
qed

lemma placed_cleared [simp]: "well_placed r \<Longrightarrow> well_placed (moved None None None r)"
proof -
  assume placed: "well_placed r"
  then have "current_only (cr_listRequests r) (cr_listGeneration r) (list_claim None)"
    by (simp add: well_placed_def claims_def current_only_def list_claim_def)
  then show ?thesis using placed by (auto simp: well_placed_def opened_def claims_def moved_def Let_def)
qed

lemma placed_entered:
  "well_placed r \<Longrightarrow> k = ad_contextKey (cr_adapter r) c \<Longrightarrow>
    well_placed ((moved (Some c) (Some k) q r)\<lparr>cr_listGeneration := Suc (cr_listGeneration (moved (Some c) (Some k) q r))\<rparr>)"
  by (auto simp: well_placed_def opened_def claims_def moved_def Let_def)

lemma placed_kept: "well_placed r \<Longrightarrow> cr_contextKey r = map_option (ad_contextKey (cr_adapter r)) ctx \<Longrightarrow>
    well_placed (r\<lparr>cr_disposed := d, cr_context := ctx\<rparr>)"
  by (auto simp: well_placed_def opened_def claims_def)

lemma fetch_fields [simp]: "cr_contextKey (fetchList k g r) = cr_contextKey r" "cr_loadedId (fetchList k g r) = cr_loadedId r"
  by (simp_all add: fetchList_def ask_page_def list_failed_def split: option.split sum.split)

lemma revoked_fields [simp]: "cr_contextKey (revoked ctx q r) = cr_contextKey r" "cr_loadedId (revoked ctx q r) = cr_loadedId r"
  "cr_context (revoked ctx q r) = ctx"
  by (simp_all add: revoked_def Let_def)

lemma moved_fields [simp]: "cr_contextKey (moved ctx k q r) = k" "cr_loadedId (moved ctx k q r) = None" "cr_context (moved ctx k q r) = ctx"
  by (simp_all add: moved_def Let_def)

lemma placed_context [simp]: "well_placed r \<Longrightarrow> well_placed (setContext source ctx r)"
proof (rule setContext_rule)
  fix c k q assume placed: "well_placed r" and c: "ctx = Some c" "k = ad_contextKey (cr_adapter r) c"
  show "well_placed (syncRefresh source (rearm k (revoked ctx q r)))" if "cr_contextKey r = Some k"
    using placed_revoked [OF placed, of ctx q] c that by (simp add: rearm_def Let_def)
  show "well_placed (fetchList k (Suc (cr_listGeneration (moved ctx (Some k) q r)))
      ((moved ctx (Some k) q r)\<lparr>cr_listGeneration := Suc (cr_listGeneration (moved ctx (Some k) q r))\<rparr>))"
    using placed_entered [OF placed c(2), of q] c by simp
qed (simp_all add: placed_kept)

lemma placed_dispose [simp]: "well_placed r \<Longrightarrow> well_placed (dispose_conversation r)"
  unfolding dispose_conversation_def
  by (rule placed_updates(5) [OF placed_stop]) (auto simp: well_placed_def claims_def)

lemma placed_select [simp]: "well_placed r \<Longrightarrow> well_placed (select i r)"
proof -
  assume placed: "well_placed r"
  have "well_placed (syncThread (r\<lparr>cr_chosen := c\<rparr>))" for c
    by (rule placed_thread) (use placed in \<open>auto simp: well_placed_def opened_def claims_def\<close>)
  then show ?thesis using placed by (simp add: select_def split: option.split)
qed

lemma placed_reload [simp]: "well_placed r \<Longrightarrow> well_placed (reload r)"
  by (simp add: reload_def split: option.split)

lemma placed_settles [simp]: "well_placed r \<Longrightarrow> well_placed (newestSettles r)"
  by (simp add: newestSettles_def split: list.split)

lemma placed_step: "well_placed r \<Longrightarrow> well_placed (conversation_step r e)"
proof (cases e)
  case (AddListener l)
  then show "well_placed r \<Longrightarrow> ?thesis" by (auto simp: well_placed_def opened_def claims_def)
qed (simp_all add: intervalFires_def)

lemma placed_new [simp]: "well_placed (new_conversation_runtime ad i)"
  by (simp add: well_placed_def opened_def claims_def new_conversation_runtime_def current_only_def)

interpretation placed: event_machine conversation_step well_placed
  by unfold_locales (rule placed_step)

text \<open>
  C35. The state is well formed after any events. The published snapshot is the current one; the context key is the provider's key of the
  context; what is loaded is what is open, and while nothing is loaded nothing is held; a directory is held only under a context.
  The slot for the newest read is never lost: if it is taken, the read that holds it is on its way or about to settle, and a follow-up
  is remembered only behind such a read.
\<close>
theorem reader_state_well_formed:
  "let r = foldl conversation_step (new_conversation_runtime ad n) es
   in cr_snapshot r = shown_snapshot r
      \<and> cr_contextKey r = map_option (ad_contextKey (cr_adapter r)) (cr_context r)
      \<and> (if cr_loadedId r = None then cr_positions r = emptyPositions \<and> cr_thread r = EMPTY_THREAD else cr_loadedId r = open_id r)
      \<and> (if cr_context r = None then cr_list r = EMPTY_LIST else True)
      \<and> (case cr_newestInFlight r of
           None \<Rightarrow> cr_newestPending r = False
         | Some g \<Rightarrow> g \<le> cr_newestGeneration r \<and> (map_get (cr_newestRequests r) g = None) = (g \<in> set (cr_settling r)))"
proof -
  define r where "r = foldl conversation_step (new_conversation_runtime ad n) es"
  have "published r" unfolding r_def by (rule snapshot.run_inv [OF published_new])
  moreover have "well_placed r" unfolding r_def by (rule placed.run_inv [OF placed_new])
  moreover have "slot_inv {} r" unfolding r_def by (rule slot.run_inv) (simp add: slot_inv_def new_conversation_runtime_def)
  ultimately show ?thesis unfolding r_def [symmetric] Let_def
    by (auto simp: published_def well_placed_def opened_def slot_inv_def split: option.split)
qed

end
