(* ===== verification/Reader_Refresh.thy ===== *)
theory Reader_Refresh
  imports Reader_Claims
begin

text \<open>
  The refresh runs exactly while it is wanted, and watches the conversation that is open.
\<close>

section \<open>The refresh alone\<close>

text \<open>The one timer held is armed, the one subscription held is for what is watched, and which of them there is, is the policy's.\<close>

definition refresh_held :: "conversation_runtime \<Rightarrow> bool" where
  "refresh_held r \<longleftrightarrow>
     cr_armed r = (case cr_timer r of None \<Rightarrow> [] | Some t \<Rightarrow> [t])
     \<and> (cr_timer r \<noteq> None \<longrightarrow> cr_refreshArmedFor r \<noteq> None)
     \<and> (\<forall>n. cr_unsubscribePush r = Some n \<longrightarrow> n < length (cr_subscriptions r) \<and> cr_refreshArmedFor r = Some (cr_subscriptions r ! n))
     \<and> (case ad_refresh (cr_adapter r) of
           PollPolicy ms \<Rightarrow> (cr_timer r = None) = (cr_refreshArmedFor r = None) \<and> cr_unsubscribePush r = None
         | PushPolicy \<Rightarrow> cr_timer r = None
         | ManualPolicy \<Rightarrow> cr_timer r = None \<and> cr_unsubscribePush r = None \<and> cr_refreshArmedFor r = None)"

definition refresh_apt :: "conversation_runtime \<Rightarrow> bool" where
  "refresh_apt r \<longleftrightarrow>
     (\<forall>target. cr_refreshArmedFor r = Some target \<longrightarrow> \<not> cr_disposed r \<and> refreshWanted r
        \<and> cr_contextKey r = Some (ra_key target) \<and> cr_loadedId r = Some (ra_conversationId target))
     \<and> (\<forall>ms. ad_refresh (cr_adapter r) = PollPolicy ms \<longrightarrow> \<not> cr_disposed r \<longrightarrow> refreshWanted r \<longrightarrow> cr_timer r \<noteq> None)"

definition refresh_inv :: "conversation_runtime \<Rightarrow> bool" where
  "refresh_inv r \<longleftrightarrow> refresh_held r \<and> refresh_apt r"

lemma held_same: "cr_adapter w = cr_adapter v \<Longrightarrow> refreshing w = refreshing v \<Longrightarrow> refresh_held w = refresh_held v"
proof -
  assume same: "cr_adapter w = cr_adapter v" "refreshing w = refreshing v"
  show ?thesis unfolding refresh_held_def same(1) refreshing_fields [OF same(2)] ..
qed

lemma refresh_cong:
  assumes "cr_adapter w = cr_adapter v" "refreshing w = refreshing v" "cr_disposed w = cr_disposed v" "cr_contextKey w = cr_contextKey v"
    "cr_loadedId w = cr_loadedId v" "refreshWanted w = refreshWanted v"
  shows "refresh_inv w = refresh_inv v"
  unfolding refresh_inv_def held_same [OF assms(1,2)] refresh_apt_def assms refreshing_fields [OF assms(2)] ..

lemma refresh_same:
  assumes "core w = core v" "refreshing w = refreshing v"
  shows "refresh_inv w = refresh_inv v"
  by (rule refresh_cong) (simp_all add: core_fields [OF assms(1)] wanted_same [OF assms(1)] assms(2))

lemma refreshing_stop:
  "refreshing (stopRefresh r) = (None, None, None, (case cr_timer r of None \<Rightarrow> cr_armed r | Some t \<Rightarrow> removeAll t (cr_armed r)),
     cr_timers r, cr_subscriptions r)"
  by (simp add: stopRefresh_def refreshing_def tell_cr_def Let_def split: option.split)

lemma held_stop [simp]: "refresh_held r \<Longrightarrow> refresh_held (stopRefresh r)"
  using refreshing_stop [of r] by (cases "ad_refresh (cr_adapter r)") (auto simp: refresh_held_def refreshing_def split: option.splits)

lemma stopped [simp]: "cr_refreshArmedFor (stopRefresh r) = None" "cr_timer (stopRefresh r) = None"
  using refreshing_stop [of r] by (simp_all add: refreshing_def)

lemma refresh_stopped:
  assumes "refresh_held r" "cr_disposed r \<or> \<not> refreshWanted r"
  shows "refresh_inv (stopRefresh r)"
  using assms by (auto simp: refresh_inv_def refresh_apt_def)

lemma refreshing_subscribe:
  assumes "cr_refreshArmedFor r = Some target"
  shows "refreshing (subscribe_push source replacing target ctx r) =
    (cr_timer r, if ps_throws source then None else Some (length (cr_subscriptions r)), if ps_throws source then None else Some target,
     cr_armed r, cr_timers r, cr_subscriptions r @ [target])"
proof -
  define n where "n = length (cr_subscriptions r)"
  define r1 where "r1 = tell_cr (PushSubscribed n ctx (ra_conversationId target)) (r\<lparr>cr_subscriptions := cr_subscriptions r @ [target]\<rparr>)"
  define r2 where "r2 = (pushSignal n ^^ ps_signals source) r1"
  have "refreshing ((pushSignal n ^^ k) v) = refreshing v" for k v by (induction k arbitrary: v) simp_all
  then have same: "refreshing r2 = refreshing (r\<lparr>cr_subscriptions := cr_subscriptions r @ [target]\<rparr>)" by (simp add: r2_def r1_def)
  have "refreshing (w\<lparr>cr_unsubscribePush := a\<rparr>) = (cr_timer w, a, cr_refreshArmedFor w, cr_armed w, cr_timers w, cr_subscriptions w)" for w a
    by (simp add: refreshing_def)
  then show ?thesis using assms refreshing_fields [OF same]
    by (simp add: subscribe_push_def n_def [symmetric] r1_def [symmetric] r2_def [symmetric] Let_def)
qed

lemma adapter_subscribe [simp]: "cr_adapter (subscribe_push source replacing target ctx r) = cr_adapter r"
  using core_fields(1) [OF core_refresh(1)] by blast

text \<open>Whatever was watched, afterwards the refresh runs if it is wanted and watches what is open.\<close>

lemma refresh_started:
  assumes held: "refresh_held r" and live: "\<not> cr_disposed r" "refreshWanted r"
    and at: "cr_contextKey r = Some key" "cr_loadedId r = Some i" "cr_context r = Some c"
  shows "refresh_inv (startRefresh source r)"
proof -
  define policy where "policy = ad_refresh (cr_adapter r)"
  define target where "target = \<lparr>ra_key = key, ra_conversationId = i,
    ra_sourceKey = (if policy = PushPolicy then Some (ps_sourceKey source c i) else None)\<rparr>"
  define v where "v = startRefresh source r"
  have shape: "v = (if policy = ManualPolicy then stopRefresh r
      else if cr_refreshArmedFor r = Some target then r
      else case policy of
             PollPolicy ms \<Rightarrow>
               let r1 = (stopRefresh r)\<lparr>cr_refreshArmedFor := Some target\<rparr>; t = cr_timers r1
               in tell_cr (IntervalSet t ms) (r1\<lparr>cr_timers := Suc t, cr_armed := t # cr_armed r1, cr_timer := Some t\<rparr>)
           | _ \<Rightarrow> subscribe_push source (cr_refreshArmedFor r \<noteq> None) target c ((stopRefresh r)\<lparr>cr_refreshArmedFor := Some target\<rparr>))"
    unfolding v_def startRefresh_def at prod.case option.case Let_def policy_def [symmetric] target_def [symmetric]
    by (cases policy; simp only: refresh_policy.simps conversation_runtime.simps if_False if_True)
  have core: "core v = core r" by (simp add: v_def)
  note fields = core_fields [OF core] wanted_same(2) [OF core]
  have apt: "refresh_apt v" if "cr_refreshArmedFor v = None \<or> cr_refreshArmedFor v = Some target" "\<And>ms. policy = PollPolicy ms \<Longrightarrow> cr_timer v \<noteq> None"
    using that live at unfolding refresh_apt_def fields policy_def by (auto simp: target_def)
  consider (manual) "policy = ManualPolicy" | (same) "policy \<noteq> ManualPolicy" "cr_refreshArmedFor r = Some target"
    | (poll) ms where "policy = PollPolicy ms" "cr_refreshArmedFor r \<noteq> Some target"
    | (push) "policy = PushPolicy" "cr_refreshArmedFor r \<noteq> Some target"
    by (cases policy) auto
  then have "refresh_held v \<and> refresh_apt v"
  proof cases
    case manual
    then have "v = stopRefresh r" by (simp add: shape)
    then show ?thesis using apt held manual by simp
  next
    case same
    then have "v = r" by (simp add: shape)
    then show ?thesis using apt held same
      by (cases "ad_refresh (cr_adapter r)") (auto simp: refresh_held_def policy_def)
  next
    case poll
    have "refreshing v = (Some (cr_timers r), None, Some target, [cr_timers r], Suc (cr_timers r), cr_subscriptions r)"
      using poll refreshing_stop [of r] held by (auto simp: shape refreshing_def Let_def refresh_held_def split: option.splits)
    then show ?thesis using apt poll core_fields(1) [OF core] by (simp add: refreshing_def refresh_held_def policy_def)
  next
    case push
    define r1 where "r1 = (stopRefresh r)\<lparr>cr_refreshArmedFor := Some target\<rparr>"
    have "v = subscribe_push source (cr_refreshArmedFor r \<noteq> None) target c r1"
      using push by (simp add: shape r1_def)
    then have "refreshing v = (None, if ps_throws source then None else Some (length (cr_subscriptions r)),
        if ps_throws source then None else Some target, [], cr_timers r, cr_subscriptions r @ [target])"
      using refreshing_subscribe [of r1 target source "cr_refreshArmedFor r \<noteq> None" c] refreshing_stop [of r] held
      by (auto simp: r1_def refreshing_def refresh_held_def split: option.splits)
    then show ?thesis using apt push core_fields(1) [OF core] by (auto simp: refreshing_def refresh_held_def policy_def)
  qed
  then show ?thesis by (simp add: refresh_inv_def v_def)
qed

lemma refresh_synced:
  assumes "refresh_held r" "\<not> cr_disposed r" "well_placed r"
  shows "refresh_inv (syncRefresh source r)"
proof (cases "refreshWanted r")
  case True
  then have loaded: "cr_loadedId r \<noteq> None"
    using assms(3) by (auto simp: refreshWanted_def well_placed_def opened_def EMPTY_THREAD_def)
  obtain key c i where "cr_contextKey r = Some key" "cr_loadedId r = Some i" "cr_context r = Some c"
    using assms(3) loaded by (auto simp: well_placed_def opened_def open_id_def EMPTY_LIST_def split: option.splits if_splits)
  then show ?thesis using refresh_started [OF assms(1,2) True] True by (simp add: syncRefresh_def)
qed (use assms in \<open>simp add: syncRefresh_def refresh_stopped\<close>)

section \<open>The refresh among the operations\<close>

lemma refresh_parts [simp]:
  "refresh_inv (emit r) = refresh_inv r" "refresh_inv (requestNewest report r) = refresh_inv r" "refresh_inv (poll r) = refresh_inv r"
  "refresh_inv (reloadNewest r) = refresh_inv r" "refresh_inv (settleNewest g r) = refresh_inv r"
  "refresh_inv (pushSignal n r) = refresh_inv r" "refresh_inv (tell_cr c r) = refresh_inv r"
  by (rule refresh_same; simp)+

lemma held_parts [simp]:
  "refresh_held (emit r) = refresh_held r" "refresh_held (requestNewest report r) = refresh_held r"
  "refresh_held (reloadNewest r) = refresh_held r" "refresh_held (tell_cr c r) = refresh_held r"
  by (rule held_same; simp)+

lemma refresh_updates [simp]:
  "refresh_inv (r\<lparr>cr_listRequests := a1\<rparr>) = refresh_inv r" "refresh_inv (r\<lparr>cr_newestRequests := a2\<rparr>) = refresh_inv r"
  "refresh_inv (r\<lparr>cr_olderRequests := a3\<rparr>) = refresh_inv r" "refresh_inv (r\<lparr>cr_listGeneration := a4\<rparr>) = refresh_inv r"
  "refresh_inv (r\<lparr>cr_settling := a5\<rparr>) = refresh_inv r" "refresh_inv (r\<lparr>cr_listeners := a6\<rparr>) = refresh_inv r"
  "refresh_inv (r\<lparr>cr_list := a7\<rparr>) = refresh_inv r" "refresh_inv (r\<lparr>cr_chosen := a8\<rparr>) = refresh_inv r"
  "refresh_inv (r\<lparr>cr_positions := a9, cr_thread := t\<rparr>) = refresh_inv (r\<lparr>cr_thread := t\<rparr>)"
  by (rule refresh_cong; simp add: refreshing_def refreshWanted_def)+

lemma refresh_thread_update:
  "ts_state t = ts_state (cr_thread r) \<Longrightarrow> ts_activity t = ts_activity (cr_thread r) \<Longrightarrow> refresh_inv (r\<lparr>cr_thread := t\<rparr>) = refresh_inv r"
  by (rule refresh_cong) (simp_all add: refreshing_def refreshWanted_def)

lemma held_fetch [simp]: "refresh_held (fetchList k g r) = refresh_held r"
proof -
  have "refresh_held (r\<lparr>cr_listRequests := a\<rparr>) = refresh_held r" "refresh_held (r\<lparr>cr_list := l\<rparr>) = refresh_held r" for a l
    by (rule held_same; simp add: refreshing_def)+
  then show ?thesis by (simp add: fetchList_def ask_page_def list_failed_def split: option.split sum.split)
qed

lemma refresh_directory [simp]:
  "refresh_inv (list_taken g r) = refresh_inv r" "refresh_inv (list_failed key g err r) = refresh_inv r"
  "refresh_inv (ask_page g q r) = refresh_inv r" "refresh_inv (fetchList key g r) = refresh_inv r"
  by (simp_all add: list_taken_def list_failed_def ask_page_def fetchList_def split: option.split sum.split)

lemma refresh_reset: "refresh_held r \<Longrightarrow> refresh_inv (thread_reset i r)"
proof -
  assume "refresh_held r"
  moreover have "refresh_held (r\<lparr>cr_loadedId := i, cr_newestGeneration := a, cr_olderGeneration := b, cr_newestInFlight := c,
      cr_newestPending := d, cr_positions := p, cr_thread := t\<rparr>) = refresh_held r" for a b c d p t
    by (rule held_same) (simp_all add: refreshing_def)
  ultimately show ?thesis unfolding thread_reset_def by (intro refresh_stopped) (simp_all add: refreshWanted_def EMPTY_THREAD_def)
qed

lemma refresh_thread [simp]: "refresh_inv r \<Longrightarrow> refresh_inv (syncThread r)"
proof (rule syncThread_rule)
  assume "refresh_inv r"
  then have reset: "refresh_inv (thread_reset i r)" for i by (intro refresh_reset) (simp add: refresh_inv_def)
  show "refresh_inv (thread_reset i r)" for i by (rule reset)
  show "refresh_inv (requestNewest True (thread_reset (Some i) r))" for i using reset by simp
qed

lemma refresh_listed [simp]: "refresh_inv r \<Longrightarrow> refresh_inv (listAnswered g answer r)"
  by (rule listAnswered_rule) (simp_all add: applyListUnavailable_def)

lemma refresh_older [simp]: "refresh_inv r \<Longrightarrow> refresh_inv (olderAnswered g answer r)" "refresh_inv r \<Longrightarrow> refresh_inv (snd (loadOlder r))"
proof -
  assume inv: "refresh_inv r"
  show "refresh_inv (olderAnswered g answer r)"
    using inv by (simp add: olderAnswered_def refresh_thread_update Let_def split: option.split sum.split)
  have "refresh_inv (r\<lparr>cr_olderGeneration := a\<rparr>)" for a
    using inv refresh_cong [of "r\<lparr>cr_olderGeneration := a\<rparr>" r] by (simp add: refreshing_def refreshWanted_def)
  then show "refresh_inv (snd (loadOlder r))"
    using inv refresh_thread_update [of _ "r\<lparr>cr_olderGeneration := _\<rparr>"]
    by (simp add: loadOlder_def fetchOlder_def Let_def split: option.split)
qed

lemma refresh_apply:
  assumes placed: "well_placed r" and inv: "refresh_inv r" and loaded: "wanted key g (cr_newestGeneration r) r \<Longrightarrow> cr_loadedId r \<noteq> None"
  shows "refresh_inv (applyNewest source page key g r)" "refresh_inv (failNewest key g r)"
proof -
  show "refresh_inv (failNewest key g r)" using inv by (simp add: failNewest_def refresh_thread_update)
  have "refresh_inv (syncRefresh source (r\<lparr>cr_thread := t\<rparr>))" "refresh_inv (syncRefresh source (r\<lparr>cr_positions := p, cr_thread := t\<rparr>))"
    if "wanted key g (cr_newestGeneration r) r" for p t
  proof -
    have "refresh_held (r\<lparr>cr_thread := t\<rparr>)" "refresh_held (r\<lparr>cr_positions := p, cr_thread := t\<rparr>)"
      using inv held_same [of "r\<lparr>cr_thread := t\<rparr>" r] held_same [of "r\<lparr>cr_positions := p, cr_thread := t\<rparr>" r]
      by (simp_all add: refresh_inv_def refreshing_def)
    then show "refresh_inv (syncRefresh source (r\<lparr>cr_thread := t\<rparr>))" "refresh_inv (syncRefresh source (r\<lparr>cr_positions := p, cr_thread := t\<rparr>))"
      using placed_content [OF placed loaded [OF that]] that by (simp_all add: refresh_synced wanted_def)
  qed
  then show "refresh_inv (applyNewest source page key g r)" using inv by (simp add: applyNewest_def)
qed

lemma refresh_newest:
  assumes "well_placed r" "refresh_inv r"
  shows "refresh_inv (newestAnswered source g answer r)"
proof (cases "map_get (cr_newestRequests r) g")
  case (Some q)
  obtain key report where q: "q = (key, report)" by (cases q)
  define r0 where "r0 = r\<lparr>cr_newestRequests := map_delete g (cr_newestRequests r)\<rparr>"
  have "wanted key g (cr_newestGeneration r0) r0 = wanted key g (cr_newestGeneration r) r" by (simp add: wanted_def r0_def)
  then have loaded: "wanted key g (cr_newestGeneration r0) r0 \<Longrightarrow> cr_loadedId r0 \<noteq> None"
    using newest_loaded(1) [OF assms(1)] Some q by (simp add: r0_def)
  have "well_placed r0" "refresh_inv r0" using assms by (simp_all add: r0_def)
  then show ?thesis using Some q refresh_apply [OF _ _ loaded]
    by (simp add: newestAnswered_def r0_def [symmetric] Let_def split: sum.split)
qed (simp add: newestAnswered_def assms)

lemma refresh_moved: "refresh_inv r \<Longrightarrow> refresh_inv (moved ctx k q r)"
proof -
  assume inv: "refresh_inv r"
  define w where "w = r\<lparr>cr_disposed := False, cr_context := ctx, cr_contextKey := k, cr_requestKey := q,
    cr_newestGeneration := Suc (cr_newestGeneration r), cr_olderGeneration := Suc (cr_olderGeneration r), cr_positions := emptyPositions,
    cr_list := EMPTY_LIST, cr_thread := EMPTY_THREAD, cr_loadedId := None\<rparr>"
  have "refresh_held w = refresh_held r" by (rule held_same) (simp_all add: w_def refreshing_def)
  moreover have "\<not> refreshWanted w" by (simp add: w_def refreshWanted_def EMPTY_THREAD_def)
  moreover have "moved ctx k q r = emit (stopRefresh w)" by (simp add: moved_def w_def Let_def)
  ultimately show ?thesis using inv by (simp add: refresh_stopped refresh_inv_def [of r])
qed

lemma refresh_context:
  assumes placed: "well_placed r" and inv: "refresh_inv r"
  shows "refresh_inv (setContext source ctx r)"
proof (rule setContext_rule)
  fix c k q assume c: "ctx = Some c" "k = ad_contextKey (cr_adapter r) c" and at: "cr_contextKey r = Some k"
  have "refresh_held (revoked ctx q r) = refresh_held r" by (rule held_same) (simp_all add: refreshing_def revoked_def Let_def)
  then have held: "refresh_held (rearm k (revoked ctx q r))" using inv by (simp add: refresh_inv_def rearm_def Let_def)
  have live: "\<not> cr_disposed (rearm k (revoked ctx q r))"
    by (simp add: rearm_def revoked_def fetchList_asks [of _ c] c Let_def)
  have "well_placed (rearm k (revoked ctx q r))" using placed_revoked [OF placed, of ctx q] c at by (simp add: rearm_def Let_def)
  then show "refresh_inv (syncRefresh source (rearm k (revoked ctx q r)))" using live held by (simp add: refresh_synced)
next
  fix c k assume c: "ctx = Some c" "k = ad_contextKey (cr_adapter r) c" and at: "cr_contextKey r = Some k"
  have "refresh_held (r\<lparr>cr_disposed := False, cr_context := ctx\<rparr>) = refresh_held r" by (rule held_same) (simp_all add: refreshing_def)
  then show "refresh_inv (syncRefresh source (r\<lparr>cr_disposed := False, cr_context := ctx, cr_requestKey := cr_requestKey r\<rparr>))"
    using inv placed_kept [OF placed, of ctx False] c at by (simp add: refresh_synced refresh_inv_def [of r])
qed (simp_all add: refresh_moved inv)

lemma refresh_dispose: "refresh_inv r \<Longrightarrow> refresh_inv (dispose_conversation r)"
proof -
  assume inv: "refresh_inv r"
  define w where "w = r\<lparr>cr_disposed := True, cr_listGeneration := Suc (cr_listGeneration r),
        cr_newestGeneration := Suc (cr_newestGeneration r), cr_olderGeneration := Suc (cr_olderGeneration r),
        cr_newestInFlight := None, cr_newestPending := False\<rparr>"
  have "refresh_held w = refresh_held r" by (rule held_same) (simp_all add: w_def refreshing_def)
  then have "refresh_inv (stopRefresh w)" using inv by (intro refresh_stopped) (simp_all add: refresh_inv_def w_def)
  then show ?thesis by (simp add: dispose_conversation_def w_def)
qed

definition reader_inv :: "conversation_runtime \<Rightarrow> bool" where
  "reader_inv r \<longleftrightarrow> well_placed r \<and> refresh_inv r"

lemma reader_step: "reader_inv r \<Longrightarrow> reader_inv (conversation_step r e)"
proof -
  assume inv: "reader_inv r"
  have "refresh_inv (conversation_step r e)"
    using inv by (cases e) (simp_all add: reader_inv_def refresh_context refresh_dispose refresh_newest select_def reload_def newestSettles_def
        intervalFires_def split: option.split list.split)
  then show ?thesis using inv by (simp add: reader_inv_def placed_step)
qed

lemma reader_new [simp]: "reader_inv (new_conversation_runtime ad i)"
  unfolding reader_inv_def refresh_inv_def refresh_held_def refresh_apt_def refreshWanted_def
  by (simp add: placed_new) (simp add: new_conversation_runtime_def EMPTY_THREAD_def split: refresh_policy.split)

interpretation reader: event_machine conversation_step reader_inv
  by unfold_locales (rule reader_step)

lemma adapter_directory [simp]: "cr_adapter (list_taken g r) = cr_adapter r" "cr_adapter (list_failed key g err r) = cr_adapter r"
  "cr_adapter (ask_page g q r) = cr_adapter r" "cr_adapter (fetchList key g r) = cr_adapter r"
  by (simp_all add: list_taken_def list_failed_def ask_page_def fetchList_def split: option.split sum.split)

lemma adapter_thread [simp]: "cr_adapter (syncThread r) = cr_adapter r"
  by (rule syncThread_rule) (simp_all add: thread_reset_def)

lemma adapter_step [simp]: "cr_adapter (conversation_step r e) = cr_adapter r"
proof (cases e)
  case (SetContext source ctx)
  have "cr_adapter (setContext source ctx r) = cr_adapter r"
    by (rule setContext_rule) (simp_all add: rearm_def revoked_def moved_def Let_def)
  then show ?thesis using SetContext by simp
next
  case (ListAnswered g answer)
  have "cr_adapter (listAnswered g answer r) = cr_adapter r"
    by (rule listAnswered_rule) (simp_all add: applyListUnavailable_def)
  then show ?thesis using ListAnswered by simp
qed (simp_all add: select_def reload_def loadOlder_def fetchOlder_def dispose_conversation_def newestAnswered_def applyNewest_def failNewest_def
    newestSettles_def olderAnswered_def intervalFires_def Let_def split: option.split sum.split list.split)

lemma adapter_run [simp]: "cr_adapter (foldl conversation_step (new_conversation_runtime ad n) es) = ad"
proof -
  have "cr_adapter (foldl conversation_step r es) = cr_adapter r" for r by (induction es arbitrary: r) simp_all
  then show ?thesis by (simp add: new_conversation_runtime_def)
qed

text \<open>
  C36. Whatever happens, in any order, the refresh of the open conversation runs exactly while it is wanted. Under a polling policy one
  interval is armed while the conversation is readable, not known to be finished and the runtime is not disposed, and none
  otherwise, so no timer outlives what it was for and none is missing; under the other policies no interval is ever armed, and a
  manual one subscribes to nothing. A push subscription that is held is wanted, and its callback still counts. What is watched is the
  conversation that is open.
\<close>
theorem refresh_runs_exactly_while_wanted:
  "let r = foldl conversation_step (new_conversation_runtime ad n) es
   in (case ad_refresh ad of
         PollPolicy ms \<Rightarrow> cr_unsubscribePush r = None \<and> length (cr_armed r) = (if \<not> cr_disposed r \<and> refreshWanted r then 1 else 0)
       | PushPolicy \<Rightarrow> cr_armed r = []
       | ManualPolicy \<Rightarrow> cr_armed r = [] \<and> cr_unsubscribePush r = None)
      \<and> (case cr_unsubscribePush r of None \<Rightarrow> True | Some k \<Rightarrow> \<not> cr_disposed r \<and> refreshWanted r \<and> push_current k r)
      \<and> (case cr_refreshArmedFor r of
           None \<Rightarrow> True
         | Some target \<Rightarrow> cr_contextKey r = Some (ra_key target) \<and> cr_loadedId r = Some (ra_conversationId target))"
proof -
  define r where "r = foldl conversation_step (new_conversation_runtime ad n) es"
  have inv: "refresh_held r" "refresh_apt r"
    using reader.run_inv [OF reader_new, of ad n es] by (simp_all add: reader_inv_def refresh_inv_def r_def)
  have "cr_adapter r = ad" by (simp add: r_def)
  then show ?thesis using inv unfolding r_def [symmetric] Let_def
    by (cases "ad_refresh ad"; cases "cr_timer r"; cases "cr_unsubscribePush r"; cases "cr_refreshArmedFor r")
      (auto simp: refresh_held_def refresh_apt_def push_current_def Let_def)
qed

end
