(* ===== verification/Reader_Steps.thy ===== *)
theory Reader_Steps
  imports Reader_Refresh
begin

text \<open>
  What an invariant of the requests and the window owes the single transitions of the conversation runtime, and that it then
  holds after every event.
\<close>

definition list_said :: "directory_state option \<Rightarrow> string option \<Rightarrow> nat \<Rightarrow> conversation_runtime \<Rightarrow> conversation_runtime" where
  "list_said s err g v = (list_taken g v)\<lparr>cr_list := (cr_list v)\<lparr>ls_state := s, ls_loading := False, ls_error := err\<rparr>\<rparr>"

definition list_complete :: "aggregation \<Rightarrow> nat \<Rightarrow> conversation_runtime \<Rightarrow> conversation_runtime" where
  "list_complete a g v = (list_taken g v)\<lparr>cr_list := \<lparr>ls_state = Some DirectoryReady, ls_conversations = ag_conversations a,
     ls_bindingId = ag_bindingId a, ls_loading = False, ls_error = None\<rparr>\<rparr>"

definition list_continued :: "list_request \<Rightarrow> nat \<Rightarrow> conversation_runtime \<Rightarrow> conversation_runtime" where
  "list_continued q g v = tell_cr (ListAsked g (lq_context q) (lq_cursor q))
     ((list_taken g v)\<lparr>cr_listRequests := map_set g q (cr_listRequests (list_taken g v))\<rparr>)"

definition list_begun :: "string \<Rightarrow> nat \<Rightarrow> conversation_runtime \<Rightarrow> conversation_runtime" where
  "list_begun k g v = fetchList k g (v\<lparr>cr_listGeneration := g\<rparr>)"

definition left :: "string option \<Rightarrow> conversation_runtime \<Rightarrow> conversation_runtime" where
  "left i v = v\<lparr>cr_loadedId := i, cr_newestGeneration := Suc (cr_newestGeneration v),
     cr_olderGeneration := Suc (cr_olderGeneration v), cr_newestInFlight := None, cr_newestPending := False,
     cr_positions := emptyPositions, cr_thread := EMPTY_THREAD\<rparr>"

definition halted :: "conversation_runtime \<Rightarrow> conversation_runtime" where
  "halted v = v\<lparr>cr_disposed := True, cr_listGeneration := Suc (cr_listGeneration v),
     cr_newestGeneration := Suc (cr_newestGeneration v), cr_olderGeneration := Suc (cr_olderGeneration v),
     cr_newestInFlight := None, cr_newestPending := False\<rparr>"

lemma thread_reset_left: "thread_reset i v = stopRefresh (left i v)"
  by (simp add: thread_reset_def left_def)

lemma dispose_halted: "dispose_conversation v = (stopRefresh (halted v))\<lparr>cr_listeners := []\<rparr>"
  by (simp add: dispose_conversation_def halted_def)

locale reader_invariant =
  fixes inv :: "conversation_runtime \<Rightarrow> bool" and ok :: "conversation_event \<Rightarrow> bool"
  assumes quietly: "quiet w v \<Longrightarrow> inv v \<Longrightarrow> inv w"
    and start: "inv v \<Longrightarrow> inv (startNewest report v)"
    and slot: "inv v \<Longrightarrow> inv (v\<lparr>cr_newestInFlight := flight, cr_newestPending := pending\<rparr>)"
    and newest_taken: "inv v \<Longrightarrow> inv (v\<lparr>cr_newestRequests := map_delete g (cr_newestRequests v)\<rparr>)"
    and older_taken: "inv v \<Longrightarrow> inv (v\<lparr>cr_olderRequests := map_delete g (cr_olderRequests v)\<rparr>)"
    and list_stale: "inv v \<Longrightarrow> well_placed v \<Longrightarrow> map_get (cr_listRequests v) g = Some q \<Longrightarrow>
      \<not> wanted (lq_key q) g (cr_listGeneration v) v \<Longrightarrow> inv (list_taken g v)"
    and kept_books: "inv v \<Longrightarrow> inv (v\<lparr>cr_settling := settles, cr_listeners := ls\<rparr>)"
    and threaded: "inv v \<Longrightarrow> inv (v\<lparr>cr_thread := t\<rparr>)"
    and chose: "inv v \<Longrightarrow> inv (v\<lparr>cr_chosen := choice\<rparr>)"
    and newest_page: "inv v \<Longrightarrow> well_placed v \<Longrightarrow> map_get (cr_newestRequests v) g = Some (key, report) \<Longrightarrow>
      wanted key g (cr_newestGeneration v) v \<Longrightarrow> pg_state page = ReadReady \<Longrightarrow> ok (NewestAnswered source g (Inr page)) \<Longrightarrow>
      inv (v\<lparr>cr_newestRequests := map_delete g (cr_newestRequests v), cr_positions := withNewest (cr_positions v) (pg_slice page)\<rparr>)"
    and older_page: "inv v \<Longrightarrow> well_placed v \<Longrightarrow> map_get (cr_olderRequests v) g = Some key \<Longrightarrow>
      wanted key g (cr_olderGeneration v) v \<Longrightarrow> pg_state page = ReadReady \<Longrightarrow> ok (OlderAnswered g (Inr page)) \<Longrightarrow>
      inv (v\<lparr>cr_olderRequests := map_delete g (cr_olderRequests v), cr_positions := withOlderPage (cr_positions v) (pg_slice page)\<rparr>)"
    and older_asked: "inv v \<Longrightarrow> cr_contextKey v = Some key \<Longrightarrow> cr_context v = Some c \<Longrightarrow> cr_loadedId v = Some i \<Longrightarrow> well_placed v \<Longrightarrow>
      inv (tell_cr (OlderAsked (Suc (cr_olderGeneration v)) c i cursor) (v\<lparr>cr_olderGeneration := Suc (cr_olderGeneration v),
        cr_olderRequests := map_set (Suc (cr_olderGeneration v)) key (cr_olderRequests v)\<rparr>))"
    and said: "inv v \<Longrightarrow> inv (list_said st err g v)"
    and complete: "inv v \<Longrightarrow> map_get (cr_listRequests v) g = Some q \<Longrightarrow> (listing_ok (lq_aggregation q) \<Longrightarrow> listing_ok a) \<Longrightarrow>
      inv (list_complete a g v)"
    and continued: "inv v \<Longrightarrow> map_get (cr_listRequests v) g = Some q \<Longrightarrow> lq_key q' = lq_key q \<Longrightarrow> wanted (lq_key q) g (cr_listGeneration v) v \<Longrightarrow>
      ag_pages (lq_aggregation q') = Suc (ag_pages (lq_aggregation q)) \<Longrightarrow> ag_pages (lq_aggregation q') \<le> LIST_PAGE_BUDGET \<Longrightarrow>
      (listing_ok (lq_aggregation q) \<Longrightarrow> listing_ok (lq_aggregation q')) \<Longrightarrow> inv (list_continued q' g v)"
    and begun: "inv v \<Longrightarrow> cr_context v = Some c \<Longrightarrow> cr_contextKey v = Some k \<Longrightarrow> inv (list_begun k (Suc (cr_listGeneration v)) v)"
    and revoke: "inv v \<Longrightarrow> ctx = Some c \<Longrightarrow> k = ad_contextKey (cr_adapter v) c \<Longrightarrow> cr_contextKey v = Some k \<Longrightarrow>
      inv (fetchList k (cr_listGeneration (revoked ctx rk v)) (revoked ctx rk v))"
    and entered: "inv v \<Longrightarrow> ctx = Some c \<Longrightarrow> k = ad_contextKey (cr_adapter v) c \<Longrightarrow>
      inv (list_begun k (Suc (cr_listGeneration (moved ctx (Some k) rk v))) (moved ctx (Some k) rk v))"
    and cleared: "inv v \<Longrightarrow> inv (moved None None None v)"
    and kept: "inv v \<Longrightarrow> \<not> cr_disposed v \<Longrightarrow> cr_contextKey v = map_option (ad_contextKey (cr_adapter v)) ctx \<Longrightarrow>
      inv (v\<lparr>cr_disposed := False, cr_context := ctx\<rparr>)"
    and leaving: "inv v \<Longrightarrow> inv (left opening v)"
    and halt: "inv v \<Longrightarrow> inv (halted v)"
begin

lemma quiet_parts: "inv v \<Longrightarrow> inv (emit v)" "inv v \<Longrightarrow> inv (stopRefresh v)"
  by (erule quietly [OF quiet_emit], erule quietly [OF quiet_stop])

lemma slots: "inv v \<Longrightarrow> inv (v\<lparr>cr_newestInFlight := a\<rparr>)" "inv v \<Longrightarrow> inv (v\<lparr>cr_newestPending := b\<rparr>)"
  using slot [where v = v and flight = a and pending = "cr_newestPending v"] slot [where v = v and flight = "cr_newestInFlight v" and pending = b] by simp_all

lemma books: "inv v \<Longrightarrow> inv (v\<lparr>cr_settling := s\<rparr>)" "inv v \<Longrightarrow> inv (v\<lparr>cr_listeners := l\<rparr>)"
  using kept_books [where v = v and settles = s and ls = "cr_listeners v"] kept_books [where v = v and settles = "cr_settling v" and ls = l] by simp_all

lemma request: "inv v \<Longrightarrow> inv (requestNewest report v)" "inv v \<Longrightarrow> inv (poll v)" "inv v \<Longrightarrow> inv (reloadNewest v)"
  "inv v \<Longrightarrow> inv (settleNewest g v)" "inv v \<Longrightarrow> inv (pushSignal n v)"
  by (simp_all add: requestNewest_def poll_def reloadNewest_def settleNewest_def pushSignal_def start slot slots Let_def)

lemma sync: "inv v \<Longrightarrow> inv (syncRefresh source v)"
  by (rule refresh_keeps [of inv]) (erule request, erule quietly)

lemma thread_sync: "inv v \<Longrightarrow> inv (syncThread v)"
  by (rule syncThread_rule) (simp_all add: thread_reset_left quiet_parts leaving request)

lemma failed:
  assumes "inv v" "well_placed v" "map_get (cr_listRequests v) g = Some q"
  shows "inv (list_failed (lq_key q) g err (list_taken g v))"
proof (cases "wanted (lq_key q) g (cr_listGeneration v) v")
  case True
  have "list_failed (lq_key q) g err (list_taken g v) =
      emit (list_said (ls_state (cr_list v)) (Some (the_default ''Unable to list the conversations'' err)) g v)"
    using True by (simp add: list_failed_def list_said_def list_taken_def wanted_def)
  then show ?thesis using said [OF assms(1)] by (simp add: quiet_parts)
next
  case False
  then have "list_failed (lq_key q) g err (list_taken g v) = list_taken g v"
    by (simp add: list_failed_def list_taken_def wanted_def)
  then show ?thesis using list_stale [OF assms False] by simp
qed

lemma listed:
  assumes inv: "inv v" and placed: "well_placed v"
  shows "inv (listAnswered g answer v)"
proof (rule listAnswered_rule)
  fix q err assume "map_get (cr_listRequests v) g = Some q"
  then show "inv (list_failed (lq_key q) g err (list_taken g v))" by (rule failed [OF inv placed])
next
  fix q assume "map_get (cr_listRequests v) g = Some q" "\<not> wanted (lq_key q) g (cr_listGeneration v) v"
  then show "inv (list_taken g v)" by (rule list_stale [OF inv placed])
next
  fix q a cursor assume q: "map_get (cr_listRequests v) g = Some q" "wanted (lq_key q) g (cr_listGeneration v) v"
    and a: "ag_pages a = ag_pages (lq_aggregation q)" "listing_ok (lq_aggregation q) \<Longrightarrow> listing_ok a"
  show "inv (ask_page g (q\<lparr>lq_aggregation := a, lq_cursor := cursor\<rparr>) (list_taken g v))"
  proof (cases "beginPage a")
    case (Inl err)
    then show ?thesis using failed [OF inv placed q(1), of "Some err"] by (simp add: ask_page_def)
  next
    case (Inr b)
    then have b: "ag_pages b = Suc (ag_pages (lq_aggregation q))" "ag_pages b \<le> LIST_PAGE_BUDGET" "listing_ok a \<Longrightarrow> listing_ok b"
      using a(1) by (auto simp: beginPage_def listing_ok_def Let_def split: if_splits)
    have "inv (list_continued (q\<lparr>lq_cursor := cursor, lq_aggregation := b\<rparr>) g v)"
      by (rule continued [OF inv q(1) _ q(2)]) (use a b in simp_all)
    then show ?thesis using Inr by (simp add: ask_page_def list_continued_def)
  qed
next
  fix q res
  show "inv (applyListUnavailable res (list_taken g v))"
    using said [OF inv, of "Some (lr_state res)" "if lr_state res = DirectoryError then Some (the_default ''The conversations could not be listed'' (lr_error res)) else None" g]
    by (simp add: applyListUnavailable_def list_said_def list_taken_def quiet_parts thread_sync)
next
  fix q a assume "map_get (cr_listRequests v) g = Some q" "listing_ok (lq_aggregation q) \<Longrightarrow> listing_ok a"
  then show "inv (emit (syncThread ((list_taken g v)\<lparr>cr_list := \<lparr>ls_state = Some DirectoryReady, ls_conversations = ag_conversations a,
      ls_bindingId = ag_bindingId a, ls_loading = False, ls_error = None\<rparr>\<rparr>)))"
    using complete [OF inv] by (simp add: list_complete_def quiet_parts thread_sync)
qed (rule inv)

lemma newest:
  assumes inv: "inv v" and placed: "well_placed v" and ok: "ok (NewestAnswered source g answer)"
  shows "inv (newestAnswered source g answer v)"
proof (cases "map_get (cr_newestRequests v) g")
  case (Some q)
  obtain key report where q: "q = (key, report)" by (cases q)
  define v0 where "v0 = v\<lparr>cr_newestRequests := map_delete g (cr_newestRequests v)\<rparr>"
  have wanted: "wanted key g (cr_newestGeneration v0) v0 = wanted key g (cr_newestGeneration v) v" by (simp add: wanted_def v0_def)
  have v0: "inv v0" using newest_taken [OF inv] by (simp add: v0_def)
  have fail: "inv (failNewest key g v0)" using v0 by (simp add: failNewest_def threaded quiet_parts)
  have applied: "inv (applyNewest source page key g v0)" if answer: "answer = Inr page" for page
  proof -
    have page: "inv (v0\<lparr>cr_positions := withNewest (cr_positions v0) (pg_slice page), cr_thread := t\<rparr>)"
      if "wanted key g (cr_newestGeneration v) v" "pg_state page = ReadReady" for t
    proof -
      have "inv (v0\<lparr>cr_positions := withNewest (cr_positions v) (pg_slice page)\<rparr>)" unfolding v0_def
        by (rule newest_page [OF inv placed _ that]) (use Some q ok answer in simp_all)
      from threaded [OF this] show ?thesis by (simp add: v0_def)
    qed
    show ?thesis using page v0 by (simp add: applyNewest_def wanted threaded sync quiet_parts)
  qed
  show ?thesis using Some q fail applied v0
    by (simp add: newestAnswered_def v0_def [symmetric] Let_def books request split: sum.split)
qed (simp add: newestAnswered_def inv)

lemma older:
  assumes inv: "inv v" and placed: "well_placed v" and ok: "ok (OlderAnswered g answer)"
  shows "inv (olderAnswered g answer v)"
proof (cases "map_get (cr_olderRequests v) g")
  case (Some key)
  define v0 where "v0 = v\<lparr>cr_olderRequests := map_delete g (cr_olderRequests v)\<rparr>"
  have wanted: "wanted key g (cr_olderGeneration v0) v0 = wanted key g (cr_olderGeneration v) v" by (simp add: wanted_def v0_def)
  have v0: "inv v0" using older_taken [OF inv] by (simp add: v0_def)
  have page: "inv (v0\<lparr>cr_positions := withOlderPage (cr_positions v0) (pg_slice page), cr_thread := t\<rparr>)"
    if "answer = Inr page" "wanted key g (cr_olderGeneration v) v" "pg_state page = ReadReady" for page t
  proof -
    have "inv (v0\<lparr>cr_positions := withOlderPage (cr_positions v) (pg_slice page)\<rparr>)" unfolding v0_def
      by (rule older_page [OF inv placed Some that(2,3)]) (use ok that in simp)
    from threaded [OF this] show ?thesis by (simp add: v0_def)
  qed
  show ?thesis using Some v0 page
    by (simp add: olderAnswered_def v0_def [symmetric] wanted Let_def threaded quiet_parts split: sum.split)
qed (simp add: olderAnswered_def inv)

lemma loading:
  assumes inv: "inv v" and placed: "well_placed v"
  shows "inv (snd (loadOlder v))"
proof (cases "cr_contextKey v = None \<or> pn_cursor (cr_positions v) = None \<or> ts_loadingOlder (cr_thread v) \<or> cr_disposed v
    \<or> cr_context v = None \<or> cr_loadedId v = None")
  case False
  then obtain key c i cursor where at: "cr_contextKey v = Some key" "cr_context v = Some c" "cr_loadedId v = Some i"
      "pn_cursor (cr_positions v) = Some cursor" by auto
  define g where "g = Suc (cr_olderGeneration v)"
  define t where "t = (cr_thread v)\<lparr>ts_loadingOlder := True, ts_olderError := None\<rparr>"
  define w where "w = v\<lparr>cr_olderGeneration := g, cr_thread := t\<rparr>"
  have "inv (tell_cr (OlderAsked g c i cursor) (v\<lparr>cr_olderGeneration := g, cr_olderRequests := map_set g key (cr_olderRequests v)\<rparr>))"
    using older_asked [OF inv at(1-3) placed] by (simp add: g_def)
  from threaded [OF this, of t] have "inv (tell_cr (OlderAsked g c i cursor) (w\<lparr>cr_olderRequests := map_set g key (cr_olderRequests w)\<rparr>))"
    by (cases v) (simp add: w_def tell_cr_def)
  moreover have "quiet (tell_cr a ((emit w)\<lparr>cr_olderRequests := m\<rparr>)) (tell_cr a (w\<lparr>cr_olderRequests := m\<rparr>))" for a m
  proof -
    have "core ((emit w)\<lparr>cr_olderRequests := m\<rparr>) = (core (emit w))\<lparr>cr_olderRequests := m\<rparr>"
      "core (w\<lparr>cr_olderRequests := m\<rparr>) = (core w)\<lparr>cr_olderRequests := m\<rparr>" by (simp_all add: core_def)
    moreover have "asks (u\<lparr>cr_olderRequests := m\<rparr>) = asks u" "reads (u\<lparr>cr_olderRequests := m\<rparr>) = reads u" for u by (simp_all add: asks_def reads_def)
    ultimately show ?thesis using quiet_emit [of w] by (simp add: quiet_def asks_tell)
  qed
  ultimately have "inv (tell_cr (OlderAsked g c i cursor) ((emit w)\<lparr>cr_olderRequests := map_set g key (cr_olderRequests w)\<rparr>))"
    using quietly by blast
  moreover have "snd (loadOlder v) = tell_cr (OlderAsked g c i cursor) ((emit w)\<lparr>cr_olderRequests := map_set g key (cr_olderRequests w)\<rparr>)"
    using False at by (simp add: loadOlder_def fetchOlder_def w_def g_def t_def Let_def)
  ultimately show ?thesis by simp
next
  case True
  moreover have "cr_loadedId v = None \<Longrightarrow> pn_cursor (cr_positions v) = None"
    using placed by (simp add: well_placed_def opened_def emptyPositions_def)
  ultimately show ?thesis using inv by (auto simp: loadOlder_def split: option.split)
qed

lemma context_set: "inv v \<Longrightarrow> inv (setContext source ctx v)"
proof (rule setContext_rule)
  fix c k q assume inv: "inv v" and c: "ctx = Some c" "k = ad_contextKey (cr_adapter v) c"
  show "inv (syncRefresh source (rearm k (revoked ctx q v)))" if "cr_contextKey v = Some k"
    using revoke [OF inv c that, of q] by (simp add: rearm_def Let_def request sync)
  show "inv (fetchList k (Suc (cr_listGeneration (moved ctx (Some k) q v)))
      ((moved ctx (Some k) q v)\<lparr>cr_listGeneration := Suc (cr_listGeneration (moved ctx (Some k) q v))\<rparr>))"
    using entered [OF inv c, of q] by (simp add: list_begun_def)
qed (simp_all add: kept sync cleared)

lemma step:
  assumes inv: "inv v" and placed: "well_placed v" and ok: "ok e"
  shows "inv (conversation_step v e)"
proof (cases e)
  case Reload
  have "inv (reload v)"
  proof (cases "cr_disposed v \<or> cr_contextKey v = None")
    case False
    then obtain key c where at: "cr_contextKey v = Some key" "cr_context v = Some c" "\<not> cr_disposed v"
      using placed by (auto simp: well_placed_def opened_def)
    then show ?thesis using begun [OF inv at(2,1)] by (simp add: reload_def list_begun_def request)
  qed (use inv in \<open>auto simp: reload_def split: option.split\<close>)
  then show ?thesis using Reload by simp
next
  case (Select i)
  have "inv (select i v)" using inv by (simp add: select_def chose thread_sync quiet_parts split: option.split)
  then show ?thesis using Select by simp
next
  case DisposeConversation
  have "inv (dispose_conversation v)" using inv by (simp add: dispose_halted books quiet_parts halt)
  then show ?thesis using DisposeConversation by simp
qed (use assms in \<open>simp_all add: listed newest older loading context_set books request newestSettles_def intervalFires_def split: list.split\<close>)

lemma run:
  assumes "inv v" "well_placed v" "list_all ok es"
  shows "inv (foldl conversation_step v es)"
  using assms by (induction es arbitrary: v) (simp_all add: step placed_step)

end

end
