(* ===== verification/Reader_Runs.thy ===== *)
theory Reader_Runs
  imports Reader_Steps
begin

text \<open>
  Concrete runs of the conversation runtime: a conversation whose older page is on its way, a request authority that rotates then,
  and a context that is returned to. A provider whose contexts share a space when they share their first letter, polled.
\<close>

definition demo_adapter :: adapter where
  "demo_adapter = \<lparr>ad_contextKey = take 1, ad_requestKey = Some (\<lambda>c. c), ad_refresh = PollPolicy 3000\<rparr>"

definition quiet_source :: push_source where
  "quiet_source = \<lparr>ps_sourceKey = (\<lambda>c i. []), ps_signals = 0, ps_throws = False\<rparr>"

definition demo_listing :: "string option \<Rightarrow> list_result" where
  "demo_listing i = \<lparr>lr_state = DirectoryReady, lr_conversations = [], lr_bindingId = i, lr_nextCursor = None, lr_listingId = None,
     lr_restart = False, lr_error = None\<rparr>"

definition demo_read :: "string \<Rightarrow> string option \<Rightarrow> read_page" where
  "demo_read i cursor = \<lparr>pg_state = ReadReady, pg_conversation = None, pg_activity = Some ActivityActive,
     pg_slice = \<lparr>sl_items = Some [UnknownItem i None], sl_nextCursor = cursor, sl_skipped = None\<rparr>, pg_partialTail = False, pg_error = None\<rparr>"

definition demo_reader :: "conversation_event list \<Rightarrow> conversation_runtime" where
  "demo_reader es = foldl conversation_step (new_conversation_runtime demo_adapter 1) es"

text \<open>A context is set, its bound conversation opens and an older page is asked for.\<close>

definition demo_opening :: "conversation_event list" where
  "demo_opening = [SetContext quiet_source (Some ''A1''), ListAnswered 1 (Inr (demo_listing (Some ''c''))),
     NewestAnswered quiet_source 3 (Inr (demo_read ''m2'' (Some ''p''))), NewestSettles, LoadOlder]"

definition demo_rotated :: "conversation_event list" where
  "demo_rotated = demo_opening @ [SetContext quiet_source (Some ''A2''), OlderAnswered 3 (Inr (demo_read ''m1'' None)),
     NewestAnswered quiet_source 5 (Inr (demo_read ''m2'' (Some ''p''))), NewestSettles]"

definition demo_paging :: "conversation_event list" where
  "demo_paging = demo_opening @ [OlderAnswered 3 (Inr (demo_read ''m1'' None))]"

lemma demo_reader_append: "demo_reader (es @ es') = foldl conversation_step (demo_reader es) es'"
  by (simp add: demo_reader_def)

lemma demo_paged:
  "let s = cr_snapshot (demo_reader demo_paging) in sh_items s = [UnknownItem ''m1'' None, UnknownItem ''m2'' None] \<and> sh_openId s = Some ''c''"
  by code_simp

lemma demo_opened:
  "let r = demo_reader demo_opening in cr_requestKey r = Some ''A1'' \<and> OlderAsked 3 ''A1'' ''c'' ''p'' \<in> set (cr_told r)"
  by code_simp

text \<open>
  While an older page is on its way the request authority rotates: the page may not publish, and nothing clears
  \<open>loadingOlder\<close>. From then on \<open>loadOlder\<close> says that history is coming, and asks for none.
\<close>

lemma rotation_sticks_pagination:
  "let r = demo_reader demo_rotated
   in ts_loadingOlder (cr_thread r) \<and> cr_olderRequests r = [] \<and> fst (loadOlder r) \<and> cr_told (snd (loadOlder r)) = cr_told r"
  by code_simp

text \<open>
  A conversation chosen earlier is the open one as soon as its context returns, but only an answered directory loads it: when the
  directory is rejected the thread is shown as loading and no read is on its way, and \<open>reload\<close> starts none either.
\<close>

definition demo_tagged :: "conversation_event list" where
  "demo_tagged = [SetContext quiet_source (Some ''A1''), Select (Some ''c''), SetContext quiet_source (Some ''B1''),
     SetContext quiet_source (Some ''A1''), ListAnswered 3 (Inl None), Reload]"

lemma rejected_directory_hides_thread:
  "let r = demo_reader demo_tagged; s = cr_snapshot r
   in sh_openId s = Some ''c'' \<and> sh_threadLoading s \<and> cr_loadedId r = None \<and> cr_newestInFlight r = None
      \<and> last (cr_told r) = ListAsked 4 ''A1'' None"
  by code_simp

end
