(* ===== verification/Reader_Laws.thy ===== *)
theory Reader_Laws
  imports Reader_Runs Conversation_Laws
begin

text \<open>
  What the conversation runtime promises: a bounded directory, a window that belongs to the open conversation, and no spinner that
  nothing will end.
\<close>

section \<open>The directory\<close>

fun list_asked_by :: "nat \<Rightarrow> runtime_call \<Rightarrow> bool" where
  "list_asked_by g (ListAsked g' c cursor) = (g' = g)"
| "list_asked_by g _ = False"

definition list_asked :: "nat \<Rightarrow> conversation_runtime \<Rightarrow> nat" where
  "list_asked g v = length (filter (list_asked_by g) (cr_told v))"

lemma list_asked_told: "list_asked g (tell_cr c v) = list_asked g v + (if list_asked_by g c then 1 else 0)"
  by (simp add: list_asked_def tell_cr_def)

lemma list_asked_asks: "list_asked g v = length (filter (list_asked_by g) (asks v))"
proof -
  have "list_asked_by g c \<Longrightarrow> asked c" for c by (cases c) simp_all
  then show ?thesis unfolding list_asked_def asks_def filter_filter by (metis (mono_tags, lifting))
qed

lemma list_asked_quiet: "quiet w v \<Longrightarrow> list_asked g w = list_asked g v"
  by (simp add: list_asked_asks quiet_def)

definition directory_inv :: "conversation_runtime \<Rightarrow> bool" where
  "directory_inv v \<longleftrightarrow> distinct (map su_id (ls_conversations (cr_list v)))
     \<and> (\<forall>g. list_asked g v \<le> LIST_PAGE_BUDGET)
     \<and> (\<forall>g. cr_listGeneration v < g \<longrightarrow> list_asked g v = 0)
     \<and> (\<forall>g q. map_get (cr_listRequests v) g = Some q \<longrightarrow> list_asked g v = ag_pages (lq_aggregation q) \<and> listing_ok (lq_aggregation q))"

lemma directory_same:
  assumes "cr_list w = cr_list v" "\<And>g. list_asked g w = list_asked g v" "cr_listGeneration v \<le> cr_listGeneration w" "cr_listRequests w = cr_listRequests v"
  shows "directory_inv v \<Longrightarrow> directory_inv w"
  using assms by (simp add: directory_inv_def)

lemma directory_begun:
  assumes inv: "directory_inv v" and c: "cr_context v = Some c" and fresh: "cr_listGeneration v < g"
  shows "directory_inv (list_begun k g v)"
proof -
  have "listing_ok (new_aggregation\<lparr>ag_pages := 1\<rparr>)" by (simp add: listing_ok_def new_aggregation_def)
  moreover have "list_asked g' (u\<lparr>cr_listGeneration := a, cr_listRequests := b\<rparr>) = list_asked g' u" for g' a b u by (simp add: list_asked_def)
  ultimately show ?thesis using inv fresh
    by (auto simp: directory_inv_def list_begun_def fetchList_asks [of _ c] c list_asked_told LIST_PAGE_BUDGET_def)
qed

lemma list_asked_emit [simp]: "list_asked g (emit v) = list_asked g v" "list_asked g (stopRefresh v) = list_asked g v"
  by (rule list_asked_quiet, simp)+

interpretation directory: reader_invariant directory_inv "\<lambda>_. True"
proof
  fix v w assume inv: "directory_inv v"
  show "directory_inv w" if "quiet w v"
    using that core_fields [of w v] by (intro directory_same [OF _ list_asked_quiet [OF that] _ _ inv]) (simp_all add: quiet_def)
  show "directory_inv (startNewest report v)" for report
    by (rule directory_same [OF _ _ _ _ inv]) (simp_all add: startNewest_def list_asked_def tell_cr_def Let_def split: option.split)
  show "directory_inv (list_said s err g v)" for s err g
    using inv by (auto simp: directory_inv_def list_said_def list_taken_def list_asked_def)
  show "directory_inv (list_complete a g v)" if "map_get (cr_listRequests v) g = Some q" "listing_ok (lq_aggregation q) \<Longrightarrow> listing_ok a" for a g q
  proof -
    have "listing_ok (lq_aggregation q)" using inv that(1) by (simp add: directory_inv_def)
    then have "listing_ok a" by (rule that(2))
    then have "distinct (map su_id (ag_conversations a))" by (metis listing_ok_def)
    then show ?thesis using inv by (simp add: directory_inv_def list_complete_def list_taken_def list_asked_def)
  qed
  show "directory_inv (list_continued q' g v)"
    if q: "map_get (cr_listRequests v) g = Some q" "wanted (lq_key q) g (cr_listGeneration v) v"
      "ag_pages (lq_aggregation q') = Suc (ag_pages (lq_aggregation q))" "ag_pages (lq_aggregation q') \<le> LIST_PAGE_BUDGET"
      "listing_ok (lq_aggregation q) \<Longrightarrow> listing_ok (lq_aggregation q')" for q q' g
    using inv q by (auto simp: directory_inv_def list_continued_def list_taken_def list_asked_def tell_cr_def wanted_def)
  show "directory_inv (list_begun k (Suc (cr_listGeneration v)) v)" if "cr_context v = Some c" for k c
    by (rule directory_begun [OF inv that]) simp
  show "directory_inv (fetchList k (cr_listGeneration (revoked ctx rk v)) (revoked ctx rk v))" if "ctx = Some c" for k ctx c rk
  proof -
    define u where "u = (revoked ctx rk v)\<lparr>cr_listGeneration := cr_listGeneration v\<rparr>"
    have "directory_inv u" by (rule directory_same [OF _ _ _ _ inv]) (simp_all add: u_def revoked_def list_asked_def Let_def)
    moreover have "u\<lparr>cr_listGeneration := cr_listGeneration (revoked ctx rk v)\<rparr> = revoked ctx rk v" by (simp add: u_def)
    moreover have "cr_context u = Some c" "cr_listGeneration u < cr_listGeneration (revoked ctx rk v)"
      using that by (simp_all add: u_def) (simp add: revoked_def Let_def)
    ultimately show ?thesis using directory_begun [of u c "cr_listGeneration (revoked ctx rk v)" k] by (simp add: list_begun_def)
  qed
  have moved: "directory_inv (moved ctx k rk v)" for ctx k rk
  proof -
    have "list_asked g (moved ctx k rk v) = list_asked g v" for g
      by (simp add: moved_def Let_def) (simp add: list_asked_def)
    then show ?thesis using inv by (simp add: directory_inv_def) (simp add: moved_def EMPTY_LIST_def Let_def)
  qed
  show "directory_inv (list_begun k (Suc (cr_listGeneration (moved ctx (Some k) rk v))) (moved ctx (Some k) rk v))" if "ctx = Some c" for k ctx c rk
    by (rule directory_begun [OF moved]) (use that in simp_all)
  show "directory_inv (moved None None None v)" by (rule moved)
  show "directory_inv (list_taken g v)" for g
    using inv by (auto simp: directory_inv_def list_taken_def list_asked_def)
  show "directory_inv (tell_cr (OlderAsked (Suc (cr_olderGeneration v)) c i cursor) (v\<lparr>cr_olderGeneration := Suc (cr_olderGeneration v),
      cr_olderRequests := map_set (Suc (cr_olderGeneration v)) key (cr_olderRequests v)\<rparr>))" for c i cursor key
    by (rule directory_same [OF _ _ _ _ inv]) (simp_all add: list_asked_def tell_cr_def)
qed (erule directory_same [rotated 4]; simp add: left_def halted_def list_asked_def)+

lemma directory_new: "directory_inv (new_conversation_runtime ad n)"
  by (simp add: directory_inv_def new_conversation_runtime_def EMPTY_LIST_def list_asked_def)

text \<open>
  C37. A refresh of the directory is finite: whatever the provider answers, and however often it asks for a restart, at most 32 pages
  are asked for under one generation, and the conversations that are shown are all different.
\<close>
theorem directory_refresh_bounded:
  "let r = foldl conversation_step (new_conversation_runtime ad n) es
   in (\<forall>g. list_asked g r \<le> 32) \<and> distinct (map su_id (sh_conversations (cr_snapshot r)))"
proof -
  have "directory_inv (foldl conversation_step (new_conversation_runtime ad n) es)"
    by (rule directory.run [OF directory_new placed_new]) (simp add: list_all_iff)
  moreover have "published (foldl conversation_step (new_conversation_runtime ad n) es)"
    by (rule snapshot.run_inv [OF published_new])
  ultimately show ?thesis by (simp add: directory_inv_def published_def shown_snapshot_def LIST_PAGE_BUDGET_def Let_def)
qed

section \<open>Whose messages are shown\<close>

text \<open>Some ready answer to a read of this conversation, asked for under this context, states the item.\<close>

definition stated_for :: "conversation_event set \<Rightarrow> conversation_runtime \<Rightarrow> string \<Rightarrow> string \<Rightarrow> item \<Rightarrow> bool" where
  "stated_for events r key i it \<longleftrightarrow> (\<exists>g c page. ad_contextKey (cr_adapter r) c = key \<and> pg_state page = ReadReady
     \<and> it \<in> set (the_default [] (sl_items (pg_slice page)))
     \<and> ((\<exists>source. NewestAnswered source g (Inr page) \<in> events \<and> NewestAsked g c i \<in> set (asks r))
        \<or> (\<exists>cursor. OlderAnswered g (Inr page) \<in> events \<and> OlderAsked g c i cursor \<in> set (asks r))))"

definition newest_asked :: "conversation_runtime \<Rightarrow> string \<times> bool \<Rightarrow> bool" where
  "newest_asked r q \<longleftrightarrow> (\<exists>c i. cr_contextKey r = Some (fst q) \<and> cr_loadedId r = Some i \<and> ad_contextKey (cr_adapter r) c = fst q
     \<and> NewestAsked (cr_newestGeneration r) c i \<in> set (asks r))"

definition older_asked :: "conversation_runtime \<Rightarrow> string \<Rightarrow> bool" where
  "older_asked r key \<longleftrightarrow> (\<exists>c i cursor. cr_contextKey r = Some key \<and> cr_loadedId r = Some i \<and> ad_contextKey (cr_adapter r) c = key
     \<and> OlderAsked (cr_olderGeneration r) c i cursor \<in> set (asks r))"

definition window_owned :: "conversation_event set \<Rightarrow> conversation_runtime \<Rightarrow> bool" where
  "window_owned events r \<longleftrightarrow> (\<forall>it \<in> set (pn_items (cr_positions r)). \<exists>i key.
     cr_contextKey r = Some key \<and> cr_loadedId r = Some i \<and> stated_for events r key i it)"

definition owned_inv :: "conversation_event set \<Rightarrow> conversation_runtime \<Rightarrow> bool" where
  "owned_inv events r \<longleftrightarrow> cr_contextKey r = map_option (ad_contextKey (cr_adapter r)) (cr_context r)
     \<and> current_only (cr_newestRequests r) (cr_newestGeneration r) (newest_asked r)
     \<and> current_only (cr_olderRequests r) (cr_olderGeneration r) (older_asked r)
     \<and> window_owned events r"

text \<open>What leaves the window, the requests and the place alone, or revokes the requests, keeps it.\<close>

lemma stated_mono: "stated_for events v key i it \<Longrightarrow> cr_adapter w = cr_adapter v \<Longrightarrow> set (asks v) \<subseteq> set (asks w) \<Longrightarrow> stated_for events w key i it"
  by (fastforce simp: stated_for_def)

lemma owned_same:
  assumes "owned_inv events v" "cr_adapter w = cr_adapter v" "set (asks v) \<subseteq> set (asks w)" "cr_contextKey w = cr_contextKey v"
    "cr_loadedId w = cr_loadedId v" "cr_positions w = cr_positions v" "map_option (ad_contextKey (cr_adapter v)) (cr_context w) = cr_contextKey v"
    "current_only (cr_newestRequests w) (cr_newestGeneration w) (newest_asked w)"
    "current_only (cr_olderRequests w) (cr_olderGeneration w) (older_asked w)"
  shows "owned_inv events w"
proof -
  have "window_owned events w" using assms(1) stated_mono [OF _ assms(2,3)] unfolding owned_inv_def window_owned_def assms(4-6) by blast
  then show ?thesis using assms by (simp add: owned_inv_def)
qed

lemma current_imp: "current_only m n p \<Longrightarrow> (\<And>q. p q \<Longrightarrow> p' q) \<Longrightarrow> current_only m n p'"
  by (simp add: current_only_def)

lemma newest_still:
  assumes "owned_inv events v" "cr_adapter w = cr_adapter v" "set (asks v) \<subseteq> set (asks w)" "cr_contextKey w = cr_contextKey v"
    "cr_loadedId w = cr_loadedId v" "cr_newestGeneration w = cr_newestGeneration v"
  shows "current_only (cr_newestRequests v) (cr_newestGeneration w) (newest_asked w)"
proof -
  have "current_only (cr_newestRequests v) (cr_newestGeneration v) (newest_asked v)" using assms(1) by (simp add: owned_inv_def)
  moreover have "newest_asked v q \<Longrightarrow> newest_asked w q" for q unfolding newest_asked_def assms(2,4-6) using assms(3) by blast
  ultimately show ?thesis unfolding assms(6) by (rule current_imp)
qed

lemma older_still:
  assumes "owned_inv events v" "cr_adapter w = cr_adapter v" "set (asks v) \<subseteq> set (asks w)" "cr_contextKey w = cr_contextKey v"
    "cr_loadedId w = cr_loadedId v" "cr_olderGeneration w = cr_olderGeneration v"
  shows "current_only (cr_olderRequests v) (cr_olderGeneration w) (older_asked w)"
proof -
  have "current_only (cr_olderRequests v) (cr_olderGeneration v) (older_asked v)" using assms(1) by (simp add: owned_inv_def)
  moreover have "older_asked v q \<Longrightarrow> older_asked w q" for q unfolding older_asked_def assms(2,4-6) using assms(3) by blast
  ultimately show ?thesis unfolding assms(6) by (rule current_imp)
qed

lemma owned_alike:
  assumes "owned_inv events v" "cr_adapter w = cr_adapter v" "set (asks v) \<subseteq> set (asks w)" "cr_contextKey w = cr_contextKey v"
    "cr_loadedId w = cr_loadedId v" "cr_positions w = cr_positions v" "map_option (ad_contextKey (cr_adapter v)) (cr_context w) = cr_contextKey v"
    "cr_newestGeneration w = cr_newestGeneration v" "cr_olderGeneration w = cr_olderGeneration v"
    "cr_newestRequests w = cr_newestRequests v" "cr_olderRequests w = cr_olderRequests v"
  shows "owned_inv events w"
  using newest_still [OF assms(1-5,8)] older_still [OF assms(1-5,9)] by (intro owned_same [OF assms(1-7)]) (simp_all add: assms(10,11))

lemma asks_updates [simp]:
  "asks (r\<lparr>cr_newestInFlight := a1\<rparr>) = asks r" "asks (r\<lparr>cr_newestPending := a2\<rparr>) = asks r" "asks (r\<lparr>cr_newestGeneration := a3\<rparr>) = asks r"
  "asks (r\<lparr>cr_newestRequests := a4\<rparr>) = asks r" "asks (r\<lparr>cr_olderRequests := a5\<rparr>) = asks r" "asks (r\<lparr>cr_listRequests := a6\<rparr>) = asks r"
  "asks (r\<lparr>cr_listGeneration := a7\<rparr>) = asks r" "asks (r\<lparr>cr_olderGeneration := a8\<rparr>) = asks r" "asks (r\<lparr>cr_list := a9\<rparr>) = asks r"
  "asks (r\<lparr>cr_thread := a10\<rparr>) = asks r" "asks (r\<lparr>cr_positions := a11\<rparr>) = asks r" "asks (r\<lparr>cr_disposed := a12\<rparr>) = asks r"
  "asks (r\<lparr>cr_context := a13\<rparr>) = asks r" "asks (r\<lparr>cr_settling := a14\<rparr>) = asks r" "asks (r\<lparr>cr_listeners := a15\<rparr>) = asks r"
  "asks (r\<lparr>cr_chosen := a16\<rparr>) = asks r" "asks (r\<lparr>cr_contextKey := a17\<rparr>) = asks r" "asks (r\<lparr>cr_requestKey := a18\<rparr>) = asks r"
  "asks (r\<lparr>cr_loadedId := a19\<rparr>) = asks r"
  by (simp_all add: asks_def)

lemma asks_quiet [simp]: "asks (emit r) = asks r" "asks (stopRefresh r) = asks r"
  using quiet_emit quiet_stop by (simp_all add: quiet_def)

lemma merging_subset: "set (merging held arriving) \<subseteq> set held \<union> set arriving"
proof -
  have "the_default it (map_get (by_id arriving) (item_id it)) \<in> set held \<union> set arriving" if "it \<in> set held" for it
    using that by (cases "map_get (by_id arriving) (item_id it)") (auto dest: by_id_get)
  then show ?thesis by (auto simp: merging_eq)
qed

lemma newest_subset: "set (pn_items (withNewest p page)) \<subseteq> set (pn_items p) \<union> set (the_default [] (sl_items page))"
  using merging_subset by (simp add: withNewest_def)

lemma older_subset: "set (pn_items (withOlderPage p page)) \<subseteq> set (pn_items p) \<union> set (the_default [] (sl_items page))"
proof -
  have "set (merging (pn_items p) (filter P (the_default [] (sl_items page)))) \<subseteq> set (pn_items p) \<union> set (the_default [] (sl_items page))" for P
    using merging_subset [of "pn_items p"] by fastforce
  then show ?thesis by (auto simp: withOlderPage_def Let_def)
qed

lemma owned_emptied:
  assumes "owned_inv events v" "cr_positions w = emptyPositions" "cr_contextKey w = map_option (ad_contextKey (cr_adapter w)) (cr_context w)"
    "cr_newestGeneration v < cr_newestGeneration w" "cr_olderGeneration v < cr_olderGeneration w"
    "cr_newestRequests w = cr_newestRequests v" "cr_olderRequests w = cr_olderRequests v"
  shows "owned_inv events w"
  using assms unfolding owned_inv_def by (auto simp: window_owned_def emptyPositions_def)

lemma owned_fetch:
  assumes "owned_inv events v"
  shows "owned_inv events (fetchList k g v)"
proof (cases "cr_context v")
  case (Some c)
  show ?thesis using assms
    by (rule owned_alike) (use assms in \<open>simp_all add: fetchList_asks [OF Some] asks_tell owned_inv_def subset_insertI\<close>)
qed (simp add: fetchList_def assms)

lemma window_grows:
  assumes "owned_inv events v" "cr_adapter w = cr_adapter v" "asks w = asks v" "cr_contextKey w = Some key" "cr_contextKey v = Some key"
    "cr_loadedId w = Some i" "cr_loadedId v = Some i" "set (pn_items (cr_positions w)) \<subseteq> set (pn_items (cr_positions v)) \<union> added"
    "\<And>it. it \<in> added \<Longrightarrow> stated_for events w key i it"
  shows "window_owned events w"
  unfolding window_owned_def
proof
  fix it assume "it \<in> set (pn_items (cr_positions w))"
  then consider "it \<in> set (pn_items (cr_positions v))" | "it \<in> added" using assms(8) by blast
  then have "stated_for events w key i it"
  proof cases
    case 1
    then have "stated_for events v key i it" using assms(1,5,7) by (fastforce simp: owned_inv_def window_owned_def)
    then show ?thesis by (rule stated_mono) (simp_all add: assms(2,3))
  qed (rule assms(9))
  then show "\<exists>i key. cr_contextKey w = Some key \<and> cr_loadedId w = Some i \<and> stated_for events w key i it" using assms(4,6) by blast
qed

lemma asks_moved: "asks (moved ctx k rk v) = asks v"
  by (simp add: moved_def Let_def)

lemma owned_moved:
  assumes "owned_inv events v" "k = map_option (ad_contextKey (cr_adapter v)) ctx"
  shows "owned_inv events (moved ctx k rk v)"
  using assms(1) by (rule owned_emptied) (simp_all add: moved_def assms(2) Let_def)

interpretation owned: reader_invariant "owned_inv events" "\<lambda>e. e \<in> events" for events
proof
  fix v w assume inv: "owned_inv events v"
  then have placed: "map_option (ad_contextKey (cr_adapter v)) (cr_context v) = cr_contextKey v" by (simp add: owned_inv_def)
  show "owned_inv events w" if "quiet w v"
  proof -
    have same: "core w = core v" "reads w = reads v" "asks w = asks v" using that by (simp_all add: quiet_def)
    show ?thesis using inv
      by (rule owned_alike) (simp_all only: core_fields [OF same(1)] reads_fields [OF same(2)] same(3) placed order_refl)
  qed
  show "owned_inv events (startNewest report v)" for report
  proof (cases "\<exists>key i c. cr_contextKey v = Some key \<and> cr_loadedId v = Some i \<and> cr_context v = Some c")
    case True
    then obtain key i c where at: "cr_contextKey v = Some key" "cr_loadedId v = Some i" "cr_context v = Some c" by blast
    define w where "w = startNewest report v"
    have w: "cr_newestRequests w = map_set (Suc (cr_newestGeneration v)) (key, report) (cr_newestRequests v)"
      "cr_newestGeneration w = Suc (cr_newestGeneration v)" "asks w = asks v @ [NewestAsked (Suc (cr_newestGeneration v)) c i]"
      by (simp_all add: w_def startNewest_def at Let_def asks_tell)
    have "newest_asked w (key, report)"
      unfolding newest_asked_def by (intro exI [of _ c] exI [of _ i]) (use placed at w in \<open>auto simp: w_def\<close>)
    then have "current_only (cr_newestRequests w) (cr_newestGeneration w) (newest_asked w)"
      unfolding w(1,2) using inv by (intro current_set [of _ "cr_newestGeneration v" "newest_asked v"]) (simp_all add: owned_inv_def)
    moreover have "current_only (cr_olderRequests w) (cr_olderGeneration w) (older_asked w)"
      using older_still [OF inv, of w] w(3) by (simp add: w_def subset_insertI)
    ultimately show ?thesis unfolding w_def [symmetric]
      by (intro owned_same [OF inv]) (use placed w(3) in \<open>simp_all add: w_def subset_insertI\<close>)
  next
    case False
    then have "startNewest report v = v\<lparr>cr_newestPending := False\<rparr>" by (auto simp: startNewest_def split: option.split)
    then show ?thesis using owned_alike [OF inv, of "v\<lparr>cr_newestPending := False\<rparr>"] placed by (simp add: asks_def)
  qed
  show "owned_inv events (v\<lparr>cr_newestRequests := map_delete g (cr_newestRequests v)\<rparr>)" for g
    using newest_still [OF inv, of "v\<lparr>cr_newestRequests := map_delete g (cr_newestRequests v)\<rparr>"]
      older_still [OF inv, of "v\<lparr>cr_newestRequests := map_delete g (cr_newestRequests v)\<rparr>"] placed
    by (intro owned_same [OF inv]) (simp_all add: asks_def current_delete)
  show "owned_inv events (v\<lparr>cr_olderRequests := map_delete g (cr_olderRequests v)\<rparr>)" for g
    using newest_still [OF inv, of "v\<lparr>cr_olderRequests := map_delete g (cr_olderRequests v)\<rparr>"]
      older_still [OF inv, of "v\<lparr>cr_olderRequests := map_delete g (cr_olderRequests v)\<rparr>"] placed
    by (intro owned_same [OF inv]) (simp_all add: asks_def current_delete)
  show "owned_inv events (list_begun k (Suc (cr_listGeneration v)) v)" for k
    unfolding list_begun_def by (rule owned_fetch, rule owned_alike [OF inv]) (simp_all add: placed asks_def)
  show "owned_inv events (moved None None None v)" by (rule owned_moved [OF inv]) simp
  show "owned_inv events (list_begun k (Suc (cr_listGeneration (moved ctx (Some k) rk v))) (moved ctx (Some k) rk v))"
    if "ctx = Some c" "k = ad_contextKey (cr_adapter v) c" for ctx c k rk
  proof -
    have m: "owned_inv events (moved ctx (Some k) rk v)" by (rule owned_moved [OF inv]) (simp add: that)
    show ?thesis unfolding list_begun_def
      by (rule owned_fetch, rule owned_alike [OF m]) (use m in \<open>simp_all add: owned_inv_def\<close>)
  qed
  show "owned_inv events (fetchList k (cr_listGeneration (revoked ctx rk v)) (revoked ctx rk v))"
    if "ctx = Some c" "k = ad_contextKey (cr_adapter v) c" "cr_contextKey v = Some k" for ctx c k rk
  proof (rule owned_fetch)
    define w where "w = revoked ctx rk v"
    have w: "cr_newestGeneration v < cr_newestGeneration w" "cr_olderGeneration v < cr_olderGeneration w"
      "cr_newestRequests w = cr_newestRequests v" "cr_olderRequests w = cr_olderRequests v" "asks w = asks v"
      "cr_adapter w = cr_adapter v" "cr_positions w = cr_positions v"
      by (simp_all add: w_def revoked_def Let_def asks_def)
    have "current_only (cr_newestRequests w) (cr_newestGeneration w) (newest_asked w)"
      "current_only (cr_olderRequests w) (cr_olderGeneration w) (older_asked w)"
      using inv w unfolding owned_inv_def by (auto simp only: w(3,4) intro: current_later)
    then show "owned_inv events (revoked ctx rk v)" unfolding w_def [symmetric]
      by (intro owned_same [OF inv]) (use w that in \<open>simp_all add: w_def\<close>)
  qed
  show "owned_inv events (left i v)" for i
    by (rule owned_emptied [OF inv]) (simp_all add: left_def placed)
  show "owned_inv events (halted v)"
    using inv by (intro owned_same [OF inv]) (auto simp: halted_def asks_def owned_inv_def)
  show "owned_inv events (v\<lparr>cr_newestRequests := map_delete g (cr_newestRequests v), cr_positions := withNewest (cr_positions v) (pg_slice page)\<rparr>)"
    if "well_placed v" "map_get (cr_newestRequests v) g = Some (key, report)" "wanted key g (cr_newestGeneration v) v"
      "pg_state page = ReadReady" "NewestAnswered source g (Inr page) \<in> events" for g key report page source
  proof -
    define w where "w = v\<lparr>cr_newestRequests := map_delete g (cr_newestRequests v), cr_positions := withNewest (cr_positions v) (pg_slice page)\<rparr>"
    have g: "g = cr_newestGeneration v" using that(3) by (simp add: wanted_def)
    have "current_only (cr_newestRequests v) (cr_newestGeneration v) (newest_asked v)" using inv by (simp add: owned_inv_def)
    from currentD [OF this that(2)] have "newest_asked v (key, report)" using g by simp
    then obtain c i where "cr_contextKey v = Some key" "cr_loadedId v = Some i" "ad_contextKey (cr_adapter v) c = key"
        "NewestAsked g c i \<in> set (asks v)" unfolding newest_asked_def g by auto
    then have "it \<in> set (the_default [] (sl_items (pg_slice page))) \<Longrightarrow> stated_for events w key i it" for it
      unfolding stated_for_def by (intro exI [of _ g] exI [of _ c] exI [of _ page]) (use that(4,5) in \<open>auto simp: w_def\<close>)
    from window_grows [OF inv _ _ _ _ _ _ _ this] have "window_owned events w"
      using newest_subset [of "cr_positions v" "pg_slice page"] \<open>cr_contextKey v = Some key\<close> \<open>cr_loadedId v = Some i\<close> by (simp add: w_def)
    then show ?thesis unfolding w_def [symmetric] using inv
      by (auto simp: owned_inv_def w_def newest_asked_def older_asked_def elim!: current_imp)
  qed
  show "owned_inv events (v\<lparr>cr_olderRequests := map_delete g (cr_olderRequests v), cr_positions := withOlderPage (cr_positions v) (pg_slice page)\<rparr>)"
    if "well_placed v" "map_get (cr_olderRequests v) g = Some key" "wanted key g (cr_olderGeneration v) v"
      "pg_state page = ReadReady" "OlderAnswered g (Inr page) \<in> events" for g key page
  proof -
    define w where "w = v\<lparr>cr_olderRequests := map_delete g (cr_olderRequests v), cr_positions := withOlderPage (cr_positions v) (pg_slice page)\<rparr>"
    have g: "g = cr_olderGeneration v" using that(3) by (simp add: wanted_def)
    have "current_only (cr_olderRequests v) (cr_olderGeneration v) (older_asked v)" using inv by (simp add: owned_inv_def)
    from currentD [OF this that(2)] have "older_asked v key" using g by simp
    then obtain c i cursor where "cr_contextKey v = Some key" "cr_loadedId v = Some i" "ad_contextKey (cr_adapter v) c = key"
        "OlderAsked g c i cursor \<in> set (asks v)" unfolding older_asked_def g by auto
    then have "it \<in> set (the_default [] (sl_items (pg_slice page))) \<Longrightarrow> stated_for events w key i it" for it
      unfolding stated_for_def by (intro exI [of _ g] exI [of _ c] exI [of _ page]) (use that(4,5) in \<open>auto simp: w_def\<close>)
    from window_grows [OF inv _ _ _ _ _ _ _ this] have "window_owned events w"
      using older_subset [of "cr_positions v" "pg_slice page"] \<open>cr_contextKey v = Some key\<close> \<open>cr_loadedId v = Some i\<close> by (simp add: w_def)
    then show ?thesis unfolding w_def [symmetric] using inv
      by (auto simp: owned_inv_def w_def newest_asked_def older_asked_def elim!: current_imp)
  qed
  show "owned_inv events (tell_cr (OlderAsked (Suc (cr_olderGeneration v)) c i cursor) (v\<lparr>cr_olderGeneration := Suc (cr_olderGeneration v),
      cr_olderRequests := map_set (Suc (cr_olderGeneration v)) key (cr_olderRequests v)\<rparr>))"
    if "cr_contextKey v = Some key" "cr_context v = Some c" "cr_loadedId v = Some i" for c i cursor key
  proof -
    define w where "w = tell_cr (OlderAsked (Suc (cr_olderGeneration v)) c i cursor) (v\<lparr>cr_olderGeneration := Suc (cr_olderGeneration v),
      cr_olderRequests := map_set (Suc (cr_olderGeneration v)) key (cr_olderRequests v)\<rparr>)"
    have w: "asks w = asks v @ [OlderAsked (Suc (cr_olderGeneration v)) c i cursor]" by (simp add: w_def asks_tell)
    have "older_asked w key"
      unfolding older_asked_def by (intro exI [of _ c] exI [of _ i] exI [of _ cursor]) (use placed that w in \<open>auto simp: w_def\<close>)
    then have "current_only (map_set (Suc (cr_olderGeneration v)) key (cr_olderRequests v)) (Suc (cr_olderGeneration v)) (older_asked w)"
      using inv by (intro current_set [of _ "cr_olderGeneration v" "older_asked v"]) (simp_all add: owned_inv_def)
    moreover have "current_only (cr_newestRequests v) (cr_newestGeneration v) (newest_asked w)"
      using newest_still [OF inv, of w] w by (simp add: w_def subset_insertI)
    ultimately show ?thesis unfolding w_def [symmetric]
      by (intro owned_same [OF inv]) (use placed w in \<open>simp_all add: w_def subset_insertI\<close>)
  qed
  show "owned_inv events (list_continued q' g v)" for q' g
    by (rule owned_alike [OF inv]) (simp_all add: placed list_continued_def list_taken_def asks_tell subset_insertI)
  show "owned_inv events (v\<lparr>cr_newestInFlight := a, cr_newestPending := b\<rparr>)" for a b
    by (rule owned_alike [OF inv]) (simp_all add: placed)
  show "owned_inv events (list_taken g v)" for g by (rule owned_alike [OF inv]) (simp_all add: placed list_taken_def)
  show "owned_inv events (v\<lparr>cr_settling := a, cr_listeners := b\<rparr>)" for a b by (rule owned_alike [OF inv]) (simp_all add: placed)
  show "owned_inv events (v\<lparr>cr_thread := t\<rparr>)" for t by (rule owned_alike [OF inv]) (simp_all add: placed)
  show "owned_inv events (v\<lparr>cr_chosen := a\<rparr>)" for a by (rule owned_alike [OF inv]) (simp_all add: placed)
  show "owned_inv events (list_said a b g v)" for a b g by (rule owned_alike [OF inv]) (simp_all add: placed list_said_def list_taken_def)
  show "owned_inv events (list_complete a g v)" for a g by (rule owned_alike [OF inv]) (simp_all add: placed list_complete_def list_taken_def)
  show "owned_inv events (v\<lparr>cr_disposed := False, cr_context := ctx\<rparr>)"
    if "cr_contextKey v = map_option (ad_contextKey (cr_adapter v)) ctx" for ctx
    by (rule owned_alike [OF inv]) (simp_all add: that)
qed

text \<open>A generation names one read.\<close>

definition once_inv :: "conversation_runtime \<Rightarrow> bool" where
  "once_inv v \<longleftrightarrow>
     (\<forall>g c i. NewestAsked g c i \<in> set (asks v) \<longrightarrow> g \<le> cr_newestGeneration v \<and> (\<forall>c' i'. NewestAsked g c' i' \<in> set (asks v) \<longrightarrow> c' = c \<and> i' = i))
     \<and> (\<forall>g c i k. OlderAsked g c i k \<in> set (asks v) \<longrightarrow> g \<le> cr_olderGeneration v
           \<and> (\<forall>c' i' k'. OlderAsked g c' i' k' \<in> set (asks v) \<longrightarrow> c' = c \<and> i' = i \<and> k' = k))
     \<and> (\<forall>g c k. ListAsked g c k \<in> set (asks v) \<longrightarrow> g \<le> cr_listGeneration v)"

lemma once_alike:
  assumes "once_inv v" "asks w = asks v" "cr_newestGeneration v \<le> cr_newestGeneration w" "cr_olderGeneration v \<le> cr_olderGeneration w"
    "cr_listGeneration v \<le> cr_listGeneration w"
  shows "once_inv w"
  using assms unfolding once_inv_def assms(2) by (meson le_trans)

lemma once_fetch: "once_inv v \<Longrightarrow> g = cr_listGeneration v \<Longrightarrow> once_inv (fetchList k g v)"
proof (cases "cr_context v")
  case (Some c)
  assume "once_inv v" "g = cr_listGeneration v"
  then show ?thesis by (auto simp: fetchList_asks [OF Some] once_inv_def asks_tell)
qed (simp add: fetchList_def)

lemma once_moved: "once_inv v \<Longrightarrow> once_inv (moved ctx k rk v)"
  by (erule once_alike) (simp_all add: asks_moved, simp_all add: moved_def Let_def)

interpretation once: reader_invariant once_inv "\<lambda>_. True"
proof
  fix v w assume inv: "once_inv v"
  show "once_inv w" if "quiet w v"
  proof -
    have same: "core w = core v" "reads w = reads v" "asks w = asks v" using that by (simp_all add: quiet_def)
    show ?thesis using inv
      by (rule once_alike) (simp_all only: core_fields [OF same(1)] reads_fields [OF same(2)] same(3) order_refl)
  qed
  show "once_inv (startNewest report v)" for report
  proof -
    have "NewestAsked (Suc (cr_newestGeneration v)) c i \<notin> set (asks v)" for c i using inv unfolding once_inv_def by (metis not_less_eq_eq order_refl)
    then show ?thesis using inv by (auto simp: startNewest_def Let_def once_inv_def asks_tell intro: le_SucI split: option.split)
  qed
  show "once_inv (tell_cr (OlderAsked (Suc (cr_olderGeneration v)) c i cursor) (v\<lparr>cr_olderGeneration := Suc (cr_olderGeneration v),
      cr_olderRequests := map_set (Suc (cr_olderGeneration v)) key (cr_olderRequests v)\<rparr>))" for c i cursor key
  proof -
    have "OlderAsked (Suc (cr_olderGeneration v)) c i k \<notin> set (asks v)" for c i k using inv unfolding once_inv_def by (metis not_less_eq_eq order_refl)
    then show ?thesis using inv by (auto simp: once_inv_def asks_tell intro: le_SucI)
  qed
  show "once_inv (list_continued q' g v)" if "wanted (lq_key q) g (cr_listGeneration v) v" for q q' g
    using inv that by (auto simp: list_continued_def list_taken_def once_inv_def asks_tell wanted_def)
  show "once_inv (list_begun k (Suc (cr_listGeneration v)) v)" for k
    unfolding list_begun_def by (rule once_fetch, rule once_alike [OF inv]) simp_all
  show "once_inv (fetchList k (cr_listGeneration (revoked ctx rk v)) (revoked ctx rk v))" for k ctx rk
    by (rule once_fetch, rule once_alike [OF inv]) (simp_all add: revoked_def Let_def)
  show "once_inv (list_begun k (Suc (cr_listGeneration (moved ctx (Some k) rk v))) (moved ctx (Some k) rk v))" for k ctx rk
    unfolding list_begun_def by (rule once_fetch, rule once_alike [OF once_moved [OF inv, of ctx "Some k" rk]]) simp_all
  show "once_inv (moved None None None v)" by (rule once_moved [OF inv])
qed (erule once_alike; simp add: list_taken_def list_said_def list_complete_def left_def halted_def)+

lemma identity_fields [simp]: "cr_identity (fetchList key g v) = cr_identity v" "cr_identity (moved ctx k rk v) = cr_identity v"
  "cr_identity (revoked ctx rk v) = cr_identity v"
  by (simp_all add: fetchList_def ask_page_def list_failed_def moved_def revoked_def Let_def split: option.split sum.split)

interpretation identity: reader_invariant "\<lambda>v. cr_identity v = n" "\<lambda>_. True" for n
proof
  show "cr_identity w = n" if "quiet w v" "cr_identity v = n" for v w
    using that core_fields(2) [of w v] by (simp add: quiet_def)
qed (simp_all add: list_taken_def list_said_def list_complete_def list_continued_def list_begun_def left_def halted_def)

lemma asked_told: "asked c \<Longrightarrow> c \<in> set (cr_told v) \<longleftrightarrow> c \<in> set (asks v)"
  by (simp add: asks_def)

lemma run_invs:
  fixes ad n es
  defines "r \<equiv> foldl conversation_step (new_conversation_runtime ad n) es"
  shows "well_placed r" "published r" "once_inv r" "owned_inv (set es) r" "directory_inv r" "slot_inv {} r" "cr_identity r = n"
proof -
  show "cr_identity r = n" unfolding r_def
    by (rule identity.run [OF _ placed_new]) (simp_all add: list_all_iff new_conversation_runtime_def)
  show "well_placed r" unfolding r_def by (rule placed.run_inv [OF placed_new])
  show "published r" unfolding r_def by (rule snapshot.run_inv [OF published_new])
  show "once_inv r" unfolding r_def
    by (rule once.run [OF _ placed_new]) (simp_all add: list_all_iff, simp add: once_inv_def new_conversation_runtime_def asks_def)
  show "owned_inv (set es) r" unfolding r_def
    by (rule owned.run [OF _ placed_new])
      (simp_all add: list_all_iff owned_inv_def new_conversation_runtime_def current_only_def window_owned_def emptyPositions_def)
  show "directory_inv r" unfolding r_def by (rule directory.run [OF directory_new placed_new]) (simp add: list_all_iff)
  show "slot_inv {} r" unfolding r_def by (rule slot.run_inv) (simp add: slot_inv_def new_conversation_runtime_def)
qed

text \<open>
  C38. Messages never cross between conversations: every item on show was stated by a ready answer to a read that asked for the very
  conversation the snapshot says is open, under a context of the same conversation space; the key the surface is told to identify
  the conversation by names that space and that conversation. A generation names one read, so an answer cannot be taken for that of another.
\<close>
theorem reader_shows_open_conversation:
  "let r = foldl conversation_step (new_conversation_runtime ad n) es; s = cr_snapshot r
   in (\<forall>it \<in> set (sh_items s). \<exists>i key. sh_openId s = Some i
         \<and> sh_conversationKey s = Some (decimal n @ [CHR 0x00] @ key @ [CHR 0x00] @ i) \<and> stated_for (set es) r key i it)
      \<and> (\<forall>g c i c' i'. NewestAsked g c i \<in> set (cr_told r) \<longrightarrow> NewestAsked g c' i' \<in> set (cr_told r) \<longrightarrow> c' = c \<and> i' = i)
      \<and> (\<forall>g c i k c' i' k'. OlderAsked g c i k \<in> set (cr_told r) \<longrightarrow> OlderAsked g c' i' k' \<in> set (cr_told r) \<longrightarrow> c' = c \<and> i' = i \<and> k' = k)"
proof -
  define r where "r = foldl conversation_step (new_conversation_runtime ad n) es"
  have invs: "well_placed r" "published r" "once_inv r" "owned_inv (set es) r" unfolding r_def by (rule run_invs)+
  have identity: "cr_identity r = n" unfolding r_def by (rule run_invs)
  have "sh_openId (cr_snapshot r) = Some i \<and> sh_conversationKey (cr_snapshot r) = Some (decimal n @ [CHR 0x00] @ key @ [CHR 0x00] @ i)"
    if "cr_contextKey r = Some key" "cr_loadedId r = Some i" for key i
  proof -
    have "open_id r = Some i" using invs(1) that(2) by (simp add: well_placed_def opened_def)
    then show ?thesis using invs(2) that(1) identity by (simp add: published_def shown_snapshot_def conversationKey_def Let_def)
  qed
  moreover have "sh_items (cr_snapshot r) = pn_items (cr_positions r)" using invs(2) by (simp add: published_def shown_snapshot_def itemsOf_def Let_def)
  ultimately have "\<forall>it \<in> set (sh_items (cr_snapshot r)). \<exists>i key. sh_openId (cr_snapshot r) = Some i
      \<and> sh_conversationKey (cr_snapshot r) = Some (decimal n @ [CHR 0x00] @ key @ [CHR 0x00] @ i) \<and> stated_for (set es) r key i it"
    using invs(4) by (fastforce simp: owned_inv_def window_owned_def)
  then show ?thesis using invs(3) unfolding r_def [symmetric] Let_def once_inv_def by (simp add: asked_told)
qed

theorem reader_shows_open_conversation_witness:
  "\<exists>key. sh_conversationKey (cr_snapshot (demo_reader demo_paging)) = Some (decimal 1 @ [CHR 0x00] @ key @ [CHR 0x00] @ ''c'')
     \<and> stated_for (set demo_paging) (demo_reader demo_paging) key ''c'' (UnknownItem ''m1'' None)"
proof -
  define s where "s = cr_snapshot (demo_reader demo_paging)"
  have s: "sh_items s = [UnknownItem ''m1'' None, UnknownItem ''m2'' None]" "sh_openId s = Some ''c''"
    using demo_paged by (simp_all add: s_def Let_def)
  have "\<forall>it \<in> set (sh_items s). \<exists>i key. sh_openId s = Some i \<and> sh_conversationKey s = Some (decimal 1 @ [CHR 0x00] @ key @ [CHR 0x00] @ i)
      \<and> stated_for (set demo_paging) (demo_reader demo_paging) key i it"
    using reader_shows_open_conversation [of demo_adapter 1 demo_paging] unfolding demo_reader_def [symmetric] s_def [symmetric] Let_def by (rule conjunct1)
  then show ?thesis unfolding s_def [symmetric] s by simp
qed

section \<open>Revoked requests\<close>

text \<open>A context of another space, of another request authority, none at all, or the end of the runtime.\<close>

definition request_key :: "adapter \<Rightarrow> string option \<Rightarrow> string option" where
  "request_key ad ctx = (case ctx of None \<Rightarrow> None
     | Some c \<Rightarrow> (case ad_requestKey ad of None \<Rightarrow> Some (ad_contextKey ad c) | Some f \<Rightarrow> Some (f c)))"

definition revokes :: "conversation_runtime \<Rightarrow> conversation_event \<Rightarrow> bool" where
  "revokes r e = (case e of
       SetContext source ctx \<Rightarrow> ctx = None \<or> map_option (ad_contextKey (cr_adapter r)) ctx \<noteq> cr_contextKey r
         \<or> request_key (cr_adapter r) ctx \<noteq> cr_requestKey r
     | DisposeConversation \<Rightarrow> True
     | _ \<Rightarrow> False)"

definition answers_earlier :: "conversation_runtime \<Rightarrow> conversation_event \<Rightarrow> bool" where
  "answers_earlier r e = (case e of
       ListAnswered g answer \<Rightarrow> \<exists>c cursor. ListAsked g c cursor \<in> set (cr_told r)
     | NewestAnswered source g answer \<Rightarrow> \<exists>c i. NewestAsked g c i \<in> set (cr_told r)
     | OlderAnswered g answer \<Rightarrow> \<exists>c i cursor. OlderAsked g c i cursor \<in> set (cr_told r)
     | _ \<Rightarrow> False)"

definition on_show :: "conversation_runtime \<Rightarrow> list_state \<times> thread_state \<times> positions \<times> string option \<times> conversation_snapshot" where
  "on_show r = (cr_list r, cr_thread r, cr_positions r, cr_loadedId r, cr_snapshot r)"

definition superseding :: "nat \<Rightarrow> nat \<Rightarrow> nat \<Rightarrow> conversation_runtime \<Rightarrow> bool" where
  "superseding n l o' v \<longleftrightarrow> n < cr_newestGeneration v \<and> o' < cr_olderGeneration v
     \<and> (l < cr_listGeneration v \<or> l \<le> cr_listGeneration v \<and> cr_contextKey v = None)"

lemma generations_fetch [simp]: "cr_newestGeneration (fetchList key g v) = cr_newestGeneration v"
  "cr_olderGeneration (fetchList key g v) = cr_olderGeneration v" "cr_listGeneration (fetchList key g v) = cr_listGeneration v"
  by (simp_all add: fetchList_def ask_page_def list_failed_def split: option.split sum.split)

lemma generations_moved [simp]: "cr_newestGeneration (moved ctx k rk v) = Suc (cr_newestGeneration v)"
  "cr_olderGeneration (moved ctx k rk v) = Suc (cr_olderGeneration v)" "cr_listGeneration (moved ctx k rk v) = cr_listGeneration v"
  by (simp_all add: moved_def Let_def)

lemma generations_revoked [simp]: "cr_newestGeneration (revoked ctx rk v) = Suc (cr_newestGeneration v)"
  "cr_olderGeneration (revoked ctx rk v) = Suc (cr_olderGeneration v)" "cr_listGeneration (revoked ctx rk v) = Suc (Suc (cr_listGeneration v))"
  by (simp_all add: revoked_def Let_def)

interpretation superseding: reader_invariant "superseding n l o'" "\<lambda>_. True" for n l o'
proof
  fix v w assume inv: "superseding n l o' v"
  show "superseding n l o' w" if "quiet w v"
  proof -
    have same: "core w = core v" "reads w = reads v" using that by (simp_all add: quiet_def)
    show ?thesis using inv unfolding superseding_def core_fields [OF same(1)] reads_fields [OF same(2)] .
  qed
  show "superseding n l o' (startNewest report v)" for report
    using inv by (simp add: superseding_def) (simp add: startNewest_def Let_def less_SucI split: option.split)
qed (auto simp: superseding_def list_taken_def list_said_def list_complete_def list_continued_def list_begun_def left_def halted_def)

lemma revoked_supersedes:
  assumes "revokes r e"
  shows "superseding (cr_newestGeneration r) (cr_listGeneration r) (cr_olderGeneration r) (conversation_step r e)"
proof (cases e)
  case DisposeConversation
  then show ?thesis by (simp add: superseding_def dispose_conversation_def)
next
  case (SetContext source ctx)
  define S where "S = superseding (cr_newestGeneration r) (cr_listGeneration r) (cr_olderGeneration r)"
  show ?thesis
  proof (cases "ctx \<noteq> None \<and> map_option (ad_contextKey (cr_adapter r)) ctx = cr_contextKey r")
    case True
    then obtain c where c: "ctx = Some c" "cr_contextKey r = Some (ad_contextKey (cr_adapter r) c)" by auto
    have "request_key (cr_adapter r) ctx \<noteq> cr_requestKey r" using assms SetContext True by (simp add: revokes_def)
    then have "setContext source ctx r = syncRefresh source (rearm (ad_contextKey (cr_adapter r) c) (revoked ctx (request_key (cr_adapter r) ctx) r))"
      using c by (simp add: setContext_def rearm_def revoked_def request_key_def Let_def)
    moreover have "S (rearm k (revoked ctx rk r))" for k rk
    proof -
      have "S (fetchList k g (revoked ctx rk r))" for g by (simp add: S_def superseding_def)
      then show ?thesis by (simp add: rearm_def Let_def S_def superseding.request)
    qed
    ultimately show ?thesis using SetContext by (simp add: S_def superseding.sync)
  next
    case False
    have "S (setContext source ctx r)"
      by (rule setContext_rule) (use False in \<open>auto simp: S_def superseding_def\<close>)
    then show ?thesis using SetContext by (simp add: S_def)
  qed
qed (use assms in \<open>simp_all add: revokes_def\<close>)

lemma settle_shows [simp]: "on_show (settleNewest g v) = on_show v"
  by (simp add: on_show_def)

text \<open>
  C39. Once the context is replaced by one of another space or another request authority, is taken away, or the runtime is disposed, no
  answer to a request made before can change anything that is shown, whatever happens in between and however late it comes:
  neither the directory nor the thread nor the window nor the published snapshot.
\<close>
theorem revoked_requests_publish_nothing:
  assumes "r = foldl conversation_step (new_conversation_runtime ad n) es" "revokes r e"
    and "r' = foldl conversation_step (conversation_step r e) es'" "answers_earlier r late"
  shows "on_show (conversation_step r' late) = on_show r'"
proof -
  have once: "once_inv r" "well_placed r" unfolding assms(1) by (rule run_invs)+
  have sup: "superseding (cr_newestGeneration r) (cr_listGeneration r) (cr_olderGeneration r) r'"
    unfolding assms(3)
    by (rule superseding.run [OF revoked_supersedes [OF assms(2)] placed_step [OF once(2)]]) (simp add: list_all_iff)
  show ?thesis
  proof (cases late)
    case (ListAnswered g answer)
    then obtain c cursor where "ListAsked g c cursor \<in> set (asks r)" using assms(4) by (auto simp: answers_earlier_def asked_told)
    then have "g \<le> cr_listGeneration r" using once(1) unfolding once_inv_def by blast
    then have stale: "\<not> wanted key g (cr_listGeneration r') r'" for key using sup by (auto simp: superseding_def wanted_def)
    have "on_show (listAnswered g answer r') = on_show r'"
      by (rule listAnswered_rule) (use stale in \<open>auto simp: on_show_def list_taken_def list_failed_def wanted_def\<close>)
    then show ?thesis using ListAnswered by simp
  next
    case (NewestAnswered source g answer)
    then obtain c i where "NewestAsked g c i \<in> set (asks r)" using assms(4) by (auto simp: answers_earlier_def asked_told)
    then have "g \<le> cr_newestGeneration r" using once(1) unfolding once_inv_def by blast
    then have "g < cr_newestGeneration r'" using sup by (simp add: superseding_def)
    with NewestAnswered show ?thesis
      by (simp add: newestAnswered_def applyNewest_def failNewest_def wanted_def Let_def split: option.split sum.split) (simp add: on_show_def)
  next
    case (OlderAnswered g answer)
    then obtain c i cursor where "OlderAsked g c i cursor \<in> set (asks r)" using assms(4) by (auto simp: answers_earlier_def asked_told)
    then have "g \<le> cr_olderGeneration r" using once(1) unfolding once_inv_def by blast
    then have "g < cr_olderGeneration r'" using sup by (simp add: superseding_def)
    with OlderAnswered show ?thesis
      by (simp add: olderAnswered_def wanted_def Let_def split: option.split sum.split) (simp add: on_show_def)
  qed (use assms(4) in \<open>simp_all add: answers_earlier_def\<close>)
qed

theorem revoked_requests_publish_nothing_witness:
  "on_show (demo_reader (demo_opening @ [SetContext quiet_source (Some ''A2''), OlderAnswered 3 (Inr (demo_read ''m1'' None))]))
   = on_show (demo_reader (demo_opening @ [SetContext quiet_source (Some ''A2'')]))"
proof -
  have "revokes (demo_reader demo_opening) (SetContext quiet_source (Some ''A2''))"
  proof -
    have "cr_adapter (demo_reader demo_opening) = demo_adapter" by (simp add: demo_reader_def)
    then show ?thesis using demo_opened by (simp add: revokes_def request_key_def demo_adapter_def Let_def)
  qed
  moreover have "answers_earlier (demo_reader demo_opening) (OlderAnswered 3 (Inr (demo_read ''m1'' None)))"
    using demo_opened by (auto simp: answers_earlier_def Let_def)
  ultimately have "on_show (conversation_step (conversation_step (demo_reader demo_opening) (SetContext quiet_source (Some ''A2'')))
      (OlderAnswered 3 (Inr (demo_read ''m1'' None))))
    = on_show (conversation_step (demo_reader demo_opening) (SetContext quiet_source (Some ''A2'')))"
    by (rule revoked_requests_publish_nothing [OF demo_reader_def _ foldl_Nil [symmetric]])
  then show ?thesis by (simp add: demo_reader_append)
qed

end
