(* ===== verification/Reader_Spinners.thy ===== *)
theory Reader_Spinners
  imports Reader_Laws
begin

text \<open>No spinner is shown that no answer will end.\<close>

section \<open>The directory\<close>

definition list_spins :: "conversation_runtime \<Rightarrow> bool" where
  "list_spins v \<longleftrightarrow> (\<not> cr_disposed v \<and> ls_loading (cr_list v) \<and> cr_contextKey v \<noteq> None
     \<longrightarrow> map_get (cr_listRequests v) (cr_listGeneration v) \<noteq> None)"

lemma list_spins_fetch: "cr_context v = Some c \<Longrightarrow> g = cr_listGeneration v \<Longrightarrow> list_spins (fetchList k g v)"
  by (simp add: list_spins_def fetchList_asks)

interpretation list_spins: reader_invariant list_spins "\<lambda>_. True"
proof
  fix v w assume inv: "list_spins v"
  show "list_spins w" if "quiet w v"
  proof -
    have same: "core w = core v" using that by (simp add: quiet_def)
    show ?thesis using inv unfolding list_spins_def core_fields [OF same] .
  qed
  show "list_spins (startNewest report v)" for report using inv by (simp add: list_spins_def)
  show "list_spins (list_taken g v)" if "well_placed v" "map_get (cr_listRequests v) g = Some q"
    "\<not> wanted (lq_key q) g (cr_listGeneration v) v" for g q
  proof -
    have "current_only (cr_listRequests v) (cr_listGeneration v) (list_claim (cr_contextKey v))"
      using that(1) by (simp add: well_placed_def claims_def)
    from currentD [OF this that(2)] show ?thesis
      using inv that(3) by (auto simp: list_spins_def list_taken_def list_claim_def wanted_def)
  qed
  show "list_spins (list_begun k (Suc (cr_listGeneration v)) v)" if "cr_context v = Some c" for k c
    unfolding list_begun_def by (rule list_spins_fetch) (simp_all add: that)
  show "list_spins (fetchList k (cr_listGeneration (revoked ctx rk v)) (revoked ctx rk v))" if "ctx = Some c" for k ctx rk c
    by (rule list_spins_fetch) (simp_all add: that)
  show "list_spins (list_begun k (Suc (cr_listGeneration (moved ctx (Some k) rk v))) (moved ctx (Some k) rk v))" if "ctx = Some c" for k ctx rk c
    unfolding list_begun_def by (rule list_spins_fetch) (simp_all add: that)
qed (auto simp: list_spins_def list_said_def list_complete_def list_continued_def list_taken_def left_def halted_def)

text \<open>An answer to the current request ends the spinner or asks for the next page.\<close>

lemma list_thread [simp]: "cr_list (syncThread v) = cr_list v"
  by (rule syncThread_rule) (simp_all add: thread_reset_def)

lemma list_answer_progress:
  assumes placed: "well_placed v" and live: "\<not> cr_disposed v" "cr_contextKey v \<noteq> None"
    and q: "map_get (cr_listRequests v) (cr_listGeneration v) \<noteq> None"
  shows "\<not> ls_loading (cr_list (listAnswered (cr_listGeneration v) answer v))
    \<or> list_asked (cr_listGeneration v) (listAnswered (cr_listGeneration v) answer v) = Suc (list_asked (cr_listGeneration v) v)"
    (is "?P (listAnswered ?g answer v)")
proof -
  have claim: "wanted (lq_key q) ?g ?g v" if "map_get (cr_listRequests v) ?g = Some q" for q
  proof -
    have "current_only (cr_listRequests v) ?g (list_claim (cr_contextKey v))" using placed by (simp add: well_placed_def claims_def)
    from currentD [OF this that] show ?thesis using live by (simp add: wanted_def list_claim_def)
  qed
  have failed: "?P (list_failed (lq_key q) ?g err (list_taken ?g v))" if "map_get (cr_listRequests v) ?g = Some q" for q err
    using claim [OF that] by (simp add: list_failed_def wanted_def list_taken_def)
  show ?thesis
  proof (rule listAnswered_rule)
    fix q a cursor assume at: "map_get (cr_listRequests v) ?g = Some q"
    show "?P (ask_page ?g (q\<lparr>lq_aggregation := a, lq_cursor := cursor\<rparr>) (list_taken ?g v))"
    proof (cases "beginPage a")
      case (Inl err)
      then show ?thesis using failed [OF at, of "Some err"] by (simp add: ask_page_def)
    next
      case (Inr b)
      then show ?thesis by (simp add: ask_page_def list_asked_def list_taken_def tell_cr_def)
    qed
  next
    fix q err assume "map_get (cr_listRequests v) ?g = Some q"
    then show "?P (list_failed (lq_key q) ?g err (list_taken ?g v))" by (rule failed)
  qed (use q claim in \<open>auto simp: applyListUnavailable_def\<close>)
qed

section \<open>The thread\<close>

definition thread_spins :: "conversation_runtime \<Rightarrow> bool" where
  "thread_spins v \<longleftrightarrow> (ts_loading (cr_thread v) \<longrightarrow> ts_state (cr_thread v) = None)
     \<and> (\<not> cr_disposed v \<and> ts_loading (cr_thread v) \<and> cr_loadedId v \<noteq> None
         \<longrightarrow> (\<exists>key. map_get (cr_newestRequests v) (cr_newestGeneration v) = Some (key, True)))"

lemma spins_quiet: "quiet w v \<Longrightarrow> thread_spins v \<Longrightarrow> thread_spins w"
proof -
  assume "quiet w v" and inv: "thread_spins v"
  then have same: "core w = core v" "reads w = reads v" by (simp_all add: quiet_def)
  show ?thesis using inv unfolding thread_spins_def core_fields [OF same(1)] reads_fields [OF same(2)] .
qed

lemma spins_idle: "\<not> ts_loading (cr_thread v) \<Longrightarrow> thread_spins v"
  by (simp add: thread_spins_def)

lemma spins_parts [simp]: "thread_spins v \<Longrightarrow> thread_spins (emit v)" "thread_spins v \<Longrightarrow> thread_spins (stopRefresh v)"
  by (erule spins_quiet [OF quiet_emit], erule spins_quiet [OF quiet_stop])

lemma loaded_at:
  assumes "well_placed v" "cr_loadedId v \<noteq> None"
  obtains key c i where "cr_contextKey v = Some key" "cr_context v = Some c" "cr_loadedId v = Some i"
  using assms by (auto simp: well_placed_def opened_def open_id_def EMPTY_LIST_def split: option.splits if_splits)

text \<open>A read the reader asked for is the current one; the passive ones run only while nothing is loading.\<close>

lemma spins_start: "well_placed v \<Longrightarrow> (ts_loading (cr_thread v) \<Longrightarrow> ts_state (cr_thread v) = None) \<Longrightarrow> thread_spins (startNewest True v)"
proof (cases "cr_loadedId v = None")
  case False
  assume "well_placed v" "ts_loading (cr_thread v) \<Longrightarrow> ts_state (cr_thread v) = None"
  moreover obtain key c i where "cr_contextKey v = Some key" "cr_context v = Some c" "cr_loadedId v = Some i"
    using loaded_at [OF \<open>well_placed v\<close> False] .
  ultimately show ?thesis by (simp add: thread_spins_def) (simp add: startNewest_def Let_def)
qed (simp add: thread_spins_def)

lemma spins_reload [simp]: "well_placed v \<Longrightarrow> (ts_loading (cr_thread v) \<Longrightarrow> ts_state (cr_thread v) = None) \<Longrightarrow> thread_spins (reloadNewest v)"
proof -
  assume "well_placed v" "ts_loading (cr_thread v) \<Longrightarrow> ts_state (cr_thread v) = None"
  then have "thread_spins (startNewest True (v\<lparr>cr_newestInFlight := None, cr_newestPending := False\<rparr>))" by (intro spins_start) simp_all
  then show ?thesis by (simp add: reloadNewest_def requestNewest_def)
qed

lemma spins_passive:
  assumes "thread_spins v" "refreshWanted v"
  shows "thread_spins (poll v)" "thread_spins (startNewest False v)"
proof -
  have "\<not> ts_loading (cr_thread v)" using assms by (auto simp: thread_spins_def refreshWanted_def)
  then show "thread_spins (poll v)" "thread_spins (startNewest False v)" by (simp_all add: spins_idle)
qed

lemma spins_sync [simp]: "thread_spins v \<Longrightarrow> thread_spins (syncRefresh source v)"
proof (cases "refreshWanted v")
  case True
  assume "thread_spins v"
  then have "\<not> ts_loading (cr_thread v)" using True by (auto simp: thread_spins_def refreshWanted_def)
  then show ?thesis by (simp add: spins_idle)
qed (simp add: syncRefresh_def)

lemma spins_slots [simp]: "thread_spins (v\<lparr>cr_newestInFlight := a\<rparr>) = thread_spins v" "thread_spins (v\<lparr>cr_newestPending := b\<rparr>) = thread_spins v"
  "thread_spins (v\<lparr>cr_listGeneration := c\<rparr>) = thread_spins v" "thread_spins (v\<lparr>cr_listRequests := d\<rparr>) = thread_spins v"
  "thread_spins (v\<lparr>cr_settling := e\<rparr>) = thread_spins v" "thread_spins (v\<lparr>cr_listeners := f\<rparr>) = thread_spins v"
  "thread_spins (v\<lparr>cr_list := l\<rparr>) = thread_spins v" "thread_spins (v\<lparr>cr_chosen := h\<rparr>) = thread_spins v"
  "thread_spins (v\<lparr>cr_olderGeneration := i\<rparr>) = thread_spins v" "thread_spins (v\<lparr>cr_olderRequests := j\<rparr>) = thread_spins v"
  "thread_spins (v\<lparr>cr_positions := p\<rparr>) = thread_spins v" "thread_spins (tell_cr call v) = thread_spins v"
  by (simp_all add: thread_spins_def)

lemma spins_settle [simp]: "thread_spins v \<Longrightarrow> thread_spins (settleNewest g v)"
  by (simp add: settleNewest_def spins_passive refreshWanted_def Let_def)

lemma spins_directory [simp]: "thread_spins v \<Longrightarrow> thread_spins (list_taken g v)" "thread_spins v \<Longrightarrow> thread_spins (list_failed key g err v)"
  "thread_spins v \<Longrightarrow> thread_spins (ask_page g q v)" "thread_spins v \<Longrightarrow> thread_spins (fetchList key g v)"
  by (simp_all add: list_taken_def list_failed_def ask_page_def fetchList_def split: option.split sum.split)

lemma spins_left: "well_placed (left i v) \<Longrightarrow> thread_spins (requestNewest True (thread_reset i v))"
proof -
  assume "well_placed (left i v)"
  then have "thread_spins (startNewest True (stopRefresh (left i v)))"
    by (intro spins_start) (simp_all add: left_def EMPTY_THREAD_def)
  moreover have "cr_newestInFlight (stopRefresh (left i v)) = None" by (simp add: left_def)
  ultimately show ?thesis by (simp add: thread_reset_left requestNewest_def)
qed

lemma spins_thread:
  assumes spins: "thread_spins v" and placed: "well_placed v" "cr_contextKey v \<noteq> None"
  shows "thread_spins (syncThread (v\<lparr>cr_list := l\<rparr>))" "thread_spins (syncThread (v\<lparr>cr_chosen := choice\<rparr>))"
proof -
  have sync: "thread_spins (syncThread w)" if "thread_spins w" "claims w"
    "cr_contextKey w = map_option (ad_contextKey (cr_adapter w)) (cr_context w)" "cr_contextKey w \<noteq> None" for w
  proof (rule syncThread_rule)
    fix opened assume "opened = open_id w" "opened = None \<or> cr_context w = None"
    then have "cr_loadedId (thread_reset opened w) = None" using that(3,4) by (auto simp: thread_reset_def)
    then show "thread_spins (thread_reset opened w)" by (simp add: thread_spins_def) (simp add: thread_reset_def EMPTY_THREAD_def)
  next
    fix i assume "open_id w = Some i"
    then have "well_placed (left (Some i) w)"
      using that(2-4) by (auto simp: well_placed_def opened_def claims_def left_def)
    then show "thread_spins (requestNewest True (thread_reset (Some i) w))" by (rule spins_left)
  qed (use that in simp)
  show "thread_spins (syncThread (v\<lparr>cr_list := l\<rparr>))" "thread_spins (syncThread (v\<lparr>cr_chosen := choice\<rparr>))"
    using placed spins by (auto simp: well_placed_def opened_def claims_def intro!: sync)
qed

lemma spins_listed [simp]: "well_placed v \<Longrightarrow> thread_spins v \<Longrightarrow> thread_spins (listAnswered g answer v)"
proof (rule listAnswered_rule)
  fix q res assume v: "well_placed v" "thread_spins v" "wanted (lq_key q) g (cr_listGeneration v) v"
  show "thread_spins (applyListUnavailable res (list_taken g v))"
    using v unfolding applyListUnavailable_def by (intro spins_parts spins_thread) (simp_all add: wanted_def)
next
  fix q a assume v: "well_placed v" "thread_spins v" "wanted (lq_key q) g (cr_listGeneration v) v"
  show "thread_spins (emit (syncThread ((list_taken g v)\<lparr>cr_list := \<lparr>ls_state = Some DirectoryReady, ls_conversations = ag_conversations a,
      ls_bindingId = ag_bindingId a, ls_loading = False, ls_error = None\<rparr>\<rparr>)))"
    using v by (intro spins_parts spins_thread) (simp_all add: wanted_def)
qed simp_all

lemma spins_newest:
  assumes placed: "well_placed v" and spins: "thread_spins v"
  shows "thread_spins (newestAnswered source g answer v)"
proof (cases "map_get (cr_newestRequests v) g")
  case (Some q)
  obtain key report where q: "q = (key, report)" by (cases q)
  define v0 where "v0 = v\<lparr>cr_newestRequests := map_delete g (cr_newestRequests v)\<rparr>"
  have claim: "current_only (cr_newestRequests v) (cr_newestGeneration v) (newest_claim (cr_contextKey v) (cr_loadedId v))"
    using placed by (simp add: well_placed_def claims_def)
  have wanted: "wanted key g (cr_newestGeneration v0) v0 \<longleftrightarrow> \<not> cr_disposed v \<and> g = cr_newestGeneration v"
    using currentD [OF claim Some] q by (auto simp: wanted_def v0_def newest_claim_def)
  have idle: "thread_spins v0" if "\<not> wanted key g (cr_newestGeneration v0) v0"
    using spins that wanted by (auto simp: thread_spins_def v0_def)
  have state: "ts_loading (cr_thread v0) \<Longrightarrow> ts_state (cr_thread v0) = None" using spins by (simp add: thread_spins_def v0_def)
  have report: "thread_spins v0" if "\<not> report"
    using spins that Some q by (auto simp: thread_spins_def v0_def)
  have "thread_spins (v0\<lparr>cr_thread := t\<rparr>)" if "\<not> ts_loading t" for t using that by (intro spins_idle) simp
  then have "thread_spins (failNewest key g v0)" "thread_spins (applyNewest source page key g v0)" for page
    using idle by (auto simp: failNewest_def applyNewest_def intro!: spins_parts spins_sync) (simp_all add: spins_idle)
  then show ?thesis using Some q report
    by (simp add: newestAnswered_def v0_def [symmetric] Let_def split: sum.split)
qed (simp add: newestAnswered_def spins)

lemma spins_same_thread: "thread_spins v \<Longrightarrow> ts_loading t = ts_loading (cr_thread v) \<Longrightarrow> ts_state t = ts_state (cr_thread v) \<Longrightarrow>
    thread_spins (v\<lparr>cr_thread := t\<rparr>)"
  by (simp add: thread_spins_def)

lemma spins_older [simp]: "thread_spins v \<Longrightarrow> thread_spins (olderAnswered g answer v)" "thread_spins v \<Longrightarrow> thread_spins (snd (loadOlder v))"
proof -
  assume spins: "thread_spins v"
  show "thread_spins (olderAnswered g answer v)"
    using spins by (simp add: olderAnswered_def spins_same_thread Let_def split: option.split sum.split)
  show "thread_spins (snd (loadOlder v))"
    using spins by (simp add: loadOlder_def fetchOlder_def spins_same_thread Let_def split: option.split)
qed

lemma spins_context: "well_placed v \<Longrightarrow> thread_spins v \<Longrightarrow> thread_spins (setContext source ctx v)"
proof (rule setContext_rule)
  fix c k q assume v: "well_placed v" "thread_spins v" and c: "ctx = Some c" "k = ad_contextKey (cr_adapter v) c"
  show "thread_spins (syncRefresh source (rearm k (revoked ctx q v)))" if "cr_contextKey v = Some k"
  proof -
    define w where "w = fetchList k (cr_listGeneration (revoked ctx q v)) (revoked ctx q v)"
    have "well_placed w" using placed_revoked [OF v(1), of ctx q] c that by (simp add: w_def)
    moreover have "cr_thread w = cr_thread v"
      by (simp add: w_def fetchList_asks [of _ c] c) (simp add: revoked_def Let_def)
    ultimately have "thread_spins (reloadNewest w)" using v(2) by (intro spins_reload) (simp_all add: thread_spins_def)
    moreover have "cr_loadedId w = None \<Longrightarrow> thread_spins w" using v(2) \<open>cr_thread w = cr_thread v\<close> by (simp add: thread_spins_def)
    ultimately show ?thesis unfolding rearm_def Let_def w_def [symmetric] by simp
  qed
  have "thread_spins (moved ctx k q v)" for k q
    by (simp add: thread_spins_def) (simp add: moved_def EMPTY_THREAD_def Let_def)
  then show "thread_spins (fetchList k (Suc (cr_listGeneration (moved ctx (Some k) q v)))
      ((moved ctx (Some k) q v)\<lparr>cr_listGeneration := Suc (cr_listGeneration (moved ctx (Some k) q v))\<rparr>))" by simp
next
  show "thread_spins (moved None None None v)" by (simp add: thread_spins_def) (simp add: moved_def EMPTY_THREAD_def Let_def)
  show "thread_spins (syncRefresh source (v\<lparr>cr_disposed := False, cr_context := ctx, cr_requestKey := cr_requestKey v\<rparr>))"
    if "thread_spins v" "\<not> cr_disposed v" using that by (intro spins_sync) (simp add: thread_spins_def)
qed

definition spinning_inv :: "conversation_runtime \<Rightarrow> bool" where
  "spinning_inv v \<longleftrightarrow> reader_inv v \<and> thread_spins v \<and> list_spins v"

lemma spinning_step: "spinning_inv v \<Longrightarrow> spinning_inv (conversation_step v e)"
proof -
  assume inv: "spinning_inv v"
  then have v: "well_placed v" "refresh_inv v" "thread_spins v" "list_spins v" by (simp_all add: spinning_inv_def reader_inv_def)
  have armed: "refreshWanted v" if "cr_refreshArmedFor v \<noteq> None" using v(2) that by (auto simp: refresh_inv_def refresh_apt_def)
  have "thread_spins (conversation_step v e)"
  proof (cases e)
    case (IntervalFires t)
    have "t \<in> set (cr_armed v) \<Longrightarrow> cr_refreshArmedFor v \<noteq> None"
      using v(2) by (auto simp: refresh_inv_def refresh_held_def split: option.splits)
    then show ?thesis using IntervalFires v(3) armed by (simp add: intervalFires_def spins_passive(1))
  next
    case (PushSignalled n)
    have "push_current n v \<Longrightarrow> cr_refreshArmedFor v \<noteq> None" by (auto simp: push_current_def Let_def split: option.splits)
    then show ?thesis using PushSignalled v(3) armed by (simp add: pushSignal_def spins_passive(1))
  next
    case (Select i)
    have "thread_spins (select i v)"
      using v spins_thread(2) [OF v(3) v(1)] by (simp add: select_def split: option.split)
    then show ?thesis using Select by simp
  next
    case Reload
    have "thread_spins (reloadNewest (fetchList key (Suc (cr_listGeneration v)) (v\<lparr>cr_listGeneration := Suc (cr_listGeneration v)\<rparr>)))"
      if "cr_contextKey v = Some key" for key
      using v that
      by (intro spins_reload placed_fetch placed_list_generation) (auto simp: thread_spins_def fetchList_def ask_page_def list_failed_def
          split: option.splits sum.splits)
    then show ?thesis using Reload v(3) by (simp add: reload_def split: option.split)
  next
    case DisposeConversation
    have "thread_spins (dispose_conversation v)" using v(3) by (simp add: dispose_halted) (simp add: thread_spins_def halted_def)
    then show ?thesis using DisposeConversation by simp
  qed (use v in \<open>simp_all add: spins_context spins_newest newestSettles_def split: list.split\<close>)
  then show ?thesis using inv list_spins.step [OF v(4,1)] by (simp add: spinning_inv_def reader_step)
qed

interpretation spinning: event_machine conversation_step spinning_inv
  by unfold_locales (rule spinning_step)

lemma spinning_new: "spinning_inv (new_conversation_runtime ad n)"
  by (simp add: spinning_inv_def thread_spins_def list_spins_def)
    (simp add: new_conversation_runtime_def EMPTY_THREAD_def)

lemma newest_answer_ends:
  assumes "well_placed v" "\<not> cr_disposed v" "map_get (cr_newestRequests v) (cr_newestGeneration v) = Some (key, True)"
  shows "\<not> ts_loading (cr_thread (newestAnswered source (cr_newestGeneration v) answer v))"
proof -
  have "current_only (cr_newestRequests v) (cr_newestGeneration v) (newest_claim (cr_contextKey v) (cr_loadedId v))"
    using assms(1) by (simp add: well_placed_def claims_def)
  from currentD [OF this assms(3)] have "cr_contextKey v = Some key" by (simp add: newest_claim_def)
  then have "wanted key (cr_newestGeneration v) (cr_newestGeneration v) (v\<lparr>cr_newestRequests := m\<rparr>)" for m
    using assms(2) by (simp add: wanted_def)
  then show ?thesis using assms(3) by (simp add: newestAnswered_def applyNewest_def failNewest_def Let_def split: sum.split)
qed



end
