(* ===== verification/Spec2Isabelle.thy ===== *)
theory Spec2Isabelle
  imports Stream_Recovery Input_Delivery Applied_Cursor Terminal_Writer Attach Direction_Pad App_Swipe Clipboard_Safety Conversation_Laws Processes_Laws Sizing Controller_Laws
    Session_Acks Session_View Runtime_Registry Socket_Onward Reader_Spinners
begin

text \<open>
  Nession, web client: a verification development of the logic that keeps a remote terminal consistent
  on an unreliable connection, and of the pure logic of the views around it. Paths are under
  \<^verbatim>\<open>src/web/src\<close> unless said otherwise; TR stands for \<^verbatim>\<open>platform/terminal-runtime\<close>.

  \<^bold>\<open>The program's parts and how they meet.\<close> An agent runs the shell and numbers its output with a
  stream epoch and sequence numbers. The browser receives frames live, over two routes, and on request
  as replays. The stream reconciler puts them into one order without gaps and doubles and hands them to
  its sink; the terminal controller writes them through a serialized writer into the emulator and reports
  each event once it is parsed; the applied cursor turns these reports into the contiguous position that
  is acknowledged. In the other direction typed input waits in a queue until the agent's cursor has
  taken it. The session runtime is the authority above them: it attaches a session over its candidate addresses
  or the relay, builds a transport for each generation, and decides from what was parsed what may be claimed
  about the history on screen and acknowledged; views lease it from a registry. A program in the terminal
  reaches the clipboard by OSC 52 and 5522. Around the terminal there are touch gestures, the
  conversation view of an AI session, the process view and the fit of the font.

  \<^bold>\<open>Theories.\<close> Each names its sources at its head; records have the fields of the class they model,
  constants have the methods' names.

  \<^item> \<open>Nession_Prelude\<close>: JavaScript's insertion-ordered \<open>Map\<close>, safe integers, decimal printing, calls
    that may throw, and the three contracts of event-driven objects as locales: \<open>event_machine\<close> (a step
    keeps an invariant), \<open>logging_machine\<close> (what was told to the outside only grows), \<open>frontier_machine\<close>
    (a position moves forward within a generation). Every stateful component interprets them.
  \<^item> \<open>Base64\<close>, \<open>Utf8\<close>: the strict base64 codec, \<open>atob\<close>, UTF-16 to UTF-8 and back; round trips.
  \<^item> \<open>Stream_Events\<close>: TR/streamApply.ts and TR/bootstrap.ts: events of a replay, bootstrap markers and
    the baseline a marker proves.
  \<^item> \<open>Stream_Reconciler\<close> (model), \<open>Stream_Delivery\<close> (invariant, order, losslessness), \<open>Stream_Recovery\<close>
    (recovery, bounds, properties): TR/streamReconciler.ts.
  \<^item> \<open>Input_Queue\<close>, \<open>Input_Delivery\<close>: TR/inputQueue.ts, the input path of TR/ConnectionManager.ts and the
    agent's input cursor (\<^verbatim>\<open>src/crates/nession-agent/src/session\<close>); exactly-once input, bounds, counted losses.
  \<^item> \<open>Applied_Cursor\<close>: TR/AppliedTerminalCursor.ts; the cursor is the longest contiguous prefix parsed.
  \<^item> \<open>Terminal_Writer\<close>: TR/controller/SerializedTerminalWriter.ts; it refines performing the accepted
    operations one after the other.
  \<^item> \<open>Terminal_Controller\<close>, \<open>Controller_Laws\<close>: the rendering core of TR/controller/TerminalController.ts
    on top of the writer; order of the parsed events per transport, repair of a halted writer.
  \<^item> \<open>Attach\<close>: platform/attach: the phase is a record of the events that happened; the locale \<open>counted_attempts\<close> reads
    what a row of failed attempts tells off their count, so the controller's retries are exact; superseded attaches are inert.
  \<^item> \<open>Address_Policy\<close>: platform/attach/AddressAttachPolicy.ts and shared/lib/agentWsUrl.ts: the candidate
    addresses and the dialled URL.
  \<^item> \<open>Session_Runtime\<close> (model), \<open>Session_Laws\<close> (the locales \<open>runtime_relation\<close> and \<open>closing_relation\<close>: what holds
    over the primitive updates holds over every event; a loss is stated until it is repaired), \<open>Session_Acks\<close>
    (acknowledgements cover parsed positions; probes blame their socket), \<open>Session_View\<close> (the published snapshot;
    runs that leave something unattended): platform/session-runtime/SessionRuntime.ts over \<open>Attach\<close>, \<open>Address_Policy\<close> and
    \<open>Applied_Cursor\<close>. \<open>Runtime_Registry\<close>: SessionRuntimeRegistry.ts; a leased runtime lives.
  \<^item> \<open>Socket_Service\<close> (model; the states it tells are in \<open>Connection_State\<close>), \<open>Socket_Frames\<close> and \<open>Socket_Links\<close> (what each part
    leaves alone and tells, the attempt and its socket), \<open>Socket_Laws\<close> (a request is answered by its own response), \<open>Socket_Waiting\<close>
    (what keeps each open promise; disposal is final), \<open>Socket_Recovery\<close> (the schedule of the
    reconnects; being connected; runs that show defects), \<open>Socket_Settlement\<close> (what each timer, socket event and settlement
    settles), \<open>Socket_Onward\<close> (the locale \<open>wait_stage\<close>: waits only move on, and no wait is left in a stage whose end has come):
    platform/socket/WebSocketService.ts and MessageRouter.ts. Promises and
    sockets are numbers; what the browser does is an event. The runs called orderly are those in which the current socket is
    quiet while a URL is being resolved for the next one, as every run is whose service resolves no URLs.
  \<^item> \<open>Osc\<close>, \<open>Clipboard\<close>, \<open>Clipboard_Safety\<close>: TR/clipboard: packets, the OSC 52 and 5522 protocol,
    gating, faithfulness and bounds of what reaches the browser's clipboard.
  \<^item> \<open>Direction_Pad\<close>, \<open>App_Swipe\<close>: product/terminal/gesture/directionPadEngine.ts and the swipe of
    app/experiences/app; timers match the phase, repeat rates, who may decide a swipe.
  \<^item> \<open>Conversation\<close>, \<open>Conversation_Laws\<close>: shared/ai-conversation: windows, turns, grouped rows.
  \<^item> \<open>Conversation_Runtime\<close> (model): shared/ai-conversation/runtime/ConversationRuntime.ts over the windows of \<open>Conversation\<close>, and the
    provider's contract in adapter/types.ts. \<open>Reader_Frames\<close> (what each part leaves alone, the cases of the larger operations),
    \<open>Reader_State\<close> (the slot of the newest read, the published snapshot), \<open>Reader_Claims\<close> (what the requests on their way are for; the
    state is well formed), \<open>Reader_Refresh\<close> (the refresh runs exactly while it is wanted), \<open>Reader_Steps\<close> (the locale
    \<open>reader_invariant\<close>: what an invariant owes the single transitions), \<open>Reader_Runs\<close> (concrete runs, two of them show defects),
    \<open>Reader_Laws\<close> (bounded directory, no message under a wrong conversation, revoked requests), \<open>Reader_Spinners\<close> (a
    spinner is ended by whatever answers the request behind it).
  \<^item> \<open>Processes\<close>, \<open>Processes_Laws\<close>: product/agent/model/processSnapshot.ts: forest and descendants.
  \<^item> \<open>Sizing\<close>: TR/sizing.ts and TR/grid.ts: the font search.

  \<^bold>\<open>How effects are modelled.\<close> An object is a record, a method a function on it, and a call of the outside
  an entry in a log field. Timers, promises and parser callbacks are events; a theorem about a run speaks of every
  order of events, also of orders that a browser cannot produce, unless it says so. A call that may throw
  returns \<open>Throw\<close> with the state it leaves behind. Sinks and callbacks of the owner do not call back
  into the object and do not throw. Numbers that the wire's JSON carries are integers; coordinates, times and sizes are
  exact rationals or integers where the code has doubles; bytes and UTF-16 code units are words.
  Code that is not in the repository is a parameter: what the renderer measures, whether the
  emulator parses a write at once, \<open>Date.parse\<close>, the browser's clipboard.

  \<^bold>\<open>Bounds and fuel.\<close> \<open>buildProcessTree\<close> recurses with the number of processes as fuel:
  \<open>process_forest_complete\<close> shows that this reaches every process that is the first of its PID and hangs from a root through
  such processes. The font search runs its 16
  probes as in the code. The loops of the reconciler, the writer, the cursor, the queue and the walk over
  descendants are functions with a measure, so they are total.

  \<^bold>\<open>Not modelled.\<close> The Rust server, agent and libraries apart from the input cursor; the protocol
  directory and the server connection; input sources, IME, geometry and links of
  the terminal; React components and hooks; generated protocol types; the scripts of the repository.
  They are I/O, markup, or a second program in another language. Locale-dependent printing of dates is left out.
\<close>

section \<open>Components together\<close>

text \<open>
  The runtime seeds the transport of the next candidate as a continuation (\<open>rotation_seeds_new_transport\<close> of
  \<open>Session_View\<close>), and a reconciler that has not seen the stream takes the stated cursor for its frontier: it
  asks for nothing below it, and states no truncation.
\<close>

lemma fresh_reconciler_jumps:
  "let s = reconciler_step (the (new_reconciler None None)) (Seed (Some 1) (Some 99) True)
   in sr_frontier s = Some 99 \<and> sr_sink s = [] \<and> map (\<lambda>(epoch, after, flight). (epoch, after)) (sr_resumes s) = [(1, 99)]"
  by code_simp

end
